(* ===== verification/Prelude.thy ===== *)
theory Prelude
  imports Main "HOL-Library.Word" "HOL-Library.AList"
begin

text \<open>
  What the components share: the machine types, the exceptions and the effect type of the
  C++ methods with its weakest-precondition calculus, little-endian byte codecs and the
  list lemmas about overwriting a run of bytes.
\<close>

section \<open>Machine types\<close>

type_synonym byte = "8 word"
type_synonym u16 = "16 word"
type_synonym u32 = "32 word"
type_synonym u64 = "64 word"

named_theorems wp_eqs \<open>weakest-precondition equations of the effect combinators and operations\<close>
named_theorems codec_simps \<open>round-trip and length equations of the byte codecs\<close>

section \<open>Exceptions and effects\<close>

text \<open>
  A C++ method that works on mutable state and may throw is a function from the state to a
  result and the state it leaves. An exception keeps the mutations made before the throw,
  as the code does (there is no rollback), so the state is returned in both cases.
  \<open>Undefined_behaviour\<close> marks the points where the C++ text has no defined meaning
  (a write outside a page, \<open>front()\<close> of an empty vector), and \<open>Diverges\<close> a loop
  that ran out of the fuel of its model.
\<close>

datatype exn =
    Runtime_error string
  | Out_of_range string
  | Invalid_argument string
  | Undefined_behaviour string
  | Diverges

type_synonym ('s, 'a) eff = "'s \<Rightarrow> (exn + 'a) \<times> 's"

definition ret :: "'a \<Rightarrow> ('s, 'a) eff" where
  "ret x s = (Inr x, s)"

definition throw :: "exn \<Rightarrow> ('s, 'a) eff" where
  "throw e s = (Inl e, s)"

definition bind :: "('s, 'a) eff \<Rightarrow> ('a \<Rightarrow> ('s, 'b) eff) \<Rightarrow> ('s, 'b) eff" where
  "bind m f s = (case m s of (Inl e, s') \<Rightarrow> (Inl e, s') | (Inr x, s') \<Rightarrow> f x s')"

definition andthen :: "('s, 'a) eff \<Rightarrow> ('s, 'b) eff \<Rightarrow> ('s, 'b) eff" where
  "andthen m k = bind m (\<lambda>_. k)"

definition gets :: "('s \<Rightarrow> 'a) \<Rightarrow> ('s, 'a) eff" where
  "gets f s = (Inr (f s), s)"

definition modify :: "('s \<Rightarrow> 's) \<Rightarrow> ('s, unit) eff" where
  "modify f s = (Inr (), f s)"

definition guard :: "bool \<Rightarrow> exn \<Rightarrow> ('s, unit) eff" where
  "guard b e = (if b then ret () else throw e)"

definition whenever :: "bool \<Rightarrow> ('s, unit) eff \<Rightarrow> ('s, unit) eff" where
  "whenever b m = (if b then m else ret ())"

fun for_each :: "('a \<Rightarrow> ('s, unit) eff) \<Rightarrow> 'a list \<Rightarrow> ('s, unit) eff" where
  "for_each f [] = ret ()"
| "for_each f (x # xs) = andthen (f x) (for_each f xs)"

fun repeat :: "nat \<Rightarrow> ('s, 'a) eff \<Rightarrow> ('s, 'a list) eff" where
  "repeat 0 m = ret []"
| "repeat (Suc n) m = bind m (\<lambda>x. bind (repeat n m) (\<lambda>xs. ret (x # xs)))"

definition result :: "(exn + 'a) \<times> 's \<Rightarrow> exn + 'a" where
  "result r = fst r"

definition final :: "(exn + 'a) \<times> 's \<Rightarrow> 's" where
  "final r = snd r"

lemma bind_cong [fundef_cong]:
  assumes "m s = m' s" "s = s'" "\<And>x t. m' s' = (Inr x, t) \<Longrightarrow> f x t = g x t"
  shows "bind m f s = bind m' g s'"
  using assms by (auto simp: bind_def split: prod.splits sum.splits)

lemma andthen_cong [fundef_cong]:
  assumes "m s = m' s" "s = s'" "\<And>x t. m' s' = (Inr x, t) \<Longrightarrow> k t = k' t"
  shows "andthen m k s = andthen m' k' s'"
  unfolding andthen_def by (rule bind_cong) (use assms in auto)

lemma bind_gets_ignored [simp]: "bind (gets f) (\<lambda>_. m) = m"
  by (rule ext) (simp add: bind_def gets_def)

subsection \<open>Weakest preconditions\<close>

text \<open>
  \<open>wp m Q E s\<close>: run from \<open>s\<close>, the method either returns a value and a state that
  satisfy \<open>Q\<close> or throws and leaves a state that satisfies \<open>E\<close>. The equations of the
  combinators are simp rules, so a proof about a method unfolds it and simplifies.
\<close>

definition wp :: "('s, 'a) eff \<Rightarrow> ('a \<Rightarrow> 's \<Rightarrow> bool) \<Rightarrow> (exn \<Rightarrow> 's \<Rightarrow> bool) \<Rightarrow> 's \<Rightarrow> bool" where
  "wp m Q E s = (case m s of (Inl e, s') \<Rightarrow> E e s' | (Inr x, s') \<Rightarrow> Q x s')"

lemma wp_ret [wp_eqs]: "wp (ret x) Q E s = Q x s"
  by (simp add: wp_def ret_def)

lemma wp_throw [wp_eqs]: "wp (throw e) Q E s = E e s"
  by (simp add: wp_def throw_def)

lemma wp_bind [wp_eqs]: "wp (bind m f) Q E s = wp m (\<lambda>x. wp (f x) Q E) E s"
  by (auto simp: wp_def bind_def split: prod.splits sum.splits)

lemma wp_andthen [wp_eqs]: "wp (andthen m k) Q E s = wp m (\<lambda>_. wp k Q E) E s"
  by (simp add: andthen_def wp_bind)

lemma wp_bind_fun: "wp (bind m f) Q E = wp m (\<lambda>x. wp (f x) Q E) E"
  by (rule ext) (rule wp_bind)

lemma wp_andthen_fun: "wp (andthen m k) Q E = wp m (\<lambda>_. wp k Q E) E"
  by (rule ext) (rule wp_andthen)

lemma wp_gets [wp_eqs]: "wp (gets f) Q E s = Q (f s) s"
  by (simp add: wp_def gets_def)

lemma wp_modify [wp_eqs]: "wp (modify f) Q E s = Q () (f s)"
  by (simp add: wp_def modify_def)

lemma wp_guard [wp_eqs]: "wp (guard b e) Q E s = (if b then Q () s else E e s)"
  by (simp add: guard_def wp_ret wp_throw)

lemma wp_whenever [wp_eqs]: "wp (whenever b m) Q E s = (if b then wp m Q E s else Q () s)"
  by (simp add: whenever_def wp_ret)

lemma wp_if [wp_eqs]: "wp (if b then m else n) Q E s = (if b then wp m Q E s else wp n Q E s)"
  by simp

lemma wp_mono:
  assumes "wp m Q E s" "\<And>x t. Q x t \<Longrightarrow> Q' x t" "\<And>e t. E e t \<Longrightarrow> E' e t"
  shows "wp m Q' E' s"
  using assms by (auto simp: wp_def split: prod.splits sum.splits)

lemma wp_conj:
  assumes "wp m Q E s" "wp m Q' E' s"
  shows "wp m (\<lambda>x t. Q x t \<and> Q' x t) (\<lambda>e t. E e t \<and> E' e t) s"
  using assms by (auto simp: wp_def split: prod.splits sum.splits)

lemma wp_returns: "wp m Q (\<lambda>_ _. False) s \<longleftrightarrow> (\<exists>x t. m s = (Inr x, t) \<and> Q x t)"
  by (auto simp: wp_def split: prod.splits sum.splits)

lemma wp_runD: "wp m Q E s \<Longrightarrow> m s = (Inr x, t) \<Longrightarrow> Q x t"
  by (simp add: wp_def)

lemma wp_throwD: "wp m Q E s \<Longrightarrow> m s = (Inl e, t) \<Longrightarrow> E e t"
  by (simp add: wp_def)

lemma wp_for_each:
  assumes "I s" "\<And>x t. x \<in> set xs \<Longrightarrow> I t \<Longrightarrow> wp (f x) (\<lambda>_. I) E t"
  shows "wp (for_each f xs) (\<lambda>_. I) E s"
  using assms
proof (induction xs arbitrary: s)
  case Nil
  then show ?case by (simp add: wp_eqs)
next
  case (Cons x xs)
  have "wp (f x) (\<lambda>_. wp (for_each f xs) (\<lambda>_. I) E) E s"
    by (rule wp_mono [OF Cons.prems(2)]) (use Cons in auto)
  then show ?case by (simp add: wp_eqs)
qed

subsection \<open>Pure methods that may throw\<close>

fun sbind :: "exn + 'a \<Rightarrow> ('a \<Rightarrow> exn + 'b) \<Rightarrow> exn + 'b" where
  "sbind (Inl e) f = Inl e"
| "sbind (Inr x) f = f x"

lemma sbind_cong [fundef_cong]:
  "m = m' \<Longrightarrow> (\<And>x. m' = Inr x \<Longrightarrow> f x = g x) \<Longrightarrow> sbind m f = sbind m' g"
  by (cases m') auto

lemma sbind_Inr_conv: "sbind m f = Inr y \<longleftrightarrow> (\<exists>x. m = Inr x \<and> f x = Inr y)"
  by (cases m) auto

fun smap :: "('a \<Rightarrow> exn + 'b) \<Rightarrow> 'a list \<Rightarrow> exn + 'b list" where
  "smap f [] = Inr []"
| "smap f (x # xs) = sbind (f x) (\<lambda>y. sbind (smap f xs) (\<lambda>ys. Inr (y # ys)))"

text \<open>A pure computation inside an effectful one.\<close>

definition lift :: "exn + 'a \<Rightarrow> ('s, 'a) eff" where
  "lift r = (case r of Inl e \<Rightarrow> throw e | Inr x \<Rightarrow> ret x)"

lemma wp_lift [wp_eqs]: "wp (lift r) Q E s = (case r of Inl e \<Rightarrow> E e s | Inr x \<Rightarrow> Q x s)"
  by (cases r) (simp_all add: lift_def wp_ret wp_throw)

section \<open>Little-endian byte codecs\<close>

text \<open>
  \<open>memcpy\<close> of an integer on the little-endian targets the file format is documented for,
  and the explicit shifts of the catalog's \<open>write_uint32\<close> and \<open>read_uint32\<close>, give the
  same bytes.
\<close>

definition u16_bytes :: "u16 \<Rightarrow> byte list" where
  "u16_bytes v = [ucast v, ucast (drop_bit 8 v)]"

definition u32_bytes :: "u32 \<Rightarrow> byte list" where
  "u32_bytes v = [ucast v, ucast (drop_bit 8 v), ucast (drop_bit 16 v), ucast (drop_bit 24 v)]"

unbundle bit_operations_syntax

definition bytes_u16 :: "byte list \<Rightarrow> u16" where
  "bytes_u16 bs = ucast (bs ! 0) OR push_bit 8 (ucast (bs ! 1))"

definition bytes_u32 :: "byte list \<Rightarrow> u32" where
  "bytes_u32 bs = ucast (bs ! 0) OR push_bit 8 (ucast (bs ! 1))
     OR push_bit 16 (ucast (bs ! 2)) OR push_bit 24 (ucast (bs ! 3))"

lemma length_u16_bytes [simp]: "length (u16_bytes v) = 2"
  by (simp add: u16_bytes_def)

lemma length_u32_bytes [simp]: "length (u32_bytes v) = 4"
  by (simp add: u32_bytes_def)

lemma bytes_u16_u16_bytes [simp]: "bytes_u16 (u16_bytes v @ rest) = v"
  by (rule bit_word_eqI) (auto simp: bytes_u16_def u16_bytes_def bit_simps)

lemma bytes_u32_u32_bytes [simp]: "bytes_u32 (u32_bytes v @ rest) = v"
proof (rule bit_word_eqI)
  fix n assume "n < LENGTH(32)"
  then show "bit (bytes_u32 (u32_bytes v @ rest)) n = bit v n"
    by (cases "24 \<le> n"; cases "16 \<le> n") (auto simp: bytes_u32_def u32_bytes_def bit_simps)
qed

lemma bytes_u16_take: "2 \<le> n \<Longrightarrow> bytes_u16 (take n bs) = bytes_u16 bs"
  by (simp add: bytes_u16_def)

lemma bytes_u32_take: "4 \<le> n \<Longrightarrow> bytes_u32 (take n bs) = bytes_u32 bs"
  by (simp add: bytes_u32_def)

lemmas u16_roundtrip [simp] = bytes_u16_u16_bytes [of v "[]" for v, simplified]
lemmas u32_roundtrip [simp] = bytes_u32_u32_bytes [of v "[]" for v, simplified]

text \<open>A \<open>char\<close> is one byte, its value the unsigned code.\<close>

definition byte_of :: "char \<Rightarrow> byte" where
  "byte_of c = word_of_nat (of_char c)"

definition char_of_byte :: "byte \<Rightarrow> char" where
  "char_of_byte b = char_of (unat b)"

lemma unat_byte_of: "unat (byte_of c) = of_char c"
  by (simp add: byte_of_def unat_of_nat)

lemma char_of_byte_of [simp]: "char_of_byte (byte_of c) = c"
  by (simp add: char_of_byte_def unat_byte_of)

lemma map_char_of_byte_of [simp]: "map char_of_byte (map byte_of s) = s"
  by (induction s) auto

text \<open>\<open>std::to_string\<close> of an unsigned number.\<close>

definition digit_char :: "nat \<Rightarrow> char" where
  "digit_char d = char_of (48 + d)"

fun to_string :: "nat \<Rightarrow> string" where
  "to_string n = (if n < 10 then [digit_char n] else to_string (n div 10) @ [digit_char (n mod 10)])"

text \<open>The UTF-8 bytes of the dash in the messages.\<close>

definition em_dash :: string where
  "em_dash = [CHR 0xE2, CHR 0x80, CHR 0x94]"

declare to_string.simps [simp del]

section \<open>Overwriting a run of a list\<close>

definition overwrite :: "nat \<Rightarrow> 'a list \<Rightarrow> 'a list \<Rightarrow> 'a list" where
  "overwrite off bs xs = take off xs @ bs @ drop (off + length bs) xs"

definition chunk :: "nat \<Rightarrow> nat \<Rightarrow> 'a list \<Rightarrow> 'a list" where
  "chunk off n xs = take n (drop off xs)"

lemma length_overwrite [simp]:
  "off + length bs \<le> length xs \<Longrightarrow> length (overwrite off bs xs) = length xs"
  by (simp add: overwrite_def)

lemma length_chunk [simp]: "off + n \<le> length xs \<Longrightarrow> length (chunk off n xs) = n"
  by (simp add: chunk_def)

lemma chunk_overwrite_same:
  "off \<le> length xs \<Longrightarrow> chunk off (length bs) (overwrite off bs xs) = bs"
  by (simp add: chunk_def overwrite_def)

lemma chunk_overwrite_before:
  "o1 + n \<le> off \<Longrightarrow> off \<le> length xs \<Longrightarrow> chunk o1 n (overwrite off bs xs) = chunk o1 n xs"
  by (rule nth_equalityI) (auto simp: chunk_def overwrite_def nth_append)

lemma chunk_overwrite_after:
  "off + length bs \<le> o1 \<Longrightarrow> off + length bs \<le> length xs \<Longrightarrow>
   chunk o1 n (overwrite off bs xs) = chunk o1 n xs"
  by (simp add: chunk_def overwrite_def)

lemma nth_overwrite:
  "off + length bs \<le> length xs \<Longrightarrow> i < length xs \<Longrightarrow>
   overwrite off bs xs ! i = (if off \<le> i \<and> i < off + length bs then bs ! (i - off) else xs ! i)"
  by (auto simp: overwrite_def nth_append)

lemma drop_overwrite:
  "off \<le> length xs \<Longrightarrow> drop off (overwrite off bs xs) = bs @ drop (off + length bs) xs"
  by (simp add: overwrite_def)

end
