(* ===== verification/Disk.thy ===== *)
theory Disk
  imports Prelude
begin

text \<open>
  The page file: \<open>src/storage/page.h\<close> and the class \<open>DiskManager\<close> of
  \<open>src/storage/disk_manager.cpp\<close>. The \<open>.db\<close> file is its byte string as the OS shows
  it (\<open>db_file\<close>) together with the bytes a successful \<open>fsync\<close> has made durable
  (\<open>db_stable\<close>). The outcomes of the POSIX calls are not the code's: they are read from the
  script \<open>io\<close>, one entry per call, so that every throw of the code is a branch here; a
  call beyond the end of the script succeeds.
\<close>

section \<open>Pages\<close>

type_synonym page = "byte list"

definition PAGE_SIZE :: nat where
  "PAGE_SIZE = 4096"

definition INVALID_PAGE :: u32 where
  "INVALID_PAGE = 0xFFFFFFFF"

definition HEADER_PAGE_ID :: u32 where
  "HEADER_PAGE_ID = 0"

definition zero_page :: page where
  "zero_page = replicate PAGE_SIZE 0"

lemma length_zero_page [simp]: "length zero_page = PAGE_SIZE"
  by (simp add: zero_page_def)

lemma PAGE_SIZE_pos [simp]: "0 < PAGE_SIZE"
  by (simp add: PAGE_SIZE_def)

section \<open>State and system calls\<close>

text \<open>
  \<open>IO_ok\<close>: the call does all it was asked to. \<open>IO_short n\<close>: it fails, or stops after
  \<open>n\<close> bytes; the code treats both alike, by comparing the count with \<open>PAGE_SIZE\<close>.
\<close>

datatype io_outcome = IO_ok | IO_short nat

record disk =
  io :: "io_outcome list"
  db_file :: "byte list"
  db_stable :: "byte list"
  total_pages :: u32

definition next_outcome :: "'a disk_scheme \<Rightarrow> io_outcome" where
  "next_outcome s = (case io s of [] \<Rightarrow> IO_ok | x # _ \<Rightarrow> x)"

definition io_step :: "'a disk_scheme \<Rightarrow> 'a disk_scheme" where
  "io_step s = s\<lparr>io := tl (io s)\<rparr>"

definition next_io :: "('a disk_scheme, io_outcome) eff" where
  "next_io s = (Inr (next_outcome s), io_step s)"

text \<open>
  \<open>pwrite\<close> at an offset beyond the end of the file fills the gap with zero bytes.
\<close>

definition file_pwrite :: "nat \<Rightarrow> byte list \<Rightarrow> byte list \<Rightarrow> byte list" where
  "file_pwrite off bs f = overwrite off bs (f @ replicate (off - length f) 0)"

definition sys_pwrite :: "byte list \<Rightarrow> nat \<Rightarrow> ('a disk_scheme, nat) eff" where
  "sys_pwrite bs off = bind next_io (\<lambda>r. case r of
     IO_ok \<Rightarrow> andthen (modify (\<lambda>s. s\<lparr>db_file := file_pwrite off bs (db_file s)\<rparr>)) (ret (length bs))
   | IO_short n \<Rightarrow>
       let k = min n (length bs - 1) in
       andthen (modify (\<lambda>s. s\<lparr>db_file := (if k = 0 then db_file s else file_pwrite off (take k bs) (db_file s))\<rparr>))
         (ret k))"

definition sys_pread :: "nat \<Rightarrow> nat \<Rightarrow> ('a disk_scheme, byte list) eff" where
  "sys_pread n off = bind next_io (\<lambda>r. case r of
     IO_ok \<Rightarrow> gets (\<lambda>s. chunk off n (db_file s))
   | IO_short k \<Rightarrow> gets (\<lambda>s. chunk off (min k (n - 1)) (db_file s)))"

section \<open>DiskManager\<close>

text \<open>
  The constructor, on the outcomes of \<open>open\<close> and \<open>fstat\<close> and the bytes the file holds
  (the empty file when \<open>open\<close> created it).
\<close>

definition disk_open :: "io_outcome list \<Rightarrow> byte list \<Rightarrow> exn + disk" where
  "disk_open outcomes contents =
     (let opened = (case outcomes of IO_short _ # _ \<Rightarrow> False | _ \<Rightarrow> True);
          statted = (case drop 1 outcomes of IO_short _ # _ \<Rightarrow> False | _ \<Rightarrow> True);
          file_size = length contents
      in if \<not> opened then Inl (Runtime_error ''DiskManager: could not open or create file'')
         else if \<not> statted then Inl (Runtime_error ''DiskManager: fstat failed for file'')
         else if file_size mod PAGE_SIZE \<noteq> 0
           then Inl (Runtime_error ''DiskManager: file size is not a multiple of PAGE_SIZE'')
         else Inr \<lparr>io = drop 2 outcomes, db_file = contents, db_stable = contents,
                    total_pages = word_of_nat (file_size div PAGE_SIZE)\<rparr>)"

text \<open>
  \<open>read_page\<close> fills the caller's page; here it returns the bytes. A short read throws;
  the frame it was reading into is then free and is zeroed before it is used again.
\<close>

definition no_such_page :: "string \<Rightarrow> u32 \<Rightarrow> u32 \<Rightarrow> exn" where
  "no_such_page op page_id pages = Out_of_range (''DiskManager::'' @ op @ '': page_id '' @ to_string (unat page_id)
     @ '' is out of range (total pages: '' @ to_string (unat pages) @ '')'')"

definition transfer_failed :: "string \<Rightarrow> u32 \<Rightarrow> exn" where
  "transfer_failed op page_id = Runtime_error (''DiskManager::'' @ op @ '' failed for page_id '' @ to_string (unat page_id))"

definition read_page :: "u32 \<Rightarrow> ('a disk_scheme, page) eff" where
  "read_page page_id =
     bind (gets total_pages) (\<lambda>total.
     if page_id \<ge> total then throw (no_such_page ''read_page'' page_id total)
     else bind (sys_pread PAGE_SIZE (unat page_id * PAGE_SIZE)) (\<lambda>data.
       if length data \<noteq> PAGE_SIZE then throw (transfer_failed ''read_page: read'' page_id)
       else ret data))"

definition write_page :: "u32 \<Rightarrow> page \<Rightarrow> ('a disk_scheme, unit) eff" where
  "write_page page_id data =
     bind (gets total_pages) (\<lambda>total.
     if page_id \<ge> total then throw (no_such_page ''write_page'' page_id total)
     else bind (sys_pwrite data (unat page_id * PAGE_SIZE)) (\<lambda>written.
       if written \<noteq> PAGE_SIZE then throw (transfer_failed ''write_page: write'' page_id)
       else ret ()))"

definition disk_allocate_page :: "('a disk_scheme, u32) eff" where
  "disk_allocate_page =
     bind (gets total_pages) (\<lambda>new_page_id.
     bind (sys_pwrite zero_page (unat new_page_id * PAGE_SIZE)) (\<lambda>written.
     if written \<noteq> PAGE_SIZE
       then throw (Runtime_error ''DiskManager::allocate_page: failed to extend file for new page'')
     else andthen (modify (\<lambda>s. s\<lparr>total_pages := total_pages s + 1\<rparr>)) (ret new_page_id)))"

definition disk_sync :: "('a disk_scheme, unit) eff" where
  "disk_sync = bind next_io (\<lambda>r. case r of
     IO_ok \<Rightarrow> modify (\<lambda>s. s\<lparr>db_stable := db_file s\<rparr>)
   | IO_short _ \<Rightarrow> throw (Runtime_error ''DiskManager::sync: fsync failed''))"

text \<open>The destructor: a best-effort \<open>fsync\<close>, its outcome ignored.\<close>

definition disk_close :: "('a disk_scheme, unit) eff" where
  "disk_close = bind next_io (\<lambda>r. case r of
     IO_ok \<Rightarrow> modify (\<lambda>s. s\<lparr>db_stable := db_file s\<rparr>)
   | IO_short _ \<Rightarrow> ret ())"

section \<open>What the operations do\<close>

text \<open>
  The page that \<open>page_id\<close> names, as the OS shows it, and the invariant of an open file:
  every page below \<open>total_pages\<close> is there in full. (The file may be longer by a
  part of a page, after a failed \<open>allocate_page\<close>.)
\<close>

definition disk_page :: "'a disk_scheme \<Rightarrow> u32 \<Rightarrow> page" where
  "disk_page s page_id = chunk (unat page_id * PAGE_SIZE) PAGE_SIZE (db_file s)"

definition disk_inv :: "'a disk_scheme \<Rightarrow> bool" where
  "disk_inv s \<longleftrightarrow> unat (total_pages s) * PAGE_SIZE \<le> length (db_file s)"

lemma io_step_fields [simp]:
  "db_file (io_step s) = db_file s" "db_stable (io_step s) = db_stable s"
  "total_pages (io_step s) = total_pages s" "io (io_step s) = tl (io s)"
  "disk_page (io_step s) = disk_page s" "disk_inv (io_step s) = disk_inv s"
  "disk.more (io_step s) = disk.more s"
  by (simp_all add: io_step_def disk_page_def fun_eq_iff disk_inv_def)

lemma next_outcome_Nil [simp]: "io s = [] \<Longrightarrow> next_outcome s = IO_ok"
  by (simp add: next_outcome_def)

lemma wp_next_io [wp_eqs]: "wp next_io Q E s = Q (next_outcome s) (io_step s)"
  by (simp add: wp_def next_io_def)

lemma page_in_file:
  assumes "disk_inv s" "page_id < total_pages s"
  shows "unat page_id * PAGE_SIZE + PAGE_SIZE \<le> length (db_file s)"
proof -
  have "Suc (unat page_id) * PAGE_SIZE \<le> unat (total_pages s) * PAGE_SIZE"
    using assms(2) by (intro mult_le_mono1) (simp add: word_less_nat_alt)
  with assms(1) show ?thesis by (simp add: disk_inv_def)
qed

lemma length_disk_page [simp]:
  "disk_inv s \<Longrightarrow> page_id < total_pages s \<Longrightarrow> length (disk_page s page_id) = PAGE_SIZE"
  by (simp add: disk_page_def page_in_file)

lemma file_pwrite_inside:
  "off + length bs \<le> length f \<Longrightarrow> file_pwrite off bs f = overwrite off bs f"
  by (simp add: file_pwrite_def)

lemma file_pwrite_end:
  "file_pwrite (length f) bs f = f @ bs"
  by (simp add: file_pwrite_def overwrite_def)

text \<open>
  Writing a run of bytes inside the slot of one page leaves every other page as it was.
\<close>

lemma disk_page_write_other:
  assumes "disk_inv s" "pid < total_pages s" "q < total_pages s" "q \<noteq> pid"
    "length bs \<le> PAGE_SIZE"
  shows "chunk (unat q * PAGE_SIZE) PAGE_SIZE (file_pwrite (unat pid * PAGE_SIZE) bs (db_file s))
    = disk_page s q"
proof -
  note p = page_in_file [OF assms(1,2)] and q = page_in_file [OF assms(1,3)]
  have "unat q \<noteq> unat pid" using assms(4) by (simp add: word_unat_eq_iff)
  then consider "unat q < unat pid" | "unat pid < unat q" by linarith
  then show ?thesis
  proof cases
    case 1
    then have "unat q * PAGE_SIZE + PAGE_SIZE \<le> unat pid * PAGE_SIZE"
      using mult_le_mono1 [of "Suc (unat q)" "unat pid" PAGE_SIZE] by simp
    then show ?thesis
      using p assms(5) by (simp add: file_pwrite_inside chunk_overwrite_before disk_page_def)
  next
    case 2
    then have "unat pid * PAGE_SIZE + PAGE_SIZE \<le> unat q * PAGE_SIZE"
      using mult_le_mono1 [of "Suc (unat pid)" "unat q" PAGE_SIZE] by simp
    then show ?thesis
      using p assms(5) by (simp add: file_pwrite_inside chunk_overwrite_after disk_page_def)
  qed
qed

lemma disk_page_write_same:
  assumes "disk_inv s" "pid < total_pages s" "length data = PAGE_SIZE"
  shows "chunk (unat pid * PAGE_SIZE) PAGE_SIZE (file_pwrite (unat pid * PAGE_SIZE) data (db_file s))
    = data"
proof -
  note p = page_in_file [OF assms(1,2)]
  then have "chunk (unat pid * PAGE_SIZE) (length data) (overwrite (unat pid * PAGE_SIZE) data (db_file s)) = data"
    by (intro chunk_overwrite_same) simp
  with p assms(3) show ?thesis by (simp add: file_pwrite_inside)
qed

lemma length_file_pwrite_inside [simp]:
  "off + length bs \<le> length f \<Longrightarrow> length (file_pwrite off bs f) = length f"
  by (simp add: file_pwrite_inside)

text \<open>
  \<open>file_changed_at pid s t\<close>: between \<open>s\<close> and \<open>t\<close> only the page \<open>pid\<close> of the file may
  have changed (a torn write), and a page-sized write means it is there.
\<close>

definition same_pages_except :: "u32 set \<Rightarrow> 'a disk_scheme \<Rightarrow> 'b disk_scheme \<Rightarrow> bool" where
  "same_pages_except P s t \<longleftrightarrow> total_pages t = total_pages s \<and> disk_inv t \<and>
     (\<forall>q. q < total_pages s \<longrightarrow> q \<notin> P \<longrightarrow> disk_page t q = disk_page s q)"

lemma wp_read_page [wp_eqs]:
  assumes "disk_inv s"
  shows "wp (read_page pid) Q E s =
    (if pid < total_pages s
     then (if next_outcome s = IO_ok then Q (disk_page s pid) (io_step s)
           else E (transfer_failed ''read_page: read'' pid) (io_step s))
     else E (no_such_page ''read_page'' pid (total_pages s)) s)"
proof (cases "pid < total_pages s")
  case True
  note p = page_in_file [OF assms True]
  have short: "min k (PAGE_SIZE - 1) \<noteq> PAGE_SIZE" for k
    by (simp add: PAGE_SIZE_def min_def)
  have len: "length (chunk (unat pid * PAGE_SIZE) (min k (PAGE_SIZE - 1)) (db_file s))
    = min k (PAGE_SIZE - 1)" for k
    using p by (intro length_chunk) auto
  show ?thesis
    using True p len short
    by (cases "next_outcome s")
      (auto simp: read_page_def sys_pread_def wp_eqs disk_page_def)
next
  case False
  then show ?thesis by (auto simp: read_page_def wp_eqs linorder_not_less dest: leD)
qed


text \<open>
  The two states a page write can leave: the whole page stored, or a torn prefix of it.
\<close>

definition store_page :: "u32 \<Rightarrow> page \<Rightarrow> 'a disk_scheme \<Rightarrow> 'a disk_scheme" where
  "store_page pid data s =
     (io_step s)\<lparr>db_file := file_pwrite (unat pid * PAGE_SIZE) data (db_file s)\<rparr>"

definition torn_page :: "u32 \<Rightarrow> nat \<Rightarrow> page \<Rightarrow> 'a disk_scheme \<Rightarrow> 'a disk_scheme" where
  "torn_page pid n data s =
     (io_step s)\<lparr>db_file := (let k = min n (PAGE_SIZE - 1) in if k = 0 then db_file s
        else file_pwrite (unat pid * PAGE_SIZE) (take k data) (db_file s))\<rparr>"

lemma wp_write_page [wp_eqs]:
  assumes "length data = PAGE_SIZE"
  shows "wp (write_page pid data) Q E s =
    (if pid < total_pages s
     then (case next_outcome s of
         IO_ok \<Rightarrow> Q () (store_page pid data s)
       | IO_short n \<Rightarrow> E (transfer_failed ''write_page: write'' pid) (torn_page pid n data s))
     else E (no_such_page ''write_page'' pid (total_pages s)) s)"
proof -
  have short: "min k (PAGE_SIZE - 1) \<noteq> PAGE_SIZE" for k
    by (simp add: PAGE_SIZE_def min_def)
  show ?thesis
    using assms short
    by (auto simp: write_page_def sys_pwrite_def wp_eqs store_page_def torn_page_def
        io_step_def Let_def linorder_not_less not_le dest: leD split: io_outcome.splits)
qed

lemma store_page_fields [simp]:
  "total_pages (store_page pid data s) = total_pages s"
  "db_stable (store_page pid data s) = db_stable s"
  "io (store_page pid data s) = tl (io s)"
  by (simp_all add: store_page_def)

lemma torn_page_fields [simp]:
  "total_pages (torn_page pid n data s) = total_pages s"
  "db_stable (torn_page pid n data s) = db_stable s"
  "io (torn_page pid n data s) = tl (io s)"
  by (simp_all add: torn_page_def)

lemma disk_inv_store_page [simp]:
  assumes "disk_inv s" "pid < total_pages s" "length data = PAGE_SIZE"
  shows "disk_inv (store_page pid data s)"
  using page_in_file [OF assms(1,2)] assms by (simp add: disk_inv_def store_page_def)

lemma disk_inv_torn_page [simp]:
  assumes "disk_inv s" "pid < total_pages s" "length data = PAGE_SIZE"
  shows "disk_inv (torn_page pid n data s)"
  using page_in_file [OF assms(1,2)] assms by (simp add: disk_inv_def torn_page_def Let_def)

lemma disk_page_store_page:
  assumes "disk_inv s" "pid < total_pages s" "q < total_pages s" "length data = PAGE_SIZE"
  shows "disk_page (store_page pid data s) q = (if q = pid then data else disk_page s q)"
  using disk_page_write_other [OF assms(1-3)] disk_page_write_same [OF assms(1,2,4)] assms(4)
  by (auto simp: disk_page_def store_page_def)

lemma disk_page_torn_page:
  assumes "disk_inv s" "pid < total_pages s" "q < total_pages s" "q \<noteq> pid" "length data = PAGE_SIZE"
  shows "disk_page (torn_page pid n data s) q = disk_page s q"
  using disk_page_write_other [OF assms(1-4), of "take (min n (PAGE_SIZE - 1)) data"] assms(5)
  by (auto simp: disk_page_def torn_page_def Let_def)

text \<open>The new state of an \<open>allocate_page\<close>: one more page, of zero bytes.\<close>

definition grow_file :: "'a disk_scheme \<Rightarrow> 'a disk_scheme" where
  "grow_file s = (io_step s)\<lparr>
     db_file := file_pwrite (unat (total_pages s) * PAGE_SIZE) zero_page (db_file s),
     total_pages := total_pages s + 1\<rparr>"

lemma wp_disk_allocate_page [wp_eqs]:
  "wp disk_allocate_page Q E s = (case next_outcome s of
       IO_ok \<Rightarrow> Q (total_pages s) (grow_file s)
     | IO_short n \<Rightarrow>
         E (Runtime_error ''DiskManager::allocate_page: failed to extend file for new page'')
           (torn_page (total_pages s) n zero_page s))"
proof -
  have short: "min k (PAGE_SIZE - 1) \<noteq> PAGE_SIZE" for k
    by (simp add: PAGE_SIZE_def min_def)
  show ?thesis
    using short
    by (auto simp: disk_allocate_page_def sys_pwrite_def wp_eqs grow_file_def torn_page_def
        io_step_def Let_def split: io_outcome.splits)
qed

lemma length_file_pwrite:
  "length (file_pwrite off bs f) = max (length f) (off + length bs)"
  by (auto simp: file_pwrite_def overwrite_def max_def)

lemma grow_file_fields [simp]:
  "db_stable (grow_file s) = db_stable s" "io (grow_file s) = tl (io s)"
  "total_pages (grow_file s) = total_pages s + 1"
  by (simp_all add: grow_file_def)

lemma unat_next_page:
  "total_pages s < INVALID_PAGE \<Longrightarrow> unat (total_pages s + 1) = Suc (unat (total_pages s))"
  by (simp add: unat_word_ariths word_less_nat_alt INVALID_PAGE_def)

lemma disk_inv_grow_file [simp]:
  assumes "disk_inv s" "total_pages s < INVALID_PAGE"
  shows "disk_inv (grow_file s)"
  using assms unat_next_page [OF assms(2)]
  by (simp add: disk_inv_def grow_file_def length_file_pwrite)

lemma disk_page_grow_file_new:
  assumes "disk_inv s"
  shows "disk_page (grow_file s) (total_pages s) = zero_page"
  using assms
  by (simp add: disk_page_def grow_file_def file_pwrite_def overwrite_def chunk_def disk_inv_def)

lemma disk_page_grow_file_old:
  assumes "disk_inv s" "q < total_pages s"
  shows "disk_page (grow_file s) q = disk_page s q"
proof -
  have "unat q * PAGE_SIZE + PAGE_SIZE \<le> unat (total_pages s) * PAGE_SIZE"
    using mult_le_mono1 [of "Suc (unat q)" "unat (total_pages s)" PAGE_SIZE] assms(2)
    by (simp add: word_less_nat_alt)
  moreover have "unat (total_pages s) * PAGE_SIZE \<le> length (db_file s)"
    using assms(1) by (simp add: disk_inv_def)
  ultimately show ?thesis
    by (simp add: disk_page_def grow_file_def file_pwrite_def chunk_overwrite_before)
qed

lemma disk_inv_torn_growth [simp]:
  "disk_inv s \<Longrightarrow> disk_inv (torn_page (total_pages s) n zero_page s)"
  by (auto simp: disk_inv_def torn_page_def Let_def length_file_pwrite)

lemma disk_page_torn_growth:
  assumes "disk_inv s" "q < total_pages s"
  shows "disk_page (torn_page (total_pages s) n zero_page s) q = disk_page s q"
proof -
  have "unat q * PAGE_SIZE + PAGE_SIZE \<le> unat (total_pages s) * PAGE_SIZE"
    using mult_le_mono1 [of "Suc (unat q)" "unat (total_pages s)" PAGE_SIZE] assms(2)
    by (simp add: word_less_nat_alt)
  moreover have "unat (total_pages s) * PAGE_SIZE \<le> length (db_file s)"
    using assms(1) by (simp add: disk_inv_def)
  ultimately show ?thesis
    by (simp add: disk_page_def torn_page_def Let_def file_pwrite_def chunk_overwrite_before)
qed

lemma wp_disk_sync [wp_eqs]:
  "wp disk_sync Q E s = (case next_outcome s of
       IO_ok \<Rightarrow> Q () ((io_step s)\<lparr>db_stable := db_file s\<rparr>)
     | IO_short _ \<Rightarrow> E (Runtime_error ''DiskManager::sync: fsync failed'') (io_step s))"
  by (auto simp: disk_sync_def wp_eqs split: io_outcome.splits)

lemmas disk_state_defs = io_step_def store_page_def torn_page_def grow_file_def

section \<open>Properties\<close>

definition sample_disk :: disk where
  "sample_disk = \<lparr>io = [], db_file = zero_page @ zero_page, db_stable = zero_page @ zero_page, total_pages = 2\<rparr>"

lemma sample_disk_ok [simp]:
  "disk_inv sample_disk" "io sample_disk = []" "total_pages sample_disk = 2"
  "db_file sample_disk = zero_page @ zero_page"
  by (simp_all add: sample_disk_def disk_inv_def)

lemma io_step_ok: "io s = [] \<Longrightarrow> io_step s = s"
  by (simp add: io_step_def)

lemma wp_result: "wp m (\<lambda>x t. r = Inr x) (\<lambda>e t. r = Inl e) s \<Longrightarrow> result (m s) = r"
  by (auto simp: wp_def result_def split: prod.splits sum.splits)

lemma read_page_result:
  assumes "disk_inv s" "io s = []"
  shows "result (read_page pid s) = (if pid < total_pages s then Inr (disk_page s pid)
    else Inl (no_such_page ''read_page'' pid (total_pages s)))"
  by (rule wp_result) (use assms in \<open>simp add: wp_eqs\<close>)

text \<open>
  A page that was written is read back, every other page reads as before, and
  both calls reject exactly the page numbers at or above \<open>total_pages\<close>.
\<close>

lemma write_then_read:
  assumes "disk_inv s" "io s = []" "length data = PAGE_SIZE"
  shows "(pid < total_pages s \<longrightarrow> result (write_page pid data s) = Inr ())
    \<and> (\<not> pid < total_pages s \<longrightarrow> write_page pid data s
         = (Inl (no_such_page ''write_page'' pid (total_pages s)), s))
    \<and> result (read_page q (final (write_page pid data s)))
       = (if q = pid \<and> pid < total_pages s then Inr data else result (read_page q s))"
proof (cases "pid < total_pages s")
  case True
  then have "wp (write_page pid data) (\<lambda>x t. t = store_page pid data s) (\<lambda>_ _. False) s"
    using assms by (simp add: wp_eqs)
  then have "write_page pid data s = (Inr (), store_page pid data s)"
    by (auto simp: wp_def split: prod.splits sum.splits)
  with True assms show ?thesis
    by (simp add: result_def [of "(_, _)"] final_def read_page_result disk_page_store_page)
next
  case False
  then have "wp (write_page pid data) (\<lambda>x t. False)
    (\<lambda>e t. e = no_such_page ''write_page'' pid (total_pages s) \<and> t = s) s"
    using assms(3) by (simp add: wp_eqs)
  then have "write_page pid data s
       = (Inl (no_such_page ''write_page'' pid (total_pages s)), s)"
    by (auto simp: wp_def split: prod.splits sum.splits)
  with False show ?thesis by (simp add: final_def)
qed

lemma write_then_read_example:
  "result (read_page 1 (final (write_page 1 (replicate PAGE_SIZE 7) sample_disk))) = Inr (replicate PAGE_SIZE 7)
   \<and> result (write_page 1 (replicate PAGE_SIZE 7) sample_disk) = Inr ()
   \<and> result (write_page 2 zero_page sample_disk)
     = Inl (no_such_page ''write_page'' 2 (total_pages sample_disk))"
  using write_then_read [of sample_disk "replicate PAGE_SIZE 7" 1 1]
    write_then_read [of sample_disk zero_page 2 1]
  by (simp add: result_def [of "(_, _)"])

text \<open>
  A failed extension of the file locks the database out: when \<open>allocate_page\<close>
  stops inside the new page, the part it wrote stays in the file, and every later open of
  that file throws because its size is not a multiple of the page size.
\<close>

lemma torn_growth_blocks_open:
  assumes "length (db_file s) = unat (total_pages s) * PAGE_SIZE" "next_outcome s = IO_short n"
    "0 < n" "n < PAGE_SIZE"
  shows "\<exists>e t. disk_allocate_page s = (Inl e, t) \<and>
    disk_open [] (db_file t) = Inl (Runtime_error ''DiskManager: file size is not a multiple of PAGE_SIZE'')"
proof -
  let ?t = "torn_page (total_pages s) n zero_page s"
  have "wp disk_allocate_page (\<lambda>_ _. False) (\<lambda>e t. t = ?t) s"
    using assms(2) by (simp add: wp_eqs)
  then obtain e where run: "disk_allocate_page s = (Inl e, ?t)"
    by (auto simp: wp_def split: prod.splits sum.splits)
  have "length (db_file ?t) = unat (total_pages s) * PAGE_SIZE + n"
    using assms(1,3,4) by (simp add: torn_page_def Let_def length_file_pwrite)
  then have "length (db_file ?t) mod PAGE_SIZE \<noteq> 0"
    using assms(3,4) by simp
  with run show ?thesis by (intro exI conjI) (simp_all add: disk_open_def Let_def)
qed

lemma torn_growth_blocks_open_example:
  "\<exists>e t. disk_allocate_page (sample_disk\<lparr>io := [IO_short 100]\<rparr>) = (Inl e, t) \<and>
    disk_open [] (db_file t) = Inl (Runtime_error ''DiskManager: file size is not a multiple of PAGE_SIZE'')"
  by (rule torn_growth_blocks_open [where n = 100])
    (simp_all add: sample_disk_def next_outcome_def PAGE_SIZE_def)

end
