(* ===== verification/Page_Store.thy ===== *)
theory Page_Store
  imports Disk
begin

text \<open>
  What the layers above the buffer pool rely on: a store of numbered pages that can be
  read and replaced one page at a time. The buffer pool provides it (theory \<open>Pool\<close>);
  recovery, the header and the free list are its clients.
\<close>

section \<open>Overlays\<close>

text \<open>\<open>overlay l c\<close>: the pages \<open>c\<close> after the writes of \<open>l\<close>, the last write of a page winning.\<close>

fun overlay :: "(u32 \<times> page) list \<Rightarrow> (u32 \<Rightarrow> page) \<Rightarrow> u32 \<Rightarrow> page" where
  "overlay [] c = c"
| "overlay ((pid, p) # l) c = overlay l (c(pid := p))"

lemma overlay_append: "overlay (l @ l') c = overlay l' (overlay l c)"
  by (induction l arbitrary: c) auto

lemma overlay_lookup:
  "overlay l c q = (case map_of (rev l) q of Some p \<Rightarrow> p | None \<Rightarrow> c q)"
  by (induction l arbitrary: c) (auto simp: map_add_def split: option.splits)

lemma overlay_distinct:
  "distinct (map fst l) \<Longrightarrow> overlay l c q = (case map_of l q of Some p \<Rightarrow> p | None \<Rightarrow> c q)"
proof -
  assume "distinct (map fst l)"
  then have "map_of (rev l) = map_of l"
    using map_of_inject_set [of "rev l" l] by (simp only: rev_map [symmetric] distinct_rev set_rev simp_thms)
  then show ?thesis by (simp add: overlay_lookup)
qed

lemma overlay_untouched: "q \<notin> fst ` set l \<Longrightarrow> overlay l c q = c q"
  by (induction l arbitrary: c) auto

lemma overlay_local:
  "c q = c' q \<Longrightarrow> overlay l c q = overlay l c' q"
  by (simp add: overlay_lookup split: option.split)

section \<open>The interface\<close>

text \<open>
  \<open>ok\<close> is the provider's invariant, \<open>calm\<close> the absence of anything that makes it fail
  (an I/O error, a full cache), \<open>keeps\<close> what it leaves of the rest of the state.
\<close>

locale page_store =
  fixes ok :: "'s \<Rightarrow> bool"
    and calm :: "'s \<Rightarrow> bool"
    and keeps :: "'s \<Rightarrow> 's \<Rightarrow> bool"
    and count :: "'s \<Rightarrow> u32"
    and content :: "'s \<Rightarrow> u32 \<Rightarrow> page"
    and load :: "u32 \<Rightarrow> ('s, page) eff"
    and store :: "u32 \<Rightarrow> page \<Rightarrow> ('s, unit) eff"
  assumes keeps_refl: "keeps s s"
    and keeps_trans: "keeps s t \<Longrightarrow> keeps t u \<Longrightarrow> keeps s u"
    and keeps_count: "keeps s t \<Longrightarrow> count t = count s"
    and keeps_calm: "keeps s t \<Longrightarrow> calm s \<Longrightarrow> calm t"
    and load_law: "ok s \<Longrightarrow> wp (load pid)
      (\<lambda>p t. p = content s pid \<and> pid < count s \<and> ok t \<and> keeps s t \<and> (\<forall>q < count s. content t q = content s q))
      (\<lambda>e t. ok t \<and> keeps s t \<and> (\<forall>q < count s. content t q = content s q) \<and> \<not> (calm s \<and> pid < count s)) s"
    and store_law: "ok s \<Longrightarrow> length p = PAGE_SIZE \<Longrightarrow> wp (store pid p)
      (\<lambda>_ t. pid < count s \<and> ok t \<and> keeps s t \<and> (\<forall>q < count s. content t q = (if q = pid then p else content s q)))
      (\<lambda>e t. ok t \<and> keeps s t \<and> (\<forall>q < count s. content t q = content s q) \<and> \<not> (calm s \<and> pid < count s)) s"
begin

text \<open>
  Storing a list of pages, as \<open>commit\<close> and \<open>recover\<close> do: success overlays all of them, a
  failure leaves a prefix overlaid, and nothing fails when the store is calm and the pages
  exist.
\<close>

lemma store_all_law:
  assumes "ok s" "\<forall>(pid, p) \<in> set l. length p = PAGE_SIZE"
  shows "wp (for_each (\<lambda>(pid, p). store pid p) l)
    (\<lambda>_ t. ok t \<and> keeps s t \<and> (\<forall>q < count s. content t q = overlay l (content s) q)
       \<and> (\<forall>(pid, p) \<in> set l. pid < count s))
    (\<lambda>e t. ok t \<and> keeps s t
       \<and> (\<exists>n < length l. \<forall>q < count s. content t q = overlay (take n l) (content s) q)
       \<and> \<not> (calm s \<and> (\<forall>(pid, p) \<in> set l. pid < count s))) s"
  using assms
proof (induction l arbitrary: s)
  case Nil
  then show ?case by (simp add: wp_eqs keeps_refl)
next
  case (Cons x l)
  obtain pid p where x: "x = (pid, p)" by (cases x)
  show ?case
    unfolding for_each.simps x wp_andthen prod.case
  proof (rule wp_mono [OF store_law [OF Cons.prems(1), of p pid]])
    show "length p = PAGE_SIZE" using Cons.prems(2) x by simp
  next
    fix u t
    assume t: "pid < count s \<and> ok t \<and> keeps s t
      \<and> (\<forall>q < count s. content t q = (if q = pid then p else content s q))"
    then have keep: "keeps s t" and cnt: "count t = count s" using keeps_count by auto
    have ov: "overlay k (content t) q = overlay k ((content s)(pid := p)) q" if "q < count s" for k q
      by (rule overlay_local) (use t that in auto)
    have "wp (for_each (\<lambda>(pid, p). store pid p) l)
      (\<lambda>_ u. ok u \<and> keeps t u \<and> (\<forall>q < count t. content u q = overlay l (content t) q)
         \<and> (\<forall>(pid, p) \<in> set l. pid < count t))
      (\<lambda>e u. ok u \<and> keeps t u
         \<and> (\<exists>n < length l. \<forall>q < count t. content u q = overlay (take n l) (content t) q)
         \<and> \<not> (calm t \<and> (\<forall>(pid, p) \<in> set l. pid < count t))) t"
      by (rule Cons.IH) (use t Cons.prems(2) in auto)
    then show "wp (for_each (\<lambda>(pid, p). store pid p) l)
      (\<lambda>_ u. ok u \<and> keeps s u \<and> (\<forall>q < count s. content u q = overlay ((pid, p) # l) (content s) q)
         \<and> (\<forall>(pid, p) \<in> set ((pid, p) # l). pid < count s))
      (\<lambda>e u. ok u \<and> keeps s u
         \<and> (\<exists>n < length ((pid, p) # l). \<forall>q < count s. content u q = overlay (take n ((pid, p) # l)) (content s) q)
         \<and> \<not> (calm s \<and> (\<forall>(pid, p) \<in> set ((pid, p) # l). pid < count s))) t"
    proof (rule wp_mono)
      fix e u
      assume u: "ok u \<and> keeps t u
         \<and> (\<exists>n < length l. \<forall>q < count t. content u q = overlay (take n l) (content t) q)
         \<and> \<not> (calm t \<and> (\<forall>(pid, p) \<in> set l. pid < count t))"
      then obtain n where n: "n < length l" "\<forall>q < count s. content u q = overlay (take n l) (content t) q"
        using cnt by auto
      then have "\<forall>q < count s. content u q = overlay (take (Suc n) ((pid, p) # l)) (content s) q"
        using ov by simp
      moreover have "Suc n < length ((pid, p) # l)" using n(1) by simp
      ultimately have "\<exists>n < length ((pid, p) # l). \<forall>q < count s. content u q = overlay (take n ((pid, p) # l)) (content s) q"
        by blast
      then show "ok u \<and> keeps s u
         \<and> (\<exists>n < length ((pid, p) # l). \<forall>q < count s. content u q = overlay (take n ((pid, p) # l)) (content s) q)
         \<and> \<not> (calm s \<and> (\<forall>(pid, p) \<in> set ((pid, p) # l). pid < count s))"
        using u keeps_trans [OF keep] keeps_calm [OF keep] cnt by auto
    qed (use t keeps_trans [OF keep] ov cnt in auto)
  next
    fix e t
    assume t: "ok t \<and> keeps s t \<and> (\<forall>q < count s. content t q = content s q) \<and> \<not> (calm s \<and> pid < count s)"
    then have "\<forall>q < count s. content t q = overlay (take 0 ((pid, p) # l)) (content s) q" by simp
    then show "ok t \<and> keeps s t
         \<and> (\<exists>n < length ((pid, p) # l). \<forall>q < count s. content t q = overlay (take n ((pid, p) # l)) (content s) q)
         \<and> \<not> (calm s \<and> (\<forall>(pid, p) \<in> set ((pid, p) # l). pid < count s))"
      using t by (intro conjI exI [of _ 0]) auto
  qed
qed

text \<open>A page that was stored is read back.\<close>

lemma load_after_store:
  assumes "ok s" "length p = PAGE_SIZE" "calm s" "pid < count s"
  shows "wp (andthen (store pid p) (load pid)) (\<lambda>r t. r = p \<and> ok t \<and> keeps s t) (\<lambda>_ _. False) s"
  unfolding wp_andthen
proof (rule wp_mono [OF store_law [OF assms(1,2), of pid]])
  fix u t
  assume t: "pid < count s \<and> ok t \<and> keeps s t
    \<and> (\<forall>q < count s. content t q = (if q = pid then p else content s q))"
  then have "count t = count s" "calm t" using keeps_count keeps_calm assms(3) by auto
  with t show "wp (load pid) (\<lambda>r t. r = p \<and> ok t \<and> keeps s t) (\<lambda>_ _. False) t"
    by (intro wp_mono [OF load_law [of t pid]]) (auto intro: keeps_trans)
qed (use assms in auto)

end

end
