(* ===== verification/Pool.thy ===== *)
theory Pool
  imports Page_Store
begin

text \<open>
  The page cache: class \<open>BufferPool\<close> of \<open>src/storage/buffer_pool.cpp\<close>. A \<open>Page*\<close>
  is the index of its frame, so writes through the pointer are writes to \<open>frames\<close>.
  The hash map \<open>page_table_\<close> is an association list (its order stands for the map's
  unspecified iteration order), the list \<open>lru_list_\<close> is a list of slots with the most
  recently used one in front; \<open>lru_map_\<close> only holds the position of a slot in that list
  and has no state of its own. Pin counts are natural numbers: 2 to the 32 outstanding pins
  of one page are out of reach.
\<close>

section \<open>State\<close>

definition BUFFER_POOL_SIZE :: nat where
  "BUFFER_POOL_SIZE = 64"

record frame_meta =
  fm_page_id :: u32
  fm_is_dirty :: bool
  fm_pin_count :: nat

definition free_meta :: frame_meta where
  "free_meta = \<lparr>fm_page_id = INVALID_PAGE, fm_is_dirty = False, fm_pin_count = 0\<rparr>"

record pool = disk +
  frames :: "page list"
  frame_metas :: "frame_meta list"
  page_table :: "(u32 \<times> nat) list"
  lru_list :: "nat list"

definition pool_open :: "disk \<Rightarrow> pool" where
  "pool_open d = disk.extend d
     \<lparr>frames = replicate BUFFER_POOL_SIZE zero_page,
      frame_metas = replicate BUFFER_POOL_SIZE free_meta,
      page_table = [], lru_list = [0..<BUFFER_POOL_SIZE]\<rparr>"

section \<open>Operations\<close>

definition touch :: "nat \<Rightarrow> ('a pool_scheme, unit) eff" where
  "touch slot = modify (\<lambda>s. s\<lparr>lru_list := slot # remove1 slot (lru_list s)\<rparr>)"

definition set_meta :: "nat \<Rightarrow> (frame_meta \<Rightarrow> frame_meta) \<Rightarrow> ('a pool_scheme, unit) eff" where
  "set_meta slot f = modify (\<lambda>s. s\<lparr>frame_metas := (frame_metas s)[slot := f (frame_metas s ! slot)]\<rparr>)"

definition evict_frame :: "nat \<Rightarrow> ('a pool_scheme, unit) eff" where
  "evict_frame slot =
     bind (gets (\<lambda>s. frame_metas s ! slot)) (\<lambda>m.
     andthen (whenever (fm_page_id m \<noteq> INVALID_PAGE)
       (andthen (whenever (fm_is_dirty m)
          (bind (gets (\<lambda>s. frames s ! slot)) (write_page (fm_page_id m))))
        (modify (\<lambda>s. s\<lparr>page_table := AList.delete (fm_page_id m) (page_table s)\<rparr>))))
     (modify (\<lambda>s. s\<lparr>frame_metas := (frame_metas s)[slot := free_meta],
                      frames := (frames s)[slot := zero_page]\<rparr>)))"

fun evict_from :: "nat list \<Rightarrow> ('a pool_scheme, nat) eff" where
  "evict_from [] = throw (Runtime_error
     ''BufferPool: all pages are pinned, no slot available for eviction'')"
| "evict_from (slot # rest) =
     bind (gets (\<lambda>s. fm_pin_count (frame_metas s ! slot))) (\<lambda>pins.
     if pins > 0 then evict_from rest
     else andthen (evict_frame slot) (ret slot))"

definition evict_slot :: "('a pool_scheme, nat) eff" where
  "evict_slot = bind (gets lru_list) (\<lambda>l. evict_from (rev l))"

text \<open>The common tail of \<open>fetch_page\<close> and \<open>new_page\<close>: \<open>slot\<close> now holds \<open>page_id\<close>.\<close>

definition install_page :: "u32 \<Rightarrow> nat \<Rightarrow> ('a pool_scheme, nat) eff" where
  "install_page page_id slot =
     andthen (set_meta slot (\<lambda>_. \<lparr>fm_page_id = page_id, fm_is_dirty = False, fm_pin_count = 1\<rparr>))
     (andthen (modify (\<lambda>s. s\<lparr>page_table := AList.update page_id slot (page_table s)\<rparr>))
     (andthen (touch slot) (ret slot)))"

definition fetch_page :: "u32 \<Rightarrow> ('a pool_scheme, nat) eff" where
  "fetch_page page_id =
     bind (gets (\<lambda>s. map_of (page_table s) page_id)) (\<lambda>it. case it of
       Some slot \<Rightarrow>
         andthen (set_meta slot (\<lambda>m. m\<lparr>fm_pin_count := fm_pin_count m + 1\<rparr>))
         (andthen (touch slot) (ret slot))
     | None \<Rightarrow>
         bind evict_slot (\<lambda>slot.
         bind (read_page page_id) (\<lambda>data.
         andthen (modify (\<lambda>s. s\<lparr>frames := (frames s)[slot := data]\<rparr>))
         (install_page page_id slot))))"

definition unpin_page :: "u32 \<Rightarrow> bool \<Rightarrow> ('a pool_scheme, unit) eff" where
  "unpin_page page_id is_dirty =
     bind (gets (\<lambda>s. map_of (page_table s) page_id)) (\<lambda>it. case it of
       None \<Rightarrow> ret ()
     | Some slot \<Rightarrow>
         bind (gets (\<lambda>s. fm_pin_count (frame_metas s ! slot))) (\<lambda>pins.
         if pins = 0 then ret ()
         else andthen (set_meta slot (\<lambda>m. m\<lparr>fm_pin_count := fm_pin_count m - 1\<rparr>))
           (whenever is_dirty (set_meta slot (\<lambda>m. m\<lparr>fm_is_dirty := True\<rparr>)))))"

text \<open>The out parameter \<open>page_id_out\<close> and the returned pointer are a pair.\<close>

definition new_page :: "('a pool_scheme, u32 \<times> nat) eff" where
  "new_page =
     bind disk_allocate_page (\<lambda>page_id.
     bind evict_slot (\<lambda>slot.
     andthen (install_page page_id slot) (ret (page_id, slot))))"

text \<open>Write back one frame if it is dirty: the body of \<open>flush_page\<close> and of \<open>flush_all\<close>'s loop.\<close>

definition flush_slot :: "u32 \<times> nat \<Rightarrow> ('a pool_scheme, unit) eff" where
  "flush_slot = (\<lambda>(page_id, slot).
     bind (gets (\<lambda>s. fm_is_dirty (frame_metas s ! slot))) (\<lambda>dirty.
     whenever dirty
       (andthen (bind (gets (\<lambda>s. frames s ! slot)) (write_page page_id))
        (set_meta slot (\<lambda>m. m\<lparr>fm_is_dirty := False\<rparr>)))))"

definition flush_page :: "u32 \<Rightarrow> ('a pool_scheme, unit) eff" where
  "flush_page page_id =
     bind (gets (\<lambda>s. map_of (page_table s) page_id)) (\<lambda>it. case it of
       None \<Rightarrow> ret ()
     | Some slot \<Rightarrow> flush_slot (page_id, slot))"

definition flush_all :: "('a pool_scheme, unit) eff" where
  "flush_all = bind (gets page_table) (\<lambda>entries. andthen (for_each flush_slot entries) disk_sync)"

text \<open>The destructor; a throw inside it ends the process.\<close>

definition pool_close :: "('a pool_scheme, unit) eff" where
  "pool_close = flush_all"

text \<open>Reading and writing through a \<open>Page*\<close>.\<close>

definition read_frame :: "nat \<Rightarrow> ('a pool_scheme, page) eff" where
  "read_frame slot = gets (\<lambda>s. frames s ! slot)"

definition write_frame :: "nat \<Rightarrow> page \<Rightarrow> ('a pool_scheme, unit) eff" where
  "write_frame slot data = modify (\<lambda>s. s\<lparr>frames := (frames s)[slot := data]\<rparr>)"

section \<open>The logical content of the database and the cache invariant\<close>

text \<open>
  \<open>view s pid\<close> is the page a client sees: the cached frame if there is one, else the page
  of the file. The invariant ties the table to the frame metadata (each maps the other's
  way), keeps the free frames unpinned and clean and the used slots on the LRU list once,
  and says that a frame nobody holds and nobody dirtied is a copy of its page on file.
\<close>

definition view :: "'a pool_scheme \<Rightarrow> u32 \<Rightarrow> page" where
  "view s pid = (case map_of (page_table s) pid of
     Some slot \<Rightarrow> frames s ! slot | None \<Rightarrow> disk_page s pid)"

definition frames_ok :: "'a pool_scheme \<Rightarrow> bool" where
  "frames_ok s \<longleftrightarrow> length (frames s) = BUFFER_POOL_SIZE \<and> length (frame_metas s) = BUFFER_POOL_SIZE
     \<and> (\<forall>slot < BUFFER_POOL_SIZE. length (frames s ! slot) = PAGE_SIZE)
     \<and> distinct (lru_list s) \<and> set (lru_list s) = {..<BUFFER_POOL_SIZE}"

definition table_ok :: "'a pool_scheme \<Rightarrow> bool" where
  "table_ok s \<longleftrightarrow> distinct (map fst (page_table s)) \<and>
     (\<forall>pid slot. map_of (page_table s) pid = Some slot \<longleftrightarrow>
        slot < BUFFER_POOL_SIZE \<and> fm_page_id (frame_metas s ! slot) = pid \<and> pid \<noteq> INVALID_PAGE)"

definition slot_ok :: "'a pool_scheme \<Rightarrow> nat \<Rightarrow> bool" where
  "slot_ok s slot \<longleftrightarrow>
     (let m = frame_metas s ! slot in
      if fm_page_id m = INVALID_PAGE then m = free_meta
      else fm_page_id m < total_pages s \<and>
        (fm_pin_count m = 0 \<longrightarrow> \<not> fm_is_dirty m \<longrightarrow> frames s ! slot = disk_page s (fm_page_id m)))"

definition pool_inv :: "'a pool_scheme \<Rightarrow> bool" where
  "pool_inv s \<longleftrightarrow> disk_inv s \<and> frames_ok s \<and> table_ok s \<and> (\<forall>slot < BUFFER_POOL_SIZE. slot_ok s slot)"

definition same_view :: "'a pool_scheme \<Rightarrow> 'b pool_scheme \<Rightarrow> bool" where
  "same_view s t \<longleftrightarrow> total_pages t = total_pages s \<and> (\<forall>q < total_pages s. view t q = view s q)"

text \<open>The disk operations do not touch what the pool holds.\<close>

lemma pool_fields_of_disk_steps [simp]:
  "frames (io_step s) = frames s" "frame_metas (io_step s) = frame_metas s" "page_table (io_step s) = page_table s"
  "lru_list (io_step s) = lru_list s" "pool.more (io_step s) = pool.more s"
  "frames (store_page p d s) = frames s" "frame_metas (store_page p d s) = frame_metas s" "page_table (store_page p d s) = page_table s"
  "lru_list (store_page p d s) = lru_list s" "pool.more (store_page p d s) = pool.more s"
  "frames (torn_page p n d s) = frames s" "frame_metas (torn_page p n d s) = frame_metas s" "page_table (torn_page p n d s) = page_table s"
  "lru_list (torn_page p n d s) = lru_list s" "pool.more (torn_page p n d s) = pool.more s"
  "frames (grow_file s) = frames s" "frame_metas (grow_file s) = frame_metas s" "page_table (grow_file s) = page_table s"
  "lru_list (grow_file s) = lru_list s" "pool.more (grow_file s) = pool.more s"
  by (simp_all add: disk_state_defs)

lemma inv_io_step [simp]: "pool_inv (io_step s) = pool_inv s"
  by (simp add: pool_inv_def frames_ok_def table_ok_def slot_ok_def Let_def)

lemma view_io_step [simp]: "view (io_step s) = view s"
  by (rule ext) (simp add: view_def split: option.split)

lemma same_view_refl [simp, intro]: "same_view s s"
  by (simp add: same_view_def)

lemma same_view_trans [trans]: "same_view s t \<Longrightarrow> same_view t u \<Longrightarrow> same_view s u"
  by (simp add: same_view_def)

lemma pool_invD:
  assumes "pool_inv s"
  shows "disk_inv s" "frames_ok s" "table_ok s" "slot < BUFFER_POOL_SIZE \<Longrightarrow> slot_ok s slot"
  using assms by (auto simp: pool_inv_def)

lemma total_pages_not_invalid: "pid < total_pages s \<Longrightarrow> pid \<noteq> INVALID_PAGE"
  using unsigned_less [of "total_pages s", where ?'a = nat]
  by (auto simp: INVALID_PAGE_def word_less_nat_alt)

lemma table_slot:
  assumes "table_ok s" "map_of (page_table s) pid = Some slot"
  shows "slot < BUFFER_POOL_SIZE" "fm_page_id (frame_metas s ! slot) = pid" "pid \<noteq> INVALID_PAGE"
  using assms by (auto simp: table_ok_def)

lemma slot_table:
  assumes "table_ok s" "slot < BUFFER_POOL_SIZE" "fm_page_id (frame_metas s ! slot) \<noteq> INVALID_PAGE"
  shows "map_of (page_table s) (fm_page_id (frame_metas s ! slot)) = Some slot"
  using assms by (auto simp: table_ok_def)

lemma table_inj:
  assumes "table_ok s" "map_of (page_table s) p = Some slot" "map_of (page_table s) q = Some slot"
  shows "p = q"
  using assms by (auto simp: table_ok_def)

lemma pool_inv_open: "disk_inv d \<Longrightarrow> pool_inv (pool_open d)"
  by (auto simp: pool_inv_def pool_open_def disk_inv_def frames_ok_def table_ok_def slot_ok_def
      free_meta_def Let_def disk.defs)

lemma slot_inj:
  assumes "table_ok s" "i < BUFFER_POOL_SIZE" "j < BUFFER_POOL_SIZE"
    "fm_page_id (frame_metas s ! i) = fm_page_id (frame_metas s ! j)"
    "fm_page_id (frame_metas s ! j) \<noteq> INVALID_PAGE"
  shows "i = j"
  using assms by (metis option.inject slot_table)

text \<open>
  What every operation of the pool keeps: the invariant, the view, everything the layers
  above the pool store, what is durable, and the absence of I/O failures.
\<close>

definition cache_step :: "'a pool_scheme \<Rightarrow> 'a pool_scheme \<Rightarrow> bool" where
  "cache_step s t \<longleftrightarrow> pool_inv t \<and> same_view s t \<and> pool.more t = pool.more s
     \<and> db_stable t = db_stable s \<and> (io s = [] \<longrightarrow> io t = [])"

lemma cache_step_refl [simp]: "pool_inv s \<Longrightarrow> cache_step s s"
  by (simp add: cache_step_def)

lemma cache_step_trans [trans]: "cache_step s t \<Longrightarrow> cache_step t u \<Longrightarrow> cache_step s u"
  by (auto simp: cache_step_def intro: same_view_trans)

lemma cache_stepD:
  assumes "cache_step s t"
  shows "pool_inv t" "same_view s t" "pool.more t = pool.more s" "db_stable t = db_stable s"
    "io s = [] \<Longrightarrow> io t = []" "total_pages t = total_pages s"
    "q < total_pages s \<Longrightarrow> view t q = view s q"
  using assms by (simp_all add: cache_step_def same_view_def)

text \<open>How often a page is pinned (0 when it is not cached).\<close>

definition pins :: "'a pool_scheme \<Rightarrow> u32 \<Rightarrow> nat" where
  "pins s pid = (case map_of (page_table s) pid of
     Some slot \<Rightarrow> fm_pin_count (frame_metas s ! slot) | None \<Rightarrow> 0)"

lemma pins_of_disk_steps [simp]:
  "pins (io_step s) = pins s" "pins (store_page p d s) = pins s" "pins (torn_page p n d s) = pins s"
  by (simp_all add: pins_def fun_eq_iff split: option.split)

subsection \<open>Eviction\<close>

text \<open>Dropping a frame that agrees with the file.\<close>

definition drop_frame :: "nat \<Rightarrow> 'a pool_scheme \<Rightarrow> 'a pool_scheme" where
  "drop_frame slot s = s\<lparr>
     page_table := AList.delete (fm_page_id (frame_metas s ! slot)) (page_table s),
     frame_metas := (frame_metas s)[slot := free_meta], frames := (frames s)[slot := zero_page]\<rparr>"

lemma drop_frame_fields [simp]:
  "disk_page (drop_frame slot s) = disk_page s" "total_pages (drop_frame slot s) = total_pages s"
  "disk_inv (drop_frame slot s) = disk_inv s" "pool.more (drop_frame slot s) = pool.more s"
  "db_stable (drop_frame slot s) = db_stable s" "io (drop_frame slot s) = io s"
  "lru_list (drop_frame slot s) = lru_list s" "db_file (drop_frame slot s) = db_file s"
  by (simp_all add: drop_frame_def disk_page_def fun_eq_iff disk_inv_def)

lemma drop_frame_inv:
  assumes "pool_inv s" "slot < BUFFER_POOL_SIZE"
  shows "pool_inv (drop_frame slot s)"
proof -
  note inv = pool_invD [OF assms(1)]
  have fr: "frames_ok (drop_frame slot s)"
    using inv(2) assms(2) by (auto simp: drop_frame_def frames_ok_def nth_list_update)
  have tb: "table_ok (drop_frame slot s)"
    using inv(2,3) assms(2)
    by (auto simp: drop_frame_def table_ok_def frames_ok_def distinct_delete delete_conv'
        nth_list_update free_meta_def simp del: map_of_eq_Some_iff
        dest: slot_inj [OF inv(3) _ assms(2)])
  have sl: "slot_ok (drop_frame slot s) i" if "i < BUFFER_POOL_SIZE" for i
    using inv(4) [OF that] inv(2) that assms(2)
    by (auto simp: slot_ok_def drop_frame_def frames_ok_def nth_list_update free_meta_def Let_def
        disk_page_def)
  show ?thesis using inv(1) fr tb sl by (simp add: pool_inv_def)
qed

lemma drop_frame_view:
  assumes "pool_inv s" "slot < BUFFER_POOL_SIZE" "q < total_pages s"
    "fm_page_id (frame_metas s ! slot) \<noteq> INVALID_PAGE \<Longrightarrow>
      frames s ! slot = disk_page s (fm_page_id (frame_metas s ! slot))"
  shows "view (drop_frame slot s) q = view s q"
proof (cases "q = fm_page_id (frame_metas s ! slot)")
  case True
  note inv = pool_invD [OF assms(1)]
  have "map_of (page_table s) q = Some slot"
    using slot_table [OF inv(3) assms(2)] True total_pages_not_invalid [OF assms(3)] by simp
  then show ?thesis
    using True assms(4) total_pages_not_invalid [OF assms(3)]
    by (simp add: view_def drop_frame_def delete_conv' disk_page_def)
next
  case False
  note inv = pool_invD [OF assms(1)]
  have "i \<noteq> slot" if "map_of (page_table s) q = Some i" for i
    using table_slot [OF inv(3) that] False by auto
  with False show ?thesis
    by (auto simp: view_def drop_frame_def delete_conv' disk_page_def split: option.splits)
qed

text \<open>Writing a frame back, in full or torn.\<close>

lemma write_back_inv:
  assumes "pool_inv s" "slot < BUFFER_POOL_SIZE" "pid = fm_page_id (frame_metas s ! slot)"
    "pid \<noteq> INVALID_PAGE"
  shows "cache_step s (store_page pid (frames s ! slot) s)"
    and "disk_page (store_page pid (frames s ! slot) s) pid = frames s ! slot"
    and "fm_is_dirty (frame_metas s ! slot) \<Longrightarrow> cache_step s (torn_page pid n (frames s ! slot) s)"
proof -
  note inv = pool_invD [OF assms(1)]
  have pid: "pid < total_pages s" and len: "length (frames s ! slot) = PAGE_SIZE"
    using inv(2) inv(4) [OF assms(2)] assms by (auto simp: slot_ok_def Let_def frames_ok_def)
  have tab: "map_of (page_table s) pid = Some slot"
    using slot_table [OF inv(3) assms(2)] assms by simp
  have other: "fm_page_id (frame_metas s ! i) \<noteq> pid" if "i < BUFFER_POOL_SIZE" "i \<noteq> slot" for i
    using slot_inj [OF inv(3) that(1) assms(2)] that assms by auto
  let ?u = "store_page pid (frames s ! slot) s" and ?v = "torn_page pid n (frames s ! slot) s"
  note dp = disk_page_store_page [OF inv(1) pid _ len] and tp = disk_page_torn_page [OF inv(1) pid _ _ len]
  show "disk_page ?u pid = frames s ! slot" using dp pid by simp
  have su: "slot_ok ?u i" if "i < BUFFER_POOL_SIZE" for i
    using inv(4) [OF that] other [OF that] assms(3) dp
    by (cases "i = slot") (auto simp: slot_ok_def Let_def)
  have "view ?u q = view s q" if "q < total_pages s" for q
    using tab dp [OF that] by (auto simp: view_def split: option.splits)
  moreover have "pool_inv ?u"
    using inv(1-3) su pid len by (simp add: pool_inv_def frames_ok_def table_ok_def)
  ultimately show "cache_step s ?u"
    by (simp add: cache_step_def same_view_def)
  show "cache_step s ?v" if d: "fm_is_dirty (frame_metas s ! slot)"
  proof -
    have sv: "slot_ok ?v i" if "i < BUFFER_POOL_SIZE" for i
      using inv(4) [OF that] other [OF that] assms(3) tp d
      by (cases "i = slot") (auto simp: slot_ok_def Let_def)
    have "view ?v q = view s q" if "q < total_pages s" for q
      using tab tp [OF that] by (cases "q = pid") (auto simp: view_def split: option.splits)
    moreover have "pool_inv ?v"
      using inv(1-3) sv pid len by (simp add: pool_inv_def frames_ok_def table_ok_def)
    ultimately show ?thesis by (simp add: cache_step_def same_view_def)
  qed
qed

lemma wp_evict_frame:
  assumes "pool_inv s" "slot < BUFFER_POOL_SIZE" "fm_pin_count (frame_metas s ! slot) = 0"
  shows "wp (evict_frame slot)
    (\<lambda>_ t. cache_step s t \<and> frame_metas t = (frame_metas s)[slot := free_meta]
       \<and> frames t = (frames s)[slot := zero_page] \<and> lru_list t = lru_list s)
    (\<lambda>e t. cache_step s t \<and> pins t = pins s \<and> io s \<noteq> []) s"
proof -
  let ?m = "frame_metas s ! slot" and ?p = "fm_page_id (frame_metas s ! slot)"
  note inv = pool_invD [OF assms(1)]
  note ok = inv(4) [OF assms(2)]
  have len: "length (frames s ! slot) = PAGE_SIZE" using inv(2) assms(2) by (simp add: frames_ok_def)
  consider (free) "?p = INVALID_PAGE" | (clean) "?p \<noteq> INVALID_PAGE" "\<not> fm_is_dirty ?m"
    | (dirty) "?p \<noteq> INVALID_PAGE" "fm_is_dirty ?m" by blast
  then show ?thesis
  proof cases
    case free
    then have "AList.delete ?p (page_table s) = page_table s"
      using inv(3) by (intro delete_id) (auto simp: table_ok_def dom_map_of_conv_image_fst [symmetric])
    then have "drop_frame slot s
      = s\<lparr>frame_metas := (frame_metas s)[slot := free_meta], frames := (frames s)[slot := zero_page]\<rparr>"
      by (simp add: drop_frame_def)
    with free show ?thesis
      using drop_frame_inv [OF assms(1,2)] drop_frame_view [OF assms(1,2)]
      by (auto simp: evict_frame_def wp_eqs cache_step_def same_view_def drop_frame_def)
  next
    case clean
    have "frames s ! slot = disk_page s ?p"
      using ok clean assms(3) by (simp add: slot_ok_def Let_def)
    then have "cache_step s (drop_frame slot s)"
      using drop_frame_inv [OF assms(1,2)] drop_frame_view [OF assms(1,2)]
      by (simp add: cache_step_def same_view_def)
    with clean show ?thesis
      by (simp add: evict_frame_def wp_eqs drop_frame_def)
  next
    case dirty
    let ?u = "store_page ?p (frames s ! slot) s"
    note wb = write_back_inv [OF assms(1,2) refl dirty(1)]
    have "cache_step ?u (drop_frame slot ?u)"
      using drop_frame_inv [OF cache_stepD(1) [OF wb(1)] assms(2)]
        drop_frame_view [OF cache_stepD(1) [OF wb(1)] assms(2)] wb(2)
      by (simp add: cache_step_def same_view_def)
    with wb(1) have "cache_step s (drop_frame slot ?u)" by (rule cache_step_trans)
    moreover have "?p < total_pages s" using ok dirty by (simp add: slot_ok_def Let_def)
    ultimately show ?thesis using dirty wb(3) len
      by (auto simp: evict_frame_def wp_eqs drop_frame_def next_outcome_def
          split: io_outcome.splits list.splits)
  qed
qed

text \<open>
  \<open>evict_slot\<close> takes the least recently used slot without a pin: the first such slot of
  the LRU list read from the back. It throws when every slot is pinned.
\<close>

definition victim :: "'a pool_scheme \<Rightarrow> nat option" where
  "victim s = find (\<lambda>i. fm_pin_count (frame_metas s ! i) = 0) (rev (lru_list s))"

lemma wp_evict_from:
  assumes "pool_inv s" "set l \<subseteq> {..<BUFFER_POOL_SIZE}"
  shows "wp (evict_from l)
    (\<lambda>slot t. find (\<lambda>i. fm_pin_count (frame_metas s ! i) = 0) l = Some slot
       \<and> cache_step s t \<and> frame_metas t = (frame_metas s)[slot := free_meta]
       \<and> frames t = (frames s)[slot := zero_page] \<and> lru_list t = lru_list s)
    (\<lambda>e t. cache_step s t \<and> pins t = pins s \<and> (io s \<noteq> [] \<or>
       (find (\<lambda>i. fm_pin_count (frame_metas s ! i) = 0) l = None \<and> t = s))) s"
  using assms(2)
proof (induction l)
  case Nil
  then show ?case using assms(1) by (simp add: wp_eqs)
next
  case (Cons slot l)
  show ?case
  proof (cases "fm_pin_count (frame_metas s ! slot) = 0")
    case True
    have "wp (evict_frame slot)
      (\<lambda>_ t. cache_step s t \<and> frame_metas t = (frame_metas s)[slot := free_meta]
         \<and> frames t = (frames s)[slot := zero_page] \<and> lru_list t = lru_list s)
      (\<lambda>e t. cache_step s t \<and> pins t = pins s \<and> io s \<noteq> []) s"
      using Cons.prems True assms(1) by (intro wp_evict_frame) auto
    then show ?thesis
      using True by (simp add: wp_eqs) (erule wp_mono; simp add: wp_eqs)
  next
    case False
    with Cons show ?thesis by (simp add: wp_eqs)
  qed
qed

lemma wp_evict_slot:
  assumes "pool_inv s"
  shows "wp evict_slot
    (\<lambda>slot t. victim s = Some slot \<and> cache_step s t
       \<and> frame_metas t = (frame_metas s)[slot := free_meta]
       \<and> frames t = (frames s)[slot := zero_page] \<and> lru_list t = lru_list s)
    (\<lambda>e t. cache_step s t \<and> pins t = pins s \<and> (io s \<noteq> [] \<or> (victim s = None \<and> t = s))) s"
  using wp_evict_from [OF assms, of "rev (lru_list s)"] pool_invD(2) [OF assms]
  by (simp add: evict_slot_def wp_eqs victim_def frames_ok_def)

lemma find_SomeD: "find P xs = Some x \<Longrightarrow> P x \<and> x \<in> set xs"
  by (induction xs) (auto split: if_splits)

lemma victim_slot:
  assumes "pool_inv s" "victim s = Some slot"
  shows "slot < BUFFER_POOL_SIZE" "fm_pin_count (frame_metas s ! slot) = 0"
  using assms(2) find_SomeD pool_invD(2) [OF assms(1)]
  unfolding victim_def frames_ok_def by fastforce+

lemma victim_None:
  "pool_inv s \<Longrightarrow> victim s = None \<longleftrightarrow> (\<forall>i < BUFFER_POOL_SIZE. 0 < fm_pin_count (frame_metas s ! i))"
  by (auto simp: victim_def find_None_iff pool_inv_def frames_ok_def)

lemma table_after_evict:
  assumes "pool_inv s" "pool_inv t" "slot < BUFFER_POOL_SIZE"
    "frame_metas t = (frame_metas s)[slot := free_meta]"
  shows "map_of (page_table t) pid = Some i \<longleftrightarrow> map_of (page_table s) pid = Some i \<and> i \<noteq> slot"
proof -
  note s = pool_invD [OF assms(1)] and t = pool_invD [OF assms(2)]
  have len: "length (frame_metas s) = BUFFER_POOL_SIZE" using s(2) by (simp add: frames_ok_def)
  show ?thesis
    using s(3) t(3) assms(3,4) len
    by (auto simp: table_ok_def nth_list_update free_meta_def simp del: map_of_eq_Some_iff)
qed

lemma pins_after_evict:
  assumes "pool_inv s" "pool_inv t" "slot < BUFFER_POOL_SIZE"
    "frame_metas t = (frame_metas s)[slot := free_meta]" "fm_pin_count (frame_metas s ! slot) = 0"
  shows "pins t = pins s"
proof
  fix pid
  note tab = table_after_evict [OF assms(1-4), of pid]
  show "pins t pid = pins s pid"
  proof (cases "map_of (page_table t) pid")
    case None
    with tab assms(5) show ?thesis
      by (cases "map_of (page_table s) pid") (auto simp: pins_def)
  next
    case (Some i)
    then have "map_of (page_table s) pid = Some i" "i \<noteq> slot" using tab by auto
    with Some assms(4) show ?thesis by (simp add: pins_def)
  qed
qed

subsection \<open>fetch\_page\<close>

lemma pool_inv_set_meta:
  assumes "pool_inv s" "slot < BUFFER_POOL_SIZE"
    "fm_page_id m = fm_page_id (frame_metas s ! slot)" "fm_page_id m \<noteq> INVALID_PAGE"
    "fm_pin_count m = 0 \<Longrightarrow> \<not> fm_is_dirty m \<Longrightarrow> frames s ! slot = disk_page s (fm_page_id m)"
    "distinct l" "set l = {..<BUFFER_POOL_SIZE}"
  defines "t \<equiv> s\<lparr>frame_metas := (frame_metas s)[slot := m], lru_list := l\<rparr>"
  shows "cache_step s t"
proof -
  note inv = pool_invD [OF assms(1)]
  have len: "length (frame_metas s) = BUFFER_POOL_SIZE" using inv(2) by (simp add: frames_ok_def)
  have ids: "fm_page_id (frame_metas t ! i) = fm_page_id (frame_metas s ! i)" if "i < BUFFER_POOL_SIZE" for i
    using assms(3) that len by (cases "i = slot") (simp_all add: t_def)
  have same: "disk_page t = disk_page s" "total_pages t = total_pages s" "disk_inv t = disk_inv s"
    by (simp_all add: t_def disk_page_def fun_eq_iff disk_inv_def)
  have "slot_ok t i" if "i < BUFFER_POOL_SIZE" for i
    using inv(4) [OF that] inv(4) [OF assms(2)] assms(2-5) that len same(1,2)
    by (cases "i = slot") (auto simp: t_def slot_ok_def Let_def)
  moreover have "table_ok t" using inv(3) ids by (auto simp: table_ok_def t_def simp del: map_of_eq_Some_iff)
  moreover have "frames_ok t" using inv(2) assms(6,7) by (simp add: frames_ok_def t_def)
  ultimately have "pool_inv t" using inv(1) same by (simp add: pool_inv_def)
  then show ?thesis
    using same
    by (simp add: cache_step_def same_view_def view_def t_def disk_page_def split: option.split)
qed

lemma touch_list:
  assumes "pool_inv s" "slot < BUFFER_POOL_SIZE"
  shows "distinct (slot # remove1 slot (lru_list s))"
    "set (slot # remove1 slot (lru_list s)) = {..<BUFFER_POOL_SIZE}"
  using assms by (auto simp: pool_inv_def frames_ok_def)

text \<open>A page becomes resident in a slot that was just evicted.\<close>

definition resident :: "u32 \<Rightarrow> nat \<Rightarrow> page \<Rightarrow> 'a pool_scheme \<Rightarrow> 'a pool_scheme" where
  "resident pid slot data s = s\<lparr>frames := (frames s)[slot := data],
     frame_metas := (frame_metas s)[slot := \<lparr>fm_page_id = pid, fm_is_dirty = False, fm_pin_count = 1\<rparr>],
     page_table := AList.update pid slot (page_table s),
     lru_list := slot # remove1 slot (lru_list s)\<rparr>"

lemma resident_fields [simp]:
  "disk_page (resident pid slot data s) = disk_page s"
  "total_pages (resident pid slot data s) = total_pages s"
  "disk_inv (resident pid slot data s) = disk_inv s" "io (resident pid slot data s) = io s"
  "db_stable (resident pid slot data s) = db_stable s"
  "pool.more (resident pid slot data s) = pool.more s"
  by (simp_all add: resident_def disk_page_def fun_eq_iff disk_inv_def)

lemma resident_step:
  assumes "pool_inv s" "slot < BUFFER_POOL_SIZE" "frame_metas s ! slot = free_meta"
    "pid < total_pages s" "map_of (page_table s) pid = None" "data = disk_page s pid"
  shows "cache_step s (resident pid slot data s)"
    "map_of (page_table (resident pid slot data s)) pid = Some slot"
    "frames (resident pid slot data s) ! slot = view s pid"
    "pins (resident pid slot data s) = (pins s)(pid := pins s pid + 1)"
proof -
  let ?t = "resident pid slot data s"
  note inv = pool_invD [OF assms(1)]
  note ni = total_pages_not_invalid [OF assms(4)]
  have len: "length (frame_metas s) = BUFFER_POOL_SIZE" "length (frames s) = BUFFER_POOL_SIZE"
    using inv(2) by (simp_all add: frames_ok_def)
  have notin: "map_of (page_table s) q \<noteq> Some slot" for q
    using table_slot(2,3) [OF inv(3), of q slot] assms(3) by (auto simp: free_meta_def)
  have new: "fm_page_id (frame_metas s ! i) \<noteq> pid" if "i < BUFFER_POOL_SIZE" for i
    using slot_table [OF inv(3) that] assms(5) ni by auto
  have "frames_ok ?t"
    using inv(1,2) touch_list [OF assms(1,2)] assms(2,4,6) len
    by (auto simp: frames_ok_def resident_def nth_list_update)
  moreover have "table_ok ?t"
    using inv(3) notin new assms(2) len ni
    by (auto simp: table_ok_def resident_def update_conv' distinct_update nth_list_update
        simp del: map_of_eq_Some_iff split: if_splits)
  moreover have "slot_ok ?t i" if "i < BUFFER_POOL_SIZE" for i
    using inv(4) [OF that] that assms(2,4) len ni
    by (auto simp: slot_ok_def resident_def nth_list_update Let_def disk_page_def)
  ultimately have "pool_inv ?t" using inv(1) by (simp add: pool_inv_def)
  moreover have "view ?t q = view s q" for q
    using notin assms(2,5,6) len
    by (auto simp: view_def resident_def update_conv' disk_page_def nth_list_update split: option.splits)
  ultimately show "cache_step s ?t" by (simp add: cache_step_def same_view_def)
  show "map_of (page_table ?t) pid = Some slot" by (simp add: resident_def update_conv')
  show "frames ?t ! slot = view s pid"
    using assms(2,5,6) len by (simp add: resident_def view_def)
  show "pins ?t = (pins s)(pid := pins s pid + 1)"
    using notin assms(2,5) len
    by (auto simp: pins_def resident_def update_conv' fun_eq_iff nth_list_update split: option.splits)
qed

lemma wp_install_page [wp_eqs]:
  "wp (install_page pid slot) Q E s = Q slot (s\<lparr>
     frame_metas := (frame_metas s)[slot := \<lparr>fm_page_id = pid, fm_is_dirty = False, fm_pin_count = 1\<rparr>],
     page_table := AList.update pid slot (page_table s),
     lru_list := slot # remove1 slot (lru_list s)\<rparr>)"
  by (simp add: install_page_def set_meta_def touch_def wp_eqs)

lemma cache_step_io_step: "pool_inv t \<Longrightarrow> cache_step t (io_step t)"
  by (simp add: cache_step_def same_view_def)

text \<open>
  Unpinning without the dirty flag is only right for a frame that still agrees with the
  file, is already marked dirty, or stays pinned by someone else.
\<close>

definition settled :: "'a pool_scheme \<Rightarrow> u32 \<Rightarrow> bool" where
  "settled s pid \<longleftrightarrow> (\<forall>slot. map_of (page_table s) pid = Some slot \<longrightarrow>
     fm_is_dirty (frame_metas s ! slot) \<or> fm_pin_count (frame_metas s ! slot) \<noteq> 1
     \<or> frames s ! slot = disk_page s pid)"

text \<open>
  What a client gets from a successful fetch, and what a failed one leaves.
\<close>

definition fetched :: "u32 \<Rightarrow> 'a pool_scheme \<Rightarrow> nat \<Rightarrow> 'a pool_scheme \<Rightarrow> bool" where
  "fetched pid s slot t \<longleftrightarrow> cache_step s t \<and> map_of (page_table t) pid = Some slot
     \<and> pid < total_pages s \<and> frames t ! slot = view s pid
     \<and> pins t = (pins s)(pid := pins s pid + 1) \<and> hd (lru_list t) = slot \<and> settled t pid"

definition fetch_failed :: "u32 \<Rightarrow> 'a pool_scheme \<Rightarrow> 'a pool_scheme \<Rightarrow> bool" where
  "fetch_failed pid s t \<longleftrightarrow> cache_step s t \<and> pins t = pins s
     \<and> (io s \<noteq> [] \<or> \<not> pid < total_pages s \<or> victim s = None)"

definition load_page :: "u32 \<Rightarrow> nat \<Rightarrow> ('a pool_scheme, nat) eff" where
  "load_page pid slot = bind (read_page pid) (\<lambda>data.
     andthen (modify (\<lambda>s. s\<lparr>frames := (frames s)[slot := data]\<rparr>)) (install_page pid slot))"

lemma wp_load_page:
  assumes "pool_inv t" "slot < BUFFER_POOL_SIZE" "frame_metas t ! slot = free_meta"
    "map_of (page_table t) pid = None"
  shows "wp (load_page pid slot) (fetched pid t)
    (\<lambda>e u. cache_step t u \<and> pins u = pins t \<and> (io t \<noteq> [] \<or> \<not> pid < total_pages t)) t"
proof (cases "pid < total_pages t \<and> next_outcome t = IO_ok")
  case True
  let ?u = "io_step t"
  note step = cache_step_io_step [OF assms(1)]
  have u: "frame_metas ?u ! slot = free_meta" "pid < total_pages ?u" "map_of (page_table ?u) pid = None"
    "disk_page t pid = disk_page ?u pid"
    using assms True by simp_all
  note r = resident_step [OF cache_stepD(1) [OF step] assms(2) u]
  have "cache_step t (resident pid slot (disk_page t pid) ?u)"
    by (rule cache_step_trans [OF step r(1)])
  moreover have "hd (lru_list (resident pid slot (disk_page t pid) ?u)) = slot"
    by (simp add: resident_def)
  moreover have "settled (resident pid slot (disk_page t pid) ?u) pid"
    using r(2) assms(2) pool_invD(2) [OF assms(1)]
    by (simp add: settled_def) (simp add: resident_def frames_ok_def)
  ultimately have "fetched pid t slot (resident pid slot (disk_page t pid) ?u)"
    unfolding fetched_def using r(2-4) True by (metis pins_of_disk_steps(1) view_io_step)
  with True assms(1) show ?thesis
    by (simp add: load_page_def wp_eqs pool_invD(1) resident_def)
next
  case False
  with assms(1) cache_step_io_step show ?thesis
    by (auto simp: load_page_def wp_eqs pool_invD(1) dest: next_outcome_Nil)
qed

text \<open>
  \<open>fetch_page\<close>: the client sees the logical page, pinned once more; nothing it could see
  before has changed. It fails only on an I/O error, a page that does not exist, or when
  every frame is pinned, and then it leaves the view and the pins as they were.
\<close>

lemma wp_fetch_hit:
  assumes "pool_inv s" "map_of (page_table s) pid = Some slot"
  shows "wp (fetch_page pid) (fetched pid s) (\<lambda>_ _. False) s"
proof -
  note inv = pool_invD [OF assms(1)]
  note sl = table_slot [OF inv(3) assms(2)]
  let ?m = "frame_metas s ! slot" and ?l = "slot # remove1 slot (lru_list s)"
  define t where "t = s\<lparr>frame_metas := (frame_metas s)[slot := ?m\<lparr>fm_pin_count := fm_pin_count ?m + 1\<rparr>], lru_list := ?l\<rparr>"
  have len: "length (frame_metas s) = BUFFER_POOL_SIZE" using inv(2) by (simp add: frames_ok_def)
  have step: "cache_step s t"
    using pool_inv_set_meta [OF assms(1) sl(1), of "?m\<lparr>fm_pin_count := fm_pin_count ?m + 1\<rparr>" ?l]
      touch_list [OF assms(1) sl(1)] sl by (simp add: t_def)
  have pn: "pins t = (pins s)(pid := pins s pid + 1)"
  proof
    fix q
    have "i \<noteq> slot" if "map_of (page_table s) q = Some i" "q \<noteq> pid" for i
      using table_inj [OF inv(3) assms(2), of q] that by auto
    then show "pins t q = ((pins s)(pid := pins s pid + 1)) q"
      using assms(2) sl(1) len
      by (cases "q = pid"; cases "map_of (page_table s) q") (simp_all add: pins_def t_def)
  qed
  have "pid < total_pages s" using inv(4) [OF sl(1)] sl by (simp add: slot_ok_def Let_def)
  moreover have "settled t pid"
    using inv(4) [OF sl(1)] sl assms(2) len by (auto simp: settled_def t_def slot_ok_def Let_def disk_page_def)
  ultimately have "fetched pid s slot t"
    using assms(2) step pn by (simp add: fetched_def view_def) (simp add: t_def)
  with assms(2) show ?thesis
    unfolding t_def by (simp add: fetch_page_def set_meta_def touch_def wp_eqs)
qed

lemma wp_fetch_page:
  assumes "pool_inv s"
  shows "wp (fetch_page pid) (fetched pid s) (\<lambda>e. fetch_failed pid s) s"
proof (cases "map_of (page_table s) pid")
  case (Some slot)
  show ?thesis by (rule wp_mono [OF wp_fetch_hit [OF assms Some]]) simp_all
next
  case None
  have len: "length (frame_metas s) = BUFFER_POOL_SIZE"
    using pool_invD(2) [OF assms] by (simp add: frames_ok_def)
  have "wp evict_slot (\<lambda>slot. wp (load_page pid slot) (fetched pid s) (\<lambda>e. fetch_failed pid s))
    (\<lambda>e. fetch_failed pid s) s"
  proof (rule wp_mono [OF wp_evict_slot [OF assms]], elim conjE)
    fix slot t
    assume h: "victim s = Some slot" "cache_step s t" "frame_metas t = (frame_metas s)[slot := free_meta]"
    note v = victim_slot [OF assms h(1)] and step = cache_stepD [OF h(2)]
    have pt: "pins t = pins s" by (rule pins_after_evict [OF assms step(1) v(1) h(3) v(2)])
    have nt: "map_of (page_table t) pid = None"
      using table_after_evict [OF assms step(1) v(1) h(3), of pid] None by (cases "map_of (page_table t) pid") auto
    have "wp (load_page pid slot) (fetched pid t)
      (\<lambda>e u. cache_step t u \<and> pins u = pins t \<and> (io t \<noteq> [] \<or> \<not> pid < total_pages t)) t"
      using h(3) v(1) len nt by (intro wp_load_page step(1)) simp_all
    then show "wp (load_page pid slot) (fetched pid s) (\<lambda>e. fetch_failed pid s) t"
      by (rule wp_mono) (use pt step cache_step_trans [OF h(2)] in \<open>auto simp: fetched_def fetch_failed_def\<close>)
  qed (auto simp: fetch_failed_def)
  with None show ?thesis by (simp add: fetch_page_def load_page_def [symmetric] wp_eqs)
qed

subsection \<open>unpin\_page and writes through the pointer\<close>

lemma pins_pos_cached: "0 < pins s pid \<Longrightarrow> \<exists>slot. map_of (page_table s) pid = Some slot"
  by (auto simp: pins_def split: option.splits)

lemma wp_unpin_page:
  assumes "pool_inv s" "is_dirty \<or> settled s pid"
  shows "wp (unpin_page pid is_dirty)
    (\<lambda>_ t. cache_step s t \<and> pins t = (pins s)(pid := pins s pid - 1)
       \<and> page_table t = page_table s \<and> frames t = frames s \<and> lru_list t = lru_list s)
    (\<lambda>_ _. False) s"
proof (cases "0 < pins s pid")
  case True
  note inv = pool_invD [OF assms(1)]
  from True obtain slot where tab: "map_of (page_table s) pid = Some slot"
    using pins_pos_cached by blast
  note sl = table_slot [OF inv(3) tab]
  define m where "m = (frame_metas s ! slot)\<lparr>fm_pin_count := fm_pin_count (frame_metas s ! slot) - 1,
    fm_is_dirty := fm_is_dirty (frame_metas s ! slot) \<or> is_dirty\<rparr>"
  define t where "t = s\<lparr>frame_metas := (frame_metas s)[slot := m], lru_list := lru_list s\<rparr>"
  have len: "length (frame_metas s) = BUFFER_POOL_SIZE" "distinct (lru_list s)"
    "set (lru_list s) = {..<BUFFER_POOL_SIZE}"
    using inv(2) by (simp_all add: frames_ok_def)
  have pos: "0 < fm_pin_count (frame_metas s ! slot)" using True tab by (simp add: pins_def)
  have "cache_step s t"
    unfolding t_def
    by (rule pool_inv_set_meta [OF assms(1) sl(1)])
      (use assms(2) sl len tab pos in \<open>auto simp: m_def settled_def\<close>)
  moreover have "pins t = (pins s)(pid := pins s pid - 1)"
  proof
    fix q
    have "i \<noteq> slot" if "map_of (page_table s) q = Some i" "q \<noteq> pid" for i
      using table_inj [OF inv(3) tab, of q] that by auto
    then show "pins t q = ((pins s)(pid := pins s pid - 1)) q"
      using tab sl(1) len
      by (cases "q = pid"; cases "map_of (page_table s) q") (simp_all add: pins_def t_def m_def)
  qed
  moreover have "unpin_page pid is_dirty s = (Inr (), t)"
    using tab pos len sl(1)
    by (auto simp: unpin_page_def bind_def andthen_def gets_def whenever_def set_meta_def modify_def
        ret_def t_def m_def)
  ultimately show ?thesis by (simp add: wp_def) (simp add: t_def)
next
  case False
  then show ?thesis
    using assms(1) by (auto simp: unpin_page_def wp_eqs pins_def fun_eq_iff split: option.splits)
qed

text \<open>The page \<open>pid\<close> now reads \<open>data\<close>, and nothing else a client sees has changed.\<close>

definition page_written :: "u32 \<Rightarrow> page \<Rightarrow> 'a pool_scheme \<Rightarrow> 'a pool_scheme \<Rightarrow> bool" where
  "page_written pid data s t \<longleftrightarrow> pool_inv t \<and> total_pages t = total_pages s
     \<and> (\<forall>q < total_pages s. view t q = (if q = pid then data else view s q))
     \<and> pool.more t = pool.more s \<and> db_stable t = db_stable s \<and> (io s = [] \<longrightarrow> io t = [])"

lemma wp_write_frame:
  assumes "pool_inv s" "map_of (page_table s) pid = Some slot" "0 < pins s pid" "length data = PAGE_SIZE"
  shows "wp (write_frame slot data)
    (\<lambda>_ t. page_written pid data s t \<and> pins t = pins s \<and> page_table t = page_table s
       \<and> frames t = (frames s)[slot := data]) (\<lambda>_ _. False) s"
proof -
  note inv = pool_invD [OF assms(1)]
  note sl = table_slot [OF inv(3) assms(2)]
  define t where "t = s\<lparr>frames := (frames s)[slot := data]\<rparr>"
  have len: "length (frames s) = BUFFER_POOL_SIZE" using inv(2) by (simp add: frames_ok_def)
  have same: "disk_page t = disk_page s" "total_pages t = total_pages s" "disk_inv t = disk_inv s"
    "pins t = pins s"
    by (simp_all add: t_def disk_page_def fun_eq_iff disk_inv_def pins_def split: option.split)
  have "slot_ok t i" if "i < BUFFER_POOL_SIZE" for i
    using inv(4) [OF that] assms(2,3) same(1,2)
    by (cases "i = slot") (auto simp: slot_ok_def t_def Let_def pins_def)
  moreover have "frames_ok t"
    using inv(2) assms(4) sl(1) by (auto simp: frames_ok_def t_def nth_list_update)
  ultimately have "pool_inv t"
    using inv same by (simp add: pool_inv_def) (simp add: table_ok_def t_def)
  moreover have "view t q = (if q = pid then data else view s q)" for q
  proof -
    have "i \<noteq> slot" if "map_of (page_table s) q = Some i" "q \<noteq> pid" for i
      using table_inj [OF inv(3) assms(2), of q] that by auto
    then show ?thesis
      using assms(2) sl(1) len same(1)
      by (cases "q = pid"; cases "map_of (page_table s) q") (simp_all add: view_def t_def)
  qed
  ultimately show ?thesis
    using same by (simp add: write_frame_def wp_eqs page_written_def t_def)
qed

lemma page_written_trans:
  "page_written pid d s t \<Longrightarrow> cache_step t u \<Longrightarrow> page_written pid d s u"
  by (simp add: page_written_def cache_step_def same_view_def)

lemma page_written_after:
  "cache_step s t \<Longrightarrow> page_written pid d t u \<Longrightarrow> page_written pid d s u"
  by (simp add: page_written_def cache_step_def same_view_def)

text \<open>
  The idiom of every writer above the pool: fetch a page, overwrite it through the pointer,
  unpin it dirty.
\<close>

definition update_page :: "u32 \<Rightarrow> (page \<Rightarrow> page) \<Rightarrow> ('a pool_scheme, unit) eff" where
  "update_page pid f = bind (fetch_page pid) (\<lambda>slot. bind (read_frame slot) (\<lambda>p.
     andthen (write_frame slot (f p)) (unpin_page pid True)))"

lemma wp_update_page:
  assumes "pool_inv s" "length (f (view s pid)) = PAGE_SIZE"
  shows "wp (update_page pid f)
    (\<lambda>_ t. page_written pid (f (view s pid)) s t \<and> pins t = pins s \<and> pid < total_pages s)
    (\<lambda>e. fetch_failed pid s) s"
  unfolding update_page_def wp_bind read_frame_def wp_gets wp_andthen
proof (rule wp_mono [OF wp_fetch_page [OF assms(1)]])
  fix slot t
  assume "fetched pid s slot t"
  then have t: "cache_step s t" "map_of (page_table t) pid = Some slot" "pid < total_pages s"
    "frames t ! slot = view s pid" "pins t = (pins s)(pid := pins s pid + 1)"
    by (simp_all add: fetched_def)
  have "wp (write_frame slot (f (view s pid)))
    (\<lambda>_ u. page_written pid (f (view s pid)) t u \<and> pins u = pins t \<and> page_table u = page_table t
       \<and> frames u = (frames t)[slot := f (view s pid)]) (\<lambda>_ _. False) t"
    using t assms(2) cache_stepD(1) [OF t(1)] by (intro wp_write_frame) simp_all
  then show "wp (write_frame slot (f (frames t ! slot)))
    (\<lambda>x. wp (unpin_page pid True)
       (\<lambda>_ t. page_written pid (f (view s pid)) s t \<and> pins t = pins s \<and> pid < total_pages s)
       (\<lambda>e. fetch_failed pid s)) (\<lambda>e. fetch_failed pid s) t"
    unfolding t(4)
  proof (rule wp_mono, elim conjE)
    fix u
    assume u: "page_written pid (f (view s pid)) t u" "pins u = pins t"
    then have "pool_inv u" by (simp add: page_written_def)
    then have "wp (unpin_page pid True)
      (\<lambda>_ v. cache_step u v \<and> pins v = (pins u)(pid := pins u pid - 1)
         \<and> page_table v = page_table u \<and> frames v = frames u \<and> lru_list v = lru_list u)
      (\<lambda>_ _. False) u"
      by (intro wp_unpin_page) simp_all
    then show "wp (unpin_page pid True)
      (\<lambda>_ t. page_written pid (f (view s pid)) s t \<and> pins t = pins s \<and> pid < total_pages s)
      (\<lambda>e. fetch_failed pid s) u"
      by (rule wp_mono)
        (auto simp: u(2) t(3,5) fun_eq_iff intro: page_written_after [OF t(1) page_written_trans [OF u(1)]])
  qed simp
qed simp

subsection \<open>new\_page\<close>

text \<open>A new page: one more page than before, zero-filled, resident and pinned once.\<close>

definition page_created :: "'a pool_scheme \<Rightarrow> u32 \<Rightarrow> nat \<Rightarrow> 'a pool_scheme \<Rightarrow> bool" where
  "page_created s pid slot t \<longleftrightarrow> pool_inv t \<and> pid = total_pages s \<and> total_pages t = total_pages s + 1
     \<and> (\<forall>q < total_pages s. view t q = view s q) \<and> view t pid = zero_page
     \<and> map_of (page_table t) pid = Some slot \<and> pins t = (pins s)(pid := 1)
     \<and> pool.more t = pool.more s \<and> db_stable t = db_stable s \<and> (io s = [] \<longrightarrow> io t = [])"

lemma less_grown: "total_pages s < INVALID_PAGE \<Longrightarrow> q < total_pages s \<Longrightarrow> q < total_pages s + 1"
  by (simp add: word_less_nat_alt unat_next_page)

lemma grow_file_inv:
  assumes "pool_inv s" "total_pages s < INVALID_PAGE"
  shows "pool_inv (grow_file s)" "q < total_pages s \<Longrightarrow> view (grow_file s) q = view s q"
    "pins (grow_file s) = pins s" "map_of (page_table s) (total_pages s) = None"
proof -
  note inv = pool_invD [OF assms(1)]
  have "slot_ok (grow_file s) i" if "i < BUFFER_POOL_SIZE" for i
    using inv(4) [OF that] less_grown [OF assms(2)] disk_page_grow_file_old [OF inv(1)]
    by (auto simp: slot_ok_def Let_def)
  then show "pool_inv (grow_file s)"
    using inv assms(2) by (simp add: pool_inv_def frames_ok_def table_ok_def)
  show "view (grow_file s) q = view s q" if "q < total_pages s"
    using disk_page_grow_file_old [OF inv(1) that] by (simp add: view_def split: option.split)
  show "pins (grow_file s) = pins s" by (simp add: pins_def fun_eq_iff split: option.split)
  show "map_of (page_table s) (total_pages s) = None"
  proof (cases "map_of (page_table s) (total_pages s)")
    case (Some i)
    note sl = table_slot [OF inv(3) Some]
    have "total_pages s < total_pages s" using inv(4) [OF sl(1)] sl(2,3) by (simp add: slot_ok_def Let_def)
    then show ?thesis by simp
  qed
qed

lemma torn_growth_inv:
  assumes "pool_inv s"
  shows "cache_step s (torn_page (total_pages s) n zero_page s)"
proof -
  let ?t = "torn_page (total_pages s) n zero_page s"
  note inv = pool_invD [OF assms]
  note dp = disk_page_torn_growth [OF inv(1)]
  have "slot_ok ?t i" if "i < BUFFER_POOL_SIZE" for i
    using inv(4) [OF that] dp by (auto simp: slot_ok_def Let_def)
  then have "pool_inv ?t" using inv by (simp add: pool_inv_def frames_ok_def table_ok_def)
  moreover have "view ?t q = view s q" if "q < total_pages s" for q
    using dp [OF that] by (simp add: view_def split: option.split)
  ultimately show ?thesis by (simp add: cache_step_def same_view_def)
qed

lemma page_created_resident:
  assumes "pool_inv s" "total_pages s < INVALID_PAGE" "cache_step (grow_file s) t"
    "victim (grow_file s) = Some slot" "frame_metas t = (frame_metas s)[slot := free_meta]"
  shows "page_created s (total_pages s) slot (resident (total_pages s) slot zero_page t)"
proof -
  let ?g = "grow_file s" and ?p = "total_pages s"
  note g = grow_file_inv [OF assms(1,2)] and st = cache_stepD [OF assms(3)]
  note v = victim_slot [OF g(1) assms(4)]
  have fm: "frame_metas t = (frame_metas ?g)[slot := free_meta]" using assms(5) by simp
  have len: "length (frame_metas s) = BUFFER_POOL_SIZE"
    using pool_invD(2) [OF assms(1)] by (simp add: frames_ok_def)
  have pt: "pins t = pins s"
    using pins_after_evict [OF g(1) st(1) v(1) fm v(2)] g(3) by simp
  have nt: "map_of (page_table t) ?p = None"
    using table_after_evict [OF g(1) st(1) v(1) fm, of ?p] g(4)
    by (cases "map_of (page_table t) ?p") auto
  have pl: "?p < total_pages ?g" "?p < total_pages t"
    using unat_next_page [OF assms(2)] st(6) by (simp_all add: word_less_nat_alt)
  have "view ?g ?p = zero_page"
    using g(4) disk_page_grow_file_new [OF pool_invD(1) [OF assms(1)]] by (simp add: view_def)
  then have vz: "view t ?p = zero_page" using st(7) [OF pl(1)] by simp
  then have dz: "zero_page = disk_page t ?p" using nt by (simp add: view_def)
  have ft: "frame_metas t ! slot = free_meta" using assms(5) len v(1) by simp
  note r = resident_step [OF st(1) v(1) ft pl(2) nt dz] and rs = cache_stepD [OF r(1)]
  have "view (resident ?p slot zero_page t) q = view s q" if "q < ?p" for q
    using that g(2) st(6,7) rs(7) less_grown [OF assms(2)] by simp
  moreover have "pins s ?p = 0" using g(4) by (simp add: pins_def)
  ultimately show ?thesis
    using rs r(2-4) st vz pt pl by (simp add: page_created_def)
qed

text \<open>
  A creation that fails may still have grown the file: its page then exists and is zero.
\<close>

definition new_tail :: "'a pool_scheme \<Rightarrow> 'a pool_scheme \<Rightarrow> bool" where
  "new_tail s t \<longleftrightarrow> total_pages t = total_pages s
     \<or> total_pages t = total_pages s + 1 \<and> view t (total_pages s) = zero_page"

lemma new_tail_step:
  assumes "pool_inv s" "total_pages s < INVALID_PAGE" "cache_step (grow_file s) t"
  shows "new_tail s t"
proof -
  have "view (grow_file s) (total_pages s) = zero_page"
    using grow_file_inv(4) [OF assms(1,2)] disk_page_grow_file_new [OF pool_invD(1) [OF assms(1)]]
    by (simp add: view_def)
  moreover have "total_pages s < total_pages (grow_file s)"
    using unat_next_page [OF assms(2)] by (simp add: word_less_nat_alt)
  ultimately show ?thesis
    using cache_stepD(6,7) [OF assms(3)] by (simp add: new_tail_def)
qed

lemma wp_new_page:
  assumes "pool_inv s" "total_pages s < INVALID_PAGE"
  shows "wp new_page (\<lambda>(pid, slot). page_created s pid slot)
    (\<lambda>e t. pool_inv t \<and> (\<forall>q < total_pages s. view t q = view s q) \<and> new_tail s t \<and> pins t = pins s
       \<and> pool.more t = pool.more s \<and> (io s \<noteq> [] \<or> victim s = None)) s"
proof (cases "next_outcome s")
  case (IO_short n)
  then have "io s \<noteq> []" by auto
  with IO_short torn_growth_inv [OF assms(1), of n] show ?thesis
    by (simp add: new_page_def wp_eqs cache_step_def same_view_def new_tail_def)
next
  case IO_ok
  let ?g = "grow_file s"
  note g = grow_file_inv [OF assms]
  have vg: "victim ?g = victim s" by (simp add: victim_def)
  have "wp evict_slot (\<lambda>slot. wp (andthen (install_page (total_pages s) slot) (ret (total_pages s, slot)))
      (\<lambda>(pid, slot). page_created s pid slot)
      (\<lambda>e t. pool_inv t \<and> (\<forall>q < total_pages s. view t q = view s q) \<and> new_tail s t \<and> pins t = pins s
         \<and> pool.more t = pool.more s \<and> (io s \<noteq> [] \<or> victim s = None)))
      (\<lambda>e t. pool_inv t \<and> (\<forall>q < total_pages s. view t q = view s q) \<and> new_tail s t \<and> pins t = pins s
         \<and> pool.more t = pool.more s \<and> (io s \<noteq> [] \<or> victim s = None)) ?g"
  proof (rule wp_mono [OF wp_evict_slot [OF g(1)]], elim conjE)
    fix slot t
    assume h: "victim ?g = Some slot" "cache_step ?g t"
      "frame_metas t = (frame_metas ?g)[slot := free_meta]" "frames t = (frames ?g)[slot := zero_page]"
      "lru_list t = lru_list ?g"
    have "resident (total_pages s) slot zero_page t = t\<lparr>
     frame_metas := (frame_metas t)[slot := \<lparr>fm_page_id = total_pages s, fm_is_dirty = False, fm_pin_count = 1\<rparr>],
     page_table := AList.update (total_pages s) slot (page_table t),
     lru_list := slot # remove1 slot (lru_list t)\<rparr>"
      using h(4) by (simp add: resident_def)
    with page_created_resident [OF assms h(2,1)] h(3)
    show "wp (andthen (install_page (total_pages s) slot) (ret (total_pages s, slot)))
      (\<lambda>(pid, slot). page_created s pid slot)
      (\<lambda>e t. pool_inv t \<and> (\<forall>q < total_pages s. view t q = view s q) \<and> new_tail s t \<and> pins t = pins s
         \<and> pool.more t = pool.more s \<and> (io s \<noteq> [] \<or> victim s = None)) t"
      by (simp add: wp_eqs)
  next
    fix e t
    assume "cache_step ?g t \<and> pins t = pins ?g \<and> (io ?g \<noteq> [] \<or> (victim ?g = None \<and> t = ?g))"
    then show "pool_inv t \<and> (\<forall>q < total_pages s. view t q = view s q) \<and> new_tail s t \<and> pins t = pins s
         \<and> pool.more t = pool.more s \<and> (io s \<noteq> [] \<or> victim s = None)"
      using cache_stepD [of ?g t] g vg less_grown [OF assms(2)] new_tail_step [OF assms, of t]
      by (auto simp: tl_Nil)
  qed
  with IO_ok show ?thesis by (simp add: new_page_def wp_eqs)
qed

subsection \<open>flush\_all\<close>

text \<open>
  Writing one cached page back: afterwards the file agrees with the frame, unless a caller
  holds the page and has changed it without saying so yet.
\<close>

definition flushed :: "'a pool_scheme \<Rightarrow> u32 set \<Rightarrow> 'a pool_scheme \<Rightarrow> bool" where
  "flushed s P t \<longleftrightarrow> cache_step s t \<and> page_table t = page_table s \<and> frames t = frames s \<and> pins t = pins s
     \<and> (\<forall>q < total_pages s. if q \<in> P then pins s q = 0 \<longrightarrow> disk_page t q = view s q
                             else disk_page t q = disk_page s q)"

lemma wp_flush_slot:
  assumes "pool_inv s" "map_of (page_table s) pid = Some slot"
  shows "wp (flush_slot (pid, slot)) (\<lambda>_. flushed s {pid})
    (\<lambda>e t. cache_step s t \<and> pins t = pins s \<and> io s \<noteq> []) s"
proof (cases "fm_is_dirty (frame_metas s ! slot)")
  case False
  note inv = pool_invD [OF assms(1)]
  note sl = table_slot [OF inv(3) assms(2)]
  have "disk_page s pid = view s pid" if "pins s pid = 0"
    using inv(4) [OF sl(1)] sl(2,3) assms(2) False that
    by (simp add: slot_ok_def Let_def pins_def view_def)
  with False assms show ?thesis by (auto simp: flush_slot_def wp_eqs flushed_def)
next
  case True
  note inv = pool_invD [OF assms(1)]
  note sl = table_slot [OF inv(3) assms(2)]
  note wb = write_back_inv [OF assms(1) sl(1) sl(2) [symmetric] sl(3)]
  have pid: "pid < total_pages s" using inv(4) [OF sl(1)] sl(2,3) by (simp add: slot_ok_def Let_def)
  have len: "length (frames s ! slot) = PAGE_SIZE" "length (frame_metas s) = BUFFER_POOL_SIZE"
    using inv(2) sl(1) by (simp_all add: frames_ok_def)
  let ?u = "store_page pid (frames s ! slot) s"
  let ?m = "(frame_metas s ! slot)\<lparr>fm_is_dirty := False\<rparr>"
  define t where "t = ?u\<lparr>frame_metas := (frame_metas ?u)[slot := ?m], lru_list := lru_list ?u\<rparr>"
  have t_eq: "t = ?u\<lparr>frame_metas := (frame_metas s)[slot := ?m]\<rparr>" by (simp add: t_def)
  have "cache_step ?u t"
    unfolding t_def
    by (rule pool_inv_set_meta [OF cache_stepD(1) [OF wb(1)] sl(1)])
      (use wb(2) sl inv(2) in \<open>auto simp: frames_ok_def\<close>)
  then have "cache_step s t" using wb(1) cache_step_trans by blast
  moreover have "disk_page t q = disk_page ?u q" for q by (simp add: t_def disk_page_def)
  moreover have "pins t q = pins s q" for q
  proof (cases "map_of (page_table s) q")
    case (Some i)
    then show ?thesis using len sl(1)
      by (cases "i = slot") (simp_all add: pins_def t_def)
  qed (simp add: pins_def t_def)
  ultimately have "flushed s {pid} t"
    using disk_page_store_page [OF inv(1) pid _ len(1)] assms(2) wb(2)
    by (simp add: flushed_def fun_eq_iff view_def) (simp add: t_def)
  with True len pid wb(3) show ?thesis
    by (auto simp: flush_slot_def wp_eqs set_meta_def t_eq next_outcome_def
        split: io_outcome.splits list.splits)
qed

lemma wp_flush_slots:
  assumes "pool_inv s" "set l \<subseteq> set (page_table s)"
  shows "wp (for_each flush_slot l) (\<lambda>_. flushed s (fst ` set l))
    (\<lambda>e t. cache_step s t \<and> pins t = pins s \<and> io s \<noteq> []) s"
  using assms
proof (induction l arbitrary: s)
  case Nil
  then show ?case by (simp add: wp_eqs flushed_def)
next
  case (Cons x l)
  obtain pid slot where x: "x = (pid, slot)" by (cases x)
  have tab: "map_of (page_table s) pid = Some slot"
  proof (rule map_of_is_SomeI)
    show "distinct (map fst (page_table s))"
      using pool_invD(3) [OF Cons.prems(1)] by (simp add: table_ok_def)
    show "(pid, slot) \<in> set (page_table s)" using Cons.prems(2) x by auto
  qed
  have "wp (flush_slot (pid, slot)) (\<lambda>_. wp (for_each flush_slot l) (\<lambda>_. flushed s (fst ` set (x # l)))
     (\<lambda>e t. cache_step s t \<and> pins t = pins s \<and> io s \<noteq> []))
     (\<lambda>e t. cache_step s t \<and> pins t = pins s \<and> io s \<noteq> []) s"
  proof (rule wp_mono [OF wp_flush_slot [OF Cons.prems(1) tab]])
    fix t assume t: "flushed s {pid} t"
    then have st: "cache_step s t" and pt: "page_table t = page_table s" "pins t = pins s"
      by (simp_all add: flushed_def)
    have "wp (for_each flush_slot l) (\<lambda>_. flushed t (fst ` set l))
      (\<lambda>e u. cache_step t u \<and> pins u = pins t \<and> io t \<noteq> []) t"
      using Cons.prems pt cache_stepD(1) [OF st] by (intro Cons.IH) simp_all
    then show "wp (for_each flush_slot l) (\<lambda>_. flushed s (fst ` set (x # l)))
      (\<lambda>e t. cache_step s t \<and> pins t = pins s \<and> io s \<noteq> []) t"
    proof (rule wp_mono)
      fix u assume u: "flushed t (fst ` set l) u"
      then have "cache_step s u" using cache_step_trans [OF st] by (simp add: flushed_def)
      then show "flushed s (fst ` set (x # l)) u"
        using t u x cache_stepD(6,7) [OF st] by (auto simp: flushed_def split: if_splits)
    next
      fix e u assume "cache_step t u \<and> pins u = pins t \<and> io t \<noteq> []"
      then show "cache_step s u \<and> pins u = pins s \<and> io s \<noteq> []"
        using cache_step_trans [OF st] cache_stepD(5) [OF st] pt by auto
    qed
  qed simp
  then show ?case by (simp add: wp_eqs x)
qed

text \<open>
  The checkpoint boundary: when no page is in use, a successful \<open>flush_all\<close> leaves every
  page of the logical database on file and durable.
\<close>

definition checkpointed :: "'a pool_scheme \<Rightarrow> 'a pool_scheme \<Rightarrow> bool" where
  "checkpointed s t \<longleftrightarrow> pool_inv t \<and> same_view s t \<and> pool.more t = pool.more s \<and> pins t = pins s
     \<and> (\<forall>q < total_pages s. disk_page t q = view s q) \<and> db_stable t = db_file t
     \<and> (io s = [] \<longrightarrow> io t = [])"

lemma wp_flush_all:
  assumes "pool_inv s" "\<And>q. pins s q = 0"
  shows "wp flush_all (\<lambda>_. checkpointed s)
    (\<lambda>e t. cache_step s t \<and> pins t = pins s \<and> io s \<noteq> []) s"
proof -
  have "wp (for_each flush_slot (page_table s))
    (\<lambda>_. wp disk_sync (\<lambda>_. checkpointed s) (\<lambda>e t. cache_step s t \<and> pins t = pins s \<and> io s \<noteq> []))
    (\<lambda>e t. cache_step s t \<and> pins t = pins s \<and> io s \<noteq> []) s"
  proof (rule wp_mono [OF wp_flush_slots [OF assms(1) order_refl]])
    fix t assume t: "flushed s (fst ` set (page_table s)) t"
    then have st: "cache_step s t" and pt: "pins t = pins s" by (simp_all add: flushed_def)
    have dp: "disk_page t q = view s q" if "q < total_pages s" for q
    proof (cases "q \<in> fst ` set (page_table s)")
      case True
      then show ?thesis using t that assms(2) by (simp add: flushed_def)
    next
      case False
      then have "map_of (page_table s) q = None" by (simp add: map_of_eq_None_iff)
      then show ?thesis using t that False by (simp add: flushed_def view_def)
    qed
    let ?u = "io_step t\<lparr>db_stable := db_file t\<rparr>"
    have same: "disk_page ?u = disk_page t" "view ?u = view t" "pins ?u = pins t" "pool_inv ?u = pool_inv t"
      by (simp_all add: fun_eq_iff disk_page_def view_def pins_def pool_inv_def disk_inv_def frames_ok_def
          table_ok_def slot_ok_def Let_def split: option.split)
    show "wp disk_sync (\<lambda>_. checkpointed s) (\<lambda>e t. cache_step s t \<and> pins t = pins s \<and> io s \<noteq> []) t"
    proof (cases "next_outcome t")
      case IO_ok
      then show ?thesis
        using dp same cache_stepD [OF st] pt by (simp add: wp_eqs checkpointed_def same_view_def)
    next
      case (IO_short n)
      then have "io s \<noteq> []" using cache_stepD(5) [OF st] by auto
      with IO_short show ?thesis
        using pt cache_step_trans [OF st cache_step_io_step [OF cache_stepD(1) [OF st]]] by (simp add: wp_eqs)
    qed
  qed
  then show ?thesis by (simp add: flush_all_def wp_eqs)
qed


section \<open>The pool as a page store\<close>

text \<open>Reading a page and letting it go: fetch, copy the bytes, unpin clean.\<close>

definition peek_page :: "u32 \<Rightarrow> ('a pool_scheme, page) eff" where
  "peek_page pid = bind (fetch_page pid) (\<lambda>slot. bind (read_frame slot) (\<lambda>p.
     andthen (unpin_page pid False) (ret p)))"

definition put_page :: "u32 \<Rightarrow> page \<Rightarrow> ('a pool_scheme, unit) eff" where
  "put_page pid data = bind (fetch_page pid) (\<lambda>slot.
     andthen (write_frame slot data) (unpin_page pid True))"

definition pool_calm :: "'a pool_scheme \<Rightarrow> bool" where
  "pool_calm s \<longleftrightarrow> io s = [] \<and> (\<forall>q. pins s q = 0)"

definition pool_keeps :: "'a pool_scheme \<Rightarrow> 'a pool_scheme \<Rightarrow> bool" where
  "pool_keeps s t \<longleftrightarrow> total_pages t = total_pages s \<and> pool.more t = pool.more s
     \<and> db_stable t = db_stable s \<and> pins t = pins s \<and> (io s = [] \<longrightarrow> io t = [])"

lemma calm_victim:
  assumes "pool_inv s" "\<forall>q. pins s q = 0"
  shows "victim s \<noteq> None"
proof -
  have "fm_pin_count (frame_metas s ! 0) = 0"
  proof (cases "fm_page_id (frame_metas s ! 0) = INVALID_PAGE")
    case True
    then show ?thesis
      using pool_invD(4) [OF assms(1), of 0]
      by (simp add: slot_ok_def BUFFER_POOL_SIZE_def free_meta_def Let_def)
  next
    case False
    then have "map_of (page_table s) (fm_page_id (frame_metas s ! 0)) = Some 0"
      using slot_table [OF pool_invD(3) [OF assms(1)], of 0] by (simp add: BUFFER_POOL_SIZE_def)
    then show ?thesis using assms(2) [rule_format, of "fm_page_id (frame_metas s ! 0)"]
      by (simp add: pins_def)
  qed
  moreover have "0 < BUFFER_POOL_SIZE" by (simp add: BUFFER_POOL_SIZE_def)
  ultimately show ?thesis using victim_None [OF assms(1)] by (metis less_irrefl)
qed

lemma cache_step_keeps: "cache_step s t \<Longrightarrow> pins t = pins s \<Longrightarrow> pool_keeps s t"
  by (simp add: pool_keeps_def cache_step_def same_view_def)

lemma fetch_failed_store:
  assumes "pool_inv s" "fetch_failed pid s t"
  shows "pool_inv t" "pool_keeps s t" "\<forall>q < total_pages s. view t q = view s q"
    "\<not> (pool_calm s \<and> pid < total_pages s)"
  using assms calm_victim [OF assms(1)] cache_step_keeps [of s t]
  by (auto simp: fetch_failed_def pool_calm_def cache_step_def same_view_def)

lemma wp_peek_page:
  assumes "pool_inv s"
  shows "wp (peek_page pid) (\<lambda>p t. p = view s pid \<and> pid < total_pages s \<and> cache_step s t \<and> pins t = pins s)
    (\<lambda>e. fetch_failed pid s) s"
  unfolding peek_page_def wp_bind read_frame_def wp_gets wp_andthen wp_ret
proof (rule wp_mono [OF wp_fetch_page [OF assms(1)]])
  fix slot t
  assume t: "fetched pid s slot t"
  then have "pool_inv t" "settled t pid" by (simp_all add: fetched_def cache_step_def)
  then have "wp (unpin_page pid False)
    (\<lambda>_ u. cache_step t u \<and> pins u = (pins t)(pid := pins t pid - 1)
       \<and> page_table u = page_table t \<and> frames u = frames t \<and> lru_list u = lru_list t)
    (\<lambda>_ _. False) t"
    by (intro wp_unpin_page) simp_all
  then show "wp (unpin_page pid False)
    (\<lambda>_ u. frames t ! slot = view s pid \<and> pid < total_pages s \<and> cache_step s u \<and> pins u = pins s)
    (\<lambda>e. fetch_failed pid s) t"
    by (rule wp_mono) (use t in \<open>auto simp: fetched_def fun_eq_iff intro: cache_step_trans\<close>)
qed simp

lemma put_page_update: "put_page pid data = update_page pid (\<lambda>_. data)"
  by (simp add: put_page_def update_page_def read_frame_def)

interpretation ps: page_store pool_inv pool_calm pool_keeps total_pages view peek_page put_page
proof unfold_locales
  fix s t u :: "'a pool_scheme" and pid :: u32 and p :: page
  show "pool_keeps s s" by (simp add: pool_keeps_def)
  show "pool_keeps s t \<Longrightarrow> pool_keeps t u \<Longrightarrow> pool_keeps s u" by (simp add: pool_keeps_def)
  show "pool_keeps s t \<Longrightarrow> total_pages t = total_pages s" by (simp add: pool_keeps_def)
  show "pool_keeps s t \<Longrightarrow> pool_calm s \<Longrightarrow> pool_calm t" by (simp add: pool_keeps_def pool_calm_def)
  show "wp (peek_page pid)
      (\<lambda>p t. p = view s pid \<and> pid < total_pages s \<and> pool_inv t \<and> pool_keeps s t \<and> (\<forall>q < total_pages s. view t q = view s q))
      (\<lambda>e t. pool_inv t \<and> pool_keeps s t \<and> (\<forall>q < total_pages s. view t q = view s q)
        \<and> \<not> (pool_calm s \<and> pid < total_pages s)) s" if "pool_inv s"
    by (rule wp_mono [OF wp_peek_page [OF that, of pid]])
      (use fetch_failed_store [OF that] in
        \<open>auto simp: cache_step_keeps dest: cache_stepD(1,7)\<close>)
  show "wp (put_page pid p)
      (\<lambda>_ t. pid < total_pages s \<and> pool_inv t \<and> pool_keeps s t
        \<and> (\<forall>q < total_pages s. view t q = (if q = pid then p else view s q)))
      (\<lambda>e t. pool_inv t \<and> pool_keeps s t \<and> (\<forall>q < total_pages s. view t q = view s q)
        \<and> \<not> (pool_calm s \<and> pid < total_pages s)) s" if "pool_inv s" "length p = PAGE_SIZE"
    unfolding put_page_update
    by (rule wp_mono [OF wp_update_page [OF that(1), of "\<lambda>_. p" pid]])
      (use that fetch_failed_store [OF that(1)] in \<open>auto simp: page_written_def pool_keeps_def\<close>)
qed

section \<open>Clients of the pool\<close>

text \<open>
  A trace of a client: it fetches and holds pages, lets go of what it holds, reads pages,
  rewrites pages (fetch, write through the pointer, unpin dirty), creates pages and flushes,
  in any order and with any I/O failures. Beside the state the trace carries the pages as
  the client should see them: changed only by a rewrite that succeeded and by a new page.
\<close>

inductive pool_trace :: "'a pool_scheme \<Rightarrow> 'a pool_scheme \<Rightarrow> (u32 \<Rightarrow> page) \<Rightarrow> bool" for s where
  start: "pool_trace s s (view s)"
| fetch: "pool_trace s t c \<Longrightarrow> pool_trace s (final (fetch_page pid t)) c"
| unpin: "pool_trace s t c \<Longrightarrow> pool_trace s (final (unpin_page pid True t)) c"
| peek: "pool_trace s t c \<Longrightarrow> pool_trace s (final (peek_page pid t)) c"
| rewrite: "pool_trace s t c \<Longrightarrow> length p = PAGE_SIZE \<Longrightarrow> put_page pid p t = (Inr (), u) \<Longrightarrow>
    pool_trace s u (c(pid := p))"
| rewrite_failed: "pool_trace s t c \<Longrightarrow> length p = PAGE_SIZE \<Longrightarrow> put_page pid p t = (Inl e, u) \<Longrightarrow>
    pool_trace s u c"
| create: "pool_trace s t c \<Longrightarrow> total_pages t < INVALID_PAGE \<Longrightarrow>
    pool_trace s (final (new_page t)) (c(total_pages t := zero_page))"
| flush: "pool_trace s t c \<Longrightarrow> pool_trace s (final (flush_all t)) c"

lemma wp_final:
  assumes "wp m Q E s" "\<And>x t. Q x t \<Longrightarrow> P t" "\<And>e t. E e t \<Longrightarrow> P t"
  shows "P (final (m s))"
  using assms by (auto simp: wp_def final_def split: prod.splits sum.splits)

definition sees :: "(u32 \<Rightarrow> page) \<Rightarrow> 'a pool_scheme \<Rightarrow> bool" where
  "sees c t \<longleftrightarrow> pool_inv t \<and> (\<forall>q < total_pages t. view t q = c q)"

lemma sees_step: "sees c s \<Longrightarrow> pool_inv t \<Longrightarrow> same_view s t \<Longrightarrow> sees c t"
  by (simp add: sees_def same_view_def)

lemma sees_put:
  assumes "sees c s" "length p = PAGE_SIZE"
  shows "wp (put_page pid p) (\<lambda>_. sees (c(pid := p))) (\<lambda>_. sees c) s"
proof -
  have "pool_inv s" using assms(1) by (simp add: sees_def)
  from ps.store_law [OF this assms(2), of pid] show ?thesis
    by (rule wp_mono) (use assms(1) in \<open>auto simp: sees_def pool_keeps_def\<close>)
qed

lemma flush_all_step:
  assumes "pool_inv s"
  shows "wp flush_all (\<lambda>_ t. pool_inv t \<and> same_view s t) (\<lambda>_ t. pool_inv t \<and> same_view s t) s"
proof -
  have "wp (for_each flush_slot (page_table s)) (\<lambda>_. wp disk_sync (\<lambda>_ t. pool_inv t \<and> same_view s t)
      (\<lambda>_ t. pool_inv t \<and> same_view s t)) (\<lambda>_ t. pool_inv t \<and> same_view s t) s"
  proof (rule wp_mono [OF wp_flush_slots [OF assms order_refl]])
    fix t assume "flushed s (fst ` set (page_table s)) t"
    then have t: "pool_inv t" "same_view s t" by (simp_all add: flushed_def cache_step_def)
    have "pool_inv (io_step t\<lparr>db_stable := db_file t\<rparr>) = pool_inv t"
      "view (io_step t\<lparr>db_stable := db_file t\<rparr>) = view t"
      by (simp_all add: fun_eq_iff disk_page_def view_def pool_inv_def disk_inv_def frames_ok_def
          table_ok_def slot_ok_def Let_def split: option.split)
    with t show "wp disk_sync (\<lambda>_ t. pool_inv t \<and> same_view s t) (\<lambda>_ t. pool_inv t \<and> same_view s t) t"
      by (simp add: wp_eqs same_view_def split: io_outcome.split)
  qed (simp add: cache_step_def)
  then show ?thesis by (simp add: flush_all_def wp_eqs)
qed

lemma sees_create:
  assumes "sees c s" "total_pages s < INVALID_PAGE"
  shows "sees (c(total_pages s := zero_page)) (final (new_page s))"
proof -
  let ?n = "total_pages s"
  have inv: "pool_inv s" and v: "\<forall>q < ?n. view s q = c q" using assms(1) by (simp_all add: sees_def)
  have split: "q < ?n + 1 \<longleftrightarrow> q < ?n \<or> q = ?n" for q
    using unat_next_page [OF assms(2)] by (auto simp: word_less_nat_alt word_unat_eq_iff)
  show ?thesis
  proof (rule wp_final [OF wp_new_page [OF inv assms(2)]], goal_cases)
    case (1 r t)
    then show ?case using v split by (cases r) (auto simp: page_created_def sees_def)
  next
    case (2 e t)
    then show ?case using v split by (auto simp: new_tail_def sees_def)
  qed
qed

text \<open>
  Property C2. The cache never loses or invents data: after any client trace, whatever was
  evicted, written back or failed on the way, the pool's invariant holds and every page reads
  as the client last wrote it.
\<close>

theorem pool_trace_correct:
  assumes "pool_trace s t c" "pool_inv s"
  shows "pool_inv t \<and> (\<forall>q < total_pages t. view t q = c q)"
proof -
  have "sees c t" using assms(1)
  proof (induction rule: pool_trace.induct)
    case start
    then show ?case using assms(2) by (simp add: sees_def)
  next
    case (fetch t c pid)
    then have inv: "pool_inv t" by (simp add: sees_def)
    show ?case
      by (rule wp_final [OF wp_fetch_page [OF inv, of pid]])
        (use sees_step [OF fetch.IH] in \<open>auto simp: fetched_def fetch_failed_def cache_step_def\<close>)
  next
    case (unpin t c pid)
    then have inv: "pool_inv t" by (simp add: sees_def)
    show ?case
      by (rule wp_final [OF wp_unpin_page [OF inv, of True pid]])
        (use sees_step [OF unpin.IH] in \<open>auto simp: cache_step_def\<close>)
  next
    case (peek t c pid)
    then have inv: "pool_inv t" by (simp add: sees_def)
    show ?case
      by (rule wp_final [OF wp_peek_page [OF inv, of pid]])
        (use sees_step [OF peek.IH] in \<open>auto simp: fetch_failed_def cache_step_def\<close>)
  next
    case (rewrite t c p pid u)
    from wp_runD [OF sees_put [OF rewrite.IH rewrite.hyps(2)] rewrite.hyps(3)] show ?case .
  next
    case (rewrite_failed t c p pid e u)
    from wp_throwD [OF sees_put [OF rewrite_failed.IH rewrite_failed.hyps(2)] rewrite_failed.hyps(3)] show ?case .
  next
    case (create t c)
    from sees_create [OF create.IH create.hyps(2)] show ?case .
  next
    case (flush t c)
    then have inv: "pool_inv t" by (simp add: sees_def)
    show ?case
      by (rule wp_final [OF flush_all_step [OF inv]]) (use sees_step [OF flush.IH] in auto)
  qed
  then show ?thesis by (simp add: sees_def)
qed

definition sample_pool :: pool where
  "sample_pool = pool_open sample_disk"

lemma sample_pool_ok [simp]:
  "pool_inv sample_pool" "io sample_pool = []" "pins sample_pool q = 0" "total_pages sample_pool = 2"
  by (simp_all add: sample_pool_def pool_inv_open)
    (simp_all add: pool_open_def sample_disk_def disk.defs pins_def)

lemma sample_pool_calm [simp]: "pool_calm sample_pool"
  by (simp add: pool_calm_def)

theorem pool_trace_correct_witness:
  "\<exists>t. put_page 1 (replicate PAGE_SIZE 7) sample_pool = (Inr (), t)
     \<and> view (final (fetch_page 0 t)) 1 = replicate PAGE_SIZE 7"
proof -
  let ?p = "replicate PAGE_SIZE 7 :: page"
  obtain t where run: "put_page 1 ?p sample_pool = (Inr (), t)"
    and tot: "total_pages t = 2"
    using ps.store_law [of sample_pool ?p 1] by (auto simp: wp_def pool_keeps_def split: prod.splits sum.splits)
  have tr: "pool_trace sample_pool (final (fetch_page 0 t)) ((view sample_pool)(1 := ?p))"
    by (rule pool_trace.fetch, rule pool_trace.rewrite [OF pool_trace.start _ run]) simp
  have inv: "pool_inv t" using ps.store_law [of sample_pool ?p 1] run by (auto simp: wp_def)
  have "total_pages (final (fetch_page 0 t)) = 2"
    by (rule wp_final [OF wp_fetch_page [OF inv, of 0], where P = "\<lambda>u. total_pages u = 2"])
      (simp_all add: fetched_def fetch_failed_def cache_step_def same_view_def tot)
  with run pool_trace_correct [OF tr] show ?thesis by simp
qed

text \<open>
  Fetching a page: a hit or a miss gives a frame that holds the logical page,
  pinned once more, moved to the front of the LRU list; no page a client sees changes. A miss
  takes the least recently used unpinned frame, and the call fails only on an I/O error, for
  a page that does not exist, or when every frame is pinned.
\<close>

lemma fetch_page_correct:
  assumes "pool_inv s"
  shows "wp (fetch_page pid)
    (\<lambda>slot t. pool_inv t \<and> same_view s t \<and> map_of (page_table t) pid = Some slot
       \<and> frames t ! slot = view s pid \<and> pins t = (pins s)(pid := pins s pid + 1) \<and> hd (lru_list t) = slot)
    (\<lambda>e t. pool_inv t \<and> same_view s t \<and> pins t = pins s
       \<and> (io s \<noteq> [] \<or> pid \<ge> total_pages s \<or> (\<forall>i < BUFFER_POOL_SIZE. 0 < fm_pin_count (frame_metas s ! i)))) s"
  by (rule wp_mono [OF wp_fetch_page [OF assms, of pid]])
    (use victim_None [OF assms] in \<open>auto simp: fetched_def fetch_failed_def cache_step_def not_less\<close>)

lemma fetch_page_correct_example:
  "wp (fetch_page 1) (\<lambda>slot t. frames t ! slot = view sample_pool 1 \<and> pins t 1 = 1) (\<lambda>_ _. False) sample_pool"
proof -
  have nf: "\<not> (\<forall>i < BUFFER_POOL_SIZE. 0 < fm_pin_count (frame_metas sample_pool ! i))"
    by (auto simp: sample_pool_def pool_open_def disk.defs free_meta_def BUFFER_POOL_SIZE_def intro!: exI [of _ 0])
  have lt: "\<not> (2 :: u32) \<le> 1" by (simp add: word_le_nat_alt)
  show ?thesis
    by (rule wp_mono [OF fetch_page_correct [of sample_pool 1]]) (use nf lt in auto)
qed

text \<open>
  The checkpoint boundary of the cache: with no page in use, a \<open>flush_all\<close>
  that returns leaves every logical page on file and the file durable, and one that throws
  has still changed no page a client sees.
\<close>

lemma flush_all_correct:
  assumes "pool_inv s" "\<forall>q. pins s q = 0"
  shows "wp flush_all
    (\<lambda>_ t. pool_inv t \<and> same_view s t \<and> db_stable t = db_file t \<and> (\<forall>q < total_pages s. disk_page t q = view s q))
    (\<lambda>e t. pool_inv t \<and> same_view s t \<and> io s \<noteq> []) s"
  by (rule wp_mono [OF wp_flush_all [OF assms(1)]])
    (use assms(2) in \<open>auto simp: checkpointed_def cache_step_def\<close>)

lemma flush_all_correct_example:
  "wp flush_all (\<lambda>_ t. db_stable t = db_file t \<and> disk_page t 1 = view sample_pool 1) (\<lambda>_ _. False) sample_pool"
  by (rule wp_mono [OF flush_all_correct [of sample_pool]]) auto

end
