(* ===== verification/Wal.thy ===== *)
theory Wal
  imports Pool "HOL-Library.Sublist"
begin

text \<open>
  The write-ahead log: class \<open>WALManager\<close> of \<open>src/wal/wal_manager.cpp\<close>. The log file is
  the byte string \<open>wal_file\<close>; \<open>wal_stable\<close> is what the last successful \<open>fsync\<close> made
  durable. The abstract log is a list of frames; its replay is the overlay of the pages of
  the committed transactions, in the order of their commit records.
\<close>

section \<open>State\<close>

record wal = pool +
  wal_file :: "byte list"
  wal_stable :: "byte list"
  next_transaction_id :: u32
  checkpoint_threshold_bytes :: u64
  active_pages :: "(u32 \<times> page) list"

definition DEFAULT_CHECKPOINT_THRESHOLD_BYTES :: u64 where
  "DEFAULT_CHECKPOINT_THRESHOLD_BYTES = 4 * 1024 * 1024"

definition PAGE_WRITE :: byte where "PAGE_WRITE = 1"

definition COMMIT :: byte where "COMMIT = 2"

definition WAL_HEADER_SIZE :: nat where "WAL_HEADER_SIZE = 9"

definition record_header :: "byte \<Rightarrow> u32 \<Rightarrow> u32 \<Rightarrow> byte list" where
  "record_header type transaction_id page_id = type # u32_bytes transaction_id @ u32_bytes page_id"

text \<open>The constructor, on the outcome of \<open>open\<close> and the bytes the file holds.\<close>

definition wal_open :: "pool \<Rightarrow> byte list \<Rightarrow> u64 \<Rightarrow> exn + wal" where
  "wal_open p contents threshold =
     (case next_outcome p of
        IO_short _ \<Rightarrow> Inl (Runtime_error ''WALManager: could not open or create WAL file'')
      | IO_ok \<Rightarrow> Inr (pool.extend (io_step p) \<lparr>wal_file = contents, wal_stable = contents,
          next_transaction_id = 1, checkpoint_threshold_bytes = threshold, active_pages = []\<rparr>))"

section \<open>Operations\<close>

definition write_bytes :: "byte list \<Rightarrow> ('a wal_scheme, unit) eff" where
  "write_bytes bs = bind next_io (\<lambda>r. case r of
     IO_ok \<Rightarrow> modify (\<lambda>s. s\<lparr>wal_file := wal_file s @ bs\<rparr>)
   | IO_short n \<Rightarrow>
       andthen (modify (\<lambda>s. s\<lparr>wal_file := wal_file s @ take (min n (length bs - 1)) bs\<rparr>))
         (throw (Runtime_error ''WALManager::write_bytes: write to WAL failed'')))"

definition wal_begin :: "('a wal_scheme, u32) eff" where
  "wal_begin = bind (gets next_transaction_id) (\<lambda>txn.
     andthen (modify (\<lambda>s. s\<lparr>active_pages := [], next_transaction_id := txn + 1\<rparr>)) (ret txn))"

definition wal_write :: "u32 \<Rightarrow> u32 \<Rightarrow> page \<Rightarrow> ('a wal_scheme, unit) eff" where
  "wal_write transaction_id page_id page =
     andthen (write_bytes (record_header PAGE_WRITE transaction_id page_id))
     (andthen (write_bytes page)
      (modify (\<lambda>s. s\<lparr>active_pages := AList.update page_id page (active_pages s)\<rparr>)))"

definition wal_sync :: "('a wal_scheme, unit) eff" where
  "wal_sync = bind next_io (\<lambda>r. case r of
     IO_ok \<Rightarrow> modify (\<lambda>s. s\<lparr>wal_stable := wal_file s\<rparr>)
   | IO_short _ \<Rightarrow> throw (Runtime_error ''WALManager::commit: fsync failed''))"

definition wal_commit :: "u32 \<Rightarrow> ('a wal_scheme, unit) eff" where
  "wal_commit transaction_id =
     andthen (write_bytes (record_header COMMIT transaction_id INVALID_PAGE))
     (andthen wal_sync
     (andthen (bind (gets active_pages) (for_each (\<lambda>(page_id, page). put_page page_id page)))
      (modify (\<lambda>s. s\<lparr>active_pages := []\<rparr>))))"

definition wal_abort :: "u32 \<Rightarrow> ('a wal_scheme, unit) eff" where
  "wal_abort transaction_id = modify (\<lambda>s. s\<lparr>active_pages := []\<rparr>)"

definition wal_checkpoint :: "('a wal_scheme, unit) eff" where
  "wal_checkpoint =
     andthen flush_all
     (andthen (bind next_io (\<lambda>r. case r of
          IO_ok \<Rightarrow> modify (\<lambda>s. s\<lparr>wal_file := []\<rparr>)
        | IO_short _ \<Rightarrow> throw (Runtime_error ''WALManager::checkpoint: ftruncate failed'')))
      (bind next_io (\<lambda>r. case r of
          IO_ok \<Rightarrow> ret ()
        | IO_short _ \<Rightarrow> throw (Runtime_error ''WALManager::checkpoint: lseek after truncate failed''))))"

definition wal_size :: "('a wal_scheme, u64) eff" where
  "wal_size = bind next_io (\<lambda>r. case r of
     IO_ok \<Rightarrow> gets (\<lambda>s. word_of_nat (length (wal_file s)))
   | IO_short _ \<Rightarrow> throw (Runtime_error ''WALManager::wal_size: fstat failed''))"

definition should_checkpoint :: "('a wal_scheme, bool) eff" where
  "should_checkpoint = bind wal_size (\<lambda>n. gets (\<lambda>s. n \<ge> checkpoint_threshold_bytes s))"

definition wal_close :: "('a wal_scheme, unit) eff" where
  "wal_close = bind next_io (\<lambda>r. case r of
     IO_ok \<Rightarrow> modify (\<lambda>s. s\<lparr>wal_stable := wal_file s\<rparr>)
   | IO_short _ \<Rightarrow> ret ())"

subsection \<open>Recovery\<close>

text \<open>
  The scan of \<open>recover\<close> reads the log from its start; its loop variables are the script of
  the remaining \<open>read\<close> calls, the rest of the file, \<open>next_transaction_id_\<close>, the pages of
  each transaction and the committed transactions. A short read ends it.
\<close>

definition outcome_of :: "io_outcome list \<Rightarrow> io_outcome" where
  "outcome_of outs = (case outs of [] \<Rightarrow> IO_ok | x # _ \<Rightarrow> x)"

definition sys_read :: "io_outcome list \<Rightarrow> nat \<Rightarrow> byte list \<Rightarrow> byte list" where
  "sys_read outs n bs = (case outcome_of outs of IO_ok \<Rightarrow> take n bs | IO_short k \<Rightarrow> take (min k (n - 1)) bs)"

lemma length_sys_read: "length (sys_read outs n bs) \<le> length bs"
  by (simp add: sys_read_def split: io_outcome.split)

lemma full_read: "length (sys_read outs n bs) = n \<Longrightarrow> n \<le> length bs"
  by (metis length_sys_read)

definition pages_of :: "(u32 \<times> (u32 \<times> page) list) list \<Rightarrow> u32 \<Rightarrow> (u32 \<times> page) list" where
  "pages_of txn_pages txn = (case map_of txn_pages txn of None \<Rightarrow> [] | Some l \<Rightarrow> l)"

function wal_scan :: "io_outcome list \<Rightarrow> byte list \<Rightarrow> u32 \<Rightarrow> (u32 \<times> (u32 \<times> page) list) list \<Rightarrow> u32 list
    \<Rightarrow> io_outcome list \<times> u32 \<times> (u32 \<times> (u32 \<times> page) list) list \<times> u32 list" where
  "wal_scan outs bs next_id txn_pages committed_txns =
     (let header = sys_read outs WAL_HEADER_SIZE bs;
          rest = drop WAL_HEADER_SIZE bs
      in if length header \<noteq> WAL_HEADER_SIZE then (tl outs, next_id, txn_pages, committed_txns)
         else let txn = bytes_u32 (drop 1 header); pid = bytes_u32 (drop 5 header)
         in if header ! 0 = PAGE_WRITE then
           let page = sys_read (tl outs) PAGE_SIZE rest
           in if length page \<noteq> PAGE_SIZE then (tl (tl outs), next_id, txn_pages, committed_txns)
              else wal_scan (tl (tl outs)) (drop PAGE_SIZE rest) next_id
                (AList.update txn (AList.update pid page (pages_of txn_pages txn)) txn_pages) committed_txns
         else if header ! 0 = COMMIT then
           wal_scan (tl outs) rest (if txn \<ge> next_id then txn + 1 else next_id) txn_pages (committed_txns @ [txn])
         else wal_scan (tl outs) rest next_id txn_pages committed_txns)"
  by pat_completeness auto
termination
  by (relation "measure (\<lambda>(outs, bs, _). length bs)")
    (auto dest!: full_read simp: WAL_HEADER_SIZE_def)

definition replay_txn :: "(u32 \<times> (u32 \<times> page) list) list \<Rightarrow> u32 \<Rightarrow> ('a wal_scheme, unit) eff" where
  "replay_txn txn_pages txn = (case map_of txn_pages txn of
     None \<Rightarrow> ret ()
   | Some pages \<Rightarrow> for_each (\<lambda>(page_id, page). put_page page_id page) pages)"

definition wal_recover :: "('a wal_scheme, unit) eff" where
  "wal_recover = bind next_io (\<lambda>r. case r of
     IO_short _ \<Rightarrow> throw (Runtime_error ''WALManager::recover: lseek failed'')
   | IO_ok \<Rightarrow>
       bind (gets (\<lambda>s. wal_scan (io s) (wal_file s) (next_transaction_id s) [] []))
         (\<lambda>(outs, next_id, txn_pages, committed_txns).
       andthen (modify (\<lambda>s. s\<lparr>io := outs, next_transaction_id := next_id\<rparr>))
       (andthen (for_each (replay_txn txn_pages) committed_txns)
        wal_checkpoint)))"


section \<open>The abstract log\<close>

datatype log_frame = Page_write u32 u32 page | Commit u32

fun frame_bytes :: "log_frame \<Rightarrow> byte list" where
  "frame_bytes (Page_write txn pid p) = record_header PAGE_WRITE txn pid @ p"
| "frame_bytes (Commit txn) = record_header COMMIT txn INVALID_PAGE"

fun frame_ok :: "log_frame \<Rightarrow> bool" where
  "frame_ok (Page_write txn pid p) = (length p = PAGE_SIZE)"
| "frame_ok (Commit txn) = True"

definition log_bytes :: "log_frame list \<Rightarrow> byte list" where
  "log_bytes fs = concat (map frame_bytes fs)"

text \<open>The writes of one transaction, in log order; the committed transactions, in commit order.\<close>

fun txn_writes :: "log_frame list \<Rightarrow> u32 \<Rightarrow> (u32 \<times> page) list" where
  "txn_writes [] txn = []"
| "txn_writes (Page_write t pid p # fs) txn = (if t = txn then (pid, p) # txn_writes fs txn else txn_writes fs txn)"
| "txn_writes (Commit t # fs) txn = txn_writes fs txn"

fun committed :: "log_frame list \<Rightarrow> u32 list" where
  "committed [] = []"
| "committed (Page_write t pid p # fs) = committed fs"
| "committed (Commit t # fs) = t # committed fs"

definition replayed :: "log_frame list \<Rightarrow> (u32 \<times> page) list" where
  "replayed fs = concat (map (txn_writes fs) (committed fs))"

text \<open>What is left after a write that stopped early: a strict prefix of some frame.\<close>

definition torn_tail :: "byte list \<Rightarrow> bool" where
  "torn_tail bs \<longleftrightarrow> (\<exists>f. frame_ok f \<and> strict_prefix bs (frame_bytes f))"

subsection \<open>Reading back what was written\<close>

lemma length_record_header [simp]: "length (record_header ty txn pid) = WAL_HEADER_SIZE"
  by (simp add: record_header_def WAL_HEADER_SIZE_def)

lemma record_header_fields [simp]:
  "record_header ty txn pid ! 0 = ty"
  "bytes_u32 (drop (Suc 0) (record_header ty txn pid)) = txn"
  "bytes_u32 (drop 5 (record_header ty txn pid)) = pid"
  by (simp_all add: record_header_def)

lemma sys_read_ok [simp]: "sys_read [] n bs = take n bs"
  by (simp add: sys_read_def outcome_of_def)

lemma frame_types [simp]: "PAGE_WRITE \<noteq> COMMIT" "COMMIT \<noteq> PAGE_WRITE"
  by (simp_all add: PAGE_WRITE_def COMMIT_def)

declare wal_scan.simps [simp del]

lemma scan_page_write:
  "length p = PAGE_SIZE \<Longrightarrow>
   wal_scan [] (frame_bytes (Page_write txn pid p) @ bs) n tp ct
     = wal_scan [] bs n (AList.update txn (AList.update pid p (pages_of tp txn)) tp) ct"
  by (subst wal_scan.simps) (simp add: Let_def)

lemma scan_commit:
  "wal_scan [] (frame_bytes (Commit txn) @ bs) n tp ct
     = wal_scan [] bs (if txn \<ge> n then txn + 1 else n) tp (ct @ [txn])"
  by (subst wal_scan.simps) (simp add: Let_def)

lemma scan_torn:
  assumes "torn_tail bs"
  shows "wal_scan [] bs n tp ct = ([], n, tp, ct)"
proof -
  obtain f k where f: "frame_ok f" "bs = take k (frame_bytes f)" "k < length (frame_bytes f)"
    using assms by (auto simp: torn_tail_def strict_prefix_def prefix_def) (metis append_Nil2 append_eq_conv_conj le_add1 length_append linorder_not_less take_all)
  show ?thesis
  proof (cases "k < WAL_HEADER_SIZE")
    case True
    then show ?thesis using f by (subst wal_scan.simps) (simp add: Let_def)
  next
    case False
    then obtain txn pid p where p: "f = Page_write txn pid p" "length p = PAGE_SIZE"
      using f by (cases f) auto
    moreover have "k - WAL_HEADER_SIZE \<noteq> PAGE_SIZE" using f(3) p False by simp
    ultimately show ?thesis
      using f False
      by (subst wal_scan.simps) (simp add: Let_def take_append)
  qed
qed

text \<open>
  The state of the scan against the frames read so far: the pages it has collected for a
  transaction overlay to the same pages as the transaction's writes.
\<close>

definition collected :: "(u32 \<times> (u32 \<times> page) list) list \<Rightarrow> log_frame list \<Rightarrow> bool" where
  "collected tp fs \<longleftrightarrow> (\<forall>txn. distinct (map fst (pages_of tp txn))
     \<and> fst ` set (pages_of tp txn) = fst ` set (txn_writes fs txn)
     \<and> (\<forall>c. overlay (pages_of tp txn) c = overlay (txn_writes fs txn) c)
     \<and> (\<forall>q p. map_of (pages_of tp txn) q = Some p \<longrightarrow> length p = PAGE_SIZE))"

lemma overlay_update:
  assumes "distinct (map fst l)"
  shows "overlay (AList.update pid p l) c = (overlay l c)(pid := p)"
  using assms by (rule_tac ext) (simp add: overlay_distinct distinct_update update_conv')

lemma txn_writes_append: "txn_writes (fs @ gs) txn = txn_writes fs txn @ txn_writes gs txn"
  by (induction fs txn rule: txn_writes.induct) auto

lemma committed_append: "committed (fs @ gs) = committed fs @ committed gs"
  by (induction fs rule: committed.induct) auto

lemma collected_step:
  assumes "collected tp fs" "length p = PAGE_SIZE"
  shows "collected (AList.update txn (AList.update pid p (pages_of tp txn)) tp) (fs @ [Page_write txn pid p])"
proof -
  have upd: "pages_of (AList.update txn l tp) t = (if t = txn then l else pages_of tp t)" for l t
    by (simp add: pages_of_def update_conv')
  show ?thesis
    using assms
    by (auto simp: collected_def upd txn_writes_append overlay_append overlay_update distinct_update
        dom_update update_conv' simp del: map_of_eq_Some_iff split: if_splits)
qed


lemma log_bytes_simps [simp]:
  "log_bytes [] = []" "log_bytes (f # fs) = frame_bytes f @ log_bytes fs"
  "log_bytes (fs @ gs) = log_bytes fs @ log_bytes gs"
  by (simp_all add: log_bytes_def)

lemma scan_log:
  assumes "\<forall>f \<in> set fs. frame_ok f" "collected tp gs" "torn_tail torn"
  shows "\<exists>n' tp'. wal_scan [] (log_bytes fs @ torn) n tp ct = ([], n', tp', ct @ committed fs)
    \<and> collected tp' (gs @ fs)"
  using assms(1,2)
proof (induction fs arbitrary: gs n tp ct)
  case Nil
  then show ?case using assms(3) by (simp add: scan_torn)
next
  case (Cons f fs)
  show ?case
  proof (cases f)
    case (Page_write txn pid p)
    then have len: "length p = PAGE_SIZE" using Cons.prems(1) by simp
    note step = collected_step [OF Cons.prems(2) len, of txn pid]
    from Cons.IH [OF _ step] Cons.prems(1) show ?thesis
      using scan_page_write [OF len, of txn pid "log_bytes fs @ torn"] Page_write by simp
  next
    case (Commit txn)
    have "collected tp (gs @ [Commit txn])"
      using Cons.prems(2) by (simp add: collected_def txn_writes_append)
    from Cons.IH [OF _ this, of "if n \<le> txn then txn + 1 else n" "ct @ [txn]"] Cons.prems(1)
    show ?thesis using scan_commit [of txn "log_bytes fs @ torn"] Commit by simp
  qed
qed

lemma collected_Nil [simp]: "collected [] []"
  by (simp add: collected_def pages_of_def)

lemma overlay_collected:
  "collected tp fs \<Longrightarrow> overlay (concat (map (pages_of tp) ct)) c = overlay (concat (map (txn_writes fs) ct)) c"
  by (induction ct arbitrary: c) (simp_all add: overlay_append collected_def)

lemma for_each_append: "for_each f (xs @ ys) = andthen (for_each f xs) (for_each f ys)"
  by (induction xs) (auto simp: andthen_def bind_def ret_def fun_eq_iff split: prod.split sum.split)

lemma replay_all:
  "for_each (replay_txn tp) ct = for_each (\<lambda>(pid, p). put_page pid p) (concat (map (pages_of tp) ct))"
  by (induction ct) (simp_all add: for_each_append replay_txn_def pages_of_def split: option.split)

subsection \<open>What the log operations leave alone\<close>

lemma pool_state_cong:
  assumes "db_file t = db_file s" "total_pages t = total_pages s" "frames t = frames s"
    "frame_metas t = frame_metas s" "page_table t = page_table s" "lru_list t = lru_list s"
  shows "pool_inv t = pool_inv s" "view t = view s" "pins t = pins s" "disk_page t = disk_page s"
proof -
  show dp: "disk_page t = disk_page s" using assms by (simp add: disk_page_def fun_eq_iff)
  show "pool_inv t = pool_inv s"
    using assms dp by (simp add: pool_inv_def disk_inv_def frames_ok_def table_ok_def slot_ok_def)
  show "view t = view s" "pins t = pins s"
    using assms dp by (simp_all add: view_def pins_def fun_eq_iff split: option.split)
qed

lemma pool_state_wal_updates [simp]:
  "pool_inv (wal_file_update f s) = pool_inv s" "view (wal_file_update f s) = view s"
  "pins (wal_file_update f s) = pins s" "disk_page (wal_file_update f s) = disk_page s"
  "pool_inv (wal_stable_update f s) = pool_inv s" "view (wal_stable_update f s) = view s"
  "pins (wal_stable_update f s) = pins s" "disk_page (wal_stable_update f s) = disk_page s"
  "pool_inv (next_transaction_id_update g s) = pool_inv s" "view (next_transaction_id_update g s) = view s"
  "pins (next_transaction_id_update g s) = pins s" "disk_page (next_transaction_id_update g s) = disk_page s"
  "pool_inv (active_pages_update h s) = pool_inv s" "view (active_pages_update h s) = view s"
  "pins (active_pages_update h s) = pins s" "disk_page (active_pages_update h s) = disk_page s"
  "pool_inv (io_update k s) = pool_inv s" "view (io_update k s) = view s"
  "pins (io_update k s) = pins s" "disk_page (io_update k s) = disk_page s"
  by (rule pool_state_cong; simp)+

lemma wal_fields_kept:
  fixes s t :: "'a wal_scheme"
  assumes "pool.more t = pool.more s"
  shows "wal_file t = wal_file s" "wal_stable t = wal_stable s" "active_pages t = active_pages s"
    "next_transaction_id t = next_transaction_id s"
    "checkpoint_threshold_bytes t = checkpoint_threshold_bytes s" "wal.more t = wal.more s"
  using assms by (cases s; cases t; simp)+

lemma wal_fields_io_step [simp]:
  fixes s :: "'a wal_scheme"
  shows "wal_file (io_step s) = wal_file s" "wal_stable (io_step s) = wal_stable s"
    "active_pages (io_step s) = active_pages s" "next_transaction_id (io_step s) = next_transaction_id s"
    "checkpoint_threshold_bytes (io_step s) = checkpoint_threshold_bytes s" "wal.more (io_step s) = wal.more s"
  by (simp_all add: io_step_def)

text \<open>A checkpoint: every page on file and durable, the log empty, the logical pages as they were.\<close>

definition wal_checkpointed :: "'a wal_scheme \<Rightarrow> 'a wal_scheme \<Rightarrow> bool" where
  "wal_checkpointed s t \<longleftrightarrow> pool_inv t \<and> same_view s t \<and> pins t = pins s \<and> wal_file t = []
     \<and> db_stable t = db_file t \<and> (\<forall>q < total_pages s. disk_page t q = view s q)
     \<and> active_pages t = active_pages s \<and> next_transaction_id t = next_transaction_id s"

lemma wp_wal_checkpoint:
  fixes s :: "'a wal_scheme"
  assumes "pool_inv s" "\<And>q. pins s q = 0"
  shows "wp wal_checkpoint (\<lambda>_ t. wal_checkpointed s t \<and> (io s = [] \<longrightarrow> io t = []))
    (\<lambda>e t. pool_inv t \<and> same_view s t \<and> io s \<noteq> []
       \<and> (wal_file t = wal_file s \<or> wal_file t = [] \<and> db_stable t = db_file t
            \<and> (\<forall>q < total_pages s. disk_page t q = view s q))) s"
  unfolding wal_checkpoint_def wp_andthen
proof (rule wp_mono [OF wp_flush_all [OF assms]])
  fix u t
  assume t: "checkpointed s t"
  then have f: "pool_inv t" "same_view s t" "pins t = pins s" "db_stable t = db_file t"
    "\<forall>q < total_pages s. disk_page t q = view s q" "io s = [] \<Longrightarrow> io t = []" "pool.more t = pool.more s"
    by (simp_all add: checkpointed_def)
  have sv: "same_view s t' = same_view s t" if "view t' = view t" "total_pages t' = total_pages t" for t' :: "'a wal_scheme"
    using that by (simp add: same_view_def)
  show "wp (bind next_io (case_io_outcome (modify (\<lambda>s. s\<lparr>wal_file := []\<rparr>))
      (\<lambda>_. throw (Runtime_error ''WALManager::checkpoint: ftruncate failed''))))
     (\<lambda>_. wp (bind next_io (case_io_outcome (ret ())
        (\<lambda>_. throw (Runtime_error ''WALManager::checkpoint: lseek after truncate failed''))))
        (\<lambda>_ t. wal_checkpointed s t \<and> (io s = [] \<longrightarrow> io t = []))
        (\<lambda>e t. pool_inv t \<and> same_view s t \<and> io s \<noteq> []
           \<and> (wal_file t = wal_file s \<or> wal_file t = [] \<and> db_stable t = db_file t
                \<and> (\<forall>q < total_pages s. disk_page t q = view s q))))
     (\<lambda>e t. pool_inv t \<and> same_view s t \<and> io s \<noteq> []
       \<and> (wal_file t = wal_file s \<or> wal_file t = [] \<and> db_stable t = db_file t
            \<and> (\<forall>q < total_pages s. disk_page t q = view s q))) t"
  proof (cases "next_outcome t")
    case (IO_short n)
    then have "io s \<noteq> []" using f(6) by auto
    with IO_short f show ?thesis
      by (simp add: wp_eqs wal_fields_kept(1) [OF f(7)] same_view_def)
  next
    case IO_ok
    let ?u = "io_step t\<lparr>wal_file := []\<rparr>"
    show ?thesis
    proof (cases "next_outcome ?u")
      case (IO_short n)
      have "io s \<noteq> []"
      proof
        assume "io s = []"
        then have "io ?u = []" using f(6) by simp
        with IO_short show False using next_outcome_Nil [of ?u] by simp
      qed
      with IO_ok IO_short f show ?thesis by (simp add: wp_eqs same_view_def)
    next
      case IO_ok
      with \<open>next_outcome t = IO_ok\<close> f show ?thesis
        by (simp add: wp_eqs wal_checkpointed_def same_view_def wal_fields_kept [OF f(7)])
    qed
  qed
next
  fix e t
  assume "cache_step s t \<and> pins t = pins s \<and> io s \<noteq> []"
  then show "pool_inv t \<and> same_view s t \<and> io s \<noteq> []
       \<and> (wal_file t = wal_file s \<or> wal_file t = [] \<and> db_stable t = db_file t
            \<and> (\<forall>q < total_pages s. disk_page t q = view s q))"
    using wal_fields_kept(1) by (auto simp: cache_step_def)
qed


subsection \<open>Commit and recovery\<close>

lemma calm_wal_updates [simp]:
  "pool_calm (io_step s) = (io (io_step s) = [] \<and> (\<forall>q. pins s q = 0))"
  "pool_calm (wal_file_update f s') = pool_calm s'" "pool_calm (wal_stable_update f s') = pool_calm s'"
  by (simp_all add: pool_calm_def)

lemma pool_keepsD:
  fixes s t :: "'a wal_scheme"
  assumes "pool_keeps s t"
  shows "total_pages t = total_pages s" "db_stable t = db_stable s" "pins t = pins s"
    "io s = [] \<Longrightarrow> io t = []" "wal_file t = wal_file s" "wal_stable t = wal_stable s"
    "active_pages t = active_pages s" "next_transaction_id t = next_transaction_id s"
    "wal.more t = wal.more s"
  using assms wal_fields_kept [of t s] by (simp_all add: pool_keeps_def)

lemma wp_write_bytes [wp_eqs]:
  "wp (write_bytes bs) Q E s = (case next_outcome s of
     IO_ok \<Rightarrow> Q () (io_step s\<lparr>wal_file := wal_file s @ bs\<rparr>)
   | IO_short n \<Rightarrow> E (Runtime_error ''WALManager::write_bytes: write to WAL failed'')
       (io_step s\<lparr>wal_file := wal_file s @ take (min n (length bs - 1)) bs\<rparr>))"
  by (auto simp: write_bytes_def wp_eqs io_step_def split: io_outcome.split)

lemma wp_wal_sync [wp_eqs]:
  "wp wal_sync Q E s = (case next_outcome s of
     IO_ok \<Rightarrow> Q () (io_step s\<lparr>wal_stable := wal_file s\<rparr>)
   | IO_short n \<Rightarrow> E (Runtime_error ''WALManager::commit: fsync failed'') (io_step s))"
  by (auto simp: wal_sync_def wp_eqs io_step_def split: io_outcome.split)

text \<open>
  A commit that returns: the log with the commit record is durable and the pages of the
  transaction are the logical pages. One that throws has either made nothing durable and
  changed no page, or has made everything durable and applied a part of the pages.
\<close>

definition commit_done :: "u32 \<Rightarrow> 'a wal_scheme \<Rightarrow> 'a wal_scheme \<Rightarrow> bool" where
  "commit_done txn s t \<longleftrightarrow> pool_inv t \<and> total_pages t = total_pages s \<and> pins t = pins s
     \<and> wal_file t = wal_file s @ frame_bytes (Commit txn) \<and> wal_stable t = wal_file t
     \<and> (\<forall>q < total_pages s. view t q = overlay (active_pages s) (view s) q)
     \<and> active_pages t = [] \<and> next_transaction_id t = next_transaction_id s
     \<and> db_stable t = db_stable s \<and> (io s = [] \<longrightarrow> io t = []) \<and> wal.more t = wal.more s"

definition commit_failed :: "u32 \<Rightarrow> 'a wal_scheme \<Rightarrow> 'a wal_scheme \<Rightarrow> bool" where
  "commit_failed txn s t \<longleftrightarrow> pool_inv t \<and> total_pages t = total_pages s \<and> pins t = pins s
     \<and> (wal_stable t = wal_stable s \<and> view t = view s \<and> prefix (wal_file s) (wal_file t)
        \<or> wal_stable t = wal_file s @ frame_bytes (Commit txn) \<and>
          (\<exists>n < length (active_pages s). \<forall>q < total_pages s. view t q = overlay (take n (active_pages s)) (view s) q))
     \<and> \<not> (pool_calm s \<and> (\<forall>(pid, p) \<in> set (active_pages s). pid < total_pages s))"

lemma wp_wal_commit:
  fixes s :: "'a wal_scheme"
  assumes "pool_inv s" "\<forall>(pid, p) \<in> set (active_pages s). length p = PAGE_SIZE"
  shows "wp (wal_commit txn) (\<lambda>_. commit_done txn s) (\<lambda>e. commit_failed txn s) s"
proof (cases "next_outcome s")
  case (IO_short n)
  then have "\<not> pool_calm s" by (auto simp: pool_calm_def)
  with IO_short assms(1) show ?thesis
    by (simp add: wal_commit_def wp_eqs commit_failed_def)
next
  case IO_ok
  let ?a = "io_step s\<lparr>wal_file := wal_file s @ record_header COMMIT txn INVALID_PAGE\<rparr>"
  show ?thesis
  proof (cases "next_outcome ?a")
    case (IO_short n)
    then have "\<not> pool_calm s" by (auto simp: pool_calm_def dest: next_outcome_Nil)
    with IO_ok IO_short assms(1) show ?thesis
      by (simp add: wal_commit_def wp_eqs commit_failed_def)
  next
    case IO_ok
    let ?b = "io_step ?a\<lparr>wal_stable := wal_file ?a\<rparr>"
    have "wp (for_each (\<lambda>(pid, p). put_page pid p) (active_pages s))
      (\<lambda>_ t. pool_inv t \<and> pool_keeps ?b t
        \<and> (\<forall>q < total_pages ?b. view t q = overlay (active_pages s) (view ?b) q)
        \<and> (\<forall>(pid, p) \<in> set (active_pages s). pid < total_pages ?b))
      (\<lambda>e t. pool_inv t \<and> pool_keeps ?b t
        \<and> (\<exists>n < length (active_pages s). \<forall>q < total_pages ?b. view t q = overlay (take n (active_pages s)) (view ?b) q)
        \<and> \<not> (pool_calm ?b \<and> (\<forall>(pid, p) \<in> set (active_pages s). pid < total_pages ?b))) ?b"
      by (rule ps.store_all_law) (use assms in simp_all)
    then have "wp (for_each (\<lambda>(pid, p). put_page pid p) (active_pages s))
      (\<lambda>_. wp (modify (active_pages_update (\<lambda>_. []))) (\<lambda>_. commit_done txn s) (\<lambda>e. commit_failed txn s))
      (\<lambda>e. commit_failed txn s) ?b"
    proof (rule wp_mono, goal_cases)
      case (1 _ t)
      then show ?case using pool_keepsD [of ?b t] by (simp add: commit_done_def wp_eqs)
    next
      case (2 _ t)
      then show ?case using pool_keepsD [of ?b t]
        by (auto simp: commit_failed_def pool_calm_def)
    qed
    with IO_ok \<open>next_outcome s = IO_ok\<close> show ?thesis
      by (simp add: wal_commit_def wp_eqs)
  qed
qed

text \<open>
  Recovery replays exactly the committed transactions of the log, whatever torn frame
  follows it, and leaves the result on file, durable, with an empty log.
\<close>

definition recovered :: "log_frame list \<Rightarrow> 'a wal_scheme \<Rightarrow> 'a wal_scheme \<Rightarrow> bool" where
  "recovered fs s t \<longleftrightarrow> pool_inv t \<and> total_pages t = total_pages s \<and> wal_file t = [] \<and> db_stable t = db_file t
     \<and> (\<forall>q < total_pages s. view t q = overlay (replayed fs) (view s) q \<and> disk_page t q = view t q)
     \<and> (\<forall>q. pins t q = 0) \<and> io t = []"

lemma wp_wal_recover:
  fixes s :: "'a wal_scheme"
  assumes "pool_inv s" "pool_calm s" "wal_file s = log_bytes fs @ torn" "torn_tail torn"
    "\<forall>f \<in> set fs. frame_ok f" "\<forall>(pid, p) \<in> set (replayed fs). pid < total_pages s"
  shows "wp wal_recover (\<lambda>_. recovered fs s) (\<lambda>_ _. False) s"
proof -
  have io: "io s = []" "next_outcome s = IO_ok" and pn: "\<forall>q. pins s q = 0"
    using assms(2) by (simp_all add: pool_calm_def)
  obtain n' tp where scan: "wal_scan [] (wal_file s) (next_transaction_id s) [] [] = ([], n', tp, committed fs)"
    "collected tp fs"
    using scan_log [OF assms(5) collected_Nil assms(4), of "next_transaction_id s" "[]"] assms(3) by auto
  let ?l = "concat (map (pages_of tp) (committed fs))"
  have mem: "(pid, p) \<in> set (pages_of tp txn) \<Longrightarrow> length p = PAGE_SIZE \<and> pid \<in> fst ` set (txn_writes fs txn)" for pid p txn
    using scan(2) by (force simp: collected_def dest: image_eqI [of _ fst])
  have len: "\<forall>(pid, p) \<in> set ?l. length p = PAGE_SIZE" using mem by auto
  have small: "\<forall>(pid, p) \<in> set ?l. pid < total_pages s"
    using mem assms(6) by (force simp: replayed_def)
  define u where "u = (io_step s)\<lparr>io := [], next_transaction_id := n'\<rparr>"
  have u: "pool_inv u" "total_pages u = total_pages s" "view u = view s" "pool_calm u"
    using assms(1) pn by (simp_all add: u_def pool_calm_def)
  have "wp (for_each (\<lambda>(pid, p). put_page pid p) ?l)
    (\<lambda>_ t. pool_inv t \<and> pool_keeps u t \<and> (\<forall>q < total_pages u. view t q = overlay ?l (view u) q)
      \<and> (\<forall>(pid, p) \<in> set ?l. pid < total_pages u))
    (\<lambda>e t. pool_inv t \<and> pool_keeps u t
      \<and> (\<exists>n < length ?l. \<forall>q < total_pages u. view t q = overlay (take n ?l) (view u) q)
      \<and> \<not> (pool_calm u \<and> (\<forall>(pid, p) \<in> set ?l. pid < total_pages u))) u"
    by (rule ps.store_all_law [OF u(1) len])
  then have "wp (for_each (\<lambda>(pid, p). put_page pid p) ?l)
    (\<lambda>_. wp wal_checkpoint (\<lambda>_. recovered fs s) (\<lambda>_ _. False)) (\<lambda>_ _. False) u"
  proof (rule wp_mono, goal_cases)
    case (1 _ t)
    then have t: "pool_inv t" "total_pages t = total_pages s" "pins t = pins s" "io t = []"
      "\<forall>q < total_pages s. view t q = overlay (replayed fs) (view s) q"
      using pool_keepsD [of u t] u overlay_collected [OF scan(2)] pn
      by (simp_all add: u_def replayed_def)
    show ?case
      by (rule wp_mono [OF wp_wal_checkpoint [OF t(1)]])
        (use t pn in \<open>auto simp: wal_checkpointed_def recovered_def same_view_def\<close>)
  qed (use u small in simp)
  then show ?thesis
    using io scan(1) by (simp add: wal_recover_def wp_eqs replay_all u_def)
qed


section \<open>Crashes\<close>

text \<open>
  The protocol of the log's clients: begin, write the changed pages, then commit or abort.
  A list of such transactions, each with a flag for commit, is run from a checkpointed
  state; then the process stops, the log file survives at least up to the last \<open>fsync\<close>,
  and the next start recovers.
\<close>

definition run_txn :: "(u32 \<times> page) list \<times> bool \<Rightarrow> ('a wal_scheme, unit) eff" where
  "run_txn = (\<lambda>(ws, commits). bind wal_begin (\<lambda>txn.
     andthen (for_each (\<lambda>(pid, p). wal_write txn pid p) ws)
       (if commits then wal_commit txn else wal_abort txn)))"

definition committed_pages :: "((u32 \<times> page) list \<times> bool) list \<Rightarrow> (u32 \<times> page) list" where
  "committed_pages txns = concat (map fst (filter snd txns))"

fun frame_txn :: "log_frame \<Rightarrow> u32" where
  "frame_txn (Page_write txn _ _) = txn"
| "frame_txn (Commit txn) = txn"

definition page_frames :: "u32 \<Rightarrow> (u32 \<times> page) list \<Rightarrow> log_frame list" where
  "page_frames txn ws = map (\<lambda>(pid, p). Page_write txn pid p) ws"

lemma page_frames_simps [simp]:
  "page_frames txn [] = []" "page_frames txn ((pid, p) # ws) = Page_write txn pid p # page_frames txn ws"
  "committed (page_frames txn ws) = []"
  "txn_writes (page_frames txn ws) t = (if t = txn then ws else [])"
  "frame_txn ` set (page_frames txn ws) \<subseteq> {txn}"
proof -
  show "committed (page_frames txn ws) = []" by (induction ws) (auto simp: page_frames_def)
  show "txn_writes (page_frames txn ws) t = (if t = txn then ws else [])"
    by (induction ws) (auto simp: page_frames_def)
qed (auto simp: page_frames_def)

lemma txn_writes_other: "t \<notin> frame_txn ` set fs \<Longrightarrow> txn_writes fs t = []"
  by (induction fs t rule: txn_writes.induct) auto

lemma committed_subset: "set (committed fs) \<subseteq> frame_txn ` set fs"
  by (induction fs rule: committed.induct) auto

text \<open>A cut of the log keeps whole frames and a torn one.\<close>

lemma torn_tail_Nil [simp]: "torn_tail []"
  by (auto simp: torn_tail_def strict_prefix_def record_header_def intro!: exI [of _ "Commit 0"])

lemma cut_log:
  assumes "prefix bs (log_bytes fs)" "\<forall>f \<in> set fs. frame_ok f"
  shows "\<exists>gs torn. prefix gs fs \<and> bs = log_bytes gs @ torn \<and> torn_tail torn"
  using assms
proof (induction fs arbitrary: bs)
  case Nil
  then show ?case by (intro exI [of _ "[]"]) simp
next
  case (Cons f fs)
  show ?case
  proof (cases "strict_prefix bs (frame_bytes f)")
    case True
    then have "torn_tail bs" using Cons.prems(2) by (auto simp: torn_tail_def)
    then show ?thesis by (intro exI [of _ "[]"] exI [of _ bs]) simp
  next
    case False
    then obtain cs where cs: "bs = frame_bytes f @ cs" "prefix cs (log_bytes fs)"
      using Cons.prems(1) by (auto simp: prefix_append strict_prefix_def)
    have "\<forall>f \<in> set fs. frame_ok f" using Cons.prems(2) by simp
    with Cons.IH [OF cs(2)] obtain gs torn where "prefix gs fs" "cs = log_bytes gs @ torn" "torn_tail torn"
      by blast
    with cs(1) show ?thesis by (intro exI [of _ "f # gs"] exI [of _ torn]) simp
  qed
qed

text \<open>The invariant of a run without I/O errors: durable frames \<open>gs\<close>, then pending frames \<open>hs\<close>.\<close>

definition logged :: "'a wal_scheme \<Rightarrow> ((u32 \<times> page) list \<times> bool) list \<Rightarrow> log_frame list \<Rightarrow> log_frame list \<Rightarrow> 'a wal_scheme \<Rightarrow> bool" where
  "logged s txns gs hs t \<longleftrightarrow> pool_inv t \<and> pool_calm t \<and> total_pages t = total_pages s
     \<and> next_transaction_id t = next_transaction_id s + word_of_nat (length txns)
     \<and> wal_stable t = log_bytes gs \<and> wal_file t = log_bytes (gs @ hs)
     \<and> (\<forall>f \<in> set (gs @ hs). frame_ok f) \<and> committed hs = []
     \<and> (\<forall>x \<in> frame_txn ` set (gs @ hs). unat x < unat (next_transaction_id s) + length txns)
     \<and> (\<forall>x \<in> set (committed gs). txn_writes hs x = [])
     \<and> replayed gs = committed_pages txns
     \<and> (\<forall>q < total_pages s. view t q = overlay (committed_pages txns) (view s) q)"

lemma replayed_pending:
  assumes "\<forall>x \<in> set (committed gs). txn_writes hs x = []" "committed hs = []"
  shows "replayed (gs @ hs) = replayed gs"
  using assms by (auto simp: replayed_def committed_append txn_writes_append intro!: arg_cong [where f = concat])

lemma io_step_calm: "io s = [] \<Longrightarrow> io_step s = s"
  by (simp add: io_step_def)

lemma run_wal_writes:
  assumes "io s = []"
  shows "for_each (\<lambda>(pid, p). wal_write txn pid p) ws s =
    (Inr (), s\<lparr>wal_file := wal_file s @ log_bytes (page_frames txn ws),
       active_pages := foldl (\<lambda>a (pid, p). AList.update pid p a) (active_pages s) ws\<rparr>)"
  using assms
proof (induction ws arbitrary: s)
  case (Cons x ws)
  obtain pid p where x: "x = (pid, p)" by (cases x)
  have "wal_write txn pid p s = (Inr (), s\<lparr>wal_file := wal_file s @ frame_bytes (Page_write txn pid p),
    active_pages := AList.update pid p (active_pages s)\<rparr>)"
    using Cons.prems
    by (simp add: wal_write_def write_bytes_def andthen_def bind_def modify_def next_io_def io_step_calm)
  with Cons.IH Cons.prems show ?case by (simp add: x andthen_def bind_def)
qed (simp add: ret_def)

lemma active_after_writes:
  assumes "distinct (map fst a)"
  shows "distinct (map fst (foldl (\<lambda>a (pid, p). AList.update pid p a) a ws))"
    "overlay (foldl (\<lambda>a (pid, p). AList.update pid p a) a ws) c = overlay ws (overlay a c)"
    "set (foldl (\<lambda>a (pid, p). AList.update pid p a) a ws) \<subseteq> set a \<union> set ws"
proof -
  have upd: "set (AList.update k v l) \<subseteq> insert (k, v) (set l)" for k :: u32 and v :: page and l
    by (induction l) auto
  show "distinct (map fst (foldl (\<lambda>a (pid, p). AList.update pid p a) a ws))"
    "overlay (foldl (\<lambda>a (pid, p). AList.update pid p a) a ws) c = overlay ws (overlay a c)"
    using assms by (induction ws arbitrary: a) (auto simp: distinct_update overlay_update)
  show "set (foldl (\<lambda>a (pid, p). AList.update pid p a) a ws) \<subseteq> set a \<union> set ws"
  proof (induction ws arbitrary: a)
    case (Cons x ws)
    then show ?case using upd [of "fst x" "snd x" a] by (cases x) fastforce
  qed simp
qed


definition txn_ok :: "u32 \<Rightarrow> (u32 \<times> page) list \<times> bool \<Rightarrow> bool" where
  "txn_ok n txn \<longleftrightarrow> (\<forall>(pid, p) \<in> set (fst txn). pid < n \<and> length p = PAGE_SIZE)"

lemma committed_pages_snoc:
  "committed_pages (txns @ [(ws, c)]) = committed_pages txns @ (if c then ws else [])"
  by (simp add: committed_pages_def)

lemma next_id:
  fixes n :: u32
  assumes "unat n + k < 2 ^ 32"
  shows "unat (n + word_of_nat k) = unat n + k"
proof -
  have "unat (word_of_nat k :: u32) = k" using assms by (simp add: unat_of_nat)
  then show ?thesis using assms by (simp add: unat_word_ariths)
qed

lemma frames_of_pages_ok:
  "\<forall>(pid, p) \<in> set ws. length p = PAGE_SIZE \<Longrightarrow> \<forall>f \<in> set (page_frames txn ws). frame_ok f"
  by (auto simp: page_frames_def)

text \<open>One transaction keeps the invariant: a commit moves the pending frames to the durable ones.\<close>

lemma run_txn_logged:
  fixes s t :: "'a wal_scheme"
  assumes "logged s txns gs hs t" "txn_ok (total_pages s) (ws, c)"
    "unat (next_transaction_id s) + length txns < 2 ^ 32 - 1"
  defines "tid \<equiv> next_transaction_id s + word_of_nat (length txns)"
  defines "new \<equiv> page_frames tid ws"
  shows "wp (run_txn (ws, c))
    (\<lambda>_. if c then logged s (txns @ [(ws, c)]) (gs @ hs @ new @ [Commit tid]) []
         else logged s (txns @ [(ws, c)]) gs (hs @ new)) (\<lambda>_ _. False) t"
proof -
  note L = assms(1) [unfolded logged_def]
  have tid: "unat tid = unat (next_transaction_id s) + length txns"
    unfolding tid_def by (rule next_id) (use assms(3) in simp)
  have id1: "unat (next_transaction_id s) + length (txns @ [(ws, c)]) = unat tid + 1" using tid by simp
  have nid: "next_transaction_id s + word_of_nat (length (txns @ [(ws, c)])) = tid + 1"
    by (simp add: tid_def)
  have fresh: "tid \<notin> frame_txn ` set (gs @ hs)" using L tid by force
  have fw: "txn_writes gs tid = []" "txn_writes hs tid = []"
    using fresh by (auto intro: txn_writes_other)
  have cg: "x \<noteq> tid" if "x \<in> set (committed gs)" for x
    using that committed_subset [of gs] fresh by auto
  have ok: "\<forall>f \<in> set new. frame_ok f"
    unfolding new_def by (rule frames_of_pages_ok) (use assms(2) in \<open>auto simp: txn_ok_def\<close>)
  have old: "\<forall>x \<in> frame_txn ` set (gs @ hs). unat x < unat tid" using L tid by simp
  have sub: "frame_txn ` set (gs @ hs @ new @ [Commit tid]) \<subseteq> frame_txn ` set (gs @ hs) \<union> {tid}"
    by (auto simp: new_def page_frames_def)
  have ids: "\<forall>x \<in> frame_txn ` set (gs @ hs @ new @ [Commit tid]). unat x < unat tid + 1"
  proof
    fix x assume "x \<in> frame_txn ` set (gs @ hs @ new @ [Commit tid])"
    then consider "x \<in> frame_txn ` set (gs @ hs)" | "x = tid" using sub by blast
    then show "unat x < unat tid + 1"
    proof cases
      case 1
      then have "unat x < unat tid" by (rule old [rule_format])
      then show ?thesis by linarith
    qed simp
  qed
  let ?a = "foldl (\<lambda>a (pid, p). AList.update pid p a) [] ws"
  note act = active_after_writes [of "[]", simplified]
  define u where "u = t\<lparr>next_transaction_id := tid + 1, wal_file := log_bytes (gs @ hs @ new), active_pages := ?a\<rparr>"
  have bu: "run_txn (ws, c) t = (if c then wal_commit tid else wal_abort tid) u"
  proof -
    have "io t = []" using L by (simp add: pool_calm_def)
    then show ?thesis
      using L by (simp add: run_txn_def wal_begin_def bind_def andthen_def gets_def modify_def ret_def
          run_wal_writes u_def tid_def new_def)
  qed
  have u: "pool_inv u" "pool_calm u" "total_pages u = total_pages s" "view u = view t"
    "wal_stable u = log_bytes gs" "active_pages u = ?a"
    using L by (simp_all add: u_def pool_calm_def)
  show ?thesis
  proof (cases c)
    case False
    have "logged s (txns @ [(ws, c)]) gs (hs @ new) (u\<lparr>active_pages := []\<rparr>)"
      unfolding logged_def
      using L u ids id1 nid ok False cg fw
      by (auto simp: committed_pages_snoc committed_append txn_writes_append new_def u_def pool_calm_def)
    with False bu show ?thesis by (simp add: wp_def wal_abort_def modify_def)
  next
    case True
    have al: "\<forall>(pid, p) \<in> set (active_pages u). pid < total_pages u \<and> length p = PAGE_SIZE"
      using act(3) [of ws] assms(2) u by (auto simp: txn_ok_def)
    then have "wp (wal_commit tid) (\<lambda>_. commit_done tid u) (\<lambda>e. commit_failed tid u) u"
      by (intro wp_wal_commit u(1)) auto
    then have "wp (wal_commit tid)
      (\<lambda>_. logged s (txns @ [(ws, c)]) (gs @ hs @ new @ [Commit tid]) []) (\<lambda>_ _. False) u"
    proof (rule wp_mono, goal_cases)
      case (1 _ v)
      have ch: "committed hs = []" and hw: "\<And>x. x \<in> set (committed gs) \<Longrightarrow> txn_writes hs x = []"
        using L by simp_all
      have "map (txn_writes (gs @ hs @ new @ [Commit tid])) (committed gs) = map (txn_writes gs) (committed gs)"
        by (rule map_cong [OF refl]) (use hw cg in \<open>simp add: txn_writes_append new_def\<close>)
      moreover have "txn_writes (gs @ hs @ new @ [Commit tid]) tid = ws"
        using fw by (simp add: txn_writes_append new_def)
      moreover have "committed (gs @ hs @ new @ [Commit tid]) = committed gs @ [tid]"
        using ch by (simp add: committed_append new_def)
      ultimately have rep: "replayed (gs @ hs @ new @ [Commit tid]) = replayed gs @ ws"
        by (simp add: replayed_def cong: map_cong)
      have vw: "view v q = overlay (committed_pages txns @ ws) (view s) q" if "q < total_pages s" for q
      proof -
        have "view v q = overlay ws (view t) q" using 1 u that act(2) by (simp add: commit_done_def)
        also have "\<dots> = overlay ws (overlay (committed_pages txns) (view s)) q"
          by (rule overlay_local) (use L that in simp)
        finally show ?thesis by (simp add: overlay_append)
      qed
      show ?case
        unfolding logged_def
        using 1 L u ids id1 nid ok True rep vw
        by (auto simp: committed_pages_snoc commit_done_def u_def pool_calm_def)
    next
      case (2 e v)
      then show ?case using u al by (auto simp: commit_failed_def)
    qed
    with True bu show ?thesis by (simp add: wp_def)
  qed
qed

lemma run_txns_logged:
  fixes s t :: "'a wal_scheme"
  assumes "logged s txns gs hs t" "\<forall>x \<in> set rest. txn_ok (total_pages s) x"
    "unat (next_transaction_id s) + length txns + length rest < 2 ^ 32"
  shows "wp (for_each run_txn rest) (\<lambda>_ u. \<exists>gs hs. logged s (txns @ rest) gs hs u) (\<lambda>_ _. False) t"
  using assms
proof (induction rest arbitrary: txns gs hs t)
  case Nil
  then show ?case by (auto simp: wp_eqs)
next
  case (Cons x rest)
  obtain ws c where x: "x = (ws, c)" by (cases x)
  have "wp (run_txn (ws, c)) (\<lambda>_ u. \<exists>gs hs. logged s (txns @ [x]) gs hs u) (\<lambda>_ _. False) t"
    by (rule wp_mono [OF run_txn_logged [OF Cons.prems(1)]]) (use Cons.prems x in \<open>auto split: if_splits\<close>)
  then show ?case
    unfolding for_each.simps wp_andthen x
  proof (rule wp_mono)
    fix y u
    assume "\<exists>gs hs. logged s (txns @ [(ws, c)]) gs hs u"
    then obtain gs hs where "logged s (txns @ [(ws, c)]) gs hs u" by blast
    from Cons.IH [OF this] Cons.prems
    show "wp (for_each run_txn rest) (\<lambda>_ u. \<exists>gs hs. logged s (txns @ (ws, c) # rest) gs hs u) (\<lambda>_ _. False) u"
      by (simp add: x)
  qed simp
qed

text \<open>
  The state of a restart after a crash of \<open>t\<close>: the log is cut somewhere behind its durable
  part, and the pages of the file that no committed transaction wrote are those of the
  checkpoint; what the committed ones left of their own pages does not matter.
\<close>

definition crashed :: "'a wal_scheme \<Rightarrow> ((u32 \<times> page) list \<times> bool) list \<Rightarrow> 'a wal_scheme \<Rightarrow> 'a wal_scheme \<Rightarrow> bool" where
  "crashed s txns t u \<longleftrightarrow> pool_inv u \<and> pool_calm u \<and> total_pages u = total_pages s
     \<and> prefix (wal_stable t) (wal_file u) \<and> prefix (wal_file u) (wal_file t)
     \<and> (\<forall>q < total_pages s. q \<notin> fst ` set (committed_pages txns) \<longrightarrow> view u q = view s q)"

lemma recover_logged:
  fixes s t u :: "'a wal_scheme"
  assumes "logged s txns gs hs t" "crashed s txns t u" "\<forall>x \<in> set txns. txn_ok (total_pages s) x"
  shows "wp wal_recover (\<lambda>_ v. pool_inv v \<and> wal_file v = [] \<and> db_stable v = db_file v
      \<and> (\<forall>q < total_pages s. view v q = overlay (committed_pages txns) (view s) q \<and> disk_page v q = view v q))
    (\<lambda>_ _. False) u"
proof -
  note L = assms(1) [unfolded logged_def] and C = assms(2) [unfolded crashed_def]
  obtain rest where rest: "wal_file u = log_bytes gs @ rest" using C L by (auto simp: prefix_def)
  then have "prefix rest (log_bytes hs)" using C L by simp
  moreover have "\<forall>f \<in> set hs. frame_ok f" using L by simp
  ultimately obtain hs1 torn where cut: "prefix hs1 hs" "rest = log_bytes hs1 @ torn" "torn_tail torn"
    using cut_log by blast
  then obtain hs2 where hs: "hs = hs1 @ hs2" by (auto simp: prefix_def)
  have rep: "replayed (gs @ hs1) = committed_pages txns"
    using L hs by (subst replayed_pending) (auto simp: committed_append txn_writes_append)
  have small: "\<forall>(pid, p) \<in> set (replayed (gs @ hs1)). pid < total_pages u"
    using assms(3) C by (force simp: rep committed_pages_def txn_ok_def)
  have log: "wal_file u = log_bytes (gs @ hs1) @ torn" using rest cut by simp
  have ok: "\<forall>f \<in> set (gs @ hs1). frame_ok f" using L hs by auto
  have ov: "overlay (committed_pages txns) (view u) q = overlay (committed_pages txns) (view s) q"
    if "q < total_pages s" for q
  proof (cases "q \<in> fst ` set (committed_pages txns)")
    case True
    then show ?thesis by (auto simp: overlay_lookup map_of_eq_None_iff split: option.split)
  next
    case False
    with C that show ?thesis by (simp add: overlay_untouched)
  qed
  show ?thesis
    by (rule wp_mono [OF wp_wal_recover [OF _ _ log cut(3) ok small]])
      (use C ov in \<open>auto simp: recovered_def rep\<close>)
qed

section \<open>Properties\<close>

lemma logged_start:
  fixes s :: "'a wal_scheme"
  assumes "pool_inv s" "pool_calm s" "wal_file s = []" "wal_stable s = []"
  shows "logged s [] [] [] s"
  using assms by (simp add: logged_def replayed_def committed_pages_def)

lemma logged_crashed:
  fixes s t :: "'a wal_scheme"
  assumes "logged s txns gs hs t" "pool_inv s" "pool_calm s"
  shows "crashed s txns t (s\<lparr>wal_file := wal_file t\<rparr>)"
  using assms by (simp add: crashed_def logged_def)

text \<open>
  Property C1. Crash recovery. Run any list of transactions, some committed and some aborted,
  from a checkpointed database, and stop. The log file survives at least up to its last
  \<open>fsync\<close>, possibly with more, possibly torn in the middle of a frame; the pages the
  committed transactions wrote may be in any state on file. Then recovery returns, and the
  database is the checkpoint overlaid with the pages of the committed transactions in commit
  order, and nothing of the others; it is all on file and durable, and the log is empty.
\<close>

theorem crash_recovery:
  fixes s :: "'a wal_scheme"
  assumes "pool_inv s" "pool_calm s" "wal_file s = []" "wal_stable s = []"
    "\<forall>x \<in> set txns. txn_ok (total_pages s) x" "unat (next_transaction_id s) + length txns < 2 ^ 32"
  shows "\<exists>t. for_each run_txn txns s = (Inr (), t) \<and> crashed s txns t (s\<lparr>wal_file := wal_file t\<rparr>)
    \<and> (\<forall>u. crashed s txns t u \<longrightarrow> wp wal_recover
        (\<lambda>_ v. pool_inv v \<and> wal_file v = [] \<and> db_stable v = db_file v
           \<and> (\<forall>q < total_pages s. view v q = overlay (committed_pages txns) (view s) q \<and> disk_page v q = view v q))
        (\<lambda>_ _. False) u)"
proof -
  have "wp (for_each run_txn txns) (\<lambda>_ u. \<exists>gs hs. logged s ([] @ txns) gs hs u) (\<lambda>_ _. False) s"
    by (rule run_txns_logged [OF logged_start [OF assms(1-4)]]) (use assms(5,6) in simp_all)
  then obtain t gs hs where run: "for_each run_txn txns s = (Inr (), t)" and L: "logged s txns gs hs t"
    by (auto simp: wp_def split: prod.splits sum.splits)
  show ?thesis
    using run logged_crashed [OF L assms(1,2)] recover_logged [OF L _ assms(5)] by blast
qed

definition sample_wal :: wal where
  "sample_wal = pool.extend sample_pool \<lparr>wal_file = [], wal_stable = [], next_transaction_id = 1,
     checkpoint_threshold_bytes = DEFAULT_CHECKPOINT_THRESHOLD_BYTES, active_pages = []\<rparr>"

lemma sample_wal_ok [simp]:
  "pool_inv sample_wal" "pool_calm sample_wal" "wal_file sample_wal = []" "wal_stable sample_wal = []"
  "next_transaction_id sample_wal = 1" "total_pages sample_wal = 2" "io sample_wal = []"
  "pins sample_wal q = 0" "active_pages sample_wal = []"
proof -
  have f: "db_file sample_wal = db_file sample_pool" "total_pages sample_wal = total_pages sample_pool"
    "frames sample_wal = frames sample_pool" "frame_metas sample_wal = frame_metas sample_pool"
    "page_table sample_wal = page_table sample_pool" "lru_list sample_wal = lru_list sample_pool"
    "io sample_wal = io sample_pool"
    by (simp_all add: sample_wal_def pool.defs)
  have p: "pool_inv sample_wal = pool_inv sample_pool" "pins sample_wal = pins sample_pool"
    using f by (simp_all add: pool_inv_def disk_inv_def frames_ok_def table_ok_def slot_ok_def disk_page_def
        pins_def fun_eq_iff Let_def split: option.split)
  show "pool_inv sample_wal" "io sample_wal = []" "pins sample_wal q = 0" "total_pages sample_wal = 2"
    using p f by simp_all
  show "pool_calm sample_wal" using p f by (simp add: pool_calm_def)
qed (simp_all add: sample_wal_def pool.defs)

theorem crash_recovery_witness:
  "\<exists>t. for_each run_txn [([(1, replicate PAGE_SIZE 7)], True), ([(0, replicate PAGE_SIZE 9)], False)] sample_wal = (Inr (), t)
    \<and> wp wal_recover (\<lambda>_ v. view v 1 = replicate PAGE_SIZE 7 \<and> view v 0 = view sample_wal 0 \<and> wal_file v = [])
        (\<lambda>_ _. False) (sample_wal\<lparr>wal_file := wal_file t\<rparr>)"
proof -
  let ?txns = "[([(1, replicate PAGE_SIZE 7)], True), ([(0, replicate PAGE_SIZE 9)], False)]"
  have ok: "\<forall>x \<in> set ?txns. txn_ok (total_pages sample_wal) x" by (simp add: txn_ok_def)
  have small: "unat (next_transaction_id sample_wal) + length ?txns < 2 ^ 32" by simp
  obtain t where t: "for_each run_txn ?txns sample_wal = (Inr (), t)"
    "crashed sample_wal ?txns t (sample_wal\<lparr>wal_file := wal_file t\<rparr>)"
    "\<forall>u. crashed sample_wal ?txns t u \<longrightarrow> wp wal_recover
        (\<lambda>_ v. pool_inv v \<and> wal_file v = [] \<and> db_stable v = db_file v
           \<and> (\<forall>q < total_pages sample_wal. view v q = overlay (committed_pages ?txns) (view sample_wal) q
                \<and> disk_page v q = view v q))
        (\<lambda>_ _. False) u"
    using crash_recovery [OF sample_wal_ok(1-4) ok small] by blast
  have "wp wal_recover (\<lambda>_ v. view v 1 = replicate PAGE_SIZE 7 \<and> view v 0 = view sample_wal 0 \<and> wal_file v = [])
        (\<lambda>_ _. False) (sample_wal\<lparr>wal_file := wal_file t\<rparr>)"
    by (rule wp_mono [OF t(3) [rule_format, OF t(2)]]) (auto simp: committed_pages_def)
  with t(1) show ?thesis by blast
qed

text \<open>
  Property C4. The log reads back as it was written: the scan of the bytes of any frames, with
  a torn frame behind them, reports the committed transactions in commit order, and the pages
  it collects for a transaction overlay exactly as the writes of that transaction.
\<close>

theorem log_roundtrip:
  assumes "\<forall>f \<in> set fs. frame_ok f" "torn_tail torn"
  shows "\<exists>n' tp. wal_scan [] (log_bytes fs @ torn) n [] [] = ([], n', tp, committed fs)
    \<and> (\<forall>txn c. overlay (pages_of tp txn) c = overlay (txn_writes fs txn) c)"
  using scan_log [OF assms(1) collected_Nil assms(2), of n "[]"] by (auto simp: collected_def)

theorem log_roundtrip_witness:
  "\<exists>n' tp. wal_scan [] (log_bytes [Page_write 1 5 zero_page, Commit 1, Page_write 2 6 zero_page] @ [1, 2, 0]) 1 [] []
     = ([], n', tp, [1]) \<and> overlay (pages_of tp 2) (\<lambda>_. []) 6 = zero_page"
proof -
  have torn: "torn_tail [1, 2, 0]"
    unfolding torn_tail_def
    by (intro exI [of _ "Page_write 2 0 zero_page"])
      (simp add: strict_prefix_def record_header_def PAGE_WRITE_def u32_bytes_def)
  show ?thesis
    using log_roundtrip [OF _ torn, of "[Page_write 1 5 zero_page, Commit 1, Page_write 2 6 zero_page]" 1]
    by auto
qed

text \<open>
  Property C3. A commit is all or nothing towards the log. When it returns, the log ends with
  its commit record, is durable as a whole, and the transaction's pages are the logical pages.
  When it throws, either nothing new is durable and no logical page has changed, or the
  commit record is durable and a part of the pages is applied; and it throws only on an I/O
  error, a full cache or a page that does not exist.
\<close>

theorem commit_atomic:
  fixes s :: "'a wal_scheme"
  assumes "pool_inv s" "\<forall>(pid, p) \<in> set (active_pages s). length p = PAGE_SIZE"
  shows "wp (wal_commit txn)
    (\<lambda>_ t. pool_inv t \<and> wal_stable t = wal_file s @ frame_bytes (Commit txn) \<and> wal_file t = wal_stable t
       \<and> (\<forall>q < total_pages s. view t q = overlay (active_pages s) (view s) q) \<and> active_pages t = [])
    (\<lambda>e t. pool_inv t \<and> (wal_stable t = wal_stable s \<and> view t = view s
         \<or> wal_stable t = wal_file s @ frame_bytes (Commit txn) \<and>
           (\<exists>n < length (active_pages s). \<forall>q < total_pages s. view t q = overlay (take n (active_pages s)) (view s) q))
       \<and> \<not> (pool_calm s \<and> (\<forall>(pid, p) \<in> set (active_pages s). pid < total_pages s))) s"
  by (rule wp_mono [OF wp_wal_commit [OF assms]]) (auto simp: commit_done_def commit_failed_def)

theorem commit_atomic_witness:
  "wp (wal_commit 1) (\<lambda>_ t. wal_stable t = frame_bytes (Commit 1) \<and> view t 1 = replicate PAGE_SIZE 7)
     (\<lambda>_ _. False) (sample_wal\<lparr>active_pages := [(1, replicate PAGE_SIZE 7)]\<rparr>)"
proof -
  let ?s = "sample_wal\<lparr>active_pages := [(1, replicate PAGE_SIZE 7)]\<rparr>"
  have "pool_inv ?s" "\<forall>(pid, p) \<in> set (active_pages ?s). length p = PAGE_SIZE" "pool_calm ?s"
    by (simp_all add: pool_calm_def)
  then show ?thesis
    by (intro wp_mono [OF commit_atomic [of ?s 1]]) auto
qed

text \<open>
  A committed page that the page file does not have blocks recovery: the log is
  made durable at commit, but the growth of the page file by \<open>allocate_page\<close> is not, so
  after a power loss the log can name a page at or above \<open>total_pages\<close>. Then every
  \<open>recover\<close> throws and leaves the log as it is, and the database cannot be opened.
\<close>

lemma recovery_blocked_by_lost_growth:
  fixes s :: "'a wal_scheme"
  assumes "pool_inv s" "pool_calm s" "wal_file s = log_bytes fs @ torn" "torn_tail torn"
    "\<forall>f \<in> set fs. frame_ok f" "(pid, p) \<in> set (replayed fs)" "total_pages s \<le> pid"
  shows "\<exists>e t. wal_recover s = (Inl e, t) \<and> wal_file t = wal_file s"
proof -
  have io: "io s = []" "next_outcome s = IO_ok" and pn: "\<forall>q. pins s q = 0"
    using assms(2) by (simp_all add: pool_calm_def)
  obtain n' tp where scan: "wal_scan [] (wal_file s) (next_transaction_id s) [] [] = ([], n', tp, committed fs)"
    "collected tp fs"
    using scan_log [OF assms(5) collected_Nil assms(4), of "next_transaction_id s" "[]"] assms(3) by auto
  let ?l = "concat (map (pages_of tp) (committed fs))"
  have len: "\<forall>(pid, p) \<in> set ?l. length p = PAGE_SIZE"
    using scan(2) by (force simp: collected_def)
  obtain txn where txn: "txn \<in> set (committed fs)" "pid \<in> fst ` set (txn_writes fs txn)"
    using assms(6) by (force simp: replayed_def)
  then have "pid \<in> fst ` set (pages_of tp txn)" using scan(2) by (simp add: collected_def)
  then have bad: "\<exists>(pid, p) \<in> set ?l. \<not> pid < total_pages s"
    using txn(1) assms(7) by (force simp: not_less)
  define u where "u = (io_step s)\<lparr>io := [], next_transaction_id := n'\<rparr>"
  have u: "pool_inv u" "total_pages u = total_pages s" "wal_file u = wal_file s"
    using assms(1) by (simp_all add: u_def)
  have "wp (for_each (\<lambda>(pid, p). put_page pid p) ?l)
    (\<lambda>_. wp wal_checkpoint (\<lambda>_ _. False) (\<lambda>_ t. wal_file t = wal_file s)) (\<lambda>_ t. wal_file t = wal_file s) u"
    by (rule wp_mono [OF ps.store_all_law [OF u(1) len]]) (use bad u in \<open>auto dest: pool_keepsD(5)\<close>)
  then have "wp wal_recover (\<lambda>_ _. False) (\<lambda>_ t. wal_file t = wal_file s) s"
    using io scan(1) by (simp add: wal_recover_def wp_eqs replay_all u_def)
  then show ?thesis by (auto simp: wp_def split: prod.splits sum.splits)
qed

lemma recovery_blocked_by_lost_growth_example:
  "\<exists>e t. wal_recover (sample_wal\<lparr>wal_file := log_bytes [Page_write 1 2 zero_page, Commit 1]\<rparr>) = (Inl e, t)
     \<and> wal_file t = log_bytes [Page_write 1 2 zero_page, Commit 1]"
  using recovery_blocked_by_lost_growth [of "sample_wal\<lparr>wal_file := log_bytes [Page_write 1 2 zero_page, Commit 1]\<rparr>"
      "[Page_write 1 2 zero_page, Commit 1]" "[]" 2 zero_page]
  by (simp add: replayed_def)

end
