(* ===== verification/Header.thy ===== *)
theory Header
  imports Wal
begin

text \<open>
  The database header: struct \<open>DBHeader\<close> of \<open>src/header/header_manager.h\<close>, the 40 bytes
  at the start of page 0, and the class \<open>HeaderManager\<close>, which keeps a copy in memory,
  bootstraps it, validates it on open and logs its changes.
\<close>

section \<open>State\<close>

record db_header =
  hd_magic :: "byte list"
  hd_page_size :: u32
  hd_total_pages :: u32
  hd_schema_root_page :: u32
  hd_first_free_page :: u32
  hd_version :: u32
  hd_reserved :: u32

record hdr = wal +
  db_hdr :: db_header

definition DB_MAGIC :: "byte list" where
  "DB_MAGIC = map byte_of ''MYDB_V2'' @ replicate 9 0"

definition DB_VERSION :: u32 where "DB_VERSION = 2"

definition NO_FREE_PAGE :: u32 where "NO_FREE_PAGE = 0xFFFFFFFF"

definition zero_header :: db_header where
  "zero_header = \<lparr>hd_magic = replicate 16 0, hd_page_size = 0, hd_total_pages = 0,
     hd_schema_root_page = 0, hd_first_free_page = 0, hd_version = 0, hd_reserved = 0\<rparr>"

definition header_open :: "wal \<Rightarrow> hdr" where
  "header_open w = wal.extend w \<lparr>db_hdr = zero_header\<rparr>"

text \<open>The packed struct, as \<open>memcpy\<close> lays it out, and as it is read back.\<close>

definition header_bytes :: "db_header \<Rightarrow> byte list" where
  "header_bytes h = hd_magic h @ u32_bytes (hd_page_size h) @ u32_bytes (hd_total_pages h)
     @ u32_bytes (hd_schema_root_page h) @ u32_bytes (hd_first_free_page h)
     @ u32_bytes (hd_version h) @ u32_bytes (hd_reserved h)"

definition header_of_bytes :: "byte list \<Rightarrow> db_header" where
  "header_of_bytes bs = \<lparr>hd_magic = take 16 bs, hd_page_size = bytes_u32 (drop 16 bs),
     hd_total_pages = bytes_u32 (drop 20 bs), hd_schema_root_page = bytes_u32 (drop 24 bs),
     hd_first_free_page = bytes_u32 (drop 28 bs), hd_version = bytes_u32 (drop 32 bs),
     hd_reserved = bytes_u32 (drop 36 bs)\<rparr>"

definition header_page :: "db_header \<Rightarrow> page" where
  "header_page h = overwrite 0 (header_bytes h) zero_page"

section \<open>Operations\<close>

definition fresh_header :: db_header where
  "fresh_header = \<lparr>hd_magic = DB_MAGIC, hd_page_size = word_of_nat PAGE_SIZE, hd_total_pages = 1,
     hd_schema_root_page = INVALID_PAGE, hd_first_free_page = NO_FREE_PAGE,
     hd_version = DB_VERSION, hd_reserved = 0\<rparr>"

definition header_init :: "('a hdr_scheme, unit) eff" where
  "header_init = bind (gets total_pages) (\<lambda>total.
     if total > 0
       then throw (Runtime_error ''HeaderManager::init: file already has pages, use load() instead'')
     else bind new_page (\<lambda>(pid, slot).
       andthen (modify (\<lambda>s. s\<lparr>db_hdr := fresh_header\<rparr>))
       (andthen (bind (gets db_hdr) (\<lambda>h. write_frame slot (header_page h)))
       (andthen (unpin_page pid True)
        flush_all))))"

definition read_header :: "('a hdr_scheme, unit) eff" where
  "read_header = bind (peek_page HEADER_PAGE_ID) (\<lambda>p.
     modify (\<lambda>s. s\<lparr>db_hdr := header_of_bytes p\<rparr>))"

definition header_load :: "('a hdr_scheme, unit) eff" where
  "header_load = bind (gets total_pages) (\<lambda>total.
     if total = 0
       then throw (Runtime_error ''HeaderManager::load: file is empty, use init() instead'')
     else andthen read_header (bind (gets db_hdr) (\<lambda>h.
       if hd_magic h \<noteq> DB_MAGIC then throw (Runtime_error (''HeaderManager::load: invalid magic string '' @ em_dash @ '' not a valid database file''))
       else if hd_page_size h \<noteq> word_of_nat PAGE_SIZE
         then throw (Runtime_error (''HeaderManager::load: page size mismatch '' @ em_dash @ '' file uses ''
           @ to_string (unat (hd_page_size h)) @ '' bytes but engine expects '' @ to_string PAGE_SIZE))
       else if hd_version h \<noteq> DB_VERSION
         then throw (Runtime_error (''HeaderManager::load: unsupported file version '' @ to_string (unat (hd_version h))))
       else ret ())))"

definition header_save :: "('a hdr_scheme, unit) eff" where
  "header_save = bind (gets (\<lambda>s. header_page (db_hdr s))) (\<lambda>page.
     bind wal_begin (\<lambda>txn_id.
     andthen (wal_write txn_id HEADER_PAGE_ID page) (wal_commit txn_id)))"

section \<open>Lemmas\<close>

definition header_wf :: "db_header \<Rightarrow> bool" where
  "header_wf h \<longleftrightarrow> length (hd_magic h) = 16"

definition header_valid :: "db_header \<Rightarrow> bool" where
  "header_valid h \<longleftrightarrow> hd_magic h = DB_MAGIC \<and> hd_page_size h = word_of_nat PAGE_SIZE
     \<and> hd_version h = DB_VERSION"

lemma length_header_bytes [simp]: "header_wf h \<Longrightarrow> length (header_bytes h) = 40"
  by (simp add: header_bytes_def header_wf_def)

lemma length_header_page [simp]: "header_wf h \<Longrightarrow> length (header_page h) = PAGE_SIZE"
  by (simp add: header_page_def PAGE_SIZE_def)

lemma header_roundtrip [codec_simps]: "header_wf h \<Longrightarrow> header_of_bytes (header_bytes h @ rest) = h"
  by (cases h) (simp add: header_of_bytes_def header_bytes_def header_wf_def)

lemma header_page_roundtrip [codec_simps]: "header_wf h \<Longrightarrow> header_of_bytes (header_page h) = h"
  by (simp add: header_page_def overwrite_def header_roundtrip)

lemma fresh_header_ok [simp]: "header_wf fresh_header" "header_valid fresh_header"
  by (simp_all add: header_wf_def header_valid_def fresh_header_def DB_MAGIC_def)

lemma header_wf_of_page: "length p = PAGE_SIZE \<Longrightarrow> header_wf (header_of_bytes p)"
  by (simp add: header_wf_def header_of_bytes_def PAGE_SIZE_def)

lemma pool_state_hdr_updates [simp]:
  "pool_inv (db_hdr_update f s) = pool_inv s" "view (db_hdr_update f s) = view s"
  "pins (db_hdr_update f s) = pins s" "disk_page (db_hdr_update f s) = disk_page s"
  by (rule pool_state_cong; simp)+

lemma hdr_field_kept:
  fixes s t :: "'a hdr_scheme"
  shows "wal.more t = wal.more s \<Longrightarrow> db_hdr t = db_hdr s"
  by (cases s; cases t) simp

text \<open>
  \<open>load\<close> reads page 0 of the logical database into the memory copy and accepts it exactly
  when magic, page size and version are the engine's.
\<close>

lemma wp_header_load:
  fixes s :: "'a hdr_scheme"
  assumes "pool_inv s" "total_pages s \<noteq> 0"
  shows "wp header_load
    (\<lambda>_ t. db_hdr t = header_of_bytes (view s 0) \<and> header_valid (header_of_bytes (view s 0))
       \<and> pool_inv t \<and> same_view s t \<and> pins t = pins s)
    (\<lambda>e t. pool_inv t \<and> same_view s t \<and> pins t = pins s
       \<and> (\<not> header_valid (header_of_bytes (view s 0)) \<or> \<not> pool_calm s)) s"
proof -
  have pos: "0 < total_pages s" using assms(2) by (simp add: word_gt_0)
  have sv: "same_view s (db_hdr_update f t) = same_view s t" for f and t :: "'a hdr_scheme"
    by (simp add: same_view_def)
  show ?thesis
    unfolding header_load_def read_header_def wp_bind wp_gets wp_andthen HEADER_PAGE_ID_def if_not_P [OF assms(2)]
  proof (rule wp_mono [OF wp_peek_page [OF assms(1)]], goal_cases)
    case (1 p t)
    then show ?case by (auto simp: wp_eqs header_valid_def cache_step_def sv)
  next
    case (2 e t)
    with fetch_failed_store [OF assms(1) 2] pos show ?case
      by (auto simp: pool_keeps_def same_view_def)
  qed
qed


text \<open>
  \<open>init\<close> creates page 0 with the fresh header and makes it durable, without the log.
\<close>

definition initialised :: "'a hdr_scheme \<Rightarrow> 'a hdr_scheme \<Rightarrow> bool" where
  "initialised s t \<longleftrightarrow> pool_inv t \<and> total_pages t = 1 \<and> db_hdr t = fresh_header
     \<and> view t 0 = header_page fresh_header \<and> disk_page t 0 = header_page fresh_header
     \<and> db_stable t = db_file t \<and> (\<forall>q. pins t q = 0) \<and> (io s = [] \<longrightarrow> io t = [])"

lemma no_pages_no_pins:
  assumes "pool_inv s" "total_pages s = 0"
  shows "pins s q = 0"
proof (cases "map_of (page_table s) q")
  case (Some i)
  note sl = table_slot [OF pool_invD(3) [OF assms(1)] Some]
  have "q < total_pages s" using pool_invD(4) [OF assms(1) sl(1)] sl(2,3) by (simp add: slot_ok_def Let_def)
  with assms(2) show ?thesis by simp
qed (simp add: pins_def)

lemma wp_header_init:
  fixes s :: "'a hdr_scheme"
  assumes "pool_inv s" "total_pages s = 0"
  shows "wp header_init (\<lambda>_. initialised s) (\<lambda>e t. pool_inv t \<and> \<not> pool_calm s) s"
proof -
  have np: "\<forall>q. pins s q = 0" using no_pages_no_pins [OF assms] by blast
  have lt: "total_pages s < INVALID_PAGE" using assms(2) by (simp add: INVALID_PAGE_def)
  have nz: "\<not> 0 < total_pages s" using assms(2) by simp
  show ?thesis
    unfolding header_init_def wp_bind wp_gets if_not_P [OF nz]
  proof (rule wp_mono [OF wp_new_page [OF assms(1) lt]], clarify)
    fix pid slot t
    assume c: "page_created s pid slot t"
    then have t: "pool_inv t" "pid = 0" "total_pages t = 1" "map_of (page_table t) 0 = Some slot"
      "\<forall>q. pins t q = (if q = 0 then 1 else 0)" "io s = [] \<Longrightarrow> io t = []" "view t 0 = zero_page"
      using assms(2) np by (auto simp: page_created_def)
    let ?u = "t\<lparr>db_hdr := fresh_header\<rparr>"
    have dh: "db_hdr ?u = fresh_header" by simp
    have w: "wp (write_frame slot (header_page fresh_header))
      (\<lambda>_ v. page_written 0 (header_page fresh_header) ?u v \<and> pins v = pins ?u
         \<and> page_table v = page_table ?u \<and> frames v = (frames ?u)[slot := header_page fresh_header])
      (\<lambda>_ _. False) ?u"
      by (rule wp_write_frame) (use t in simp_all)
    show "wp (andthen (modify (\<lambda>s. s\<lparr>db_hdr := fresh_header\<rparr>))
       (andthen (bind (gets db_hdr) (\<lambda>h. write_frame slot (header_page h)))
       (andthen (unpin_page pid True) flush_all)))
       (\<lambda>_. initialised s) (\<lambda>e t. pool_inv t \<and> \<not> pool_calm s) t"
      unfolding wp_andthen wp_modify wp_bind wp_gets t(2) dh
    proof (rule wp_mono [OF w], elim conjE)
      fix v
      assume v: "page_written 0 (header_page fresh_header) ?u v" "pins v = pins ?u"
      then have vv: "pool_inv v" "total_pages v = 1" "view v 0 = header_page fresh_header"
        "io s = [] \<Longrightarrow> io v = []" "db_hdr v = fresh_header"
        using t hdr_field_kept [of v ?u] wal_fields_kept(6) [of v ?u] by (simp_all add: page_written_def)
      show "wp (unpin_page 0 True) (\<lambda>_. wp flush_all (\<lambda>_. initialised s) (\<lambda>e t. pool_inv t \<and> \<not> pool_calm s))
        (\<lambda>e t. pool_inv t \<and> \<not> pool_calm s) v"
      proof (rule wp_mono [OF wp_unpin_page [OF vv(1), of True 0]], simp, elim conjE)
        fix w
        assume w: "cache_step v w" "pins w = (pins v)(0 := pins v 0 - 1)"
        note cw = cache_stepD [OF w(1)]
        have pw: "pins w q = 0" for q using w(2) v(2) t(5) by simp
        have hw: "db_hdr w = fresh_header"
          using cw(3) hdr_field_kept [of w v] wal_fields_kept(6) [of w v] vv(5) by simp
        show "wp flush_all (\<lambda>_. initialised s) (\<lambda>e t. pool_inv t \<and> \<not> pool_calm s) w"
        proof (rule wp_mono [OF wp_flush_all [OF cw(1) pw]], goal_cases)
          case (1 _ x)
          then have "db_hdr x = fresh_header"
            using hdr_field_kept [of x w] wal_fields_kept(6) [of x w] hw by (simp add: checkpointed_def)
          with 1 show ?case
            using cw vv pw by (simp add: initialised_def checkpointed_def same_view_def)
        next
          case (2 _ x)
          then show ?case using cw(5) vv(4) by (auto simp: cache_step_def pool_calm_def)
        qed
      qed simp
    qed simp
  qed (use calm_victim [OF assms(1) np] in \<open>auto simp: pool_calm_def\<close>)
qed

text \<open>
  \<open>save\<close> is one logged transaction that writes page 0.
\<close>

definition header_saved :: "'a hdr_scheme \<Rightarrow> 'a hdr_scheme \<Rightarrow> bool" where
  "header_saved s t \<longleftrightarrow> pool_inv t \<and> total_pages t = total_pages s \<and> db_hdr t = db_hdr s \<and> pins t = pins s
     \<and> (\<forall>q < total_pages s. view t q = (if q = 0 then header_page (db_hdr s) else view s q))
     \<and> wal_file t = wal_file s @ log_bytes [Page_write (next_transaction_id s) 0 (header_page (db_hdr s)),
                                         Commit (next_transaction_id s)]
     \<and> wal_stable t = wal_file t \<and> (io s = [] \<longrightarrow> io t = [])"

lemma wp_header_save:
  fixes s :: "'a hdr_scheme"
  assumes "pool_inv s" "header_wf (db_hdr s)" "io s = []"
  shows "wp header_save (\<lambda>_. header_saved s)
    (\<lambda>e t. pool_inv t \<and> \<not> (pool_calm s \<and> total_pages s \<noteq> 0)) s"
proof -
  let ?p = "header_page (db_hdr s)" and ?id = "next_transaction_id s"
  define u where "u = s\<lparr>next_transaction_id := ?id + 1,
    wal_file := wal_file s @ frame_bytes (Page_write ?id 0 ?p), active_pages := [(0, ?p)]\<rparr>"
  have run: "header_save s = wal_commit ?id u"
    using assms(3) run_wal_writes [of "s\<lparr>active_pages := [], next_transaction_id := ?id + 1\<rparr>" ?id "[(0, ?p)]"]
    by (simp add: header_save_def wal_begin_def bind_def andthen_def gets_def modify_def ret_def
        HEADER_PAGE_ID_def u_def split: prod.splits sum.splits)
  have u: "pool_inv u" "\<forall>(pid, p) \<in> set (active_pages u). length p = PAGE_SIZE"
    using assms by (simp_all add: u_def)
  have "wp (wal_commit ?id) (\<lambda>_. header_saved s) (\<lambda>e t. pool_inv t \<and> \<not> (pool_calm s \<and> total_pages s \<noteq> 0)) u"
  proof (rule wp_mono [OF wp_wal_commit [OF u]], goal_cases)
    case (1 _ t)
    then have "db_hdr t = db_hdr s" using hdr_field_kept [of t u] by (simp add: commit_done_def u_def)
    with 1 show ?case by (auto simp: commit_done_def header_saved_def u_def)
  next
    case (2 e t)
    then show ?case by (auto simp: commit_failed_def u_def pool_calm_def word_gt_0)
  qed
  with run show ?thesis by (simp add: wp_def)
qed

section \<open>Properties\<close>

text \<open>
  Bootstrap: on an empty file \<open>init\<close> leaves exactly one page, the fresh header,
  on file and durable before it returns, and the \<open>load\<close> of the next start accepts that page
  and reads the same header back.
\<close>

lemma init_then_load:
  fixes s :: "'a hdr_scheme"
  assumes "pool_inv s" "total_pages s = 0" "io s = []"
  shows "wp (andthen header_init (andthen (modify (\<lambda>t. t\<lparr>db_hdr := zero_header\<rparr>)) header_load))
    (\<lambda>_ t. total_pages t = 1 \<and> db_hdr t = fresh_header \<and> view t 0 = header_page fresh_header)
    (\<lambda>_ _. False) s
   \<and> wp header_init (\<lambda>_ t. disk_page t 0 = header_page fresh_header \<and> db_stable t = db_file t) (\<lambda>_ _. False) s"
proof -
  have calm: "pool_calm s" using no_pages_no_pins [OF assms(1,2)] assms(3) by (simp add: pool_calm_def)
  have init: "wp header_init (\<lambda>_. initialised s) (\<lambda>_ _. False) s"
    by (rule wp_mono [OF wp_header_init [OF assms(1,2)]]) (use calm in simp_all)
  have "wp header_init (\<lambda>_. wp (modify (\<lambda>t. t\<lparr>db_hdr := zero_header\<rparr>)) (\<lambda>_. wp header_load
      (\<lambda>_ t. total_pages t = 1 \<and> db_hdr t = fresh_header \<and> view t 0 = header_page fresh_header)
      (\<lambda>_ _. False)) (\<lambda>_ _. False)) (\<lambda>_ _. False) s"
  proof (rule wp_mono [OF init])
    fix t assume t: "initialised s t"
    let ?t = "t\<lparr>db_hdr := zero_header\<rparr>"
    have h: "header_of_bytes (view ?t 0) = fresh_header"
      using t header_page_roundtrip [OF fresh_header_ok(1)] by (simp add: initialised_def)
    have ok: "pool_inv ?t" "total_pages ?t \<noteq> 0" "pool_calm ?t"
      using t assms(3) by (simp_all add: initialised_def pool_calm_def)
    show "wp (modify (\<lambda>t. t\<lparr>db_hdr := zero_header\<rparr>)) (\<lambda>_. wp header_load
        (\<lambda>_ t. total_pages t = 1 \<and> db_hdr t = fresh_header \<and> view t 0 = header_page fresh_header)
        (\<lambda>_ _. False)) (\<lambda>_ _. False) t"
      unfolding wp_modify
      by (rule wp_mono [OF wp_header_load [OF ok(1,2)]])
        (use t h ok(3) in \<open>auto simp: initialised_def same_view_def\<close>)
  qed simp
  moreover have "wp header_init (\<lambda>_ t. disk_page t 0 = header_page fresh_header \<and> db_stable t = db_file t) (\<lambda>_ _. False) s"
    by (rule wp_mono [OF init]) (simp_all add: initialised_def)
  ultimately show ?thesis by (simp only: wp_andthen_fun)
qed

definition sample_hdr :: hdr where
  "sample_hdr = wal.extend sample_wal \<lparr>db_hdr = fresh_header\<rparr>"

lemma pool_state_extend:
  "pool_inv (wal.extend (w :: wal) x) = pool_inv w" "pins (wal.extend w x) = pins w"
  "view (wal.extend w x) = view w"
proof -
  have f: "db_file (wal.extend w x) = db_file w" "total_pages (wal.extend w x) = total_pages w"
    "frames (wal.extend w x) = frames w" "frame_metas (wal.extend w x) = frame_metas w"
    "page_table (wal.extend w x) = page_table w" "lru_list (wal.extend w x) = lru_list w"
    by (simp_all add: wal.defs)
  then show "pool_inv (wal.extend w x) = pool_inv w" "pins (wal.extend w x) = pins w"
    "view (wal.extend w x) = view w"
    by (simp_all add: pool_inv_def disk_inv_def frames_ok_def table_ok_def slot_ok_def disk_page_def
        pins_def view_def fun_eq_iff Let_def split: option.split)
qed

lemma sample_hdr_ok [simp]:
  "pool_inv sample_hdr" "pool_calm sample_hdr" "total_pages sample_hdr = 2" "io sample_hdr = []"
  "pins sample_hdr q = 0" "db_hdr sample_hdr = fresh_header" "wal_file sample_hdr = []"
  "view sample_hdr = view sample_wal" "active_pages sample_hdr = []" "next_transaction_id sample_hdr = 1"
proof -
  show i: "io sample_hdr = []" and p: "pins sample_hdr q = 0" for q
    by (simp_all add: sample_hdr_def pool_state_extend) (simp add: wal.defs)
  show "pool_calm sample_hdr" using i p by (simp add: pool_calm_def)
qed (simp_all add: sample_hdr_def pool_state_extend, simp_all add: wal.defs)

definition sample_empty :: hdr where
  "sample_empty = wal.extend (pool.extend (pool_open \<lparr>io = [], db_file = [], db_stable = [], total_pages = 0\<rparr>)
     \<lparr>wal_file = [], wal_stable = [], next_transaction_id = 1,
      checkpoint_threshold_bytes = DEFAULT_CHECKPOINT_THRESHOLD_BYTES, active_pages = []\<rparr>)
     \<lparr>db_hdr = zero_header\<rparr>"

lemma sample_empty_ok: "pool_inv sample_empty" "total_pages sample_empty = 0" "io sample_empty = []"
  by (simp_all add: sample_empty_def wal.defs pool.defs pool_open_def disk.defs pool_inv_def disk_inv_def
      frames_ok_def table_ok_def slot_ok_def free_meta_def Let_def lessThan_atLeast0)

lemma init_then_load_example:
  "wp (andthen header_init (andthen (modify (\<lambda>t. t\<lparr>db_hdr := zero_header\<rparr>)) header_load))
    (\<lambda>_ t. total_pages t = 1 \<and> db_hdr t = fresh_header) (\<lambda>_ _. False) sample_empty"
  by (rule wp_mono [OF conjunct1 [OF init_then_load [OF sample_empty_ok]]]) simp_all

text \<open>
  Saving the header and loading it again: in a calm database with a valid header
  in memory, \<open>save\<close> followed by \<open>load\<close> (of a memory copy that was lost) returns the same
  header, the header page is in the durable log under its own committed transaction, and no
  other page changes.
\<close>

lemma save_then_load:
  fixes s :: "'a hdr_scheme"
  assumes "pool_inv s" "pool_calm s" "total_pages s \<noteq> 0" "header_wf (db_hdr s)" "header_valid (db_hdr s)"
  shows "wp (andthen header_save (andthen (modify (\<lambda>t. t\<lparr>db_hdr := zero_header\<rparr>)) header_load))
    (\<lambda>_ t. db_hdr t = db_hdr s \<and> (\<forall>q < total_pages s. q \<noteq> 0 \<longrightarrow> view t q = view s q)) (\<lambda>_ _. False) s
   \<and> wp header_save (\<lambda>_ t. wal_stable t = wal_file s @ log_bytes
        [Page_write (next_transaction_id s) 0 (header_page (db_hdr s)), Commit (next_transaction_id s)]) (\<lambda>_ _. False) s"
proof -
  have io: "io s = []" using assms(2) by (simp add: pool_calm_def)
  have save: "wp header_save (\<lambda>_. header_saved s) (\<lambda>_ _. False) s"
    by (rule wp_mono [OF wp_header_save [OF assms(1,4) io]]) (use assms(2,3) in simp_all)
  have "wp header_save (\<lambda>_. wp (modify (\<lambda>t. t\<lparr>db_hdr := zero_header\<rparr>)) (\<lambda>_. wp header_load
      (\<lambda>_ t. db_hdr t = db_hdr s \<and> (\<forall>q < total_pages s. q \<noteq> 0 \<longrightarrow> view t q = view s q))
      (\<lambda>_ _. False)) (\<lambda>_ _. False)) (\<lambda>_ _. False) s"
  proof (rule wp_mono [OF save])
    fix t assume t: "header_saved s t"
    let ?t = "t\<lparr>db_hdr := zero_header\<rparr>"
    have h: "header_of_bytes (view ?t 0) = db_hdr s"
      using t header_page_roundtrip [OF assms(4)] assms(3) by (simp add: header_saved_def word_gt_0)
    have ok: "pool_inv ?t" "total_pages ?t \<noteq> 0" "pool_calm ?t"
      using t assms(2,3) by (simp_all add: header_saved_def pool_calm_def)
    show "wp (modify (\<lambda>t. t\<lparr>db_hdr := zero_header\<rparr>)) (\<lambda>_. wp header_load
        (\<lambda>_ t. db_hdr t = db_hdr s \<and> (\<forall>q < total_pages s. q \<noteq> 0 \<longrightarrow> view t q = view s q))
        (\<lambda>_ _. False)) (\<lambda>_ _. False) t"
      unfolding wp_modify
      by (rule wp_mono [OF wp_header_load [OF ok(1,2)]])
        (use t h ok(3) assms(5) in \<open>auto simp: header_saved_def same_view_def\<close>)
  qed simp
  moreover have "wp header_save (\<lambda>_ t. wal_stable t = wal_file s @ log_bytes
        [Page_write (next_transaction_id s) 0 (header_page (db_hdr s)), Commit (next_transaction_id s)]) (\<lambda>_ _. False) s"
    by (rule wp_mono [OF save]) (simp_all add: header_saved_def)
  ultimately show ?thesis by (simp only: wp_andthen_fun)
qed

lemma save_then_load_example:
  "wp (andthen header_save (andthen (modify (\<lambda>t. t\<lparr>db_hdr := zero_header\<rparr>)) header_load))
    (\<lambda>_ t. db_hdr t = fresh_header) (\<lambda>_ _. False) sample_hdr"
  by (rule wp_mono [OF conjunct1 [OF save_then_load [of sample_hdr]]]) simp_all

end
