(* ===== verification/Free_List.thy ===== *)
theory Free_List
  imports Header
begin

text \<open>
  The free-page list: class \<open>FreeListManager\<close> of \<open>src/btree/free_list_manager.cpp\<close>. The
  header names the first free page and the first four bytes of a free page name the next,
  so the list is a stack threaded through the pages themselves.
\<close>

section \<open>Operations\<close>

definition read_next_pointer :: "page \<Rightarrow> u32" where
  "read_next_pointer page = bytes_u32 (take 4 page)"

definition write_next_pointer :: "u32 \<Rightarrow> page \<Rightarrow> page" where
  "write_next_pointer nxt page = overwrite 0 (u32_bytes nxt) page"

definition set_first_free :: "u32 \<Rightarrow> 'a hdr_scheme \<Rightarrow> 'a hdr_scheme" where
  "set_first_free pid s = s\<lparr>db_hdr := (db_hdr s)\<lparr>hd_first_free_page := pid\<rparr>\<rparr>"

definition log_header :: "u32 \<Rightarrow> ('a hdr_scheme, unit) eff" where
  "log_header transaction_id = bind (gets (\<lambda>s. header_page (db_hdr s))) (wal_write transaction_id HEADER_PAGE_ID)"

definition allocate_page :: "u32 \<Rightarrow> ('a hdr_scheme, u32 \<times> nat) eff" where
  "allocate_page transaction_id = bind (gets (\<lambda>s. hd_first_free_page (db_hdr s))) (\<lambda>head.
     if head = NO_FREE_PAGE then new_page
     else bind (fetch_page head) (\<lambda>free_page.
       bind (read_frame free_page) (\<lambda>p.
       andthen (modify (set_first_free (read_next_pointer p)))
       (andthen (log_header transaction_id) (ret (head, free_page))))))"

definition free_page :: "u32 \<Rightarrow> u32 \<Rightarrow> ('a hdr_scheme, unit) eff" where
  "free_page transaction_id page_id = bind (fetch_page page_id) (\<lambda>slot.
     bind (gets (\<lambda>s. hd_first_free_page (db_hdr s))) (\<lambda>old_head.
     bind (read_frame slot) (\<lambda>p.
     andthen (write_frame slot (write_next_pointer old_head p))
     (andthen (bind (read_frame slot) (wal_write transaction_id page_id))
     (andthen (modify (set_first_free page_id))
     (andthen (log_header transaction_id)
      (unpin_page page_id True)))))))"

section \<open>The free list as a stack\<close>

fun free_chain :: "(u32 \<Rightarrow> page) \<Rightarrow> u32 \<Rightarrow> u32 list \<Rightarrow> bool" where
  "free_chain v head [] = (head = NO_FREE_PAGE)"
| "free_chain v head (x # xs) = (head = x \<and> x \<noteq> NO_FREE_PAGE \<and> free_chain v (read_next_pointer (v x)) xs)"

definition free_list :: "'a hdr_scheme \<Rightarrow> u32 list \<Rightarrow> bool" where
  "free_list s l \<longleftrightarrow> free_chain (view s) (hd_first_free_page (db_hdr s)) l
     \<and> distinct l \<and> (\<forall>x \<in> set l. x < total_pages s \<and> x \<noteq> HEADER_PAGE_ID)"

lemma free_chain_cong: "(\<And>x. x \<in> set l \<Longrightarrow> v x = w x) \<Longrightarrow> free_chain v head l = free_chain w head l"
  by (induction l arbitrary: head) auto

lemma free_chain_unique: "free_chain v head l \<Longrightarrow> free_chain v head l' \<Longrightarrow> l = l'"
proof (induction l arbitrary: head l')
  case Nil
  then show ?case by (cases l') auto
next
  case (Cons x l)
  then show ?case by (cases l') auto
qed

lemma next_pointer_roundtrip [codec_simps]: "read_next_pointer (write_next_pointer nxt page) = nxt"
  by (simp add: read_next_pointer_def write_next_pointer_def overwrite_def)

lemma length_write_next_pointer [simp]:
  "length page = PAGE_SIZE \<Longrightarrow> length (write_next_pointer nxt page) = PAGE_SIZE"
  by (simp add: write_next_pointer_def PAGE_SIZE_def)

lemma set_first_free_fields [simp]:
  "pool_inv (set_first_free p s) = pool_inv s" "view (set_first_free p s) = view s"
  "pins (set_first_free p s) = pins s" "total_pages (set_first_free p s) = total_pages s"
  "page_table (set_first_free p s) = page_table s" "frames (set_first_free p s) = frames s"
  "io (set_first_free p s) = io s" "wal_file (set_first_free p s) = wal_file s"
  "active_pages (set_first_free p s) = active_pages s"
  "db_hdr (set_first_free p s) = (db_hdr s)\<lparr>hd_first_free_page := p\<rparr>"
  by (simp_all add: set_first_free_def)

text \<open>Logging a page without an I/O error.\<close>

definition log_page :: "u32 \<Rightarrow> u32 \<Rightarrow> page \<Rightarrow> 'a wal_scheme \<Rightarrow> 'a wal_scheme" where
  "log_page txn pid p s = s\<lparr>wal_file := wal_file s @ frame_bytes (Page_write txn pid p),
     active_pages := AList.update pid p (active_pages s)\<rparr>"

lemma log_page_fields [simp]:
  "pool_inv (log_page txn pid p s) = pool_inv s" "view (log_page txn pid p s) = view s"
  "pins (log_page txn pid p s) = pins s" "total_pages (log_page txn pid p s) = total_pages s"
  "page_table (log_page txn pid p s) = page_table s" "frames (log_page txn pid p s) = frames s"
  "io (log_page txn pid p s) = io s" "wal_file (log_page txn pid p s) = wal_file s @ frame_bytes (Page_write txn pid p)"
  "active_pages (log_page txn pid p s) = AList.update pid p (active_pages s)"
  "wal.more (log_page txn pid p s) = wal.more s"
  by (simp_all add: log_page_def)

lemma db_hdr_log_page [simp]: "db_hdr (log_page txn pid p s) = db_hdr s"
  by (simp add: log_page_def)

lemma wp_wal_write_calm:
  "io s = [] \<Longrightarrow> wp (wal_write txn pid p) Q E s = Q () (log_page txn pid p s)"
  using run_wal_writes [of s txn "[(pid, p)]"]
  by (simp add: wp_def andthen_def bind_def ret_def log_page_def split: prod.splits sum.splits)

lemma wp_log_header_calm:
  "io s = [] \<Longrightarrow> wp (log_header txn) Q E s = Q () (log_page txn HEADER_PAGE_ID (header_page (db_hdr s)) s)"
  by (simp add: log_header_def wp_eqs wp_wal_write_calm)

lemma hdr_kept:
  fixes s t :: "'a hdr_scheme"
  assumes "pool.more t = pool.more s"
  shows "db_hdr t = db_hdr s" "wal_file t = wal_file s" "active_pages t = active_pages s"
    "next_transaction_id t = next_transaction_id s" "wal_stable t = wal_stable s"
  using wal_fields_kept [OF assms] hdr_field_kept [of t s] by simp_all

subsection \<open>Allocation\<close>

text \<open>
  With a free page, its number is popped off the list, the page stays pinned for the
  caller, and the changed header is logged in the caller's transaction.
\<close>

definition popped :: "u32 \<Rightarrow> u32 list \<Rightarrow> u32 \<Rightarrow> 'a hdr_scheme \<Rightarrow> u32 \<times> nat \<Rightarrow> 'a hdr_scheme \<Rightarrow> bool" where
  "popped x xs txn s r t \<longleftrightarrow> fst r = x \<and> map_of (page_table t) x = Some (snd r)
     \<and> pool_inv t \<and> same_view s t \<and> pins t = (pins s)(x := pins s x + 1) \<and> free_list t xs
     \<and> db_hdr t = (db_hdr s)\<lparr>hd_first_free_page := read_next_pointer (view s x)\<rparr>
     \<and> active_pages t = AList.update HEADER_PAGE_ID (header_page (db_hdr t)) (active_pages s)
     \<and> wal_file t = wal_file s @ log_bytes [Page_write txn HEADER_PAGE_ID (header_page (db_hdr t))]
     \<and> io t = []"

lemma wp_allocate_popped:
  fixes s :: "'a hdr_scheme"
  assumes "pool_inv s" "io s = []" "victim s \<noteq> None" "free_list s (x # xs)"
  shows "wp (allocate_page txn) (popped x xs txn s) (\<lambda>_ _. False) s"
proof -
  have x: "hd_first_free_page (db_hdr s) = x" "x \<noteq> NO_FREE_PAGE" "x < total_pages s"
    "free_chain (view s) (read_next_pointer (view s x)) xs"
    using assms(4) by (simp_all add: free_list_def)
  have "wp (fetch_page x) (\<lambda>slot. wp (bind (read_frame slot) (\<lambda>p.
       andthen (modify (set_first_free (read_next_pointer p)))
       (andthen (log_header txn) (ret (x, slot))))) (popped x xs txn s) (\<lambda>_ _. False)) (\<lambda>_ _. False) s"
  proof (rule wp_mono [OF wp_fetch_page [OF assms(1)]], goal_cases)
    case (1 slot t)
    then have t: "cache_step s t" "map_of (page_table t) x = Some slot" "frames t ! slot = view s x"
      "pins t = (pins s)(x := pins s x + 1)" by (simp_all add: fetched_def)
    note ct = cache_stepD [OF t(1)]
    have "free_chain (view t) (read_next_pointer (view s x)) xs"
      using x(4) ct(7) assms(4) by (subst free_chain_cong [of xs "view t" "view s"]) (auto simp: free_list_def)
    then show ?case
      using t ct assms(2,4) hdr_kept [OF ct(3)]
      by (simp add: read_frame_def wp_eqs wp_log_header_calm popped_def same_view_def free_list_def)
  next
    case (2 e t)
    with assms x show ?case by (simp add: fetch_failed_def)
  qed
  with x show ?thesis by (simp add: allocate_page_def wp_eqs)
qed

lemma wp_allocate_new:
  fixes s :: "'a hdr_scheme"
  assumes "pool_inv s" "free_list s []" "total_pages s < INVALID_PAGE"
  shows "wp (allocate_page txn) (\<lambda>(pid, slot). page_created s pid slot)
    (\<lambda>e t. pool_inv t \<and> (\<forall>q < total_pages s. view t q = view s q) \<and> (io s \<noteq> [] \<or> victim s = None)) s"
proof -
  have "hd_first_free_page (db_hdr s) = NO_FREE_PAGE" using assms(2) by (simp add: free_list_def)
  then show ?thesis
    by (simp add: allocate_page_def wp_eqs) (rule wp_mono [OF wp_new_page [OF assms(1,3)]]; simp)
qed


subsection \<open>Release\<close>

definition pushed :: "u32 \<Rightarrow> u32 list \<Rightarrow> u32 \<Rightarrow> 'a hdr_scheme \<Rightarrow> 'a hdr_scheme \<Rightarrow> bool" where
  "pushed pid l txn s t \<longleftrightarrow> (let freed = write_next_pointer (hd_first_free_page (db_hdr s)) (view s pid) in
     pool_inv t \<and> total_pages t = total_pages s \<and> pins t = pins s \<and> free_list t (pid # l)
     \<and> (\<forall>q < total_pages s. view t q = (if q = pid then freed else view s q))
     \<and> db_hdr t = (db_hdr s)\<lparr>hd_first_free_page := pid\<rparr>
     \<and> active_pages t = AList.update HEADER_PAGE_ID (header_page (db_hdr t))
                          (AList.update pid freed (active_pages s))
     \<and> wal_file t = wal_file s @ log_bytes [Page_write txn pid freed,
                                             Page_write txn HEADER_PAGE_ID (header_page (db_hdr t))]
     \<and> io t = [])"

lemma free_list_push:
  assumes "free_list s l" "pid < total_pages s" "pid \<notin> set l" "pid \<noteq> HEADER_PAGE_ID"
    "total_pages t = total_pages s" "hd_first_free_page (db_hdr t) = pid"
    "\<forall>q < total_pages s. view t q =
       (if q = pid then write_next_pointer (hd_first_free_page (db_hdr s)) (view s pid) else view s q)"
  shows "free_list t (pid # l)"
proof -
  have "pid \<noteq> NO_FREE_PAGE"
    using total_pages_not_invalid [OF assms(2)] by (simp add: NO_FREE_PAGE_def INVALID_PAGE_def)
  moreover have "free_chain (view t) (hd_first_free_page (db_hdr s)) l"
    using assms by (subst free_chain_cong [of l "view t" "view s"]) (auto simp: free_list_def)
  moreover have "read_next_pointer (view t pid) = hd_first_free_page (db_hdr s)"
    using assms(2,7) by (simp add: next_pointer_roundtrip)
  ultimately show ?thesis
    using assms(1-6) by (auto simp: free_list_def)
qed

lemma wp_free_page:
  fixes s :: "'a hdr_scheme"
  assumes "pool_inv s" "io s = []" "victim s \<noteq> None" "free_list s l" "pid < total_pages s"
    "pid \<notin> set l" "pid \<noteq> HEADER_PAGE_ID"
  shows "wp (free_page txn pid) (\<lambda>_. pushed pid l txn s) (\<lambda>_ _. False) s"
proof -
  let ?head = "hd_first_free_page (db_hdr s)"
  let ?freed = "write_next_pointer ?head (view s pid)"
  show ?thesis
    unfolding free_page_def wp_bind
  proof (rule wp_mono [OF wp_fetch_page [OF assms(1)]], goal_cases)
    case (2 e t)
    with assms show ?case by (simp add: fetch_failed_def)
  next
    case (1 slot t)
    then have t: "cache_step s t" "map_of (page_table t) pid = Some slot" "frames t ! slot = view s pid"
      "pins t = (pins s)(pid := pins s pid + 1)" by (simp_all add: fetched_def)
    note ct = cache_stepD [OF t(1)] and ht = hdr_kept [OF ct(3)]
    have iot: "io t = []" using ct(5) assms(2) by simp
    have len: "length (view s pid) = PAGE_SIZE"
    proof (cases "map_of (page_table s) pid")
      case (Some i)
      then show ?thesis
        using table_slot(1) [OF pool_invD(3) [OF assms(1)] Some] pool_invD(2) [OF assms(1)]
        by (simp add: view_def frames_ok_def)
    next
      case None
      then show ?thesis using pool_invD(1) [OF assms(1)] assms(5) by (simp add: view_def)
    qed
    have w: "wp (write_frame slot ?freed)
      (\<lambda>_ u. page_written pid ?freed t u \<and> pins u = pins t \<and> page_table u = page_table t
         \<and> frames u = (frames t)[slot := ?freed]) (\<lambda>_ _. False) t"
      by (rule wp_write_frame) (use t ct len in simp_all)
    have slot: "slot < length (frames t)"
      using table_slot(1) [OF pool_invD(3) [OF ct(1)] t(2)] pool_invD(2) [OF ct(1)]
      by (simp add: frames_ok_def)
    show ?case
      unfolding wp_gets read_frame_def wp_andthen wp_bind t(3) ht(1)
    proof (rule wp_mono [OF w], goal_cases)
      case (1 _ u)
      then have u: "page_written pid ?freed t u" "pins u = pins t" "frames u = (frames t)[slot := ?freed]"
        by simp_all
      have hu: "db_hdr u = db_hdr s" "wal_file u = wal_file s" "active_pages u = active_pages s" "io u = []"
        using hdr_kept [of u t] u(1) ht iot by (simp_all add: page_written_def)
      let ?h = "(db_hdr s)\<lparr>hd_first_free_page := pid\<rparr>"
      let ?v = "log_page txn HEADER_PAGE_ID (header_page ?h) (set_first_free pid (log_page txn pid ?freed u))"
      have fu: "frames u ! slot = ?freed" using u(3) slot by simp
      have vu: "\<forall>q < total_pages s. view ?v q = (if q = pid then ?freed else view s q)"
        and iv: "pool_inv ?v" and tv: "total_pages ?v = total_pages s"
        using u(1) ct by (simp_all add: page_written_def)
      have last: "wp (unpin_page pid True) (\<lambda>_. pushed pid l txn s) (\<lambda>_ _. False) ?v"
      proof (rule wp_mono [OF wp_unpin_page [OF iv, of True pid]], simp, elim conjE)
        fix w
        assume w: "cache_step ?v w" "pins w = (pins ?v)(pid := pins ?v pid - 1)"
        note cw = cache_stepD [OF w(1)] and hw = hdr_kept [OF cache_stepD(3) [OF w(1)]]
        have vw: "\<forall>q < total_pages s. view w q = (if q = pid then ?freed else view s q)"
          using vu cw(7) tv by simp
        have dw: "db_hdr w = ?h" using hw(1) hu(1) by simp
        have "free_list w (pid # l)"
          by (rule free_list_push [OF assms(4-7)]) (use cw(6) tv vw dw in simp_all)
        moreover have "pins w = pins s" using w(2) u(2) t(4) by (simp add: fun_eq_iff)
        ultimately show "pushed pid l txn s w"
          using cw vw tv hw hu dw by (simp add: pushed_def Let_def)
      qed simp
      show ?case
        using last hu fu by (simp add: wp_eqs wp_wal_write_calm wp_log_header_calm)
    qed simp
  qed
qed


section \<open>The interface of a page stack\<close>

text \<open>
  What the B+ tree needs of its page supply: a released page is the next one handed out.
  \<open>ok s l\<close> says that \<open>l\<close> are the spare pages of \<open>s\<close>, the next one first.
\<close>

locale page_stack =
  fixes ok :: "'s \<Rightarrow> u32 list \<Rightarrow> bool"
    and usable :: "'s \<Rightarrow> u32 \<Rightarrow> bool"
    and release :: "u32 \<Rightarrow> ('s, unit) eff"
    and acquire :: "('s, u32) eff"
  assumes release_law: "ok s l \<Longrightarrow> usable s p \<Longrightarrow> p \<notin> set l \<Longrightarrow>
      wp (release p) (\<lambda>_ t. ok t (p # l) \<and> (\<forall>q. usable s q \<longrightarrow> usable t q)) (\<lambda>_ _. False) s"
    and acquire_law: "ok s (p # l) \<Longrightarrow> wp acquire (\<lambda>r t. r = p \<and> ok t l) (\<lambda>_ _. False) s"
begin

lemma release_list:
  assumes "ok s l" "\<forall>p \<in> set ps. usable s p" "distinct ps" "set ps \<inter> set l = {}"
  shows "wp (for_each release ps) (\<lambda>_ t. ok t (rev ps @ l)) (\<lambda>_ _. False) s"
  using assms
proof (induction ps arbitrary: s l)
  case Nil
  then show ?case by (simp add: wp_eqs)
next
  case (Cons p ps)
  show ?case
    unfolding for_each.simps wp_andthen
  proof (rule wp_mono [OF release_law [OF Cons.prems(1)]])
    fix t
    assume "ok t (p # l) \<and> (\<forall>q. usable s q \<longrightarrow> usable t q)"
    with Cons show "wp (for_each release ps) (\<lambda>_ t. ok t (rev (p # ps) @ l)) (\<lambda>_ _. False) t"
      using Cons.IH [of t "p # l"] by simp
  qed (use Cons.prems in auto)
qed

lemma acquire_list:
  "ok s (ps @ l) \<Longrightarrow> wp (repeat (length ps) acquire) (\<lambda>r t. r = ps \<and> ok t l) (\<lambda>_ _. False) s"
proof (induction ps arbitrary: s)
  case Nil
  then show ?case by (simp add: wp_eqs)
next
  case (Cons p ps)
  then have "ok s (p # ps @ l)" by simp
  show ?case
    unfolding list.size add_Suc_right add_0_right repeat.simps wp_bind
  proof (rule wp_mono [OF acquire_law [OF \<open>ok s (p # ps @ l)\<close>]], elim conjE)
    fix x t assume x: "x = p" "ok t (ps @ l)"
    show "wp (repeat (length ps) acquire)
      (\<lambda>xs. wp (ret (x # xs)) (\<lambda>r t. r = p # ps \<and> ok t l) (\<lambda>_ _. False)) (\<lambda>_ _. False) t"
      by (rule wp_mono [OF Cons.IH [OF x(2)]]) (simp_all add: wp_eqs x(1))
  qed
qed

text \<open>Pages that are released and handed out again come back last in, first out.\<close>

lemma last_in_first_out:
  assumes "ok s l" "\<forall>p \<in> set ps. usable s p" "distinct ps" "set ps \<inter> set l = {}"
  shows "wp (andthen (for_each release ps) (repeat (length ps) acquire))
    (\<lambda>r t. r = rev ps \<and> ok t l) (\<lambda>_ _. False) s"
  unfolding wp_andthen
  by (rule wp_mono [OF release_list [OF assms]]) (use acquire_list [of _ "rev ps"] in auto)

end

definition take_page :: "u32 \<Rightarrow> ('a hdr_scheme, u32) eff" where
  "take_page txn = bind (allocate_page txn) (\<lambda>(pid, slot). andthen (unpin_page pid True) (ret pid))"

definition stack_ok :: "'a hdr_scheme \<Rightarrow> u32 list \<Rightarrow> bool" where
  "stack_ok s l \<longleftrightarrow> pool_inv s \<and> pool_calm s \<and> free_list s l"

definition stack_usable :: "'a hdr_scheme \<Rightarrow> u32 \<Rightarrow> bool" where
  "stack_usable s pid \<longleftrightarrow> pid < total_pages s \<and> pid \<noteq> HEADER_PAGE_ID"

lemma wp_take_page:
  fixes s :: "'a hdr_scheme"
  assumes "stack_ok s (x # xs)"
  shows "wp (take_page txn) (\<lambda>r t. r = x \<and> stack_ok t xs) (\<lambda>_ _. False) s"
proof -
  have s: "pool_inv s" "io s = []" "\<forall>q. pins s q = 0" "free_list s (x # xs)"
    using assms by (simp_all add: stack_ok_def pool_calm_def)
  show ?thesis
    unfolding take_page_def wp_bind
  proof (rule wp_mono [OF wp_allocate_popped [OF s(1,2) calm_victim [OF s(1,3)] s(4)]], clarify)
    fix pid slot t
    assume p: "popped x xs txn s (pid, slot) t"
    then have t: "pid = x" "pool_inv t" "io t = []" "free_list t xs" "\<forall>q. pins t q = (if q = x then 1 else 0)"
      using s(3) by (auto simp: popped_def)
    show "wp (andthen (unpin_page pid True) (ret pid)) (\<lambda>r t. r = x \<and> stack_ok t xs) (\<lambda>_ _. False) t"
      unfolding wp_andthen wp_ret
    proof (rule wp_mono [OF wp_unpin_page [OF t(2), of True pid]], simp, elim conjE)
      fix u
      assume u: "cache_step t u" "pins u = (pins t)(pid := pins t pid - 1)"
      note cu = cache_stepD [OF u(1)] and hu = hdr_kept [OF cache_stepD(3) [OF u(1)]]
      have "free_chain (view u) (hd_first_free_page (db_hdr t)) xs"
        using t(4) cu(7) by (subst free_chain_cong [of xs "view u" "view t"]) (auto simp: free_list_def)
      then show "pid = x \<and> stack_ok u xs"
        using t u cu hu by (simp add: stack_ok_def pool_calm_def free_list_def)
    qed simp
  qed simp
qed

interpretation fl: page_stack stack_ok stack_usable "free_page txn" "take_page txn" for txn
proof unfold_locales
  fix s :: "'a hdr_scheme" and l p
  show "wp (take_page txn) (\<lambda>r t. r = p \<and> stack_ok t l) (\<lambda>_ _. False) s" if "stack_ok s (p # l)"
    by (rule wp_take_page [OF that])
  show "wp (free_page txn p) (\<lambda>_ t. stack_ok t (p # l) \<and> (\<forall>q. stack_usable s q \<longrightarrow> stack_usable t q)) (\<lambda>_ _. False) s"
    if "stack_ok s l" "stack_usable s p" "p \<notin> set l"
  proof -
    have s: "pool_inv s" "io s = []" "\<forall>q. pins s q = 0" "free_list s l"
      using that(1) by (simp_all add: stack_ok_def pool_calm_def)
    show ?thesis
      by (rule wp_mono [OF wp_free_page [OF s(1,2) calm_victim [OF s(1,3)] s(4)]])
        (use that s in \<open>auto simp: stack_usable_def stack_ok_def pushed_def pool_calm_def Let_def\<close>)
  qed
qed

section \<open>Properties\<close>

text \<open>
  Property C6. The free list is a stack kept in the pages themselves: releasing distinct pages
  that exist and are not free, and then allocating as many, hands the same pages out in
  reverse order and leaves the list as it was. No page is handed out twice or lost.
\<close>

theorem free_then_allocate:
  fixes s :: "'a hdr_scheme"
  assumes "stack_ok s l" "\<forall>p \<in> set ps. stack_usable s p" "distinct ps" "set ps \<inter> set l = {}"
  shows "wp (andthen (for_each (free_page txn) ps) (repeat (length ps) (take_page txn)))
    (\<lambda>r t. r = rev ps \<and> stack_ok t l) (\<lambda>_ _. False) s"
  by (rule fl.last_in_first_out [OF assms])

theorem free_then_allocate_witness:
  "wp (andthen (for_each (free_page 5) [1]) (repeat 1 (take_page 5))) (\<lambda>r t. r = [1]) (\<lambda>_ _. False) sample_hdr"
proof -
  have "stack_ok sample_hdr []"
    by (simp add: stack_ok_def free_list_def fresh_header_def)
  moreover have "\<forall>p \<in> set [1]. stack_usable sample_hdr p"
    by (simp add: stack_usable_def HEADER_PAGE_ID_def)
  ultimately show ?thesis
    using wp_mono [OF free_then_allocate [of sample_hdr "[]" "[1]" 5]] by (auto simp: numeral_eq_Suc)
qed

text \<open>
  Freeing a page writes the old head into its first four bytes, puts it at the
  head of the list, and logs both the page and the header page under the caller's
  transaction; no other page and no pin changes.
\<close>

lemma free_page_correct:
  fixes s :: "'a hdr_scheme"
  assumes "pool_inv s" "io s = []" "victim s \<noteq> None" "free_list s l" "pid < total_pages s"
    "pid \<notin> set l" "pid \<noteq> HEADER_PAGE_ID"
  shows "wp (free_page txn pid)
    (\<lambda>_ t. pool_inv t \<and> pins t = pins s \<and> free_list t (pid # l)
       \<and> (\<forall>q < total_pages s. view t q
            = (if q = pid then write_next_pointer (hd_first_free_page (db_hdr s)) (view s pid) else view s q))
       \<and> wal_file t = wal_file s @ log_bytes
           [Page_write txn pid (view t pid), Page_write txn HEADER_PAGE_ID (header_page (db_hdr t))])
    (\<lambda>_ _. False) s"
  by (rule wp_mono [OF wp_free_page [OF assms]]) (use assms(5) in \<open>auto simp: pushed_def Let_def\<close>)

lemma free_page_correct_example:
  "wp (free_page 5 1) (\<lambda>_ t. free_list t [1] \<and> pins t 1 = 0) (\<lambda>_ _. False) sample_hdr"
proof -
  have "victim sample_hdr \<noteq> None" by (rule calm_victim) simp_all
  moreover have "free_list sample_hdr []" by (simp add: free_list_def fresh_header_def)
  ultimately show ?thesis
    by (intro wp_mono [OF free_page_correct [of sample_hdr "[]" 1 5]]) (auto simp: HEADER_PAGE_ID_def)
qed

end
