(* ===== verification/Values.thy ===== *)
theory Values
  imports Prelude "HOL-Library.List_Lexorder" "HOL-Library.Product_Lexorder" "HOL-Library.Char_ord"
begin

text \<open>
  Column values and rows (\<open>src/row/row.h\<close>), and the comparison that \<open>std::variant\<close> and
  \<open>std::vector\<close> give to values and keys: the alternative's index first, then the
  alternative's own order; vectors lexicographically. A \<open>float\<close> is its 32 bits, compared
  as IEEE 754 does.
\<close>

section \<open>Values and rows\<close>

datatype db_value = Null | IntV u32 | FloatV u32 | BoolV bool | StringV string

definition is_null :: "db_value \<Rightarrow> bool" where
  "is_null v = (v = Null)"

text \<open>The accessors throw \<open>bad_variant_access\<close> on another alternative.\<close>

fun get_int :: "db_value \<Rightarrow> exn + u32" where
  "get_int (IntV i) = Inr i"
| "get_int _ = Inl (Runtime_error ''bad_variant_access'')"

fun get_float :: "db_value \<Rightarrow> exn + u32" where
  "get_float (FloatV f) = Inr f"
| "get_float _ = Inl (Runtime_error ''bad_variant_access'')"

fun get_bool :: "db_value \<Rightarrow> exn + bool" where
  "get_bool (BoolV b) = Inr b"
| "get_bool _ = Inl (Runtime_error ''bad_variant_access'')"

fun get_string :: "db_value \<Rightarrow> exn + string" where
  "get_string (StringV s) = Inr s"
| "get_string _ = Inl (Runtime_error ''bad_variant_access'')"

record db_row =
  row_values :: "db_value list"

definition row_get :: "db_row \<Rightarrow> nat \<Rightarrow> exn + db_value" where
  "row_get r col_idx = (if col_idx \<ge> length (row_values r)
     then Inl (Out_of_range ''Row::get: column index out of range'')
     else Inr (row_values r ! col_idx))"

definition row_size :: "db_row \<Rightarrow> nat" where
  "row_size r = length (row_values r)"

section \<open>IEEE comparison on bits\<close>

definition float_is_nan :: "u32 \<Rightarrow> bool" where
  "float_is_nan w = (0x7F800000 < w AND 0x7FFFFFFF)"

text \<open>The rank of a number that is not a NaN: sign and magnitude, so both zeros have rank 0.\<close>

definition float_rank :: "u32 \<Rightarrow> int" where
  "float_rank w = (if bit w 31 then - uint (w AND 0x7FFFFFFF) else uint (w AND 0x7FFFFFFF))"

definition float_lt :: "u32 \<Rightarrow> u32 \<Rightarrow> bool" where
  "float_lt a b = (\<not> float_is_nan a \<and> \<not> float_is_nan b \<and> float_rank a < float_rank b)"

definition float_eq :: "u32 \<Rightarrow> u32 \<Rightarrow> bool" where
  "float_eq a b = (\<not> float_is_nan a \<and> \<not> float_is_nan b \<and> float_rank a = float_rank b)"

section \<open>Comparison of values and keys\<close>

fun value_index :: "db_value \<Rightarrow> nat" where
  "value_index Null = 0"
| "value_index (IntV _) = 1"
| "value_index (FloatV _) = 2"
| "value_index (BoolV _) = 3"
| "value_index (StringV _) = 4"

text \<open>\<open>operator<\<close> and \<open>operator==\<close> of the variant.\<close>

fun value_lt :: "db_value \<Rightarrow> db_value \<Rightarrow> bool" where
  "value_lt (IntV a) (IntV b) = (sint a < sint b)"
| "value_lt (FloatV a) (FloatV b) = float_lt a b"
| "value_lt (BoolV a) (BoolV b) = (\<not> a \<and> b)"
| "value_lt (StringV a) (StringV b) = (a < b)"
| "value_lt a b = (value_index a < value_index b)"

fun value_eq :: "db_value \<Rightarrow> db_value \<Rightarrow> bool" where
  "value_eq (IntV a) (IntV b) = (a = b)"
| "value_eq (FloatV a) (FloatV b) = float_eq a b"
| "value_eq (BoolV a) (BoolV b) = (a = b)"
| "value_eq (StringV a) (StringV b) = (a = b)"
| "value_eq a b = (value_index a = value_index b)"

type_synonym key = "db_value list"

text \<open>\<open>std::lexicographical_compare\<close> and the vector's \<open>operator==\<close>.\<close>

fun key_lt :: "key \<Rightarrow> key \<Rightarrow> bool" where
  "key_lt [] [] = False"
| "key_lt [] (b # bs) = True"
| "key_lt (a # as) [] = False"
| "key_lt (a # as) (b # bs) =
     (if value_lt a b then True else if value_lt b a then False else key_lt as bs)"

fun key_eq :: "key \<Rightarrow> key \<Rightarrow> bool" where
  "key_eq [] [] = True"
| "key_eq (a # as) (b # bs) = (value_eq a b \<and> key_eq as bs)"
| "key_eq _ _ = False"

fun key_has_prefix :: "key \<Rightarrow> key \<Rightarrow> bool" where
  "key_has_prefix k [] = True"
| "key_has_prefix [] (p # ps) = False"
| "key_has_prefix (v # k) (p # ps) = (value_eq v p \<and> key_has_prefix k ps)"

section \<open>The comparison is a linear order up to rank\<close>

text \<open>
  On values without NaNs the comparison is that of a rank in a linearly ordered type, so
  keys inherit every law of a linear order; two keys of one rank are equal for the code.
\<close>

definition clean_value :: "db_value \<Rightarrow> bool" where
  "clean_value v = (case v of FloatV f \<Rightarrow> \<not> float_is_nan f | _ \<Rightarrow> True)"

definition clean_key :: "key \<Rightarrow> bool" where
  "clean_key k = list_all clean_value k"

type_synonym rank = "nat \<times> int \<times> string"

fun value_rank :: "db_value \<Rightarrow> rank" where
  "value_rank Null = (0, 0, [])"
| "value_rank (IntV i) = (1, sint i, [])"
| "value_rank (FloatV f) = (2, float_rank f, [])"
| "value_rank (BoolV b) = (3, of_bool b, [])"
| "value_rank (StringV s) = (4, 0, s)"

definition key_rank :: "key \<Rightarrow> rank list" where
  "key_rank k = map value_rank k"

lemma value_lt_rank:
  "clean_value a \<Longrightarrow> clean_value b \<Longrightarrow> value_lt a b = (value_rank a < value_rank b)"
  by (cases a; cases b) (auto simp: clean_value_def float_lt_def)

lemma value_eq_rank:
  "clean_value a \<Longrightarrow> clean_value b \<Longrightarrow> value_eq a b = (value_rank a = value_rank b)"
  by (cases a; cases b) (auto simp: clean_value_def float_eq_def intro: signed_word_eqI)

lemma clean_key_simps [simp]:
  "clean_key []" "clean_key (v # k) = (clean_value v \<and> clean_key k)"
  "clean_key (k @ k') = (clean_key k \<and> clean_key k')"
  by (simp_all add: clean_key_def)

lemma key_rank_simps [simp]:
  "key_rank [] = []" "key_rank (v # k) = value_rank v # key_rank k"
  "key_rank (k @ k') = key_rank k @ key_rank k'"
  by (simp_all add: key_rank_def)

lemma key_lt_rank:
  "clean_key a \<Longrightarrow> clean_key b \<Longrightarrow> key_lt a b = (key_rank a < key_rank b)"
  by (induction a b rule: key_lt.induct) (auto simp: value_lt_rank Cons_less_Cons)

lemma key_eq_rank:
  "clean_key a \<Longrightarrow> clean_key b \<Longrightarrow> key_eq a b = (key_rank a = key_rank b)"
  by (induction a b rule: key_eq.induct) (auto simp: value_eq_rank)

lemma key_has_prefix_rank:
  "clean_key k \<Longrightarrow> clean_key p \<Longrightarrow> key_has_prefix k p = (take (length p) (key_rank k) = key_rank p)"
  by (induction k p rule: key_has_prefix.induct) (auto simp: value_eq_rank)

lemma key_eq_prefix: "key_has_prefix k p = key_eq (take (length p) k) p"
proof (induction k p rule: key_has_prefix.induct)
  case (1 k)
  then show ?case by simp
qed auto

lemma between_prefix:
  fixes p b c :: "'a :: linorder list"
  assumes "p \<le> b" "b \<le> c" "take (length p) c = p"
  shows "take (length p) b = p"
  using assms
proof (induction p arbitrary: b c)
  case (Cons x p)
  then obtain y b' z c' where bc: "b = y # b'" "c = z # c'"
    by (cases b; cases c) auto
  with Cons.prems have "y = x" "p \<le> b'" "b' \<le> c'" "take (length p) c' = p"
    by (auto simp: Cons_le_Cons)
  with Cons.IH bc show ?case by simp
qed simp

section \<open>The interface of an ordered key type\<close>

text \<open>
  What the tree needs of its keys: \<open>lt\<close> is a strict order on the good keys, \<open>eq\<close> its
  incomparability, and a key cannot tell equal keys apart.
\<close>

locale key_order =
  fixes ok :: "'k \<Rightarrow> bool" and lt eq :: "'k \<Rightarrow> 'k \<Rightarrow> bool"
  assumes lt_trans: "ok a \<Longrightarrow> ok b \<Longrightarrow> ok c \<Longrightarrow> lt a b \<Longrightarrow> lt b c \<Longrightarrow> lt a c"
    and lt_iff: "ok a \<Longrightarrow> ok b \<Longrightarrow> lt a b \<longleftrightarrow> \<not> eq a b \<and> \<not> lt b a"
    and eq_cong: "ok a \<Longrightarrow> ok b \<Longrightarrow> ok c \<Longrightarrow> eq a b \<Longrightarrow> lt a c = lt b c \<and> lt c a = lt c b"
begin

lemma lt_irrefl: "ok a \<Longrightarrow> \<not> lt a a"
  using lt_iff [of a a] by blast

lemma eq_refl: "ok a \<Longrightarrow> eq a a"
  using lt_iff [of a a] by blast

lemma eq_sym: "ok a \<Longrightarrow> ok b \<Longrightarrow> eq a b \<Longrightarrow> eq b a"
  using lt_iff [of b a] lt_irrefl [of a] eq_cong [of a b a] by blast

lemma eq_trans: "ok a \<Longrightarrow> ok b \<Longrightarrow> ok c \<Longrightarrow> eq a b \<Longrightarrow> eq b c \<Longrightarrow> eq a c"
  using lt_iff [of a c] lt_iff [of b c] lt_iff [of c b] eq_cong [of a b c] eq_sym [of b c] by blast

lemma not_lt_trans: "ok a \<Longrightarrow> ok b \<Longrightarrow> ok c \<Longrightarrow> \<not> lt b a \<Longrightarrow> lt b c \<Longrightarrow> lt a c"
  using lt_iff [of b a] lt_iff [of a b] lt_trans [of a b c] eq_cong [of a b c] by blast

lemma lt_not_trans: "ok a \<Longrightarrow> ok b \<Longrightarrow> ok c \<Longrightarrow> lt a b \<Longrightarrow> \<not> lt c b \<Longrightarrow> lt a c"
  using lt_iff [of c b] lt_iff [of b c] lt_trans [of a b c] eq_cong [of b c a] by blast

text \<open>A key occurs at most once in a strictly sorted list.\<close>

lemma sorted_lookup_unique:
  assumes "sorted_wrt lt ks" "\<forall>k \<in> set ks. ok k" "ok k" "i < length ks" "j < length ks"
    "eq (ks ! i) k" "eq (ks ! j) k"
  shows "i = j"
proof (rule ccontr)
  have o: "ok (ks ! i)" "ok (ks ! j)" using assms by auto
  have e: "eq (ks ! i) (ks ! j)" "eq (ks ! j) (ks ! i)"
    using eq_trans eq_sym o assms by blast+
  assume "i \<noteq> j"
  then have "lt (ks ! i) (ks ! j) \<or> lt (ks ! j) (ks ! i)"
    using assms(1,4,5) by (metis linorder_neqE_nat sorted_wrt_nth_less)
  then show False using lt_iff o e by blast
qed

end

interpretation ko: key_order clean_key key_lt key_eq
  by unfold_locales (auto simp: key_lt_rank key_eq_rank)

interpretation vo: key_order clean_value value_lt value_eq
  by unfold_locales (auto simp: value_lt_rank value_eq_rank)

section \<open>Properties\<close>

text \<open>
  The comparison of keys without NaNs is a linear order: less is transitive,
  exactly one of less, equal and greater holds, equal keys compare alike with every other
  key, and the keys with a common prefix are contiguous: a key between the prefix and a key
  that has it has it too.
\<close>

lemma key_order_linear:
  assumes "clean_key a" "clean_key b" "clean_key c"
  shows "(key_lt a b \<longrightarrow> key_lt b c \<longrightarrow> key_lt a c)
    \<and> (key_lt a b \<longleftrightarrow> \<not> key_eq a b \<and> \<not> key_lt b a)
    \<and> (key_eq a b \<longrightarrow> key_lt a c = key_lt b c \<and> key_lt c a = key_lt c b)
    \<and> (\<not> key_lt b a \<longrightarrow> \<not> key_lt c b \<longrightarrow> key_has_prefix c a \<longrightarrow> key_has_prefix b a)"
proof -
  have "key_has_prefix b a" if "\<not> key_lt b a" "\<not> key_lt c b" "key_has_prefix c a"
    using that assms between_prefix [of "key_rank a" "key_rank b" "key_rank c"]
    by (simp add: key_lt_rank key_has_prefix_rank not_less) (simp add: key_rank_def)
  moreover have "key_lt a b \<Longrightarrow> key_lt b c \<Longrightarrow> key_lt a c" by (rule ko.lt_trans [OF assms])
  moreover have "key_lt a b \<longleftrightarrow> \<not> key_eq a b \<and> \<not> key_lt b a" by (rule ko.lt_iff [OF assms(1,2)])
  moreover have "key_eq a b \<Longrightarrow> key_lt a c = key_lt b c \<and> key_lt c a = key_lt c b"
    by (rule ko.eq_cong [OF assms])
  ultimately show ?thesis by blast
qed

lemma key_order_linear_example:
  "key_lt [IntV 1] [IntV 2, Null] \<and> \<not> key_eq [IntV 1] [IntV 2, Null] \<and> key_lt [IntV (-1)] [IntV 2, Null]"
  using key_order_linear [of "[IntV (-1)]" "[IntV 1]" "[IntV 2, Null]"]
  by (simp add: clean_value_def)

end
