(* ===== verification/Key_Codec.thy ===== *)
theory Key_Codec
  imports Values
begin

text \<open>
  \<open>KeyCodec\<close> of \<open>src/btree/key.cpp\<close>: keys as self-delimiting byte strings. Decoding takes
  the bytes from the pointer to the end of the buffer and returns the key with the rest;
  reading behind the end is undefined behaviour of the code.
\<close>

section \<open>Reading through a pointer\<close>

definition read_bytes :: "nat \<Rightarrow> byte list \<Rightarrow> exn + byte list \<times> byte list" where
  "read_bytes n ptr = (if length ptr < n then Inl (Undefined_behaviour ''read behind the buffer'')
     else Inr (take n ptr, drop n ptr))"

definition read_u8 :: "byte list \<Rightarrow> exn + byte \<times> byte list" where
  "read_u8 ptr = sbind (read_bytes 1 ptr) (\<lambda>(b, ptr). Inr (b ! 0, ptr))"

definition read_u16 :: "byte list \<Rightarrow> exn + u16 \<times> byte list" where
  "read_u16 ptr = sbind (read_bytes 2 ptr) (\<lambda>(b, ptr). Inr (bytes_u16 b, ptr))"

definition read_u32 :: "byte list \<Rightarrow> exn + u32 \<times> byte list" where
  "read_u32 ptr = sbind (read_bytes 4 ptr) (\<lambda>(b, ptr). Inr (bytes_u32 b, ptr))"

definition read_string :: "nat \<Rightarrow> byte list \<Rightarrow> exn + string \<times> byte list" where
  "read_string n ptr = sbind (read_bytes n ptr) (\<lambda>(b, ptr). Inr (map char_of_byte b, ptr))"

lemma read_bytes_append [codec_simps]: "length bs = n \<Longrightarrow> read_bytes n (bs @ rest) = Inr (bs, rest)"
  by (simp add: read_bytes_def)

lemma read_u8_Cons [codec_simps]: "read_u8 (b # rest) = Inr (b, rest)"
  by (simp add: read_u8_def read_bytes_def)

lemma read_u16_append [codec_simps]: "read_u16 (u16_bytes v @ rest) = Inr (v, rest)"
  by (simp add: read_u16_def read_bytes_append)

lemma read_u32_append [codec_simps]: "read_u32 (u32_bytes v @ rest) = Inr (v, rest)"
  by (simp add: read_u32_def read_bytes_append)

lemma read_string_append [codec_simps]:
  "length s = n \<Longrightarrow> read_string n (map byte_of s @ rest) = Inr (s, rest)"
  by (simp add: read_string_def read_bytes_append del: map_map)

lemma read_consumes:
  "read_bytes n ptr = Inr (b, rest) \<Longrightarrow> length ptr = n + length rest"
  by (auto simp: read_bytes_def split: if_splits)

section \<open>Codec\<close>

definition TAG_NUL :: byte where "TAG_NUL = 0"
definition TAG_INT :: byte where "TAG_INT = 1"
definition TAG_FLOAT :: byte where "TAG_FLOAT = 2"
definition TAG_BOOLEAN :: byte where "TAG_BOOLEAN = 3"
definition TAG_VARCHAR :: byte where "TAG_VARCHAR = 4"

lemmas tag_defs = TAG_NUL_def TAG_INT_def TAG_FLOAT_def TAG_BOOLEAN_def TAG_VARCHAR_def

fun encode_element :: "db_value \<Rightarrow> byte list" where
  "encode_element Null = [TAG_NUL]"
| "encode_element (IntV i) = TAG_INT # u32_bytes i"
| "encode_element (FloatV f) = TAG_FLOAT # u32_bytes f"
| "encode_element (BoolV b) = [TAG_BOOLEAN, if b then 1 else 0]"
| "encode_element (StringV s) = TAG_VARCHAR # u32_bytes (word_of_nat (length s)) @ map byte_of s"

definition key_encode :: "key \<Rightarrow> byte list" where
  "key_encode key = u16_bytes (word_of_nat (length key)) @ concat (map encode_element key)"

definition decode_element :: "byte list \<Rightarrow> exn + db_value \<times> byte list" where
  "decode_element ptr = sbind (read_u8 ptr) (\<lambda>(tag, ptr).
     if tag = TAG_NUL then Inr (Null, ptr)
     else if tag = TAG_INT then sbind (read_u32 ptr) (\<lambda>(raw, ptr). Inr (IntV raw, ptr))
     else if tag = TAG_FLOAT then sbind (read_u32 ptr) (\<lambda>(raw, ptr). Inr (FloatV raw, ptr))
     else if tag = TAG_BOOLEAN then sbind (read_u8 ptr) (\<lambda>(b, ptr). Inr (BoolV (b \<noteq> 0), ptr))
     else if tag = TAG_VARCHAR then sbind (read_u32 ptr) (\<lambda>(len, ptr).
       sbind (read_string (unat len) ptr) (\<lambda>(s, ptr). Inr (StringV s, ptr)))
     else Inl (Runtime_error ''KeyCodec::decode: corrupt type tag''))"

fun decode_elements :: "nat \<Rightarrow> byte list \<Rightarrow> exn + key \<times> byte list" where
  "decode_elements 0 ptr = Inr ([], ptr)"
| "decode_elements (Suc n) ptr = sbind (decode_element ptr) (\<lambda>(v, ptr).
     sbind (decode_elements n ptr) (\<lambda>(key, ptr). Inr (v # key, ptr)))"

definition key_decode :: "byte list \<Rightarrow> exn + key \<times> byte list" where
  "key_decode ptr = sbind (read_u16 ptr) (\<lambda>(num_elements, ptr). decode_elements (unat num_elements) ptr)"

section \<open>Round trip\<close>

text \<open>What the format can hold: 16 bits of element count, 32 bits of string length.\<close>

definition value_fits :: "db_value \<Rightarrow> bool" where
  "value_fits v = (case v of StringV s \<Rightarrow> length s < 2 ^ 32 | _ \<Rightarrow> True)"

definition key_fits :: "key \<Rightarrow> bool" where
  "key_fits k = (length k < 2 ^ 16 \<and> list_all value_fits k)"

lemma unat_of_length [simp]: "n < 2 ^ 32 \<Longrightarrow> unat (word_of_nat n :: u32) = n"
  "n < 2 ^ 16 \<Longrightarrow> unat (word_of_nat n :: u16) = n"
  by (simp_all add: unat_of_nat)

lemma decode_encode_element [codec_simps]:
  "value_fits v \<Longrightarrow> decode_element (encode_element v @ rest) = Inr (v, rest)"
  by (cases v) (simp_all add: decode_element_def codec_simps tag_defs value_fits_def)

lemma decode_encode_elements:
  "list_all value_fits k \<Longrightarrow> decode_elements (length k) (concat (map encode_element k) @ rest) = Inr (k, rest)"
  by (induction k) (simp_all add: codec_simps)

lemma key_decode_encode [codec_simps]:
  "key_fits k \<Longrightarrow> key_decode (key_encode k @ rest) = Inr (k, rest)"
  by (simp add: key_decode_def key_encode_def codec_simps key_fits_def decode_encode_elements)

text \<open>Decoding eats at least the two bytes of the count.\<close>

lemma decode_element_consumes:
  "decode_element ptr = Inr (v, rest) \<Longrightarrow> length rest < length ptr"
  by (auto simp: decode_element_def read_u8_def read_u32_def read_string_def sbind_Inr_conv
      dest!: read_consumes split: if_splits)

lemma decode_elements_consumes:
  "decode_elements n ptr = Inr (k, rest) \<Longrightarrow> length rest \<le> length ptr"
proof (induction n arbitrary: ptr k)
  case (Suc n)
  then obtain v p k' where "decode_element ptr = Inr (v, p)" "decode_elements n p = Inr (k', rest)"
    by (auto simp: sbind_Inr_conv)
  with Suc.IH show ?case by (meson decode_element_consumes le_less_trans less_imp_le)
qed auto

lemma key_decode_consumes:
  "key_decode ptr = Inr (k, rest) \<Longrightarrow> length rest + 2 \<le> length ptr"
  by (auto simp: key_decode_def read_u16_def sbind_Inr_conv dest!: read_consumes decode_elements_consumes)

lemma length_encode_element_pos: "0 < length (encode_element v)"
  by (cases v) simp_all

section \<open>Properties\<close>

text \<open>
  Keys round-trip: decoding the encoding of a key, whatever follows it in the
  page, gives the key back and leaves exactly what followed. The encoding is therefore
  self-delimiting and two keys with a common encoding are the same key.
\<close>

lemma key_codec_roundtrip:
  assumes "key_fits k"
  shows "key_decode (key_encode k @ rest) = Inr (k, rest)
    \<and> (\<forall>k'. key_fits k' \<longrightarrow> key_encode k = key_encode k' \<longrightarrow> k = k')"
proof -
  have "k = k'" if "key_fits k'" "key_encode k = key_encode k'" for k'
    using key_decode_encode [OF assms, of "[]"] key_decode_encode [OF that(1), of "[]"] that(2) by simp
  with assms show ?thesis by (simp add: key_decode_encode)
qed

lemma key_codec_roundtrip_example:
  "key_decode (key_encode [IntV 7, StringV ''ab'', Null, BoolV True] @ [9]) = Inr ([IntV 7, StringV ''ab'', Null, BoolV True], [9])"
  using key_codec_roundtrip [of "[IntV 7, StringV ''ab'', Null, BoolV True]" "[9]"]
  by (simp add: key_fits_def value_fits_def)

end
