(* ===== verification/Node.thy ===== *)
theory Node
  imports Key_Codec Disk
begin

text \<open>
  \<open>BTreeNode\<close> of \<open>src/btree/btree_node.cpp\<close>: the byte layout of a tree page. A node is
  the page's bytes; the 17 packed header bytes are read and written at their offsets, the
  cells fill the page from its end. A cell that would start before the page is undefined
  behaviour of the code; one that reaches into the header overwrites it, as in the code.
\<close>

section \<open>Header\<close>

definition INTERNAL :: byte where "INTERNAL = 1"
definition LEAF :: byte where "LEAF = 2"

definition NODE_HEADER_SIZE :: nat where "NODE_HEADER_SIZE = 17"

definition node_type :: "page \<Rightarrow> byte" where "node_type p = p ! 0"
definition set_type :: "byte \<Rightarrow> page \<Rightarrow> page" where "set_type t p = overwrite 0 [t] p"
definition is_leaf :: "page \<Rightarrow> bool" where "is_leaf p = (node_type p = LEAF)"
definition num_cells :: "page \<Rightarrow> u16" where "num_cells p = bytes_u16 (drop 1 p)"
definition free_space_ptr :: "page \<Rightarrow> u16" where "free_space_ptr p = bytes_u16 (drop 3 p)"
definition parent_page :: "page \<Rightarrow> u32" where "parent_page p = bytes_u32 (drop 5 p)"
definition set_parent_page :: "u32 \<Rightarrow> page \<Rightarrow> page" where "set_parent_page pid p = overwrite 5 (u32_bytes pid) p"
definition next_leaf :: "page \<Rightarrow> u32" where "next_leaf p = bytes_u32 (drop 9 p)"
definition set_next_leaf :: "u32 \<Rightarrow> page \<Rightarrow> page" where "set_next_leaf pid p = overwrite 9 (u32_bytes pid) p"
definition rightmost_child :: "page \<Rightarrow> u32" where "rightmost_child p = bytes_u32 (drop 13 p)"
definition set_rightmost_child :: "u32 \<Rightarrow> page \<Rightarrow> page" where
  "set_rightmost_child pid p = overwrite 13 (u32_bytes pid) p"

definition set_counts :: "nat \<Rightarrow> nat \<Rightarrow> page \<Rightarrow> page" where
  "set_counts cells write_ptr p =
     overwrite 3 (u16_bytes (word_of_nat write_ptr)) (overwrite 1 (u16_bytes (word_of_nat cells)) p)"

definition init_node :: "byte \<Rightarrow> page" where
  "init_node t = set_rightmost_child INVALID_PAGE (set_next_leaf INVALID_PAGE
     (set_parent_page INVALID_PAGE (set_counts 0 PAGE_SIZE (set_type t zero_page))))"

section \<open>Cells\<close>

record leaf_entry =
  le_key :: key
  le_value :: "byte list"

record internal_entry =
  ie_key :: key
  ie_child :: u32

text \<open>The loop \<open>while (ptr < end)\<close>: each cell eats at least its key's count.\<close>

function parse_leaf :: "byte list \<Rightarrow> exn + leaf_entry list" where
  "parse_leaf ptr = (if ptr = [] then Inr []
     else sbind (key_decode ptr) (\<lambda>(key, ptr).
       sbind (read_u32 ptr) (\<lambda>(value_size, ptr).
       sbind (read_bytes (unat value_size) ptr) (\<lambda>(value, ptr).
       sbind (parse_leaf ptr) (\<lambda>rest. Inr (\<lparr>le_key = key, le_value = value\<rparr> # rest))))))"
  by pat_completeness auto
termination
  by (relation "measure length")
    (auto simp: read_u32_def sbind_Inr_conv dest!: key_decode_consumes read_consumes)

function parse_internal :: "byte list \<Rightarrow> exn + internal_entry list" where
  "parse_internal ptr = (if ptr = [] then Inr []
     else sbind (key_decode ptr) (\<lambda>(key, ptr).
       sbind (read_u32 ptr) (\<lambda>(child, ptr).
       sbind (parse_internal ptr) (\<lambda>rest. Inr (\<lparr>ie_key = key, ie_child = child\<rparr> # rest)))))"
  by pat_completeness auto
termination
  by (relation "measure length")
    (auto simp: read_u32_def sbind_Inr_conv dest!: key_decode_consumes read_consumes)

declare parse_leaf.simps [simp del] parse_internal.simps [simp del]

definition cell_bytes :: "page \<Rightarrow> byte list" where
  "cell_bytes p = drop (unat (free_space_ptr p)) p"

definition get_leaf_entries :: "page \<Rightarrow> exn + leaf_entry list" where
  "get_leaf_entries p = parse_leaf (cell_bytes p)"

definition get_internal_entries :: "page \<Rightarrow> exn + internal_entry list" where
  "get_internal_entries p = parse_internal (cell_bytes p)"

definition leaf_cell :: "leaf_entry \<Rightarrow> byte list" where
  "leaf_cell e = key_encode (le_key e) @ u32_bytes (word_of_nat (length (le_value e))) @ le_value e"

definition internal_cell :: "internal_entry \<Rightarrow> byte list" where
  "internal_cell e = key_encode (ie_key e) @ u32_bytes (ie_child e)"

text \<open>The reverse loop of the setters: each cell goes right before the one written last.\<close>

fun write_cells :: "byte list list \<Rightarrow> nat \<Rightarrow> page \<Rightarrow> exn + nat \<times> page" where
  "write_cells [] write_ptr p = Inr (write_ptr, p)"
| "write_cells (c # cs) write_ptr p =
     (if write_ptr < length c then Inl (Undefined_behaviour ''cell written before the page'')
      else write_cells cs (write_ptr - length c) (overwrite (write_ptr - length c) c p))"

definition set_entries :: "byte list list \<Rightarrow> page \<Rightarrow> exn + page" where
  "set_entries cells p = sbind (write_cells (rev cells) PAGE_SIZE p) (\<lambda>(write_ptr, p).
     Inr (set_counts (length cells) write_ptr p))"

definition set_leaf_entries :: "leaf_entry list \<Rightarrow> page \<Rightarrow> exn + page" where
  "set_leaf_entries entries p = set_entries (map leaf_cell entries) p"

definition set_internal_entries :: "internal_entry list \<Rightarrow> page \<Rightarrow> exn + page" where
  "set_internal_entries entries p = set_entries (map internal_cell entries) p"

section \<open>Queries\<close>

definition find_in_leaf :: "key \<Rightarrow> page \<Rightarrow> exn + byte list option" where
  "find_in_leaf key p = sbind (get_leaf_entries p) (\<lambda>entries.
     Inr (map_option le_value (find (\<lambda>e. key_eq (le_key e) key) entries)))"

definition child_for_key :: "key \<Rightarrow> internal_entry list \<Rightarrow> u32 \<Rightarrow> u32" where
  "child_for_key key entries rightmost =
     (case find (\<lambda>e. key_lt key (ie_key e)) entries of Some e \<Rightarrow> ie_child e | None \<Rightarrow> rightmost)"

definition find_child_for_key :: "key \<Rightarrow> page \<Rightarrow> exn + u32" where
  "find_child_for_key key p = sbind (get_internal_entries p) (\<lambda>entries.
     Inr (child_for_key key entries (rightmost_child p)))"

text \<open>Unsigned 32-bit arithmetic, as the code has it: it wraps when the pointer is corrupt.\<close>

definition is_full :: "page \<Rightarrow> bool" where
  "is_full p = ((ucast (free_space_ptr p) - word_of_nat NODE_HEADER_SIZE :: u32) < 64)"

definition is_underfull :: "page \<Rightarrow> bool" where
  "is_underfull p = (word_of_nat PAGE_SIZE - ucast (free_space_ptr p)
     < (word_of_nat PAGE_SIZE - word_of_nat NODE_HEADER_SIZE :: u32) div 2)"

definition available_space :: "page \<Rightarrow> u32" where
  "available_space p = word_of_nat PAGE_SIZE - word_of_nat NODE_HEADER_SIZE
     - (word_of_nat PAGE_SIZE - ucast (free_space_ptr p))"

section \<open>Lemmas\<close>

lemma header_lengths [simp]:
  "length p = PAGE_SIZE \<Longrightarrow> length (set_type t p) = PAGE_SIZE"
  "length p = PAGE_SIZE \<Longrightarrow> length (set_parent_page pid p) = PAGE_SIZE"
  "length p = PAGE_SIZE \<Longrightarrow> length (set_next_leaf pid p) = PAGE_SIZE"
  "length p = PAGE_SIZE \<Longrightarrow> length (set_rightmost_child pid p) = PAGE_SIZE"
  "length p = PAGE_SIZE \<Longrightarrow> length (set_counts n w p) = PAGE_SIZE"
  "length (init_node t) = PAGE_SIZE"
  by (simp_all add: set_type_def set_parent_page_def set_next_leaf_def set_rightmost_child_def
      set_counts_def init_node_def PAGE_SIZE_def)

lemma bytes_of_chunk: "bytes_u16 (drop n p) = bytes_u16 (chunk n 2 p)" "bytes_u32 (drop n p) = bytes_u32 (chunk n 4 p)"
  by (simp_all add: chunk_def bytes_u16_take bytes_u32_take)

lemma nth_overwrite_0: "0 < off \<Longrightarrow> off + length bs \<le> length p \<Longrightarrow> overwrite off bs p ! 0 = p ! 0"
  by (cases p) (simp_all add: nth_overwrite)

lemma field_overwrite:
  "length p = PAGE_SIZE \<Longrightarrow> off + length bs \<le> PAGE_SIZE \<Longrightarrow> m + n \<le> off \<or> off + length bs \<le> m \<Longrightarrow>
   chunk m n (overwrite off bs p) = chunk m n p"
  using chunk_overwrite_before [of m n off p bs] chunk_overwrite_after [of off bs m p n] by auto

lemmas node_fields = node_type_def num_cells_def free_space_ptr_def parent_page_def next_leaf_def
  rightmost_child_def set_type_def set_parent_page_def set_next_leaf_def set_rightmost_child_def set_counts_def

text \<open>Every setter changes its own field and leaves the others.\<close>

lemma field_same:
  "length p = PAGE_SIZE \<Longrightarrow> off + 4 \<le> PAGE_SIZE \<Longrightarrow> bytes_u32 (drop off (overwrite off (u32_bytes v) p)) = v"
  "length p = PAGE_SIZE \<Longrightarrow> off + 2 \<le> PAGE_SIZE \<Longrightarrow> bytes_u16 (drop off (overwrite off (u16_bytes x) p)) = x"
  by (simp_all add: drop_overwrite)

lemma node_get_set [simp]:
  assumes "length p = PAGE_SIZE"
  shows "parent_page (set_parent_page v p) = v" "next_leaf (set_next_leaf v p) = v"
    "rightmost_child (set_rightmost_child v p) = v" "node_type (set_type t p) = t"
    "num_cells (set_counts n w p) = word_of_nat n" "free_space_ptr (set_counts n w p) = word_of_nat w"
  using assms
  by (simp_all add: node_fields field_same PAGE_SIZE_def bytes_of_chunk(1) [of 1] field_overwrite)
     (simp_all add: overwrite_def bytes_of_chunk [symmetric] field_same PAGE_SIZE_def)

lemma node_set_other [simp]:
  assumes "length p = PAGE_SIZE"
  shows "node_type (set_parent_page v p) = node_type p" "node_type (set_next_leaf v p) = node_type p"
    "node_type (set_rightmost_child v p) = node_type p" "node_type (set_counts n w p) = node_type p"
    "parent_page (set_next_leaf v p) = parent_page p" "parent_page (set_rightmost_child v p) = parent_page p"
    "parent_page (set_counts n w p) = parent_page p" "parent_page (set_type t p) = parent_page p"
    "next_leaf (set_parent_page v p) = next_leaf p" "next_leaf (set_rightmost_child v p) = next_leaf p"
    "next_leaf (set_counts n w p) = next_leaf p" "next_leaf (set_type t p) = next_leaf p"
    "rightmost_child (set_parent_page v p) = rightmost_child p" "rightmost_child (set_next_leaf v p) = rightmost_child p"
    "rightmost_child (set_counts n w p) = rightmost_child p" "rightmost_child (set_type t p) = rightmost_child p"
    "free_space_ptr (set_parent_page v p) = free_space_ptr p" "free_space_ptr (set_next_leaf v p) = free_space_ptr p"
    "free_space_ptr (set_rightmost_child v p) = free_space_ptr p" "free_space_ptr (set_type t p) = free_space_ptr p"
    "num_cells (set_parent_page v p) = num_cells p" "num_cells (set_next_leaf v p) = num_cells p"
    "num_cells (set_rightmost_child v p) = num_cells p" "num_cells (set_type t p) = num_cells p"
  using assms
  by (simp_all add: node_type_def set_parent_page_def set_next_leaf_def set_rightmost_child_def set_counts_def
      nth_overwrite_0 parent_page_def next_leaf_def rightmost_child_def free_space_ptr_def num_cells_def
      set_type_def bytes_of_chunk field_overwrite PAGE_SIZE_def)

lemma drop_overwrite_before:
  "off + length bs \<le> n \<Longrightarrow> off + length bs \<le> length p \<Longrightarrow> drop n (overwrite off bs p) = drop n p"
  by (simp add: overwrite_def)

text \<open>A page whose cells start behind the header: the setters of the header keep its cells.\<close>

definition node_ok :: "page \<Rightarrow> bool" where
  "node_ok p \<longleftrightarrow> length p = PAGE_SIZE \<and> NODE_HEADER_SIZE \<le> unat (free_space_ptr p) \<and> unat (free_space_ptr p) \<le> PAGE_SIZE"

lemma node_okD [simp]: "node_ok p \<Longrightarrow> length p = PAGE_SIZE"
  by (simp add: node_ok_def)

lemma node_ok_set [simp]:
  "node_ok p \<Longrightarrow> node_ok (set_parent_page v p)" "node_ok p \<Longrightarrow> node_ok (set_next_leaf v p)"
  "node_ok p \<Longrightarrow> node_ok (set_rightmost_child v p)"
  by (simp_all add: node_ok_def)

lemma cell_bytes_set [simp]:
  "node_ok p \<Longrightarrow> cell_bytes (set_parent_page v p) = cell_bytes p"
  "node_ok p \<Longrightarrow> cell_bytes (set_next_leaf v p) = cell_bytes p"
  "node_ok p \<Longrightarrow> cell_bytes (set_rightmost_child v p) = cell_bytes p"
  by (simp_all add: cell_bytes_def node_ok_def)
    (simp_all add: set_parent_page_def set_next_leaf_def set_rightmost_child_def drop_overwrite_before
      NODE_HEADER_SIZE_def PAGE_SIZE_def)

lemma entries_set [simp]:
  "node_ok p \<Longrightarrow> get_leaf_entries (set_parent_page v p) = get_leaf_entries p"
  "node_ok p \<Longrightarrow> get_leaf_entries (set_next_leaf v p) = get_leaf_entries p"
  "node_ok p \<Longrightarrow> get_internal_entries (set_parent_page v p) = get_internal_entries p"
  "node_ok p \<Longrightarrow> get_internal_entries (set_rightmost_child v p) = get_internal_entries p"
  by (simp_all add: get_leaf_entries_def get_internal_entries_def)

lemma init_node_fields [simp]:
  "node_type (init_node t) = t" "parent_page (init_node t) = INVALID_PAGE"
  "next_leaf (init_node t) = INVALID_PAGE" "rightmost_child (init_node t) = INVALID_PAGE"
  "num_cells (init_node t) = 0" "unat (free_space_ptr (init_node t)) = PAGE_SIZE"
  by (simp_all add: init_node_def) (simp add: PAGE_SIZE_def)

lemma init_node_ok [simp]:
  "node_ok (init_node t)" "get_leaf_entries (init_node t) = Inr []" "get_internal_entries (init_node t) = Inr []"
  by (simp_all add: node_ok_def get_leaf_entries_def get_internal_entries_def cell_bytes_def
      parse_leaf.simps parse_internal.simps NODE_HEADER_SIZE_def) (simp add: PAGE_SIZE_def)

subsection \<open>Writing and reading cells\<close>

lemma write_cells_concat:
  assumes "length (concat cs) \<le> w" "w \<le> length p"
  shows "write_cells (rev cs) w p = Inr (w - length (concat cs), overwrite (w - length (concat cs)) (concat cs) p)"
  using assms
proof (induction cs arbitrary: w p rule: rev_induct)
  case Nil
  then show ?case by (simp add: overwrite_def)
next
  case (snoc c cs)
  let ?w = "w - length c" and ?p = "overwrite (w - length c) c p"
  have "write_cells (rev cs) ?w ?p = Inr (?w - length (concat cs), overwrite (?w - length (concat cs)) (concat cs) ?p)"
    by (rule snoc.IH) (use snoc.prems in auto)
  moreover have "overwrite (?w - length (concat cs)) (concat cs) ?p
      = overwrite (w - length (concat (cs @ [c]))) (concat (cs @ [c])) p"
    using snoc.prems by (simp add: overwrite_def drop_append take_append min_def) (simp add: diff_diff_left add.commute)
  ultimately show ?case using snoc.prems by (simp add: add.commute)
qed

text \<open>What a node can hold: the cells fit between the header and the end of the page.\<close>

definition capacity :: nat where
  "capacity = PAGE_SIZE - NODE_HEADER_SIZE"

lemma set_entries_ok:
  assumes "length p = PAGE_SIZE" "length (concat cells) \<le> capacity"
  shows "\<exists>q. set_entries cells p = Inr q \<and> node_ok q \<and> cell_bytes q = concat cells
    \<and> node_type q = node_type p \<and> parent_page q = parent_page p \<and> next_leaf q = next_leaf p
    \<and> rightmost_child q = rightmost_child p
    \<and> unat (free_space_ptr q) = PAGE_SIZE - length (concat cells) \<and> num_cells q = word_of_nat (length cells)"
proof -
  let ?n = "length (concat cells)"
  let ?w = "PAGE_SIZE - ?n"
  let ?o = "overwrite ?w (concat cells) p"
  let ?q = "set_counts (length cells) ?w ?o"
  have n: "?n \<le> PAGE_SIZE" "17 \<le> ?w" using assms(2) by (simp_all add: capacity_def NODE_HEADER_SIZE_def PAGE_SIZE_def)
  have lo: "length ?o = PAGE_SIZE" using n assms(1) by simp
  have "set_entries cells p = Inr ?q"
    using write_cells_concat [of cells PAGE_SIZE p] n assms(1) by (simp add: set_entries_def)
  moreover have fsp: "unat (free_space_ptr ?q) = ?w"
    using lo by (simp add: PAGE_SIZE_def)
  moreover have "node_ok ?q" using lo fsp n by (simp add: node_ok_def NODE_HEADER_SIZE_def)
  moreover have "cell_bytes ?q = concat cells"
    using fsp n assms(1) lo
    by (simp add: cell_bytes_def set_counts_def drop_overwrite_before PAGE_SIZE_def) (simp add: overwrite_def)
  moreover have "node_type ?o = node_type p"
    unfolding node_type_def by (rule nth_overwrite_0) (use n assms(1) in linarith)+
  moreover have "parent_page ?o = parent_page p" "next_leaf ?o = next_leaf p" "rightmost_child ?o = rightmost_child p"
    using n assms(1) by (simp_all add: parent_page_def next_leaf_def rightmost_child_def bytes_of_chunk chunk_overwrite_before)
  ultimately show ?thesis using lo by auto
qed

definition leaf_entry_fits :: "leaf_entry \<Rightarrow> bool" where
  "leaf_entry_fits e \<longleftrightarrow> key_fits (le_key e) \<and> length (le_value e) < 2 ^ 32"

lemma parse_leaf_cell:
  assumes "leaf_entry_fits e"
  shows "parse_leaf (leaf_cell e @ rest) = sbind (parse_leaf rest) (\<lambda>es. Inr (e # es))"
proof -
  have "leaf_cell e \<noteq> []" by (simp add: leaf_cell_def key_encode_def u16_bytes_def)
  moreover have "key_decode (leaf_cell e @ rest)
    = Inr (le_key e, u32_bytes (word_of_nat (length (le_value e))) @ le_value e @ rest)"
    using assms by (simp add: leaf_cell_def codec_simps leaf_entry_fits_def)
  ultimately show ?thesis
    using assms by (cases e, subst parse_leaf.simps) (simp add: codec_simps leaf_entry_fits_def)
qed

lemma parse_internal_cell:
  assumes "key_fits (ie_key e)"
  shows "parse_internal (internal_cell e @ rest) = sbind (parse_internal rest) (\<lambda>es. Inr (e # es))"
proof -
  have "internal_cell e \<noteq> []" by (simp add: internal_cell_def key_encode_def u16_bytes_def)
  moreover have "key_decode (internal_cell e @ rest) = Inr (ie_key e, u32_bytes (ie_child e) @ rest)"
    using assms by (simp add: internal_cell_def codec_simps)
  ultimately show ?thesis
    by (cases e, subst parse_internal.simps) (simp add: codec_simps)
qed

lemma parse_leaf_cells [codec_simps]:
  "list_all leaf_entry_fits es \<Longrightarrow> parse_leaf (concat (map leaf_cell es)) = Inr es"
  by (induction es) (simp_all add: parse_leaf_cell parse_leaf.simps [of "[]"])

lemma parse_internal_cells [codec_simps]:
  "list_all (\<lambda>e. key_fits (ie_key e)) es \<Longrightarrow> parse_internal (concat (map internal_cell es)) = Inr es"
  by (induction es) (simp_all add: parse_internal_cell parse_internal.simps [of "[]"])

definition leaf_bytes :: "leaf_entry list \<Rightarrow> nat" where
  "leaf_bytes es = length (concat (map leaf_cell es))"

definition internal_bytes :: "internal_entry list \<Rightarrow> nat" where
  "internal_bytes es = length (concat (map internal_cell es))"

lemma set_leaf_entries_ok:
  assumes "length p = PAGE_SIZE" "leaf_bytes es \<le> capacity" "list_all leaf_entry_fits es"
  shows "\<exists>q. set_leaf_entries es p = Inr q \<and> node_ok q \<and> get_leaf_entries q = Inr es
    \<and> node_type q = node_type p \<and> parent_page q = parent_page p \<and> next_leaf q = next_leaf p
    \<and> rightmost_child q = rightmost_child p \<and> unat (free_space_ptr q) = PAGE_SIZE - leaf_bytes es"
  using set_entries_ok [OF assms(1), of "map leaf_cell es"] assms(2,3)
  by (auto simp: set_leaf_entries_def get_leaf_entries_def leaf_bytes_def parse_leaf_cells)

lemma set_internal_entries_ok:
  assumes "length p = PAGE_SIZE" "internal_bytes es \<le> capacity" "list_all (\<lambda>e. key_fits (ie_key e)) es"
  shows "\<exists>q. set_internal_entries es p = Inr q \<and> node_ok q \<and> get_internal_entries q = Inr es
    \<and> node_type q = node_type p \<and> parent_page q = parent_page p \<and> next_leaf q = next_leaf p
    \<and> rightmost_child q = rightmost_child p \<and> unat (free_space_ptr q) = PAGE_SIZE - internal_bytes es"
  using set_entries_ok [OF assms(1), of "map internal_cell es"] assms(2,3)
  by (auto simp: set_internal_entries_def get_internal_entries_def internal_bytes_def parse_internal_cells)

subsection \<open>Space\<close>

lemma fsp_word:
  assumes "node_ok p"
  shows "unat (ucast (free_space_ptr p) :: u32) = unat (free_space_ptr p)"
proof -
  have "unat (free_space_ptr p) < 2 ^ 32"
    using unsigned_less [of "free_space_ptr p", where ?'a = nat] by simp
  then show ?thesis by (simp add: unsigned_ucast_eq take_bit_nat_eq_self)
qed

lemma unat_page_words [simp]:
  "unat (word_of_nat PAGE_SIZE :: u32) = 4096" "unat (word_of_nat NODE_HEADER_SIZE :: u32) = 17"
  by (simp_all add: PAGE_SIZE_def NODE_HEADER_SIZE_def)

lemma available_space_ok:
  assumes "node_ok p"
  shows "unat (available_space p) = unat (free_space_ptr p) - NODE_HEADER_SIZE"
proof -
  let ?f = "ucast (free_space_ptr p) :: u32"
  have f: "unat ?f \<le> 4096" "17 \<le> unat ?f" and u: "unat ?f = unat (free_space_ptr p)"
    using assms fsp_word [OF assms] by (simp_all add: node_ok_def PAGE_SIZE_def NODE_HEADER_SIZE_def)
  have "available_space p = ?f - word_of_nat NODE_HEADER_SIZE"
    by (simp add: available_space_def)
  moreover have "unat (?f - word_of_nat NODE_HEADER_SIZE) = unat ?f - 17"
    using f by (subst unat_sub) (simp_all add: word_le_nat_alt)
  ultimately show ?thesis using u by (simp add: NODE_HEADER_SIZE_def)
qed

lemma is_underfull_ok:
  assumes "node_ok p"
  shows "is_underfull p \<longleftrightarrow> PAGE_SIZE - unat (free_space_ptr p) < capacity div 2"
proof -
  let ?f = "ucast (free_space_ptr p) :: u32"
  have f: "unat ?f \<le> 4096" and u: "unat ?f = unat (free_space_ptr p)"
    using assms fsp_word [OF assms] by (simp_all add: node_ok_def PAGE_SIZE_def)
  have "unat (word_of_nat PAGE_SIZE - ?f) = 4096 - unat ?f"
    using f by (subst unat_sub) (simp_all add: word_le_nat_alt)
  moreover have "unat ((word_of_nat PAGE_SIZE - word_of_nat NODE_HEADER_SIZE :: u32) div 2) = 2039"
    by (simp add: PAGE_SIZE_def NODE_HEADER_SIZE_def)
  ultimately show ?thesis
    by (simp add: is_underfull_def word_less_nat_alt u capacity_def PAGE_SIZE_def NODE_HEADER_SIZE_def)
qed

lemma find_nth: "find P xs = Some x \<Longrightarrow> \<exists>i < length xs. x = xs ! i \<and> P (xs ! i) \<and> (\<forall>j < i. \<not> P (xs ! j))"
  by (simp add: find_Some_iff) blast

section \<open>Properties\<close>

text \<open>
  A node stores what it is given: if the cells of the entries fit between the
  header and the end of the page, writing them and reading them back gives the same entries
  in the same order, and the node's type, parent, next leaf and rightmost child are kept.
\<close>

lemma leaf_entries_roundtrip:
  assumes "length p = PAGE_SIZE" "leaf_bytes es \<le> capacity" "list_all leaf_entry_fits es"
  shows "\<exists>q. set_leaf_entries es p = Inr q \<and> get_leaf_entries q = Inr es \<and> length q = PAGE_SIZE
    \<and> node_type q = node_type p \<and> parent_page q = parent_page p \<and> next_leaf q = next_leaf p
    \<and> rightmost_child q = rightmost_child p
    \<and> unat (available_space q) = capacity - leaf_bytes es"
proof -
  obtain q where q: "set_leaf_entries es p = Inr q" "node_ok q" "get_leaf_entries q = Inr es"
    "node_type q = node_type p" "parent_page q = parent_page p" "next_leaf q = next_leaf p"
    "rightmost_child q = rightmost_child p" "unat (free_space_ptr q) = PAGE_SIZE - leaf_bytes es"
    using set_leaf_entries_ok [OF assms] by blast
  then show ?thesis using available_space_ok [OF q(2)] by (auto simp: capacity_def)
qed

lemma leaf_entries_roundtrip_example:
  "\<exists>q. set_leaf_entries [\<lparr>le_key = [IntV 1], le_value = [9, 8]\<rparr>, \<lparr>le_key = [IntV 2], le_value = []\<rparr>] (init_node LEAF) = Inr q
     \<and> get_leaf_entries q = Inr [\<lparr>le_key = [IntV 1], le_value = [9, 8]\<rparr>, \<lparr>le_key = [IntV 2], le_value = []\<rparr>]"
proof -
  let ?es = "[\<lparr>le_key = [IntV 1], le_value = [9, 8]\<rparr>, \<lparr>le_key = [IntV 2], le_value = []\<rparr>]"
  have "leaf_bytes ?es \<le> capacity"
    by (simp add: leaf_bytes_def leaf_cell_def key_encode_def capacity_def PAGE_SIZE_def NODE_HEADER_SIZE_def)
  moreover have "list_all leaf_entry_fits ?es"
    by (simp add: leaf_entry_fits_def key_fits_def value_fits_def)
  ultimately show ?thesis using leaf_entries_roundtrip [of "init_node LEAF" ?es] by auto
qed

text \<open>
  Descent: in an internal node with ascending keys, the child chosen for a key
  lies between the separators that bound it: every separator left of the chosen child is at
  most the key and the separator right of it is greater.
\<close>

lemma child_for_key_bounds:
  assumes "sorted_wrt (\<lambda>a b. key_lt (ie_key a) (ie_key b)) es" "clean_key k" "\<forall>e \<in> set es. clean_key (ie_key e)"
  shows "\<exists>i \<le> length es. child_for_key k es r = (map ie_child es @ [r]) ! i
    \<and> (\<forall>j < i. \<not> key_lt k (ie_key (es ! j))) \<and> (\<forall>j < length es. i \<le> j \<longrightarrow> key_lt k (ie_key (es ! j)))"
proof (cases "find (\<lambda>e. key_lt k (ie_key e)) es")
  case None
  then have "\<forall>j < length es. \<not> key_lt k (ie_key (es ! j))" by (simp add: find_None_iff)
  with None show ?thesis
    by (intro exI [of _ "length es"]) (simp add: child_for_key_def nth_append)
next
  case (Some e)
  then obtain i where i: "i < length es" "e = es ! i" "key_lt k (ie_key (es ! i))"
    "\<forall>j < i. \<not> key_lt k (ie_key (es ! j))"
    using find_nth by force
  have "key_lt k (ie_key (es ! j))" if "j < length es" "i \<le> j" for j
  proof (cases "j = i")
    case False
    with that have "key_lt (ie_key (es ! i)) (ie_key (es ! j))"
      using sorted_wrt_nth_less [OF assms(1), of i j] by simp
    with i(1,3) that assms(2,3) show ?thesis by (meson ko.lt_trans nth_mem)
  qed (use i in simp)
  with Some i show ?thesis
    by (intro exI [of _ i]) (simp add: child_for_key_def nth_append)
qed

lemma child_for_key_bounds_example:
  "child_for_key [IntV 5] [\<lparr>ie_key = [IntV 5], ie_child = 10\<rparr>, \<lparr>ie_key = [IntV 9], ie_child = 11\<rparr>] 12 = 11
   \<and> (\<exists>i \<le> 2. child_for_key [IntV 5] [\<lparr>ie_key = [IntV 5], ie_child = 10\<rparr>, \<lparr>ie_key = [IntV 9], ie_child = 11\<rparr>] 12
        = ([10, 11, 12] :: u32 list) ! i)"
proof -
  let ?es = "[\<lparr>ie_key = [IntV 5], ie_child = 10\<rparr>, \<lparr>ie_key = [IntV 9], ie_child = 11\<rparr>]"
  have "child_for_key [IntV 5] ?es 12 = 11" by (simp add: child_for_key_def)
  moreover have "\<exists>i \<le> length ?es. child_for_key [IntV 5] ?es 12 = (map ie_child ?es @ [12]) ! i"
    using child_for_key_bounds [of ?es "[IntV 5]" 12] by (fastforce simp: clean_value_def)
  ultimately show ?thesis by (simp add: numeral_2_eq_2)
qed

text \<open>
  Property C15. Merging leaves is safe: two underfull leaves always fit into one page, so the
  merge that follows a failed redistribution writes no cell into the header.
\<close>

theorem leaf_merge_fits:
  assumes "node_ok p" "node_ok q" "is_underfull p" "is_underfull q"
    "unat (free_space_ptr p) = PAGE_SIZE - leaf_bytes es" "leaf_bytes es \<le> PAGE_SIZE"
    "unat (free_space_ptr q) = PAGE_SIZE - leaf_bytes fs" "leaf_bytes fs \<le> PAGE_SIZE"
    "list_all leaf_entry_fits (es @ fs)"
  shows "\<exists>r. set_leaf_entries (es @ fs) p = Inr r \<and> node_ok r \<and> get_leaf_entries r = Inr (es @ fs)"
proof -
  have "leaf_bytes es < capacity div 2" "leaf_bytes fs < capacity div 2"
    using assms is_underfull_ok by auto
  then have "leaf_bytes (es @ fs) \<le> capacity" by (simp add: leaf_bytes_def)
  with set_leaf_entries_ok [of p "es @ fs"] assms(1,9) show ?thesis by auto
qed

theorem leaf_merge_fits_witness:
  "\<exists>p q r. set_leaf_entries [\<lparr>le_key = [IntV 1], le_value = [7]\<rparr>] (init_node LEAF) = Inr p
     \<and> set_leaf_entries [\<lparr>le_key = [IntV 2], le_value = [8, 9]\<rparr>] (init_node LEAF) = Inr q \<and> is_underfull p \<and> is_underfull q
     \<and> set_leaf_entries [\<lparr>le_key = [IntV 1], le_value = [7]\<rparr>, \<lparr>le_key = [IntV 2], le_value = [8, 9]\<rparr>] p = Inr r \<and> node_ok r
     \<and> get_leaf_entries r = Inr [\<lparr>le_key = [IntV 1], le_value = [7]\<rparr>, \<lparr>le_key = [IntV 2], le_value = [8, 9]\<rparr>]"
proof -
  let ?es = "[\<lparr>le_key = [IntV 1], le_value = [7]\<rparr>]" and ?fs = "[\<lparr>le_key = [IntV 2], le_value = [8, 9]\<rparr>]"
  have c: "length (init_node LEAF) = PAGE_SIZE" "capacity = 4079" "PAGE_SIZE = 4096" by (simp_all add: capacity_def PAGE_SIZE_def NODE_HEADER_SIZE_def)
  have b: "leaf_bytes ?es \<le> 100" "leaf_bytes ?fs \<le> 100" "list_all leaf_entry_fits (?es @ ?fs)"
    by (simp_all add: leaf_bytes_def leaf_cell_def key_encode_def leaf_entry_fits_def key_fits_def value_fits_def)
  obtain p where p: "set_leaf_entries ?es (init_node LEAF) = Inr p" "node_ok p" "unat (free_space_ptr p) = PAGE_SIZE - leaf_bytes ?es"
    using set_leaf_entries_ok [OF c(1), of ?es] b c by auto
  obtain q where q: "set_leaf_entries ?fs (init_node LEAF) = Inr q" "node_ok q" "unat (free_space_ptr q) = PAGE_SIZE - leaf_bytes ?fs"
    using set_leaf_entries_ok [OF c(1), of ?fs] b c by auto
  have u: "is_underfull p" "is_underfull q"
    using is_underfull_ok [OF p(2)] is_underfull_ok [OF q(2)] p(3) q(3) b c by simp_all
  show ?thesis
    using leaf_merge_fits [OF p(2) q(2) u p(3) _ q(3) _ b(3)] p(1) q(1) u b(1,2) c by auto
qed

text \<open>
  Property C16. Merging internal nodes is not safe, and with plain INT keys at that: two nodes of
  185 separators are underfull, and with the separator that comes down from the parent they have 2 bytes
  more than a page holds. The setter runs into the node's header; setting the rightmost
  child then overwrites the start of the first cell, and the node reads back as another one.
\<close>

theorem int_merge_destroys_node:
  assumes "list_all (\<lambda>e. \<exists>i. ie_key e = [IntV i]) (es @ sep # fs)" "length es = 185" "length fs = 185"
    "length p = PAGE_SIZE" "unat r < 2 ^ 16"
  shows "\<exists>pe pf q. set_internal_entries es (init_node INTERNAL) = Inr pe \<and> is_underfull pe
    \<and> set_internal_entries fs (init_node INTERNAL) = Inr pf \<and> is_underfull pf
    \<and> set_internal_entries (es @ sep # fs) p = Inr q \<and> get_internal_entries (set_rightmost_child r q) \<noteq> Inr (es @ sep # fs)"
proof -
  let ?all = "es @ sep # fs"
  have cell: "length (internal_cell e) = 11" if "\<exists>i. ie_key e = [IntV i]" for e
    using that by (auto simp: internal_cell_def key_encode_def)
  have size: "internal_bytes xs = 11 * length xs" if "list_all (\<lambda>e. \<exists>i. ie_key e = [IntV i]) xs" for xs
    using that by (induction xs) (simp_all add: internal_bytes_def cell)
  have half: "\<exists>q. set_internal_entries xs (init_node INTERNAL) = Inr q \<and> is_underfull q"
    if a: "list_all (\<lambda>e. \<exists>i. ie_key e = [IntV i]) xs" and b: "length xs = 185" for xs
  proof -
    have "list_all (\<lambda>e. key_fits (ie_key e)) xs" using a by (auto simp: list_all_iff key_fits_def value_fits_def)
    then obtain q where "set_internal_entries xs (init_node INTERNAL) = Inr q" "node_ok q" "unat (free_space_ptr q) = PAGE_SIZE - internal_bytes xs"
      using set_internal_entries_ok [of "init_node INTERNAL" xs] size [OF a] b
      by (auto simp: capacity_def PAGE_SIZE_def NODE_HEADER_SIZE_def)
    then show ?thesis using size [OF a] b by (auto simp: is_underfull_ok capacity_def PAGE_SIZE_def NODE_HEADER_SIZE_def)
  qed
  let ?cs = "concat (map internal_cell ?all)"
  have n: "length ?cs = 4081" using size [OF assms(1)] assms(2,3) by (simp add: internal_bytes_def)
  let ?q = "set_counts 371 15 (overwrite 15 ?cs p)"
  have q: "set_internal_entries ?all p = Inr ?q"
    using write_cells_concat [of "map internal_cell ?all" PAGE_SIZE p] n assms(2-4)
    by (simp add: set_internal_entries_def set_entries_def PAGE_SIZE_def del: map_append)
  obtain f cs where first: "?all = f # cs" "ie_key f \<noteq> []" using assms(1,2) by (cases es) auto
  have "unat (drop_bit 16 r) = 0" "unat (drop_bit 24 r) = 0" 
    unfolding unat_drop_bit_eq drop_bit_eq_div [where 'a = nat] using assms(5) by simp_all
  then have "drop_bit 16 r = 0" "drop_bit 24 r = 0" by (simp_all only: unat_eq_0)
  then have hi: "drop 2 (u32_bytes r) = [0, 0]" by (simp add: u32_bytes_def)
  have lq: "length ?q = PAGE_SIZE" using n assms(4) by (simp add: PAGE_SIZE_def)
  have fsp: "unat (free_space_ptr (set_rightmost_child r ?q)) = 15" using n assms(4) by (simp add: PAGE_SIZE_def)
  have "drop 17 ?q = drop 17 (overwrite 15 ?cs p)" using n assms(4) by (simp add: set_counts_def drop_overwrite_before PAGE_SIZE_def)
  also have "\<dots> = drop 2 ?cs" using n assms(4) by (simp add: overwrite_def PAGE_SIZE_def)
  finally have "cell_bytes (set_rightmost_child r ?q) = [0, 0] @ drop 2 ?cs"
    unfolding cell_bytes_def fsp using lq hi by (simp add: set_rightmost_child_def overwrite_def PAGE_SIZE_def)
  then have "get_internal_entries (set_rightmost_child r ?q) = sbind (key_decode ([0, 0] @ drop 2 ?cs)) (\<lambda>(key, ptr).
       sbind (read_u32 ptr) (\<lambda>(child, ptr).
       sbind (parse_internal ptr) (\<lambda>rest. Inr (\<lparr>ie_key = key, ie_child = child\<rparr> # rest))))"
    unfolding get_internal_entries_def by (subst parse_internal.simps) simp
  moreover have "key_decode ([0, 0] @ drop 2 ?cs) = Inr ([], drop 2 ?cs)"
    by (simp add: key_decode_def read_u16_def read_bytes_def bytes_u16_def)
  ultimately have "get_internal_entries (set_rightmost_child r ?q) \<noteq> Inr ?all"
    using first by (auto simp: sbind_Inr_conv)
  then show ?thesis using half [of es] half [of fs] assms(1-3) q by auto
qed

theorem int_merge_destroys_node_witness:
  "\<exists>es pe q. length es = 185 \<and> set_internal_entries es (init_node INTERNAL) = Inr pe \<and> is_underfull pe
     \<and> set_internal_entries (es @ \<lparr>ie_key = [IntV 200], ie_child = 200\<rparr> # es) pe = Inr q
     \<and> get_internal_entries (set_rightmost_child 7 q) \<noteq> Inr (es @ \<lparr>ie_key = [IntV 200], ie_child = 200\<rparr> # es)"
proof -
  let ?es = "map (\<lambda>i. \<lparr>ie_key = [IntV (word_of_nat i)], ie_child = word_of_nat i\<rparr>) [0..<185]"
  have "list_all (\<lambda>e. key_fits (ie_key e)) ?es" by (auto simp: list_all_iff key_fits_def value_fits_def)
  moreover have "internal_bytes (map (\<lambda>i. \<lparr>ie_key = [IntV (word_of_nat i)], ie_child = word_of_nat i\<rparr>) xs) = 11 * length xs" for xs
    by (induction xs) (simp_all add: internal_bytes_def internal_cell_def key_encode_def)
  ultimately obtain pe where "set_internal_entries ?es (init_node INTERNAL) = Inr pe" "node_ok pe"
    using set_internal_entries_ok [of "init_node INTERNAL" ?es] by (auto simp: capacity_def PAGE_SIZE_def NODE_HEADER_SIZE_def)
  then show ?thesis
    using int_merge_destroys_node [of ?es "\<lparr>ie_key = [IntV 200], ie_child = 200\<rparr>" ?es pe 7]
    by (intro exI [of _ ?es]) (auto simp: list_all_iff node_okD)
qed

end
