(* ===== verification/Floats.thy ===== *)
theory Floats
  imports Values
begin

text \<open>
  The arithmetic on \<open>float\<close> and \<open>double\<close> that the parser and the executor use, on exact dyadic numbers with
  one rounding (to nearest, ties to even) per operation, and \<open>std::to_string\<close>. A finite
  \<open>double\<close> here is its value \<open>m * 2 ^ e\<close>: the sums of floats the code forms stay far from the
  ends of the exponent range of a double.
\<close>

section \<open>Reading and building floats\<close>

unbundle bit_operations_syntax

text \<open>
  The binary32 value nearest to \<open>n / d\<close>, ties to even. With \<open>e\<close> the binary exponent of the
  quotient, the significand is the quotient in units of \<open>2 ^ (max e (-126) - 23)\<close>, rounded; adding
  it to the exponent field lets a carry of the rounding reach the exponent.
\<close>

definition round_half_even :: "nat \<Rightarrow> nat \<Rightarrow> nat" where
  "round_half_even n d = (let q = n div d; r = n mod d in
     if d < 2 * r \<or> 2 * r = d \<and> odd q then q + 1 else q)"

definition scaled :: "nat \<Rightarrow> nat \<Rightarrow> int \<Rightarrow> nat \<times> nat" where
  "scaled n d e = (n * 2 ^ nat (- e), d * 2 ^ nat e)"

text \<open>The number of binary digits.\<close>

fun bit_length :: "nat \<Rightarrow> nat" where
  "bit_length n = (if n = 0 then 0 else Suc (bit_length (n div 2)))"

declare bit_length.simps [simp del]

definition ratio_exponent :: "nat \<Rightarrow> nat \<Rightarrow> int" where
  "ratio_exponent n d = (let e = int (bit_length n) - int (bit_length d); (a, b) = scaled n d e in
     if b \<le> a then e else e - 1)"

definition float_bits :: "nat \<Rightarrow> nat \<Rightarrow> nat" where
  "float_bits n d = (if n = 0 then 0 else
     let e = max (ratio_exponent n d) (- 126); (a, b) = scaled n d (e - 23)
     in nat (e + 126) * 2 ^ 23 + round_half_even a b)"

definition float_is_inf :: "u32 \<Rightarrow> bool" where
  "float_is_inf w = (w AND 0x7FFFFFFF = 0x7F800000)"

text \<open>The value of a finite float is \<open>m * 2 ^ e\<close>.\<close>

definition float_exact :: "u32 \<Rightarrow> int \<times> int" where
  "float_exact w = (let e = int (unat (drop_bit 23 w AND 0xFF)); f = int (unat (w AND 0x7FFFFF));
       m = (if e = 0 then f else f + 2 ^ 23)
     in (if bit w 31 then - m else m, if e = 0 then - 149 else e - 150))"

text \<open>The nearest float to \<open>n / d\<close>, infinity on overflow; a negative result keeps its sign.\<close>

definition nearest_float :: "int \<Rightarrow> nat \<Rightarrow> u32" where
  "nearest_float n d = (let w = word_of_nat (min 0x7F800000 (float_bits (nat \<bar>n\<bar>) d))
     in if n < 0 then w OR 0x80000000 else w)"

definition dyadic_float :: "int \<Rightarrow> int \<Rightarrow> u32" where
  "dyadic_float m e = nearest_float (m * 2 ^ nat e) (2 ^ nat (- e))"

definition quiet_nan :: u32 where "quiet_nan = 0x7FC00000"

section \<open>Conversions\<close>

text \<open>\<open>static_cast<float>\<close> of an \<open>int32_t\<close>.\<close>

definition int_to_float :: "u32 \<Rightarrow> u32" where
  "int_to_float i = nearest_float (sint i) 1"

text \<open>The integer a finite float is, if it is one: what \<open>std::round(f) == f\<close> asks.\<close>

definition float_integer :: "u32 \<Rightarrow> int option" where
  "float_integer w = (let (m, e) = float_exact w in
     if float_is_nan w \<or> float_is_inf w then None
     else if 0 \<le> e then Some (m * 2 ^ nat e)
     else if m mod 2 ^ nat (- e) = 0 then Some (m div 2 ^ nat (- e)) else None)"

section \<open>Sums and means\<close>

datatype double = Finite int int | Infinite bool | NaN

definition float_to_double :: "u32 \<Rightarrow> double" where
  "float_to_double w = (if float_is_nan w then NaN else if float_is_inf w then Infinite (bit w 31)
     else let (m, e) = float_exact w in Finite m e)"

text \<open>Rounding a dyadic number to 53 bits of significand.\<close>

definition round_double :: "int \<Rightarrow> int \<Rightarrow> double" where
  "round_double m e = (let k = bit_length (nat \<bar>m\<bar>) - 53; q = int (round_half_even (nat \<bar>m\<bar>) (2 ^ k))
     in Finite (if m < 0 then - q else q) (e + int k))"

fun double_add :: "double \<Rightarrow> double \<Rightarrow> double" where
  "double_add (Finite m e) (Finite m' e') =
     (let k = min e e' in round_double (m * 2 ^ nat (e - k) + m' * 2 ^ nat (e' - k)) k)"
| "double_add (Infinite s) (Infinite s') = (if s = s' then Infinite s else NaN)"
| "double_add (Infinite s) (Finite _ _) = Infinite s"
| "double_add (Finite _ _) (Infinite s) = Infinite s"
| "double_add _ _ = NaN"

text \<open>
  The quotient by a positive count, rounded to a double and then to a float. Sixty-four more
  bits than the divisor has are enough to see where a quotient of 53 bits lies; the last bit of
  an inexact quotient is made sticky.
\<close>

definition quotient_double :: "int \<Rightarrow> int \<Rightarrow> nat \<Rightarrow> double" where
  "quotient_double m e n = (let k = bit_length n + 64; a = nat \<bar>m\<bar> * 2 ^ k; q = 2 * (a div n) + of_bool (a mod n \<noteq> 0)
     in round_double (if m < 0 then - int q else int q) (e - int k - 1))"

fun double_div :: "double \<Rightarrow> nat \<Rightarrow> double" where
  "double_div (Finite m e) n = quotient_double m e n"
| "double_div d n = d"

fun double_to_float :: "double \<Rightarrow> u32" where
  "double_to_float (Finite m e) = dyadic_float m e"
| "double_to_float (Infinite s) = (if s then 0xFF800000 else 0x7F800000)"
| "double_to_float NaN = quiet_nan"

definition float_mean :: "u32 list \<Rightarrow> u32" where
  "float_mean nums = double_to_float (double_div (foldl (\<lambda>acc f. double_add acc (float_to_double f)) (Finite 0 0) nums) (length nums))"

text \<open>\<open>float + float\<close> and \<open>float / 2.0f\<close>.\<close>

definition float_add :: "u32 \<Rightarrow> u32 \<Rightarrow> u32" where
  "float_add a b = (if float_is_nan a \<or> float_is_nan b \<or> float_is_inf a \<or> float_is_inf b
     then double_to_float (double_add (float_to_double a) (float_to_double b))
     else let (m, e) = float_exact a; (m', e') = float_exact b; k = min e e'
       in if m = 0 \<and> m' = 0 \<and> bit a 31 \<and> bit b 31 then 0x80000000
          else dyadic_float (m * 2 ^ nat (e - k) + m' * 2 ^ nat (e' - k)) k)"

definition float_halve :: "u32 \<Rightarrow> u32" where
  "float_halve a = (if float_is_nan a \<or> float_is_inf a \<or> fst (float_exact a) = 0 then a
     else let (m, e) = float_exact a in dyadic_float m (e - 1))"

section \<open>Text\<close>

text \<open>\<open>std::to_string\<close> of an \<open>int32_t\<close> and of a \<open>float\<close>, which prints as \<open>%f\<close> does.\<close>

definition int_text :: "u32 \<Rightarrow> string" where
  "int_text i = (if sint i < 0 then CHR ''-'' # to_string (nat (- sint i)) else to_string (nat (sint i)))"

definition float_text :: "u32 \<Rightarrow> string" where
  "float_text w = (if bit w 31 then ''-'' else '''') @
     (if float_is_nan w then ''nan'' else if float_is_inf w then ''inf''
      else let (m, e) = float_exact w;
               n = round_half_even (nat \<bar>m\<bar> * 10 ^ 6 * 2 ^ nat e) (2 ^ nat (- e));
               ds = to_string (n mod 10 ^ 6)
        in to_string (n div 10 ^ 6) @ ''.'' @ replicate (6 - length ds) CHR ''0'' @ ds)"

fun value_to_string :: "db_value \<Rightarrow> string" where
  "value_to_string Null = ''NULL''"
| "value_to_string (IntV i) = int_text i"
| "value_to_string (FloatV f) = float_text f"
| "value_to_string (BoolV b) = (if b then ''true'' else ''false'')"
| "value_to_string (StringV s) = s"

text \<open>Lists of texts, as messages show them.\<close>

definition joined :: "string list \<Rightarrow> string" where
  "joined xs = (case xs of [] \<Rightarrow> [] | y # ys \<Rightarrow> y @ concat (map (\<lambda>z. '', '' @ z) ys))"

end
