(* ===== verification/BTree.thy ===== *)
theory BTree
  imports Free_List Node Floats
begin

text \<open>
  The B+ tree: class \<open>BTree\<close> of \<open>src/btree/btree.cpp\<close>. A tree object is a handle \<open>h\<close>;
  its member \<open>root_page_\<close> is \<open>roots s h\<close>, so that a change of the root survives an
  exception as in the code. Nodes are read and edited through the pool, and every edit is
  logged under the caller's transaction. The descents and the leaf chain are loops the code
  does not bound; they get as much fuel as the file has pages (plus one), which a walk
  that visits no page twice cannot use up. A path lists the nearest ancestor first.
\<close>

section \<open>State and idioms\<close>

record btrees = hdr +
  roots :: "nat \<Rightarrow> u32"

definition set_root :: "nat \<Rightarrow> u32 \<Rightarrow> ('a btrees_scheme, unit) eff" where
  "set_root h pid = modify (\<lambda>s. s\<lparr>roots := (roots s)(h := pid)\<rparr>)"

definition root_page :: "nat \<Rightarrow> ('a btrees_scheme, u32) eff" where
  "root_page h = gets (\<lambda>s. roots s h)"

definition walk_fuel :: "('a disk_scheme, nat) eff" where
  "walk_fuel = gets (\<lambda>s. Suc (unat (total_pages s)))"

text \<open>Fetch, inspect, unpin clean; a decoding error leaves the page pinned, as in the code.\<close>

definition read_node :: "u32 \<Rightarrow> (page \<Rightarrow> exn + 'b) \<Rightarrow> ('a pool_scheme, 'b) eff" where
  "read_node pid g = bind (fetch_page pid) (\<lambda>slot. bind (read_frame slot) (\<lambda>p.
     bind (lift (g p)) (\<lambda>x. andthen (unpin_page pid False) (ret x))))"

definition write_page_through_wal :: "u32 \<Rightarrow> u32 \<Rightarrow> nat \<Rightarrow> ('a wal_scheme, unit) eff" where
  "write_page_through_wal txn pid slot = bind (read_frame slot) (wal_write txn pid)"

text \<open>Fetch, change through the pointer, unpin dirty, log.\<close>

definition edit_node :: "u32 \<Rightarrow> u32 \<Rightarrow> (page \<Rightarrow> exn + page) \<Rightarrow> ('a wal_scheme, unit) eff" where
  "edit_node txn pid g = bind (fetch_page pid) (\<lambda>slot. bind (read_frame slot) (\<lambda>p.
     bind (lift (g p)) (\<lambda>p'. andthen (write_frame slot p') (andthen (unpin_page pid True)
       (write_page_through_wal txn pid slot)))))"

definition set_parent :: "u32 \<Rightarrow> u32 \<Rightarrow> u32 \<Rightarrow> ('a wal_scheme, unit) eff" where
  "set_parent txn child parent = edit_node txn child (\<lambda>p. Inr (set_parent_page parent p))"

text \<open>\<open>std::sort\<close>; the order of equal keys, which the standard leaves open, is that of the list.\<close>

fun insert_by :: "('b \<Rightarrow> 'b \<Rightarrow> bool) \<Rightarrow> 'b \<Rightarrow> 'b list \<Rightarrow> 'b list" where
  "insert_by lt x [] = [x]"
| "insert_by lt x (y # ys) = (if lt y x then y # insert_by lt x ys else x # y # ys)"

definition sort_by :: "('b \<Rightarrow> 'b \<Rightarrow> bool) \<Rightarrow> 'b list \<Rightarrow> 'b list" where
  "sort_by lt xs = foldr (insert_by lt) xs []"

definition leaf_entry_size :: "key \<Rightarrow> byte list \<Rightarrow> u32" where
  "leaf_entry_size key value = word_of_nat (length (key_encode key)) + 4 + word_of_nat (length value)"

definition internal_entry_size :: "key \<Rightarrow> u32" where
  "internal_entry_size key = word_of_nat (length (key_encode key)) + 4"

section \<open>Creation and search\<close>

definition create_empty_root :: "nat \<Rightarrow> ('a btrees_scheme, unit) eff" where
  "create_empty_root h = bind wal_begin (\<lambda>txn. bind (allocate_page txn) (\<lambda>(pid, slot).
     andthen (write_frame slot (init_node LEAF))
     (andthen (unpin_page pid True)
     (andthen (write_page_through_wal txn pid slot)
     (andthen (wal_commit txn)
      (set_root h pid))))))"

definition btree_open :: "nat \<Rightarrow> u32 \<Rightarrow> ('a btrees_scheme, unit) eff" where
  "btree_open h root = andthen (set_root h root) (whenever (root = INVALID_PAGE) (create_empty_root h))"

fun descend :: "nat \<Rightarrow> key \<Rightarrow> u32 \<Rightarrow> u32 list \<Rightarrow> ('a pool_scheme, u32 \<times> u32 list) eff" where
  "descend 0 key current path = throw Diverges"
| "descend (Suc n) key current path =
     bind (read_node current (\<lambda>p. if is_leaf p then Inr None
        else sbind (find_child_for_key key p) (\<lambda>c. Inr (Some c)))) (\<lambda>r.
     case r of None \<Rightarrow> ret (current, path) | Some child \<Rightarrow> descend n key child (current # path))"

definition find_leaf_page_with_path :: "nat \<Rightarrow> key \<Rightarrow> ('a btrees_scheme, u32 \<times> u32 list) eff" where
  "find_leaf_page_with_path h key = bind walk_fuel (\<lambda>n. bind (root_page h) (\<lambda>root. descend n key root []))"

definition find_leaf_page :: "nat \<Rightarrow> key \<Rightarrow> ('a btrees_scheme, u32) eff" where
  "find_leaf_page h key = bind (find_leaf_page_with_path h key) (\<lambda>(leaf, path). ret leaf)"

definition btree_search :: "nat \<Rightarrow> key \<Rightarrow> ('a btrees_scheme, byte list option) eff" where
  "btree_search h key = bind (find_leaf_page h key) (\<lambda>leaf. read_node leaf (find_in_leaf key))"

section \<open>Insertion\<close>

definition insert_into_leaf :: "u32 \<Rightarrow> u32 \<Rightarrow> key \<Rightarrow> byte list \<Rightarrow> ('a wal_scheme, unit) eff" where
  "insert_into_leaf txn leaf key value = edit_node txn leaf (\<lambda>p.
     sbind (get_leaf_entries p) (\<lambda>entries.
     set_leaf_entries (sort_by (\<lambda>a b. key_lt (le_key a) (le_key b))
       (entries @ [\<lparr>le_key = key, le_value = value\<rparr>])) p))"

text \<open>\<open>find_if\<close> and the fix-up of the child right of the new separator.\<close>

fun index_where :: "('b \<Rightarrow> bool) \<Rightarrow> 'b list \<Rightarrow> nat" where
  "index_where P [] = 0"
| "index_where P (x # xs) = (if P x then 0 else Suc (index_where P xs))"

definition add_separator :: "key \<Rightarrow> u32 \<Rightarrow> u32 \<Rightarrow> page \<Rightarrow> exn + page" where
  "add_separator split_key left right p =
     sbind (get_internal_entries p) (\<lambda>entries.
     let es = sort_by (\<lambda>a b. key_lt (ie_key a) (ie_key b)) (entries @ [\<lparr>ie_key = split_key, ie_child = left\<rparr>]);
         idx = index_where (\<lambda>e. key_eq (ie_key e) split_key) es
     in if idx + 1 < length es
        then set_internal_entries (es[idx + 1 := (es ! (idx + 1))\<lparr>ie_child := right\<rparr>]) p
        else set_internal_entries es (set_rightmost_child right p))"

definition new_root :: "nat \<Rightarrow> u32 \<Rightarrow> u32 \<Rightarrow> key \<Rightarrow> u32 \<Rightarrow> ('a btrees_scheme, unit) eff" where
  "new_root h txn left split_key right = bind (allocate_page txn) (\<lambda>(root, slot).
     bind (lift (set_internal_entries [\<lparr>ie_key = split_key, ie_child = left\<rparr>] (init_node INTERNAL))) (\<lambda>p.
     andthen (write_frame slot (set_rightmost_child right p))
     (andthen (unpin_page root True)
     (andthen (write_page_through_wal txn root slot)
     (andthen (set_parent txn left root)
     (andthen (set_parent txn right root)
      (set_root h root)))))))"

text \<open>
  Splitting an internal node and hanging the right half into the parent call each other up
  the tree; the fuel bounds the depth of the calls.
\<close>

fun split_internal :: "nat \<Rightarrow> nat \<Rightarrow> u32 \<Rightarrow> u32 \<Rightarrow> ('a btrees_scheme, unit) eff"
  and insert_into_parent :: "nat \<Rightarrow> nat \<Rightarrow> u32 \<Rightarrow> u32 \<Rightarrow> key \<Rightarrow> u32 \<Rightarrow> ('a btrees_scheme, unit) eff"
where
  "split_internal 0 h txn pid = throw Diverges"
| "split_internal (Suc n) h txn pid =
     bind (fetch_page pid) (\<lambda>left_slot. bind (read_frame left_slot) (\<lambda>p.
     bind (lift (get_internal_entries p)) (\<lambda>entries.
     let old_rightmost = rightmost_child p; old_parent = parent_page p; mid = length entries div 2 in
     if entries = [] then throw (Undefined_behaviour ''entries[mid] of an empty vector'')
     else let promoted = entries ! mid; left_entries = take mid entries; right_entries = drop (mid + 1) entries in
     bind (allocate_page txn) (\<lambda>(right, right_slot).
     bind (lift (set_internal_entries right_entries (init_node INTERNAL))) (\<lambda>rp.
     andthen (write_frame right_slot (set_parent_page old_parent (set_rightmost_child old_rightmost rp)))
     (bind (read_frame left_slot) (\<lambda>p. bind (lift (set_internal_entries left_entries p)) (\<lambda>lp.
     andthen (write_frame left_slot (set_rightmost_child (ie_child promoted) lp))
     (andthen (for_each (\<lambda>e. set_parent txn (ie_child e) right) right_entries)
     (andthen (set_parent txn old_rightmost right)
     (andthen (unpin_page pid True)
     (andthen (unpin_page right True)
     (andthen (write_page_through_wal txn pid left_slot)
     (andthen (write_page_through_wal txn right right_slot)
      (insert_into_parent n h txn pid (ie_key promoted) right)))))))))))))))"
| "insert_into_parent 0 h txn left split_key right = throw Diverges"
| "insert_into_parent (Suc n) h txn left split_key right =
     bind (read_node left (\<lambda>p. Inr (parent_page p))) (\<lambda>parent.
     if parent = INVALID_PAGE then new_root h txn left split_key right
     else bind (read_node parent (\<lambda>p. Inr (internal_entry_size split_key > available_space p))) (\<lambda>would_overflow.
     bind (if would_overflow then andthen (split_internal n h txn parent)
             (read_node left (\<lambda>p. Inr (parent_page p)))
           else ret parent) (\<lambda>parent.
     andthen (edit_node txn parent (add_separator split_key left right))
     (andthen (set_parent txn right parent)
     (bind (read_node parent (\<lambda>p. Inr (is_full p))) (\<lambda>parent_full.
      whenever parent_full (split_internal n h txn parent)))))))"

definition split_fuel :: "('a disk_scheme, nat) eff" where
  "split_fuel = gets (\<lambda>s. 2 * unat (total_pages s) + 4)"

definition split_leaf :: "nat \<Rightarrow> u32 \<Rightarrow> u32 \<Rightarrow> ('a btrees_scheme, unit) eff" where
  "split_leaf h txn leaf =
     bind (fetch_page leaf) (\<lambda>left_slot. bind (read_frame left_slot) (\<lambda>p.
     bind (lift (get_leaf_entries p)) (\<lambda>entries.
     let mid = length entries div 2; left_entries = take mid entries; right_entries = drop mid entries;
         old_next_leaf = next_leaf p; old_parent = parent_page p in
     bind (allocate_page txn) (\<lambda>(right, right_slot).
     bind (lift (set_leaf_entries right_entries (init_node LEAF))) (\<lambda>rp.
     andthen (write_frame right_slot (set_parent_page old_parent (set_next_leaf old_next_leaf rp)))
     (bind (read_frame left_slot) (\<lambda>p. bind (lift (set_leaf_entries left_entries p)) (\<lambda>lp.
     andthen (write_frame left_slot (set_next_leaf right lp))
     (if right_entries = [] then throw (Undefined_behaviour ''front() of an empty vector'')
      else
      andthen (unpin_page leaf True)
      (andthen (unpin_page right True)
      (andthen (write_page_through_wal txn leaf left_slot)
      (andthen (write_page_through_wal txn right right_slot)
      (bind split_fuel (\<lambda>n.
       insert_into_parent n h txn leaf (le_key (hd right_entries)) right))))))))))))))"

definition key_to_string :: "key \<Rightarrow> string" where
  "key_to_string key = ''('' @ joined (map value_to_string key) @ '')''"

definition btree_insert :: "nat \<Rightarrow> u32 \<Rightarrow> key \<Rightarrow> byte list \<Rightarrow> ('a btrees_scheme, unit) eff" where
  "btree_insert h txn key value = bind (find_leaf_page h key) (\<lambda>leaf.
     bind (read_node leaf (\<lambda>p. sbind (find_in_leaf key p) (\<lambda>existing.
        Inr (existing, leaf_entry_size key value > available_space p)))) (\<lambda>(existing, would_overflow).
     if existing \<noteq> None then throw (Runtime_error (''BTree::insert: duplicate key '' @ key_to_string key))
     else bind (if would_overflow then andthen (split_leaf h txn leaf) (find_leaf_page h key) else ret leaf)
       (\<lambda>leaf. insert_into_leaf txn leaf key value)))"

definition btree_insert_txn :: "nat \<Rightarrow> key \<Rightarrow> byte list \<Rightarrow> ('a btrees_scheme, unit) eff" where
  "btree_insert_txn h key value = bind wal_begin (\<lambda>txn.
     andthen (btree_insert h txn key value) (wal_commit txn))"

section \<open>Scans\<close>

text \<open>
  The leaf visited by a scan, the pairs it adds, and whether the scan is over: the bodies of
  the loops over \<open>entries\<close>, each with its \<open>continue\<close>, its \<open>break\<close> and its push.
\<close>

type_synonym pair = "key \<times> byte list"

fun range_entries :: "key \<Rightarrow> key \<Rightarrow> leaf_entry list \<Rightarrow> pair list \<times> bool" where
  "range_entries start stop [] = ([], False)"
| "range_entries start stop (e # es) =
     (if key_lt (le_key e) start then range_entries start stop es
      else if key_lt stop (le_key e) then ([], True)
      else let (r, done) = range_entries start stop es in ((le_key e, le_value e) # r, done))"

fun prefix_entries :: "key \<Rightarrow> leaf_entry list \<Rightarrow> pair list \<times> bool" where
  "prefix_entries pre [] = ([], False)"
| "prefix_entries pre (e # es) =
     (if key_lt (le_key e) pre then prefix_entries pre es
      else if \<not> key_has_prefix (le_key e) pre then ([], True)
      else let (r, done) = prefix_entries pre es in ((le_key e, le_value e) # r, done))"

text \<open>
  In a bounded scan the element behind the prefix is \<open>key[prefix.size()]\<close>; a key that is the
  bare prefix has none, and the code reads behind the vector.
\<close>

fun bounded_entries :: "key \<Rightarrow> db_value option \<Rightarrow> bool \<Rightarrow> db_value option \<Rightarrow> bool \<Rightarrow> leaf_entry list
    \<Rightarrow> exn + pair list \<times> bool" where
  "bounded_entries pre lo lo_incl hi hi_incl [] = Inr ([], False)"
| "bounded_entries pre lo lo_incl hi hi_incl (e # es) =
     (let k = le_key e; skip = bounded_entries pre lo lo_incl hi hi_incl es in
      if \<not> key_has_prefix k pre then
        (if key_lt (take (min (length pre) (length k)) k) pre then skip else Inr ([], True))
      else if length k \<le> length pre then Inl (Undefined_behaviour ''key[prefix.size()] behind the key'')
      else let v = k ! length pre in
        if (case lo of Some l \<Rightarrow> value_lt v l \<or> \<not> lo_incl \<and> value_eq v l | None \<Rightarrow> False) then skip
        else if (case hi of Some u \<Rightarrow> value_lt u v \<or> \<not> hi_incl \<and> value_eq v u | None \<Rightarrow> False) then Inr ([], True)
        else sbind skip (\<lambda>(r, done). Inr ((k, le_value e) # r, done)))"

text \<open>The walk along the leaf chain, with the loop body as a parameter.\<close>

fun walk_leaves :: "nat \<Rightarrow> (leaf_entry list \<Rightarrow> exn + pair list \<times> bool) \<Rightarrow> u32 \<Rightarrow> ('a pool_scheme, pair list) eff" where
  "walk_leaves 0 f current = (if current = INVALID_PAGE then ret [] else throw Diverges)"
| "walk_leaves (Suc n) f current =
     (if current = INVALID_PAGE then ret []
      else bind (read_node current (\<lambda>p. sbind (get_leaf_entries p) (\<lambda>entries. Inr (entries, next_leaf p)))) (\<lambda>(entries, nxt).
        bind (lift (f entries)) (\<lambda>(r, done).
        if done then ret r else bind (walk_leaves n f nxt) (\<lambda>rest. ret (r @ rest)))))"

fun leftmost :: "nat \<Rightarrow> u32 \<Rightarrow> ('a pool_scheme, u32) eff" where
  "leftmost 0 current = throw Diverges"
| "leftmost (Suc n) current =
     bind (read_node current (\<lambda>p. if is_leaf p then Inr None
        else sbind (get_internal_entries p) (\<lambda>entries.
          Inr (Some (case entries of [] \<Rightarrow> rightmost_child p | e # _ \<Rightarrow> ie_child e))))) (\<lambda>r.
     case r of None \<Rightarrow> ret current | Some child \<Rightarrow> leftmost n child)"

definition find_leftmost_leaf :: "nat \<Rightarrow> ('a btrees_scheme, u32) eff" where
  "find_leftmost_leaf h = bind walk_fuel (\<lambda>n. bind (root_page h) (leftmost n))"

definition scan_from :: "(leaf_entry list \<Rightarrow> exn + pair list \<times> bool) \<Rightarrow> u32 \<Rightarrow> ('a pool_scheme, pair list) eff" where
  "scan_from f leaf = bind walk_fuel (\<lambda>n. walk_leaves n f leaf)"

definition scan_all :: "nat \<Rightarrow> ('a btrees_scheme, pair list) eff" where
  "scan_all h = bind (find_leftmost_leaf h)
     (scan_from (\<lambda>es. Inr (map (\<lambda>e. (le_key e, le_value e)) es, False)))"

definition range_scan :: "nat \<Rightarrow> key \<Rightarrow> key \<Rightarrow> ('a btrees_scheme, pair list) eff" where
  "range_scan h start stop = bind (find_leaf_page h start) (scan_from (\<lambda>es. Inr (range_entries start stop es)))"

definition prefix_scan :: "nat \<Rightarrow> key \<Rightarrow> ('a btrees_scheme, pair list) eff" where
  "prefix_scan h pre = bind (find_leaf_page h pre) (scan_from (\<lambda>es. Inr (prefix_entries pre es)))"

definition bounded_scan :: "nat \<Rightarrow> key \<Rightarrow> db_value option \<Rightarrow> bool \<Rightarrow> db_value option \<Rightarrow> bool
    \<Rightarrow> ('a btrees_scheme, pair list) eff" where
  "bounded_scan h pre lo lo_incl hi hi_incl =
     (if lo = None \<and> hi = None then prefix_scan h pre
      else bind (case lo of Some l \<Rightarrow> find_leaf_page h (pre @ [l])
             | None \<Rightarrow> if pre \<noteq> [] then find_leaf_page h pre else find_leftmost_leaf h)
        (scan_from (bounded_entries pre lo lo_incl hi hi_incl)))"

section \<open>Removal\<close>

definition remove_from_leaf :: "u32 \<Rightarrow> u32 \<Rightarrow> key \<Rightarrow> ('a wal_scheme, unit) eff" where
  "remove_from_leaf txn leaf key = edit_node txn leaf (\<lambda>p. sbind (get_leaf_entries p) (\<lambda>entries.
     set_leaf_entries (filter (\<lambda>e. \<not> key_eq (le_key e) key) entries) p))"

definition remove_from_internal :: "u32 \<Rightarrow> u32 \<Rightarrow> key \<Rightarrow> ('a wal_scheme, unit) eff" where
  "remove_from_internal txn pid key = edit_node txn pid (\<lambda>p. sbind (get_internal_entries p) (\<lambda>entries.
     set_internal_entries (filter (\<lambda>e. \<not> key_eq (ie_key e) key) entries) p))"

record sibling_info =
  left_sibling :: u32
  left_key :: key
  right_sibling :: u32
  right_key :: key

text \<open>The part of \<open>find_siblings\<close> behind the read of the parent.\<close>

definition siblings_of :: "u32 \<Rightarrow> internal_entry list \<Rightarrow> u32 \<Rightarrow> exn + sibling_info" where
  "siblings_of pid entries rightmost =
     (let children = map ie_child entries @ [rightmost]; keys = map ie_key entries;
          idx = index_where (\<lambda>c. c = pid) children in
      if idx = length children
        then Inl (Runtime_error ''BTree::find_siblings: page not found among parent's children'')
      else Inr \<lparr>left_sibling = (if idx > 0 then children ! (idx - 1) else INVALID_PAGE),
                left_key = (if idx > 0 then keys ! (idx - 1) else []),
                right_sibling = (if idx < length children - 1 then children ! (idx + 1) else INVALID_PAGE),
                right_key = (if idx < length children - 1 then keys ! idx else [])\<rparr>)"

definition find_siblings :: "u32 \<Rightarrow> u32 \<Rightarrow> ('a pool_scheme, sibling_info) eff" where
  "find_siblings pid parent = bind (read_node parent (\<lambda>p. sbind (get_internal_entries p)
     (\<lambda>entries. Inr (entries, rightmost_child p)))) (\<lambda>(entries, rightmost). lift (siblings_of pid entries rightmost))"

text \<open>The loop that replaces the first separator equal to \<open>old\<close>.\<close>

fun replace_key :: "key \<Rightarrow> key \<Rightarrow> internal_entry list \<Rightarrow> internal_entry list" where
  "replace_key old k [] = []"
| "replace_key old k (e # es) = (if key_eq (ie_key e) old then e\<lparr>ie_key := k\<rparr> # es else e # replace_key old k es)"

definition replace_separator :: "u32 \<Rightarrow> u32 \<Rightarrow> key \<Rightarrow> key \<Rightarrow> ('a wal_scheme, unit) eff" where
  "replace_separator txn parent old k = edit_node txn parent (\<lambda>p. sbind (get_internal_entries p) (\<lambda>entries.
     set_internal_entries (replace_key old k entries) p))"

text \<open>
  The four branches of \<open>try_redistribute\<close>. \<open>back()\<close> and \<open>front()\<close> of an empty vector are
  undefined in the code.
\<close>

definition borrow_leaf_left :: "u32 \<Rightarrow> u32 \<Rightarrow> u32 \<Rightarrow> sibling_info \<Rightarrow> ('a wal_scheme, unit) eff" where
  "borrow_leaf_left txn pid parent sib =
     bind (fetch_page (left_sibling sib)) (\<lambda>ls. bind (read_frame ls) (\<lambda>lp.
     bind (lift (get_leaf_entries lp)) (\<lambda>left_entries.
     if left_entries = [] then throw (Undefined_behaviour ''back() of an empty vector'')
     else let borrowed = last left_entries in
     bind (lift (set_leaf_entries (butlast left_entries) lp)) (\<lambda>lp.
     andthen (write_frame ls lp)
     (andthen (unpin_page (left_sibling sib) True)
     (andthen (write_page_through_wal txn (left_sibling sib) ls)
     (andthen (edit_node txn pid (\<lambda>p. sbind (get_leaf_entries p) (\<lambda>entries. set_leaf_entries (borrowed # entries) p)))
      (replace_separator txn parent (left_key sib) (le_key borrowed)))))))))"

definition borrow_internal_left :: "u32 \<Rightarrow> u32 \<Rightarrow> u32 \<Rightarrow> sibling_info \<Rightarrow> ('a wal_scheme, unit) eff" where
  "borrow_internal_left txn pid parent sib =
     bind (fetch_page (left_sibling sib)) (\<lambda>ls. bind (read_frame ls) (\<lambda>lp.
     bind (lift (get_internal_entries lp)) (\<lambda>left_entries.
     let left_rightmost = rightmost_child lp in
     bind (fetch_page pid) (\<lambda>cs. bind (read_frame cs) (\<lambda>cp.
     bind (lift (get_internal_entries cp)) (\<lambda>cur_entries.
     if left_entries = [] then throw (Undefined_behaviour ''back() of an empty vector'')
     else let promoted = last left_entries in
     bind (lift (set_internal_entries (butlast left_entries) (set_rightmost_child (ie_child promoted) lp))) (\<lambda>lp.
     andthen (write_frame ls lp)
     (bind (lift (set_internal_entries (\<lparr>ie_key = left_key sib, ie_child = left_rightmost\<rparr> # cur_entries) cp)) (\<lambda>cp.
     andthen (write_frame cs cp)
     (andthen (unpin_page (left_sibling sib) True)
     (andthen (unpin_page pid True)
     (andthen (write_page_through_wal txn (left_sibling sib) ls)
     (andthen (write_page_through_wal txn pid cs)
     (andthen (set_parent txn left_rightmost pid)
      (replace_separator txn parent (left_key sib) (ie_key promoted))))))))))))))))"

definition borrow_leaf_right :: "u32 \<Rightarrow> u32 \<Rightarrow> u32 \<Rightarrow> sibling_info \<Rightarrow> ('a wal_scheme, unit) eff" where
  "borrow_leaf_right txn pid parent sib =
     bind (fetch_page (right_sibling sib)) (\<lambda>rs. bind (read_frame rs) (\<lambda>rp.
     bind (lift (get_leaf_entries rp)) (\<lambda>right_entries.
     if right_entries = [] then throw (Undefined_behaviour ''front() of an empty vector'')
     else let borrowed = hd right_entries; rest = tl right_entries in
     bind (lift (set_leaf_entries rest rp)) (\<lambda>rp.
     andthen (write_frame rs rp)
     (andthen (unpin_page (right_sibling sib) True)
     (andthen (write_page_through_wal txn (right_sibling sib) rs)
     (andthen (edit_node txn pid (\<lambda>p. sbind (get_leaf_entries p) (\<lambda>entries. set_leaf_entries (entries @ [borrowed]) p)))
      (replace_separator txn parent (right_key sib)
         (case rest of [] \<Rightarrow> le_key borrowed | e # _ \<Rightarrow> le_key e)))))))))"

definition borrow_internal_right :: "u32 \<Rightarrow> u32 \<Rightarrow> u32 \<Rightarrow> sibling_info \<Rightarrow> ('a wal_scheme, unit) eff" where
  "borrow_internal_right txn pid parent sib =
     bind (fetch_page (right_sibling sib)) (\<lambda>rs. bind (read_frame rs) (\<lambda>rp.
     bind (lift (get_internal_entries rp)) (\<lambda>right_entries.
     if right_entries = [] then throw (Undefined_behaviour ''front() of an empty vector'')
     else let promoted = hd right_entries; rest = tl right_entries in
     bind (fetch_page pid) (\<lambda>cs. bind (read_frame cs) (\<lambda>cp.
     bind (lift (get_internal_entries cp)) (\<lambda>cur_entries.
     let cur_rightmost = rightmost_child cp in
     bind (lift (set_internal_entries (cur_entries @ [\<lparr>ie_key = right_key sib, ie_child = cur_rightmost\<rparr>])
        (set_rightmost_child (ie_child promoted) cp))) (\<lambda>cp.
     andthen (write_frame cs cp)
     (bind (lift (set_internal_entries rest rp)) (\<lambda>rp.
     andthen (write_frame rs rp)
     (andthen (unpin_page (right_sibling sib) True)
     (andthen (unpin_page pid True)
     (andthen (write_page_through_wal txn (right_sibling sib) rs)
     (andthen (write_page_through_wal txn pid cs)
     (andthen (set_parent txn (ie_child promoted) pid)
      (replace_separator txn parent (right_key sib) (ie_key promoted))))))))))))))))"

definition try_redistribute :: "u32 \<Rightarrow> u32 \<Rightarrow> u32 \<Rightarrow> ('a wal_scheme, bool) eff" where
  "try_redistribute txn pid parent = bind (find_siblings pid parent) (\<lambda>sib.
     bind (read_node pid (\<lambda>p. Inr (is_leaf p))) (\<lambda>leaf.
     bind (if left_sibling sib \<noteq> INVALID_PAGE
           then read_node (left_sibling sib) (\<lambda>p. Inr (\<not> is_underfull p)) else ret False) (\<lambda>left_can_donate.
     if left_can_donate then
       andthen (if leaf then borrow_leaf_left txn pid parent sib else borrow_internal_left txn pid parent sib) (ret True)
     else bind (if right_sibling sib \<noteq> INVALID_PAGE
           then read_node (right_sibling sib) (\<lambda>p. Inr (\<not> is_underfull p)) else ret False) (\<lambda>right_can_donate.
     if right_can_donate then
       andthen (if leaf then borrow_leaf_right txn pid parent sib else borrow_internal_right txn pid parent sib) (ret True)
     else ret False))))"

fun retarget_child :: "u32 \<Rightarrow> u32 \<Rightarrow> internal_entry list \<Rightarrow> internal_entry list" where
  "retarget_child old c [] = []"
| "retarget_child old c (e # es) = (if ie_child e = old then e\<lparr>ie_child := c\<rparr> # es else e # retarget_child old c es)"

definition drop_separator :: "u32 \<Rightarrow> u32 \<Rightarrow> key \<Rightarrow> page \<Rightarrow> exn + page" where
  "drop_separator merge_into merge_from sep p = sbind (get_internal_entries p) (\<lambda>entries.
     sbind (set_internal_entries (filter (\<lambda>e. \<not> key_eq (ie_key e) sep)
        (retarget_child merge_from merge_into entries)) p) (\<lambda>p.
     Inr (if rightmost_child p = merge_from then set_rightmost_child merge_into p else p)))"

definition merge_with_sibling :: "u32 \<Rightarrow> u32 \<Rightarrow> u32 \<Rightarrow> ('a hdr_scheme, unit) eff" where
  "merge_with_sibling txn pid parent = bind (find_siblings pid parent) (\<lambda>sib.
     let (merge_into, merge_from, sep) =
       (if left_sibling sib \<noteq> INVALID_PAGE then (left_sibling sib, pid, left_key sib)
        else (pid, right_sibling sib, right_key sib)) in
     bind (fetch_page merge_into) (\<lambda>is. bind (read_frame is) (\<lambda>ip.
     bind (fetch_page merge_from) (\<lambda>fs. bind (read_frame fs) (\<lambda>fp.
     andthen
       (if is_leaf ip then
          bind (lift (sbind (get_leaf_entries ip) (\<lambda>ies. sbind (get_leaf_entries fp) (\<lambda>fes.
             set_leaf_entries (ies @ fes) ip)))) (\<lambda>ip. write_frame is (set_next_leaf (next_leaf fp) ip))
        else
          bind (lift (sbind (get_internal_entries ip) (\<lambda>ies. sbind (get_internal_entries fp) (\<lambda>fes. Inr (ies, fes)))))
            (\<lambda>(ies, fes).
          bind (lift (set_internal_entries (ies @ \<lparr>ie_key = sep, ie_child = rightmost_child ip\<rparr> # fes) ip)) (\<lambda>ip.
          andthen (write_frame is (set_rightmost_child (rightmost_child fp) ip))
          (andthen (for_each (\<lambda>e. set_parent txn (ie_child e) merge_into) fes)
           (set_parent txn (rightmost_child fp) merge_into)))))
     (andthen (unpin_page merge_into True)
     (andthen (unpin_page merge_from False)
     (andthen (write_page_through_wal txn merge_into is)
     (andthen (edit_node txn parent (drop_separator merge_into merge_from sep))
      (free_page txn merge_from))))))))))"

fun handle_underflow :: "nat \<Rightarrow> u32 \<Rightarrow> u32 \<Rightarrow> u32 list \<Rightarrow> ('a btrees_scheme, unit) eff" where
  "handle_underflow h txn pid path = bind (root_page h) (\<lambda>root.
     if pid = root then
       bind (read_node pid (\<lambda>p. let empty = \<not> is_leaf p \<and> num_cells p = 0
              in Inr (empty, if empty then rightmost_child p else INVALID_PAGE))) (\<lambda>(is_internal_empty, only_child).
       whenever (is_internal_empty \<and> only_child \<noteq> INVALID_PAGE)
         (andthen (set_parent txn only_child INVALID_PAGE)
         (andthen (set_root h only_child)
          (free_page txn pid))))
     else case path of [] \<Rightarrow> ret ()
     | parent # parent_path \<Rightarrow>
         bind (try_redistribute txn pid parent) (\<lambda>redistributed.
         if redistributed then ret ()
         else andthen (merge_with_sibling txn pid parent)
           (bind (root_page h) (\<lambda>root.
            if parent \<noteq> root then
              bind (read_node parent (\<lambda>p. Inr (is_underfull p))) (\<lambda>parent_underfull.
              whenever parent_underfull (handle_underflow h txn parent parent_path))
            else handle_underflow h txn parent parent_path))))"

definition btree_remove :: "nat \<Rightarrow> u32 \<Rightarrow> key \<Rightarrow> ('a btrees_scheme, unit) eff" where
  "btree_remove h txn key = bind (find_leaf_page_with_path h key) (\<lambda>(leaf, path).
     bind (read_node leaf (find_in_leaf key)) (\<lambda>found.
     if found = None then throw (Runtime_error (''BTree::remove: key not found '' @ key_to_string key))
     else andthen (remove_from_leaf txn leaf key)
       (bind (root_page h) (\<lambda>root.
        if leaf = root then ret ()
        else bind (read_node leaf (\<lambda>p. Inr (is_underfull p))) (\<lambda>underfull.
          whenever underfull (handle_underflow h txn leaf path))))))"

definition btree_remove_txn :: "nat \<Rightarrow> key \<Rightarrow> ('a btrees_scheme, unit) eff" where
  "btree_remove_txn h key = bind wal_begin (\<lambda>txn.
     andthen (btree_remove h txn key) (wal_commit txn))"

end
