(* ===== verification/BTree_Read.thy ===== *)
theory BTree_Read
  imports BTree
begin

text \<open>
  The read side of the tree: what makes the pages of a tree well formed, and that search and
  the scans return what the sorted list of its entries says.
\<close>

section \<open>The abstract tree\<close>

datatype tree = Leaf u32 "leaf_entry list" | Inner u32 spine
  and spine = Last tree | Sep tree key spine

fun t_page :: "tree \<Rightarrow> u32" where
  "t_page (Leaf p es) = p"
| "t_page (Inner p s) = p"

primrec t_entries :: "tree \<Rightarrow> leaf_entry list" and s_entries :: "spine \<Rightarrow> leaf_entry list" where
  "t_entries (Leaf p es) = es"
| "t_entries (Inner p s) = s_entries s"
| "s_entries (Last t) = t_entries t"
| "s_entries (Sep t k s) = t_entries t @ s_entries s"

primrec t_leaves :: "tree \<Rightarrow> (u32 \<times> leaf_entry list) list" and s_leaves :: "spine \<Rightarrow> (u32 \<times> leaf_entry list) list" where
  "t_leaves (Leaf p es) = [(p, es)]"
| "t_leaves (Inner p s) = s_leaves s"
| "s_leaves (Last t) = t_leaves t"
| "s_leaves (Sep t k s) = t_leaves t @ s_leaves s"

primrec t_pages :: "tree \<Rightarrow> u32 list" and s_pages :: "spine \<Rightarrow> u32 list" where
  "t_pages (Leaf p es) = [p]"
| "t_pages (Inner p s) = p # s_pages s"
| "s_pages (Last t) = t_pages t"
| "s_pages (Sep t k s) = t_pages t @ s_pages s"

primrec t_height :: "tree \<Rightarrow> nat" and s_height :: "spine \<Rightarrow> nat" where
  "t_height (Leaf p es) = 0"
| "t_height (Inner p s) = Suc (s_height s)"
| "s_height (Last t) = t_height t"
| "s_height (Sep t k s) = max (t_height t) (s_height s)"

fun s_seps :: "spine \<Rightarrow> internal_entry list" where
  "s_seps (Last t) = []"
| "s_seps (Sep t k s) = \<lparr>ie_key = k, ie_child = t_page t\<rparr> # s_seps s"

fun s_last :: "spine \<Rightarrow> u32" where
  "s_last (Last t) = t_page t"
| "s_last (Sep t k s) = s_last s"

text \<open>The pages hold the tree.\<close>

primrec t_rep :: "(u32 \<Rightarrow> page) \<Rightarrow> tree \<Rightarrow> bool" and s_rep :: "(u32 \<Rightarrow> page) \<Rightarrow> spine \<Rightarrow> bool" where
  "t_rep v (Leaf p es) = (is_leaf (v p) \<and> get_leaf_entries (v p) = Inr es)"
| "t_rep v (Inner p s) = (\<not> is_leaf (v p) \<and> get_internal_entries (v p) = Inr (s_seps s)
     \<and> rightmost_child (v p) = s_last s \<and> s_rep v s)"
| "s_rep v (Last t) = t_rep v t"
| "s_rep v (Sep t k s) = (t_rep v t \<and> s_rep v s)"

text \<open>The keys are in order: left of a separator they are smaller, right of it not.\<close>

definition above :: "key option \<Rightarrow> key \<Rightarrow> bool" where
  "above lo k = (case lo of None \<Rightarrow> True | Some l \<Rightarrow> \<not> key_lt k l)"

definition below :: "key option \<Rightarrow> key \<Rightarrow> bool" where
  "below hi k = (case hi of None \<Rightarrow> True | Some h \<Rightarrow> key_lt k h)"

definition sorted_entries :: "leaf_entry list \<Rightarrow> bool" where
  "sorted_entries es \<longleftrightarrow> sorted_wrt (\<lambda>a b. key_lt (le_key a) (le_key b)) es \<and> (\<forall>e \<in> set es. clean_key (le_key e))"

primrec t_ord :: "tree \<Rightarrow> key option \<Rightarrow> key option \<Rightarrow> bool" and s_ord :: "spine \<Rightarrow> key option \<Rightarrow> key option \<Rightarrow> bool" where
  "t_ord (Leaf p es) lo hi = (sorted_entries es \<and> (\<forall>e \<in> set es. above lo (le_key e) \<and> below hi (le_key e)))"
| "t_ord (Inner p s) lo hi = s_ord s lo hi"
| "s_ord (Last t) lo hi = t_ord t lo hi"
| "s_ord (Sep t k s) lo hi = (clean_key k \<and> above lo k \<and> below hi k \<and> t_ord t lo (Some k) \<and> s_ord s (Some k) hi)"

text \<open>The leaves are linked in order, the last one to no page.\<close>

fun chained :: "(u32 \<Rightarrow> page) \<Rightarrow> (u32 \<times> leaf_entry list) list \<Rightarrow> bool" where
  "chained v [] = True"
| "chained v [(p, es)] = (next_leaf (v p) = INVALID_PAGE)"
| "chained v ((p, es) # (q, fs) # ls) = (next_leaf (v p) = q \<and> chained v ((q, fs) # ls))"

definition tree_ok :: "(u32 \<Rightarrow> page) \<Rightarrow> u32 \<Rightarrow> u32 \<Rightarrow> tree \<Rightarrow> bool" where
  "tree_ok v n root t \<longleftrightarrow> t_page t = root \<and> t_rep v t \<and> t_ord t None None
     \<and> chained v (t_leaves t) \<and> distinct (t_pages t) \<and> (\<forall>p \<in> set (t_pages t). p < n)"

section \<open>Facts about the abstract tree\<close>

lemma leaves_entries: "concat (map snd (t_leaves t)) = t_entries t" "concat (map snd (s_leaves s)) = s_entries s"
  by (induction t and s) auto

lemma leaves_pages: "fst ` set (t_leaves t) \<subseteq> set (t_pages t)" "fst ` set (s_leaves s) \<subseteq> set (s_pages s)"
  by (induction t and s) auto

lemma leaves_nonempty: "t_leaves t \<noteq> []" "s_leaves s \<noteq> []"
  by (induction t and s) auto

lemma height_pages: "t_height t < length (t_pages t)" "s_height s < length (s_pages s)"
  by (induction t and s) auto

lemma leaves_count: "length (t_leaves t) \<le> length (t_pages t)" "length (s_leaves s) \<le> length (s_pages s)"
  by (induction t and s) auto

lemma t_page_in: "t_page t \<in> set (t_pages t)"
  by (cases t) auto

lemma below_trans:
  "clean_key k \<Longrightarrow> clean_key k' \<Longrightarrow> (\<forall>h. hi = Some h \<longrightarrow> clean_key h) \<Longrightarrow> key_lt k k' \<Longrightarrow> below hi k' \<Longrightarrow> below hi k"
  unfolding below_def by (cases hi) (auto intro: ko.lt_trans)

lemma above_trans:
  "clean_key k \<Longrightarrow> clean_key k' \<Longrightarrow> (\<forall>l. lo = Some l \<longrightarrow> clean_key l) \<Longrightarrow> \<not> key_lt k' k \<Longrightarrow> above lo k \<Longrightarrow> above lo k'"
  unfolding above_def by (cases lo) (auto dest: ko.lt_not_trans ko.not_lt_trans)

lemma ord_entries:
  "t_ord t lo hi \<Longrightarrow> (\<forall>l. lo = Some l \<longrightarrow> clean_key l) \<Longrightarrow> (\<forall>h. hi = Some h \<longrightarrow> clean_key h) \<Longrightarrow>
    sorted_entries (t_entries t) \<and> (\<forall>e \<in> set (t_entries t). above lo (le_key e) \<and> below hi (le_key e))"
  "s_ord s lo hi \<Longrightarrow> (\<forall>l. lo = Some l \<longrightarrow> clean_key l) \<Longrightarrow> (\<forall>h. hi = Some h \<longrightarrow> clean_key h) \<Longrightarrow>
    sorted_entries (s_entries s) \<and> (\<forall>e \<in> set (s_entries s). above lo (le_key e) \<and> below hi (le_key e))"
proof (induction t and s arbitrary: lo hi and lo hi)
  case (Sep t k s)
  then have k: "clean_key k" "above lo k" "below hi k" by simp_all
  have t: "sorted_entries (t_entries t)" "\<forall>e \<in> set (t_entries t). above lo (le_key e) \<and> key_lt (le_key e) k"
    using Sep.IH(1) [of lo "Some k"] Sep.prems k by (simp_all add: below_def)
  have s: "sorted_entries (s_entries s)" "\<forall>e \<in> set (s_entries s). \<not> key_lt (le_key e) k \<and> below hi (le_key e)"
    using Sep.IH(2) [of "Some k" hi] Sep.prems k by (simp_all add: above_def)
  have ct: "clean_key (le_key e)" if "e \<in> set (t_entries t)" for e
    using t(1) that by (simp add: sorted_entries_def)
  have cs: "clean_key (le_key e)" if "e \<in> set (s_entries s)" for e
    using s(1) that by (simp add: sorted_entries_def)
  have "key_lt (le_key a) (le_key b)" if "a \<in> set (t_entries t)" "b \<in> set (s_entries s)" for a b
    using t(2) s(2) that ko.lt_not_trans [OF ct k(1) cs, of a b] by blast
  then have "sorted_entries (t_entries t @ s_entries s)"
    using t(1) s(1) by (auto simp: sorted_entries_def sorted_wrt_append)
  moreover have "below hi (le_key e)" if "e \<in> set (t_entries t)" for e
    using below_trans [OF ct k(1)] t(2) k(3) Sep.prems(3) that by blast
  moreover have "above lo (le_key e)" if "e \<in> set (s_entries s)" for e
    using above_trans [OF k(1) cs] s(2) k(2) Sep.prems(2) that by blast
  ultimately show ?case using t(2) s(2) by auto
qed auto

text \<open>
  The leaf a descent reaches: everything in the leaves before it is smaller than the key, and
  everything behind it greater.
\<close>

definition split_at :: "key \<Rightarrow> (u32 \<times> leaf_entry list) list \<Rightarrow> u32 \<Rightarrow> bool" where
  "split_at x ls pid \<longleftrightarrow> (\<exists>bs es as. ls = bs @ (pid, es) # as
     \<and> (\<forall>e \<in> set (concat (map snd bs)). key_lt (le_key e) x)
     \<and> (\<forall>e \<in> set (concat (map snd as)). key_lt x (le_key e)))"

lemma split_at_append_right:
  assumes "split_at x ls pid" "\<forall>e \<in> set (concat (map snd ms)). key_lt x (le_key e)"
  shows "split_at x (ls @ ms) pid"
proof -
  obtain bs es as where s: "ls = bs @ (pid, es) # as" "\<forall>e \<in> set (concat (map snd bs)). key_lt (le_key e) x"
    "\<forall>e \<in> set (concat (map snd as)). key_lt x (le_key e)"
    using assms(1) unfolding split_at_def by blast
  have "ls @ ms = bs @ (pid, es) # (as @ ms)" using s(1) by simp
  moreover have "\<forall>e \<in> set (concat (map snd (as @ ms))). key_lt x (le_key e)" using s(3) assms(2) by auto
  ultimately show ?thesis using s(2) unfolding split_at_def by blast
qed

lemma split_at_append_left:
  assumes "split_at x ls pid" "\<forall>e \<in> set (concat (map snd ms)). key_lt (le_key e) x"
  shows "split_at x (ms @ ls) pid"
proof -
  obtain bs es as where s: "ls = bs @ (pid, es) # as" "\<forall>e \<in> set (concat (map snd bs)). key_lt (le_key e) x"
    "\<forall>e \<in> set (concat (map snd as)). key_lt x (le_key e)"
    using assms(1) unfolding split_at_def by blast
  have "ms @ ls = (ms @ bs) @ (pid, es) # as" using s(1) by simp
  moreover have "\<forall>e \<in> set (concat (map snd (ms @ bs))). key_lt (le_key e) x" using s(2) assms(2) by auto
  ultimately show ?thesis using s(3) unfolding split_at_def by blast
qed

section \<open>Descent\<close>

primrec t_find :: "key \<Rightarrow> tree \<Rightarrow> u32" and s_find :: "key \<Rightarrow> spine \<Rightarrow> u32" where
  "t_find x (Leaf p es) = p"
| "t_find x (Inner p s) = s_find x s"
| "s_find x (Last t) = t_find x t"
| "s_find x (Sep t k s) = (if key_lt x k then t_find x t else s_find x s)"

fun s_child :: "key \<Rightarrow> spine \<Rightarrow> tree" where
  "s_child x (Last t) = t"
| "s_child x (Sep t k s) = (if key_lt x k then t else s_child x s)"

lemma child_for_key_spine: "child_for_key x (s_seps s) (s_last s) = t_page (s_child x s)"
  by (induction x s rule: s_child.induct) (auto simp: child_for_key_def)

lemma s_child_facts:
  "t_find x (s_child x s) = s_find x s" "s_rep v s \<Longrightarrow> t_rep v (s_child x s)"
  "t_height (s_child x s) \<le> s_height s" "set (t_pages (s_child x s)) \<subseteq> set (s_pages s)"
  by (induction x s rule: s_child.induct) auto

lemma find_splits:
  "t_ord t lo hi \<Longrightarrow> (\<forall>l. lo = Some l \<longrightarrow> clean_key l) \<Longrightarrow> (\<forall>h. hi = Some h \<longrightarrow> clean_key h) \<Longrightarrow>
    clean_key x \<Longrightarrow> split_at x (t_leaves t) (t_find x t)"
  "s_ord s lo hi \<Longrightarrow> (\<forall>l. lo = Some l \<longrightarrow> clean_key l) \<Longrightarrow> (\<forall>h. hi = Some h \<longrightarrow> clean_key h) \<Longrightarrow>
    clean_key x \<Longrightarrow> split_at x (s_leaves s) (s_find x s)"
proof (induction t and s arbitrary: lo hi and lo hi)
  case (Leaf p es)
  show ?case
    unfolding split_at_def by (rule exI [of _ "[]"], rule exI [of _ es], rule exI [of _ "[]"]) simp
next
  case (Sep t k s)
  then have k: "clean_key k" by simp
  have t: "sorted_entries (t_entries t)" "\<forall>e \<in> set (t_entries t). key_lt (le_key e) k"
    using ord_entries(1) [of t lo "Some k"] Sep.prems k by (simp_all add: below_def)
  have s: "sorted_entries (s_entries s)" "\<forall>e \<in> set (s_entries s). \<not> key_lt (le_key e) k"
    using ord_entries(2) [of s "Some k" hi] Sep.prems k by (simp_all add: above_def)
  show ?case
  proof (cases "key_lt x k")
    case True
    have "key_lt x (le_key e)" if "e \<in> set (s_entries s)" for e
      using True s that Sep.prems(4) k by (auto simp: sorted_entries_def intro: ko.lt_not_trans)
    then have "split_at x (t_leaves t @ s_leaves s) (t_find x t)"
      using Sep.IH(1) [of lo "Some k"] Sep.prems k
      by (intro split_at_append_right) (simp_all add: leaves_entries)
    with True show ?thesis by simp
  next
    case False
    have "key_lt (le_key e) x" if "e \<in> set (t_entries t)" for e
      using False t that Sep.prems(4) k by (auto simp: sorted_entries_def intro: ko.lt_not_trans)
    then have "split_at x (t_leaves t @ s_leaves s) (s_find x s)"
      using Sep.IH(2) [of "Some k" hi] Sep.prems k
      by (intro split_at_append_left) (simp_all add: leaves_entries)
    with False show ?thesis by simp
  qed
qed auto

text \<open>A state in which the pages \<open>v\<close> below \<open>n\<close> can be read without failing.\<close>

definition readable :: "(u32 \<Rightarrow> page) \<Rightarrow> u32 \<Rightarrow> 'a pool_scheme \<Rightarrow> bool" where
  "readable v n s \<longleftrightarrow> pool_inv s \<and> pool_calm s \<and> total_pages s = n \<and> (\<forall>q < n. view s q = v q)"

definition reads :: "(u32 \<Rightarrow> page) \<Rightarrow> u32 \<Rightarrow> 'a pool_scheme \<Rightarrow> 'a pool_scheme \<Rightarrow> bool" where
  "reads v n s t \<longleftrightarrow> readable v n t \<and> pool.more t = pool.more s"

lemma reads_trans: "reads v n s t \<Longrightarrow> reads v n t u \<Longrightarrow> reads v n s u"
  by (simp add: reads_def)

lemma wp_read_node:
  assumes "readable v n s" "pid < n" "g (v pid) = Inr x"
  shows "wp (read_node pid g) (\<lambda>r t. r = x \<and> reads v n s t) (\<lambda>_ _. False) s"
proof -
  have s: "pool_inv s" "pool_calm s" "total_pages s = n" "view s pid = v pid"
    using assms(1,2) by (simp_all add: readable_def)
  show ?thesis
    unfolding read_node_def wp_bind read_frame_def wp_gets
  proof (rule wp_mono [OF wp_fetch_page [OF s(1)]], goal_cases)
    case (1 slot t)
    then have t: "frames t ! slot = v pid" "pool_inv t" "settled t pid" "cache_step s t"
      "pins t = (pins s)(pid := pins s pid + 1)"
      using s(4) by (simp_all add: fetched_def cache_step_def)
    have "wp (unpin_page pid False) (\<lambda>_. wp (ret x) (\<lambda>r t. r = x \<and> reads v n s t) (\<lambda>_ _. False)) (\<lambda>_ _. False) t"
    proof (rule wp_mono [OF wp_unpin_page [OF t(2), of False pid]], goal_cases)
      case (2 _ u)
      then have "cache_step s u" "pins u = pins s" using t(4,5) cache_step_trans by (auto simp: fun_eq_iff)
      then show ?case using assms(1)
        by (simp add: wp_eqs reads_def readable_def pool_calm_def cache_step_def same_view_def)
    qed (use t(3) in simp_all)
    then show ?case using t(1) assms(3) by (simp add: wp_eqs)
  next
    case (2 e t)
    then show ?case using fetch_failed_store(4) [OF s(1) 2] s assms(2) by simp
  qed
qed

lemma wp_read_node_then:
  assumes "readable v n s" "pid < n" "g (v pid) = Inr x"
    "\<And>t. reads v n s t \<Longrightarrow> wp (f x) Q E t"
  shows "wp (bind (read_node pid g) f) Q E s"
  unfolding wp_bind
  by (rule wp_mono [OF wp_read_node [of v n s pid g x, OF assms(1-3)]]) (use assms(4) in auto)

lemma find_child_ok:
  "get_internal_entries p = Inr (s_seps s) \<Longrightarrow> rightmost_child p = s_last s \<Longrightarrow>
   find_child_for_key x p = Inr (t_page (s_child x s))"
  by (simp add: find_child_for_key_def child_for_key_spine)

lemma wp_descend:
  assumes "readable v n s" "t_rep v t" "\<forall>p \<in> set (t_pages t). p < n" "t_height t < fuel"
  shows "wp (descend fuel x (t_page t) path) (\<lambda>r u. fst r = t_find x t \<and> reads v n s u) (\<lambda>_ _. False) s"
  using assms
proof (induction fuel arbitrary: s t path)
  case 0
  then show ?case by simp
next
  case (Suc fuel)
  have r: "reads v n s s" using Suc.prems(1) by (simp add: reads_def)
  show ?case
  proof (cases t)
    case (Leaf p es)
    show ?thesis
      unfolding descend.simps Leaf t_page.simps
      by (rule wp_read_node_then [OF Suc.prems(1), of _ _ None])
        (use Suc.prems Leaf in \<open>auto simp: wp_eqs\<close>)
  next
    case (Inner p sp)
    have pc: "\<forall>q \<in> set (t_pages (s_child x sp)). q < n"
      using Suc.prems(3) Inner s_child_facts(4) [of x sp] by auto
    have g: "find_child_for_key x (v p) = Inr (t_page (s_child x sp))"
      by (rule find_child_ok) (use Suc.prems Inner in simp_all)
    show ?thesis
      unfolding descend.simps Inner t_page.simps
    proof (rule wp_read_node_then [OF Suc.prems(1), of _ _ "Some (t_page (s_child x sp))"])
      fix u assume u: "reads v n s u"
      have "wp (descend fuel x (t_page (s_child x sp)) (p # path))
        (\<lambda>r w. fst r = t_find x (s_child x sp) \<and> reads v n u w) (\<lambda>_ _. False) u"
        by (rule Suc.IH)
          (use u pc Suc.prems Inner s_child_facts(2) in
            \<open>auto simp: reads_def intro: le_less_trans [OF s_child_facts(3)]\<close>)
      then show "wp (case Some (t_page (s_child x sp)) of None \<Rightarrow> ret (p, path)
          | Some child \<Rightarrow> descend fuel x child (p # path))
        (\<lambda>r u. fst r = t_find x (Inner p sp) \<and> reads v n s u) (\<lambda>_ _. False) u"
        unfolding option.case
        by (rule wp_mono) (use u in \<open>auto simp: s_child_facts(1) intro: reads_trans\<close>)
    qed (use Suc.prems Inner g in auto)
  qed
qed

lemma tree_height_fuel:
  assumes "distinct (t_pages t)" "\<forall>p \<in> set (t_pages t). p < n"
  shows "length (t_pages t) \<le> unat n"
proof -
  have "card (unat ` set (t_pages t)) = length (t_pages t)"
    using assms(1) card_image [of unat "set (t_pages t)"]
    by (simp add: distinct_card inj_on_def word_unat_eq_iff)
  moreover have "unat ` set (t_pages t) \<subseteq> {..<unat n}"
    using assms(2) by (auto simp: word_less_nat_alt)
  ultimately show ?thesis by (metis card_lessThan card_mono finite_lessThan)
qed

text \<open>The tree of handle \<open>h\<close> in a state.\<close>

definition tree_at :: "'a btrees_scheme \<Rightarrow> nat \<Rightarrow> tree \<Rightarrow> bool" where
  "tree_at s h t \<longleftrightarrow> pool_inv s \<and> pool_calm s \<and> tree_ok (view s) (total_pages s) (roots s h) t"

lemma tree_at_readable: "tree_at s h t \<Longrightarrow> readable (view s) (total_pages s) s"
  by (simp add: tree_at_def readable_def)

lemma wp_find_leaf:
  fixes s :: "'a btrees_scheme"
  assumes "tree_at s h t"
  shows "wp (find_leaf_page h x) (\<lambda>r u. r = t_find x t \<and> reads (view s) (total_pages s) s u) (\<lambda>_ _. False) s"
proof -
  have ok: "t_page t = roots s h" "t_rep (view s) t" "\<forall>p \<in> set (t_pages t). p < total_pages s" "distinct (t_pages t)"
    using assms by (simp_all add: tree_at_def tree_ok_def)
  have h: "t_height t < Suc (unat (total_pages s))"
    using height_pages(1) [of t] tree_height_fuel [OF ok(4,3)] by simp
  have "wp (descend (Suc (unat (total_pages s))) x (roots s h) [])
    (\<lambda>r u. fst r = t_find x t \<and> reads (view s) (total_pages s) s u) (\<lambda>_ _. False) s"
    using wp_descend [OF tree_at_readable [OF assms] ok(2,3) h] ok(1) by simp
  then show ?thesis
    unfolding find_leaf_page_def find_leaf_page_with_path_def walk_fuel_def root_page_def wp_bind wp_gets
    by (rule wp_mono) (auto simp: wp_eqs split: prod.splits)
qed

section \<open>Walking the leaves\<close>

text \<open>
  What a scan's loop body promises, so that the walk over the leaves is the body run on all
  entries at once: it adds up over the entries, and once it is done it stays done.
\<close>

locale leaf_scan =
  fixes f :: "leaf_entry list \<Rightarrow> exn + pair list \<times> bool" and good :: "leaf_entry \<Rightarrow> bool"
  assumes f_Nil: "f [] = Inr ([], False)"
    and f_total: "list_all good es \<Longrightarrow> \<exists>r d. f es = Inr (r, d)"
    and f_append: "f es = Inr (r, d) \<Longrightarrow> f fs = Inr (r', d') \<Longrightarrow>
      f (es @ fs) = Inr (if d then (r, True) else (r @ r', d'))"
begin

lemma walk:
  assumes "readable v n s" "chained v ls" "list_all good (concat (map snd ls))"
    "\<forall>(p, es) \<in> set ls. get_leaf_entries (v p) = Inr es \<and> p < n" "length ls \<le> fuel"
    "current = (case ls of [] \<Rightarrow> INVALID_PAGE | (p, es) # _ \<Rightarrow> p)"
  shows "wp (walk_leaves fuel f current)
    (\<lambda>r u. (\<exists>d. f (concat (map snd ls)) = Inr (r, d)) \<and> reads v n s u) (\<lambda>_ _. False) s"
  using assms
proof (induction ls arbitrary: s fuel current)
  case Nil
  then show ?case by (cases fuel) (auto simp: wp_eqs f_Nil reads_def)
next
  case (Cons x ls)
  obtain p es where x: "x = (p, es)" by (cases x)
  obtain m where m: "fuel = Suc m" using Cons.prems(5) by (cases fuel) auto
  have p: "p < n" "get_leaf_entries (v p) = Inr es" using Cons.prems(4) x by auto
  have ni: "current \<noteq> INVALID_PAGE"
    using Cons.prems(1,6) x p(1) total_pages_not_invalid [of p s] by (simp add: readable_def)
  have cur: "current = p" using Cons.prems(6) x by simp
  have nxt: "next_leaf (v p) = (case ls of [] \<Rightarrow> INVALID_PAGE | (p, es) # _ \<Rightarrow> p)" and ch: "chained v ls"
    using Cons.prems(2) x by (cases ls; force)+
  obtain r d where fe: "f es = Inr (r, d)" using f_total [of es] Cons.prems(3) x by auto
  obtain r' d' where fr: "f (concat (map snd ls)) = Inr (r', d')"
    using f_total [of "concat (map snd ls)"] Cons.prems(3) by auto
  note fa = f_append [OF fe fr]
  show ?case
    unfolding m walk_leaves.simps cur if_not_P [OF ni [unfolded cur]]
  proof (rule wp_read_node_then [OF Cons.prems(1) p(1), of _ "(es, next_leaf (v p))"])
    fix u assume u: "reads v n s u"
    show "wp (case (es, next_leaf (v p)) of (entries, nxt) \<Rightarrow> bind (lift (f entries)) (\<lambda>(r, done).
        if done then ret r else bind (walk_leaves m f nxt) (\<lambda>rest. ret (r @ rest))))
      (\<lambda>r u. (\<exists>d. f (concat (map snd (x # ls))) = Inr (r, d)) \<and> reads v n s u) (\<lambda>_ _. False) u"
    proof (cases d)
      case True
      then show ?thesis using fe fa u x by (auto simp: wp_eqs)
    next
      case False
      have "wp (walk_leaves m f (next_leaf (v p)))
        (\<lambda>r u'. (\<exists>d. f (concat (map snd ls)) = Inr (r, d)) \<and> reads v n u u') (\<lambda>_ _. False) u"
        by (rule Cons.IH) (use u Cons.prems x m nxt ch in \<open>auto simp: reads_def\<close>)
      then have "wp (walk_leaves m f (next_leaf (v p)))
        (\<lambda>rest. wp (ret (r @ rest)) (\<lambda>r u. (\<exists>d. f (concat (map snd (x # ls))) = Inr (r, d)) \<and> reads v n s u) (\<lambda>_ _. False))
        (\<lambda>_ _. False) u"
        by (rule wp_mono) (use False fa fr u x in \<open>auto simp: wp_eqs intro: reads_trans\<close>)
      with False fe show ?thesis by (simp add: wp_eqs)
    qed
  qed (use p in simp)
qed

end

lemma chained_suffix: "chained v (bs @ ls) \<Longrightarrow> chained v ls"
proof (induction bs)
  case (Cons b bs)
  then show ?case by (cases "bs @ ls"; cases b) (force elim: chained.elims)+
qed simp

lemma leaves_rep: "t_rep v t \<Longrightarrow> \<forall>(p, es) \<in> set (t_leaves t). is_leaf (v p) \<and> get_leaf_entries (v p) = Inr es"
  "s_rep v s \<Longrightarrow> \<forall>(p, es) \<in> set (s_leaves s). is_leaf (v p) \<and> get_leaf_entries (v p) = Inr es"
  by (induction t and s) auto

definition pair_of :: "leaf_entry \<Rightarrow> pair" where
  "pair_of e = (le_key e, le_value e)"

definition wanted_range :: "key \<Rightarrow> key \<Rightarrow> leaf_entry \<Rightarrow> bool" where
  "wanted_range start stop e \<longleftrightarrow> \<not> key_lt (le_key e) start \<and> \<not> key_lt stop (le_key e)"

interpretation all_scan: leaf_scan "\<lambda>es. Inr (map (\<lambda>e. (le_key e, le_value e)) es, False)" "\<lambda>_. True"
  by unfold_locales auto

interpretation range_leaves: leaf_scan "\<lambda>es. Inr (range_entries start stop es)" "\<lambda>_. True" for start stop
proof unfold_locales
  fix es fs r d r' d'
  assume "Inr (range_entries start stop es) = (Inr (r, d) :: exn + _)" "Inr (range_entries start stop fs) = (Inr (r', d') :: exn + _)"
  then show "Inr (range_entries start stop (es @ fs)) = (Inr (if d then (r, True) else (r @ r', d')) :: exn + _)"
    by (induction es arbitrary: r d) (auto simp: Let_def split: if_splits prod.splits)
qed auto

interpretation prefix_leaves: leaf_scan "\<lambda>es. Inr (prefix_entries pre es)" "\<lambda>_. True" for pre
proof unfold_locales
  fix es fs r d r' d'
  assume "Inr (prefix_entries pre es) = (Inr (r, d) :: exn + _)" "Inr (prefix_entries pre fs) = (Inr (r', d') :: exn + _)"
  then show "Inr (prefix_entries pre (es @ fs)) = (Inr (if d then (r, True) else (r @ r', d')) :: exn + _)"
    by (induction es arbitrary: r d) (auto simp: Let_def split: if_splits prod.splits)
qed auto

lemma sorted_entries_Cons:
  "sorted_entries (e # es) \<longleftrightarrow> clean_key (le_key e) \<and> (\<forall>x \<in> set es. key_lt (le_key e) (le_key x)) \<and> sorted_entries es"
  by (auto simp: sorted_entries_def)

lemma sorted_entries_append:
  "sorted_entries (es @ fs) \<longleftrightarrow> sorted_entries es \<and> sorted_entries fs
     \<and> (\<forall>a \<in> set es. \<forall>b \<in> set fs. key_lt (le_key a) (le_key b))"
  by (auto simp: sorted_entries_def sorted_wrt_append)

lemma range_entries_sorted:
  assumes "sorted_entries es" "clean_key start" "clean_key stop"
  shows "fst (range_entries start stop es) = map pair_of (filter (wanted_range start stop) es)"
  using assms(1)
proof (induction es)
  case (Cons e es)
  then have s: "clean_key (le_key e)" "\<forall>x \<in> set es. key_lt (le_key e) (le_key x)" "sorted_entries es"
    by (simp_all add: sorted_entries_Cons)
  have "filter (wanted_range start stop) es = []" if "key_lt stop (le_key e)"
  proof -
    have "key_lt stop (le_key x)" if "x \<in> set es" for x
      using ko.lt_trans [OF assms(3) s(1)] s(2,3) that \<open>key_lt stop (le_key e)\<close> by (auto simp: sorted_entries_def)
    then show ?thesis by (auto simp: wanted_range_def filter_empty_conv)
  qed
  with Cons s show ?case
    by (auto simp: wanted_range_def [of start stop e] pair_of_def Let_def split: prod.split)
qed simp

lemma prefix_below: "clean_key k \<Longrightarrow> clean_key p \<Longrightarrow> key_has_prefix k p \<Longrightarrow> \<not> key_lt k p"
proof (induction k p rule: key_has_prefix.induct)
  case (1 k)
  then show ?case by (cases k) auto
next
  case (3 v k p ps)
  then show ?case using vo.lt_iff [of v p] vo.lt_iff [of p v] by auto
qed auto

lemma prefix_between:
  assumes "clean_key p" "clean_key b" "clean_key c" "\<not> key_lt b p" "key_lt b c" "key_has_prefix c p"
  shows "key_has_prefix b p"
  using assms between_prefix [of "key_rank p" "key_rank b" "key_rank c"]
  by (simp add: key_lt_rank key_has_prefix_rank not_less) (simp add: key_rank_def)

lemma prefix_entries_sorted:
  assumes "sorted_entries es" "clean_key pre"
  shows "fst (prefix_entries pre es) = map pair_of (filter (\<lambda>e. key_has_prefix (le_key e) pre) es)"
  using assms(1)
proof (induction es)
  case (Cons e es)
  then have s: "clean_key (le_key e)" "\<forall>x \<in> set es. key_lt (le_key e) (le_key x)" "sorted_entries es"
    by (simp_all add: sorted_entries_Cons)
  have c: "clean_key (le_key x)" if "x \<in> set es" for x using s(3) that by (simp add: sorted_entries_def)
  have "filter (\<lambda>e. key_has_prefix (le_key e) pre) es = []"
    if "\<not> key_lt (le_key e) pre" "\<not> key_has_prefix (le_key e) pre"
    using prefix_between [OF assms(2) s(1) c that(1)] s(2) that(2) by (auto simp: filter_empty_conv)
  with Cons s prefix_below [OF s(1) assms(2)] show ?case
    by (auto simp: pair_of_def Let_def split: prod.split)
qed simp

section \<open>What the queries return\<close>

definition entry_at :: "key \<Rightarrow> leaf_entry list \<Rightarrow> byte list option" where
  "entry_at x es = map_option le_value (find (\<lambda>e. key_eq (le_key e) x) es)"

lemma find_append: "find P (xs @ ys) = (case find P xs of None \<Rightarrow> find P ys | Some x \<Rightarrow> Some x)"
  by (induction xs) auto

lemma entry_at_split:
  assumes "\<forall>e \<in> set bs. key_lt (le_key e) x" "\<forall>e \<in> set as. key_lt x (le_key e)"
    "clean_key x" "\<forall>e \<in> set (bs @ es @ as). clean_key (le_key e)"
  shows "entry_at x (bs @ es @ as) = entry_at x es"
proof -
  have "\<not> key_eq (le_key e) x" if "e \<in> set bs" for e
    using assms(1,3,4) that ko.lt_iff [of "le_key e" x] by auto
  then have "find (\<lambda>e. key_eq (le_key e) x) bs = None" by (simp add: find_None_iff)
  moreover have "\<not> key_eq (le_key e) x" if "e \<in> set as" for e
    using assms(2,3,4) that ko.lt_iff [of x "le_key e"] ko.eq_sym [of "le_key e" x] by auto
  then have "find (\<lambda>e. key_eq (le_key e) x) as = None" by (simp add: find_None_iff)
  ultimately show ?thesis by (simp add: entry_at_def find_append split: option.split)
qed

text \<open>The descent for a key and the rest of the leaf chain from there.\<close>

lemma tree_at_split:
  fixes s :: "'a btrees_scheme"
  assumes "tree_at s h t" "clean_key x"
  obtains bs es as where "t_leaves t = bs @ (t_find x t, es) # as"
    "\<forall>e \<in> set (concat (map snd bs)). key_lt (le_key e) x"
    "\<forall>e \<in> set (concat (map snd as)). key_lt x (le_key e)"
    "t_entries t = concat (map snd bs) @ es @ concat (map snd as)"
    "chained (view s) ((t_find x t, es) # as)"
    "length ((t_find x t, es) # as) \<le> Suc (unat (total_pages s))"
    "\<forall>(p, fs) \<in> set ((t_find x t, es) # as). get_leaf_entries (view s p) = Inr fs \<and> p < total_pages s"
proof -
  have ok: "t_rep (view s) t" "t_ord t None None" "chained (view s) (t_leaves t)" "distinct (t_pages t)"
    "\<forall>p \<in> set (t_pages t). p < total_pages s"
    using assms(1) by (simp_all add: tree_at_def tree_ok_def)
  obtain bs es as where s: "t_leaves t = bs @ (t_find x t, es) # as"
    "\<forall>e \<in> set (concat (map snd bs)). key_lt (le_key e) x" "\<forall>e \<in> set (concat (map snd as)). key_lt x (le_key e)"
    using find_splits(1) [OF ok(2) _ _ assms(2)] unfolding split_at_def by auto
  have "t_entries t = concat (map snd bs) @ es @ concat (map snd as)"
    using leaves_entries(1) [of t] s(1) by simp
  moreover have "chained (view s) ((t_find x t, es) # as)" using chained_suffix ok(3) s(1) by metis
  moreover have "length ((t_find x t, es) # as) \<le> Suc (unat (total_pages s))"
    using leaves_count(1) [of t] tree_height_fuel [OF ok(4,5)] s(1) by simp
  moreover have "\<forall>(p, fs) \<in> set (t_leaves t). get_leaf_entries (view s p) = Inr fs \<and> p < total_pages s"
    using leaves_rep(1) [OF ok(1)] leaves_pages(1) [of t] ok(5) by force
  ultimately show ?thesis using that [OF s] s(1) by auto
qed

lemma tree_at_sorted:
  fixes s :: "'a btrees_scheme"
  shows "tree_at s h t \<Longrightarrow> sorted_entries (t_entries t)"
  using ord_entries(1) [of t None None] by (simp add: tree_at_def tree_ok_def)

text \<open>A scan that starts at the leaf of \<open>x\<close> runs its body on the entries from that leaf on.\<close>

lemma wp_scan_from_leaf:
  fixes s :: "'a btrees_scheme"
  assumes "leaf_scan f good" "tree_at s h t" "clean_key x" "list_all good (t_entries t)"
    "\<And>bs es r d. t_entries t = bs @ es \<Longrightarrow> \<forall>e \<in> set bs. key_lt (le_key e) x \<Longrightarrow> f es = Inr (r, d) \<Longrightarrow> R r"
  shows "wp (bind (find_leaf_page h x) (scan_from f)) (\<lambda>r u. R r \<and> reads (view s) (total_pages s) s u) (\<lambda>_ _. False) s"
proof -
  obtain bs es as where sp: "t_leaves t = bs @ (t_find x t, es) # as"
    "\<forall>e \<in> set (concat (map snd bs)). key_lt (le_key e) x"
    "t_entries t = concat (map snd bs) @ es @ concat (map snd as)"
    "chained (view s) ((t_find x t, es) # as)" "length ((t_find x t, es) # as) \<le> Suc (unat (total_pages s))"
    "\<forall>(p, fs) \<in> set ((t_find x t, es) # as). get_leaf_entries (view s p) = Inr fs \<and> p < total_pages s"
    by (rule tree_at_split [OF assms(2,3)]) blast
  let ?ls = "(t_find x t, es) # as"
  show ?thesis
    unfolding wp_bind
  proof (rule wp_mono [OF wp_find_leaf [OF assms(2)]], elim conjE)
    fix r u assume r: "r = t_find x t" and u: "reads (view s) (total_pages s) s u"
    have tu: "total_pages u = total_pages s" using u by (simp add: reads_def readable_def)
    have "wp (walk_leaves (Suc (unat (total_pages s))) f (t_find x t))
      (\<lambda>r w. (\<exists>d. f (concat (map snd ?ls)) = Inr (r, d)) \<and> reads (view s) (total_pages s) u w) (\<lambda>_ _. False) u"
      by (rule leaf_scan.walk [OF assms(1)]) (use u sp assms(4) in \<open>auto simp: reads_def\<close>)
    then have "wp (walk_leaves (Suc (unat (total_pages s))) f (t_find x t))
      (\<lambda>r w. R r \<and> reads (view s) (total_pages s) s w) (\<lambda>_ _. False) u"
      by (rule wp_mono) (use u sp(2,3) assms(5) [of "concat (map snd bs)" "concat (map snd ?ls)"] reads_trans in auto)
    then show "wp (scan_from f r) (\<lambda>r w. R r \<and> reads (view s) (total_pages s) s w) (\<lambda>_ _. False) u"
      using tu by (simp add: scan_from_def walk_fuel_def wp_eqs r)
  qed simp
qed

end
