(* ===== verification/BTree_Query.thy ===== *)
theory BTree_Query
  imports BTree_Read
begin

text \<open>
  The queries of the tree: search and the four scans return what the sorted list of the
  tree's entries says, and leave the tree, the pages and the pins as they were.
\<close>

section \<open>The tree is kept\<close>

lemma rep_cong:
  "t_rep v t \<Longrightarrow> \<forall>p \<in> set (t_pages t). v' p = v p \<Longrightarrow> t_rep v' t"
  "s_rep v s \<Longrightarrow> \<forall>p \<in> set (s_pages s). v' p = v p \<Longrightarrow> s_rep v' s"
  by (induction t and s) auto

lemma chained_cong: "chained v ls \<Longrightarrow> \<forall>(p, es) \<in> set ls. v' p = v p \<Longrightarrow> chained v' ls"
  by (induction v ls rule: chained.induct) auto

lemma tree_ok_cong:
  assumes "tree_ok v n root t" "\<forall>q < n. v' q = v q"
  shows "tree_ok v' n root t"
proof -
  have p: "\<forall>p \<in> set (t_pages t). v' p = v p" using assms by (auto simp: tree_ok_def)
  have "\<forall>(p, es) \<in> set (t_leaves t). v' p = v p" using p leaves_pages(1) [of t] by force
  then show ?thesis
    using assms(1) rep_cong(1) [of v t v'] p chained_cong [of v "t_leaves t" v'] by (simp add: tree_ok_def)
qed

lemma roots_of_more:
  fixes s u :: "'a btrees_scheme"
  shows "pool.more u = pool.more s \<Longrightarrow> roots u = roots s"
  by (cases s; cases u) (simp add: pool.defs)

text \<open>What a query leaves: the same tree, pages and members.\<close>

definition query_keeps :: "'a btrees_scheme \<Rightarrow> nat \<Rightarrow> tree \<Rightarrow> 'a btrees_scheme \<Rightarrow> bool" where
  "query_keeps s h t u \<longleftrightarrow> tree_at u h t \<and> same_view s u \<and> pool.more u = pool.more s"

lemma reads_query:
  fixes s u :: "'a btrees_scheme"
  assumes "tree_at s h t" "reads (view s) (total_pages s) s u"
  shows "query_keeps s h t u"
  using assms tree_ok_cong [of "view s" "total_pages s" "roots s h" t "view u"] roots_of_more [of u s]
  by (simp add: query_keeps_def tree_at_def reads_def readable_def same_view_def)

section \<open>The leftmost leaf\<close>

lemma wp_leftmost:
  assumes "readable v n s" "t_rep v t" "\<forall>p \<in> set (t_pages t). p < n" "t_height t < fuel"
  shows "wp (leftmost fuel (t_page t)) (\<lambda>r u. r = fst (hd (t_leaves t)) \<and> reads v n s u) (\<lambda>_ _. False) s"
  using assms
proof (induction fuel arbitrary: s t)
  case 0
  then show ?case by simp
next
  case (Suc fuel)
  show ?case
  proof (cases t)
    case (Leaf p es)
    show ?thesis
      unfolding leftmost.simps Leaf t_page.simps
      by (rule wp_read_node_then [OF Suc.prems(1), of _ _ None]) (use Suc.prems Leaf in \<open>auto simp: wp_eqs\<close>)
  next
    case (Inner p sp)
    obtain c where c: "(case s_seps sp of [] \<Rightarrow> s_last sp | e # _ \<Rightarrow> ie_child e) = t_page c"
      "t_rep v c" "\<forall>q \<in> set (t_pages c). q < n" "t_height c < fuel" "hd (t_leaves c) = hd (s_leaves sp)"
    proof (cases sp)
      case (Last c)
      then show ?thesis using that [of c] Suc.prems Inner by simp
    next
      case (Sep c k sp')
      then show ?thesis using that [of c] Suc.prems Inner leaves_nonempty(1) [of c] by simp
    qed
    show ?thesis
      unfolding leftmost.simps Inner t_page.simps
    proof (rule wp_read_node_then [OF Suc.prems(1), of _ _ "Some (t_page c)"])
      fix u assume u: "reads v n s u"
      have "wp (leftmost fuel (t_page c)) (\<lambda>r w. r = fst (hd (t_leaves c)) \<and> reads v n u w) (\<lambda>_ _. False) u"
        by (rule Suc.IH) (use u c in \<open>auto simp: reads_def\<close>)
      then show "wp (case Some (t_page c) of None \<Rightarrow> ret p | Some child \<Rightarrow> leftmost fuel child)
        (\<lambda>r u. r = fst (hd (t_leaves (Inner p sp))) \<and> reads v n s u) (\<lambda>_ _. False) u"
        unfolding option.case by (rule wp_mono) (use u c(5) in \<open>auto intro: reads_trans\<close>)
    qed (use Suc.prems Inner c(1) in \<open>auto split: list.splits\<close>)
  qed
qed

lemma wp_find_leftmost:
  fixes s :: "'a btrees_scheme"
  assumes "tree_at s h t"
  shows "wp (find_leftmost_leaf h) (\<lambda>r u. r = fst (hd (t_leaves t)) \<and> reads (view s) (total_pages s) s u)
    (\<lambda>_ _. False) s"
proof -
  have ok: "t_page t = roots s h" "t_rep (view s) t" "\<forall>p \<in> set (t_pages t). p < total_pages s" "distinct (t_pages t)"
    using assms by (simp_all add: tree_at_def tree_ok_def)
  have h: "t_height t < Suc (unat (total_pages s))"
    using height_pages(1) [of t] tree_height_fuel [OF ok(4,3)] by simp
  show ?thesis
    unfolding find_leftmost_leaf_def walk_fuel_def root_page_def wp_bind wp_gets
    using wp_leftmost [OF tree_at_readable [OF assms] ok(2,3) h] ok(1) by simp
qed

text \<open>A scan that starts at the leftmost leaf runs its body on all entries.\<close>

lemma wp_scan_from_leftmost:
  fixes s :: "'a btrees_scheme"
  assumes "leaf_scan f good" "tree_at s h t" "list_all good (t_entries t)"
  shows "wp (bind (find_leftmost_leaf h) (scan_from f))
    (\<lambda>r u. (\<exists>d. f (t_entries t) = Inr (r, d)) \<and> reads (view s) (total_pages s) s u) (\<lambda>_ _. False) s"
proof -
  have ok: "t_rep (view s) t" "chained (view s) (t_leaves t)" "distinct (t_pages t)"
    "\<forall>p \<in> set (t_pages t). p < total_pages s"
    using assms(2) by (simp_all add: tree_at_def tree_ok_def)
  have len: "length (t_leaves t) \<le> Suc (unat (total_pages s))"
    using leaves_count(1) [of t] tree_height_fuel [OF ok(3,4)] by simp
  have rep: "\<forall>(p, fs) \<in> set (t_leaves t). get_leaf_entries (view s p) = Inr fs \<and> p < total_pages s"
    using leaves_rep(1) [OF ok(1)] leaves_pages(1) [of t] ok(4) by force
  show ?thesis
    unfolding wp_bind
  proof (rule wp_mono [OF wp_find_leftmost [OF assms(2)]], elim conjE)
    fix r u assume r: "r = fst (hd (t_leaves t))" and u: "reads (view s) (total_pages s) s u"
    have tu: "total_pages u = total_pages s" using u by (simp add: reads_def readable_def)
    have "wp (walk_leaves (Suc (unat (total_pages s))) f (fst (hd (t_leaves t))))
      (\<lambda>r w. (\<exists>d. f (concat (map snd (t_leaves t))) = Inr (r, d)) \<and> reads (view s) (total_pages s) u w) (\<lambda>_ _. False) u"
      by (rule leaf_scan.walk [OF assms(1) _ ok(2) _ rep len])
        (use u assms(3) leaves_nonempty(1) [of t] in
          \<open>auto simp: reads_def leaves_entries split: list.split\<close>)
    then have "wp (walk_leaves (Suc (unat (total_pages s))) f (fst (hd (t_leaves t))))
      (\<lambda>r w. (\<exists>d. f (t_entries t) = Inr (r, d)) \<and> reads (view s) (total_pages s) s w) (\<lambda>_ _. False) u"
      by (rule wp_mono) (use u reads_trans in \<open>auto simp: leaves_entries\<close>)
    then show "wp (scan_from f r) (\<lambda>r w. (\<exists>d. f (t_entries t) = Inr (r, d)) \<and> reads (view s) (total_pages s) s w)
        (\<lambda>_ _. False) u"
      using tu by (simp add: scan_from_def walk_fuel_def wp_eqs r)
  qed simp
qed

section \<open>The bounded scan's body\<close>

definition lower_ok :: "db_value option \<Rightarrow> bool \<Rightarrow> db_value \<Rightarrow> bool" where
  "lower_ok lo incl v = (case lo of None \<Rightarrow> True | Some l \<Rightarrow> value_lt l v \<or> incl \<and> value_eq l v)"

definition upper_ok :: "db_value option \<Rightarrow> bool \<Rightarrow> db_value \<Rightarrow> bool" where
  "upper_ok hi incl v = (case hi of None \<Rightarrow> True | Some u \<Rightarrow> value_lt v u \<or> incl \<and> value_eq v u)"

text \<open>The keys a bounded scan looks for: the prefix, then an element between the bounds.\<close>

definition wanted_bounded :: "key \<Rightarrow> db_value option \<Rightarrow> bool \<Rightarrow> db_value option \<Rightarrow> bool \<Rightarrow> leaf_entry \<Rightarrow> bool" where
  "wanted_bounded pre lo lo_incl hi hi_incl e \<longleftrightarrow> key_has_prefix (le_key e) pre
     \<and> lower_ok lo lo_incl (le_key e ! length pre) \<and> upper_ok hi hi_incl (le_key e ! length pre)"

text \<open>No key is the bare prefix: every key of an index is longer than a proper prefix of its columns.\<close>

definition longer_than :: "key \<Rightarrow> leaf_entry \<Rightarrow> bool" where
  "longer_than pre e \<longleftrightarrow> (key_has_prefix (le_key e) pre \<longrightarrow> length pre < length (le_key e))"

lemma skip_lower:
  "clean_value v \<Longrightarrow> (\<forall>l. lo = Some l \<longrightarrow> clean_value l) \<Longrightarrow>
   (case lo of Some l \<Rightarrow> value_lt v l \<or> \<not> incl \<and> value_eq v l | None \<Rightarrow> False) = (\<not> lower_ok lo incl v)"
  by (cases lo) (auto simp: lower_ok_def value_lt_rank value_eq_rank)

lemma stop_upper:
  "clean_value v \<Longrightarrow> (\<forall>u. hi = Some u \<longrightarrow> clean_value u) \<Longrightarrow>
   (case hi of Some u \<Rightarrow> value_lt u v \<or> \<not> incl \<and> value_eq v u | None \<Rightarrow> False) = (\<not> upper_ok hi incl v)"
  by (cases hi) (auto simp: upper_ok_def value_lt_rank value_eq_rank)

lemma upper_mono:
  "clean_value v \<Longrightarrow> clean_value w \<Longrightarrow> (\<forall>u. hi = Some u \<longrightarrow> clean_value u) \<Longrightarrow> \<not> value_lt w v \<Longrightarrow>
   upper_ok hi incl w \<Longrightarrow> upper_ok hi incl v"
  by (cases hi) (auto simp: upper_ok_def value_lt_rank value_eq_rank)

lemma element_mono:
  "clean_key k \<Longrightarrow> clean_key c \<Longrightarrow> clean_key pre \<Longrightarrow> key_has_prefix k pre \<Longrightarrow> key_has_prefix c pre \<Longrightarrow>
   length pre < length k \<Longrightarrow> length pre < length c \<Longrightarrow> key_lt k c \<Longrightarrow> \<not> value_lt (c ! length pre) (k ! length pre)"
proof (induction pre arbitrary: k c)
  case Nil
  then show ?case by (cases k; cases c) (auto split: if_splits simp: value_lt_rank)
next
  case (Cons p pre)
  then show ?case by (cases k; cases c) (auto split: if_splits simp: value_lt_rank value_eq_rank)
qed

lemma element_below:
  "clean_key k \<Longrightarrow> clean_key (pre @ [l]) \<Longrightarrow> key_has_prefix k pre \<Longrightarrow>
   length pre < length k \<Longrightarrow> key_lt k (pre @ [l]) \<Longrightarrow> value_lt (k ! length pre) l"
proof (induction pre arbitrary: k)
  case Nil
  then obtain a k' where "k = a # k'" by (cases k) auto
  with Nil show ?case by (cases k') (auto split: if_splits)
next
  case (Cons p pre)
  then obtain a k' where k: "k = a # k'" by (cases k) auto
  then have "\<not> value_lt a p" "\<not> value_lt p a" using Cons.prems by (auto simp: value_lt_rank value_eq_rank)
  then have "key_lt k' (pre @ [l])" using Cons.prems k by simp
  then show ?case using Cons.IH [of k'] Cons.prems k by simp
qed

lemma take_le: "take n xs \<le> (xs :: 'a :: linorder list)"
proof (induction xs arbitrary: n)
  case (Cons x xs)
  then show ?case by (cases n) simp_all
qed simp

lemma clean_take: "clean_key k \<Longrightarrow> clean_key (take n k)"
  by (auto simp: clean_key_def list_all_iff dest: in_set_takeD)

lemma clean_nth: "clean_key k \<Longrightarrow> i < length k \<Longrightarrow> clean_value (k ! i)"
  by (simp add: clean_key_def list_all_length)

lemma cut_not_below:
  assumes "clean_key k" "clean_key p" "\<not> key_lt (take n k) p"
  shows "\<not> key_lt k p"
proof -
  have "key_rank p \<le> key_rank (take n k)"
    using assms clean_take [OF assms(1), of n] by (simp add: key_lt_rank not_less)
  also have "\<dots> \<le> key_rank k" using take_le [of n "key_rank k"] by (simp add: key_rank_def take_map)
  finally show ?thesis using assms(1,2) by (simp add: key_lt_rank)
qed

lemma bounded_entries_total:
  "list_all (longer_than pre) es \<Longrightarrow> \<exists>r d. bounded_entries pre lo lo_incl hi hi_incl es = Inr (r, d)"
  by (induction es) (auto simp: longer_than_def Let_def not_le [symmetric])

lemma bounded_step:
  assumes "longer_than pre e" "clean_key (le_key e)" "clean_key pre"
    "\<forall>l. lo = Some l \<longrightarrow> clean_value l" "\<forall>u. hi = Some u \<longrightarrow> clean_value u"
  shows "bounded_entries pre lo lo_incl hi hi_incl (e # es) =
    (let k = le_key e; skip = bounded_entries pre lo lo_incl hi hi_incl es in
     if \<not> key_has_prefix k pre then
       (if key_lt (take (min (length pre) (length k)) k) pre then skip else Inr ([], True))
     else if \<not> lower_ok lo lo_incl (k ! length pre) then skip
     else if \<not> upper_ok hi hi_incl (k ! length pre) then Inr ([], True)
     else sbind skip (\<lambda>(r, done). Inr ((k, le_value e) # r, done)))"
proof (cases "key_has_prefix (le_key e) pre")
  case True
  then have len: "length pre < length (le_key e)" using assms(1) by (simp add: longer_than_def)
  then have "clean_value (le_key e ! length pre)" using clean_nth assms(2) by simp
  with True len skip_lower [OF _ assms(4)] stop_upper [OF _ assms(5)] show ?thesis
    by (simp add: Let_def)
qed (simp add: Let_def)

lemma bounded_entries_sorted:
  assumes "sorted_entries es" "list_all (longer_than pre) es" "clean_key pre"
    "\<forall>l. lo = Some l \<longrightarrow> clean_value l" "\<forall>u. hi = Some u \<longrightarrow> clean_value u"
    "bounded_entries pre lo lo_incl hi hi_incl es = Inr (r, d)"
  shows "r = map pair_of (filter (wanted_bounded pre lo lo_incl hi hi_incl) es)"
  using assms(1,2,6)
proof (induction es arbitrary: r d)
  case (Cons e es)
  let ?w = "wanted_bounded pre lo lo_incl hi hi_incl"
  let ?k = "le_key e"
  have s: "clean_key ?k" "\<forall>x \<in> set es. key_lt ?k (le_key x)" "sorted_entries es"
    and l: "longer_than pre e" "list_all (longer_than pre) es"
    using Cons.prems by (simp_all add: sorted_entries_Cons)
  have c: "clean_key (le_key x)" if "x \<in> set es" for x using s(3) that by (simp add: sorted_entries_def)
  note IH = Cons.IH [OF s(3) l(2)]
  note run = Cons.prems(3) [unfolded bounded_step [OF l(1) s(1) assms(3,4,5)]]
  consider (skip) "\<not> ?w e" "bounded_entries pre lo lo_incl hi hi_incl es = Inr (r, d)"
    | (behind) "\<not> key_has_prefix ?k pre" "\<not> key_lt (take (min (length pre) (length ?k)) ?k) pre" "r = []"
    | (over) "key_has_prefix ?k pre" "\<not> upper_ok hi hi_incl (?k ! length pre)" "r = []"
    | (hit) r' where "?w e" "bounded_entries pre lo lo_incl hi hi_incl es = Inr (r', d)" "r = pair_of e # r'"
    using run by (auto simp: Let_def wanted_bounded_def pair_of_def sbind_Inr_conv split: if_splits prod.splits)
  then show ?case
  proof cases
    case skip
    then show ?thesis using IH by simp
  next
    case behind
    have "\<not> key_lt ?k pre" using cut_not_below [OF s(1) assms(3) behind(2)] .
    then have "\<not> key_has_prefix (le_key x) pre" if "x \<in> set es" for x
      using prefix_between [OF assms(3) s(1) c] s(2) that behind(1) by blast
    then have "filter ?w (e # es) = []" using behind(1) by (auto simp: wanted_bounded_def filter_empty_conv)
    with behind(3) show ?thesis by simp
  next
    case over
    have len: "length pre < length ?k" using l(1) over(1) by (simp add: longer_than_def)
    have "\<not> ?w x" if x: "x \<in> set es" for x
    proof
      assume w: "?w x"
      then have px: "key_has_prefix (le_key x) pre" "upper_ok hi hi_incl (le_key x ! length pre)"
        by (simp_all add: wanted_bounded_def)
      have lx: "length pre < length (le_key x)"
        using l(2) x px(1) by (auto simp: list_all_iff longer_than_def)
      have "\<not> value_lt (le_key x ! length pre) (?k ! length pre)"
        using element_mono [OF s(1) c [OF x] assms(3) over(1) px(1) len lx] s(2) x by blast
      then show False
        using upper_mono [OF clean_nth [OF s(1) len] clean_nth [OF c [OF x] lx] assms(5)] px(2) over(2) by blast
    qed
    then have "filter ?w (e # es) = []" using over(2) by (auto simp: wanted_bounded_def filter_empty_conv)
    with over(3) show ?thesis by simp
  next
    case hit
    then show ?thesis using IH [OF hit(2)] by simp
  qed
qed simp

lemma bounded_scan_leaves: "leaf_scan (bounded_entries pre lo lo_incl hi hi_incl) (longer_than pre)"
proof unfold_locales
  fix es fs :: "leaf_entry list" and r r' d d'
  assume "bounded_entries pre lo lo_incl hi hi_incl es = Inr (r, d)"
    "bounded_entries pre lo lo_incl hi hi_incl fs = Inr (r', d')"
  then show "bounded_entries pre lo lo_incl hi hi_incl (es @ fs) = Inr (if d then (r, True) else (r @ r', d'))"
  proof (induction es arbitrary: r d)
    case (Cons a es)
    define c where "c = key_lt (take (min (length pre) (length (le_key a))) (le_key a)) pre"
    have step: "bounded_entries pre lo lo_incl hi hi_incl (a # gs) =
      (let k = le_key a; skip = bounded_entries pre lo lo_incl hi hi_incl gs in
       if \<not> key_has_prefix k pre then (if c then skip else Inr ([], True))
       else if length k \<le> length pre then Inl (Undefined_behaviour ''key[prefix.size()] behind the key'')
       else let v = k ! length pre in
         if (case lo of Some l \<Rightarrow> value_lt v l \<or> \<not> lo_incl \<and> value_eq v l | None \<Rightarrow> False) then skip
         else if (case hi of Some u \<Rightarrow> value_lt u v \<or> \<not> hi_incl \<and> value_eq v u | None \<Rightarrow> False) then Inr ([], True)
         else sbind skip (\<lambda>(r, done). Inr ((k, le_value a) # r, done)))" for gs
      by (simp add: c_def Let_def)
    show ?case
      using Cons.prems Cons.IH unfolding append_Cons step
      by (auto simp: Let_def sbind_Inr_conv simp del: bounded_entries.simps(2) split: if_splits)
  qed simp
qed (use bounded_entries_total in auto)

interpretation bounded_leaves: leaf_scan "bounded_entries pre lo lo_incl hi hi_incl" "longer_than pre"
  for pre lo lo_incl hi hi_incl
  by (rule bounded_scan_leaves)

section \<open>A sample tree\<close>

definition pages_disk :: "page list \<Rightarrow> disk" where
  "pages_disk ps = \<lparr>io = [], db_file = concat ps, db_stable = concat ps, total_pages = word_of_nat (length ps)\<rparr>"

definition pages_btrees :: "page list \<Rightarrow> u32 \<Rightarrow> btrees" where
  "pages_btrees ps root = hdr.extend (wal.extend (pool.extend (pool_open (pages_disk ps))
     \<lparr>wal_file = [], wal_stable = [], next_transaction_id = 1,
      checkpoint_threshold_bytes = DEFAULT_CHECKPOINT_THRESHOLD_BYTES, active_pages = []\<rparr>)
     \<lparr>db_hdr = fresh_header\<rparr>) \<lparr>roots = (\<lambda>_. root)\<rparr>"

lemma chunk_concat_pages:
  "\<forall>p \<in> set ps. length p = PAGE_SIZE \<Longrightarrow> i < length ps \<Longrightarrow> chunk (i * PAGE_SIZE) PAGE_SIZE (concat ps) = ps ! i"
proof (induction ps arbitrary: i)
  case (Cons p ps)
  then show ?case by (cases i) (simp_all add: chunk_def drop_append)
qed simp

lemma length_concat_pages: "\<forall>p \<in> set ps. length p = PAGE_SIZE \<Longrightarrow> length (concat ps) = length ps * PAGE_SIZE"
  by (induction ps) simp_all

lemma pages_btrees_ok:
  assumes "\<forall>p \<in> set ps. length p = PAGE_SIZE" "length ps < 2 ^ 32"
  shows "pool_inv (pages_btrees ps r)" "pool_calm (pages_btrees ps r)"
    "total_pages (pages_btrees ps r) = word_of_nat (length ps)" "roots (pages_btrees ps r) h = r"
    "i < length ps \<Longrightarrow> view (pages_btrees ps r) (word_of_nat i) = ps ! i"
proof -
  let ?d = "pages_disk ps"
  have u: "unat (word_of_nat (length ps) :: u32) = length ps" using assms(2) by (simp add: unat_of_nat)
  have "disk_inv ?d" using u length_concat_pages [OF assms(1)] by (simp add: disk_inv_def pages_disk_def)
  then have o: "pool_inv (pool_open ?d)" by (rule pool_inv_open)
  let ?s = "pages_btrees ps r"
  have f: "db_file ?s = concat ps" "total_pages ?s = word_of_nat (length ps)" "io ?s = []"
    "frames ?s = frames (pool_open ?d)" "frame_metas ?s = frame_metas (pool_open ?d)"
    "page_table ?s = []" "lru_list ?s = lru_list (pool_open ?d)"
    "db_file (pool_open ?d) = concat ps" "total_pages (pool_open ?d) = word_of_nat (length ps)"
    "page_table (pool_open ?d) = []"
    by (simp_all add: pages_btrees_def hdr.defs wal.defs pool.defs pool_open_def disk.defs pages_disk_def)
  have "pool_inv ?s = pool_inv (pool_open ?d)"
    using f by (simp add: pool_inv_def disk_inv_def frames_ok_def table_ok_def slot_ok_def disk_page_def Let_def)
  with o show "pool_inv ?s" by simp
  have "pins ?s q = 0" for q by (simp add: pins_def f)
  with f(3) show "pool_calm ?s" by (simp add: pool_calm_def)
  show "total_pages ?s = word_of_nat (length ps)" by (rule f(2))
  show "roots ?s h = r" by (simp add: pages_btrees_def hdr.defs)
  show "view ?s (word_of_nat i) = ps ! i" if "i < length ps"
    using that assms chunk_concat_pages [OF assms(1) that] by (simp add: view_def f disk_page_def unat_of_nat)
qed

text \<open>A root with one separator over two leaves.\<close>

definition sample_key :: "nat \<Rightarrow> leaf_entry" where
  "sample_key n = \<lparr>le_key = [IntV (word_of_nat n), IntV 0], le_value = [word_of_nat n]\<rparr>"

definition sample_left :: "leaf_entry list" where "sample_left = [sample_key 1, sample_key 2]"
definition sample_right :: "leaf_entry list" where "sample_right = [sample_key 3, sample_key 4]"
definition sample_root :: "internal_entry list" where "sample_root = [\<lparr>ie_key = [IntV 3], ie_child = 1\<rparr>]"

definition sample_pages :: "page list" where
  "sample_pages = [zero_page,
     set_next_leaf 2 (case set_leaf_entries sample_left (init_node LEAF) of Inr q \<Rightarrow> q | _ \<Rightarrow> zero_page),
     (case set_leaf_entries sample_right (init_node LEAF) of Inr q \<Rightarrow> q | _ \<Rightarrow> zero_page),
     set_rightmost_child 2 (case set_internal_entries sample_root (init_node INTERNAL) of Inr q \<Rightarrow> q | _ \<Rightarrow> zero_page)]"

definition sample_btrees :: btrees where "sample_btrees = pages_btrees sample_pages 3"

definition sample_tree :: tree where
  "sample_tree = Inner 3 (Sep (Leaf 1 sample_left) [IntV 3] (Last (Leaf 2 sample_right)))"

lemma sample_leaf_pages:
  assumes "es = [sample_key m, sample_key n]"
  shows "\<exists>q. set_leaf_entries es (init_node LEAF) = Inr q \<and> node_ok q \<and> get_leaf_entries q = Inr es
    \<and> is_leaf q \<and> next_leaf q = INVALID_PAGE"
proof -
  have b: "leaf_bytes es \<le> capacity"
    using assms by (simp add: leaf_bytes_def leaf_cell_def key_encode_def sample_key_def capacity_def PAGE_SIZE_def NODE_HEADER_SIZE_def)
  have f: "list_all leaf_entry_fits es"
    using assms by (simp add: leaf_entry_fits_def key_fits_def value_fits_def sample_key_def)
  show ?thesis using set_leaf_entries_ok [of "init_node LEAF" es] b f by (auto simp: is_leaf_def)
qed

lemma sample_root_page:
  "\<exists>q. set_internal_entries sample_root (init_node INTERNAL) = Inr q \<and> node_ok q
     \<and> get_internal_entries q = Inr sample_root \<and> \<not> is_leaf q"
proof -
  have b: "internal_bytes sample_root \<le> capacity"
    by (simp add: internal_bytes_def internal_cell_def key_encode_def sample_root_def capacity_def PAGE_SIZE_def NODE_HEADER_SIZE_def)
  have f: "list_all (\<lambda>e. key_fits (ie_key e)) sample_root"
    by (simp add: key_fits_def value_fits_def sample_root_def)
  show ?thesis
    using set_internal_entries_ok [of "init_node INTERNAL" sample_root] b f by (auto simp: is_leaf_def INTERNAL_def LEAF_def)
qed

lemma sample_tree_at: "tree_at sample_btrees h sample_tree"
proof -
  obtain l where l: "set_leaf_entries sample_left (init_node LEAF) = Inr l" "node_ok l"
    "get_leaf_entries l = Inr sample_left" "is_leaf l"
    using sample_leaf_pages [OF sample_left_def] by blast
  obtain r where r: "set_leaf_entries sample_right (init_node LEAF) = Inr r" "node_ok r"
    "get_leaf_entries r = Inr sample_right" "is_leaf r" "next_leaf r = INVALID_PAGE"
    using sample_leaf_pages [OF sample_right_def] by blast
  obtain t where t: "set_internal_entries sample_root (init_node INTERNAL) = Inr t" "node_ok t"
    "get_internal_entries t = Inr sample_root" "\<not> is_leaf t"
    using sample_root_page by blast
  have ps: "sample_pages = [zero_page, set_next_leaf 2 l, r, set_rightmost_child 2 t]"
    by (simp add: sample_pages_def l r t)
  have len: "\<forall>p \<in> set sample_pages. length p = PAGE_SIZE" "length sample_pages < 2 ^ 32"
    using l(2) r(2) t(2) by (simp_all add: ps)
  note ok = pages_btrees_ok [OF len, where r = 3]
  have v: "view sample_btrees 1 = set_next_leaf 2 l" "view sample_btrees 2 = r"
    "view sample_btrees 3 = set_rightmost_child 2 t"
    using ok(5) [where i = 1] ok(5) [where i = 2] ok(5) [where i = 3] by (simp_all add: sample_btrees_def ps numeral_eq_Suc)
  have "t_rep (view sample_btrees) sample_tree"
    using l r t by (simp add: sample_tree_def v is_leaf_def sample_root_def)
  moreover have "chained (view sample_btrees) (t_leaves sample_tree)"
    using l r by (simp add: sample_tree_def v)
  moreover have "t_ord sample_tree None None"
    by (simp add: sample_tree_def sample_left_def sample_right_def sample_key_def sorted_entries_def
        above_def below_def clean_value_def)
  moreover have "distinct (t_pages sample_tree)" "\<forall>p \<in> set (t_pages sample_tree). p < 4"
    by (simp_all add: sample_tree_def)
  ultimately show ?thesis
    using ok(1-4) by (simp add: tree_at_def tree_ok_def sample_btrees_def ps) (simp add: sample_tree_def)
qed

lemma sample_tree_entries:
  "t_entries sample_tree = [sample_key 1, sample_key 2, sample_key 3, sample_key 4]"
  by (simp add: sample_tree_def sample_left_def sample_right_def)

lemma wp_prefix_scan:
  fixes s :: "'a btrees_scheme"
  assumes "tree_at s h t" "clean_key pre"
  shows "wp (prefix_scan h pre) (\<lambda>r u. query_keeps s h t u
      \<and> r = map pair_of (filter (\<lambda>e. key_has_prefix (le_key e) pre) (t_entries t))) (\<lambda>_ _. False) s"
proof -
  have so: "sorted_entries (t_entries t)" by (rule tree_at_sorted [OF assms(1)])
  have r: "r = map pair_of (filter (\<lambda>e. key_has_prefix (le_key e) pre) (t_entries t))"
    if sp: "t_entries t = bs @ es" "\<forall>e \<in> set bs. key_lt (le_key e) pre"
      and run: "(Inr (prefix_entries pre es) :: exn + _) = Inr (r, d)" for bs es r d
  proof -
    have "\<not> key_has_prefix (le_key e) pre" if "e \<in> set bs" for e
      using prefix_below [OF _ assms(2), of "le_key e"] so sp that by (auto simp: sorted_entries_def)
    then have "filter (\<lambda>e. key_has_prefix (le_key e) pre) bs = []" by (simp add: filter_empty_conv)
    moreover have "sorted_entries es" using so sp(1) by (simp add: sorted_entries_append)
    ultimately show ?thesis using prefix_entries_sorted [OF _ assms(2), of es] run sp(1) by simp
  qed
  show ?thesis
    unfolding prefix_scan_def
    by (rule wp_mono [OF wp_scan_from_leaf [OF prefix_leaves.leaf_scan_axioms assms(1,2) _ r]])
      (use reads_query [OF assms(1)] in \<open>auto simp: list_all_iff\<close>)
qed


section \<open>Properties\<close>

lemma wp_btree_search:
  fixes s :: "'a btrees_scheme"
  assumes "tree_at s h t" "clean_key x"
  shows "wp (btree_search h x) (\<lambda>r u. query_keeps s h t u
      \<and> (\<forall>v. r = Some v \<longleftrightarrow> (\<exists>e \<in> set (t_entries t). key_eq (le_key e) x \<and> le_value e = v))) (\<lambda>_ _. False) s"
proof -
  obtain bs es as where sp: "t_leaves t = bs @ (t_find x t, es) # as"
    "\<forall>e \<in> set (concat (map snd bs)). key_lt (le_key e) x" "\<forall>e \<in> set (concat (map snd as)). key_lt x (le_key e)"
    "t_entries t = concat (map snd bs) @ es @ concat (map snd as)"
    "\<forall>(p, fs) \<in> set ((t_find x t, es) # as). get_leaf_entries (view s p) = Inr fs \<and> p < total_pages s"
    by (rule tree_at_split [OF assms]) blast
  have so: "sorted_entries (t_entries t)" by (rule tree_at_sorted [OF assms(1)])
  have c: "clean_key (le_key e)" if "e \<in> set (t_entries t)" for e
    using so that by (simp add: sorted_entries_def)
  have leaf: "entry_at x (t_entries t) = entry_at x es"
    unfolding sp(4) by (rule entry_at_split [OF sp(2,3) assms(2)]) (use c sp(4) in auto)
  have uniq: "e = e'" if q: "e \<in> set (t_entries t)" "e' \<in> set (t_entries t)" "key_eq (le_key e) x" "key_eq (le_key e') x" for e e'
  proof -
    obtain i j where ij: "i < length (t_entries t)" "e = t_entries t ! i" "j < length (t_entries t)" "e' = t_entries t ! j"
      using q(1,2) by (metis in_set_conv_nth)
    have "i = j"
      using ko.sorted_lookup_unique [of "map le_key (t_entries t)" x i j] so ij q(3,4) assms(2)
      by (auto simp: sorted_entries_def sorted_wrt_map)
    with ij show ?thesis by simp
  qed
  have spec: "entry_at x (t_entries t) = Some v \<longleftrightarrow> (\<exists>e \<in> set (t_entries t). key_eq (le_key e) x \<and> le_value e = v)" for v
  proof (cases "find (\<lambda>e. key_eq (le_key e) x) (t_entries t)")
    case None
    then show ?thesis using None [unfolded find_None_iff] by (auto simp: entry_at_def)
  next
    case (Some e)
    then have e: "e \<in> set (t_entries t)" "key_eq (le_key e) x" by (auto simp: find_Some_iff)
    with Some show ?thesis using uniq by (auto simp: entry_at_def)
  qed
  show ?thesis
    unfolding btree_search_def wp_bind
  proof (rule wp_mono [OF wp_find_leaf [OF assms(1)]], elim conjE)
    fix r u assume r: "r = t_find x t" and u: "reads (view s) (total_pages s) s u"
    have ru: "readable (view s) (total_pages s) u" using u by (simp add: reads_def)
    have g: "find_in_leaf x (view s r) = Inr (entry_at x es)"
      using sp(5) r by (simp add: find_in_leaf_def entry_at_def)
    show "wp (read_node r (find_in_leaf x)) (\<lambda>r u. query_keeps s h t u
      \<and> (\<forall>v. r = Some v \<longleftrightarrow> (\<exists>e \<in> set (t_entries t). key_eq (le_key e) x \<and> le_value e = v))) (\<lambda>_ _. False) u"
    proof (rule wp_mono [OF wp_read_node [where g = "find_in_leaf x", OF ru _ g]])
      show "r < total_pages s" using sp(5) r by simp
      fix y w assume "y = entry_at x es \<and> reads (view s) (total_pages s) u w"
      then show "query_keeps s h t w \<and> (\<forall>v. y = Some v \<longleftrightarrow> (\<exists>e \<in> set (t_entries t). key_eq (le_key e) x \<and> le_value e = v))"
        using leaf spec reads_query [OF assms(1) reads_trans [OF u]] by simp
    qed
  qed
qed

text \<open>
  Property C13. Search is correct: in a well-formed tree of any height, looking a key up
  returns the value of the entry with an equal key, and nothing when there is none. It
  cannot fail when no I/O fails, ends within its fuel, and leaves tree, pages and pins alone.
\<close>

theorem search_correct:
  fixes s :: "'a btrees_scheme"
  assumes "tree_at s h t" "clean_key x"
  shows "wp (btree_search h x) (\<lambda>r u. query_keeps s h t u
      \<and> (\<forall>v. r = Some v \<longleftrightarrow> (\<exists>e \<in> set (t_entries t). key_eq (le_key e) x \<and> le_value e = v))) (\<lambda>_ _. False) s"
  by (rule wp_btree_search [OF assms])

theorem search_correct_witness:
  "wp (btree_search 0 [IntV 4, IntV 0]) (\<lambda>r u. r = Some [4]) (\<lambda>_ _. False) sample_btrees
   \<and> wp (btree_search 0 [IntV 9]) (\<lambda>r u. r = None) (\<lambda>_ _. False) sample_btrees"
proof -
  have "wp (btree_search 0 [IntV 4, IntV 0]) (\<lambda>r u. r = Some [4]) (\<lambda>_ _. False) sample_btrees"
    by (rule wp_mono [OF search_correct [OF sample_tree_at]])
      (simp_all add: clean_value_def sample_tree_entries sample_key_def)
  moreover have "wp (btree_search 0 [IntV 9]) (\<lambda>r u. r = None) (\<lambda>_ _. False) sample_btrees"
    by (rule wp_mono [OF search_correct [OF sample_tree_at]])
      (simp_all add: clean_value_def sample_tree_entries sample_key_def not_None_eq [symmetric] del: not_None_eq)
  ultimately show ?thesis by simp
qed

text \<open>
  A full scan returns every entry of the tree once, in ascending key order.
\<close>

lemma scan_all_correct:
  fixes s :: "'a btrees_scheme"
  assumes "tree_at s h t"
  shows "wp (scan_all h) (\<lambda>r u. query_keeps s h t u \<and> r = map pair_of (t_entries t)
      \<and> sorted_wrt (\<lambda>a b. key_lt (fst a) (fst b)) r) (\<lambda>_ _. False) s"
proof -
  have so: "sorted_wrt (\<lambda>a b. key_lt (fst a) (fst b)) (map pair_of (t_entries t))"
    using tree_at_sorted [OF assms] by (simp add: sorted_entries_def sorted_wrt_map pair_of_def)
  have p: "pair_of = (\<lambda>e. (le_key e, le_value e))" by (simp add: fun_eq_iff pair_of_def)
  show ?thesis
    unfolding scan_all_def
    by (rule wp_mono [OF wp_scan_from_leftmost [OF all_scan.leaf_scan_axioms assms]])
      (use so reads_query [OF assms] in \<open>auto simp: p list_all_iff\<close>)
qed

lemma scan_all_correct_example:
  "wp (scan_all 0) (\<lambda>r u. map snd r = [[1], [2], [3], [4]]) (\<lambda>_ _. False) sample_btrees"
  by (rule wp_mono [OF scan_all_correct [OF sample_tree_at]])
    (simp_all add: sample_tree_entries sample_key_def pair_of_def)

text \<open>
  A range scan returns exactly the entries whose key is neither less than the
  start nor greater than the end, both ends included, in ascending order, though it starts in
  the middle of the tree and stops at the first key behind the end.
\<close>

lemma range_scan_correct:
  fixes s :: "'a btrees_scheme"
  assumes "tree_at s h t" "clean_key start" "clean_key stop"
  shows "wp (range_scan h start stop) (\<lambda>r u. query_keeps s h t u
      \<and> r = map pair_of (filter (wanted_range start stop) (t_entries t))) (\<lambda>_ _. False) s"
proof -
  have so: "sorted_entries (t_entries t)" by (rule tree_at_sorted [OF assms(1)])
  have r: "r = map pair_of (filter (wanted_range start stop) (t_entries t))"
    if sp: "t_entries t = bs @ es" "\<forall>e \<in> set bs. key_lt (le_key e) start"
      and run: "(Inr (range_entries start stop es) :: exn + _) = Inr (r, d)" for bs es r d
  proof -
    have "filter (wanted_range start stop) bs = []" using sp(2) by (auto simp: wanted_range_def filter_empty_conv)
    moreover have "sorted_entries es" using so sp(1) by (simp add: sorted_entries_append)
    ultimately show ?thesis using range_entries_sorted [OF _ assms(2,3), of es] run sp(1) by simp
  qed
  show ?thesis
    unfolding range_scan_def
    by (rule wp_mono [OF wp_scan_from_leaf [OF range_leaves.leaf_scan_axioms assms(1,2) _ r]])
      (use reads_query [OF assms(1)] in \<open>auto simp: list_all_iff\<close>)
qed

lemma range_scan_correct_example:
  "wp (range_scan 0 [IntV 2] [IntV 3, IntV 0]) (\<lambda>r u. map snd r = [[2], [3]]) (\<lambda>_ _. False) sample_btrees"
  by (rule wp_mono [OF range_scan_correct [OF sample_tree_at]])
    (simp_all add: clean_value_def sample_tree_entries sample_key_def pair_of_def wanted_range_def)

text \<open>
  A prefix scan returns exactly the entries whose key starts with the prefix.
\<close>

lemma prefix_scan_correct:
  fixes s :: "'a btrees_scheme"
  assumes "tree_at s h t" "clean_key pre"
  shows "wp (prefix_scan h pre) (\<lambda>r u. query_keeps s h t u
      \<and> r = map pair_of (filter (\<lambda>e. key_has_prefix (le_key e) pre) (t_entries t))) (\<lambda>_ _. False) s"
  by (rule wp_prefix_scan [OF assms])

lemma prefix_scan_correct_example:
  "wp (prefix_scan 0 [IntV 3]) (\<lambda>r u. map snd r = [[3]]) (\<lambda>_ _. False) sample_btrees"
  by (rule wp_mono [OF prefix_scan_correct [OF sample_tree_at]])
    (simp_all add: clean_value_def sample_tree_entries sample_key_def pair_of_def)

lemma wp_bounded_scan:
  fixes s :: "'a btrees_scheme"
  assumes "tree_at s h t" "clean_key pre" "\<forall>l. lo = Some l \<longrightarrow> clean_value l" "\<forall>u. hi = Some u \<longrightarrow> clean_value u"
    "list_all (longer_than pre) (t_entries t)"
  shows "wp (bounded_scan h pre lo lo_incl hi hi_incl) (\<lambda>r u. query_keeps s h t u
      \<and> r = map pair_of (filter (wanted_bounded pre lo lo_incl hi hi_incl) (t_entries t))) (\<lambda>_ _. False) s"
proof -
  let ?w = "wanted_bounded pre lo lo_incl hi hi_incl" and ?f = "bounded_entries pre lo lo_incl hi hi_incl"
  have so: "sorted_entries (t_entries t)" by (rule tree_at_sorted [OF assms(1)])
  have r: "r = map pair_of (filter ?w (t_entries t))"
    if sp: "t_entries t = bs @ es" "\<forall>e \<in> set bs. \<not> ?w e" and run: "?f es = Inr (r, d)" for bs es r d
  proof -
    have "filter ?w bs = []" using sp(2) by (auto simp: filter_empty_conv)
    moreover have "sorted_entries es" "list_all (longer_than pre) es"
      using so assms(5) sp(1) by (simp_all add: sorted_entries_append)
    ultimately show ?thesis using bounded_entries_sorted [OF _ _ assms(2-4) run] sp(1) by simp
  qed
  have cl: "clean_key (le_key e)" "longer_than pre e" if "e \<in> set (t_entries t)" for e
    using so assms(5) that by (auto simp: sorted_entries_def list_all_iff)
  have low: "\<not> ?w e" if "lo = Some l" "key_lt (le_key e) (pre @ [l])" "e \<in> set (t_entries t)" for e l
  proof
    assume w: "?w e"
    then have p: "key_has_prefix (le_key e) pre" "length pre < length (le_key e)"
      using cl(2) [OF that(3)] by (auto simp: wanted_bounded_def longer_than_def)
    have "value_lt (le_key e ! length pre) l"
      using element_below [OF cl(1) [OF that(3)] _ p that(2)] assms(2,3) that(1) by simp
    then show False
      using w that(1) assms(3) clean_nth [OF cl(1) [OF that(3)] p(2)]
      by (auto simp: wanted_bounded_def lower_ok_def value_lt_rank value_eq_rank)
  qed
  have all: "r = map pair_of (filter ?w (t_entries t))" if "?f (t_entries t) = Inr (r, d)" for r d
    by (rule r [of "[]" "t_entries t"]) (use that in auto)
  note kept = reads_query [OF assms(1)]
  consider (prefix) "lo = None \<and> hi = None" | (lower) l where "lo = Some l"
    | (upper) "lo = None" "hi \<noteq> None" "pre \<noteq> []" | (first) "lo = None" "hi \<noteq> None" "pre = []" by (cases lo) auto
  then show ?thesis
  proof cases
    case prefix
    have "wp (prefix_scan h pre) (\<lambda>r u. query_keeps s h t u
      \<and> r = map pair_of (filter (\<lambda>e. key_has_prefix (le_key e) pre) (t_entries t))) (\<lambda>_ _. False) s"
      using wp_prefix_scan [OF assms(1,2)] .
    then show ?thesis using prefix
      by (simp add: bounded_scan_def wanted_bounded_def [abs_def] lower_ok_def upper_ok_def)
  next
    case lower
    have "wp (bind (find_leaf_page h (pre @ [l])) (scan_from ?f))
      (\<lambda>r u. r = map pair_of (filter ?w (t_entries t)) \<and> reads (view s) (total_pages s) s u) (\<lambda>_ _. False) s"
      by (rule wp_scan_from_leaf [OF bounded_leaves.leaf_scan_axioms assms(1) _ assms(5)])
        (use assms(2,3) lower in simp, rule r, use low [OF lower] in auto)
    moreover have "bounded_scan h pre lo lo_incl hi hi_incl = (bind (find_leaf_page h (pre @ [l])) (scan_from ?f) :: ('a btrees_scheme, pair list) eff)"
      using lower by (auto simp: bounded_scan_def)
    ultimately show ?thesis by (simp only:) (erule wp_mono, auto intro: kept)
  next
    case upper
    have "wp (bind (find_leaf_page h pre) (scan_from ?f))
      (\<lambda>r u. r = map pair_of (filter ?w (t_entries t)) \<and> reads (view s) (total_pages s) s u) (\<lambda>_ _. False) s"
      by (rule wp_scan_from_leaf [OF bounded_leaves.leaf_scan_axioms assms(1,2,5)])
        (rule r, use prefix_below [OF cl(1) assms(2)] in \<open>auto simp: wanted_bounded_def\<close>)
    moreover have "bounded_scan h pre lo lo_incl hi hi_incl = (bind (find_leaf_page h pre) (scan_from ?f) :: ('a btrees_scheme, pair list) eff)"
      using upper by (auto simp: bounded_scan_def)
    ultimately show ?thesis by (simp only:) (erule wp_mono, auto intro: kept)
  next
    case first
    have "wp (bind (find_leftmost_leaf h) (scan_from ?f))
      (\<lambda>r u. r = map pair_of (filter ?w (t_entries t)) \<and> reads (view s) (total_pages s) s u) (\<lambda>_ _. False) s"
      by (rule wp_mono [OF wp_scan_from_leftmost [OF bounded_leaves.leaf_scan_axioms assms(1,5)]]) (use all in auto)
    moreover have "bounded_scan h pre lo lo_incl hi hi_incl = (bind (find_leftmost_leaf h) (scan_from ?f) :: ('a btrees_scheme, pair list) eff)"
      using first by (auto simp: bounded_scan_def)
    ultimately show ?thesis by (simp only:) (erule wp_mono, auto intro: kept)
  qed
qed

text \<open>
  Property C14. A bounded scan, the access path of a composite index, returns exactly the
  entries whose key has the prefix and whose next element meets both bounds, each inclusive or
  exclusive as asked, when every key with the prefix is longer than it.
\<close>

theorem bounded_scan_correct:
  fixes s :: "'a btrees_scheme"
  assumes "tree_at s h t" "clean_key pre" "\<forall>l. lo = Some l \<longrightarrow> clean_value l" "\<forall>u. hi = Some u \<longrightarrow> clean_value u"
    "list_all (longer_than pre) (t_entries t)"
  shows "wp (bounded_scan h pre lo lo_incl hi hi_incl) (\<lambda>r u. query_keeps s h t u
      \<and> r = map pair_of (filter (wanted_bounded pre lo lo_incl hi hi_incl) (t_entries t))) (\<lambda>_ _. False) s"
  by (rule wp_bounded_scan [OF assms])

theorem bounded_scan_correct_witness:
  "wp (bounded_scan 0 [] (Some (IntV 1)) False (Some (IntV 3)) True) (\<lambda>r u. map snd r = [[2], [3]]) (\<lambda>_ _. False) sample_btrees"
  by (rule wp_mono [OF bounded_scan_correct [OF sample_tree_at]])
    (simp_all add: clean_value_def sample_tree_entries sample_key_def pair_of_def wanted_bounded_def
      lower_ok_def upper_ok_def longer_than_def)

end
