(* ===== verification/Tree_Store.thy ===== *)
theory Tree_Store
  imports BTree_Query
begin

text \<open>
  What the writers of a tree see of the layers below it: a memory of pages, some of them pinned,
  some of them changed and not logged yet, a list of free pages and the roots of the trees. Each
  step of an update is a rule on this memory: fetching and unpinning, writing through the pointer,
  logging, allocation. The log is followed too: replayed over the pages of the last commit, the
  pages the transaction has logged give the memory.
\<close>

section \<open>The memory\<close>

record mem =
  m_view :: "u32 \<Rightarrow> page"
  m_pages :: u32
  m_free :: "u32 list"
  m_roots :: "nat \<Rightarrow> u32"
  m_pins :: "u32 set"
  m_late :: "u32 set"
  m_slots :: "(u32 \<times> nat) list"

text \<open>
  The transaction that is open, the log and the pages it started with, and the content of the pages with what
  it has logged.
\<close>

record log_base =
  lb_txn :: u32
  lb_log :: "byte list"
  lb_pages :: "u32 \<Rightarrow> page"

definition with_log :: "log_base \<Rightarrow> 'a wal_scheme \<Rightarrow> u32 \<Rightarrow> page" where
  "with_log base s q = (case map_of (active_pages s) q of Some p \<Rightarrow> p | None \<Rightarrow> lb_pages base q)"

text \<open>The log: what was in it before, then the pages the transaction has written, in their order.\<close>

definition logged_pages :: "(u32 \<times> page) list \<Rightarrow> (u32 \<times> page) list" where
  "logged_pages ws = foldl (\<lambda>a (pid, p). AList.update pid p a) [] ws"

definition log_kept :: "log_base \<Rightarrow> 'a hdr_scheme \<Rightarrow> bool" where
  "log_kept base s \<longleftrightarrow> header_wf (db_hdr s) \<and> (\<exists>ws. wal_file s = lb_log base @ log_bytes (page_frames (lb_txn base) ws) \<and> active_pages s = logged_pages ws
     \<and> (\<forall>(pid, p) \<in> set ws. pid < total_pages s \<and> length p = PAGE_SIZE))"

lemma log_kept_write:
  assumes "log_kept base s" "q < total_pages s" "length p = PAGE_SIZE"
  shows "log_kept base (log_page (lb_txn base) q p s)"
proof -
  obtain ws where "wal_file s = lb_log base @ log_bytes (page_frames (lb_txn base) ws)" "active_pages s = logged_pages ws"
    "\<forall>(pid, p) \<in> set ws. pid < total_pages s \<and> length p = PAGE_SIZE" "header_wf (db_hdr s)"
    using assms(1) by (auto simp: log_kept_def)
  then show ?thesis
    using assms(2,3) unfolding log_kept_def
    by (intro conjI exI [of _ "ws @ [(q, p)]"]) (auto simp: page_frames_def logged_pages_def)
qed

lemma log_kept_grow:
  fixes s t :: "'a hdr_scheme"
  assumes "log_kept base s" "pool.more t = pool.more s" "total_pages s \<le> total_pages t"
  shows "log_kept base t"
  using assms(1,3) hdr_kept [OF assms(2)] unfolding log_kept_def by (fastforce intro: less_le_trans)

definition holds :: "log_base \<Rightarrow> mem \<Rightarrow> 'a btrees_scheme \<Rightarrow> bool" where
  "holds base m s \<longleftrightarrow> pool_inv s \<and> io s = [] \<and> total_pages s = m_pages m \<and> (\<forall>q < m_pages m. view s q = m_view m q)
     \<and> free_list s (m_free m) \<and> roots s = m_roots m \<and> pins s = (\<lambda>q. of_bool (q \<in> m_pins m))
     \<and> (\<forall>(q, i) \<in> set (m_slots m). map_of (page_table s) q = Some i)
     \<and> (\<forall>q < m_pages m. q \<notin> m_late m \<longrightarrow> q \<noteq> HEADER_PAGE_ID \<longrightarrow> m_view m q = with_log base s q)
     \<and> log_kept base s"

lemma holdsD:
  assumes "holds base m s"
  shows "pool_inv s" "io s = []" "total_pages s = m_pages m" "q < m_pages m \<Longrightarrow> view s q = m_view m q"
    "free_list s (m_free m)" "roots s = m_roots m" "pins s = (\<lambda>q. of_bool (q \<in> m_pins m))"
    "(q, i) \<in> set (m_slots m) \<Longrightarrow> map_of (page_table s) q = Some i"
    "q < m_pages m \<Longrightarrow> q \<notin> m_late m \<Longrightarrow> q \<noteq> HEADER_PAGE_ID \<Longrightarrow> m_view m q = with_log base s q"
    "log_kept base s"
  using assms by (auto simp: holds_def)

lemma holds_forget: "holds base m s \<Longrightarrow> set l \<subseteq> set (m_slots m) \<Longrightarrow> holds base (m\<lparr>m_slots := l\<rparr>) s"
  by (auto simp: holds_def)

text \<open>Slots are only remembered of pinned pages, whenever a frame may be evicted.\<close>

definition steady :: "mem \<Rightarrow> bool" where
  "steady m \<longleftrightarrow> fst ` set (m_slots m) \<subseteq> m_pins m \<and> finite (m_pins m) \<and> card (m_pins m) < BUFFER_POOL_SIZE"

section \<open>Pinned pages stay where they are\<close>

text \<open>A frame that can be evicted: fewer pages are pinned than there are frames.\<close>

lemma few_pins_victim:
  assumes "pool_inv s" "\<And>q. pins s q \<noteq> 0 \<Longrightarrow> q \<in> P" "finite P" "card P < BUFFER_POOL_SIZE"
  shows "victim s \<noteq> None"
proof
  assume none: "victim s = None"
  note inv = pool_invD [OF assms(1)]
  let ?page = "\<lambda>i. fm_page_id (frame_metas s ! i)"
  have used: "?page i \<noteq> INVALID_PAGE" "0 < fm_pin_count (frame_metas s ! i)" if "i < BUFFER_POOL_SIZE" for i
  proof -
    show pos: "0 < fm_pin_count (frame_metas s ! i)" using victim_None [OF assms(1)] none that by simp
    show "?page i \<noteq> INVALID_PAGE" using inv(4) [OF that] pos by (auto simp: slot_ok_def Let_def free_meta_def)
  qed
  have tab: "map_of (page_table s) (?page i) = Some i" if "i < BUFFER_POOL_SIZE" for i
    using inv(3) used(1) [OF that] that unfolding table_ok_def by blast
  have "pins s (?page i) \<noteq> 0" if "i < BUFFER_POOL_SIZE" for i
    using tab [OF that] used(2) [OF that] by (simp add: pins_def)
  then have "?page i \<in> P" if "i < BUFFER_POOL_SIZE" for i using that assms(2) by blast
  then have "?page ` {..<BUFFER_POOL_SIZE} \<subseteq> P" by auto
  moreover have "inj_on ?page {..<BUFFER_POOL_SIZE}" 
  proof (rule inj_onI)
    fix i j assume i: "i \<in> {..<BUFFER_POOL_SIZE}" and j: "j \<in> {..<BUFFER_POOL_SIZE}" and e: "?page i = ?page j"
    have "map_of (page_table s) (?page j) = Some i" using tab [of i] i unfolding e by blast
    moreover have "map_of (page_table s) (?page j) = Some j" using tab [of j] j by blast
    ultimately show "i = j" by (simp only: option.inject)
  qed
  ultimately have "BUFFER_POOL_SIZE \<le> card P" using card_inj_on_le [OF _ _ assms(3)] by force
  then show False using assms(4) by simp
qed

lemma table_evict_pinned:
  assumes "pool_inv s" "pool_inv t" "slot < BUFFER_POOL_SIZE" "frame_metas t = (frame_metas s)[slot := free_meta]"
    "fm_pin_count (frame_metas s ! slot) = 0" "0 < pins s q" "map_of (page_table s) q = Some i"
  shows "map_of (page_table t) q = Some i"
proof -
  have "i \<noteq> slot" using assms(5-7) by (auto simp: pins_def)
  then show ?thesis using table_after_evict [OF assms(1-4), of q i] assms(7) by simp
qed

definition keeps_pinned :: "'a pool_scheme \<Rightarrow> 'a pool_scheme \<Rightarrow> bool" where
  "keeps_pinned s t \<longleftrightarrow> (\<forall>q i. 0 < pins s q \<longrightarrow> map_of (page_table s) q = Some i \<longrightarrow> map_of (page_table t) q = Some i)"

lemma evict_keeps_pinned:
  "pool_inv s \<Longrightarrow> wp evict_slot (\<lambda>slot t. keeps_pinned s t) (\<lambda>_ _. True) s"
proof -
  assume inv: "pool_inv s"
  show ?thesis
  proof (rule wp_mono [OF wp_evict_slot [OF inv]], elim conjE)
    fix slot t
    assume "victim s = Some slot" "cache_step s t" "frame_metas t = (frame_metas s)[slot := free_meta]"
    then show "keeps_pinned s t" unfolding keeps_pinned_def
      using table_evict_pinned [OF inv cache_stepD(1)] victim_slot [OF inv] by blast
  qed simp
qed

lemma load_keeps_pinned:
  "wp (load_page pid slot) (\<lambda>_ t. \<forall>q i. q \<noteq> pid \<longrightarrow> map_of (page_table s) q = Some i \<longrightarrow> map_of (page_table t) q = Some i) (\<lambda>_ _. True) s"
  if "pool_inv s"
  using that by (auto simp: load_page_def wp_eqs pool_invD(1) update_conv' split: io_outcome.splits)

lemma fetch_keeps_pinned:
  assumes "pool_inv s"
  shows "wp (fetch_page pid) (\<lambda>_ t. keeps_pinned s t) (\<lambda>_ _. True) s"
proof (cases "map_of (page_table s) pid")
  case (Some slot)
  then show ?thesis by (simp add: fetch_page_def wp_eqs set_meta_def touch_def keeps_pinned_def)
next
  case None
  have np: "q \<noteq> pid" if "0 < pins s q" for q using that None by (auto simp: pins_def)
  have "wp evict_slot (\<lambda>slot. wp (load_page pid slot) (\<lambda>_ t. keeps_pinned s t) (\<lambda>_ _. True)) (\<lambda>_ _. True) s"
  proof (rule wp_mono [OF wp_conj [OF evict_keeps_pinned [OF assms] wp_evict_slot [OF assms]]], elim conjE)
    fix slot t
    assume t: "keeps_pinned s t" "cache_step s t"
    show "wp (load_page pid slot) (\<lambda>_ t. keeps_pinned s t) (\<lambda>_ _. True) t"
      by (rule wp_mono [OF load_keeps_pinned [OF cache_stepD(1) [OF t(2)]]]) (use t(1) np in \<open>auto simp: keeps_pinned_def\<close>)
  qed simp
  with None show ?thesis by (simp add: fetch_page_def load_page_def [symmetric] wp_eqs)
qed

lemma new_keeps_pinned:
  assumes "pool_inv s" "total_pages s < INVALID_PAGE"
  shows "wp new_page (\<lambda>_ t. keeps_pinned s t) (\<lambda>_ _. True) s"
proof (cases "next_outcome s")
  case (IO_short n)
  then show ?thesis using assms by (simp add: new_page_def wp_eqs)
next
  case IO_ok
  let ?g = "grow_file s"
  note g = grow_file_inv [OF assms]
  have np: "q \<noteq> total_pages s" if "0 < pins s q" for q using that g(4) by (auto simp: pins_def)
  have "wp evict_slot (\<lambda>slot. wp (andthen (install_page (total_pages s) slot) (ret (total_pages s, slot)))
      (\<lambda>_ t. keeps_pinned s t) (\<lambda>_ _. True)) (\<lambda>_ _. True) ?g"
    by (rule wp_mono [OF evict_keeps_pinned [OF g(1)]])
      (use np g(3) in \<open>auto simp: wp_eqs keeps_pinned_def update_conv' simp del: map_of_eq_Some_iff\<close>)
  with IO_ok show ?thesis by (simp add: new_page_def wp_eqs)
qed

section \<open>Rules\<close>

text \<open>A step of the cache leaves what the memory says, up to the pins and slots.\<close>

lemma roots_kept:
  fixes s t :: "'a btrees_scheme"
  shows "pool.more t = pool.more s \<Longrightarrow> roots t = roots s" "pool.more t = pool.more s \<Longrightarrow> with_log base t = with_log base s"
    "pool.more t = pool.more s \<Longrightarrow> db_hdr t = db_hdr s"
  using roots_of_more [of t s] hdr_kept [of t s] by (auto simp: with_log_def fun_eq_iff)

lemma free_list_kept:
  fixes s t :: "'a hdr_scheme"
  assumes "free_list s l" "same_view s t" "db_hdr t = db_hdr s"
  shows "free_list t l"
proof -
  have "view t x = view s x" if "x \<in> set l" for x using that assms(1,2) by (simp add: free_list_def same_view_def)
  then have "free_chain (view t) h l = free_chain (view s) h l" for h by (rule free_chain_cong)
  then show ?thesis using assms by (simp add: free_list_def same_view_def)
qed

lemma log_kept_step:
  fixes s t :: "'a btrees_scheme"
  assumes "holds base m s" "pool.more t = pool.more s" "m_pages m \<le> total_pages t"
  shows "log_kept base t"
  using log_kept_grow [OF holdsD(10) [OF assms(1)] assms(2)] assms(3) holdsD(3) [OF assms(1)] by simp

lemma view_length:
  assumes "pool_inv s" "q < total_pages s"
  shows "length (view s q) = PAGE_SIZE"
proof (cases "map_of (page_table s) q")
  case None
  then show ?thesis using assms by (simp add: view_def pool_inv_def)
next
  case (Some i)
  then have "i < BUFFER_POOL_SIZE" using assms(1) by (simp add: pool_inv_def table_ok_def)
  then show ?thesis using Some assms(1) by (simp add: view_def pool_inv_def frames_ok_def)
qed

lemma holds_step:
  assumes "holds base m s" "cache_step s t" "pins t = (\<lambda>q. of_bool (q \<in> P))"
    "\<forall>(q, i) \<in> set l. map_of (page_table t) q = Some i"
  shows "holds base (m\<lparr>m_pins := P, m_slots := l\<rparr>) t"
proof -
  note h = holdsD [OF assms(1)] and c = cache_stepD [OF assms(2)]
  have "free_list t (m_free m)" using free_list_kept [OF h(5) c(2)] roots_kept(3) [OF c(3)] by simp
  moreover have "log_kept base t" using log_kept_step [OF assms(1) c(3)] c(2) h(3) by (simp add: same_view_def)
  ultimately show ?thesis using h c assms(3,4) roots_kept [OF c(3)] by (auto simp: holds_def)
qed

definition pinned :: "u32 \<Rightarrow> nat \<Rightarrow> mem \<Rightarrow> mem" where
  "pinned q slot m = m\<lparr>m_pins := insert q (m_pins m), m_slots := (q, slot) # m_slots m\<rparr>"

lemma slots_stay:
  assumes "holds base m s" "steady m" "keeps_pinned s t"
  shows "\<forall>(q, i) \<in> set (m_slots m). map_of (page_table t) q = Some i"
proof clarify
  fix q i assume q: "(q, i) \<in> set (m_slots m)"
  then have "q \<in> m_pins m" using assms(2) by (force simp: steady_def)
  then show "map_of (page_table t) q = Some i"
    using assms(1,3) holdsD(8) [OF assms(1) q] by (simp add: keeps_pinned_def holds_def)
qed

lemma wp_fetch_mem:
  assumes "holds base m s" "steady m" "q < m_pages m" "q \<notin> m_pins m"
  shows "wp (fetch_page q) (\<lambda>slot t. holds base (pinned q slot m) t \<and> settled t q) (\<lambda>_ _. False) s"
proof (rule wp_mono [OF wp_conj [OF wp_fetch_page fetch_keeps_pinned]], goal_cases)
  case 1 show ?case using holdsD(1) [OF assms(1)] .
next
  case 2 show ?case using holdsD(1) [OF assms(1)] .
next
  case (3 slot t)
  then have t: "cache_step s t" "map_of (page_table t) q = Some slot" "pins t = (pins s)(q := pins s q + 1)" "settled t q" "keeps_pinned s t"
    by (simp_all add: fetched_def)
  have "pins t = (\<lambda>x. of_bool (x \<in> insert q (m_pins m)))" using t(3) holdsD(7) [OF assms(1)] assms(4) by auto
  then have "holds base (m\<lparr>m_pins := insert q (m_pins m), m_slots := (q, slot) # m_slots m\<rparr>) t"
    using t(2) slots_stay [OF assms(1,2) t(5)] by (intro holds_step [OF assms(1) t(1)]) simp_all
  then show ?case using t(4) by (simp add: pinned_def)
next
  case (4 e t)
  then show ?case using holdsD(1,2,3,7) [OF assms(1)] assms(2,3) few_pins_victim [of s "m_pins m"]
    by (auto simp: fetch_failed_def steady_def)
qed

lemma frame_of_slot:
  assumes "holds base m s" "(q, slot) \<in> set (m_slots m)" "q < m_pages m"
  shows "frames s ! slot = m_view m q"
  using holdsD(4) [OF assms(1,3)] holdsD(8) [OF assms(1,2)] by (simp add: view_def)

lemma wp_read_mem:
  assumes "holds base m s" "(q, slot) \<in> set (m_slots m)" "q < m_pages m"
  shows "wp (read_frame slot) Q E s = Q (m_view m q) s"
  using frame_of_slot [OF assms] by (simp add: read_frame_def wp_gets)

definition stored :: "u32 \<Rightarrow> page \<Rightarrow> mem \<Rightarrow> mem" where
  "stored q p m = m\<lparr>m_view := (m_view m)(q := p), m_late := insert q (m_late m)\<rparr>"

lemma wp_write_mem:
  assumes "holds base m s" "(q, slot) \<in> set (m_slots m)" "q \<in> m_pins m" "q \<notin> set (m_free m)" "length p = PAGE_SIZE"
  shows "wp (write_frame slot p) (\<lambda>_. holds base (stored q p m)) (\<lambda>_ _. False) s"
proof -
  note h = holdsD [OF assms(1)]
  have "0 < pins s q" using h(7) assms(3) by simp
  from wp_write_frame [OF h(1) h(8) [OF assms(2)] this assms(5)] show ?thesis
  proof (rule wp_mono, elim conjE)
    fix t assume t: "page_written q p s t" "pins t = pins s" "page_table t = page_table s"
    have more: "pool.more t = pool.more s" using t(1) by (simp add: page_written_def)
    have v: "view t x = m_view (stored q p m) x" if "x < m_pages m" for x
      using t(1) h(3,4) that by (simp add: page_written_def stored_def)
    have "free_chain (view t) hd (m_free m) = free_chain (view s) hd (m_free m)" for hd
      using h(3,5) t(1) assms(4) by (intro free_chain_cong) (auto simp: page_written_def free_list_def)
    then have "free_list t (m_free m)"
      using h(5) roots_kept(3) [OF more] t(1) by (simp add: free_list_def page_written_def)
    moreover have "log_kept base t" using log_kept_step [OF assms(1) more] t(1) h(3) by (simp add: page_written_def)
    ultimately show "holds base (stored q p m) t"
      using h t roots_kept(1,2) [OF more] by (auto simp: holds_def stored_def page_written_def)
  qed simp
qed

lemma wp_unpin_mem:
  assumes "holds base m s"
  shows "wp (unpin_page q True) (\<lambda>_. holds base (m\<lparr>m_pins := m_pins m - {q}\<rparr>)) (\<lambda>_ _. False) s"
proof (rule wp_mono [OF wp_unpin_page [OF holdsD(1) [OF assms]]], goal_cases)
  case 1 show ?case by simp
next
  case (2 _ t)
  then have "pins t = (\<lambda>x. of_bool (x \<in> m_pins m - {q}))" using holdsD(7) [OF assms] by auto
  with holds_step [OF assms, of t "m_pins m - {q}" "m_slots m"] holdsD(8) [OF assms] 2 show ?case by auto
qed simp

lemma wp_log_mem:
  assumes "holds base m s" "(q, slot) \<in> set (m_slots m)" "q < m_pages m"
  shows "wp (write_page_through_wal (lb_txn base) q slot) (\<lambda>_. holds base (m\<lparr>m_late := m_late m - {q}\<rparr>)) (\<lambda>_ _. False) s"
proof -
  note h = holdsD [OF assms(1)]
  let ?t = "log_page (lb_txn base) q (m_view m q) s"
  have "with_log base ?t x = (if x = q then m_view m q else with_log base s x)" for x
    by (simp add: with_log_def update_conv')
  moreover have "free_list ?t (m_free m)" using h(5) by (simp add: free_list_def)
  moreover have "roots ?t = roots s" by (simp add: log_page_def)
  moreover have "log_kept base ?t"
    using log_kept_write [OF h(10), of q "m_view m q"] view_length [OF h(1), of q] h(3,4) assms(3) by simp
  ultimately have "holds base (m\<lparr>m_late := m_late m - {q}\<rparr>) ?t" using assms(1) by (auto simp: holds_def)
  then show ?thesis
    by (simp add: write_page_through_wal_def wp_bind wp_read_mem [OF assms] wp_wal_write_calm [OF h(2)])
qed

lemma wp_set_root_mem:
  assumes "holds base m s"
  shows "wp (set_root h pid) (\<lambda>_. holds base (m\<lparr>m_roots := (m_roots m)(h := pid)\<rparr>)) E s"
proof -
  let ?t = "s\<lparr>roots := (roots s)(h := pid)\<rparr>"
  have p: "pool_inv ?t = pool_inv s" "view ?t = view s" "pins ?t = pins s" by (rule pool_state_cong; simp)+
  then have "holds base (m\<lparr>m_roots := (m_roots m)(h := pid)\<rparr>) ?t"
    using assms by (auto simp: holds_def free_list_def with_log_def log_kept_def)
  then show ?thesis by (simp add: set_root_def wp_modify)
qed

subsection \<open>Allocation\<close>

text \<open>The page the next allocation gives, and how many it can give.\<close>

definition next_page :: "mem \<Rightarrow> u32" where
  "next_page m = (case m_free m of [] \<Rightarrow> m_pages m | x # _ \<Rightarrow> x)"

definition spare :: "mem \<Rightarrow> nat" where
  "spare m = length (m_free m) + (unat INVALID_PAGE - unat (m_pages m))"

definition grown :: "mem \<Rightarrow> mem" where
  "grown m = (case m_free m of
     [] \<Rightarrow> m\<lparr>m_pages := m_pages m + 1, m_view := (m_view m)(m_pages m := zero_page)\<rparr>
   | x # xs \<Rightarrow> m\<lparr>m_free := xs\<rparr>)"

definition allocated :: "nat \<Rightarrow> mem \<Rightarrow> mem" where
  "allocated slot m = pinned (next_page m) slot ((grown m)\<lparr>m_late := insert (next_page m) (m_late m)\<rparr>)"

lemma grown_fields [simp]:
  "m_roots (grown m) = m_roots m" "m_pins (grown m) = m_pins m" "m_late (grown m) = m_late m"
  "m_slots (grown m) = m_slots m" "set (m_free (grown m)) \<subseteq> set (m_free m)"
  by (auto simp: grown_def split: list.splits)

lemma wp_allocate_mem:
  fixes s :: "'a btrees_scheme"
  assumes "holds base m s" "steady m" "0 < spare m" "next_page m \<notin> m_pins m"
  shows "wp (allocate_page (lb_txn base)) (\<lambda>(q, slot) t. q = next_page m \<and> holds base (allocated slot m) t) (\<lambda>_ _. False) s"
proof (cases "m_free m")
  case Nil
  note h = holdsD [OF assms(1)]
  have room: "total_pages s < INVALID_PAGE" using assms(3) Nil h(3) by (simp add: spare_def word_less_nat_alt)
  have fl: "free_list s []" using h(5) Nil by simp
  have hd: "hd_first_free_page (db_hdr s) = NO_FREE_PAGE" using fl by (simp add: free_list_def)
  have v: "victim s \<noteq> None" using few_pins_victim [OF h(1), of "m_pins m"] h(7) assms(2) by (auto simp: steady_def)
  have "wp new_page (\<lambda>(q, slot) t. page_created s q slot t \<and> keeps_pinned s t) (\<lambda>_ _. False) s"
    by (rule wp_mono [OF wp_conj [OF wp_new_page [OF h(1) room] new_keeps_pinned [OF h(1) room]]]) (use v h(2) in auto)
  then have "wp new_page (\<lambda>(q, slot) t. q = next_page m \<and> holds base (allocated slot m) t) (\<lambda>_ _. False) s"
  proof (rule wp_mono; clarify)
    fix slot q and t :: "'a btrees_scheme"
    assume t: "page_created s q slot t" "keeps_pinned s t"
    have more: "pool.more t = pool.more s" using t(1) by (simp add: page_created_def)
    have c: "pool_inv t" "q = m_pages m" "total_pages t = m_pages m + 1" "\<forall>x < m_pages m. view t x = m_view m x"
      "view t (m_pages m) = zero_page" "map_of (page_table t) (m_pages m) = Some slot" "pins t = (pins s)(m_pages m := 1)"
      "io t = []" using t(1) h(2-4) by (auto simp: page_created_def)
    have np: "next_page m = m_pages m" using Nil by (simp add: next_page_def)
    have "pins t = (\<lambda>x. of_bool (x \<in> insert (m_pages m) (m_pins m)))" using c(7) h(7) by auto
    moreover have "free_list t []" using fl roots_kept(3) [OF more] by (simp add: free_list_def)
    moreover have "x < m_pages m + 1 \<longleftrightarrow> x < m_pages m \<or> x = m_pages m" for x
      using unat_next_page [OF room, unfolded h(3)] by (auto simp: word_less_nat_alt word_unat_eq_iff)
    moreover have "\<forall>(q, i) \<in> set (m_slots m). map_of (page_table t) q = Some i" by (rule slots_stay [OF assms(1,2) t(2)])
    moreover have "log_kept base t"
    proof (rule log_kept_step [OF assms(1) more])
      show "m_pages m \<le> total_pages t" using c(3) unat_next_page [OF room, unfolded h(3)] by (simp add: word_le_nat_alt)
    qed
    ultimately show "q = next_page m \<and> holds base (allocated slot m) t"
      using c roots_kept(1,2) [OF more] h(6,9) np Nil
      by (auto simp: allocated_def pinned_def grown_def holds_def split: if_splits)
  qed
  then show ?thesis using hd by (simp add: allocate_page_def wp_eqs)
next
  case (Cons x xs)
  note h = holdsD [OF assms(1)]
  have np: "next_page m = x" using Cons by (simp add: next_page_def)
  have fl: "free_list s (x # xs)" using h(5) Cons by simp
  then have x: "hd_first_free_page (db_hdr s) = x" "x \<noteq> NO_FREE_PAGE" "x < m_pages m" "x \<notin> set xs"
    "free_chain (view s) (read_next_pointer (view s x)) xs" using h(3) by (simp_all add: free_list_def)
  have "wp (fetch_page x) (\<lambda>slot. wp (bind (read_frame slot) (\<lambda>p. andthen (modify (set_first_free (read_next_pointer p)))
       (andthen (log_header (lb_txn base)) (ret (x, slot))))) (\<lambda>(q, slot) t. q = next_page m \<and> holds base (allocated slot m) t) (\<lambda>_ _. False))
     (\<lambda>_ _. False) s"
  proof (rule wp_mono [OF wp_fetch_mem [OF assms(1,2) x(3)]], goal_cases)
    case 1 show ?case using assms(4) np by simp
  next
    case (2 slot t)
    then have t: "holds base (pinned x slot m) t" by simp
    note ht = holdsD [OF t]
    have r: "wp (read_frame slot) Q E t = Q (m_view m x) t" for Q E
      using wp_read_mem [OF t, of x slot] x(3) by (simp add: pinned_def)
    let ?u = "log_page (lb_txn base) HEADER_PAGE_ID (header_page ((db_hdr t)\<lparr>hd_first_free_page := read_next_pointer (m_view m x)\<rparr>))
      (set_first_free (read_next_pointer (m_view m x)) t)"
    have tp: "total_pages t = m_pages m" and vt: "\<And>q. q < m_pages m \<Longrightarrow> view t q = m_view m q" using ht(3,4) by (simp_all add: pinned_def)
    have "free_list t (x # xs)" using ht(5) Cons by (simp add: pinned_def)
    then have "free_list ?u xs" using vt [OF x(3)] tp by (simp add: free_list_def)
    moreover have "with_log base ?u q = with_log base t q" if "q \<noteq> HEADER_PAGE_ID" for q
      using that by (simp add: with_log_def update_conv' set_first_free_def)
    moreover have "roots ?u = roots t" by (simp add: log_page_def set_first_free_def)
    moreover have "log_kept base ?u"
    proof (rule log_kept_write)
      show "log_kept base (set_first_free (read_next_pointer (m_view m x)) t)"
        using ht(10) by (auto simp: log_kept_def set_first_free_def header_wf_def)
      show "HEADER_PAGE_ID < total_pages (set_first_free (read_next_pointer (m_view m x)) t)"
        using x(3) tp by (simp add: set_first_free_def HEADER_PAGE_ID_def word_less_nat_alt)
      show "length (header_page ((db_hdr t)\<lparr>hd_first_free_page := read_next_pointer (m_view m x)\<rparr>)) = PAGE_SIZE"
        using ht(10) by (intro length_header_page) (simp add: log_kept_def header_wf_def)
    qed
    ultimately have "holds base (allocated slot m) ?u"
      using t tp np Cons by (auto simp: holds_def allocated_def pinned_def grown_def)
    then show ?case using ht(2) np by (simp add: wp_eqs r wp_log_header_calm)
  qed simp
  then show ?thesis using x(1,2) by (simp add: allocate_page_def wp_eqs)
qed

subsection \<open>Nodes\<close>

lemma wp_read_node_mem:
  fixes s :: "'a btrees_scheme"
  assumes "holds base m s" "steady m" "q < m_pages m" "q \<notin> m_pins m" "g (m_view m q) = Inr x"
  shows "wp (read_node q g) (\<lambda>r t. r = x \<and> holds base m t) (\<lambda>_ _. False) s"
  unfolding read_node_def wp_bind [of "fetch_page q"]
proof (rule wp_mono [OF wp_fetch_mem [OF assms(1-4)]], elim conjE)
  fix slot and t :: "'a btrees_scheme" assume t: "holds base (pinned q slot m) t" "settled t q"
  have r: "wp (read_frame slot) Q E t = Q (m_view m q) t" for Q E
    using wp_read_mem [OF t(1), of q slot] assms(3) by (simp add: pinned_def)
  have "wp (unpin_page q False) (\<lambda>_. holds base m) (\<lambda>_ _. False) t"
  proof (rule wp_mono [OF wp_unpin_page [OF holdsD(1) [OF t(1)]]], goal_cases)
    case 1 show ?case using t(2) by simp
  next
    case (2 _ u)
    then have "pins u = (\<lambda>x. of_bool (x \<in> m_pins m))" using holdsD(7) [OF t(1)] assms(4) by (auto simp: pinned_def)
    with holds_step [OF t(1), of u "m_pins m" "m_slots m"] holdsD(8) [OF t(1)] 2 show ?case by (auto simp: pinned_def)
  qed simp
  then show "wp (bind (read_frame slot) (\<lambda>p. bind (lift (g p)) (\<lambda>x. andthen (unpin_page q False) (ret x))))
      (\<lambda>r t. r = x \<and> holds base m t) (\<lambda>_ _. False) t"
    by (simp add: r assms(5) wp_eqs) (erule wp_mono; simp add: wp_ret)
qed simp

text \<open>A page changed and logged.\<close>

definition changed :: "u32 \<Rightarrow> page \<Rightarrow> mem \<Rightarrow> mem" where
  "changed q p m = m\<lparr>m_view := (m_view m)(q := p), m_late := m_late m - {q}\<rparr>"

lemma wp_edit_node_mem:
  fixes s :: "'a btrees_scheme"
  assumes "holds base m s" "steady m" "q < m_pages m" "q \<notin> m_pins m" "q \<notin> set (m_free m)"
    "g (m_view m q) = Inr p" "length p = PAGE_SIZE"
  shows "wp (edit_node (lb_txn base) q g) (\<lambda>_. holds base (changed q p m)) (\<lambda>_ _. False) s"
  unfolding edit_node_def wp_bind [of "fetch_page q"]
proof (rule wp_mono [OF wp_fetch_mem [OF assms(1-4)]], elim conjE)
  fix slot and t :: "'a btrees_scheme" assume t: "holds base (pinned q slot m) t"
  have r: "wp (read_frame slot) Q E t = Q (m_view m q) t" for Q E
    using wp_read_mem [OF t, of q slot] assms(3) by (simp add: pinned_def)
  have "wp (write_frame slot p) (\<lambda>_. holds base (stored q p (pinned q slot m))) (\<lambda>_ _. False) t"
    by (rule wp_write_mem [OF t]) (use assms in \<open>simp_all add: pinned_def\<close>)
  then have "wp (write_frame slot p) (\<lambda>_. wp (andthen (unpin_page q True) (write_page_through_wal (lb_txn base) q slot))
      (\<lambda>_. holds base (changed q p m)) (\<lambda>_ _. False)) (\<lambda>_ _. False) t"
  proof (rule wp_mono)
    fix u :: "'a btrees_scheme" assume u: "holds base (stored q p (pinned q slot m)) u"
    show "wp (andthen (unpin_page q True) (write_page_through_wal (lb_txn base) q slot)) (\<lambda>_. holds base (changed q p m)) (\<lambda>_ _. False) u"
      unfolding wp_andthen
    proof (rule wp_mono [OF wp_unpin_mem [OF u]])
      fix w :: "'a btrees_scheme" assume w: "holds base ((stored q p (pinned q slot m))\<lparr>m_pins := m_pins (stored q p (pinned q slot m)) - {q}\<rparr>) w"
      show "wp (write_page_through_wal (lb_txn base) q slot) (\<lambda>_. holds base (changed q p m)) (\<lambda>_ _. False) w"
      proof (rule wp_mono [OF wp_log_mem [OF w]], goal_cases)
        case (3 _ x)
        then show ?case using holds_forget [OF 3, of "m_slots m"] assms(4) by (simp add: stored_def pinned_def changed_def subset_insertI)
      qed (use assms(3) in \<open>simp_all add: stored_def pinned_def\<close>)
    qed simp
  qed simp
  then show "wp (bind (read_frame slot) (\<lambda>x. bind (lift (g x)) (\<lambda>p'. andthen (write_frame slot p') (andthen (unpin_page q True)
       (write_page_through_wal (lb_txn base) q slot))))) (\<lambda>_. holds base (changed q p m)) (\<lambda>_ _. False) t"
    by (simp add: r assms(6) wp_eqs)
qed simp

text \<open>Children get a new parent.\<close>

definition adopt :: "u32 \<Rightarrow> u32 list \<Rightarrow> (u32 \<Rightarrow> page) \<Rightarrow> u32 \<Rightarrow> page" where
  "adopt parent cs v q = (if q \<in> set cs then set_parent_page parent (v q) else v q)"

definition orphan_ok :: "mem \<Rightarrow> u32 \<Rightarrow> bool" where
  "orphan_ok m c \<longleftrightarrow> c < m_pages m \<and> c \<notin> m_pins m \<and> c \<notin> set (m_free m) \<and> c \<notin> m_late m \<and> length (m_view m c) = PAGE_SIZE"

lemma wp_set_parent_mem:
  fixes s :: "'a btrees_scheme"
  assumes "holds base m s" "steady m" "orphan_ok m c"
  shows "wp (set_parent (lb_txn base) c parent) (\<lambda>_. holds base (m\<lparr>m_view := adopt parent [c] (m_view m)\<rparr>)) (\<lambda>_ _. False) s"
proof -
  have "adopt parent [c] (m_view m) = (m_view m)(c := set_parent_page parent (m_view m c))" by (auto simp: adopt_def)
  moreover have "m_late m - {c} = m_late m" using assms(3) by (simp add: orphan_ok_def)
  ultimately have e: "changed c (set_parent_page parent (m_view m c)) m = m\<lparr>m_view := adopt parent [c] (m_view m)\<rparr>"
    by (simp add: changed_def)
  show ?thesis
    unfolding set_parent_def e [symmetric]
    by (rule wp_edit_node_mem [OF assms(1,2)]) (use assms(3) in \<open>simp_all add: orphan_ok_def\<close>)
qed

lemma wp_adopt_mem:
  fixes s :: "'a btrees_scheme"
  assumes "holds base m s" "steady m" "list_all (orphan_ok m) (map f es)" "distinct (map f es)"
  shows "wp (for_each (\<lambda>e. set_parent (lb_txn base) (f e) parent) es) (\<lambda>_. holds base (m\<lparr>m_view := adopt parent (map f es) (m_view m)\<rparr>)) (\<lambda>_ _. False) s"
  using assms
proof (induction es arbitrary: m s)
  case Nil
  then show ?case by (simp add: wp_ret adopt_def)
next
  case (Cons e es)
  let ?m = "m\<lparr>m_view := adopt parent [f e] (m_view m)\<rparr>"
  have o: "list_all (orphan_ok ?m) (map f es)" using Cons.prems(3,4) by (auto simp: orphan_ok_def adopt_def list_all_iff)
  have a: "adopt parent (map f es) (adopt parent [f e] (m_view m)) = adopt parent (map f (e # es)) (m_view m)"
    using Cons.prems(4) by (auto simp: adopt_def fun_eq_iff)
  have "orphan_ok m (f e)" using Cons.prems(3) by simp
  from wp_set_parent_mem [OF Cons.prems(1,2) this] show ?case
    unfolding for_each.simps wp_andthen
  proof (rule wp_mono)
    fix t :: "'a btrees_scheme" assume "holds base ?m t"
    from Cons.IH [OF this _ o] Cons.prems(2,4)
    show "wp (for_each (\<lambda>e. set_parent (lb_txn base) (f e) parent) es) (\<lambda>_. holds base (m\<lparr>m_view := adopt parent (map f (e # es)) (m_view m)\<rparr>)) (\<lambda>_ _. False) t"
      by (simp add: a [simplified] steady_def)
  qed simp
qed

section \<open>Properties\<close>

lemma finite_pinned: "finite {q. pins s q \<noteq> 0}"
proof (rule finite_subset)
  show "{q. pins s q \<noteq> 0} \<subseteq> dom (map_of (page_table s))" by (auto simp: pins_def split: option.splits)
qed (simp add: finite_dom_map_of)

text \<open>
  Property C5. The pool makes progress: as long as no call of the system fails and fewer pages are pinned than it has frames, a
  fetch of any page of the file finds a frame to evict if it needs one, and returns. Only the page
  that was fetched has one more pin then.
\<close>

theorem fetch_progress:
  fixes s :: "'a pool_scheme"
  assumes "pool_inv s" "io s = []" "pid < total_pages s" "card {q. pins s q \<noteq> 0} < BUFFER_POOL_SIZE"
  shows "wp (fetch_page pid) (\<lambda>slot t. map_of (page_table t) pid = Some slot \<and> frames t ! slot = view s pid
      \<and> pins t = (pins s)(pid := pins s pid + 1) \<and> same_view s t) (\<lambda>_ _. False) s"
proof (rule wp_mono [OF wp_fetch_page [OF assms(1)]])
  have v: "victim s \<noteq> None" by (rule few_pins_victim [OF assms(1) _ finite_pinned assms(4)]) simp
  show "False" if "fetch_failed pid s t" for t
    using that v assms(2,3) by (auto simp: fetch_failed_def)
  show "map_of (page_table t) pid = Some slot \<and> frames t ! slot = view s pid
      \<and> pins t = (pins s)(pid := pins s pid + 1) \<and> same_view s t" if "fetched pid s slot t" for slot t
    using that assms(3) by (auto simp: fetched_def cache_step_def same_view_def view_def)
qed

theorem fetch_progress_witness:
  "wp (fetch_page 1) (\<lambda>slot t. map_of (page_table t) 1 = Some slot \<and> pins t 1 = 1) (\<lambda>_ _. False) sample_btrees"
proof -
  have s: "pool_inv sample_btrees" "io sample_btrees = []" "pins sample_btrees q = 0" "total_pages sample_btrees = 4" for q
    using sample_tree_at [of 0] by (simp_all add: tree_at_def pool_calm_def sample_btrees_def pages_btrees_def hdr.defs wal.defs
        pool.defs pool_open_def disk.defs pages_disk_def sample_pages_def)
  show ?thesis
    by (rule wp_mono [OF fetch_progress [of sample_btrees 1]]) (use s in \<open>simp_all add: BUFFER_POOL_SIZE_def\<close>)
qed

end
