(* ===== verification/Tree_Zipper.thy ===== *)
theory Tree_Zipper
  imports BTree_Query "HOL-Library.Multiset"
begin

text \<open>
  The abstract side of an update of a tree: a tree as a subtree in its context, the list of its
  ancestors, nearest first, each with what lies left and right of the path; what the pages of a
  tree hold when it is about to be changed, the parent pointers and the free space included; and
  the halves of a node.
\<close>

section \<open>Contexts\<close>

datatype frame = Frame (f_page: u32) (f_pre: "(tree \<times> key) list") (f_post: "(key \<times> spine) option")

fun pre_spine :: "(tree \<times> key) list \<Rightarrow> spine \<Rightarrow> spine" where
  "pre_spine [] s = s"
| "pre_spine ((t, k) # xs) s = Sep t k (pre_spine xs s)"

fun hole_spine :: "tree \<Rightarrow> (key \<times> spine) option \<Rightarrow> spine" where
  "hole_spine t None = Last t"
| "hole_spine t (Some (k, s)) = Sep t k s"

fun fill :: "frame \<Rightarrow> tree \<Rightarrow> tree" where
  "fill (Frame p pre post) t = Inner p (pre_spine pre (hole_spine t post))"

text \<open>Two neighbours in the place of one child.\<close>

fun fill2 :: "frame \<Rightarrow> tree \<Rightarrow> key \<Rightarrow> tree \<Rightarrow> tree" where
  "fill2 (Frame p pre post) l k r = Inner p (pre_spine pre (Sep l k (hole_spine r post)))"

fun plug :: "frame list \<Rightarrow> tree \<Rightarrow> tree" where
  "plug [] t = t"
| "plug (f # c) t = plug c (fill f t)"

text \<open>At the root the neighbours get a new node; its number does not matter to what follows.\<close>

fun plug2 :: "frame list \<Rightarrow> tree \<Rightarrow> key \<Rightarrow> tree \<Rightarrow> tree" where
  "plug2 [] l k r = Inner 0 (Sep l k (Last r))"
| "plug2 (f # c) l k r = plug c (fill2 f l k r)"

fun ctx_parent :: "frame list \<Rightarrow> u32" where
  "ctx_parent [] = INVALID_PAGE"
| "ctx_parent (f # c) = f_page f"

definition pre_pages :: "(tree \<times> key) list \<Rightarrow> u32 list" where
  "pre_pages pre = concat (map (t_pages \<circ> fst) pre)"

definition pre_leaves :: "(tree \<times> key) list \<Rightarrow> (u32 \<times> leaf_entry list) list" where
  "pre_leaves pre = concat (map (t_leaves \<circ> fst) pre)"

definition post_pages :: "(key \<times> spine) option \<Rightarrow> u32 list" where
  "post_pages post = (case post of None \<Rightarrow> [] | Some (k, s) \<Rightarrow> s_pages s)"

definition post_leaves :: "(key \<times> spine) option \<Rightarrow> (u32 \<times> leaf_entry list) list" where
  "post_leaves post = (case post of None \<Rightarrow> [] | Some (k, s) \<Rightarrow> s_leaves s)"

fun ctx_pages :: "frame list \<Rightarrow> u32 list" where
  "ctx_pages [] = []"
| "ctx_pages (Frame p pre post # c) = p # pre_pages pre @ post_pages post @ ctx_pages c"

fun ctx_before :: "frame list \<Rightarrow> (u32 \<times> leaf_entry list) list" where
  "ctx_before [] = []"
| "ctx_before (Frame p pre post # c) = ctx_before c @ pre_leaves pre"

fun ctx_after :: "frame list \<Rightarrow> (u32 \<times> leaf_entry list) list" where
  "ctx_after [] = []"
| "ctx_after (Frame p pre post # c) = post_leaves post @ ctx_after c"

lemma pre_spine_simps [simp]:
  "s_pages (pre_spine pre s) = pre_pages pre @ s_pages s" "s_leaves (pre_spine pre s) = pre_leaves pre @ s_leaves s"
  "s_seps (pre_spine pre s) = map (\<lambda>(t, k). \<lparr>ie_key = k, ie_child = t_page t\<rparr>) pre @ s_seps s"
  "s_last (pre_spine pre s) = s_last s"
  by (induction pre s rule: pre_spine.induct) (auto simp: pre_pages_def pre_leaves_def)

lemma hole_spine_simps [simp]:
  "s_pages (hole_spine t post) = t_pages t @ post_pages post" "s_leaves (hole_spine t post) = t_leaves t @ post_leaves post"
  by (cases post; auto simp: post_pages_def post_leaves_def)+

lemma mset_append_eq: "mset xs = mset ys \<Longrightarrow> distinct xs = distinct ys"
  by (rule mset_eq_imp_distinct_iff)

lemma plug_pages: "mset (t_pages (plug c t)) = mset (ctx_pages c) + mset (t_pages t)"
proof (induction c arbitrary: t)
  case (Cons f c)
  then show ?case by (cases f) simp
qed simp

lemma plug_page_set: "set (t_pages (plug c t)) = set (ctx_pages c) \<union> set (t_pages t)"
  using arg_cong [OF plug_pages [of c t], of set_mset] by simp

lemma plug_distinct: "distinct (t_pages (plug c t)) \<longleftrightarrow> distinct (ctx_pages c @ t_pages t)"
  by (rule mset_append_eq) (simp add: plug_pages)

lemma plug_leaves: "t_leaves (plug c t) = ctx_before c @ t_leaves t @ ctx_after c"
proof (induction c arbitrary: t)
  case (Cons f c)
  then show ?case by (cases f) simp
qed simp

lemma plug2_leaves: "t_leaves (plug2 c l k r) = ctx_before c @ t_leaves l @ t_leaves r @ ctx_after c"
proof (cases c)
  case (Cons f c')
  then show ?thesis by (cases f) (simp add: plug_leaves)
qed simp

section \<open>Order\<close>

text \<open>The separators are strictly ascending, which no update gives up.\<close>

definition beyond :: "key option \<Rightarrow> key \<Rightarrow> bool" where
  "beyond lo k = (case lo of None \<Rightarrow> True | Some l \<Rightarrow> key_lt l k)"

definition clean_bound :: "key option \<Rightarrow> bool" where
  "clean_bound b = (case b of None \<Rightarrow> True | Some k \<Rightarrow> clean_key k)"

lemma bound_simps [simp]:
  "beyond None k" "beyond (Some l) k = key_lt l k" "clean_bound None" "clean_bound (Some k) = clean_key k"
  "above None k" "above (Some l) k = (\<not> key_lt k l)" "below None k" "below (Some h) k = key_lt k h"
  by (simp_all add: beyond_def clean_bound_def above_def below_def)

primrec t_sorted :: "tree \<Rightarrow> key option \<Rightarrow> key option \<Rightarrow> bool" and s_sorted :: "spine \<Rightarrow> key option \<Rightarrow> key option \<Rightarrow> bool" where
  "t_sorted (Leaf p es) lo hi = (sorted_entries es \<and> (\<forall>e \<in> set es. above lo (le_key e) \<and> below hi (le_key e)))"
| "t_sorted (Inner p s) lo hi = s_sorted s lo hi"
| "s_sorted (Last t) lo hi = t_sorted t lo hi"
| "s_sorted (Sep t k s) lo hi = (clean_key k \<and> beyond lo k \<and> below hi k \<and> t_sorted t lo (Some k) \<and> s_sorted s (Some k) hi)"

lemma beyond_above: "clean_bound lo \<Longrightarrow> clean_key k \<Longrightarrow> beyond lo k \<Longrightarrow> above lo k"
  by (cases lo) (auto dest: ko.lt_iff)

lemma sorted_ord:
  "t_sorted t lo hi \<Longrightarrow> clean_bound lo \<Longrightarrow> t_ord t lo hi"
  "s_sorted s lo hi \<Longrightarrow> clean_bound lo \<Longrightarrow> s_ord s lo hi"
  by (induction t and s arbitrary: lo hi and lo hi) (auto simp: beyond_above)

fun pre_sorted :: "(tree \<times> key) list \<Rightarrow> key option \<Rightarrow> key option \<Rightarrow> bool" where
  "pre_sorted [] lo hi = True"
| "pre_sorted ((t, k) # xs) lo hi = (clean_key k \<and> beyond lo k \<and> below hi k \<and> t_sorted t lo (Some k) \<and> pre_sorted xs (Some k) hi)"

fun pre_bound :: "(tree \<times> key) list \<Rightarrow> key option \<Rightarrow> key option" where
  "pre_bound [] lo = lo"
| "pre_bound ((t, k) # xs) lo = pre_bound xs (Some k)"

lemma sorted_pre_spine: "s_sorted (pre_spine pre s) lo hi \<longleftrightarrow> pre_sorted pre lo hi \<and> s_sorted s (pre_bound pre lo) hi"
  by (induction pre s arbitrary: lo rule: pre_spine.induct) auto

lemma clean_pre_bound: "pre_sorted pre lo hi \<Longrightarrow> clean_bound lo \<Longrightarrow> clean_bound (pre_bound pre lo)"
  by (induction pre lo hi rule: pre_sorted.induct) auto

text \<open>What holds of a subtree for every bounds can be exchanged under a context.\<close>

lemma plug_sorted_mono:
  assumes "t_sorted (plug c t) lo hi" "clean_bound lo" "clean_bound hi"
    "\<And>lo hi. clean_bound lo \<Longrightarrow> clean_bound hi \<Longrightarrow> t_sorted t lo hi \<Longrightarrow> t_sorted t' lo hi"
  shows "t_sorted (plug c t') lo hi"
  using assms(1,4)
proof (induction c t arbitrary: t' rule: plug.induct)
  case (1 t)
  then show ?case using assms(2,3) by simp
next
  case (2 f c t)
  obtain p pre post where f: "f = Frame p pre post" by (cases f)
  have "t_sorted (fill f t') lo hi" if "clean_bound lo" "clean_bound hi" "t_sorted (fill f t) lo hi" for lo hi
    using that 2(3) clean_pre_bound [of pre lo hi] unfolding f
    by (cases post) (auto simp: sorted_pre_spine)
  then show ?case using 2 by simp
qed

section \<open>The halves of a node\<close>

fun s_split :: "nat \<Rightarrow> spine \<Rightarrow> spine \<times> key \<times> spine" where
  "s_split n (Last t) = (Last t, [], Last t)"
| "s_split 0 (Sep t k s) = (Last t, k, s)"
| "s_split (Suc n) (Sep t k s) = (let (a, k', b) = s_split n s in (Sep t k a, k', b))"

lemma spine_halves:
  assumes "s_split n s = (a, k, b)" "n < length (s_seps s)"
  shows "s_seps a = take n (s_seps s)" "s_last a = ie_child (s_seps s ! n)" "k = ie_key (s_seps s ! n)"
    "s_seps b = drop (Suc n) (s_seps s)" "s_last b = s_last s" "s_pages s = s_pages a @ s_pages b"
    "s_leaves s = s_leaves a @ s_leaves b"
  using assms by (induction n s arbitrary: a rule: s_split.induct) (auto split: prod.splits)

lemma split_sorted:
  assumes "s_split n s = (a, k, b)" "n < length (s_seps s)" "s_sorted s lo hi" "clean_bound lo" "clean_bound hi"
  shows "clean_key k \<and> beyond lo k \<and> below hi k \<and> s_sorted a lo (Some k) \<and> s_sorted b (Some k) hi"
  using assms
proof (induction n s arbitrary: a lo rule: s_split.induct)
  case (3 n t k0 s)
  obtain a' where a: "s_split n s = (a', k, b)" "a = Sep t k0 a'" using "3.prems"(1) by (auto split: prod.splits)
  have "clean_key k \<and> beyond (Some k0) k \<and> below hi k \<and> s_sorted a' (Some k0) (Some k) \<and> s_sorted b (Some k) hi"
    by (rule "3.IH" [OF a(1)]) (use "3.prems" in simp_all)
  moreover have "beyond lo k" if "clean_key k" "key_lt k0 k"
    using that "3.prems" by (cases lo) (auto intro: ko.lt_trans)
  ultimately show ?case using a(2) "3.prems" by simp
qed auto

lemma split_find:
  assumes "s_split n s = (a, k, b)" "n < length (s_seps s)" "s_sorted s lo hi" "clean_bound lo" "clean_bound hi" "clean_key y"
  shows "s_find y s = (if key_lt y k then s_find y a else s_find y b)"
  using assms
proof (induction n s arbitrary: a lo rule: s_split.induct)
  case (3 n t k0 s)
  obtain a' where a: "s_split n s = (a', k, b)" "a = Sep t k0 a'" using "3.prems"(1) by (auto split: prod.splits)
  have n: "n < length (s_seps s)" "s_sorted s (Some k0) hi" "clean_key k0" using "3.prems" by simp_all
  have k: "clean_key k" "key_lt k0 k" using split_sorted [OF a(1) n(1,2)] n(3) "3.prems"(5) by simp_all
  have "key_lt y k" if "key_lt y k0" using ko.lt_trans [OF "3.prems"(6) n(3) k(1) that k(2)] .
  then show ?case using "3.IH" [OF a(1) n(1,2) _ "3.prems"(5,6)] n(3) a(2) by auto
qed auto

lemma hole_sorted:
  "s_sorted (hole_spine t post) lo hi \<Longrightarrow> clean_bound hi \<Longrightarrow> \<exists>hi'. clean_bound hi' \<and> t_sorted t lo hi' \<and> (\<forall>k s. post = Some (k, s) \<longrightarrow> hi' = Some k)"
  by (cases post) auto

lemma plug_sorted_at:
  assumes "t_sorted (plug c t) lo hi" "clean_bound lo" "clean_bound hi"
  shows "\<exists>lo hi. clean_bound lo \<and> clean_bound hi \<and> t_sorted t lo hi"
  using assms
proof (induction c arbitrary: t)
  case (Cons f c)
  obtain p pre post where f: "f = Frame p pre post" by (cases f)
  obtain lo' hi' where "clean_bound lo'" "clean_bound hi'" "t_sorted (fill f t) lo' hi'"
    using Cons.IH [of "fill f t"] Cons.prems by auto
  then have "clean_bound (pre_bound pre lo')" "s_sorted (hole_spine t post) (pre_bound pre lo') hi'" "clean_bound hi'"
    using clean_pre_bound [of pre lo' hi'] by (simp_all add: f sorted_pre_spine)
  then show ?case using hole_sorted [of t post "pre_bound pre lo'" hi'] by blast
qed auto

text \<open>Replacing a node by its halves keeps the order and where every search ends.\<close>

lemma pre_find_cong: "s_find y s = s_find y s' \<Longrightarrow> s_find y (pre_spine pre s) = s_find y (pre_spine pre s')"
  by (induction pre s rule: pre_spine.induct) auto

lemma split_frame:
  assumes "s_split n s = (a, k, b)" "n < length (s_seps s)" "t_sorted (fill f (Inner p s)) lo hi" "clean_bound lo" "clean_bound hi"
  shows "t_sorted (fill2 f (Inner p a) k (Inner q b)) lo hi"
    "clean_key y \<Longrightarrow> t_find y (fill2 f (Inner p a) k (Inner q b)) = t_find y (fill f (Inner p s))"
proof -
  obtain p' pre post where f: "f = Frame p' pre post" by (cases f)
  have pre: "pre_sorted pre lo hi" "s_sorted (hole_spine (Inner p s) post) (pre_bound pre lo) hi" "clean_bound (pre_bound pre lo)"
    using assms(3,4) clean_pre_bound [of pre lo hi] by (simp_all add: f sorted_pre_spine)
  define hi' where "hi' = (case post of None \<Rightarrow> hi | Some (pk, ps) \<Rightarrow> Some pk)"
  have s: "s_sorted s (pre_bound pre lo) hi'" "clean_bound hi'"
    using pre(2) assms(5) by (cases "(Inner p s, post)" rule: hole_spine.cases; simp add: hi'_def)+
  note h = split_sorted [OF assms(1,2) s(1) pre(3) s(2)]
  have "s_sorted (Sep (Inner p a) k (hole_spine (Inner q b) post)) (pre_bound pre lo) hi"
  proof (cases post)
    case None
    then show ?thesis using h by (simp add: hi'_def)
  next
    case (Some x)
    obtain pk ps where x: "x = (pk, ps)" by (cases x)
    have "below hi k"
    proof (cases hi)
      case (Some h')
      have "key_lt k pk" "clean_key k" "clean_key pk" "key_lt pk h'" "clean_key h'"
        using h pre(2) assms(5) \<open>post = Some x\<close> x Some by (auto simp: hi'_def)
      then show ?thesis using Some ko.lt_trans [of k pk h'] by simp
    qed simp
    then show ?thesis using h pre(2) Some x by (simp add: hi'_def)
  qed
  then show "t_sorted (fill2 f (Inner p a) k (Inner q b)) lo hi" using pre(1) by (simp add: f sorted_pre_spine)
  show "t_find y (fill2 f (Inner p a) k (Inner q b)) = t_find y (fill f (Inner p s))" if y: "clean_key y"
  proof -
    have "s_find y (Sep (Inner p a) k (hole_spine (Inner q b) post)) = s_find y (hole_spine (Inner p s) post)"
    proof (cases post)
      case None
      then show ?thesis using split_find [OF assms(1,2) s(1) pre(3) s(2) y] by simp
    next
      case (Some x)
      obtain pk ps where x: "x = (pk, ps)" by (cases x)
      have "key_lt y pk" if "key_lt y k"
        using h pre(2) Some x that y ko.lt_trans [of y k pk] by (simp add: hi'_def)
      then show ?thesis using split_find [OF assms(1,2) s(1) pre(3) s(2) y] Some x by simp
    qed
    from pre_find_cong [OF this] show ?thesis by (simp add: f)
  qed
qed

lemma hole_find_cong: "t_find y t = t_find y t' \<Longrightarrow> s_find y (hole_spine t post) = s_find y (hole_spine t' post)"
  by (cases "(t, post)" rule: hole_spine.cases) simp_all

lemma plug_find_cong: "(t_find y t = t_find y t') \<Longrightarrow> t_find y (plug c t) = t_find y (plug c t')"
proof (induction c arbitrary: t t')
  case (Cons f c)
  obtain p pre post where f: "f = Frame p pre post" by (cases f)
  have "s_find y (pre_spine pre (hole_spine t post)) = s_find y (pre_spine pre (hole_spine t' post))"
    by (rule pre_find_cong [OF hole_find_cong [OF Cons.prems]])
  then show ?case using Cons.IH [of "fill f t" "fill f t'"] by (simp add: f)
qed simp

lemma split_plug:
  assumes "s_split n s = (a, k, b)" "n < length (s_seps s)" "t_sorted (plug c (Inner p s)) None None"
  shows "t_sorted (plug2 c (Inner p a) k (Inner q b)) None None"
    "clean_key y \<Longrightarrow> t_find y (plug2 c (Inner p a) k (Inner q b)) = t_find y (plug c (Inner p s))"
proof -
  have "t_sorted (plug2 c (Inner p a) k (Inner q b)) None None
    \<and> (clean_key y \<longrightarrow> t_find y (plug2 c (Inner p a) k (Inner q b)) = t_find y (plug c (Inner p s)))" for y
  proof (cases c)
    case Nil
    then show ?thesis using assms split_sorted [OF assms(1,2), of None None] split_find [OF assms(1,2), of None None y] by simp
  next
    case (Cons f c')
    obtain lo hi where b: "clean_bound lo" "clean_bound hi" "t_sorted (fill f (Inner p s)) lo hi"
      using plug_sorted_at [of c' "fill f (Inner p s)" None None] assms(3) Cons by auto
    have "t_sorted (plug c' (fill2 f (Inner p a) k (Inner q b))) None None"
    proof (rule plug_sorted_mono [of c' "fill f (Inner p s)"])
      show "t_sorted (plug c' (fill f (Inner p s))) None None" using assms(3) Cons by simp
    qed (simp_all add: split_frame(1) [OF assms(1,2)])
    moreover have "t_find y (plug c' (fill2 f (Inner p a) k (Inner q b))) = t_find y (plug c' (fill f (Inner p s)))"
      if "clean_key y" by (rule plug_find_cong [OF split_frame(2) [OF assms(1,2) b(3,1,2) that]])
    ultimately show ?thesis using Cons by simp
  qed
  then show "t_sorted (plug2 c (Inner p a) k (Inner q b)) None None"
    "clean_key y \<Longrightarrow> t_find y (plug2 c (Inner p a) k (Inner q b)) = t_find y (plug c (Inner p s))" by blast+
qed

section \<open>The path to a key\<close>

fun on_path :: "key \<Rightarrow> frame list \<Rightarrow> bool" where
  "on_path x [] = True"
| "on_path x (Frame p pre post # c) = ((\<forall>(t, k) \<in> set pre. \<not> key_lt x k)
     \<and> (case post of None \<Rightarrow> True | Some (k, s) \<Rightarrow> key_lt x k) \<and> on_path x c)"

lemma plug_append: "plug (c @ d) t = plug d (plug c t)"
  by (induction c arbitrary: t) auto

lemma on_path_append: "on_path x (c @ d) \<longleftrightarrow> on_path x c \<and> on_path x d"
  by (induction x c rule: on_path.induct) auto

lemma find_zipper:
  "\<exists>c es. t = plug c (Leaf (t_find x t) es) \<and> on_path x c"
  "\<exists>pre t' post c es. s = pre_spine pre (hole_spine t' post) \<and> t' = plug c (Leaf (s_find x s) es) \<and> on_path x c
     \<and> (\<forall>(t, k) \<in> set pre. \<not> key_lt x k) \<and> (case post of None \<Rightarrow> True | Some (k, s) \<Rightarrow> key_lt x k)"
proof (induction t and s)
  case (Leaf p es)
  show ?case by (intro exI [of _ "[]"] exI [of _ es]) simp
next
  case (Inner p s)
  then obtain pre t' post c es where h: "s = pre_spine pre (hole_spine t' post)" "t' = plug c (Leaf (s_find x s) es)" "on_path x c"
     "\<forall>(t, k) \<in> set pre. \<not> key_lt x k" "case post of None \<Rightarrow> True | Some (k, s) \<Rightarrow> key_lt x k" by blast
  then have "Inner p s = plug (c @ [Frame p pre post]) (Leaf (t_find x (Inner p s)) es) \<and> on_path x (c @ [Frame p pre post])"
    by (simp add: plug_append on_path_append)
  then show ?case by blast
next
  case (Last t)
  then obtain c es where "t = plug c (Leaf (t_find x t) es)" "on_path x c" by blast
  then show ?case by (intro exI [of _ "[]"] exI [of _ t] exI [of _ None] exI [of _ c] exI [of _ es]) simp
next
  case (Sep t k s)
  show ?case
  proof (cases "key_lt x k")
    case True
    obtain c es where "t = plug c (Leaf (t_find x t) es)" "on_path x c" using Sep.IH(1) by blast
    then show ?thesis using True
      by (intro exI [of _ "[]"] exI [of _ t] exI [of _ "Some (k, s)"] exI [of _ c] exI [of _ es]) simp
  next
    case False
    obtain pre t' post c es where "s = pre_spine pre (hole_spine t' post)" "t' = plug c (Leaf (s_find x s) es)" "on_path x c"
     "\<forall>(t, k) \<in> set pre. \<not> key_lt x k" "case post of None \<Rightarrow> True | Some (k, s) \<Rightarrow> key_lt x k" using Sep.IH(2) by blast
    then show ?thesis using False
      by (intro exI [of _ "(t, k) # pre"] exI [of _ t'] exI [of _ post] exI [of _ c] exI [of _ es]) simp
  qed
qed

lemma pre_bound_above: "\<forall>(t, k) \<in> set pre. \<not> key_lt x k \<Longrightarrow> above lo x \<Longrightarrow> above (pre_bound pre lo) x"
  by (induction pre lo rule: pre_bound.induct) auto

lemma path_sorted_mono:
  assumes "t_sorted (plug c t) None None" "on_path x c"
    "\<And>lo hi. clean_bound lo \<Longrightarrow> clean_bound hi \<Longrightarrow> above lo x \<Longrightarrow> below hi x \<Longrightarrow> t_sorted t lo hi \<Longrightarrow> t_sorted t' lo hi"
  shows "t_sorted (plug c t') None None"
proof -
  have "t_sorted (plug c t') lo hi" if "t_sorted (plug c t) lo hi" "clean_bound lo" "clean_bound hi" "above lo x" "below hi x" for lo hi
    using that(1) assms(2,3)
  proof (induction c arbitrary: t t')
    case Nil
    then show ?case using that(2-5) by simp
  next
    case (Cons f c)
    obtain p pre post where f: "f = Frame p pre post" by (cases f)
    have path: "\<forall>(t, k) \<in> set pre. \<not> key_lt x k" "case post of None \<Rightarrow> True | Some (k, s) \<Rightarrow> key_lt x k" "on_path x c"
      using Cons.prems(2) by (simp_all add: f)
    have "t_sorted (fill f t') lo hi" if b: "clean_bound lo" "clean_bound hi" "above lo x" "below hi x" "t_sorted (fill f t) lo hi" for lo hi
    proof -
      have pre: "pre_sorted pre lo hi" "s_sorted (hole_spine t post) (pre_bound pre lo) hi" "clean_bound (pre_bound pre lo)"
        "above (pre_bound pre lo) x"
        using b clean_pre_bound [of pre lo hi] pre_bound_above [OF path(1) b(3)] by (simp_all add: f sorted_pre_spine)
      have "s_sorted (hole_spine t' post) (pre_bound pre lo) hi"
        using pre path(2) b(2,4) Cons.prems(3) [of "pre_bound pre lo"] by (cases post) auto
      then show ?thesis using pre(1) by (simp add: f sorted_pre_spine)
    qed
    then show ?case using Cons.IH [of "fill f t" "fill f t'"] Cons.prems(1) path(3) by simp
  qed
  then show ?thesis using assms(1) by simp
qed

text \<open>A key greater than the bounds of nobody: where a search for it ends under a context.\<close>

lemma path_find:
  assumes "on_path x c"
  shows "t_find x (plug c t) = t_find x t" "t_find x (plug2 c l k r) = (if key_lt x k then t_find x l else t_find x r)"
proof -
  have pre: "s_find x (pre_spine pre z) = s_find x z" if "\<forall>(t, k) \<in> set pre. \<not> key_lt x k" for pre z
    using that by (induction pre z rule: pre_spine.induct) auto
  have one: "t_find x (plug c t) = t_find x t" if "on_path x c" for c t
    using that
  proof (induction c arbitrary: t)
    case (Cons f c)
    obtain p pre post where f: "f = Frame p pre post" by (cases f)
    show ?case using Cons.prems Cons.IH [of "fill f t"] by (cases post) (auto simp: f pre)
  qed simp
  show "t_find x (plug c t) = t_find x t" by (rule one [OF assms])
  show "t_find x (plug2 c l k r) = (if key_lt x k then t_find x l else t_find x r)"
  proof (cases c)
    case (Cons f c')
    obtain p pre post where f: "f = Frame p pre post" by (cases f)
    show ?thesis using assms one [of c'] unfolding Cons by (cases post) (auto simp: f pre)
  qed simp
qed

text \<open>A leaf and the two leaves it is split into.\<close>

lemma leaf_plug_sorted:
  assumes "t_sorted (plug c (Leaf p (es @ fs))) None None" "es \<noteq> []" "fs \<noteq> []"
  shows "t_sorted (plug2 c (Leaf p es) (le_key (hd fs)) (Leaf q fs)) None None"
proof -
  let ?k = "le_key (hd fs)"
  have leaf: "clean_key ?k \<and> beyond lo ?k \<and> below hi ?k \<and> t_sorted (Leaf p es) lo (Some ?k) \<and> t_sorted (Leaf q fs) (Some ?k) hi"
    if "t_sorted (Leaf p (es @ fs)) lo hi" "clean_bound lo" for lo hi
  proof -
    have s: "sorted_entries es" "sorted_entries fs" "\<forall>a \<in> set es. \<forall>b \<in> set fs. key_lt (le_key a) (le_key b)"
      and b: "\<forall>e \<in> set (es @ fs). above lo (le_key e) \<and> below hi (le_key e)"
      using that by (simp_all add: sorted_entries_append)
    have h: "hd fs \<in> set fs" "hd es \<in> set es" using assms(2,3) by simp_all
    have c: "clean_key (le_key e)" if "e \<in> set (es @ fs)" for e using s(1,2) that by (auto simp: sorted_entries_def)
    have "beyond lo ?k"
    proof (cases lo)
      case (Some l)
      have "\<not> key_lt (le_key (hd es)) l" "key_lt (le_key (hd es)) ?k" using b s(3) h Some by auto
      then show ?thesis using Some ko.not_lt_trans [of l "le_key (hd es)" ?k] that(2) c h by simp
    qed simp
    moreover have "\<not> key_lt (le_key e) ?k" if "e \<in> set fs" for e
    proof (cases fs)
      case (Cons a as)
      then show ?thesis using that s(2) c ko.lt_irrefl [of ?k] ko.lt_iff [of ?k "le_key e"] by (auto simp: sorted_entries_Cons)
    qed (use that in simp)
    ultimately show ?thesis using b s h c by simp
  qed
  show ?thesis
  proof (cases c)
    case Nil
    then show ?thesis using leaf [of None None] assms(1) by simp
  next
    case (Cons f c')
    obtain p' pre post where f: "f = Frame p' pre post" by (cases f)
    have fill2: "t_sorted (fill2 f (Leaf p es) ?k (Leaf q fs)) lo hi"
      if b: "clean_bound lo" "clean_bound hi" "t_sorted (fill f (Leaf p (es @ fs))) lo hi" for lo hi
    proof -
      have pre: "pre_sorted pre lo hi" "s_sorted (hole_spine (Leaf p (es @ fs)) post) (pre_bound pre lo) hi" "clean_bound (pre_bound pre lo)"
        using b clean_pre_bound [of pre lo hi] by (simp_all add: f sorted_pre_spine)
      have "s_sorted (Sep (Leaf p es) ?k (hole_spine (Leaf q fs) post)) (pre_bound pre lo) hi"
      proof (cases post)
        case None
        then show ?thesis using leaf [of "pre_bound pre lo" hi] pre(2,3) by simp
      next
        case (Some y)
        obtain pk ps where y: "y = (pk, ps)" by (cases y)
        have l: "t_sorted (Leaf p (es @ fs)) (pre_bound pre lo) (Some pk)" "clean_key pk" "below hi pk" using pre(2) Some y by simp_all
        note k = leaf [OF l(1) pre(3)]
        have "below hi ?k" using below_trans [of ?k pk hi] k l(2,3) b(2) by (cases hi) auto
        then show ?thesis using k pre(2) Some y by simp
      qed
      then show ?thesis using pre(1) by (simp add: f sorted_pre_spine)
    qed
    have "t_sorted (plug c' (fill f (Leaf p (es @ fs)))) None None" using assms(1) Cons by simp
    then show ?thesis unfolding Cons plug2.simps
      by (rule plug_sorted_mono [of c' "fill f (Leaf p (es @ fs))", OF _ _ _ fill2]) simp_all
  qed
qed

section \<open>Sizes\<close>

text \<open>A key whose cell in an inner node takes at most the 64 bytes that \<open>is_full\<close> keeps free.\<close>

definition short_key :: "key \<Rightarrow> bool" where
  "short_key k \<longleftrightarrow> key_fits k \<and> length (key_encode k) \<le> 60"

definition leaf_fits :: "leaf_entry list \<Rightarrow> bool" where
  "leaf_fits es \<longleftrightarrow> leaf_bytes es \<le> capacity \<and> list_all leaf_entry_fits es \<and> list_all (\<lambda>e. short_key (le_key e)) es"

definition seps_fit :: "nat \<Rightarrow> internal_entry list \<Rightarrow> bool" where
  "seps_fit n es \<longleftrightarrow> internal_bytes es + n \<le> capacity \<and> list_all (\<lambda>e. short_key (ie_key e)) es"

primrec t_fit :: "tree \<Rightarrow> bool" and s_fit :: "spine \<Rightarrow> bool" where
  "t_fit (Leaf p es) = leaf_fits es"
| "t_fit (Inner p s) = (seps_fit 64 (s_seps s) \<and> s_fit s)"
| "s_fit (Last t) = t_fit t"
| "s_fit (Sep t k s) = (t_fit t \<and> s_fit s)"

definition frame_seps :: "frame \<Rightarrow> u32 \<Rightarrow> internal_entry list" where
  "frame_seps f q = map (\<lambda>(t, k). \<lparr>ie_key = k, ie_child = t_page t\<rparr>) (f_pre f)
     @ (case f_post f of None \<Rightarrow> [] | Some (k, s) \<Rightarrow> \<lparr>ie_key = k, ie_child = q\<rparr> # s_seps s)"

definition frame_last :: "frame \<Rightarrow> u32 \<Rightarrow> u32" where
  "frame_last f q = (case f_post f of None \<Rightarrow> q | Some (k, s) \<Rightarrow> s_last s)"

text \<open>The separators with two neighbours in the place of one child.\<close>

definition frame_seps2 :: "frame \<Rightarrow> u32 \<Rightarrow> key \<Rightarrow> u32 \<Rightarrow> internal_entry list" where
  "frame_seps2 f l k r = map (\<lambda>(t, k). \<lparr>ie_key = k, ie_child = t_page t\<rparr>) (f_pre f) @ \<lparr>ie_key = k, ie_child = l\<rparr>
     # (case f_post f of None \<Rightarrow> [] | Some (k', s) \<Rightarrow> \<lparr>ie_key = k', ie_child = r\<rparr> # s_seps s)"

definition frame_fit :: "frame \<Rightarrow> bool" where
  "frame_fit f \<longleftrightarrow> seps_fit 64 (frame_seps f 0) \<and> list_all (t_fit \<circ> fst) (f_pre f)
     \<and> (case f_post f of None \<Rightarrow> True | Some (k, s) \<Rightarrow> s_fit s)"

lemma hole_seps:
  "s_seps (hole_spine t post) = (case post of None \<Rightarrow> [] | Some (k, s) \<Rightarrow> \<lparr>ie_key = k, ie_child = t_page t\<rparr> # s_seps s)"
  "s_last (hole_spine t post) = (case post of None \<Rightarrow> t_page t | Some (k, s) \<Rightarrow> s_last s)"
  "s_fit (hole_spine t post) = (t_fit t \<and> (case post of None \<Rightarrow> True | Some (k, s) \<Rightarrow> s_fit s))"
  by (cases "(t, post)" rule: hole_spine.cases; simp)+

lemma internal_bytes_sum: "internal_bytes es = (\<Sum>e\<leftarrow>es. length (key_encode (ie_key e)) + 4)"
  by (induction es) (simp_all add: internal_bytes_def internal_cell_def)

lemma internal_bytes_append [simp]: "internal_bytes (xs @ ys) = internal_bytes xs + internal_bytes ys"
  by (simp add: internal_bytes_sum)

lemma seps_fit_child: "map ie_key es = map ie_key fs \<Longrightarrow> seps_fit n es = seps_fit n fs"
proof -
  assume e: "map ie_key es = map ie_key fs"
  have "internal_bytes es = (\<Sum>k\<leftarrow>map ie_key es. length (key_encode k) + 4)" for es by (simp add: internal_bytes_sum comp_def)
  then have "internal_bytes es = internal_bytes fs" using e by metis
  moreover have "list_all (\<lambda>e. short_key (ie_key e)) es = list_all short_key (map ie_key es)" for es by (simp add: list.pred_map comp_def)
  then have "list_all (\<lambda>e. short_key (ie_key e)) es = list_all (\<lambda>e. short_key (ie_key e)) fs" using e by metis
  ultimately show ?thesis by (simp add: seps_fit_def)
qed

lemma frame_seps_keys: "map ie_key (frame_seps f q) = map ie_key (frame_seps f q')"
  by (cases f) (auto simp: frame_seps_def split: option.splits)

lemma fill_seps:
  "s_seps (pre_spine pre (hole_spine t post)) = frame_seps (Frame p pre post) (t_page t)"
  "s_last (pre_spine pre (hole_spine t post)) = frame_last (Frame p pre post) (t_page t)"
  "s_seps (pre_spine pre (Sep l k (hole_spine r post))) = frame_seps2 (Frame p pre post) (t_page l) k (t_page r)"
  "s_last (pre_spine pre (Sep l k (hole_spine r post))) = frame_last (Frame p pre post) (t_page r)"
  by (simp_all add: frame_seps_def frame_last_def frame_seps2_def hole_seps)

lemma pre_fit: "s_fit (pre_spine pre s) \<longleftrightarrow> list_all (t_fit \<circ> fst) pre \<and> s_fit s"
  by (induction pre s rule: pre_spine.induct) auto

lemma fill_fit: "t_fit (fill f t) \<longleftrightarrow> frame_fit f \<and> t_fit t"
proof -
  obtain p pre post where f: "f = Frame p pre post" by (cases f)
  show ?thesis unfolding f fill.simps t_fit.simps fill_seps(1) [where p = p] pre_fit hole_seps(3)
    using seps_fit_child [OF frame_seps_keys [of "Frame p pre post" "t_page t" 0]] by (auto simp: frame_fit_def)
qed

lemma plug_fit: "t_fit (plug c t) \<longleftrightarrow> list_all frame_fit c \<and> t_fit t"
  by (induction c arbitrary: t) (auto simp: fill_fit)

lemma key_encode_long: "2 \<le> length (key_encode k)"
  by (simp add: key_encode_def)

lemma bytes_bounds:
  "list_all (\<lambda>e. short_key (ie_key e)) es \<Longrightarrow> 6 * length es \<le> internal_bytes es \<and> internal_bytes es \<le> 64 * length es"
proof (induction es)
  case (Cons e es)
  then show ?case using key_encode_long [of "ie_key e"] by (simp add: internal_bytes_sum short_key_def)
qed (simp add: internal_bytes_sum)

text \<open>
  The halves of a full node have room again: it has at least 62 separators, each of at least 6
  bytes, so that a half lacks at least 180 of its bytes.
\<close>

lemma halves_fit:
  assumes "seps_fit 0 es" "\<not> seps_fit 64 es" "n = length es div 2"
  shows "seps_fit 64 (take n es)" "seps_fit 64 (drop (Suc n) es)" "n < length es"
proof -
  have s: "list_all (\<lambda>e. short_key (ie_key e)) es" and b: "internal_bytes es \<le> capacity" "capacity < internal_bytes es + 64"
    using assms by (auto simp: seps_fit_def)
  have cap: "capacity = 4079" by (simp add: capacity_def PAGE_SIZE_def NODE_HEADER_SIZE_def)
  have len: "62 \<le> length es" using bytes_bounds [OF s] b cap by linarith
  then show n: "n < length es" using assms(3) by linarith
  have st: "list_all (\<lambda>e. short_key (ie_key e)) (take n es)" "list_all (\<lambda>e. short_key (ie_key e)) (drop n es)"
    "list_all (\<lambda>e. short_key (ie_key e)) (take (Suc n) es)" "list_all (\<lambda>e. short_key (ie_key e)) (drop (Suc n) es)"
    using s by (auto simp: list_all_iff dest: in_set_takeD in_set_dropD)
  have "internal_bytes es = internal_bytes (take n es) + internal_bytes (drop n es)"
    by (metis append_take_drop_id internal_bytes_append)
  moreover have "6 * (length es - n) \<le> internal_bytes (drop n es)" using bytes_bounds [OF st(2)] by simp
  ultimately show "seps_fit 64 (take n es)" using st(1) b(1) len assms(3) by (simp add: seps_fit_def)
  have "internal_bytes es = internal_bytes (take (Suc n) es) + internal_bytes (drop (Suc n) es)"
    by (metis append_take_drop_id internal_bytes_append)
  moreover have "6 * Suc n \<le> internal_bytes (take (Suc n) es)" using bytes_bounds [OF st(3)] n by simp
  ultimately show "seps_fit 64 (drop (Suc n) es)" using st(4) b(1) len assms(3) by (simp add: seps_fit_def)
qed

lemma split_fit: "s_split n s = (a, k, b) \<Longrightarrow> n < length (s_seps s) \<Longrightarrow> s_fit s \<Longrightarrow> s_fit a \<and> s_fit b"
  by (induction n s arbitrary: a rule: s_split.induct) (auto split: prod.splits)

section \<open>Pages\<close>

definition leaf_held :: "(u32 \<Rightarrow> page) \<Rightarrow> u32 \<Rightarrow> u32 \<Rightarrow> leaf_entry list \<Rightarrow> bool" where
  "leaf_held v par p es \<longleftrightarrow> node_ok (v p) \<and> is_leaf (v p) \<and> get_leaf_entries (v p) = Inr es
     \<and> unat (free_space_ptr (v p)) = PAGE_SIZE - leaf_bytes es \<and> parent_page (v p) = par"

definition inner_held :: "(u32 \<Rightarrow> page) \<Rightarrow> u32 \<Rightarrow> u32 \<Rightarrow> internal_entry list \<Rightarrow> u32 \<Rightarrow> bool" where
  "inner_held v par p es r \<longleftrightarrow> node_ok (v p) \<and> \<not> is_leaf (v p) \<and> get_internal_entries (v p) = Inr es \<and> rightmost_child (v p) = r
     \<and> unat (free_space_ptr (v p)) = PAGE_SIZE - internal_bytes es \<and> parent_page (v p) = par"

primrec t_held :: "(u32 \<Rightarrow> page) \<Rightarrow> u32 \<Rightarrow> tree \<Rightarrow> bool" and s_held :: "(u32 \<Rightarrow> page) \<Rightarrow> u32 \<Rightarrow> spine \<Rightarrow> bool" where
  "t_held v par (Leaf p es) = leaf_held v par p es"
| "t_held v par (Inner p s) = (inner_held v par p (s_seps s) (s_last s) \<and> s_held v p s)"
| "s_held v par (Last t) = t_held v par t"
| "s_held v par (Sep t k s) = (t_held v par t \<and> s_held v par s)"

fun ctx_held :: "(u32 \<Rightarrow> page) \<Rightarrow> frame list \<Rightarrow> u32 \<Rightarrow> bool" where
  "ctx_held v [] q = True"
| "ctx_held v (f # c) q = (inner_held v (ctx_parent c) (f_page f) (frame_seps f q) (frame_last f q)
     \<and> list_all (t_held v (f_page f) \<circ> fst) (f_pre f)
     \<and> (case f_post f of None \<Rightarrow> True | Some (k, s) \<Rightarrow> s_held v (f_page f) s) \<and> ctx_held v c (f_page f))"

lemma held_rep: "t_held v par t \<Longrightarrow> t_rep v t" "s_held v par s \<Longrightarrow> s_rep v s"
  by (induction t and s arbitrary: par and par) (auto simp: leaf_held_def inner_held_def)

lemma pre_held: "s_held v par (pre_spine pre s) \<longleftrightarrow> list_all (t_held v par \<circ> fst) pre \<and> s_held v par s"
  by (induction pre s rule: pre_spine.induct) auto

lemma hole_held:
  "s_held v par (hole_spine t post) \<longleftrightarrow> t_held v par t \<and> (case post of None \<Rightarrow> True | Some (k, s) \<Rightarrow> s_held v par s)"
  by (cases "(t, post)" rule: hole_spine.cases; simp)

lemma fill_held:
  "t_held v (ctx_parent c) (fill f t) \<and> ctx_held v c (f_page f) \<longleftrightarrow> ctx_held v (f # c) (t_page t) \<and> t_held v (f_page f) t"
  by (cases f) (auto simp: fill_seps [symmetric] pre_held hole_held simp del: pre_spine_simps split: option.splits)

lemma fill_page [simp]: "t_page (fill f t) = f_page f" "t_page (fill2 f l k r) = f_page f"
  by (cases f; simp)+

lemma plug_held: "t_held v INVALID_PAGE (plug c t) \<longleftrightarrow> ctx_held v c (t_page t) \<and> t_held v (ctx_parent c) t"
proof (induction c arbitrary: t)
  case (Cons f c)
  have "t_held v INVALID_PAGE (plug (f # c) t) \<longleftrightarrow> ctx_held v c (f_page f) \<and> t_held v (ctx_parent c) (fill f t)"
    using Cons.IH [of "fill f t"] by simp
  then show ?case using fill_held [of v c f t] by auto
qed simp

lemma held_cong:
  "t_held v par t \<Longrightarrow> \<forall>p \<in> set (t_pages t). v' p = v p \<Longrightarrow> t_held v' par t"
  "s_held v par s \<Longrightarrow> \<forall>p \<in> set (s_pages s). v' p = v p \<Longrightarrow> s_held v' par s"
  by (induction t and s arbitrary: par and par) (auto simp: leaf_held_def inner_held_def)

lemma ctx_held_cong:
  assumes "ctx_held v c q" "\<forall>p \<in> set (ctx_pages c). v' p = v p"
  shows "ctx_held v' c q"
  using assms
proof (induction c arbitrary: q)
  case (Cons f c)
  obtain p pre post where f: "f = Frame p pre post" by (cases f)
  have "t_held v' p t" if "(t, k) \<in> set pre" for t k
    using Cons.prems that by (intro held_cong(1) [of v p t v']) (force simp: f list_all_iff pre_pages_def)+
  moreover have "s_held v' p s" if "post = Some (k, s)" for k s
    using Cons.prems that held_cong(2) [of v p s v'] by (auto simp: f post_pages_def)
  ultimately show ?case using Cons.prems Cons.IH [of p]
    by (auto simp: f inner_held_def list_all_iff split: option.splits)
qed simp

text \<open>A subtree under a new parent.\<close>

lemma held_adopted:
  assumes "t_held v par t" "distinct (t_pages t)" "v' (t_page t) = set_parent_page par' (v (t_page t))"
    "\<forall>q \<in> set (t_pages t). q \<noteq> t_page t \<longrightarrow> v' q = v q"
  shows "t_held v' par' t"
proof (cases t)
  case (Leaf p es)
  then show ?thesis using assms by (auto simp: leaf_held_def is_leaf_def)
next
  case (Inner p s)
  then have "s_held v' p s" using assms by (intro held_cong(2) [of v p s v']) auto
  then show ?thesis using Inner assms by (auto simp: inner_held_def is_leaf_def)
qed

fun s_tops :: "spine \<Rightarrow> u32 list" where
  "s_tops (Last t) = [t_page t]"
| "s_tops (Sep t k s) = t_page t # s_tops s"

lemma tops_children: "s_tops s = map ie_child (s_seps s) @ [s_last s]"
  by (induction s rule: s_tops.induct) auto

lemma tops_pages: "set (s_tops s) \<subseteq> set (s_pages s)"
  by (induction s rule: s_tops.induct) (auto simp: t_page_in)

lemma tops_distinct: "distinct (s_pages s) \<Longrightarrow> distinct (s_tops s)"
  using t_page_in tops_pages by (induction s rule: s_tops.induct) fastforce+

lemma spine_adopted:
  assumes "s_held v par s" "distinct (s_pages s)"
    "\<forall>q \<in> set (s_pages s). v' q = (if q \<in> set (s_tops s) then set_parent_page par' (v q) else v q)"
  shows "s_held v' par' s"
  using assms
proof (induction s rule: s_tops.induct)
  case (1 t)
  then show ?case using t_page_in [of t] by (auto intro: held_adopted [of v par t])
next
  case (2 t k s)
  have d: "set (t_pages t) \<inter> set (s_pages s) = {}" "distinct (t_pages t)" using "2.prems"(2) by auto
  have "t_held v' par' t"
    by (rule held_adopted [of v par]) (use "2.prems" d t_page_in [of t] tops_pages [of s] in auto)
  moreover have "s_held v' par' s"
    by (rule "2.IH") (use "2.prems" d t_page_in [of t] in auto)
  ultimately show ?case by simp
qed

end
