(* ===== verification/Tree_Split.thy ===== *)
theory Tree_Split
  imports Tree_Store Tree_Zipper
begin

text \<open>
  A new separator on its way up. Splitting an inner node and hanging its right half into the parent
  call each other until a node has room or there is a new root; here each of these steps is a rule
  on the memory, and together they turn a tree with one child too many into a well-formed tree of
  the same leaves.
\<close>

section \<open>Sorting in one element\<close>

lemma insert_by_front:
  "(\<And>y. y \<in> set ys \<Longrightarrow> \<not> lt y x) \<Longrightarrow> insert_by lt x ys = x # ys"
  by (cases ys) auto

lemma sort_by_between:
  assumes "sorted_wrt (\<lambda>a b. \<not> lt b a) (A @ B)" "\<forall>a \<in> set A. \<not> lt x a" "\<forall>b \<in> set B. lt x b"
  shows "sort_by lt (A @ B @ [x]) = A @ x # B"
proof -
  have B: "foldr (insert_by lt) B [x] = x # B" if "sorted_wrt (\<lambda>a b. \<not> lt b a) B" "\<forall>b \<in> set B. lt x b" for B
    using that by (induction B) (simp_all add: insert_by_front)
  have A: "foldr (insert_by lt) A (x # B) = A @ x # B"
    if "sorted_wrt (\<lambda>a b. \<not> lt b a) (A @ B)" "\<forall>a \<in> set A. \<not> lt x a" for A
    using that
  proof (induction A)
    case (Cons a A)
    then have "insert_by lt a (A @ x # B) = a # A @ x # B" by (intro insert_by_front) auto
    then show ?case using Cons by simp
  qed simp
  have "sorted_wrt (\<lambda>a b. \<not> lt b a) B" using assms(1) by (simp add: sorted_wrt_append)
  then show ?thesis using B [of B] A [OF assms(1,2)] assms(3) by (simp add: sort_by_def)
qed

lemma seps_sorted:
  "s_sorted s lo hi \<Longrightarrow> clean_bound lo \<Longrightarrow> sorted_wrt (\<lambda>a b. key_lt (ie_key a) (ie_key b)) (s_seps s)
     \<and> (\<forall>e \<in> set (s_seps s). clean_key (ie_key e) \<and> beyond lo (ie_key e))"
proof (induction s arbitrary: lo rule: s_seps.induct)
  case (2 t k s)
  then have h: "sorted_wrt (\<lambda>a b. key_lt (ie_key a) (ie_key b)) (s_seps s)"
    "\<forall>e \<in> set (s_seps s). clean_key (ie_key e) \<and> key_lt k (ie_key e)" "clean_key k" "beyond lo k"
    using 2(1) [of "Some k"] 2(2) by simp_all
  have "beyond lo (ie_key e)" if "e \<in> set (s_seps s)" for e
    using h that 2(3) by (cases lo) (auto intro: ko.lt_trans [of _ k])
  then show ?case using h by auto
qed simp

lemma index_where_at: "\<forall>a \<in> set A. \<not> P a \<Longrightarrow> P x \<Longrightarrow> index_where P (A @ x # B) = length A"
  by (induction A) auto

lemma add_separator_ok:
  assumes "inner_held v par p (frame_seps f l) (frame_last f l)" "seps_fit 0 (frame_seps2 f l k r)"
    "sorted_wrt (\<lambda>a b. key_lt (ie_key a) (ie_key b)) (frame_seps2 f l k r)" "\<forall>e \<in> set (frame_seps2 f l k r). clean_key (ie_key e)"
  shows "\<exists>q. add_separator k l r (v p) = Inr q \<and> length q = PAGE_SIZE
    \<and> (\<forall>v'. v' p = q \<longrightarrow> inner_held v' par p (frame_seps2 f l k r) (frame_last f r))"
proof -
  define A where "A = map (\<lambda>(t, k). \<lparr>ie_key = k, ie_child = t_page t\<rparr>) (f_pre f)"
  define B where "B c = (case f_post f of None \<Rightarrow> [] | Some (k', s) \<Rightarrow> \<lparr>ie_key = k', ie_child = c\<rparr> # s_seps s)" for c
  let ?e = "\<lparr>ie_key = k, ie_child = l\<rparr>"
  let ?lt = "\<lambda>a b. key_lt (ie_key a) (ie_key b)"
  have seps: "frame_seps f l = A @ B l" "frame_seps2 f l k r = A @ ?e # B r"
    by (simp_all add: frame_seps_def frame_seps2_def A_def B_def)
  have h: "node_ok (v p)" "\<not> is_leaf (v p)" "get_internal_entries (v p) = Inr (A @ B l)" "rightmost_child (v p) = frame_last f l"
    "parent_page (v p) = par" using assms(1) seps by (simp_all add: inner_held_def)
  have Bl: "B r = (case f_post f of None \<Rightarrow> [] | Some _ \<Rightarrow> (hd (B l))\<lparr>ie_child := r\<rparr> # tl (B l))" "B l = [] \<longleftrightarrow> f_post f = None"
    by (auto simp: B_def split: option.splits)
  have keys: "map ie_key (B l) = map ie_key (B r)" by (auto simp: B_def split: option.splits)
  have srt: "sorted_wrt key_lt (map ie_key A @ k # map ie_key (B l))" "\<forall>x \<in> set (map ie_key A @ k # map ie_key (B l)). clean_key x"
    using assms(3,4) unfolding seps keys by (auto simp: sorted_wrt_map sorted_wrt_append)
  then have ab: "sorted_wrt ?lt (A @ B l)" "\<forall>a \<in> set A. key_lt (ie_key a) k" "\<forall>b \<in> set (B l). key_lt k (ie_key b)"
    by (auto simp: sorted_wrt_append sorted_wrt_map)
  have cl: "\<forall>a \<in> set (A @ B l). clean_key (ie_key a)" "clean_key k" using srt(2) by auto
  have not: "\<not> key_lt y x" "\<not> key_eq x y" if "key_lt x y" "clean_key x" "clean_key y" for x y using ko.lt_iff [of x y] that by auto
  have "sorted_wrt (\<lambda>a b. \<not> ?lt b a) (A @ B l)"
    by (rule sorted_wrt_mono_rel [OF _ ab(1)]) (use cl not(1) in auto)
  then have sort: "sort_by ?lt ((A @ B l) @ [?e]) = A @ ?e # B l"
    using sort_by_between [of ?lt A "B l" ?e] ab(2,3) cl not(1) by auto
  have idx: "index_where (\<lambda>e. key_eq (ie_key e) k) (A @ ?e # B l) = length A"
    by (rule index_where_at) (use ab(2) cl not(2) ko.eq_refl in auto)
  define es where "es = A @ ?e # B r"
  have es: "internal_bytes es \<le> capacity" "list_all (\<lambda>e. key_fits (ie_key e)) es"
    using assms(2) unfolding seps es_def by (auto simp: seps_fit_def short_key_def list_all_iff)
  have wrote: "\<exists>q. set_internal_entries es p' = Inr q \<and> length q = PAGE_SIZE
      \<and> (\<forall>v'. v' p = q \<longrightarrow> inner_held v' par p es (rightmost_child p'))"
    if "length p' = PAGE_SIZE" "node_type p' = node_type (v p)" "parent_page p' = par" for p'
    using set_internal_entries_ok [OF that(1) es] that h(2) by (auto simp: inner_held_def is_leaf_def)
  show ?thesis
  proof (cases "f_post f")
    case None
    then have B: "B l = []" "B r = []" by (simp_all add: B_def)
    have "add_separator k l r (v p) = set_internal_entries es (set_rightmost_child r (v p))"
      using sort idx by (simp add: add_separator_def h(3) es_def Let_def B)
    then show ?thesis using wrote [of "set_rightmost_child r (v p)"] h None unfolding seps es_def by (simp add: frame_last_def)
  next
    case (Some x)
    obtain k' s where x: "x = (k', s)" by (cases x)
    have B: "B l = \<lparr>ie_key = k', ie_child = l\<rparr> # s_seps s" "B r = \<lparr>ie_key = k', ie_child = r\<rparr> # s_seps s"
      using Some x by (simp_all add: B_def)
    have "(A @ ?e # B l)[length A + 1 := ((A @ ?e # B l) ! (length A + 1))\<lparr>ie_child := r\<rparr>] = es"
      by (simp add: es_def B list_update_append nth_append)
    then have "add_separator k l r (v p) = set_internal_entries es (v p)"
      using sort idx by (simp add: add_separator_def h(3) Let_def B)
    then show ?thesis using wrote [of "v p"] h Some x unfolding seps es_def by (simp add: frame_last_def)
  qed
qed

section \<open>The memory between the steps\<close>

definition calm :: "mem \<Rightarrow> bool" where
  "calm m \<longleftrightarrow> m_pins m = {} \<and> m_late m = {} \<and> m_slots m = []"

lemma calm_steady [simp]: "calm m \<Longrightarrow> steady m"
  by (simp add: calm_def steady_def BUFFER_POOL_SIZE_def)

lemma next_page_facts:
  assumes "holds base m s" "0 < spare m"
  shows "next_page m < m_pages (grown m)" "next_page m \<notin> set (m_free (grown m))" "spare (grown m) = spare m - 1"
    "m_pages m \<le> m_pages (grown m)" "p < m_pages m \<Longrightarrow> p < m_pages (grown m)" "distinct (m_free (grown m))"
    "next_page m \<in> set (m_free m) \<or> m_pages m \<le> next_page m" "p < m_pages m \<Longrightarrow> p \<notin> set (m_free m) \<Longrightarrow> p \<noteq> next_page m"
    "m_view (grown m) = (if m_free m = [] then (m_view m)(next_page m := zero_page) else m_view m)"
proof -
  have fl: "distinct (m_free m)" "\<forall>x \<in> set (m_free m). x < m_pages m"
    using holdsD(3,5) [OF assms(1)] by (auto simp: free_list_def)
  have new: "unat (m_pages m + 1) = Suc (unat (m_pages m))" if "m_free m = []"
    using unat_next_page [of s] holdsD(3) [OF assms(1)] assms(2) that by (simp add: spare_def word_less_nat_alt)
  show "next_page m < m_pages (grown m)" "next_page m \<notin> set (m_free (grown m))" "spare (grown m) = spare m - 1"
    "m_pages m \<le> m_pages (grown m)" "p < m_pages m \<Longrightarrow> p < m_pages (grown m)" "distinct (m_free (grown m))"
    "next_page m \<in> set (m_free m) \<or> m_pages m \<le> next_page m" "p < m_pages m \<Longrightarrow> p \<notin> set (m_free m) \<Longrightarrow> p \<noteq> next_page m"
    "m_view (grown m) = (if m_free m = [] then (m_view m)(next_page m := zero_page) else m_view m)"
    using fl new by (cases "m_free m"; auto simp: next_page_def grown_def spare_def word_less_nat_alt word_le_nat_alt)+
qed

lemma grown_pinned [simp]:
  "m_pages (grown (m\<lparr>m_pins := P, m_slots := l\<rparr>)) = m_pages (grown m)" "m_free (grown (m\<lparr>m_pins := P, m_slots := l\<rparr>)) = m_free (grown m)"
  "m_view (grown (m\<lparr>m_pins := P, m_slots := l\<rparr>)) = m_view (grown m)" "next_page (m\<lparr>m_pins := P, m_slots := l\<rparr>) = next_page m"
  "spare (m\<lparr>m_pins := P, m_slots := l\<rparr>) = spare m"
  by (cases "m_free m"; simp add: grown_def next_page_def spare_def)+

lemma wp_bindI: "wp m (\<lambda>x. wp (f x) Q E) E s \<Longrightarrow> wp (bind m f) Q E s"
  by (simp add: wp_bind)

lemma wp_andthenI: "wp m (\<lambda>_. wp k Q E) E s \<Longrightarrow> wp (andthen m k) Q E s"
  by (simp add: wp_andthen)

text \<open>The rules of the memory, each with what follows.\<close>

lemma then_fetch:
  fixes s :: "'a btrees_scheme"
  assumes "holds base m s" "steady m" "q < m_pages m" "q \<notin> m_pins m"
    "\<And>slot t. holds base (pinned q slot m) t \<Longrightarrow> wp (f slot) Q E t"
  shows "wp (bind (fetch_page q) f) Q E s"
  by (rule wp_bindI, rule wp_mono [OF wp_fetch_mem [OF assms(1-4)]]) (use assms(5) in auto)

lemma then_read:
  fixes s :: "'a btrees_scheme"
  assumes "holds base m s" "(q, slot) \<in> set (m_slots m)" "q < m_pages m" "wp (f (m_view m q)) Q E s"
  shows "wp (bind (read_frame slot) f) Q E s"
  using wp_read_mem [OF assms(1-3)] assms(4) by (simp add: wp_bind)

lemma then_write:
  fixes s :: "'a btrees_scheme"
  assumes "holds base m s" "(q, slot) \<in> set (m_slots m)" "q \<in> m_pins m" "q \<notin> set (m_free m)" "length p = PAGE_SIZE"
    "\<And>t. holds base (stored q p m) t \<Longrightarrow> wp k Q E t"
  shows "wp (andthen (write_frame slot p) k) Q E s"
  by (rule wp_andthenI, rule wp_mono [OF wp_write_mem [OF assms(1-5)]]) (use assms(6) in auto)

lemma then_unpin:
  fixes s :: "'a btrees_scheme"
  assumes "holds base m s" "\<And>t. holds base (m\<lparr>m_pins := m_pins m - {q}\<rparr>) t \<Longrightarrow> wp k Q E t"
  shows "wp (andthen (unpin_page q True) k) Q E s"
  by (rule wp_andthenI, rule wp_mono [OF wp_unpin_mem [OF assms(1)]]) (use assms(2) in auto)

lemma then_log:
  fixes s :: "'a btrees_scheme"
  assumes "holds base m s" "(q, slot) \<in> set (m_slots m)" "q < m_pages m"
    "\<And>t. holds base (m\<lparr>m_late := m_late m - {q}\<rparr>) t \<Longrightarrow> wp k Q E t"
  shows "wp (andthen (write_page_through_wal (lb_txn base) q slot) k) Q E s"
  by (rule wp_andthenI, rule wp_mono [OF wp_log_mem [OF assms(1-3)]]) (use assms(4) in auto)

lemma then_allocate:
  fixes s :: "'a btrees_scheme"
  assumes "holds base m s" "steady m" "0 < spare m" "next_page m \<notin> m_pins m"
    "\<And>slot t. holds base (allocated slot m) t \<Longrightarrow> wp (f (next_page m, slot)) Q E t"
  shows "wp (bind (allocate_page (lb_txn base)) f) Q E s"
  by (rule wp_bindI, rule wp_mono [OF wp_allocate_mem [OF assms(1-4)]]) (use assms(5) in auto)

lemma then_read_node:
  fixes s :: "'a btrees_scheme"
  assumes "holds base m s" "steady m" "q < m_pages m" "q \<notin> m_pins m" "g (m_view m q) = Inr x"
    "\<And>t. holds base m t \<Longrightarrow> wp (f x) Q E t"
  shows "wp (bind (read_node q g) f) Q E s"
  by (rule wp_bindI, rule wp_mono [OF wp_read_node_mem [where g = g, OF assms(1-5)]]) (use assms(6) in auto)

lemma then_edit_node:
  fixes s :: "'a btrees_scheme"
  assumes "holds base m s" "steady m" "q < m_pages m" "q \<notin> m_pins m" "q \<notin> set (m_free m)" "g (m_view m q) = Inr p"
    "length p = PAGE_SIZE" "\<And>t. holds base (changed q p m) t \<Longrightarrow> wp k Q E t"
  shows "wp (andthen (edit_node (lb_txn base) q g) k) Q E s"
  by (rule wp_andthenI, rule wp_mono [OF wp_edit_node_mem [where g = g, OF assms(1-7)]]) (use assms(8) in auto)

lemma then_set_parent:
  fixes s :: "'a btrees_scheme"
  assumes "holds base m s" "steady m" "orphan_ok m c" "\<And>t. holds base (m\<lparr>m_view := adopt parent [c] (m_view m)\<rparr>) t \<Longrightarrow> wp k Q E t"
  shows "wp (andthen (set_parent (lb_txn base) c parent) k) Q E s"
  by (rule wp_andthenI, rule wp_mono [OF wp_set_parent_mem [OF assms(1-3)]]) (use assms(4) in auto)

lemma then_lift: "r = Inr x \<Longrightarrow> wp (f x) Q E s \<Longrightarrow> wp (bind (lift r) f) Q E s"
  by (simp add: wp_bind wp_lift)

lemma then_ret: "wp (f x) Q E s \<Longrightarrow> wp (bind (ret x) f) Q E s"
  by (simp add: wp_bind wp_ret)

lemmas memory_defs = pinned_def allocated_def stored_def changed_def

section \<open>A new root\<close>

definition replaced :: "u32 list \<Rightarrow> u32 \<Rightarrow> (u32 \<times> page) list \<Rightarrow> mem \<Rightarrow> mem" where
  "replaced cs parent ws m = m\<lparr>m_view := adopt parent cs (\<lambda>q. case map_of ws q of Some p \<Rightarrow> p | None \<Rightarrow> m_view m q)\<rparr>"

definition child_ok :: "mem \<Rightarrow> u32 \<Rightarrow> bool" where
  "child_ok m c \<longleftrightarrow> c < m_pages m \<and> c \<notin> set (m_free m) \<and> length (m_view m c) = PAGE_SIZE"

lemma grown_child:
  assumes "holds base m s" "0 < spare m" "child_ok m c"
  shows "c < m_pages (grown m)" "c \<notin> set (m_free (grown m))" "m_view (grown m) c = m_view m c" "c \<noteq> next_page m"
  using assms next_page_facts [OF assms(1,2)] subsetD [OF grown_fields(5) [of m], of c] by (auto simp: child_ok_def)

lemma wp_new_root:
  fixes s :: "'a btrees_scheme"
  assumes "holds base m s" "calm m" "0 < spare m" "child_ok m left" "child_ok m right" "left \<noteq> right" "short_key k"
  shows "\<exists>p. (\<forall>v par. v (next_page m) = p \<longrightarrow> inner_held v INVALID_PAGE (next_page m) [\<lparr>ie_key = k, ie_child = left\<rparr>] right)
    \<and> wp (new_root h (lb_txn base) left k right) (\<lambda>_. holds base ((replaced [left, right] (next_page m) [(next_page m, p)] (grown m))
         \<lparr>m_roots := (m_roots m)(h := next_page m)\<rparr>)) (\<lambda>_ _. False) s"
proof -
  let ?q = "next_page m" and ?es = "[\<lparr>ie_key = k, ie_child = left\<rparr>]"
  note q = next_page_facts [OF assms(1,3)] and l = grown_child [OF assms(1,3,4)] and r = grown_child [OF assms(1,3,5)]
  have len: "length (m_view m left) = PAGE_SIZE" "length (m_view m right) = PAGE_SIZE" using assms(4,5) by (simp_all add: child_ok_def)
  have fit: "internal_bytes ?es \<le> capacity" "list_all (\<lambda>e. key_fits (ie_key e)) ?es"
    using assms(7) by (simp_all add: internal_bytes_sum short_key_def capacity_def PAGE_SIZE_def NODE_HEADER_SIZE_def)
  obtain p where p: "set_internal_entries ?es (init_node INTERNAL) = Inr p" "node_ok p" "get_internal_entries p = Inr ?es"
    "node_type p = INTERNAL" "parent_page p = INVALID_PAGE" "unat (free_space_ptr p) = PAGE_SIZE - internal_bytes ?es"
    using set_internal_entries_ok [OF init_node_ok(1) [THEN node_okD] fit] by auto
  let ?p = "set_rightmost_child right p"
  have held: "inner_held v INVALID_PAGE ?q ?es right" if "v ?q = ?p" for v
    using p that by (simp add: inner_held_def is_leaf_def INTERNAL_def LEAF_def)
  have c: "m_pins m = {}" "m_late m = {}" "m_slots m = []" using assms(2) by (simp_all add: calm_def)
  let ?m = "replaced [left, right] ?q [(?q, ?p)] (grown m)"
  have "wp (new_root h (lb_txn base) left k right) (\<lambda>_. holds base (?m\<lparr>m_roots := (m_roots m)(h := ?q)\<rparr>)) (\<lambda>_ _. False) s"
    unfolding new_root_def
  proof (rule then_allocate [OF assms(1) calm_steady [OF assms(2)] assms(3)], simp add: c, unfold prod.case, rule then_lift [OF p(1)])
    fix slot and t :: "'a btrees_scheme" assume t: "holds base (allocated slot m) t"
    let ?n1 = "stored ?q ?p (allocated slot m)"
    let ?n2 = "?n1\<lparr>m_pins := m_pins ?n1 - {?q}\<rparr>"
    let ?n3 = "?n2\<lparr>m_late := m_late ?n2 - {?q}\<rparr>"
    let ?n4 = "?n3\<lparr>m_slots := []\<rparr>"
    let ?n5 = "?n4\<lparr>m_view := adopt ?q [left] (m_view ?n4)\<rparr>"
    let ?n6 = "?n5\<lparr>m_view := adopt ?q [right] (m_view ?n5)\<rparr>"
    have o: "steady ?n4" "orphan_ok ?n4 left" "steady ?n5" "orphan_ok ?n5 right"
      using c l r len assms(6) q(1) by (simp_all add: memory_defs steady_def orphan_ok_def adopt_def BUFFER_POOL_SIZE_def)
    have m: "?n6\<lparr>m_roots := (m_roots ?n6)(h := ?q)\<rparr> = ?m\<lparr>m_roots := (m_roots m)(h := ?q)\<rparr>"
      using l(4) r(4) assms(6) by (intro mem.equality) (auto simp: memory_defs replaced_def adopt_def c fun_eq_iff)
    show "wp (andthen (write_frame slot ?p) (andthen (unpin_page ?q True) (andthen (write_page_through_wal (lb_txn base) ?q slot)
        (andthen (set_parent (lb_txn base) left ?q) (andthen (set_parent (lb_txn base) right ?q) (set_root h ?q))))))
      (\<lambda>_. holds base (?m\<lparr>m_roots := (m_roots m)(h := ?q)\<rparr>)) (\<lambda>_ _. False) t"
    proof (rule then_write [where q = "?q", OF t], goal_cases)
      case (5 t1)
      show ?case
      proof (rule then_unpin [OF 5], rule then_log, assumption, goal_cases)
        case (3 t2 t3)
        have "holds base ?n4 t3" using holds_forget [OF 3(2)] by simp
        from this o(1,2) show ?case
        proof (rule then_set_parent)
          fix t4 :: "'a btrees_scheme" assume "holds base ?n5 t4"
          from this o(3,4) show "wp (andthen (set_parent (lb_txn base) right ?q) (set_root h ?q))
            (\<lambda>_. holds base (?m\<lparr>m_roots := (m_roots m)(h := ?q)\<rparr>)) (\<lambda>_ _. False) t4"
          proof (rule then_set_parent)
            fix t5 :: "'a btrees_scheme" assume "holds base ?n6 t5"
            from wp_set_root_mem [OF this, of h ?q] show "wp (set_root h ?q)
              (\<lambda>_. holds base (?m\<lparr>m_roots := (m_roots m)(h := ?q)\<rparr>)) (\<lambda>_ _. False) t5" unfolding m .
          qed
        qed
      qed (use q(1) in \<open>simp_all add: memory_defs\<close>)
    qed (use q(1,2) p(2) in \<open>simp_all add: memory_defs\<close>)
  qed
  then show ?thesis using held by blast
qed

section \<open>Splitting an inner node\<close>

lemma seps_fit_page:
  assumes "seps_fit n es"
  shows "internal_bytes es \<le> capacity" "list_all (\<lambda>e. key_fits (ie_key e)) es"
  using assms by (auto simp: seps_fit_def short_key_def list_all_iff)

lemma half_page:
  assumes "length p = PAGE_SIZE" "\<not> is_leaf p" "parent_page p = par" "seps_fit n es"
  shows "\<exists>q. set_internal_entries es p = Inr q \<and> length q = PAGE_SIZE
    \<and> (\<forall>v x c. v x = set_rightmost_child c q \<longrightarrow> inner_held v par x es c)
    \<and> (\<forall>v x c par'. v x = set_parent_page par' (set_rightmost_child c q) \<longrightarrow> inner_held v par' x es c)"
  using set_internal_entries_ok [OF assms(1) seps_fit_page [OF assms(4)]] assms(2,3) by (fastforce simp: inner_held_def is_leaf_def)

lemma wp_split_pages:
  fixes s :: "'a btrees_scheme"
  assumes "holds base m s" "calm m" "0 < spare m" "pid < m_pages m" "pid \<notin> set (m_free m)"
    "inner_held (m_view m) par pid es r" "es \<noteq> []" "n = length es div 2" "seps_fit 64 (take n es)" "seps_fit 64 (drop (Suc n) es)"
    "cs = map ie_child (drop (Suc n) es) @ [r]" "list_all (child_ok m) cs" "distinct cs" "pid \<notin> set cs"
  shows "\<exists>lp rp. (\<forall>v. v pid = lp \<longrightarrow> inner_held v par pid (take n es) (ie_child (es ! n)))
    \<and> (\<forall>v. v (next_page m) = rp \<longrightarrow> inner_held v par (next_page m) (drop (Suc n) es) r)
    \<and> (\<forall>fuel Q E. (\<forall>u :: 'a btrees_scheme. holds base (replaced cs (next_page m) [(pid, lp), (next_page m, rp)] (grown m)) u
          \<longrightarrow> wp (insert_into_parent fuel h (lb_txn base) pid (ie_key (es ! n)) (next_page m)) Q E u)
        \<longrightarrow> wp (split_internal (Suc fuel) h (lb_txn base) pid) Q E s)"
proof -
  let ?q = "next_page m" and ?kids = "drop (Suc n) es"
  note q = next_page_facts [OF assms(1,3)]
  have c: "m_pins m = {}" "m_late m = {}" "m_slots m = []" using assms(2) by (simp_all add: calm_def)
  have page: "length (m_view m pid) = PAGE_SIZE" "\<not> is_leaf (m_view m pid)" "get_internal_entries (m_view m pid) = Inr es"
    "rightmost_child (m_view m pid) = r" "parent_page (m_view m pid) = par" using assms(6) by (simp_all add: inner_held_def)
  have pq: "pid \<noteq> ?q" using q(8) assms(4,5) by blast
  have pv: "m_view (grown m) pid = m_view m pid" "pid < m_pages (grown m)" "pid \<notin> set (m_free (grown m))"
    using grown_child [OF assms(1,3), of pid] assms(4,5) page(1) by (simp_all add: child_ok_def)
  obtain lq where lq: "set_internal_entries (take n es) (m_view m pid) = Inr lq" "length lq = PAGE_SIZE"
    "\<And>v x c. v x = set_rightmost_child c lq \<Longrightarrow> inner_held v par x (take n es) c"
    using half_page [OF page(1,2,5) assms(9)] by blast
  have ini: "length (init_node INTERNAL) = PAGE_SIZE" "\<not> is_leaf (init_node INTERNAL)" "parent_page (init_node INTERNAL) = INVALID_PAGE"
    by (simp_all add: is_leaf_def INTERNAL_def LEAF_def)
  obtain rq where rq: "set_internal_entries ?kids (init_node INTERNAL) = Inr rq" "length rq = PAGE_SIZE"
    "\<And>v x c par'. v x = set_parent_page par' (set_rightmost_child c rq) \<Longrightarrow> inner_held v par' x ?kids c"
    using half_page [OF ini assms(10)] by blast
  let ?lp = "set_rightmost_child (ie_child (es ! n)) lq" and ?rp = "set_parent_page par (set_rightmost_child r rq)"
  let ?M = "replaced cs ?q [(pid, ?lp), (?q, ?rp)] (grown m)"
  have "wp (split_internal (Suc fuel) h (lb_txn base) pid) Q E s"
    if ins: "\<And>u :: 'a btrees_scheme. holds base ?M u \<Longrightarrow> wp (insert_into_parent fuel h (lb_txn base) pid (ie_key (es ! n)) ?q) Q E u" for fuel Q E
    unfolding split_internal.simps
  proof (rule then_fetch [OF assms(1) calm_steady [OF assms(2)] assms(4)], goal_cases)
    case 1
    show ?case by (simp add: c)
  next
    case (2 ls t0)
    note t0 = 2
    let ?m0 = "pinned pid ls m"
    have m0: "steady ?m0" "spare ?m0 = spare m" "next_page ?m0 = ?q" "m_view ?m0 = m_view m" "m_pages ?m0 = m_pages m"
      using c by (simp_all add: pinned_def steady_def BUFFER_POOL_SIZE_def spare_def next_page_def cong: list.case_cong)
    let ?fin = "\<lambda>slot. andthen (for_each (\<lambda>e. set_parent (lb_txn base) (ie_child e) ?q) ?kids) (andthen (set_parent (lb_txn base) r ?q) (andthen (unpin_page pid True)
       (andthen (unpin_page ?q True) (andthen (write_page_through_wal (lb_txn base) pid ls) (andthen (write_page_through_wal (lb_txn base) ?q slot)
       (insert_into_parent fuel h (lb_txn base) pid (ie_key (es ! n)) ?q))))))"
    let ?m2 = "\<lambda>slot. stored pid ?lp (stored ?q ?rp (allocated slot ?m0))"
    have rest: "wp (?fin slot) Q E t" if "holds base (?m2 slot) t" for slot and t :: "'a btrees_scheme"
    proof -
      let ?n2 = "?m2 slot"
      let ?n3 = "?n2\<lparr>m_view := adopt ?q (map ie_child ?kids) (m_view ?n2)\<rparr>"
      let ?n4 = "?n3\<lparr>m_view := adopt ?q [r] (m_view ?n3)\<rparr>"
      let ?n5 = "?n4\<lparr>m_pins := m_pins ?n4 - {pid}\<rparr>"
      let ?n6 = "?n5\<lparr>m_pins := m_pins ?n5 - {?q}\<rparr>"
      let ?n7 = "?n6\<lparr>m_late := m_late ?n6 - {pid}\<rparr>"
      let ?n8 = "?n7\<lparr>m_late := m_late ?n7 - {?q}\<rparr>"
      have g0: "m_pages (grown ?m0) = m_pages (grown m)" "m_free (grown ?m0) = m_free (grown m)" "m_view (grown ?m0) = m_view (grown m)"
        by (cases "m_free m"; simp add: grown_def pinned_def)+
      have fields: "m_pins ?n2 = {pid, ?q}" "m_late ?n2 = {pid, ?q}" "m_pages ?n2 = m_pages (grown m)" "m_free ?n2 = m_free (grown m)"
        "m_slots ?n2 = [(?q, slot), (pid, ls)]" "m_roots ?n2 = m_roots m"
        "m_view ?n2 = (m_view (grown m))(?q := ?rp, pid := ?lp)"
        using c g0 m0(3) by (auto simp: memory_defs)
      have kid: "orphan_ok ?n2 x" if "x \<in> set cs" for x
        using grown_child [OF assms(1,3), of x] that assms(12,14) fields by (auto simp: orphan_ok_def list_all_iff child_ok_def)
      have st: "steady ?n2" "steady ?n3" using fields pq by (simp_all add: steady_def BUFFER_POOL_SIZE_def card_insert_if)
      have o: "list_all (orphan_ok ?n2) (map ie_child ?kids)" "distinct (map ie_child ?kids)" "orphan_ok ?n3 r"
        using kid assms(11,13) by (auto simp: list_all_iff orphan_ok_def adopt_def)
      have adopts: "adopt ?q [r] (adopt ?q (map ie_child ?kids) v) = adopt ?q cs v" for v
        using assms(11,13) by (auto simp: adopt_def fun_eq_iff)
      have M: "?n8\<lparr>m_slots := []\<rparr> = ?M"
        using fields pq adopts c by (intro mem.equality) (auto simp: replaced_def fun_eq_iff adopt_def)
      show "wp (?fin slot) Q E t"
      proof (rule wp_andthenI, rule wp_mono [OF wp_adopt_mem [OF that st(1) o(1,2)]])
        fix t1 :: "'a btrees_scheme" assume "holds base ?n3 t1"
        from this st(2) o(3) show "wp (andthen (set_parent (lb_txn base) r ?q) (andthen (unpin_page pid True)
          (andthen (unpin_page ?q True) (andthen (write_page_through_wal (lb_txn base) pid ls) (andthen (write_page_through_wal (lb_txn base) ?q slot)
          (insert_into_parent fuel h (lb_txn base) pid (ie_key (es ! n)) ?q)))))) Q E t1"
        proof (rule then_set_parent)
          fix t2 :: "'a btrees_scheme" assume t2: "holds base ?n4 t2"
          show "wp (andthen (unpin_page pid True) (andthen (unpin_page ?q True) (andthen (write_page_through_wal (lb_txn base) pid ls)
            (andthen (write_page_through_wal (lb_txn base) ?q slot) (insert_into_parent fuel h (lb_txn base) pid (ie_key (es ! n)) ?q))))) Q E t2"
          proof (rule then_unpin [OF t2], rule then_unpin, assumption)
            fix t3 :: "'a btrees_scheme" assume t3: "holds base ?n6 t3"
            show "wp (andthen (write_page_through_wal (lb_txn base) pid ls) (andthen (write_page_through_wal (lb_txn base) ?q slot)
              (insert_into_parent fuel h (lb_txn base) pid (ie_key (es ! n)) ?q))) Q E t3"
            proof (rule then_log [OF t3, of pid ls])
              fix t4 :: "'a btrees_scheme" assume t4: "holds base ?n7 t4"
              show "wp (andthen (write_page_through_wal (lb_txn base) ?q slot) (insert_into_parent fuel h (lb_txn base) pid (ie_key (es ! n)) ?q)) Q E t4"
              proof (rule then_log [OF t4, of ?q slot])
                fix t5 :: "'a btrees_scheme" assume "holds base ?n8 t5"
                then have "holds base (?n8\<lparr>m_slots := []\<rparr>) t5" by (rule holds_forget) simp
                then show "wp (insert_into_parent fuel h (lb_txn base) pid (ie_key (es ! n)) ?q) Q E t5" unfolding M by (rule ins)
              qed (use fields q(1) in simp_all)
            qed (use fields pv(2) in simp_all)
          qed
        qed
      qed simp
    qed
    show ?case
    proof (rule then_read [OF t0, of pid ls], goal_cases)
      case 3
      show ?case unfolding m0(4)
      proof (rule then_lift [OF page(3)], unfold Let_def if_not_P [OF assms(7)] page(4,5) assms(8) [symmetric], rule then_allocate [OF t0 m0(1)], goal_cases)
        case (3 slot t1)
        note t1 = 3
        show ?case unfolding prod.case m0(3)
        proof (rule then_lift, use rq(1) in simp, rule then_write [where q = ?q, OF t1], goal_cases)
          case (5 t2)
          show ?case
          proof (rule then_read [OF 5, of pid ls], goal_cases)
            case 3
            have v: "m_view (stored ?q ?rp (allocated slot ?m0)) pid = m_view m pid"
              using pq pv(1) m0(3) by (cases "m_free m"; simp add: memory_defs grown_def)
            show ?case unfolding v
            proof (rule then_lift [OF lq(1)], rule then_write [where q = pid, OF 5], goal_cases)
              case (5 t3)
              then show ?case using rest by simp
            qed (use pv(3) lq(2) pq m0(3) in \<open>simp_all add: memory_defs\<close>)
          qed (use pq m0 pv(2) in \<open>simp_all add: memory_defs\<close>)
        qed (use q(2) rq(2) m0(3) in \<open>simp_all add: memory_defs\<close>)
      qed (use assms(3) m0 pq c in \<open>simp_all add: pinned_def\<close>)
    qed (use assms(4) in \<open>simp_all add: pinned_def\<close>)
  qed
  then show ?thesis using lq(3) rq(3) by blast
qed

section \<open>A tree in memory\<close>

definition tree_in :: "mem \<Rightarrow> tree \<Rightarrow> bool" where
  "tree_in m t \<longleftrightarrow> t_held (m_view m) INVALID_PAGE t \<and> t_fit t \<and> t_sorted t None None \<and> chained (m_view m) (t_leaves t)
     \<and> distinct (t_pages t @ m_free m) \<and> (\<forall>p \<in> set (t_pages t). p < m_pages m)"

text \<open>
  Between a split and the insertion of the new separator: the left half \<open>l\<close> is in its place in the
  tree, the right half \<open>r\<close> is not yet.
\<close>

definition pending :: "mem \<Rightarrow> frame list \<Rightarrow> tree \<Rightarrow> key \<Rightarrow> tree \<Rightarrow> bool" where
  "pending m c l k r \<longleftrightarrow> ctx_held (m_view m) c (t_page l) \<and> t_held (m_view m) (ctx_parent c) l \<and> (\<exists>par. t_held (m_view m) par r)
     \<and> list_all frame_fit c \<and> t_fit l \<and> t_fit r \<and> short_key k \<and> t_sorted (plug2 c l k r) None None
     \<and> chained (m_view m) (t_leaves (plug2 c l k r)) \<and> distinct (ctx_pages c @ t_pages l @ t_pages r @ m_free m)
     \<and> (\<forall>p \<in> set (ctx_pages c @ t_pages l @ t_pages r). p < m_pages m)"

text \<open>Only the pages in \<open>P\<close> and pages that were free or did not exist are changed.\<close>

definition touches :: "u32 set \<Rightarrow> mem \<Rightarrow> mem \<Rightarrow> bool" where
  "touches P m m' \<longleftrightarrow> m_pages m \<le> m_pages m' \<and> set (m_free m') \<subseteq> set (m_free m)
     \<and> (\<forall>q < m_pages m. q \<notin> P \<longrightarrow> q \<notin> set (m_free m) \<longrightarrow> m_view m' q = m_view m q)"

definition reach :: "u32 set \<Rightarrow> mem \<Rightarrow> u32 set" where
  "reach P m = P \<union> set (m_free m) \<union> {q. m_pages m \<le> q}"

lemma touches_trans:
  assumes "touches P m m'" "touches (reach P m) m' m''"
  shows "touches P m m''"
proof -
  have "m_view m'' q = m_view m q" if "q < m_pages m" "q \<notin> P" "q \<notin> set (m_free m)" for q
  proof -
    have "q < m_pages m'" "q \<notin> set (m_free m')" "q \<notin> reach P m" using that assms(1) by (auto simp: touches_def reach_def)
    then show ?thesis using that assms by (simp add: touches_def)
  qed
  then show ?thesis using assms by (auto simp: touches_def)
qed

lemma touches_mono: "touches P m m' \<Longrightarrow> P \<subseteq> P' \<Longrightarrow> touches P' m m'"
  by (auto simp: touches_def)

lemma reach_mono: "touches P m m' \<Longrightarrow> P' \<subseteq> reach P m \<Longrightarrow> reach P' m' \<subseteq> reach P m"
  unfolding touches_def reach_def by (auto intro: order_trans)

definition updated :: "nat \<Rightarrow> u32 set \<Rightarrow> mem \<Rightarrow> mem \<Rightarrow> tree \<Rightarrow> bool" where
  "updated h P m m' t \<longleftrightarrow> calm m' \<and> tree_in m' t \<and> m_roots m' = (m_roots m)(h := t_page t) \<and> touches P m m'
     \<and> set (t_pages t) \<subseteq> reach P m"

lemma chained_next: "chained v ls \<Longrightarrow> \<forall>(p, es) \<in> set ls. next_leaf (v' p) = next_leaf (v p) \<Longrightarrow> chained v' ls"
  by (induction v ls rule: chained.induct) auto

lemma held_node_ok:
  "t_held v par t \<Longrightarrow> \<forall>p \<in> set (t_pages t). node_ok (v p)" "s_held v par s \<Longrightarrow> \<forall>p \<in> set (s_pages s). node_ok (v p)"
  by (induction t and s arbitrary: par and par) (auto simp: leaf_held_def inner_held_def)

lemma ctx_node_ok: "ctx_held v c q \<Longrightarrow> \<forall>p \<in> set (ctx_pages c). node_ok (v p)"
proof (induction c arbitrary: q)
  case (Cons f c)
  obtain p pre post where f: "f = Frame p pre post" by (cases f)
  have "node_ok (v x)" if "x \<in> set (pre_pages pre)" for x
    using that Cons.prems held_node_ok(1) [of v p] by (fastforce simp: f pre_pages_def list_all_iff)
  moreover have "node_ok (v x)" if "x \<in> set (post_pages post)" for x
    using that Cons.prems held_node_ok(2) [of v p] by (cases post) (fastforce simp: f post_pages_def)+
  ultimately show ?case using Cons by (auto simp: f inner_held_def)
qed simp

lemma plug_page: "t_page t = t_page t' \<Longrightarrow> t_page (plug c t) = t_page (plug c t')"
  by (induction c arbitrary: t t') auto

lemma fill2_pages: "mset (t_pages (fill2 f l k r)) = mset (f_page f # pre_pages (f_pre f) @ post_pages (f_post f) @ t_pages l @ t_pages r)"
  by (cases f) simp

lemma plug2_pages:
  "mset (t_pages (plug c (fill2 f l k r))) = mset (ctx_pages (f # c) @ t_pages l @ t_pages r)"
  by (cases f) (simp add: plug_pages)

lemma is_full_ok:
  assumes "node_ok p"
  shows "is_full p \<longleftrightarrow> unat (free_space_ptr p) - NODE_HEADER_SIZE < 64"
proof -
  let ?f = "ucast (free_space_ptr p) :: u32"
  have f: "17 \<le> unat ?f" and u: "unat ?f = unat (free_space_ptr p)"
    using assms fsp_word [OF assms] by (simp_all add: node_ok_def NODE_HEADER_SIZE_def)
  have "unat (?f - word_of_nat NODE_HEADER_SIZE) = unat ?f - 17"
    using f by (subst unat_sub) (simp_all add: word_le_nat_alt)
  then show ?thesis using u by (simp add: is_full_def word_less_nat_alt NODE_HEADER_SIZE_def)
qed

lemma full_page:
  assumes "inner_held v par p es r" "seps_fit 0 es"
  shows "is_full (v p) \<longleftrightarrow> \<not> seps_fit 64 es"
  using assms by (auto simp: inner_held_def seps_fit_def is_full_ok capacity_def NODE_HEADER_SIZE_def PAGE_SIZE_def)

lemma room_page:
  assumes "inner_held v par p es r" "seps_fit 64 es" "short_key k"
  shows "\<not> internal_entry_size k > available_space (v p)"
proof -
  have ok: "node_ok (v p)" and len: "length (key_encode k) \<le> 60" using assms by (simp_all add: inner_held_def short_key_def)
  have "unat (internal_entry_size k) = length (key_encode k) + 4"
  proof -
    have "internal_entry_size k = word_of_nat (length (key_encode k) + 4)" by (simp add: internal_entry_size_def)
    then show ?thesis using len by (simp only: unat_of_nat) (simp add: take_bit_nat_eq_self)
  qed
  moreover have "64 \<le> unat (available_space (v p))"
    using available_space_ok [OF ok] assms(1,2) by (auto simp: inner_held_def seps_fit_def capacity_def NODE_HEADER_SIZE_def PAGE_SIZE_def)
  ultimately show ?thesis using len by (simp add: word_less_nat_alt)
qed

section \<open>The new separator in its parent\<close>

lemma pendingD:
  assumes "pending m c l k r"
  shows "ctx_held (m_view m) c (t_page l)" "t_held (m_view m) (ctx_parent c) l" "\<exists>par. t_held (m_view m) par r"
    "list_all frame_fit c" "t_fit l" "t_fit r" "short_key k" "t_sorted (plug2 c l k r) None None"
    "chained (m_view m) (t_leaves (plug2 c l k r))" "distinct (ctx_pages c @ t_pages l @ t_pages r @ m_free m)"
    "p \<in> set (ctx_pages c) \<union> set (t_pages l) \<union> set (t_pages r) \<Longrightarrow> p < m_pages m"
    "p \<in> set (ctx_pages c) \<union> set (t_pages l) \<union> set (t_pages r) \<Longrightarrow> node_ok (m_view m p)"
  using assms held_node_ok(1) ctx_node_ok by (auto simp: pending_def)

lemma seps2_fit:
  assumes "frame_fit f" "short_key k"
  shows "seps_fit 0 (frame_seps2 f l k r)"
proof -
  have "internal_bytes (frame_seps2 f l k r) = internal_bytes (frame_seps f 0) + (length (key_encode k) + 4)"
    by (auto simp: frame_seps_def frame_seps2_def internal_bytes_sum split: option.splits)
  moreover have "list_all (\<lambda>e. short_key (ie_key e)) (frame_seps2 f l k r)"
    using assms by (auto simp: frame_fit_def seps_fit_def frame_seps_def frame_seps2_def split: option.splits)
  ultimately show ?thesis using assms by (simp add: frame_fit_def seps_fit_def short_key_def)
qed

lemma ctx_leaves:
  "ctx_held v c q \<Longrightarrow> \<forall>(x, es) \<in> set (ctx_before c @ ctx_after c). is_leaf (v x)"
  "fst ` set (ctx_before c @ ctx_after c) \<subseteq> set (ctx_pages c)"
proof (induction c arbitrary: q)
  case (Cons f c)
  obtain p pre post where f: "f = Frame p pre post" by (cases f)
  {
    case 1
    have "is_leaf (v x)" if "(x, es) \<in> set (pre_leaves pre)" for x es
      using that 1 leaves_rep(1) [OF held_rep(1), of v p] by (fastforce simp: f pre_leaves_def list_all_iff)
    moreover have "is_leaf (v x)" if "(x, es) \<in> set (post_leaves post)" for x es
      using that 1 leaves_rep(2) [OF held_rep(2), of v p] by (cases post) (fastforce simp: f post_leaves_def)+
    moreover have "is_leaf (v x)" if "(x, es) \<in> set (ctx_before c) \<union> set (ctx_after c)" for x es
      using that 1 Cons.IH(1) [of p] by (auto simp: f)
    ultimately show ?case unfolding f ctx_before.simps ctx_after.simps set_append by blast
  next
    case 2
    have "fst ` set (pre_leaves pre) \<subseteq> set (pre_pages pre)"
      unfolding pre_leaves_def pre_pages_def set_concat set_map image_UN image_comp comp_def
      by (rule UN_mono [OF subset_refl]) (use leaves_pages(1) in \<open>simp add: image_comp\<close>)
    moreover have "fst ` set (post_leaves post) \<subseteq> set (post_pages post)"
      using leaves_pages(2) by (cases post) (auto simp: post_leaves_def post_pages_def)
    ultimately show ?case using Cons.IH(2) by (auto simp: f image_Un)
  }
qed simp_all

lemma pending_leaves:
  assumes "pending m c l k r"
  shows "\<forall>(x, es) \<in> set (t_leaves (plug2 c l k r)). is_leaf (m_view m x)"
    "fst ` set (t_leaves (plug2 c l k r)) \<subseteq> set (ctx_pages c) \<union> set (t_pages l) \<union> set (t_pages r)"
proof -
  note h = pendingD [OF assms]
  obtain par where r: "t_held (m_view m) par r" using h(3) by blast
  show "\<forall>(x, es) \<in> set (t_leaves (plug2 c l k r)). is_leaf (m_view m x)"
    using ctx_leaves(1) [OF h(1)] leaves_rep(1) [OF held_rep(1) [OF h(2)]] leaves_rep(1) [OF held_rep(1) [OF r]]
    by (fastforce simp: plug2_leaves)
  show "fst ` set (t_leaves (plug2 c l k r)) \<subseteq> set (ctx_pages c) \<union> set (t_pages l) \<union> set (t_pages r)"
    using ctx_leaves(2) [of c] leaves_pages(1) [of l] leaves_pages(1) [of r] by (auto simp: plug2_leaves image_Un)
qed

text \<open>The parent with the new separator, as a node of its own, and what is left of the context.\<close>

definition joined_view :: "u32 \<Rightarrow> page \<Rightarrow> u32 \<Rightarrow> (u32 \<Rightarrow> page) \<Rightarrow> u32 \<Rightarrow> page" where
  "joined_view p q r v = adopt p [r] (v(p := q))"

lemma pending_joined:
  assumes "pending m (f # c) l k r"
    "\<And>v. v (f_page f) = q \<Longrightarrow> inner_held v (ctx_parent c) (f_page f) (frame_seps2 f (t_page l) k (t_page r)) (frame_last f (t_page r))"
  defines "v \<equiv> joined_view (f_page f) q (t_page r) (m_view m)"
  shows "t_held v (ctx_parent c) (fill2 f l k r)" "ctx_held v c (f_page f)" "list_all frame_fit c" "t_fit l" "t_fit r" "frame_fit f"
    "chained v (t_leaves (plug c (fill2 f l k r)))"
proof -
  obtain p pre post where f: "f = Frame p pre post" by (cases f)
  note h = pendingD [OF assms(1)]
  obtain par where rp: "t_held (m_view m) par r" using h(3) by blast
  have d: "distinct (p # pre_pages pre @ post_pages post @ ctx_pages c @ t_pages l @ t_pages r)" using h(10) by (auto simp: f)
  then have rt: "t_page r \<notin> set (p # pre_pages pre @ post_pages post @ ctx_pages c @ t_pages l)" "t_page r \<noteq> p" using t_page_in [of r] by auto
  have same: "v x = m_view m x" if "x \<noteq> p" "x \<noteq> t_page r" for x using that by (simp add: v_def joined_view_def adopt_def f)
  have vp: "v p = q" using rt(2) by (simp add: v_def joined_view_def adopt_def f)
  have vr: "v (t_page r) = set_parent_page p (m_view m (t_page r))" using rt(2) by (simp add: v_def joined_view_def adopt_def f)
  have pre: "list_all (t_held v p \<circ> fst) pre"
    unfolding list_all_iff
  proof clarsimp
    fix t k' assume t: "(t, k') \<in> set pre"
    have sub: "set (t_pages t) \<subseteq> set (pre_pages pre)" using t by (force simp: pre_pages_def)
    have "v x = m_view m x" if "x \<in> set (t_pages t)" for x
    proof -
      have "x \<in> set (pre_pages pre)" using sub that by blast
      then show ?thesis using d rt(1) by (intro same) auto
    qed
    then show "t_held v p t" using t h(1) held_cong(1) [of "m_view m" p t v] by (auto simp: f list_all_iff)
  qed
  have "v x = m_view m x" if "x \<in> set (t_pages l)" for x using d rt(1) that by (intro same) auto
  then have lh: "t_held v p l" using h(2) held_cong(1) [of "m_view m" p l v] by (simp add: f)
  have vs: "v x = m_view m x" if "x \<in> set (t_pages r)" "x \<noteq> t_page r" for x using d that by (intro same) auto
  have rh: "t_held v p r" using d vr vs by (intro held_adopted [OF rp]) simp_all
  have post: "case post of None \<Rightarrow> True | Some (k', s) \<Rightarrow> s_held v p s"
  proof (cases post)
    case (Some x)
    obtain k' s where x: "x = (k', s)" by (cases x)
    have "v y = m_view m y" if "y \<in> set (s_pages s)" for y using d rt(1) Some x that by (intro same) (auto simp: post_pages_def)
    then show ?thesis using h(1) held_cong(2) [of "m_view m" p s v] Some x by (simp add: f)
  qed simp
  have "inner_held v (ctx_parent c) p (frame_seps2 f (t_page l) k (t_page r)) (frame_last f (t_page r))"
    using assms(2) [of v] vp by (simp add: f)
  then show "t_held v (ctx_parent c) (fill2 f l k r)"
    using pre lh rh post by (simp add: f fill_seps [where p = p] pre_held hole_held del: pre_spine_simps)
  have "v x = m_view m x" if "x \<in> set (ctx_pages c)" for x using d rt(1) that by (intro same) auto
  then show "ctx_held v c (f_page f)"
    using h(1) ctx_held_cong [of "m_view m" c p v] by (simp add: f)
  show "list_all frame_fit c" "t_fit l" "t_fit r" "frame_fit f" using h(4-6) by simp_all
  show "chained v (t_leaves (plug c (fill2 f l k r)))"
  proof (rule chained_next [of "m_view m"])
    show "chained (m_view m) (t_leaves (plug c (fill2 f l k r)))" using h(9) by simp
    have np: "x \<noteq> p" if "(x, es) \<in> set (t_leaves (plug c (fill2 f l k r)))" for x es
      using pending_leaves(1) [OF assms(1)] that h(1) by (auto simp: f inner_held_def)
    have "length (m_view m (t_page r)) = PAGE_SIZE" using h(12) [of "t_page r"] t_page_in [of r] by (simp add: node_okD)
    then have nr: "next_leaf (v (t_page r)) = next_leaf (m_view m (t_page r))" unfolding vr by simp
    have "next_leaf (v x) = next_leaf (m_view m x)" if "x \<noteq> p" for x
      using nr same [OF that] by (cases "x = t_page r") simp_all
    then show "\<forall>(x, es) \<in> set (t_leaves (plug c (fill2 f l k r))). next_leaf (v x) = next_leaf (m_view m x)"
      using np by blast
  qed
qed

lemma held_parent: "t_held v par t \<Longrightarrow> parent_page (v (t_page t)) = par"
  by (cases t) (auto simp: leaf_held_def inner_held_def)

lemma frame_fit_seps: "frame_fit f \<Longrightarrow> seps_fit 64 (frame_seps f q)"
  using seps_fit_child [OF frame_seps_keys [of f q 0]] by (simp add: frame_fit_def)

text \<open>The parent as a node: its page and its children with the new one.\<close>

lemma fill2_parts:
  obtains s where "fill2 f l k r = Inner (f_page f) s" "s_seps s = frame_seps2 f (t_page l) k (t_page r)"
    "s_last s = frame_last f (t_page r)" "s_fit s \<longleftrightarrow> list_all (t_fit \<circ> fst) (f_pre f) \<and> t_fit l \<and> t_fit r
      \<and> (case f_post f of None \<Rightarrow> True | Some (k, s) \<Rightarrow> s_fit s)"
proof -
  obtain p pre post where f: "f = Frame p pre post" by (cases f)
  show ?thesis
    by (rule that [of "pre_spine pre (Sep l k (hole_spine r post))"])
      (simp_all add: f fill_seps [where p = p] pre_fit hole_seps(3) del: pre_spine_simps)
qed

lemma joined_node:
  assumes "pending m (f # c) l k r" "fill2 f l k r = Inner p s"
  shows "s_fit s" "s_seps s = frame_seps2 f (t_page l) k (t_page r)" "s_last s = frame_last f (t_page r)" "p = f_page f"
    "seps_fit 0 (s_seps s)" "t_sorted (plug c (Inner p s)) None None" "distinct (ctx_pages c @ p # s_pages s @ m_free m)"
    "x \<in> set (p # s_pages s @ ctx_pages c) \<Longrightarrow> x < m_pages m \<and> x \<notin> set (m_free m) \<and> node_ok (m_view m x)"
    "s_leaves s = t_leaves (fill2 f l k r)" "t_page r \<in> set (s_pages s)"
proof -
  note h = pendingD [OF assms(1)]
  obtain s' where s': "fill2 f l k r = Inner (f_page f) s'" "s_seps s' = frame_seps2 f (t_page l) k (t_page r)"
    "s_last s' = frame_last f (t_page r)" "s_fit s' \<longleftrightarrow> list_all (t_fit \<circ> fst) (f_pre f) \<and> t_fit l \<and> t_fit r
      \<and> (case f_post f of None \<Rightarrow> True | Some (k, s) \<Rightarrow> s_fit s)" using fill2_parts by blast
  then have e: "s = s'" "p = f_page f" using assms(2) by simp_all
  have ff: "frame_fit f" using h(4) by simp
  show "s_fit s" "s_seps s = frame_seps2 f (t_page l) k (t_page r)" "s_last s = frame_last f (t_page r)" "p = f_page f"
    using e s' ff h(5,6) by (simp_all add: frame_fit_def split: option.splits)
  show "seps_fit 0 (s_seps s)" using seps2_fit [OF ff h(7)] e s'(2) by simp
  show "t_sorted (plug c (Inner p s)) None None" using h(8) assms(2) by simp
  have ms: "mset (ctx_pages c @ p # s_pages s) = mset (ctx_pages (f # c) @ t_pages l @ t_pages r)"
    using assms(2) by (cases f) (auto simp: ac_simps)
  have pp: "set (ctx_pages c @ p # s_pages s) = set (ctx_pages (f # c)) \<union> set (t_pages l) \<union> set (t_pages r)"
    using arg_cong [OF ms, of set_mset] by (simp add: Un_assoc)
  show "distinct (ctx_pages c @ p # s_pages s @ m_free m)"
  proof -
    have "mset (ctx_pages c @ p # s_pages s @ m_free m) = mset (ctx_pages (f # c) @ t_pages l @ t_pages r @ m_free m)"
      using arg_cong [OF ms, of "\<lambda>M. M + mset (m_free m)"] by (simp add: ac_simps)
    then show ?thesis using mset_append_eq h(10) by blast
  qed
  show "x < m_pages m \<and> x \<notin> set (m_free m) \<and> node_ok (m_view m x)" if "x \<in> set (p # s_pages s @ ctx_pages c)"
  proof -
    have "x \<in> set (ctx_pages (f # c)) \<union> set (t_pages l) \<union> set (t_pages r)" using that pp by auto
    then show ?thesis using h(10) h(11) [of x] h(12) [of x] by auto
  qed
  show "s_leaves s = t_leaves (fill2 f l k r)" using assms(2) by simp
  show "t_page r \<in> set (s_pages s)" using assms(2) t_page_in [of r] by (cases f) auto
qed

lemma joined_tree:
  assumes "pending m (f # c) l k r" "seps_fit 64 (frame_seps2 f (t_page l) k (t_page r))"
    "\<And>v. v (f_page f) = q \<Longrightarrow> inner_held v (ctx_parent c) (f_page f) (frame_seps2 f (t_page l) k (t_page r)) (frame_last f (t_page r))"
  shows "tree_in (m\<lparr>m_view := joined_view (f_page f) q (t_page r) (m_view m)\<rparr>) (plug c (fill2 f l k r))"
proof -
  note j = pending_joined [OF assms(1,3)]
  obtain s where s: "fill2 f l k r = Inner (f_page f) s" using fill2_parts by blast
  note n = joined_node [OF assms(1) s]
  let ?v = "joined_view (f_page f) q (t_page r) (m_view m)"
  have "t_held ?v INVALID_PAGE (plug c (fill2 f l k r))" using j(1,2) by (simp add: plug_held)
  moreover have "t_fit (plug c (fill2 f l k r))" using j(3) n(1,2) assms(2) s by (simp add: plug_fit)
  moreover have "distinct (t_pages (plug c (fill2 f l k r)) @ m_free m)" "\<forall>x \<in> set (t_pages (plug c (fill2 f l k r))). x < m_pages m"
    using n(7,8) s by (auto simp: plug_distinct plug_page_set)
  ultimately show ?thesis using n(6) j(7) s by (simp add: tree_in_def)
qed

text \<open>A node that has taken the separator and is now to be split.\<close>

definition crowded :: "mem \<Rightarrow> frame list \<Rightarrow> u32 \<Rightarrow> spine \<Rightarrow> bool" where
  "crowded m c p s \<longleftrightarrow> t_held (m_view m) (ctx_parent c) (Inner p s) \<and> ctx_held (m_view m) c p \<and> list_all frame_fit c \<and> s_fit s
     \<and> seps_fit 0 (s_seps s) \<and> \<not> seps_fit 64 (s_seps s) \<and> t_sorted (plug c (Inner p s)) None None
     \<and> chained (m_view m) (t_leaves (plug c (Inner p s))) \<and> distinct (ctx_pages c @ p # s_pages s @ m_free m)
     \<and> (\<forall>x \<in> set (ctx_pages c @ p # s_pages s). x < m_pages m)"

lemma crowdedD:
  assumes "crowded m c p s"
  shows "t_held (m_view m) (ctx_parent c) (Inner p s)" "ctx_held (m_view m) c p" "list_all frame_fit c" "s_fit s" "seps_fit 0 (s_seps s)"
    "\<not> seps_fit 64 (s_seps s)" "t_sorted (plug c (Inner p s)) None None" "chained (m_view m) (t_leaves (plug c (Inner p s)))"
    "distinct (ctx_pages c @ p # s_pages s @ m_free m)"
    "x \<in> set (ctx_pages c @ p # s_pages s) \<Longrightarrow> x < m_pages m \<and> x \<notin> set (m_free m)"
  using assms by (auto simp: crowded_def)

lemma split_held: "s_split n s = (a, k, b) \<Longrightarrow> n < length (s_seps s) \<Longrightarrow> s_held v par s \<Longrightarrow> s_held v par a \<and> s_held v par b"
  by (induction n s arbitrary: a rule: s_split.induct) (auto split: prod.splits)

lemma plug_held_leaves:
  "t_held v INVALID_PAGE (plug c t) \<Longrightarrow> (x, es) \<in> set (t_leaves (plug c t)) \<Longrightarrow> is_leaf (v x) \<and> x \<in> set (ctx_pages c) \<union> set (t_pages t)"
  using leaves_rep(1) [OF held_rep(1)] leaves_pages(1) [of "plug c t"] plug_page_set [of c t] by fastforce

text \<open>A list of pages replaced, one page new.\<close>

lemma replaced_view:
  assumes "holds base m t" "0 < spare m" "p < m_pages m" "p \<notin> set (m_free m)" "p \<notin> set cs" "next_page m \<notin> set cs"
  shows "m_view (replaced cs par [(p, lp), (next_page m, rp)] (grown m)) p = lp"
    "m_view (replaced cs par [(p, lp), (next_page m, rp)] (grown m)) (next_page m) = rp"
    "x < m_pages m \<Longrightarrow> x \<notin> set (m_free m) \<Longrightarrow> x \<noteq> p \<Longrightarrow> m_view (replaced cs par [(p, lp), (next_page m, rp)] (grown m)) x
      = (if x \<in> set cs then set_parent_page par (m_view m x) else m_view m x)"
proof -
  note q = next_page_facts [OF assms(1,2)]
  have pq: "p \<noteq> next_page m" using q(8) [OF assms(3,4)] .
  show "m_view (replaced cs par [(p, lp), (next_page m, rp)] (grown m)) p = lp"
    "m_view (replaced cs par [(p, lp), (next_page m, rp)] (grown m)) (next_page m) = rp"
    using pq assms(5,6) by (simp_all add: replaced_def adopt_def)
  show "m_view (replaced cs par [(p, lp), (next_page m, rp)] (grown m)) x
      = (if x \<in> set cs then set_parent_page par (m_view m x) else m_view m x)" if "x < m_pages m" "x \<notin> set (m_free m)" "x \<noteq> p"
    using that(3) q(8) [OF that(1,2)] q(9) by (auto simp: replaced_def adopt_def)
qed

lemma replaced_touches:
  assumes "holds base m t" "0 < spare m" "p \<in> P" "set cs \<subseteq> P"
  shows "touches P m (replaced cs par [(p, lp), (next_page m, rp)] (grown m))" "next_page m \<in> reach P m"
proof -
  note q = next_page_facts [OF assms(1,2)]
  have "m_view (replaced cs par [(p, lp), (next_page m, rp)] (grown m)) x = m_view m x"
    if "x < m_pages m" "x \<notin> P" "x \<notin> set (m_free m)" for x
    using that assms(3,4) q(8) [OF that(1,3)] q(9) by (auto simp: replaced_def adopt_def)
  then show "touches P m (replaced cs par [(p, lp), (next_page m, rp)] (grown m))"
    using q(4) subsetD [OF grown_fields(5) [of m]] by (auto simp: touches_def replaced_def)
  show "next_page m \<in> reach P m" using q(7) by (auto simp: reach_def)
qed

lemma split_pending:
  assumes "crowded m c p s" "holds base m t" "0 < spare m" "s_split (length (s_seps s) div 2) s = (a, k, b)"
    "\<And>v. v p = lp \<Longrightarrow> inner_held v (ctx_parent c) p (s_seps a) (s_last a)"
    "\<And>v. v (next_page m) = rp \<Longrightarrow> inner_held v (ctx_parent c) (next_page m) (s_seps b) (s_last b)"
  shows "pending (replaced (s_tops b) (next_page m) [(p, lp), (next_page m, rp)] (grown m)) c (Inner p a) k (Inner (next_page m) b)"
proof -
  let ?q = "next_page m" and ?M = "replaced (s_tops b) (next_page m) [(p, lp), (next_page m, rp)] (grown m)"
  note h = crowdedD [OF assms(1)] and q = next_page_facts [OF assms(2,3)]
  have fit: "seps_fit 64 (take (length (s_seps s) div 2) (s_seps s))" "seps_fit 64 (drop (Suc (length (s_seps s) div 2)) (s_seps s))"
    and n: "length (s_seps s) div 2 < length (s_seps s)" by (rule halves_fit [OF h(5,6) refl])+
  note sp = spine_halves [OF assms(4) n]
  have d: "distinct (p # s_pages a @ s_pages b @ ctx_pages c)" using h(9) sp(6) by auto
  have tops: "set (s_tops b) \<subseteq> set (s_pages b)" by (rule tops_pages)
  have old: "x < m_pages m" "x \<notin> set (m_free m)" "x \<noteq> ?q" if "x \<in> set (ctx_pages c @ p # s_pages s)" for x
    using h(10) [OF that] q(8) by blast+
  have pt: "p \<notin> set (s_tops b)" "?q \<notin> set (s_tops b)" using d tops old(3) sp(6) by auto
  have p: "p < m_pages m" "p \<notin> set (m_free m)" using old by simp_all
  note v = replaced_view [OF assms(2,3) p pt, where lp = lp and rp = rp and par = ?q]
  have keep: "m_view ?M x = m_view m x" if "x \<in> set (s_pages a) \<union> set (ctx_pages c)" for x
  proof -
    have "x \<noteq> p" "x \<notin> set (s_tops b)" "x \<in> set (ctx_pages c @ p # s_pages s)" using that d tops sp(6) by auto
    then show ?thesis using v(3) [OF old(1,2), of x] by simp
  qed
  have kids: "m_view ?M x = (if x \<in> set (s_tops b) then set_parent_page ?q (m_view m x) else m_view m x)" if "x \<in> set (s_pages b)" for x
  proof -
    have "x \<noteq> p" "x \<in> set (ctx_pages c @ p # s_pages s)" using that d sp(6) by auto
    then show ?thesis using v(3) [OF old(1,2), of x] by simp
  qed
  have sh: "s_held (m_view m) p a" "s_held (m_view m) p b" using split_held [OF assms(4) n, of "m_view m" p] h(1) by simp_all
  have "ctx_held (m_view ?M) c p" using ctx_held_cong [OF h(2)] keep by blast
  moreover have "t_held (m_view ?M) (ctx_parent c) (Inner p a)"
    using assms(5) [of "m_view ?M"] v(1) held_cong(2) [OF sh(1), of "m_view ?M"] keep by simp
  moreover have "t_held (m_view ?M) (ctx_parent c) (Inner ?q b)"
    using assms(6) [of "m_view ?M"] v(2) spine_adopted [OF sh(2), of "m_view ?M" ?q] kids d by auto
  moreover have "t_fit (Inner p a)" "t_fit (Inner ?q b)"
    using fit sp(1,4) split_fit [OF assms(4) n h(4)] by simp_all
  moreover have "short_key k" using h(5) sp(3) n by (simp add: seps_fit_def list_all_length)
  moreover have "t_sorted (plug2 c (Inner p a) k (Inner ?q b)) None None" by (rule split_plug(1) [OF assms(4) n h(7)])
  moreover have "chained (m_view ?M) (t_leaves (plug2 c (Inner p a) k (Inner ?q b)))"
  proof (rule chained_next [of "m_view m"])
    have e: "t_leaves (plug2 c (Inner p a) k (Inner ?q b)) = t_leaves (plug c (Inner p s))"
      using sp(7) by (simp add: plug_leaves plug2_leaves)
    show "chained (m_view m) (t_leaves (plug2 c (Inner p a) k (Inner ?q b)))" using h(8) e by simp
    have held: "t_held (m_view m) INVALID_PAGE (plug c (Inner p s))" using h(1,2) by (simp add: plug_held)
    have "next_leaf (m_view ?M x) = next_leaf (m_view m x)" if "(x, es) \<in> set (t_leaves (plug c (Inner p s)))" for x es
    proof -
      have x: "is_leaf (m_view m x)" "x \<in> set (ctx_pages c @ p # s_pages s)" using plug_held_leaves [OF held that] by auto
      then have "x \<noteq> p" using h(1) by (auto simp: inner_held_def)
      moreover have "length (m_view m x) = PAGE_SIZE"
        using held_node_ok(1) [OF held] plug_page_set [of c "Inner p s"] x(2) node_okD by auto
      ultimately show ?thesis using v(3) [OF old(1,2) [OF x(2)]] by simp
    qed
    then show "\<forall>(x, es) \<in> set (t_leaves (plug2 c (Inner p a) k (Inner ?q b))). next_leaf (m_view ?M x) = next_leaf (m_view m x)"
      unfolding e by blast
  qed
  moreover have "distinct (ctx_pages c @ t_pages (Inner p a) @ t_pages (Inner ?q b) @ m_free ?M)"
    using h(9) q(2,6) subsetD [OF grown_fields(5) [of m]] old(3) sp(6) by (auto simp: replaced_def)
  moreover have "\<forall>x \<in> set (ctx_pages c @ t_pages (Inner p a) @ t_pages (Inner ?q b)). x < m_pages ?M"
    using old(1) q(1,5) sp(6) by (auto simp: replaced_def)
  ultimately show ?thesis using h(3) unfolding pending_def t_page.simps by blast
qed

text \<open>
  In the place of \<open>t\<close> there is a tree of the same leaves, where every search ends in the same leaf;
  at most \<open>n\<close> pages were allocated for it.
\<close>

definition placed :: "log_base \<Rightarrow> nat \<Rightarrow> nat \<Rightarrow> u32 set \<Rightarrow> mem \<Rightarrow> tree \<Rightarrow> 'a btrees_scheme \<Rightarrow> bool" where
  "placed base n h P m t u \<longleftrightarrow> (\<exists>m' t'. holds base m' u \<and> updated h P m m' t' \<and> spare m \<le> spare m' + n \<and> t_leaves t' = t_leaves t
     \<and> (\<forall>y. clean_key y \<longrightarrow> t_find y t' = t_find y t))"

lemma placed_step:
  assumes "placed base n h (reach P m) m' t' u" "touches P m m'" "m_roots m' = m_roots m" "t_leaves t' = t_leaves t"
    "spare m \<le> spare m' + k"
    "\<And>y. clean_key y \<Longrightarrow> t_find y t' = t_find y t"
  shows "placed base (n + k) h P m t u"
proof -
  obtain m2 x where x: "holds base m2 u" "updated h (reach P m) m' m2 x" "spare m' \<le> spare m2 + n" "t_leaves x = t_leaves t'"
    "\<forall>y. clean_key y \<longrightarrow> t_find y x = t_find y t'" using assms(1) by (auto simp: placed_def)
  have "updated h P m m2 x"
    using x(2) assms(3) touches_trans [OF assms(2)] reach_mono [OF assms(2) subset_refl] by (auto simp: updated_def)
  then show ?thesis using x assms(4-6) unfolding placed_def by (intro exI [of _ m2] exI [of _ x]) simp
qed

lemma insert_at_root:
  fixes s :: "'a btrees_scheme"
  assumes "holds base m s" "calm m" "0 < spare m" "pending m [] l k r" "set (t_pages l) \<union> set (t_pages r) \<subseteq> P"
  shows "wp (new_root h (lb_txn base) (t_page l) k (t_page r)) (\<lambda>_. placed base (Suc 0) h P m (plug2 [] l k r)) (\<lambda>_ _. False) s"
proof -
  let ?q = "next_page m" and ?t = "Inner (next_page m) (Sep l k (Last r))"
  note h = pendingD [OF assms(4)] and q = next_page_facts [OF assms(1,3)]
  obtain par where rp: "t_held (m_view m) par r" using h(3) by blast
  have d: "distinct (t_pages l @ t_pages r @ m_free m)" using h(10) by simp
  have old: "x < m_pages m" "x \<notin> set (m_free m)" "x \<noteq> ?q" "node_ok (m_view m x)" if "x \<in> set (t_pages l) \<union> set (t_pages r)" for x
    using h(11,12) [of x] that d q(8) by auto
  have tl: "t_page l \<in> set (t_pages l)" "t_page r \<in> set (t_pages r)" by (simp_all add: t_page_in)
  have tops: "t_page l \<noteq> t_page r" "t_page l \<notin> set (t_pages r)" "t_page r \<notin> set (t_pages l)" using d tl by auto
  have "child_ok m (t_page l)" "child_ok m (t_page r)" using old tl by (simp_all add: child_ok_def node_okD)
  from wp_new_root [where h = h, OF assms(1-3) this tops(1) h(7)] obtain p where
    held: "\<forall>v par. v ?q = p \<longrightarrow> inner_held v INVALID_PAGE ?q [\<lparr>ie_key = k, ie_child = t_page l\<rparr>] (t_page r)"
    and wp: "wp (new_root h (lb_txn base) (t_page l) k (t_page r)) (\<lambda>_. holds base ((replaced [t_page l, t_page r] ?q [(?q, p)] (grown m))
         \<lparr>m_roots := (m_roots m)(h := ?q)\<rparr>)) (\<lambda>_ _. False) s" by (elim exE conjE)
  let ?m = "(replaced [t_page l, t_page r] ?q [(?q, p)] (grown m))\<lparr>m_roots := (m_roots m)(h := ?q)\<rparr>"
  have vq: "m_view ?m ?q = p" using old(3) [of "t_page l"] old(3) [of "t_page r"] tl by (auto simp: replaced_def adopt_def)
  have v: "m_view ?m x = (if x = t_page l \<or> x = t_page r then set_parent_page ?q (m_view m x) else m_view m x)" if "x \<noteq> ?q" for x
    using that q(9) by (auto simp: replaced_def adopt_def)
  have vt: "m_view ?m (t_page l) = set_parent_page ?q (m_view m (t_page l))" "m_view ?m (t_page r) = set_parent_page ?q (m_view m (t_page r))"
    using v [OF old(3), of "t_page l"] v [OF old(3), of "t_page r"] tl by simp_all
  have vo: "m_view ?m x = m_view m x" if "x \<in> set (t_pages l) \<union> set (t_pages r)" "x \<noteq> t_page l" "x \<noteq> t_page r" for x
    using v [OF old(3) [OF that(1)]] that(2,3) by simp
  have lo: "\<forall>x \<in> set (t_pages l). x \<noteq> t_page l \<longrightarrow> m_view ?m x = m_view m x" using vo tops by blast
  have ro: "\<forall>x \<in> set (t_pages r). x \<noteq> t_page r \<longrightarrow> m_view ?m x = m_view m x" using vo tops by blast
  have l: "t_held (m_view ?m) ?q l" by (rule held_adopted [OF h(2) _ vt(1) lo]) (use d in simp)
  have r: "t_held (m_view ?m) ?q r" by (rule held_adopted [OF rp _ vt(2) ro]) (use d in simp)
  have chain: "chained (m_view ?m) (t_leaves ?t)"
  proof (rule chained_next [of "m_view m"])
    show "chained (m_view m) (t_leaves ?t)" using h(9) by simp
    have "next_leaf (m_view ?m x) = next_leaf (m_view m x)" if "x \<in> set (t_pages l) \<union> set (t_pages r)" for x
      using v [OF old(3) [OF that]] old(4) [OF that] by (simp add: node_okD)
    then show "\<forall>(x, es) \<in> set (t_leaves ?t). next_leaf (m_view ?m x) = next_leaf (m_view m x)"
      using leaves_pages(1) [of l] leaves_pages(1) [of r] by force
  qed
  have "tree_in ?m ?t"
    unfolding tree_in_def
  proof (intro conjI)
    show "t_held (m_view ?m) INVALID_PAGE ?t" using held vq l r by simp
    show "t_fit ?t" using h(5-7) by (simp add: seps_fit_def internal_bytes_sum short_key_def capacity_def PAGE_SIZE_def NODE_HEADER_SIZE_def)
    show "t_sorted ?t None None" using h(8) by simp
    show "distinct (t_pages ?t @ m_free ?m)"
      using d q(2,6) old(3) subsetD [OF grown_fields(5) [of m]] by (auto simp: replaced_def)
    show "\<forall>x \<in> set (t_pages ?t). x < m_pages ?m" using old(1) q(1,5) by (auto simp: replaced_def)
  qed (rule chain)
  moreover have "touches P m ?m"
  proof -
    have "m_view ?m x = m_view m x" if "x < m_pages m" "x \<notin> P" "x \<notin> set (m_free m)" for x
      using v [OF q(8) [OF that(1,3)]] that(2) assms(5) tl by auto
    then show ?thesis using q(4) subsetD [OF grown_fields(5) [of m]] by (auto simp: touches_def replaced_def)
  qed
  moreover have "calm ?m" using assms(2) by (simp add: calm_def replaced_def)
  moreover have "set (t_pages ?t) \<subseteq> reach P m" using assms(5) q(7) by (auto simp: reach_def)
  ultimately have "updated h P m ?m ?t" by (simp add: updated_def replaced_def)
  then have "placed base (Suc 0) h P m (plug2 [] l k r) u" if "holds base ?m u" for u :: "'a btrees_scheme"
    using that q(3) unfolding placed_def by (intro exI [of _ ?m] exI [of _ ?t]) (simp add: replaced_def spare_def)
  then show ?thesis by (rule wp_mono [OF wp])
qed

lemma wp_split_crowded:
  fixes t :: "'a btrees_scheme"
  assumes "crowded m c p s" "holds base m t" "calm m" "0 < spare m" "set (p # s_pages s) \<subseteq> P"
  shows "\<exists>m' a k q b. pending m' c (Inner p a) k (Inner q b) \<and> calm m' \<and> spare m' = spare m - 1 \<and> m_roots m' = m_roots m
    \<and> touches P m m' \<and> set (p # s_pages a @ q # s_pages b) \<subseteq> reach P m
    \<and> t_leaves (plug2 c (Inner p a) k (Inner q b)) = t_leaves (plug c (Inner p s))
    \<and> (\<forall>y. clean_key y \<longrightarrow> t_find y (plug2 c (Inner p a) k (Inner q b)) = t_find y (plug c (Inner p s)))
    \<and> (\<forall>fuel Q E. (\<forall>u :: 'a btrees_scheme. holds base m' u \<longrightarrow> wp (insert_into_parent fuel h (lb_txn base) p k q) Q E u)
        \<longrightarrow> wp (split_internal (Suc fuel) h (lb_txn base) p) Q E t)"
proof -
  note h = crowdedD [OF assms(1)]
  let ?es = "s_seps s" and ?n = "length (s_seps s) div 2" and ?q = "next_page m"
  obtain a k b where ab: "s_split ?n s = (a, k, b)" by (metis prod_cases3)
  have fit: "seps_fit 64 (take ?n ?es)" "seps_fit 64 (drop (Suc ?n) ?es)" and n: "?n < length ?es" by (rule halves_fit [OF h(5,6) refl])+
  note sp = spine_halves [OF ab n]
  have p: "p < m_pages m" "p \<notin> set (m_free m)" using h(10) [of p] by simp_all
  have inner: "inner_held (m_view m) (ctx_parent c) p ?es (s_last s)" using h(1) by simp
  have ne: "?es \<noteq> []" using n by auto
  have cs: "s_tops b = map ie_child (drop (Suc ?n) ?es) @ [s_last s]" using tops_children [of b] sp(4,5) by simp
  have sub: "set (s_tops b) \<subseteq> set (s_pages s)" using tops_pages [of b] sp(6) by auto
  have nodes: "\<forall>x \<in> set (s_pages s). node_ok (m_view m x)" using held_node_ok(2) h(1) by auto
  have kids: "list_all (child_ok m) (s_tops b)"
    unfolding list_all_iff
  proof
    fix x assume "x \<in> set (s_tops b)"
    then have x: "x \<in> set (s_pages s)" using sub by blast
    then show "child_ok m x" using nodes h(10) [of x] by (simp add: child_ok_def node_okD)
  qed
  have dt: "distinct (s_tops b)" "p \<notin> set (s_tops b)" using h(9) sp(6) sub tops_distinct [of b] by auto
  from wp_split_pages [where h = h, OF assms(2-4) p inner ne refl fit cs kids dt] obtain lp rp where
    lp: "\<forall>v. v p = lp \<longrightarrow> inner_held v (ctx_parent c) p (s_seps a) (s_last a)"
    and rp: "\<forall>v. v ?q = rp \<longrightarrow> inner_held v (ctx_parent c) ?q (s_seps b) (s_last b)"
    and wp: "\<forall>fuel Q E. (\<forall>u :: 'a btrees_scheme. holds base (replaced (s_tops b) ?q [(p, lp), (?q, rp)] (grown m)) u
          \<longrightarrow> wp (insert_into_parent fuel h (lb_txn base) p k ?q) Q E u) \<longrightarrow> wp (split_internal (Suc fuel) h (lb_txn base) p) Q E t"
    unfolding sp(1-5) by (elim exE conjE)
  let ?m = "replaced (s_tops b) ?q [(p, lp), (?q, rp)] (grown m)"
  have "pending ?m c (Inner p a) k (Inner ?q b)" by (rule split_pending [OF assms(1,2,4) ab]) (use lp rp in blast)+
  moreover have "calm ?m" using assms(3) by (simp add: calm_def replaced_def)
  moreover have "spare ?m = spare m - 1" using next_page_facts(3) [OF assms(2,4)] by (simp add: replaced_def spare_def)
  moreover have "touches P m ?m" "?q \<in> reach P m"
    using replaced_touches(1) [OF assms(2,4), of p P "s_tops b" ?q lp rp] replaced_touches(2) [OF assms(2,4), of p P] assms(5) sub by auto
  moreover have "set (p # s_pages a @ ?q # s_pages b) \<subseteq> reach P m" using assms(5) sp(6) calculation(5) by (auto simp: reach_def)
  moreover have "t_leaves (plug2 c (Inner p a) k (Inner ?q b)) = t_leaves (plug c (Inner p s))"
    using sp(7) by (simp add: plug_leaves plug2_leaves)
  moreover have "m_roots ?m = m_roots m" by (simp add: replaced_def)
  ultimately show ?thesis using split_plug(2) [OF ab n h(7)] wp by blast
qed

text \<open>
  The new separator goes up: every node on the way that gets full is split, and the tree that is
  reached has the entries of the halves and leads every search to the same leaf.
\<close>

lemma wp_insert_into_parent:
  fixes s :: "'a btrees_scheme"
  assumes "holds base m s" "calm m" "pending m c l k r" "set (ctx_pages c) \<union> set (t_pages l) \<union> set (t_pages r) \<subseteq> P"
    "length c < spare m" "2 * length c < fuel" "m_roots m h = t_page (plug c l)"
  shows "wp (insert_into_parent fuel h (lb_txn base) (t_page l) k (t_page r)) (\<lambda>_. placed base (Suc (length c)) h P m (plug2 c l k r)) (\<lambda>_ _. False) s"
  using assms
proof (induction c arbitrary: m s l k r P fuel)
  case Nil
  note h = pendingD [OF Nil.prems(3)]
  have par: "parent_page (m_view m (t_page l)) = INVALID_PAGE" using held_parent [OF h(2)] by simp
  obtain n where n: "fuel = Suc n" using Nil.prems(6) by (cases fuel) auto
  have lp: "t_page l < m_pages m" using h(11) [of "t_page l"] by (simp add: t_page_in)
  have pins: "m_pins m = {}" using Nil.prems(2) by (simp add: calm_def)
  show ?case
    unfolding n insert_into_parent.simps
  proof (rule then_read_node [where g = "\<lambda>p. Inr (parent_page p)", OF Nil.prems(1) calm_steady [OF Nil.prems(2)] lp])
    fix t :: "'a btrees_scheme" assume 3: "holds base m t"
    show "wp (if INVALID_PAGE = INVALID_PAGE then new_root h (lb_txn base) (t_page l) k (t_page r) else X)
      (\<lambda>_. placed base (Suc (length [])) h P m (plug2 [] l k r)) (\<lambda>_ _. False) t" for X unfolding if_P [OF refl] list.size(3) by (rule insert_at_root [OF 3 Nil.prems(2) _ Nil.prems(3)]) (use Nil.prems in simp_all)
  qed (use pins par in simp_all)
next
  case (Cons f c)
  note h = pendingD [OF Cons.prems(3)]
  let ?p = "f_page f"
  have par: "parent_page (m_view m (t_page l)) = ?p" using held_parent [OF h(2)] by simp
  obtain n where n: "fuel = Suc (Suc n)" "2 * length c < n" using Cons.prems(6) by (cases fuel; cases "fuel - 1") auto
  have lp: "t_page l < m_pages m" using h(11) [of "t_page l"] by (simp add: t_page_in)
  have pins: "m_pins m = {}" "m_late m = {}" "m_slots m = []" using Cons.prems(2) by (simp_all add: calm_def)
  obtain s0 where s0: "fill2 f l k r = Inner ?p s0" using fill2_parts by blast
  note j = joined_node [OF Cons.prems(3) s0]
  have pv: "?p \<noteq> INVALID_PAGE" 
    using j(8) [of ?p] holdsD(3) [OF Cons.prems(1)] total_pages_not_invalid [of ?p s] by simp
  have ih: "inner_held (m_view m) (ctx_parent c) ?p (frame_seps f (t_page l)) (frame_last f (t_page l))" using h(1) by simp
  have room: "\<not> internal_entry_size k > available_space (m_view m ?p)"
    by (rule room_page [OF ih frame_fit_seps h(7)]) (use h(4) in simp)
  obtain lo hi where "clean_bound lo" "s_sorted s0 lo hi" using plug_sorted_at [OF j(6)] by auto
  then have srt: "sorted_wrt (\<lambda>a b. key_lt (ie_key a) (ie_key b)) (s_seps s0)" "\<forall>e \<in> set (s_seps s0). clean_key (ie_key e)"
    using seps_sorted by blast+
  obtain q where q: "add_separator k (t_page l) (t_page r) (m_view m ?p) = Inr q" "length q = PAGE_SIZE"
    "\<And>v. v ?p = q \<Longrightarrow> inner_held v (ctx_parent c) ?p (frame_seps2 f (t_page l) k (t_page r)) (frame_last f (t_page r))"
    using add_separator_ok [OF ih, of k "t_page r"] srt j(2,5) by auto
  let ?M = "m\<lparr>m_view := joined_view ?p q (t_page r) (m_view m)\<rparr>"
  have calm: "calm ?M" using pins by (simp add: calm_def)
  have pp: "?p < m_pages m" "?p \<notin> set (m_free m)" using j(8) [of ?p] by simp_all
  have rp: "t_page r < m_pages m" "t_page r \<notin> set (m_free m)" "length (m_view m (t_page r)) = PAGE_SIZE"
    using j(8) [of "t_page r"] j(10) by (simp_all add: node_okD)
  have rest: "wp (bind (read_node ?p (\<lambda>p. Inr (is_full p))) (\<lambda>full. whenever full (split_internal (Suc n) h (lb_txn base) ?p)))
    (\<lambda>_. placed base (Suc (length (f # c))) h P m (plug2 (f # c) l k r)) (\<lambda>_ _. False) t" if t: "holds base ?M t" for t :: "'a btrees_scheme"
  proof -
    note jn = pending_joined [OF Cons.prems(3) q(3)]
    have T: "plug2 (f # c) l k r = plug c (Inner ?p s0)" using s0 by simp
    have up: "touches P m ?M"
      using Cons.prems(4) t_page_in [of r] by (cases f) (auto simp: touches_def joined_view_def adopt_def)
    have root: "t_page (plug c (Inner ?p s0)) = m_roots m h" using Cons.prems(7) plug_page [of "Inner ?p s0" "fill f l" c] by simp
    have inner: "inner_held (m_view ?M) (ctx_parent c) ?p (s_seps s0) (s_last s0)" using jn(1) s0 by simp
    note full = full_page [OF inner j(5)]
    have pages: "set (t_pages (plug c (Inner ?p s0))) \<subseteq> P"
      using arg_cong [OF plug2_pages [of c f l k r], of set_mset] Cons.prems(4) s0 by simp
    show ?thesis
    proof (cases "seps_fit 64 (s_seps s0)")
      case True
      from pages have "set (t_pages (plug c (Inner ?p s0))) \<subseteq> P" by simp
      moreover have "tree_in ?M (plug c (Inner ?p s0))" using joined_tree [OF Cons.prems(3) _ q(3)] True j(2) s0 by simp
      ultimately have "updated h P m ?M (plug c (Inner ?p s0))" using calm up root by (auto simp: updated_def reach_def)
      then have done1: "placed base (Suc (length (f # c))) h P m (plug2 (f # c) l k r) u" if "holds base ?M u" for u :: "'a btrees_scheme"
        using that unfolding T placed_def by (intro exI [of _ ?M] exI [of _ "plug c (Inner ?p s0)"]) (simp add: spare_def)
      show ?thesis
        by (rule then_read_node [where g = "\<lambda>p. Inr (is_full p)" and x = False, OF t calm_steady [OF calm]])
          (use pp pins True full done1 in \<open>simp_all add: whenever_def wp_ret\<close>)
    next
      case False
      have "crowded ?M c ?p s0" using jn(1-3) j(1,5-8) False s0 jn(7) unfolding crowded_def by auto
      note split = wp_split_crowded [where h = h and P = P, OF this _ calm]
      have reach: "reach P ?M = reach P m" "spare ?M = spare m" by (simp_all add: reach_def spare_def)
      have go: "wp (split_internal (Suc n) h (lb_txn base) ?p) (\<lambda>_. placed base (Suc (length (f # c))) h P m (plug2 (f # c) l k r)) (\<lambda>_ _. False) t'"
        if t': "holds base ?M t'" for t' :: "'a btrees_scheme"
      proof -
        have "0 < spare ?M" "set (?p # s_pages s0) \<subseteq> P" using Cons.prems(5) reach pages by (simp_all add: plug_page_set)
        from split [OF t' this] obtain m' a k' x b where
          m': "pending m' c (Inner ?p a) k' (Inner x b)" "calm m'" "spare m' = spare ?M - 1" "m_roots m' = m_roots ?M" "touches P ?M m'"
            "set (?p # s_pages a @ x # s_pages b) \<subseteq> reach P ?M"
            "t_leaves (plug2 c (Inner ?p a) k' (Inner x b)) = t_leaves (plug c (Inner ?p s0))"
            "\<forall>y. clean_key y \<longrightarrow> t_find y (plug2 c (Inner ?p a) k' (Inner x b)) = t_find y (plug c (Inner ?p s0))"
          and wp: "\<forall>fuel Q E. (\<forall>u :: 'a btrees_scheme. holds base m' u \<longrightarrow> wp (insert_into_parent fuel h (lb_txn base) ?p k' x) Q E u)
            \<longrightarrow> wp (split_internal (Suc fuel) h (lb_txn base) ?p) Q E t'"
          by (elim exE conjE)
        have tm: "touches P m m'" using touches_trans [OF up] touches_mono [OF m'(5), of "reach P m"] by (auto simp: reach_def)
        have "wp (insert_into_parent n h (lb_txn base) ?p k' x) (\<lambda>_. placed base (Suc (length (f # c))) h P m (plug2 (f # c) l k r)) (\<lambda>_ _. False) u"
          if "holds base m' u" for u :: "'a btrees_scheme"
        proof -
          have "wp (insert_into_parent n h (lb_txn base) (t_page (Inner ?p a)) k' (t_page (Inner x b)))
            (\<lambda>_. placed base (Suc (length c)) h (reach P m) m' (plug2 c (Inner ?p a) k' (Inner x b))) (\<lambda>_ _. False) u"
          proof (rule Cons.IH [OF that m'(2,1)])
            show "set (ctx_pages c) \<union> set (t_pages (Inner ?p a)) \<union> set (t_pages (Inner x b)) \<subseteq> reach P m"
              using m'(6) reach pages by (auto simp: plug_page_set reach_def)
            show "length c < spare m'" using m'(3) reach Cons.prems(5) by simp
            show "m_roots m' h = t_page (plug c (Inner ?p a))" using m'(4) root plug_page [of "Inner ?p a" "Inner ?p s0" c] by simp
          qed (rule n(2))
          then show ?thesis unfolding t_page.simps
          proof (rule wp_mono)
            fix u' :: "'a btrees_scheme"
            assume pl: "placed base (Suc (length c)) h (reach P m) m' (plug2 c (Inner ?p a) k' (Inner x b)) u'"
            show "placed base (Suc (length (f # c))) h P m (plug2 (f # c) l k r) u'"
              unfolding T using placed_step [OF pl tm, of _ "Suc 0"] m'(3,4,7,8) reach(2) by simp
          qed
        qed
        then show ?thesis using wp by blast
      qed
      show ?thesis
        by (rule then_read_node [where g = "\<lambda>p. Inr (is_full p)" and x = True, OF t calm_steady [OF calm]])
          (use pp pins False full go in \<open>simp_all add: whenever_def\<close>)
    qed
  qed
  have adopted: "(changed ?p q m)\<lparr>m_view := adopt ?p [t_page r] (m_view (changed ?p q m))\<rparr> = ?M"
    using pins by (intro mem.equality) (simp_all add: changed_def joined_view_def)
  show ?case
    unfolding n insert_into_parent.simps
  proof (rule then_read_node [where g = "\<lambda>p. Inr (parent_page p)", OF Cons.prems(1) calm_steady [OF Cons.prems(2)] lp])
    show "t_page l \<notin> m_pins m" "Inr (parent_page (m_view m (t_page l))) = Inr ?p" using pins par by simp_all
    fix t1 :: "'a btrees_scheme" assume t1: "holds base m t1"
    show "wp (if ?p = INVALID_PAGE then new_root h (lb_txn base) (t_page l) k (t_page r)
     else bind (read_node ?p (\<lambda>p. Inr (internal_entry_size k > available_space p))) (\<lambda>would_overflow.
     bind (if would_overflow then andthen (split_internal (Suc n) h (lb_txn base) ?p)
             (read_node (t_page l) (\<lambda>p. Inr (parent_page p)))
           else ret ?p) (\<lambda>parent.
     andthen (edit_node (lb_txn base) parent (add_separator k (t_page l) (t_page r)))
     (andthen (set_parent (lb_txn base) (t_page r) parent)
     (bind (read_node parent (\<lambda>p. Inr (is_full p))) (\<lambda>parent_full.
      whenever parent_full (split_internal (Suc n) h (lb_txn base) parent)))))))
      (\<lambda>_. placed base (Suc (length (f # c))) h P m (plug2 (f # c) l k r)) (\<lambda>_ _. False) t1"
      unfolding if_not_P [OF pv]
    proof (rule then_read_node [where g = "\<lambda>p. Inr (internal_entry_size k > available_space p)", OF t1 calm_steady [OF Cons.prems(2)] pp(1)])
      show "?p \<notin> m_pins m" "Inr (internal_entry_size k > available_space (m_view m ?p)) = Inr False" using pins room by simp_all
      fix t2 :: "'a btrees_scheme" assume t2: "holds base m t2"
      show "wp (bind (if False then andthen (split_internal (Suc n) h (lb_txn base) ?p)
             (read_node (t_page l) (\<lambda>p. Inr (parent_page p)))
           else ret ?p) (\<lambda>parent.
        andthen (edit_node (lb_txn base) parent (add_separator k (t_page l) (t_page r)))
        (andthen (set_parent (lb_txn base) (t_page r) parent)
        (bind (read_node parent (\<lambda>p. Inr (is_full p))) (\<lambda>parent_full.
         whenever parent_full (split_internal (Suc n) h (lb_txn base) parent))))))
        (\<lambda>_. placed base (Suc (length (f # c))) h P m (plug2 (f # c) l k r)) (\<lambda>_ _. False) t2"
        unfolding if_False
      proof (rule then_ret, rule then_edit_node [where g = "add_separator k (t_page l) (t_page r)", OF t2 calm_steady [OF Cons.prems(2)] pp(1) _ pp(2) q(1,2)])
        show "?p \<notin> m_pins m" using pins by simp
        fix t3 :: "'a btrees_scheme" assume t3: "holds base (changed ?p q m) t3"
        show "wp (andthen (set_parent (lb_txn base) (t_page r) ?p) (bind (read_node ?p (\<lambda>p. Inr (is_full p))) (\<lambda>parent_full.
          whenever parent_full (split_internal (Suc n) h (lb_txn base) ?p)))) (\<lambda>_. placed base (Suc (length (f # c))) h P m (plug2 (f # c) l k r)) (\<lambda>_ _. False) t3"
        proof (rule then_set_parent [OF t3])
          fix t4 :: "'a btrees_scheme"
          assume "holds base ((changed ?p q m)\<lparr>m_view := adopt ?p [t_page r] (m_view (changed ?p q m))\<rparr>) t4"
          then show "wp (bind (read_node ?p (\<lambda>p. Inr (is_full p))) (\<lambda>parent_full. whenever parent_full (split_internal (Suc n) h (lb_txn base) ?p)))
            (\<lambda>_. placed base (Suc (length (f # c))) h P m (plug2 (f # c) l k r)) (\<lambda>_ _. False) t4" unfolding adopted by (rule rest)
        qed (use pins rp q(2) in \<open>auto simp: changed_def orphan_ok_def steady_def BUFFER_POOL_SIZE_def\<close>)
      qed
    qed
  qed
qed

end
