(* ===== verification/Tree_Insert.thy ===== *)
theory Tree_Insert
  imports Tree_Split
begin

text \<open>
  Insertion into the tree is correct: the new entry is in its leaf, with as many splits as it takes
  up to a new root; the tree stays ordered, linked and balanced in its pointers, other pages stay
  as they are, and the log of the transaction holds every page that was changed.
\<close>

section \<open>Splitting a leaf\<close>

lemma leaf_bytes_sum: "leaf_bytes es = (\<Sum>e\<leftarrow>es. length (leaf_cell e))"
  by (induction es) (simp_all add: leaf_bytes_def)

lemma leaf_bytes_append [simp]: "leaf_bytes (xs @ ys) = leaf_bytes xs + leaf_bytes ys"
  by (simp add: leaf_bytes_sum)

lemma leaf_fits_append: "leaf_fits (xs @ ys) \<Longrightarrow> leaf_fits xs" "leaf_fits (xs @ ys) \<Longrightarrow> leaf_fits ys"
  by (auto simp: leaf_fits_def)

lemma leaf_page:
  assumes "length p = PAGE_SIZE" "is_leaf p" "leaf_fits es"
  shows "\<exists>q. set_leaf_entries es p = Inr q \<and> length q = PAGE_SIZE \<and> next_leaf q = next_leaf p
    \<and> (\<forall>v x. v x = q \<longrightarrow> leaf_held v (parent_page p) x es)
    \<and> (\<forall>v x n. v x = set_next_leaf n q \<longrightarrow> leaf_held v (parent_page p) x es \<and> next_leaf (v x) = n)
    \<and> (\<forall>v x n par. v x = set_parent_page par (set_next_leaf n q) \<longrightarrow> leaf_held v par x es \<and> next_leaf (v x) = n)"
  using set_leaf_entries_ok [OF assms(1), of es] assms(2,3) by (fastforce simp: leaf_fits_def leaf_held_def is_leaf_def node_okD)

lemma wp_split_leaf_pages:
  fixes s :: "'a btrees_scheme"
  assumes "holds base m s" "calm m" "0 < spare m" "pid < m_pages m" "pid \<notin> set (m_free m)"
    "leaf_held (m_view m) par pid (es @ fs)" "leaf_fits (es @ fs)" "length (es @ fs) div 2 = length es" "fs \<noteq> []"
  shows "\<exists>lp rp. (\<forall>v. v pid = lp \<longrightarrow> leaf_held v par pid es \<and> next_leaf (v pid) = next_page m)
    \<and> (\<forall>v. v (next_page m) = rp \<longrightarrow> leaf_held v par (next_page m) fs \<and> next_leaf (v (next_page m)) = next_leaf (m_view m pid))
    \<and> (\<forall>Q E. (\<forall>u :: 'a btrees_scheme. holds base (replaced [] (next_page m) [(pid, lp), (next_page m, rp)] (grown m)) u
          \<longrightarrow> wp (insert_into_parent (2 * unat (m_pages (grown m)) + 4) h (lb_txn base) pid (le_key (hd fs)) (next_page m)) Q E u)
        \<longrightarrow> wp (split_leaf h (lb_txn base) pid) Q E s)"
proof -
  let ?q = "next_page m"
  note q = next_page_facts [OF assms(1,3)]
  have c: "m_pins m = {}" "m_late m = {}" "m_slots m = []" using assms(2) by (simp_all add: calm_def)
  have page: "length (m_view m pid) = PAGE_SIZE" "is_leaf (m_view m pid)" "get_leaf_entries (m_view m pid) = Inr (es @ fs)"
    "parent_page (m_view m pid) = par" using assms(6) by (simp_all add: leaf_held_def node_okD)
  have pq: "pid \<noteq> ?q" using q(8) assms(4,5) by blast
  have pv: "m_view (grown m) pid = m_view m pid" "pid < m_pages (grown m)" "pid \<notin> set (m_free (grown m))"
    using grown_child [OF assms(1,3), of pid] assms(4,5) page(1) by (simp_all add: child_ok_def)
  obtain lq where lq: "set_leaf_entries es (m_view m pid) = Inr lq" "length lq = PAGE_SIZE"
    "\<forall>v x n. v x = set_next_leaf n lq \<longrightarrow> leaf_held v par x es \<and> next_leaf (v x) = n"
    using leaf_page [OF page(1,2) leaf_fits_append(1) [OF assms(7)]] unfolding page(4) by (elim exE conjE)
  have ini: "length (init_node LEAF) = PAGE_SIZE" "is_leaf (init_node LEAF)" by (simp_all add: is_leaf_def)
  obtain rq where rq: "set_leaf_entries fs (init_node LEAF) = Inr rq" "length rq = PAGE_SIZE"
    "\<forall>v x n par'. v x = set_parent_page par' (set_next_leaf n rq) \<longrightarrow> leaf_held v par' x fs \<and> next_leaf (v x) = n"
    using leaf_page [OF ini leaf_fits_append(2) [OF assms(7)]] by (elim exE conjE)
  let ?lp = "set_next_leaf ?q lq" and ?rp = "set_parent_page par (set_next_leaf (next_leaf (m_view m pid)) rq)"
  let ?M = "replaced [] ?q [(pid, ?lp), (?q, ?rp)] (grown m)"
  have half: "take (length es) (es @ fs) = es" "drop (length es) (es @ fs) = fs" by simp_all
  have "wp (split_leaf h (lb_txn base) pid) Q E s"
    if ins: "\<And>u :: 'a btrees_scheme. holds base ?M u
      \<Longrightarrow> wp (insert_into_parent (2 * unat (m_pages (grown m)) + 4) h (lb_txn base) pid (le_key (hd fs)) ?q) Q E u" for Q E
    unfolding split_leaf_def
  proof (rule then_fetch [OF assms(1) calm_steady [OF assms(2)] assms(4)], goal_cases)
    case 1
    show ?case by (simp add: c)
  next
    case (2 ls t0)
    note t0 = 2
    let ?m0 = "pinned pid ls m"
    have m0: "steady ?m0" "spare ?m0 = spare m" "next_page ?m0 = ?q" "m_view ?m0 = m_view m" "m_pages ?m0 = m_pages m"
      using c by (simp_all add: pinned_def steady_def BUFFER_POOL_SIZE_def spare_def next_page_def cong: list.case_cong)
    let ?fin = "\<lambda>slot. andthen (unpin_page pid True) (andthen (unpin_page ?q True) (andthen (write_page_through_wal (lb_txn base) pid ls)
       (andthen (write_page_through_wal (lb_txn base) ?q slot) (bind split_fuel (\<lambda>n. insert_into_parent n h (lb_txn base) pid (le_key (hd fs)) ?q)))))"
    let ?m2 = "\<lambda>slot. stored pid ?lp (stored ?q ?rp (allocated slot ?m0))"
    have rest: "wp (?fin slot) Q E t" if t: "holds base (?m2 slot) t" for slot and t :: "'a btrees_scheme"
    proof -
      let ?n2 = "?m2 slot"
      let ?n5 = "?n2\<lparr>m_pins := m_pins ?n2 - {pid}\<rparr>"
      let ?n6 = "?n5\<lparr>m_pins := m_pins ?n5 - {?q}\<rparr>"
      let ?n7 = "?n6\<lparr>m_late := m_late ?n6 - {pid}\<rparr>"
      let ?n8 = "?n7\<lparr>m_late := m_late ?n7 - {?q}\<rparr>"
      have g0: "m_pages (grown ?m0) = m_pages (grown m)" "m_free (grown ?m0) = m_free (grown m)" "m_view (grown ?m0) = m_view (grown m)"
        by (cases "m_free m"; simp add: grown_def pinned_def)+
      have fields: "m_pins ?n2 = {pid, ?q}" "m_late ?n2 = {pid, ?q}" "m_pages ?n2 = m_pages (grown m)" "m_free ?n2 = m_free (grown m)"
        "m_slots ?n2 = [(?q, slot), (pid, ls)]" "m_roots ?n2 = m_roots m"
        "m_view ?n2 = (m_view (grown m))(?q := ?rp, pid := ?lp)"
        using c g0 m0(3) by (auto simp: memory_defs)
      have M: "?n8\<lparr>m_slots := []\<rparr> = ?M"
        using fields pq c by (intro mem.equality) (auto simp: replaced_def fun_eq_iff adopt_def)
      show "wp (?fin slot) Q E t"
      proof (rule then_unpin [OF t], rule then_unpin, assumption)
        fix t3 :: "'a btrees_scheme" assume t3: "holds base ?n6 t3"
        show "wp (andthen (write_page_through_wal (lb_txn base) pid ls) (andthen (write_page_through_wal (lb_txn base) ?q slot)
          (bind split_fuel (\<lambda>n. insert_into_parent n h (lb_txn base) pid (le_key (hd fs)) ?q)))) Q E t3"
        proof (rule then_log [OF t3, of pid ls])
          fix t4 :: "'a btrees_scheme" assume t4: "holds base ?n7 t4"
          show "wp (andthen (write_page_through_wal (lb_txn base) ?q slot)
            (bind split_fuel (\<lambda>n. insert_into_parent n h (lb_txn base) pid (le_key (hd fs)) ?q))) Q E t4"
          proof (rule then_log [OF t4, of ?q slot])
            fix t5 :: "'a btrees_scheme" assume "holds base ?n8 t5"
            then have t5: "holds base ?M t5" unfolding M [symmetric] by (rule holds_forget) simp
            have "total_pages t5 = m_pages (grown m)" using holdsD(3) [OF t5] by (simp add: replaced_def)
            then show "wp (bind split_fuel (\<lambda>n. insert_into_parent n h (lb_txn base) pid (le_key (hd fs)) ?q)) Q E t5"
              using ins [OF t5] by (simp add: split_fuel_def wp_bind wp_gets)
          qed (use fields q(1) in simp_all)
        qed (use fields pv(2) in simp_all)
      qed
    qed
    show ?case
    proof (rule then_read [OF t0, of pid ls], goal_cases)
      case 3
      show ?case unfolding m0(4)
      proof (rule then_lift [OF page(3)], unfold Let_def assms(8) half page(4) if_not_P [OF assms(9)], rule then_allocate [OF t0 m0(1)], goal_cases)
        case (3 slot t1)
        note t1 = 3
        show ?case unfolding prod.case m0(3)
        proof (rule then_lift, use rq(1) in simp, rule then_write [where q = ?q, OF t1], goal_cases)
          case (5 t2)
          show ?case
          proof (rule then_read [OF 5, of pid ls], goal_cases)
            case 3
            have v: "m_view (stored ?q ?rp (allocated slot ?m0)) pid = m_view m pid"
              using pq pv(1) m0(3) by (cases "m_free m"; simp add: memory_defs grown_def)
            show ?case unfolding v
            proof (rule then_lift [OF lq(1)], rule then_write [where q = pid, OF 5], goal_cases)
              case (5 t3)
              then show ?case using rest by simp
            qed (use pv(3) lq(2) pq m0(3) in \<open>simp_all add: memory_defs\<close>)
          qed (use pq m0 pv(2) in \<open>simp_all add: memory_defs\<close>)
        qed (use q(2) rq(2) m0(3) in \<open>simp_all add: memory_defs\<close>)
      qed (use assms(3) m0 pq c in \<open>simp_all add: pinned_def\<close>)
    qed (use assms(4) in \<open>simp_all add: pinned_def\<close>)
  qed
  then show ?thesis using lq(3) rq(3) by blast
qed

lemma chained_Cons:
  "chained v ((p, es) # ls) \<longleftrightarrow> next_leaf (v p) = (case ls of [] \<Rightarrow> INVALID_PAGE | (q, _) # _ \<Rightarrow> q) \<and> chained v ls"
  by (cases ls) auto

lemma chained_split:
  assumes "chained v (B @ (p, es) # A)" "next_leaf (v' p) = q" "next_leaf (v' q) = next_leaf (v p)"
    "\<forall>(x, fs) \<in> set (B @ A). next_leaf (v' x) = next_leaf (v x)"
  shows "chained v' (B @ (p, fs) # (q, gs) # A)"
  using assms(1,4)
proof (induction B)
  case Nil
  then show ?case using assms(2,3) chained_next [of v A v'] by (cases A) (auto simp: chained_Cons)
next
  case (Cons b B)
  then show ?case by (cases b; cases B) (auto simp: chained_Cons)
qed

lemma chained_other:
  assumes "chained v (B @ (p, es) # A)" "\<And>x. next_leaf (v' x) = next_leaf (v x)"
  shows "chained v' (B @ (p, fs) # A)"
  using assms(1)
proof (induction B)
  case Nil
  then show ?case using assms(2) chained_next [of v A v'] by (auto simp: chained_Cons)
next
  case (Cons b B)
  then show ?case using assms(2) by (cases b; cases B) (auto simp: chained_Cons)
qed

lemma tree_inD:
  assumes "tree_in m (plug c t)"
  shows "ctx_held (m_view m) c (t_page t)" "t_held (m_view m) (ctx_parent c) t" "list_all frame_fit c" "t_fit t"
    "t_sorted (plug c t) None None" "chained (m_view m) (t_leaves (plug c t))" "distinct (ctx_pages c @ t_pages t @ m_free m)"
    "x \<in> set (ctx_pages c @ t_pages t) \<Longrightarrow> x < m_pages m \<and> x \<notin> set (m_free m)"
proof -
  have "mset (t_pages (plug c t) @ m_free m) = mset (ctx_pages c @ t_pages t @ m_free m)" by (simp add: plug_pages)
  then have d: "distinct (t_pages (plug c t) @ m_free m) = distinct (ctx_pages c @ t_pages t @ m_free m)" by (rule mset_append_eq)
  show "ctx_held (m_view m) c (t_page t)" "t_held (m_view m) (ctx_parent c) t" "list_all frame_fit c" "t_fit t"
    "t_sorted (plug c t) None None" "chained (m_view m) (t_leaves (plug c t))" "distinct (ctx_pages c @ t_pages t @ m_free m)"
    using assms d by (simp_all add: tree_in_def plug_held plug_fit)
  show "x < m_pages m \<and> x \<notin> set (m_free m)" if "x \<in> set (ctx_pages c @ t_pages t)"
    using that assms d plug_page_set [of c t] by (auto simp: tree_in_def)
qed

lemma leaf_split_pending:
  assumes "tree_in m (plug c (Leaf p (es @ fs)))" "holds base m t" "0 < spare m" "es \<noteq> []" "fs \<noteq> []"
    "\<And>v. v p = lp \<Longrightarrow> leaf_held v (ctx_parent c) p es \<and> next_leaf (v p) = next_page m"
    "\<And>v. v (next_page m) = rp \<Longrightarrow> leaf_held v (ctx_parent c) (next_page m) fs \<and> next_leaf (v (next_page m)) = next_leaf (m_view m p)"
  shows "pending (replaced [] (next_page m) [(p, lp), (next_page m, rp)] (grown m)) c (Leaf p es) (le_key (hd fs)) (Leaf (next_page m) fs)"
proof -
  let ?q = "next_page m" and ?M = "replaced [] (next_page m) [(p, lp), (next_page m, rp)] (grown m)"
  note h = tree_inD [OF assms(1)] and q = next_page_facts [OF assms(2,3)]
  have old: "x < m_pages m" "x \<notin> set (m_free m)" "x \<noteq> ?q" if "x \<in> set (p # ctx_pages c)" for x
    using h(8) [of x] q(8) [of x] that by auto
  have p: "p < m_pages m" "p \<notin> set (m_free m)" using old by simp_all
  have keep: "m_view ?M x = m_view m x" if "x \<in> set (ctx_pages c)" for x
    using replaced_view(3) [OF assms(2,3) p, of "[]" x] old(1,2) [of x] that h(7) by auto
  have "ctx_held (m_view ?M) c p" using ctx_held_cong [of "m_view m" c p] h(1) keep by simp
  moreover have lh: "leaf_held (m_view ?M) (ctx_parent c) p es \<and> next_leaf (m_view ?M p) = ?q"
    by (rule assms(6)) (use replaced_view(1) [OF assms(2,3) p, of "[]"] in simp)
  moreover have rh: "leaf_held (m_view ?M) (ctx_parent c) ?q fs \<and> next_leaf (m_view ?M ?q) = next_leaf (m_view m p)"
    by (rule assms(7)) (use replaced_view(2) [OF assms(2,3) p, of "[]"] in simp)
  moreover have "t_fit (Leaf p es)" "t_fit (Leaf ?q fs)" using h(4) leaf_fits_append [of es fs] by simp_all
  moreover have "short_key (le_key (hd fs))" using h(4) assms(5) by (cases fs) (auto simp: leaf_fits_def)
  moreover have "t_sorted (plug2 c (Leaf p es) (le_key (hd fs)) (Leaf ?q fs)) None None"
    by (rule leaf_plug_sorted [OF h(5) assms(4,5)])
  moreover have "chained (m_view ?M) (t_leaves (plug2 c (Leaf p es) (le_key (hd fs)) (Leaf ?q fs)))"
    unfolding plug2_leaves t_leaves.simps append_Cons append_Nil
  proof (rule chained_split)
    show "chained (m_view m) (ctx_before c @ (p, es @ fs) # ctx_after c)" using h(6) by (simp add: plug_leaves)
    show "next_leaf (m_view ?M p) = ?q" "next_leaf (m_view ?M ?q) = next_leaf (m_view m p)" using lh rh by simp_all
    show "\<forall>(x, fs) \<in> set (ctx_before c @ ctx_after c). next_leaf (m_view ?M x) = next_leaf (m_view m x)"
      using keep subsetD [OF ctx_leaves(2) [of c]] by force
  qed
  moreover have "distinct (ctx_pages c @ t_pages (Leaf p es) @ t_pages (Leaf ?q fs) @ m_free ?M)"
    using h(7) q(2,6) subsetD [OF grown_fields(5) [of m]] old(3) by (auto simp: replaced_def)
  moreover have "\<forall>x \<in> set (ctx_pages c @ t_pages (Leaf p es) @ t_pages (Leaf ?q fs)). x < m_pages ?M"
    using old(1) q(1,5) by (auto simp: replaced_def)
  ultimately show ?thesis using h(3) unfolding pending_def t_page.simps t_held.simps by blast
qed

lemma context_depth:
  assumes "distinct (ctx_pages c)" "\<forall>x \<in> set (ctx_pages c). x < n"
  shows "length c \<le> unat n"
proof -
  have "length c \<le> length (ctx_pages c)" by (induction c rule: ctx_pages.induct) auto
  moreover have "length (ctx_pages c) \<le> unat n" 
  proof -
    have "unat ` set (ctx_pages c) \<subseteq> {..< unat n}" using assms(2) by (auto simp: word_less_nat_alt)
    moreover have "card (unat ` set (ctx_pages c)) = length (ctx_pages c)"
      using assms(1) distinct_card [of "ctx_pages c"] by (subst card_image) (simp_all add: inj_on_def word_unat_eq_iff)
    ultimately show ?thesis using card_mono [of "{..< unat n}" "unat ` set (ctx_pages c)"] by simp
  qed
  ultimately show ?thesis by simp
qed

lemma wp_split_leaf:
  fixes s :: "'a btrees_scheme"
  assumes "holds base m s" "calm m" "tree_in m (plug c (Leaf p (es @ fs)))" "m_roots m h = t_page (plug c (Leaf p (es @ fs)))"
    "length (es @ fs) div 2 = length es" "es \<noteq> []" "fs \<noteq> []" "Suc (length c) < spare m" "set (p # ctx_pages c) \<subseteq> P"
  shows "wp (split_leaf h (lb_txn base) p) (\<lambda>_. placed base (Suc (Suc (length c))) h P m (plug2 c (Leaf p es) (le_key (hd fs)) (Leaf (next_page m) fs))) (\<lambda>_ _. False) s"
proof -
  note h = tree_inD [OF assms(3)]
  let ?q = "next_page m"
  have sp: "0 < spare m" using assms(8) by simp
  note q = next_page_facts [OF assms(1) sp]
  have p: "p < m_pages m" "p \<notin> set (m_free m)" using h(8) [of p] by simp_all
  have leaf: "leaf_held (m_view m) (ctx_parent c) p (es @ fs)" "leaf_fits (es @ fs)" using h(2,4) by simp_all
  from wp_split_leaf_pages [where h = h, OF assms(1,2) sp p leaf assms(5,7)] obtain lp rp where
    lp: "\<forall>v. v p = lp \<longrightarrow> leaf_held v (ctx_parent c) p es \<and> next_leaf (v p) = ?q"
    and rp: "\<forall>v. v ?q = rp \<longrightarrow> leaf_held v (ctx_parent c) ?q fs \<and> next_leaf (v ?q) = next_leaf (m_view m p)"
    and wp: "\<forall>Q E. (\<forall>u :: 'a btrees_scheme. holds base (replaced [] ?q [(p, lp), (?q, rp)] (grown m)) u
        \<longrightarrow> wp (insert_into_parent (2 * unat (m_pages (grown m)) + 4) h (lb_txn base) p (le_key (hd fs)) ?q) Q E u)
      \<longrightarrow> wp (split_leaf h (lb_txn base) p) Q E s" by (elim exE conjE)
  let ?M = "replaced [] ?q [(p, lp), (?q, rp)] (grown m)"
  have pend: "pending ?M c (Leaf p es) (le_key (hd fs)) (Leaf ?q fs)"
    by (rule leaf_split_pending [OF assms(3,1) sp assms(6,7) lp [rule_format] rp [rule_format]])
  have tm: "touches P m ?M" "?q \<in> reach P m" 
    using replaced_touches(1) [OF assms(1) sp, of p P "[]" ?q lp rp] replaced_touches(2) [OF assms(1) sp, of p P "[]"] assms(9) by simp_all
  have "wp (insert_into_parent (2 * unat (m_pages (grown m)) + 4) h (lb_txn base) p (le_key (hd fs)) ?q)
    (\<lambda>_. placed base (Suc (Suc (length c))) h P m (plug2 c (Leaf p es) (le_key (hd fs)) (Leaf ?q fs))) (\<lambda>_ _. False) u"
    if u: "holds base ?M u" for u :: "'a btrees_scheme"
  proof -
    have "wp (insert_into_parent (2 * unat (m_pages (grown m)) + 4) h (lb_txn base) (t_page (Leaf p es)) (le_key (hd fs)) (t_page (Leaf ?q fs)))
      (\<lambda>_. placed base (Suc (length c)) h (reach P m) ?M (plug2 c (Leaf p es) (le_key (hd fs)) (Leaf ?q fs))) (\<lambda>_ _. False) u"
    proof (rule wp_insert_into_parent [OF u _ pend])
      show "calm ?M" using assms(2) by (simp add: calm_def replaced_def)
      show "set (ctx_pages c) \<union> set (t_pages (Leaf p es)) \<union> set (t_pages (Leaf ?q fs)) \<subseteq> reach P m"
        using assms(9) tm(2) by (auto simp: reach_def)
      show "length c < spare ?M" using q(3) assms(8) by (simp add: replaced_def spare_def)
      have "length c \<le> unat (m_pages m)" using context_depth h(7,8) by simp
      then show "2 * length c < 2 * unat (m_pages (grown m)) + 4" using q(4) by (simp add: word_le_nat_alt)
      show "m_roots ?M h = t_page (plug c (Leaf p es))"
        using assms(4) plug_page [of "Leaf p es" "Leaf p (es @ fs)" c] by (simp add: replaced_def)
    qed
    then show ?thesis unfolding t_page.simps
    proof (rule wp_mono)
      fix u' :: "'a btrees_scheme"
      assume pl: "placed base (Suc (length c)) h (reach P m) ?M (plug2 c (Leaf p es) (le_key (hd fs)) (Leaf ?q fs)) u'"
      show "placed base (Suc (Suc (length c))) h P m (plug2 c (Leaf p es) (le_key (hd fs)) (Leaf ?q fs)) u'"
        using placed_step [OF pl tm(1), of _ "Suc 0"] q(3) by (simp add: replaced_def spare_def)
    qed simp
  qed
  then show ?thesis using wp by blast
qed

section \<open>The new entry in its leaf\<close>

lemma roots_of_pool:
  fixes s :: "'a btrees_scheme"
  assumes "holds base m s" "calm m" "tree_in m t" "m_roots m h = t_page t"
  shows "tree_at s h t"
proof -
  note h = holdsD [OF assms(1)]
  have p: "\<forall>p \<in> set (t_pages t). p < m_pages m" using assms(3) by (simp add: tree_in_def)
  then have v: "\<forall>p \<in> set (t_pages t). view s p = m_view m p" using h(4) by blast
  have "t_rep (view s) t" using rep_cong(1) [OF held_rep(1)] assms(3) v by (auto simp: tree_in_def)
  moreover have "\<forall>(p, es) \<in> set (t_leaves t). view s p = m_view m p" using v leaves_pages(1) [of t] by force
  then have "chained (view s) (t_leaves t)" using chained_cong [of "m_view m"] assms(3) by (simp add: tree_in_def)
  moreover have "t_ord t None None" using sorted_ord(1) assms(3) by (simp add: tree_in_def)
  moreover have "pins s q = 0" for q using h(7) assms(2) by (simp add: calm_def)
  ultimately show ?thesis using h(1,2,3,6) p assms(3,4) by (simp add: tree_at_def tree_ok_def pool_calm_def tree_in_def)
qed

lemma reads_holds:
  fixes s u :: "'a btrees_scheme"
  assumes "holds base m s" "calm m" "reads (view s) (total_pages s) s u"
  shows "holds base m u"
proof -
  note h = holdsD [OF assms(1)]
  have r: "pool_inv u" "io u = []" "\<forall>q. pins u q = 0" "same_view s u" "pool.more u = pool.more s"
    using assms(3) by (auto simp: reads_def readable_def pool_calm_def same_view_def)
  have "free_list u (m_free m)" using free_list_kept [OF h(5) r(4)] roots_kept(3) [OF r(5)] by simp
  moreover have "log_kept base u" using log_kept_step [OF assms(1) r(5)] r(4) h(3) by (simp add: same_view_def)
  ultimately show ?thesis
    using h r assms(2) roots_kept [OF r(5)] by (auto simp: holds_def calm_def same_view_def fun_eq_iff)
qed

lemma wp_find_leaf_mem:
  fixes s :: "'a btrees_scheme"
  assumes "holds base m s" "calm m" "tree_in m t" "m_roots m h = t_page t"
  shows "wp (find_leaf_page h x) (\<lambda>r u. r = t_find x t \<and> holds base m u) (\<lambda>_ _. False) s"
  by (rule wp_mono [OF wp_find_leaf [OF roots_of_pool [OF assms]]]) (use reads_holds [OF assms(1,2)] in auto)

text \<open>The entries of a leaf before and behind a key that is not among them.\<close>

lemma leaf_cut:
  assumes "sorted_entries es" "clean_key x" "\<forall>e \<in> set es. \<not> key_eq (le_key e) x"
  obtains A B where "es = A @ B" "\<forall>a \<in> set A. key_lt (le_key a) x" "\<forall>b \<in> set B. key_lt x (le_key b)"
proof -
  have "\<exists>A B. es = A @ B \<and> (\<forall>a \<in> set A. key_lt (le_key a) x) \<and> (\<forall>b \<in> set B. key_lt x (le_key b))"
    using assms(1,3)
  proof (induction es)
    case (Cons e es)
    then have c: "clean_key (le_key e)" "sorted_entries es" "\<forall>a \<in> set es. key_lt (le_key e) (le_key a)" "\<forall>a \<in> set es. clean_key (le_key a)"
      by (auto simp: sorted_entries_Cons sorted_entries_def)
    show ?case
    proof (cases "key_lt (le_key e) x")
      case True
      obtain A B where "es = A @ B" "\<forall>a \<in> set A. key_lt (le_key a) x" "\<forall>b \<in> set B. key_lt x (le_key b)"
        using Cons c(2) by auto
      then show ?thesis using True by (intro exI [of _ "e # A"] exI [of _ B]) simp
    next
      case False
      then have "key_lt x (le_key e)" using Cons.prems(2) c(1) assms(2) ko.lt_iff [of x "le_key e"] ko.eq_sym [of x "le_key e"] by auto
      then have "\<forall>b \<in> set (e # es). key_lt x (le_key b)" using c assms(2) ko.lt_trans [of x "le_key e"] by auto
      then show ?thesis by (intro exI [of _ "[]"] exI [of _ "e # es"]) simp
    qed
  qed simp
  then show ?thesis using that by blast
qed

text \<open>The entries of a leaf replaced by others, in an edit that is logged.\<close>

lemma wp_leaf_edit:
  fixes s :: "'a btrees_scheme"
  assumes "holds base m s" "calm m" "tree_in m (plug c (Leaf p es))" "t_sorted (plug c (Leaf p fs)) None None" "leaf_fits fs"
    "\<And>q. get_leaf_entries q = Inr es \<Longrightarrow> g q = set_leaf_entries fs q"
  shows "wp (edit_node (lb_txn base) p g) (\<lambda>_ u. \<exists>m'. holds base m' u \<and> calm m' \<and> m_roots m' = m_roots m \<and> touches {p} m m'
    \<and> spare m' = spare m \<and> tree_in m' (plug c (Leaf p fs))) (\<lambda>_ _. False) s"
proof -
  note h = tree_inD [OF assms(3)]
  have leaf: "leaf_held (m_view m) (ctx_parent c) p es" using h(2) by simp
  then have page: "length (m_view m p) = PAGE_SIZE" "is_leaf (m_view m p)" "get_leaf_entries (m_view m p) = Inr es"
    "parent_page (m_view m p) = ctx_parent c" by (simp_all add: leaf_held_def node_okD)
  have p: "p < m_pages m" "p \<notin> set (m_free m)" using h(8) [of p] by simp_all
  obtain q where q: "set_leaf_entries fs (m_view m p) = Inr q" "length q = PAGE_SIZE"
    "next_leaf q = next_leaf (m_view m p)" "\<forall>v x. v x = q \<longrightarrow> leaf_held v (ctx_parent c) x fs"
    using leaf_page [OF page(1,2) assms(5)] unfolding page(4) by (elim exE conjE)
  have edit: "g (m_view m p) = Inr q" using assms(6) [OF page(3)] q(1) by simp
  let ?m = "changed p q m"
  have "wp (edit_node (lb_txn base) p g) (\<lambda>_. holds base ?m) (\<lambda>_ _. False) s"
    by (rule wp_edit_node_mem [where g = g, OF assms(1) calm_steady [OF assms(2)] p(1) _ p(2) edit q(2)]) (use assms(2) in \<open>simp add: calm_def\<close>)
  moreover have "calm ?m" "m_roots ?m = m_roots m" "touches {p} m ?m" "spare ?m = spare m"
    using assms(2) by (simp_all add: calm_def changed_def touches_def spare_def)
  moreover have "tree_in ?m (plug c (Leaf p fs))"
    unfolding tree_in_def
  proof (intro conjI)
    have "\<forall>x \<in> set (ctx_pages c). m_view ?m x = m_view m x" using h(7) by (auto simp: changed_def)
    then have "ctx_held (m_view ?m) c p" using ctx_held_cong h(1) by simp
    then show "t_held (m_view ?m) INVALID_PAGE (plug c (Leaf p fs))" using q(4) by (simp add: plug_held changed_def)
    show "t_fit (plug c (Leaf p fs))" using h(3) assms(5) by (simp add: plug_fit)
    show "t_sorted (plug c (Leaf p fs)) None None" by (rule assms(4))
    have "chained (m_view m) (ctx_before c @ (p, es) # ctx_after c)" using h(6) by (simp add: plug_leaves)
    then have "chained (m_view ?m) (ctx_before c @ (p, fs) # ctx_after c)"
      by (rule chained_other) (use q(3) in \<open>simp add: changed_def\<close>)
    then show "chained (m_view ?m) (t_leaves (plug c (Leaf p fs)))" by (simp add: plug_leaves)
    show "distinct (t_pages (plug c (Leaf p fs)) @ m_free ?m)" "\<forall>x \<in> set (t_pages (plug c (Leaf p fs))). x < m_pages ?m"
      using h(7,8) by (auto simp: plug_distinct plug_page_set changed_def)
  qed
  ultimately show ?thesis by (auto elim: wp_mono)
qed

lemma wp_leaf_insert:
  fixes s :: "'a btrees_scheme"
  assumes "holds base m s" "calm m" "tree_in m (plug c (Leaf p (A @ B)))" "on_path x c" "clean_key x"
    "\<forall>a \<in> set A. key_lt (le_key a) x" "\<forall>b \<in> set B. key_lt x (le_key b)" "leaf_fits (A @ \<lparr>le_key = x, le_value = y\<rparr> # B)"
  shows "wp (insert_into_leaf (lb_txn base) p x y) (\<lambda>_ u. \<exists>m'. holds base m' u \<and> calm m' \<and> m_roots m' = m_roots m \<and> touches {p} m m' \<and> spare m' = spare m
    \<and> tree_in m' (plug c (Leaf p (A @ \<lparr>le_key = x, le_value = y\<rparr> # B)))) (\<lambda>_ _. False) s"
proof -
  let ?e = "\<lparr>le_key = x, le_value = y\<rparr>" and ?lt = "\<lambda>a b. key_lt (le_key a) (le_key b)"
  obtain lo hi where srt: "sorted_entries (A @ B)" using plug_sorted_at [OF tree_inD(5) [OF assms(3)]] by auto
  then have cl: "\<forall>a \<in> set (A @ B). clean_key (le_key a)" by (simp add: sorted_entries_def)
  have not: "\<not> key_lt b a" if "key_lt a b" "clean_key a" "clean_key b" for a b using ko.lt_iff [of a b] that by auto
  have "sorted_wrt (\<lambda>a b. \<not> ?lt b a) (A @ B)"
    by (rule sorted_wrt_mono_rel [of _ ?lt]) (use srt cl not in \<open>auto simp: sorted_entries_def\<close>)
  then have sort: "sort_by ?lt ((A @ B) @ [?e]) = A @ ?e # B"
    using sort_by_between [of ?lt A B ?e] assms(5-7) cl not by auto
  have sorted: "t_sorted (plug c (Leaf p (A @ ?e # B))) None None"
  proof (rule path_sorted_mono [OF tree_inD(5) [OF assms(3)] assms(4)])
    fix lo hi assume "above lo x" "below hi x" "t_sorted (Leaf p (A @ B)) lo hi"
    then show "t_sorted (Leaf p (A @ ?e # B)) lo hi"
      using assms(5-7) by (auto simp: sorted_entries_append sorted_entries_Cons)
  qed
  show ?thesis
    unfolding insert_into_leaf_def
    by (rule wp_leaf_edit [where g = "\<lambda>p. sbind (get_leaf_entries p) (\<lambda>es. set_leaf_entries (sort_by ?lt (es @ [?e])) p)",
        OF assms(1-3) sorted assms(8)]) (use sort in simp)
qed

lemma distinct_leaves: "distinct (t_pages t) \<Longrightarrow> distinct (map fst (t_leaves t))" "distinct (s_pages s) \<Longrightarrow> distinct (map fst (s_leaves s))"
proof (induction t and s)
  case (Sep t k s)
  have "fst ` set (t_leaves t) \<inter> fst ` set (s_leaves s) = {}"
    using leaves_pages(1) [of t] leaves_pages(2) [of s] Sep.prems by auto
  then show ?case using Sep by simp
qed auto

lemma leaf_zipper:
  assumes "distinct (t_pages t)" "(t_find x t, es) \<in> set (t_leaves t)"
  obtains c where "t = plug c (Leaf (t_find x t) es)" "on_path x c"
proof -
  obtain c fs where c: "t = plug c (Leaf (t_find x t) fs)" "on_path x c" using find_zipper(1) by blast
  have "t_leaves t = ctx_before c @ (t_find x t, fs) # ctx_after c" using arg_cong [OF c(1), of t_leaves] by (simp add: plug_leaves)
  then have "(t_find x t, fs) \<in> set (t_leaves t)" by simp
  then have "fs = es" using distinct_leaves(1) [OF assms(1)] assms(2) eq_key_imp_eq_value by metis
  then show ?thesis using that c by blast
qed

lemma plug_height: "length c + t_height t \<le> t_height (plug c t)"
proof (induction c arbitrary: t)
  case (Cons f c)
  obtain p pre post where f: "f = Frame p pre post" by (cases f)
  have "t_height t \<le> s_height (hole_spine t post)" by (cases "(t, post)" rule: hole_spine.cases) simp_all
  moreover have "s_height s \<le> s_height (pre_spine pre s)" for s by (induction pre s rule: pre_spine.induct) auto
  ultimately have "Suc (t_height t) \<le> t_height (fill f t)" using le_trans by (fastforce simp: f)
  then show ?case using Cons.IH [of "fill f t"] by simp
qed simp

definition entry_size :: "leaf_entry \<Rightarrow> nat" where
  "entry_size e = length (leaf_cell e)"

definition inserted :: "log_base \<Rightarrow> nat \<Rightarrow> nat \<Rightarrow> u32 set \<Rightarrow> mem \<Rightarrow> leaf_entry list \<Rightarrow> leaf_entry \<Rightarrow> 'a btrees_scheme \<Rightarrow> bool" where
  "inserted base n h P m es e u \<longleftrightarrow> (\<exists>m' t' A B. holds base m' u \<and> updated h P m m' t' \<and> spare m \<le> spare m' + n \<and> es = A @ B \<and> t_entries t' = A @ e # B)"

lemma inserted_mono: "inserted base n h P m es e u \<Longrightarrow> n \<le> k \<Longrightarrow> inserted base k h P m es e u"
  unfolding inserted_def by (elim exE, rule_tac x = m' in exI, rule_tac x = t' in exI, rule_tac x = A in exI, rule_tac x = B in exI) simp

lemma wp_insert_found:
  fixes s :: "'a btrees_scheme"
  assumes "holds base m s" "calm m" "tree_in m t" "m_roots m h = t_page t" "clean_key x" "short_key x"
    "\<forall>e \<in> set (t_entries t). \<not> key_eq (le_key e) x" "(t_find x t, es) \<in> set (t_leaves t)"
    "leaf_bytes es + entry_size \<lparr>le_key = x, le_value = y\<rparr> \<le> capacity" "set (t_pages t) \<subseteq> P"
  shows "wp (insert_into_leaf (lb_txn base) (t_find x t) x y) (\<lambda>_. inserted base 0 h P m (t_entries t) \<lparr>le_key = x, le_value = y\<rparr>) (\<lambda>_ _. False) s"
proof -
  let ?e = "\<lparr>le_key = x, le_value = y\<rparr>" and ?p = "t_find x t"
  have "distinct (t_pages t)" using assms(3) by (simp add: tree_in_def)
  from leaf_zipper [OF this assms(8)] obtain c where c: "t = plug c (Leaf ?p es)" "on_path x c" .
  have ti: "tree_in m (plug c (Leaf ?p es))" using assms(3) c(1) by simp
  note h = tree_inD [OF ti]
  have srt: "sorted_entries es" using plug_sorted_at [OF h(5)] by auto
  have leaves: "t_leaves t = ctx_before c @ (?p, es) # ctx_after c" using arg_cong [OF c(1), of t_leaves] by (simp add: plug_leaves)
  then have ent: "t_entries t = concat (map snd (ctx_before c)) @ es @ concat (map snd (ctx_after c))"
    unfolding leaves_entries(1) [symmetric] by simp
  have new: "\<forall>e \<in> set es. \<not> key_eq (le_key e) x" using assms(7) ent by simp
  from leaf_cut [OF srt assms(5) new] obtain A B where
    ab: "es = A @ B" "\<forall>a \<in> set A. key_lt (le_key a) x" "\<forall>b \<in> set B. key_lt x (le_key b)" .
  have "length y < 2 ^ 32" using assms(9) by (simp add: entry_size_def leaf_cell_def capacity_def PAGE_SIZE_def NODE_HEADER_SIZE_def)
  then have fits: "leaf_fits (A @ ?e # B)"
    using h(4) assms(6,9) unfolding ab(1)
    by (auto simp: leaf_fits_def leaf_bytes_sum entry_size_def leaf_entry_fits_def short_key_def)
  have t': "t_entries (plug c (Leaf ?p (A @ ?e # B))) = (concat (map snd (ctx_before c)) @ A) @ ?e # (B @ concat (map snd (ctx_after c)))"
    unfolding leaves_entries(1) [symmetric] plug_leaves by simp
  have pg: "set (t_pages (plug c (Leaf ?p (A @ ?e # B)))) = set (t_pages t)" "?p \<in> set (t_pages t)"
    using arg_cong [OF c(1), of t_pages] by (simp_all add: plug_page_set)
  have root: "t_page (plug c (Leaf ?p (A @ ?e # B))) = t_page t"
    using arg_cong [OF c(1), of t_page] plug_page [of "Leaf ?p es" "Leaf ?p (A @ ?e # B)" c] by simp
  show ?thesis
  proof (rule wp_mono [OF wp_leaf_insert [where c = c and p = ?p and A = A and B = B and y = y, OF assms(1,2)]], goal_cases)
    case (7 _ u)
    then obtain m' where m': "holds base m' u" "calm m'" "m_roots m' = m_roots m" "touches {?p} m m'"
      "tree_in m' (plug c (Leaf ?p (A @ ?e # B)))" "spare m' = spare m" by blast
    have "updated h P m m' (plug c (Leaf ?p (A @ ?e # B)))"
      using m'(2-5) assms(4,10) root pg touches_mono [OF m'(4), of P] by (auto simp: updated_def reach_def)
    then show ?case
      unfolding inserted_def using m'(1,6) t' ent ab(1)
      by (intro exI [of _ m'] exI [of _ "plug c (Leaf ?p (A @ ?e # B))"] exI [of _ "concat (map snd (ctx_before c)) @ A"]
          exI [of _ "B @ concat (map snd (ctx_after c))"]) simp
  qed (use ti ab c(2) assms(5) fits in simp_all)
qed

lemma entry_size_word:
  assumes "entry_size \<lparr>le_key = x, le_value = y\<rparr> \<le> capacity"
  shows "unat (leaf_entry_size x y) = entry_size \<lparr>le_key = x, le_value = y\<rparr>"
proof -
  have "entry_size \<lparr>le_key = x, le_value = y\<rparr> = length (key_encode x) + 4 + length y" by (simp add: entry_size_def leaf_cell_def)
  moreover have "leaf_entry_size x y = word_of_nat (length (key_encode x) + 4 + length y)" by (simp add: leaf_entry_size_def)
  moreover have "length (key_encode x) + 4 + length y < 2 ^ 32"
    using assms calculation(1) by (simp add: capacity_def PAGE_SIZE_def NODE_HEADER_SIZE_def)
  ultimately show ?thesis by (simp only: unat_of_nat) (simp add: take_bit_nat_eq_self)
qed

text \<open>
  There is room for the entry in its leaf, or in either half of it: the code splits by the number
  of entries and does not look at the space again.
\<close>

definition room_for :: "leaf_entry \<Rightarrow> leaf_entry list \<Rightarrow> bool" where
  "room_for e es \<longleftrightarrow> leaf_bytes es + entry_size e \<le> capacity
     \<or> 2 \<le> length es \<and> leaf_bytes (take (length es div 2) es) + entry_size e \<le> capacity
       \<and> leaf_bytes (drop (length es div 2) es) + entry_size e \<le> capacity"

lemma wp_insert_split:
  fixes s :: "'a btrees_scheme"
  assumes "holds base m s" "calm m" "tree_in m t" "m_roots m h = t_page t" "clean_key x" "short_key x"
    "\<forall>e \<in> set (t_entries t). \<not> key_eq (le_key e) x" "(t_find x t, es @ fs) \<in> set (t_leaves t)"
    "length (es @ fs) div 2 = length es" "es \<noteq> []" "fs \<noteq> []" "Suc (t_height t) < spare m"
    "leaf_bytes es + entry_size \<lparr>le_key = x, le_value = y\<rparr> \<le> capacity"
    "leaf_bytes fs + entry_size \<lparr>le_key = x, le_value = y\<rparr> \<le> capacity"
  shows "wp (bind (andthen (split_leaf h (lb_txn base) (t_find x t)) (find_leaf_page h x)) (\<lambda>leaf. insert_into_leaf (lb_txn base) leaf x y))
    (\<lambda>_. inserted base (t_height t + 2) h (set (t_pages t)) m (t_entries t) \<lparr>le_key = x, le_value = y\<rparr>) (\<lambda>_ _. False) s"
proof -
  let ?p = "t_find x t" and ?P = "set (t_pages t)" and ?e = "\<lparr>le_key = x, le_value = y\<rparr>"
  have "distinct (t_pages t)" using assms(3) by (simp add: tree_in_def)
  from leaf_zipper [OF this assms(8)] obtain c where c: "t = plug c (Leaf ?p (es @ fs))" "on_path x c" .
  have ti: "tree_in m (plug c (Leaf ?p (es @ fs)))" "m_roots m h = t_page (plug c (Leaf ?p (es @ fs)))"
    using assms(3,4) c(1) by simp_all
  have depth: "Suc (length c) < spare m"
    using plug_height [of c "Leaf ?p (es @ fs)"] arg_cong [OF c(1), of t_height] assms(12) by simp
  have pages: "set (?p # ctx_pages c) \<subseteq> ?P" using arg_cong [OF c(1), of t_pages] by (simp add: plug_page_set)
  let ?T = "plug2 c (Leaf ?p es) (le_key (hd fs)) (Leaf (next_page m) fs)"
  have ent: "t_entries ?T = t_entries t"
    using arg_cong [OF c(1), of t_entries] unfolding leaves_entries(1) [symmetric] plug_leaves plug2_leaves by simp
  show ?thesis
  proof (rule wp_bindI, rule wp_andthenI, rule wp_mono [OF wp_split_leaf [OF assms(1,2) ti assms(9-11) depth pages]])
    fix u :: "'a btrees_scheme" assume "placed base (Suc (Suc (length c))) h ?P m ?T u"
    then obtain m1 t1 where t1: "holds base m1 u" "updated h ?P m m1 t1" "t_leaves t1 = t_leaves ?T"
      "\<forall>y. clean_key y \<longrightarrow> t_find y t1 = t_find y ?T" "spare m \<le> spare m1 + Suc (Suc (length c))" by (auto simp: placed_def)
    have m1: "calm m1" "tree_in m1 t1" "m_roots m1 h = t_page t1" "touches ?P m m1" "set (t_pages t1) \<subseteq> reach ?P m"
      using t1(2) by (auto simp: updated_def)
    have ent1: "t_entries t1 = t_entries t" using t1(3) ent unfolding leaves_entries(1) [symmetric] by simp
    have "t_find x t1 = (if key_lt x (le_key (hd fs)) then ?p else next_page m)"
      using t1(4) assms(5) path_find(2) [OF c(2)] by simp
    then obtain hs where hs: "(t_find x t1, hs) \<in> set (t_leaves t1)" "hs = es \<or> hs = fs"
      unfolding t1(3) plug2_leaves by (cases "key_lt x (le_key (hd fs))") auto
    show "wp (find_leaf_page h x) (\<lambda>leaf. wp (insert_into_leaf (lb_txn base) leaf x y) (\<lambda>_. inserted base (t_height t + 2) h ?P m (t_entries t) ?e) (\<lambda>_ _. False))
      (\<lambda>_ _. False) u"
    proof (rule wp_mono [OF wp_find_leaf_mem [OF t1(1) m1(1-3)]], elim conjE)
      fix r and w :: "'a btrees_scheme" assume r: "r = t_find x t1" and w: "holds base m1 w"
      have "wp (insert_into_leaf (lb_txn base) (t_find x t1) x y) (\<lambda>_. inserted base 0 h (reach ?P m) m1 (t_entries t1) ?e) (\<lambda>_ _. False) w"
        by (rule wp_insert_found [OF w m1(1-3) assms(5,6) _ hs(1)]) (use assms(7,13,14) hs(2) ent1 m1(5) in auto)
      then show "wp (insert_into_leaf (lb_txn base) r x y) (\<lambda>_. inserted base (t_height t + 2) h ?P m (t_entries t) ?e) (\<lambda>_ _. False) w"
        unfolding r
      proof (rule wp_mono)
        fix z :: "'a btrees_scheme" assume "inserted base 0 h (reach ?P m) m1 (t_entries t1) ?e z"
        then obtain m' t' A B where z: "holds base m' z" "updated h (reach ?P m) m1 m' t'" "spare m1 \<le> spare m'" "t_entries t1 = A @ B" "t_entries t' = A @ ?e # B"
          by (auto simp: inserted_def)
        have "m_roots m1 = (m_roots m)(h := t_page t1)" using t1(2) by (simp add: updated_def)
        then have "updated h ?P m m' t'"
          using z(2) touches_trans [OF m1(4)] reach_mono [OF m1(4) subset_refl] by (auto simp: updated_def)
        moreover have "spare m \<le> spare m' + (t_height t + 2)"
          using t1(5) z(3) plug_height [of c "Leaf ?p (es @ fs)"] arg_cong [OF c(1), of t_height] by simp
        ultimately show "inserted base (t_height t + 2) h ?P m (t_entries t) ?e z" unfolding inserted_def using z ent1 by auto
      qed simp
    qed simp
  qed simp
qed

lemma wp_btree_insert:
  fixes s :: "'a btrees_scheme"
  assumes "holds base m s" "calm m" "tree_in m t" "m_roots m h = t_page t" "clean_key x" "short_key x"
    "\<forall>e \<in> set (t_entries t). \<not> key_eq (le_key e) x" "(t_find x t, es) \<in> set (t_leaves t)"
    "room_for \<lparr>le_key = x, le_value = y\<rparr> es" "Suc (t_height t) < spare m"
  shows "wp (btree_insert h (lb_txn base) x y) (\<lambda>_. inserted base (t_height t + 2) h (set (t_pages t)) m (t_entries t) \<lparr>le_key = x, le_value = y\<rparr>) (\<lambda>_ _. False) s"
proof -
  let ?p = "t_find x t" and ?e = "\<lparr>le_key = x, le_value = y\<rparr>"
  have "distinct (t_pages t)" using assms(3) by (simp add: tree_in_def)
  from leaf_zipper [OF this assms(8)] obtain c where c: "t = plug c (Leaf ?p es)" "on_path x c" .
  have ti: "tree_in m (plug c (Leaf ?p es))" using assms(3) c(1) by simp
  note h = tree_inD [OF ti]
  have p: "?p < m_pages m" using h(8) [of ?p] by simp
  have leaf: "node_ok (m_view m ?p)" "get_leaf_entries (m_view m ?p) = Inr es" "unat (free_space_ptr (m_view m ?p)) = PAGE_SIZE - leaf_bytes es"
    "leaf_fits es" using h(2,4) by (simp_all add: leaf_held_def)
  have "set es \<subseteq> set (t_entries t)" using assms(8) unfolding leaves_entries(1) [symmetric] by force
  then have "find (\<lambda>e. key_eq (le_key e) x) es = None" using assms(7) by (auto simp: find_None_iff)
  then have none: "find_in_leaf x (m_view m ?p) = Inr None" using leaf(2) by (simp add: find_in_leaf_def)
  have size: "unat (leaf_entry_size x y) = entry_size ?e" using assms(9) by (intro entry_size_word) (auto simp: room_for_def)
  have avail: "unat (available_space (m_view m ?p)) = capacity - leaf_bytes es"
    using available_space_ok [OF leaf(1)] leaf(3) by (simp add: capacity_def)
  have over: "leaf_entry_size x y > available_space (m_view m ?p) \<longleftrightarrow> capacity < leaf_bytes es + entry_size ?e"
    using size avail leaf(4) by (auto simp: word_less_nat_alt leaf_fits_def)
  let ?g = "\<lambda>p. sbind (find_in_leaf x p) (\<lambda>ex. Inr (ex, leaf_entry_size x y > available_space p))"
  let ?o = "capacity < leaf_bytes es + entry_size ?e"
  have g: "?g (m_view m ?p) = Inr (None, ?o)" using none over by simp
  show ?thesis
    unfolding btree_insert_def
  proof (rule wp_bindI, rule wp_mono [OF wp_find_leaf_mem [OF assms(1-4)]], elim conjE)
    fix r and u :: "'a btrees_scheme" assume r: "r = ?p" and u: "holds base m u"
    have go: "wp (bind (if ?o then andthen (split_leaf h (lb_txn base) ?p) (find_leaf_page h x) else ret ?p) (\<lambda>leaf. insert_into_leaf (lb_txn base) leaf x y))
      (\<lambda>_. inserted base (t_height t + 2) h (set (t_pages t)) m (t_entries t) ?e) (\<lambda>_ _. False) w" if w: "holds base m w" for w :: "'a btrees_scheme"
    proof (cases ?o)
      case True
      let ?n = "length es div 2"
      have n: "2 \<le> length es" "leaf_bytes (take ?n es) + entry_size ?e \<le> capacity" "leaf_bytes (drop ?n es) + entry_size ?e \<le> capacity"
        using assms(9) True by (auto simp: room_for_def)
      have "wp (bind (andthen (split_leaf h (lb_txn base) ?p) (find_leaf_page h x)) (\<lambda>leaf. insert_into_leaf (lb_txn base) leaf x y))
        (\<lambda>_. inserted base (t_height t + 2) h (set (t_pages t)) m (t_entries t) ?e) (\<lambda>_ _. False) w"
        by (rule wp_insert_split [where es = "take ?n es" and fs = "drop ?n es", OF w assms(2-7)])
          (use assms(8,10) n in \<open>auto simp: min_def\<close>)
      then show ?thesis unfolding if_P [OF True] .
    next
      case False
      show ?thesis unfolding if_not_P [OF False]
        by (rule then_ret, rule wp_mono [OF wp_insert_found [OF w assms(2-8)]]) (use False in \<open>auto elim: inserted_mono\<close>)
    qed
    show "wp (bind (read_node r ?g) (\<lambda>(existing, would_overflow).
        if existing \<noteq> None then throw (Runtime_error (''BTree::insert: duplicate key '' @ key_to_string x))
        else bind (if would_overflow then andthen (split_leaf h (lb_txn base) r) (find_leaf_page h x) else ret r)
          (\<lambda>leaf. insert_into_leaf (lb_txn base) leaf x y)))
      (\<lambda>_. inserted base (t_height t + 2) h (set (t_pages t)) m (t_entries t) ?e) (\<lambda>_ _. False) u"
      unfolding r
    proof (rule then_read_node [where g = ?g, OF u calm_steady [OF assms(2)] p _ g])
      show "?p \<notin> m_pins m" using assms(2) by (simp add: calm_def)
    qed (use go in simp)
  qed simp
qed

section \<open>A sample state\<close>

text \<open>A tree of one leaf, in which two large entries leave no room for a third one.\<close>

definition big_entry :: "nat \<Rightarrow> leaf_entry" where
  "big_entry n = \<lparr>le_key = [IntV (word_of_nat n)], le_value = replicate 1900 (word_of_nat n)\<rparr>"

definition full_leaf :: page where
  "full_leaf = (case set_leaf_entries [big_entry 1, big_entry 3] (init_node LEAF) of Inr q \<Rightarrow> q | _ \<Rightarrow> zero_page)"

definition full_leaf_state :: btrees where
  "full_leaf_state = pages_btrees [zero_page, full_leaf] 1"

definition full_leaf_mem :: mem where
  "full_leaf_mem = \<lparr>m_view = view full_leaf_state, m_pages = 2, m_free = [], m_roots = (\<lambda>_. 1), m_pins = {}, m_late = {}, m_slots = []\<rparr>"

definition full_leaf_base :: log_base where
  "full_leaf_base = \<lparr>lb_txn = 1, lb_log = [], lb_pages = view full_leaf_state\<rparr>"

lemma full_leaf_txn: "lb_txn full_leaf_base = 1"
  by (simp add: full_leaf_base_def)

lemma big_entry_size: "entry_size (big_entry n) = 1911"
  by (simp add: entry_size_def leaf_cell_def big_entry_def key_encode_def)

lemma full_leaf_facts:
  "leaf_fits [big_entry 1, big_entry 3]" "leaf_held (\<lambda>_. full_leaf) INVALID_PAGE p [big_entry 1, big_entry 3]" "next_leaf full_leaf = INVALID_PAGE"
  "length full_leaf = PAGE_SIZE"
proof -
  let ?es = "[big_entry 1, big_entry 3]"
  show fit: "leaf_fits ?es"
    using big_entry_size [of 1] big_entry_size [of 3]
    by (simp add: leaf_fits_def leaf_bytes_sum entry_size_def [symmetric] capacity_def PAGE_SIZE_def NODE_HEADER_SIZE_def
        leaf_entry_fits_def short_key_def key_fits_def value_fits_def key_encode_def big_entry_def)
  have ini: "length (init_node LEAF) = PAGE_SIZE" "is_leaf (init_node LEAF)" by (simp_all add: is_leaf_def)
  obtain q where q: "set_leaf_entries ?es (init_node LEAF) = Inr q" "length q = PAGE_SIZE" "next_leaf q = next_leaf (init_node LEAF)"
    "\<forall>v x. v x = q \<longrightarrow> leaf_held v (parent_page (init_node LEAF)) x ?es"
    using leaf_page [OF ini fit] by (elim exE conjE)
  then show "leaf_held (\<lambda>_. full_leaf) INVALID_PAGE p ?es" "next_leaf full_leaf = INVALID_PAGE" "length full_leaf = PAGE_SIZE"
    by (simp_all add: full_leaf_def)
qed

lemma full_leaf_holds:
  "holds full_leaf_base full_leaf_mem full_leaf_state" "calm full_leaf_mem"
  "tree_in full_leaf_mem (Leaf 1 [big_entry 1, big_entry 3])" "spare full_leaf_mem = unat INVALID_PAGE - 2"
proof -
  have len: "\<forall>p \<in> set [zero_page, full_leaf]. length p = PAGE_SIZE" "length [zero_page, full_leaf] < 2 ^ 32"
    using full_leaf_facts(4) by simp_all
  note ok = pages_btrees_ok [OF len, where r = 1, folded full_leaf_state_def]
  have v: "view full_leaf_state 1 = full_leaf" using ok(5) [where i = 1] by simp
  have n: "total_pages full_leaf_state = 2" using ok(3) by simp
  have r: "roots full_leaf_state = (\<lambda>_. 1)" using ok(4) by (simp add: fun_eq_iff)
  have fl: "free_list full_leaf_state []" "active_pages full_leaf_state = []" "wal_file full_leaf_state = []"
    "db_hdr full_leaf_state = fresh_header"
    by (simp_all add: free_list_def full_leaf_state_def pages_btrees_def hdr.defs wal.defs pool.defs fresh_header_def)
  have "log_kept full_leaf_base full_leaf_state"
    using fl by (auto simp: log_kept_def full_leaf_base_def logged_pages_def page_frames_def intro!: exI [of _ "[]"])
  then show "holds full_leaf_base full_leaf_mem full_leaf_state"
    using ok(1,2) n r fl by (auto simp: holds_def full_leaf_mem_def full_leaf_base_def pool_calm_def with_log_def)
  show "calm full_leaf_mem" by (simp add: calm_def full_leaf_mem_def)
  show "spare full_leaf_mem = unat INVALID_PAGE - 2" by (simp add: spare_def full_leaf_mem_def)
  have "leaf_held (m_view full_leaf_mem) INVALID_PAGE 1 [big_entry 1, big_entry 3]"
    using full_leaf_facts(2) [of 1] v by (simp add: leaf_held_def full_leaf_mem_def)
  then show "tree_in full_leaf_mem (Leaf 1 [big_entry 1, big_entry 3])"
    using full_leaf_facts(1,3) v
    by (simp add: tree_in_def full_leaf_mem_def sorted_entries_def big_entry_def clean_value_def)
qed

lemma sample_insert:
  "m_roots full_leaf_mem 0 = t_page (Leaf 1 [big_entry 1, big_entry 3])" "clean_key [IntV n]" "short_key [IntV n]"
  "\<forall>e \<in> set (t_entries (Leaf 1 [big_entry 1, big_entry 3])). \<not> key_eq (le_key e) [IntV 2]"
  "room_for \<lparr>le_key = [IntV 2], le_value = replicate 1900 2\<rparr> [big_entry 1, big_entry 3]"
  "Suc (t_height (Leaf 1 [big_entry 1, big_entry 3])) < spare full_leaf_mem"
proof -
  have e: "\<lparr>le_key = [IntV 2], le_value = replicate 1900 2\<rparr> = big_entry 2" by (simp add: big_entry_def)
  have "leaf_bytes [big_entry n] = 1911" for n using big_entry_size [of n] by (simp add: leaf_bytes_sum entry_size_def)
  then show "room_for \<lparr>le_key = [IntV 2], le_value = replicate 1900 2\<rparr> [big_entry 1, big_entry 3]"
    unfolding e by (simp add: room_for_def big_entry_size capacity_def PAGE_SIZE_def NODE_HEADER_SIZE_def numeral_2_eq_2)
  show "Suc (t_height (Leaf 1 [big_entry 1, big_entry 3])) < spare full_leaf_mem" by (simp add: full_leaf_holds(4) INVALID_PAGE_def)
qed (simp_all add: full_leaf_mem_def clean_value_def short_key_def key_fits_def value_fits_def key_encode_def big_entry_def)

lemma tree_in_sorted: "tree_in m t \<Longrightarrow> sorted_entries (t_entries t)"
  using ord_entries(1) [of t None None] sorted_ord(1) [of t None None] by (simp add: tree_in_def)

section \<open>Properties\<close>

text \<open>
  Property C7. Insertion into the tree is correct, in a tree of any height and with any number of
  splits up to a new root: it returns, the tree it leaves is well formed (ordered, linked through
  its leaves, with right parent pointers and free space), holds the old entries and the new one at
  its place, is found at the new root, and every page that is not the tree's and not free is as it
  was; all that was changed is in the log of the transaction. The hypotheses are the limits the code
  does not check: a short key, room in the leaf or in its halves, and pages left to allocate.
\<close>

theorem insert_correct:
  fixes s :: "'a btrees_scheme"
  assumes "holds base m s" "calm m" "tree_in m t" "m_roots m h = t_page t" "clean_key x" "short_key x"
    "\<forall>e \<in> set (t_entries t). \<not> key_eq (le_key e) x" "(t_find x t, es) \<in> set (t_leaves t)"
    "room_for \<lparr>le_key = x, le_value = y\<rparr> es" "Suc (t_height t) < spare m"
  shows "wp (btree_insert h (lb_txn base) x y) (\<lambda>_ u. \<exists>m' t' A B. holds base m' u \<and> calm m' \<and> tree_in m' t'
      \<and> m_roots m' = (m_roots m)(h := t_page t')
      \<and> (\<forall>q < m_pages m. q \<notin> set (t_pages t) \<longrightarrow> q \<notin> set (m_free m) \<longrightarrow> m_view m' q = m_view m q)
      \<and> t_entries t = A @ B \<and> t_entries t' = A @ \<lparr>le_key = x, le_value = y\<rparr> # B) (\<lambda>_ _. False) s"
proof (rule wp_mono [OF wp_btree_insert [OF assms]])
  fix u :: "'a btrees_scheme"
  assume "inserted base (t_height t + 2) h (set (t_pages t)) m (t_entries t) \<lparr>le_key = x, le_value = y\<rparr> u"
  then obtain m' t' A B where h: "holds base m' u" "updated h (set (t_pages t)) m m' t'" "t_entries t = A @ B"
    "t_entries t' = A @ \<lparr>le_key = x, le_value = y\<rparr> # B" by (auto simp: inserted_def)
  then show "\<exists>m' t' A B. holds base m' u \<and> calm m' \<and> tree_in m' t' \<and> m_roots m' = (m_roots m)(h := t_page t')
      \<and> (\<forall>q < m_pages m. q \<notin> set (t_pages t) \<longrightarrow> q \<notin> set (m_free m) \<longrightarrow> m_view m' q = m_view m q)
      \<and> t_entries t = A @ B \<and> t_entries t' = A @ \<lparr>le_key = x, le_value = y\<rparr> # B"
    by (intro exI [of _ m'] exI [of _ t'] exI [of _ A] exI [of _ B]) (auto simp: updated_def touches_def)
qed simp

theorem insert_correct_witness:
  "wp (btree_insert 0 1 [IntV 2] (replicate 1900 2)) (\<lambda>_ u. \<exists>m t. holds full_leaf_base m u \<and> tree_in m t
      \<and> m_roots m 0 = t_page t \<and> t_entries t = [big_entry 1, big_entry 2, big_entry 3]) (\<lambda>_ _. False) full_leaf_state"
proof (rule wp_mono [OF insert_correct [OF full_leaf_holds(1-3), of 0 "[IntV 2]" "[big_entry 1, big_entry 3]" "replicate 1900 2", unfolded full_leaf_txn]], goal_cases)
  case (8 _ u)
  then obtain m t A B where u: "holds full_leaf_base m u" "tree_in m t" "m_roots m 0 = t_page t"
    "[big_entry 1, big_entry 3] = A @ B" "t_entries t = A @ \<lparr>le_key = [IntV 2], le_value = replicate 1900 2\<rparr> # B" by auto
  have e: "\<lparr>le_key = [IntV 2], le_value = replicate 1900 2\<rparr> = big_entry 2" by (simp add: big_entry_def)
  have "sorted_entries (t_entries t)" by (rule tree_in_sorted [OF u(2)])
  then have "t_entries t = [big_entry 1, big_entry 2, big_entry 3]"
    using u(4) unfolding u(5) e
    by (auto simp: Cons_eq_append_conv sorted_entries_Cons sorted_entries_append big_entry_def)
  with u(1-3) show ?case by blast
qed (simp_all add: sample_insert sample_insert [simplified])

text \<open>
  Property C39. The tree is a map: after the insertion of a key a search for it finds its value,
  and a search for any other key finds what it found before.
\<close>

theorem insert_refines_map:
  fixes s :: "'a btrees_scheme"
  assumes "holds base m s" "calm m" "tree_in m t" "m_roots m h = t_page t" "clean_key x" "short_key x"
    "\<forall>e \<in> set (t_entries t). \<not> key_eq (le_key e) x" "(t_find x t, es) \<in> set (t_leaves t)"
    "room_for \<lparr>le_key = x, le_value = y\<rparr> es" "Suc (t_height t) < spare m" "clean_key z"
  shows "wp (andthen (btree_insert h (lb_txn base) x y) (btree_search h z)) (\<lambda>r _. \<forall>v. r = Some v \<longleftrightarrow>
      (if key_eq x z then v = y else \<exists>e \<in> set (t_entries t). key_eq (le_key e) z \<and> le_value e = v)) (\<lambda>_ _. False) s"
proof (rule wp_andthenI, rule wp_mono [OF wp_btree_insert [OF assms(1-10)]])
  fix u :: "'a btrees_scheme"
  assume "inserted base (t_height t + 2) h (set (t_pages t)) m (t_entries t) \<lparr>le_key = x, le_value = y\<rparr> u"
  then obtain m' t' A B where h: "holds base m' u" "updated h (set (t_pages t)) m m' t'" "t_entries t = A @ B"
    "t_entries t' = A @ \<lparr>le_key = x, le_value = y\<rparr> # B" by (auto simp: inserted_def)
  then have at: "tree_at u h t'" using roots_of_pool [OF h(1)] by (simp add: updated_def)
  have c: "clean_key (le_key e)" if "e \<in> set (t_entries t)" for e
    using tree_in_sorted [OF assms(3)] that by (simp add: sorted_entries_def)
  have no: "\<not> key_eq (le_key e) z" if "e \<in> set (t_entries t)" "key_eq x z" for e
    using ko.eq_trans [OF c [OF that(1)] assms(11,5)] ko.eq_sym [OF assms(5,11) that(2)] assms(7) that(1) by blast
  show "wp (btree_search h z) (\<lambda>r _. \<forall>v. r = Some v \<longleftrightarrow>
      (if key_eq x z then v = y else \<exists>e \<in> set (t_entries t). key_eq (le_key e) z \<and> le_value e = v)) (\<lambda>_ _. False) u"
    by (rule wp_mono [OF wp_btree_search [OF at assms(11)]]) (use h(3,4) no in auto)
qed simp

theorem insert_refines_map_witness:
  "wp (andthen (btree_insert 0 1 [IntV 2] (replicate 1900 2)) (btree_search 0 [IntV 2])) (\<lambda>r _. r = Some (replicate 1900 2))
      (\<lambda>_ _. False) full_leaf_state
   \<and> wp (andthen (btree_insert 0 1 [IntV 2] (replicate 1900 2)) (btree_search 0 [IntV 3])) (\<lambda>r _. r = Some (replicate 1900 3))
      (\<lambda>_ _. False) full_leaf_state"
proof (rule conjI, goal_cases)
  case 1
  show ?case
    by (rule wp_mono [OF insert_refines_map [OF full_leaf_holds(1-3), of 0 "[IntV 2]" "[big_entry 1, big_entry 3]" "replicate 1900 2" "[IntV 2]", unfolded full_leaf_txn]])
      (simp_all add: sample_insert sample_insert [simplified])
next
  case 2
  show ?case
    by (rule wp_mono [OF insert_refines_map [OF full_leaf_holds(1-3), of 0 "[IntV 2]" "[big_entry 1, big_entry 3]" "replicate 1900 2" "[IntV 3]", unfolded full_leaf_txn]])
      (simp_all add: sample_insert sample_insert [simplified], simp add: big_entry_def)
qed

end
