(* ===== verification/Tree_Crash.thy ===== *)
theory Tree_Crash
  imports Tree_Insert
begin

text \<open>
  The tree and the log together: an insertion that has returned survives a crash. Recovery on what
  is left of the files gives a well-formed tree with the old entries and the new one.
\<close>

section \<open>A transaction on a checkpointed database\<close>

text \<open>Nothing pinned, no transaction open; at a checkpoint the log is empty.\<close>

definition at_rest :: "mem \<Rightarrow> 'a btrees_scheme \<Rightarrow> bool" where
  "at_rest m s \<longleftrightarrow> calm m \<and> pool_inv s \<and> pool_calm s \<and> total_pages s = m_pages m \<and> (\<forall>q < m_pages m. view s q = m_view m q)
     \<and> free_list s (m_free m) \<and> roots s = m_roots m \<and> header_wf (db_hdr s)"

definition checkpointed :: "mem \<Rightarrow> 'a btrees_scheme \<Rightarrow> bool" where
  "checkpointed m s \<longleftrightarrow> at_rest m s \<and> wal_file s = [] \<and> wal_stable s = []"

text \<open>A page the file does not have yet has no content.\<close>

definition starting :: "'a btrees_scheme \<Rightarrow> log_base" where
  "starting s = \<lparr>lb_txn = next_transaction_id s, lb_log = wal_file s, lb_pages = (\<lambda>q. if q < total_pages s then view s q else [])\<rparr>"

definition begun :: "'a btrees_scheme \<Rightarrow> 'a btrees_scheme" where
  "begun s = s\<lparr>active_pages := [], next_transaction_id := next_transaction_id s + 1\<rparr>"

lemma begun_holds:
  fixes s :: "'a btrees_scheme"
  assumes "at_rest m s"
  shows "holds (starting s) m (begun s)"
proof -
  have p: "pool_inv (begun s) = pool_inv s" "view (begun s) = view s" "pins (begun s) = pins s"
    unfolding begun_def by (rule pool_state_cong; simp)+
  have "log_kept (starting s) (begun s)"
    using assms by (auto simp: at_rest_def log_kept_def starting_def begun_def logged_pages_def page_frames_def intro!: exI [of _ "[]"])
  then show ?thesis
    using assms p
    by (auto simp: at_rest_def holds_def starting_def begun_def pool_calm_def calm_def free_list_def with_log_def fun_eq_iff)
qed

text \<open>
  What a crash leaves: at least the durable part of the log, every page the transaction did not write, and the
  written pages in any state. The growth of the page file is not made durable by the commit: the file ends
  anywhere between its old length and its new one.
\<close>

definition after_crash :: "'a btrees_scheme \<Rightarrow> 'a btrees_scheme \<Rightarrow> u32 set \<Rightarrow> 'b wal_scheme \<Rightarrow> bool" where
  "after_crash s t written u \<longleftrightarrow> pool_inv u \<and> pool_calm u \<and> total_pages s \<le> total_pages u \<and> total_pages u \<le> total_pages t
     \<and> prefix (wal_stable t) (wal_file u) \<and> prefix (wal_file u) (wal_file t)
     \<and> (\<forall>q < total_pages s. q \<notin> written \<longrightarrow> view u q = view s q)"

lemma tree_in_ok:
  assumes "tree_in m t" "\<forall>p \<in> set (t_pages t). v p = m_view m p"
  shows "tree_ok v (m_pages m) (t_page t) t"
proof -
  have "t_rep v t" using rep_cong(1) [OF held_rep(1)] assms by (auto simp: tree_in_def)
  moreover have "\<forall>(p, es) \<in> set (t_leaves t). v p = m_view m p" using assms(2) leaves_pages(1) [of t] by force
  then have "chained v (t_leaves t)" using chained_cong [of "m_view m"] assms(1) by (simp add: tree_in_def)
  moreover have "t_ord t None None" using sorted_ord(1) assms(1) by (simp add: tree_in_def)
  ultimately show ?thesis using assms(1) by (simp add: tree_ok_def tree_in_def)
qed

text \<open>The pages of the memory, from the log of the transaction over what a crash leaves.\<close>

lemma memory_recovered:
  fixes s :: "'a btrees_scheme"
  assumes "holds (starting s) m u" "calm m" "active_pages u = logged_pages ws" "length (m_view m q) = PAGE_SIZE"
    "q < m_pages m" "q \<noteq> HEADER_PAGE_ID" "\<And>q. q < total_pages s \<Longrightarrow> q \<notin> fst ` set ws \<Longrightarrow> v q = view s q"
  shows "overlay ws v q = m_view m q"
proof -
  have d: "distinct (map fst (logged_pages ws))" "overlay (logged_pages ws) c = overlay ws c" for c
    using active_after_writes(1,2) [of "[]" ws] by (simp_all add: logged_pages_def)
  have "m_view m q = with_log (starting s) u q" using holdsD(9) [OF assms(1)] assms(2,5,6) by (simp add: calm_def)
  also have "\<dots> = overlay (logged_pages ws) (lb_pages (starting s)) q"
    using overlay_distinct [OF d(1)] by (simp add: with_log_def assms(3))
  finally have m: "m_view m q = overlay ws (lb_pages (starting s)) q" by (simp add: d(2))
  show ?thesis
  proof (cases "q \<in> fst ` set ws")
    case True
    then show ?thesis unfolding m by (auto simp: overlay_lookup map_of_eq_None_iff split: option.split)
  next
    case False
    then have "m_view m q = (if q < total_pages s then view s q else [])" using m by (simp add: overlay_untouched starting_def)
    then show ?thesis using False assms(4,7) by (auto simp: overlay_untouched PAGE_SIZE_def split: if_splits)
  qed
qed

text \<open>
  The transaction is committed: its pages and its commit record are the durable end of the log, the pages
  are applied, and laid over what a crash leaves they give the memory again.
\<close>

definition sealed :: "'a btrees_scheme \<Rightarrow> mem \<Rightarrow> (u32 \<times> page) list \<Rightarrow> 'a btrees_scheme \<Rightarrow> bool" where
  "sealed s m ws w \<longleftrightarrow> at_rest (m\<lparr>m_view := (m_view m)(HEADER_PAGE_ID := view w HEADER_PAGE_ID)\<rparr>) w
     \<and> wal_file w = wal_file s @ log_bytes (page_frames (next_transaction_id s) ws @ [Commit (next_transaction_id s)])
     \<and> wal_stable w = wal_file w \<and> (\<forall>(pid, p) \<in> set ws. pid < m_pages m \<and> length p = PAGE_SIZE)
     \<and> (\<forall>q < m_pages m. view w q = overlay ws (m_view m) q)
     \<and> (\<forall>v q. q < m_pages m \<longrightarrow> q \<noteq> HEADER_PAGE_ID \<longrightarrow> (\<forall>x < total_pages s. x \<notin> fst ` set ws \<longrightarrow> v x = view s x)
          \<longrightarrow> overlay ws v q = m_view m q)"

lemma wp_commit_mem:
  fixes s u :: "'a btrees_scheme"
  assumes "holds (starting s) m u" "calm m"
  shows "wp (wal_commit (next_transaction_id s)) (\<lambda>_ w. \<exists>ws. sealed s m ws w) (\<lambda>_ _. False) u"
proof -
  let ?txn = "next_transaction_id s"
  note h = holdsD [OF assms(1)]
  obtain ws where ws: "wal_file u = wal_file s @ log_bytes (page_frames ?txn ws)" "active_pages u = logged_pages ws"
    "\<forall>(pid, p) \<in> set ws. pid < total_pages u \<and> length p = PAGE_SIZE" "header_wf (db_hdr u)"
    using h(10) by (auto simp: log_kept_def starting_def)
  have al: "\<forall>(pid, p) \<in> set (active_pages u). pid < total_pages u \<and> length p = PAGE_SIZE"
    using active_after_writes(3) [of "[]" ws] ws(2,3) by (auto simp: logged_pages_def)
  have calm: "pool_calm u" using h(2,7) assms(2) by (simp add: pool_calm_def calm_def)
  have recovered: "overlay ws v q = m_view m q"
    if "q < m_pages m" "q \<noteq> HEADER_PAGE_ID" "\<forall>x < total_pages s. x \<notin> fst ` set ws \<longrightarrow> v x = view s x" for v q
    by (rule memory_recovered [OF assms(1,2) ws(2) _ that(1,2)]) (use that view_length [OF h(1)] h(3,4) in auto)
  have "wp (wal_commit ?txn) (\<lambda>_. commit_done ?txn u) (\<lambda>e. commit_failed ?txn u) u"
    by (rule wp_wal_commit [OF h(1)]) (use al in auto)
  then show ?thesis
  proof (rule wp_mono)
    fix w assume w: "commit_done ?txn u w"
    have log: "wal_file w = wal_file s @ log_bytes (page_frames ?txn ws @ [Commit ?txn])" "wal_stable w = wal_file w"
      "total_pages w = m_pages m" "wal.more w = wal.more u" "pool_inv w" "pool_calm w"
      using w ws(1) h(3) calm by (simp_all add: commit_done_def pool_calm_def)
    have members: "roots w = m_roots m" "db_hdr w = db_hdr u"
      using log(4) h(6) by (cases u; cases w; simp add: wal.defs)+
    have view: "view w q = overlay ws (m_view m) q" if "q < m_pages m" for q
    proof -
      have "view w q = overlay ws (view u) q" using w ws(2) that h(3) active_after_writes(2) [of "[]" ws]
        by (simp add: commit_done_def logged_pages_def)
      also have "\<dots> = overlay ws (m_view m) q" by (rule overlay_local) (use h(4) that in simp)
      finally show ?thesis .
    qed
    have same: "view w q = m_view m q" if q: "q < m_pages m" "q \<noteq> HEADER_PAGE_ID" for q
    proof (cases "q \<in> fst ` set ws")
      case True
      then have "overlay ws (m_view m) q = overlay ws (view s) q" by (auto simp: overlay_lookup map_of_eq_None_iff split: option.split)
      then show ?thesis using recovered [OF q] view [OF q(1)] by simp
    qed (use view [OF q(1)] in \<open>simp add: overlay_untouched\<close>)
    have free: "\<forall>x \<in> set (m_free m). x < m_pages m \<and> x \<noteq> HEADER_PAGE_ID" using h(5) h(3) by (simp add: free_list_def)
    have "free_chain (view w) f (m_free m) = free_chain (view u) f (m_free m)" for f
      by (rule free_chain_cong) (use same free h(4) in auto)
    then have "free_list w (m_free m)" using h(3,5) log(3) members(2) by (simp add: free_list_def)
    then have "at_rest (m\<lparr>m_view := (m_view m)(HEADER_PAGE_ID := view w HEADER_PAGE_ID)\<rparr>) w"
      using log members ws(4) same assms(2) by (auto simp: at_rest_def calm_def)
    then have "sealed s m ws w" using log view ws(3) h(3) recovered by (simp add: sealed_def)
    then show "\<exists>ws. sealed s m ws w" by blast
  next
    fix e w assume "commit_failed ?txn u w"
    then show False using calm al by (auto simp: commit_failed_def)
  qed
qed

lemma sealed_is_crash:
  assumes "sealed s m ws w" "total_pages s \<le> m_pages m" "0 < m_pages m" "m_view m HEADER_PAGE_ID = view s HEADER_PAGE_ID"
  shows "after_crash s w (fst ` set ws) w"
proof -
  note S = assms(1) [unfolded sealed_def]
  have "view w q = view s q" if q: "q < total_pages s" "q \<notin> fst ` set ws" for q
  proof -
    have qm: "q < m_pages m" using q(1) assms(2) by simp
    have w: "view w q = m_view m q" using S qm q(2) by (simp add: overlay_untouched)
    show ?thesis
    proof (cases "q = HEADER_PAGE_ID")
      case False
      then have "overlay ws (view s) q = m_view m q" using S qm by simp
      then show ?thesis using w q(2) by (simp add: overlay_untouched)
    qed (use w assms(4) in simp)
  qed
  moreover have "at_rest (m\<lparr>m_view := (m_view m)(HEADER_PAGE_ID := view w HEADER_PAGE_ID)\<rparr>) w" by (rule conjunct1 [OF S])
  then have "pool_inv w" "pool_calm w" "total_pages s \<le> total_pages w" using assms(2) by (simp_all add: at_rest_def)
  moreover have "wal_stable w = wal_file w" using S by blast
  ultimately show ?thesis by (simp add: after_crash_def)
qed

text \<open>Every page the transaction added to the file is in its log.\<close>

lemma new_page_sealed:
  assumes "sealed s m ws w" "0 < total_pages s" "total_pages s \<le> q" "q < m_pages m"
  shows "q \<in> fst ` set ws"
proof (rule ccontr)
  let ?v = "\<lambda>x. if x < total_pages s then view s x else []"
  assume n: "q \<notin> fst ` set ws"
  note L = assms(1) [unfolded sealed_def]
  have S: "at_rest (m\<lparr>m_view := (m_view m)(HEADER_PAGE_ID := view w HEADER_PAGE_ID)\<rparr>) w" by (rule conjunct1 [OF L])
  have q: "q \<noteq> HEADER_PAGE_ID" using less_le_trans [OF assms(2,3)] unfolding HEADER_PAGE_ID_def by blast
  have "overlay ws ?v q = m_view m q"
    by (rule L [THEN conjunct2, THEN conjunct2, THEN conjunct2, THEN conjunct2, THEN conjunct2, THEN spec, THEN spec, THEN mp, THEN mp, THEN mp])
      (use assms(4) q in simp_all)
  then have "m_view m q = overlay ws ?v q" by simp
  also have "\<dots> = []" using n assms(3) by (simp add: overlay_untouched not_less)
  finally have "view w q = []" using S assms(4) q by (simp add: at_rest_def)
  moreover have "length (view w q) = PAGE_SIZE" by (rule view_length) (use S assms(4) in \<open>simp_all add: at_rest_def\<close>)
  ultimately show False by (simp add: PAGE_SIZE_def)
qed

lemma wp_recover_sealed:
  assumes "sealed s m ws w" "wal_file s = []" "after_crash s w (fst ` set ws) z" "0 < total_pages s"
  shows "wp wal_recover (\<lambda>_ v. total_pages z = total_pages w \<and> total_pages v = m_pages m
        \<and> (\<forall>q < m_pages m. q \<noteq> HEADER_PAGE_ID \<longrightarrow> view v q = m_view m q))
      (\<lambda>_ v. total_pages z < total_pages w \<and> wal_file v = wal_file z) z"
proof -
  let ?txn = "next_transaction_id s"
  let ?fs = "page_frames ?txn ws @ [Commit ?txn]"
  note S = assms(1) [unfolded sealed_def] and z = assms(3) [unfolded after_crash_def]
  have rep: "replayed ?fs = ws" by (simp add: replayed_def committed_append txn_writes_append)
  have ok: "\<forall>f \<in> set ?fs. frame_ok f" using frames_of_pages_ok [of ws ?txn] S by auto
  have zf: "wal_file z = log_bytes ?fs @ []" using z S assms(2) by (auto simp: prefix_order.antisym)
  have wn: "total_pages w = m_pages m" using S by (simp add: at_rest_def)
  show ?thesis
  proof (cases "total_pages z = m_pages m")
    case zn: True
    have small: "\<forall>(pid, p) \<in> set (replayed ?fs). pid < total_pages z" using S zn by (auto simp: rep)
    have "wp wal_recover (\<lambda>_. recovered ?fs z) (\<lambda>_ _. False) z"
      by (rule wp_wal_recover [OF _ _ zf torn_tail_Nil ok small]) (use z in simp_all)
    then show ?thesis
      by (rule wp_mono) (use S z zn wn in \<open>auto simp: recovered_def rep\<close>)
  next
    case False
    then have less: "total_pages z < m_pages m" using z wn by (metis order.not_eq_order_implies_strict)
    then obtain p where p: "(total_pages z, p) \<in> set (replayed ?fs)"
      using new_page_sealed [OF assms(1,4) _ less] z by (auto simp: rep)
    have "\<exists>e v. wal_recover z = (Inl e, v) \<and> wal_file v = wal_file z"
      by (rule recovery_blocked_by_lost_growth [OF _ _ zf torn_tail_Nil ok p]) (use z in simp_all)
    then show ?thesis using less wn by (auto simp: wp_def)
  qed
qed

lemma header_not_in_tree:
  assumes "holds base m s" "HEADER_PAGE_ID \<notin> set (t_pages t)" "set (t_pages t') \<subseteq> reach (set (t_pages t)) m" "0 < m_pages m"
  shows "HEADER_PAGE_ID \<notin> set (t_pages t')"
  using assms(2-4) holdsD(5) [OF assms(1)] by (auto simp: reach_def free_list_def HEADER_PAGE_ID_def)

lemma header_kept:
  fixes s :: "'a btrees_scheme"
  assumes "at_rest m s" "HEADER_PAGE_ID \<notin> set (t_pages t)" "0 < m_pages m" "updated h (set (t_pages t)) m m' t'"
  shows "m_view m' HEADER_PAGE_ID = view s HEADER_PAGE_ID" "0 < m_pages m'"
proof -
  have "HEADER_PAGE_ID < m_pages m" "HEADER_PAGE_ID \<notin> set (m_free m)"
    using assms(1,3) by (auto simp: HEADER_PAGE_ID_def at_rest_def free_list_def)
  then show "m_view m' HEADER_PAGE_ID = view s HEADER_PAGE_ID" "0 < m_pages m'"
    using assms(1,2,4) less_le_trans [OF assms(3)] by (auto simp: updated_def touches_def at_rest_def)
qed

section \<open>Properties\<close>

text \<open>
  An insertion survives a crash. From a checkpointed database, when the insertion has
  returned and its transaction is committed, let the process stop, and let the pages the transaction wrote be in
  any state on file. If the page file has kept its new length, recovery from the log returns, and the pages hold
  a well-formed tree at the root the insertion left, with the old entries and the new one; if the file has lost
  some of its growth, recovery throws and leaves the log. The log itself is exactly the
  page writes of the transaction and its commit record.
\<close>

lemma insert_survives_crash:
  fixes s :: "'a btrees_scheme"
  assumes "checkpointed m s" "tree_in m t" "m_roots m h = t_page t" "HEADER_PAGE_ID \<notin> set (t_pages t)" "clean_key x" "short_key x"
    "\<forall>e \<in> set (t_entries t). \<not> key_eq (le_key e) x" "(t_find x t, es) \<in> set (t_leaves t)"
    "room_for \<lparr>le_key = x, le_value = y\<rparr> es" "Suc (t_height t) < spare m"
  shows "wp (btree_insert_txn h x y) (\<lambda>_ w. \<exists>ws t' A B.
      wal_stable w = log_bytes (page_frames (next_transaction_id s) ws @ [Commit (next_transaction_id s)])
      \<and> t_entries t = A @ B \<and> t_entries t' = A @ \<lparr>le_key = x, le_value = y\<rparr> # B
      \<and> after_crash s w (fst ` set ws) w \<and> (\<forall>z :: 'b wal_scheme. after_crash s w (fst ` set ws) z \<longrightarrow>
          wp wal_recover (\<lambda>_ v. total_pages z = total_pages w \<and> tree_ok (view v) (total_pages v) (roots w h) t')
            (\<lambda>_ v. total_pages z < total_pages w \<and> wal_file v = wal_file z) z)) (\<lambda>_ _. False) s"
proof -
  let ?txn = "next_transaction_id s" and ?e = "\<lparr>le_key = x, le_value = y\<rparr>"
  let ?Q = "\<lambda>_ w. \<exists>ws t' A B. wal_stable w = log_bytes (page_frames ?txn ws @ [Commit ?txn])
      \<and> t_entries t = A @ B \<and> t_entries t' = A @ ?e # B
      \<and> after_crash s w (fst ` set ws) w \<and> (\<forall>z :: 'b wal_scheme. after_crash s w (fst ` set ws) z \<longrightarrow>
          wp wal_recover (\<lambda>_ v. total_pages z = total_pages w \<and> tree_ok (view v) (total_pages v) (roots w h) t')
            (\<lambda>_ v. total_pages z < total_pages w \<and> wal_file v = wal_file z) z)"
  have rest: "at_rest m s" "wal_file s = []" using assms(1) by (simp_all add: checkpointed_def)
  have calm: "calm m" using rest(1) by (simp add: at_rest_def)
  have pos: "0 < m_pages m" using assms(2) t_page_in [of t] by (force simp: tree_in_def word_less_nat_alt)
  have grow: "0 < total_pages s" using pos rest(1) by (simp add: at_rest_def)
  note b = begun_holds [OF rest(1)]
  have txn: "lb_txn (starting s) = ?txn" by (simp add: starting_def)
  have "wp (btree_insert h ?txn x y) (\<lambda>_. wp (wal_commit ?txn) ?Q (\<lambda>_ _. False)) (\<lambda>_ _. False) (begun s)"
  proof (rule wp_mono [OF wp_btree_insert [OF b calm assms(2,3,5-10), unfolded txn]])
    fix u :: "'a btrees_scheme" assume "inserted (starting s) (t_height t + 2) h (set (t_pages t)) m (t_entries t) ?e u"
    then obtain m' t' A B where u: "holds (starting s) m' u" "updated h (set (t_pages t)) m m' t'" "t_entries t = A @ B"
      "t_entries t' = A @ ?e # B" by (auto simp: inserted_def)
    have m': "calm m'" "tree_in m' t'" "m_roots m' h = t_page t'" "set (t_pages t') \<subseteq> reach (set (t_pages t)) m"
      using u(2) by (simp_all add: updated_def)
    have hd: "HEADER_PAGE_ID \<notin> set (t_pages t')" by (rule header_not_in_tree [OF b assms(4) m'(4) pos])
    have grown: "total_pages s \<le> m_pages m'" using rest(1) u(2) by (simp add: at_rest_def updated_def touches_def)
    have kept: "m_view m' HEADER_PAGE_ID = view s HEADER_PAGE_ID" "0 < m_pages m'"
      using header_kept [OF rest(1) assms(4) pos u(2)] .
    show "wp (wal_commit ?txn) ?Q (\<lambda>_ _. False) u"
    proof (rule wp_mono [OF wp_commit_mem [OF u(1) m'(1)]], elim exE)
      fix w :: "'a btrees_scheme" and ws assume w: "sealed s m' ws w"
      note crash = sealed_is_crash [OF w grown kept(2,1)]
      have "wp wal_recover (\<lambda>_ v. total_pages z = total_pages w \<and> tree_ok (view v) (total_pages v) (roots w h) t')
          (\<lambda>_ v. total_pages z < total_pages w \<and> wal_file v = wal_file z) z"
        if "after_crash s w (fst ` set ws) z" for z :: "'b wal_scheme"
      proof (rule wp_mono [OF wp_recover_sealed [OF w rest(2) that grow]])
        fix v :: "'b wal_scheme"
        assume v: "total_pages z = total_pages w \<and> total_pages v = m_pages m' \<and> (\<forall>q < m_pages m'. q \<noteq> HEADER_PAGE_ID \<longrightarrow> view v q = m_view m' q)"
        have "\<forall>p \<in> set (t_pages t'). view v p = m_view m' p" using v hd m'(2) by (auto simp: tree_in_def)
        then show "total_pages z = total_pages w \<and> tree_ok (view v) (total_pages v) (roots w h) t'"
          using tree_in_ok [OF m'(2)] v m'(3) w by (simp add: sealed_def at_rest_def)
      qed simp
      then show "?Q () w" using w crash u(3,4) rest(2) by (auto simp: sealed_def)
    qed simp
  qed simp
  moreover have "wp (btree_insert_txn h x y) Q E s = wp (andthen (btree_insert h ?txn x y) (wal_commit ?txn)) Q E (begun s)" for Q E
    by (simp add: btree_insert_txn_def wal_begin_def wp_eqs begun_def)
  ultimately show ?thesis by (simp add: wp_andthen)
qed

lemma full_leaf_checkpointed: "checkpointed full_leaf_mem full_leaf_state"
proof -
  have "wal_stable full_leaf_state = []" "wal_file full_leaf_state = []" "db_hdr full_leaf_state = fresh_header"
    by (simp_all add: full_leaf_state_def pages_btrees_def hdr.defs wal.defs pool.defs)
  then show ?thesis
    using holdsD(1-7) [OF full_leaf_holds(1)] full_leaf_holds(2) by (simp add: checkpointed_def at_rest_def pool_calm_def full_leaf_mem_def)
qed

lemma insert_survives_crash_example:
  "wp (btree_insert_txn 0 [IntV 2] (replicate 1900 2)) (\<lambda>_ w. \<exists>t. set (t_entries t) = {big_entry 1, big_entry 2, big_entry 3}
      \<and> wp wal_recover (\<lambda>_ v. tree_ok (view v) (total_pages v) (roots w 0) t) (\<lambda>_ _. False) w) (\<lambda>_ _. False) full_leaf_state"
proof (rule wp_mono [OF insert_survives_crash [where 'b = "unit btrees_ext hdr_ext", OF full_leaf_checkpointed full_leaf_holds(3), of 0 "[IntV 2]" "[big_entry 1, big_entry 3]" "replicate 1900 2"]], goal_cases)
  case (9 _ w)
  then obtain ws :: "(u32 \<times> page) list" and t A B where w: "t_entries (Leaf 1 [big_entry 1, big_entry 3]) = A @ B" "t_entries t = A @ \<lparr>le_key = [IntV 2], le_value = replicate 1900 2\<rparr> # B"
    "after_crash full_leaf_state w (fst ` set ws) w" "\<forall>z :: btrees. after_crash full_leaf_state w (fst ` set ws) z \<longrightarrow>
      wp wal_recover (\<lambda>_ v. total_pages z = total_pages w \<and> tree_ok (view v) (total_pages v) (roots w 0) t)
        (\<lambda>_ v. total_pages z < total_pages w \<and> wal_file v = wal_file z) z" by (elim exE conjE)
  have e: "\<lparr>le_key = [IntV 2], le_value = replicate 1900 2\<rparr> = big_entry 2" by (simp add: big_entry_def)
  have "set (t_entries t) = {big_entry 1, big_entry 2, big_entry 3}"
    using arg_cong [OF w(1), of set] unfolding w(2) e by auto
  moreover have "wp wal_recover (\<lambda>_ v. tree_ok (view v) (total_pages v) (roots w 0) t) (\<lambda>_ _. False) w"
    by (rule wp_mono [OF w(4) [rule_format, OF w(3)]]) simp_all
  ultimately show ?case by blast
qed (simp_all add: sample_insert sample_insert [simplified] HEADER_PAGE_ID_def)

end
