(* ===== verification/Tree_Forest.thy ===== *)
theory Tree_Forest
  imports Tree_Crash
begin

text \<open>
  All trees of a database in one memory: an insertion into one of them leaves the others as they
  are, so that several trees can be changed in one transaction.
\<close>

section \<open>Several trees\<close>

text \<open>The trees of a set of handles, on disjoint pages, none of them on the header page.\<close>

definition forest :: "mem \<Rightarrow> nat set \<Rightarrow> (nat \<Rightarrow> tree) \<Rightarrow> bool" where
  "forest m hs T \<longleftrightarrow> (\<forall>h \<in> hs. tree_in m (T h) \<and> m_roots m h = t_page (T h) \<and> HEADER_PAGE_ID \<notin> set (t_pages (T h)))
     \<and> (\<forall>g \<in> hs. \<forall>h \<in> hs. g \<noteq> h \<longrightarrow> set (t_pages (T g)) \<inter> set (t_pages (T h)) = {})"

lemma forestD:
  assumes "forest m hs T" "h \<in> hs"
  shows "tree_in m (T h)" "m_roots m h = t_page (T h)" "HEADER_PAGE_ID \<notin> set (t_pages (T h))"
    "g \<in> hs \<Longrightarrow> g \<noteq> h \<Longrightarrow> set (t_pages (T g)) \<inter> set (t_pages (T h)) = {}"
  using assms by (auto simp: forest_def)

lemma tree_in_same:
  assumes "tree_in m t" "\<forall>p \<in> set (t_pages t). m_view m' p = m_view m p \<and> p < m_pages m' \<and> p \<notin> set (m_free m')"
    "distinct (m_free m')"
  shows "tree_in m' t"
proof -
  have "t_held (m_view m') INVALID_PAGE t" using held_cong(1) assms(1,2) by (auto simp: tree_in_def)
  moreover have "\<forall>(p, es) \<in> set (t_leaves t). m_view m' p = m_view m p" using assms(2) leaves_pages(1) [of t] by force
  then have "chained (m_view m') (t_leaves t)" using chained_cong [of "m_view m"] assms(1) by (simp add: tree_in_def)
  ultimately show ?thesis using assms by (auto simp: tree_in_def)
qed

text \<open>A tree next to the one that is updated.\<close>

lemma tree_in_other:
  assumes "tree_in m t" "touches P m m'" "set (t_pages t) \<inter> P = {}" "distinct (m_free m')"
  shows "tree_in m' t"
proof (rule tree_in_same [OF assms(1) _ assms(4)], rule ballI)
  fix p assume p: "p \<in> set (t_pages t)"
  then have "p < m_pages m" "p \<notin> P" "p \<notin> set (m_free m)" using assms(1,3) by (auto simp: tree_in_def)
  then show "m_view m' p = m_view m p \<and> p < m_pages m' \<and> p \<notin> set (m_free m')"
    using assms(2) by (auto simp: touches_def)
qed

lemma forest_updated:
  assumes "holds base m s" "forest m hs T" "h \<in> hs" "updated h (set (t_pages (T h))) m m' t" "0 < m_pages m"
  shows "forest m' hs (T(h := t))"
proof -
  note f = forestD [OF assms(2)]
  have u: "tree_in m' t" "m_roots m' = (m_roots m)(h := t_page t)" "touches (set (t_pages (T h))) m m'"
    "set (t_pages t) \<subseteq> reach (set (t_pages (T h))) m" using assms(4) by (simp_all add: updated_def)
  have hd: "HEADER_PAGE_ID \<notin> set (t_pages t)" by (rule header_not_in_tree [OF assms(1) f(3) [OF assms(3)] u(4) assms(5)])
  have free: "distinct (m_free m')" using u(1) by (simp add: tree_in_def)
  have apart: "set (t_pages (T g)) \<inter> set (t_pages (T h)) = {}" "set (t_pages (T g)) \<inter> set (t_pages t) = {}" if g: "g \<in> hs" "g \<noteq> h" for g
  proof -
    show d: "set (t_pages (T g)) \<inter> set (t_pages (T h)) = {}" by (rule f(4) [OF assms(3) g])
    have "p < m_pages m \<and> p \<notin> set (m_free m)" if "p \<in> set (t_pages (T g))" for p
      using f(1) [OF g(1)] that by (auto simp: tree_in_def)
    then show "set (t_pages (T g)) \<inter> set (t_pages t) = {}" using d u(4) by (fastforce simp: reach_def)
  qed
  have "tree_in m' (T g)" if "g \<in> hs" "g \<noteq> h" for g
    by (rule tree_in_other [OF f(1) [OF that(1)] u(3) apart(1) [OF that] free])
  moreover have "set (t_pages ((T(h := t)) g)) \<inter> set (t_pages ((T(h := t)) k)) = {}" if "g \<in> hs" "k \<in> hs" "g \<noteq> k" for g k
    using apart(2) [of g] apart(2) [of k] f(4) [of k g] that by (cases "g = h"; cases "k = h") (simp_all add: Int_commute)
  ultimately show ?thesis using u(1,2) hd f(2,3) by (simp add: forest_def)
qed

section \<open>Insertion into one of them\<close>

definition added :: "'e \<Rightarrow> 'e list \<Rightarrow> 'e list \<Rightarrow> bool" where
  "added e es fs \<longleftrightarrow> (\<exists>A B. es = A @ B \<and> fs = A @ e # B)"

lemma added_set: "added e es fs \<Longrightarrow> set fs = insert e (set es)"
  by (auto simp: added_def)

lemma added_length: "added e es fs \<Longrightarrow> length fs = Suc (length es)"
  by (auto simp: added_def)

text \<open>The limits of an entry, and the pages an insertion may need.\<close>

definition fits_in :: "tree \<Rightarrow> leaf_entry \<Rightarrow> bool" where
  "fits_in t e \<longleftrightarrow> short_key (le_key e) \<and> (\<exists>es. (t_find (le_key e) t, es) \<in> set (t_leaves t) \<and> room_for e es)"

definition need :: "tree \<Rightarrow> nat" where
  "need t = t_height t + 2"

text \<open>
  A transaction under way: the memory, with no page pinned, holds the trees, and the header page, which is
  written around the log, is the one it started with.
\<close>

definition wooded :: "'a btrees_scheme \<Rightarrow> nat set \<Rightarrow> (nat \<Rightarrow> tree) \<Rightarrow> nat \<Rightarrow> 'a btrees_scheme \<Rightarrow> bool" where
  "wooded s hs T n u \<longleftrightarrow> (\<exists>m. holds (starting s) m u \<and> calm m \<and> forest m hs T \<and> n \<le> spare m
     \<and> 0 < total_pages s \<and> total_pages s \<le> m_pages m \<and> m_view m HEADER_PAGE_ID = view s HEADER_PAGE_ID)"

lemma wooded_tree: "wooded s hs T n u \<Longrightarrow> h \<in> hs \<Longrightarrow> tree_at u h (T h)"
  unfolding wooded_def using roots_of_pool forestD(1,2) by metis

lemma wooded_reads: "wooded s hs T n u \<Longrightarrow> reads (view u) (total_pages u) u w \<Longrightarrow> wooded s hs T n w"
  unfolding wooded_def by (blast intro: reads_holds)

lemma wooded_updated:
  fixes s :: "'a btrees_scheme" and w :: "'a btrees_scheme"
  assumes "holds (starting s) m u" "forest m hs T" "h \<in> hs" "holds (starting s) m' w" "updated h (set (t_pages (T h))) m m' t"
    "0 < total_pages s" "total_pages s \<le> m_pages m" "m_view m HEADER_PAGE_ID = view s HEADER_PAGE_ID" "n \<le> spare m'"
  shows "wooded s hs (T(h := t)) n w"
proof -
  have pos: "0 < m_pages m" using assms(6,7) by (rule less_le_trans)
  have hd: "HEADER_PAGE_ID < m_pages m" "HEADER_PAGE_ID \<notin> set (m_free m)"
    using pos holdsD(5) [OF assms(1)] by (auto simp: HEADER_PAGE_ID_def free_list_def)
  have up: "m_pages m \<le> m_pages m'" "m_view m' HEADER_PAGE_ID = m_view m HEADER_PAGE_ID" "calm m'"
    using assms(5) hd forestD(3) [OF assms(2,3)] by (auto simp: updated_def touches_def)
  have fo: "forest m' hs (T(h := t))" by (rule forest_updated [OF assms(1-3,5) pos])
  show ?thesis
    unfolding wooded_def using assms(4,6,8,9) up(2,3) fo order_trans [OF assms(7) up(1)] by auto
qed

lemma wp_insert_forest:
  fixes s u :: "'a btrees_scheme"
  assumes "wooded s hs T (n + need (T h)) u" "h \<in> hs" "clean_key (le_key e)" "fits_in (T h) e"
    "\<forall>x \<in> set (t_entries (T h)). \<not> key_eq (le_key x) (le_key e)"
  shows "wp (btree_insert h (next_transaction_id s) (le_key e) (le_value e))
    (\<lambda>_ w. \<exists>t. added e (t_entries (T h)) (t_entries t) \<and> wooded s hs (T(h := t)) n w) (\<lambda>_ _. False) u"
proof -
  obtain m where m: "holds (starting s) m u" "calm m" "forest m hs T" "n + need (T h) \<le> spare m"
    "0 < total_pages s" "total_pages s \<le> m_pages m" "m_view m HEADER_PAGE_ID = view s HEADER_PAGE_ID"
    using assms(1) by (auto simp: wooded_def)
  obtain es where es: "(t_find (le_key e) (T h), es) \<in> set (t_leaves (T h))" "room_for e es" "short_key (le_key e)"
    using assms(4) by (auto simp: fits_in_def)
  have pos: "0 < m_pages m" using m(5,6) by (rule less_le_trans)
  have txn: "lb_txn (starting s) = next_transaction_id s" by (simp add: starting_def)
  have e: "\<lparr>le_key = le_key e, le_value = le_value e\<rparr> = e" by simp
  note f = forestD [OF m(3) assms(2)]
  have high: "Suc (t_height (T h)) < spare m" using m(4) by (simp add: need_def)
  have room: "room_for \<lparr>le_key = le_key e, le_value = le_value e\<rparr> es" using es(2) unfolding e .
  show ?thesis
  proof (rule wp_mono [OF wp_btree_insert [OF m(1,2) f(1,2) assms(3) es(3) assms(5) es(1) room high, unfolded txn e]])
    fix w :: "'a btrees_scheme"
    assume "inserted (starting s) (t_height (T h) + 2) h (set (t_pages (T h))) m (t_entries (T h)) e w"
    then obtain m' t where t: "holds (starting s) m' w" "updated h (set (t_pages (T h))) m m' t" "spare m \<le> spare m' + need (T h)"
      "added e (t_entries (T h)) (t_entries t)" by (auto simp: inserted_def added_def need_def)
    have "wooded s hs (T(h := t)) n w"
      by (rule wooded_updated [OF m(1,3) assms(2) t(1,2) m(5-7)]) (use m(4) t(3) in simp)
    with t(4) show "\<exists>t. added e (t_entries (T h)) (t_entries t) \<and> wooded s hs (T(h := t)) n w" by blast
  qed simp
qed

text \<open>A loop that changes one tree after the other.\<close>

lemma wp_each_tree:
  fixes s u :: "'a btrees_scheme" and f :: "'b \<Rightarrow> nat"
  assumes step: "\<And>b T n u. b \<in> set bs \<Longrightarrow> P b (T (f b)) \<Longrightarrow> wooded s hs T (n + cost (T (f b))) u \<Longrightarrow>
      wp (g b) (\<lambda>_ w. \<exists>t. R b (T (f b)) t \<and> wooded s hs (T(f b := t)) n w) (\<lambda>_ _. False) u"
    and "wooded s hs T (n + (\<Sum>b\<leftarrow>bs. cost (T (f b)))) u" "distinct (map f bs)" "\<forall>b \<in> set bs. P b (T (f b))"
  shows "wp (for_each g bs) (\<lambda>_ w. \<exists>T'. wooded s hs T' n w \<and> (\<forall>b \<in> set bs. R b (T (f b)) (T' (f b)))
      \<and> (\<forall>h. h \<notin> f ` set bs \<longrightarrow> T' h = T h)) (\<lambda>_ _. False) u"
  using assms
proof (induction bs arbitrary: T u)
  case Nil
  then show ?case by (auto simp: wp_ret intro!: exI [of _ T])
next
  case (Cons b bs)
  let ?h = "f b" and ?n = "n + (\<Sum>b\<leftarrow>bs. cost (T (f b)))"
  have head: "wooded s hs T (?n + cost (T ?h)) u" using Cons.prems(2) by (simp add: algebra_simps)
  have b: "b \<in> set (b # bs)" "P b (T ?h)" "?h \<notin> f ` set bs" using Cons.prems(3,4) by auto
  show ?case
    unfolding for_each.simps
  proof (rule wp_andthenI, rule wp_mono [OF Cons.prems(1) [OF b(1,2) head]], elim exE conjE)
    fix t and w :: "'a btrees_scheme" assume t: "R b (T ?h) t" and w: "wooded s hs (T(?h := t)) ?n w"
    let ?T = "T(?h := t)"
    have other: "f c \<noteq> ?h" if "c \<in> set bs" for c using b(3) that by (metis imageI)
    then have same: "?T (f c) = T (f c)" if "c \<in> set bs" for c using that by simp
    then have sum: "(\<Sum>b\<leftarrow>bs. cost (?T (f b))) = (\<Sum>b\<leftarrow>bs. cost (T (f b)))"
      by (intro arg_cong [of _ _ sum_list] map_cong) auto
    have "wp (for_each g bs) (\<lambda>_ w. \<exists>T'. wooded s hs T' n w \<and> (\<forall>c \<in> set bs. R c (?T (f c)) (T' (f c)))
        \<and> (\<forall>h. h \<notin> f ` set bs \<longrightarrow> T' h = ?T h)) (\<lambda>_ _. False) w"
    proof (rule Cons.IH [OF Cons.prems(1)])
      show "wooded s hs ?T (n + (\<Sum>b\<leftarrow>bs. cost (?T (f b)))) w" using w unfolding sum .
    qed (use Cons.prems(3,4) same in auto)
    then show "wp (for_each g bs) (\<lambda>_ w. \<exists>T'. wooded s hs T' n w \<and> (\<forall>c \<in> set (b # bs). R c (T (f c)) (T' (f c)))
        \<and> (\<forall>h. h \<notin> f ` set (b # bs) \<longrightarrow> T' h = T h)) (\<lambda>_ _. False) w"
    proof (rule wp_mono, elim exE conjE)
      fix T' and v :: "'a btrees_scheme"
      assume T': "wooded s hs T' n v" "\<forall>c \<in> set bs. R c (?T (f c)) (T' (f c))" "\<forall>h. h \<notin> f ` set bs \<longrightarrow> T' h = ?T h"
      have "T' ?h = t" using T'(3) b(3) by simp
      moreover have "\<forall>c \<in> set bs. R c (T (f c)) (T' (f c))" using T'(2) same by simp
      moreover have "T' h = T h" if "h \<notin> f ` set (b # bs)" for h using T'(3) that by simp
      ultimately show "\<exists>T'. wooded s hs T' n v \<and> (\<forall>c \<in> set (b # bs). R c (T (f c)) (T' (f c)))
          \<and> (\<forall>h. h \<notin> f ` set (b # bs) \<longrightarrow> T' h = T h)"
        using T'(1) t by (intro exI [of _ T']) simp
    qed simp
  qed simp
qed

section \<open>The commit\<close>

definition lasting :: "'a btrees_scheme \<Rightarrow> nat set \<Rightarrow> (nat \<Rightarrow> tree) \<Rightarrow> mem \<Rightarrow> (u32 \<times> page) list \<Rightarrow> 'a btrees_scheme \<Rightarrow> bool" where
  "lasting s hs T m ws w \<longleftrightarrow> sealed s m ws w \<and> forest m hs T \<and> 0 < m_pages m \<and> total_pages s \<le> m_pages m
     \<and> m_view m HEADER_PAGE_ID = view s HEADER_PAGE_ID"

lemma wp_commit_forest:
  fixes s u :: "'a btrees_scheme"
  assumes "wooded s hs T n u"
  shows "wp (wal_commit (next_transaction_id s)) (\<lambda>_ w. \<exists>m ws. lasting s hs T m ws w) (\<lambda>_ _. False) u"
proof -
  obtain m where m: "holds (starting s) m u" "calm m" "forest m hs T"
    "0 < total_pages s" "total_pages s \<le> m_pages m" "m_view m HEADER_PAGE_ID = view s HEADER_PAGE_ID"
    using assms by (auto simp: wooded_def)
  have "0 < m_pages m" using m(4,5) by (rule less_le_trans)
  then show ?thesis by (intro wp_mono [OF wp_commit_mem [OF m(1,2)]]) (use m in \<open>auto simp: lasting_def\<close>)
qed

text \<open>The database is ready for the next transaction.\<close>

lemma lasting_at_rest:
  fixes s w :: "'a btrees_scheme"
  assumes "lasting s hs T m ws w"
  shows "\<exists>m. at_rest m w \<and> forest m hs T"
proof -
  let ?m = "m\<lparr>m_view := (m_view m)(HEADER_PAGE_ID := view w HEADER_PAGE_ID)\<rparr>"
  have f: "forest m hs T" and r: "at_rest ?m w" using assms by (simp_all add: lasting_def sealed_def)
  have "tree_in ?m (T h)" if "h \<in> hs" for h
    by (rule tree_in_same [OF forestD(1) [OF f that]])
      (use forestD(1,3) [OF f that] in \<open>auto simp: tree_in_def\<close>)
  then have "forest ?m hs T" using f by (simp add: forest_def)
  with r show ?thesis by blast
qed

lemma lasting_crash: "lasting s hs T m ws w \<Longrightarrow> after_crash s w (fst ` set ws) w"
  using sealed_is_crash by (auto simp: lasting_def)

lemma wp_recover_forest:
  fixes s w :: "'a btrees_scheme" and z :: "'b wal_scheme"
  assumes "lasting s hs T m ws w" "wal_file s = []" "after_crash s w (fst ` set ws) z" "0 < total_pages s"
  shows "wp wal_recover (\<lambda>_ v. total_pages z = total_pages w \<and> (\<forall>h \<in> hs. tree_ok (view v) (total_pages v) (roots w h) (T h)))
      (\<lambda>_ v. total_pages z < total_pages w \<and> wal_file v = wal_file z) z"
proof -
  have S: "sealed s m ws w" and f: "forest m hs T" using assms(1) by (simp_all add: lasting_def)
  show ?thesis
  proof (rule wp_mono [OF wp_recover_sealed [OF S assms(2-4)]], elim conjE, intro conjI ballI)
    fix v :: "'b wal_scheme" and h
    assume v: "total_pages v = m_pages m" "\<forall>q < m_pages m. q \<noteq> HEADER_PAGE_ID \<longrightarrow> view v q = m_view m q" and h: "h \<in> hs"
    note F = forestD [OF f h]
    have "\<forall>p \<in> set (t_pages (T h)). view v p = m_view m p" using v F(1,3) by (auto simp: tree_in_def)
    moreover have "roots w h = t_page (T h)" using S F(2) by (simp add: sealed_def at_rest_def)
    ultimately show "tree_ok (view v) (total_pages v) (roots w h) (T h)" using tree_in_ok [OF F(1)] v by simp
  qed simp
qed

section \<open>The start\<close>

lemma at_rest_reads:
  fixes s u :: "'a btrees_scheme"
  assumes "at_rest m s" "reads (view s) (total_pages s) s u"
  shows "at_rest m u"
proof -
  have r: "pool_inv u" "pool_calm u" "same_view s u" "pool.more u = pool.more s"
    using assms(2) by (auto simp: reads_def readable_def same_view_def)
  have "free_list u (m_free m)" using free_list_kept [of s "m_free m" u] assms(1) r(3) roots_kept(3) [OF r(4)] by (simp add: at_rest_def)
  then show ?thesis using assms(1) r roots_kept [OF r(4)] by (auto simp: at_rest_def same_view_def)
qed

lemma begun_wooded:
  fixes s :: "'a btrees_scheme"
  assumes "at_rest m s" "forest m hs T" "0 < total_pages s" "n \<le> spare m"
  shows "wooded s hs T n (begun s)"
proof -
  have "m_view m HEADER_PAGE_ID = view s HEADER_PAGE_ID"
    using assms(1,3) by (simp add: at_rest_def HEADER_PAGE_ID_def)
  then show ?thesis using begun_holds [OF assms(1)] assms by (auto simp: wooded_def at_rest_def)
qed

lemma wp_wal_begin: "wp wal_begin Q E s = Q (next_transaction_id s) (begun s)"
  by (simp add: wal_begin_def wp_eqs begun_def)

lemma forest_tree_at:
  fixes s :: "'a btrees_scheme"
  assumes "at_rest m s" "forest m hs T" "h \<in> hs"
  shows "tree_at s h (T h)"
proof -
  note f = forestD [OF assms(2,3)]
  have "\<forall>p \<in> set (t_pages (T h)). view s p = m_view m p" using f(1) assms(1) by (auto simp: tree_in_def at_rest_def)
  then show ?thesis using tree_in_ok [OF f(1)] f(2) assms(1) by (simp add: tree_at_def at_rest_def)
qed

end
