(* ===== verification/Tree_Remove.thy ===== *)
theory Tree_Remove
  imports Tree_Forest
begin

text \<open>
  Removal in place: the leaf keeps at least half of its space in use, or is the root, so that no
  node is borrowed from or merged.
\<close>

section \<open>The tree\<close>

text \<open>A tree without the entries of a key, its nodes unchanged.\<close>

primrec t_keep :: "(leaf_entry \<Rightarrow> bool) \<Rightarrow> tree \<Rightarrow> tree" and s_keep :: "(leaf_entry \<Rightarrow> bool) \<Rightarrow> spine \<Rightarrow> spine" where
  "t_keep Q (Leaf p es) = Leaf p (filter Q es)"
| "t_keep Q (Inner p s) = Inner p (s_keep Q s)"
| "s_keep Q (Last t) = Last (t_keep Q t)"
| "s_keep Q (Sep t k s) = Sep (t_keep Q t) k (s_keep Q s)"

definition prune :: "key \<Rightarrow> tree \<Rightarrow> tree" where
  "prune x t = t_keep (\<lambda>e. \<not> key_eq (le_key e) x) t"

lemma keep_entries: "t_entries (t_keep Q t) = filter Q (t_entries t)" "s_entries (s_keep Q s) = filter Q (s_entries s)"
  by (induction t and s) auto

lemma keep_all:
  "\<forall>e \<in> set (t_entries t). Q e \<Longrightarrow> t_keep Q t = t" "\<forall>e \<in> set (s_entries s). Q e \<Longrightarrow> s_keep Q s = s"
  by (induction t and s) auto

lemma keep_height: "t_height (t_keep Q t) = t_height t" "s_height (s_keep Q s) = s_height s"
  by (induction t and s) auto

lemma keep_pre: "\<forall>e \<in> set (concat (map snd (pre_leaves pre))). Q e \<Longrightarrow> s_keep Q (pre_spine pre s) = pre_spine pre (s_keep Q s)"
proof (induction pre)
  case (Cons x pre)
  obtain t k where x: "x = (t, k)" by (cases x)
  have "\<forall>e \<in> set (t_entries t). Q e" using Cons.prems unfolding x leaves_entries(1) [symmetric] by (auto simp: pre_leaves_def)
  then show ?case using Cons keep_all(1) [of t Q] by (auto simp: x pre_leaves_def)
qed simp

lemma keep_hole: "\<forall>e \<in> set (concat (map snd (post_leaves post))). Q e \<Longrightarrow> s_keep Q (hole_spine t post) = hole_spine (t_keep Q t) post"
proof (cases post)
  case (Some y)
  obtain k sp where y: "y = (k, sp)" by (cases y)
  assume "\<forall>e \<in> set (concat (map snd (post_leaves post))). Q e"
  then have "\<forall>e \<in> set (s_entries sp). Q e" unfolding leaves_entries(2) [symmetric] by (simp add: Some y post_leaves_def)
  then show ?thesis using keep_all(2) [of sp Q] by (simp add: Some y)
qed simp

lemma keep_plug:
  "\<forall>e \<in> set (concat (map snd (ctx_before c))). Q e \<Longrightarrow> \<forall>e \<in> set (concat (map snd (ctx_after c))). Q e \<Longrightarrow>
   t_keep Q (plug c t) = plug c (t_keep Q t)"
proof (induction c arbitrary: t)
  case (Cons f c)
  obtain p pre post where f: "f = Frame p pre post" by (cases f)
  have "t_keep Q (fill f t) = fill f (t_keep Q t)" using Cons.prems keep_pre [of pre Q] keep_hole [of post Q] by (simp add: f)
  then show ?case using Cons.IH [of "fill f t"] Cons.prems by (simp add: f)
qed simp

text \<open>The entry of the key, and a leaf that stays at least half full without it.\<close>

definition loose :: "tree \<Rightarrow> key \<Rightarrow> leaf_entry \<Rightarrow> bool" where
  "loose t x e \<longleftrightarrow> key_eq (le_key e) x \<and> (\<exists>A B. (t_find x t, A @ e # B) \<in> set (t_leaves t)
     \<and> (t_find x t = t_page t \<or> capacity div 2 \<le> leaf_bytes (A @ B)))"

lemma unique_key:
  assumes "sorted_entries (A @ e # B)" "key_eq (le_key e) x" "clean_key x" "a \<in> set A \<or> a \<in> set B"
  shows "\<not> key_eq (le_key a) x"
proof
  assume ax: "key_eq (le_key a) x"
  have ce: "clean_key (le_key a)" "clean_key (le_key e)" using assms(1,4) by (auto simp: sorted_entries_def)
  have ae: "key_eq (le_key a) (le_key e)" using ko.eq_trans [OF ce(1) assms(3) ce(2) ax] ko.eq_sym [OF ce(2) assms(3,2)] by blast
  have "\<forall>a \<in> set A. key_lt (le_key a) (le_key e)" "\<forall>b \<in> set B. key_lt (le_key e) (le_key b)"
    using assms(1) by (simp_all add: sorted_entries_append sorted_entries_Cons)
  then have "key_lt (le_key a) (le_key e) \<or> key_lt (le_key e) (le_key a)" using assms(4) by blast
  then show False using ae ko.lt_iff [OF ce] ko.lt_iff [OF ce(2,1)] ko.eq_sym [OF ce ae] by blast
qed

lemma unique_entry:
  assumes "sorted_entries (A @ e # B)" "key_eq (le_key e) x" "clean_key x"
  shows "filter (\<lambda>e. \<not> key_eq (le_key e) x) (A @ e # B) = A @ B"
  using unique_key [OF assms] assms(2) by simp

text \<open>The pruned tree has one entry less.\<close>

lemma prune_added:
  assumes "sorted_entries (t_entries t)" "e \<in> set (t_entries t)" "key_eq (le_key e) x" "clean_key x"
  shows "added e (t_entries (prune x t)) (t_entries t)"
proof -
  obtain A B where ab: "t_entries t = A @ e # B" using assms(2) by (auto dest: split_list)
  have "filter (\<lambda>e. \<not> key_eq (le_key e) x) (A @ e # B) = A @ B" by (rule unique_entry) (use assms ab in simp_all)
  then show ?thesis by (auto simp: prune_def keep_entries(1) ab added_def)
qed

lemma prune_fields [simp]: "t_height (prune x t) = t_height t" "need (prune x t) = need t"
  by (simp_all add: prune_def keep_height(1) need_def)

lemma half_full: "leaf_held v par p es \<Longrightarrow> leaf_fits es \<Longrightarrow> is_underfull (v p) \<longleftrightarrow> leaf_bytes es < capacity div 2"
  by (simp add: leaf_held_def leaf_fits_def is_underfull_ok capacity_def PAGE_SIZE_def NODE_HEADER_SIZE_def)

definition removed :: "log_base \<Rightarrow> nat \<Rightarrow> u32 set \<Rightarrow> mem \<Rightarrow> tree \<Rightarrow> 'a btrees_scheme \<Rightarrow> bool" where
  "removed base h P m t u \<longleftrightarrow> (\<exists>m'. holds base m' u \<and> updated h P m m' t \<and> spare m' = spare m)"

lemma wp_find_path_mem:
  fixes s :: "'a btrees_scheme"
  assumes "holds base m s" "calm m" "tree_in m t" "m_roots m h = t_page t"
  shows "wp (find_leaf_page_with_path h x) (\<lambda>r u. fst r = t_find x t \<and> holds base m u) (\<lambda>_ _. False) s"
proof -
  have "wp (find_leaf_page_with_path h x) (\<lambda>r. wp (ret (fst r)) (\<lambda>r u. r = t_find x t \<and> holds base m u) (\<lambda>_ _. False)) (\<lambda>_ _. False) s"
    using wp_find_leaf_mem [OF assms, of x] by (simp add: find_leaf_page_def wp_bind case_prod_beta)
  then show ?thesis by (rule wp_mono) (simp_all add: wp_ret)
qed

lemma wp_btree_remove:
  fixes s :: "'a btrees_scheme"
  assumes "holds base m s" "calm m" "tree_in m t" "m_roots m h = t_page t" "clean_key x" "loose t x e"
  shows "wp (btree_remove h (lb_txn base) x) (\<lambda>_. removed base h (set (t_pages t)) m (prune x t)) (\<lambda>_ _. False) s"
proof -
  let ?p = "t_find x t" and ?r = "removed base h (set (t_pages t)) m (prune x t)"
  obtain A B where e: "key_eq (le_key e) x" "(?p, A @ e # B) \<in> set (t_leaves t)" "?p = t_page t \<or> capacity div 2 \<le> leaf_bytes (A @ B)"
    using assms(6) by (auto simp: loose_def)
  have "distinct (t_pages t)" using assms(3) by (simp add: tree_in_def)
  from leaf_zipper [OF this e(2)] obtain c where c: "t = plug c (Leaf ?p (A @ e # B))" "on_path x c" .
  have ti: "tree_in m (plug c (Leaf ?p (A @ e # B)))" using assms(3) c(1) by simp
  note h = tree_inD [OF ti]
  have p: "?p < m_pages m" using h(8) [of ?p] by simp
  have srt: "sorted_entries (A @ e # B)" using plug_sorted_at [OF h(5)] by auto
  note drop = unique_entry [OF srt e(1) assms(5)]
  have fit: "leaf_fits (A @ B)" using h(4) by (auto simp: leaf_fits_def leaf_bytes_sum)
  have sorted: "t_sorted (plug c (Leaf ?p (A @ B))) None None"
    by (rule path_sorted_mono [OF h(5) c(2)]) (auto simp: sorted_entries_append sorted_entries_Cons)
  let ?t = "plug c (Leaf ?p (A @ B))"
  have pages: "set (t_pages ?t) = set (t_pages t)" "?p \<in> set (t_pages t)" "t_page ?t = t_page t"
    using arg_cong [OF c(1), of t_pages] arg_cong [OF c(1), of t_page] plug_page [of "Leaf ?p (A @ e # B)" "Leaf ?p (A @ B)" c]
    by (simp_all add: plug_page_set)
  have ent: "t_entries t = concat (map snd (ctx_before c)) @ (A @ e # B) @ concat (map snd (ctx_after c))"
    unfolding arg_cong [OF c(1), of t_entries] unfolding leaves_entries(1) [symmetric] plug_leaves by simp
  have whole: "sorted_entries ((concat (map snd (ctx_before c)) @ A) @ e # (B @ concat (map snd (ctx_after c))))"
    using tree_in_sorted [OF assms(3)] unfolding ent by simp
  note others = unique_key [OF whole e(1) assms(5)]
  have "prune x (plug c (Leaf ?p (A @ e # B))) = plug c (Leaf ?p (filter (\<lambda>e. \<not> key_eq (le_key e) x) (A @ e # B)))"
    unfolding prune_def by (subst keep_plug) (use others in simp_all)
  then have pruned: "prune x t = ?t" unfolding drop using c(1) by simp
  have found: "find_in_leaf x (m_view m ?p) \<noteq> Inr None" "\<exists>r. find_in_leaf x (m_view m ?p) = Inr r"
    using h(2) e(1) by (auto simp: find_in_leaf_def leaf_held_def find_None_iff)
  have rest: "wp (bind (root_page h) (\<lambda>root. if ?p = root then ret () else bind (read_node ?p (\<lambda>p. Inr (is_underfull p)))
      (\<lambda>underfull. whenever underfull (handle_underflow h (lb_txn base) ?p path)))) (\<lambda>_. ?r) (\<lambda>_ _. False) u"
    if m': "holds base m' u" "calm m'" "m_roots m' = m_roots m" "touches {?p} m m'" "spare m' = spare m" "tree_in m' ?t"
    for m' path and u :: "'a btrees_scheme"
  proof -
    have "updated h (set (t_pages t)) m m' ?t"
      using m'(2-6) assms(4) pages touches_mono [OF m'(4), of "set (t_pages t)"] by (auto simp: updated_def reach_def)
    then have r: "?r w" if "holds base m' w" for w :: "'a btrees_scheme" unfolding removed_def pruned using that m'(5) by blast
    have root: "roots u h = t_page t" using holdsD(6) [OF m'(1)] m'(3) assms(4) by simp
    show ?thesis
    proof (cases "?p = t_page t")
      case True
      show ?thesis by (rule wp_bindI) (use r [OF m'(1)] root True in \<open>simp add: root_page_def wp_gets wp_ret del: handle_underflow.simps\<close>)
    next
      case False
      have "leaf_held (m_view m') (ctx_parent c) ?p (A @ B)" using tree_inD(2) [OF m'(6)] by simp
      then have g: "Inr (is_underfull (m_view m' ?p)) = (Inr False :: exn + bool)" using half_full fit False e(3) by auto
      have p': "?p < m_pages m'" "?p \<notin> m_pins m'" using tree_inD(8) [OF m'(6), of ?p] m'(2) by (simp_all add: calm_def)
      have "wp (bind (read_node ?p (\<lambda>p. Inr (is_underfull p))) (\<lambda>underfull. whenever underfull (handle_underflow h (lb_txn base) ?p path)))
        (\<lambda>_. ?r) (\<lambda>_ _. False) u"
        by (rule then_read_node [where g = "\<lambda>p. Inr (is_underfull p)", OF m'(1) calm_steady [OF m'(2)] p' g]) (use r in \<open>simp add: wp_whenever del: handle_underflow.simps\<close>)
      then show ?thesis by (intro wp_bindI) (use False root in \<open>simp add: root_page_def wp_gets del: handle_underflow.simps\<close>)
    qed
  qed
  show ?thesis
    unfolding btree_remove_def
  proof (rule wp_bindI, rule wp_mono [OF wp_find_path_mem [OF assms(1-4)]], elim conjE)
    fix r :: "u32 \<times> u32 list" and u :: "'a btrees_scheme" assume r: "fst r = ?p" and u: "holds base m u"
    obtain path where rp: "r = (?p, path)" using r by (cases r) simp
    obtain v where v: "find_in_leaf x (m_view m ?p) = Inr v" "v \<noteq> None" using found by auto
    have remove: "wp (remove_from_leaf (lb_txn base) ?p x) (\<lambda>_ u. \<exists>m'. holds base m' u \<and> calm m' \<and> m_roots m' = m_roots m
        \<and> touches {?p} m m' \<and> spare m' = spare m \<and> tree_in m' ?t) (\<lambda>_ _. False) w" if w: "holds base m w" for w :: "'a btrees_scheme"
      unfolding remove_from_leaf_def
      by (rule wp_leaf_edit [where g = "\<lambda>p. sbind (get_leaf_entries p) (\<lambda>entries. set_leaf_entries (filter (\<lambda>e. \<not> key_eq (le_key e) x) entries) p)",
          OF w assms(2) ti sorted fit]) (use drop in simp)
    show "wp (case r of (leaf, path) \<Rightarrow> bind (read_node leaf (find_in_leaf x)) (\<lambda>found.
        if found = None then throw (Runtime_error (''BTree::remove: key not found '' @ key_to_string x))
        else andthen (remove_from_leaf (lb_txn base) leaf x) (bind (root_page h) (\<lambda>root. if leaf = root then ret ()
          else bind (read_node leaf (\<lambda>p. Inr (is_underfull p))) (\<lambda>underfull. whenever underfull (handle_underflow h (lb_txn base) leaf path))))))
      (\<lambda>_. ?r) (\<lambda>_ _. False) u"
      unfolding rp prod.case
    proof (rule then_read_node [where g = "find_in_leaf x", OF u calm_steady [OF assms(2)] p _ v(1)])
      show "?p \<notin> m_pins m" using assms(2) by (simp add: calm_def)
      fix w :: "'a btrees_scheme" assume w: "holds base m w"
      show "wp (if v = None then throw (Runtime_error (''BTree::remove: key not found '' @ key_to_string x))
        else andthen (remove_from_leaf (lb_txn base) ?p x) (bind (root_page h) (\<lambda>root. if ?p = root then ret ()
          else bind (read_node ?p (\<lambda>p. Inr (is_underfull p))) (\<lambda>underfull. whenever underfull (handle_underflow h (lb_txn base) ?p path)))))
        (\<lambda>_. ?r) (\<lambda>_ _. False) w"
        unfolding if_not_P [OF v(2)] by (rule wp_andthenI, rule wp_mono [OF remove [OF w]], elim exE conjE) (rule rest)
    qed
  qed simp
qed

text \<open>The entry of a key is in the leaf the descent finds.\<close>

definition keeps_half :: "tree \<Rightarrow> key \<Rightarrow> bool" where
  "keeps_half t x \<longleftrightarrow> t_find x t = t_page t
     \<or> (\<forall>es. (t_find x t, es) \<in> set (t_leaves t) \<longrightarrow> capacity div 2 \<le> leaf_bytes (filter (\<lambda>e. \<not> key_eq (le_key e) x) es))"

lemma loose_entry:
  assumes "tree_in m t" "clean_key x" "e \<in> set (t_entries t)" "key_eq (le_key e) x" "keeps_half t x"
  shows "loose t x e"
proof -
  have ord: "t_ord t None None" using sorted_ord(1) assms(1) by (simp add: tree_in_def)
  obtain bs es as where l: "t_leaves t = bs @ (t_find x t, es) # as"
    "\<forall>e \<in> set (concat (map snd bs)). key_lt (le_key e) x" "\<forall>e \<in> set (concat (map snd as)). key_lt x (le_key e)"
    using find_splits(1) [OF ord _ _ assms(2)] unfolding split_at_def by auto
  have ent: "t_entries t = concat (map snd bs) @ es @ concat (map snd as)" unfolding leaves_entries(1) [symmetric] l(1) by simp
  have srt: "sorted_entries (t_entries t)" by (rule tree_in_sorted [OF assms(1)])
  have c: "clean_key (le_key e)" using srt assms(3) by (simp add: sorted_entries_def)
  have "\<not> key_lt (le_key e) x" "\<not> key_lt x (le_key e)"
    using assms(4) ko.lt_iff [OF c assms(2)] ko.lt_iff [OF assms(2) c] ko.eq_sym [OF c assms(2,4)] by blast+
  then have "e \<in> set es" using assms(3) l(2,3) unfolding ent set_append by blast
  then obtain A B where ab: "es = A @ e # B" by (auto dest: split_list)
  have "sorted_entries es" using srt unfolding ent by (simp add: sorted_entries_append)
  then have "filter (\<lambda>e. \<not> key_eq (le_key e) x) es = A @ B" unfolding ab by (rule unique_entry [OF _ assms(4,2)])
  moreover have "(t_find x t, es) \<in> set (t_leaves t)" using l(1) by simp
  ultimately show ?thesis using assms(4,5) ab unfolding loose_def keeps_half_def by metis
qed

lemma wp_remove_forest:
  fixes s u :: "'a btrees_scheme"
  assumes "wooded s hs T n u" "h \<in> hs" "clean_key x" "e \<in> set (t_entries (T h))" "key_eq (le_key e) x" "keeps_half (T h) x"
  shows "wp (btree_remove h (next_transaction_id s) x) (\<lambda>_. wooded s hs (T(h := prune x (T h))) n) (\<lambda>_ _. False) u"
proof -
  obtain m where m: "holds (starting s) m u" "calm m" "forest m hs T" "n \<le> spare m"
    "0 < total_pages s" "total_pages s \<le> m_pages m" "m_view m HEADER_PAGE_ID = view s HEADER_PAGE_ID"
    using assms(1) by (auto simp: wooded_def)
  have pos: "0 < m_pages m" using m(5,6) by (rule less_le_trans)
  have txn: "lb_txn (starting s) = next_transaction_id s" by (simp add: starting_def)
  note f = forestD [OF m(3) assms(2)]
  have l: "loose (T h) x e" by (rule loose_entry [OF f(1) assms(3-6)])
  show ?thesis
  proof (rule wp_mono [OF wp_btree_remove [OF m(1,2) f(1,2) assms(3) l, unfolded txn]])
    fix w :: "'a btrees_scheme"
    assume "removed (starting s) h (set (t_pages (T h))) m (prune x (T h)) w"
    then obtain m' where t: "holds (starting s) m' w" "updated h (set (t_pages (T h))) m m' (prune x (T h))" "spare m' = spare m"
      by (auto simp: removed_def)
    show "wooded s hs (T(h := prune x (T h))) n w"
      by (rule wooded_updated [OF m(1,3) assms(2) t(1,2) m(5-7)]) (use m(4) t(3) in simp)
  qed simp
qed

end
