(* ===== verification/Schema.thy ===== *)
theory Schema
  imports Values
begin

text \<open>
  The catalog's data types (\<open>src/catalog/schema.h\<close>). The enums have a fixed underlying
  byte, and the code casts stored bytes to them without a check: a byte that is no
  enumerator is kept as \<open>Other_\<dots>\<close>.
\<close>

section \<open>Enumerations\<close>

datatype column_type = CT_INT | CT_FLOAT | CT_BOOLEAN | CT_VARCHAR | Other_column_type byte

definition column_type_of_byte :: "byte \<Rightarrow> column_type" where
  "column_type_of_byte b = (if b = 1 then CT_INT else if b = 2 then CT_FLOAT else if b = 3 then CT_BOOLEAN
     else if b = 4 then CT_VARCHAR else Other_column_type b)"

fun column_type_byte :: "column_type \<Rightarrow> byte" where
  "column_type_byte CT_INT = 1"
| "column_type_byte CT_FLOAT = 2"
| "column_type_byte CT_BOOLEAN = 3"
| "column_type_byte CT_VARCHAR = 4"
| "column_type_byte (Other_column_type b) = b"

fun column_type_size :: "column_type \<Rightarrow> u32" where
  "column_type_size CT_INT = 4"
| "column_type_size CT_FLOAT = 4"
| "column_type_size CT_BOOLEAN = 1"
| "column_type_size CT_VARCHAR = 0"
| "column_type_size (Other_column_type _) = 0"

fun column_type_name :: "column_type \<Rightarrow> string" where
  "column_type_name CT_INT = ''INT''"
| "column_type_name CT_FLOAT = ''FLOAT''"
| "column_type_name CT_BOOLEAN = ''BOOLEAN''"
| "column_type_name CT_VARCHAR = ''VARCHAR''"
| "column_type_name (Other_column_type _) = ''UNKNOWN''"

datatype check_op = CK_EQ | CK_NEQ | CK_LT | CK_GT | CK_LTE | CK_GTE | Other_check_op byte

definition check_op_of_byte :: "byte \<Rightarrow> check_op" where
  "check_op_of_byte b = (if b = 1 then CK_EQ else if b = 2 then CK_NEQ else if b = 3 then CK_LT
     else if b = 4 then CK_GT else if b = 5 then CK_LTE else if b = 6 then CK_GTE else Other_check_op b)"

fun check_op_byte :: "check_op \<Rightarrow> byte" where
  "check_op_byte CK_EQ = 1"
| "check_op_byte CK_NEQ = 2"
| "check_op_byte CK_LT = 3"
| "check_op_byte CK_GT = 4"
| "check_op_byte CK_LTE = 5"
| "check_op_byte CK_GTE = 6"
| "check_op_byte (Other_check_op b) = b"

fun check_op_symbol :: "check_op \<Rightarrow> string" where
  "check_op_symbol CK_EQ = ''=''"
| "check_op_symbol CK_NEQ = ''!=''"
| "check_op_symbol CK_LT = ''<''"
| "check_op_symbol CK_GT = ''>''"
| "check_op_symbol CK_LTE = ''<=''"
| "check_op_symbol CK_GTE = ''>=''"
| "check_op_symbol (Other_check_op _) = ''?''"

datatype fk_on_delete = RESTRICT | CASCADE | Other_on_delete byte

definition on_delete_of_byte :: "byte \<Rightarrow> fk_on_delete" where
  "on_delete_of_byte b = (if b = 1 then RESTRICT else if b = 2 then CASCADE else Other_on_delete b)"

fun on_delete_byte :: "fk_on_delete \<Rightarrow> byte" where
  "on_delete_byte RESTRICT = 1"
| "on_delete_byte CASCADE = 2"
| "on_delete_byte (Other_on_delete b) = b"

section \<open>Schemas\<close>

record column =
  col_name :: string
  col_type :: column_type
  max_length :: u32
  is_nullable :: bool
  is_primary_key :: bool
  auto_increment :: bool
  has_default :: bool
  default_value :: db_value

record check_constraint =
  ck_column_index :: u32
  ck_op :: check_op
  ck_operand :: db_value

record foreign_key =
  fk_column_indices :: "u32 list"
  fk_ref_table :: string
  fk_ref_column_indices :: "u32 list"
  fk_on_delete :: fk_on_delete
  fk_child_index_name :: string
  fk_ref_index_name :: string

record table_schema =
  ts_name :: string
  ts_columns :: "column list"
  ts_root_page :: u32
  ts_primary_key_indices :: "u32 list"
  ts_checks :: "check_constraint list"
  ts_foreign_keys :: "foreign_key list"
  ts_create_sql :: string

record index_schema =
  ix_name :: string
  ix_table_name :: string
  ix_column_names :: "string list"
  ix_root_page :: u32
  ix_is_unique :: bool

text \<open>\<open>column_index\<close> returns the first match, \<open>-1\<close> (here \<open>None\<close>) without one.\<close>

fun first_column :: "nat \<Rightarrow> string \<Rightarrow> column list \<Rightarrow> nat option" where
  "first_column i name [] = None"
| "first_column i name (c # cs) = (if col_name c = name then Some i else first_column (Suc i) name cs)"

definition column_index :: "table_schema \<Rightarrow> string \<Rightarrow> nat option" where
  "column_index schema name = first_column 0 name (ts_columns schema)"

definition is_composite_primary_key :: "table_schema \<Rightarrow> bool" where
  "is_composite_primary_key schema = (1 < length (ts_primary_key_indices schema))"

text \<open>\<open>at(0)\<close> throws on an empty vector; \<open>columns[...]\<close> is unchecked.\<close>

definition primary_key_column :: "table_schema \<Rightarrow> exn + column" where
  "primary_key_column schema = (case ts_primary_key_indices schema of
     [] \<Rightarrow> Inl (Out_of_range ''vector::at'')
   | i # _ \<Rightarrow> if unat i < length (ts_columns schema) then Inr (ts_columns schema ! unat i)
       else Inl (Undefined_behaviour ''columns[] out of range''))"

definition is_composite :: "index_schema \<Rightarrow> bool" where
  "is_composite ix = (1 < length (ix_column_names ix))"

section \<open>Lemmas\<close>

text \<open>Enumerators and the bytes that are none.\<close>

definition proper_column_type :: "column_type \<Rightarrow> bool" where
  "proper_column_type t \<longleftrightarrow> (\<forall>b. t = Other_column_type b \<longrightarrow> b \<notin> {1, 2, 3, 4})"

definition proper_check_op :: "check_op \<Rightarrow> bool" where
  "proper_check_op t \<longleftrightarrow> (\<forall>b. t = Other_check_op b \<longrightarrow> b \<notin> {1, 2, 3, 4, 5, 6})"

definition proper_on_delete :: "fk_on_delete \<Rightarrow> bool" where
  "proper_on_delete t \<longleftrightarrow> (\<forall>b. t = Other_on_delete b \<longrightarrow> b \<notin> {1, 2})"

lemma enum_roundtrip [codec_simps]:
  "proper_column_type t \<Longrightarrow> column_type_of_byte (column_type_byte t) = t"
  "proper_check_op c \<Longrightarrow> check_op_of_byte (check_op_byte c) = c"
  "proper_on_delete d \<Longrightarrow> on_delete_of_byte (on_delete_byte d) = d"
proof -
  show "proper_column_type t \<Longrightarrow> column_type_of_byte (column_type_byte t) = t"
    by (cases t) (simp_all add: column_type_of_byte_def proper_column_type_def)
  show "proper_check_op c \<Longrightarrow> check_op_of_byte (check_op_byte c) = c"
    by (cases c) (simp_all add: check_op_of_byte_def proper_check_op_def)
  show "proper_on_delete d \<Longrightarrow> on_delete_of_byte (on_delete_byte d) = d"
    by (cases d) (simp_all add: on_delete_of_byte_def proper_on_delete_def)
qed

lemma first_column_Some:
  "first_column i name cs = Some j \<Longrightarrow> i \<le> j \<and> j < i + length cs \<and> col_name (cs ! (j - i)) = name
     \<and> (\<forall>k < j - i. col_name (cs ! k) \<noteq> name)"
proof (induction i name cs rule: first_column.induct)
  case (2 i name c cs)
  show ?case
  proof (cases "col_name c = name")
    case False
    with 2 have IH: "Suc i \<le> j" "j < Suc i + length cs" "col_name (cs ! (j - Suc i)) = name"
      "\<forall>k < j - Suc i. col_name (cs ! k) \<noteq> name"
      by (simp_all split: if_splits)
    then have "(c # cs) ! (j - i) = cs ! (j - Suc i)" by (simp add: nth_Cons')
    moreover have "col_name ((c # cs) ! k) \<noteq> name" if "k < j - i" for k
      using that IH False by (cases k) auto
    ultimately show ?thesis using IH by auto
  qed (use 2 in simp)
qed simp

lemma first_column_None: "first_column i name cs = None \<longleftrightarrow> (\<forall>c \<in> set cs. col_name c \<noteq> name)"
  by (induction i name cs rule: first_column.induct) auto

end
