(* ===== verification/Catalog.thy ===== *)
theory Catalog
  imports BTree_Query Schema
begin

text \<open>
  \<open>CatalogManager\<close> of \<open>src/catalog/catalog_manager.cpp\<close>: the table and index schemas in
  memory and their byte image on page 1. The two hash maps are association lists; their
  iteration order, which the standard leaves open, is that of the list.
\<close>

section \<open>State\<close>

definition CATALOG_PAGE_ID :: u32 where "CATALOG_PAGE_ID = 1"

record catalogs = btrees +
  tables :: "(string \<times> table_schema) list"
  indexes :: "(string \<times> index_schema) list"

definition put_table :: "table_schema \<Rightarrow> ('a catalogs_scheme, unit) eff" where
  "put_table schema = modify (\<lambda>s. s\<lparr>tables := AList.update (ts_name schema) schema (tables s)\<rparr>)"

definition put_index :: "index_schema \<Rightarrow> ('a catalogs_scheme, unit) eff" where
  "put_index idx = modify (\<lambda>s. s\<lparr>indexes := AList.update (ix_name idx) idx (indexes s)\<rparr>)"

section \<open>Writing\<close>

definition write_uint32 :: "u32 \<Rightarrow> byte list" where
  "write_uint32 val = [ucast (drop_bit 0 val), ucast (drop_bit 8 val), ucast (drop_bit 16 val), ucast (drop_bit 24 val)]"

definition write_bool :: "bool \<Rightarrow> byte list" where
  "write_bool b = [if b then 1 else 0]"

definition write_string :: "string \<Rightarrow> byte list" where
  "write_string str = write_uint32 (word_of_nat (length str)) @ map byte_of str"

definition write_list :: "('x \<Rightarrow> byte list) \<Rightarrow> 'x list \<Rightarrow> byte list" where
  "write_list w xs = write_uint32 (word_of_nat (length xs)) @ concat (map w xs)"

fun write_value :: "db_value \<Rightarrow> byte list" where
  "write_value Null = [0]"
| "write_value (IntV i) = 1 # write_uint32 i"
| "write_value (FloatV f) = 2 # write_uint32 f"
| "write_value (BoolV b) = 3 # write_bool b"
| "write_value (StringV s) = 4 # write_string s"

definition write_column :: "column \<Rightarrow> byte list" where
  "write_column col = write_string (col_name col) @ [column_type_byte (col_type col)] @ write_uint32 (max_length col)
     @ write_bool (is_nullable col) @ write_bool (is_primary_key col) @ write_bool (auto_increment col)
     @ write_bool (has_default col) @ (if has_default col then write_value (default_value col) else [])"

definition write_check :: "check_constraint \<Rightarrow> byte list" where
  "write_check c = write_uint32 (ck_column_index c) @ [check_op_byte (ck_op c)] @ write_value (ck_operand c)"

definition write_foreign_key :: "foreign_key \<Rightarrow> byte list" where
  "write_foreign_key fk = write_list write_uint32 (fk_column_indices fk) @ write_string (fk_ref_table fk)
     @ write_list write_uint32 (fk_ref_column_indices fk) @ [on_delete_byte (fk_on_delete fk)]
     @ write_string (fk_child_index_name fk) @ write_string (fk_ref_index_name fk)"

definition write_table :: "table_schema \<Rightarrow> byte list" where
  "write_table t = write_string (ts_name t) @ write_uint32 (ts_root_page t)
     @ write_list write_uint32 (ts_primary_key_indices t) @ write_list write_column (ts_columns t)
     @ write_list write_check (ts_checks t) @ write_list write_foreign_key (ts_foreign_keys t)
     @ write_string (ts_create_sql t)"

definition write_index :: "index_schema \<Rightarrow> byte list" where
  "write_index i = write_string (ix_name i) @ write_string (ix_table_name i)
     @ write_list write_string (ix_column_names i) @ write_uint32 (ix_root_page i) @ write_bool (ix_is_unique i)"

definition catalog_bytes :: "(string \<times> table_schema) list \<Rightarrow> (string \<times> index_schema) list \<Rightarrow> byte list" where
  "catalog_bytes ts ixs = write_list (\<lambda>(_, t). write_table t) ts @ write_list (\<lambda>(_, i). write_index i) ixs"

definition catalog_serialize :: "('a catalogs_scheme, byte list) eff" where
  "catalog_serialize = gets (\<lambda>s. catalog_bytes (tables s) (indexes s))"

section \<open>Reading\<close>

text \<open>The readers index the vector without a check: behind its end they are undefined.\<close>

definition read_bool :: "byte list \<Rightarrow> exn + bool \<times> byte list" where
  "read_bool ptr = sbind (read_u8 ptr) (\<lambda>(b, ptr). Inr (b \<noteq> 0, ptr))"

definition read_text :: "byte list \<Rightarrow> exn + string \<times> byte list" where
  "read_text ptr = sbind (read_u32 ptr) (\<lambda>(len, ptr). read_string (unat len) ptr)"

fun read_many :: "nat \<Rightarrow> (byte list \<Rightarrow> exn + 'x \<times> byte list) \<Rightarrow> byte list \<Rightarrow> exn + 'x list \<times> byte list" where
  "read_many 0 r ptr = Inr ([], ptr)"
| "read_many (Suc n) r ptr = sbind (r ptr) (\<lambda>(x, ptr). sbind (read_many n r ptr) (\<lambda>(xs, ptr). Inr (x # xs, ptr)))"

definition read_list :: "(byte list \<Rightarrow> exn + 'x \<times> byte list) \<Rightarrow> byte list \<Rightarrow> exn + 'x list \<times> byte list" where
  "read_list r ptr = sbind (read_u32 ptr) (\<lambda>(n, ptr). read_many (unat n) r ptr)"

definition read_value :: "byte list \<Rightarrow> exn + db_value \<times> byte list" where
  "read_value ptr = sbind (read_u8 ptr) (\<lambda>(tag, ptr).
     if tag = 0 then Inr (Null, ptr)
     else if tag = 1 then sbind (read_u32 ptr) (\<lambda>(i, ptr). Inr (IntV i, ptr))
     else if tag = 2 then sbind (read_u32 ptr) (\<lambda>(f, ptr). Inr (FloatV f, ptr))
     else if tag = 3 then sbind (read_bool ptr) (\<lambda>(b, ptr). Inr (BoolV b, ptr))
     else if tag = 4 then sbind (read_text ptr) (\<lambda>(s, ptr). Inr (StringV s, ptr))
     else Inl (Runtime_error ''CatalogManager::read_value: unknown value tag''))"

definition read_column :: "byte list \<Rightarrow> exn + column \<times> byte list" where
  "read_column ptr = sbind (read_text ptr) (\<lambda>(name, ptr). sbind (read_u8 ptr) (\<lambda>(t, ptr).
     sbind (read_u32 ptr) (\<lambda>(len, ptr). sbind (read_bool ptr) (\<lambda>(nullable, ptr).
     sbind (read_bool ptr) (\<lambda>(pk, ptr). sbind (read_bool ptr) (\<lambda>(ai, ptr).
     sbind (read_bool ptr) (\<lambda>(has, ptr).
     sbind (if has then read_value ptr else Inr (Null, ptr)) (\<lambda>(def, ptr).
     Inr (\<lparr>col_name = name, col_type = column_type_of_byte t, max_length = len, is_nullable = nullable,
       is_primary_key = pk, auto_increment = ai, has_default = has, default_value = def\<rparr>, ptr)))))))))"

definition read_check :: "byte list \<Rightarrow> exn + check_constraint \<times> byte list" where
  "read_check ptr = sbind (read_u32 ptr) (\<lambda>(i, ptr). sbind (read_u8 ptr) (\<lambda>(op, ptr).
     sbind (read_value ptr) (\<lambda>(v, ptr).
     Inr (\<lparr>ck_column_index = i, ck_op = check_op_of_byte op, ck_operand = v\<rparr>, ptr))))"

definition read_foreign_key :: "byte list \<Rightarrow> exn + foreign_key \<times> byte list" where
  "read_foreign_key ptr = sbind (read_list read_u32 ptr) (\<lambda>(cols, ptr). sbind (read_text ptr) (\<lambda>(ref, ptr).
     sbind (read_list read_u32 ptr) (\<lambda>(rcols, ptr). sbind (read_u8 ptr) (\<lambda>(od, ptr).
     sbind (read_text ptr) (\<lambda>(child, ptr). sbind (read_text ptr) (\<lambda>(rix, ptr).
     Inr (\<lparr>fk_column_indices = cols, fk_ref_table = ref, fk_ref_column_indices = rcols,
       fk_on_delete = on_delete_of_byte od, fk_child_index_name = child, fk_ref_index_name = rix\<rparr>, ptr)))))))"

definition read_table :: "byte list \<Rightarrow> exn + table_schema \<times> byte list" where
  "read_table ptr = sbind (read_text ptr) (\<lambda>(name, ptr). sbind (read_u32 ptr) (\<lambda>(root, ptr).
     sbind (read_list read_u32 ptr) (\<lambda>(pks, ptr). sbind (read_list read_column ptr) (\<lambda>(cols, ptr).
     sbind (read_list read_check ptr) (\<lambda>(cks, ptr). sbind (read_list read_foreign_key ptr) (\<lambda>(fks, ptr).
     sbind (read_text ptr) (\<lambda>(sql, ptr).
     Inr (\<lparr>ts_name = name, ts_columns = cols, ts_root_page = root, ts_primary_key_indices = pks,
       ts_checks = cks, ts_foreign_keys = fks, ts_create_sql = sql\<rparr>, ptr))))))))"

definition read_index :: "byte list \<Rightarrow> exn + index_schema \<times> byte list" where
  "read_index ptr = sbind (read_text ptr) (\<lambda>(name, ptr). sbind (read_text ptr) (\<lambda>(tab, ptr).
     sbind (read_list read_text ptr) (\<lambda>(cols, ptr). sbind (read_u32 ptr) (\<lambda>(root, ptr).
     sbind (read_bool ptr) (\<lambda>(uniq, ptr).
     Inr (\<lparr>ix_name = name, ix_table_name = tab, ix_column_names = cols, ix_root_page = root, ix_is_unique = uniq\<rparr>, ptr))))))"

text \<open>The two loops put every schema into the map as it is read.\<close>

fun load_many :: "nat \<Rightarrow> (byte list \<Rightarrow> exn + 'x \<times> byte list) \<Rightarrow> ('x \<Rightarrow> ('s, unit) eff) \<Rightarrow> byte list \<Rightarrow> ('s, byte list) eff" where
  "load_many 0 r put ptr = ret ptr"
| "load_many (Suc n) r put ptr = bind (lift (r ptr)) (\<lambda>(x, ptr). andthen (put x) (load_many n r put ptr))"

definition load_list :: "(byte list \<Rightarrow> exn + 'x \<times> byte list) \<Rightarrow> ('x \<Rightarrow> ('s, unit) eff) \<Rightarrow> byte list \<Rightarrow> ('s, byte list) eff" where
  "load_list r put ptr = bind (lift (read_u32 ptr)) (\<lambda>(n, ptr). load_many (unat n) r put ptr)"

definition catalog_deserialize :: "byte list \<Rightarrow> ('a catalogs_scheme, unit) eff" where
  "catalog_deserialize data = andthen (modify (\<lambda>s. s\<lparr>tables := [], indexes := []\<rparr>))
     (if data = [] then ret ()
      else if length data < 4 then throw (Undefined_behaviour ''data[] out of range'')
      else if data ! 0 = 0 \<and> data ! 1 = 0 \<and> data ! 2 = 0 \<and> data ! 3 = 0 then ret ()
      else bind (load_list read_table put_table data) (\<lambda>ptr.
        bind (load_list read_index put_index ptr) (\<lambda>_. ret ())))"

section \<open>Operations\<close>

definition persist :: "('a catalogs_scheme, unit) eff" where
  "persist = bind catalog_serialize (\<lambda>data.
     if length data > PAGE_SIZE
       then throw (Runtime_error (''CatalogManager::persist: catalog exceeds one page '' @ em_dash @ '' too many tables/indexes''))
     else bind wal_begin (\<lambda>txn.
       andthen (wal_write txn CATALOG_PAGE_ID (overwrite 0 data zero_page)) (wal_commit txn)))"

definition catalog_load :: "bool \<Rightarrow> ('a catalogs_scheme, unit) eff" where
  "catalog_load is_new_database =
     (if is_new_database then bind new_page (\<lambda>(page_id, slot).
        if page_id \<noteq> CATALOG_PAGE_ID then throw (Runtime_error (''CatalogManager::load: expected catalog at page 1, got '' @ to_string (unat page_id)))
        else andthen (write_frame slot zero_page) (unpin_page page_id False))
      else bind (fetch_page CATALOG_PAGE_ID) (\<lambda>slot. bind (read_frame slot) (\<lambda>data.
        andthen (unpin_page CATALOG_PAGE_ID False) (catalog_deserialize data))))"

definition create_table :: "table_schema \<Rightarrow> ('a catalogs_scheme, unit) eff" where
  "create_table schema = bind (gets tables) (\<lambda>ts.
     if map_of ts (ts_name schema) \<noteq> None then throw (Runtime_error (''CatalogManager::create_table: table already exists: '' @ (ts_name schema)))
     else andthen (put_table schema) persist)"

definition drop_table :: "string \<Rightarrow> ('a catalogs_scheme, unit) eff" where
  "drop_table name = bind (gets tables) (\<lambda>ts.
     if map_of ts name = None then throw (Runtime_error (''CatalogManager::drop_table: table does not exist: '' @ name))
     else andthen (modify (\<lambda>s. s\<lparr>tables := AList.delete name (tables s)\<rparr>))
      (andthen (modify (\<lambda>s. s\<lparr>indexes := filter (\<lambda>(_, i). ix_table_name i \<noteq> name) (indexes s)\<rparr>))
       persist))"

definition get_table :: "string \<Rightarrow> ('a catalogs_scheme, table_schema) eff" where
  "get_table name = bind (gets tables) (\<lambda>ts. case map_of ts name of
     None \<Rightarrow> throw (Runtime_error (''CatalogManager::get_table: table does not exist: '' @ name)) | Some t \<Rightarrow> ret t)"

definition table_exists :: "string \<Rightarrow> ('a catalogs_scheme, bool) eff" where
  "table_exists name = gets (\<lambda>s. map_of (tables s) name \<noteq> None)"

definition list_tables :: "('a catalogs_scheme, string list) eff" where
  "list_tables = gets (\<lambda>s. map fst (tables s))"

definition create_index :: "index_schema \<Rightarrow> ('a catalogs_scheme, unit) eff" where
  "create_index idx = bind (gets indexes) (\<lambda>ixs.
     if map_of ixs (ix_name idx) \<noteq> None then throw (Runtime_error (''CatalogManager::create_index: index already exists: '' @ (ix_name idx)))
     else andthen (put_index idx) persist)"

definition drop_index :: "string \<Rightarrow> ('a catalogs_scheme, unit) eff" where
  "drop_index name = bind (gets indexes) (\<lambda>ixs.
     if map_of ixs name = None then throw (Runtime_error (''CatalogManager::drop_index: index does not exist: '' @ name))
     else andthen (modify (\<lambda>s. s\<lparr>indexes := AList.delete name (indexes s)\<rparr>)) persist)"

definition get_index :: "string \<Rightarrow> ('a catalogs_scheme, index_schema) eff" where
  "get_index name = bind (gets indexes) (\<lambda>ixs. case map_of ixs name of
     None \<Rightarrow> throw (Runtime_error (''CatalogManager::get_index: index does not exist: '' @ name)) | Some i \<Rightarrow> ret i)"

definition get_indexes_for_table :: "string \<Rightarrow> ('a catalogs_scheme, index_schema list) eff" where
  "get_indexes_for_table name = gets (\<lambda>s. filter (\<lambda>i. ix_table_name i = name) (map snd (indexes s)))"

definition get_foreign_keys_referencing :: "string \<Rightarrow> ('a catalogs_scheme, (string \<times> foreign_key) list) eff" where
  "get_foreign_keys_referencing parent = gets (\<lambda>s. concat (map (\<lambda>(_, t).
     map (Pair (ts_name t)) (filter (\<lambda>fk. fk_ref_table fk = parent) (ts_foreign_keys t))) (tables s)))"

definition update_table_root :: "string \<Rightarrow> u32 \<Rightarrow> ('a catalogs_scheme, unit) eff" where
  "update_table_root name root = bind (gets tables) (\<lambda>ts. case map_of ts name of
     None \<Rightarrow> throw (Runtime_error (''CatalogManager::update_table_root: table does not exist: '' @ name))
   | Some t \<Rightarrow> andthen (modify (\<lambda>s. s\<lparr>tables := AList.update name (t\<lparr>ts_root_page := root\<rparr>) (tables s)\<rparr>)) persist)"

definition update_index_root :: "string \<Rightarrow> u32 \<Rightarrow> ('a catalogs_scheme, unit) eff" where
  "update_index_root name root = bind (gets indexes) (\<lambda>ixs. case map_of ixs name of
     None \<Rightarrow> throw (Runtime_error (''CatalogManager::update_index_root: index does not exist: '' @ name))
   | Some i \<Rightarrow> andthen (modify (\<lambda>s. s\<lparr>indexes := AList.update name (i\<lparr>ix_root_page := root\<rparr>) (indexes s)\<rparr>)) persist)"

section \<open>The codec interface\<close>

text \<open>
  A writer and a reader of one format: the reader gives back what was written and leaves what
  followed. Lists of such values are one too, and a loading loop over a written list is the
  sequence of its puts.
\<close>

locale codec =
  fixes w :: "'x \<Rightarrow> byte list" and r :: "byte list \<Rightarrow> exn + 'x \<times> byte list" and good :: "'x \<Rightarrow> bool"
  assumes read_write: "good x \<Longrightarrow> r (w x @ rest) = Inr (x, rest)"
begin

lemma many: "list_all good xs \<Longrightarrow> read_many (length xs) r (concat (map w xs) @ rest) = Inr (xs, rest)"
  by (induction xs) (simp_all add: read_write)

lemma load: "list_all good xs \<Longrightarrow>
  load_many (length xs) r put (concat (map w xs) @ rest) = andthen (for_each put xs) (ret rest)"
  by (induction xs)
    (auto simp: read_write lift_def andthen_def bind_def ret_def fun_eq_iff split: prod.split sum.split)

end

lemma write_uint32_bytes: "write_uint32 = u32_bytes"
  by (simp add: fun_eq_iff write_uint32_def u32_bytes_def)

interpretation u32_codec: codec write_uint32 read_u32 "\<lambda>_. True"
  by unfold_locales (simp add: write_uint32_bytes codec_simps)

lemma read_list_write [codec_simps]:
  assumes "codec w r good" "list_all good xs" "length xs < 2 ^ 32"
  shows "read_list r (write_list w xs @ rest) = Inr (xs, rest)"
  using codec.many [OF assms(1,2)] assms(3) by (simp add: read_list_def write_list_def write_uint32_bytes codec_simps)

definition text_fits :: "string \<Rightarrow> bool" where
  "text_fits s \<longleftrightarrow> length s < 2 ^ 32"

lemma read_bool_write [codec_simps]: "read_bool (write_bool b @ rest) = Inr (b, rest)"
  by (simp add: read_bool_def write_bool_def codec_simps)

interpretation text_codec: codec write_string read_text text_fits
  by unfold_locales (simp add: write_string_def read_text_def write_uint32_bytes text_fits_def codec_simps)

interpretation value_codec: codec write_value read_value value_fits
proof unfold_locales
  fix x rest
  assume "value_fits x"
  then show "read_value (write_value x @ rest) = Inr (x, rest)"
    by (cases x) (simp_all add: read_value_def write_uint32_bytes codec_simps value_fits_def
        text_codec.read_write text_fits_def)
qed

lemmas catalog_codec = u32_codec.read_write text_codec.read_write value_codec.read_write
  u32_codec.codec_axioms text_codec.codec_axioms

definition column_fits :: "column \<Rightarrow> bool" where
  "column_fits c \<longleftrightarrow> text_fits (col_name c) \<and> proper_column_type (col_type c)
     \<and> (if has_default c then value_fits (default_value c) else default_value c = Null)"

interpretation column_codec: codec write_column read_column column_fits
proof unfold_locales
  fix c :: column and rest
  assume "column_fits c"
  then show "read_column (write_column c @ rest) = Inr (c, rest)"
    by (cases c) (auto simp: read_column_def write_column_def column_fits_def catalog_codec codec_simps split: if_splits)
qed

definition check_fits :: "check_constraint \<Rightarrow> bool" where
  "check_fits c \<longleftrightarrow> proper_check_op (ck_op c) \<and> value_fits (ck_operand c)"

interpretation check_codec: codec write_check read_check check_fits
proof unfold_locales
  fix c :: check_constraint and rest
  assume "check_fits c"
  then show "read_check (write_check c @ rest) = Inr (c, rest)"
    by (cases c) (simp add: read_check_def write_check_def check_fits_def catalog_codec codec_simps)
qed

definition foreign_key_fits :: "foreign_key \<Rightarrow> bool" where
  "foreign_key_fits k \<longleftrightarrow> length (fk_column_indices k) < 2 ^ 32 \<and> text_fits (fk_ref_table k)
     \<and> length (fk_ref_column_indices k) < 2 ^ 32 \<and> proper_on_delete (fk_on_delete k)
     \<and> text_fits (fk_child_index_name k) \<and> text_fits (fk_ref_index_name k)"

lemma list_all_True [simp]: "list_all (\<lambda>_. True) xs"
  by (simp add: list_all_iff)

interpretation foreign_key_codec: codec write_foreign_key read_foreign_key foreign_key_fits
proof unfold_locales
  fix k :: foreign_key and rest
  assume "foreign_key_fits k"
  then show "read_foreign_key (write_foreign_key k @ rest) = Inr (k, rest)"
    by (cases k) (simp add: read_foreign_key_def write_foreign_key_def foreign_key_fits_def catalog_codec
        codec_simps read_list_write [OF u32_codec.codec_axioms])
qed

definition table_fits :: "table_schema \<Rightarrow> bool" where
  "table_fits t \<longleftrightarrow> text_fits (ts_name t) \<and> text_fits (ts_create_sql t)
     \<and> length (ts_primary_key_indices t) < 2 ^ 32
     \<and> list_all column_fits (ts_columns t) \<and> length (ts_columns t) < 2 ^ 32
     \<and> list_all check_fits (ts_checks t) \<and> length (ts_checks t) < 2 ^ 32
     \<and> list_all foreign_key_fits (ts_foreign_keys t) \<and> length (ts_foreign_keys t) < 2 ^ 32"

interpretation table_codec: codec write_table read_table table_fits
proof unfold_locales
  fix t :: table_schema and rest
  assume "table_fits t"
  then show "read_table (write_table t @ rest) = Inr (t, rest)"
    by (cases t) (simp add: read_table_def write_table_def table_fits_def catalog_codec
        read_list_write [OF u32_codec.codec_axioms] read_list_write [OF column_codec.codec_axioms]
        read_list_write [OF check_codec.codec_axioms] read_list_write [OF foreign_key_codec.codec_axioms])
qed

definition index_fits :: "index_schema \<Rightarrow> bool" where
  "index_fits i \<longleftrightarrow> text_fits (ix_name i) \<and> text_fits (ix_table_name i)
     \<and> list_all text_fits (ix_column_names i) \<and> length (ix_column_names i) < 2 ^ 32"

interpretation index_codec: codec write_index read_index index_fits
proof unfold_locales
  fix i :: index_schema and rest
  assume "index_fits i"
  then show "read_index (write_index i @ rest) = Inr (i, rest)"
    by (cases i) (simp add: read_index_def write_index_def index_fits_def catalog_codec codec_simps
        read_list_write [OF text_codec.codec_axioms])
qed

section \<open>Loading what was serialized\<close>

text \<open>
  The maps of a catalog: one entry per name, under its own name, each storable.
\<close>

definition catalog_ok :: "(string \<times> table_schema) list \<Rightarrow> (string \<times> index_schema) list \<Rightarrow> bool" where
  "catalog_ok ts ixs \<longleftrightarrow> distinct (map fst ts) \<and> (\<forall>(k, t) \<in> set ts. k = ts_name t \<and> table_fits t)
     \<and> distinct (map fst ixs) \<and> (\<forall>(k, i) \<in> set ixs. k = ix_name i \<and> index_fits i)
     \<and> length ts < 2 ^ 32 \<and> length ixs < 2 ^ 32"

lemma update_append_new: "k \<notin> fst ` set xs \<Longrightarrow> AList.update k v xs = xs @ [(k, v)]"
  by (induction xs) auto

lemma for_each_put_table:
  assumes "distinct (map fst (tables s @ ts))" "\<forall>(k, t) \<in> set ts. k = ts_name t"
  shows "for_each put_table (map snd ts) s = (Inr (), s\<lparr>tables := tables s @ ts\<rparr>)"
  using assms
proof (induction ts arbitrary: s)
  case Nil
  then show ?case by (simp add: ret_def)
next
  case (Cons x ts)
  obtain k t where x: "x = (k, t)" by (cases x)
  have "for_each put_table (map snd ts) (s\<lparr>tables := tables s @ [x]\<rparr>) = (Inr (), s\<lparr>tables := tables s @ x # ts\<rparr>)"
    using Cons.IH [of "s\<lparr>tables := tables s @ [x]\<rparr>"] Cons.prems by simp
  moreover have "AList.update (ts_name t) t (tables s) = tables s @ [x]"
    using update_append_new [of k "tables s" t] Cons.prems x by auto
  then have "put_table t s = (Inr (), s\<lparr>tables := tables s @ [x]\<rparr>)" by (simp add: put_table_def modify_def)
  ultimately show ?case by (simp add: andthen_def bind_def x)
qed

lemma for_each_put_index:
  assumes "distinct (map fst (indexes s @ ts))" "\<forall>(k, t) \<in> set ts. k = ix_name t"
  shows "for_each put_index (map snd ts) s = (Inr (), s\<lparr>indexes := indexes s @ ts\<rparr>)"
  using assms
proof (induction ts arbitrary: s)
  case Nil
  then show ?case by (simp add: ret_def)
next
  case (Cons x ts)
  obtain k t where x: "x = (k, t)" by (cases x)
  have "for_each put_index (map snd ts) (s\<lparr>indexes := indexes s @ [x]\<rparr>) = (Inr (), s\<lparr>indexes := indexes s @ x # ts\<rparr>)"
    using Cons.IH [of "s\<lparr>indexes := indexes s @ [x]\<rparr>"] Cons.prems by simp
  moreover have "AList.update (ix_name t) t (indexes s) = indexes s @ [x]"
    using update_append_new [of k "indexes s" t] Cons.prems x by auto
  then have "put_index t s = (Inr (), s\<lparr>indexes := indexes s @ [x]\<rparr>)" by (simp add: put_index_def modify_def)
  ultimately show ?case by (simp add: andthen_def bind_def x)
qed

lemma load_list_write:
  assumes "codec w r good" "list_all good (map snd xs)" "length xs < 2 ^ 32"
  shows "load_list r put (write_list (\<lambda>(_, x). w x) xs @ rest) = andthen (for_each put (map snd xs)) (ret rest)"
proof -
  have m: "map (\<lambda>(_, x). w x) xs = map w (map snd xs)" by (induction xs) auto
  have "load_many (length (map snd xs)) r put (concat (map w (map snd xs)) @ rest)
    = andthen (for_each put (map snd xs)) (ret rest)"
    by (rule codec.load [OF assms(1,2)])
  then show ?thesis
    using assms(3)
    by (simp add: load_list_def write_list_def m write_uint32_bytes codec_simps lift_def)
      (simp add: fun_eq_iff bind_def ret_def)
qed

lemma deserialize_serialized:
  assumes "catalog_ok ts ixs" "ts \<noteq> [] \<or> ixs = []"
  shows "catalog_deserialize (catalog_bytes ts ixs @ rest) s = (Inr (), s\<lparr>tables := ts, indexes := ixs\<rparr>)"
proof -
  define data where "data = catalog_bytes ts ixs @ rest"
  let ?n = "word_of_nat (length ts) :: u32"
  have d: "data = u32_bytes ?n @ concat (map (\<lambda>(_, t). write_table t) ts) @ write_list (\<lambda>(_, i). write_index i) ixs @ rest"
    by (simp add: data_def catalog_bytes_def write_list_def write_uint32_bytes)
  have zero: "(data ! 0 = 0 \<and> data ! 1 = 0 \<and> data ! 2 = 0 \<and> data ! 3 = 0) = (ts = [])"
  proof -
    have "bytes_u32 data = ?n" by (simp add: d)
    moreover have "(?n = 0) = (ts = [])" using assms(1) word_unat_eq_iff [of ?n 0] by (simp add: catalog_ok_def del: of_nat_eq_0_iff word_of_nat_eq_0_iff)
    moreover have "ts = [] \<Longrightarrow> data ! 0 = 0 \<and> data ! 1 = 0 \<and> data ! 2 = 0 \<and> data ! 3 = 0"
      unfolding d by (simp add: u32_bytes_def)
    ultimately show ?thesis by (auto simp: bytes_u32_def)
  qed
  have len: "data \<noteq> []" "\<not> length data < 4" by (simp_all add: d u32_bytes_def)
  have ok: "list_all table_fits (map snd ts)" "list_all index_fits (map snd ixs)"
    using assms(1) by (auto simp: catalog_ok_def list_all_iff)
  have "catalog_deserialize data s = (Inr (), s\<lparr>tables := ts, indexes := ixs\<rparr>)"
  proof (cases "ts = []")
    case True
    with zero len assms(2) show ?thesis
      by (simp add: catalog_deserialize_def andthen_def bind_def modify_def ret_def)
  next
    case False
    have t: "load_list read_table put_table data = andthen (for_each put_table (map snd ts))
      (ret (write_list (\<lambda>(_, i). write_index i) ixs @ rest))"
      using load_list_write [OF table_codec.codec_axioms ok(1)] assms(1) by (simp add: data_def catalog_bytes_def catalog_ok_def)
    have i: "load_list read_index put_index (write_list (\<lambda>(_, i). write_index i) ixs @ rest)
      = andthen (for_each put_index (map snd ixs)) (ret rest)"
      using load_list_write [OF index_codec.codec_axioms ok(2)] assms(1) by (simp add: catalog_ok_def)
    have nz: "\<not> (data ! 0 = 0 \<and> data ! 1 = 0 \<and> data ! 2 = 0 \<and> data ! 3 = 0)" using zero False by simp
    define s0 where "s0 = s\<lparr>tables := [], indexes := []\<rparr>"
    have pt: "for_each put_table (map snd ts) s0 = (Inr (), s0\<lparr>tables := ts\<rparr>)"
      using for_each_put_table [of s0 ts] assms(1) by (auto simp: catalog_ok_def s0_def)
    have pi: "for_each put_index (map snd ixs) (s0\<lparr>tables := ts\<rparr>) = (Inr (), s0\<lparr>tables := ts, indexes := ixs\<rparr>)"
      using for_each_put_index [of "s0\<lparr>tables := ts\<rparr>" ixs] assms(1) by (auto simp: catalog_ok_def s0_def)
    have "catalog_deserialize data s = bind (load_list read_table put_table data) (\<lambda>ptr.
        bind (load_list read_index put_index ptr) (\<lambda>_. ret ())) s0"
      unfolding catalog_deserialize_def if_not_P [OF len(1)] if_not_P [OF len(2)] if_not_P [OF nz]
      by (simp add: andthen_def bind_def modify_def s0_def)
    also have "\<dots> = (Inr (), s0\<lparr>tables := ts, indexes := ixs\<rparr>)"
      by (simp add: t i bind_def andthen_def ret_def pt pi)
    finally show ?thesis by (simp add: s0_def)
  qed
  then show ?thesis by (simp add: data_def)
qed

section \<open>Persisting\<close>

lemma catalog_fields_kept:
  fixes s t :: "'a catalogs_scheme"
  shows "wal.more t = wal.more s \<Longrightarrow> tables t = tables s \<and> indexes t = indexes s \<and> roots t = roots s \<and> db_hdr t = db_hdr s"
  by (cases s; cases t) simp

lemma pool_state_catalog_updates [simp]:
  "pool_inv (tables_update f s) = pool_inv s" "view (tables_update f s) = view s" "pins (tables_update f s) = pins s"
  "pool_inv (indexes_update g s) = pool_inv s" "view (indexes_update g s) = view s" "pins (indexes_update g s) = pins s"
  by (rule pool_state_cong; simp)+

lemma pool_calm_catalog_updates [simp]:
  "pool_calm (tables_update f s) = pool_calm s" "pool_calm (indexes_update g s) = pool_calm s"
  by (simp_all add: pool_calm_def)

definition catalog_page :: "(string \<times> table_schema) list \<Rightarrow> (string \<times> index_schema) list \<Rightarrow> page" where
  "catalog_page ts ixs = overwrite 0 (catalog_bytes ts ixs) zero_page"

text \<open>The catalog is persisted: page 1 and the durable log hold it, nothing else changed.\<close>

definition persisted :: "'a catalogs_scheme \<Rightarrow> 'a catalogs_scheme \<Rightarrow> bool" where
  "persisted s t \<longleftrightarrow> pool_inv t \<and> pool_calm t \<and> total_pages t = total_pages s
     \<and> tables t = tables s \<and> indexes t = indexes s \<and> roots t = roots s \<and> db_hdr t = db_hdr s
     \<and> (\<forall>q < total_pages s. view t q = (if q = CATALOG_PAGE_ID then catalog_page (tables s) (indexes s) else view s q))
     \<and> wal_file t = wal_file s @ log_bytes [Page_write (next_transaction_id s) CATALOG_PAGE_ID
          (catalog_page (tables s) (indexes s)), Commit (next_transaction_id s)]
     \<and> wal_stable t = wal_file t"

lemma wp_persist:
  fixes s :: "'a catalogs_scheme"
  assumes "pool_inv s" "pool_calm s" "CATALOG_PAGE_ID < total_pages s" "length (catalog_bytes (tables s) (indexes s)) \<le> PAGE_SIZE"
  shows "wp persist (\<lambda>_. persisted s) (\<lambda>_ _. False) s"
proof -
  let ?p = "catalog_page (tables s) (indexes s)" and ?id = "next_transaction_id s"
  define u where "u = s\<lparr>next_transaction_id := ?id + 1,
    wal_file := wal_file s @ frame_bytes (Page_write ?id CATALOG_PAGE_ID ?p), active_pages := [(CATALOG_PAGE_ID, ?p)]\<rparr>"
  have io: "io s = []" using assms(2) by (simp add: pool_calm_def)
  have len: "length ?p = PAGE_SIZE" using assms(4) by (simp add: catalog_page_def)
  have run: "persist s = wal_commit ?id u"
    using io assms(4) run_wal_writes [of "s\<lparr>active_pages := [], next_transaction_id := ?id + 1\<rparr>" ?id "[(CATALOG_PAGE_ID, ?p)]"]
    by (simp add: persist_def catalog_serialize_def wal_begin_def bind_def andthen_def gets_def modify_def ret_def
        catalog_page_def u_def split: prod.splits sum.splits)
  have u: "pool_inv u" "pool_calm u" "total_pages u = total_pages s"
    using assms(1,2) by (simp_all add: u_def pool_calm_def)
  have a: "\<forall>(pid, p) \<in> set (active_pages u). length p = PAGE_SIZE" using len by (simp add: u_def)
  have "wp (wal_commit ?id) (\<lambda>_. persisted s) (\<lambda>_ _. False) u"
  proof (rule wp_mono [OF wp_wal_commit [OF u(1) a]], goal_cases)
    case (1 _ t)
    then have "tables t = tables s \<and> indexes t = indexes s \<and> roots t = roots s \<and> db_hdr t = db_hdr s"
      using catalog_fields_kept [of t u] by (simp add: commit_done_def u_def)
    with 1 io assms(2) show ?case by (auto simp: commit_done_def persisted_def u_def pool_calm_def)
  next
    case (2 e t)
    then show ?case using u assms(3) by (auto simp: commit_failed_def u_def)
  qed
  with run show ?thesis by (simp add: wp_def)
qed

lemma wp_catalog_load:
  fixes s :: "'a catalogs_scheme"
  assumes "pool_inv s" "pool_calm s" "CATALOG_PAGE_ID < total_pages s" "view s CATALOG_PAGE_ID = catalog_page ts ixs"
    "length (catalog_bytes ts ixs) \<le> PAGE_SIZE" "catalog_ok ts ixs" "ts \<noteq> [] \<or> ixs = []"
  shows "wp (catalog_load False) (\<lambda>_ t. tables t = ts \<and> indexes t = ixs \<and> roots t = roots s
      \<and> (\<forall>q < total_pages s. view t q = view s q)) (\<lambda>_ _. False) s"
proof -
  have cp: "catalog_page ts ixs = catalog_bytes ts ixs @ drop (length (catalog_bytes ts ixs)) zero_page"
    by (simp add: catalog_page_def overwrite_def)
  have r: "readable (view s) (total_pages s) s" using assms(1,2) by (simp add: readable_def)
  have "wp (read_node CATALOG_PAGE_ID Inr) (\<lambda>d t. d = catalog_page ts ixs \<and> reads (view s) (total_pages s) s t) (\<lambda>_ _. False) s"
    using wp_read_node [OF r assms(3), of Inr "catalog_page ts ixs"] assms(4) by simp
  then have "wp (read_node CATALOG_PAGE_ID Inr) (\<lambda>d. wp (catalog_deserialize d) (\<lambda>_ t. tables t = ts \<and> indexes t = ixs \<and> roots t = roots s
      \<and> (\<forall>q < total_pages s. view t q = view s q)) (\<lambda>_ _. False)) (\<lambda>_ _. False) s"
  proof (rule wp_mono, elim conjE)
    fix d t assume d: "d = catalog_page ts ixs" and t: "reads (view s) (total_pages s) s t"
    have "catalog_deserialize d t = (Inr (), t\<lparr>tables := ts, indexes := ixs\<rparr>)"
      using deserialize_serialized [OF assms(6,7)] d cp by simp
    moreover have "roots t = roots s" using t roots_of_more [of t s] by (simp add: reads_def)
    ultimately show "wp (catalog_deserialize d) (\<lambda>_ t. tables t = ts \<and> indexes t = ixs \<and> roots t = roots s
      \<and> (\<forall>q < total_pages s. view t q = view s q)) (\<lambda>_ _. False) t"
      using t by (simp add: wp_def reads_def readable_def)
  qed simp
  moreover have "catalog_load False = (bind (read_node CATALOG_PAGE_ID Inr) catalog_deserialize :: ('a catalogs_scheme, unit) eff)"
    by (simp add: catalog_load_def read_node_def lift_def fun_eq_iff bind_def andthen_def ret_def split: prod.split sum.split)
  ultimately show ?thesis by (simp add: wp_bind)
qed

section \<open>Properties\<close>

text \<open>
  The catalog round-trips through its bytes: any set of tables (columns with
  defaults, CHECK and FOREIGN KEY constraints, composite keys, the CREATE text) and indexes
  with distinct names is rebuilt exactly from what \<open>serialize\<close> wrote, whatever follows it
  on the page.
\<close>

lemma catalog_roundtrip:
  assumes "catalog_ok ts ixs" "ts \<noteq> [] \<or> ixs = []"
  shows "catalog_deserialize (catalog_bytes ts ixs @ rest) s = (Inr (), s\<lparr>tables := ts, indexes := ixs\<rparr>)"
  by (rule deserialize_serialized [OF assms])

definition sample_table :: table_schema where
  "sample_table = \<lparr>ts_name = ''t'', ts_columns = [\<lparr>col_name = ''id'', col_type = CT_INT, max_length = 0,
       is_nullable = False, is_primary_key = True, auto_increment = True, has_default = False, default_value = Null\<rparr>,
     \<lparr>col_name = ''n'', col_type = CT_VARCHAR, max_length = 20, is_nullable = True, is_primary_key = False,
       auto_increment = False, has_default = True, default_value = StringV ''x''\<rparr>],
     ts_root_page = 2, ts_primary_key_indices = [0], ts_checks = [\<lparr>ck_column_index = 0, ck_op = CK_GT, ck_operand = IntV 0\<rparr>],
     ts_foreign_keys = [\<lparr>fk_column_indices = [1], fk_ref_table = ''p'', fk_ref_column_indices = [0],
       fk_on_delete = CASCADE, fk_child_index_name = ''i'', fk_ref_index_name = []\<rparr>], ts_create_sql = ''c''\<rparr>"

definition sample_index :: index_schema where
  "sample_index = \<lparr>ix_name = ''i'', ix_table_name = ''t'', ix_column_names = [''n''], ix_root_page = 3, ix_is_unique = False\<rparr>"

lemma sample_catalog_ok:
  "catalog_ok [(''t'', sample_table)] [(''i'', sample_index)]" "catalog_ok [(''t'', sample_table\<lparr>ts_root_page := 3\<rparr>)] []"
  by (simp_all add: catalog_ok_def sample_table_def sample_index_def table_fits_def index_fits_def text_fits_def
      column_fits_def check_fits_def foreign_key_fits_def proper_column_type_def proper_check_op_def
      proper_on_delete_def value_fits_def)

definition sample_catalogs :: "(string \<times> table_schema) list \<Rightarrow> (string \<times> index_schema) list \<Rightarrow> catalogs" where
  "sample_catalogs ts ixs = btrees.extend sample_btrees \<lparr>tables = ts, indexes = ixs\<rparr>"

lemma catalog_roundtrip_example:
  "final (catalog_deserialize (catalog_bytes [(''t'', sample_table)] [(''i'', sample_index)] @ [0, 0])
     (sample_catalogs [] [])) = (sample_catalogs [] [])\<lparr>tables := [(''t'', sample_table)], indexes := [(''i'', sample_index)]\<rparr>"
  using catalog_roundtrip [OF sample_catalog_ok(1), of "[0, 0]" "sample_catalogs [] []"] by (simp add: final_def)

text \<open>A restart: the memory copy is lost and loaded again.\<close>

definition reload :: "('a catalogs_scheme, unit) eff" where
  "reload = andthen (modify (\<lambda>s. s\<lparr>tables := [], indexes := []\<rparr>)) (catalog_load False)"

definition survives :: "(string \<times> table_schema) list \<Rightarrow> (string \<times> index_schema) list \<Rightarrow> ('a catalogs_scheme, unit) eff
    \<Rightarrow> 'a catalogs_scheme \<Rightarrow> bool" where
  "survives ts ixs op s \<longleftrightarrow>
     wp (andthen op reload) (\<lambda>_ t. tables t = ts \<and> indexes t = ixs
       \<and> (\<forall>q < total_pages s. q \<noteq> CATALOG_PAGE_ID \<longrightarrow> view t q = view s q)) (\<lambda>_ _. False) s
   \<and> wp op (\<lambda>_ t. wal_stable t = wal_file s @ log_bytes [Page_write (next_transaction_id s) CATALOG_PAGE_ID (catalog_page ts ixs),
       Commit (next_transaction_id s)]) (\<lambda>_ _. False) s"

lemma persist_survives:
  fixes s :: "'a catalogs_scheme"
  assumes "pool_inv s" "pool_calm s" "CATALOG_PAGE_ID < total_pages s" "length (catalog_bytes (tables s) (indexes s)) \<le> PAGE_SIZE"
    "catalog_ok (tables s) (indexes s)" "tables s \<noteq> [] \<or> indexes s = []"
  shows "survives (tables s) (indexes s) persist s"
proof -
  let ?Q = "\<lambda>_ t. tables t = tables s \<and> indexes t = indexes s
       \<and> (\<forall>q < total_pages s. q \<noteq> CATALOG_PAGE_ID \<longrightarrow> view t q = view s q)"
  have "wp reload ?Q (\<lambda>_ _. False) t" if t: "persisted s t" for t
  proof -
    let ?t = "t\<lparr>tables := [], indexes := []\<rparr>"
    have "wp (catalog_load False) (\<lambda>_ u. tables u = tables s \<and> indexes u = indexes s \<and> roots u = roots ?t
      \<and> (\<forall>q < total_pages ?t. view u q = view ?t q)) (\<lambda>_ _. False) ?t"
      by (rule wp_catalog_load) (use t assms in \<open>auto simp: persisted_def\<close>)
    then have "wp (catalog_load False) ?Q (\<lambda>_ _. False) ?t"
      by (rule wp_mono) (use t in \<open>auto simp: persisted_def\<close>)
    then show ?thesis by (simp add: reload_def wp_andthen wp_modify)
  qed
  then show ?thesis
    unfolding survives_def wp_andthen
    using wp_mono [OF wp_persist [OF assms(1-4)]] by (auto simp: persisted_def elim!: wp_mono [OF wp_persist [OF assms(1-4)]])
qed

lemma survives_after:
  assumes "survives ts ixs persist (f s)" "\<And>q. view (f s) q = view s q" "total_pages (f s) = total_pages s"
    "wal_file (f s) = wal_file s" "next_transaction_id (f s) = next_transaction_id s"
  shows "survives ts ixs (andthen (modify f) persist) s"
  using assms by (simp add: survives_def wp_andthen wp_modify)

lemma set_update: "\<forall>x \<in> set (AList.update k v xs). x = (k, v) \<or> x \<in> set xs"
  by (induction xs) auto

lemma length_update: "length (AList.update k v xs) \<le> length xs + 1"
  by (induction xs) auto

lemma set_delete: "set (AList.delete k xs) \<subseteq> set xs"
  by (induction xs) auto

lemma update_not_Nil [simp]: "AList.update k v xs \<noteq> []"
  by (cases xs) auto

lemma catalog_ok_tables:
  assumes "catalog_ok ts ixs"
  shows "table_fits t \<Longrightarrow> length ts + 1 < 2 ^ 32 \<Longrightarrow> catalog_ok (AList.update (ts_name t) t ts) ixs"
    "catalog_ok (AList.delete name ts) (filter P ixs)"
proof -
  show "catalog_ok (AList.update (ts_name t) t ts) ixs" if "table_fits t" "length ts + 1 < 2 ^ 32"
    using assms that set_update [of "ts_name t" t ts] length_update [of "ts_name t" t ts]
    unfolding catalog_ok_def by (auto simp: distinct_update)
  have "distinct (map fst (filter P ixs))" using assms by (simp add: catalog_ok_def distinct_map_filter)
  then show "catalog_ok (AList.delete name ts) (filter P ixs)"
    using assms length_delete_le [of name ts] set_delete [of name ts]
    by (auto simp: catalog_ok_def distinct_delete intro: le_less_trans [OF length_filter_le])
qed

lemma catalog_ok_indexes:
  assumes "catalog_ok ts ixs"
  shows "index_fits i \<Longrightarrow> length ixs + 1 < 2 ^ 32 \<Longrightarrow> catalog_ok ts (AList.update (ix_name i) i ixs)"
    "catalog_ok ts (AList.delete name ixs)"
proof -
  show "catalog_ok ts (AList.update (ix_name i) i ixs)" if "index_fits i" "length ixs + 1 < 2 ^ 32"
    using assms that set_update [of "ix_name i" i ixs] length_update [of "ix_name i" i ixs]
    unfolding catalog_ok_def by (auto simp: distinct_update)
  show "catalog_ok ts (AList.delete name ixs)"
    using assms length_delete_le [of name ixs] set_delete [of name ixs]
    by (auto simp: catalog_ok_def distinct_delete)
qed

text \<open>Every change sets the two maps and then persists.\<close>

lemma change_survives:
  fixes s :: "'a catalogs_scheme"
  assumes "pool_inv s" "pool_calm s" "CATALOG_PAGE_ID < total_pages s"
    "catalog_ok ts ixs" "length (catalog_bytes ts ixs) \<le> PAGE_SIZE" "ts \<noteq> [] \<or> ixs = []"
    "f s = s\<lparr>tables := ts, indexes := ixs\<rparr>"
  shows "survives ts ixs (andthen (modify f) persist) s"
proof -
  have "survives (tables (f s)) (indexes (f s)) persist (f s)"
    by (rule persist_survives) (use assms in simp_all)
  then show ?thesis by (intro survives_after) (simp_all add: assms(7))
qed

text \<open>
  Property C17. A change of the catalog survives a restart: creating a table, dropping one with
  all its indexes, moving a table's root, creating an index, dropping one, and moving an index's root each
  leave page 1 and the durable log with a
  catalog that \<open>load\<close> reads back as exactly the new maps, and no other page changes, as long
  as the new catalog fits its page and is not one of indexes without tables.
\<close>

theorem catalog_changes_survive:
  fixes s :: "'a catalogs_scheme"
  assumes "pool_inv s" "pool_calm s" "CATALOG_PAGE_ID < total_pages s" "catalog_ok (tables s) (indexes s)"
    "length (tables s) + 1 < 2 ^ 32" "length (indexes s) + 1 < 2 ^ 32"
  shows "(let ts = AList.update (ts_name t) t (tables s) in
      map_of (tables s) (ts_name t) = None \<and> table_fits t \<and> length (catalog_bytes ts (indexes s)) \<le> PAGE_SIZE
      \<longrightarrow> survives ts (indexes s) (create_table t) s)
    \<and> (let ts = AList.delete name (tables s); ixs = filter (\<lambda>(_, i). ix_table_name i \<noteq> name) (indexes s) in
      map_of (tables s) name \<noteq> None \<and> length (catalog_bytes ts ixs) \<le> PAGE_SIZE \<and> (ts \<noteq> [] \<or> ixs = [])
      \<longrightarrow> survives ts ixs (drop_table name) s)
    \<and> (\<forall>u. let ts = AList.update name (u\<lparr>ts_root_page := root\<rparr>) (tables s) in
      map_of (tables s) name = Some u \<and> length (catalog_bytes ts (indexes s)) \<le> PAGE_SIZE
      \<longrightarrow> survives ts (indexes s) (update_table_root name root) s)
    \<and> (let ixs = AList.update (ix_name i) i (indexes s) in
      map_of (indexes s) (ix_name i) = None \<and> index_fits i \<and> length (catalog_bytes (tables s) ixs) \<le> PAGE_SIZE \<and> tables s \<noteq> []
      \<longrightarrow> survives (tables s) ixs (create_index i) s)
    \<and> (let ixs = AList.delete name (indexes s) in
      map_of (indexes s) name \<noteq> None \<and> length (catalog_bytes (tables s) ixs) \<le> PAGE_SIZE \<and> (tables s \<noteq> [] \<or> ixs = [])
      \<longrightarrow> survives (tables s) ixs (drop_index name) s)
    \<and> (\<forall>j. let ixs = AList.update name (j\<lparr>ix_root_page := root\<rparr>) (indexes s) in
      map_of (indexes s) name = Some j \<and> length (catalog_bytes (tables s) ixs) \<le> PAGE_SIZE \<and> tables s \<noteq> []
      \<longrightarrow> survives (tables s) ixs (update_index_root name root) s)"
    (is "?create \<and> ?drop \<and> ?move \<and> ?create' \<and> ?drop' \<and> ?move'")
proof (intro conjI)
  note change = change_survives [OF assms(1-3)]
  note T = catalog_ok_tables [OF assms(4)] and I = catalog_ok_indexes [OF assms(4)]
  have s: "s\<lparr>tables := ts\<rparr> = s\<lparr>tables := ts, indexes := indexes s\<rparr>" "s\<lparr>indexes := ixs\<rparr> = s\<lparr>tables := tables s, indexes := ixs\<rparr>" for ts ixs
    by simp_all
  show ?create unfolding Let_def
  proof (intro impI, elim conjE)
    assume a: "map_of (tables s) (ts_name t) = None" "table_fits t"
      "length (catalog_bytes (AList.update (ts_name t) t (tables s)) (indexes s)) \<le> PAGE_SIZE"
    have "survives (AList.update (ts_name t) t (tables s)) (indexes s)
        (andthen (modify (\<lambda>s. s\<lparr>tables := AList.update (ts_name t) t (tables s)\<rparr>)) persist) s"
      by (rule change) (use a T(1) assms(5) s in simp_all)
    with a(1) show "survives (AList.update (ts_name t) t (tables s)) (indexes s) (create_table t) s"
      by (simp add: survives_def create_table_def put_table_def wp_bind wp_gets wp_andthen)
  qed
  show ?drop unfolding Let_def
  proof (intro impI, elim conjE)
    let ?ts = "AList.delete name (tables s)" and ?ixs = "filter (\<lambda>(_, i). ix_table_name i \<noteq> name) (indexes s)"
    assume a: "map_of (tables s) name \<noteq> None" "length (catalog_bytes ?ts ?ixs) \<le> PAGE_SIZE" "?ts \<noteq> [] \<or> ?ixs = []"
    have "survives ?ts ?ixs (andthen (modify (\<lambda>s. s\<lparr>tables := AList.delete name (tables s),
        indexes := filter (\<lambda>(_, i). ix_table_name i \<noteq> name) (indexes s)\<rparr>)) persist) s"
      by (rule change) (use a T(2) in simp_all)
    with a(1) show "survives ?ts ?ixs (drop_table name) s"
      by (auto simp: survives_def drop_table_def wp_bind wp_gets wp_andthen wp_modify)
  qed
  show ?move unfolding Let_def
  proof (intro allI impI, elim conjE)
    fix u :: table_schema let ?u = "u\<lparr>ts_root_page := root\<rparr>"
    assume a: "map_of (tables s) name = Some u" "length (catalog_bytes (AList.update name ?u (tables s)) (indexes s)) \<le> PAGE_SIZE"
    have "(name, u) \<in> set (tables s)" by (rule map_of_SomeD [OF a(1)])
    then have u: "ts_name ?u = name" "table_fits ?u" using assms(4) by (auto simp: catalog_ok_def table_fits_def)
    have "survives (AList.update name ?u (tables s)) (indexes s)
        (andthen (modify (\<lambda>s. s\<lparr>tables := AList.update name ?u (tables s)\<rparr>)) persist) s"
      by (rule change) (use a(2) T(1) [OF u(2)] u(1) assms(5) s in simp_all)
    with a(1) show "survives (AList.update name ?u (tables s)) (indexes s) (update_table_root name root) s"
      by (simp add: survives_def update_table_root_def wp_bind wp_gets wp_andthen del: map_of_eq_Some_iff)
  qed
  show ?create' unfolding Let_def
  proof (intro impI, elim conjE)
    assume a: "map_of (indexes s) (ix_name i) = None" "index_fits i"
      "length (catalog_bytes (tables s) (AList.update (ix_name i) i (indexes s))) \<le> PAGE_SIZE" "tables s \<noteq> []"
    have "survives (tables s) (AList.update (ix_name i) i (indexes s))
        (andthen (modify (\<lambda>s. s\<lparr>indexes := AList.update (ix_name i) i (indexes s)\<rparr>)) persist) s"
      by (rule change) (use a I(1) assms(6) s in simp_all)
    with a(1) show "survives (tables s) (AList.update (ix_name i) i (indexes s)) (create_index i) s"
      by (simp add: survives_def create_index_def put_index_def wp_bind wp_gets wp_andthen)
  qed
  show ?drop' unfolding Let_def
  proof (intro impI, elim conjE)
    let ?ixs = "AList.delete name (indexes s)"
    assume a: "map_of (indexes s) name \<noteq> None" "length (catalog_bytes (tables s) ?ixs) \<le> PAGE_SIZE" "tables s \<noteq> [] \<or> ?ixs = []"
    have "survives (tables s) ?ixs (andthen (modify (\<lambda>s. s\<lparr>indexes := AList.delete name (indexes s)\<rparr>)) persist) s"
      by (rule change) (use a I(2) s in simp_all)
    with a(1) show "survives (tables s) ?ixs (drop_index name) s"
      by (auto simp: survives_def drop_index_def wp_bind wp_gets wp_andthen)
  qed
  show ?move' unfolding Let_def
  proof (intro allI impI, elim conjE)
    fix j :: index_schema let ?j = "j\<lparr>ix_root_page := root\<rparr>"
    assume a: "map_of (indexes s) name = Some j" "length (catalog_bytes (tables s) (AList.update name ?j (indexes s))) \<le> PAGE_SIZE" "tables s \<noteq> []"
    have "(name, j) \<in> set (indexes s)" by (rule map_of_SomeD [OF a(1)])
    then have j: "ix_name ?j = name" "index_fits ?j" using assms(4) by (auto simp: catalog_ok_def index_fits_def)
    have "survives (tables s) (AList.update name ?j (indexes s))
        (andthen (modify (\<lambda>s. s\<lparr>indexes := AList.update name ?j (indexes s)\<rparr>)) persist) s"
      by (rule change) (use a(2,3) I(1) [OF j(2)] j(1) assms(6) s in simp_all)
    with a(1) show "survives (tables s) (AList.update name ?j (indexes s)) (update_index_root name root) s"
      by (simp add: survives_def update_index_root_def wp_bind wp_gets wp_andthen del: map_of_eq_Some_iff)
  qed
qed

lemma sample_catalogs_ok:
  "pool_inv (sample_catalogs ts ixs)" "pool_calm (sample_catalogs ts ixs)" "CATALOG_PAGE_ID < total_pages (sample_catalogs ts ixs)"
  "tables (sample_catalogs ts ixs) = ts" "indexes (sample_catalogs ts ixs) = ixs"
proof -
  let ?s = "sample_catalogs ts ixs"
  have f: "db_file ?s = db_file sample_btrees" "total_pages ?s = total_pages sample_btrees"
    "frames ?s = frames sample_btrees" "frame_metas ?s = frame_metas sample_btrees"
    "page_table ?s = page_table sample_btrees" "lru_list ?s = lru_list sample_btrees" "io ?s = io sample_btrees"
    by (simp_all add: sample_catalogs_def btrees.defs)
  note c = sample_tree_at [of 0, unfolded tree_at_def]
  have p: "pool_inv ?s = pool_inv sample_btrees" "pins ?s = pins sample_btrees"
    using f by (simp_all add: pool_inv_def disk_inv_def frames_ok_def table_ok_def slot_ok_def disk_page_def
        pins_def fun_eq_iff Let_def split: option.split)
  show "pool_inv ?s" "pool_calm ?s" using p f(7) c by (simp_all add: pool_calm_def)
  have "total_pages sample_btrees = 4" by (simp add: sample_btrees_def pages_btrees_def sample_pages_def
      pages_disk_def pool_open_def hdr.defs wal.defs pool.defs disk.defs)
  then show "CATALOG_PAGE_ID < total_pages ?s" by (simp add: f(2) CATALOG_PAGE_ID_def)
qed (simp_all add: sample_catalogs_def btrees.defs)

theorem catalog_changes_survive_witness:
  "survives [(''t'', sample_table)] [] (create_table sample_table) (sample_catalogs [] [])
   \<and> survives [(''t'', sample_table)] [(''i'', sample_index)] (create_index sample_index) (sample_catalogs [(''t'', sample_table)] [])"
proof
  have n: "ts_name sample_table = ''t''" "ix_name sample_index = ''i''" "table_fits sample_table" "index_fits sample_index"
    "catalog_ok [] []" "catalog_ok [(''t'', sample_table)] []"
    using sample_catalog_ok(1) by (simp_all add: sample_table_def sample_index_def catalog_ok_def)
  have l: "length (catalog_bytes [(''t'', sample_table)] []) \<le> PAGE_SIZE"
    "length (catalog_bytes [(''t'', sample_table)] [(''i'', sample_index)]) \<le> PAGE_SIZE"
    by (simp_all add: catalog_bytes_def write_list_def write_table_def write_column_def write_check_def write_index_def
        write_foreign_key_def write_string_def write_uint32_bytes write_bool_def sample_table_def sample_index_def PAGE_SIZE_def)
  show "survives [(''t'', sample_table)] [] (create_table sample_table) (sample_catalogs [] [])"
    using catalog_changes_survive [OF sample_catalogs_ok(1-3), of "[]" "[]" sample_table "[]" 0 sample_index] n l(1)
    by (simp add: sample_catalogs_ok Let_def)
  show "survives [(''t'', sample_table)] [(''i'', sample_index)] (create_index sample_index) (sample_catalogs [(''t'', sample_table)] [])"
    using catalog_changes_survive [OF sample_catalogs_ok(1-3), of "[(''t'', sample_table)]" "[]" sample_table "[]" 0 sample_index] n l(2)
    by (simp add: sample_catalogs_ok Let_def)
qed

text \<open>
  A change that does not fit is refused too late: when the new catalog exceeds the
  page, \<open>create_table\<close> throws without touching the log or any page, but the table stays in
  memory, so that until the next start it exists for every query and no other change of the
  catalog can succeed.
\<close>

lemma oversized_catalog:
  assumes "map_of (tables s) (ts_name t) = None"
    "PAGE_SIZE < length (catalog_bytes (AList.update (ts_name t) t (tables s)) (indexes s))"
  shows "\<exists>e. create_table t s = (Inl e, s\<lparr>tables := AList.update (ts_name t) t (tables s)\<rparr>)
    \<and> result (table_exists (ts_name t) (final (create_table t s))) = Inr True"
  using assms
  by (simp add: create_table_def put_table_def persist_def catalog_serialize_def bind_def andthen_def gets_def
      modify_def throw_def table_exists_def final_def result_def update_conv')

lemma oversized_catalog_example:
  "\<exists>e u. create_table (sample_table\<lparr>ts_create_sql := replicate 5000 CHR ''x''\<rparr>) (sample_catalogs [] []) = (Inl e, u)
     \<and> wal_file u = wal_file (sample_catalogs [] [])"
proof -
  let ?t = "sample_table\<lparr>ts_create_sql := replicate 5000 CHR ''x''\<rparr>"
  have "PAGE_SIZE < length (catalog_bytes [(ts_name ?t, ?t)] [])"
    by (simp add: catalog_bytes_def write_list_def write_table_def write_string_def write_uint32_bytes PAGE_SIZE_def)
  then show ?thesis using oversized_catalog [of "sample_catalogs [] []" ?t] by (auto simp: sample_catalogs_ok)
qed

end
