(* ===== verification/Index.thy ===== *)
theory Index
  imports Catalog
begin

text \<open>
  \<open>Index\<close> of \<open>src/index/index.cpp\<close>: a secondary index is a tree whose keys are the indexed
  values followed by the row's primary key, with empty values. An object is the schema it
  refers to, the width of the primary key and the handle of its tree.
\<close>

section \<open>State\<close>

record index =
  in_schema :: index_schema
  in_pk_arity :: nat
  in_tree :: nat

text \<open>Every \<open>BTree\<close> object made gets the next handle.\<close>

record objects = catalogs +
  next_tree :: nat

definition new_tree :: "u32 \<Rightarrow> ('a objects_scheme, nat) eff" where
  "new_tree root = bind (gets next_tree) (\<lambda>h.
     andthen (modify (\<lambda>s. s\<lparr>next_tree := Suc h\<rparr>)) (andthen (btree_open h root) (ret h)))"

definition new_index :: "index_schema \<Rightarrow> nat \<Rightarrow> ('a objects_scheme, index) eff" where
  "new_index schema pk_arity = bind (new_tree (ix_root_page schema)) (\<lambda>h.
     ret \<lparr>in_schema = schema, in_pk_arity = pk_arity, in_tree = h\<rparr>)"

definition index_root_page :: "index \<Rightarrow> ('a btrees_scheme, u32) eff" where
  "index_root_page ix = root_page (in_tree ix)"

section \<open>Entries\<close>

definition quoted :: "string \<Rightarrow> string" where
  "quoted name = CHR 0x27 # name @ [CHR 0x27]"

definition is_indexable :: "key \<Rightarrow> bool" where
  "is_indexable indexed_value = (\<not> list_ex is_null indexed_value)"

definition columns_of :: "index \<Rightarrow> nat" where
  "columns_of ix = length (ix_column_names (in_schema ix))"

definition make_entry_key :: "index \<Rightarrow> key \<Rightarrow> key \<Rightarrow> exn + key" where
  "make_entry_key ix indexed_value pk =
     (if length indexed_value \<noteq> columns_of ix then
        Inl (Runtime_error (''Index::make_entry_key: indexed_value arity ('' @ to_string (length indexed_value)
          @ '') does not match index '' @ quoted (ix_name (in_schema ix)) @ '' ('' @ to_string (columns_of ix) @ '')''))
      else if length pk \<noteq> in_pk_arity ix then
        Inl (Runtime_error (''Index::make_entry_key: primary_key arity ('' @ to_string (length pk)
          @ '') does not match table primary key arity ('' @ to_string (in_pk_arity ix) @ '')''))
      else Inr (indexed_value @ pk))"

definition unique_violation :: "index \<Rightarrow> exn" where
  "unique_violation ix = Runtime_error (''Index::insert_entry: duplicate value violates unique index ''
     @ quoted (ix_name (in_schema ix)))"

definition check_unique :: "index \<Rightarrow> key \<Rightarrow> key \<Rightarrow> ('a btrees_scheme, unit) eff" where
  "check_unique ix indexed_value pk =
     (if \<not> ix_is_unique (in_schema ix) then ret ()
      else bind (prefix_scan (in_tree ix) indexed_value) (for_each (\<lambda>(existing_key, _).
        if \<not> key_eq (drop (length indexed_value) existing_key) pk then throw (unique_violation ix) else ret ())))"

definition insert_entry :: "index \<Rightarrow> u32 \<Rightarrow> key \<Rightarrow> key \<Rightarrow> ('a btrees_scheme, unit) eff" where
  "insert_entry ix transaction_id indexed_value pk =
     (if \<not> is_indexable indexed_value then ret ()
      else andthen (check_unique ix indexed_value pk)
        (bind (lift (make_entry_key ix indexed_value pk)) (\<lambda>entry_key.
         btree_insert (in_tree ix) transaction_id entry_key [])))"

definition insert_entry_alone :: "index \<Rightarrow> key \<Rightarrow> key \<Rightarrow> ('a btrees_scheme, unit) eff" where
  "insert_entry_alone ix indexed_value pk =
     (if \<not> is_indexable indexed_value then ret ()
      else andthen (check_unique ix indexed_value pk)
        (bind (lift (make_entry_key ix indexed_value pk)) (\<lambda>entry_key.
         btree_insert_txn (in_tree ix) entry_key [])))"

definition remove_entry :: "index \<Rightarrow> u32 \<Rightarrow> key \<Rightarrow> key \<Rightarrow> ('a btrees_scheme, unit) eff" where
  "remove_entry ix transaction_id indexed_value pk =
     (if \<not> is_indexable indexed_value then ret ()
      else bind (lift (make_entry_key ix indexed_value pk)) (btree_remove (in_tree ix) transaction_id))"

definition remove_entry_alone :: "index \<Rightarrow> key \<Rightarrow> key \<Rightarrow> ('a btrees_scheme, unit) eff" where
  "remove_entry_alone ix indexed_value pk =
     (if \<not> is_indexable indexed_value then ret ()
      else bind (lift (make_entry_key ix indexed_value pk)) (btree_remove_txn (in_tree ix)))"

section \<open>Lookups\<close>

text \<open>The two vectors built from a key's iterators; a key shorter than the split is undefined.\<close>

definition split_key :: "nat \<Rightarrow> key \<Rightarrow> exn + key \<times> key" where
  "split_key n k = (if length k < n then Inl (Undefined_behaviour ''key.begin() + n behind the key'')
     else Inr (take n k, drop n k))"

definition too_wide :: "string \<Rightarrow> index \<Rightarrow> key \<Rightarrow> exn" where
  "too_wide who ix v = Runtime_error (who @ '': search value has more columns ('' @ to_string (length v)
     @ '') than index '' @ quoted (ix_name (in_schema ix)) @ '' indexes ('' @ to_string (columns_of ix) @ '')'')"

definition find_with_values_by :: "string \<Rightarrow> index \<Rightarrow> key \<Rightarrow> ('a btrees_scheme, (key \<times> key) list) eff" where
  "find_with_values_by who ix indexed_value =
     (if \<not> is_indexable indexed_value then ret []
      else if length indexed_value > columns_of ix then throw (too_wide who ix indexed_value)
      else bind (prefix_scan (in_tree ix) indexed_value) (\<lambda>entries.
        lift (smap (\<lambda>(key, _). split_key (columns_of ix) key) entries)))"

definition find_with_values :: "index \<Rightarrow> key \<Rightarrow> ('a btrees_scheme, (key \<times> key) list) eff" where
  "find_with_values = find_with_values_by ''Index::find_with_values''"

definition index_find :: "index \<Rightarrow> key \<Rightarrow> ('a btrees_scheme, key list) eff" where
  "index_find ix indexed_value = bind (find_with_values_by ''Index::find'' ix indexed_value) (\<lambda>rs. ret (map snd rs))"

definition no_range_column :: "string \<Rightarrow> index \<Rightarrow> key \<Rightarrow> exn" where
  "no_range_column who ix pre = Runtime_error (who @ '': prefix ('' @ to_string (length pre)
     @ '' columns) leaves no column to range over on index '' @ quoted (ix_name (in_schema ix))
     @ '' ('' @ to_string (columns_of ix) @ '' columns)'')"

definition null_bound :: "db_value option \<Rightarrow> bool" where
  "null_bound b = (case b of None \<Rightarrow> False | Some v \<Rightarrow> is_null v)"

definition find_range_with_values_by :: "string \<Rightarrow> index \<Rightarrow> key \<Rightarrow> db_value option \<Rightarrow> bool \<Rightarrow> db_value option \<Rightarrow> bool
    \<Rightarrow> ('a btrees_scheme, (key \<times> key) list) eff" where
  "find_range_with_values_by who ix pre lo lo_incl hi hi_incl =
     (if lo = None \<and> hi = None then throw (Runtime_error (who @ '': at least one of lo/hi must be provided''))
      else if length pre \<ge> columns_of ix then throw (no_range_column who ix pre)
      else if \<not> is_indexable pre then ret []
      else if null_bound lo \<or> null_bound hi then ret []
      else bind (bounded_scan (in_tree ix) pre lo lo_incl hi hi_incl) (\<lambda>entries.
        lift (smap (\<lambda>(key, _). split_key (length pre + 1) key) entries)))"

definition find_range_with_values :: "index \<Rightarrow> key \<Rightarrow> db_value option \<Rightarrow> bool \<Rightarrow> db_value option \<Rightarrow> bool
    \<Rightarrow> ('a btrees_scheme, (key \<times> key) list) eff" where
  "find_range_with_values = find_range_with_values_by ''Index::find_range_with_values''"

definition find_range :: "index \<Rightarrow> key \<Rightarrow> db_value option \<Rightarrow> bool \<Rightarrow> db_value option \<Rightarrow> bool
    \<Rightarrow> ('a btrees_scheme, key list) eff" where
  "find_range ix pre lo lo_incl hi hi_incl =
     bind (find_range_with_values_by ''Index::find_range'' ix pre lo lo_incl hi hi_incl) (\<lambda>rs. ret (map snd rs))"

section \<open>Lemmas\<close>

text \<open>What an index holds: the pairs of an indexed tuple and a primary key, in key order.\<close>

definition index_pairs :: "index \<Rightarrow> tree \<Rightarrow> (key \<times> key) list" where
  "index_pairs ix t = map (\<lambda>e. (take (columns_of ix) (le_key e), drop (columns_of ix) (le_key e))) (t_entries t)"

definition index_at :: "'a btrees_scheme \<Rightarrow> index \<Rightarrow> tree \<Rightarrow> bool" where
  "index_at s ix t \<longleftrightarrow> tree_at s (in_tree ix) t
     \<and> list_all (\<lambda>e. length (le_key e) = columns_of ix + in_pk_arity ix) (t_entries t)"

lemma for_each_check:
  "for_each (\<lambda>x. if P x then throw e else ret ()) xs = (if list_ex P xs then throw e else ret ())"
  by (induction xs) (auto simp: fun_eq_iff andthen_def bind_def throw_def ret_def)

lemma smap_split_key:
  "list_all (\<lambda>(k, _). n \<le> length k) entries \<Longrightarrow>
   smap (\<lambda>(k, _). split_key n k) entries = Inr (map (\<lambda>(k, _). (take n k, drop n k)) entries)"
  by (induction entries) (auto simp: split_key_def)

lemma prefix_take: "length p \<le> n \<Longrightarrow> key_has_prefix (take n k) p = key_has_prefix k p"
  by (simp add: key_eq_prefix min_def)

lemma prefix_full: "length p = length k \<Longrightarrow> key_has_prefix k p = key_eq k p"
  by (simp add: key_eq_prefix)

lemma index_atD:
  assumes "index_at s ix t"
  shows "tree_at s (in_tree ix) t" "\<And>e. e \<in> set (t_entries t) \<Longrightarrow> length (le_key e) = columns_of ix + in_pk_arity ix"
  using assms by (auto simp: index_at_def list_all_iff)

text \<open>The keys found behind a prefix, cut at \<open>n\<close>.\<close>

lemma wp_find_with_values_by:
  fixes s :: "'a btrees_scheme"
  assumes "index_at s ix t" "clean_key v" "is_indexable v" "length v \<le> columns_of ix"
  shows "wp (find_with_values_by who ix v) (\<lambda>r u. query_keeps s (in_tree ix) t u
    \<and> r = filter (\<lambda>(iv, _). key_has_prefix iv v) (index_pairs ix t)) (\<lambda>_ _. False) s"
proof -
  let ?n = "columns_of ix" and ?es = "filter (\<lambda>e. key_has_prefix (le_key e) v) (t_entries t)"
  have split: "smap (\<lambda>(k, _). split_key ?n k) (map pair_of ?es)
      = Inr (map (\<lambda>(k, _). (take ?n k, drop ?n k)) (map pair_of ?es))"
    by (rule smap_split_key) (use index_atD(2) [OF assms(1)] in \<open>auto simp: list_all_iff pair_of_def\<close>)
  have "map (\<lambda>(k, _). (take ?n k, drop ?n k)) (map pair_of ?es)
      = filter (\<lambda>(iv, _). key_has_prefix iv v) (index_pairs ix t)"
    by (simp add: index_pairs_def filter_map o_def pair_of_def prefix_take [OF assms(4)])
  then show ?thesis
    using wp_mono [OF prefix_scan_correct [OF index_atD(1) [OF assms(1)] assms(2)]] assms(3,4) split
    by (simp add: find_with_values_by_def wp_bind wp_lift)
qed

lemma wp_find_range_with_values_by:
  fixes s :: "'a btrees_scheme"
  assumes "index_at s ix t" "clean_key pre" "is_indexable pre" "length pre < columns_of ix"
    "lo \<noteq> None \<or> hi \<noteq> None" "\<forall>l. lo = Some l \<longrightarrow> clean_value l \<and> l \<noteq> Null" "\<forall>u. hi = Some u \<longrightarrow> clean_value u \<and> u \<noteq> Null"
  shows "wp (find_range_with_values_by who ix pre lo lo_incl hi hi_incl) (\<lambda>r u. query_keeps s (in_tree ix) t u
    \<and> r = map (\<lambda>(iv, pk). (take (length pre + 1) iv, drop (length pre + 1) iv @ pk))
        (filter (\<lambda>(iv, _). key_has_prefix iv pre \<and> lower_ok lo lo_incl (iv ! length pre) \<and> upper_ok hi hi_incl (iv ! length pre))
          (index_pairs ix t))) (\<lambda>_ _. False) s"
proof -
  let ?n = "length pre + 1" and ?w = "wanted_bounded pre lo lo_incl hi hi_incl"
  have len: "length (le_key e) = columns_of ix + in_pk_arity ix" if "e \<in> set (t_entries t)" for e
    by (rule index_atD(2) [OF assms(1) that])
  have split: "smap (\<lambda>(k, _). split_key ?n k) (map pair_of (filter ?w (t_entries t)))
      = Inr (map (\<lambda>(k, _). (take ?n k, drop ?n k)) (map pair_of (filter ?w (t_entries t))))"
    by (rule smap_split_key) (use len assms(4) in \<open>auto simp: list_all_iff pair_of_def\<close>)
  have cut: "drop (Suc (length pre)) (take (columns_of ix) k) @ drop (columns_of ix) k = drop (Suc (length pre)) k" for k :: key
    by (metis Suc_leI append_take_drop_id assms(4) drop_drop drop_take le_add_diff_inverse2)
  have "map (\<lambda>(k, _). (take ?n k, drop ?n k)) (map pair_of (filter ?w (t_entries t)))
    = map (\<lambda>(iv, pk). (take ?n iv, drop ?n iv @ pk))
        (filter (\<lambda>(iv, _). key_has_prefix iv pre \<and> lower_ok lo lo_incl (iv ! length pre) \<and> upper_ok hi hi_incl (iv ! length pre))
          (index_pairs ix t))"
    using assms(4) by (auto simp: index_pairs_def filter_map o_def pair_of_def wanted_bounded_def [abs_def] prefix_take
        cut min_def)
  moreover have "wp (bounded_scan (in_tree ix) pre lo lo_incl hi hi_incl) (\<lambda>r u. query_keeps s (in_tree ix) t u
      \<and> r = map pair_of (filter ?w (t_entries t))) (\<lambda>_ _. False) s"
    by (rule wp_bounded_scan [OF index_atD(1) [OF assms(1)] assms(2)])
      (use assms len in \<open>auto simp: list_all_iff longer_than_def\<close>)
  moreover have "\<not> null_bound lo" "\<not> null_bound hi"
    using assms(6,7) by (auto simp: null_bound_def is_null_def split: option.splits)
  ultimately show ?thesis
    using assms(3-5) split by (auto simp: find_range_with_values_by_def wp_bind wp_lift elim!: wp_mono)
qed

section \<open>Sample trees\<close>

text \<open>A file of single-leaf trees: the tree of handle \<open>h\<close> is the leaf on page \<open>h + 1\<close>.\<close>

definition leaf_page :: "leaf_entry list \<Rightarrow> page" where
  "leaf_page es = (case set_leaf_entries es (init_node LEAF) of Inr q \<Rightarrow> q | _ \<Rightarrow> zero_page)"

definition leaves_btrees :: "leaf_entry list list \<Rightarrow> btrees" where
  "leaves_btrees ess = (pages_btrees (zero_page # map leaf_page ess) 0)\<lparr>roots := \<lambda>h. word_of_nat (Suc h)\<rparr>"

definition leaf_ok :: "leaf_entry list \<Rightarrow> bool" where
  "leaf_ok es \<longleftrightarrow> leaf_bytes es \<le> capacity \<and> list_all leaf_entry_fits es \<and> sorted_entries es"

lemma leaf_page_ok:
  assumes "leaf_ok es"
  shows "length (leaf_page es) = PAGE_SIZE" "get_leaf_entries (leaf_page es) = Inr es" "is_leaf (leaf_page es)"
    "next_leaf (leaf_page es) = INVALID_PAGE"
  using set_leaf_entries_ok [of "init_node LEAF" es] assms by (auto simp: leaf_ok_def leaf_page_def is_leaf_def)

lemma leaves_btrees_at:
  assumes "list_all leaf_ok ess" "h < length ess" "length ess < 1000"
  shows "tree_at (leaves_btrees ess) h (Leaf (word_of_nat (Suc h)) (ess ! h))"
proof -
  let ?ps = "zero_page # map leaf_page ess" and ?p = "word_of_nat (Suc h) :: u32"
  have len: "\<forall>p \<in> set ?ps. length p = PAGE_SIZE" "length ?ps < 2 ^ 32"
    using assms leaf_page_ok(1) by (auto simp: list_all_iff)
  note ok = pages_btrees_ok [OF len, where r = 0]
  let ?b = "pages_btrees ?ps 0"
  have e: "pool_inv (leaves_btrees ess) = pool_inv ?b" "view (leaves_btrees ess) = view ?b" "pins (leaves_btrees ess) = pins ?b"
    by (rule pool_state_cong; simp add: leaves_btrees_def)+
  then have v: "view (leaves_btrees ess) = view ?b" "total_pages (leaves_btrees ess) = word_of_nat (Suc (length ess))"
    using ok(3) by (simp_all add: leaves_btrees_def)
  have s: "pool_inv (leaves_btrees ess)" "pool_calm (leaves_btrees ess)"
    using ok(1,2) e by (auto simp: pool_calm_def) (simp add: leaves_btrees_def)
  have "view ?b ?p = leaf_page (ess ! h)" using ok(5) [of "Suc h"] assms(2) by simp
  moreover have "leaf_ok (ess ! h)" using assms by (auto simp: list_all_iff)
  moreover have "?p < word_of_nat (Suc (length ess))" "?p \<noteq> INVALID_PAGE"
    using assms
    by (simp_all only: word_less_nat_alt unat_of_nat word_unat_eq_iff INVALID_PAGE_def take_bit_eq_mod) simp_all
  ultimately show ?thesis
    using s leaf_page_ok [of "ess ! h"]
    by (auto simp: tree_at_def tree_ok_def v leaf_ok_def above_def below_def list_all_iff sorted_entries_def)
      (simp_all add: leaves_btrees_def)
qed

text \<open>The index of the samples: columns \<open>a\<close> and \<open>b\<close> and a one-column primary key.\<close>

definition sample_pairs :: "leaf_entry list" where
  "sample_pairs = map (\<lambda>(a, b, k). \<lparr>le_key = [IntV a, IntV b, IntV k], le_value = []\<rparr>) [(1, 1, 7), (1, 5, 8), (2, 3, 9)]"

definition sample_composite :: index where
  "sample_composite = \<lparr>in_schema = \<lparr>ix_name = ''ab'', ix_table_name = ''t'', ix_column_names = [''a'', ''b''],
     ix_root_page = 1, ix_is_unique = True\<rparr>, in_pk_arity = 1, in_tree = 0\<rparr>"

definition sample_index_state :: btrees where
  "sample_index_state = leaves_btrees [sample_pairs]"

lemma sample_index_at: "index_at sample_index_state sample_composite (Leaf 1 sample_pairs)"
proof -
  have "leaf_ok sample_pairs"
    by (simp add: leaf_ok_def sample_pairs_def leaf_bytes_def leaf_cell_def key_encode_def capacity_def PAGE_SIZE_def
        NODE_HEADER_SIZE_def leaf_entry_fits_def key_fits_def value_fits_def sorted_entries_def clean_value_def)
  then have "tree_at sample_index_state 0 (Leaf 1 sample_pairs)"
    using leaves_btrees_at [of "[sample_pairs]" 0] by (simp add: sample_index_state_def)
  then show ?thesis
    by (simp add: index_at_def sample_composite_def columns_of_def sample_pairs_def)
qed

lemma sample_index_pairs:
  "index_pairs sample_composite (Leaf 1 sample_pairs)
    = [([IntV 1, IntV 1], [IntV 7]), ([IntV 1, IntV 5], [IntV 8]), ([IntV 2, IntV 3], [IntV 9])]"
  by (simp add: index_pairs_def sample_composite_def columns_of_def sample_pairs_def)

lemma sample_composite_simps:
  "columns_of sample_composite = 2" "in_pk_arity sample_composite = 1" "in_tree sample_composite = 0"
  "ix_is_unique (in_schema sample_composite)"
  by (simp_all add: sample_composite_def columns_of_def)

section \<open>Properties\<close>

text \<open>
  Property C24. A lookup by a leftmost prefix of the indexed columns returns exactly the primary
  keys of the rows indexed under it, in key order, and changes nothing; a prefix with a NULL
  finds nothing, and one wider than the index is refused.
\<close>

theorem index_find_correct:
  fixes s :: "'a btrees_scheme"
  assumes "index_at s ix t" "clean_key v"
  shows "wp (index_find ix v)
    (\<lambda>r u. query_keeps s (in_tree ix) t u \<and> (is_indexable v \<longrightarrow> length v \<le> columns_of ix)
      \<and> r = (if is_indexable v then map snd (filter (\<lambda>(iv, _). key_has_prefix iv v) (index_pairs ix t)) else []))
    (\<lambda>e u. u = s \<and> is_indexable v \<and> columns_of ix < length v \<and> e = too_wide ''Index::find'' ix v) s"
proof (cases "is_indexable v \<and> length v \<le> columns_of ix")
  case True
  then show ?thesis
    using wp_find_with_values_by [OF assms, of "''Index::find''"]
    by (auto simp: index_find_def wp_bind wp_ret elim!: wp_mono)
next
  case False
  have "query_keeps s (in_tree ix) t s"
    using index_atD(1) [OF assms(1)] by (simp add: query_keeps_def same_view_def)
  with False show ?thesis
    by (auto simp: index_find_def find_with_values_by_def wp_eqs)
qed

theorem index_find_correct_witness:
  "wp (index_find sample_composite [IntV 1]) (\<lambda>r u. r = [[IntV 7], [IntV 8]]) (\<lambda>_ _. False) sample_index_state"
  by (rule wp_mono [OF index_find_correct [OF sample_index_at]])
    (simp_all add: sample_index_pairs clean_value_def is_indexable_def is_null_def sample_composite_simps)

text \<open>
  A range lookup finds exactly the rows whose tuple has the prefix and whose next
  column lies between the bounds. It returns their primary keys only if the range is on the
  index's last column: on an earlier column it cuts the entries too early, so that every
  result still starts with indexed columns and none has the width of a primary key.
\<close>

lemma find_range_split:
  fixes s :: "'a btrees_scheme"
  assumes "index_at s ix t" "clean_key pre" "is_indexable pre" "length pre < columns_of ix"
    "lo \<noteq> None \<or> hi \<noteq> None" "\<forall>l. lo = Some l \<longrightarrow> clean_value l \<and> l \<noteq> Null" "\<forall>u. hi = Some u \<longrightarrow> clean_value u \<and> u \<noteq> Null"
  shows "wp (find_range ix pre lo lo_incl hi hi_incl) (\<lambda>r u. query_keeps s (in_tree ix) t u
    \<and> (let hits = filter (\<lambda>(iv, _). key_has_prefix iv pre \<and> lower_ok lo lo_incl (iv ! length pre)
          \<and> upper_ok hi hi_incl (iv ! length pre)) (index_pairs ix t) in
       if length pre + 1 = columns_of ix then r = map snd hits
       else length r = length hits \<and> (\<forall>pk \<in> set r. length pk > in_pk_arity ix))) (\<lambda>_ _. False) s"
proof -
  have len: "length iv = columns_of ix \<and> length pk = in_pk_arity ix" if "(iv, pk) \<in> set (index_pairs ix t)" for iv pk
    using that index_atD(2) [OF assms(1)] by (auto simp: index_pairs_def)
  show ?thesis
    unfolding find_range_def wp_bind wp_ret Let_def
    by (rule wp_mono [OF wp_find_range_with_values_by [OF assms, of "''Index::find_range''" lo_incl hi_incl]])
      (use assms(4) in \<open>auto simp: o_def case_prod_unfold dest!: len intro!: map_cong\<close>)
qed

lemma find_range_split_example:
  "wp (find_range sample_composite [] (Some (IntV 1)) True None False) (\<lambda>r u. \<forall>pk \<in> set r. length pk > 1) (\<lambda>_ _. False) sample_index_state
   \<and> wp (find_range sample_composite [IntV 1] (Some (IntV 2)) True None False) (\<lambda>r u. r = [[IntV 8]]) (\<lambda>_ _. False) sample_index_state"
proof
  show "wp (find_range sample_composite [] (Some (IntV 1)) True None False) (\<lambda>r u. \<forall>pk \<in> set r. length pk > 1) (\<lambda>_ _. False) sample_index_state"
    by (rule wp_mono [OF find_range_split [OF sample_index_at]])
      (auto simp: clean_value_def is_indexable_def is_null_def sample_composite_simps)
  show "wp (find_range sample_composite [IntV 1] (Some (IntV 2)) True None False) (\<lambda>r u. r = [[IntV 8]]) (\<lambda>_ _. False) sample_index_state"
    by (rule wp_mono [OF find_range_split [OF sample_index_at]])
      (auto simp: clean_value_def is_indexable_def is_null_def sample_composite_simps sample_index_pairs lower_ok_def upper_ok_def)
qed

text \<open>
  A tuple is in conflict when the index is unique and another row, under a different primary
  key, has an equal tuple.
\<close>

definition unique_conflict :: "index \<Rightarrow> tree \<Rightarrow> key \<Rightarrow> key \<Rightarrow> bool" where
  "unique_conflict ix t v pk \<longleftrightarrow> ix_is_unique (in_schema ix)
     \<and> (\<exists>(iv, pk') \<in> set (index_pairs ix t). key_eq iv v \<and> \<not> key_eq pk' pk)"

lemma wp_check_unique:
  fixes s :: "'a btrees_scheme"
  assumes "index_at s ix t" "clean_key v" "length v = columns_of ix"
  shows "wp (check_unique ix v pk) (\<lambda>_ u. query_keeps s (in_tree ix) t u \<and> \<not> unique_conflict ix t v pk)
    (\<lambda>e u. query_keeps s (in_tree ix) t u \<and> unique_conflict ix t v pk \<and> e = unique_violation ix) s"
proof (cases "ix_is_unique (in_schema ix)")
  case True
  let ?hits = "map pair_of (filter (\<lambda>e. key_has_prefix (le_key e) v) (t_entries t))"
  have "key_has_prefix (le_key e) v = key_eq (take (columns_of ix) (le_key e)) v" for e
    by (simp add: key_eq_prefix assms(3))
  then have c: "list_ex (\<lambda>(k, _). \<not> key_eq (drop (length v) k) pk) ?hits = unique_conflict ix t v pk"
    using True assms(3) by (auto simp: unique_conflict_def list_ex_iff index_pairs_def pair_of_def)
  have f: "(\<lambda>(k, _). if \<not> key_eq (drop (length v) k) pk then throw (unique_violation ix) else ret ())
      = (\<lambda>x. if (case x of (k, _) \<Rightarrow> \<not> key_eq (drop (length v) k) pk) then throw (unique_violation ix) else ret ())"
    by (auto simp: fun_eq_iff)
  show ?thesis
    using True prefix_scan_correct [OF index_atD(1) [OF assms(1)] assms(2)] c
    unfolding check_unique_def f for_each_check
    by (auto simp: wp_bind wp_ret wp_throw elim!: wp_mono)
next
  case False
  then show ?thesis using index_atD(1) [OF assms(1)]
    by (simp add: check_unique_def wp_ret unique_conflict_def query_keeps_def same_view_def)
qed

text \<open>
  Property C25. The uniqueness check throws exactly if the index is unique and holds an equal
  tuple under another primary key, so a row never conflicts with its own entry; it writes
  nothing in either case.
\<close>

theorem check_unique_correct:
  fixes s :: "'a btrees_scheme"
  assumes "index_at s ix t" "clean_key v" "length v = columns_of ix"
  shows "wp (check_unique ix v pk) (\<lambda>_ u. query_keeps s (in_tree ix) t u \<and> \<not> unique_conflict ix t v pk)
    (\<lambda>e u. query_keeps s (in_tree ix) t u \<and> unique_conflict ix t v pk \<and> e = unique_violation ix) s"
  by (rule wp_check_unique [OF assms])

theorem check_unique_correct_witness:
  "result (check_unique sample_composite [IntV 1, IntV 5] [IntV 7] sample_index_state) = Inl (unique_violation sample_composite)
   \<and> result (check_unique sample_composite [IntV 1, IntV 5] [IntV 8] sample_index_state) = Inr ()"
proof -
  have c: "unique_conflict sample_composite (Leaf 1 sample_pairs) [IntV 1, IntV 5] [IntV 7]"
    "\<not> unique_conflict sample_composite (Leaf 1 sample_pairs) [IntV 1, IntV 5] [IntV 8]"
    by (simp_all add: unique_conflict_def sample_index_pairs sample_composite_simps)
  have k: "clean_key [IntV 1, IntV 5]" "length [IntV 1, IntV 5] = columns_of sample_composite"
    by (simp_all add: clean_value_def sample_composite_simps)
  show ?thesis
    using check_unique_correct [OF sample_index_at k, of "[IntV 7]"] check_unique_correct [OF sample_index_at k, of "[IntV 8]"] c
    by (auto simp: wp_def result_def split: prod.splits sum.splits)
qed

end
