(* ===== verification/Serializer.thy ===== *)
theory Serializer
  imports Schema Key_Codec
begin

text \<open>
  \<open>RowSerializer\<close> of \<open>src/row/serializer.cpp\<close>: a row as its null bitmap and the payload
  of its other columns. A position in the buffer is the rest of the buffer from there.
\<close>

section \<open>Null bitmap\<close>

definition bitmap_size :: "nat \<Rightarrow> nat" where
  "bitmap_size num_columns = (num_columns + 7) div 8"

definition set_null_bit :: "byte list \<Rightarrow> nat \<Rightarrow> byte list" where
  "set_null_bit bitmap col_idx = bitmap[col_idx div 8 := bitmap ! (col_idx div 8) OR push_bit (col_idx mod 8) 1]"

definition get_null_bit :: "byte list \<Rightarrow> nat \<Rightarrow> bool" where
  "get_null_bit bitmap col_idx = (drop_bit (col_idx mod 8) (bitmap ! (col_idx div 8)) AND 1 = 1)"

section \<open>Columns\<close>

definition encode_int :: "u32 \<Rightarrow> byte list" where
  "encode_int val = u32_bytes val"

definition encode_float :: "u32 \<Rightarrow> byte list" where
  "encode_float val = u32_bytes val"

definition encode_bool :: "bool \<Rightarrow> byte list" where
  "encode_bool val = [if val then 1 else 0]"

definition encode_varchar :: "string \<Rightarrow> byte list" where
  "encode_varchar val = u16_bytes (word_of_nat (length val)) @ map byte_of val"

definition decode_int :: "byte list \<Rightarrow> exn + u32 \<times> byte list" where
  "decode_int buf = (if length buf < 4 then Inl (Runtime_error ''RowSerializer::decode_int: buffer too short'')
     else Inr (bytes_u32 buf, drop 4 buf))"

definition decode_float :: "byte list \<Rightarrow> exn + u32 \<times> byte list" where
  "decode_float buf = (if length buf < 4 then Inl (Runtime_error ''RowSerializer::decode_float: buffer too short'')
     else Inr (bytes_u32 buf, drop 4 buf))"

definition decode_bool :: "byte list \<Rightarrow> exn + bool \<times> byte list" where
  "decode_bool buf = (case buf of [] \<Rightarrow> Inl (Runtime_error ''RowSerializer::decode_bool: buffer too short'')
     | b # buf \<Rightarrow> Inr (b \<noteq> 0, buf))"

definition decode_varchar :: "byte list \<Rightarrow> exn + string \<times> byte list" where
  "decode_varchar buf =
     (if length buf < 2 then Inl (Runtime_error ''RowSerializer::decode_varchar: buffer too short for length'')
      else let len = unat (bytes_u16 buf); buf = drop 2 buf in
        if length buf < len then Inl (Runtime_error ''RowSerializer::decode_varchar: buffer too short for data'')
        else Inr (map char_of_byte (take len buf), drop len buf))"

text \<open>The switch on the column's type; a type that is no enumerator writes and reads nothing.\<close>

fun encode_column :: "column \<Rightarrow> db_value \<Rightarrow> exn + byte list" where
  "encode_column col val = (case col_type col of
     CT_INT \<Rightarrow> (case val of IntV i \<Rightarrow> Inr (encode_int i) | _ \<Rightarrow> Inl (Runtime_error (''RowSerializer::serialize: expected INT for column: '' @ col_name col)))
   | CT_FLOAT \<Rightarrow> (case val of FloatV f \<Rightarrow> Inr (encode_float f) | _ \<Rightarrow> Inl (Runtime_error (''RowSerializer::serialize: expected FLOAT for column: '' @ col_name col)))
   | CT_BOOLEAN \<Rightarrow> (case val of BoolV b \<Rightarrow> Inr (encode_bool b) | _ \<Rightarrow> Inl (Runtime_error (''RowSerializer::serialize: expected BOOLEAN for column: '' @ col_name col)))
   | CT_VARCHAR \<Rightarrow> (case val of StringV s \<Rightarrow>
       if length s > unat (max_length col)
         then Inl (Runtime_error (''RowSerializer::serialize: VARCHAR value exceeds max_length for column: '' @ col_name col))
         else Inr (encode_varchar s)
       | _ \<Rightarrow> Inl (Runtime_error (''RowSerializer::serialize: expected VARCHAR for column: '' @ col_name col)))
   | Other_column_type _ \<Rightarrow> Inr [])"

definition decode_column :: "column \<Rightarrow> byte list \<Rightarrow> exn + db_value \<times> byte list" where
  "decode_column col buf = (case col_type col of
     CT_INT \<Rightarrow> sbind (decode_int buf) (\<lambda>(v, buf). Inr (IntV v, buf))
   | CT_FLOAT \<Rightarrow> sbind (decode_float buf) (\<lambda>(v, buf). Inr (FloatV v, buf))
   | CT_BOOLEAN \<Rightarrow> sbind (decode_bool buf) (\<lambda>(v, buf). Inr (BoolV v, buf))
   | CT_VARCHAR \<Rightarrow> sbind (decode_varchar buf) (\<lambda>(v, buf). Inr (StringV v, buf))
   | Other_column_type _ \<Rightarrow> Inr (Null, buf))"

section \<open>Rows\<close>

fun mark_nulls :: "nat \<Rightarrow> column list \<Rightarrow> db_value list \<Rightarrow> byte list \<Rightarrow> exn + byte list" where
  "mark_nulls i (col # cols) (val # vals) bitmap =
     (if is_null val then
        if \<not> is_nullable col then Inl (Runtime_error (''RowSerializer::serialize: NULL value in non-nullable column: '' @ col_name col))
        else mark_nulls (i + 1) cols vals (set_null_bit bitmap i)
      else mark_nulls (i + 1) cols vals bitmap)"
| "mark_nulls i _ _ bitmap = Inr bitmap"

fun encode_columns :: "nat \<Rightarrow> byte list \<Rightarrow> column list \<Rightarrow> db_value list \<Rightarrow> exn + byte list" where
  "encode_columns i bitmap (col # cols) (val # vals) =
     (if get_null_bit bitmap i then encode_columns (i + 1) bitmap cols vals
      else sbind (encode_column col val) (\<lambda>b. sbind (encode_columns (i + 1) bitmap cols vals) (\<lambda>bs. Inr (b @ bs))))"
| "encode_columns i bitmap _ _ = Inr []"

definition serialize :: "db_row \<Rightarrow> table_schema \<Rightarrow> exn + byte list" where
  "serialize row schema = (let cols = ts_columns schema; num_cols = length cols in
     if row_size row \<noteq> num_cols
       then Inl (Runtime_error (''RowSerializer::serialize: row has '' @ to_string (row_size row) @ '' values but schema has ''
         @ to_string num_cols @ '' columns''))
     else sbind (mark_nulls 0 cols (row_values row) (replicate (bitmap_size num_cols) 0)) (\<lambda>bitmap.
       sbind (encode_columns 0 bitmap cols (row_values row)) (\<lambda>bs. Inr (bitmap @ bs))))"

fun decode_columns :: "nat \<Rightarrow> byte list \<Rightarrow> column list \<Rightarrow> byte list \<Rightarrow> exn + db_value list" where
  "decode_columns i bitmap [] buf = Inr []"
| "decode_columns i bitmap (col # cols) buf =
     (if get_null_bit bitmap i then sbind (decode_columns (i + 1) bitmap cols buf) (\<lambda>vs. Inr (Null # vs))
      else sbind (decode_column col buf) (\<lambda>(v, buf).
        sbind (decode_columns (i + 1) bitmap cols buf) (\<lambda>vs. Inr (v # vs))))"

definition deserialize :: "byte list \<Rightarrow> table_schema \<Rightarrow> exn + db_row" where
  "deserialize bytes schema = (let cols = ts_columns schema; bm_size = bitmap_size (length cols) in
     if length bytes < bm_size
       then Inl (Runtime_error ''RowSerializer::deserialize: buffer too short for null bitmap'')
     else sbind (decode_columns 0 (take bm_size bytes) cols (drop bm_size bytes)) (\<lambda>vs. Inr \<lparr>row_values = vs\<rparr>))"

section \<open>The bitmap's laws\<close>

lemma get_null_bit_bit: "get_null_bit bm i = bit (bm ! (i div 8)) (i mod 8)"
proof -
  have "drop_bit (i mod 8) (bm ! (i div 8)) AND 1 = of_bool (bit (bm ! (i div 8)) (i mod 8))"
    by (simp add: and_one_eq bit_iff_odd_drop_bit mod_2_eq_odd)
  then show ?thesis by (simp add: get_null_bit_def)
qed

lemma length_set_null_bit [simp]: "length (set_null_bit bm i) = length bm"
  by (simp add: set_null_bit_def)

lemma get_set_null_bit:
  assumes "i div 8 < length bm"
  shows "get_null_bit (set_null_bit bm i) j = (j = i \<or> get_null_bit bm j)"
proof (cases "j div 8 = i div 8")
  case True
  then have "(j mod 8 = i mod 8) = (j = i)"
    by (metis mod_div_mult_eq)
  moreover have "i mod 8 < 8" "j mod 8 < 8" by simp_all
  ultimately show ?thesis
    using True assms by (auto simp: get_null_bit_bit set_null_bit_def bit_simps)
next
  case False
  then show ?thesis using assms by (auto simp: get_null_bit_bit set_null_bit_def)
qed

lemma get_null_bit_zero [simp]: "i div 8 < n \<Longrightarrow> \<not> get_null_bit (replicate n 0) i"
  by (simp add: get_null_bit_bit)

lemma column_in_bitmap: "i < n \<Longrightarrow> i div 8 < bitmap_size n"
  by (simp add: bitmap_size_def)

lemma mark_nulls_ok:
  assumes "mark_nulls i cols vals bm = Inr bm'" "length cols = length vals" "\<forall>j < i + length cols. j div 8 < length bm"
  shows "length bm' = length bm
    \<and> (\<forall>j. get_null_bit bm' j = (get_null_bit bm j \<or> i \<le> j \<and> j < i + length vals \<and> is_null (vals ! (j - i))))"
  using assms
proof (induction i cols vals bm rule: mark_nulls.induct)
  case (1 i col cols val vals bm)
  have split: "(i \<le> j \<and> j < i + length (val # vals) \<and> is_null ((val # vals) ! (j - i)))
    = (j = i \<and> is_null val \<or> i + 1 \<le> j \<and> j < i + 1 + length vals \<and> is_null (vals ! (j - (i + 1))))" for j
    by (cases "j = i") (auto simp: nth_Cons' Suc_diff_Suc)
  show ?case
  proof (cases "is_null val")
    case True
    with 1 have "length bm' = length (set_null_bit bm i)
      \<and> (\<forall>j. get_null_bit bm' j = (get_null_bit (set_null_bit bm i) j
        \<or> i + 1 \<le> j \<and> j < i + 1 + length vals \<and> is_null (vals ! (j - (i + 1)))))"
      by (simp split: if_splits)
    moreover have "i div 8 < length bm" using 1 by simp
    ultimately show ?thesis unfolding split using True get_set_null_bit [of i bm] by auto
  next
    case False
    with 1 show ?thesis unfolding split by auto
  qed
qed auto

section \<open>What a row must be\<close>

text \<open>The contract of a column, without the order in which the code checks it.\<close>

definition accepts :: "column \<Rightarrow> db_value \<Rightarrow> bool" where
  "accepts col val \<longleftrightarrow> (case val of
     Null \<Rightarrow> is_nullable col
   | _ \<Rightarrow> (case col_type col of
       CT_INT \<Rightarrow> \<exists>i. val = IntV i
     | CT_FLOAT \<Rightarrow> \<exists>f. val = FloatV f
     | CT_BOOLEAN \<Rightarrow> \<exists>b. val = BoolV b
     | CT_VARCHAR \<Rightarrow> \<exists>s. val = StringV s \<and> length s \<le> unat (max_length col)
     | Other_column_type _ \<Rightarrow> True))"

definition row_typed :: "db_row \<Rightarrow> table_schema \<Rightarrow> bool" where
  "row_typed row schema \<longleftrightarrow> list_all2 accepts (ts_columns schema) (row_values row)"

text \<open>What the format can hold: the length of a string in 16 bits, an enumerator as type.\<close>

definition storable :: "column \<Rightarrow> db_value \<Rightarrow> bool" where
  "storable col val \<longleftrightarrow> (\<forall>b. col_type col \<noteq> Other_column_type b) \<and> (\<forall>s. val = StringV s \<longrightarrow> length s < 2 ^ 16)"

definition row_storable :: "db_row \<Rightarrow> table_schema \<Rightarrow> bool" where
  "row_storable row schema \<longleftrightarrow> list_all2 storable (ts_columns schema) (row_values row)"

lemma encode_column_ok: "\<not> is_null val \<Longrightarrow> (\<exists>b. encode_column col val = Inr b) = accepts col val"
  by (cases val; cases "col_type col") (auto simp: is_null_def accepts_def)

lemma mark_nulls_iff:
  "length cols = length vals \<Longrightarrow> (\<exists>bm'. mark_nulls i cols vals bm = Inr bm')
     = list_all2 (\<lambda>c v. is_null v \<longrightarrow> is_nullable c) cols vals"
  by (induction i cols vals bm rule: mark_nulls.induct) auto

lemma encode_columns_iff:
  assumes "length cols = length vals" "\<forall>j < length vals. get_null_bit bm (i + j) = is_null (vals ! j)"
  shows "(\<exists>bs. encode_columns i bm cols vals = Inr bs)
    = list_all2 (\<lambda>c v. \<not> is_null v \<longrightarrow> accepts c v) cols vals"
  using assms
proof (induction cols vals arbitrary: i rule: list_induct2)
  case (Cons col cols val vals)
  have head: "get_null_bit bm i = is_null val" using Cons.prems by force
  have "\<forall>j < length vals. get_null_bit bm (i + 1 + j) = is_null (vals ! j)" using Cons.prems by force
  note IH = Cons.IH [OF this]
  show ?case
  proof (cases "is_null val")
    case True
    then show ?thesis using IH head by simp
  next
    case False
    then show ?thesis using head IH encode_column_ok [OF False, of col]
      by (auto simp: sbind_Inr_conv simp del: encode_column.simps)
  qed
qed simp

lemma accepts_Null [simp]: "accepts col Null = is_nullable col"
  by (simp add: accepts_def)

lemma row_typed_split:
  "list_all2 accepts cols vals \<longleftrightarrow> list_all2 (\<lambda>c v. is_null v \<longrightarrow> is_nullable c) cols vals
     \<and> list_all2 (\<lambda>c v. \<not> is_null v \<longrightarrow> accepts c v) cols vals"
  by (auto simp: list_all2_conv_all_nth is_null_def)

text \<open>The bitmap that \<open>serialize\<close> builds says which columns are null.\<close>

lemma null_bitmap:
  assumes "mark_nulls 0 cols vals (replicate (bitmap_size (length cols)) 0) = Inr bm" "length cols = length vals"
  shows "length bm = bitmap_size (length cols)" "\<forall>j < length vals. get_null_bit bm (0 + j) = is_null (vals ! j)"
  using mark_nulls_ok [OF assms] column_in_bitmap [of _ "length cols"] assms(2) by auto

lemma serialize_ok:
  "(\<exists>bytes. serialize row schema = Inr bytes) \<longleftrightarrow> row_typed row schema"
proof (cases "length (ts_columns schema) = length (row_values row)")
  case True
  let ?cols = "ts_columns schema" and ?vals = "row_values row"
  let ?m = "mark_nulls 0 ?cols ?vals (replicate (bitmap_size (length ?cols)) 0)"
  show ?thesis
  proof (cases ?m)
    case (Inl e)
    then have "\<not> list_all2 (\<lambda>c v. is_null v \<longrightarrow> is_nullable c) ?cols ?vals"
      using mark_nulls_iff [OF True, of 0 "replicate (bitmap_size (length ?cols)) 0"] by auto
    with Inl True show ?thesis by (simp add: serialize_def row_size_def row_typed_def row_typed_split)
  next
    case (Inr bm)
    have "list_all2 (\<lambda>c v. is_null v \<longrightarrow> is_nullable c) ?cols ?vals"
      using mark_nulls_iff [OF True, of 0 "replicate (bitmap_size (length ?cols)) 0"] Inr by blast
    with Inr True encode_columns_iff [OF True null_bitmap(2) [OF Inr True]] show ?thesis
      by (simp add: serialize_def row_size_def row_typed_def row_typed_split sbind_Inr_conv)
  qed
qed (auto simp: serialize_def row_size_def row_typed_def dest: list_all2_lengthD)

section \<open>Decoding what was encoded\<close>

lemma decode_encode_column:
  assumes "encode_column col val = Inr b" "storable col val"
  shows "decode_column col (b @ rest) = Inr (val, rest)"
proof -
  have "unat (word_of_nat (length s) :: u16) = length s" if "val = StringV s" for s
    using assms(2) that by (simp add: storable_def)
  then show ?thesis
    using assms
    by (cases "col_type col"; cases val)
      (auto simp: decode_column_def decode_int_def decode_float_def decode_bool_def decode_varchar_def Let_def
        encode_int_def encode_float_def encode_bool_def encode_varchar_def storable_def simp del: map_map split: if_splits)
qed

lemma decode_encode_columns:
  assumes "length cols = length vals" "encode_columns i bm cols vals = Inr bs" "list_all2 storable cols vals"
    "\<forall>j < length vals. get_null_bit bm (i + j) = is_null (vals ! j)"
  shows "decode_columns i bm cols (bs @ rest) = Inr vals"
  using assms
proof (induction cols vals arbitrary: i bs rule: list_induct2)
  case (Cons col cols val vals)
  have head: "get_null_bit bm i = is_null val" using Cons.prems(3) by force
  have tail: "\<forall>j < length vals. get_null_bit bm (i + 1 + j) = is_null (vals ! j)" using Cons.prems(3) by force
  show ?case
  proof (cases "is_null val")
    case True
    then show ?thesis using Cons tail head by (simp add: is_null_def)
  next
    case False
    then obtain b bs' where b: "encode_column col val = Inr b" "encode_columns (i + 1) bm cols vals = Inr bs'" "bs = b @ bs'"
      using Cons.prems(1) head by (auto simp: sbind_Inr_conv simp del: encode_column.simps)
    have "decode_columns (i + 1) bm cols (bs' @ rest) = Inr vals"
      by (rule Cons.IH [OF b(2) _ tail]) (use Cons.prems(2) in simp)
    with b False head decode_encode_column [OF b(1), of "bs' @ rest"] Cons.prems(2) show ?thesis by simp
  qed
qed simp

lemma deserialize_serialize:
  assumes "serialize row schema = Inr bytes" "row_storable row schema"
  shows "deserialize (bytes @ rest) schema = Inr row"
proof -
  let ?cols = "ts_columns schema" and ?vals = "row_values row"
  have len: "length ?cols = length ?vals"
    using assms(1) by (simp add: serialize_def row_size_def Let_def split: if_splits)
  then obtain bm bs where b: "mark_nulls 0 ?cols ?vals (replicate (bitmap_size (length ?cols)) 0) = Inr bm"
    "encode_columns 0 bm ?cols ?vals = Inr bs" "bytes = bm @ bs"
    using assms(1) by (auto simp: serialize_def row_size_def Let_def sbind_Inr_conv)
  note bm = null_bitmap [OF b(1) len]
  have "decode_columns 0 bm ?cols (bs @ rest) = Inr ?vals"
    by (rule decode_encode_columns [OF len b(2) _ bm(2)]) (use assms(2) in \<open>simp add: row_storable_def\<close>)
  with b(3) bm(1) show ?thesis by (simp add: deserialize_def Let_def)
qed

definition sample_column :: "string \<Rightarrow> column_type \<Rightarrow> bool \<Rightarrow> column" where
  "sample_column n t nullable = \<lparr>col_name = n, col_type = t, max_length = 10, is_nullable = nullable,
     is_primary_key = False, auto_increment = False, has_default = False, default_value = Null\<rparr>"

definition sample_schema :: table_schema where
  "sample_schema = \<lparr>ts_name = ''users'', ts_columns = [sample_column ''id'' CT_INT False,
     sample_column ''name'' CT_VARCHAR True, sample_column ''ok'' CT_BOOLEAN True], ts_root_page = 3,
     ts_primary_key_indices = [0], ts_checks = [], ts_foreign_keys = [], ts_create_sql = []\<rparr>"

section \<open>Properties\<close>

text \<open>
  The serializer is the type check of a row: it accepts exactly the rows whose
  values fit their columns one by one (NULL only where allowed, the column's type, a string
  no longer than its maximum), and throws on every other row.
\<close>

lemma serialize_typed:
  "(\<exists>bytes. serialize row schema = Inr bytes) \<longleftrightarrow> row_typed row schema"
  by (rule serialize_ok)

text \<open>
  Property C18. Rows round-trip: reading back what was stored, under the same schema, gives the
  row, for every row the serializer accepts whose strings are shorter than 65536 bytes, nulls
  and any number of columns included.
\<close>

theorem row_roundtrip:
  assumes "serialize row schema = Inr bytes" "row_storable row schema"
  shows "deserialize (bytes @ rest) schema = Inr row"
  by (rule deserialize_serialize [OF assms])

theorem row_roundtrip_witness:
  "\<exists>bytes. serialize \<lparr>row_values = [IntV 7, StringV ''ab'', Null]\<rparr> sample_schema = Inr bytes
     \<and> deserialize bytes sample_schema = Inr \<lparr>row_values = [IntV 7, StringV ''ab'', Null]\<rparr>"
proof -
  let ?row = "\<lparr>row_values = [IntV 7, StringV ''ab'', Null]\<rparr>"
  have "row_typed ?row sample_schema" "row_storable ?row sample_schema"
    by (simp_all add: row_typed_def row_storable_def sample_schema_def sample_column_def accepts_def storable_def)
  then show ?thesis
    using serialize_ok [of ?row sample_schema] row_roundtrip [of ?row sample_schema _ "[]"] by auto
qed

end
