(* ===== verification/Table.thy ===== *)
theory Table
  imports Index Serializer
begin

text \<open>
  \<open>Table\<close> of \<open>src/table/table.cpp\<close>: the rows of one table in a tree keyed by primary key,
  kept together with the table's secondary indexes. An object is its schema, the handle of its
  tree, its next automatic key and its bindings to indexes; the operations that change the
  counter return the object. A predicate may itself query tables and throw.
\<close>

section \<open>State\<close>

record index_binding =
  ib_index :: index
  ib_column_indices :: "nat list"

record table =
  tb_schema :: table_schema
  tb_tree :: nat
  tb_next :: u32
  tb_indexes :: "index_binding list"

record scan_result =
  sr_primary_key :: key
  sr_row :: db_row

type_synonym 's predicate = "db_row \<Rightarrow> ('s, bool) eff"

text \<open>\<open>columns[i]\<close> is unchecked.\<close>

definition column_at :: "table_schema \<Rightarrow> nat \<Rightarrow> exn + column" where
  "column_at schema i = (if i < length (ts_columns schema) then Inr (ts_columns schema ! i)
     else Inl (Undefined_behaviour ''columns[] out of range''))"

definition is_single_int_auto_increment :: "table_schema \<Rightarrow> exn + bool" where
  "is_single_int_auto_increment schema =
     (if length (ts_primary_key_indices schema) \<noteq> 1 then Inr False
      else sbind (primary_key_column schema) (\<lambda>c. Inr (col_type c = CT_INT \<and> auto_increment c)))"

definition index_columns :: "table_schema \<Rightarrow> index \<Rightarrow> exn + nat list" where
  "index_columns schema ix = smap (\<lambda>col. case column_index schema col of
       None \<Rightarrow> Inl (Runtime_error (''Table: index '' @ quoted (ix_name (in_schema ix)) @ '' references unknown column ''
         @ quoted col @ '' on table '' @ quoted (ts_name schema)))
     | Some i \<Rightarrow> Inr i) (ix_column_names (in_schema ix))"

definition bind_index :: "table_schema \<Rightarrow> index \<Rightarrow> exn + index_binding" where
  "bind_index schema ix =
     (if ix_table_name (in_schema ix) \<noteq> ts_name schema then
        Inl (Runtime_error (''Table: index '' @ quoted (ix_name (in_schema ix)) @ '' belongs to table ''
          @ quoted (ix_table_name (in_schema ix)) @ '', not '' @ quoted (ts_name schema)))
      else sbind (index_columns schema ix) (\<lambda>cols. Inr \<lparr>ib_index = ix, ib_column_indices = cols\<rparr>))"

section \<open>Keys\<close>

definition key_at :: "key \<Rightarrow> nat \<Rightarrow> exn + db_value" where
  "key_at k i = (if i < length k then Inr (k ! i) else Inl (Out_of_range ''vector::at''))"

definition init_auto_increment :: "table_schema \<Rightarrow> nat \<Rightarrow> ('a btrees_scheme, u32) eff" where
  "init_auto_increment schema h = bind (lift (is_single_int_auto_increment schema)) (\<lambda>single.
     if \<not> single then ret 1
     else bind (scan_all h) (\<lambda>all.
       if all = [] then ret 1
       else lift (sbind (key_at (fst (last all)) 0) (\<lambda>v. sbind (get_int v) (\<lambda>max_key. Inr (max_key + 1))))))"

definition new_table :: "table_schema \<Rightarrow> index list \<Rightarrow> ('a objects_scheme, table) eff" where
  "new_table schema ixs = bind (new_tree (ts_root_page schema)) (\<lambda>h.
     bind (lift (smap (bind_index schema) ixs)) (\<lambda>bindings.
     bind (init_auto_increment schema h) (\<lambda>next.
     ret \<lparr>tb_schema = schema, tb_tree = h, tb_next = next, tb_indexes = bindings\<rparr>)))"

definition table_root_page :: "table \<Rightarrow> ('a btrees_scheme, u32) eff" where
  "table_root_page tb = root_page (tb_tree tb)"

fun index_root_pages_of :: "index_binding list \<Rightarrow> ('a btrees_scheme, (string \<times> u32) list) eff" where
  "index_root_pages_of [] = ret []"
| "index_root_pages_of (b # bs) = bind (index_root_page (ib_index b)) (\<lambda>root.
     bind (index_root_pages_of bs) (\<lambda>rs. ret ((ix_name (in_schema (ib_index b)), root) # rs)))"

definition index_root_pages :: "table \<Rightarrow> ('a btrees_scheme, (string \<times> u32) list) eff" where
  "index_root_pages tb = index_root_pages_of (tb_indexes tb)"

definition extract_primary_key :: "table_schema \<Rightarrow> db_row \<Rightarrow> exn + key" where
  "extract_primary_key schema row = smap (\<lambda>i. sbind (row_get row (unat i)) (\<lambda>v.
     if is_null v then sbind (column_at schema (unat i)) (\<lambda>c.
        Inl (Runtime_error (''Table::extract_primary_key: primary key column '' @ quoted (col_name c) @ '' cannot be NULL'')))
     else Inr v)) (ts_primary_key_indices schema)"

definition extract_indexed_value :: "db_row \<Rightarrow> index_binding \<Rightarrow> exn + key" where
  "extract_indexed_value row b = smap (row_get row) (ib_column_indices b)"

section \<open>Index maintenance\<close>

definition check_all_unique_constraints :: "table \<Rightarrow> db_row \<Rightarrow> key \<Rightarrow> ('a btrees_scheme, unit) eff" where
  "check_all_unique_constraints tb row pk = for_each (\<lambda>b.
     bind (lift (extract_indexed_value row b)) (\<lambda>v. check_unique (ib_index b) v pk)) (tb_indexes tb)"

definition write_row_and_indexes :: "table \<Rightarrow> u32 \<Rightarrow> key \<Rightarrow> db_row \<Rightarrow> byte list \<Rightarrow> ('a btrees_scheme, unit) eff" where
  "write_row_and_indexes tb transaction_id pk row bytes = andthen (btree_insert (tb_tree tb) transaction_id pk bytes)
     (for_each (\<lambda>b. bind (lift (extract_indexed_value row b)) (\<lambda>v.
        insert_entry (ib_index b) transaction_id v pk)) (tb_indexes tb))"

definition remove_row_and_indexes :: "table \<Rightarrow> u32 \<Rightarrow> key \<Rightarrow> db_row \<Rightarrow> ('a btrees_scheme, unit) eff" where
  "remove_row_and_indexes tb transaction_id pk old_row = andthen (btree_remove (tb_tree tb) transaction_id pk)
     (for_each (\<lambda>b. bind (lift (extract_indexed_value old_row b)) (\<lambda>v.
        remove_entry (ib_index b) transaction_id v pk)) (tb_indexes tb))"

section \<open>Insertion\<close>

definition row_set :: "db_row \<Rightarrow> nat \<Rightarrow> db_value \<Rightarrow> exn + db_row" where
  "row_set row i v = (if i \<ge> row_size row then Inl (Out_of_range ''Row::get: column index out of range'')
     else Inr (row\<lparr>row_values := (row_values row)[i := v]\<rparr>))"

definition assign_auto_increment :: "table \<Rightarrow> bool \<Rightarrow> db_row \<Rightarrow> exn + db_row" where
  "assign_auto_increment tb single row =
     (if \<not> single then Inr row
      else let i = unat (hd (ts_primary_key_indices (tb_schema tb))) in
        sbind (row_get row i) (\<lambda>v. if is_null v then row_set row i (IntV (tb_next tb)) else Inr row))"

text \<open>The counter moves behind a key; keys and counter are compared as unsigned numbers.\<close>

definition advance_auto_increment :: "table \<Rightarrow> key \<Rightarrow> exn + table" where
  "advance_auto_increment tb pk = sbind (key_at pk 0) (\<lambda>v. sbind (get_int v) (\<lambda>key_val.
     Inr (if key_val \<ge> tb_next tb then tb\<lparr>tb_next := key_val + 1\<rparr> else tb)))"

definition table_insert :: "table \<Rightarrow> db_row \<Rightarrow> ('a btrees_scheme, key \<times> table) eff" where
  "table_insert tb row = bind (lift (is_single_int_auto_increment (tb_schema tb))) (\<lambda>single.
     bind (lift (assign_auto_increment tb single row)) (\<lambda>row.
     bind (lift (extract_primary_key (tb_schema tb) row)) (\<lambda>pk.
     bind (btree_search (tb_tree tb) pk) (\<lambda>found.
     if found \<noteq> None then throw (Runtime_error ''Table::insert: duplicate primary key'')
     else andthen (check_all_unique_constraints tb row pk)
       (bind (lift (serialize row (tb_schema tb))) (\<lambda>bytes.
        bind wal_begin (\<lambda>transaction_id.
        andthen (write_row_and_indexes tb transaction_id pk row bytes)
        (andthen (wal_commit transaction_id)
         (bind (lift (if single then advance_auto_increment tb pk else Inr tb)) (\<lambda>tb. ret (pk, tb)))))))))))"

section \<open>Selection\<close>

definition select_by_key :: "table \<Rightarrow> key \<Rightarrow> ('a btrees_scheme, db_row option) eff" where
  "select_by_key tb key = bind (btree_search (tb_tree tb) key) (\<lambda>bytes. case bytes of
     None \<Rightarrow> ret None
   | Some b \<Rightarrow> bind (lift (deserialize b (tb_schema tb))) (\<lambda>row. ret (Some row)))"

fun scan_rows :: "table_schema \<Rightarrow> 's predicate \<Rightarrow> pair list \<Rightarrow> ('s, scan_result list) eff" where
  "scan_rows schema predicate [] = ret []"
| "scan_rows schema predicate ((key, bytes) # rest) =
     bind (lift (deserialize bytes schema)) (\<lambda>row. bind (predicate row) (\<lambda>m.
     bind (scan_rows schema predicate rest) (\<lambda>results.
     ret (if m then \<lparr>sr_primary_key = key, sr_row = row\<rparr> # results else results))))"

definition table_scan :: "table \<Rightarrow> ('a btrees_scheme) predicate \<Rightarrow> ('a btrees_scheme, scan_result list) eff" where
  "table_scan tb predicate = bind (scan_all (tb_tree tb)) (scan_rows (tb_schema tb) predicate)"

section \<open>Update\<close>

text \<open>The assignments, with the check of the column index that only \<open>update\<close> makes.\<close>

fun assign_checked :: "nat \<Rightarrow> (nat \<times> db_value) list \<Rightarrow> db_row \<Rightarrow> exn + db_row" where
  "assign_checked n [] row = Inr row"
| "assign_checked n ((col_idx, v) # rest) row =
     (if col_idx \<ge> n then Inl (Runtime_error (''Table::update: column index out of range '' @ to_string col_idx))
      else sbind (row_set row col_idx v) (assign_checked n rest))"

fun assign_values :: "(nat \<times> db_value) list \<Rightarrow> db_row \<Rightarrow> exn + db_row" where
  "assign_values [] row = Inr row"
| "assign_values ((col_idx, v) # rest) row = sbind (row_set row col_idx v) (assign_values rest)"

definition table_update :: "table \<Rightarrow> key \<Rightarrow> (nat \<times> db_value) list \<Rightarrow> ('a btrees_scheme, table) eff" where
  "table_update tb pk new_values = bind (btree_search (tb_tree tb) pk) (\<lambda>bytes. case bytes of
     None \<Rightarrow> throw (Runtime_error ''Table::update: primary key not found'')
   | Some b \<Rightarrow> bind (lift (deserialize b (tb_schema tb))) (\<lambda>old_row.
     bind (lift (assign_checked (length (ts_columns (tb_schema tb))) new_values old_row)) (\<lambda>new_row.
     bind (lift (extract_primary_key (tb_schema tb) new_row)) (\<lambda>new_pk.
     let pk_changed = \<not> key_eq new_pk pk in
     bind (if pk_changed then btree_search (tb_tree tb) new_pk else ret None) (\<lambda>taken.
     if taken \<noteq> None then throw (Runtime_error ''Table::update: new primary key value already exists'')
     else andthen (check_all_unique_constraints tb new_row pk)
       (bind (lift (serialize new_row (tb_schema tb))) (\<lambda>new_bytes.
        bind wal_begin (\<lambda>transaction_id.
        andthen (remove_row_and_indexes tb transaction_id pk old_row)
        (andthen (write_row_and_indexes tb transaction_id new_pk new_row new_bytes)
        (andthen (wal_commit transaction_id)
         (lift (if pk_changed
           then sbind (is_single_int_auto_increment (tb_schema tb)) (\<lambda>single.
             if single then advance_auto_increment tb new_pk else Inr tb)
           else Inr tb))))))))))))"

section \<open>Deletion\<close>

definition delete_now :: "table \<Rightarrow> key \<Rightarrow> db_row \<Rightarrow> ('a btrees_scheme, unit) eff" where
  "delete_now tb pk row = bind wal_begin (\<lambda>transaction_id.
     andthen (remove_row_and_indexes tb transaction_id pk row) (wal_commit transaction_id))"

definition delete_row :: "table \<Rightarrow> key \<Rightarrow> ('a btrees_scheme, unit) eff" where
  "delete_row tb pk = bind (btree_search (tb_tree tb) pk) (\<lambda>bytes. case bytes of
     None \<Rightarrow> throw (Runtime_error ''Table::delete_row: primary key not found'')
   | Some b \<Rightarrow> bind (lift (deserialize b (tb_schema tb))) (delete_now tb pk))"

definition delete_where :: "table \<Rightarrow> ('a btrees_scheme) predicate \<Rightarrow> ('a btrees_scheme, u32) eff" where
  "delete_where tb predicate = bind (table_scan tb predicate) (\<lambda>to_delete.
     andthen (for_each (\<lambda>r. delete_now tb (sr_primary_key r) (sr_row r)) to_delete)
       (ret (word_of_nat (length to_delete))))"

section \<open>Updating matched rows\<close>

record planned_update =
  pu_old_key :: key
  pu_new_key :: key
  pu_old_row :: db_row
  pu_new_row :: db_row

text \<open>The tuples claimed by earlier rows of the batch, one list per index.\<close>

definition claim_value :: "db_row \<Rightarrow> index_binding \<Rightarrow> key list \<Rightarrow> exn + key list" where
  "claim_value new_row b claimed =
     (if \<not> ix_is_unique (in_schema (ib_index b)) then Inr claimed
      else sbind (extract_indexed_value new_row b) (\<lambda>v.
        if \<not> is_indexable v then Inr claimed
        else if list_ex (\<lambda>c. key_eq c v) claimed then
          Inl (Runtime_error (''Table::update_matched: two rows in this update would collide on unique index ''
            @ quoted (ix_name (in_schema (ib_index b)))))
        else Inr (claimed @ [v])))"

fun claim_values :: "db_row \<Rightarrow> index_binding list \<Rightarrow> key list list \<Rightarrow> exn + key list list" where
  "claim_values new_row (b # bs) (c # cs) = sbind (claim_value new_row b c) (\<lambda>c.
     sbind (claim_values new_row bs cs) (\<lambda>cs. Inr (c # cs)))"
| "claim_values new_row _ _ = Inr []"

fun plan_updates :: "table \<Rightarrow> (nat \<times> db_value) list \<Rightarrow> key list list \<Rightarrow> scan_result list
    \<Rightarrow> ('a btrees_scheme, planned_update list) eff" where
  "plan_updates tb new_values claimed [] = ret []"
| "plan_updates tb new_values claimed (r # rs) =
     bind (lift (assign_values new_values (sr_row r))) (\<lambda>new_row.
     bind (lift (extract_primary_key (tb_schema tb) new_row)) (\<lambda>new_key.
     andthen (check_all_unique_constraints tb new_row (sr_primary_key r))
     (bind (lift (claim_values new_row (tb_indexes tb) claimed)) (\<lambda>claimed.
      bind (plan_updates tb new_values claimed rs) (\<lambda>us.
      ret (\<lparr>pu_old_key = sr_primary_key r, pu_new_key = new_key, pu_old_row = sr_row r, pu_new_row = new_row\<rparr> # us))))))"

definition key_taken :: "string" where
  "key_taken = ''Table::update_matched: new primary key value already exists ''
     @ ''(if this is a same-statement key swap or chain, split it into separate UPDATEs)''"

fun check_new_keys :: "table \<Rightarrow> key list \<Rightarrow> planned_update list \<Rightarrow> ('a btrees_scheme, unit) eff" where
  "check_new_keys tb seen [] = ret ()"
| "check_new_keys tb seen (u # us) =
     bind (if \<not> key_eq (pu_new_key u) (pu_old_key u) then btree_search (tb_tree tb) (pu_new_key u) else ret None) (\<lambda>found.
     if found \<noteq> None then throw (Runtime_error key_taken)
     else if list_ex (\<lambda>k. key_eq k (pu_new_key u)) seen
       then throw (Runtime_error ''Table::update_matched: two rows in this update would collide on the primary key'')
     else check_new_keys tb (seen @ [pu_new_key u]) us)"

definition apply_update :: "table \<Rightarrow> planned_update \<Rightarrow> ('a btrees_scheme, unit) eff" where
  "apply_update tb u = bind (lift (serialize (pu_new_row u) (tb_schema tb))) (\<lambda>new_bytes.
     bind wal_begin (\<lambda>transaction_id.
     andthen (remove_row_and_indexes tb transaction_id (pu_old_key u) (pu_old_row u))
     (andthen (write_row_and_indexes tb transaction_id (pu_new_key u) (pu_new_row u) new_bytes)
      (wal_commit transaction_id))))"

fun advance_all :: "table \<Rightarrow> planned_update list \<Rightarrow> exn + table" where
  "advance_all tb [] = Inr tb"
| "advance_all tb (u # us) = (if key_eq (pu_new_key u) (pu_old_key u) then advance_all tb us
     else sbind (advance_auto_increment tb (pu_new_key u)) (\<lambda>tb. advance_all tb us))"

text \<open>Everything before the first write.\<close>

definition update_plan :: "table \<Rightarrow> scan_result list \<Rightarrow> (nat \<times> db_value) list \<Rightarrow> ('a btrees_scheme, planned_update list) eff" where
  "update_plan tb matched_rows new_values =
     bind (plan_updates tb new_values (replicate (length (tb_indexes tb)) []) matched_rows) (\<lambda>to_update.
     andthen (check_new_keys tb [] to_update) (ret to_update))"

definition update_matched :: "table \<Rightarrow> scan_result list \<Rightarrow> (nat \<times> db_value) list \<Rightarrow> ('a btrees_scheme, u32 \<times> table) eff" where
  "update_matched tb matched_rows new_values = bind (update_plan tb matched_rows new_values) (\<lambda>to_update.
     andthen (for_each (apply_update tb) to_update)
      (bind (lift (is_single_int_auto_increment (tb_schema tb))) (\<lambda>single.
       bind (lift (if single then advance_all tb to_update else Inr tb)) (\<lambda>tb.
       ret (word_of_nat (length to_update), tb)))))"

definition update_where :: "table \<Rightarrow> ('a btrees_scheme) predicate \<Rightarrow> (nat \<times> db_value) list \<Rightarrow> ('a btrees_scheme, u32 \<times> table) eff" where
  "update_where tb predicate new_values = bind (table_scan tb predicate) (\<lambda>matched.
     update_matched tb matched new_values)"

section \<open>Lemmas\<close>

text \<open>What reading leaves: every tree, every page and every member.\<close>

definition kept :: "'a btrees_scheme \<Rightarrow> 'a btrees_scheme \<Rightarrow> bool" where
  "kept s u \<longleftrightarrow> reads (view s) (total_pages s) s u"

lemma kept_refl: "tree_at s h t \<Longrightarrow> kept s s"
  by (simp add: kept_def reads_def readable_def tree_at_def)

lemma kept_query: "tree_at s h t \<Longrightarrow> query_keeps s h t u \<Longrightarrow> kept s u"
  by (auto simp: kept_def reads_def readable_def query_keeps_def tree_at_def same_view_def)

lemma kept_tree: "kept s u \<Longrightarrow> tree_at s h t \<Longrightarrow> tree_at u h t"
  using reads_query [of s h t u] by (simp add: kept_def query_keeps_def)

lemma kept_trans: "kept s t \<Longrightarrow> kept t u \<Longrightarrow> kept s u"
  by (auto simp: kept_def reads_def readable_def)

lemma kept_log:
  fixes s u :: btrees
  assumes "kept s u"
  shows "wal_file u = wal_file s"
proof -
  have "pool.more u = pool.more s" using assms by (simp add: kept_def reads_def)
  then show ?thesis by (cases u; cases s) (simp add: pool.defs)
qed

lemma kept_index: "kept s u \<Longrightarrow> index_at s ix it \<Longrightarrow> index_at u ix it"
  by (simp add: index_at_def kept_tree)

text \<open>
  The rows a table holds: one per entry of its tree, under the entry's key. The trees of its
  indexes are listed beside the bindings.
\<close>

definition table_at :: "'a btrees_scheme \<Rightarrow> table \<Rightarrow> tree \<Rightarrow> scan_result list \<Rightarrow> bool" where
  "table_at s tb t rows \<longleftrightarrow> tree_at s (tb_tree tb) t
     \<and> list_all2 (\<lambda>r e. sr_primary_key r = le_key e \<and> deserialize (le_value e) (tb_schema tb) = Inr (sr_row r)) rows (t_entries t)"

definition indexes_at :: "'a btrees_scheme \<Rightarrow> table \<Rightarrow> tree list \<Rightarrow> bool" where
  "indexes_at s tb its \<longleftrightarrow> list_all2 (\<lambda>b it. index_at s (ib_index b) it
     \<and> length (ib_column_indices b) = columns_of (ib_index b)) (tb_indexes tb) its"

lemma list_all2_partner:
  "list_all2 P xs ys \<Longrightarrow> x \<in> set xs \<Longrightarrow> \<exists>y \<in> set ys. P x y"
  "list_all2 P xs ys \<Longrightarrow> y \<in> set ys \<Longrightarrow> \<exists>x \<in> set xs. P x y"
  by (induction xs ys rule: list_all2_induct) auto

lemma table_atD:
  assumes "table_at s tb t rows"
  shows "tree_at s (tb_tree tb) t"
    "\<And>e. e \<in> set (t_entries t) \<Longrightarrow> \<exists>r \<in> set rows. sr_primary_key r = le_key e \<and> deserialize (le_value e) (tb_schema tb) = Inr (sr_row r)"
    "\<And>r. r \<in> set rows \<Longrightarrow> \<exists>e \<in> set (t_entries t). sr_primary_key r = le_key e \<and> deserialize (le_value e) (tb_schema tb) = Inr (sr_row r)"
  using assms by (auto simp: table_at_def dest: list_all2_partner)

lemma kept_table: "kept s u \<Longrightarrow> table_at s tb t rows \<Longrightarrow> table_at u tb t rows"
  by (simp add: table_at_def kept_tree)

lemma kept_indexes: "kept s u \<Longrightarrow> indexes_at s tb its \<Longrightarrow> indexes_at u tb its"
  by (auto simp: indexes_at_def elim!: list_all2_mono intro: kept_index)

lemma bind_lift: "bind (lift (Inr x)) f = f x"
  by (simp add: lift_def bind_def ret_def fun_eq_iff)

text \<open>A scan with a predicate that keeps an invariant \<open>I\<close> and decides \<open>P\<close>.\<close>

lemma wp_scan_rows:
  assumes "list_all2 (\<lambda>r e. sr_primary_key r = le_key e \<and> deserialize (le_value e) schema = Inr (sr_row r)) rows es" "I s"
    "\<And>r u. r \<in> set rows \<Longrightarrow> I u \<Longrightarrow> wp (predicate (sr_row r)) (\<lambda>b w. I w \<and> b = P (sr_row r)) E u"
  shows "wp (scan_rows schema predicate (map pair_of es)) (\<lambda>rs u. I u \<and> rs = filter (P \<circ> sr_row) rows) E s"
  using assms
proof (induction rows es arbitrary: s rule: list_all2_induct)
  case Nil
  then show ?case by (simp add: wp_ret)
next
  case (Cons r rows e es)
  have rest: "wp (scan_rows schema predicate (map pair_of es)) (\<lambda>rs u. I u \<and> rs = filter (P \<circ> sr_row) rows) E u" if "I u" for u
    by (rule Cons.IH [OF that]) (use Cons.prems in auto)
  have head: "wp (predicate (sr_row r)) (\<lambda>b w. I w \<and> b = P (sr_row r)) E s"
    by (rule Cons.prems(2)) (use Cons.prems in auto)
  obtain row where r: "r = \<lparr>sr_primary_key = le_key e, sr_row = row\<rparr>" "deserialize (le_value e) schema = Inr row"
    using Cons.hyps by (cases r) auto
  have tail: "wp (bind (scan_rows schema predicate (map pair_of es)) (\<lambda>results. ret (if P (sr_row r) then r # results else results)))
      (\<lambda>rs u. I u \<and> rs = filter (P \<circ> sr_row) (r # rows)) E u" if "I u" for u
    unfolding wp_bind wp_ret by (rule wp_mono [OF rest [OF that]]) auto
  have "scan_rows schema predicate (map pair_of (e # es)) = bind (predicate (sr_row r)) (\<lambda>m.
      bind (scan_rows schema predicate (map pair_of es)) (\<lambda>results. ret (if m then r # results else results)))"
    unfolding r(1) by (simp add: pair_of_def bind_lift r(2))
  then show ?case
    using wp_mono [OF head] tail by (simp only: wp_bind [of "predicate (sr_row r)"])
qed

lemma wp_table_scan:
  fixes s :: "'a btrees_scheme"
  assumes "table_at s tb t rows" "\<And>u. kept s u \<Longrightarrow> I u"
    "\<And>r u. r \<in> set rows \<Longrightarrow> I u \<Longrightarrow> wp (predicate (sr_row r)) (\<lambda>b w. I w \<and> b = P (sr_row r)) E u"
  shows "wp (table_scan tb predicate) (\<lambda>rs u. I u \<and> rs = filter (P \<circ> sr_row) rows) E s"
proof -
  have "wp (scan_rows (tb_schema tb) predicate (map pair_of (t_entries t))) (\<lambda>rs u. I u \<and> rs = filter (P \<circ> sr_row) rows) E u"
    if "I u" for u
    by (rule wp_scan_rows) (use assms that in \<open>auto simp: table_at_def\<close>)
  with wp_mono [OF scan_all_correct [OF table_atD(1) [OF assms(1)]]] kept_query [OF table_atD(1) [OF assms(1)]] assms(2)
  show ?thesis unfolding table_scan_def wp_bind
    by (blast intro: wp_mono [OF scan_all_correct [OF table_atD(1) [OF assms(1)]]])
qed

lemma wp_select_by_key:
  fixes s :: "'a btrees_scheme"
  assumes "table_at s tb t rows" "clean_key k"
  shows "wp (select_by_key tb k) (\<lambda>r u. kept s u
    \<and> (\<forall>row. r = Some row \<longleftrightarrow> (\<exists>x \<in> set rows. key_eq (sr_primary_key x) k \<and> sr_row x = row))) (\<lambda>_ _. False) s"
  unfolding select_by_key_def wp_bind
proof (rule wp_mono [OF wp_btree_search [OF table_atD(1) [OF assms(1)] assms(2)]], elim conjE)
  fix r u
  assume u: "query_keeps s (tb_tree tb) t u"
    and r: "\<forall>v. (r = Some v) = (\<exists>e \<in> set (t_entries t). key_eq (le_key e) k \<and> le_value e = v)"
  have ku: "kept s u" by (rule kept_query [OF table_atD(1) [OF assms(1)] u])
  have out: "(\<exists>x \<in> set rows. key_eq (sr_primary_key x) k \<and> sr_row x = row)
      \<longleftrightarrow> (\<exists>v. r = Some v \<and> deserialize v (tb_schema tb) = Inr row)" for row
    using table_atD(2,3) [OF assms(1)] r by (smt (verit, best) Inr_inject)
  show "wp (case r of None \<Rightarrow> ret None | Some b \<Rightarrow> bind (lift (deserialize b (tb_schema tb))) (\<lambda>row. ret (Some row)))
    (\<lambda>r u. kept s u \<and> (\<forall>row. r = Some row \<longleftrightarrow> (\<exists>x \<in> set rows. key_eq (sr_primary_key x) k \<and> sr_row x = row))) (\<lambda>_ _. False) u"
  proof (cases r)
    case None
    then show ?thesis using ku out by (simp add: wp_ret)
  next
    case (Some v)
    then obtain e where "e \<in> set (t_entries t)" "le_value e = v" using r by blast
    then obtain row where "deserialize v (tb_schema tb) = Inr row" using table_atD(2) [OF assms(1)] by blast
    then show ?thesis using ku out Some by (auto simp: wp_bind wp_lift wp_ret)
  qed
qed simp

section \<open>Constraint checks\<close>

definition clean_row :: "db_row \<Rightarrow> bool" where
  "clean_row row \<longleftrightarrow> clean_key (row_values row)"

lemma row_get_Inr: "row_get row i = Inr v \<longleftrightarrow> i < length (row_values row) \<and> v = row_values row ! i"
  by (auto simp: row_get_def)

lemma smap_row_get:
  assumes "smap (row_get row) is = Inr v" "clean_row row"
  shows "length v = length is" "clean_key v"
proof -
  have "length v = length is \<and> clean_key v"
    using assms
  proof (induction "is" arbitrary: v)
    case (Cons i "is")
    then obtain w where w: "v = row_values row ! i # w" "smap (row_get row) is = Inr w" "i < length (row_values row)"
      by (auto simp: sbind_Inr_conv row_get_Inr)
    moreover have "clean_value (row_values row ! i)"
      using w(3) assms(2) by (simp add: clean_row_def clean_key_def list_all_length)
    ultimately show ?case using Cons by simp
  qed simp
  then show "length v = length is" "clean_key v" by simp_all
qed

lemma extract_primary_key_get:
  "extract_primary_key schema row = Inr k \<Longrightarrow> smap (row_get row) (map unat (ts_primary_key_indices schema)) = Inr k"
proof -
  have "smap (\<lambda>i. sbind (row_get row (unat i)) (\<lambda>v. if is_null v then sbind (column_at schema (unat i)) (\<lambda>c. Inl (f c)) else Inr v)) is
      = Inr k \<Longrightarrow> smap (row_get row) (map unat is) = Inr k" for "is" and f k
    by (induction "is" arbitrary: k) (auto simp: sbind_Inr_conv split: if_splits)
  then show "extract_primary_key schema row = Inr k \<Longrightarrow> smap (row_get row) (map unat (ts_primary_key_indices schema)) = Inr k"
    unfolding extract_primary_key_def .
qed

text \<open>No unique index holds the row's tuple under another key.\<close>

definition no_conflict :: "index_binding list \<Rightarrow> tree list \<Rightarrow> db_row \<Rightarrow> key \<Rightarrow> bool" where
  "no_conflict bs its row pk \<longleftrightarrow> list_all2 (\<lambda>b it. \<exists>v. extract_indexed_value row b = Inr v
     \<and> \<not> unique_conflict (ib_index b) it v pk) bs its"

lemma wp_check_all:
  fixes s :: "'a btrees_scheme"
  assumes "indexes_at s tb its" "clean_row row" "kept s s"
  shows "wp (check_all_unique_constraints tb row pk) (\<lambda>_ u. kept s u \<and> no_conflict (tb_indexes tb) its row pk)
    (\<lambda>_ u. kept s u \<and> \<not> no_conflict (tb_indexes tb) its row pk) s"
proof -
  have "wp (for_each (\<lambda>b. bind (lift (extract_indexed_value row b)) (\<lambda>v. check_unique (ib_index b) v pk)) bs)
      (\<lambda>_ u. kept s u \<and> no_conflict bs its row pk) (\<lambda>_ u. kept s u \<and> \<not> no_conflict bs its row pk) u"
    if "list_all2 (\<lambda>b it. index_at s (ib_index b) it \<and> length (ib_column_indices b) = columns_of (ib_index b)) bs its" "kept s u"
    for bs its u
    using that
  proof (induction bs its arbitrary: u rule: list_all2_induct)
    case Nil
    then show ?case by (simp add: wp_ret no_conflict_def)
  next
    case (Cons b bs it its)
    show ?case
    proof (cases "extract_indexed_value row b")
      case (Inl e)
      then show ?thesis using Cons.prems by (simp add: wp_eqs no_conflict_def)
    next
      case (Inr v)
      then have v: "clean_key v" "length v = columns_of (ib_index b)"
        using smap_row_get [of row "ib_column_indices b" v] assms(2) Cons.hyps by (auto simp: extract_indexed_value_def)
      have i: "index_at u (ib_index b) it" using Cons.hyps Cons.prems by (blast intro: kept_index)
      have t: "kept s w" if "query_keeps u (in_tree (ib_index b)) it w" for w
        using kept_query [OF index_atD(1) [OF i] that] Cons.prems by (blast intro: kept_trans)
      show ?thesis
        unfolding for_each.simps wp_andthen
        using Inr by (simp add: bind_lift no_conflict_def)
          (rule wp_mono [OF wp_check_unique [OF i v, of pk]];
           use t Cons.IH in \<open>auto simp: no_conflict_def elim!: wp_mono\<close>)
    qed
  qed
  then show ?thesis using assms by (simp add: check_all_unique_constraints_def indexes_at_def)
qed

text \<open>The primary key of a row is taken.\<close>

lemma wp_search_rows:
  fixes s :: "'a btrees_scheme"
  assumes "table_at s tb t rows" "clean_key k"
  shows "wp (btree_search (tb_tree tb) k) (\<lambda>r u. kept s u
    \<and> (r = None \<longleftrightarrow> (\<forall>x \<in> set rows. \<not> key_eq (sr_primary_key x) k))) (\<lambda>_ _. False) s"
proof (rule wp_mono [OF wp_btree_search [OF table_atD(1) [OF assms(1)] assms(2)]], elim conjE)
  fix r u
  assume u: "query_keeps s (tb_tree tb) t u"
    and r: "\<forall>v. (r = Some v) = (\<exists>e \<in> set (t_entries t). key_eq (le_key e) k \<and> le_value e = v)"
  have "r = None \<longleftrightarrow> (\<forall>e \<in> set (t_entries t). \<not> key_eq (le_key e) k)" using r by (metis option.exhaust option.distinct(1))
  also have "\<dots> \<longleftrightarrow> (\<forall>x \<in> set rows. \<not> key_eq (sr_primary_key x) k)"
    using table_atD(2,3) [OF assms(1)] by metis
  finally show "kept s u \<and> (r = None \<longleftrightarrow> (\<forall>x \<in> set rows. \<not> key_eq (sr_primary_key x) k))"
    using kept_query [OF table_atD(1) [OF assms(1)] u] by simp
qed simp

lemma primary_key_clean: "extract_primary_key schema row = Inr k \<Longrightarrow> clean_row row \<Longrightarrow> clean_key k"
  using smap_row_get(2) [OF extract_primary_key_get] by blast

text \<open>What \<open>insert\<close> refuses.\<close>

definition insert_refused :: "table \<Rightarrow> scan_result list \<Rightarrow> tree list \<Rightarrow> db_row \<Rightarrow> bool" where
  "insert_refused tb rows its row \<longleftrightarrow> \<not> row_typed row (tb_schema tb) \<or> (case extract_primary_key (tb_schema tb) row of
     Inl _ \<Rightarrow> True
   | Inr pk \<Rightarrow> (\<exists>x \<in> set rows. key_eq (sr_primary_key x) pk) \<or> \<not> no_conflict (tb_indexes tb) its row pk)"

lemma wp_insert_refused:
  fixes s :: "'a btrees_scheme"
  assumes "table_at s tb t rows" "indexes_at s tb its" "is_single_int_auto_increment (tb_schema tb) = Inr single"
    "assign_auto_increment tb single row = Inr row'" "clean_row row'" "insert_refused tb rows its row'"
  shows "wp (table_insert tb row) (\<lambda>_ _. False) (\<lambda>_ u. kept s u) s"
proof (cases "extract_primary_key (tb_schema tb) row'")
  case (Inl e)
  then show ?thesis using assms(3,4) kept_refl [OF table_atD(1) [OF assms(1)]]
    by (simp add: table_insert_def bind_lift wp_bind wp_lift)
next
  case (Inr pk)
  have pk: "clean_key pk" by (rule primary_key_clean [OF Inr assms(5)])
  have untyped: "\<exists>e. serialize row' (tb_schema tb) = Inl e" if "\<not> row_typed row' (tb_schema tb)"
    using that serialize_ok [of row' "tb_schema tb"] by (metis sum.exhaust)
  let ?rest = "bind (lift (serialize row' (tb_schema tb))) (\<lambda>bytes. bind wal_begin (\<lambda>txn.
        andthen (write_row_and_indexes tb txn pk row' bytes) (andthen (wal_commit txn)
         (bind (lift (if single then advance_auto_increment tb pk else Inr tb)) (\<lambda>tb. ret (pk, tb))))))"
  have checks: "wp (andthen (check_all_unique_constraints tb row' pk) ?rest) (\<lambda>_ _. False) (\<lambda>_ u. kept s u) u"
    if u: "kept s u" and free: "\<forall>x \<in> set rows. \<not> key_eq (sr_primary_key x) pk" for u
    unfolding wp_andthen [of "check_all_unique_constraints tb row' pk"]
  proof (rule wp_mono [OF wp_check_all [OF kept_indexes [OF u assms(2)] assms(5)]])
    show "kept u u" using kept_refl [OF kept_tree [OF u table_atD(1) [OF assms(1)]]] .
    fix x w assume w: "kept u w \<and> no_conflict (tb_indexes tb) its row' pk"
    then obtain e where "serialize row' (tb_schema tb) = Inl e"
      using assms(6) Inr free untyped by (auto simp: insert_refused_def)
    with w show "wp ?rest (\<lambda>_ _. False) (\<lambda>_ u. kept s u) w"
      using kept_trans [OF u] by (simp add: wp_bind wp_lift)
  qed (use kept_trans [OF u] in auto)
  have eq: "table_insert tb row = bind (btree_search (tb_tree tb) pk) (\<lambda>found.
     if found \<noteq> None then throw (Runtime_error ''Table::insert: duplicate primary key'')
     else andthen (check_all_unique_constraints tb row' pk) ?rest)"
    unfolding table_insert_def assms(3,4) Inr bind_lift ..
  show ?thesis
    unfolding eq wp_bind [of "btree_search (tb_tree tb) pk"]
    by (rule wp_mono [OF wp_search_rows [OF assms(1) pk]]) (use checks in \<open>auto simp: wp_throw\<close>)
qed

section \<open>Planning an update\<close>

text \<open>Pairwise different keys.\<close>

abbreviation apart :: "key list \<Rightarrow> bool" where
  "apart \<equiv> sorted_wrt (\<lambda>a b. \<not> key_eq a b)"

lemma apart_snoc: "apart (ks @ [k]) \<longleftrightarrow> apart ks \<and> \<not> list_ex (\<lambda>c. key_eq c k) ks"
  by (auto simp: sorted_wrt_append list_ex_iff)

text \<open>The tuple a row claims in an index.\<close>

definition claim_of :: "index_binding \<Rightarrow> db_row \<Rightarrow> key list" where
  "claim_of b row = (case extract_indexed_value row b of Inl _ \<Rightarrow> [] | Inr v \<Rightarrow> if is_indexable v then [v] else [])"

definition claims :: "index_binding \<Rightarrow> planned_update list \<Rightarrow> key list" where
  "claims b us = concat (map (claim_of b \<circ> pu_new_row) us)"

definition claims_apart :: "index_binding list \<Rightarrow> key list list \<Rightarrow> planned_update list \<Rightarrow> bool" where
  "claims_apart bs cs us \<longleftrightarrow>
     list_all2 (\<lambda>b c. ix_is_unique (in_schema (ib_index b)) \<longrightarrow> apart (c @ claims b us)) bs cs"

lemma claim_value_ok:
  assumes "claim_value row b c = Inr c'" "ix_is_unique (in_schema (ib_index b))" "apart c"
  shows "c' = c @ claim_of b row \<and> apart c'"
  using assms by (auto simp: claim_value_def claim_of_def sbind_Inr_conv apart_snoc split: if_splits)

lemma claim_values_ok:
  "claim_values row bs cs = Inr cs' \<Longrightarrow> claims_apart bs cs [] \<Longrightarrow>
   claims_apart bs cs' [] \<and> (claims_apart bs cs' us \<longrightarrow> claims_apart bs cs (\<lparr>pu_old_key = k, pu_new_key = k', pu_old_row = r, pu_new_row = row\<rparr> # us))"
proof (induction row bs cs arbitrary: cs' rule: claim_values.induct)
  case (1 row b bs c cs)
  then obtain d ds where d: "claim_value row b c = Inr d" "claim_values row bs cs = Inr ds" "cs' = d # ds"
    by (auto simp: sbind_Inr_conv)
  then show ?case
    using 1 claim_value_ok [OF d(1)] by (auto simp: claims_apart_def claims_def)
qed (auto simp: claims_apart_def)

text \<open>What the planned updates satisfy.\<close>

definition planned_for :: "table \<Rightarrow> tree list \<Rightarrow> (nat \<times> db_value) list \<Rightarrow> scan_result \<Rightarrow> planned_update \<Rightarrow> bool" where
  "planned_for tb its new_values r u \<longleftrightarrow> pu_old_key u = sr_primary_key r \<and> pu_old_row u = sr_row r
     \<and> assign_values new_values (sr_row r) = Inr (pu_new_row u)
     \<and> extract_primary_key (tb_schema tb) (pu_new_row u) = Inr (pu_new_key u)
     \<and> no_conflict (tb_indexes tb) its (pu_new_row u) (pu_old_key u)"

lemma wp_plan_updates:
  fixes s :: "'a btrees_scheme"
  assumes "indexes_at s tb its" "kept s u" "kept u u" "claims_apart (tb_indexes tb) cs []"
    "\<forall>r \<in> set ms. \<forall>row. assign_values new_values (sr_row r) = Inr row \<longrightarrow> clean_row row"
  shows "wp (plan_updates tb new_values cs ms) (\<lambda>us w. kept s w \<and> list_all2 (planned_for tb its new_values) ms us
      \<and> claims_apart (tb_indexes tb) cs us) (\<lambda>_ w. kept s w) u"
  using assms(2-)
proof (induction ms arbitrary: cs u)
  case Nil
  then show ?case by (simp add: wp_ret)
next
  case (Cons r ms)
  let ?bs = "tb_indexes tb" and ?done = "\<lambda>_ w. kept s w"
  show ?case
  proof (cases "assign_values new_values (sr_row r)")
    case (Inl e)
    then show ?thesis using Cons.prems by (simp add: wp_bind wp_lift)
  next
    case row: (Inr row)
    have clean: "clean_row row" using Cons.prems(4) row by simp
    show ?thesis
    proof (cases "extract_primary_key (tb_schema tb) row")
      case (Inl e)
      then show ?thesis using Cons.prems row by (simp add: wp_bind wp_lift)
    next
      case key: (Inr k)
      let ?u = "\<lparr>pu_old_key = sr_primary_key r, pu_new_key = k, pu_old_row = sr_row r, pu_new_row = row\<rparr>"
      let ?rest = "bind (lift (claim_values row ?bs cs)) (\<lambda>claimed.
          bind (plan_updates tb new_values claimed ms) (\<lambda>us. ret (?u # us)))"
      have eq: "plan_updates tb new_values cs (r # ms)
        = andthen (check_all_unique_constraints tb row (sr_primary_key r)) ?rest"
        by (simp add: row key bind_lift)
      have rest: "wp ?rest (\<lambda>us w. kept s w \<and> list_all2 (planned_for tb its new_values) (r # ms) us \<and> claims_apart ?bs cs us) ?done w"
        if w: "kept s w" "kept w w" "no_conflict ?bs its row (sr_primary_key r)" for w
      proof (cases "claim_values row ?bs cs")
        case (Inl e)
        then show ?thesis using w by (simp add: wp_bind wp_lift)
      next
        case (Inr cs')
        note c = claim_values_ok [OF Inr Cons.prems(3)]
        have p: "planned_for tb its new_values r ?u"
          using row key w(3) by (simp add: planned_for_def)
        have "wp (plan_updates tb new_values cs' ms) (\<lambda>us w. kept s w \<and> list_all2 (planned_for tb its new_values) ms us
            \<and> claims_apart ?bs cs' us) ?done w"
          by (rule Cons.IH [OF w(1,2)]) (use c Cons.prems(4) in auto)
        then show ?thesis
          unfolding Inr bind_lift wp_bind by (rule wp_mono) (use p c in \<open>auto simp: wp_ret\<close>)
      qed
      show ?thesis
        unfolding eq wp_andthen
      proof (rule wp_mono [OF wp_check_all [OF kept_indexes [OF Cons.prems(1) assms(1)] clean Cons.prems(2)]])
        fix x w assume w: "kept u w \<and> no_conflict ?bs its row (sr_primary_key r)"
        then have "kept s w" "kept w w"
          using Cons.prems(1) kept_trans by (auto simp: kept_def reads_def readable_def)
        with w show "wp ?rest (\<lambda>us w. kept s w \<and> list_all2 (planned_for tb its new_values) (r # ms) us \<and> claims_apart ?bs cs us) ?done w"
          using rest by simp
      qed (use Cons.prems(1) kept_trans in blast)
    qed
  qed
qed

lemma wp_check_new_keys:
  fixes s :: "'a btrees_scheme"
  assumes "table_at s tb t rows" "kept s u" "apart seen" "\<forall>p \<in> set us. clean_key (pu_new_key p)"
  shows "wp (check_new_keys tb seen us) (\<lambda>_ w. kept s w \<and> apart (seen @ map pu_new_key us)
      \<and> (\<forall>p \<in> set us. key_eq (pu_new_key p) (pu_old_key p) \<or> (\<forall>x \<in> set rows. \<not> key_eq (sr_primary_key x) (pu_new_key p))))
    (\<lambda>_ w. kept s w) u"
  using assms(2-)
proof (induction us arbitrary: seen u)
  case Nil
  then show ?case by (simp add: wp_ret)
next
  case (Cons p us)
  let ?free = "\<lambda>p. key_eq (pu_new_key p) (pu_old_key p) \<or> (\<forall>x \<in> set rows. \<not> key_eq (sr_primary_key x) (pu_new_key p))"
  let ?seen = "list_ex (\<lambda>k. key_eq k (pu_new_key p)) seen"
  have rest: "wp (if ?seen then throw e else check_new_keys tb (seen @ [pu_new_key p]) us)
      (\<lambda>_ w. kept s w \<and> apart (seen @ map pu_new_key (p # us)) \<and> (\<forall>p \<in> set (p # us). ?free p)) (\<lambda>_ w. kept s w) w"
    if "kept s w" "?free p" for e w
  proof (cases ?seen)
    case False
    have "wp (check_new_keys tb (seen @ [pu_new_key p]) us) (\<lambda>_ w. kept s w \<and> apart ((seen @ [pu_new_key p]) @ map pu_new_key us)
        \<and> (\<forall>p \<in> set us. ?free p)) (\<lambda>_ w. kept s w) w"
      by (rule Cons.IH [OF that(1)]) (use False Cons.prems apart_snoc in auto)
    with False that(2) show ?thesis by (auto elim: wp_mono)
  qed (use that in \<open>simp add: wp_throw\<close>)
  show ?case
  proof (cases "key_eq (pu_new_key p) (pu_old_key p)")
    case True
    then show ?thesis using rest [OF Cons.prems(1)] by (simp add: wp_bind wp_ret)
  next
    case False
    have "wp (btree_search (tb_tree tb) (pu_new_key p)) (\<lambda>r w. kept u w
        \<and> (r = None \<longleftrightarrow> (\<forall>x \<in> set rows. \<not> key_eq (sr_primary_key x) (pu_new_key p)))) (\<lambda>_ _. False) u"
      by (rule wp_search_rows [OF kept_table [OF Cons.prems(1) assms(1)]]) (use Cons.prems in simp)
    then show ?thesis
      using False unfolding check_new_keys.simps wp_bind
      by (simp only: if_True not_False_eq_True)
        (erule wp_mono; use rest kept_trans [OF Cons.prems(1)] in \<open>auto simp: wp_throw\<close>)
  qed
qed

section \<open>A sample table\<close>

text \<open>Columns \<open>id\<close> (the automatic primary key) and \<open>a\<close>, with a unique index on \<open>a\<close>.\<close>

definition int_column :: "string \<Rightarrow> bool \<Rightarrow> column" where
  "int_column name pk = \<lparr>col_name = name, col_type = CT_INT, max_length = 0, is_nullable = \<not> pk, is_primary_key = pk,
     auto_increment = pk, has_default = False, default_value = Null\<rparr>"

definition sample_schema :: table_schema where
  "sample_schema = \<lparr>ts_name = ''t'', ts_columns = [int_column ''id'' True, int_column ''a'' False], ts_root_page = 1,
     ts_primary_key_indices = [0], ts_checks = [], ts_foreign_keys = [], ts_create_sql = []\<rparr>"

definition sample_unique :: index where
  "sample_unique = \<lparr>in_schema = \<lparr>ix_name = ''u'', ix_table_name = ''t'', ix_column_names = [''a''], ix_root_page = 2,
     ix_is_unique = True\<rparr>, in_pk_arity = 1, in_tree = 1\<rparr>"

definition sample_tb :: table where
  "sample_tb = \<lparr>tb_schema = sample_schema, tb_tree = 0, tb_next = 3,
     tb_indexes = [\<lparr>ib_index = sample_unique, ib_column_indices = [1]\<rparr>]\<rparr>"

definition sample_rows :: "(u32 \<times> u32) list" where
  "sample_rows = [(1, 10), (2, 20)]"

definition int_row :: "db_value \<Rightarrow> db_value \<Rightarrow> db_row" where
  "int_row k a = \<lparr>row_values = [k, a]\<rparr>"

definition sample_row_entries :: "leaf_entry list" where
  "sample_row_entries = map (\<lambda>(k, a). \<lparr>le_key = [IntV k], le_value = 0 # u32_bytes k @ u32_bytes a\<rparr>) sample_rows"

definition sample_index_entries :: "leaf_entry list" where
  "sample_index_entries = map (\<lambda>(k, a). \<lparr>le_key = [IntV a, IntV k], le_value = []\<rparr>) sample_rows"

definition sample_results :: "scan_result list" where
  "sample_results = map (\<lambda>(k, a). \<lparr>sr_primary_key = [IntV k], sr_row = int_row (IntV k) (IntV a)\<rparr>) sample_rows"

definition sample_state :: btrees where
  "sample_state = leaves_btrees [sample_row_entries, sample_index_entries]"

lemma deserialize_sample:
  "deserialize (0 # u32_bytes k @ u32_bytes a) sample_schema = Inr (int_row (IntV k) (IntV a))"
  by (simp add: deserialize_def sample_schema_def bitmap_size_def int_column_def decode_column_def decode_int_def
      get_null_bit_def int_row_def)

lemma sample_entries_ok: "leaf_ok sample_row_entries" "leaf_ok sample_index_entries"
  by (simp_all add: leaf_ok_def sample_row_entries_def sample_index_entries_def sample_rows_def leaf_bytes_def leaf_cell_def
      key_encode_def capacity_def PAGE_SIZE_def NODE_HEADER_SIZE_def leaf_entry_fits_def key_fits_def value_fits_def
      sorted_entries_def clean_value_def)

lemma sample_table_at: "table_at sample_state sample_tb (Leaf 1 sample_row_entries) sample_results"
  using leaves_btrees_at [of "[sample_row_entries, sample_index_entries]" 0] sample_entries_ok
  by (simp add: table_at_def sample_state_def sample_tb_def)
    (simp add: sample_row_entries_def sample_results_def sample_rows_def deserialize_sample)

lemma sample_indexes_at: "indexes_at sample_state sample_tb [Leaf 2 sample_index_entries]"
  using leaves_btrees_at [of "[sample_row_entries, sample_index_entries]" 1] sample_entries_ok
  by (simp add: indexes_at_def index_at_def sample_state_def sample_tb_def sample_unique_def columns_of_def)
    (simp add: sample_index_entries_def sample_rows_def)

lemma sample_insert_clean:
  "is_single_int_auto_increment (tb_schema sample_tb) = Inr True"
  "assign_auto_increment sample_tb True (int_row Null a) = Inr (int_row (IntV 3) a)"
  "clean_row (int_row (IntV k) (IntV b))"
  by (simp_all add: is_single_int_auto_increment_def sample_tb_def sample_schema_def primary_key_column_def int_column_def
      assign_auto_increment_def row_get_def row_set_def row_size_def is_null_def int_row_def clean_row_def clean_value_def)

section \<open>Properties\<close>

text \<open>
  Property C26. Selection by primary key: the row stored under the key, or nothing when there is
  none, decoded by the schema; nothing is changed and nothing is thrown.
\<close>

theorem select_by_key_correct:
  fixes s :: "'a btrees_scheme"
  assumes "table_at s tb t rows" "clean_key k"
  shows "wp (select_by_key tb k) (\<lambda>r u. kept s u
    \<and> (\<forall>row. r = Some row \<longleftrightarrow> (\<exists>x \<in> set rows. key_eq (sr_primary_key x) k \<and> sr_row x = row))) (\<lambda>_ _. False) s"
  by (rule wp_select_by_key [OF assms])

theorem select_by_key_correct_witness:
  "wp (select_by_key sample_tb [IntV 2]) (\<lambda>r u. r = Some (int_row (IntV 2) (IntV 20))) (\<lambda>_ _. False) sample_state"
  by (rule wp_mono [OF select_by_key_correct [OF sample_table_at]])
    (simp_all add: clean_value_def sample_results_def sample_rows_def)

text \<open>
  Property C27. A refused insert writes nothing: when the primary key is NULL or taken, a unique
  index already holds the tuple under another key, or the row does not fit the schema, \<open>insert\<close>
  throws and leaves every tree, every page and the log as they were.
\<close>

theorem refused_insert_writes_nothing:
  fixes s :: "'a btrees_scheme"
  assumes "table_at s tb t rows" "indexes_at s tb its" "is_single_int_auto_increment (tb_schema tb) = Inr single"
    "assign_auto_increment tb single row = Inr row'" "clean_row row'" "insert_refused tb rows its row'"
  shows "wp (table_insert tb row) (\<lambda>_ _. False) (\<lambda>_ u. kept s u) s"
  by (rule wp_insert_refused [OF assms])

theorem refused_insert_writes_nothing_witness:
  "wp (table_insert sample_tb (int_row Null (IntV 20))) (\<lambda>_ _. False) (\<lambda>_ u. wal_file u = wal_file sample_state) sample_state"
proof -
  have "insert_refused sample_tb sample_results [Leaf 2 sample_index_entries] (int_row (IntV 3) (IntV 20))"
    by (simp add: insert_refused_def extract_primary_key_def sample_tb_def sample_schema_def row_get_def int_row_def is_null_def
        no_conflict_def extract_indexed_value_def unique_conflict_def index_pairs_def columns_of_def sample_unique_def
        sample_index_entries_def sample_rows_def)
  note r = refused_insert_writes_nothing [OF sample_table_at sample_indexes_at sample_insert_clean this]
  show ?thesis by (intro wp_mono [OF r]) (auto intro: kept_log)
qed

text \<open>
  Property C28. The checks of \<open>update_matched\<close> come before its first write and are sufficient:
  when they pass, every planned row has a non-NULL key that no row of the table has (unless the
  row keeps its key) and no other row of the batch gets, no unique index holds its tuple under
  another key, and no two rows of the batch claim the same tuple; when one fails, \<open>update_matched\<close>
  throws with every tree, page and the log unchanged.
\<close>

theorem update_checked_before_writing:
  fixes s :: "'a btrees_scheme"
  assumes "table_at s tb t rows" "indexes_at s tb its"
    "\<forall>r \<in> set ms. \<forall>row. assign_values new_values (sr_row r) = Inr row \<longrightarrow> clean_row row"
  shows "wp (update_plan tb ms new_values) (\<lambda>us w. kept s w
      \<and> list_all2 (planned_for tb its new_values) ms us \<and> apart (map pu_new_key us)
      \<and> (\<forall>u \<in> set us. key_eq (pu_new_key u) (pu_old_key u) \<or> (\<forall>x \<in> set rows. \<not> key_eq (sr_primary_key x) (pu_new_key u)))
      \<and> (\<forall>b \<in> set (tb_indexes tb). ix_is_unique (in_schema (ib_index b)) \<longrightarrow> apart (claims b us)))
    (\<lambda>e w. kept s w \<and> update_matched tb ms new_values s = (Inl e, w)) s"
proof -
  let ?bs = "tb_indexes tb" and ?cs = "replicate (length (tb_indexes tb)) [] :: key list list"
  have k: "kept s s" by (rule kept_refl [OF table_atD(1) [OF assms(1)]])
  have apart: "\<forall>b \<in> set ?bs. ix_is_unique (in_schema (ib_index b)) \<longrightarrow> apart (claims b us)" if "claims_apart ?bs ?cs us" for us
    using that by (auto simp: claims_apart_def list_all2_conv_all_nth in_set_conv_nth)
  have c: "claims_apart ?bs ?cs []" by (simp add: claims_apart_def claims_def list_all2_conv_all_nth)
  have "wp (update_plan tb ms new_values) (\<lambda>us w. kept s w
      \<and> list_all2 (planned_for tb its new_values) ms us \<and> apart (map pu_new_key us)
      \<and> (\<forall>u \<in> set us. key_eq (pu_new_key u) (pu_old_key u) \<or> (\<forall>x \<in> set rows. \<not> key_eq (sr_primary_key x) (pu_new_key u)))
      \<and> (\<forall>b \<in> set ?bs. ix_is_unique (in_schema (ib_index b)) \<longrightarrow> apart (claims b us))) (\<lambda>_ w. kept s w) s"
    unfolding update_plan_def wp_bind wp_andthen
  proof (rule wp_mono [OF wp_plan_updates [OF assms(2) k k c assms(3)]], elim conjE)
    fix us w
    assume w: "kept s w" and p: "list_all2 (planned_for tb its new_values) ms us" and a: "claims_apart ?bs ?cs us"
    have clean: "clean_key (pu_new_key u)" if "u \<in> set us" for u
    proof -
      obtain r where "r \<in> set ms" "planned_for tb its new_values r u"
        using list_all2_partner(2) [OF p \<open>u \<in> set us\<close>] by blast
      then show ?thesis using primary_key_clean assms(3) by (auto simp: planned_for_def)
    qed
    show "wp (check_new_keys tb [] us) (\<lambda>_. wp (ret us) (\<lambda>us w. kept s w
      \<and> list_all2 (planned_for tb its new_values) ms us \<and> apart (map pu_new_key us)
      \<and> (\<forall>u \<in> set us. key_eq (pu_new_key u) (pu_old_key u) \<or> (\<forall>x \<in> set rows. \<not> key_eq (sr_primary_key x) (pu_new_key u)))
      \<and> (\<forall>b \<in> set ?bs. ix_is_unique (in_schema (ib_index b)) \<longrightarrow> apart (claims b us))) (\<lambda>_ w. kept s w)) (\<lambda>_ w. kept s w) w"
      by (rule wp_mono [OF wp_check_new_keys [OF assms(1) w, of "[]" us]])
        (use clean p apart [OF a] in \<open>auto simp: wp_ret\<close>)
  qed
  then show ?thesis
    by (auto simp: wp_def update_matched_def bind_def split: prod.splits sum.splits)
qed

text \<open>Giving both sample rows one tuple is refused.\<close>

theorem update_checked_before_writing_witness:
  "\<exists>e w. update_matched sample_tb sample_results [(1, IntV 30)] sample_state = (Inl e, w) \<and> kept sample_state w"
proof -
  have a: "assign_values [(1, IntV 30)] (int_row k a) = Inr (int_row k (IntV 30))" for k a
    by (simp add: row_set_def row_size_def int_row_def)
  have m: "sr_row ` set sample_results = {int_row (IntV 1) (IntV 10), int_row (IntV 2) (IntV 20)}"
    by (auto simp: sample_results_def sample_rows_def)
  have c: "\<forall>r \<in> set sample_results. \<forall>row. assign_values [(1, IntV 30)] (sr_row r) = Inr row \<longrightarrow> clean_row row"
    using m by (auto simp: sample_results_def sample_rows_def a [unfolded One_nat_def] sample_insert_clean(3) simp del: assign_values.simps)
  have bad: "\<not> apart (claims b us)" if b: "b \<in> set (tb_indexes sample_tb)" and l: "list_all2 (planned_for sample_tb its [(1, IntV 30)]) sample_results us"
    for its us b
  proof -
    obtain u v where u: "us = [u, v]" "pu_new_row u = int_row (IntV 1) (IntV 30)" "pu_new_row v = int_row (IntV 2) (IntV 30)"
      using l a [unfolded One_nat_def] by (auto simp: sample_results_def sample_rows_def list_all2_Cons1 planned_for_def simp del: assign_values.simps)
    have "claim_of b (int_row k (IntV 30)) = [[IntV 30]]" for k
      using b by (simp add: claim_of_def sample_tb_def extract_indexed_value_def row_get_def int_row_def is_indexable_def is_null_def)
    then show ?thesis by (simp add: claims_def u)
  qed
  have ix: "\<forall>b \<in> set (tb_indexes sample_tb). ix_is_unique (in_schema (ib_index b))" "tb_indexes sample_tb \<noteq> []"
    by (simp_all add: sample_tb_def sample_unique_def)
  show ?thesis
    using update_checked_before_writing [OF sample_table_at sample_indexes_at c] bad ix
    by (auto simp: wp_def neq_Nil_conv split: prod.splits sum.splits)
qed

end
