(* ===== verification/Table_Insert.thy ===== *)
theory Table_Insert
  imports Tree_Forest Table
begin

text \<open>
  Insertion of a row: one transaction over the tree of the table and the trees of its indexes. The
  row is stored under its primary key, every index gets its entry, and the table stays consistent:
  each index holds exactly the tuples of the rows.
\<close>

section \<open>Index entries\<close>

definition handle_of :: "index_binding \<Rightarrow> nat" where
  "handle_of b = in_tree (ib_index b)"

text \<open>The entry of a row in an index; a tuple with a NULL has none.\<close>

definition entry_for :: "index_binding \<Rightarrow> db_row \<Rightarrow> key \<Rightarrow> leaf_entry option" where
  "entry_for b row pk = (case extract_indexed_value row b of Inl _ \<Rightarrow> None
     | Inr v \<Rightarrow> if is_indexable v then Some \<lparr>le_key = v @ pk, le_value = []\<rparr> else None)"

definition entered :: "leaf_entry option \<Rightarrow> tree \<Rightarrow> tree \<Rightarrow> bool" where
  "entered eo t t' \<longleftrightarrow> (case eo of None \<Rightarrow> t' = t | Some e \<Rightarrow> added e (t_entries t) (t_entries t'))"

text \<open>What an index needs to take the entry of a row.\<close>

definition takes :: "tree \<Rightarrow> db_row \<Rightarrow> key \<Rightarrow> index_binding \<Rightarrow> bool" where
  "takes t row pk b \<longleftrightarrow> clean_key pk \<and> length pk = in_pk_arity (ib_index b)
     \<and> list_all (\<lambda>e. length (le_key e) = columns_of (ib_index b) + in_pk_arity (ib_index b)) (t_entries t)
     \<and> (\<exists>v. extract_indexed_value row b = Inr v \<and> clean_key v \<and> length v = columns_of (ib_index b) \<and> \<not> unique_conflict (ib_index b) t v pk)
     \<and> (\<forall>e. entry_for b row pk = Some e \<longrightarrow> fits_in t e \<and> (\<forall>x \<in> set (t_entries t). \<not> key_eq (le_key x) (le_key e)))"

lemma wp_insert_entry:
  fixes s u :: "'a btrees_scheme"
  assumes "wooded s hs T (n + need (T (handle_of b))) u" "handle_of b \<in> hs" "takes (T (handle_of b)) row pk b"
  shows "wp (bind (lift (extract_indexed_value row b)) (\<lambda>v. insert_entry (ib_index b) (next_transaction_id s) v pk))
    (\<lambda>_ w. \<exists>t. entered (entry_for b row pk) (T (handle_of b)) t \<and> wooded s hs (T(handle_of b := t)) n w) (\<lambda>_ _. False) u"
proof -
  let ?h = "handle_of b" and ?ix = "ib_index b"
  obtain v where v: "extract_indexed_value row b = Inr v" "clean_key v" "length v = columns_of ?ix" "\<not> unique_conflict ?ix (T ?h) v pk"
    using assms(3) by (auto simp: takes_def)
  have at: "tree_at u ?h (T ?h)" by (rule wooded_tree [OF assms(1,2)])
  then have ix: "index_at u ?ix (T ?h)" using assms(3) by (simp add: index_at_def takes_def handle_of_def)
  show ?thesis
  proof (cases "is_indexable v")
    case False
    have "wooded s hs T n u" using assms(1) by (auto simp: wooded_def)
    then show ?thesis using False v(1) by (auto simp: wp_bind wp_lift insert_entry_def wp_ret entered_def entry_for_def intro!: exI [of _ "T ?h"])
  next
    case True
    let ?e = "\<lparr>le_key = v @ pk, le_value = []\<rparr>"
    have e: "entry_for b row pk = Some ?e" using True v(1) by (simp add: entry_for_def)
    have key: "make_entry_key ?ix v pk = Inr (v @ pk)" using v(3) assms(3) by (simp add: make_entry_key_def takes_def)
    have ins: "wp (btree_insert ?h (next_transaction_id s) (v @ pk) []) (\<lambda>_ w. \<exists>t. entered (entry_for b row pk) (T ?h) t
        \<and> wooded s hs (T(?h := t)) n w) (\<lambda>_ _. False) w" if w: "wooded s hs T (n + need (T ?h)) w" for w
    proof -
      have "clean_key (le_key ?e)" using v(2) assms(3) by (simp add: takes_def)
      moreover have "fits_in (T ?h) ?e" "\<forall>x \<in> set (t_entries (T ?h)). \<not> key_eq (le_key x) (le_key ?e)"
        using assms(3) e by (simp_all add: takes_def)
      ultimately show ?thesis using wp_insert_forest [where e = ?e, OF w assms(2)] e by (simp add: entered_def)
    qed
    have "wooded s hs T (n + need (T ?h)) w" if "query_keeps u (in_tree ?ix) (T ?h) w" for w
      using wooded_reads [OF assms(1)] kept_query [OF at, of w] that by (simp add: kept_def handle_of_def)
    then have "wp (check_unique ?ix v pk) (\<lambda>_. wooded s hs T (n + need (T ?h))) (\<lambda>_ _. False) u"
      by (intro wp_mono [OF wp_check_unique [OF ix v(2,3), of pk]]) (use v(4) in auto)
    then have "wp (insert_entry ?ix (next_transaction_id s) v pk) (\<lambda>_ w. \<exists>t. entered (entry_for b row pk) (T ?h) t
        \<and> wooded s hs (T(?h := t)) n w) (\<lambda>_ _. False) u"
      using True key ins by (auto simp: insert_entry_def wp_andthen bind_lift handle_of_def [symmetric] elim!: wp_mono)
    then show ?thesis by (simp add: v(1) bind_lift)
  qed
qed

lemma wp_insert_entries:
  fixes s u :: "'a btrees_scheme"
  assumes "wooded s hs T (n + (\<Sum>b\<leftarrow>bs. need (T (handle_of b)))) u" "distinct (map handle_of bs)" "handle_of ` set bs \<subseteq> hs"
    "\<forall>b \<in> set bs. takes (T (handle_of b)) row pk b"
  shows "wp (for_each (\<lambda>b. bind (lift (extract_indexed_value row b)) (\<lambda>v. insert_entry (ib_index b) (next_transaction_id s) v pk)) bs)
    (\<lambda>_ w. \<exists>T'. wooded s hs T' n w \<and> (\<forall>b \<in> set bs. entered (entry_for b row pk) (T (handle_of b)) (T' (handle_of b)))
      \<and> (\<forall>h. h \<notin> handle_of ` set bs \<longrightarrow> T' h = T h)) (\<lambda>_ _. False) u"
  by (rule wp_each_tree [where P = "\<lambda>b t. takes t row pk b" and R = "\<lambda>b. entered (entry_for b row pk)" and cost = need,
      OF wp_insert_entry assms(1,2,4)]) (use assms(3) in auto)

section \<open>The table\<close>

definition handles :: "table \<Rightarrow> nat list" where
  "handles tb = tb_tree tb # map handle_of (tb_indexes tb)"

text \<open>The index holds the tuples of the rows that have no NULL in them, and nothing else.\<close>

definition index_ok :: "table \<Rightarrow> tree \<Rightarrow> scan_result list \<Rightarrow> index_binding \<Rightarrow> bool" where
  "index_ok tb t rows b \<longleftrightarrow> length (ib_column_indices b) = columns_of (ib_index b)
     \<and> in_pk_arity (ib_index b) = length (ts_primary_key_indices (tb_schema tb))
     \<and> (\<forall>r \<in> set rows. \<exists>v. extract_indexed_value (sr_row r) b = Inr v)
     \<and> set (t_entries t) = {e. \<exists>r \<in> set rows. entry_for b (sr_row r) (sr_primary_key r) = Some e}"

definition row_ok :: "table \<Rightarrow> scan_result \<Rightarrow> bool" where
  "row_ok tb r \<longleftrightarrow> clean_row (sr_row r) \<and> extract_primary_key (tb_schema tb) (sr_row r) = Inr (sr_primary_key r)"

text \<open>A consistent table: the rows are decoded from its tree, and each index agrees with them.\<close>

definition rows_in :: "table \<Rightarrow> tree \<Rightarrow> scan_result list \<Rightarrow> bool" where
  "rows_in tb t rows \<longleftrightarrow>
     list_all2 (\<lambda>r e. sr_primary_key r = le_key e \<and> deserialize (le_value e) (tb_schema tb) = Inr (sr_row r)) rows (t_entries t)"

definition consistent :: "table \<Rightarrow> (nat \<Rightarrow> tree) \<Rightarrow> scan_result list \<Rightarrow> bool" where
  "consistent tb T rows \<longleftrightarrow> distinct (handles tb) \<and> rows_in tb (T (tb_tree tb)) rows \<and> (\<forall>r \<in> set rows. row_ok tb r)
     \<and> (\<forall>b \<in> set (tb_indexes tb). index_ok tb (T (handle_of b)) rows b)"

lemma consistent_at: "consistent tb T rows \<Longrightarrow> tree_at s (tb_tree tb) (T (tb_tree tb)) \<Longrightarrow> table_at s tb (T (tb_tree tb)) rows"
  by (simp add: consistent_def rows_in_def table_at_def)

lemma extract_length:
  assumes "extract_primary_key schema row = Inr k" "clean_row row"
  shows "length k = length (ts_primary_key_indices schema)" "clean_key k"
  using smap_row_get [OF extract_primary_key_get [OF assms(1)] assms(2)] by simp_all

lemma entry_forD:
  assumes "entry_for b row k = Some e" "clean_row row"
  obtains v where "extract_indexed_value row b = Inr v" "is_indexable v" "e = \<lparr>le_key = v @ k, le_value = []\<rparr>"
    "length v = length (ib_column_indices b)" "clean_key v"
  using assms smap_row_get [of row "ib_column_indices b"]
  by (auto simp: entry_for_def extract_indexed_value_def split: sum.splits if_splits)

lemma index_ok_length:
  assumes "index_ok tb t rows b" "\<forall>r \<in> set rows. row_ok tb r" "e \<in> set (t_entries t)"
  shows "\<exists>r \<in> set rows. entry_for b (sr_row r) (sr_primary_key r) = Some e
    \<and> length (sr_primary_key r) = in_pk_arity (ib_index b) \<and> length (le_key e) = columns_of (ib_index b) + in_pk_arity (ib_index b)"
proof -
  obtain r where r: "r \<in> set rows" "entry_for b (sr_row r) (sr_primary_key r) = Some e" using assms(1,3) by (auto simp: index_ok_def)
  have c: "clean_row (sr_row r)" "extract_primary_key (tb_schema tb) (sr_row r) = Inr (sr_primary_key r)"
    using assms(2) r(1) by (auto simp: row_ok_def)
  obtain v where "e = \<lparr>le_key = v @ sr_primary_key r, le_value = []\<rparr>" "length v = length (ib_column_indices b)"
    using entry_forD [OF r(2) c(1)] by blast
  then show ?thesis using r extract_length(1) [OF c(2,1)] assms(1) by (auto simp: index_ok_def)
qed

lemma key_eq_append: "length a = length b \<Longrightarrow> key_eq (a @ c) (b @ d) \<longleftrightarrow> key_eq a b \<and> key_eq c d"
  by (induction a b rule: list_induct2) auto

lemma key_eq_length: "key_eq a b \<Longrightarrow> length a = length b"
  by (induction a b rule: key_eq.induct) auto

text \<open>An entry with another primary key is another entry.\<close>

lemma index_entry_new:
  assumes "index_ok tb t rows b" "\<forall>r \<in> set rows. row_ok tb r" "entry_for b row pk = Some e" "clean_row row"
    "length pk = in_pk_arity (ib_index b)" "\<forall>r \<in> set rows. \<not> key_eq (sr_primary_key r) pk" "x \<in> set (t_entries t)"
  shows "\<not> key_eq (le_key x) (le_key e)"
proof
  assume eq: "key_eq (le_key x) (le_key e)"
  obtain r where r: "r \<in> set rows" "entry_for b (sr_row r) (sr_primary_key r) = Some x" "length (sr_primary_key r) = in_pk_arity (ib_index b)"
    using index_ok_length [OF assms(1,2,7)] by blast
  have "clean_row (sr_row r)" using assms(2) r(1) by (simp add: row_ok_def)
  with r(2) obtain v where v: "le_key x = v @ sr_primary_key r" "length v = length (ib_column_indices b)" by (rule entry_forD) simp
  obtain w where w: "le_key e = w @ pk" "length w = length (ib_column_indices b)" by (rule entry_forD [OF assms(3,4)]) simp
  have "key_eq (sr_primary_key r) pk" using eq v w by (simp add: key_eq_append)
  with r(1) assms(6) show False by simp
qed


lemma rows_in_added:
  assumes "rows_in tb t rows" "added \<lparr>le_key = k, le_value = bytes\<rparr> (t_entries t) (t_entries t')"
    "deserialize bytes (tb_schema tb) = Inr row"
  shows "\<exists>rows'. added \<lparr>sr_primary_key = k, sr_row = row\<rparr> rows rows' \<and> rows_in tb t' rows'"
proof -
  obtain A B where e: "t_entries t = A @ B" "t_entries t' = A @ \<lparr>le_key = k, le_value = bytes\<rparr> # B" using assms(2) by (auto simp: added_def)
  obtain xs ys where r: "rows = xs @ ys" "length xs = length A" "length ys = length B"
    "list_all2 (\<lambda>r e. sr_primary_key r = le_key e \<and> deserialize (le_value e) (tb_schema tb) = Inr (sr_row r)) xs A"
    "list_all2 (\<lambda>r e. sr_primary_key r = le_key e \<and> deserialize (le_value e) (tb_schema tb) = Inr (sr_row r)) ys B"
    using assms(1) unfolding rows_in_def e(1) list_all2_append2 by auto
  let ?rows = "xs @ \<lparr>sr_primary_key = k, sr_row = row\<rparr> # ys"
  have "added \<lparr>sr_primary_key = k, sr_row = row\<rparr> rows ?rows" using r(1) by (auto simp: added_def)
  moreover have "rows_in tb t' ?rows" using r(2-5) e(2) assms(3) by (simp add: rows_in_def list_all2_append)
  ultimately show ?thesis by blast
qed

lemma index_ok_added:
  assumes "index_ok tb t rows b" "entered (entry_for b (sr_row r) (sr_primary_key r)) t t'" "added r rows rows'"
    "\<exists>v. extract_indexed_value (sr_row r) b = Inr v"
  shows "index_ok tb t' rows' b"
proof -
  have "set (t_entries t') = set (t_entries t) \<union> {e. entry_for b (sr_row r) (sr_primary_key r) = Some e}"
    using assms(2) added_set [of _ "t_entries t" "t_entries t'"] by (cases "entry_for b (sr_row r) (sr_primary_key r)") (simp_all add: entered_def)
  then show ?thesis using assms(1,4) added_set [OF assms(3)] by (auto simp: index_ok_def)
qed

lemma consistent_added:
  assumes "consistent tb T rows" "added \<lparr>le_key = k, le_value = bytes\<rparr> (t_entries (T (tb_tree tb))) (t_entries (T' (tb_tree tb)))"
    "deserialize bytes (tb_schema tb) = Inr row" "row_ok tb \<lparr>sr_primary_key = k, sr_row = row\<rparr>"
    "\<forall>b \<in> set (tb_indexes tb). entered (entry_for b row k) (T (handle_of b)) (T' (handle_of b))"
    "\<forall>b \<in> set (tb_indexes tb). \<exists>v. extract_indexed_value row b = Inr v"
  shows "\<exists>rows'. added \<lparr>sr_primary_key = k, sr_row = row\<rparr> rows rows' \<and> consistent tb T' rows'"
proof -
  let ?r = "\<lparr>sr_primary_key = k, sr_row = row\<rparr>"
  have "rows_in tb (T (tb_tree tb)) rows" using assms(1) by (simp add: consistent_def)
  from rows_in_added [OF this assms(2,3)] obtain rows' where r: "added ?r rows rows'" "rows_in tb (T' (tb_tree tb)) rows'" by blast
  have "index_ok tb (T' (handle_of b)) rows' b" if "b \<in> set (tb_indexes tb)" for b
    by (rule index_ok_added [OF _ _ r(1)]) (use assms(1,5,6) that in \<open>auto simp: consistent_def\<close>)
  then have "consistent tb T' rows'" using r(2) assms(1,4) added_set [OF r(1)] by (auto simp: consistent_def)
  with r(1) show ?thesis by blast
qed

lemma consistent_next: "consistent (tb\<lparr>tb_next := n\<rparr>) T rows = consistent tb T rows"
  by (simp add: consistent_def handles_def rows_in_def row_ok_def index_ok_def)

section \<open>The automatic key\<close>

lemma advance_ok:
  assumes "is_single_int_auto_increment (tb_schema tb) = Inr True" "row_typed row (tb_schema tb)"
    "extract_primary_key (tb_schema tb) row = Inr k"
  shows "\<exists>n. advance_auto_increment tb k = Inr (tb\<lparr>tb_next := n\<rparr>)"
proof -
  let ?s = "tb_schema tb"
  obtain i where i: "ts_primary_key_indices ?s = [i]"
    using assms(1) by (auto simp: is_single_int_auto_increment_def sbind_Inr_conv length_Suc_conv split: if_splits)
  then have c: "unat i < length (ts_columns ?s)" "col_type (ts_columns ?s ! unat i) = CT_INT"
    using assms(1) by (auto simp: is_single_int_auto_increment_def sbind_Inr_conv primary_key_column_def split: if_splits)
  obtain v where v: "k = [v]" "row_get row (unat i) = Inr v" "\<not> is_null v"
    using assms(3) i by (auto simp: extract_primary_key_def sbind_Inr_conv split: if_splits)
  have "accepts (ts_columns ?s ! unat i) v"
    using assms(2) c(1) v(2) by (auto simp: row_typed_def row_get_Inr list_all2_conv_all_nth)
  with c(2) v(3) obtain n where "v = IntV n" by (auto simp: accepts_def is_null_def split: db_value.splits)
  then have "advance_auto_increment tb k = Inr (tb\<lparr>tb_next := if n \<ge> tb_next tb then n + 1 else tb_next tb\<rparr>)"
    by (simp add: advance_auto_increment_def key_at_def v(1))
  then show ?thesis by blast
qed

section \<open>Writing the row\<close>

definition has_room :: "table \<Rightarrow> (nat \<Rightarrow> tree) \<Rightarrow> db_row \<Rightarrow> key \<Rightarrow> byte list \<Rightarrow> bool" where
  "has_room tb T row pk bytes \<longleftrightarrow> fits_in (T (tb_tree tb)) \<lparr>le_key = pk, le_value = bytes\<rparr>
     \<and> (\<forall>b \<in> set (tb_indexes tb). \<forall>e. entry_for b row pk = Some e \<longrightarrow> fits_in (T (handle_of b)) e)"

text \<open>The tables after the insertion of a row, and the trees that are not the table's.\<close>

definition grown_table :: "table \<Rightarrow> (nat \<Rightarrow> tree) \<Rightarrow> scan_result list \<Rightarrow> scan_result \<Rightarrow> (nat \<Rightarrow> tree) \<Rightarrow> scan_result list \<Rightarrow> bool" where
  "grown_table tb T rows r T' rows' \<longleftrightarrow> added r rows rows' \<and> consistent tb T' rows' \<and> (\<forall>h. h \<notin> set (handles tb) \<longrightarrow> T' h = T h)"

lemma index_takes:
  assumes "consistent tb T rows" "row_ok tb \<lparr>sr_primary_key = pk, sr_row = row\<rparr>" "\<forall>r \<in> set rows. \<not> key_eq (sr_primary_key r) pk"
    "no_conflict (tb_indexes tb) (map (T \<circ> handle_of) (tb_indexes tb)) row pk" "has_room tb T row pk bytes" "b \<in> set (tb_indexes tb)"
  shows "takes (T (handle_of b)) row pk b"
proof -
  have ok: "index_ok tb (T (handle_of b)) rows b" "\<forall>r \<in> set rows. row_ok tb r" using assms(1,6) by (auto simp: consistent_def)
  have clean: "clean_row row" and key: "extract_primary_key (tb_schema tb) row = Inr pk" using assms(2) by (simp_all add: row_ok_def)
  have pk: "clean_key pk" "length pk = in_pk_arity (ib_index b)"
    using extract_length [OF key clean] ok(1) by (simp_all add: index_ok_def)
  obtain v where v: "extract_indexed_value row b = Inr v" "\<not> unique_conflict (ib_index b) (T (handle_of b)) v pk"
    using assms(4,6) by (auto simp: no_conflict_def list_all2_map2 list_all2_same)
  then have "clean_key v" "length v = columns_of (ib_index b)"
    using smap_row_get [of row "ib_column_indices b" v] clean ok(1) by (simp_all add: extract_indexed_value_def index_ok_def)
  moreover have "list_all (\<lambda>e. length (le_key e) = columns_of (ib_index b) + in_pk_arity (ib_index b)) (t_entries (T (handle_of b)))"
    using index_ok_length [OF ok] by (auto simp: list_all_iff)
  ultimately show ?thesis
    using pk v assms(5,6) index_entry_new [OF ok _ clean pk(2) assms(3)] by (auto simp: takes_def has_room_def)
qed

lemma wp_write_row:
  fixes s u :: "'a btrees_scheme"
  assumes "wooded s hs T (n + (\<Sum>h\<leftarrow>handles tb. need (T h))) u" "set (handles tb) \<subseteq> hs" "consistent tb T rows"
    "row_ok tb \<lparr>sr_primary_key = pk, sr_row = row\<rparr>" "\<forall>r \<in> set rows. \<not> key_eq (sr_primary_key r) pk"
    "no_conflict (tb_indexes tb) (map (T \<circ> handle_of) (tb_indexes tb)) row pk" "has_room tb T row pk bytes"
    "deserialize bytes (tb_schema tb) = Inr row"
  shows "wp (write_row_and_indexes tb (next_transaction_id s) pk row bytes)
    (\<lambda>_ w. \<exists>T' rows'. wooded s hs T' n w \<and> grown_table tb T rows \<lparr>sr_primary_key = pk, sr_row = row\<rparr> T' rows') (\<lambda>_ _. False) u"
proof -
  let ?h = "tb_tree tb" and ?bs = "tb_indexes tb" and ?e = "\<lparr>le_key = pk, le_value = bytes\<rparr>" and ?r = "\<lparr>sr_primary_key = pk, sr_row = row\<rparr>"
  have hs: "?h \<in> hs" "handle_of ` set ?bs \<subseteq> hs" "?h \<notin> handle_of ` set ?bs" "distinct (map handle_of ?bs)"
    using assms(2,3) by (auto simp: handles_def consistent_def)
  have rows: "rows_in tb (T ?h) rows" using assms(3) by (simp add: consistent_def)
  have new: "\<forall>x \<in> set (t_entries (T ?h)). \<not> key_eq (le_key x) (le_key ?e)"
    using list_all2_partner(2) [OF rows [unfolded rows_in_def]] assms(5) by fastforce
  have clean: "clean_key (le_key ?e)" and fits: "fits_in (T ?h) ?e"
    using extract_length(2) assms(4,7) by (auto simp: row_ok_def has_room_def)
  let ?n = "n + (\<Sum>b\<leftarrow>?bs. need (T (handle_of b)))"
  have head: "wooded s hs T (?n + need (T ?h)) u" using assms(1) by (simp add: handles_def o_def algebra_simps)
  show ?thesis
    unfolding write_row_and_indexes_def
  proof (rule wp_andthenI, rule wp_mono [OF wp_insert_forest [where e = ?e, OF head hs(1) clean fits new, simplified]], elim exE conjE)
    fix t and w :: "'a btrees_scheme" assume t: "added ?e (t_entries (T ?h)) (t_entries t)" and w: "wooded s hs (T(?h := t)) ?n w"
    let ?T = "T(?h := t)"
    have other: "handle_of b \<noteq> ?h" if "b \<in> set ?bs" for b using hs(3) that by (metis imageI)
    then have same: "?T (handle_of b) = T (handle_of b)" if "b \<in> set ?bs" for b using that by simp
    then have sum: "(\<Sum>b\<leftarrow>?bs. need (?T (handle_of b))) = (\<Sum>b\<leftarrow>?bs. need (T (handle_of b)))"
      by (intro arg_cong [of _ _ sum_list] map_cong) auto
    have takes: "\<forall>b \<in> set ?bs. takes (?T (handle_of b)) row pk b" using index_takes [OF assms(3-7)] same by simp
    have w': "wooded s hs ?T (n + (\<Sum>b\<leftarrow>?bs. need (?T (handle_of b)))) w" using w unfolding sum .
    show "wp (for_each (\<lambda>b. bind (lift (extract_indexed_value row b)) (\<lambda>v. insert_entry (ib_index b) (next_transaction_id s) v pk)) ?bs)
      (\<lambda>_ w. \<exists>T' rows'. wooded s hs T' n w \<and> grown_table tb T rows ?r T' rows') (\<lambda>_ _. False) w"
    proof (rule wp_mono [OF wp_insert_entries [OF w' hs(4,2) takes]], elim exE conjE)
      fix T' and v :: "'a btrees_scheme"
      assume T': "wooded s hs T' n v" "\<forall>b \<in> set ?bs. entered (entry_for b row pk) (?T (handle_of b)) (T' (handle_of b))"
        "\<forall>h. h \<notin> handle_of ` set ?bs \<longrightarrow> T' h = ?T h"
      have tree: "added ?e (t_entries (T ?h)) (t_entries (T' ?h))" using T'(3) hs(3) t by simp
      have idx: "\<forall>b \<in> set ?bs. entered (entry_for b row pk) (T (handle_of b)) (T' (handle_of b))" using T'(2) same by simp
      have vals: "\<forall>b \<in> set ?bs. \<exists>v. extract_indexed_value row b = Inr v"
        using assms(6) by (auto simp: no_conflict_def list_all2_map2 list_all2_same)
      obtain rows' where "added ?r rows rows'" "consistent tb T' rows'"
        using consistent_added [OF assms(3) tree assms(8,4) idx vals] by blast
      moreover have "T' h = T h" if "h \<notin> set (handles tb)" for h using T'(3) that by (simp add: handles_def)
      ultimately show "\<exists>T' rows'. wooded s hs T' n v \<and> grown_table tb T rows ?r T' rows'"
        using T'(1) unfolding grown_table_def by blast
    qed simp
  qed simp
qed

section \<open>The whole insertion\<close>

lemma lasting_kept:
  fixes s u :: "'a btrees_scheme"
  assumes "kept s u" "0 < total_pages s"
  shows "lasting u hs T m ws w \<longleftrightarrow> lasting s hs T m ws w"
proof -
  have r: "total_pages u = total_pages s" "\<forall>x < total_pages s. view u x = view s x" "pool.more u = pool.more s"
    using assms(1) by (auto simp: kept_def reads_def readable_def)
  have "next_transaction_id u = next_transaction_id s" "wal_file u = wal_file s"
    using r(3) by (cases u; cases s; simp add: pool.defs)+
  moreover have "view u HEADER_PAGE_ID = view s HEADER_PAGE_ID" using r(2) assms(2) by (simp add: HEADER_PAGE_ID_def)
  moreover have "(\<forall>x < total_pages s. x \<notin> fst ` set ws \<longrightarrow> v x = view u x) \<longleftrightarrow> (\<forall>x < total_pages s. x \<notin> fst ` set ws \<longrightarrow> v x = view s x)" for v
    using r(2) by simp
  ultimately show ?thesis by (simp add: lasting_def sealed_def r(1))
qed

lemma forest_pages:
  assumes "forest m hs T" "h \<in> hs"
  shows "0 < m_pages m"
proof -
  have "t_page (T h) < m_pages m" using forestD(1) [OF assms] t_page_in [of "T h"] by (simp add: tree_in_def)
  then show ?thesis by (simp add: word_less_nat_alt)
qed

text \<open>A row that is not refused.\<close>

lemma not_refusedD:
  assumes "\<not> insert_refused tb rows its row" "row_storable row (tb_schema tb)"
  obtains pk bytes where "extract_primary_key (tb_schema tb) row = Inr pk" "serialize row (tb_schema tb) = Inr bytes"
    "row_typed row (tb_schema tb)" "deserialize bytes (tb_schema tb) = Inr row" "\<forall>r \<in> set rows. \<not> key_eq (sr_primary_key r) pk"
    "no_conflict (tb_indexes tb) its row pk"
proof -
  have typed: "row_typed row (tb_schema tb)" using assms(1) by (simp add: insert_refused_def)
  then obtain bytes where b: "serialize row (tb_schema tb) = Inr bytes" using serialize_ok by blast
  have d: "deserialize bytes (tb_schema tb) = Inr row" using deserialize_serialize [OF b assms(2), of "[]"] by simp
  obtain pk where "extract_primary_key (tb_schema tb) row = Inr pk" using assms(1) by (cases "extract_primary_key (tb_schema tb) row") (auto simp: insert_refused_def)
  with that [of pk bytes] b d typed assms(1) show ?thesis by (auto simp: insert_refused_def)
qed

definition inserted_row :: "'a btrees_scheme \<Rightarrow> nat set \<Rightarrow> table \<Rightarrow> (nat \<Rightarrow> tree) \<Rightarrow> scan_result list \<Rightarrow> db_row \<Rightarrow> key \<times> table \<Rightarrow> 'a btrees_scheme \<Rightarrow> bool" where
  "inserted_row s hs tb T rows row kt w \<longleftrightarrow> (\<exists>n m ws T' rows'. snd kt = tb\<lparr>tb_next := n\<rparr>
     \<and> extract_primary_key (tb_schema tb) row = Inr (fst kt) \<and> lasting s hs T' m ws w
     \<and> grown_table tb T rows \<lparr>sr_primary_key = fst kt, sr_row = row\<rparr> T' rows')"

lemma consistent_indexes_at:
  fixes s :: "'a btrees_scheme"
  assumes "at_rest m s" "forest m hs T" "set (handles tb) \<subseteq> hs" "consistent tb T rows"
  shows "indexes_at s tb (map (T \<circ> handle_of) (tb_indexes tb))"
proof -
  have ok: "index_ok tb (T (handle_of b)) rows b" "\<forall>r \<in> set rows. row_ok tb r" "handle_of b \<in> hs" if "b \<in> set (tb_indexes tb)" for b
    using assms(3,4) that by (auto simp: consistent_def handles_def)
  have "index_at s (ib_index b) (T (handle_of b)) \<and> length (ib_column_indices b) = columns_of (ib_index b)" if b: "b \<in> set (tb_indexes tb)" for b
    using index_ok_length [OF ok(1,2) [OF b]] forest_tree_at [OF assms(1,2) ok(3) [OF b]] ok(1) [OF b] by (auto simp: index_at_def list_all_iff handle_of_def index_ok_def)
  then show ?thesis by (simp add: indexes_at_def list_all2_map2 list_all2_same)
qed

lemma wp_table_insert:
  fixes s :: "'a btrees_scheme"
  assumes "at_rest m s" "forest m hs T" "set (handles tb) \<subseteq> hs" "consistent tb T rows"
    "is_single_int_auto_increment (tb_schema tb) = Inr single" "assign_auto_increment tb single row = Inr row'"
    "clean_row row'" "row_storable row' (tb_schema tb)"
    "\<not> insert_refused tb rows (map (T \<circ> handle_of) (tb_indexes tb)) row'"
    "\<forall>pk bytes. extract_primary_key (tb_schema tb) row' = Inr pk \<longrightarrow> serialize row' (tb_schema tb) = Inr bytes \<longrightarrow> has_room tb T row' pk bytes"
    "(\<Sum>h\<leftarrow>handles tb. need (T h)) \<le> spare m"
  shows "wp (table_insert tb row) (inserted_row s hs tb T rows row') (\<lambda>_ _. False) s"
proof -
  let ?its = "map (T \<circ> handle_of) (tb_indexes tb)"
  obtain pk bytes where k: "extract_primary_key (tb_schema tb) row' = Inr pk" "serialize row' (tb_schema tb) = Inr bytes"
    "row_typed row' (tb_schema tb)" "deserialize bytes (tb_schema tb) = Inr row'" "\<forall>r \<in> set rows. \<not> key_eq (sr_primary_key r) pk"
    "no_conflict (tb_indexes tb) ?its row' pk" using not_refusedD [OF assms(9,8)] .
  let ?r = "\<lparr>sr_primary_key = pk, sr_row = row'\<rparr>"
  have h: "tb_tree tb \<in> hs" using assms(3) by (simp add: handles_def)
  note at = forest_tree_at [OF assms(1,2)]
  have tab: "table_at s tb (T (tb_tree tb)) rows" by (rule consistent_at [OF assms(4) at [OF h]])
  have pos: "0 < total_pages s" using forest_pages [OF assms(2) h] assms(1) by (simp add: at_rest_def)
  have idx: "indexes_at s tb ?its" by (rule consistent_indexes_at [OF assms(1-4)])
  have rok: "row_ok tb ?r" and room: "has_room tb T row' pk bytes" using assms(7,10) k(1,2) by (simp_all add: row_ok_def)
  have pkc: "clean_key pk" by (rule primary_key_clean [OF k(1) assms(7)])
  obtain n where adv: "(if single then advance_auto_increment tb pk else Inr tb) = Inr (tb\<lparr>tb_next := n\<rparr>)"
  proof (cases single)
    case True
    then show ?thesis using that advance_ok [of tb row' pk] assms(5) k(1,3) by auto
  qed (use that [of "tb_next tb"] in simp)
  have finish: "wp (andthen (wal_commit (next_transaction_id u)) (bind (lift (if single then advance_auto_increment tb pk else Inr tb)) (\<lambda>tb. ret (pk, tb))))
      (inserted_row s hs tb T rows row') (\<lambda>_ _. False) w"
    if u: "kept s u" and w: "wooded u hs T' 0 w" and g: "grown_table tb T rows ?r T' rows'" for u w :: "'a btrees_scheme" and T' rows'
    unfolding adv bind_lift
  proof (rule wp_andthenI, rule wp_mono [OF wp_commit_forest [OF w]], elim exE)
    fix v :: "'a btrees_scheme" and m ws assume "lasting u hs T' m ws v"
    then have "lasting s hs T' m ws v" using lasting_kept [OF u pos] by simp
    then have "inserted_row s hs tb T rows row' (pk, tb\<lparr>tb_next := n\<rparr>) v" using k(1) g unfolding inserted_row_def fst_conv snd_conv by blast
    then show "wp (ret (pk, tb\<lparr>tb_next := n\<rparr>)) (inserted_row s hs tb T rows row') (\<lambda>_ _. False) v" by (simp add: wp_ret)
  qed simp
  let ?put = "\<lambda>txn. andthen (write_row_and_indexes tb txn pk row' bytes) (andthen (wal_commit txn)
         (bind (lift (if single then advance_auto_increment tb pk else Inr tb)) (\<lambda>tb. ret (pk, tb))))"
  have writing: "wp (bind wal_begin ?put) (inserted_row s hs tb T rows row') (\<lambda>_ _. False) u" if u: "kept s u" for u
  proof -
    have rest: "at_rest m u" using at_rest_reads [OF assms(1)] u by (simp add: kept_def)
    have "0 < total_pages u" using u pos by (simp add: kept_def reads_def readable_def)
    then have "wooded u hs T (0 + (\<Sum>h\<leftarrow>handles tb. need (T h))) (begun u)" using begun_wooded [OF rest assms(2)] assms(11) by simp
    from wp_write_row [OF this assms(3,4) rok k(5,6) room k(4)]
    have "wp (?put (next_transaction_id u)) (inserted_row s hs tb T rows row') (\<lambda>_ _. False) (begun u)"
      by (intro wp_andthenI) (erule wp_mono, use finish [OF u] in \<open>auto\<close>)
    then show ?thesis by (simp add: wp_bind [of wal_begin] wp_wal_begin)
  qed
  have checks: "wp (andthen (check_all_unique_constraints tb row' pk) (bind wal_begin ?put))
      (inserted_row s hs tb T rows row') (\<lambda>_ _. False) u" if u: "kept s u" for u
  proof (rule wp_andthenI, rule wp_mono [OF wp_check_all [OF kept_indexes [OF u idx] assms(7), of pk]])
    show "kept u u" using kept_refl [OF kept_tree [OF u at [OF h]]] .
  qed (use writing kept_trans [OF u] k(6) in auto)
  have eq: "table_insert tb row = bind (btree_search (tb_tree tb) pk) (\<lambda>found.
     if found \<noteq> None then throw (Runtime_error ''Table::insert: duplicate primary key'')
     else andthen (check_all_unique_constraints tb row' pk) (bind wal_begin ?put))"
    unfolding table_insert_def assms(5,6) k(1,2) bind_lift ..
  show ?thesis
    unfolding eq by (rule wp_bindI, rule wp_mono [OF wp_search_rows [OF tab pkc]]) (use checks k(5) in auto)
qed

section \<open>A sample database\<close>

text \<open>The sample table as its trees hold it: two small leaves behind the header page.\<close>

definition leaves_mem :: "leaf_entry list list \<Rightarrow> mem" where
  "leaves_mem ess = \<lparr>m_view = view (leaves_btrees ess), m_pages = word_of_nat (Suc (length ess)), m_free = [],
     m_roots = (\<lambda>h. word_of_nat (Suc h)), m_pins = {}, m_late = {}, m_slots = []\<rparr>"

definition leaves_forest :: "leaf_entry list list \<Rightarrow> nat \<Rightarrow> tree" where
  "leaves_forest ess h = Leaf (word_of_nat (Suc h)) (ess ! h)"

lemma leaves_btrees_forest:
  assumes "list_all (\<lambda>es. leaf_fits es \<and> sorted_entries es) ess" "length ess < 1000"
  shows "checkpointed (leaves_mem ess) (leaves_btrees ess)" "forest (leaves_mem ess) {..<length ess} (leaves_forest ess)"
    "spare (leaves_mem ess) = unat INVALID_PAGE - Suc (length ess)"
proof -
  let ?ps = "zero_page # map Index.leaf_page ess" and ?s = "leaves_btrees ess" and ?m = "leaves_mem ess"
  have lp: "\<exists>q. Index.leaf_page es = q \<and> length q = PAGE_SIZE \<and> next_leaf q = INVALID_PAGE \<and> (\<forall>v x. v x = q \<longrightarrow> leaf_held v INVALID_PAGE x es)"
    if "es \<in> set ess" for es
    using Tree_Insert.leaf_page [of "init_node LEAF" es] assms(1) that by (fastforce simp: list_all_iff Index.leaf_page_def is_leaf_def)
  then have len: "\<forall>p \<in> set ?ps. length p = PAGE_SIZE" "length ?ps < 2 ^ 32" using assms(2) by auto
  note ok = pages_btrees_ok [OF len, where r = 0]
  let ?b = "pages_btrees ?ps 0"
  have e: "pool_inv ?s = pool_inv ?b" "view ?s = view ?b" "pins ?s = pins ?b"
    by (rule pool_state_cong; simp add: leaves_btrees_def)+
  have n: "total_pages ?s = word_of_nat (Suc (length ess))" using ok(3) by (simp add: leaves_btrees_def)
  have rest: "pool_inv ?s" "pool_calm ?s" using ok(1,2) e by (auto simp: pool_calm_def) (simp add: leaves_btrees_def)
  have fl: "free_list ?s []" "wal_file ?s = []" "wal_stable ?s = []" "db_hdr ?s = fresh_header" "roots ?s = (\<lambda>h. word_of_nat (Suc h))"
    by (simp_all add: free_list_def leaves_btrees_def pages_btrees_def hdr.defs wal.defs pool.defs fresh_header_def)
  show "checkpointed ?m ?s" using rest n fl by (simp add: checkpointed_def at_rest_def calm_def leaves_mem_def)
  have "unat (word_of_nat (Suc (length ess)) :: u32) = Suc (length ess)" using assms(2) by (simp only: unat_of_nat take_bit_eq_mod) simp
  then show "spare ?m = unat INVALID_PAGE - Suc (length ess)" unfolding spare_def leaves_mem_def mem.simps by simp
  have page: "word_of_nat (Suc h) < (word_of_nat (Suc (length ess)) :: u32)" "HEADER_PAGE_ID \<noteq> word_of_nat (Suc h)"
    "tree_in ?m (leaves_forest ess h)" if h: "h < length ess" for h
  proof -
    show p: "word_of_nat (Suc h) < (word_of_nat (Suc (length ess)) :: u32)" "HEADER_PAGE_ID \<noteq> word_of_nat (Suc h)"
      using h assms(2) by (simp_all only: word_less_nat_alt unat_of_nat word_unat_eq_iff HEADER_PAGE_ID_def take_bit_eq_mod) simp_all
    have "view ?s (word_of_nat (Suc h)) = Index.leaf_page (ess ! h)" using ok(5) [of "Suc h"] e(2) h by simp
    moreover have "leaf_fits (ess ! h)" "sorted_entries (ess ! h)" using assms(1) h by (auto simp: list_all_length)
    ultimately show "tree_in ?m (leaves_forest ess h)"
      using lp [of "ess ! h"] h p(1) by (auto simp: tree_in_def leaves_forest_def leaves_mem_def sorted_entries_def)
  qed
  have "word_of_nat (Suc g) \<noteq> (word_of_nat (Suc h) :: u32)" if "g < length ess" "h < length ess" "g \<noteq> h" for g h
    using that assms(2) by (simp only: unat_of_nat word_unat_eq_iff take_bit_eq_mod) simp
  then show "forest ?m {..<length ess} (leaves_forest ess)"
    using page by (simp add: forest_def) (simp add: leaves_forest_def leaves_mem_def)
qed

definition sample_trees :: "leaf_entry list list" where
  "sample_trees = [sample_row_entries, sample_index_entries]"

lemma sample_forest:
  "checkpointed (leaves_mem sample_trees) sample_state" "forest (leaves_mem sample_trees) {..<2} (leaves_forest sample_trees)"
  "(\<Sum>h\<leftarrow>handles sample_tb. need (leaves_forest sample_trees h)) \<le> spare (leaves_mem sample_trees)"
proof -
  have "list_all (\<lambda>es. leaf_fits es \<and> sorted_entries es) sample_trees" "length sample_trees < 1000"
    using sample_entries_ok
    by (simp_all add: sample_trees_def leaf_fits_def leaf_ok_def)
      (simp_all add: short_key_def sample_row_entries_def sample_index_entries_def sample_rows_def key_fits_def value_fits_def key_encode_def)
  note f = leaves_btrees_forest [OF this]
  then show "checkpointed (leaves_mem sample_trees) sample_state" "forest (leaves_mem sample_trees) {..<2} (leaves_forest sample_trees)"
    by (simp_all add: sample_trees_def sample_state_def numeral_2_eq_2)
  show "(\<Sum>h\<leftarrow>handles sample_tb. need (leaves_forest sample_trees h)) \<le> spare (leaves_mem sample_trees)"
    unfolding f(3) by (simp add: handles_def handle_of_def sample_tb_def sample_unique_def need_def leaves_forest_def sample_trees_def INVALID_PAGE_def)
qed

lemma sample_consistent:
  "consistent sample_tb (leaves_forest sample_trees) sample_results" "set (handles sample_tb) \<subseteq> {..<2}"
proof -
  have "rows_in sample_tb (Leaf 1 sample_row_entries) sample_results" using sample_table_at by (simp add: table_at_def rows_in_def)
  then show "consistent sample_tb (leaves_forest sample_trees) sample_results"
    by (simp add: consistent_def handles_def sample_tb_def sample_unique_def handle_of_def leaves_forest_def sample_trees_def rows_in_def)
      (auto simp: row_ok_def sample_results_def sample_rows_def clean_row_def int_row_def clean_value_def extract_primary_key_def
        sample_schema_def row_get_def is_null_def index_ok_def columns_of_def entry_for_def extract_indexed_value_def is_indexable_def
        sample_index_entries_def)
  show "set (handles sample_tb) \<subseteq> {..<2}" by (simp add: handles_def sample_tb_def sample_unique_def handle_of_def)
qed

lemma sample_fits:
  "row_storable (int_row (IntV 3) (IntV 30)) (tb_schema sample_tb)"
  "\<not> insert_refused sample_tb sample_results (map (leaves_forest sample_trees \<circ> handle_of) (tb_indexes sample_tb)) (int_row (IntV 3) (IntV 30))"
  "\<forall>pk bytes. extract_primary_key (tb_schema sample_tb) (int_row (IntV 3) (IntV 30)) = Inr pk
     \<longrightarrow> serialize (int_row (IntV 3) (IntV 30)) (tb_schema sample_tb) = Inr bytes
     \<longrightarrow> has_room sample_tb (leaves_forest sample_trees) (int_row (IntV 3) (IntV 30)) pk bytes"
proof -
  note defs = sample_tb_def sample_schema_def int_row_def int_column_def row_get_def is_null_def
  show "row_storable (int_row (IntV 3) (IntV 30)) (tb_schema sample_tb)"
    by (simp add: defs row_storable_def storable_def)
  show "\<not> insert_refused sample_tb sample_results (map (leaves_forest sample_trees \<circ> handle_of) (tb_indexes sample_tb)) (int_row (IntV 3) (IntV 30))"
    by (simp add: defs insert_refused_def row_typed_def accepts_def extract_primary_key_def sample_results_def sample_rows_def
        no_conflict_def extract_indexed_value_def unique_conflict_def index_pairs_def columns_of_def sample_unique_def handle_of_def
        leaves_forest_def sample_trees_def sample_index_entries_def)
  show "\<forall>pk bytes. extract_primary_key (tb_schema sample_tb) (int_row (IntV 3) (IntV 30)) = Inr pk
     \<longrightarrow> serialize (int_row (IntV 3) (IntV 30)) (tb_schema sample_tb) = Inr bytes
     \<longrightarrow> has_room sample_tb (leaves_forest sample_trees) (int_row (IntV 3) (IntV 30)) pk bytes"
    by (simp add: defs extract_primary_key_def serialize_def row_size_def bitmap_size_def sbind_Inr_conv encode_int_def has_room_def fits_in_def
        room_for_def entry_size_def leaf_cell_def leaves_forest_def sample_trees_def sample_row_entries_def sample_rows_def
        short_key_def key_fits_def value_fits_def key_encode_def leaf_bytes_def capacity_def PAGE_SIZE_def NODE_HEADER_SIZE_def
        entry_for_def extract_indexed_value_def is_indexable_def sample_unique_def handle_of_def sample_index_entries_def)
qed

lemma sample_key: "extract_primary_key (tb_schema sample_tb) (int_row (IntV 3) (IntV 30)) = Inr [IntV 3]"
  by (simp add: extract_primary_key_def sample_tb_def sample_schema_def int_row_def row_get_def is_null_def)

section \<open>Properties\<close>

text \<open>
  Property C8. An insertion that is not refused stores the row. From a database at rest with its
  trees on disjoint pages and a consistent table, \<open>insert\<close> returns the row's primary key; the rows are
  the old ones and the new one at its place in key order, every index holds exactly the
  tuples of the rows again, every other tree is as it was, the counter at most moved, and the database is at
  rest. The hypotheses on space are the limits the code does not check.
\<close>

theorem insert_stores_row:
  fixes s :: "'a btrees_scheme"
  assumes "at_rest m s" "forest m hs T" "set (handles tb) \<subseteq> hs" "consistent tb T rows"
    "is_single_int_auto_increment (tb_schema tb) = Inr single" "assign_auto_increment tb single row = Inr row'"
    "clean_row row'" "row_storable row' (tb_schema tb)"
    "\<not> insert_refused tb rows (map (T \<circ> handle_of) (tb_indexes tb)) row'"
    "\<forall>pk bytes. extract_primary_key (tb_schema tb) row' = Inr pk \<longrightarrow> serialize row' (tb_schema tb) = Inr bytes \<longrightarrow> has_room tb T row' pk bytes"
    "(\<Sum>h\<leftarrow>handles tb. need (T h)) \<le> spare m"
  shows "wp (table_insert tb row) (\<lambda>(pk, tb') w. extract_primary_key (tb_schema tb) row' = Inr pk \<and> (\<exists>n. tb' = tb\<lparr>tb_next := n\<rparr>)
      \<and> (\<exists>m' T' rows'. at_rest m' w \<and> forest m' hs T' \<and> consistent tb' T' rows'
          \<and> added \<lparr>sr_primary_key = pk, sr_row = row'\<rparr> rows rows' \<and> (\<forall>h. h \<notin> set (handles tb) \<longrightarrow> T' h = T h))) (\<lambda>_ _. False) s"
proof (rule wp_mono [OF wp_table_insert [OF assms]], clarify)
  fix pk tb' and w :: "'a btrees_scheme" assume "inserted_row s hs tb T rows row' (pk, tb') w"
  then obtain n m1 ws T' rows' where i: "tb' = tb\<lparr>tb_next := n\<rparr>" "extract_primary_key (tb_schema tb) row' = Inr pk"
    "lasting s hs T' m1 ws w" "grown_table tb T rows \<lparr>sr_primary_key = pk, sr_row = row'\<rparr> T' rows'"
    by (auto simp: inserted_row_def)
  with lasting_at_rest [OF i(3)] consistent_next [where tb = tb and n = n]
  show "extract_primary_key (tb_schema tb) row' = Inr pk \<and> (\<exists>n. tb' = tb\<lparr>tb_next := n\<rparr>)
      \<and> (\<exists>m' T' rows'. at_rest m' w \<and> forest m' hs T' \<and> consistent tb' T' rows'
          \<and> added \<lparr>sr_primary_key = pk, sr_row = row'\<rparr> rows rows' \<and> (\<forall>h. h \<notin> set (handles tb) \<longrightarrow> T' h = T h))"
    unfolding grown_table_def by blast
qed simp

theorem insert_stores_row_witness:
  "wp (table_insert sample_tb (int_row Null (IntV 30))) (\<lambda>(pk, tb) w. pk = [IntV 3] \<and> (\<exists>m T rows. at_rest m w \<and> forest m {..<2} T
      \<and> consistent tb T rows \<and> set rows = insert \<lparr>sr_primary_key = [IntV 3], sr_row = int_row (IntV 3) (IntV 30)\<rparr> (set sample_results)))
    (\<lambda>_ _. False) sample_state"
proof -
  have rest: "at_rest (leaves_mem sample_trees) sample_state" using sample_forest(1) by (simp add: checkpointed_def)
  show ?thesis
    by (rule wp_mono [OF insert_stores_row [OF rest sample_forest(2) sample_consistent(2,1) sample_insert_clean(1-3) sample_fits sample_forest(3)]])
      (use sample_key added_set in \<open>fastforce+\<close>)
qed

text \<open>
  Property C9. A table is a map from primary keys to rows: a selection after an insertion finds
  the new row under its key and, under any other key, the row that was there before. The insertion is
  one that is not refused, and the hypotheses on space are those of \<open>insert_stores_row\<close>: every entry has room where it
  goes (\<open>has_room\<close>), and the file can grow by the pages the trees may need.
\<close>

theorem insert_then_select:
  fixes s :: "'a btrees_scheme"
  assumes "at_rest m s" "forest m hs T" "set (handles tb) \<subseteq> hs" "consistent tb T rows"
    "is_single_int_auto_increment (tb_schema tb) = Inr single" "assign_auto_increment tb single row = Inr row'"
    "clean_row row'" "row_storable row' (tb_schema tb)"
    "\<not> insert_refused tb rows (map (T \<circ> handle_of) (tb_indexes tb)) row'"
    "\<forall>pk bytes. extract_primary_key (tb_schema tb) row' = Inr pk \<longrightarrow> serialize row' (tb_schema tb) = Inr bytes \<longrightarrow> has_room tb T row' pk bytes"
    "(\<Sum>h\<leftarrow>handles tb. need (T h)) \<le> spare m" "clean_key k"
  shows "wp (bind (table_insert tb row) (\<lambda>(pk, tb'). bind (select_by_key tb' k) (\<lambda>r. ret (pk, r))))
    (\<lambda>(pk, r) _. extract_primary_key (tb_schema tb) row' = Inr pk
      \<and> (\<forall>x. r = Some x \<longleftrightarrow> (if key_eq pk k then x = row' else \<exists>y \<in> set rows. key_eq (sr_primary_key y) k \<and> sr_row y = x)))
    (\<lambda>_ _. False) s"
proof (rule wp_bindI, rule wp_mono [OF wp_table_insert [OF assms(1-11)]], clarify)
  fix pk tb' and w :: "'a btrees_scheme" assume "inserted_row s hs tb T rows row' (pk, tb') w"
  then obtain n m1 ws T' rows' where i: "tb' = tb\<lparr>tb_next := n\<rparr>" "extract_primary_key (tb_schema tb) row' = Inr pk"
    "lasting s hs T' m1 ws w" "grown_table tb T rows \<lparr>sr_primary_key = pk, sr_row = row'\<rparr> T' rows'"
    by (auto simp: inserted_row_def)
  obtain m' where m: "at_rest m' w" "forest m' hs T'" using lasting_at_rest [OF i(3)] by blast
  have tb: "tb_tree tb' = tb_tree tb" "tb_tree tb \<in> hs" using i(1) assms(3) by (simp_all add: handles_def)
  have at: "table_at w tb' (T' (tb_tree tb')) rows'"
    using consistent_at [where s = w and tb = tb' and T = T' and rows = rows'] forest_tree_at [OF m tb(2)] i(1,4) tb(1) consistent_next [where tb = tb and n = n] by (simp add: grown_table_def)
  have new: "set rows' = insert \<lparr>sr_primary_key = pk, sr_row = row'\<rparr> (set rows)" using i(4) by (intro added_set) (simp add: grown_table_def)
  have ck: "clean_key (sr_primary_key y)" if "y \<in> set rows" for y
    using assms(4) that extract_length(2) by (auto simp: consistent_def row_ok_def)
  have pk: "clean_key pk" by (rule primary_key_clean [OF i(2) assms(7)])
  have free: "\<forall>y \<in> set rows. \<not> key_eq (sr_primary_key y) pk" using assms(9) i(2) by (auto simp: insert_refused_def)
  have no: "\<not> key_eq (sr_primary_key y) k" if "key_eq pk k" "y \<in> set rows" for y
    using ko.eq_trans [OF ck [OF that(2)] assms(12) pk] ko.eq_sym [OF pk assms(12) that(1)] free that(2) by blast
  show "wp (bind (select_by_key tb' k) (\<lambda>r. ret (pk, r)))
    (\<lambda>(pk, r) _. extract_primary_key (tb_schema tb) row' = Inr pk
      \<and> (\<forall>x. r = Some x \<longleftrightarrow> (if key_eq pk k then x = row' else \<exists>y \<in> set rows. key_eq (sr_primary_key y) k \<and> sr_row y = x)))
    (\<lambda>_ _. False) w"
    by (rule wp_bindI, rule wp_mono [OF wp_select_by_key [OF at assms(12)]]) (use new no i(2) in \<open>auto simp: wp_ret\<close>)
qed simp

theorem insert_then_select_witness:
  "wp (bind (table_insert sample_tb (int_row Null (IntV 30))) (\<lambda>(pk, tb). bind (select_by_key tb [IntV 3]) (\<lambda>r. ret (pk, r))))
    (\<lambda>(pk, r) _. pk = [IntV 3] \<and> r = Some (int_row (IntV 3) (IntV 30))) (\<lambda>_ _. False) sample_state"
proof -
  have rest: "at_rest (leaves_mem sample_trees) sample_state" using sample_forest(1) by (simp add: checkpointed_def)
  have "clean_key [IntV 3]" by (simp add: clean_value_def)
  note i = insert_then_select [OF rest sample_forest(2) sample_consistent(2,1) sample_insert_clean(1-3) sample_fits sample_forest(3) this]
  show ?thesis
  proof (rule wp_mono [OF i], clarify)
    fix pk r
    assume pk: "extract_primary_key (tb_schema sample_tb) (int_row (IntV 3) (IntV 30)) = Inr pk"
      and r: "\<forall>x. r = Some x \<longleftrightarrow> (if key_eq pk [IntV 3] then x = int_row (IntV 3) (IntV 30)
        else \<exists>y \<in> set sample_results. key_eq (sr_primary_key y) [IntV 3] \<and> sr_row y = x)"
    have k: "pk = [IntV 3]" using pk sample_key by simp
    then show "pk = [IntV 3] \<and> r = Some (int_row (IntV 3) (IntV 30))" using r [rule_format, of "int_row (IntV 3) (IntV 30)"] by simp
  qed simp
qed

text \<open>
  Property C10. A committed row survives a crash. When \<open>insert\<close> has returned on a checkpointed database and
  the process stops, the pages of the transaction may be in any state on file, and the page file, whose growth
  the commit does not make durable, may end anywhere between its old length and its new one. If it has kept
  its new length, recovery from the log returns, and at the roots stand again all the trees \<open>insert\<close>
  left: the table with its new row, its indexes in agreement with it, and every other tree. If it has lost
  some of its new pages, recovery throws and leaves the log as it is: the row is still in the log, but
  the database does not open. The hypotheses on space are those of \<open>insert_stores_row\<close>. When the insertion allocates no page only the first case is left.
\<close>

theorem inserted_row_survives_crash:
  fixes s :: "'a btrees_scheme"
  assumes "checkpointed m s" "forest m hs T" "set (handles tb) \<subseteq> hs" "consistent tb T rows"
    "is_single_int_auto_increment (tb_schema tb) = Inr single" "assign_auto_increment tb single row = Inr row'"
    "clean_row row'" "row_storable row' (tb_schema tb)"
    "\<not> insert_refused tb rows (map (T \<circ> handle_of) (tb_indexes tb)) row'"
    "\<forall>pk bytes. extract_primary_key (tb_schema tb) row' = Inr pk \<longrightarrow> serialize row' (tb_schema tb) = Inr bytes \<longrightarrow> has_room tb T row' pk bytes"
    "(\<Sum>h\<leftarrow>handles tb. need (T h)) \<le> spare m"
  shows "wp (table_insert tb row) (\<lambda>(pk, tb') w. \<exists>ws T' rows'. wal_stable w = log_bytes (page_frames (next_transaction_id s) ws @ [Commit (next_transaction_id s)])
      \<and> added \<lparr>sr_primary_key = pk, sr_row = row'\<rparr> rows rows' \<and> consistent tb' T' rows'
      \<and> (\<forall>h. h \<notin> set (handles tb) \<longrightarrow> T' h = T h) \<and> after_crash s w (fst ` set ws) w
      \<and> (\<forall>z :: 'b wal_scheme. after_crash s w (fst ` set ws) z \<longrightarrow>
          wp wal_recover (\<lambda>_ v. total_pages z = total_pages w \<and> (\<forall>h \<in> hs. tree_ok (view v) (total_pages v) (roots w h) (T' h)))
            (\<lambda>_ v. total_pages z < total_pages w \<and> wal_file v = wal_file z) z)) (\<lambda>_ _. False) s"
proof -
  have r: "at_rest m s" "wal_file s = []" using assms(1) by (simp_all add: checkpointed_def)
  have pos: "0 < total_pages s" using r(1) forest_pages [OF assms(2), of "tb_tree tb"] assms(3) by (simp add: at_rest_def handles_def)
  show ?thesis
  proof (rule wp_mono [OF wp_table_insert [OF r(1) assms(2-11)]], clarify)
    fix pk tb' and w :: "'a btrees_scheme" assume "inserted_row s hs tb T rows row' (pk, tb') w"
    then obtain n m1 ws T' rows' where i: "tb' = tb\<lparr>tb_next := n\<rparr>" "lasting s hs T' m1 ws w"
      "grown_table tb T rows \<lparr>sr_primary_key = pk, sr_row = row'\<rparr> T' rows'" by (auto simp: inserted_row_def)
    have g: "added \<lparr>sr_primary_key = pk, sr_row = row'\<rparr> rows rows'" "consistent tb' T' rows'" "\<forall>h. h \<notin> set (handles tb) \<longrightarrow> T' h = T h"
      using i(1,3) consistent_next [where tb = tb and n = n] by (simp_all add: grown_table_def)
    have c: "\<forall>z :: 'b wal_scheme. after_crash s w (fst ` set ws) z \<longrightarrow>
        wp wal_recover (\<lambda>_ v. total_pages z = total_pages w \<and> (\<forall>h \<in> hs. tree_ok (view v) (total_pages v) (roots w h) (T' h)))
            (\<lambda>_ v. total_pages z < total_pages w \<and> wal_file v = wal_file z) z"
      by (intro allI impI) (rule wp_recover_forest [OF i(2) r(2) _ pos])
    have l: "wal_stable w = log_bytes (page_frames (next_transaction_id s) ws @ [Commit (next_transaction_id s)])"
      using i(2) r(2) by (simp add: lasting_def sealed_def)
    show "\<exists>ws T' rows'. wal_stable w = log_bytes (page_frames (next_transaction_id s) ws @ [Commit (next_transaction_id s)])
      \<and> added \<lparr>sr_primary_key = pk, sr_row = row'\<rparr> rows rows' \<and> consistent tb' T' rows'
      \<and> (\<forall>h. h \<notin> set (handles tb) \<longrightarrow> T' h = T h) \<and> after_crash s w (fst ` set ws) w
      \<and> (\<forall>z :: 'b wal_scheme. after_crash s w (fst ` set ws) z \<longrightarrow>
          wp wal_recover (\<lambda>_ v. total_pages z = total_pages w \<and> (\<forall>h \<in> hs. tree_ok (view v) (total_pages v) (roots w h) (T' h)))
            (\<lambda>_ v. total_pages z < total_pages w \<and> wal_file v = wal_file z) z)"
      by (intro exI [of _ ws] exI [of _ T'] exI [of _ rows'] conjI) (fact l g lasting_crash [OF i(2)] c)+
  qed simp
qed

theorem inserted_row_survives_crash_witness:
  "wp (table_insert sample_tb (int_row Null (IntV 30))) (\<lambda>(pk, tb) w. \<exists>T rows. consistent tb T rows \<and> length rows = 3
      \<and> wp wal_recover (\<lambda>_ v. \<forall>h \<in> {..<2}. tree_ok (view v) (total_pages v) (roots w h) (T h)) (\<lambda>_ _. False) w) (\<lambda>_ _. False) sample_state"
proof (rule wp_mono [OF inserted_row_survives_crash [where 'b = "unit btrees_ext hdr_ext", OF sample_forest(1,2) sample_consistent(2,1) sample_insert_clean(1-3) sample_fits sample_forest(3)]], clarify)
  fix pk tb and w :: btrees and ws :: "(u32 \<times> page) list" and T rows
  assume a: "added \<lparr>sr_primary_key = pk, sr_row = int_row (IntV 3) (IntV 30)\<rparr> sample_results rows" "consistent tb T rows"
    "after_crash sample_state w (fst ` set ws) w" and r: "\<forall>z :: btrees. after_crash sample_state w (fst ` set ws) z \<longrightarrow>
      wp wal_recover (\<lambda>_ v. total_pages z = total_pages w \<and> (\<forall>h \<in> {..<2}. tree_ok (view v) (total_pages v) (roots w h) (T h)))
        (\<lambda>_ v. total_pages z < total_pages w \<and> wal_file v = wal_file z) z"
  have "length rows = Suc (length sample_results)" by (rule added_length [OF a(1)])
  then have "length rows = 3" by (simp add: sample_results_def sample_rows_def)
  moreover have "wp wal_recover (\<lambda>_ v. \<forall>h \<in> {..<2}. tree_ok (view v) (total_pages v) (roots w h) (T h)) (\<lambda>_ _. False) w"
    by (rule wp_mono [OF r [rule_format, OF a(3)]]) simp_all
  ultimately show "\<exists>T rows. consistent tb T rows \<and> length rows = 3
      \<and> wp wal_recover (\<lambda>_ v. \<forall>h \<in> {..<2}. tree_ok (view v) (total_pages v) (roots w h) (T h)) (\<lambda>_ _. False) w"
    using a(2) by blast
qed

end
