(* ===== verification/Table_Delete.thy ===== *)
theory Table_Delete
  imports Tree_Remove Table_Insert
begin

text \<open>
  Deletion of a row, where no leaf falls under half of its space: the row and its index entries go
  in one transaction, and the table stays consistent.
\<close>

section \<open>What is left\<close>

lemma rows_in_removed:
  assumes "rows_in tb t rows" "added e (t_entries t') (t_entries t)"
  shows "\<exists>r rows'. added r rows' rows \<and> rows_in tb t' rows' \<and> sr_primary_key r = le_key e
    \<and> deserialize (le_value e) (tb_schema tb) = Inr (sr_row r)"
proof -
  obtain A B where e: "t_entries t' = A @ B" "t_entries t = A @ e # B" using assms(2) by (auto simp: added_def)
  obtain xs r ys where r: "rows = xs @ r # ys" "length xs = length A" "length ys = length B"
    "sr_primary_key r = le_key e" "deserialize (le_value e) (tb_schema tb) = Inr (sr_row r)"
    "list_all2 (\<lambda>r e. sr_primary_key r = le_key e \<and> deserialize (le_value e) (tb_schema tb) = Inr (sr_row r)) xs A"
    "list_all2 (\<lambda>r e. sr_primary_key r = le_key e \<and> deserialize (le_value e) (tb_schema tb) = Inr (sr_row r)) ys B"
    using assms(1) unfolding rows_in_def e(2) list_all2_append2 list_all2_Cons2 by (auto dest: list_all2_lengthD)
  have "added r (xs @ ys) rows" using r(1) by (auto simp: added_def)
  moreover have "rows_in tb t' (xs @ ys)" using r(6,7) e(1) r(2,3) by (simp add: rows_in_def list_all2_append)
  ultimately show ?thesis using r(4,5) by blast
qed

text \<open>The keys of the other rows are other keys.\<close>

lemma other_keys:
  assumes "rows_in tb t rows'" "added e (t_entries t) (t_entries t')" "sorted_entries (t_entries t')" "x \<in> set rows'"
  shows "\<not> key_eq (sr_primary_key x) (le_key e)"
proof -
  obtain f where f: "f \<in> set (t_entries t)" "sr_primary_key x = le_key f"
    using list_all2_partner(1) [OF assms(1) [unfolded rows_in_def] assms(4)] by auto
  obtain A B where ab: "t_entries t = A @ B" "t_entries t' = A @ e # B" using assms(2) by (auto simp: added_def)
  have srt: "\<forall>a \<in> set A. key_lt (le_key a) (le_key e)" "\<forall>b \<in> set B. key_lt (le_key e) (le_key b)"
    using assms(3) unfolding ab by (simp_all add: sorted_entries_append sorted_entries_Cons)
  have c: "clean_key (le_key e)" "clean_key (le_key f)"
    using assms(3) f(1) unfolding ab by (auto simp: sorted_entries_def)
  have "key_lt (le_key f) (le_key e) \<or> key_lt (le_key e) (le_key f)" using srt(1,2) f(1) unfolding ab(1) by auto
  then show ?thesis unfolding f(2) using ko.lt_iff [OF c] ko.lt_iff [OF c(2,1)] ko.eq_sym [OF c(2,1)] by blast
qed

lemma index_ok_removed:
  assumes "index_ok tb t rows b" "\<forall>r \<in> set rows. row_ok tb r" "sorted_entries (t_entries t)"
    "entered (entry_for b (sr_row r) (sr_primary_key r)) t' t" "added r rows' rows"
    "\<forall>x \<in> set rows'. \<not> key_eq (sr_primary_key x) (sr_primary_key r)"
  shows "index_ok tb t' rows' b"
proof -
  let ?S = "\<lambda>rows. {e. \<exists>r \<in> set rows. entry_for b (sr_row r) (sr_primary_key r) = Some e}"
  have set: "set rows = insert r (set rows')" by (rule added_set [OF assms(5)])
  have S: "set (t_entries t) = ?S rows" "?S rows = ?S rows' \<union> {e. entry_for b (sr_row r) (sr_primary_key r) = Some e}"
    using assms(1) set by (auto simp: index_ok_def)
  have "set (t_entries t') = ?S rows'"
  proof (cases "entry_for b (sr_row r) (sr_primary_key r)")
    case None
    then show ?thesis using S assms(4) by (simp add: entered_def)
  next
    case (Some e)
    then have ad: "added e (t_entries t') (t_entries t)" using assms(4) by (simp add: entered_def)
    have ok: "clean_row (sr_row r)" "clean_key (sr_primary_key r)" using assms(2) set extract_length(2) by (auto simp: row_ok_def)
    have "e \<notin> ?S rows'"
    proof
      assume "e \<in> ?S rows'"
      then obtain x where x: "x \<in> set rows'" "entry_for b (sr_row x) (sr_primary_key x) = Some e" by blast
      have "clean_row (sr_row x)" using assms(2) set x(1) by (simp add: row_ok_def)
      with x(2) obtain v where v: "e = \<lparr>le_key = v @ sr_primary_key x, le_value = []\<rparr>" "length v = length (ib_column_indices b)"
        by (rule entry_forD)
      obtain w where "e = \<lparr>le_key = w @ sr_primary_key r, le_value = []\<rparr>" "length w = length (ib_column_indices b)"
        by (rule entry_forD [OF Some ok(1)])
      with v have "sr_primary_key x = sr_primary_key r" by simp
      then show False using assms(6) x(1) ko.eq_refl [OF ok(2)] by force
    qed
    moreover have "e \<notin> set (t_entries t')"
    proof -
      obtain A B where ab: "t_entries t' = A @ B" "t_entries t = A @ e # B" using ad by (auto simp: added_def)
      have "clean_key (le_key e)" using assms(3) unfolding ab by (simp add: sorted_entries_def)
      then show ?thesis using assms(3) ko.lt_irrefl unfolding ab by (auto simp: sorted_entries_append sorted_entries_Cons)
    qed
    ultimately show ?thesis using S Some added_set [OF ad] by auto
  qed
  then show ?thesis using assms(1) set by (auto simp: index_ok_def)
qed

text \<open>The table's trees without the row and its index entries.\<close>

definition drop_entry :: "leaf_entry option \<Rightarrow> tree \<Rightarrow> tree" where
  "drop_entry eo t = (case eo of None \<Rightarrow> t | Some e \<Rightarrow> prune (le_key e) t)"

definition pruned :: "table \<Rightarrow> db_row \<Rightarrow> key \<Rightarrow> (nat \<Rightarrow> tree) \<Rightarrow> nat \<Rightarrow> tree" where
  "pruned tb row k T h = (if h = tb_tree tb then prune k (T h)
     else case find (\<lambda>b. handle_of b = h) (tb_indexes tb) of None \<Rightarrow> T h | Some b \<Rightarrow> drop_entry (entry_for b row k) (T h))"

lemma pruned_at:
  assumes "distinct (handles tb)"
  shows "pruned tb row k T (tb_tree tb) = prune k (T (tb_tree tb))"
    "b \<in> set (tb_indexes tb) \<Longrightarrow> pruned tb row k T (handle_of b) = drop_entry (entry_for b row k) (T (handle_of b))"
    "h \<notin> set (handles tb) \<Longrightarrow> pruned tb row k T h = T h"
proof -
  show "pruned tb row k T (tb_tree tb) = prune k (T (tb_tree tb))" by (simp add: pruned_def)
  show "pruned tb row k T h = T h" if "h \<notin> set (handles tb)"
  proof -
    have "find (\<lambda>b. handle_of b = h) (tb_indexes tb) = None" using that by (auto simp: find_None_iff handles_def)
    then show ?thesis using that by (simp add: pruned_def handles_def)
  qed
  show "pruned tb row k T (handle_of b) = drop_entry (entry_for b row k) (T (handle_of b))" if b: "b \<in> set (tb_indexes tb)"
  proof -
    have inj: "inj_on handle_of (set (tb_indexes tb))" and "tb_tree tb \<notin> handle_of ` set (tb_indexes tb)"
      using assms by (simp_all add: handles_def distinct_map)
    then have n: "handle_of b \<noteq> tb_tree tb" using b by (metis imageI)
    obtain c where c: "find (\<lambda>c. handle_of c = handle_of b) (tb_indexes tb) = Some c"
      using b by (cases "find (\<lambda>c. handle_of c = handle_of b) (tb_indexes tb)") (auto simp: find_None_iff)
    then have "c \<in> set (tb_indexes tb)" "handle_of c = handle_of b" by (auto simp: find_Some_iff)
    then have "c = b" using inj b by (auto dest: inj_onD)
    then show ?thesis using c n by (simp add: pruned_def)
  qed
qed

text \<open>An entry under an equal primary key.\<close>

lemma entry_under:
  assumes "index_ok tb t rows b" "r \<in> set rows" "row_ok tb r" "clean_key k" "key_eq (sr_primary_key r) k" "sorted_entries (t_entries t)"
  shows "entered (entry_for b (sr_row r) (sr_primary_key r)) (drop_entry (entry_for b (sr_row r) k) t) t"
proof (cases "entry_for b (sr_row r) (sr_primary_key r)")
  case None
  then have "entry_for b (sr_row r) k = None" by (auto simp: entry_for_def split: sum.splits if_splits)
  then show ?thesis using None by (simp add: entered_def drop_entry_def)
next
  case (Some e)
  have c: "clean_row (sr_row r)" using assms(3) by (simp add: row_ok_def)
  obtain v where v: "extract_indexed_value (sr_row r) b = Inr v" "is_indexable v" "e = \<lparr>le_key = v @ sr_primary_key r, le_value = []\<rparr>"
    "clean_key v" by (rule entry_forD [OF Some c])
  have e: "e \<in> set (t_entries t)" using assms(1,2) Some by (auto simp: index_ok_def)
  have eq: "key_eq (le_key e) (v @ k)" using v(3,4) assms(5) ko.eq_refl by (simp add: key_eq_append)
  have ck: "clean_key (v @ k)" using v(4) assms(4) by simp
  have "added e (t_entries (prune (v @ k) t)) (t_entries t)" by (rule prune_added [OF assms(6) e eq ck])
  then show ?thesis unfolding Some using v(1,2) by (simp add: entered_def drop_entry_def entry_for_def)
qed

lemma consistent_pruned:
  assumes "consistent tb T rows" "r \<in> set rows" "clean_key k" "key_eq (sr_primary_key r) k"
    "\<And>h. h \<in> set (handles tb) \<Longrightarrow> sorted_entries (t_entries (T h))"
  shows "\<exists>rows'. added r rows' rows \<and> consistent tb (pruned tb (sr_row r) k T) rows' \<and> (\<forall>x \<in> set rows'. \<not> key_eq (sr_primary_key x) (sr_primary_key r))"
proof -
  let ?h = "tb_tree tb" and ?T = "pruned tb (sr_row r) k T"
  have dist: "distinct (handles tb)" and rows: "rows_in tb (T ?h) rows" "\<forall>r \<in> set rows. row_ok tb r" using assms(1) by (simp_all add: consistent_def)
  note at = pruned_at [OF dist, where row = "sr_row r" and k = k and T = T]
  have srt: "sorted_entries (t_entries (T ?h))" by (rule assms(5)) (simp add: handles_def)
  obtain e where e: "e \<in> set (t_entries (T ?h))" "sr_primary_key r = le_key e" "deserialize (le_value e) (tb_schema tb) = Inr (sr_row r)"
    using list_all2_partner(1) [OF rows(1) [unfolded rows_in_def] assms(2)] by auto
  have ad: "added e (t_entries (?T ?h)) (t_entries (T ?h))"
    unfolding at(1) by (rule prune_added [OF srt e(1) assms(4) [unfolded e(2)] assms(3)])
  obtain r' rows' where r': "added r' rows' rows" "rows_in tb (?T ?h) rows'" "sr_primary_key r' = le_key e"
    "deserialize (le_value e) (tb_schema tb) = Inr (sr_row r')" using rows_in_removed [OF rows(1) ad] by blast
  then have "r' = r" using e by (cases r; cases r') simp
  note r = r'(1,2) [unfolded this]
  have others: "\<forall>x \<in> set rows'. \<not> key_eq (sr_primary_key x) (sr_primary_key r)"
    unfolding e(2) using other_keys [OF r(2) ad srt] by blast
  have "index_ok tb (?T (handle_of b)) rows' b" if b: "b \<in> set (tb_indexes tb)" for b
  proof (rule index_ok_removed [OF _ rows(2) _ _ r(1) others])
    show ok: "index_ok tb (T (handle_of b)) rows b" using assms(1) b by (simp add: consistent_def)
    show s: "sorted_entries (t_entries (T (handle_of b)))" by (rule assms(5)) (use b in \<open>simp add: handles_def\<close>)
    show "entered (entry_for b (sr_row r) (sr_primary_key r)) (?T (handle_of b)) (T (handle_of b))"
      unfolding at(2) [OF b] by (rule entry_under [OF ok assms(2) _ assms(3,4) s]) (use rows(2) assms(2) in blast)
  qed
  then have "consistent tb ?T rows'" using dist r(2) rows(2) added_set [OF r(1)] by (simp add: consistent_def)
  with r(1) others show ?thesis by blast
qed

section \<open>Removing the row\<close>

text \<open>Every leaf that loses an entry keeps half of its space in use.\<close>

definition may_shrink :: "table \<Rightarrow> (nat \<Rightarrow> tree) \<Rightarrow> db_row \<Rightarrow> key \<Rightarrow> bool" where
  "may_shrink tb T row k \<longleftrightarrow> keeps_half (T (tb_tree tb)) k
     \<and> (\<forall>b \<in> set (tb_indexes tb). \<forall>e. entry_for b row k = Some e \<longrightarrow> keeps_half (T (handle_of b)) (le_key e))"

definition gives :: "table \<Rightarrow> scan_result list \<Rightarrow> scan_result \<Rightarrow> key \<Rightarrow> index_binding \<Rightarrow> tree \<Rightarrow> bool" where
  "gives tb rows r k b t \<longleftrightarrow> index_ok tb t rows b \<and> length k = in_pk_arity (ib_index b)
     \<and> (\<forall>e. entry_for b (sr_row r) k = Some e \<longrightarrow> keeps_half t (le_key e))"

lemma wp_remove_entry:
  fixes s u :: "'a btrees_scheme"
  assumes "gives tb rows r k b (T (handle_of b))" "wooded s hs T (n + 0) u" "handle_of b \<in> hs" "r \<in> set rows" "\<forall>r \<in> set rows. row_ok tb r"
    "clean_key k" "key_eq (sr_primary_key r) k"
  shows "wp (bind (lift (extract_indexed_value (sr_row r) b)) (\<lambda>v. remove_entry (ib_index b) (next_transaction_id s) v k))
    (\<lambda>_ w. \<exists>t. t = drop_entry (entry_for b (sr_row r) k) (T (handle_of b)) \<and> wooded s hs (T(handle_of b := t)) n w) (\<lambda>_ _. False) u"
proof -
  let ?h = "handle_of b" and ?ix = "ib_index b"
  have ok: "index_ok tb (T ?h) rows b" "length k = in_pk_arity ?ix" using assms(1) by (simp_all add: gives_def)
  obtain v where v: "extract_indexed_value (sr_row r) b = Inr v" using ok(1) assms(4) by (auto simp: index_ok_def)
  have clean: "clean_row (sr_row r)" using assms(4,5) by (simp add: row_ok_def)
  have vl: "length v = columns_of ?ix" "clean_key v"
    using smap_row_get [of "sr_row r" "ib_column_indices b" v] v clean ok(1) by (simp_all add: extract_indexed_value_def index_ok_def)
  show ?thesis
  proof (cases "is_indexable v")
    case False
    then show ?thesis using v assms(2) by (simp add: bind_lift remove_entry_def wp_ret drop_entry_def entry_for_def)
  next
    case True
    let ?e = "\<lparr>le_key = v @ sr_primary_key r, le_value = []\<rparr>"
    have e: "entry_for b (sr_row r) k = Some \<lparr>le_key = v @ k, le_value = []\<rparr>" using True v by (simp add: entry_for_def)
    have "entry_for b (sr_row r) (sr_primary_key r) = Some ?e" using True v by (simp add: entry_for_def)
    then have mem: "?e \<in> set (t_entries (T ?h))" using ok(1) assms(4) by (auto simp: index_ok_def)
    have ck: "clean_key (v @ k)" "key_eq (le_key ?e) (v @ k)"
      using vl(2) assms(6,7) ko.eq_refl by (simp_all add: key_eq_append)
    have half: "keeps_half (T ?h) (v @ k)" using assms(1) True v by (simp add: gives_def entry_for_def)
    have key: "make_entry_key ?ix v k = Inr (v @ k)" using vl(1) ok(2) by (simp add: make_entry_key_def)
    show ?thesis
      using wp_remove_forest [OF assms(2) [simplified] assms(3) ck(1) mem ck(2) half] e True key v
      by (simp add: bind_lift remove_entry_def drop_entry_def handle_of_def)
  qed
qed

lemma wooded_sorted: "wooded s hs T n u \<Longrightarrow> h \<in> hs \<Longrightarrow> sorted_entries (t_entries (T h))"
  unfolding wooded_def using forestD(1) tree_in_sorted by blast

lemma wp_remove_row:
  fixes s u :: "'a btrees_scheme"
  assumes "wooded s hs T n u" "set (handles tb) \<subseteq> hs" "consistent tb T rows" "r \<in> set rows" "clean_key k"
    "key_eq (sr_primary_key r) k" "may_shrink tb T (sr_row r) k"
  shows "wp (remove_row_and_indexes tb (next_transaction_id s) k (sr_row r)) (\<lambda>_. wooded s hs (pruned tb (sr_row r) k T) n) (\<lambda>_ _. False) u"
proof -
  let ?h = "tb_tree tb" and ?bs = "tb_indexes tb"
  have dist: "distinct (handles tb)" using assms(3) by (simp add: consistent_def)
  have hs: "?h \<in> hs" "handle_of ` set ?bs \<subseteq> hs" "?h \<notin> handle_of ` set ?bs" "distinct (map handle_of ?bs)"
    using assms(2) dist by (auto simp: handles_def)
  have rows: "rows_in tb (T ?h) rows" "\<forall>r \<in> set rows. row_ok tb r" using assms(3) by (auto simp: consistent_def)
  obtain e where e: "e \<in> set (t_entries (T ?h))" "sr_primary_key r = le_key e"
    using list_all2_partner(1) [OF rows(1) [unfolded rows_in_def] assms(4)] by auto
  have klen: "length k = length (ts_primary_key_indices (tb_schema tb))"
    using extract_length(1) assms(4,6) rows(2) key_eq_length by (metis row_ok_def)
  have half: "keeps_half (T ?h) k" "\<forall>b \<in> set ?bs. gives tb rows r k b (T (handle_of b))"
    using assms(3,7) klen by (auto simp: may_shrink_def gives_def consistent_def index_ok_def)
  show ?thesis
    unfolding remove_row_and_indexes_def
  proof (rule wp_andthenI, rule wp_mono [OF wp_remove_forest [OF assms(1) hs(1) assms(5) e(1) assms(6) [unfolded e(2)] half(1)]])
    fix w :: "'a btrees_scheme" assume w: "wooded s hs (T(?h := prune k (T ?h))) n w"
    let ?T = "T(?h := prune k (T ?h))"
    have other: "handle_of b \<noteq> ?h" if "b \<in> set ?bs" for b using hs(3) that by (metis imageI)
    then have same: "?T (handle_of b) = T (handle_of b)" if "b \<in> set ?bs" for b using that by simp
    show "wp (for_each (\<lambda>b. bind (lift (extract_indexed_value (sr_row r) b)) (\<lambda>v. remove_entry (ib_index b) (next_transaction_id s) v k)) ?bs)
      (\<lambda>_. wooded s hs (pruned tb (sr_row r) k T) n) (\<lambda>_ _. False) w"
    proof (rule wp_mono [OF wp_each_tree [where P = "gives tb rows r k" and f = handle_of and cost = "\<lambda>_. 0"
          and R = "\<lambda>b t t'. t' = drop_entry (entry_for b (sr_row r) k) t" and T = ?T and s = s and hs = hs and n = n]], goal_cases)
      case (1 b T n u)
      then show ?case using wp_remove_entry [OF 1(2,3) _ assms(4) rows(2) assms(5,6)] hs(2) by auto
    next
      case (5 _ v)
      then obtain T' where T': "wooded s hs T' n v"
        "\<forall>b \<in> set ?bs. T' (handle_of b) = drop_entry (entry_for b (sr_row r) k) (?T (handle_of b))"
        "\<forall>h. h \<notin> handle_of ` set ?bs \<longrightarrow> T' h = ?T h" by blast
      have "T' h = pruned tb (sr_row r) k T h" for h
      proof (cases "h \<in> handle_of ` set ?bs")
        case True
        then show ?thesis using T'(2) same pruned_at(2) [OF dist] by auto
      next
        case False
        then show ?thesis using T'(3) pruned_at(1,3) [OF dist] by (cases "h = ?h") (simp_all add: handles_def)
      qed
      then have "T' = pruned tb (sr_row r) k T" by (rule ext)
      with T'(1) show ?case by simp
    qed (use w hs(4) half(2) same in auto)
  qed simp
qed

definition shrunk_table :: "table \<Rightarrow> (nat \<Rightarrow> tree) \<Rightarrow> scan_result list \<Rightarrow> scan_result \<Rightarrow> (nat \<Rightarrow> tree) \<Rightarrow> scan_result list \<Rightarrow> bool" where
  "shrunk_table tb T rows r T' rows' \<longleftrightarrow> added r rows' rows \<and> consistent tb T' rows' \<and> (\<forall>h. h \<notin> set (handles tb) \<longrightarrow> T' h = T h)"

section \<open>The whole deletion\<close>

definition deleted_row :: "'a btrees_scheme \<Rightarrow> nat set \<Rightarrow> table \<Rightarrow> (nat \<Rightarrow> tree) \<Rightarrow> scan_result list \<Rightarrow> key \<Rightarrow> 'a btrees_scheme \<Rightarrow> bool" where
  "deleted_row s hs tb T rows k w \<longleftrightarrow> (\<exists>r m ws T' rows'. r \<in> set rows \<and> key_eq (sr_primary_key r) k
     \<and> lasting s hs T' m ws w \<and> shrunk_table tb T rows r T' rows')"

lemma wp_delete_row:
  fixes s :: "'a btrees_scheme"
  assumes "at_rest m s" "forest m hs T" "set (handles tb) \<subseteq> hs" "consistent tb T rows" "clean_key k"
    "\<forall>r \<in> set rows. key_eq (sr_primary_key r) k \<longrightarrow> may_shrink tb T (sr_row r) k"
  shows "wp (delete_row tb k) (\<lambda>_. deleted_row s hs tb T rows k)
    (\<lambda>_ u. kept s u \<and> (\<forall>r \<in> set rows. \<not> key_eq (sr_primary_key r) k)) s"
proof -
  have h: "tb_tree tb \<in> hs" using assms(3) by (simp add: handles_def)
  have at: "tree_at s (tb_tree tb) (T (tb_tree tb))" by (rule forest_tree_at [OF assms(1,2) h])
  have tab: "table_at s tb (T (tb_tree tb)) rows" by (rule consistent_at [OF assms(4) at])
  have pos: "0 < total_pages s" using forest_pages [OF assms(2) h] assms(1) by (simp add: at_rest_def)
  have delete: "wp (delete_now tb k (sr_row r)) (\<lambda>_. deleted_row s hs tb T rows k) (\<lambda>_ _. False) u"
    if u: "kept s u" and r: "r \<in> set rows" "key_eq (sr_primary_key r) k" for u r
  proof -
    have rest: "at_rest m u" using at_rest_reads [OF assms(1)] u by (simp add: kept_def)
    have "0 < total_pages u" using u pos by (simp add: kept_def reads_def readable_def)
    then have w: "wooded u hs T 0 (begun u)" using begun_wooded [OF rest assms(2)] by simp
    have shrink: "may_shrink tb T (sr_row r) k" using assms(6) r by blast
    obtain rows' where rows': "added r rows' rows" "consistent tb (pruned tb (sr_row r) k T) rows'"
      using consistent_pruned [OF assms(4) r(1) assms(5) r(2)] wooded_sorted [OF w] assms(3) by blast
    have dist: "distinct (handles tb)" using assms(4) by (simp add: consistent_def)
    have sh: "shrunk_table tb T rows r (pruned tb (sr_row r) k T) rows'"
      using rows' pruned_at(3) [OF dist] by (simp add: shrunk_table_def)
    have "wp (andthen (remove_row_and_indexes tb (next_transaction_id u) k (sr_row r)) (wal_commit (next_transaction_id u)))
      (\<lambda>_. deleted_row s hs tb T rows k) (\<lambda>_ _. False) (begun u)"
    proof (rule wp_andthenI, rule wp_mono [OF wp_remove_row [OF w assms(3,4) r(1) assms(5) r(2) shrink]])
      let ?T = "pruned tb (sr_row r) k T"
      fix v :: "'a btrees_scheme" assume v: "wooded u hs ?T 0 v"
      show "wp (wal_commit (next_transaction_id u)) (\<lambda>_. deleted_row s hs tb T rows k) (\<lambda>_ _. False) v"
      proof (rule wp_mono [OF wp_commit_forest [OF v]], elim exE)
        fix x and m ws assume "lasting u hs ?T m ws x"
        then have "lasting s hs ?T m ws x" using lasting_kept [OF u pos] by simp
        then show "deleted_row s hs tb T rows k x" unfolding deleted_row_def using sh r by blast
      qed simp
    qed simp
    then show ?thesis by (simp add: delete_now_def wp_bind wp_wal_begin)
  qed
  show ?thesis
    unfolding delete_row_def
  proof (rule wp_bindI, rule wp_mono [OF wp_btree_search [OF at assms(5)]], elim conjE)
    fix f and u :: "'a btrees_scheme"
    assume q: "query_keeps s (tb_tree tb) (T (tb_tree tb)) u"
      and f: "\<forall>v. (f = Some v) = (\<exists>e \<in> set (t_entries (T (tb_tree tb))). key_eq (le_key e) k \<and> le_value e = v)"
    have u: "kept s u" by (rule kept_query [OF at q])
    show "wp (case f of None \<Rightarrow> throw (Runtime_error ''Table::delete_row: primary key not found'')
        | Some b \<Rightarrow> bind (lift (deserialize b (tb_schema tb))) (delete_now tb k)) (\<lambda>_. deleted_row s hs tb T rows k)
      (\<lambda>_ u. kept s u \<and> (\<forall>r \<in> set rows. \<not> key_eq (sr_primary_key r) k)) u"
    proof (cases f)
      case None
      then have "\<forall>r \<in> set rows. \<not> key_eq (sr_primary_key r) k" using f table_atD(3) [OF tab] by fastforce
      then show ?thesis using None u by (simp add: wp_throw)
    next
      case (Some v)
      then obtain e where e: "e \<in> set (t_entries (T (tb_tree tb)))" "key_eq (le_key e) k" "le_value e = v" using f by blast
      then obtain r where r: "r \<in> set rows" "sr_primary_key r = le_key e" "deserialize v (tb_schema tb) = Inr (sr_row r)"
        using table_atD(2) [OF tab e(1)] by blast
      show ?thesis unfolding Some option.case r(3) bind_lift
        by (rule wp_mono [OF delete [OF u r(1)]]) (use r(2) e(2) in auto)
    qed
  qed simp
qed

section \<open>Properties\<close>

text \<open>
  Property C11. Deletion by primary key, on a database at rest with a consistent table, and restricted to rows whose
  removal leaves every leaf that loses an entry at least half full, or is from a root (\<open>may_shrink\<close>): the paths through redistribution
  and merging are excluded, as what they do to the tree is not always right. When a row has the key it is removed, with its entry in
  every index; the other rows keep their order, every index holds exactly the tuples of the rows that
  are left, every other tree is as it was, and the database is at rest. When no row has the key,
  \<open>delete_row\<close> throws and has changed nothing.
\<close>

theorem delete_row_correct:
  fixes s :: "'a btrees_scheme"
  assumes "at_rest m s" "forest m hs T" "set (handles tb) \<subseteq> hs" "consistent tb T rows" "clean_key k"
    "\<forall>r \<in> set rows. key_eq (sr_primary_key r) k \<longrightarrow> may_shrink tb T (sr_row r) k"
  shows "wp (delete_row tb k) (\<lambda>_ w. \<exists>r m' T' rows'. r \<in> set rows \<and> key_eq (sr_primary_key r) k \<and> at_rest m' w \<and> forest m' hs T'
      \<and> consistent tb T' rows' \<and> added r rows' rows \<and> (\<forall>h. h \<notin> set (handles tb) \<longrightarrow> T' h = T h))
    (\<lambda>_ u. kept s u \<and> (\<forall>r \<in> set rows. \<not> key_eq (sr_primary_key r) k)) s"
proof (rule wp_mono [OF wp_delete_row [OF assms]])
  fix w :: "'a btrees_scheme" assume "deleted_row s hs tb T rows k w"
  then obtain r m1 ws T' rows' where d: "r \<in> set rows" "key_eq (sr_primary_key r) k" "lasting s hs T' m1 ws w"
    "shrunk_table tb T rows r T' rows'" by (auto simp: deleted_row_def)
  obtain m' where "at_rest m' w" "forest m' hs T'" using lasting_at_rest [OF d(3)] by blast
  then show "\<exists>r m' T' rows'. r \<in> set rows \<and> key_eq (sr_primary_key r) k \<and> at_rest m' w \<and> forest m' hs T'
      \<and> consistent tb T' rows' \<and> added r rows' rows \<and> (\<forall>h. h \<notin> set (handles tb) \<longrightarrow> T' h = T h)"
    using d(1,2,4) unfolding shrunk_table_def by blast
qed

theorem delete_row_correct_witness:
  "wp (delete_row sample_tb [IntV 2]) (\<lambda>_ w. \<exists>m T rows. at_rest m w \<and> forest m {..<2} T \<and> consistent sample_tb T rows
      \<and> rows = [\<lparr>sr_primary_key = [IntV 1], sr_row = int_row (IntV 1) (IntV 10)\<rparr>]) (\<lambda>_ _. False) sample_state"
proof -
  have rest: "at_rest (leaves_mem sample_trees) sample_state" using sample_forest(1) by (simp add: checkpointed_def)
  have shrink: "\<forall>r \<in> set sample_results. key_eq (sr_primary_key r) [IntV 2] \<longrightarrow> may_shrink sample_tb (leaves_forest sample_trees) (sr_row r) [IntV 2]"
    by (simp add: may_shrink_def keeps_half_def leaves_forest_def)
  have clean: "clean_key [IntV 2]" by (simp add: clean_value_def)
  let ?r1 = "\<lparr>sr_primary_key = [IntV 1], sr_row = int_row (IntV 1) (IntV 10)\<rparr>" and ?r2 = "\<lparr>sr_primary_key = [IntV 2], sr_row = int_row (IntV 2) (IntV 20)\<rparr>"
  have rows: "sample_results = [?r1, ?r2]" by (simp add: sample_results_def sample_rows_def)
  have only: "rows' = [?r1]" if "added r rows' sample_results" "r \<in> set sample_results" "key_eq (sr_primary_key r) [IntV 2]" for r rows'
  proof -
    have "r = ?r2" using that(2,3) unfolding rows by auto
    then show ?thesis using that(1) unfolding rows added_def by (auto simp: Cons_eq_append_conv)
  qed
  show ?thesis
    by (rule wp_mono [OF delete_row_correct [OF rest sample_forest(2) sample_consistent(2,1) clean shrink]])
      (use only in \<open>blast, simp add: rows\<close>)
qed

end
