(* ===== verification/Table_Update.thy ===== *)
theory Table_Update
  imports Table_Delete
begin

text \<open>
  Update of a row by primary key: the old row and its index entries go and the new ones come in one
  transaction. The uniqueness checks are made before, against the indexes that still hold the old row.
\<close>

section \<open>The checks\<close>

text \<open>
  What the checks found, with the row's own entry left out of account, holds without the row: no
  index has the new tuple under any key.
\<close>

lemma no_conflict_without:
  assumes "consistent tb T rows" "consistent tb T1 rows1" "added r rows1 rows" "\<forall>x \<in> set rows1. \<not> key_eq (sr_primary_key x) (sr_primary_key r)"
    "r \<in> set rows" "clean_key k" "key_eq (sr_primary_key r) k" "no_conflict (tb_indexes tb) (map (T \<circ> handle_of) (tb_indexes tb)) row' k"
  shows "no_conflict (tb_indexes tb) (map (T1 \<circ> handle_of) (tb_indexes tb)) row' pk"
  unfolding no_conflict_def list_all2_map2 list_all2_same
proof
  fix b assume b: "b \<in> set (tb_indexes tb)"
  let ?ix = "ib_index b" and ?n = "columns_of (ib_index b)"
  obtain v where v: "extract_indexed_value row' b = Inr v" "\<not> unique_conflict ?ix (T (handle_of b)) v k"
    using assms(8) b by (auto simp: no_conflict_def list_all2_map2 list_all2_same)
  have ok: "index_ok tb (T (handle_of b)) rows b" "index_ok tb (T1 (handle_of b)) rows1 b" "\<forall>r \<in> set rows. row_ok tb r" "\<forall>r \<in> set rows1. row_ok tb r"
    using assms(1,2) b by (simp_all add: consistent_def)
  have "\<not> unique_conflict ?ix (T1 (handle_of b)) v pk"
  proof
    assume "unique_conflict ?ix (T1 (handle_of b)) v pk"
    then obtain e where e: "ix_is_unique (in_schema ?ix)" "e \<in> set (t_entries (T1 (handle_of b)))" "key_eq (take ?n (le_key e)) v"
      by (auto simp: unique_conflict_def index_pairs_def)
    then obtain x where x: "x \<in> set rows1" "entry_for b (sr_row x) (sr_primary_key x) = Some e" using ok(2) by (auto simp: index_ok_def)
    have cx: "clean_row (sr_row x)" "clean_key (sr_primary_key x)" using ok(4) x(1) extract_length(2) by (auto simp: row_ok_def)
    obtain w where w: "e = \<lparr>le_key = w @ sr_primary_key x, le_value = []\<rparr>" "length w = length (ib_column_indices b)"
      by (rule entry_forD [OF x(2) cx(1)])
    have "x \<in> set rows" using x(1) added_set [OF assms(3)] by simp
    then have "e \<in> set (t_entries (T (handle_of b)))" using x(2) ok(1) by (auto simp: index_ok_def)
    then have "key_eq (drop ?n (le_key e)) k" using v(2) e(1,3) by (auto simp: unique_conflict_def index_pairs_def)
    then have xk: "key_eq (sr_primary_key x) k" using w ok(1) by (simp add: index_ok_def)
    have cr: "clean_key (sr_primary_key r)" using ok(3) assms(5) extract_length(2) by (auto simp: row_ok_def)
    have "key_eq (sr_primary_key x) (sr_primary_key r)"
      using ko.eq_trans [OF cx(2) assms(6) cr xk] ko.eq_sym [OF cr assms(6,7)] by blast
    then show False using assms(4) x(1) by blast
  qed
  with v(1) show "\<exists>v. extract_indexed_value row' b = Inr v \<and> \<not> unique_conflict ?ix ((T1 \<circ> handle_of) b) v pk" by auto
qed

lemma pruned_need: "distinct (handles tb) \<Longrightarrow> (\<Sum>h\<leftarrow>handles tb. need (pruned tb row k T h)) = (\<Sum>h\<leftarrow>handles tb. need (T h))"
proof (rule arg_cong [of _ _ sum_list], rule map_cong [OF refl])
  fix h assume "distinct (handles tb)" "h \<in> set (handles tb)"
  then show "need (pruned tb row k T h) = need (T h)"
    using pruned_at(1,2) [of tb] by (auto simp: handles_def drop_entry_def split: option.split)
qed

section \<open>The whole update\<close>

definition updated_row :: "'a btrees_scheme \<Rightarrow> nat set \<Rightarrow> table \<Rightarrow> (nat \<Rightarrow> tree) \<Rightarrow> scan_result list \<Rightarrow> scan_result \<Rightarrow> scan_result \<Rightarrow> table \<Rightarrow> 'a btrees_scheme \<Rightarrow> bool" where
  "updated_row s hs tb T rows r r' tb' w \<longleftrightarrow> (\<exists>n m ws T' rows1 rows'. tb' = tb\<lparr>tb_next := n\<rparr> \<and> lasting s hs T' m ws w
     \<and> added r rows1 rows \<and> added r' rows1 rows' \<and> consistent tb T' rows' \<and> (\<forall>h. h \<notin> set (handles tb) \<longrightarrow> T' h = T h))"

lemma wp_replace_row:
  fixes s u :: "'a btrees_scheme"
  assumes "wooded s hs T (\<Sum>h\<leftarrow>handles tb. need (T h)) u" "set (handles tb) \<subseteq> hs" "consistent tb T rows" "r \<in> set rows" "clean_key k"
    "key_eq (sr_primary_key r) k" "may_shrink tb T (sr_row r) k" "row_ok tb \<lparr>sr_primary_key = pk, sr_row = row'\<rparr>"
    "key_eq pk k \<or> (\<forall>x \<in> set rows. \<not> key_eq (sr_primary_key x) pk)"
    "no_conflict (tb_indexes tb) (map (T \<circ> handle_of) (tb_indexes tb)) row' k"
    "has_room tb (pruned tb (sr_row r) k T) row' pk bytes" "deserialize bytes (tb_schema tb) = Inr row'"
  shows "wp (andthen (remove_row_and_indexes tb (next_transaction_id s) k (sr_row r)) (write_row_and_indexes tb (next_transaction_id s) pk row' bytes))
    (\<lambda>_ w. \<exists>T' rows1 rows'. wooded s hs T' 0 w \<and> added r rows1 rows \<and> added \<lparr>sr_primary_key = pk, sr_row = row'\<rparr> rows1 rows'
      \<and> consistent tb T' rows' \<and> (\<forall>h. h \<notin> set (handles tb) \<longrightarrow> T' h = T h)) (\<lambda>_ _. False) u"
proof -
  let ?T = "pruned tb (sr_row r) k T" and ?r = "\<lparr>sr_primary_key = pk, sr_row = row'\<rparr>"
  have dist: "distinct (handles tb)" using assms(3) by (simp add: consistent_def)
  obtain rows1 where rows1: "added r rows1 rows" "consistent tb ?T rows1" "\<forall>x \<in> set rows1. \<not> key_eq (sr_primary_key x) (sr_primary_key r)"
    using consistent_pruned [OF assms(3-6)] wooded_sorted [OF assms(1)] assms(2) by blast
  have sub: "set rows1 \<subseteq> set rows" using added_set [OF rows1(1)] by blast
  have ck: "clean_key (sr_primary_key x)" if "x \<in> set rows" for x
    using assms(3) that extract_length(2) by (auto simp: consistent_def row_ok_def)
  have pk: "clean_key pk" using assms(8) extract_length(2) by (auto simp: row_ok_def)
  have free: "\<not> key_eq (sr_primary_key x) pk" if x: "x \<in> set rows1" for x
  proof (cases "key_eq pk k")
    case True
    have c: "clean_key (sr_primary_key x)" "clean_key (sr_primary_key r)" using ck sub x assms(4) by auto
    have kr: "key_eq k (sr_primary_key r)" by (rule ko.eq_sym [OF c(2) assms(5,6)])
    show ?thesis
      using ko.eq_trans [OF c(1) pk assms(5) _ True] ko.eq_trans [OF c(1) assms(5) c(2) _ kr] rows1(3) x by blast
  qed (use assms(9) sub x in blast)
  have noc: "no_conflict (tb_indexes tb) (map (?T \<circ> handle_of) (tb_indexes tb)) row' pk"
    by (rule no_conflict_without [OF assms(3) rows1(2,1,3) assms(4-6,10)])
  show ?thesis
  proof (rule wp_andthenI, rule wp_mono [OF wp_remove_row [OF assms(1-7)]])
    fix w :: "'a btrees_scheme" assume w: "wooded s hs ?T (\<Sum>h\<leftarrow>handles tb. need (T h)) w"
    have w0: "wooded s hs ?T (0 + (\<Sum>h\<leftarrow>handles tb. need (?T h))) w" using w pruned_need [OF dist] by simp
    show "wp (write_row_and_indexes tb (next_transaction_id s) pk row' bytes)
      (\<lambda>_ w. \<exists>T' rows1 rows'. wooded s hs T' 0 w \<and> added r rows1 rows \<and> added ?r rows1 rows'
        \<and> consistent tb T' rows' \<and> (\<forall>h. h \<notin> set (handles tb) \<longrightarrow> T' h = T h)) (\<lambda>_ _. False) w"
    proof (rule wp_mono [OF wp_write_row [OF w0 assms(2) rows1(2) assms(8) _ noc assms(11,12)]])
      show "\<forall>x \<in> set rows1. \<not> key_eq (sr_primary_key x) pk" using free by blast
    next
      fix v :: "'a btrees_scheme" assume "\<exists>T' rows'. wooded s hs T' 0 v \<and> grown_table tb ?T rows1 ?r T' rows'"
      then show "\<exists>T' rows1 rows'. wooded s hs T' 0 v \<and> added r rows1 rows \<and> added ?r rows1 rows'
        \<and> consistent tb T' rows' \<and> (\<forall>h. h \<notin> set (handles tb) \<longrightarrow> T' h = T h)"
        using rows1(1) pruned_at(3) [OF dist] unfolding grown_table_def by metis
    qed simp
  qed simp
qed

lemma wp_table_update:
  fixes s :: "'a btrees_scheme"
  assumes "at_rest m s" "forest m hs T" "set (handles tb) \<subseteq> hs" "consistent tb T rows" "r \<in> set rows" "clean_key k"
    "key_eq (sr_primary_key r) k" "is_single_int_auto_increment (tb_schema tb) = Inr single"
    "assign_checked (length (ts_columns (tb_schema tb))) new_values (sr_row r) = Inr row'"
    "clean_row row'" "row_storable row' (tb_schema tb)" "row_typed row' (tb_schema tb)" "extract_primary_key (tb_schema tb) row' = Inr pk"
    "key_eq pk k \<or> (\<forall>x \<in> set rows. \<not> key_eq (sr_primary_key x) pk)"
    "no_conflict (tb_indexes tb) (map (T \<circ> handle_of) (tb_indexes tb)) row' k" "may_shrink tb T (sr_row r) k"
    "\<forall>bytes. serialize row' (tb_schema tb) = Inr bytes \<longrightarrow> has_room tb (pruned tb (sr_row r) k T) row' pk bytes"
    "(\<Sum>h\<leftarrow>handles tb. need (T h)) \<le> spare m"
  shows "wp (table_update tb k new_values) (updated_row s hs tb T rows r \<lparr>sr_primary_key = pk, sr_row = row'\<rparr>) (\<lambda>_ _. False) s"
proof -
  let ?its = "map (T \<circ> handle_of) (tb_indexes tb)" and ?r = "\<lparr>sr_primary_key = pk, sr_row = row'\<rparr>"
  have h: "tb_tree tb \<in> hs" using assms(3) by (simp add: handles_def)
  note at = forest_tree_at [OF assms(1,2)]
  have tab: "table_at s tb (T (tb_tree tb)) rows" by (rule consistent_at [OF assms(4) at [OF h]])
  have idx: "indexes_at s tb ?its" by (rule consistent_indexes_at [OF assms(1-4)])
  have pos: "0 < total_pages s" using forest_pages [OF assms(2) h] assms(1) by (simp add: at_rest_def)
  obtain bytes where bytes: "serialize row' (tb_schema tb) = Inr bytes" using assms(12) serialize_ok by blast
  have des: "deserialize bytes (tb_schema tb) = Inr row'" using deserialize_serialize [OF bytes assms(11), of "[]"] by simp
  have rok: "row_ok tb ?r" and room: "has_room tb (pruned tb (sr_row r) k T) row' pk bytes" using assms(10,13,17) bytes by (simp_all add: row_ok_def)
  have pkc: "clean_key pk" by (rule primary_key_clean [OF assms(13,10)])
  let ?adv = "if \<not> key_eq pk k then sbind (is_single_int_auto_increment (tb_schema tb)) (\<lambda>single. if single then advance_auto_increment tb pk else Inr tb) else Inr tb"
  obtain n where adv: "?adv = Inr (tb\<lparr>tb_next := n\<rparr>)"
  proof (cases "\<not> key_eq pk k \<and> single")
    case True
    then show ?thesis using that advance_ok [of tb row' pk] assms(8,12,13) by auto
  qed (use that [of "tb_next tb"] assms(8) in auto)
  let ?put = "\<lambda>txn. andthen (remove_row_and_indexes tb txn k (sr_row r)) (andthen (write_row_and_indexes tb txn pk row' bytes)
      (andthen (wal_commit txn) (lift ?adv)))"
  have putting: "wp (bind wal_begin ?put) (updated_row s hs tb T rows r ?r) (\<lambda>_ _. False) u" if u: "kept s u" for u
  proof -
    have rest: "at_rest m u" using at_rest_reads [OF assms(1)] u by (simp add: kept_def)
    have "0 < total_pages u" using u pos by (simp add: kept_def reads_def readable_def)
    then have w: "wooded u hs T (\<Sum>h\<leftarrow>handles tb. need (T h)) (begun u)" by (rule begun_wooded [OF rest assms(2) _ assms(18)])
    have done': "wp (andthen (wal_commit (next_transaction_id u)) (lift ?adv)) (updated_row s hs tb T rows r ?r) (\<lambda>_ _. False) v"
      if v: "wooded u hs T' 0 v" "added r rows1 rows" "added ?r rows1 rows'" "consistent tb T' rows'" "\<forall>h. h \<notin> set (handles tb) \<longrightarrow> T' h = T h"
      for T' rows1 rows' and v :: "'a btrees_scheme"
    proof (rule wp_andthenI, rule wp_mono [OF wp_commit_forest [OF v(1)]], elim exE)
      fix x and m ws assume "lasting u hs T' m ws x"
      then have "lasting s hs T' m ws x" using lasting_kept [OF u pos] by simp
      then have "updated_row s hs tb T rows r ?r (tb\<lparr>tb_next := n\<rparr>) x" unfolding updated_row_def using v(2-5) by blast
      then show "wp (lift ?adv) (updated_row s hs tb T rows r ?r) (\<lambda>_ _. False) x" unfolding adv by (simp add: wp_lift)
    qed simp
    have "wp (andthen (remove_row_and_indexes tb (next_transaction_id u) k (sr_row r)) (write_row_and_indexes tb (next_transaction_id u) pk row' bytes))
      (\<lambda>_. wp (andthen (wal_commit (next_transaction_id u)) (lift ?adv)) (updated_row s hs tb T rows r ?r) (\<lambda>_ _. False)) (\<lambda>_ _. False) (begun u)"
      by (rule wp_mono [OF wp_replace_row [OF w assms(3-7,16) rok assms(14,15) room des]]) (elim exE conjE, rule done', assumption+)
    then have "wp (?put (next_transaction_id u)) (updated_row s hs tb T rows r ?r) (\<lambda>_ _. False) (begun u)" by (simp only: wp_andthen wp_andthen_fun)
    then show ?thesis by (simp add: wp_bind [of wal_begin] wp_wal_begin)
  qed
  have checks: "wp (andthen (check_all_unique_constraints tb row' k) (bind wal_begin ?put)) (updated_row s hs tb T rows r ?r) (\<lambda>_ _. False) u"
    if u: "kept s u" for u
  proof (rule wp_andthenI, rule wp_mono [OF wp_check_all [OF kept_indexes [OF u idx] assms(10), of k]])
    show "kept u u" using kept_refl [OF kept_tree [OF u at [OF h]]] .
  qed (use putting kept_trans [OF u] assms(15) in auto)
  let ?rest = "\<lambda>taken. if taken \<noteq> None then throw (Runtime_error ''Table::update: new primary key value already exists'')
     else andthen (check_all_unique_constraints tb row' k) (bind wal_begin ?put)"
  have key: "wp (bind (if \<not> key_eq pk k then btree_search (tb_tree tb) pk else ret None) ?rest) (updated_row s hs tb T rows r ?r) (\<lambda>_ _. False) u"
    if u: "kept s u" for u
  proof (cases "key_eq pk k")
    case True
    then show ?thesis using checks [OF u] by (simp add: wp_bind wp_ret)
  next
    case False
    then have free: "\<forall>x \<in> set rows. \<not> key_eq (sr_primary_key x) pk" using assms(14) by blast
    have "wp (bind (btree_search (tb_tree tb) pk) ?rest) (updated_row s hs tb T rows r ?r) (\<lambda>_ _. False) u"
    proof (rule wp_bindI, rule wp_mono [OF wp_search_rows [OF kept_table [OF u tab] pkc]], elim conjE)
      fix taken :: "byte list option" and w :: "'a btrees_scheme"
      assume w: "kept u w" and t: "(taken = None) = (\<forall>x \<in> set rows. \<not> key_eq (sr_primary_key x) pk)"
      have none: "\<not> taken \<noteq> None" using t free by simp
      show "wp (?rest taken) (updated_row s hs tb T rows r ?r) (\<lambda>_ _. False) w"
        unfolding if_not_P [OF none] by (rule checks [OF kept_trans [OF u w]])
    qed simp
    then show ?thesis by (simp only: if_P [OF False])
  qed
  obtain e where e: "e \<in> set (t_entries (T (tb_tree tb)))" "sr_primary_key r = le_key e" "deserialize (le_value e) (tb_schema tb) = Inr (sr_row r)"
    using table_atD(3) [OF tab assms(5)] by blast
  show ?thesis
    unfolding table_update_def
  proof (rule wp_bindI, rule wp_mono [OF wp_btree_search [OF at [OF h] assms(6)]], goal_cases)
    case (1 f u)
    then have u: "kept s u" using kept_query [OF at [OF h]] by blast
    have some: "f = Some (le_value e)" using 1 e(1,2) assms(7) by auto
    show ?case unfolding some option.case e(3) bind_lift assms(9,13) Let_def bytes by (rule key [OF u])
  qed simp
qed

section \<open>Properties\<close>

text \<open>
  Property C12. Update by primary key, on a database at rest with a consistent table. When the assignments
  give a row that fits the schema, its key is the old one or taken by no row, and no unique index
  holds its tuple under another key, then \<open>update\<close> replaces the row: the old one is gone, the new one
  stands at its place, also when its key moved, every index holds exactly the tuples of the rows again, and every
  other tree is as it was. As for deletion, the removal of the old entries must leave every leaf at least half full, or be
  from a root (\<open>may_shrink\<close>): redistribution and merging are excluded. The new entries must have room, in the
  trees without the old ones, and the file must be able to grow by the pages they may need.
\<close>

theorem table_update_correct:
  fixes s :: "'a btrees_scheme"
  assumes "at_rest m s" "forest m hs T" "set (handles tb) \<subseteq> hs" "consistent tb T rows" "r \<in> set rows" "clean_key k"
    "key_eq (sr_primary_key r) k" "is_single_int_auto_increment (tb_schema tb) = Inr single"
    "assign_checked (length (ts_columns (tb_schema tb))) new_values (sr_row r) = Inr row'"
    "clean_row row'" "row_storable row' (tb_schema tb)" "row_typed row' (tb_schema tb)" "extract_primary_key (tb_schema tb) row' = Inr pk"
    "key_eq pk k \<or> (\<forall>x \<in> set rows. \<not> key_eq (sr_primary_key x) pk)"
    "no_conflict (tb_indexes tb) (map (T \<circ> handle_of) (tb_indexes tb)) row' k" "may_shrink tb T (sr_row r) k"
    "\<forall>bytes. serialize row' (tb_schema tb) = Inr bytes \<longrightarrow> has_room tb (pruned tb (sr_row r) k T) row' pk bytes"
    "(\<Sum>h\<leftarrow>handles tb. need (T h)) \<le> spare m"
  shows "wp (table_update tb k new_values) (\<lambda>tb' w. (\<exists>n. tb' = tb\<lparr>tb_next := n\<rparr>) \<and> (\<exists>m' T' rows1 rows'. at_rest m' w \<and> forest m' hs T'
      \<and> consistent tb' T' rows' \<and> added r rows1 rows \<and> added \<lparr>sr_primary_key = pk, sr_row = row'\<rparr> rows1 rows'
      \<and> (\<forall>h. h \<notin> set (handles tb) \<longrightarrow> T' h = T h))) (\<lambda>_ _. False) s"
proof (rule wp_mono [OF wp_table_update [OF assms]])
  fix tb' and w :: "'a btrees_scheme" assume "updated_row s hs tb T rows r \<lparr>sr_primary_key = pk, sr_row = row'\<rparr> tb' w"
  then obtain n m1 ws T' rows1 rows' where u: "tb' = tb\<lparr>tb_next := n\<rparr>" "lasting s hs T' m1 ws w" "added r rows1 rows"
    "added \<lparr>sr_primary_key = pk, sr_row = row'\<rparr> rows1 rows'" "consistent tb T' rows'" "\<forall>h. h \<notin> set (handles tb) \<longrightarrow> T' h = T h"
    by (auto simp: updated_row_def)
  have "consistent tb' T' rows'" using u(1,5) consistent_next [where tb = tb and n = n] by simp
  moreover obtain m' where "at_rest m' w" "forest m' hs T'" using lasting_at_rest [OF u(2)] by blast
  ultimately show "(\<exists>n. tb' = tb\<lparr>tb_next := n\<rparr>) \<and> (\<exists>m' T' rows1 rows'. at_rest m' w \<and> forest m' hs T'
      \<and> consistent tb' T' rows' \<and> added r rows1 rows \<and> added \<lparr>sr_primary_key = pk, sr_row = row'\<rparr> rows1 rows'
      \<and> (\<forall>h. h \<notin> set (handles tb) \<longrightarrow> T' h = T h))"
    using u(1,3,4,6) by blast
qed simp

text \<open>The second sample row moves to another key and another value.\<close>

theorem table_update_correct_witness:
  "wp (table_update sample_tb [IntV 2] [(0, IntV 5), (1, IntV 30)]) (\<lambda>tb w. \<exists>m T rows. at_rest m w \<and> forest m {..<2} T \<and> consistent tb T rows
      \<and> set rows = {\<lparr>sr_primary_key = [IntV 1], sr_row = int_row (IntV 1) (IntV 10)\<rparr>, \<lparr>sr_primary_key = [IntV 5], sr_row = int_row (IntV 5) (IntV 30)\<rparr>})
    (\<lambda>_ _. False) sample_state"
proof -
  have rest: "at_rest (leaves_mem sample_trees) sample_state" using sample_forest(1) by (simp add: checkpointed_def)
  let ?r1 = "\<lparr>sr_primary_key = [IntV 1], sr_row = int_row (IntV 1) (IntV 10)\<rparr>" and ?r2 = "\<lparr>sr_primary_key = [IntV 2], sr_row = int_row (IntV 2) (IntV 20)\<rparr>"
    and ?new = "int_row (IntV 5) (IntV 30)" and ?s = "tb_schema sample_tb"
  note defs = sample_tb_def sample_schema_def int_row_def int_column_def row_get_def is_null_def
  have rows: "sample_results = [?r1, ?r2]" by (simp add: sample_results_def sample_rows_def)
  have r: "?r2 \<in> set sample_results" "clean_key [IntV 2]" "key_eq (sr_primary_key ?r2) [IntV 2]" unfolding rows by (simp_all add: clean_value_def)
  have assign: "assign_checked (length (ts_columns ?s)) [(0, IntV 5), (1, IntV 30)] (sr_row ?r2) = Inr ?new"
    by (simp add: defs row_set_def row_size_def)
  have row: "row_storable ?new ?s" "row_typed ?new ?s" "extract_primary_key ?s ?new = Inr [IntV 5]"
    by (simp_all add: defs row_storable_def storable_def row_typed_def accepts_def extract_primary_key_def)
  have free: "key_eq [IntV 5] [IntV 2] \<or> (\<forall>x \<in> set sample_results. \<not> key_eq (sr_primary_key x) [IntV 5])" unfolding rows by simp
  have noc: "no_conflict (tb_indexes sample_tb) (map (leaves_forest sample_trees \<circ> handle_of) (tb_indexes sample_tb)) ?new [IntV 2]"
    by (simp add: defs no_conflict_def extract_indexed_value_def unique_conflict_def index_pairs_def columns_of_def sample_unique_def handle_of_def
        leaves_forest_def sample_trees_def sample_index_entries_def sample_rows_def)
  have shrink: "may_shrink sample_tb (leaves_forest sample_trees) (sr_row ?r2) [IntV 2]"
    by (simp add: may_shrink_def keeps_half_def leaves_forest_def)
  have room: "\<forall>bytes. serialize ?new ?s = Inr bytes \<longrightarrow> has_room sample_tb (pruned sample_tb (sr_row ?r2) [IntV 2] (leaves_forest sample_trees)) ?new [IntV 5] bytes"
    by (simp add: defs serialize_def row_size_def bitmap_size_def sbind_Inr_conv encode_int_def has_room_def fits_in_def pruned_def drop_entry_def prune_def
        room_for_def entry_size_def leaf_cell_def leaves_forest_def sample_trees_def sample_row_entries_def sample_rows_def
        short_key_def key_fits_def value_fits_def key_encode_def leaf_bytes_def capacity_def PAGE_SIZE_def NODE_HEADER_SIZE_def
        entry_for_def extract_indexed_value_def is_indexable_def sample_unique_def handle_of_def sample_index_entries_def)
  have only: "set rows' = {?r1, \<lparr>sr_primary_key = [IntV 5], sr_row = ?new\<rparr>}"
    if "added ?r2 rows1 sample_results" "added \<lparr>sr_primary_key = [IntV 5], sr_row = ?new\<rparr> rows1 rows'" for rows1 rows'
  proof -
    have "rows1 = [?r1]" using that(1) unfolding rows added_def by (auto simp: Cons_eq_append_conv)
    then show ?thesis using added_set [OF that(2)] by auto
  qed
  show ?thesis
    by (rule wp_mono [OF table_update_correct [OF rest sample_forest(2) sample_consistent(2,1) r sample_insert_clean(1) assign sample_insert_clean(3) row free noc shrink room sample_forest(3)]])
      (use only in \<open>blast, simp\<close>)
qed

end
