(* ===== verification/Tokenizer.thy ===== *)
theory Tokenizer
  imports Prelude
begin

text \<open>
  \<open>Tokenizer\<close> of \<open>src/parser/tokenizer.cpp\<close>: SQL text to tokens. The unread input stands
  for \<open>pos_\<close>, a pair for \<open>line_\<close> and \<open>col_\<close>. The character classes are those of the C
  locale, in which the program runs.
\<close>

section \<open>Tokens\<close>

datatype (plugins only: code size) token_type =
    T_SELECT | T_FROM | T_WHERE | T_INSERT | T_INTO | T_VALUES | T_UPDATE | T_SET | T_DELETE | T_CREATE | T_TABLE
  | T_DROP | T_USE | T_SHOW | T_DATABASES | T_DATABASE | T_TABLES | T_DESCRIBE | T_INDEX | T_UNIQUE | T_AND
  | T_OR | T_NOT | T_NULL_KW | T_IS | T_LIKE | T_ORDER | T_BY | T_ASC | T_DESC | T_GROUP | T_HAVING | T_LIMIT
  | T_JOIN | T_INNER | T_LEFT | T_RIGHT | T_ON | T_PRIMARY | T_KEY | T_AUTO_INCREMENT | T_CHECK | T_COUNT
  | T_MAX | T_MIN | T_AVG | T_MEDIAN | T_IN | T_EXISTS | T_DEFAULT | T_FOREIGN | T_REFERENCES | T_CASCADE
  | T_RESTRICT | T_INT_KW | T_FLOAT_KW | T_BOOLEAN_KW | T_VARCHAR_KW | T_TRUE_KW | T_FALSE_KW
  | T_INTEGER_LITERAL | T_FLOAT_LITERAL | T_STRING_LITERAL | T_IDENTIFIER | T_LPAREN | T_RPAREN | T_COMMA
  | T_SEMICOLON | T_STAR | T_DOT | T_EQ | T_NEQ | T_LT | T_GT | T_LTE | T_GTE | T_PLUS | T_MINUS | T_END_OF_FILE

record token =
  tk_type :: token_type
  tk_value :: string
  tk_line :: nat
  tk_col :: nat

definition token_type_names :: "(token_type \<times> string) list" where
  "token_type_names =
    [(T_SELECT, ''SELECT''), (T_FROM, ''FROM''), (T_WHERE, ''WHERE''), (T_INSERT, ''INSERT''),
     (T_INTO, ''INTO''), (T_VALUES, ''VALUES''), (T_UPDATE, ''UPDATE''), (T_SET, ''SET''),
     (T_DELETE, ''DELETE''), (T_CREATE, ''CREATE''), (T_TABLE, ''TABLE''), (T_DROP, ''DROP''),
     (T_USE, ''USE''), (T_SHOW, ''SHOW''), (T_DATABASES, ''DATABASES''), (T_DATABASE, ''DATABASE''),
     (T_TABLES, ''TABLES''), (T_DESCRIBE, ''DESCRIBE''), (T_INDEX, ''INDEX''), (T_UNIQUE, ''UNIQUE''),
     (T_AND, ''AND''), (T_OR, ''OR''), (T_NOT, ''NOT''), (T_NULL_KW, ''NULL''),
     (T_IS, ''IS''), (T_LIKE, ''LIKE''), (T_ORDER, ''ORDER''), (T_BY, ''BY''),
     (T_GROUP, ''GROUP''), (T_HAVING, ''HAVING''), (T_ASC, ''ASC''), (T_DESC, ''DESC''),
     (T_LIMIT, ''LIMIT''), (T_JOIN, ''JOIN''), (T_INNER, ''INNER''), (T_LEFT, ''LEFT''),
     (T_RIGHT, ''RIGHT''), (T_ON, ''ON''), (T_PRIMARY, ''PRIMARY''), (T_KEY, ''KEY''),
     (T_AUTO_INCREMENT, ''AUTO_INCREMENT''), (T_CHECK, ''CHECK''), (T_COUNT, ''COUNT''), (T_MAX, ''MAX''),
     (T_MIN, ''MIN''), (T_AVG, ''AVG''), (T_MEDIAN, ''MEDIAN''), (T_IN, ''IN''),
     (T_EXISTS, ''EXISTS''), (T_DEFAULT, ''DEFAULT''), (T_FOREIGN, ''FOREIGN''), (T_REFERENCES, ''REFERENCES''),
     (T_CASCADE, ''CASCADE''), (T_RESTRICT, ''RESTRICT''), (T_INT_KW, ''INT''), (T_FLOAT_KW, ''FLOAT''),
     (T_BOOLEAN_KW, ''BOOLEAN''), (T_VARCHAR_KW, ''VARCHAR''), (T_TRUE_KW, ''TRUE''), (T_FALSE_KW, ''FALSE''),
     (T_INTEGER_LITERAL, ''INTEGER_LITERAL''), (T_FLOAT_LITERAL, ''FLOAT_LITERAL''), (T_STRING_LITERAL, ''STRING_LITERAL''), (T_IDENTIFIER, ''IDENTIFIER''),
     (T_LPAREN, ''(''), (T_RPAREN, '')''), (T_COMMA, '',''), (T_SEMICOLON, '';''),
     (T_STAR, ''*''), (T_DOT, ''.''), (T_EQ, ''=''), (T_NEQ, ''!=''),
     (T_LT, ''<''), (T_GT, ''>''), (T_LTE, ''<=''), (T_GTE, ''>=''),
     (T_PLUS, ''+''), (T_MINUS, ''-''), (T_END_OF_FILE, ''EOF'')]"

definition token_type_name :: "token_type \<Rightarrow> string" where
  "token_type_name t = (case map_of token_type_names t of Some n \<Rightarrow> n | None \<Rightarrow> ''UNKNOWN'')"

section \<open>Characters\<close>

definition is_space :: "char \<Rightarrow> bool" where
  "is_space c = (of_char c = (32 :: nat) \<or> 9 \<le> (of_char c :: nat) \<and> of_char c \<le> (13 :: nat))"

definition is_digit :: "char \<Rightarrow> bool" where
  "is_digit c = (48 \<le> (of_char c :: nat) \<and> of_char c \<le> (57 :: nat))"

definition is_upper :: "char \<Rightarrow> bool" where
  "is_upper c = (65 \<le> (of_char c :: nat) \<and> of_char c \<le> (90 :: nat))"

definition is_lower :: "char \<Rightarrow> bool" where
  "is_lower c = (97 \<le> (of_char c :: nat) \<and> of_char c \<le> (122 :: nat))"

definition is_alpha :: "char \<Rightarrow> bool" where
  "is_alpha c = (is_upper c \<or> is_lower c)"

definition is_ident :: "char \<Rightarrow> bool" where
  "is_ident c = (is_alpha c \<or> is_digit c \<or> c = CHR ''_'')"

definition to_upper :: "char \<Rightarrow> char" where
  "to_upper c = (if is_lower c then char_of (of_char c - 32 :: nat) else c)"

section \<open>Keywords\<close>

definition keyword_table :: "(string \<times> token_type) list" where
  "keyword_table =
    [(''SELECT'', T_SELECT), (''FROM'', T_FROM), (''WHERE'', T_WHERE), (''INSERT'', T_INSERT),
     (''INTO'', T_INTO), (''VALUES'', T_VALUES), (''UPDATE'', T_UPDATE), (''SET'', T_SET),
     (''DELETE'', T_DELETE), (''CREATE'', T_CREATE), (''TABLE'', T_TABLE), (''DROP'', T_DROP),
     (''USE'', T_USE), (''SHOW'', T_SHOW), (''DATABASES'', T_DATABASES), (''DATABASE'', T_DATABASE),
     (''TABLES'', T_TABLES), (''DESCRIBE'', T_DESCRIBE), (''INDEX'', T_INDEX), (''UNIQUE'', T_UNIQUE),
     (''AND'', T_AND), (''OR'', T_OR), (''NOT'', T_NOT), (''NULL'', T_NULL_KW),
     (''IS'', T_IS), (''LIKE'', T_LIKE), (''ORDER'', T_ORDER), (''BY'', T_BY),
     (''GROUP'', T_GROUP), (''HAVING'', T_HAVING), (''ASC'', T_ASC), (''DESC'', T_DESC),
     (''LIMIT'', T_LIMIT), (''JOIN'', T_JOIN), (''INNER'', T_INNER), (''LEFT'', T_LEFT),
     (''RIGHT'', T_RIGHT), (''ON'', T_ON), (''PRIMARY'', T_PRIMARY), (''KEY'', T_KEY),
     (''AUTO_INCREMENT'', T_AUTO_INCREMENT), (''CHECK'', T_CHECK), (''COUNT'', T_COUNT), (''MAX'', T_MAX),
     (''MIN'', T_MIN), (''AVG'', T_AVG), (''MEDIAN'', T_MEDIAN), (''IN'', T_IN),
     (''EXISTS'', T_EXISTS), (''DEFAULT'', T_DEFAULT), (''FOREIGN'', T_FOREIGN), (''REFERENCES'', T_REFERENCES),
     (''CASCADE'', T_CASCADE), (''RESTRICT'', T_RESTRICT), (''INT'', T_INT_KW), (''FLOAT'', T_FLOAT_KW),
     (''BOOLEAN'', T_BOOLEAN_KW), (''VARCHAR'', T_VARCHAR_KW), (''TRUE'', T_TRUE_KW), (''FALSE'', T_FALSE_KW)]"

definition keyword_or_identifier :: "string \<Rightarrow> token_type" where
  "keyword_or_identifier word = (case map_of keyword_table (map to_upper word) of
     Some t \<Rightarrow> t | None \<Rightarrow> T_IDENTIFIER)"

section \<open>Scanning\<close>

type_synonym position = "nat \<times> nat"

definition QUOTE :: char where "QUOTE = CHR 0x27"

definition NEWLINE :: char where "NEWLINE = CHR 0x0A"

definition advance :: "char \<Rightarrow> position \<Rightarrow> position" where
  "advance c p = (if c = NEWLINE then (fst p + 1, 1) else (fst p, snd p + 1))"

fun skip_comment :: "string \<Rightarrow> position \<Rightarrow> string \<times> position" where
  "skip_comment [] p = ([], p)"
| "skip_comment (c # cs) p = (if c = NEWLINE then (c # cs, p) else skip_comment cs (advance c p))"

lemma skip_comment_length: "length (fst (skip_comment cs p)) \<le> length cs"
  by (induction cs p rule: skip_comment.induct) auto

lemma dash_not_newline [simp]: "CHR ''-'' \<noteq> NEWLINE"
  by (simp add: NEWLINE_def)

function skip_whitespace_and_comments :: "string \<Rightarrow> position \<Rightarrow> string \<times> position" where
  "skip_whitespace_and_comments cs p = (case cs of
     [] \<Rightarrow> ([], p)
   | c # cs' \<Rightarrow>
       if is_space c then skip_whitespace_and_comments cs' (advance c p)
       else if c = CHR ''-'' \<and> cs' \<noteq> [] \<and> hd cs' = CHR ''-''
         then (let (cs'', p') = skip_comment cs p in skip_whitespace_and_comments cs'' p')
       else (cs, p))"
  by pat_completeness auto

termination
proof (relation "measure (length \<circ> fst)", goal_cases)
  case (3 cs p c cs' r d q)
  then show ?case using skip_comment_length [of cs' "advance (CHR ''-'') p"] by simp
qed auto

declare skip_whitespace_and_comments.simps [simp del]

definition mk_token :: "token_type \<Rightarrow> string \<Rightarrow> position \<Rightarrow> token" where
  "mk_token t v p = \<lparr>tk_type = t, tk_value = v, tk_line = fst p, tk_col = snd p\<rparr>"

text \<open>A doubled quote is a quote of the string, a single one its end.\<close>

fun string_chars :: "exn \<Rightarrow> string \<Rightarrow> position \<Rightarrow> exn + string \<times> string \<times> position" where
  "string_chars e [] p = Inl e"
| "string_chars e [c] p = (if c = QUOTE then Inr ([], [], advance c p) else Inl e)"
| "string_chars e (c # d # cs) p =
     (if c = QUOTE then
        if d = QUOTE then sbind (string_chars e cs (advance d (advance c p))) (\<lambda>(v, r). Inr (QUOTE # v, r))
        else Inr ([], d # cs, advance c p)
      else sbind (string_chars e (d # cs) (advance c p)) (\<lambda>(v, r). Inr (c # v, r)))"

definition read_string_literal :: "string \<Rightarrow> position \<Rightarrow> exn + token \<times> string \<times> position" where
  "read_string_literal cs start = sbind (string_chars (Runtime_error
       (''Tokenizer: unterminated string literal at line '' @ to_string (fst start) @ '' col '' @ to_string (snd start)))
       cs start) (\<lambda>(v, cs, p). Inr (mk_token T_STRING_LITERAL v start, cs, p))"

text \<open>The second dot ends the number.\<close>

fun number_chars :: "bool \<Rightarrow> string \<Rightarrow> position \<Rightarrow> string \<times> bool \<times> string \<times> position" where
  "number_chars is_float [] p = ([], is_float, [], p)"
| "number_chars is_float (c # cs) p =
     (if is_digit c then (let (v, r) = number_chars is_float cs (advance c p) in (c # v, r))
      else if c = CHR ''.'' \<and> \<not> is_float then (let (v, r) = number_chars True cs (advance c p) in (c # v, r))
      else ([], is_float, c # cs, p))"

definition read_number :: "string \<Rightarrow> position \<Rightarrow> token \<times> string \<times> position" where
  "read_number cs start = (let (v, is_float, cs, p) = number_chars False cs start in
     (mk_token (if is_float then T_FLOAT_LITERAL else T_INTEGER_LITERAL) v start, cs, p))"

fun ident_chars :: "string \<Rightarrow> position \<Rightarrow> string \<times> string \<times> position" where
  "ident_chars [] p = ([], [], p)"
| "ident_chars (c # cs) p = (if is_ident c then (let (v, r) = ident_chars cs (advance c p) in (c # v, r)) else ([], c # cs, p))"

definition read_identifier_or_keyword :: "string \<Rightarrow> position \<Rightarrow> token \<times> string \<times> position" where
  "read_identifier_or_keyword cs start = (let (v, cs, p) = ident_chars cs start in
     (mk_token (keyword_or_identifier v) v start, cs, p))"

definition operators :: "(char \<times> token_type) list" where
  "operators = [(CHR ''='', T_EQ), (CHR ''<'', T_LT), (CHR ''>'', T_GT), (CHR ''+'', T_PLUS), (CHR ''-'', T_MINUS),
     (CHR ''('', T_LPAREN), (CHR '')'', T_RPAREN), (CHR '','', T_COMMA), (CHR '';'', T_SEMICOLON),
     (CHR ''*'', T_STAR), (CHR ''.'', T_DOT)]"

definition read_operator :: "char \<Rightarrow> string \<Rightarrow> position \<Rightarrow> exn + token \<times> string \<times> position" where
  "read_operator first cs p = (let start = (fst p, snd p - 1) in
     if first = CHR ''!'' \<and> cs \<noteq> [] \<and> hd cs = CHR ''='' then Inr (mk_token T_NEQ ''!='' start, tl cs, advance (hd cs) p)
     else if first = CHR ''<'' \<and> cs \<noteq> [] \<and> hd cs = CHR ''='' then Inr (mk_token T_LTE ''<='' start, tl cs, advance (hd cs) p)
     else if first = CHR ''>'' \<and> cs \<noteq> [] \<and> hd cs = CHR ''='' then Inr (mk_token T_GTE ''>='' start, tl cs, advance (hd cs) p)
     else case map_of operators first of
       Some t \<Rightarrow> Inr (mk_token t [first] start, cs, p)
     | None \<Rightarrow> Inl (Runtime_error (''Tokenizer: unknown character '' @ [QUOTE, first, QUOTE]
         @ '' at line '' @ to_string (fst start) @ '' col '' @ to_string (snd start))))"

definition next_token :: "string \<Rightarrow> position \<Rightarrow> exn + token \<times> string \<times> position" where
  "next_token cs p = (let (cs, p) = skip_whitespace_and_comments cs p in case cs of
     [] \<Rightarrow> Inr (mk_token T_END_OF_FILE [] p, [], p)
   | c # cs' \<Rightarrow>
       if c = QUOTE then read_string_literal cs' (advance c p)
       else if is_digit c then Inr (read_number cs p)
       else if is_alpha c \<or> c = CHR ''_'' then Inr (read_identifier_or_keyword cs p)
       else read_operator c cs' (advance c p))"

section \<open>Every token eats input\<close>

lemma string_chars_length: "string_chars e cs p = Inr (v, cs', p') \<Longrightarrow> length cs' < length cs"
  by (induction e cs p arbitrary: v rule: string_chars.induct)
    (fastforce simp: sbind_Inr_conv split: if_splits)+

lemma number_chars_length: "length (fst (snd (snd (number_chars f cs p)))) \<le> length cs"
  by (induction f cs p rule: number_chars.induct) (auto simp: Let_def split: prod.splits)

lemma ident_chars_length: "length (fst (snd (ident_chars cs p))) \<le> length cs"
  by (induction cs p rule: ident_chars.induct) (auto simp: Let_def split: prod.splits)

lemma skip_length: "length (fst (skip_whitespace_and_comments cs p)) \<le> length cs"
proof (induction cs p rule: skip_whitespace_and_comments.induct)
  case (1 cs p)
  show ?case
  proof (cases cs)
    case (Cons c cs')
    obtain d q where d: "skip_comment cs p = (d, q)" by (cases "skip_comment cs p")
    then have "length d \<le> length cs" using skip_comment_length [of cs p] by simp
    moreover have "length (fst (skip_whitespace_and_comments d q)) \<le> length d"
      if "\<not> is_space c" "c = CHR ''-'' \<and> cs' \<noteq> [] \<and> hd cs' = CHR ''-''"
      using "1.IH"(2) [OF Cons that refl d [symmetric]] by simp
    moreover have "length (fst (skip_whitespace_and_comments cs' (advance c p))) \<le> length cs'" if "is_space c"
      using "1.IH"(1) [OF Cons that] by simp
    ultimately show ?thesis
      using Cons d by (subst skip_whitespace_and_comments.simps) (auto simp del: skip_comment.simps)
  qed (simp add: skip_whitespace_and_comments.simps)
qed

lemma next_token_eats:
  assumes "next_token cs p = Inr (t, cs', p')" "tk_type t \<noteq> T_END_OF_FILE"
  shows "length cs' < length cs"
proof -
  obtain d q where d: "skip_whitespace_and_comments cs p = (d, q)" by (cases "skip_whitespace_and_comments cs p")
  have le: "length d \<le> length cs" using skip_length [of cs p] d by simp
  obtain c ds where c: "d = c # ds" using assms d by (cases d) (auto simp: next_token_def mk_token_def)
  have "length cs' < length d"
  proof -
    have "length cs' \<le> length ds" if "c = QUOTE"
      using assms(1) d c that string_chars_length [of _ ds]
      by (fastforce simp: next_token_def read_string_literal_def sbind_Inr_conv)
    moreover have "length cs' \<le> length ds" if "c \<noteq> QUOTE" "is_digit c"
      using assms(1) d c that number_chars_length [of False ds "advance c q"]
      by (auto simp: next_token_def read_number_def Let_def split: prod.splits)
    moreover have "length cs' \<le> length ds" if "c \<noteq> QUOTE" "\<not> is_digit c" "is_alpha c \<or> c = CHR ''_''"
      using assms(1) d c that ident_chars_length [of ds "advance c q"]
      by (auto simp: next_token_def read_identifier_or_keyword_def is_ident_def Let_def split: prod.splits)
    moreover have "length cs' \<le> length ds" if "c \<noteq> QUOTE" "\<not> is_digit c" "\<not> (is_alpha c \<or> c = CHR ''_'')"
      using assms(1) d c that
      by (auto simp: next_token_def read_operator_def Let_def split: if_splits option.splits)
    ultimately show ?thesis using c by fastforce
  qed
  with le show ?thesis by simp
qed

section \<open>The token list\<close>

function tokenize_from :: "string \<Rightarrow> position \<Rightarrow> exn + token list" where
  "tokenize_from cs p = sbind (next_token cs p) (\<lambda>(t, cs, p).
     if tk_type t = T_END_OF_FILE then Inr [t]
     else sbind (tokenize_from cs p) (\<lambda>ts. Inr (t # ts)))"
  by pat_completeness auto
termination
  by (relation "measure (length \<circ> fst)") (auto dest: next_token_eats)

declare tokenize_from.simps [simp del]

definition tokenize :: "string \<Rightarrow> exn + token list" where
  "tokenize input = tokenize_from input (1, 1)"

section \<open>Printing tokens\<close>

definition escape :: "string \<Rightarrow> string" where
  "escape v = concat (map (\<lambda>c. if c = QUOTE then [QUOTE, QUOTE] else [c]) v)"

definition token_text :: "token \<Rightarrow> string" where
  "token_text t = (if tk_type t = T_STRING_LITERAL then QUOTE # escape (tk_value t) @ [QUOTE] else tk_value t)"

definition is_word :: "token \<Rightarrow> bool" where
  "is_word t \<longleftrightarrow> (\<exists>c cs. tk_value t = c # cs \<and> (is_alpha c \<or> c = CHR ''_''))
     \<and> list_all is_ident (tk_value t) \<and> tk_type t = keyword_or_identifier (tk_value t)"

definition is_number :: "token \<Rightarrow> bool" where
  "is_number t \<longleftrightarrow> (\<exists>ds es. ds \<noteq> [] \<and> list_all is_digit ds \<and> list_all is_digit es
     \<and> (tk_type t = T_INTEGER_LITERAL \<and> tk_value t = ds \<or> tk_type t = T_FLOAT_LITERAL \<and> tk_value t = ds @ CHR ''.'' # es))"

definition is_operator :: "token \<Rightarrow> bool" where
  "is_operator t \<longleftrightarrow> (tk_value t, tk_type t) \<in> set ((''!='', T_NEQ) # (''<='', T_LTE) # (''>='', T_GTE)
     # map (\<lambda>(c, t). ([c], t)) operators)"

definition writable :: "token \<Rightarrow> bool" where
  "writable t \<longleftrightarrow> tk_type t = T_STRING_LITERAL \<or> is_word t \<or> is_number t \<or> is_operator t"

definition same_token :: "token \<Rightarrow> token \<Rightarrow> bool" where
  "same_token t u \<longleftrightarrow> tk_type u = tk_type t \<and> tk_value u = tk_value t"

text \<open>A word keeps its type off the literals, so its text is its value.\<close>

lemma keyword_types: "keyword_or_identifier w \<notin> {T_STRING_LITERAL, T_END_OF_FILE}"
proof -
  have "\<forall>t \<in> snd ` set keyword_table. t \<notin> {T_STRING_LITERAL, T_END_OF_FILE}" by (simp add: keyword_table_def)
  then show ?thesis
    by (auto simp: keyword_or_identifier_def split: option.split dest!: map_of_SomeD)
qed

lemma string_chars_escape:
  assumes "c \<noteq> QUOTE"
  shows "\<exists>p'. string_chars e (escape v @ QUOTE # c # rest) p = Inr (v, c # rest, p')"
proof (induction v arbitrary: p)
  case Nil
  then show ?case using assms by (simp add: escape_def)
next
  case (Cons a v)
  show ?case
  proof (cases "a = QUOTE")
    case True
    then show ?thesis using Cons.IH [of "advance a (advance a p)"] by (auto simp: escape_def)
  next
    case False
    obtain d ds where d: "escape v @ QUOTE # c # rest = d # ds" by (cases "escape v @ QUOTE # c # rest") auto
    have "escape (a # v) @ QUOTE # c # rest = a # d # ds" using False d by (simp add: escape_def)
    then show ?thesis using Cons.IH [of "advance a p"] False d by auto
  qed
qed

lemma number_chars_digits:
  "list_all is_digit ds \<Longrightarrow> \<exists>p'. number_chars f (ds @ cs) p
     = (let (v, r) = number_chars f cs p' in (ds @ v, r))"
proof (induction ds arbitrary: p)
  case (Cons d ds)
  obtain p' where "number_chars f (ds @ cs) (advance d p) = (let (v, r) = number_chars f cs p' in (ds @ v, r))"
    using Cons.IH [of "advance d p"] Cons.prems unfolding list.pred_inject by blast
  then show ?case using Cons.prems by (intro exI [of _ p']) (auto split: prod.splits)
qed auto

lemma ident_chars_ident:
  "list_all is_ident ds \<Longrightarrow> \<exists>p'. ident_chars (ds @ cs) p = (let (v, r) = ident_chars cs p' in (ds @ v, r))"
proof (induction ds arbitrary: p)
  case (Cons d ds)
  obtain p' where "ident_chars (ds @ cs) (advance d p) = (let (v, r) = ident_chars cs p' in (ds @ v, r))"
    using Cons.IH [of "advance d p"] Cons.prems unfolding list.pred_inject by blast
  then show ?case using Cons.prems by (intro exI [of _ p']) (auto split: prod.splits)
qed auto

lemma skip_none:
  "\<not> is_space c \<Longrightarrow> c \<noteq> CHR ''-'' \<or> cs = [] \<or> hd cs \<noteq> CHR ''-'' \<Longrightarrow>
   skip_whitespace_and_comments (c # cs) p = (c # cs, p)"
  by (subst skip_whitespace_and_comments.simps) auto

lemma class_disjoint:
  "is_alpha c \<or> c = CHR ''_'' \<Longrightarrow> \<not> is_space c \<and> c \<noteq> CHR ''-'' \<and> c \<noteq> QUOTE \<and> \<not> is_digit c"
  "is_digit c \<Longrightarrow> \<not> is_space c \<and> c \<noteq> CHR ''-'' \<and> c \<noteq> QUOTE"
  by (auto simp: is_alpha_def is_upper_def is_lower_def is_space_def is_digit_def QUOTE_def)

lemma quote_facts [simp]: "\<not> is_space QUOTE" "QUOTE \<noteq> CHR ''-''" "CHR '' '' \<noteq> QUOTE" "\<not> is_digit (CHR '' '')"
  "\<not> is_ident (CHR '' '')" "is_space (CHR '' '')" "CHR '' '' \<noteq> CHR ''-''" "\<not> is_digit (CHR ''.'')"
  by (simp_all add: QUOTE_def is_space_def is_digit_def is_ident_def is_alpha_def is_upper_def is_lower_def)

lemma next_token_writable:
  assumes "writable t"
  shows "\<exists>u p'. next_token (token_text t @ CHR '' '' # rest) p = Inr (u, CHR '' '' # rest, p') \<and> same_token t u"
  using assms unfolding writable_def
proof (elim disjE)
  assume t: "tk_type t = T_STRING_LITERAL"
  have "\<exists>p'. string_chars e (escape (tk_value t) @ QUOTE # CHR '' '' # rest) (advance QUOTE p)
    = Inr (tk_value t, CHR '' '' # rest, p')" for e
    using string_chars_escape [of "CHR '' ''" e "tk_value t" rest "advance QUOTE p"] by auto
  from this [of "Runtime_error (''Tokenizer: unterminated string literal at line ''
      @ to_string (fst (advance QUOTE p)) @ '' col '' @ to_string (snd (advance QUOTE p)))"]
  show ?thesis
    using t skip_none [of QUOTE]
    by (auto simp: next_token_def token_text_def read_string_literal_def mk_token_def same_token_def)
next
  assume w: "is_word t"
  then obtain c cs where c: "tk_value t = c # cs" "is_alpha c \<or> c = CHR ''_''" by (auto simp: is_word_def)
  have tt: "token_text t = tk_value t" using w keyword_types [of "tk_value t"] by (auto simp: token_text_def is_word_def)
  obtain p' where "ident_chars (tk_value t @ CHR '' '' # rest) p = (tk_value t, CHR '' '' # rest, p')"
    using ident_chars_ident [of "tk_value t" "CHR '' '' # rest" p] w by (auto simp: is_word_def)
  moreover have "next_token (token_text t @ CHR '' '' # rest) p
    = Inr (read_identifier_or_keyword (tk_value t @ CHR '' '' # rest) p)"
    using class_disjoint(1) [OF c(2)] c skip_none [of c] unfolding tt by (simp add: next_token_def)
  ultimately show ?thesis
    using w by (simp add: read_identifier_or_keyword_def mk_token_def same_token_def is_word_def)
next
  assume "is_number t"
  then obtain ds es where n: "ds \<noteq> []" "list_all is_digit ds" "list_all is_digit es"
    "tk_type t = T_INTEGER_LITERAL \<and> tk_value t = ds \<or> tk_type t = T_FLOAT_LITERAL \<and> tk_value t = ds @ CHR ''.'' # es"
    by (auto simp: is_number_def)
  then obtain c cs where c: "tk_value t = c # cs" "is_digit c" by (cases ds) auto
  have tt: "token_text t = tk_value t" using n(4) by (auto simp: token_text_def)
  have step: "next_token (token_text t @ CHR '' '' # rest) p = Inr (read_number (tk_value t @ CHR '' '' # rest) p)"
    using class_disjoint(2) [OF c(2)] c skip_none [of c] unfolding tt by (simp add: next_token_def)
  from n(4) show ?thesis
  proof (elim disjE conjE)
    assume i: "tk_type t = T_INTEGER_LITERAL" "tk_value t = ds"
    then show ?thesis
      using number_chars_digits [OF n(2), of False "CHR '' '' # rest" p] step
      by (auto simp: read_number_def mk_token_def same_token_def)
  next
    assume f: "tk_type t = T_FLOAT_LITERAL" "tk_value t = ds @ CHR ''.'' # es"
    obtain q where q: "number_chars False (ds @ CHR ''.'' # es @ CHR '' '' # rest) p
      = (let (v, r) = number_chars False (CHR ''.'' # es @ CHR '' '' # rest) q in (ds @ v, r))"
      using number_chars_digits [OF n(2)] by blast
    obtain q' where "number_chars True (es @ CHR '' '' # rest) (advance (CHR ''.'') q)
      = (let (v, r) = number_chars True (CHR '' '' # rest) q' in (es @ v, r))"
      using number_chars_digits [OF n(3)] by blast
    with q f step show ?thesis
      by (auto simp: read_number_def mk_token_def same_token_def)
  qed
next
  assume "is_operator t"
  then show ?thesis
    by (cases t) (auto simp: is_operator_def operators_def token_text_def next_token_def read_operator_def skip_none
      is_space_def is_digit_def is_alpha_def is_upper_def is_lower_def QUOTE_def mk_token_def same_token_def Let_def)
qed

lemma next_token_space: "next_token (CHR '' '' # cs) p = next_token cs (advance (CHR '' '') p)"
  by (simp add: next_token_def skip_whitespace_and_comments.simps [of "CHR '' '' # cs"])

section \<open>Properties\<close>

lemma writable_type: "writable t \<Longrightarrow> tk_type t \<noteq> T_END_OF_FILE"
  using keyword_types [of "tk_value t"]
  by (auto simp: writable_def is_word_def is_number_def is_operator_def operators_def)

lemma tokenize_from_space: "tokenize_from (CHR '' '' # cs) p = tokenize_from cs (advance (CHR '' '') p)"
  by (simp add: tokenize_from.simps [of "CHR '' '' # cs"] tokenize_from.simps [of cs] next_token_space)

lemma tokenize_from_print:
  "list_all writable ts \<Longrightarrow> \<exists>us. tokenize_from (concat (map (\<lambda>t. token_text t @ '' '') ts)) p = Inr us
     \<and> map (\<lambda>t. (tk_type t, tk_value t)) us = map (\<lambda>t. (tk_type t, tk_value t)) ts @ [(T_END_OF_FILE, [])]"
proof (induction ts arbitrary: p)
  case Nil
  then show ?case
    by (simp add: tokenize_from.simps next_token_def skip_whitespace_and_comments.simps mk_token_def)
next
  case (Cons t ts)
  let ?rest = "concat (map (\<lambda>t. token_text t @ '' '') ts)"
  obtain u p' where u: "next_token (token_text t @ CHR '' '' # ?rest) p = Inr (u, CHR '' '' # ?rest, p')" "same_token t u"
    using next_token_writable [of t ?rest p] Cons.prems by auto
  obtain us where us: "tokenize_from ?rest (advance (CHR '' '') p') = Inr us"
    "map (\<lambda>t. (tk_type t, tk_value t)) us = map (\<lambda>t. (tk_type t, tk_value t)) ts @ [(T_END_OF_FILE, [])]"
    using Cons.IH [of "advance (CHR '' '') p'"] Cons.prems unfolding list.pred_inject by blast
  have "tokenize_from (token_text t @ CHR '' '' # ?rest) p = Inr (u # us)"
    using u us(1) writable_type [of t] Cons.prems
    by (simp add: tokenize_from.simps [of "token_text t @ CHR '' '' # ?rest"] same_token_def tokenize_from_space)
  then show ?case using u(2) us(2) by (simp add: same_token_def)
qed

text \<open>
  Property C19. Lexing undoes printing: a list of tokens, each written as its text and one space (a string
  literal between quotes with every quote in it doubled), is lexed back to the same types and values,
  followed by the end-of-input token. A word counts as the keyword its letters spell in any case.
\<close>
theorem tokenize_print:
  assumes "list_all writable ts"
  shows "\<exists>us. tokenize (concat (map (\<lambda>t. token_text t @ '' '') ts)) = Inr us
    \<and> map (\<lambda>t. (tk_type t, tk_value t)) us = map (\<lambda>t. (tk_type t, tk_value t)) ts @ [(T_END_OF_FILE, [])]"
  unfolding tokenize_def by (rule tokenize_from_print [OF assms])

theorem tokenize_print_witness:
  "\<exists>us. tokenize ''SELECT <= ''
    = Inr us \<and> map (\<lambda>t. (tk_type t, tk_value t)) us = [(T_SELECT, ''SELECT''), (T_LTE, ''<=''), (T_END_OF_FILE, [])]"
  using tokenize_print [of "[mk_token T_SELECT ''SELECT'' (1, 1), mk_token T_LTE ''<='' (1, 1)]"]
  by (simp add: writable_def is_word_def is_number_def is_operator_def operators_def mk_token_def token_text_def
    keyword_or_identifier_def keyword_table_def is_ident_def is_alpha_def is_upper_def is_lower_def to_upper_def)

lemma tokenize_from_shape:
  "tokenize_from cs p = Inr ts \<Longrightarrow> \<exists>us e. ts = us @ [e] \<and> tk_type e = T_END_OF_FILE
     \<and> list_all (\<lambda>t. tk_type t \<noteq> T_END_OF_FILE) us \<and> length us \<le> length cs"
proof (induction cs p arbitrary: ts rule: tokenize_from.induct)
  case (1 cs p)
  obtain t cs' p' where t: "next_token cs p = Inr (t, cs', p')"
    using "1.prems" by (auto simp: tokenize_from.simps [of cs] sbind_Inr_conv)
  show ?case
  proof (cases "tk_type t = T_END_OF_FILE")
    case True
    then show ?thesis using "1.prems" t by (auto simp: tokenize_from.simps [of cs])
  next
    case False
    then obtain ts' where ts': "tokenize_from cs' p' = Inr ts'" "ts = t # ts'"
      using "1.prems" t by (auto simp: tokenize_from.simps [of cs] sbind_Inr_conv)
    obtain us e where "ts' = us @ [e]" "tk_type e = T_END_OF_FILE"
      "list_all (\<lambda>t. tk_type t \<noteq> T_END_OF_FILE) us" "length us \<le> length cs'"
      using "1.IH" [OF t refl refl False ts'(1)] by blast
    moreover have "length cs' < length cs" using next_token_eats [OF t False] .
    ultimately show ?thesis using ts'(2) False by (intro exI [of _ "t # us"] exI [of _ e]) auto
  qed
qed

text \<open>
  Property C20. The lexer's loop ends on every input: its result is a lexing error or a list whose last
  token, and no other, is the end of input, with at most one token for each character of the input
  before it (every other token eats at least one).
\<close>
theorem tokenize_shape:
  "case tokenize input of Inl e \<Rightarrow> True
   | Inr ts \<Rightarrow> \<exists>us e. ts = us @ [e] \<and> tk_type e = T_END_OF_FILE
       \<and> list_all (\<lambda>t. tk_type t \<noteq> T_END_OF_FILE) us \<and> length us \<le> length input"
  by (auto simp: tokenize_def split: sum.split dest!: tokenize_from_shape)

end
