(* ===== verification/Literals.thy ===== *)
theory Literals
  imports Tokenizer Floats
begin

text \<open>
  \<open>std::stoi\<close>, \<open>std::stoul\<close> and \<open>std::stof\<close> on the text of a number token. White space and a sign
  are accepted before the digits, as \<open>strtol\<close> does; the lexer never produces them, nor the
  exponents, hexadecimal digits, infinities and NaNs of \<open>strtof\<close>, which are left out.
  \<open>long\<close> has 64 bits.
\<close>

section \<open>Integers\<close>

definition digits_value :: "string \<Rightarrow> nat" where
  "digits_value ds = foldl (\<lambda>n c. 10 * n + (of_char c - 48)) 0 ds"

definition signed_text :: "string \<Rightarrow> bool \<times> string" where
  "signed_text s = (let s = dropWhile is_space s in case s of
     [] \<Rightarrow> (False, [])
   | c # cs \<Rightarrow> if c = CHR ''-'' then (True, cs) else if c = CHR ''+'' then (False, cs) else (False, s))"

definition stoi :: "string \<Rightarrow> exn + u32" where
  "stoi s = (let (negative, cs) = signed_text s; ds = takeWhile is_digit cs;
       v = (if negative then - int (digits_value ds) else int (digits_value ds))
     in if ds = [] then Inl (Invalid_argument ''stoi'')
        else if v < - (2 ^ 31) \<or> 2 ^ 31 \<le> v then Inl (Out_of_range ''stoi'')
        else Inr (word_of_int v))"

definition stoul :: "string \<Rightarrow> exn + u64" where
  "stoul s = (let (negative, cs) = signed_text s; ds = takeWhile is_digit cs;
       v = (if negative then - int (digits_value ds) else int (digits_value ds))
     in if ds = [] then Inl (Invalid_argument ''stoul'')
        else if 2 ^ 64 \<le> digits_value ds then Inl (Out_of_range ''stoul'')
        else Inr (word_of_int v))"

section \<open>Floats\<close>

text \<open>\<open>strtof\<close> reports a range error on overflow, and on a tiny result that is inexact.\<close>

definition float_of_ratio :: "nat \<Rightarrow> nat \<Rightarrow> exn + u32" where
  "float_of_ratio n d = (if n = 0 then Inr 0 else
     let e = ratio_exponent n d; (a, b) = scaled n d (max e (- 126) - 23); (a', b') = scaled n d (e - 23);
         bits = float_bits n d; tiny = (e < - 126 \<and> \<not> (e = - 127 \<and> round_half_even a' b' = 2 ^ 24))
     in if 0x7F800000 \<le> bits \<or> tiny \<and> a mod b \<noteq> 0 then Inl (Out_of_range ''stof'')
        else Inr (word_of_nat bits))"

definition stof :: "string \<Rightarrow> exn + u32" where
  "stof s = (let (negative, cs) = signed_text s; ds = takeWhile is_digit cs; r = dropWhile is_digit cs;
       es = (if r \<noteq> [] \<and> hd r = CHR ''.'' then takeWhile is_digit (tl r) else [])
     in if ds = [] \<and> es = [] then Inl (Invalid_argument ''stof'')
        else sbind (float_of_ratio (digits_value (ds @ es)) (10 ^ length es)) (\<lambda>w.
          Inr (if negative then w OR 0x80000000 else w)))"

section \<open>Reading back printed numbers\<close>

lemma digit_char: "d < 10 \<Longrightarrow> is_digit (digit_char d) \<and> of_char (digit_char d) = (48 + d :: nat)"
  by (simp add: digit_char_def is_digit_def)

lemma to_string_digits: "list_all is_digit (to_string n) \<and> to_string n \<noteq> []"
proof (induction n rule: to_string.induct)
  case (1 n)
  show ?case
    using 1 digit_char [of "n mod 10"] digit_char [of n]
    by (subst to_string.simps, subst (2) to_string.simps) (auto simp: list_all_append)
qed

lemma digits_value_snoc: "digits_value (ds @ [c]) = 10 * digits_value ds + (of_char c - 48)"
  by (simp add: digits_value_def)

lemma digits_value_to_string: "digits_value (to_string n) = n"
proof (induction n rule: to_string.induct)
  case (1 n)
  show ?case
  proof (cases "n < 10")
    case True
    then show ?thesis using digit_char [of n] by (simp add: to_string.simps digits_value_def)
  next
    case False
    then show ?thesis using 1 digit_char [of "n mod 10"]
      by (subst to_string.simps) (simp add: digits_value_snoc)
  qed
qed

lemma signed_text_digits:
  assumes "list_all is_digit ds"
  shows "signed_text ds = (False, ds)"
proof (cases ds)
  case (Cons c cs)
  then have "\<not> is_space c" "c \<noteq> CHR ''-''" "c \<noteq> CHR ''+''"
    using assms by (auto simp: is_digit_def is_space_def)
  then show ?thesis using Cons by (simp add: signed_text_def)
qed (simp add: signed_text_def)

lemma takeWhile_digits: "list_all is_digit ds \<Longrightarrow> takeWhile is_digit ds = ds"
  by (simp add: takeWhile_eq_all_conv list_all_iff)

lemma stoi_to_string: "n < 2 ^ 31 \<Longrightarrow> stoi (to_string n) = Inr (word_of_nat n)"
  using to_string_digits [of n]
  by (simp add: stoi_def signed_text_digits takeWhile_digits digits_value_to_string)

lemma stoi_overflow: "2 ^ 31 \<le> n \<Longrightarrow> stoi (to_string n) = Inl (Out_of_range ''stoi'')"
  using to_string_digits [of n]
  by (simp add: stoi_def signed_text_digits takeWhile_digits digits_value_to_string)

lemma stoul_to_string: "n < 2 ^ 64 \<Longrightarrow> stoul (to_string n) = Inr (word_of_nat n)"
  using to_string_digits [of n]
  by (simp add: stoul_def signed_text_digits takeWhile_digits digits_value_to_string)

end
