(* ===== verification/Ast.thy ===== *)
theory Ast
  imports Values
begin

text \<open>
  The syntax trees of \<open>src/parser/ast.h\<close>. A struct is a record; the two that contain each
  other through pointers (\<open>WhereExpr\<close> and \<open>SelectStmt\<close>) are mutually recursive
  datatypes whose constructors are the \<open>Kind\<close>s. A null pointer is \<open>None\<close>.
\<close>

section \<open>Expressions\<close>

record column_ref =
  cr_table_name :: string
  cr_column_name :: string

datatype compare_op =
    C_EQ | C_NEQ | C_LT | C_GT | C_LTE | C_GTE | C_LIKE
  | C_IS_NULL | C_IS_NOT_NULL | C_IN_SUBQUERY | C_NOT_IN_SUBQUERY

datatype logical_op = L_AND | L_OR | L_NOT

datatype aggregate_type =
    AGG_NONE | AGG_COUNT_STAR | AGG_COUNT_COLUMN | AGG_MAX | AGG_MIN | AGG_AVG | AGG_MEDIAN

record select_column =
  sc_is_star :: bool
  sc_is_literal :: bool
  sc_literal :: db_value
  sc_column :: column_ref
  sc_aggregate :: aggregate_type

definition empty_ref :: column_ref where
  "empty_ref = \<lparr>cr_table_name = [], cr_column_name = []\<rparr>"

text \<open>A default-constructed \<open>SelectColumn\<close>.\<close>

definition empty_select_column :: select_column where
  "empty_select_column = \<lparr>sc_is_star = False, sc_is_literal = False, sc_literal = Null,
     sc_column = empty_ref, sc_aggregate = AGG_NONE\<rparr>"

record having_compare =
  hc_operand :: select_column
  hc_op :: compare_op
  hc_value :: db_value

datatype having_expr =
    Having_compare having_compare
  | Having_logical logical_op having_expr "having_expr option"

datatype join_type = J_INNER | J_LEFT | J_RIGHT

record join_clause =
  jc_type :: join_type
  jc_table_name :: string
  jc_alias :: string
  jc_left_col :: column_ref
  jc_right_col :: column_ref

record order_by_clause =
  ob_operand :: select_column
  ob_ascending :: bool

section \<open>WHERE expressions and SELECT\<close>

datatype where_expr =
    Compare (ce_column: column_ref) (ce_op: compare_op) (ce_operand: db_value)
      (ce_operand_column: "column_ref option") (ce_subquery: "select_stmt option")
  | Logical logical_op where_expr "where_expr option"
  | Exists select_stmt
and select_stmt =
    Select_stmt (ss_columns: "select_column list") (ss_table_name: string) (ss_table_alias: string)
      (ss_joins: "join_clause list") (ss_where: "where_expr option") (ss_group_by: "column_ref list")
      (ss_having: "having_expr option") (ss_order_by: "order_by_clause list") (ss_limit: "u32 option")

section \<open>The other statements\<close>

record insert_stmt =
  is_table_name :: string
  is_columns :: "string list"
  is_values :: "db_value list"
  is_value_is_default :: "bool list"

record set_clause =
  set_column_name :: string
  set_value :: db_value
  set_is_default :: bool

record update_stmt =
  us_table_name :: string
  us_assignments :: "set_clause list"
  us_where :: "where_expr option"

record delete_stmt =
  ds_table_name :: string
  ds_where :: "where_expr option"

record column_def =
  cd_name :: string
  cd_type_name :: string
  cd_varchar_len :: u32
  cd_is_primary_key :: bool
  cd_is_nullable :: bool
  cd_auto_increment :: bool
  cd_is_unique :: bool
  cd_has_default :: bool
  cd_default_value :: db_value
  cd_check :: "where_expr option"
  cd_fk_ref_table :: string
  cd_fk_ref_column :: string

datatype foreign_key_on_delete = FK_RESTRICT | FK_CASCADE

record foreign_key_def =
  fd_columns :: "string list"
  fd_ref_table :: string
  fd_ref_columns :: "string list"
  fd_on_delete :: foreign_key_on_delete

record create_table_stmt =
  ct_table_name :: string
  ct_columns :: "column_def list"
  ct_table_checks :: "where_expr list"
  ct_table_primary_key :: "string list"
  ct_table_unique :: "string list list"
  ct_foreign_keys :: "foreign_key_def list"
  ct_source_text :: string

record create_index_stmt =
  ci_index_name :: string
  ci_table_name :: string
  ci_column_names :: "string list"
  ci_is_unique :: bool

datatype show_target = S_TABLES | S_DATABASES

datatype statement =
    Select select_stmt
  | Insert insert_stmt
  | Update update_stmt
  | Delete delete_stmt
  | Create_table create_table_stmt
  | Drop_table string
  | Create_index create_index_stmt
  | Drop_index string
  | Create_database string
  | Drop_database string
  | Use string
  | Show show_target
  | Describe string

end
