(* ===== verification/Parser.thy ===== *)
theory Parser
  imports Literals Ast
begin

text \<open>
  \<open>Parser\<close> of \<open>src/parser/parser.cpp\<close>: recursive descent over the token list. The state of a
  parser is the list of the tokens from \<open>pos_\<close> on, so \<open>tokens_[pos_ + 1]\<close> is the second of them
  and \<open>pos_ + 1 < tokens_.size()\<close> says there is one. Every loop runs through \<open>loop\<close>, whose fuel
  is the number of tokens left, and a nested SELECT through \<open>parse_select_fuel\<close>, whose fuel is the
  depth; \<open>parse_total\<close> and \<open>select_body_recursion\<close> show that neither runs out.
\<close>

section \<open>Token navigation\<close>

type_synonym 'a parser = "(token list, 'a) eff"

definition peek :: "token parser" where
  "peek ts = (case ts of [] \<Rightarrow> (Inl (Undefined_behaviour ''tokens_[] out of range''), []) | t # _ \<Rightarrow> (Inr t, ts))"

definition next_tok :: "token parser" where
  "next_tok = bind peek (\<lambda>t. if tk_type t \<noteq> T_END_OF_FILE then andthen (modify tl) (ret t) else ret t)"

definition check :: "token_type \<Rightarrow> bool parser" where
  "check T = bind peek (\<lambda>t. ret (tk_type t = T))"

definition match :: "token_type \<Rightarrow> bool parser" where
  "match T = bind (check T) (\<lambda>b. if b then andthen next_tok (ret True) else ret False)"

definition error_text :: "string \<Rightarrow> token \<Rightarrow> string" where
  "error_text expected t = ''Parser: expected '' @ expected @ '' but got '' @ [QUOTE] @ tk_value t @ [QUOTE]
     @ '' at line '' @ to_string (tk_line t) @ '' col '' @ to_string (tk_col t)"

definition syntax_error :: "string \<Rightarrow> 'a parser" where
  "syntax_error expected = bind peek (\<lambda>t. throw (Runtime_error (error_text expected t)))"

definition expect :: "token_type \<Rightarrow> string \<Rightarrow> token parser" where
  "expect T ctxt = bind (check T) (\<lambda>b.
     if b then next_tok else syntax_error (token_type_name T @ '' in '' @ ctxt))"

definition expect_value :: "token_type \<Rightarrow> string \<Rightarrow> string parser" where
  "expect_value T ctxt = bind (expect T ctxt) (\<lambda>t. ret (tk_value t))"

text \<open>\<open>check(a) || check(b) || ...\<close>, \<open>check(a) && tokens_[pos_ + 1].type == b\<close>, and a chain of
  \<open>if (match(a)) x; else if (match(b)) y; ... else\<close>.\<close>

definition check_any :: "token_type list \<Rightarrow> bool parser" where
  "check_any Ts = bind peek (\<lambda>t. ret (tk_type t \<in> set Ts))"

definition check_two :: "token_type \<Rightarrow> token_type \<Rightarrow> bool parser" where
  "check_two A B = bind (check A) (\<lambda>b. if b then gets (\<lambda>ts. case ts of _ # u # _ \<Rightarrow> tk_type u = B | _ \<Rightarrow> False)
     else ret False)"

fun match_first :: "(token_type \<times> 'a) list \<Rightarrow> 'a parser \<Rightarrow> 'a parser" where
  "match_first [] other = other"
| "match_first ((T, x) # cases) other = bind (match T) (\<lambda>b. if b then ret x else match_first cases other)"

section \<open>Loops\<close>

text \<open>The body of a loop returns \<open>Inl\<close> to go round again and \<open>Inr\<close> to leave.\<close>

fun loop_fuel :: "nat \<Rightarrow> ('a \<Rightarrow> ('a + 'b) parser) \<Rightarrow> 'a \<Rightarrow> 'b parser" where
  "loop_fuel 0 body a = throw Diverges"
| "loop_fuel (Suc n) body a = bind (body a) (\<lambda>r. case r of Inl a' \<Rightarrow> loop_fuel n body a' | Inr b \<Rightarrow> ret b)"

definition loop :: "('a \<Rightarrow> ('a + 'b) parser) \<Rightarrow> 'a \<Rightarrow> 'b parser" where
  "loop body a ts = loop_fuel (Suc (length ts)) body a ts"

text \<open>\<open>do { xs.push_back(p()); } while (match(COMMA));\<close>\<close>

definition comma_list :: "'a parser \<Rightarrow> 'a list parser" where
  "comma_list p = loop (\<lambda>xs. bind p (\<lambda>x. bind (match T_COMMA) (\<lambda>b.
     ret (if b then Inl (xs @ [x]) else Inr (xs @ [x]))))) []"

text \<open>\<open>auto left = p(); while (match(T)) { auto right = p(); left = node(left, right); }\<close>\<close>

definition left_assoc :: "token_type \<Rightarrow> ('a \<Rightarrow> 'a \<Rightarrow> 'a) \<Rightarrow> 'a parser \<Rightarrow> 'a parser" where
  "left_assoc T node p = bind p (loop (\<lambda>left. bind (match T) (\<lambda>b.
     if b then bind p (\<lambda>right. ret (Inl (node left right))) else ret (Inr left))))"

section \<open>Shared helpers\<close>

definition parse_column_ref :: "column_ref parser" where
  "parse_column_ref = bind (expect_value T_IDENTIFIER ''column reference'') (\<lambda>c. bind (match T_DOT) (\<lambda>b.
     if b then bind (expect_value T_IDENTIFIER ''qualified column reference'') (\<lambda>d.
       ret \<lparr>cr_table_name = c, cr_column_name = d\<rparr>)
     else ret \<lparr>cr_table_name = [], cr_column_name = c\<rparr>))"

text \<open>\<open>-v\<close> of an \<open>int32_t\<close> that \<open>stoi\<close> read without a sign does not overflow; of a \<open>float\<close> it flips the sign bit.\<close>

definition parse_value :: "db_value parser" where
  "parse_value = bind (match T_MINUS) (\<lambda>negative. bind peek (\<lambda>t.
     if tk_type t = T_INTEGER_LITERAL then
       bind next_tok (\<lambda>t. bind (lift (stoi (tk_value t))) (\<lambda>v. ret (IntV (if negative then - v else v))))
     else if tk_type t = T_FLOAT_LITERAL then
       bind next_tok (\<lambda>t. bind (lift (stof (tk_value t))) (\<lambda>v. ret (FloatV (if negative then v XOR 0x80000000 else v))))
     else if negative then syntax_error ''number after minus sign''
     else if tk_type t = T_STRING_LITERAL then bind next_tok (\<lambda>t. ret (StringV (tk_value t)))
     else match_first [(T_TRUE_KW, BoolV True), (T_FALSE_KW, BoolV False), (T_NULL_KW, Null)]
       (syntax_error ''literal value (number, string, TRUE, FALSE, NULL)'')))"

definition parse_column_list :: "string list parser" where
  "parse_column_list = andthen (expect T_LPAREN ''column list'')
     (bind (comma_list (expect_value T_IDENTIFIER ''column name in list'')) (\<lambda>cols.
      andthen (expect T_RPAREN ''column list'') (ret cols)))"

definition parse_value_list :: "(db_value \<times> bool) list parser" where
  "parse_value_list = andthen (expect T_LPAREN ''value list'')
     (bind (comma_list (bind (check T_DEFAULT) (\<lambda>b.
        if b then andthen next_tok (ret (Null, True)) else bind parse_value (\<lambda>v. ret (v, False))))) (\<lambda>vals.
      andthen (expect T_RPAREN ''value list'') (ret vals)))"

section \<open>Clauses of SELECT\<close>

definition aggregates :: "(token_type \<times> aggregate_type) list" where
  "aggregates = [(T_MAX, AGG_MAX), (T_MIN, AGG_MIN), (T_AVG, AGG_AVG), (T_MEDIAN, AGG_MEDIAN)]"

definition parse_aggregate_or_column :: "select_column parser" where
  "parse_aggregate_or_column = bind (match T_COUNT) (\<lambda>count.
     if count then
       andthen (expect T_LPAREN ''COUNT(...)'') (bind (match T_STAR) (\<lambda>star.
         if star then andthen (expect T_RPAREN ''COUNT(...)'')
           (ret (empty_select_column\<lparr>sc_aggregate := AGG_COUNT_STAR\<rparr>))
         else bind parse_column_ref (\<lambda>c. andthen (expect T_RPAREN ''COUNT(...)'')
           (ret (empty_select_column\<lparr>sc_column := c, sc_aggregate := AGG_COUNT_COLUMN\<rparr>)))))
     else bind peek (\<lambda>t. case map_of aggregates (tk_type t) of
       Some agg \<Rightarrow> (let ctxt = token_type_name (tk_type t) @ ''(...)'' in
         andthen next_tok (andthen (expect T_LPAREN ctxt) (bind parse_column_ref (\<lambda>c.
           andthen (expect T_RPAREN ctxt) (ret (empty_select_column\<lparr>sc_column := c, sc_aggregate := agg\<rparr>))))))
     | None \<Rightarrow> bind parse_column_ref (\<lambda>c. ret (empty_select_column\<lparr>sc_column := c\<rparr>))))"

definition parse_select_columns :: "select_column list parser" where
  "parse_select_columns = bind (check T_STAR) (\<lambda>star.
     if star then andthen next_tok (ret [empty_select_column\<lparr>sc_is_star := True\<rparr>])
     else comma_list (bind (check_any [T_INTEGER_LITERAL, T_FLOAT_LITERAL, T_STRING_LITERAL,
         T_TRUE_KW, T_FALSE_KW, T_NULL_KW, T_MINUS]) (\<lambda>literal.
       if literal then bind parse_value (\<lambda>v.
         ret (empty_select_column\<lparr>sc_is_literal := True, sc_literal := v\<rparr>))
       else parse_aggregate_or_column)))"

definition parse_join_type :: "join_type parser" where
  "parse_join_type =
     bind (match T_INNER) (\<lambda>inner. if inner then andthen (expect T_JOIN ''INNER JOIN'') (ret J_INNER) else
     bind (match T_LEFT) (\<lambda>left. if left then andthen (expect T_JOIN ''LEFT JOIN'') (ret J_LEFT) else
     bind (match T_RIGHT) (\<lambda>right. if right then andthen (expect T_JOIN ''RIGHT JOIN'') (ret J_RIGHT) else
     andthen (expect T_JOIN ''JOIN'') (ret J_INNER))))"

definition parse_alias :: "string parser" where
  "parse_alias = bind (check T_IDENTIFIER) (\<lambda>b.
     if b then bind next_tok (\<lambda>t. ret (tk_value t)) else ret [])"

definition parse_join :: "join_clause parser" where
  "parse_join = bind parse_join_type (\<lambda>ty.
     bind (expect_value T_IDENTIFIER ''JOIN table name'') (\<lambda>table. bind parse_alias (\<lambda>alias.
     andthen (expect T_ON ''JOIN ON'') (bind parse_column_ref (\<lambda>left.
     andthen (expect T_EQ ''JOIN ON condition'') (bind parse_column_ref (\<lambda>right.
     ret \<lparr>jc_type = ty, jc_table_name = table, jc_alias = alias, jc_left_col = left, jc_right_col = right\<rparr>)))))))"

definition parse_joins :: "join_clause list parser" where
  "parse_joins = loop (\<lambda>joins. bind (check_any [T_INNER, T_LEFT, T_RIGHT, T_JOIN]) (\<lambda>b.
     if b then bind parse_join (\<lambda>j. ret (Inl (joins @ [j]))) else ret (Inr joins))) []"

definition parse_order_by :: "order_by_clause list parser" where
  "parse_order_by = andthen (expect T_ORDER ''ORDER BY'') (andthen (expect T_BY ''ORDER BY'')
     (comma_list (bind parse_aggregate_or_column (\<lambda>c. bind (match T_DESC) (\<lambda>desc.
        if desc then ret \<lparr>ob_operand = c, ob_ascending = False\<rparr>
        else andthen (match T_ASC) (ret \<lparr>ob_operand = c, ob_ascending = True\<rparr>))))))"

definition parse_group_by :: "column_ref list parser" where
  "parse_group_by = andthen (expect T_GROUP ''GROUP BY'') (andthen (expect T_BY ''GROUP BY'')
     (comma_list parse_column_ref))"

definition comparisons :: "(token_type \<times> compare_op) list" where
  "comparisons = [(T_EQ, C_EQ), (T_NEQ, C_NEQ), (T_LTE, C_LTE), (T_GTE, C_GTE), (T_LT, C_LT), (T_GT, C_GT)]"

definition parse_having_compare_expr :: "having_expr parser" where
  "parse_having_compare_expr = bind parse_aggregate_or_column (\<lambda>c.
     bind (match_first comparisons (syntax_error ''comparison operator (=, !=, <, >, <=, >=) in HAVING'')) (\<lambda>op.
     bind parse_value (\<lambda>v. ret (Having_compare \<lparr>hc_operand = c, hc_op = op, hc_value = v\<rparr>))))"

definition parse_having_not_expr :: "having_expr parser" where
  "parse_having_not_expr = bind (match T_NOT) (\<lambda>b.
     if b then bind parse_having_compare_expr (\<lambda>e. ret (Having_logical L_NOT e None))
     else parse_having_compare_expr)"

definition parse_having_and_expr :: "having_expr parser" where
  "parse_having_and_expr = left_assoc T_AND (\<lambda>l r. Having_logical L_AND l (Some r)) parse_having_not_expr"

definition parse_having_or_expr :: "having_expr parser" where
  "parse_having_or_expr = left_assoc T_OR (\<lambda>l r. Having_logical L_OR l (Some r)) parse_having_and_expr"

definition parse_having :: "having_expr parser" where
  "parse_having = andthen (expect T_HAVING ''HAVING'') parse_having_or_expr"

section \<open>WHERE expressions and SELECT\<close>

text \<open>
  The functions from \<open>parse_subquery\<close> to \<open>parse_select_body\<close> call each other in a circle that
  passes through \<open>parse_subquery\<close>; \<open>sel\<close> is the parser of the nested SELECT.
\<close>

definition parse_subquery :: "select_stmt parser \<Rightarrow> select_stmt parser" where
  "parse_subquery sel = andthen (expect T_LPAREN ''subquery'') (bind (check T_SELECT) (\<lambda>b.
     if \<not> b then syntax_error
       (''SELECT (value lists like IN (1, 2, 3) are not supported yet '' @ [CHR 0xE2, CHR 0x80, CHR 0x94]
         @ '' use a subquery)'')
     else bind sel (\<lambda>sub. andthen (expect T_RPAREN ''subquery'') (ret sub))))"

definition parse_compare_expr :: "select_stmt parser \<Rightarrow> where_expr parser" where
  "parse_compare_expr sel = bind (check T_EXISTS) (\<lambda>ex.
     if ex then andthen next_tok (bind (parse_subquery sel) (\<lambda>s. ret (Exists s)))
     else bind parse_column_ref (\<lambda>c. bind (match T_IS) (\<lambda>is.
       if is then bind (match T_NOT) (\<lambda>n.
         if n then andthen (expect T_NULL_KW ''IS NOT NULL'') (ret (Compare c C_IS_NOT_NULL Null None None))
         else andthen (expect T_NULL_KW ''IS NULL'') (ret (Compare c C_IS_NULL Null None None)))
       else bind (match T_NOT) (\<lambda>n.
         if n then andthen (expect T_IN ''NOT IN (...)'')
           (bind (parse_subquery sel) (\<lambda>s. ret (Compare c C_NOT_IN_SUBQUERY Null None (Some s))))
         else bind (match T_IN) (\<lambda>i.
           if i then bind (parse_subquery sel) (\<lambda>s. ret (Compare c C_IN_SUBQUERY Null None (Some s)))
           else bind (match_first (comparisons @ [(T_LIKE, C_LIKE)])
               (syntax_error ''comparison operator (=, !=, <, >, <=, >=, IS, LIKE)'')) (\<lambda>op.
             bind (check T_IDENTIFIER) (\<lambda>b.
               if b then bind parse_column_ref (\<lambda>d. ret (Compare c op Null (Some d) None))
               else bind parse_value (\<lambda>v. ret (Compare c op v None None)))))))))"

definition parse_not_expr :: "select_stmt parser \<Rightarrow> where_expr parser" where
  "parse_not_expr sel = bind (match T_NOT) (\<lambda>b.
     if b then bind (parse_compare_expr sel) (\<lambda>e. ret (Logical L_NOT e None))
     else parse_compare_expr sel)"

definition parse_and_expr :: "select_stmt parser \<Rightarrow> where_expr parser" where
  "parse_and_expr sel = left_assoc T_AND (\<lambda>l r. Logical L_AND l (Some r)) (parse_not_expr sel)"

definition parse_or_expr :: "select_stmt parser \<Rightarrow> where_expr parser" where
  "parse_or_expr sel = left_assoc T_OR (\<lambda>l r. Logical L_OR l (Some r)) (parse_and_expr sel)"

definition parse_where :: "select_stmt parser \<Rightarrow> where_expr option parser" where
  "parse_where sel = bind (match T_WHERE) (\<lambda>b.
     if \<not> b then ret None else bind (parse_or_expr sel) (\<lambda>e. ret (Some e)))"

text \<open>\<open>if (check(T)) x = p();\<close>\<close>

definition optional :: "token_type \<Rightarrow> 'a \<Rightarrow> 'a parser \<Rightarrow> 'a parser" where
  "optional T x p = bind (check T) (\<lambda>b. if b then p else ret x)"

text \<open>\<open>static_cast<uint32_t>(std::stoul(...))\<close> keeps the low 32 bits.\<close>

definition parse_u32 :: "string \<Rightarrow> u32 parser" where
  "parse_u32 ctxt = bind (expect_value T_INTEGER_LITERAL ctxt) (\<lambda>v. bind (lift (stoul v)) (\<lambda>n. ret (ucast n)))"

definition select_body :: "select_stmt parser \<Rightarrow> select_stmt parser" where
  "select_body sel =
     andthen (expect T_SELECT ''SELECT'') (bind parse_select_columns (\<lambda>columns.
     andthen (expect T_FROM ''SELECT'') (bind (expect_value T_IDENTIFIER ''SELECT FROM'') (\<lambda>table.
     bind parse_alias (\<lambda>alias. bind parse_joins (\<lambda>joins. bind (parse_where sel) (\<lambda>cond.
     bind (optional T_GROUP [] parse_group_by) (\<lambda>group_by.
     bind (optional T_HAVING None (bind parse_having (\<lambda>h. ret (Some h)))) (\<lambda>having.
     bind (optional T_ORDER [] parse_order_by) (\<lambda>order_by.
     bind (match T_LIMIT) (\<lambda>b. bind (if b then bind (parse_u32 ''LIMIT'') (\<lambda>n. ret (Some n)) else ret None) (\<lambda>limit.
     ret (Select_stmt columns table alias joins cond group_by having order_by limit)))))))))))))"

fun parse_select_fuel :: "nat \<Rightarrow> select_stmt parser" where
  "parse_select_fuel 0 = throw Diverges"
| "parse_select_fuel (Suc n) = select_body (parse_select_fuel n)"

definition parse_select_body :: "select_stmt parser" where
  "parse_select_body ts = parse_select_fuel (Suc (length ts)) ts"

section \<open>INSERT, UPDATE, DELETE\<close>

definition identifiers :: "string \<Rightarrow> string list parser" where
  "identifiers ctxt = comma_list (expect_value T_IDENTIFIER ctxt)"

definition parse_insert :: "statement parser" where
  "parse_insert =
     andthen (expect T_INSERT ''INSERT'') (andthen (expect T_INTO ''INSERT INTO'')
     (bind (expect_value T_IDENTIFIER ''INSERT INTO table'') (\<lambda>table. bind (match T_LPAREN) (\<lambda>b.
     bind (if b then bind (identifiers ''INSERT column list'') (\<lambda>cols.
         andthen (expect T_RPAREN ''INSERT column list'') (ret cols)) else ret []) (\<lambda>cols.
     andthen (expect T_VALUES ''INSERT VALUES'') (bind parse_value_list (\<lambda>vals.
     ret (Insert \<lparr>is_table_name = table, is_columns = cols, is_values = map fst vals,
       is_value_is_default = map snd vals\<rparr>))))))))"

definition parse_assignment :: "set_clause parser" where
  "parse_assignment = bind (expect_value T_IDENTIFIER ''UPDATE SET column'') (\<lambda>c.
     andthen (expect T_EQ ''UPDATE SET ='') (bind (check T_DEFAULT) (\<lambda>b.
     if b then andthen next_tok (ret \<lparr>set_column_name = c, set_value = Null, set_is_default = True\<rparr>)
     else bind parse_value (\<lambda>v. ret \<lparr>set_column_name = c, set_value = v, set_is_default = False\<rparr>))))"

definition parse_update :: "statement parser" where
  "parse_update =
     andthen (expect T_UPDATE ''UPDATE'') (bind (expect_value T_IDENTIFIER ''UPDATE table'') (\<lambda>table.
     andthen (expect T_SET ''UPDATE SET'') (bind (comma_list parse_assignment) (\<lambda>assignments.
     bind (parse_where parse_select_body) (\<lambda>cond.
     ret (Update \<lparr>us_table_name = table, us_assignments = assignments, us_where = cond\<rparr>))))))"

definition parse_delete :: "statement parser" where
  "parse_delete =
     andthen (expect T_DELETE ''DELETE'') (andthen (expect T_FROM ''DELETE FROM'')
     (bind (expect_value T_IDENTIFIER ''DELETE FROM table'') (\<lambda>table.
     bind (parse_where parse_select_body) (\<lambda>cond.
     ret (Delete \<lparr>ds_table_name = table, ds_where = cond\<rparr>)))))"

section \<open>CREATE TABLE\<close>

definition parse_column_type :: "(string \<times> u32) parser" where
  "parse_column_type =
     bind (match T_INT_KW) (\<lambda>i. if i then ret (''INT'', 0) else
     bind (match T_FLOAT_KW) (\<lambda>f. if f then ret (''FLOAT'', 0) else
     bind (match T_BOOLEAN_KW) (\<lambda>b. if b then ret (''BOOLEAN'', 0) else
     bind (match T_VARCHAR_KW) (\<lambda>v. if v then
       andthen (expect T_LPAREN ''VARCHAR(n)'') (bind (parse_u32 ''VARCHAR length'') (\<lambda>n.
       andthen (expect T_RPAREN ''VARCHAR(n)'') (ret (''VARCHAR'', n))))
     else syntax_error ''column type (INT, FLOAT, BOOLEAN, VARCHAR)''))))"

definition parse_check :: "where_expr parser" where
  "parse_check = andthen (expect T_LPAREN ''CHECK (...)'') (bind (parse_or_expr parse_select_body) (\<lambda>e.
     andthen (expect T_RPAREN ''CHECK (...)'') (ret e)))"

text \<open>One turn of the constraint loop.\<close>

definition parse_constraint :: "column_def \<Rightarrow> (column_def + column_def) parser" where
  "parse_constraint d =
     bind (check_two T_PRIMARY T_KEY) (\<lambda>pk. if pk then andthen next_tok (andthen next_tok
       (ret (Inl (d\<lparr>cd_is_primary_key := True, cd_is_nullable := False\<rparr>)))) else
     bind (match T_AUTO_INCREMENT) (\<lambda>a. if a then ret (Inl (d\<lparr>cd_auto_increment := True\<rparr>)) else
     bind (match T_UNIQUE) (\<lambda>u. if u then ret (Inl (d\<lparr>cd_is_unique := True\<rparr>)) else
     bind (match T_DEFAULT) (\<lambda>df. if df then
       bind parse_value (\<lambda>v. ret (Inl (d\<lparr>cd_has_default := True, cd_default_value := v\<rparr>))) else
     bind (check_two T_NOT T_NULL_KW) (\<lambda>nn. if nn then andthen next_tok (andthen next_tok
       (ret (Inl (d\<lparr>cd_is_nullable := False\<rparr>)))) else
     bind (match T_CHECK) (\<lambda>c. if c then bind parse_check (\<lambda>e. ret (Inl (d\<lparr>cd_check := Some e\<rparr>))) else
     bind (match T_REFERENCES) (\<lambda>r. if r then
       bind (expect_value T_IDENTIFIER ''REFERENCES table name'') (\<lambda>table.
       andthen (expect T_LPAREN ''REFERENCES parent(column)'')
       (bind (expect_value T_IDENTIFIER ''REFERENCES column name'') (\<lambda>col.
       andthen (expect T_RPAREN ''REFERENCES parent(column)'')
       (ret (Inl (d\<lparr>cd_fk_ref_table := table, cd_fk_ref_column := col\<rparr>))))))
     else ret (Inr d))))))))"

definition parse_column_def :: "column_def parser" where
  "parse_column_def = bind (expect_value T_IDENTIFIER ''column definition name'') (\<lambda>name.
     bind parse_column_type (\<lambda>(ty, n). loop parse_constraint
       \<lparr>cd_name = name, cd_type_name = ty, cd_varchar_len = n, cd_is_primary_key = False,
        cd_is_nullable = True, cd_auto_increment = False, cd_is_unique = False, cd_has_default = False,
        cd_default_value = Null, cd_check = None, cd_fk_ref_table = [], cd_fk_ref_column = []\<rparr>))"

definition parse_on_delete :: "foreign_key_on_delete parser" where
  "parse_on_delete = bind (match T_ON) (\<lambda>b.
     if b then andthen (expect T_DELETE ''ON DELETE'') (bind (match T_CASCADE) (\<lambda>c.
       if c then ret FK_CASCADE
       else andthen (expect T_RESTRICT ''ON DELETE CASCADE|RESTRICT'') (ret FK_RESTRICT)))
     else ret FK_RESTRICT)"

definition parse_foreign_key :: "foreign_key_def parser" where
  "parse_foreign_key = andthen (expect T_KEY ''FOREIGN KEY'') (bind parse_column_list (\<lambda>cols.
     andthen (expect T_REFERENCES ''FOREIGN KEY (...) REFERENCES'')
     (bind (expect_value T_IDENTIFIER ''REFERENCES table name'') (\<lambda>table.
     bind parse_column_list (\<lambda>refs. bind parse_on_delete (\<lambda>od.
     ret \<lparr>fd_columns = cols, fd_ref_table = table, fd_ref_columns = refs, fd_on_delete = od\<rparr>))))))"

text \<open>One item between the parentheses. A second table-level PRIMARY KEY replaces the first.\<close>

definition parse_table_item :: "create_table_stmt \<Rightarrow> create_table_stmt parser" where
  "parse_table_item s =
     bind (check T_CHECK) (\<lambda>c. if c then andthen next_tok (bind parse_check (\<lambda>e.
       ret (s\<lparr>ct_table_checks := ct_table_checks s @ [e]\<rparr>))) else
     bind (check_two T_PRIMARY T_KEY) (\<lambda>pk. if pk then andthen next_tok (andthen next_tok
       (bind parse_column_list (\<lambda>cols. ret (s\<lparr>ct_table_primary_key := cols\<rparr>)))) else
     bind (check T_UNIQUE) (\<lambda>u. if u then andthen next_tok (bind parse_column_list (\<lambda>cols.
       ret (s\<lparr>ct_table_unique := ct_table_unique s @ [cols]\<rparr>))) else
     bind (check T_FOREIGN) (\<lambda>f. if f then andthen next_tok (bind parse_foreign_key (\<lambda>fk.
       ret (s\<lparr>ct_foreign_keys := ct_foreign_keys s @ [fk]\<rparr>)))
     else bind parse_column_def (\<lambda>d. ret (s\<lparr>ct_columns := ct_columns s @ [d]\<rparr>))))))"

definition parse_create_table :: "statement parser" where
  "parse_create_table =
     andthen (expect T_TABLE ''CREATE TABLE'') (bind (expect_value T_IDENTIFIER ''CREATE TABLE name'') (\<lambda>table.
     andthen (expect T_LPAREN ''CREATE TABLE columns'')
     (bind (loop (\<lambda>s. bind (parse_table_item s) (\<lambda>s. bind (match T_COMMA) (\<lambda>b. ret (if b then Inl s else Inr s))))
       \<lparr>ct_table_name = table, ct_columns = [], ct_table_checks = [], ct_table_primary_key = [],
        ct_table_unique = [], ct_foreign_keys = [], ct_source_text = []\<rparr>) (\<lambda>s.
     andthen (expect T_RPAREN ''CREATE TABLE columns'') (ret (Create_table s))))))"

section \<open>The other statements\<close>

definition parse_drop_table :: "statement parser" where
  "parse_drop_table = andthen (expect T_TABLE ''DROP TABLE'')
     (bind (expect_value T_IDENTIFIER ''DROP TABLE name'') (\<lambda>n. ret (Drop_table n)))"

definition parse_create_index :: "statement parser" where
  "parse_create_index = bind (match T_UNIQUE) (\<lambda>u.
     andthen (expect T_INDEX ''CREATE INDEX'') (bind (expect_value T_IDENTIFIER ''CREATE INDEX name'') (\<lambda>n.
     andthen (expect T_ON ''CREATE INDEX ... ON table'')
     (bind (expect_value T_IDENTIFIER ''CREATE INDEX ON table name'') (\<lambda>table. bind parse_column_list (\<lambda>cols.
     ret (Create_index \<lparr>ci_index_name = n, ci_table_name = table, ci_column_names = cols, ci_is_unique = u\<rparr>)))))))"

definition parse_drop_index :: "statement parser" where
  "parse_drop_index = andthen (expect T_INDEX ''DROP INDEX'')
     (bind (expect_value T_IDENTIFIER ''DROP INDEX name'') (\<lambda>n. ret (Drop_index n)))"

definition parse_drop_database :: "statement parser" where
  "parse_drop_database = andthen (expect T_DATABASE ''DROP DATABASE'')
     (bind (expect_value T_IDENTIFIER ''DROP DATABASE name'') (\<lambda>n. ret (Drop_database n)))"

definition parse_create_database :: "statement parser" where
  "parse_create_database = andthen (expect T_DATABASE ''CREATE DATABASE'')
     (bind (expect_value T_IDENTIFIER ''CREATE DATABASE name'') (\<lambda>n. ret (Create_database n)))"

definition parse_use :: "statement parser" where
  "parse_use = andthen (expect T_USE ''USE'')
     (bind (expect_value T_IDENTIFIER ''USE database name'') (\<lambda>n. ret (Use n)))"

definition parse_show :: "statement parser" where
  "parse_show = andthen (expect T_SHOW ''SHOW'') (bind (match_first [(T_TABLES, S_TABLES), (T_DATABASES, S_DATABASES)]
     (syntax_error ''TABLES or DATABASES after SHOW'')) (\<lambda>target. ret (Show target)))"

definition parse_describe :: "statement parser" where
  "parse_describe = andthen (expect T_DESCRIBE ''DESCRIBE'')
     (bind (expect_value T_IDENTIFIER ''DESCRIBE table name'') (\<lambda>n. ret (Describe n)))"

definition parse_select :: "statement parser" where
  "parse_select = bind parse_select_body (\<lambda>s. ret (Select s))"

text \<open>A chain of \<open>if (check(T)) return p();\<close>.\<close>

fun on_token :: "(token_type \<times> 'a parser) list \<Rightarrow> 'a parser \<Rightarrow> 'a parser" where
  "on_token [] other = other"
| "on_token ((T, p) # cases) other = bind (check T) (\<lambda>b. if b then p else on_token cases other)"

definition parse_drop :: "statement parser" where
  "parse_drop = andthen next_tok (on_token [(T_TABLE, parse_drop_table), (T_INDEX, parse_drop_index),
     (T_DATABASE, parse_drop_database)] (syntax_error ''TABLE, INDEX, or DATABASE after DROP''))"

definition parse_create :: "statement parser" where
  "parse_create = andthen next_tok (on_token [(T_TABLE, parse_create_table), (T_INDEX, parse_create_index),
     (T_UNIQUE, parse_create_index), (T_DATABASE, parse_create_database)]
     (syntax_error ''TABLE, INDEX, UNIQUE INDEX, or DATABASE after CREATE''))"

definition parse_statement :: "statement parser" where
  "parse_statement = on_token [(T_SELECT, parse_select), (T_INSERT, parse_insert), (T_UPDATE, parse_update),
     (T_DELETE, parse_delete), (T_DROP, parse_drop), (T_CREATE, parse_create), (T_USE, parse_use),
     (T_SHOW, parse_show), (T_DESCRIBE, parse_describe)]
     (syntax_error ''SELECT, INSERT, UPDATE, DELETE, CREATE, DROP, USE, SHOW, or DESCRIBE'')"

definition parse :: "token list \<Rightarrow> exn + statement" where
  "parse ts = result (bind parse_statement (\<lambda>s. andthen (match T_SEMICOLON)
     (bind (check T_END_OF_FILE) (\<lambda>e. if \<not> e then syntax_error ''end of input'' else ret s))) ts)"

end
