(* ===== verification/Parser_Total.thy ===== *)
theory Parser_Total
  imports Parser
begin

text \<open>
  The parser ends on every token list: each loop consumes a token in every round and each nested
  SELECT starts behind its parenthesis, so the fuel of the model never runs out, and on a list that
  ends in the end-of-input token no token outside it is read.
\<close>

section \<open>Parsers that only move forward\<close>

definition proper :: "token list \<Rightarrow> bool" where
  "proper ts = (ts \<noteq> [] \<and> tk_type (last ts) = T_END_OF_FILE)"

definition syntax_exn :: "exn \<Rightarrow> bool" where
  "syntax_exn e = (case e of Runtime_error _ \<Rightarrow> True | Out_of_range _ \<Rightarrow> True | Invalid_argument _ \<Rightarrow> True | _ \<Rightarrow> False)"

text \<open>
  On at most \<open>n\<close> tokens \<open>p\<close> returns no more tokens than it got, fewer for the results in \<open>c\<close>.
\<close>

definition moved :: "token list \<Rightarrow> bool \<Rightarrow> token list \<Rightarrow> bool" where
  "moved ts strict t = ((proper ts \<longrightarrow> proper t) \<and> length t \<le> length ts \<and> (strict \<longrightarrow> length t < length ts))"

definition failed :: "token list \<Rightarrow> exn \<Rightarrow> bool" where
  "failed ts e = (e \<noteq> Diverges \<and> (proper ts \<longrightarrow> syntax_exn e))"

definition moves :: "nat \<Rightarrow> 'a parser \<Rightarrow> ('a \<Rightarrow> bool) \<Rightarrow> bool" where
  "moves n p c = (\<forall>ts. length ts \<le> n \<longrightarrow> wp p (\<lambda>x t. moved ts (c x) t) (\<lambda>e _. failed ts e) ts)"

abbreviation keeps :: "nat \<Rightarrow> 'a parser \<Rightarrow> bool" where
  "keeps n p \<equiv> moves n p (\<lambda>_. False)"

abbreviation eats :: "nat \<Rightarrow> 'a parser \<Rightarrow> bool" where
  "eats n p \<equiv> moves n p (\<lambda>_. True)"

named_theorems moving \<open>introduction rules of moves\<close>

lemma movesI: "(\<And>ts. length ts \<le> n \<Longrightarrow> wp p (\<lambda>x t. moved ts (c x) t) (\<lambda>e _. failed ts e) ts) \<Longrightarrow> moves n p c"
  by (simp add: moves_def)

lemma movesD: "moves n p c \<Longrightarrow> length ts \<le> n \<Longrightarrow> wp p (\<lambda>x t. moved ts (c x) t) (\<lambda>e _. failed ts e) ts"
  by (simp add: moves_def)

lemma not_proper_Nil [simp]: "\<not> proper []"
  by (simp add: proper_def)

lemma moved_length: "moved ts s t \<Longrightarrow> length ts \<le> n \<Longrightarrow> length t \<le> n"
  by (simp add: moved_def)

lemma moved_refl [simp]: "moved ts False ts"
  by (simp add: moved_def)

lemma moved_trans: "moved ts a t \<Longrightarrow> moved t b u \<Longrightarrow> (s \<Longrightarrow> a \<or> b) \<Longrightarrow> moved ts s u"
  by (auto simp: moved_def)

lemma failed_trans: "moved ts a t \<Longrightarrow> failed t e \<Longrightarrow> failed ts e"
  by (auto simp: moved_def failed_def)

lemma moves_weaken: "moves n p c \<Longrightarrow> (\<And>x. d x \<Longrightarrow> c x) \<Longrightarrow> moves n p d"
  unfolding moves_def by (blast intro: wp_mono moved_trans [OF _ moved_refl])

lemma eats_keeps: "eats n p \<Longrightarrow> keeps n p"
  by (erule moves_weaken) simp

lemma moves_less: "moves n p c \<Longrightarrow> m \<le> n \<Longrightarrow> moves m p c"
  by (auto simp: moves_def)

lemma moves_bind:
  assumes "moves n p c" "\<And>x. c x \<Longrightarrow> keeps n (f x)" "\<And>x. \<not> c x \<Longrightarrow> moves n (f x) d"
  shows "moves n (bind p f) d"
proof (rule movesI)
  fix ts :: "token list" assume len: "length ts \<le> n"
  have step: "wp (f x) (\<lambda>y u. moved ts (d y) u) (\<lambda>e _. failed ts e) t" if m: "moved ts (c x) t" for x t
  proof (cases "c x")
    case True
    have "wp (f x) (\<lambda>y. moved t False) (\<lambda>e _. failed t e) t"
      using movesD [OF assms(2) [OF True], of t] moved_length [OF m len] by simp
    then show ?thesis by (rule wp_mono) (use m True in \<open>auto intro: moved_trans failed_trans\<close>)
  next
    case False
    have "wp (f x) (\<lambda>y. moved t (d y)) (\<lambda>e _. failed t e) t"
      using movesD [OF assms(3) [OF False], of t] moved_length [OF m len] by simp
    then show ?thesis by (rule wp_mono) (use m in \<open>auto intro: moved_trans failed_trans\<close>)
  qed
  show "wp (bind p f) (\<lambda>x. moved ts (d x)) (\<lambda>e _. failed ts e) ts"
    unfolding wp_bind by (rule wp_mono [OF movesD [OF assms(1) len]]) (auto intro: step)
qed

lemma moves_andthen:
  "moves n p c \<Longrightarrow> (\<And>x. c x \<Longrightarrow> keeps n q) \<Longrightarrow> (\<And>x. \<not> c x \<Longrightarrow> moves n q d) \<Longrightarrow> moves n (andthen p q) d"
  unfolding andthen_def by (rule moves_bind)

lemma moves_if: "(b \<Longrightarrow> moves n p c) \<Longrightarrow> (\<not> b \<Longrightarrow> moves n q c) \<Longrightarrow> moves n (if b then p else q) c"
  by simp

lemma moves_ret: "\<not> c x \<Longrightarrow> moves n (ret x) c"
  by (auto simp: moves_def wp_ret)

lemma moves_lift: "(\<And>e. r = Inl e \<Longrightarrow> syntax_exn e) \<Longrightarrow> keeps n (lift r)"
  by (cases r) (auto simp: moves_def wp_lift failed_def syntax_exn_def)

section \<open>Navigation\<close>

lemma wp_peek: "wp peek Q E ts = (case ts of [] \<Rightarrow> E (Undefined_behaviour ''tokens_[] out of range'') [] | t # _ \<Rightarrow> Q t ts)"
  by (cases ts) (simp_all add: peek_def wp_def)

lemma failed_empty [simp]: "failed [] (Undefined_behaviour s)"
  by (simp add: failed_def proper_def)

lemma moved_Cons: "tk_type t \<noteq> T_END_OF_FILE \<Longrightarrow> moved (t # ts) True ts"
  by (auto simp: moved_def proper_def)

lemma moves_peek: "keeps n peek"
  by (auto simp: moves_def wp_peek split: list.split)

lemma wp_next_tok: "wp next_tok Q E ts = (case ts of [] \<Rightarrow> E (Undefined_behaviour ''tokens_[] out of range'') []
    | t # us \<Rightarrow> if tk_type t \<noteq> T_END_OF_FILE then Q t us else Q t ts)"
  by (cases ts) (simp_all add: next_tok_def wp_eqs wp_peek)

lemma moves_next_tok: "keeps n next_tok"
  by (auto simp: moves_def wp_next_tok split: list.split intro: moved_trans [OF moved_Cons moved_refl])

lemma wp_check: "wp (check T) Q E ts = (case ts of [] \<Rightarrow> E (Undefined_behaviour ''tokens_[] out of range'') []
    | t # _ \<Rightarrow> Q (tk_type t = T) ts)"
  by (cases ts) (simp_all add: check_def wp_eqs wp_peek)

lemma moves_check: "keeps n (check T)"
  by (auto simp: moves_def wp_check split: list.split)

lemma moves_check_any: "keeps n (check_any Ts)"
  by (auto simp: moves_def check_any_def wp_eqs wp_peek split: list.split)

lemma wp_match: "T \<noteq> T_END_OF_FILE \<Longrightarrow> wp (match T) Q E ts = (case ts of [] \<Rightarrow> E (Undefined_behaviour ''tokens_[] out of range'') []
    | t # us \<Rightarrow> if tk_type t = T then Q True us else Q False ts)"
  by (cases ts) (simp_all add: match_def wp_eqs wp_check wp_next_tok)

lemma moves_match: "T \<noteq> T_END_OF_FILE \<Longrightarrow> moves n (match T) (\<lambda>b. b)"
  by (auto simp: moves_def wp_match split: list.split intro: moved_Cons)

lemma moves_syntax_error: "moves n (syntax_error s) c"
  by (auto simp: moves_def syntax_error_def wp_eqs wp_peek failed_def syntax_exn_def split: list.split)

lemma wp_expect: "T \<noteq> T_END_OF_FILE \<Longrightarrow> wp (expect T s) Q E ts = (case ts of
      [] \<Rightarrow> E (Undefined_behaviour ''tokens_[] out of range'') []
    | t # us \<Rightarrow> if tk_type t = T then Q t us
        else E (Runtime_error (error_text (token_type_name T @ '' in '' @ s) t)) ts)"
  by (cases ts) (simp_all add: expect_def syntax_error_def wp_eqs wp_check wp_next_tok wp_peek)

lemma moves_expect: "T \<noteq> T_END_OF_FILE \<Longrightarrow> eats n (expect T s)"
  by (auto simp: moves_def wp_expect failed_def syntax_exn_def split: list.split intro: moved_Cons)

lemma moves_expect_value: "T \<noteq> T_END_OF_FILE \<Longrightarrow> eats n (expect_value T s)"
  unfolding expect_value_def by (rule moves_bind [OF moves_expect]) (auto intro: moves_ret)

text \<open>A token that was checked is consumed by the next \<open>advance\<close>.\<close>

lemma moves_check_next:
  assumes "T \<noteq> T_END_OF_FILE" "keeps n p" "moves n q c"
  shows "moves n (bind (check T) (\<lambda>b. if b then andthen next_tok p else q)) c"
proof (rule movesI)
  fix ts :: "token list" assume len: "length ts \<le> n"
  show "wp (bind (check T) (\<lambda>b. if b then andthen next_tok p else q)) (\<lambda>x. moved ts (c x)) (\<lambda>e _. failed ts e) ts"
  proof (cases ts)
    case (Cons t us)
    then show ?thesis
      using assms movesD [OF assms(2), of us] movesD [OF assms(3), of ts] len
      by (auto simp: wp_eqs wp_check wp_next_tok
          intro: wp_mono moved_trans [OF moved_Cons] failed_trans [OF moved_Cons])
  qed (simp add: wp_eqs wp_check)
qed

lemma moves_check_two_next:
  assumes "A \<noteq> T_END_OF_FILE" "keeps n p" "moves n q c"
  shows "moves n (bind (check_two A B) (\<lambda>b. if b then andthen next_tok p else q)) c"
proof (rule movesI)
  fix ts :: "token list" assume len: "length ts \<le> n"
  show "wp (bind (check_two A B) (\<lambda>b. if b then andthen next_tok p else q)) (\<lambda>x. moved ts (c x)) (\<lambda>e _. failed ts e) ts"
  proof (cases ts)
    case (Cons t us)
    then show ?thesis
      using assms movesD [OF assms(2), of us] movesD [OF assms(3), of ts] len
      by (auto simp: check_two_def wp_eqs wp_check wp_next_tok split: list.split
          intro: wp_mono moved_trans [OF moved_Cons] failed_trans [OF moved_Cons])
  qed (simp add: check_two_def wp_eqs wp_check)
qed

section \<open>Loops\<close>

text \<open>A loop ends when each round that does not leave it consumes a token.\<close>

definition rounds :: "nat \<Rightarrow> ('a \<Rightarrow> ('a + 'b) parser) \<Rightarrow> bool" where
  "rounds n body = (\<forall>a. moves n (body a) isl)"

lemma moves_loop_fuel:
  assumes "rounds n body" "length ts < k" "length ts \<le> n"
  shows "wp (loop_fuel k body a) (\<lambda>_. moved ts False) (\<lambda>e _. failed ts e) ts"
  using assms(2,3)
proof (induction k arbitrary: a ts)
  case (Suc k)
  have "wp (loop_fuel k body a') (\<lambda>_. moved ts False) (\<lambda>e _. failed ts e) t" if "moved ts True t" for a' t
    by (rule wp_mono [OF Suc.IH [of t a']])
      (use Suc.prems that in \<open>auto simp: moved_def intro: failed_trans [OF that]\<close>)
  then show ?case
    using movesD [of n "body a" isl ts] assms(1) Suc.prems
    by (auto simp: rounds_def wp_eqs elim!: wp_mono intro: moved_trans split: sum.split)
qed simp

lemma moves_loop: "rounds n body \<Longrightarrow> keeps n (loop body a)"
  by (auto simp: moves_def wp_def loop_def dest: moves_loop_fuel [of n body _ _ a, unfolded wp_def, OF _ lessI])

lemma roundsI: "(\<And>a. moves n (body a) isl) \<Longrightarrow> rounds n body"
  by (simp add: rounds_def)

lemma moves_comma_list: "keeps n p \<Longrightarrow> keeps n (comma_list p)"
  unfolding comma_list_def
  by (intro moves_loop roundsI moves_bind [of n p "\<lambda>_. False"] moves_bind [OF moves_match]) (auto intro: moves_ret)

lemma moves_left_assoc: "T \<noteq> T_END_OF_FILE \<Longrightarrow> keeps n p \<Longrightarrow> keeps n (left_assoc T node p)"
  unfolding left_assoc_def
  by (intro moves_bind [of n p "\<lambda>_. False"] moves_loop roundsI moves_bind [OF moves_match] moves_if)
    (auto intro: moves_ret)

lemma moves_match_first:
  "T_END_OF_FILE \<notin> fst ` set cs \<Longrightarrow> keeps n other \<Longrightarrow> keeps n (match_first cs other)"
  by (induction cs other rule: match_first.induct) (auto intro!: moves_bind [OF moves_match] moves_ret)

lemma moves_on_token:
  "keeps n other \<Longrightarrow> (\<And>T p. (T, p) \<in> set cs \<Longrightarrow> keeps n p) \<Longrightarrow> keeps n (on_token cs other)"
  by (induction cs other rule: on_token.induct) (auto intro!: moves_bind [OF moves_check] moves_if)

section \<open>The grammar\<close>

lemma keeps_bind [moving]: "keeps n p \<Longrightarrow> (\<And>x. keeps n (f x)) \<Longrightarrow> keeps n (bind p f)"
  by (rule moves_bind [of n p "\<lambda>_. False"]) auto

lemma keeps_andthen [moving]: "keeps n p \<Longrightarrow> keeps n q \<Longrightarrow> keeps n (andthen p q)"
  unfolding andthen_def by (rule keeps_bind)

lemma keeps_ret [moving]: "keeps n (ret x)"
  by (rule moves_ret) simp

lemma keeps_match [moving]: "T \<noteq> T_END_OF_FILE \<Longrightarrow> keeps n (match T)"
  by (rule moves_weaken [OF moves_match]) simp_all

lemma keeps_case_option [moving]:
  "(x = None \<Longrightarrow> keeps n p) \<Longrightarrow> (\<And>y. x = Some y \<Longrightarrow> keeps n (f y)) \<Longrightarrow> keeps n (case x of None \<Rightarrow> p | Some y \<Rightarrow> f y)"
  by (cases x) auto

lemma keeps_case_prod [moving]: "(\<And>a b. keeps n (f a b)) \<Longrightarrow> keeps n (case x of (a, b) \<Rightarrow> f a b)"
  by (cases x) auto

lemma stoi_exn: "stoi s = Inl e \<Longrightarrow> syntax_exn e"
  by (auto simp: stoi_def Let_def syntax_exn_def split: prod.splits if_splits)

lemma stoul_exn: "stoul s = Inl e \<Longrightarrow> syntax_exn e"
  by (auto simp: stoul_def Let_def syntax_exn_def split: prod.splits if_splits)

lemma sbind_Inl_conv: "sbind m (\<lambda>x. Inr (f x)) = Inl e \<longleftrightarrow> m = Inl e"
  by (cases m) auto

lemma stof_exn: "stof s = Inl e \<Longrightarrow> syntax_exn e"
  by (auto simp: stof_def float_of_ratio_def Let_def sbind_Inl_conv syntax_exn_def split: prod.splits if_splits)

lemmas [moving] = moves_if [where c = "\<lambda>_. False"] moves_peek moves_next_tok moves_check moves_check_any
  moves_syntax_error moves_expect [THEN eats_keeps] moves_expect_value [THEN eats_keeps]
  moves_comma_list moves_left_assoc moves_match_first
  moves_lift [OF stoi_exn] moves_lift [OF stoul_exn] moves_lift [OF stof_exn]

lemma keeps_check_two [moving]: "keeps n (check_two A B)"
  by (auto simp: moves_def check_two_def wp_eqs wp_check split: list.split)

lemma keeps_column_ref [moving]: "keeps n parse_column_ref"
  unfolding parse_column_ref_def by (intro moving) simp_all

lemma keeps_value [moving]: "keeps n parse_value"
  unfolding parse_value_def by (intro moving) simp_all

lemma keeps_column_list [moving]: "keeps n parse_column_list"
  unfolding parse_column_list_def by (intro moving) simp_all

lemma keeps_value_list [moving]: "keeps n parse_value_list"
  unfolding parse_value_list_def by (intro moving) simp_all

lemma keeps_aggregate_or_column [moving]: "keeps n parse_aggregate_or_column"
  unfolding parse_aggregate_or_column_def Let_def by (intro moving) simp_all

lemma keeps_select_columns [moving]: "keeps n parse_select_columns"
  unfolding parse_select_columns_def by (intro moving)

lemma keeps_join_type [moving]: "keeps n parse_join_type"
  unfolding parse_join_type_def by (intro moving) simp_all

lemma keeps_alias [moving]: "keeps n parse_alias"
  unfolding parse_alias_def by (intro moving)

lemma eats_join: "eats n parse_join"
  unfolding parse_join_def
  by (rule moves_bind [OF keeps_join_type], simp, rule moves_bind [OF moves_expect_value]; (intro moving)?; simp)

lemma keeps_joins [moving]: "keeps n parse_joins"
  unfolding parse_joins_def
  by (intro moves_loop roundsI moves_bind [OF moves_check_any] moves_if moves_bind [OF eats_join])
    (auto intro: moving moves_ret)

lemma keeps_order_by [moving]: "keeps n parse_order_by"
  unfolding parse_order_by_def by (intro moving) simp_all

lemma keeps_group_by [moving]: "keeps n parse_group_by"
  unfolding parse_group_by_def by (intro moving) simp_all

lemma keeps_having [moving]: "keeps n parse_having"
  unfolding parse_having_def parse_having_or_expr_def parse_having_and_expr_def parse_having_not_expr_def
    parse_having_compare_expr_def
  by (intro moving) (simp_all add: comparisons_def)

lemma keeps_optional [moving]: "keeps n p \<Longrightarrow> keeps n (optional T x p)"
  unfolding optional_def by (intro moving)

lemma keeps_u32 [moving]: "keeps n (parse_u32 s)"
  unfolding parse_u32_def by (intro moving) simp_all

text \<open>A nested SELECT sees fewer tokens than the expression around it.\<close>

lemma keeps_behind:
  assumes "T \<noteq> T_END_OF_FILE" "keeps n p"
  shows "keeps (Suc n) (andthen (expect T s) p)"
proof (rule movesI)
  fix ts :: "token list" assume len: "length ts \<le> Suc n"
  show "wp (andthen (expect T s) p) (\<lambda>x. moved ts False) (\<lambda>e _. failed ts e) ts"
  proof (cases ts)
    case (Cons t us)
    have "wp p (\<lambda>x. moved ts False) (\<lambda>e _. failed ts e) us" if "tk_type t = T"
      by (rule wp_mono [OF movesD [OF assms(2)]])
        (use Cons len that assms(1) in \<open>auto intro: moved_trans [OF moved_Cons] failed_trans [OF moved_Cons]\<close>)
    then show ?thesis
      using Cons assms(1) by (auto simp: wp_eqs wp_expect failed_def syntax_exn_def)
  qed (simp add: wp_eqs wp_expect assms(1))
qed

lemma keeps_subquery [moving]: "keeps n sel \<Longrightarrow> keeps (Suc n) (parse_subquery sel)"
  unfolding parse_subquery_def by (intro keeps_behind moving) simp_all

lemma keeps_where [moving]: "keeps n sel \<Longrightarrow> keeps (Suc n) (parse_where sel)"
  unfolding parse_where_def parse_or_expr_def parse_and_expr_def parse_not_expr_def parse_compare_expr_def
  by (intro moving; (assumption | simp add: comparisons_def))

lemma keeps_or_expr: "keeps n sel \<Longrightarrow> keeps (Suc n) (parse_or_expr sel)"
  unfolding parse_or_expr_def parse_and_expr_def parse_not_expr_def parse_compare_expr_def
  by (intro moving; (assumption | simp add: comparisons_def))

lemma keeps_select_body: "keeps n sel \<Longrightarrow> keeps (Suc n) (select_body sel)"
  unfolding select_body_def by (intro moving; (assumption | simp))

lemma keeps_select_fuel: "keeps n (parse_select_fuel (Suc n))"
proof (induction n)
  case 0
  show ?case
    by (auto simp: moves_def select_body_def wp_eqs wp_expect)
next
  case (Suc n)
  then show ?case by (simp add: keeps_select_body)
qed

lemma keeps_select [moving]: "keeps n parse_select_body"
  using keeps_select_fuel by (auto simp: moves_def parse_select_body_def wp_def)

lemmas [moving] = keeps_or_expr [OF keeps_select, THEN moves_less, OF le_SucI [OF order_refl]]

lemmas [moving] = keeps_where [OF keeps_select, THEN moves_less, OF le_SucI [OF order_refl]]

lemma keeps_check [moving]: "keeps n parse_check"
  unfolding parse_check_def by (intro moving) simp_all

lemma keeps_column_type [moving]: "keeps n parse_column_type"
  unfolding parse_column_type_def by (intro moving) simp_all

lemma moves_match_then:
  assumes "T \<noteq> T_END_OF_FILE" "keeps n p" "moves n q c"
  shows "moves n (bind (match T) (\<lambda>b. if b then p else q)) c"
  by (rule moves_bind [OF moves_match [OF assms(1)]]) (use assms in auto)

lemma rounds_constraint: "rounds n parse_constraint"
  unfolding parse_constraint_def
  by (intro roundsI moves_match_then moves_check_two_next moves_ret moving) simp_all

lemma keeps_column_def [moving]: "keeps n parse_column_def"
  unfolding parse_column_def_def by (intro moving moves_loop rounds_constraint) simp_all

lemma keeps_on_delete [moving]: "keeps n parse_on_delete"
  unfolding parse_on_delete_def by (intro moving) simp_all

lemma keeps_foreign_key [moving]: "keeps n parse_foreign_key"
  unfolding parse_foreign_key_def by (intro moving) simp_all

lemma keeps_table_item [moving]: "keeps n (parse_table_item s)"
  unfolding parse_table_item_def by (intro moving)

lemma keeps_create_table [moving]: "keeps n parse_create_table"
  unfolding parse_create_table_def
  by (intro moving moves_loop roundsI moves_bind [OF keeps_table_item] moves_bind [OF moves_match] impI;
      simp add: moves_ret)

lemma keeps_assignment [moving]: "keeps n parse_assignment"
  unfolding parse_assignment_def by (intro moving) simp_all

lemma keeps_select_stmt [moving]: "keeps n parse_select"
  unfolding parse_select_def by (intro moving)

lemma keeps_insert [moving]: "keeps n parse_insert"
  unfolding parse_insert_def identifiers_def by (intro moving) simp_all

lemma keeps_update [moving]: "keeps n parse_update"
  unfolding parse_update_def by (intro moving) simp_all

lemma keeps_delete [moving]: "keeps n parse_delete"
  unfolding parse_delete_def by (intro moving) simp_all

lemma keeps_drop_table [moving]: "keeps n parse_drop_table"
  unfolding parse_drop_table_def by (intro moving) simp_all

lemma keeps_drop_index [moving]: "keeps n parse_drop_index"
  unfolding parse_drop_index_def by (intro moving) simp_all

lemma keeps_drop_database [moving]: "keeps n parse_drop_database"
  unfolding parse_drop_database_def by (intro moving) simp_all

lemma keeps_create_index [moving]: "keeps n parse_create_index"
  unfolding parse_create_index_def by (intro moving) simp_all

lemma keeps_create_database [moving]: "keeps n parse_create_database"
  unfolding parse_create_database_def by (intro moving) simp_all

lemma keeps_use [moving]: "keeps n parse_use"
  unfolding parse_use_def by (intro moving) simp_all

lemma keeps_show [moving]: "keeps n parse_show"
  unfolding parse_show_def by (intro moving) simp_all

lemma keeps_describe [moving]: "keeps n parse_describe"
  unfolding parse_describe_def by (intro moving) simp_all

lemma keeps_drop [moving]: "keeps n parse_drop"
  unfolding parse_drop_def on_token.simps by (intro moving)

lemma keeps_create [moving]: "keeps n parse_create"
  unfolding parse_create_def on_token.simps by (intro moving)

lemma keeps_statement: "keeps n parse_statement"
  unfolding parse_statement_def
  by (rule moves_on_token [OF moves_syntax_error])
    (auto simp: keeps_select_stmt keeps_insert keeps_update keeps_delete keeps_drop keeps_create keeps_use
      keeps_show keeps_describe)

section \<open>Enough fuel\<close>

text \<open>\<open>p\<close> agrees with \<open>q\<close> wherever it does not run out of fuel; every combinator keeps that.\<close>

definition below :: "'a parser \<Rightarrow> 'a parser \<Rightarrow> bool" where
  "below p q = (\<forall>ts. fst (p ts) = Inl Diverges \<or> p ts = q ts)"

named_theorems fuelling \<open>monotonicity rules of below\<close>

lemma below_refl [fuelling]: "below p p"
  by (simp add: below_def)

lemma below_bind [fuelling]: "below p q \<Longrightarrow> (\<And>x. below (f x) (g x)) \<Longrightarrow> below (bind p f) (bind q g)"
proof (unfold below_def, intro allI)
  fix ts
  assume p: "\<forall>ts. fst (p ts) = Inl Diverges \<or> p ts = q ts"
    and f: "\<And>x. \<forall>ts. fst (f x ts) = Inl Diverges \<or> f x ts = g x ts"
  obtain r t where r: "p ts = (r, t)" by (cases "p ts")
  show "fst (bind p f ts) = Inl Diverges \<or> bind p f ts = bind q g ts"
  proof (cases r)
    case (Inl e)
    then have "e = Diverges \<or> q ts = (Inl e, t)" using spec [OF p, of ts] r by auto
    then show ?thesis using r Inl by (auto simp: bind_def)
  next
    case (Inr x)
    then have "q ts = (Inr x, t)" using spec [OF p, of ts] r by auto
    then show ?thesis using spec [OF f [of x], of t] r Inr by (auto simp: bind_def)
  qed
qed

lemma below_andthen [fuelling]: "below p q \<Longrightarrow> below p' q' \<Longrightarrow> below (andthen p p') (andthen q q')"
  unfolding andthen_def by (rule below_bind)

lemma below_if [fuelling]: "below p q \<Longrightarrow> below p' q' \<Longrightarrow> below (if b then p else p') (if b then q else q')"
  by simp

lemma below_loop:
  assumes "\<And>a. below (body a) (body' a)"
  shows "below (loop body a) (loop body' a)"
proof -
  have "below (loop_fuel k body a) (loop_fuel k body' a)" for k a
  proof (induction k arbitrary: a)
    case (Suc k)
    have "below (case r of Inl a' \<Rightarrow> loop_fuel k body a' | Inr b \<Rightarrow> ret b)
      (case r of Inl a' \<Rightarrow> loop_fuel k body' a' | Inr b \<Rightarrow> ret b)" for r
      using Suc by (cases r) (auto intro: below_refl)
    then show ?case by (simp add: below_bind assms)
  qed (simp add: below_refl)
  then show ?thesis unfolding below_def loop_def by blast
qed

lemma below_left_assoc [fuelling]: "below p q \<Longrightarrow> below (left_assoc T node p) (left_assoc T node q)"
  unfolding left_assoc_def by (intro below_bind below_loop below_if below_refl)

lemma below_select_body: "below sel sel' \<Longrightarrow> below (select_body sel) (select_body sel')"
  unfolding select_body_def parse_where_def parse_or_expr_def parse_and_expr_def parse_not_expr_def
    parse_compare_expr_def parse_subquery_def
  by (intro fuelling)

lemma below_fuel: "m \<le> n \<Longrightarrow> below (parse_select_fuel m) (parse_select_fuel n)"
proof (induction m arbitrary: n)
  case 0
  then show ?case by (simp add: below_def throw_def)
next
  case (Suc m)
  then obtain k where "n = Suc k" "m \<le> k" by (cases n) auto
  with Suc.IH show ?case by (simp add: below_select_body)
qed

lemma fuel_enough: "length ts < n \<Longrightarrow> fst (parse_select_fuel n ts) \<noteq> Inl Diverges"
  using movesD [OF keeps_select_fuel, of ts "n - 1"]
  by (cases n; cases "parse_select_fuel n ts") (auto simp: wp_def failed_def simp del: parse_select_fuel.simps)

lemma below_select: "below (parse_select_fuel n) parse_select_body"
proof -
  have "parse_select_fuel n ts = parse_select_body ts" if "fst (parse_select_fuel n ts) \<noteq> Inl Diverges" for ts
  proof (cases "n \<le> Suc (length ts)")
    case True
    then show ?thesis using below_fuel [of n "Suc (length ts)"] that by (auto simp: below_def parse_select_body_def)
  next
    case False
    then show ?thesis using below_fuel [of "Suc (length ts)" n] fuel_enough [of ts "Suc (length ts)"]
      by (auto simp: below_def parse_select_body_def)
  qed
  then show ?thesis unfolding below_def by blast
qed

lemma select_body_fixpoint: "parse_select_body = select_body parse_select_body"
proof
  fix ts
  have "fst (select_body (parse_select_fuel (length ts)) ts) \<noteq> Inl Diverges"
    using fuel_enough [of ts "Suc (length ts)"] by simp
  then show "parse_select_body ts = select_body parse_select_body ts"
    using below_select_body [OF below_select, of "length ts"]
    by (auto simp: below_def parse_select_body_def)
qed

text \<open>
  The fuel of the model is only a device: on every token list the SELECT parser is the
  code's recursion, its body with itself as the parser of the nested SELECTs.
\<close>
lemma select_body_recursion: "parse_select_body = select_body parse_select_body"
  by (rule select_body_fixpoint)

text \<open>
  Property C22. The parser is total: on every token list that ends with the end-of-input token, as those of the
  tokenizer do, it returns a statement or throws one of the exceptions of a syntax error or an
  unreadable number. It neither runs for ever nor reads outside the list.
\<close>
theorem parse_total:
  assumes "ts \<noteq> []" "tk_type (last ts) = T_END_OF_FILE"
  shows "case parse ts of Inl e \<Rightarrow> (\<exists>m. e = Runtime_error m \<or> e = Out_of_range m \<or> e = Invalid_argument m) | Inr s \<Rightarrow> True"
proof -
  define p where "p = bind parse_statement (\<lambda>s. andthen (match T_SEMICOLON)
     (bind (check T_END_OF_FILE) (\<lambda>e. if \<not> e then syntax_error ''end of input'' else ret s)))"
  have "keeps (length ts) p" unfolding p_def by (intro moving keeps_statement) simp
  then have w: "wp p (\<lambda>_. moved ts False) (\<lambda>e _. failed ts e) ts" by (rule movesD) simp
  show ?thesis
  proof (cases "fst (p ts)")
    case (Inl e)
    with w have "failed ts e" by (auto simp: wp_def split: prod.splits)
    then show ?thesis using Inl assms
      by (cases e) (auto simp: parse_def p_def [symmetric] result_def failed_def syntax_exn_def proper_def)
  qed (simp add: parse_def p_def [symmetric] result_def)
qed

theorem parse_total_witness:
  "case parse [mk_token T_USE ''use'' (1, 1), mk_token T_END_OF_FILE [] (1, 4)] of
     Inl e \<Rightarrow> (\<exists>m. e = Runtime_error m \<or> e = Out_of_range m \<or> e = Invalid_argument m) | Inr s \<Rightarrow> True"
  by (rule parse_total) (simp_all add: mk_token_def)

end
