(* ===== verification/Parser_Print.thy ===== *)
theory Parser_Print
  imports Parser_Total
begin

text \<open>
  A printer for statements, as lexemes (the type and text of a token), and the proof that the parser
  undoes it: \<open>reads p ps x F\<close> says that \<open>p\<close> takes any tokens with the lexemes \<open>ps\<close> to \<open>x\<close>, when the
  token behind them has no type in \<open>F\<close>.
\<close>

section \<open>Reading lexemes\<close>

type_synonym lexeme = "token_type \<times> string"

abbreviation kw :: "token_type \<Rightarrow> lexeme" where
  "kw T \<equiv> (T, token_type_name T)"

definition lexemes :: "token list \<Rightarrow> lexeme list" where
  "lexemes = map (\<lambda>t. (tk_type t, tk_value t))"

definition follows :: "token_type set \<Rightarrow> token list \<Rightarrow> bool" where
  "follows F us = (us \<noteq> [] \<and> tk_type (hd us) \<notin> F)"

definition reads :: "'a parser \<Rightarrow> lexeme list \<Rightarrow> 'a \<Rightarrow> token_type set \<Rightarrow> bool" where
  "reads p ps x F = (\<forall>ts us. lexemes ts = ps \<longrightarrow> follows F us \<longrightarrow> p (ts @ us) = (Inr x, us))"

text \<open>What is printed behind a parser may not start with a token that parser would take.\<close>

definition clear :: "token_type set \<Rightarrow> lexeme list \<Rightarrow> token_type set \<Rightarrow> bool" where
  "clear G qs F = (if qs = [] then G \<subseteq> F else fst (hd qs) \<notin> G)"

lemma clear_simps [simp]:
  "clear G [] F = (G \<subseteq> F)" "clear G (l # ls) F = (fst l \<notin> G)" "clear {} qs F"
  "clear G (if b then qs else rs) F = (if b then clear G qs F else clear G rs F)"
  by (simp_all add: clear_def)

lemma clear_append: "clear G (qs @ rs) F = (if qs = [] then clear G rs F else clear G qs F)"
  by (cases qs) (simp_all add: clear_def)

lemma lexemes_simps [simp]:
  "lexemes [] = []" "lexemes (t # ts) = (tk_type t, tk_value t) # lexemes ts" "lexemes (ts @ us) = lexemes ts @ lexemes us"
  by (simp_all add: lexemes_def)

lemma lexemes_append: "lexemes ts = ps @ qs \<Longrightarrow> \<exists>us vs. ts = us @ vs \<and> lexemes us = ps \<and> lexemes vs = qs"
  by (auto simp: lexemes_def map_eq_append_conv)

lemma lexemes_Cons: "lexemes ts = (T, v) # qs \<longleftrightarrow> (\<exists>t us. ts = t # us \<and> tk_type t = T \<and> tk_value t = v \<and> lexemes us = qs)"
  by (auto simp: lexemes_def map_eq_Cons_conv)

lemma lexemes_Nil [simp]: "lexemes ts = [] \<longleftrightarrow> ts = []"
  by (simp add: lexemes_def)

lemma follows_append: "clear G (lexemes ts) F \<Longrightarrow> follows F us \<Longrightarrow> follows G (ts @ us)"
  by (cases ts) (auto simp: follows_def clear_def)

lemma readsD: "reads p (lexemes ts) x F \<Longrightarrow> follows F us \<Longrightarrow> p (ts @ us) = (Inr x, us)"
  by (simp add: reads_def)

lemma readsI: "(\<And>ts us. lexemes ts = ps \<Longrightarrow> follows F us \<Longrightarrow> p (ts @ us) = (Inr x, us)) \<Longrightarrow> reads p ps x F"
  by (simp add: reads_def)

lemma reads_weaken: "reads p ps x G \<Longrightarrow> G \<subseteq> F \<Longrightarrow> reads p ps x F"
  by (auto simp: reads_def follows_def)

lemma reads_bind:
  assumes "reads p ps x G" "clear G qs F" "reads (f x) qs y F"
  shows "reads (bind p f) (ps @ qs) y F"
proof (rule readsI)
  fix ts us assume "lexemes ts = ps @ qs" and us: "follows F us"
  then obtain t u where t: "ts = t @ u" "lexemes t = ps" "lexemes u = qs" by (auto dest: lexemes_append)
  have "p (t @ u @ us) = (Inr x, u @ us)"
    using assms(1,2) t us by (intro readsD [of p t x G]) (auto intro: follows_append)
  moreover have "f x (u @ us) = (Inr y, us)" using assms(3) t us by (intro readsD) auto
  ultimately show "bind p f (ts @ us) = (Inr y, us)" using t by (simp add: bind_def)
qed

lemma reads_bind_last: "reads p ps x G \<Longrightarrow> G \<subseteq> F \<Longrightarrow> reads (f x) [] y F \<Longrightarrow> reads (bind p f) ps y F"
  using reads_bind [of p ps x G "[]" F f y] by simp

lemma reads_ret: "reads (ret x) [] x F"
  by (simp add: reads_def ret_def)

lemma reads_ret_eq: "x = y \<Longrightarrow> reads (ret x) [] y F"
  by (simp add: reads_ret)

section \<open>Single tokens\<close>

lemma navigation_Cons [simp]:
  "peek (t # ts) = (Inr t, t # ts)"
  "check T (t # ts) = (Inr (tk_type t = T), t # ts)"
  "check_any Ts (t # ts) = (Inr (tk_type t \<in> set Ts), t # ts)"
  "tk_type t \<noteq> T_END_OF_FILE \<Longrightarrow> next_tok (t # ts) = (Inr t, ts)"
  by (simp_all add: peek_def check_def check_any_def next_tok_def bind_def ret_def andthen_def modify_def)

lemma match_Cons [simp]: "T \<noteq> T_END_OF_FILE \<Longrightarrow>
    match T (t # ts) = (if tk_type t = T then (Inr True, ts) else (Inr False, t # ts))"
  by (simp add: match_def bind_def ret_def andthen_def)

lemma expect_Cons [simp]: "T \<noteq> T_END_OF_FILE \<Longrightarrow> tk_type t = T \<Longrightarrow> expect T s (t # ts) = (Inr t, ts)"
  by (simp add: expect_def bind_def)

lemma follows_Cons: "follows F us \<longleftrightarrow> (\<exists>u vs. us = u # vs \<and> tk_type u \<notin> F)"
  by (cases us) (auto simp: follows_def)

lemma reads_expect: "T \<noteq> T_END_OF_FILE \<Longrightarrow> reads q qs y F \<Longrightarrow> reads (andthen (expect T s) q) ((T, v) # qs) y F"
  by (auto simp: reads_def lexemes_Cons andthen_def bind_def)

lemma reads_expect_value:
  "T \<noteq> T_END_OF_FILE \<Longrightarrow> reads (f v) qs y F \<Longrightarrow> reads (bind (expect_value T s) f) ((T, v) # qs) y F"
  by (auto simp: reads_def lexemes_Cons expect_value_def bind_def ret_def)

lemma reads_value: "T \<noteq> T_END_OF_FILE \<Longrightarrow> reads (expect_value T s) [(T, v)] v {}"
  by (auto simp: reads_def lexemes_Cons expect_value_def bind_def ret_def)

lemma reads_match_yes:
  "T \<noteq> T_END_OF_FILE \<Longrightarrow> reads (f True) qs y F \<Longrightarrow> reads (bind (match T) f) ((T, v) # qs) y F"
  by (auto simp: reads_def lexemes_Cons bind_def)

lemma reads_check_yes:
  assumes "reads (f True) ((T, v) # qs) y F"
  shows "reads (bind (check T) f) ((T, v) # qs) y F"
proof (rule readsI)
  fix ts us assume ts: "lexemes ts = (T, v) # qs" and "follows F us"
  then have "f True (ts @ us) = (Inr y, us)" using assms by (intro readsD) auto
  then show "bind (check T) f (ts @ us) = (Inr y, us)" using ts by (auto simp: lexemes_Cons bind_def)
qed

lemma reads_peek:
  assumes "\<And>t. tk_type t = T \<Longrightarrow> tk_value t = v \<Longrightarrow> reads (f t) ((T, v) # qs) y F"
  shows "reads (bind peek f) ((T, v) # qs) y F"
proof (rule readsI)
  fix ts us assume ts: "lexemes ts = (T, v) # qs" and us: "follows F us"
  then obtain t u where t: "ts = t # u" "tk_type t = T" "tk_value t = v" by (auto simp: lexemes_Cons)
  have "f t (ts @ us) = (Inr y, us)" using assms [of t] t ts us by (intro readsD) auto
  then show "bind peek f (ts @ us) = (Inr y, us)" using t by (simp add: bind_def)
qed

lemma reads_next: "T \<noteq> T_END_OF_FILE \<Longrightarrow> reads q qs y F \<Longrightarrow> reads (andthen next_tok q) ((T, v) # qs) y F"
  by (auto simp: reads_def lexemes_Cons andthen_def bind_def)

lemma clear_head:
  assumes "clear {T} (lexemes ts) F" "follows F us"
  obtains u vs where "ts @ us = u # vs" "tk_type u \<noteq> T"
  using follows_append [OF assms] that by (auto simp: follows_Cons)

lemma reads_match_no:
  assumes "T \<noteq> T_END_OF_FILE" "clear {T} qs F" "reads (f False) qs y F"
  shows "reads (bind (match T) f) qs y F"
proof (rule readsI)
  fix ts us assume ts: "lexemes ts = qs" and us: "follows F us"
  then have "f False (ts @ us) = (Inr y, us)" using assms(3) by (intro readsD) auto
  moreover obtain u vs where "ts @ us = u # vs" "tk_type u \<noteq> T"
    using clear_head [of T ts F us] assms(2) ts us by auto
  ultimately show "bind (match T) f (ts @ us) = (Inr y, us)" using assms(1) by (simp add: bind_def)
qed

lemma reads_check_no:
  assumes "clear {T} qs F" "reads (f False) qs y F"
  shows "reads (bind (check T) f) qs y F"
proof (rule readsI)
  fix ts us assume ts: "lexemes ts = qs" and us: "follows F us"
  then have "f False (ts @ us) = (Inr y, us)" using assms(2) by (intro readsD) auto
  moreover obtain u vs where "ts @ us = u # vs" "tk_type u \<noteq> T"
    using clear_head [of T ts F us] assms(1) ts us by auto
  ultimately show "bind (check T) f (ts @ us) = (Inr y, us)" by (simp add: bind_def)
qed

lemma reads_check_any:
  assumes "b = (qs \<noteq> [] \<and> fst (hd qs) \<in> set Ts)" "qs = [] \<Longrightarrow> set Ts \<subseteq> F" "reads (f b) qs y F"
  shows "reads (bind (check_any Ts) f) qs y F"
proof (rule readsI)
  fix ts us assume ts: "lexemes ts = qs" and us: "follows F us"
  then have "f b (ts @ us) = (Inr y, us)" using assms(3) by (intro readsD) auto
  moreover have "check_any Ts (ts @ us) = (Inr b, ts @ us)"
    using assms(1,2) ts us by (cases ts; cases us) (auto simp: follows_def)
  ultimately show "bind (check_any Ts) f (ts @ us) = (Inr y, us)" by (simp add: bind_def)
qed

lemma reads_match_first:
  assumes "map_of cs T = Some x" "T_END_OF_FILE \<notin> fst ` set cs"
  shows "reads (match_first cs other) [(T, v)] x {}"
  using assms
  by (induction cs other rule: match_first.induct)
    (auto intro!: reads_match_yes reads_match_no reads_ret split: if_splits)

section \<open>Loops\<close>

lemma loop_fuel_more:
  assumes "\<And>n. rounds n body" "length ts < k" "length ts < k'"
  shows "loop_fuel k body a ts = loop_fuel k' body a ts"
  using assms(2,3)
proof (induction k arbitrary: k' a ts)
  case (Suc k)
  then obtain j where k': "k' = Suc j" by (cases k') auto
  have "loop_fuel k body a' t = loop_fuel j body a' t" if "body a ts = (Inr (Inl a'), t)" for a' t
  proof (rule Suc.IH)
    have "length t < length ts"
      using movesD [of "length ts" "body a" isl ts] assms(1) that by (simp add: rounds_def wp_def moved_def)
    then show "length t < k" "length t < j" using Suc.prems k' by auto
  qed
  then show ?case using k' by (auto simp: bind_def split: prod.split sum.split)
qed simp

lemma loop_unfold:
  assumes "\<And>n. rounds n body"
  shows "loop body a = bind (body a) (\<lambda>r. case r of Inl a' \<Rightarrow> loop body a' | Inr b \<Rightarrow> ret b)"
proof
  fix ts
  have "loop_fuel (length ts) body a' t = loop body a' t" if "body a ts = (Inr (Inl a'), t)" for a' t
  proof -
    have "length t < length ts"
      using movesD [of "length ts" "body a" isl ts] assms that by (simp add: rounds_def wp_def moved_def)
    then show ?thesis unfolding loop_def by (intro loop_fuel_more assms) auto
  qed
  then show "loop body a ts = bind (body a) (\<lambda>r. case r of Inl a' \<Rightarrow> loop body a' | Inr b \<Rightarrow> ret b) ts"
    by (auto simp: loop_def [of body a] bind_def split: prod.split sum.split)
qed

lemma reads_loop_step:
  assumes "\<And>n. rounds n body" "reads (body a) ps (Inl a') G" "clear G qs F" "reads (loop body a') qs b F"
  shows "reads (loop body a) (ps @ qs) b F"
  unfolding loop_unfold [OF assms(1), of a]
  by (rule reads_bind [OF assms(2,3)]) (simp add: assms(4))

lemma reads_loop_end:
  assumes "\<And>n. rounds n body" "reads (body a) ps (Inr b) F"
  shows "reads (loop body a) ps b F"
  unfolding loop_unfold [OF assms(1), of a]
  by (rule reads_bind_last [OF assms(2) order_refl]) (simp add: reads_ret)

fun commas :: "lexeme list list \<Rightarrow> lexeme list" where
  "commas [] = []"
| "commas [x] = x"
| "commas (x # y # zs) = x @ kw T_COMMA # commas (y # zs)"

lemma reads_commas:
  assumes "xs \<noteq> []" "\<And>x. x \<in> set xs \<Longrightarrow> reads p (pr x) x G" "T_COMMA \<notin> G" "G \<subseteq> F" "T_COMMA \<in> F" "\<And>n. keeps n p"
  shows "reads (comma_list p) (commas (map pr xs)) xs F"
proof -
  define body where "body = (\<lambda>xs. bind p (\<lambda>x. bind (match T_COMMA) (\<lambda>b.
     ret (if b then Inl (xs @ [x]) else Inr (xs @ [x])))))"
  have r: "rounds n body" for n
    unfolding body_def
    by (intro roundsI moves_bind [of n p "\<lambda>_. False"] moves_bind [OF moves_match] assms(6)) (auto intro: moves_ret)
  have "reads (loop body as) (commas (map pr xs)) (as @ xs) F" for as
    using assms(1,2)
  proof (induction xs arbitrary: as rule: induct_list012)
    case (2 x)
    have "reads (body as) (pr x) (Inr (as @ [x])) F" unfolding body_def
      using 2 assms(3-5)
      by (intro reads_bind_last [of p "pr x" x G] reads_match_no) (auto intro: reads_ret)
    then show ?case by (auto intro: reads_loop_end [OF r])
  next
    case (3 x y zs)
    have "reads (body as) (pr x @ [kw T_COMMA]) (Inl (as @ [x])) {}" unfolding body_def
      using 3 assms(3)
      by (intro reads_bind [of p "pr x" x G] reads_match_yes) (auto intro: reads_ret)
    moreover have "reads (loop body (as @ [x])) (commas (map pr (y # zs))) (as @ x # y # zs) F"
      using "3.IH"(2) [of "as @ [x]"] 3(3,4) by simp
    ultimately have "reads (loop body as) ((pr x @ [kw T_COMMA]) @ commas (map pr (y # zs))) (as @ x # y # zs) F"
      by (intro reads_loop_step [OF r]) auto
    then show ?case by simp
  qed simp
  from this [of "[]"] show ?thesis by (simp add: comma_list_def body_def)
qed

text \<open>The left-nested trees that \<open>left_assoc\<close> builds: the state of the loop is the tree so far.\<close>

definition assoc_body :: "token_type \<Rightarrow> ('a \<Rightarrow> 'a \<Rightarrow> 'a) \<Rightarrow> 'a parser \<Rightarrow> 'a \<Rightarrow> ('a + 'a) parser" where
  "assoc_body T node p left = bind (match T) (\<lambda>b.
     if b then bind p (\<lambda>right. ret (Inl (node left right))) else ret (Inr left))"

lemma left_assoc_body: "left_assoc T node p = bind p (loop (assoc_body T node p))"
  by (simp add: left_assoc_def assoc_body_def [abs_def])

lemma rounds_assoc_body: "(\<And>n. keeps n p) \<Longrightarrow> T \<noteq> T_END_OF_FILE \<Longrightarrow> rounds n (assoc_body T node p)"
  unfolding assoc_body_def
  by (intro moves_bind [of n p "\<lambda>_. False"] roundsI moves_bind [OF moves_match] moves_if) (auto intro: moves_ret)

definition opens :: "token_type \<Rightarrow> ('a \<Rightarrow> 'a \<Rightarrow> 'a) \<Rightarrow> 'a parser \<Rightarrow> lexeme list \<Rightarrow> 'a \<Rightarrow> token_type set \<Rightarrow> bool" where
  "opens T node p ps e G = (\<forall>ts us. lexemes ts = ps \<longrightarrow> follows G us \<longrightarrow>
     left_assoc T node p (ts @ us) = loop (assoc_body T node p) e us)"

lemma opens_operand: "reads p ps e G \<Longrightarrow> opens T node p ps e G"
  by (auto simp: opens_def reads_def left_assoc_body bind_def)

lemma opens_node:
  assumes "opens T node p ps l G" "reads p qs r G" "T \<notin> G" "T \<noteq> T_END_OF_FILE" "\<And>n. keeps n p"
  shows "opens T node p (ps @ kw T # qs) (node l r) G"
  unfolding opens_def
proof (intro allI impI)
  fix ts us assume "lexemes ts = ps @ kw T # qs" and us: "follows G us"
  then obtain t o' u where t: "ts = t @ o' # u" "lexemes t = ps" "lexemes u = qs" "tk_type o' = T"
    by (auto simp: lexemes_Cons dest!: lexemes_append)
  have "left_assoc T node p (ts @ us) = loop (assoc_body T node p) l (o' # u @ us)"
    using assms(1,3) t by (simp add: opens_def follows_def)
  also have "\<dots> = loop (assoc_body T node p) (node l r) us"
    using readsD [of p u r G us] assms(2,4) t us
    by (subst loop_unfold [OF rounds_assoc_body [OF assms(5,4)]]) (simp add: assoc_body_def bind_def ret_def)
  finally show "left_assoc T node p (ts @ us) = loop (assoc_body T node p) (node l r) us" .
qed

lemma opens_reads:
  assumes "opens T node p ps e G" "G \<subseteq> F" "T \<in> F" "T \<noteq> T_END_OF_FILE" "\<And>n. keeps n p"
  shows "reads (left_assoc T node p) ps e F"
proof (rule readsI)
  fix ts us assume ts: "lexemes ts = ps" and us: "follows F us"
  then have "left_assoc T node p (ts @ us) = loop (assoc_body T node p) e us"
    using assms(1,2) by (auto simp: opens_def follows_def)
  also have "\<dots> = (Inr e, us)"
    using us assms(3,4)
    by (subst loop_unfold [OF rounds_assoc_body [OF assms(5,4)]])
      (auto simp: assoc_body_def bind_def ret_def follows_Cons)
  finally show "left_assoc T node p (ts @ us) = (Inr e, us)" .
qed

section \<open>The printer\<close>

definition pr_ref :: "column_ref \<Rightarrow> lexeme list" where
  "pr_ref r = (if cr_table_name r = [] then [] else [(T_IDENTIFIER, cr_table_name r), kw T_DOT])
     @ [(T_IDENTIFIER, cr_column_name r)]"

fun pr_value :: "db_value \<Rightarrow> lexeme list" where
  "pr_value Null = [kw T_NULL_KW]"
| "pr_value (IntV i) = (if sint i < 0 then [kw T_MINUS] else []) @ [(T_INTEGER_LITERAL, to_string (nat \<bar>sint i\<bar>))]"
| "pr_value (FloatV w) = []"
| "pr_value (BoolV b) = [kw (if b then T_TRUE_KW else T_FALSE_KW)]"
| "pr_value (StringV s) = [(T_STRING_LITERAL, s)]"

text \<open>Floats are left out: their decimal expansion is not modelled. The smallest INT has no literal.\<close>

fun literal_ok :: "db_value \<Rightarrow> bool" where
  "literal_ok (FloatV w) = False"
| "literal_ok (IntV i) = (i \<noteq> 0x80000000)"
| "literal_ok _ = True"

definition pr_call :: "token_type \<Rightarrow> lexeme list \<Rightarrow> lexeme list" where
  "pr_call T ps = kw T # kw T_LPAREN # ps @ [kw T_RPAREN]"

definition pr_operand :: "select_column \<Rightarrow> lexeme list" where
  "pr_operand c = (case sc_aggregate c of
     AGG_NONE \<Rightarrow> pr_ref (sc_column c)
   | AGG_COUNT_STAR \<Rightarrow> pr_call T_COUNT [kw T_STAR]
   | AGG_COUNT_COLUMN \<Rightarrow> pr_call T_COUNT (pr_ref (sc_column c))
   | AGG_MAX \<Rightarrow> pr_call T_MAX (pr_ref (sc_column c))
   | AGG_MIN \<Rightarrow> pr_call T_MIN (pr_ref (sc_column c))
   | AGG_AVG \<Rightarrow> pr_call T_AVG (pr_ref (sc_column c))
   | AGG_MEDIAN \<Rightarrow> pr_call T_MEDIAN (pr_ref (sc_column c)))"

definition wf_operand :: "select_column \<Rightarrow> bool" where
  "wf_operand c = (\<not> sc_is_star c \<and> \<not> sc_is_literal c \<and> sc_literal c = Null
     \<and> (sc_aggregate c = AGG_COUNT_STAR \<longrightarrow> sc_column c = empty_ref))"

definition wf_literal :: "(db_value \<Rightarrow> bool) \<Rightarrow> select_column \<Rightarrow> bool" where
  "wf_literal ok c = (\<not> sc_is_star c \<and> sc_is_literal c \<and> ok (sc_literal c) \<and> sc_column c = empty_ref
     \<and> sc_aggregate c = AGG_NONE)"

definition pr_column :: "select_column \<Rightarrow> lexeme list" where
  "pr_column c = (if sc_is_star c then [kw T_STAR] else if sc_is_literal c then pr_value (sc_literal c) else pr_operand c)"

definition wf_columns :: "(db_value \<Rightarrow> bool) \<Rightarrow> select_column list \<Rightarrow> bool" where
  "wf_columns ok cs = (cs = [empty_select_column\<lparr>sc_is_star := True\<rparr>]
     \<or> cs \<noteq> [] \<and> list_all (\<lambda>c. wf_operand c \<or> wf_literal ok c) cs)"

lemma reads_column_ref: "reads parse_column_ref (pr_ref r) r {T_DOT}"
  by (cases r) (auto simp: parse_column_ref_def pr_ref_def
      intro!: reads_expect_value reads_match_yes reads_match_no reads_ret)

lemma stoi_magnitude:
  assumes "i \<noteq> (0x80000000 :: u32)"
  shows "sint i < 0 \<Longrightarrow> stoi (to_string (nat (- sint i))) = Inr (- i)"
    and "\<not> sint i < 0 \<Longrightarrow> stoi (to_string (nat (sint i))) = Inr i"
proof -
  have "sint i \<noteq> - (2 ^ 31)"
  proof
    assume "sint i = - (2 ^ 31)"
    then have "word_of_int (sint i) = (word_of_int (- (2 ^ 31)) :: u32)" by simp
    then show False using assms by simp
  qed
  then have "- (2 ^ 31) < sint i" "sint i < 2 ^ 31" using sint_greater_eq [of i] sint_less [of i] by simp_all
  then show "sint i < 0 \<Longrightarrow> stoi (to_string (nat (- sint i))) = Inr (- i)"
    and "\<not> sint i < 0 \<Longrightarrow> stoi (to_string (nat (sint i))) = Inr i"
    by (simp_all add: stoi_to_string)
qed

lemma reads_value_literal: "literal_ok v \<Longrightarrow> reads parse_value (pr_value v) v {}"
proof (cases v)
  case (IntV i)
  assume "literal_ok v"
  then have "i \<noteq> 0x80000000" using IntV by simp
  then show ?thesis using IntV
    by (auto simp: reads_def lexemes_Cons parse_value_def bind_def ret_def lift_def follows_Cons stoi_magnitude)
qed (auto simp: reads_def lexemes_Cons parse_value_def bind_def ret_def follows_Cons andthen_def split: if_splits)

lemma reads_call_ref:
  "reads (bind parse_column_ref (\<lambda>r. andthen (expect T_RPAREN s) (ret (f r)))) (pr_ref r @ [kw T_RPAREN]) (f r) F"
  by (rule reads_bind [OF reads_column_ref]) (auto intro!: reads_expect reads_ret)

lemma reads_plain_ref:
  "reads (bind parse_column_ref (\<lambda>r. ret (f r))) (pr_ref r) (f r) {T_DOT}"
  by (rule reads_bind_last [OF reads_column_ref]) (auto intro!: reads_ret)

lemma pr_ref_Cons: "\<exists>v qs. pr_ref r = (T_IDENTIFIER, v) # qs"
  by (simp add: pr_ref_def)

lemma clear_pr_ref [simp]: "clear G (pr_ref r @ qs) F = (T_IDENTIFIER \<notin> G)" "clear G (pr_ref r) F = (T_IDENTIFIER \<notin> G)"
  using pr_ref_Cons [of r] by auto

lemma reads_aggregate:
  assumes "map_of aggregates T = Some agg" "T \<noteq> T_END_OF_FILE" "T \<noteq> T_COUNT"
  shows "reads parse_aggregate_or_column (pr_call T (pr_ref r)) (empty_select_column\<lparr>sc_column := r, sc_aggregate := agg\<rparr>) F"
  unfolding parse_aggregate_or_column_def pr_call_def
  using assms by (auto simp: Let_def intro!: reads_match_no reads_peek reads_next reads_expect reads_call_ref)

lemma reads_aggregate_or_column:
  assumes "wf_operand c"
  shows "reads parse_aggregate_or_column (pr_operand c) c {T_DOT}"
proof (cases "sc_aggregate c")
  case AGG_NONE
  obtain v qs where r: "pr_ref (sc_column c) = (T_IDENTIFIER, v) # qs" using pr_ref_Cons by blast
  have "c = empty_select_column\<lparr>sc_column := sc_column c\<rparr>"
    using assms AGG_NONE by (cases c) (simp add: wf_operand_def empty_select_column_def)
  then show ?thesis
    using reads_plain_ref [of "\<lambda>r. empty_select_column\<lparr>sc_column := r\<rparr>" "sc_column c"] AGG_NONE
    unfolding parse_aggregate_or_column_def pr_operand_def r
    by (auto simp: aggregates_def intro!: reads_match_no reads_peek)
next
  case AGG_COUNT_STAR
  then have "c = empty_select_column\<lparr>sc_aggregate := AGG_COUNT_STAR\<rparr>"
    using assms by (cases c) (simp add: wf_operand_def empty_select_column_def)
  then show ?thesis
    using AGG_COUNT_STAR unfolding parse_aggregate_or_column_def pr_operand_def pr_call_def
    by (auto intro!: reads_match_yes reads_expect reads_ret)
next
  case AGG_COUNT_COLUMN
  then have "c = empty_select_column\<lparr>sc_column := sc_column c, sc_aggregate := AGG_COUNT_COLUMN\<rparr>"
    using assms by (cases c) (simp add: wf_operand_def empty_select_column_def)
  then show ?thesis
    using AGG_COUNT_COLUMN
      reads_call_ref [of "''COUNT(...)''" "\<lambda>r. empty_select_column\<lparr>sc_column := r, sc_aggregate := AGG_COUNT_COLUMN\<rparr>" "sc_column c"]
    unfolding parse_aggregate_or_column_def pr_operand_def pr_call_def
    by (auto intro!: reads_match_yes reads_match_no reads_expect)
qed (use assms reads_aggregate [of _ _ "sc_column c" "{T_DOT}"] in
  \<open>cases c; auto simp: pr_operand_def aggregates_def wf_operand_def empty_select_column_def\<close>)+

subsection \<open>The lists of a SELECT\<close>

definition pr_alias :: "string \<Rightarrow> lexeme list" where
  "pr_alias a = (if a = [] then [] else [(T_IDENTIFIER, a)])"

fun pr_join_type :: "join_type \<Rightarrow> lexeme list" where
  "pr_join_type J_INNER = [kw T_INNER, kw T_JOIN]"
| "pr_join_type J_LEFT = [kw T_LEFT, kw T_JOIN]"
| "pr_join_type J_RIGHT = [kw T_RIGHT, kw T_JOIN]"

definition pr_join :: "join_clause \<Rightarrow> lexeme list" where
  "pr_join j = pr_join_type (jc_type j) @ (T_IDENTIFIER, jc_table_name j) # pr_alias (jc_alias j)
     @ kw T_ON # pr_ref (jc_left_col j) @ kw T_EQ # pr_ref (jc_right_col j)"

definition pr_order :: "order_by_clause \<Rightarrow> lexeme list" where
  "pr_order b = pr_operand (ob_operand b) @ (if ob_ascending b then [] else [kw T_DESC])"

definition wf_order :: "order_by_clause \<Rightarrow> bool" where
  "wf_order b = wf_operand (ob_operand b)"

fun pr_comparison :: "compare_op \<Rightarrow> lexeme list" where
  "pr_comparison C_EQ = [kw T_EQ]"
| "pr_comparison C_NEQ = [kw T_NEQ]"
| "pr_comparison C_LT = [kw T_LT]"
| "pr_comparison C_GT = [kw T_GT]"
| "pr_comparison C_LTE = [kw T_LTE]"
| "pr_comparison C_GTE = [kw T_GTE]"
| "pr_comparison C_LIKE = [kw T_LIKE]"
| "pr_comparison _ = []"

definition is_comparison :: "compare_op \<Rightarrow> bool" where
  "is_comparison c = (c \<in> {C_EQ, C_NEQ, C_LT, C_GT, C_LTE, C_GTE})"

text \<open>The level of an expression: 0 for OR, 1 for AND, 2 for NOT, 3 for a comparison.\<close>

fun pr_having :: "having_expr \<Rightarrow> lexeme list" where
  "pr_having (Having_compare c) = pr_operand (hc_operand c) @ pr_comparison (hc_op c) @ pr_value (hc_value c)"
| "pr_having (Having_logical L_NOT l r) = kw T_NOT # pr_having l"
| "pr_having (Having_logical L_AND l r) = pr_having l @ kw T_AND # (case r of Some r \<Rightarrow> pr_having r | None \<Rightarrow> [])"
| "pr_having (Having_logical L_OR l r) = pr_having l @ kw T_OR # (case r of Some r \<Rightarrow> pr_having r | None \<Rightarrow> [])"

fun wf_having :: "(db_value \<Rightarrow> bool) \<Rightarrow> nat \<Rightarrow> having_expr \<Rightarrow> bool" where
  "wf_having ok n (Having_compare c) = (wf_operand (hc_operand c) \<and> is_comparison (hc_op c) \<and> ok (hc_value c))"
| "wf_having ok n (Having_logical L_NOT l r) = (n \<le> 2 \<and> wf_having ok 3 l \<and> r = None)"
| "wf_having ok n (Having_logical L_AND l r) = (n \<le> 1 \<and> wf_having ok 1 l \<and> (case r of Some r \<Rightarrow> wf_having ok 2 r | None \<Rightarrow> False))"
| "wf_having ok n (Having_logical L_OR l r) = (n = 0 \<and> wf_having ok 0 l \<and> (case r of Some r \<Rightarrow> wf_having ok 1 r | None \<Rightarrow> False))"

fun pr_where :: "where_expr \<Rightarrow> lexeme list" and pr_select :: "select_stmt \<Rightarrow> lexeme list" where
  "pr_where (Compare c op v d s) = pr_ref c @ (case op of
     C_IS_NULL \<Rightarrow> [kw T_IS, kw T_NULL_KW]
   | C_IS_NOT_NULL \<Rightarrow> [kw T_IS, kw T_NOT, kw T_NULL_KW]
   | C_IN_SUBQUERY \<Rightarrow> kw T_IN # kw T_LPAREN # (case s of Some s \<Rightarrow> pr_select s | None \<Rightarrow> []) @ [kw T_RPAREN]
   | C_NOT_IN_SUBQUERY \<Rightarrow> kw T_NOT # kw T_IN # kw T_LPAREN # (case s of Some s \<Rightarrow> pr_select s | None \<Rightarrow> []) @ [kw T_RPAREN]
   | _ \<Rightarrow> pr_comparison op @ (case d of Some d \<Rightarrow> pr_ref d | None \<Rightarrow> pr_value v))"
| "pr_where (Logical L_NOT l r) = kw T_NOT # pr_where l"
| "pr_where (Logical L_AND l r) = pr_where l @ kw T_AND # (case r of Some r \<Rightarrow> pr_where r | None \<Rightarrow> [])"
| "pr_where (Logical L_OR l r) = pr_where l @ kw T_OR # (case r of Some r \<Rightarrow> pr_where r | None \<Rightarrow> [])"
| "pr_where (Exists s) = kw T_EXISTS # kw T_LPAREN # pr_select s @ [kw T_RPAREN]"
| "pr_select (Select_stmt cs t a js w g h b l) =
     kw T_SELECT # commas (map pr_column cs) @ kw T_FROM # (T_IDENTIFIER, t) # pr_alias a @ concat (map pr_join js)
     @ (case w of Some w \<Rightarrow> kw T_WHERE # pr_where w | None \<Rightarrow> [])
     @ (if g = [] then [] else kw T_GROUP # kw T_BY # commas (map pr_ref g))
     @ (case h of Some h \<Rightarrow> kw T_HAVING # pr_having h | None \<Rightarrow> [])
     @ (if b = [] then [] else kw T_ORDER # kw T_BY # commas (map pr_order b))
     @ (case l of Some l \<Rightarrow> [kw T_LIMIT, (T_INTEGER_LITERAL, to_string (unat l))] | None \<Rightarrow> [])"

fun wf_where :: "(db_value \<Rightarrow> bool) \<Rightarrow> nat \<Rightarrow> where_expr \<Rightarrow> bool"
  and wf_select :: "(db_value \<Rightarrow> bool) \<Rightarrow> select_stmt \<Rightarrow> bool" where
  "wf_where ok n (Compare c op v d s) =
     (if op \<in> {C_IS_NULL, C_IS_NOT_NULL} then v = Null \<and> d = None \<and> s = None
      else if op \<in> {C_IN_SUBQUERY, C_NOT_IN_SUBQUERY}
        then v = Null \<and> d = None \<and> (case s of Some s \<Rightarrow> wf_select ok s | None \<Rightarrow> False)
      else s = None \<and> (case d of Some d \<Rightarrow> v = Null | None \<Rightarrow> ok v))"
| "wf_where ok n (Logical L_NOT l r) = (n \<le> 2 \<and> wf_where ok 3 l \<and> r = None)"
| "wf_where ok n (Logical L_AND l r) = (n \<le> 1 \<and> wf_where ok 1 l \<and> (case r of Some r \<Rightarrow> wf_where ok 2 r | None \<Rightarrow> False))"
| "wf_where ok n (Logical L_OR l r) = (n = 0 \<and> wf_where ok 0 l \<and> (case r of Some r \<Rightarrow> wf_where ok 1 r | None \<Rightarrow> False))"
| "wf_where ok n (Exists s) = wf_select ok s"
| "wf_select ok (Select_stmt cs t a js w g h b l) = (wf_columns ok cs
     \<and> (case w of Some w \<Rightarrow> wf_where ok 0 w | None \<Rightarrow> True)
     \<and> (case h of Some h \<Rightarrow> wf_having ok 0 h | None \<Rightarrow> True) \<and> list_all wf_order b)"

section \<open>The clauses read back\<close>

lemma pr_operand_Cons:
  "\<exists>T v qs. pr_operand c = (T, v) # qs \<and> T \<in> {T_IDENTIFIER, T_COUNT, T_MAX, T_MIN, T_AVG, T_MEDIAN}"
  using pr_ref_Cons [of "sc_column c"] by (auto simp: pr_operand_def pr_call_def split: aggregate_type.split)

lemma pr_value_Cons: "literal_ok v \<Longrightarrow> \<exists>T w qs. pr_value v = (T, w) # qs
    \<and> T \<in> {T_INTEGER_LITERAL, T_STRING_LITERAL, T_TRUE_KW, T_FALSE_KW, T_NULL_KW, T_MINUS}"
  by (cases v) auto

lemma reads_alias: "reads parse_alias (pr_alias a) a {T_IDENTIFIER}"
proof (cases "a = []")
  case True
  then show ?thesis by (auto simp: parse_alias_def pr_alias_def intro!: reads_check_no reads_ret)
next
  case False
  then show ?thesis
    by (auto simp: reads_def lexemes_Cons parse_alias_def pr_alias_def bind_def ret_def)
qed

lemma reads_columns:
  assumes "wf_columns literal_ok cs"
  shows "reads parse_select_columns (commas (map pr_column cs)) cs {T_DOT, T_COMMA}"
proof (cases "cs = [empty_select_column\<lparr>sc_is_star := True\<rparr>]")
  case True
  then show ?thesis
    by (auto simp: parse_select_columns_def pr_column_def intro!: reads_check_yes reads_next reads_ret)
next
  case False
  then have cs: "cs \<noteq> []" "\<And>c. c \<in> set cs \<Longrightarrow> wf_operand c \<or> wf_literal literal_ok c"
    using assms by (auto simp: wf_columns_def list_all_iff)
  let ?types = "[T_INTEGER_LITERAL, T_FLOAT_LITERAL, T_STRING_LITERAL, T_TRUE_KW, T_FALSE_KW, T_NULL_KW, T_MINUS]"
  define p where "p = bind (check_any ?types) (\<lambda>literal.
       if literal then bind parse_value (\<lambda>v. ret (empty_select_column\<lparr>sc_is_literal := True, sc_literal := v\<rparr>))
       else parse_aggregate_or_column)"
  have p: "reads p (pr_column c) c {T_DOT} \<and> (\<exists>T v qs. pr_column c = (T, v) # qs \<and> T \<noteq> T_STAR)"
    if "c \<in> set cs" for c
    using cs(2) [OF that]
  proof
    assume c: "wf_operand c"
    then have "pr_column c = pr_operand c" by (simp add: pr_column_def wf_operand_def)
    moreover obtain T v qs where t: "pr_operand c = (T, v) # qs"
      "T \<in> {T_IDENTIFIER, T_COUNT, T_MAX, T_MIN, T_AVG, T_MEDIAN}"
      using pr_operand_Cons by blast
    moreover have "reads p (pr_operand c) c {T_DOT}"
      unfolding p_def using t reads_aggregate_or_column [OF c]
      by (intro reads_check_any [where b = False]) auto
    ultimately show ?thesis by auto
  next
    assume c: "wf_literal literal_ok c"
    then have e: "pr_column c = pr_value (sc_literal c)" "literal_ok (sc_literal c)"
      "c = empty_select_column\<lparr>sc_is_literal := True, sc_literal := sc_literal c\<rparr>"
      by (simp_all add: pr_column_def wf_literal_def empty_select_column_def)
    obtain T w qs where t: "pr_value (sc_literal c) = (T, w) # qs"
      "T \<in> {T_INTEGER_LITERAL, T_STRING_LITERAL, T_TRUE_KW, T_FALSE_KW, T_NULL_KW, T_MINUS}"
      using pr_value_Cons [OF e(2)] by blast
    have "reads (bind parse_value (\<lambda>v. ret (empty_select_column\<lparr>sc_is_literal := True, sc_literal := v\<rparr>)))
        (pr_value (sc_literal c)) c {T_DOT}"
      by (rule reads_bind_last [OF reads_value_literal [OF e(2)]]) (use e(3) in \<open>auto intro: reads_ret simp flip: e(3)\<close>)
    then have "reads p (pr_value (sc_literal c)) c {T_DOT}"
      unfolding p_def using t by (intro reads_check_any [where b = True]) auto
    then show ?thesis using e(1) t by auto
  qed
  have "keeps n p" for n unfolding p_def by (intro moving)
  then have r: "reads (comma_list p) (commas (map pr_column cs)) cs {T_DOT, T_COMMA}"
    using cs(1) p by (intro reads_commas [of cs p pr_column "{T_DOT}"]) auto
  obtain T v qs where "commas (map pr_column cs) = (T, v) # qs" "T \<noteq> T_STAR"
    using p [of "hd cs"] cs(1) by (cases "tl cs"; cases cs) auto
  then show ?thesis
    using r unfolding parse_select_columns_def p_def by (intro reads_check_no) auto
qed

lemma reads_join_type: "reads parse_join_type (pr_join_type ty) ty {}"
  by (cases ty) (auto simp: parse_join_type_def intro!: reads_match_yes reads_match_no reads_expect reads_ret)

lemma reads_join: "reads parse_join (pr_join j) j {T_DOT}"
proof -
  have "reads (bind parse_column_ref (\<lambda>right. ret \<lparr>jc_type = jc_type j, jc_table_name = jc_table_name j,
      jc_alias = jc_alias j, jc_left_col = jc_left_col j, jc_right_col = right\<rparr>)) (pr_ref (jc_right_col j)) j {T_DOT}"
    by (rule reads_bind_last [OF reads_column_ref]) (auto intro: reads_ret_eq)
  then show ?thesis
    unfolding parse_join_def pr_join_def
    by (intro reads_bind [OF reads_join_type] reads_expect_value reads_bind [OF reads_alias] reads_expect
        reads_bind [OF reads_column_ref]) auto
qed

lemma pr_join_Cons: "\<exists>T v qs. pr_join j = (T, v) # qs \<and> T \<in> {T_INNER, T_LEFT, T_RIGHT, T_JOIN}"
  by (cases "jc_type j") (auto simp: pr_join_def)

lemma reads_joins: "reads parse_joins (concat (map pr_join js)) js {T_DOT, T_INNER, T_LEFT, T_RIGHT, T_JOIN}"
proof -
  define body where "body = (\<lambda>joins. bind (check_any [T_INNER, T_LEFT, T_RIGHT, T_JOIN]) (\<lambda>b.
     if b then bind parse_join (\<lambda>j. ret (Inl (joins @ [j]))) else ret (Inr joins)))"
  have r: "rounds n body" for n
    unfolding body_def
    by (intro roundsI moves_bind [OF moves_check_any] moves_if moves_bind [OF eats_join]) (auto intro: moving moves_ret)
  have "reads (loop body as) (concat (map pr_join js)) (as @ js) {T_DOT, T_INNER, T_LEFT, T_RIGHT, T_JOIN}" for as
  proof (induction js arbitrary: as)
    case Nil
    have "reads (body as) [] (Inr as) {T_DOT, T_INNER, T_LEFT, T_RIGHT, T_JOIN}"
      by (auto simp: body_def intro!: reads_check_any [where b = False] reads_ret)
    then show ?case by (auto intro: reads_loop_end [OF r])
  next
    case (Cons j js)
    have "reads (body as) (pr_join j) (Inl (as @ [j])) {T_DOT}"
      unfolding body_def using pr_join_Cons [of j]
      by (intro reads_check_any [where b = True]) (auto intro!: reads_bind_last [OF reads_join] reads_ret)
    moreover have "clear {T_DOT} (concat (map pr_join js)) {T_DOT, T_INNER, T_LEFT, T_RIGHT, T_JOIN}"
      using pr_join_Cons [of "hd js"] by (cases js) auto
    ultimately show ?case using Cons.IH [of "as @ [j]"] by (auto intro: reads_loop_step [OF r])
  qed
  from this [of "[]"] show ?thesis by (simp add: parse_joins_def body_def)
qed

lemma reads_comparisons:
  "is_comparison op \<Longrightarrow> T_END_OF_FILE \<notin> fst ` set cs \<Longrightarrow>
   \<exists>T. pr_comparison op = [kw T] \<and> T \<notin> {T_IS, T_NOT, T_IN, T_DOT} \<and> reads (match_first (comparisons @ cs) other) [kw T] op {}"
  by (cases op) (auto simp: is_comparison_def comparisons_def simp del: match_first.simps intro!: reads_match_first)

lemma reads_order_by:
  assumes "b \<noteq> []" "list_all wf_order b"
  shows "reads parse_order_by (kw T_ORDER # kw T_BY # commas (map pr_order b)) b {T_DOT, T_DESC, T_ASC, T_COMMA}"
proof -
  define p where "p = bind parse_aggregate_or_column (\<lambda>c. bind (match T_DESC) (\<lambda>desc.
        if desc then ret \<lparr>ob_operand = c, ob_ascending = False\<rparr>
        else andthen (match T_ASC) (ret \<lparr>ob_operand = c, ob_ascending = True\<rparr>)))"
  have "reads p (pr_order o') o' {T_DOT, T_DESC, T_ASC}" if "wf_order o'" for o'
  proof (cases "ob_ascending o'")
    case True
    have "reads (bind (match T_DESC) (\<lambda>desc. if desc then ret \<lparr>ob_operand = ob_operand o', ob_ascending = False\<rparr>
        else andthen (match T_ASC) (ret \<lparr>ob_operand = ob_operand o', ob_ascending = True\<rparr>))) [] o' {T_DOT, T_DESC, T_ASC}"
      unfolding andthen_def using True
      by (intro reads_match_no) (auto intro!: reads_match_no reads_ret_eq)
    then show ?thesis
      using True that unfolding p_def pr_order_def wf_order_def
      by (auto intro!: reads_bind_last [OF reads_aggregate_or_column])
  next
    case False
    then show ?thesis
      using that unfolding p_def pr_order_def wf_order_def
      by (auto intro!: reads_bind [OF reads_aggregate_or_column] reads_match_yes reads_ret_eq)
  qed
  moreover have "keeps n p" for n unfolding p_def by (intro moving) simp_all
  ultimately have "reads (comma_list p) (commas (map pr_order b)) b {T_DOT, T_DESC, T_ASC, T_COMMA}"
    using assms by (intro reads_commas [of b p pr_order "{T_DOT, T_DESC, T_ASC}"]) (auto simp: list_all_iff)
  then show ?thesis unfolding parse_order_by_def p_def by (intro reads_expect) auto
qed

lemma reads_group_by:
  "g \<noteq> [] \<Longrightarrow> reads parse_group_by (kw T_GROUP # kw T_BY # commas (map pr_ref g)) g {T_DOT, T_COMMA}"
  unfolding parse_group_by_def
  by (intro reads_expect reads_commas [of g parse_column_ref pr_ref "{T_DOT}"] moving) (auto intro: reads_column_ref)

lemma keeps_having_compare [moving]: "keeps n parse_having_compare_expr"
  unfolding parse_having_compare_expr_def by (intro moving) (simp_all add: comparisons_def)

lemma keeps_having_not [moving]: "keeps n parse_having_not_expr"
  unfolding parse_having_not_expr_def by (intro moving) simp_all

lemma keeps_having_and [moving]: "keeps n parse_having_and_expr"
  unfolding parse_having_and_expr_def by (intro moving) simp_all

lemma reads_having_compare:
  assumes "wf_operand (hc_operand c)" "is_comparison (hc_op c)" "literal_ok (hc_value c)"
  shows "reads parse_having_compare_expr (pr_having (Having_compare c)) (Having_compare c) {}"
proof -
  obtain T where T: "pr_comparison (hc_op c) = [kw T]" "T \<notin> {T_IS, T_NOT, T_IN, T_DOT}"
    using reads_comparisons [OF assms(2), of "[]"] by auto
  have m: "reads (match_first comparisons other) [kw T] (hc_op c) {}" for other
    using reads_comparisons [OF assms(2), of "[]" other] T(1) by auto
  have "reads (bind parse_value (\<lambda>v. ret (Having_compare \<lparr>hc_operand = hc_operand c, hc_op = hc_op c, hc_value = v\<rparr>)))
      (pr_value (hc_value c)) (Having_compare c) {}"
    by (rule reads_bind_last [OF reads_value_literal [OF assms(3)]]) (auto intro: reads_ret_eq)
  then show ?thesis
    unfolding parse_having_compare_expr_def pr_having.simps T(1)
    by (intro reads_bind [OF reads_aggregate_or_column [OF assms(1)]] reads_bind [OF m]) (use T(2) in auto)
qed

section \<open>The levels of an expression\<close>

text \<open>
  HAVING and WHERE share the grammar above their comparisons. \<open>cmp\<close> parses a comparison, \<open>nt\<close> one
  behind an optional NOT; \<open>G\<close> are the types that may not follow a comparison.
\<close>

locale expression_grammar =
  fixes cmp nt :: "'e parser" and neg :: "'e \<Rightarrow> 'e" and conj disj :: "'e \<Rightarrow> 'e \<Rightarrow> 'e" and G :: "token_type set"
  assumes keeps_cmp: "keeps n cmp"
    and nt_def: "nt = bind (match T_NOT) (\<lambda>b. if b then bind cmp (\<lambda>e. ret (neg e)) else cmp)"
    and G_connectives: "T_AND \<notin> G" "T_OR \<notin> G"
begin

definition at_level :: "nat \<Rightarrow> lexeme list \<Rightarrow> 'e \<Rightarrow> bool" where
  "at_level n ps e = (if n = 0 then opens T_OR disj (left_assoc T_AND conj nt) ps e (insert T_AND G)
     else if n = 1 then opens T_AND conj nt ps e G
     else if n = 2 then reads nt ps e G else reads cmp ps e G)"

lemma keeps_nt: "keeps n nt"
  unfolding nt_def by (intro moving keeps_cmp) simp_all

lemma keeps_and: "keeps n (left_assoc T_AND conj nt)"
  by (intro moving keeps_nt) simp

lemma and_opens: "opens T_AND conj nt ps e G \<Longrightarrow> opens T_OR disj (left_assoc T_AND conj nt) ps e (insert T_AND G)"
  by (rule opens_operand, erule opens_reads) (auto simp: keeps_nt)

lemma and_up: "at_level 1 ps e \<Longrightarrow> n \<le> 1 \<Longrightarrow> at_level n ps e"
  by (cases "n = 1") (auto simp: at_level_def intro: and_opens)

lemma level_up: "at_level 2 ps e \<Longrightarrow> n \<le> 2 \<Longrightarrow> at_level n ps e"
  by (cases "n = 2"; cases "n = 1") (auto simp: at_level_def intro: opens_operand and_opens)

lemma cmp_level:
  assumes "at_level 3 ps e" "clear {T_NOT} ps G" "n \<le> 3"
  shows "at_level n ps e"
proof -
  have "reads cmp ps e G" using assms(1) by (simp add: at_level_def)
  then have "reads nt ps e G" unfolding nt_def using assms(2) by (intro reads_match_no) auto
  then have "at_level 2 ps e" by (simp add: at_level_def)
  then show ?thesis using level_up [of ps e n] assms by (cases "n = 3") auto
qed

lemma neg_level:
  assumes "at_level 3 ps e" "n \<le> 2"
  shows "at_level n (kw T_NOT # ps) (neg e)"
proof -
  have "reads cmp ps e G" using assms(1) by (simp add: at_level_def)
  then have "reads (bind cmp (\<lambda>e. ret (neg e))) ps (neg e) G" by (rule reads_bind_last) (auto intro: reads_ret)
  then have "reads nt (kw T_NOT # ps) (neg e) G" unfolding nt_def by (intro reads_match_yes) auto
  then show ?thesis using level_up assms(2) by (simp add: at_level_def)
qed

lemma conj_level: "at_level 1 ps l \<Longrightarrow> at_level 2 qs r \<Longrightarrow> n \<le> 1 \<Longrightarrow> at_level n (ps @ kw T_AND # qs) (conj l r)"
  by (rule and_up) (auto simp: at_level_def G_connectives keeps_nt intro: opens_node)

lemma disj_level: "at_level 0 ps l \<Longrightarrow> at_level 1 qs r \<Longrightarrow> at_level 0 (ps @ kw T_OR # qs) (disj l r)"
  by (auto simp: at_level_def G_connectives keeps_and keeps_nt
      intro!: opens_node opens_reads [of T_AND conj nt qs r G])

lemma reads_or: "at_level 0 ps e \<Longrightarrow> reads (left_assoc T_OR disj (left_assoc T_AND conj nt)) ps e ({T_AND, T_OR} \<union> G)"
  by (auto simp: at_level_def keeps_and intro!: opens_reads [of T_OR disj "left_assoc T_AND conj nt" ps e "insert T_AND G"])

end

interpretation having: expression_grammar parse_having_compare_expr parse_having_not_expr "\<lambda>e. Having_logical L_NOT e None"
  "\<lambda>l r. Having_logical L_AND l (Some r)" "\<lambda>l r. Having_logical L_OR l (Some r)" "{}"
  by unfold_locales (simp_all add: keeps_having_compare parse_having_not_expr_def)

lemma reads_having_level: "wf_having literal_ok n e \<Longrightarrow> n \<le> 3 \<Longrightarrow> having.at_level n (pr_having e) e"
proof (induction e arbitrary: n rule: pr_having.induct)
  case (1 c)
  then have "having.at_level 3 (pr_having (Having_compare c)) (Having_compare c)"
    using reads_having_compare by (simp add: having.at_level_def)
  moreover have "clear {T_NOT} (pr_having (Having_compare c)) {}"
    using pr_operand_Cons [of "hc_operand c"] by auto
  ultimately show ?case using 1 having.cmp_level by blast
next
  case (2 l r)
  then show ?case by (auto intro: having.neg_level)
next
  case (3 l r)
  then show ?case by (auto split: option.splits intro!: having.conj_level)
next
  case (4 l r)
  then show ?case by (auto split: option.splits intro!: having.disj_level)
qed

lemma reads_having:
  "wf_having literal_ok 0 h \<Longrightarrow> reads parse_having (kw T_HAVING # pr_having h) h {T_AND, T_OR}"
  unfolding parse_having_def parse_having_or_expr_def parse_having_and_expr_def
  using having.reads_or [OF reads_having_level [of 0 h]] by (auto intro!: reads_expect)

section \<open>WHERE and SELECT read back\<close>

abbreviation after_where :: "token_type set" where
  "after_where \<equiv> {T_DOT, T_AND, T_OR}"

abbreviation after_select :: "token_type set" where
  "after_select \<equiv> {T_IDENTIFIER, T_INNER, T_LEFT, T_RIGHT, T_JOIN, T_WHERE, T_GROUP, T_HAVING, T_ORDER, T_LIMIT,
     T_DOT, T_COMMA, T_AND, T_OR, T_ASC, T_DESC}"

definition pr_comparand :: "column_ref option \<Rightarrow> db_value \<Rightarrow> lexeme list" where
  "pr_comparand d v = (case d of Some d \<Rightarrow> pr_ref d | None \<Rightarrow> pr_value v)"

lemma keeps_compare [moving]: "keeps n sel \<Longrightarrow> keeps (Suc n) (parse_compare_expr sel)"
  unfolding parse_compare_expr_def by (intro moving; (assumption | simp add: comparisons_def))

lemma keeps_compare_select: "keeps n (parse_compare_expr parse_select_body)"
  by (rule moves_less [OF keeps_compare [OF keeps_select, of n]]) simp

interpretation wh: expression_grammar "parse_compare_expr parse_select_body" "parse_not_expr parse_select_body"
  "\<lambda>e. Logical L_NOT e None" "\<lambda>l r. Logical L_AND l (Some r)" "\<lambda>l r. Logical L_OR l (Some r)" "{T_DOT}"
  by unfold_locales (simp_all add: keeps_compare_select parse_not_expr_def)

lemma reads_subquery:
  assumes "reads sel (kw T_SELECT # qs) s F" "T_RPAREN \<notin> F"
  shows "reads (parse_subquery sel) (kw T_LPAREN # (kw T_SELECT # qs) @ [kw T_RPAREN]) s {}"
proof -
  have "reads (bind sel (\<lambda>sub. andthen (expect T_RPAREN ''subquery'') (ret sub)))
      ((kw T_SELECT # qs) @ [kw T_RPAREN]) s {}"
    by (rule reads_bind [OF assms(1)]) (use assms(2) in \<open>auto intro!: reads_expect reads_ret\<close>)
  then show ?thesis unfolding parse_subquery_def by (auto intro!: reads_expect reads_check_yes)
qed

lemma reads_compare_column:
  assumes "reads (k c) qs e F" "clear {T_DOT} qs F"
  shows "reads (bind (check T_EXISTS) (\<lambda>ex. if ex then p else bind parse_column_ref k)) (pr_ref c @ qs) e F"
  using reads_bind [of parse_column_ref "pr_ref c" c "{T_DOT}" qs F k e] reads_column_ref assms
  by (intro reads_check_no) auto

lemma reads_comparand:
  assumes "s = None" "case d of Some d \<Rightarrow> v = Null | None \<Rightarrow> literal_ok v"
  shows "reads (bind (check T_IDENTIFIER) (\<lambda>b.
      if b then bind parse_column_ref (\<lambda>d. ret (Compare c op Null (Some d) None))
      else bind parse_value (\<lambda>v. ret (Compare c op v None None)))) (pr_comparand d v) (Compare c op v d s) {T_DOT}"
proof (cases d)
  case None
  then have v: "literal_ok v" using assms by simp
  have "reads (bind parse_value (\<lambda>v. ret (Compare c op v None None))) (pr_value v) (Compare c op v None None) {T_DOT}"
    by (rule reads_bind_last [OF reads_value_literal [OF v]]) (auto intro: reads_ret)
  then show ?thesis
    using None assms pr_value_Cons [OF v] by (auto simp: pr_comparand_def intro!: reads_check_no)
next
  case (Some r)
  obtain w qs where r: "pr_ref r = (T_IDENTIFIER, w) # qs" using pr_ref_Cons by blast
  have "reads (bind parse_column_ref (\<lambda>d. ret (Compare c op Null (Some d) None))) (pr_ref r) (Compare c op Null (Some r) None) {T_DOT}"
    by (rule reads_bind_last [OF reads_column_ref]) (auto intro: reads_ret)
  then show ?thesis
    using Some assms unfolding r pr_comparand_def option.case by (auto simp: r intro!: reads_check_yes)
qed

lemma pr_select_Cons: "\<exists>qs. pr_select s = kw T_SELECT # qs"
  by (cases s) simp

lemma reads_compare:
  assumes "wf_where literal_ok n (Compare c op v d s)"
    "\<And>t. s = Some t \<Longrightarrow> wf_select literal_ok t \<Longrightarrow> reads parse_select_body (pr_select t) t after_select"
  shows "reads (parse_compare_expr parse_select_body) (pr_where (Compare c op v d s)) (Compare c op v d s) {T_DOT}"
proof -
  have sub: "\<exists>t qs. s = Some t \<and> pr_select t = kw T_SELECT # qs
      \<and> reads (parse_subquery parse_select_body) (kw T_LPAREN # (kw T_SELECT # qs) @ [kw T_RPAREN]) t {}"
    if q: "op \<in> {C_IN_SUBQUERY, C_NOT_IN_SUBQUERY}"
  proof -
    obtain t where t: "s = Some t" "wf_select literal_ok t"
      using assms(1) q by (cases s) auto
    obtain qs where qs: "pr_select t = kw T_SELECT # qs" using pr_select_Cons by blast
    have "reads (parse_subquery parse_select_body) (kw T_LPAREN # (kw T_SELECT # qs) @ [kw T_RPAREN]) t {}"
      using assms(2) [OF t] unfolding qs by (rule reads_subquery) simp
    then show ?thesis using t qs by blast
  qed
  consider (null) "op \<in> {C_IS_NULL, C_IS_NOT_NULL}" | (nested) "op \<in> {C_IN_SUBQUERY, C_NOT_IN_SUBQUERY}"
    | (cmp) "is_comparison op \<or> op = C_LIKE"
    by (cases op) (auto simp: is_comparison_def)
  then show ?thesis
  proof cases
    case null
    then have e: "v = Null" "d = None" "s = None" using assms(1) by auto
    show ?thesis
    proof (cases "op = C_IS_NULL")
      case True
      show ?thesis unfolding parse_compare_expr_def pr_where.simps e True compare_op.case
        by (intro reads_compare_column reads_match_yes) (auto intro!: reads_match_no reads_expect reads_ret)
    next
      case False
      then have o': "op = C_IS_NOT_NULL" using null by simp
      show ?thesis unfolding parse_compare_expr_def pr_where.simps e o' compare_op.case
        by (intro reads_compare_column reads_match_yes) (auto intro!: reads_match_yes reads_expect reads_ret)
    qed
  next
    case nested
    then obtain t qs where t: "s = Some t" "pr_select t = kw T_SELECT # qs"
      "reads (parse_subquery parse_select_body) (kw T_LPAREN # (kw T_SELECT # qs) @ [kw T_RPAREN]) t {}"
      using sub by blast
    have "reads (bind (parse_subquery parse_select_body) (\<lambda>s. ret (Compare c op Null None (Some s))))
        (kw T_LPAREN # kw T_SELECT # qs @ [kw T_RPAREN]) (Compare c op Null None (Some t)) {T_DOT}"
      by (rule reads_bind_last [OF t(3) [unfolded append_Cons]]) (auto intro: reads_ret)
    then show ?thesis
      using assms(1) t nested unfolding parse_compare_expr_def pr_where.simps
      by (intro reads_compare_column)
        (auto intro!: reads_match_yes reads_match_no reads_expect split: if_splits)
  next
    case cmp
    have "\<exists>T. pr_comparison op = [kw T] \<and> T \<notin> {T_IS, T_NOT, T_IN, T_DOT}
        \<and> (\<forall>other. reads (match_first (comparisons @ [(T_LIKE, C_LIKE)]) other) [kw T] op {})"
      using cmp by (cases op)
        (auto simp: is_comparison_def comparisons_def simp del: match_first.simps intro!: reads_match_first)
    then obtain T where T: "pr_comparison op = [kw T]" "T \<notin> {T_IS, T_NOT, T_IN, T_DOT}"
      "\<And>other. reads (match_first (comparisons @ [(T_LIKE, C_LIKE)]) other) [kw T] op {}" by auto
    have "pr_where (Compare c op v d s) = pr_ref c @ pr_comparison op @ pr_comparand d v"
      using cmp by (cases op) (simp_all add: is_comparison_def pr_comparand_def)
    then have p: "pr_where (Compare c op v d s) = pr_ref c @ [kw T] @ pr_comparand d v"
      by (simp only: T(1))
    have "s = None" "case d of Some d \<Rightarrow> v = Null | None \<Rightarrow> literal_ok v"
      using assms(1) cmp by (cases op; auto simp: is_comparison_def)+
    then have "reads (bind (match_first (comparisons @ [(T_LIKE, C_LIKE)]) other) (\<lambda>op. bind (check T_IDENTIFIER) (\<lambda>b.
        if b then bind parse_column_ref (\<lambda>d. ret (Compare c op Null (Some d) None))
        else bind parse_value (\<lambda>v. ret (Compare c op v None None))))) ([kw T] @ pr_comparand d v) (Compare c op v d s) {T_DOT}"
      for other
      by (intro reads_bind [OF T(3)] reads_comparand) simp_all
    then show ?thesis
      unfolding parse_compare_expr_def p using T(2)
      by (intro reads_compare_column) (auto intro!: reads_match_no)
  qed
qed

lemma reads_where:
  assumes "\<And>e. w = Some e \<Longrightarrow> wh.at_level 0 (pr_where e) e"
  shows "reads (parse_where parse_select_body) (case w of Some w \<Rightarrow> kw T_WHERE # pr_where w | None \<Rightarrow> []) w
    (insert T_WHERE after_where)"
proof (cases w)
  case None
  then show ?thesis unfolding parse_where_def by (auto intro!: reads_match_no reads_ret)
next
  case (Some e)
  have "reads (parse_or_expr parse_select_body) (pr_where e) e (insert T_WHERE after_where)"
    unfolding parse_or_expr_def parse_and_expr_def
    by (rule reads_weaken [OF wh.reads_or [OF assms [OF Some]]]) auto
  then show ?thesis
    unfolding parse_where_def Some by (auto intro!: reads_match_yes reads_bind_last reads_ret)
qed

lemma reads_group_opt: "reads (optional T_GROUP [] parse_group_by)
    (if g = [] then [] else kw T_GROUP # kw T_BY # commas (map pr_ref g)) g {T_GROUP, T_DOT, T_COMMA}"
proof (cases "g = []")
  case False
  have "reads parse_group_by (kw T_GROUP # kw T_BY # commas (map pr_ref g)) g {T_GROUP, T_DOT, T_COMMA}"
    by (rule reads_weaken [OF reads_group_by [OF False]]) auto
  then show ?thesis unfolding optional_def using False by (auto intro!: reads_check_yes)
qed (auto simp: optional_def intro!: reads_check_no reads_ret)

lemma reads_having_opt:
  "case h of Some h \<Rightarrow> wf_having literal_ok 0 h | None \<Rightarrow> True \<Longrightarrow>
   reads (optional T_HAVING None (bind parse_having (\<lambda>h. ret (Some h))))
     (case h of Some h \<Rightarrow> kw T_HAVING # pr_having h | None \<Rightarrow> []) h {T_HAVING, T_AND, T_OR}"
  unfolding optional_def
  by (cases h) (auto intro!: reads_check_yes reads_check_no reads_ret reads_bind_last [OF reads_having])

lemma reads_order_opt:
  "list_all wf_order b \<Longrightarrow> reads (optional T_ORDER [] parse_order_by)
     (if b = [] then [] else kw T_ORDER # kw T_BY # commas (map pr_order b)) b {T_ORDER, T_DOT, T_DESC, T_ASC, T_COMMA}"
proof (cases "b = []")
  case False
  assume "list_all wf_order b"
  then have "reads parse_order_by (kw T_ORDER # kw T_BY # commas (map pr_order b)) b {T_ORDER, T_DOT, T_DESC, T_ASC, T_COMMA}"
    by (intro reads_weaken [OF reads_order_by [OF False]]) auto
  then show ?thesis unfolding optional_def using False by (auto intro!: reads_check_yes)
qed (auto simp: optional_def intro!: reads_check_no reads_ret)

lemma reads_u32: "reads (parse_u32 s) [(T_INTEGER_LITERAL, to_string (unat n))] n {}"
proof -
  have "unat n < 2 ^ 64" using unsigned_less [of n, where ?'a = nat] by simp
  then have "stoul (to_string (unat n)) = Inr (word_of_nat (unat n))" by (rule stoul_to_string)
  moreover have "ucast (word_of_nat (unat n) :: u64) = n" by (simp add: word_unat_eq_iff unsigned_ucast_eq unat_of_nat take_bit_word_eq_self)
  ultimately show ?thesis
    unfolding parse_u32_def
    by (intro reads_expect_value) (simp_all add: reads_def lift_def bind_def ret_def)
qed

lemma reads_limit:
  "reads (bind (match T_LIMIT) (\<lambda>b. bind (if b then bind (parse_u32 s) (\<lambda>n. ret (Some n)) else ret None) (\<lambda>l. ret (k l))))
     (case l of Some l \<Rightarrow> [kw T_LIMIT, (T_INTEGER_LITERAL, to_string (unat l))] | None \<Rightarrow> []) (k l) {T_LIMIT}"
proof (cases l)
  case None
  have "reads (bind (ret None) (\<lambda>l. ret (k l))) [] (k None) {T_LIMIT}"
    by (rule reads_bind_last [OF reads_ret]) (auto intro: reads_ret)
  then show ?thesis using None by (auto intro!: reads_match_no)
next
  case (Some n)
  have "reads (bind (bind (parse_u32 s) (\<lambda>n. ret (Some n))) (\<lambda>l. ret (k l))) [(T_INTEGER_LITERAL, to_string (unat n))] (k (Some n)) {T_LIMIT}"
    by (rule reads_bind_last, rule reads_bind_last [OF reads_u32]) (auto intro: reads_ret)
  then show ?thesis using Some by (auto intro!: reads_match_yes)
qed

lemma clear_joins:
  assumes "G \<inter> {T_INNER, T_LEFT, T_RIGHT, T_JOIN} = {}"
  shows "clear G (concat (map pr_join js) @ rs) F = (js \<noteq> [] \<or> clear G rs F)"
  using assms pr_join_Cons [of "hd js"] by (cases js) auto

lemma reads_select_stmt:
  assumes "wf_select literal_ok (Select_stmt cs t a js w g h b l)" "\<And>e. w = Some e \<Longrightarrow> wh.at_level 0 (pr_where e) e"
  shows "reads parse_select_body (pr_select (Select_stmt cs t a js w g h b l)) (Select_stmt cs t a js w g h b l) after_select"
proof -
  have wf: "wf_columns literal_ok cs" "case h of Some h \<Rightarrow> wf_having literal_ok 0 h | None \<Rightarrow> True" "list_all wf_order b"
    using assms(1) by simp_all
  show ?thesis
    by (subst select_body_fixpoint, unfold select_body_def pr_select.simps,
        intro reads_expect reads_bind [OF reads_columns [OF wf(1)]] reads_expect_value reads_bind [OF reads_alias]
        reads_bind [OF reads_joins] reads_bind [OF reads_where [OF assms(2)]] reads_bind [OF reads_group_opt]
        reads_bind [OF reads_having_opt [OF wf(2)]] reads_bind [OF reads_order_opt [OF wf(3)]]
        reads_weaken [OF reads_limit])
      (auto simp: clear_append clear_joins clear_joins [where rs = "[]", simplified] split: option.split)
qed

text \<open>Induction over the two mutually recursive types, with the levels of the expressions.\<close>

lemma reads_where_level: "wf_where literal_ok n e \<Longrightarrow> n \<le> 3 \<Longrightarrow> wh.at_level n (pr_where e) e"
  and reads_select: "wf_select literal_ok s \<Longrightarrow> reads parse_select_body (pr_select s) s after_select"
proof (induction e and s arbitrary: n rule: pr_where_pr_select.induct)
  case (1 c op v d s)
  have "reads (parse_compare_expr parse_select_body) (pr_where (Compare c op v d s)) (Compare c op v d s) {T_DOT}"
    using 1 by (intro reads_compare) (auto split: if_splits)
  then have "wh.at_level 3 (pr_where (Compare c op v d s)) (Compare c op v d s)" by (simp add: wh.at_level_def)
  then show ?case by (rule wh.cmp_level [OF _ _ 1(4)]) simp
next
  case (2 l r)
  then show ?case by (auto intro: wh.neg_level)
next
  case (3 l r)
  then show ?case by (auto split: option.splits intro!: wh.conj_level)
next
  case (4 l r)
  then show ?case by (auto split: option.splits intro!: wh.disj_level)
next
  case (5 s)
  obtain qs where qs: "pr_select s = kw T_SELECT # qs" using pr_select_Cons by blast
  have "reads (parse_subquery parse_select_body) (kw T_LPAREN # (kw T_SELECT # qs) @ [kw T_RPAREN]) s {}"
    using 5 unfolding qs by (intro reads_subquery) auto
  then have "reads (bind (parse_subquery parse_select_body) (\<lambda>s. ret (Exists s)))
      (kw T_LPAREN # (kw T_SELECT # qs) @ [kw T_RPAREN]) (Exists s) {T_DOT}"
    by (rule reads_bind_last) (auto intro: reads_ret)
  then have "reads (parse_compare_expr parse_select_body) (pr_where (Exists s)) (Exists s) {T_DOT}"
    unfolding parse_compare_expr_def by (auto simp: qs intro!: reads_check_yes reads_next)
  then have "wh.at_level 3 (pr_where (Exists s)) (Exists s)" by (simp add: wh.at_level_def)
  then show ?case by (rule wh.cmp_level [OF _ _ 5(3)]) simp
next
  case (6 cs t a js w g h b l)
  then show ?case by (intro reads_select_stmt) auto
qed

section \<open>Lists of names\<close>

definition pr_names :: "string list \<Rightarrow> lexeme list" where
  "pr_names ns = kw T_LPAREN # commas (map (\<lambda>n. [(T_IDENTIFIER, n)]) ns) @ [kw T_RPAREN]"

lemma reads_names:
  assumes "ns \<noteq> []"
  shows "reads (comma_list (expect_value T_IDENTIFIER s)) (commas (map (\<lambda>n. [(T_IDENTIFIER, n)]) ns)) ns {T_COMMA}"
  by (rule reads_commas [OF assms, where G = "{}"]) (auto intro: reads_value moving)

lemma reads_column_list: "ns \<noteq> [] \<Longrightarrow> reads parse_column_list (pr_names ns) ns F"
  unfolding parse_column_list_def pr_names_def
  by (auto intro!: reads_expect reads_bind [OF reads_names] reads_ret)

section \<open>CREATE TABLE\<close>

subsection \<open>The printer\<close>

definition pr_type :: "string \<Rightarrow> u32 \<Rightarrow> lexeme list" where
  "pr_type ty n = (if ty = ''INT'' then [kw T_INT_KW] else if ty = ''FLOAT'' then [kw T_FLOAT_KW]
     else if ty = ''BOOLEAN'' then [kw T_BOOLEAN_KW]
     else [kw T_VARCHAR_KW, kw T_LPAREN, (T_INTEGER_LITERAL, to_string (unat n)), kw T_RPAREN])"

definition pr_check :: "where_expr \<Rightarrow> lexeme list" where
  "pr_check e = kw T_CHECK # kw T_LPAREN # pr_where e @ [kw T_RPAREN]"

definition pr_constraints :: "column_def \<Rightarrow> lexeme list" where
  "pr_constraints d = (if cd_is_primary_key d then [kw T_PRIMARY, kw T_KEY] else [])
     @ (if cd_auto_increment d then [kw T_AUTO_INCREMENT] else [])
     @ (if cd_is_unique d then [kw T_UNIQUE] else [])
     @ (if cd_has_default d then kw T_DEFAULT # pr_value (cd_default_value d) else [])
     @ (if \<not> cd_is_nullable d \<and> \<not> cd_is_primary_key d then [kw T_NOT, kw T_NULL_KW] else [])
     @ (if cd_check d \<noteq> None then pr_check (the (cd_check d)) else [])
     @ (if cd_fk_ref_table d \<noteq> [] then [kw T_REFERENCES, (T_IDENTIFIER, cd_fk_ref_table d), kw T_LPAREN,
         (T_IDENTIFIER, cd_fk_ref_column d), kw T_RPAREN] else [])"

definition pr_table_column :: "column_def \<Rightarrow> lexeme list" where
  "pr_table_column d = (T_IDENTIFIER, cd_name d) # pr_type (cd_type_name d) (cd_varchar_len d) @ pr_constraints d"

definition pr_foreign_key :: "foreign_key_def \<Rightarrow> lexeme list" where
  "pr_foreign_key fk = kw T_KEY # pr_names (fd_columns fk) @ kw T_REFERENCES # (T_IDENTIFIER, fd_ref_table fk)
     # pr_names (fd_ref_columns fk) @ (if fd_on_delete fk = FK_CASCADE then [kw T_ON, kw T_DELETE, kw T_CASCADE] else [])"

text \<open>An item and what it adds to the statement.\<close>

definition table_items :: "create_table_stmt \<Rightarrow> (lexeme list \<times> (create_table_stmt \<Rightarrow> create_table_stmt)) list" where
  "table_items t = map (\<lambda>d. (pr_table_column d, \<lambda>s. s\<lparr>ct_columns := ct_columns s @ [d]\<rparr>)) (ct_columns t)
     @ map (\<lambda>e. (pr_check e, \<lambda>s. s\<lparr>ct_table_checks := ct_table_checks s @ [e]\<rparr>)) (ct_table_checks t)
     @ (if ct_table_primary_key t = [] then [] else [(kw T_PRIMARY # kw T_KEY # pr_names (ct_table_primary_key t),
         \<lambda>s. s\<lparr>ct_table_primary_key := ct_table_primary_key t\<rparr>)])
     @ map (\<lambda>u. (kw T_UNIQUE # pr_names u, \<lambda>s. s\<lparr>ct_table_unique := ct_table_unique s @ [u]\<rparr>)) (ct_table_unique t)
     @ map (\<lambda>k. (kw T_FOREIGN # pr_foreign_key k, \<lambda>s. s\<lparr>ct_foreign_keys := ct_foreign_keys s @ [k]\<rparr>)) (ct_foreign_keys t)"

definition wf_column :: "(db_value \<Rightarrow> bool) \<Rightarrow> column_def \<Rightarrow> bool" where
  "wf_column ok d \<longleftrightarrow> (if cd_type_name d \<in> {''INT'', ''FLOAT'', ''BOOLEAN''} then cd_varchar_len d = 0 else cd_type_name d = ''VARCHAR'')
     \<and> (cd_is_primary_key d \<longrightarrow> \<not> cd_is_nullable d) \<and> (if cd_has_default d then ok (cd_default_value d) else cd_default_value d = Null)
     \<and> (case cd_check d of Some e \<Rightarrow> wf_where ok 0 e | None \<Rightarrow> True) \<and> (cd_fk_ref_table d = [] \<longrightarrow> cd_fk_ref_column d = [])"

text \<open>The text of the statement is put in after the parser.\<close>

definition wf_table :: "(db_value \<Rightarrow> bool) \<Rightarrow> create_table_stmt \<Rightarrow> bool" where
  "wf_table ok t \<longleftrightarrow> list_all (wf_column ok) (ct_columns t) \<and> list_all (wf_where ok 0) (ct_table_checks t)
     \<and> [] \<notin> set (ct_table_unique t) \<and> (\<forall>k \<in> set (ct_foreign_keys t). fd_columns k \<noteq> [] \<and> fd_ref_columns k \<noteq> [])
     \<and> table_items t \<noteq> [] \<and> ct_source_text t = []"

subsection \<open>Columns\<close>

abbreviation after_column :: "token_type set" where
  "after_column \<equiv> {T_PRIMARY, T_AUTO_INCREMENT, T_UNIQUE, T_DEFAULT, T_NOT, T_CHECK, T_REFERENCES}"

lemma reads_check_two_yes:
  assumes "reads (f True) ((A, v) # (B, w) # qs) y F"
  shows "reads (bind (check_two A B) f) ((A, v) # (B, w) # qs) y F"
proof (rule readsI)
  fix ts us assume ts: "lexemes ts = (A, v) # (B, w) # qs" and "follows F us"
  then have "f True (ts @ us) = (Inr y, us)" using assms by (intro readsD) auto
  then show "bind (check_two A B) f (ts @ us) = (Inr y, us)"
    using ts by (auto simp: lexemes_Cons bind_def check_two_def gets_def)
qed

lemma bind_bind: "bind (bind m f) g = bind m (\<lambda>x. bind (f x) g)"
  by (auto simp: fun_eq_iff bind_def split: prod.split sum.split)

lemma bind_returned: "bind (ret x) f = f x"
  by (simp add: fun_eq_iff bind_def ret_def)

lemma reads_check_two_no:
  assumes "clear {A} qs F" "reads (f False) qs y F"
  shows "reads (bind (check_two A B) f) qs y F"
proof -
  have "reads (bind (check A) (\<lambda>b. bind (if b then gets (\<lambda>ts. case ts of _ # u # _ \<Rightarrow> tk_type u = B | _ \<Rightarrow> False) else ret False) f)) qs y F"
    by (rule reads_check_no [OF assms(1)]) (simp add: bind_returned assms(2))
  then show ?thesis by (simp add: check_two_def bind_bind)
qed

lemma reads_check_expr:
  assumes "wf_where literal_ok 0 e"
  shows "reads parse_check (kw T_LPAREN # pr_where e @ [kw T_RPAREN]) e F"
proof -
  have "reads (parse_or_expr parse_select_body) (pr_where e) e (insert T_WHERE after_where)"
    unfolding parse_or_expr_def parse_and_expr_def
    by (rule reads_weaken [OF wh.reads_or [OF reads_where_level [OF assms]]]) auto
  then show ?thesis unfolding parse_check_def
    by (intro reads_expect reads_bind) (auto intro!: reads_expect reads_ret)
qed

lemma reads_column_type:
  assumes "if ty \<in> {''INT'', ''FLOAT'', ''BOOLEAN''} then n = 0 else ty = ''VARCHAR''"
  shows "reads parse_column_type (pr_type ty n) (ty, n) F"
proof -
  have "reads (bind (parse_u32 s) (\<lambda>n. andthen (expect T_RPAREN s') (ret (''VARCHAR'', n))))
      ([(T_INTEGER_LITERAL, to_string (unat n))] @ [kw T_RPAREN]) (''VARCHAR'', n) F" for s s'
    by (rule reads_bind [OF reads_u32]) (auto intro!: reads_expect reads_ret)
  then show ?thesis using assms unfolding parse_column_type_def pr_type_def
    by (auto intro!: reads_match_yes reads_match_no reads_expect reads_ret split: if_splits)
qed

lemma constraint_step:
  assumes "b \<Longrightarrow> reads (parse_constraint d) ps (Inl (f d)) {}" "reads (loop parse_constraint (if b then f d else d)) qs x F"
  shows "reads (loop parse_constraint d) ((if b then ps else []) @ qs) x F"
  using assms by (auto intro: reads_loop_step [OF rounds_constraint, where G = "{}"])

lemma constraint_end: "reads (loop parse_constraint d) [] d after_column"
  by (rule reads_loop_end [OF rounds_constraint])
    (auto simp: parse_constraint_def intro!: reads_check_two_no reads_match_no reads_ret)

lemma reads_constraint:
  "reads (parse_constraint d) [kw T_PRIMARY, kw T_KEY] (Inl (d\<lparr>cd_is_primary_key := True, cd_is_nullable := False\<rparr>)) {}"
  "reads (parse_constraint d) [kw T_AUTO_INCREMENT] (Inl (d\<lparr>cd_auto_increment := True\<rparr>)) {}"
  "reads (parse_constraint d) [kw T_UNIQUE] (Inl (d\<lparr>cd_is_unique := True\<rparr>)) {}"
  "literal_ok v \<Longrightarrow> reads (parse_constraint d) (kw T_DEFAULT # pr_value v) (Inl (d\<lparr>cd_has_default := True, cd_default_value := v\<rparr>)) {}"
  "reads (parse_constraint d) [kw T_NOT, kw T_NULL_KW] (Inl (d\<lparr>cd_is_nullable := False\<rparr>)) {}"
  "wf_where literal_ok 0 e \<Longrightarrow> reads (parse_constraint d) (pr_check e) (Inl (d\<lparr>cd_check := Some e\<rparr>)) {}"
  "reads (parse_constraint d) [kw T_REFERENCES, (T_IDENTIFIER, t), kw T_LPAREN, (T_IDENTIFIER, c), kw T_RPAREN]
     (Inl (d\<lparr>cd_fk_ref_table := t, cd_fk_ref_column := c\<rparr>)) {}"
  unfolding parse_constraint_def pr_check_def
  by (auto intro!: reads_check_two_yes reads_check_two_no reads_match_yes reads_match_no reads_next reads_expect reads_expect_value
      reads_ret reads_bind_last [OF reads_value_literal] reads_bind_last [OF reads_check_expr [where F = "{}"]])

lemma reads_constraints:
  assumes "wf_column literal_ok d"
  shows "reads (loop parse_constraint (d\<lparr>cd_is_primary_key := False, cd_is_nullable := True, cd_auto_increment := False,
      cd_is_unique := False, cd_has_default := False, cd_default_value := Null, cd_check := None,
      cd_fk_ref_table := [], cd_fk_ref_column := []\<rparr>)) (pr_constraints d) d after_column"
proof -
  have wf: "cd_is_primary_key d \<longrightarrow> \<not> cd_is_nullable d" "cd_has_default d \<Longrightarrow> literal_ok (cd_default_value d)"
    "\<not> cd_has_default d \<longrightarrow> cd_default_value d = Null" "cd_check d \<noteq> None \<Longrightarrow> wf_where literal_ok 0 (the (cd_check d))"
    "cd_fk_ref_table d = [] \<longrightarrow> cd_fk_ref_column d = []"
    using assms by (auto simp: wf_column_def split: if_splits)
  have last: "reads (loop parse_constraint e) [] d after_column" if "e = d" for e
    using constraint_end that by simp
  show ?thesis unfolding pr_constraints_def
    by (rule constraint_step [where f = "\<lambda>d. d\<lparr>cd_is_primary_key := True, cd_is_nullable := False\<rparr>", OF reads_constraint(1)],
      rule constraint_step [where f = "\<lambda>d. d\<lparr>cd_auto_increment := True\<rparr>", OF reads_constraint(2)],
      rule constraint_step [where f = "\<lambda>d. d\<lparr>cd_is_unique := True\<rparr>", OF reads_constraint(3)],
      rule constraint_step [where f = "\<lambda>e. e\<lparr>cd_has_default := True, cd_default_value := cd_default_value d\<rparr>", OF reads_constraint(4) [OF wf(2)]], assumption,
      rule constraint_step [where f = "\<lambda>d. d\<lparr>cd_is_nullable := False\<rparr>", OF reads_constraint(5)],
      rule constraint_step [where f = "\<lambda>e. e\<lparr>cd_check := Some (the (cd_check d))\<rparr>", OF reads_constraint(6) [OF wf(4)]], assumption,
      rule constraint_step [where f = "\<lambda>e. e\<lparr>cd_fk_ref_table := cd_fk_ref_table d, cd_fk_ref_column := cd_fk_ref_column d\<rparr>",
        OF reads_constraint(7), where qs = "[]", simplified append_Nil2],
      rule last, insert wf(1,3,5), cases d, cases "cd_check d", simp_all)
qed

lemma reads_column_def:
  assumes "wf_column literal_ok d"
  shows "reads parse_column_def (pr_table_column d) d after_column"
proof -
  have t: "if cd_type_name d \<in> {''INT'', ''FLOAT'', ''BOOLEAN''} then cd_varchar_len d = 0 else cd_type_name d = ''VARCHAR''"
    using assms by (simp add: wf_column_def)
  show ?thesis unfolding parse_column_def_def pr_table_column_def
    using reads_constraints [OF assms]
    by (intro reads_expect_value reads_bind [OF reads_column_type [OF t, where F = "{}"]]) (simp_all, cases d, simp)
qed

subsection \<open>Foreign keys\<close>

lemma reads_foreign_key:
  assumes "fd_columns k \<noteq> []" "fd_ref_columns k \<noteq> []"
  shows "reads parse_foreign_key (pr_foreign_key k) k {T_ON}"
proof -
  have d: "reads parse_on_delete (if fd_on_delete k = FK_CASCADE then [kw T_ON, kw T_DELETE, kw T_CASCADE] else []) (fd_on_delete k) {T_ON}"
    unfolding parse_on_delete_def
    by (cases "fd_on_delete k") (auto intro!: reads_match_yes reads_match_no reads_expect reads_ret)
  show ?thesis unfolding parse_foreign_key_def pr_foreign_key_def
    by (intro reads_expect reads_bind [OF reads_column_list [OF assms(1), where F = "{}"]] reads_expect_value
        reads_bind [OF reads_column_list [OF assms(2), where F = "{}"]] reads_bind_last [OF d] reads_ret_eq) simp_all
qed

subsection \<open>Items\<close>

lemma reads_item:
  assumes "wf_table literal_ok t" "(ps, f) \<in> set (table_items t)"
  shows "reads (parse_table_item s) ps (f s) (insert T_ON after_column)"
proof -
  have wf: "\<And>d. d \<in> set (ct_columns t) \<Longrightarrow> wf_column literal_ok d" "\<And>e. e \<in> set (ct_table_checks t) \<Longrightarrow> wf_where literal_ok 0 e"
    "\<And>u. u \<in> set (ct_table_unique t) \<Longrightarrow> u \<noteq> []" "\<And>k. k \<in> set (ct_foreign_keys t) \<Longrightarrow> fd_columns k \<noteq> [] \<and> fd_ref_columns k \<noteq> []"
    using assms(1) by (auto simp: wf_table_def list_all_iff)
  have c: "reads (bind parse_column_def g) (pr_table_column d) x (insert T_ON after_column)"
    if "d \<in> set (ct_columns t)" "reads (g d) [] x (insert T_ON after_column)" for d g x
    by (rule reads_bind_last [OF reads_column_def [OF wf(1) [OF that(1)]]]) (use that(2) in auto)
  have n: "reads (bind parse_column_list g) (pr_names ns) x F" if "ns \<noteq> []" "reads (g ns) [] x F" for ns g x F
    by (rule reads_bind_last [OF reads_column_list [OF that(1), where F = F]]) (use that(2) in auto)
  have k: "reads (bind parse_foreign_key g) (pr_foreign_key k) x (insert T_ON after_column)"
    if "k \<in> set (ct_foreign_keys t)" "reads (g k) [] x (insert T_ON after_column)" for k g x
    by (rule reads_bind_last [OF reads_foreign_key]) (use wf(4) [OF that(1)] that(2) in auto)
  have e: "reads (bind parse_check g) (kw T_LPAREN # pr_where e @ [kw T_RPAREN]) x F"
    if "e \<in> set (ct_table_checks t)" "reads (g e) [] x F" for e g x F
    by (rule reads_bind_last [OF reads_check_expr [OF wf(2) [OF that(1)], where F = F]]) (use that(2) in auto)
  show ?thesis
    using assms(2) unfolding table_items_def set_append
  proof (elim UnE, goal_cases)
    case 1
    then obtain d where d: "d \<in> set (ct_columns t)" "ps = pr_table_column d" "f s = s\<lparr>ct_columns := ct_columns s @ [d]\<rparr>" by auto
    have "reads (bind parse_column_def (\<lambda>d. ret (s\<lparr>ct_columns := ct_columns s @ [d]\<rparr>))) ps (f s) (insert T_ON after_column)"
      unfolding d(2,3) by (rule c [OF d(1) reads_ret])
    then show ?case unfolding parse_table_item_def
      by (auto simp: d(2) pr_table_column_def intro!: reads_check_no reads_check_two_no)
  next
    case 2
    then obtain e' where "e' \<in> set (ct_table_checks t)" "ps = pr_check e'" "f s = s\<lparr>ct_table_checks := ct_table_checks s @ [e']\<rparr>" by auto
    then show ?case unfolding parse_table_item_def pr_check_def by (auto intro!: reads_check_yes reads_next e reads_ret)
  next
    case 3
    then have "ct_table_primary_key t \<noteq> []" "ps = kw T_PRIMARY # kw T_KEY # pr_names (ct_table_primary_key t)"
      "f s = s\<lparr>ct_table_primary_key := ct_table_primary_key t\<rparr>" by (auto split: if_splits)
    then show ?case unfolding parse_table_item_def
      by (auto intro!: reads_check_no reads_check_two_yes reads_next n reads_ret)
  next
    case 4
    then obtain u where "u \<noteq> []" "ps = kw T_UNIQUE # pr_names u" "f s = s\<lparr>ct_table_unique := ct_table_unique s @ [u]\<rparr>" using wf(3) by auto
    then show ?case unfolding parse_table_item_def
      by (auto intro!: reads_check_no reads_check_two_no reads_check_yes reads_next n reads_ret)
  next
    case 5
    then obtain x where "x \<in> set (ct_foreign_keys t)" "ps = kw T_FOREIGN # pr_foreign_key x"
      "f s = s\<lparr>ct_foreign_keys := ct_foreign_keys s @ [x]\<rparr>" by auto
    then show ?case unfolding parse_table_item_def
      by (auto intro!: reads_check_no reads_check_two_no reads_check_yes reads_next k reads_ret)
  qed
qed

lemma reads_items:
  assumes "xs \<noteq> []" "\<And>ps f s. (ps, f) \<in> set xs \<Longrightarrow> reads (parse_table_item s) ps (f s) G" "T_COMMA \<notin> G" "T_RPAREN \<notin> G"
  shows "reads (loop (\<lambda>s. bind (parse_table_item s) (\<lambda>s. bind (match T_COMMA) (\<lambda>b. ret (if b then Inl s else Inr s)))) s)
    (commas (map fst xs)) (fold snd xs s) (insert T_COMMA G)"
proof -
  define body where "body = (\<lambda>s. bind (parse_table_item s) (\<lambda>s. bind (match T_COMMA) (\<lambda>b. ret (if b then Inl s else Inr s))))"
  have r: "rounds n body" for n
    unfolding body_def by (intro roundsI moves_bind [OF keeps_table_item] moves_bind [OF moves_match] impI; simp add: moves_ret)
  have "reads (loop body s) (commas (map fst xs)) (fold snd xs s) (insert T_COMMA G)" for s
    using assms(1,2)
  proof (induction xs arbitrary: s rule: induct_list012)
    case (2 x)
    then have "reads (parse_table_item s) (fst x) (snd x s) G" by (cases x) simp
    then have "reads (body s) (fst x) (Inr (snd x s)) (insert T_COMMA G)" unfolding body_def
      by (rule reads_bind_last) (auto intro!: reads_match_no reads_ret_eq)
    then show ?case by (auto intro: reads_loop_end [OF r])
  next
    case (3 x y zs)
    have "reads (parse_table_item s) (fst x) (snd x s) G" using 3(4) [of "fst x" "snd x"] by simp
    then have "reads (body s) (fst x @ [kw T_COMMA]) (Inl (snd x s)) {}" unfolding body_def
      by (rule reads_bind) (use assms(3) in \<open>auto intro!: reads_match_yes reads_ret_eq\<close>)
    moreover have "reads (loop body (snd x s)) (commas (map fst (y # zs))) (fold snd (y # zs) (snd x s)) (insert T_COMMA G)"
      by (rule "3.IH"(2)) (use 3(4) in auto)
    ultimately have "reads (loop body s) ((fst x @ [kw T_COMMA]) @ commas (map fst (y # zs))) (fold snd (y # zs) (snd x s)) (insert T_COMMA G)"
      by (intro reads_loop_step [OF r]) auto
    then show ?case by simp
  qed simp
  then show ?thesis by (simp add: body_def)
qed

lemma fold_items:
  fixes s :: create_table_stmt
  shows "fold snd (map (\<lambda>d. (pr_table_column d, \<lambda>s. s\<lparr>ct_columns := ct_columns s @ [d]\<rparr>)) ds) s = s\<lparr>ct_columns := ct_columns s @ ds\<rparr>"
    "fold snd (map (\<lambda>e. (pr_check e, \<lambda>s. s\<lparr>ct_table_checks := ct_table_checks s @ [e]\<rparr>)) es) s = s\<lparr>ct_table_checks := ct_table_checks s @ es\<rparr>"
    "fold snd (map (\<lambda>u. (kw T_UNIQUE # pr_names u, \<lambda>s. s\<lparr>ct_table_unique := ct_table_unique s @ [u]\<rparr>)) us) s
      = s\<lparr>ct_table_unique := ct_table_unique s @ us\<rparr>"
    "fold snd (map (\<lambda>k. (kw T_FOREIGN # pr_foreign_key k, \<lambda>s. s\<lparr>ct_foreign_keys := ct_foreign_keys s @ [k]\<rparr>)) ks) s
      = s\<lparr>ct_foreign_keys := ct_foreign_keys s @ ks\<rparr>"
proof -
  have g: "fold snd (map (\<lambda>x. (h x, p x)) xs) s = q xs s" if "\<And>s. q [] s = s" "\<And>x xs s. q xs (p x s) = q (x # xs) s"
    for h :: "'x \<Rightarrow> lexeme list" and p q and xs :: "'x list" and s :: create_table_stmt
    using that by (induction xs arbitrary: s) simp_all
  show "fold snd (map (\<lambda>d. (pr_table_column d, \<lambda>s. s\<lparr>ct_columns := ct_columns s @ [d]\<rparr>)) ds) s = s\<lparr>ct_columns := ct_columns s @ ds\<rparr>"
    by (rule g [of "\<lambda>ds s. s\<lparr>ct_columns := ct_columns s @ ds\<rparr>"]) simp_all
  show "fold snd (map (\<lambda>e. (pr_check e, \<lambda>s. s\<lparr>ct_table_checks := ct_table_checks s @ [e]\<rparr>)) es) s = s\<lparr>ct_table_checks := ct_table_checks s @ es\<rparr>"
    by (rule g [of "\<lambda>es s. s\<lparr>ct_table_checks := ct_table_checks s @ es\<rparr>"]) simp_all
  show "fold snd (map (\<lambda>u. (kw T_UNIQUE # pr_names u, \<lambda>s. s\<lparr>ct_table_unique := ct_table_unique s @ [u]\<rparr>)) us) s
      = s\<lparr>ct_table_unique := ct_table_unique s @ us\<rparr>"
    by (rule g [of "\<lambda>us s. s\<lparr>ct_table_unique := ct_table_unique s @ us\<rparr>"]) simp_all
  show "fold snd (map (\<lambda>k. (kw T_FOREIGN # pr_foreign_key k, \<lambda>s. s\<lparr>ct_foreign_keys := ct_foreign_keys s @ [k]\<rparr>)) ks) s
      = s\<lparr>ct_foreign_keys := ct_foreign_keys s @ ks\<rparr>"
    by (rule g [of "\<lambda>ks s. s\<lparr>ct_foreign_keys := ct_foreign_keys s @ ks\<rparr>"]) simp_all
qed

definition pr_create_table :: "create_table_stmt \<Rightarrow> lexeme list" where
  "pr_create_table t = kw T_TABLE # (T_IDENTIFIER, ct_table_name t) # kw T_LPAREN # commas (map fst (table_items t)) @ [kw T_RPAREN]"

lemma reads_create_table:
  assumes "wf_table literal_ok t"
  shows "reads parse_create_table (pr_create_table t) (Create_table t) F"
proof -
  let ?s = "\<lparr>ct_table_name = ct_table_name t, ct_columns = [], ct_table_checks = [], ct_table_primary_key = [],
        ct_table_unique = [], ct_foreign_keys = [], ct_source_text = []\<rparr>"
  have f: "fold snd (table_items t) ?s = t"
    using assms by (cases t) (simp add: table_items_def fold_items wf_table_def)
  have "reads (loop (\<lambda>s. bind (parse_table_item s) (\<lambda>s. bind (match T_COMMA) (\<lambda>b. ret (if b then Inl s else Inr s)))) ?s)
    (commas (map fst (table_items t))) t (insert T_COMMA (insert T_ON after_column))"
    using reads_items [of "table_items t" "insert T_ON after_column" ?s] reads_item [OF assms] assms unfolding f
    by (auto simp: wf_table_def)
  then show ?thesis unfolding parse_create_table_def pr_create_table_def
    by (intro reads_expect reads_expect_value reads_bind) (auto intro!: reads_expect reads_ret)
qed

section \<open>Statements\<close>

definition pr_where_opt :: "where_expr option \<Rightarrow> lexeme list" where
  "pr_where_opt w = (case w of Some w \<Rightarrow> kw T_WHERE # pr_where w | None \<Rightarrow> [])"

definition pr_slot :: "db_value \<times> bool \<Rightarrow> lexeme list" where
  "pr_slot s = (if snd s then [kw T_DEFAULT] else pr_value (fst s))"

definition slot_ok :: "(db_value \<Rightarrow> bool) \<Rightarrow> db_value \<times> bool \<Rightarrow> bool" where
  "slot_ok ok s = (if snd s then fst s = Null else ok (fst s))"

definition pr_set :: "set_clause \<Rightarrow> lexeme list" where
  "pr_set c = (T_IDENTIFIER, set_column_name c) # kw T_EQ # pr_slot (set_value c, set_is_default c)"

fun pr_statement :: "statement \<Rightarrow> lexeme list" where
  "pr_statement (Select s) = pr_select s"
| "pr_statement (Insert i) = kw T_INSERT # kw T_INTO # (T_IDENTIFIER, is_table_name i)
     # (if is_columns i = [] then [] else pr_names (is_columns i))
     @ kw T_VALUES # kw T_LPAREN # commas (map pr_slot (zip (is_values i) (is_value_is_default i))) @ [kw T_RPAREN]"
| "pr_statement (Update u) = kw T_UPDATE # (T_IDENTIFIER, us_table_name u) # kw T_SET
     # commas (map pr_set (us_assignments u)) @ pr_where_opt (us_where u)"
| "pr_statement (Delete d) = kw T_DELETE # kw T_FROM # (T_IDENTIFIER, ds_table_name d) # pr_where_opt (ds_where d)"
| "pr_statement (Create_table t) = kw T_CREATE # pr_create_table t"
| "pr_statement (Drop_table n) = [kw T_DROP, kw T_TABLE, (T_IDENTIFIER, n)]"
| "pr_statement (Create_index i) = kw T_CREATE # (if ci_is_unique i then [kw T_UNIQUE] else [])
     @ kw T_INDEX # (T_IDENTIFIER, ci_index_name i) # kw T_ON # (T_IDENTIFIER, ci_table_name i) # pr_names (ci_column_names i)"
| "pr_statement (Drop_index n) = [kw T_DROP, kw T_INDEX, (T_IDENTIFIER, n)]"
| "pr_statement (Create_database n) = [kw T_CREATE, kw T_DATABASE, (T_IDENTIFIER, n)]"
| "pr_statement (Drop_database n) = [kw T_DROP, kw T_DATABASE, (T_IDENTIFIER, n)]"
| "pr_statement (Use n) = [kw T_USE, (T_IDENTIFIER, n)]"
| "pr_statement (Show t) = [kw T_SHOW, kw (case t of S_TABLES \<Rightarrow> T_TABLES | S_DATABASES \<Rightarrow> T_DATABASES)]"
| "pr_statement (Describe n) = [kw T_DESCRIBE, (T_IDENTIFIER, n)]"

definition wf_where_opt :: "(db_value \<Rightarrow> bool) \<Rightarrow> where_expr option \<Rightarrow> bool" where
  "wf_where_opt ok w = (case w of Some w \<Rightarrow> wf_where ok 0 w | None \<Rightarrow> True)"

fun wf_statement :: "(db_value \<Rightarrow> bool) \<Rightarrow> statement \<Rightarrow> bool" where
  "wf_statement ok (Select s) = wf_select ok s"
| "wf_statement ok (Insert i) = (is_values i \<noteq> [] \<and> length (is_value_is_default i) = length (is_values i)
     \<and> list_all (slot_ok ok) (zip (is_values i) (is_value_is_default i)))"
| "wf_statement ok (Update u) = (us_assignments u \<noteq> [] \<and> wf_where_opt ok (us_where u)
     \<and> list_all (\<lambda>c. slot_ok ok (set_value c, set_is_default c)) (us_assignments u))"
| "wf_statement ok (Delete d) = wf_where_opt ok (ds_where d)"
| "wf_statement ok (Create_table t) = wf_table ok t"
| "wf_statement ok (Create_index i) = (ci_column_names i \<noteq> [])"
| "wf_statement ok _ = True"

lemma reads_slot:
  assumes "slot_ok literal_ok s"
  shows "reads (bind (check T_DEFAULT) (\<lambda>b. if b then andthen next_tok (ret (f Null True))
    else bind parse_value (\<lambda>v. ret (f v False)))) (pr_slot s) (f (fst s) (snd s)) {}"
proof (cases "snd s")
  case True
  then show ?thesis using assms
    by (auto simp: pr_slot_def slot_ok_def intro!: reads_check_yes reads_next reads_ret)
next
  case False
  then have v: "literal_ok (fst s)" using assms by (simp add: slot_ok_def)
  have "reads (bind parse_value (\<lambda>v. ret (f v False))) (pr_value (fst s)) (f (fst s) False) {}"
    by (rule reads_bind_last [OF reads_value_literal [OF v]]) (auto intro: reads_ret)
  then show ?thesis
    using False pr_value_Cons [OF v] by (auto simp: pr_slot_def intro!: reads_check_no)
qed

lemma reads_value_list:
  assumes "xs \<noteq> []" "list_all (slot_ok literal_ok) xs"
  shows "reads parse_value_list (kw T_LPAREN # commas (map pr_slot xs) @ [kw T_RPAREN]) xs F"
proof -
  define p where "p = bind (check T_DEFAULT) (\<lambda>b.
        if b then andthen next_tok (ret (Null, True)) else bind parse_value (\<lambda>v. ret (v, False)))"
  have "reads p (pr_slot s) s {}" if "s \<in> set xs" for s
    using reads_slot [of s Pair] assms(2) that by (auto simp: p_def list_all_iff)
  moreover have "keeps n p" for n unfolding p_def by (intro moving)
  ultimately have "reads (comma_list p) (commas (map pr_slot xs)) xs {T_COMMA}"
    by (intro reads_commas [OF assms(1), where G = "{}"]) auto
  then have "reads (bind (comma_list p) (\<lambda>vals. andthen (expect T_RPAREN ''value list'') (ret vals)))
      (commas (map pr_slot xs) @ [kw T_RPAREN]) xs F"
    by (rule reads_bind) (auto intro!: reads_expect reads_ret)
  then show ?thesis unfolding parse_value_list_def p_def by (intro reads_expect) simp_all
qed

lemma reads_where_opt:
  "wf_where_opt literal_ok w \<Longrightarrow> reads (parse_where parse_select_body) (pr_where_opt w) w (insert T_WHERE after_where)"
  unfolding pr_where_opt_def by (rule reads_where) (auto simp: wf_where_opt_def intro: reads_where_level)

lemma reads_insert:
  assumes "wf_statement literal_ok (Insert i)"
  shows "reads parse_insert (pr_statement (Insert i)) (Insert i) F"
proof -
  define vs where "vs = zip (is_values i) (is_value_is_default i)"
  have vs: "vs \<noteq> []" "list_all (slot_ok literal_ok) vs" "map fst vs = is_values i" "map snd vs = is_value_is_default i"
    using assms by (cases "is_values i"; cases "is_value_is_default i"; simp add: vs_def)+
  let ?cols = "\<lambda>b. if b then bind (identifiers ''INSERT column list'') (\<lambda>cols.
         andthen (expect T_RPAREN ''INSERT column list'') (ret cols)) else ret []"
  have v: "reads (andthen (expect T_VALUES ''INSERT VALUES'') (bind parse_value_list (\<lambda>vals.
      ret (Insert \<lparr>is_table_name = is_table_name i, is_columns = is_columns i, is_values = map fst vals,
       is_value_is_default = map snd vals\<rparr>))))
      (kw T_VALUES # kw T_LPAREN # commas (map pr_slot vs) @ [kw T_RPAREN]) (Insert i) F"
    by (intro reads_expect reads_bind_last [OF reads_value_list [OF vs(1,2), where F = F]] reads_ret_eq) (simp_all add: vs)
  show ?thesis
  proof (cases "is_columns i = []")
    case True
    then have "reads (bind (?cols False) (\<lambda>cols. andthen (expect T_VALUES ''INSERT VALUES'') (bind parse_value_list (\<lambda>vals.
      ret (Insert \<lparr>is_table_name = is_table_name i, is_columns = cols, is_values = map fst vals,
       is_value_is_default = map snd vals\<rparr>)))))
      ([] @ kw T_VALUES # kw T_LPAREN # commas (map pr_slot vs) @ [kw T_RPAREN]) (Insert i) F"
      using v by (intro reads_bind [where x = "[]" and G = "{}"]) (auto intro: reads_ret)
    then show ?thesis
      unfolding parse_insert_def pr_statement.simps vs_def [symmetric] using True
      by (intro reads_expect reads_expect_value) (auto intro!: reads_match_no)
  next
    case False
    have "reads (?cols True) (commas (map (\<lambda>n. [(T_IDENTIFIER, n)]) (is_columns i)) @ [kw T_RPAREN]) (is_columns i) {}"
      unfolding identifiers_def if_True
      by (rule reads_bind [OF reads_names [OF False]]) (auto intro!: reads_expect reads_ret)
    then have "reads (bind (?cols True) (\<lambda>cols. andthen (expect T_VALUES ''INSERT VALUES'') (bind parse_value_list (\<lambda>vals.
      ret (Insert \<lparr>is_table_name = is_table_name i, is_columns = cols, is_values = map fst vals,
       is_value_is_default = map snd vals\<rparr>)))))
      ((commas (map (\<lambda>n. [(T_IDENTIFIER, n)]) (is_columns i)) @ [kw T_RPAREN])
        @ kw T_VALUES # kw T_LPAREN # commas (map pr_slot vs) @ [kw T_RPAREN]) (Insert i) F"
      by (rule reads_bind) (use v in simp_all)
    then show ?thesis
      unfolding parse_insert_def pr_statement.simps vs_def [symmetric] pr_names_def using False
      by (intro reads_expect reads_expect_value) (auto intro!: reads_match_yes)
  qed
qed

lemma reads_assignment:
  assumes "slot_ok literal_ok (set_value c, set_is_default c)"
  shows "reads parse_assignment (pr_set c) c {}"
proof -
  let ?f = "\<lambda>v d. \<lparr>set_column_name = set_column_name c, set_value = v, set_is_default = d\<rparr>"
  have c: "\<lparr>set_column_name = set_column_name c, set_value = set_value c, set_is_default = set_is_default c\<rparr> = c"
    by (cases c) simp
  have "reads (bind (check T_DEFAULT) (\<lambda>b. if b then andthen next_tok (ret (?f Null True))
      else bind parse_value (\<lambda>v. ret (?f v False)))) (pr_slot (set_value c, set_is_default c)) c {}"
    by (rule reads_slot [OF assms, of ?f, unfolded prod.sel c])
  then show ?thesis unfolding parse_assignment_def pr_set_def by (intro reads_expect_value reads_expect) simp_all
qed

lemma reads_update:
  assumes "wf_statement literal_ok (Update u)"
  shows "reads parse_update (pr_statement (Update u)) (Update u) after_select"
proof -
  have "reads (comma_list parse_assignment) (commas (map pr_set (us_assignments u))) (us_assignments u) {T_COMMA}"
    using assms by (intro reads_commas [where G = "{}"] moving) (auto simp: list_all_iff intro: reads_assignment)
  moreover have "reads (bind (parse_where parse_select_body) (\<lambda>cond. ret (Update
      \<lparr>us_table_name = us_table_name u, us_assignments = us_assignments u, us_where = cond\<rparr>)))
      (pr_where_opt (us_where u)) (Update u) after_select"
    using assms by (intro reads_bind_last [OF reads_where_opt] reads_ret_eq) auto
  ultimately show ?thesis
    unfolding parse_update_def pr_statement.simps
    by (intro reads_expect reads_expect_value reads_bind) (auto simp: pr_where_opt_def split: option.split)
qed

lemma reads_delete:
  assumes "wf_statement literal_ok (Delete d)"
  shows "reads parse_delete (pr_statement (Delete d)) (Delete d) after_select"
proof -
  have "reads (bind (parse_where parse_select_body) (\<lambda>cond. ret (Delete
      \<lparr>ds_table_name = ds_table_name d, ds_where = cond\<rparr>))) (pr_where_opt (ds_where d)) (Delete d) after_select"
    using assms by (intro reads_bind_last [OF reads_where_opt] reads_ret_eq) auto
  then show ?thesis
    unfolding parse_delete_def pr_statement.simps by (intro reads_expect reads_expect_value) auto
qed

lemma reads_create_index:
  assumes "ci_column_names i \<noteq> []"
  shows "reads parse_create_index ((if ci_is_unique i then [kw T_UNIQUE] else []) @ kw T_INDEX # (T_IDENTIFIER, ci_index_name i)
    # kw T_ON # (T_IDENTIFIER, ci_table_name i) # pr_names (ci_column_names i)) (Create_index i) F"
proof -
  have "reads (andthen (expect T_INDEX ''CREATE INDEX'') (bind (expect_value T_IDENTIFIER ''CREATE INDEX name'') (\<lambda>n.
     andthen (expect T_ON ''CREATE INDEX ... ON table'')
     (bind (expect_value T_IDENTIFIER ''CREATE INDEX ON table name'') (\<lambda>table. bind parse_column_list (\<lambda>cols.
     ret (Create_index \<lparr>ci_index_name = n, ci_table_name = table, ci_column_names = cols, ci_is_unique = u\<rparr>)))))))
     (kw T_INDEX # (T_IDENTIFIER, ci_index_name i) # kw T_ON # (T_IDENTIFIER, ci_table_name i) # pr_names (ci_column_names i))
     (Create_index i) F" if "u = ci_is_unique i" for u
    using that assms
    by (intro reads_expect reads_expect_value reads_bind_last [OF reads_column_list] reads_ret_eq) auto
  then show ?thesis unfolding parse_create_index_def by (auto intro!: reads_match_yes reads_match_no)
qed

lemma reads_select_statement: "wf_select literal_ok s \<Longrightarrow> reads parse_select (pr_select s) (Select s) after_select"
  unfolding parse_select_def by (rule reads_bind_last [OF reads_select]) (auto intro: reads_ret)

lemma reads_statement:
  assumes "wf_statement literal_ok s"
  shows "reads parse_statement (pr_statement s) s after_select"
proof (cases s)
  case (Select q)
  then show ?thesis
    using reads_select_statement [of q] assms pr_select_Cons [of q]
    by (auto simp: parse_statement_def intro!: reads_check_yes)
next
  case (Insert i)
  then show ?thesis
    using reads_insert [of i after_select] assms
    by (auto simp: parse_statement_def intro!: reads_check_yes reads_check_no)
next
  case (Update u)
  then show ?thesis
    using reads_update [of u] assms
    by (auto simp: parse_statement_def intro!: reads_check_yes reads_check_no)
next
  case (Delete d)
  then show ?thesis
    using reads_delete [of d] assms
    by (auto simp: parse_statement_def intro!: reads_check_yes reads_check_no)
next
  case (Create_table t)
  then show ?thesis
    using reads_create_table [of t after_select] assms
    by (auto simp: parse_statement_def parse_create_def pr_create_table_def intro!: reads_check_yes reads_check_no reads_next)
next
  case (Create_index i)
  then show ?thesis
    using reads_create_index [of i after_select] assms
    by (cases "ci_is_unique i") (auto simp: parse_statement_def parse_create_def intro!: reads_check_yes reads_check_no reads_next)
next
  case (Show t)
  have "reads (bind (match_first [(T_TABLES, S_TABLES), (T_DATABASES, S_DATABASES)] other) (\<lambda>target. ret (Show target)))
      [kw (case t of S_TABLES \<Rightarrow> T_TABLES | S_DATABASES \<Rightarrow> T_DATABASES)] (Show t) after_select" for other
    by (rule reads_bind_last [where G = "{}"], rule reads_match_first [where x = t]; cases t) (auto intro: reads_ret)
  then show ?thesis
    unfolding Show parse_statement_def parse_show_def
    by (auto simp del: match_first.simps intro!: reads_check_yes reads_check_no reads_expect)
qed (use assms in \<open>auto simp: parse_statement_def parse_drop_def parse_create_def parse_drop_table_def parse_drop_index_def
    parse_drop_database_def parse_create_database_def parse_use_def parse_show_def parse_describe_def
    intro!: reads_check_yes reads_check_no reads_next reads_expect reads_expect_value reads_ret\<close>)

section \<open>Properties\<close>

text \<open>
  Parsing undoes printing, for every kind of statement: the tokens of a printed
  statement, wherever they stand in the input and with or without a semicolon behind them, are parsed
  back to that statement. Expressions must be trees that the grammar's precedences can express (OR above AND
  above NOT above comparisons, each to the left); float literals are excluded, and the smallest INT.
\<close>

lemma parse_prints:
  assumes "wf_statement literal_ok s" "lexemes ts = pr_statement s @ (if semicolon then [kw T_SEMICOLON] else [])"
    "tk_type e = T_END_OF_FILE"
  shows "parse (ts @ [e]) = Inr s"
proof -
  have s: "parse_statement (us @ u # vs) = (Inr s, u # vs)"
    if "lexemes us = pr_statement s" "tk_type u \<in> {T_SEMICOLON, T_END_OF_FILE}" for us u vs
    using readsD [of parse_statement us s after_select "u # vs"] reads_statement [OF assms(1)] that
    by (auto simp: follows_def)
  show ?thesis
  proof (cases semicolon)
    case True
    then obtain us c where "ts = us @ [c]" "lexemes us = pr_statement s" "tk_type c = T_SEMICOLON"
      using assms(2) by (auto simp: lexemes_Cons dest!: lexemes_append)
    then show ?thesis using s [of us c "[e]"] assms(3)
      by (simp add: parse_def result_def bind_def andthen_def ret_def)
  next
    case False
    then show ?thesis using s [of ts e "[]"] assms(2,3)
      by (simp add: parse_def result_def bind_def andthen_def ret_def)
  qed
qed

definition sample_where :: where_expr where
  "sample_where = Logical L_OR
     (Compare \<lparr>cr_table_name = [], cr_column_name = ''a''\<rparr> C_EQ (IntV 1) None None)
     (Some (Logical L_AND
       (Logical L_NOT (Exists (Select_stmt [empty_select_column\<lparr>sc_is_star := True\<rparr>] ''u'' [] [] None [] None [] (Some 1))) None)
       (Some (Compare \<lparr>cr_table_name = ''t'', cr_column_name = ''b''\<rparr> C_IS_NULL Null None None))))"

definition sample_statement :: statement where
  "sample_statement = Delete \<lparr>ds_table_name = ''t'', ds_where = Some sample_where\<rparr>"

lemma sample_statement_wf: "wf_statement literal_ok sample_statement"
  by (simp add: sample_statement_def sample_where_def wf_where_opt_def wf_columns_def)

lemma parse_print_example:
  "parse (map (\<lambda>(T, v). mk_token T v (7, 9)) (pr_statement sample_statement) @ [mk_token T_END_OF_FILE [] (8, 1)])
     = Inr sample_statement"
  by (rule parse_prints [of _ _ False]) (simp_all add: sample_statement_wf lexemes_def mk_token_def case_prod_beta comp_def)

text \<open>A statement as SQL text: its lexemes with a space behind each.\<close>

definition lexeme_token :: "lexeme \<Rightarrow> token" where
  "lexeme_token l = mk_token (fst l) (snd l) (1, 1)"

definition sql_text :: "statement \<Rightarrow> string" where
  "sql_text s = concat (map (\<lambda>l. token_text (lexeme_token l) @ '' '') (pr_statement s))"

definition sample_create :: statement where
  "sample_create = Create_table \<lparr>ct_table_name = ''t'', ct_columns =
     [\<lparr>cd_name = ''a'', cd_type_name = ''INT'', cd_varchar_len = 0, cd_is_primary_key = True, cd_is_nullable = False,
        cd_auto_increment = True, cd_is_unique = False, cd_has_default = False, cd_default_value = Null, cd_check = None,
        cd_fk_ref_table = [], cd_fk_ref_column = []\<rparr>,
      \<lparr>cd_name = ''b'', cd_type_name = ''VARCHAR'', cd_varchar_len = 9, cd_is_primary_key = False, cd_is_nullable = False,
        cd_auto_increment = False, cd_is_unique = True, cd_has_default = True, cd_default_value = StringV ''x'', cd_check = None,
        cd_fk_ref_table = ''p'', cd_fk_ref_column = ''k''\<rparr>],
     ct_table_checks = [Compare \<lparr>cr_table_name = [], cr_column_name = ''a''\<rparr> C_GT (IntV 0) None None],
     ct_table_primary_key = [], ct_table_unique = [[''a'', ''b'']],
     ct_foreign_keys = [\<lparr>fd_columns = [''a''], fd_ref_table = ''p'', fd_ref_columns = [''k''], fd_on_delete = FK_CASCADE\<rparr>],
     ct_source_text = []\<rparr>"

text \<open>What the lexer can spell, as a test that computes.\<close>

definition spelled :: "lexeme \<Rightarrow> bool" where
  "spelled l \<longleftrightarrow> fst l = T_STRING_LITERAL \<or> is_operator (lexeme_token l)
     \<or> (case snd l of [] \<Rightarrow> False | c # _ \<Rightarrow> is_alpha c \<or> c = CHR ''_'') \<and> list_all is_ident (snd l) \<and> fst l = keyword_or_identifier (snd l)
     \<or> fst l = T_INTEGER_LITERAL \<and> snd l \<noteq> [] \<and> list_all is_digit (snd l)"

lemma writable_spelled: "spelled l \<Longrightarrow> writable (lexeme_token l)"
  by (cases "snd l") (auto simp: spelled_def writable_def is_number_def is_word_def lexeme_token_def mk_token_def)

lemma sample_create_spelled: "list_all spelled (pr_statement sample_create)"
  by code_simp

text \<open>
  Property C21. Lexer and parser together undo printing: the text of a statement of any of the thirteen kinds, whose
  names and literals the lexer can spell, is read back as that statement. A CREATE TABLE is printed with its columns
  (type, length, every constraint, DEFAULT, CHECK and REFERENCES), then the table constraints. Expressions must be trees
  that the grammar's precedences can express. Not covered are float literals, whose decimal expansion the printer does not
  have, the smallest INT, which has no literal, and, as nothing prints them, the second spellings of the grammar: constraints
  in another order or repeated, ON DELETE RESTRICT in words, ASC in words, and redundant parentheses.
\<close>

theorem sql_roundtrip:
  assumes "wf_statement literal_ok s" "list_all (\<lambda>l. writable (lexeme_token l)) (pr_statement s)"
  shows "sbind (tokenize (sql_text s)) parse = Inr s"
proof -
  have printed: "sql_text s = concat (map (\<lambda>t. token_text t @ '' '') (map lexeme_token (pr_statement s)))"
    by (simp add: sql_text_def comp_def)
  obtain us where us: "tokenize (sql_text s) = Inr us"
    "map (\<lambda>t. (tk_type t, tk_value t)) us = pr_statement s @ [(T_END_OF_FILE, [])]"
    using tokenize_from_print [of "map lexeme_token (pr_statement s)" "(1, 1)"] assms(2)
    by (auto simp: printed tokenize_def list_all_iff lexeme_token_def mk_token_def comp_def)
  then obtain ts e where "us = ts @ [e]" "lexemes ts = pr_statement s" "tk_type e = T_END_OF_FILE"
    by (auto simp: lexemes_def map_eq_append_conv)
  then show ?thesis using parse_prints [of s ts False e] assms(1) us(1) by simp
qed

theorem sql_roundtrip_witness:
  "sbind (tokenize (sql_text sample_create)) parse = Inr sample_create \<and> sbind (tokenize (sql_text (Use ''db1''))) parse = Inr (Use ''db1'')"
proof
  have w: "wf_statement literal_ok sample_create"
    by (simp add: sample_create_def wf_table_def wf_column_def table_items_def)
  show "sbind (tokenize (sql_text sample_create)) parse = Inr sample_create"
    using sample_create_spelled by (intro sql_roundtrip [OF w]) (auto simp: list_all_iff intro: writable_spelled)
  show "sbind (tokenize (sql_text (Use ''db1''))) parse = Inr (Use ''db1'')"
    by (rule sql_roundtrip)
      (simp_all add: lexeme_token_def mk_token_def writable_def is_word_def token_type_name_def token_type_names_def
        keyword_or_identifier_def keyword_table_def is_ident_def is_alpha_def is_upper_def is_lower_def is_digit_def to_upper_def)
qed

text \<open>
  Where number literals end: with or without a minus sign, digits that denote \<open>2 ^ 31\<close> or more are
  out of range, so the smallest INT has no literal (the sign is applied after \<open>stoi\<close>); and a row limit or
  VARCHAR length is taken modulo \<open>2 ^ 32\<close>, as the cast keeps the low 32 of the 64 bits of \<open>stoul\<close>:
  \<open>LIMIT 4294967296\<close> is \<open>LIMIT 0\<close>.
\<close>
lemma number_limits:
  assumes "tk_type t = T_INTEGER_LITERAL" "tk_value t = to_string n"
  shows "(2 ^ 31 \<le> n \<and> tk_type m = T_MINUS \<longrightarrow> result (parse_value (t # us)) = Inl (Out_of_range ''stoi'')
      \<and> result (parse_value (m # t # us)) = Inl (Out_of_range ''stoi''))
    \<and> (n < 2 ^ 64 \<longrightarrow> result (parse_u32 ctxt (t # us)) = Inr (word_of_nat (n mod 2 ^ 32)))"
  using assms stoi_overflow [of n] stoul_to_string [of n]
  by (simp_all add: parse_value_def parse_u32_def expect_value_def bind_def ret_def throw_def lift_def result_def
      word_unat_eq_iff unsigned_ucast_eq unat_of_nat take_bit_eq_mod)

lemma number_limits_example:
  "result (parse_u32 ''LIMIT'' [mk_token T_INTEGER_LITERAL (to_string (2 ^ 32)) (1, 1)]) = Inr 0"
  using number_limits [of "mk_token T_INTEGER_LITERAL (to_string (2 ^ 32)) (1, 1)" "2 ^ 32" _ "[]" "''LIMIT''"]
  by (simp add: mk_token_def)

end
