(* ===== verification/Parser_Shape.thy ===== *)
theory Parser_Shape
  imports Parser_Print
begin

text \<open>
  What the parser's results look like: the trees it builds obey the precedences of the grammar, and the
  fields of a node that its kind does not use hold their defaults.
\<close>

section \<open>Postconditions of parsers\<close>

definition yields :: "'a parser \<Rightarrow> ('a \<Rightarrow> bool) \<Rightarrow> bool" where
  "yields p P = (\<forall>ts x t. p ts = (Inr x, t) \<longrightarrow> P x)"

named_theorems yielding \<open>introduction rules of yields\<close>

lemma yields_mono: "yields p P \<Longrightarrow> (\<And>x. P x \<Longrightarrow> Q x) \<Longrightarrow> yields p Q"
  by (auto simp: yields_def)

lemma yields_any: "yields p (\<lambda>_. True)"
  by (simp add: yields_def)

lemma yields_bind: "yields p P \<Longrightarrow> (\<And>x. P x \<Longrightarrow> yields (f x) Q) \<Longrightarrow> yields (bind p f) Q"
  unfolding yields_def bind_def by (fastforce split: prod.splits sum.splits)

lemma yields_bind_any [yielding]: "(\<And>x. yields (f x) Q) \<Longrightarrow> yields (bind p f) Q"
  by (rule yields_bind [OF yields_any])

lemma yields_andthen [yielding]: "yields q Q \<Longrightarrow> yields (andthen p q) Q"
  unfolding andthen_def by (rule yields_bind_any)

lemma yields_ret [yielding]: "P x \<Longrightarrow> yields (ret x) P"
  by (simp add: yields_def ret_def)

lemma yields_syntax_error [yielding]: "yields (syntax_error s) P"
  by (auto simp: yields_def syntax_error_def bind_def throw_def peek_def split: list.splits)

lemma yields_if [yielding]: "(b \<Longrightarrow> yields p P) \<Longrightarrow> (\<not> b \<Longrightarrow> yields q P) \<Longrightarrow> yields (if b then p else q) P"
  by simp

lemma yields_case_option [yielding]:
  "yields p P \<Longrightarrow> (\<And>y. x = Some y \<Longrightarrow> yields (f y) P) \<Longrightarrow> yields (case x of None \<Rightarrow> p | Some y \<Rightarrow> f y) P"
  by (cases x) auto

lemma yields_match_first:
  "list_all P (map snd cs) \<Longrightarrow> yields other P \<Longrightarrow> yields (match_first cs other) P"
  by (induction cs other rule: match_first.induct) (auto intro: yielding)

lemma yields_on_token:
  "list_all (\<lambda>c. yields (snd c) P) cs \<Longrightarrow> yields other P \<Longrightarrow> yields (on_token cs other) P"
  by (induction cs other rule: on_token.induct) (auto intro: yielding)

lemma yields_loop:
  assumes "\<And>a. I a \<Longrightarrow> yields (body a) (\<lambda>r. case r of Inl a' \<Rightarrow> I a' | Inr b \<Rightarrow> Q b)" "I a"
  shows "yields (loop body a) Q"
proof -
  have "I a \<Longrightarrow> yields (loop_fuel k body a) Q" for k a
  proof (induction k arbitrary: a)
    case (Suc k)
    show ?case unfolding loop_fuel.simps
      by (rule yields_bind [OF assms(1) [OF Suc.prems]]) (auto split: sum.splits intro: Suc.IH yielding)
  qed (simp add: yields_def throw_def)
  with assms(2) show ?thesis unfolding yields_def loop_def by blast
qed

lemma yields_comma_list:
  assumes "yields p P"
  shows "yields (comma_list p) (\<lambda>xs. xs \<noteq> [] \<and> list_all P xs)"
  unfolding comma_list_def
  by (rule yields_loop [where I = "list_all P"], intro yields_bind [OF assms] yields_bind_any [where p = "match T_COMMA"] yields_ret)
    auto

lemma yields_left_assoc:
  assumes "yields p P" "\<And>x. P x \<Longrightarrow> Q x" "\<And>l r. Q l \<Longrightarrow> P r \<Longrightarrow> Q (node l r)"
  shows "yields (left_assoc T node p) Q"
  unfolding left_assoc_def
  by (rule yields_bind [OF assms(1)], rule yields_loop [where I = Q],
      intro yields_bind_any [where p = "match T"] yields_if yields_bind [OF assms(1)] yields_ret)
    (auto intro: assms(2,3))

section \<open>SELECT\<close>

abbreviation any :: "db_value \<Rightarrow> bool" where
  "any \<equiv> \<lambda>_. True"

lemma yields_operand: "yields parse_aggregate_or_column wf_operand"
  unfolding parse_aggregate_or_column_def Let_def
  by (intro yielding) (auto simp: wf_operand_def empty_select_column_def aggregates_def split: if_splits)

lemma yields_columns: "yields parse_select_columns (wf_columns any)"
proof -
  define p where "p = bind (check_any [T_INTEGER_LITERAL, T_FLOAT_LITERAL, T_STRING_LITERAL,
         T_TRUE_KW, T_FALSE_KW, T_NULL_KW, T_MINUS]) (\<lambda>literal.
       if literal then bind parse_value (\<lambda>v. ret (empty_select_column\<lparr>sc_is_literal := True, sc_literal := v\<rparr>))
       else parse_aggregate_or_column)"
  have "yields p (\<lambda>c. wf_operand c \<or> wf_literal any c)"
    unfolding p_def
    by (intro yields_bind_any yields_if yields_ret yields_mono [OF yields_operand])
      (auto simp: wf_literal_def empty_select_column_def)
  then have "yields (comma_list p) (wf_columns any)"
    by (rule yields_mono [OF yields_comma_list]) (auto simp: wf_columns_def)
  then show ?thesis
    unfolding parse_select_columns_def p_def
    by (intro yields_bind_any yields_if yields_andthen yields_ret) (simp_all add: wf_columns_def)
qed

lemma yields_order_by: "yields parse_order_by (list_all wf_order)"
  unfolding parse_order_by_def
  by (intro yields_andthen yields_mono [OF yields_comma_list [where P = wf_order]] yields_bind [OF yields_operand] yielding)
    (auto simp: wf_order_def)

lemma wf_having_less: "wf_having ok n e \<Longrightarrow> m \<le> n \<Longrightarrow> wf_having ok m e"
  by (induction ok n e rule: wf_having.induct) auto

lemma wf_where_less: "wf_where ok n e \<Longrightarrow> m \<le> n \<Longrightarrow> wf_where ok m e"
proof (cases e)
  case (Logical op l r)
  then show "wf_where ok n e \<Longrightarrow> m \<le> n \<Longrightarrow> wf_where ok m e" by (cases op) auto
qed auto

lemma yields_comparison:
  "list_all (\<lambda>c. P (snd c)) cs \<Longrightarrow> (\<And>c. is_comparison c \<Longrightarrow> P c) \<Longrightarrow> yields (match_first (comparisons @ cs) (syntax_error s)) P"
  by (intro yields_match_first yielding) (auto simp: comparisons_def is_comparison_def list_all_iff)

lemma yields_having: "yields parse_having (wf_having any 0)"
proof -
  have "yields (match_first comparisons (syntax_error s)) is_comparison" for s
    using yields_comparison [of is_comparison "[]" s] by simp
  then have c: "yields parse_having_compare_expr (wf_having any 3)"
    unfolding parse_having_compare_expr_def
    by (intro yields_bind [OF yields_operand] yields_bind [of "match_first comparisons _" is_comparison] yielding) auto
  then have n: "yields parse_having_not_expr (wf_having any 2)"
    unfolding parse_having_not_expr_def
    by (intro yields_bind_any yields_if yields_bind [OF c] yields_ret yields_mono [OF c]) (auto intro: wf_having_less)
  have a: "yields parse_having_and_expr (wf_having any 1)"
    unfolding parse_having_and_expr_def
    by (rule yields_left_assoc [OF n]) (auto intro: wf_having_less)
  show ?thesis
    unfolding parse_having_def parse_having_or_expr_def
    by (intro yields_andthen yields_left_assoc [OF a]) (auto intro: wf_having_less)
qed

lemma yields_subquery: "yields sel P \<Longrightarrow> yields (parse_subquery sel) P"
  unfolding parse_subquery_def by (intro yields_andthen yields_bind_any yields_if yields_bind [of sel P] yielding) auto

lemma yields_or_expr:
  assumes "yields sel (wf_select any)"
  shows "yields (parse_or_expr sel) (wf_where any 0)"
proof -
  note sub = yields_subquery [OF assms]
  have comp: "yields (match_first (comparisons @ [(T_LIKE, C_LIKE)]) (syntax_error s)) (\<lambda>c. is_comparison c \<or> c = C_LIKE)" for s
    by (rule yields_comparison) auto
  have c: "yields (parse_compare_expr sel) (wf_where any 3)"
    unfolding parse_compare_expr_def
    by (intro yields_bind_any [where p = "check _"] yields_if yields_andthen yields_bind [OF sub]
        yields_bind_any [where p = parse_column_ref] yields_bind_any [where p = "match _"]
        yields_bind [OF comp] yields_bind_any [where p = parse_value] yields_ret)
      (auto simp: is_comparison_def)
  then have n: "yields (parse_not_expr sel) (wf_where any 2)"
    unfolding parse_not_expr_def
    by (intro yields_bind_any yields_if yields_bind [OF c] yields_ret yields_mono [OF c]) (auto intro: wf_where_less)
  have a: "yields (parse_and_expr sel) (wf_where any 1)"
    unfolding parse_and_expr_def
    by (rule yields_left_assoc [OF n]) (auto intro: wf_where_less)
  show ?thesis
    unfolding parse_or_expr_def
    by (intro yields_left_assoc [OF a]) (auto intro: wf_where_less)
qed

lemma yields_where: "yields sel (wf_select any) \<Longrightarrow> yields (parse_where sel) (wf_where_opt any)"
  unfolding parse_where_def
  by (intro yields_bind_any [where p = "match _"] yields_if yields_ret yields_bind [OF yields_or_expr])
    (auto simp: wf_where_opt_def)

lemma yields_select_body:
  assumes "yields sel (wf_select any)"
  shows "yields (select_body sel) (wf_select any)"
proof -
  have h: "yields (optional T_HAVING None (bind parse_having (\<lambda>h. ret (Some h))))
      (\<lambda>h. case h of Some h \<Rightarrow> wf_having any 0 h | None \<Rightarrow> True)"
    unfolding optional_def
    by (intro yields_bind_any [where p = "check _"] yields_if yields_bind [OF yields_having] yields_ret) simp_all
  have b: "yields (optional T_ORDER [] parse_order_by) (list_all wf_order)"
    unfolding optional_def
    by (intro yields_bind_any [where p = "check _"] yields_if yields_order_by yields_ret) simp_all
  show ?thesis
    unfolding select_body_def
    by (intro yields_andthen yields_bind [OF yields_columns] yields_bind_any [where p = "expect_value _ _"]
        yields_bind_any [where p = parse_alias] yields_bind_any [where p = parse_joins] yields_bind [OF yields_where [OF assms]]
        yields_bind_any [where p = "optional T_GROUP _ _"] yields_bind [OF h] yields_bind [OF b]
        yields_bind_any [where p = "match _"] yields_bind_any yields_ret)
      (auto simp: wf_where_opt_def)
qed

lemma yields_select: "yields parse_select_body (wf_select any)"
proof -
  have "yields (parse_select_fuel n) (wf_select any)" for n
    by (induction n) (auto simp: yields_select_body, simp add: yields_def throw_def)
  then show ?thesis unfolding yields_def parse_select_body_def by blast
qed

section \<open>The other statements\<close>

definition wf_column_def :: "column_def \<Rightarrow> bool" where
  "wf_column_def d = (wf_where_opt any (cd_check d) \<and> (cd_is_primary_key d \<longrightarrow> \<not> cd_is_nullable d)
     \<and> (\<not> cd_has_default d \<longrightarrow> cd_default_value d = Null)
     \<and> cd_type_name d \<in> {''INT'', ''FLOAT'', ''BOOLEAN'', ''VARCHAR''}
     \<and> (cd_type_name d \<noteq> ''VARCHAR'' \<longrightarrow> cd_varchar_len d = 0))"

definition wf_create_table :: "create_table_stmt \<Rightarrow> bool" where
  "wf_create_table t = (list_all wf_column_def (ct_columns t) \<and> list_all (wf_where any 0) (ct_table_checks t)
     \<and> list_all (\<lambda>cols. cols \<noteq> []) (ct_table_unique t)
     \<and> list_all (\<lambda>fk. fd_columns fk \<noteq> [] \<and> fd_ref_columns fk \<noteq> []) (ct_foreign_keys t) \<and> ct_source_text t = [])"

definition well_shaped :: "statement \<Rightarrow> bool" where
  "well_shaped s = (case s of Create_table t \<Rightarrow> wf_create_table t | _ \<Rightarrow> wf_statement any s)"

lemma yields_check: "yields parse_check (wf_where any 0)"
  unfolding parse_check_def
  by (intro yields_andthen yields_bind [OF yields_or_expr [OF yields_select]] yields_ret) auto

lemma yields_column_list: "yields parse_column_list (\<lambda>cols. cols \<noteq> [])"
  unfolding parse_column_list_def
  by (intro yields_andthen yields_bind [OF yields_comma_list [OF yields_any]] yields_ret) auto

lemma yields_column_def: "yields parse_column_def wf_column_def"
proof -
  have ty: "yields parse_column_type (\<lambda>(ty, n). ty \<in> {''INT'', ''FLOAT'', ''BOOLEAN'', ''VARCHAR''} \<and> (ty \<noteq> ''VARCHAR'' \<longrightarrow> n = 0))"
    unfolding parse_column_type_def by (intro yielding) auto
  have step: "yields (parse_constraint d) (\<lambda>r. case r of Inl d \<Rightarrow> wf_column_def d | Inr d \<Rightarrow> wf_column_def d)"
    if "wf_column_def d" for d
    unfolding parse_constraint_def using that
    by (intro yields_bind [OF yields_check] yields_bind_any yields_if yields_andthen yields_ret)
      (auto simp: wf_column_def_def wf_where_opt_def)
  show ?thesis
    unfolding parse_column_def_def
    by (rule yields_bind_any, rule yields_bind [OF ty], clarify, rule yields_loop [where I = wf_column_def], rule step)
      (auto simp: wf_column_def_def wf_where_opt_def)
qed

lemma yields_foreign_key: "yields parse_foreign_key (\<lambda>fk. fd_columns fk \<noteq> [] \<and> fd_ref_columns fk \<noteq> [])"
  unfolding parse_foreign_key_def
  by (intro yields_andthen yields_bind [OF yields_column_list] yields_bind_any yields_ret) auto

lemma yields_create_table: "yields parse_create_table well_shaped"
proof -
  have item: "yields (parse_table_item s) wf_create_table" if "wf_create_table s" for s
    unfolding parse_table_item_def using that
    by (intro yields_bind [OF yields_check] yields_bind [OF yields_column_list] yields_bind [OF yields_foreign_key]
        yields_bind [OF yields_column_def] yields_bind_any yields_if yields_andthen yields_ret)
      (auto simp: wf_create_table_def)
  have "yields (loop (\<lambda>s. bind (parse_table_item s) (\<lambda>s. bind (match T_COMMA) (\<lambda>b. ret (if b then Inl s else Inr s)))) s)
      wf_create_table" if "wf_create_table s" for s
    using that
    by (intro yields_loop [where I = wf_create_table] yields_bind [OF item] yields_bind_any [where p = "match _"] yields_ret) auto
  then show ?thesis
    unfolding parse_create_table_def
    by (intro yields_andthen yields_bind_any [where p = "expect_value _ _"] yields_bind [of "loop _ _" wf_create_table] yields_ret)
      (simp_all add: wf_create_table_def well_shaped_def)
qed

lemma yields_slots: "yields parse_value_list (\<lambda>vs. vs \<noteq> [] \<and> list_all (slot_ok any) vs)"
proof -
  have "yields (bind (check T_DEFAULT) (\<lambda>b.
        if b then andthen next_tok (ret (Null, True)) else bind parse_value (\<lambda>v. ret (v, False)))) (slot_ok any)"
    by (intro yielding) (auto simp: slot_ok_def)
  from yields_comma_list [OF this] show ?thesis
    unfolding parse_value_list_def by (intro yields_andthen yields_bind [of "comma_list _"] yields_ret) auto
qed

lemma yields_insert: "yields parse_insert well_shaped"
  unfolding parse_insert_def
  by (intro yields_andthen yields_bind_any [where p = "expect_value _ _"] yields_bind_any [where p = "match _"]
      yields_bind [OF yields_slots] yields_bind_any [where p = "if _ then _ else _"] yields_ret)
    (auto simp: well_shaped_def zip_map_fst_snd)

lemma yields_update: "yields parse_update well_shaped"
proof -
  have "yields parse_assignment (\<lambda>c. slot_ok any (set_value c, set_is_default c))"
    unfolding parse_assignment_def by (intro yielding) (auto simp: slot_ok_def)
  from yields_comma_list [OF this] show ?thesis
    unfolding parse_update_def
    by (intro yields_andthen yields_bind_any [where p = "expect_value _ _"] yields_bind [of "comma_list _"]
        yields_bind [OF yields_where [OF yields_select]] yields_ret) (auto simp: well_shaped_def)
qed

lemma yields_delete: "yields parse_delete well_shaped"
  unfolding parse_delete_def
  by (intro yields_andthen yields_bind_any [where p = "expect_value _ _"]
      yields_bind [OF yields_where [OF yields_select]] yields_ret) (simp add: well_shaped_def)

lemma yields_create_index: "yields parse_create_index well_shaped"
  unfolding parse_create_index_def
  by (intro yields_andthen yields_bind_any [where p = "expect_value _ _"] yields_bind_any [where p = "match _"]
      yields_bind [OF yields_column_list] yields_ret) (simp add: well_shaped_def)

lemma yields_name: "(\<And>n. P (f n)) \<Longrightarrow> yields (bind (expect_value T s) (\<lambda>n. ret (f n))) P"
  by (intro yielding)

lemma yields_statement: "yields parse_statement well_shaped"
proof -
  have named: "yields parse_drop_table well_shaped" "yields parse_drop_index well_shaped" "yields parse_drop_database well_shaped"
    "yields parse_create_database well_shaped" "yields parse_use well_shaped" "yields parse_describe well_shaped"
    unfolding parse_drop_table_def parse_drop_index_def parse_drop_database_def parse_create_database_def parse_use_def
      parse_describe_def
    by (intro yields_andthen yields_name; simp add: well_shaped_def)+
  have targets: "yields parse_show well_shaped"
    unfolding parse_show_def by (intro yielding) (simp add: well_shaped_def)
  have select: "yields parse_select well_shaped"
    unfolding parse_select_def by (intro yields_bind [OF yields_select] yields_ret) (simp add: well_shaped_def)
  have "yields parse_drop well_shaped" "yields parse_create well_shaped"
    unfolding parse_drop_def parse_create_def
    by (intro yields_andthen yields_on_token yields_syntax_error; simp add: named yields_create_table yields_create_index)+
  then show ?thesis
    unfolding parse_statement_def
    by (intro yields_on_token yields_syntax_error)
      (simp add: named targets select yields_insert yields_update yields_delete)
qed

text \<open>
  Property C23. Every statement the parser returns is well shaped: in WHERE, CHECK and HAVING no OR stands below an AND and
  neither below a NOT, chains lean to the left, a comparison carries exactly the operand its operator takes, a
  SELECT list is a lone star or free of stars, each VALUES slot has its DEFAULT flag, and a primary-key column is not nullable.
\<close>
theorem parse_shape:
  assumes "parse ts = Inr s"
  shows "well_shaped s"
proof -
  have "yields (bind parse_statement (\<lambda>s. andthen (match T_SEMICOLON)
     (bind (check T_END_OF_FILE) (\<lambda>e. if \<not> e then syntax_error ''end of input'' else ret s)))) well_shaped"
    by (intro yields_bind [OF yields_statement] yielding)
  then show ?thesis
    using assms unfolding yields_def parse_def result_def by (metis prod.collapse)
qed

theorem parse_shape_witness: "well_shaped (Show S_TABLES)"
  by (rule parse_shape [of "[mk_token T_SHOW [] (1, 1), mk_token T_TABLES [] (1, 1), mk_token T_END_OF_FILE [] (1, 1)]"])
    (simp add: parse_def result_def parse_statement_def parse_show_def mk_token_def bind_def andthen_def ret_def)

end
