(* ===== verification/Eval.thy ===== *)
theory Eval
  imports Table Ast
begin

text \<open>
  The part of \<open>src/executor/executor.cpp\<close> that computes on values and rows alone: comparison of
  values, LIKE, resolution of column names, CHECK constraints, projection, aggregates and HAVING.
  A switch that throws is a value of the sum type; the executor's state appears in the theories
  that import this one.
\<close>

section \<open>Comparison of values\<close>

text \<open>\<open>%\<close> tries every rest of the text, from all of it to none.\<close>

fun tails :: "'a list \<Rightarrow> 'a list list" where
  "tails [] = [[]]"
| "tails (x # xs) = (x # xs) # tails xs"

fun like_match :: "string \<Rightarrow> string \<Rightarrow> bool" where
  "like_match txt [] = (txt = [])"
| "like_match txt (p # ps) =
     (if p = CHR ''%'' then list_ex (\<lambda>rest. like_match rest ps) (tails txt)
      else case txt of [] \<Rightarrow> False
        | c # cs \<Rightarrow> if p = CHR ''_'' \<or> p = c then like_match cs ps else False)"

fun value_matches_type :: "db_value \<Rightarrow> column_type \<Rightarrow> bool" where
  "value_matches_type v CT_INT = (case v of IntV _ \<Rightarrow> True | _ \<Rightarrow> False)"
| "value_matches_type v CT_FLOAT = (case v of FloatV _ \<Rightarrow> True | _ \<Rightarrow> False)"
| "value_matches_type v CT_BOOLEAN = (case v of BoolV _ \<Rightarrow> True | _ \<Rightarrow> False)"
| "value_matches_type v CT_VARCHAR = (case v of StringV _ \<Rightarrow> True | _ \<Rightarrow> False)"
| "value_matches_type v (Other_column_type _) = False"

text \<open>The switch on the operator, given the outcomes of \<open><\<close>, \<open>==\<close> and \<open>></\<close>.\<close>

fun decide :: "compare_op \<Rightarrow> bool \<Rightarrow> bool \<Rightarrow> bool \<Rightarrow> bool" where
  "decide C_EQ lt eq gt = eq"
| "decide C_NEQ lt eq gt = (\<not> eq)"
| "decide C_LT lt eq gt = lt"
| "decide C_GT lt eq gt = gt"
| "decide C_LTE lt eq gt = (lt \<or> eq)"
| "decide C_GTE lt eq gt = (gt \<or> eq)"
| "decide _ lt eq gt = False"

definition decide_floats :: "compare_op \<Rightarrow> u32 \<Rightarrow> u32 \<Rightarrow> bool" where
  "decide_floats op a b = decide op (float_lt a b) (float_eq a b) (float_lt b a)"

fun compare_values :: "db_value \<Rightarrow> compare_op \<Rightarrow> db_value \<Rightarrow> bool" where
  "compare_values (IntV a) op (FloatV b) = decide_floats op (int_to_float a) b"
| "compare_values (FloatV a) op (IntV b) = decide_floats op a (int_to_float b)"
| "compare_values Null op b = False"
| "compare_values a op b = (if value_index a = value_index b
     then decide op (value_lt a b) (value_eq a b) (value_lt b a) else False)"

fun value_less_than :: "db_value \<Rightarrow> db_value \<Rightarrow> bool" where
  "value_less_than (IntV a) (FloatV b) = float_lt (int_to_float a) b"
| "value_less_than (FloatV a) (IntV b) = float_lt a (int_to_float b)"
| "value_less_than Null b = False"
| "value_less_than a b = (if value_index a = value_index b then value_lt a b else False)"

fun values_equal :: "db_value \<Rightarrow> db_value \<Rightarrow> bool" where
  "values_equal (IntV a) (FloatV b) = float_eq (int_to_float a) b"
| "values_equal (FloatV a) (IntV b) = float_eq a (int_to_float b)"
| "values_equal Null b = False"
| "values_equal a b = (value_index a = value_index b \<and> value_eq a b)"

text \<open>
  A literal as a key of an index on a column of the type. The bound \<open>INT_MAX\<close> becomes
  \<open>2 ^ 31\<close> as a float, so that float passes the range check though it is no \<open>int32_t\<close>.
\<close>

definition coerce_equality_value :: "db_value \<Rightarrow> column_type \<Rightarrow> exn + db_value option" where
  "coerce_equality_value v ct = (case (ct, v) of
     (CT_FLOAT, IntV i) \<Rightarrow> Inr (Some (FloatV (int_to_float i)))
   | (CT_INT, FloatV f) \<Rightarrow> (case float_integer f of
        None \<Rightarrow> Inr None
      | Some i \<Rightarrow> if i < - (2 ^ 31) \<or> 2 ^ 31 < i then Inr None
          else if i = 2 ^ 31 then Inl (Undefined_behaviour ''static_cast<int32_t>(2147483648.0f)'')
          else Inr (Some (IntV (word_of_int i))))
   | _ \<Rightarrow> Inr (Some v))"

section \<open>Column names\<close>

text \<open>
  The tables a query's columns are looked up in: the table, the joined table if there is one,
  and their aliases (empty without one). An outer query adds its current row.
\<close>

record scope =
  sco_schema :: table_schema
  sco_right :: "table_schema option"
  sco_alias :: string
  sco_right_alias :: string

record outer_context =
  oc_row :: db_row
  oc_scope :: scope

definition single :: "table_schema \<Rightarrow> string \<Rightarrow> scope" where
  "single schema alias = \<lparr>sco_schema = schema, sco_right = None, sco_alias = alias, sco_right_alias = []\<rparr>"

definition table_name_matches :: "string \<Rightarrow> table_schema \<Rightarrow> string \<Rightarrow> bool" where
  "table_name_matches ref_table schema alias = (ref_table = ts_name schema \<or> alias \<noteq> [] \<and> ref_table = alias)"

definition left_width :: "table_schema \<Rightarrow> nat" where
  "left_width schema = length (ts_columns schema)"

definition try_resolve_one :: "column_ref \<Rightarrow> table_schema \<Rightarrow> string \<Rightarrow> nat option" where
  "try_resolve_one ref schema alias =
     (if cr_table_name ref \<noteq> [] \<and> \<not> table_name_matches (cr_table_name ref) schema alias then None
      else column_index schema (cr_column_name ref))"

definition ambiguous :: "column_ref \<Rightarrow> table_schema \<Rightarrow> table_schema \<Rightarrow> exn" where
  "ambiguous ref left right = Runtime_error (''Ambiguous column '' @ quoted (cr_column_name ref) @ '' exists in both ''
     @ quoted (ts_name left) @ '' and '' @ quoted (ts_name right) @ '' '' @ em_dash @ '' qualify with table name'')"

definition try_resolve_two :: "column_ref \<Rightarrow> table_schema \<Rightarrow> table_schema \<Rightarrow> string \<Rightarrow> string \<Rightarrow> exn + nat option" where
  "try_resolve_two ref left right left_alias right_alias =
     (let shift = map_option (\<lambda>i. left_width left + i);
          l = column_index left (cr_column_name ref); r = column_index right (cr_column_name ref) in
      if cr_table_name ref \<noteq> [] then
        (if table_name_matches (cr_table_name ref) left left_alias then Inr l
         else if table_name_matches (cr_table_name ref) right right_alias then Inr (shift r)
         else Inr None)
      else if l \<noteq> None \<and> r \<noteq> None then Inl (ambiguous ref left right)
      else if l \<noteq> None then Inr l else Inr (shift r))"

definition try_resolve :: "column_ref \<Rightarrow> scope \<Rightarrow> exn + nat option" where
  "try_resolve ref sc = (case sco_right sc of
     None \<Rightarrow> Inr (try_resolve_one ref (sco_schema sc) (sco_alias sc))
   | Some right \<Rightarrow> try_resolve_two ref (sco_schema sc) right (sco_alias sc) (sco_right_alias sc))"

definition unknown_column :: "string \<Rightarrow> exn" where
  "unknown_column name = Runtime_error (''Unknown column '' @ quoted name)"

definition resolve_one :: "column_ref \<Rightarrow> table_schema \<Rightarrow> string \<Rightarrow> exn + nat" where
  "resolve_one ref schema alias =
     (if cr_table_name ref \<noteq> [] \<and> \<not> table_name_matches (cr_table_name ref) schema alias then
        Inl (Runtime_error (''Column '' @ quoted (cr_column_name ref) @ '' is qualified with table ''
          @ quoted (cr_table_name ref) @ '', which does not match table '' @ quoted (ts_name schema)))
      else case column_index schema (cr_column_name ref) of
        None \<Rightarrow> Inl (unknown_column (cr_column_name ref)) | Some i \<Rightarrow> Inr i)"

definition unknown_in_table :: "column_ref \<Rightarrow> table_schema \<Rightarrow> exn" where
  "unknown_in_table ref schema = Runtime_error (''Unknown column '' @ quoted (cr_column_name ref)
     @ '' in table '' @ quoted (ts_name schema))"

definition resolve_two :: "column_ref \<Rightarrow> table_schema \<Rightarrow> table_schema \<Rightarrow> string \<Rightarrow> string \<Rightarrow> exn + nat" where
  "resolve_two ref left right left_alias right_alias =
     (let l = column_index left (cr_column_name ref); r = column_index right (cr_column_name ref) in
      if cr_table_name ref \<noteq> [] then
        (if table_name_matches (cr_table_name ref) left left_alias then
           (case l of None \<Rightarrow> Inl (unknown_in_table ref left) | Some i \<Rightarrow> Inr i)
         else if table_name_matches (cr_table_name ref) right right_alias then
           (case r of None \<Rightarrow> Inl (unknown_in_table ref right) | Some i \<Rightarrow> Inr (left_width left + i))
         else Inl (Runtime_error (''Unknown table '' @ quoted (cr_table_name ref))))
      else case (l, r) of
        (Some _, Some _) \<Rightarrow> Inl (ambiguous ref left right)
      | (Some i, None) \<Rightarrow> Inr i
      | (None, Some i) \<Rightarrow> Inr (left_width left + i)
      | (None, None) \<Rightarrow> Inl (unknown_column (cr_column_name ref)))"

definition resolve_column :: "column_ref \<Rightarrow> scope \<Rightarrow> exn + nat" where
  "resolve_column ref sc = (case sco_right sc of
     None \<Rightarrow> resolve_one ref (sco_schema sc) (sco_alias sc)
   | Some right \<Rightarrow> resolve_two ref (sco_schema sc) right (sco_alias sc) (sco_right_alias sc))"

text \<open>The row's own columns first, then those of the outer row.\<close>

definition resolve_value :: "column_ref \<Rightarrow> db_row \<Rightarrow> scope \<Rightarrow> outer_context option \<Rightarrow> exn + db_value" where
  "resolve_value ref row sc outer = sbind (try_resolve ref sc) (\<lambda>found. case found of
     Some i \<Rightarrow> row_get row i
   | None \<Rightarrow> sbind (case outer of None \<Rightarrow> Inr None | Some oc \<Rightarrow> try_resolve ref (oc_scope oc)) (\<lambda>found. case (found, outer) of
       (Some i, Some oc) \<Rightarrow> row_get (oc_row oc) i
     | _ \<Rightarrow> Inl (Runtime_error (''Unknown column '' @ quoted (cr_column_name ref)
         @ (if cr_table_name ref = [] then [] else '' (qualified with '' @ quoted (cr_table_name ref) @ '')'')))))"

section \<open>Comparisons of a WHERE clause\<close>

definition compare_operands :: "compare_op \<Rightarrow> db_value \<Rightarrow> db_value \<Rightarrow> bool" where
  "compare_operands op val rhs =
     (if is_null val then False else if is_null rhs then False
      else if op = C_LIKE then (case (val, rhs) of (StringV t, StringV p) \<Rightarrow> like_match t p | _ \<Rightarrow> False)
      else compare_values val op rhs)"

text \<open>Every comparison but the two with a subquery.\<close>

definition compare_leaf :: "column_ref \<Rightarrow> compare_op \<Rightarrow> db_value \<Rightarrow> column_ref option \<Rightarrow> db_row \<Rightarrow> scope
    \<Rightarrow> outer_context option \<Rightarrow> exn + bool" where
  "compare_leaf col op operand operand_column row sc outer = sbind (resolve_value col row sc outer) (\<lambda>val.
     if op = C_IS_NULL then Inr (is_null val)
     else if op = C_IS_NOT_NULL then Inr (\<not> is_null val)
     else sbind (case operand_column of None \<Rightarrow> Inr operand | Some c \<Rightarrow> resolve_value c row sc outer) (\<lambda>rhs.
       Inr (compare_operands op val rhs)))"

text \<open>\<open>x [NOT] IN (...)\<close> over the values the subquery gave.\<close>

definition in_candidates :: "bool \<Rightarrow> db_value \<Rightarrow> db_value list \<Rightarrow> bool" where
  "in_candidates negated val candidates =
     (let found = list_ex (\<lambda>c. \<not> is_null c \<and> values_equal val c) candidates;
          any_null = list_ex is_null candidates in
      if \<not> negated then found else \<not> found \<and> \<not> any_null)"

section \<open>CHECK constraints\<close>

definition compare_op_to_check_op :: "compare_op \<Rightarrow> exn + check_op" where
  "compare_op_to_check_op op = (case op of
     C_EQ \<Rightarrow> Inr CK_EQ | C_NEQ \<Rightarrow> Inr CK_NEQ | C_LT \<Rightarrow> Inr CK_LT
   | C_GT \<Rightarrow> Inr CK_GT | C_LTE \<Rightarrow> Inr CK_LTE | C_GTE \<Rightarrow> Inr CK_GTE
   | _ \<Rightarrow> Inl (Runtime_error (''unsupported operator in CHECK constraint '' @ em_dash
       @ '' only =, !=, <, >, <=, >= are supported (not IS NULL / LIKE / IN / EXISTS)'')))"

definition check_op_to_compare_op :: "check_op \<Rightarrow> exn + compare_op" where
  "check_op_to_compare_op op = (case op of
     CK_EQ \<Rightarrow> Inr C_EQ | CK_NEQ \<Rightarrow> Inr C_NEQ | CK_LT \<Rightarrow> Inr C_LT
   | CK_GT \<Rightarrow> Inr C_GT | CK_LTE \<Rightarrow> Inr C_LTE | CK_GTE \<Rightarrow> Inr C_GTE
   | Other_check_op _ \<Rightarrow> Inl (Runtime_error ''unknown CheckOp''))"

fun flatten_check_expr :: "table_schema \<Rightarrow> where_expr \<Rightarrow> exn + check_constraint list" where
  "flatten_check_expr schema (Logical op l r) =
     (if op = L_AND then sbind (flatten_check_expr schema l) (\<lambda>cs.
        case r of None \<Rightarrow> Inr cs | Some r \<Rightarrow> sbind (flatten_check_expr schema r) (\<lambda>ds. Inr (cs @ ds)))
      else Inl (Runtime_error (''unsupported CHECK expression '' @ em_dash
        @ '' only AND of simple comparisons is supported (no OR / NOT)'')))"
| "flatten_check_expr schema (Exists _) =
     Inl (Runtime_error ''CHECK constraints cannot contain EXISTS / subquery expressions'')"
| "flatten_check_expr schema (Compare col op operand operand_column _) =
     (if operand_column \<noteq> None then
        Inl (Runtime_error ''CHECK constraints must compare a column against a literal, not another column'')
      else if cr_table_name col \<noteq> [] then
        Inl (Runtime_error (''CHECK constraint column references must be unqualified: '' @ quoted (cr_column_name col)))
      else case column_index schema (cr_column_name col) of
        None \<Rightarrow> Inl (Runtime_error (''CHECK constraint references unknown column '' @ quoted (cr_column_name col)))
      | Some i \<Rightarrow> sbind (compare_op_to_check_op op) (\<lambda>op.
          Inr [\<lparr>ck_column_index = word_of_nat i, ck_op = op, ck_operand = operand\<rparr>]))"

text \<open>The first constraint a row violates, if any; a NULL column satisfies its constraints.\<close>

fun violated_from :: "nat \<Rightarrow> table_schema \<Rightarrow> db_row \<Rightarrow> check_constraint list \<Rightarrow> exn + nat option" where
  "violated_from i schema row [] = Inr None"
| "violated_from i schema row (c # cs) = sbind (column_at schema (unat (ck_column_index c))) (\<lambda>col.
     sbind (check_op_to_compare_op (ck_op c)) (\<lambda>op.
     sbind (row_get row (unat (ck_column_index c))) (\<lambda>v.
     if is_null v then violated_from (Suc i) schema row cs
     else sbind (compare_leaf \<lparr>cr_table_name = [], cr_column_name = col_name col\<rparr> op (ck_operand c) None row (single schema []) None) (\<lambda>b.
       if \<not> b then Inr (Some i) else violated_from (Suc i) schema row cs))))"

definition find_violated_check :: "table_schema \<Rightarrow> db_row \<Rightarrow> exn + nat option" where
  "find_violated_check schema row = violated_from 0 schema row (ts_checks schema)"

section \<open>Result rows\<close>

definition row_to_strings :: "db_row \<Rightarrow> string list" where
  "row_to_strings row = map value_to_string (row_values row)"

definition build_column_headers :: "select_column list \<Rightarrow> scope \<Rightarrow> string list" where
  "build_column_headers select_cols sc =
     (if list_ex sc_is_star select_cols then
        map col_name (ts_columns (sco_schema sc)) @ (case sco_right sc of None \<Rightarrow> [] | Some r \<Rightarrow> map col_name (ts_columns r))
      else map (\<lambda>c. if sc_is_literal c then value_to_string (sc_literal c) else cr_column_name (sc_column c)) select_cols)"

definition select_unknown :: "string \<Rightarrow> exn" where
  "select_unknown name = Runtime_error (''SELECT: unknown column '' @ quoted name)"

definition shown :: "db_row \<Rightarrow> nat \<Rightarrow> exn + string" where
  "shown row i = sbind (row_get row i) (\<lambda>v. Inr (value_to_string v))"

definition project_column :: "db_row \<Rightarrow> scope \<Rightarrow> column_ref \<Rightarrow> exn + string" where
  "project_column row sc ref =
     (let name = cr_column_name ref; qual = cr_table_name ref; schema = sco_schema sc;
          in_left = (case column_index schema name of None \<Rightarrow> Inl (select_unknown name) | Some i \<Rightarrow> shown row i);
          in_right = (\<lambda>r. case column_index r name of None \<Rightarrow> Inl (select_unknown name)
            | Some i \<Rightarrow> shown row (left_width schema + i)) in
      if qual \<noteq> [] then
        (if table_name_matches qual schema (sco_alias sc) then in_left
         else case sco_right sc of
           Some r \<Rightarrow> if table_name_matches qual r (sco_right_alias sc) then in_right r
             else Inl (Runtime_error (''SELECT: column '' @ quoted name @ '' qualified with unknown table '' @ quoted qual))
         | None \<Rightarrow> Inl (Runtime_error (''SELECT: column '' @ quoted name @ '' qualified with unknown table '' @ quoted qual)))
      else if column_index schema name \<noteq> None then in_left
      else case sco_right sc of Some r \<Rightarrow> in_right r | None \<Rightarrow> Inl (select_unknown name))"

definition project_row :: "select_column list \<Rightarrow> db_row \<Rightarrow> scope \<Rightarrow> exn + string list" where
  "project_row select_cols row sc =
     (if list_ex sc_is_star select_cols then Inr (row_to_strings row)
      else smap (\<lambda>c. if sc_is_literal c then Inr (value_to_string (sc_literal c))
        else project_column row sc (sc_column c)) select_cols)"

section \<open>Sorting\<close>

text \<open>
  \<open>std::stable_sort\<close> and \<open>std::sort\<close> apply the comparator to elements at different positions,
  and ask that it orders them strictly and weakly; with any other comparator the program has no
  defined behaviour.
\<close>

definition strict_weak :: "('a \<Rightarrow> 'a \<Rightarrow> bool) \<Rightarrow> 'a list \<Rightarrow> bool" where
  "strict_weak lt xs = list_all (\<lambda>x. list_all (\<lambda>y. \<not> (lt x y \<and> lt y x) \<and> list_all (\<lambda>z. (lt x y \<and> lt y z \<longrightarrow> lt x z)
     \<and> (\<not> lt x y \<and> \<not> lt y x \<and> \<not> lt y z \<and> \<not> lt z y \<longrightarrow> \<not> lt x z \<and> \<not> lt z x)) xs) xs) xs"

definition apart :: "('a \<Rightarrow> 'a \<Rightarrow> bool) \<Rightarrow> nat \<times> 'a \<Rightarrow> nat \<times> 'a \<Rightarrow> bool" where
  "apart lt = (\<lambda>(i, x) (j, y). i \<noteq> j \<and> lt x y)"

definition stable_sort :: "('a \<Rightarrow> 'a \<Rightarrow> bool) \<Rightarrow> 'a list \<Rightarrow> exn + 'a list" where
  "stable_sort lt xs = (if strict_weak (apart lt) (enumerate 0 xs) then Inr (sort_by lt xs)
     else Inl (Undefined_behaviour ''stable_sort: the comparator is no strict weak ordering''))"

text \<open>The comparator of ORDER BY: NULLs last in either direction.\<close>

definition order_before :: "bool \<Rightarrow> db_value \<Rightarrow> db_value \<Rightarrow> bool" where
  "order_before ascending va vb =
     (if is_null va \<and> is_null vb then False else if is_null va then False else if is_null vb then True
      else if ascending then value_less_than va vb else \<not> value_less_than va vb)"

definition sort_by_column :: "bool \<Rightarrow> (db_value \<times> 'a) list \<Rightarrow> exn + (db_value \<times> 'a) list" where
  "sort_by_column ascending xs = stable_sort (\<lambda>a b. order_before ascending (fst a) (fst b)) xs"

definition limit_rows :: "u32 option \<Rightarrow> 'a list \<Rightarrow> 'a list" where
  "limit_rows limit xs = (case limit of None \<Rightarrow> xs | Some n \<Rightarrow> take (unat n) xs)"

section \<open>Aggregates\<close>

definition aggregate_header_label :: "aggregate_type \<Rightarrow> string \<Rightarrow> string" where
  "aggregate_header_label type name = (case type of
     AGG_COUNT_STAR \<Rightarrow> ''COUNT(*)''
   | AGG_COUNT_COLUMN \<Rightarrow> ''COUNT('' @ name @ '')''
   | AGG_MAX \<Rightarrow> ''MAX('' @ name @ '')''
   | AGG_MIN \<Rightarrow> ''MIN('' @ name @ '')''
   | AGG_AVG \<Rightarrow> ''AVG('' @ name @ '')''
   | AGG_MEDIAN \<Rightarrow> ''MEDIAN('' @ name @ '')''
   | AGG_NONE \<Rightarrow> name)"

text \<open>The values of one column of the group.\<close>

definition column_values :: "nat \<Rightarrow> scan_result list \<Rightarrow> exn + db_value list" where
  "column_values i rows = smap (\<lambda>r. row_get (sr_row r) i) rows"

fun best_value :: "(db_value \<Rightarrow> db_value \<Rightarrow> bool) \<Rightarrow> db_value option \<Rightarrow> db_value list \<Rightarrow> db_value option" where
  "best_value better best [] = best"
| "best_value better best (v # vs) =
     (if is_null v then best_value better best vs
      else case best of None \<Rightarrow> best_value better (Some v) vs
        | Some b \<Rightarrow> best_value better (Some (if better b v then v else b)) vs)"

fun numbers :: "exn \<Rightarrow> db_value list \<Rightarrow> exn + u32 list" where
  "numbers err [] = Inr []"
| "numbers err (v # vs) = (case v of
     Null \<Rightarrow> numbers err vs
   | IntV i \<Rightarrow> sbind (numbers err vs) (\<lambda>fs. Inr (int_to_float i # fs))
   | FloatV f \<Rightarrow> sbind (numbers err vs) (\<lambda>fs. Inr (f # fs))
   | _ \<Rightarrow> Inl err)"

definition median :: "u32 list \<Rightarrow> u32" where
  "median nums = (let n = length nums in
     if odd n then nums ! (n div 2) else float_halve (float_add (nums ! (n div 2 - 1)) (nums ! (n div 2))))"

text \<open>The aggregate of the values of its column; \<open>None\<close> is NULL.\<close>

definition aggregate_of :: "aggregate_type \<Rightarrow> string \<Rightarrow> db_value list \<Rightarrow> exn + db_value" where
  "aggregate_of type name vs =
     (let best = (\<lambda>better. case best_value better None vs of None \<Rightarrow> Null | Some v \<Rightarrow> v);
          err = Runtime_error (aggregate_header_label type name @ '': column '' @ quoted name @ '' is not numeric'') in
      case type of
        AGG_NONE \<Rightarrow> Inr (case vs of [] \<Rightarrow> Null | v # _ \<Rightarrow> v)
      | AGG_COUNT_COLUMN \<Rightarrow> Inr (IntV (word_of_nat (length (filter (\<lambda>v. \<not> is_null v) vs))))
      | AGG_MAX \<Rightarrow> Inr (best value_less_than)
      | AGG_MIN \<Rightarrow> Inr (best (\<lambda>b v. value_less_than v b))
      | AGG_AVG \<Rightarrow> sbind (numbers err vs) (\<lambda>nums. Inr (if nums = [] then Null else FloatV (float_mean nums)))
      | _ \<Rightarrow> sbind (numbers err vs) (\<lambda>nums. if nums = [] then Inr Null
          else sbind (stable_sort float_lt nums) (\<lambda>nums. Inr (FloatV (median nums)))))"

definition compute_aggregate_value :: "select_column \<Rightarrow> scan_result list \<Rightarrow> scope \<Rightarrow> exn + db_value" where
  "compute_aggregate_value c rows sc =
     (if sc_aggregate c = AGG_COUNT_STAR then Inr (IntV (word_of_nat (length rows)))
      else sbind (resolve_column (sc_column c) sc) (\<lambda>i.
        sbind (column_values i (if sc_aggregate c = AGG_NONE then take 1 rows else rows)) (\<lambda>vs.
        aggregate_of (sc_aggregate c) (cr_column_name (sc_column c)) vs)))"

definition compute_aggregate_column :: "select_column \<Rightarrow> scan_result list \<Rightarrow> scope \<Rightarrow> exn + string \<times> string" where
  "compute_aggregate_column c rows sc = sbind (compute_aggregate_value c rows sc) (\<lambda>v.
     Inr (aggregate_header_label (sc_aggregate c) (cr_column_name (sc_column c)),
       if is_null v then ''NULL'' else value_to_string v))"

section \<open>HAVING\<close>

text \<open>\<open>&&\<close> and \<open>||\<close> stop at the first operand that decides; a missing right side is true.\<close>

fun evaluate_having :: "scan_result list \<Rightarrow> scope \<Rightarrow> having_expr \<Rightarrow> exn + bool" where
  "evaluate_having group_rows sc (Having_compare c) =
     sbind (compute_aggregate_value (hc_operand c) group_rows sc) (\<lambda>lhs.
     Inr (if is_null lhs then False else compare_values lhs (hc_op c) (hc_value c)))"
| "evaluate_having group_rows sc (Having_logical op l r) = (case op of
     L_AND \<Rightarrow> sbind (evaluate_having group_rows sc l) (\<lambda>b. if \<not> b then Inr False
       else case r of None \<Rightarrow> Inr True | Some r \<Rightarrow> evaluate_having group_rows sc r)
   | L_OR \<Rightarrow> sbind (evaluate_having group_rows sc l) (\<lambda>b. if b then Inr True
       else case r of None \<Rightarrow> Inr True | Some r \<Rightarrow> evaluate_having group_rows sc r)
   | L_NOT \<Rightarrow> sbind (evaluate_having group_rows sc l) (\<lambda>b. Inr (\<not> b)))"

section \<open>Groups\<close>

text \<open>\<open>std::map\<close> keyed by the grouping columns: ascending keys, rows in scan order.\<close>

fun add_to_group :: "key \<Rightarrow> 'a \<Rightarrow> (key \<times> 'a list) list \<Rightarrow> (key \<times> 'a list) list" where
  "add_to_group k r [] = [(k, [r])]"
| "add_to_group k r ((k', rs) # gs) =
     (if key_lt k' k then (k', rs) # add_to_group k r gs
      else if key_lt k k' then (k, [r]) # (k', rs) # gs
      else (k', rs @ [r]) # gs)"

fun bucket_rows :: "nat list \<Rightarrow> (key \<times> scan_result list) list \<Rightarrow> scan_result list \<Rightarrow> exn + (key \<times> scan_result list) list" where
  "bucket_rows cols groups [] = Inr groups"
| "bucket_rows cols groups (r # rs) = sbind (smap (row_get (sr_row r)) cols) (\<lambda>k.
     bucket_rows cols (add_to_group k r groups) rs)"

section \<open>Conditions an index can use\<close>

record column_constraint =
  cc_eq :: "db_value option"
  cc_lo :: "db_value option"
  cc_lo_inclusive :: bool
  cc_hi :: "db_value option"
  cc_hi_inclusive :: bool

definition no_constraint :: column_constraint where
  "no_constraint = \<lparr>cc_eq = None, cc_lo = None, cc_lo_inclusive = False, cc_hi = None, cc_hi_inclusive = False\<rparr>"

type_synonym constraints = "(string \<times> column_constraint) list"

definition constraint_of :: "constraints \<Rightarrow> string \<Rightarrow> column_constraint" where
  "constraint_of out name = (case map_of out name of None \<Rightarrow> no_constraint | Some c \<Rightarrow> c)"

definition tighten :: "compare_op \<Rightarrow> db_value \<Rightarrow> column_constraint \<Rightarrow> column_constraint" where
  "tighten op seed cc = (case op of
     C_EQ \<Rightarrow> cc\<lparr>cc_eq := Some seed\<rparr>
   | C_GT \<Rightarrow> cc\<lparr>cc_lo := Some seed, cc_lo_inclusive := False\<rparr>
   | C_GTE \<Rightarrow> cc\<lparr>cc_lo := Some seed, cc_lo_inclusive := True\<rparr>
   | C_LT \<Rightarrow> cc\<lparr>cc_hi := Some seed, cc_hi_inclusive := False\<rparr>
   | C_LTE \<Rightarrow> cc\<lparr>cc_hi := Some seed, cc_hi_inclusive := True\<rparr>
   | _ \<Rightarrow> cc)"

text \<open>
  The value a comparison fixes its column against: the literal, or for a column of the outer
  query that the table does not have, the outer row's value.
\<close>

definition seed_value :: "db_value \<Rightarrow> column_ref option \<Rightarrow> table_schema \<Rightarrow> string \<Rightarrow> outer_context option
    \<Rightarrow> exn + db_value option" where
  "seed_value operand operand_column schema alias outer = (case operand_column of
     None \<Rightarrow> Inr (Some operand)
   | Some c \<Rightarrow> if try_resolve_one c schema alias \<noteq> None then Inr None
       else case outer of None \<Rightarrow> Inr None
         | Some oc \<Rightarrow> sbind (try_resolve c (oc_scope oc)) (\<lambda>found. case found of
             None \<Rightarrow> Inr None
           | Some i \<Rightarrow> sbind (row_get (oc_row oc) i) (\<lambda>v. Inr (if is_null v then None else Some v))))"

definition leaf_constraint :: "column_ref \<Rightarrow> compare_op \<Rightarrow> db_value \<Rightarrow> column_ref option \<Rightarrow> bool \<Rightarrow> table_schema \<Rightarrow> string
    \<Rightarrow> outer_context option \<Rightarrow> constraints \<Rightarrow> exn + constraints" where
  "leaf_constraint col op operand operand_column has_subquery schema alias outer out =
     (if op \<notin> {C_EQ, C_LT, C_GT, C_LTE, C_GTE} then Inr out
      else if has_subquery then Inr out
      else if is_null operand \<and> operand_column = None then Inr out
      else if cr_table_name col \<noteq> [] \<and> \<not> table_name_matches (cr_table_name col) schema alias then Inr out
      else sbind (seed_value operand operand_column schema alias outer) (\<lambda>seed. case seed of
        None \<Rightarrow> Inr out
      | Some v \<Rightarrow> Inr (AList.update (cr_column_name col) (tighten op v (constraint_of out (cr_column_name col))) out)))"

fun collect_and_constraints :: "table_schema \<Rightarrow> string \<Rightarrow> outer_context option \<Rightarrow> where_expr \<Rightarrow> constraints \<Rightarrow> exn + constraints" where
  "collect_and_constraints schema alias outer (Logical op l r) out =
     (if op = L_AND then sbind (collect_and_constraints schema alias outer l out) (\<lambda>out.
        case r of None \<Rightarrow> Inr out | Some r \<Rightarrow> collect_and_constraints schema alias outer r out)
      else Inr out)"
| "collect_and_constraints schema alias outer (Exists _) out = Inr out"
| "collect_and_constraints schema alias outer (Compare col op operand operand_column subquery) out =
     leaf_constraint col op operand operand_column (subquery \<noteq> None) schema alias outer out"

text \<open>The columns of an index that the constraints cover: equalities, then at most one range.\<close>

record bounds =
  rb_lo :: "db_value option"
  rb_lo_inclusive :: bool
  rb_hi :: "db_value option"
  rb_hi_inclusive :: bool

definition no_bounds :: bounds where
  "no_bounds = \<lparr>rb_lo = None, rb_lo_inclusive = False, rb_hi = None, rb_hi_inclusive = False\<rparr>"

definition coerce_bound :: "db_value option \<Rightarrow> column_type \<Rightarrow> exn + db_value option" where
  "coerce_bound b ct = (case b of None \<Rightarrow> Inr None | Some v \<Rightarrow> coerce_equality_value v ct)"

definition coerce_range :: "column_constraint \<Rightarrow> column_type \<Rightarrow> exn + bounds" where
  "coerce_range cc ct = sbind (coerce_bound (cc_lo cc) ct) (\<lambda>lo. sbind (coerce_bound (cc_hi cc) ct) (\<lambda>hi.
     Inr \<lparr>rb_lo = lo, rb_lo_inclusive = (lo \<noteq> None \<and> cc_lo_inclusive cc),
       rb_hi = hi, rb_hi_inclusive = (hi \<noteq> None \<and> cc_hi_inclusive cc)\<rparr>))"

fun match_columns :: "table_schema \<Rightarrow> constraints \<Rightarrow> string list \<Rightarrow> exn + key \<times> bounds" where
  "match_columns schema cs [] = Inr ([], no_bounds)"
| "match_columns schema cs (name # names) = (case map_of cs name of
     None \<Rightarrow> Inr ([], no_bounds)
   | Some cc \<Rightarrow> (case column_index schema name of
       None \<Rightarrow> Inr ([], no_bounds)
     | Some i \<Rightarrow> let ct = col_type (ts_columns schema ! i) in
         case cc_eq cc of
           Some v \<Rightarrow> sbind (coerce_equality_value v ct) (\<lambda>c. case c of
             None \<Rightarrow> Inr ([], no_bounds)
           | Some w \<Rightarrow> sbind (match_columns schema cs names) (\<lambda>(pre, rb). Inr (w # pre, rb)))
         | None \<Rightarrow> sbind (coerce_range cc ct) (\<lambda>rb. Inr ([], rb))))"

record index_match =
  im_index :: index_schema
  im_prefix :: key
  im_bounds :: bounds

definition is_range :: "bounds \<Rightarrow> bool" where
  "is_range rb = (rb_lo rb \<noteq> None \<or> rb_hi rb \<noteq> None)"

definition effective_len :: "key \<Rightarrow> bounds \<Rightarrow> nat" where
  "effective_len pre rb = length pre + (if is_range rb then 1 else 0)"

text \<open>The first of the indexes with the most covered columns.\<close>

fun best_match :: "table_schema \<Rightarrow> constraints \<Rightarrow> index_match option \<Rightarrow> index_schema list \<Rightarrow> exn + index_match option" where
  "best_match schema cs best [] = Inr best"
| "best_match schema cs best (ix # ixs) = sbind (match_columns schema cs (ix_column_names ix)) (\<lambda>(pre, rb).
     let best_len = (case best of None \<Rightarrow> 0 | Some m \<Rightarrow> effective_len (im_prefix m) (im_bounds m)) in
     best_match schema cs (if effective_len pre rb > best_len
       then Some \<lparr>im_index = ix, im_prefix = pre, im_bounds = rb\<rparr> else best) ixs)"

section \<open>Queries an index can answer alone\<close>

fun where_is_coverable :: "table_schema \<Rightarrow> string \<Rightarrow> string list \<Rightarrow> where_expr \<Rightarrow> bool" where
  "where_is_coverable schema alias covered (Exists _) = False"
| "where_is_coverable schema alias covered (Logical op l r) =
     (where_is_coverable schema alias covered l \<and>
       (op = L_NOT \<or> (case r of None \<Rightarrow> True | Some r \<Rightarrow> where_is_coverable schema alias covered r)))"
| "where_is_coverable schema alias covered (Compare col op operand operand_column subquery) =
     (subquery = None \<and> (cr_table_name col = [] \<or> table_name_matches (cr_table_name col) schema alias)
      \<and> cr_column_name col \<in> set covered
      \<and> (case operand_column of None \<Rightarrow> True | Some c \<Rightarrow>
          (cr_table_name c = [] \<or> table_name_matches (cr_table_name c) schema alias) \<and> cr_column_name c \<in> set covered))"

definition ref_is_covered :: "table_schema \<Rightarrow> string \<Rightarrow> string list \<Rightarrow> column_ref \<Rightarrow> bool" where
  "ref_is_covered schema alias covered ref =
     ((cr_table_name ref = [] \<or> table_name_matches (cr_table_name ref) schema alias) \<and> cr_column_name ref \<in> set covered)"

definition is_select_coverable :: "select_column list \<Rightarrow> where_expr option \<Rightarrow> order_by_clause list \<Rightarrow> table_schema
    \<Rightarrow> string \<Rightarrow> string list \<Rightarrow> bool" where
  "is_select_coverable columns wh order_by schema alias covered =
     (list_all (\<lambda>c. \<not> sc_is_star c \<and> (sc_is_literal c
         \<or> sc_aggregate c = AGG_NONE \<and> ref_is_covered schema alias covered (sc_column c))) columns
      \<and> list_all (\<lambda>ob. sc_aggregate (ob_operand ob) = AGG_NONE
         \<and> ref_is_covered schema alias covered (sc_column (ob_operand ob))) order_by
      \<and> (case wh of None \<Rightarrow> True | Some w \<Rightarrow> where_is_coverable schema alias covered w))"

end
