(* ===== verification/Scan.thy ===== *)
theory Scan
  imports Eval
begin

text \<open>
  How the executor finds rows: the choice of an index, lookups through it, covering scans, and
  the evaluation of WHERE with its subqueries. A node of the WHERE tree, whose address keys the
  cache of precomputed subqueries, is the path to it from the root.
\<close>

section \<open>Indexes of a table\<close>

fun open_each :: "nat \<Rightarrow> index_schema list \<Rightarrow> ('a objects_scheme, index list) eff" where
  "open_each pk_arity [] = ret []"
| "open_each pk_arity (summary # rest) = bind (get_index (ix_name summary)) (\<lambda>ischema.
     bind (new_index ischema pk_arity) (\<lambda>ix.
     bind (open_each pk_arity rest) (\<lambda>ixs. ret (ix # ixs))))"

definition open_indexes :: "table_schema \<Rightarrow> ('a objects_scheme, index list) eff" where
  "open_indexes schema = bind (get_indexes_for_table (ts_name schema))
     (open_each (length (ts_primary_key_indices schema)))"

definition persist_index_roots :: "table \<Rightarrow> ('a objects_scheme, unit) eff" where
  "persist_index_roots tb = bind (index_root_pages tb)
     (for_each (\<lambda>(index_name, root). update_index_root index_name root))"

section \<open>Index-assisted scans\<close>

definition find_index_prefix :: "where_expr option \<Rightarrow> table_schema \<Rightarrow> string \<Rightarrow> outer_context option
    \<Rightarrow> ('a catalogs_scheme, index_match option) eff" where
  "find_index_prefix wh schema alias outer = (case wh of
     None \<Rightarrow> ret None
   | Some w \<Rightarrow> bind (lift (collect_and_constraints schema alias outer w [])) (\<lambda>cs.
       if cs = [] then ret None
       else bind (get_indexes_for_table (ts_name schema)) (\<lambda>ixs.
         bind (lift (best_match schema cs None ixs)) (\<lambda>best. case best of
           None \<Rightarrow> ret None
         | Some m \<Rightarrow> bind (get_index (ix_name (im_index m))) (\<lambda>ix. ret (Some (m\<lparr>im_index := ix\<rparr>)))))))"

definition index_lookup :: "index \<Rightarrow> index_match \<Rightarrow> ('a btrees_scheme, key list) eff" where
  "index_lookup ix m = (let rb = im_bounds m in
     if is_range rb then find_range ix (im_prefix m) (rb_lo rb) (rb_lo_inclusive rb) (rb_hi rb) (rb_hi_inclusive rb)
     else index_find ix (im_prefix m))"

fun fetch_rows :: "table \<Rightarrow> ('a btrees_scheme) predicate \<Rightarrow> key list \<Rightarrow> ('a btrees_scheme, scan_result list) eff" where
  "fetch_rows tb pred [] = ret []"
| "fetch_rows tb pred (pk # pks) = bind (select_by_key tb pk) (\<lambda>found.
     bind (case found of None \<Rightarrow> ret False | Some row \<Rightarrow> pred row) (\<lambda>m.
     bind (fetch_rows tb pred pks) (\<lambda>results.
     ret (case found of Some row \<Rightarrow> if m then \<lparr>sr_primary_key = pk, sr_row = row\<rparr> # results else results
       | None \<Rightarrow> results))))"

definition scan_with_index :: "table \<Rightarrow> table_schema \<Rightarrow> where_expr option \<Rightarrow> ('a objects_scheme) predicate \<Rightarrow> string
    \<Rightarrow> outer_context option \<Rightarrow> ('a objects_scheme, scan_result list) eff" where
  "scan_with_index tb schema wh pred alias outer = bind (find_index_prefix wh schema alias outer) (\<lambda>found. case found of
     None \<Rightarrow> table_scan tb pred
   | Some m \<Rightarrow> bind (new_index (im_index m) (length (ts_primary_key_indices schema))) (\<lambda>ix.
       bind (index_lookup ix m) (fetch_rows tb pred)))"

section \<open>Covering scans\<close>

text \<open>\<open>index_key[i]\<close>, \<open>pk[i]\<close> and \<open>row.values[i]\<close> are unchecked.\<close>

definition item_at :: "'b list \<Rightarrow> nat \<Rightarrow> exn + 'b" where
  "item_at xs i = (if i < length xs then Inr (xs ! i) else Inl (Undefined_behaviour ''operator[] behind the vector''))"

fun fill_columns :: "(nat \<times> nat option) list \<Rightarrow> key \<Rightarrow> db_value list \<Rightarrow> exn + db_value list" where
  "fill_columns [] k values = Inr values"
| "fill_columns ((i, target) # rest) k values = (case target of
     None \<Rightarrow> fill_columns rest k values
   | Some j \<Rightarrow> sbind (item_at k i) (\<lambda>v. if j < length values then fill_columns rest k (values[j := v])
       else Inl (Undefined_behaviour ''operator[] behind the vector'')))"

definition covered_row :: "table_schema \<Rightarrow> index_schema \<Rightarrow> key \<times> key \<Rightarrow> exn + db_row" where
  "covered_row schema ischema = (\<lambda>(index_key, pk).
     sbind (fill_columns (map (\<lambda>(i, name). (i, column_index schema name)) (enumerate 0 (ix_column_names ischema)))
       index_key (replicate (length (ts_columns schema)) Null)) (\<lambda>values.
     sbind (fill_columns (map (\<lambda>(i, j). (i, Some (unat j))) (enumerate 0 (ts_primary_key_indices schema))) pk values) (\<lambda>values.
     Inr \<lparr>row_values = values\<rparr>)))"

fun covered_rows :: "table_schema \<Rightarrow> index_schema \<Rightarrow> 's predicate \<Rightarrow> (key \<times> key) list \<Rightarrow> ('s, scan_result list) eff" where
  "covered_rows schema ischema pred [] = ret []"
| "covered_rows schema ischema pred (e # es) = bind (lift (covered_row schema ischema e)) (\<lambda>row.
     bind (pred row) (\<lambda>m. bind (covered_rows schema ischema pred es) (\<lambda>results.
     ret (if m then \<lparr>sr_primary_key = snd e, sr_row = row\<rparr> # results else results))))"

definition scan_covering :: "table_schema \<Rightarrow> where_expr option \<Rightarrow> ('a objects_scheme) predicate \<Rightarrow> select_column list
    \<Rightarrow> order_by_clause list \<Rightarrow> string \<Rightarrow> ('a objects_scheme, scan_result list option) eff" where
  "scan_covering schema wh pred columns order_by alias = bind (find_index_prefix wh schema alias None) (\<lambda>found. case found of
     None \<Rightarrow> ret None
   | Some m \<Rightarrow> bind (lift (smap (\<lambda>i. sbind (column_at schema (unat i)) (\<lambda>c. Inr (col_name c))) (ts_primary_key_indices schema))) (\<lambda>pks.
       if \<not> is_select_coverable columns wh order_by schema alias (ix_column_names (im_index m) @ pks) then ret None
       else bind (new_index (im_index m) (length (ts_primary_key_indices schema))) (\<lambda>ix.
         let rb = im_bounds m in
         bind (if is_range rb
             then find_range_with_values ix (im_prefix m) (rb_lo rb) (rb_lo_inclusive rb) (rb_hi rb) (rb_hi_inclusive rb)
             else find_with_values ix (im_prefix m)) (\<lambda>entries.
         bind (covered_rows schema (im_index m) pred entries) (\<lambda>rows. ret (Some rows))))))"

section \<open>WHERE with subqueries\<close>

type_synonym node = "nat list"

record subquery_cache =
  in_values :: "(node \<times> db_value list) list"
  exists_results :: "(node \<times> bool) list"
  correlated_in :: "node list"
  correlated_exists :: "node list"

definition empty_cache :: subquery_cache where
  "empty_cache = \<lparr>in_values = [], exists_results = [], correlated_in = [], correlated_exists = []\<rparr>"

fun where_references_unknown_column :: "table_schema \<Rightarrow> string \<Rightarrow> where_expr \<Rightarrow> bool" where
  "where_references_unknown_column schema alias (Logical op l r) = (where_references_unknown_column schema alias l
     \<or> (case r of None \<Rightarrow> False | Some r \<Rightarrow> where_references_unknown_column schema alias r))"
| "where_references_unknown_column schema alias (Exists _) = False"
| "where_references_unknown_column schema alias (Compare col op operand operand_column subquery) =
     (try_resolve_one col schema alias = None
      \<or> (case operand_column of None \<Rightarrow> False | Some c \<Rightarrow> try_resolve_one c schema alias = None))"

definition is_correlated :: "table_schema \<Rightarrow> select_stmt \<Rightarrow> bool" where
  "is_correlated schema sub = (case ss_where sub of None \<Rightarrow> False
     | Some w \<Rightarrow> where_references_unknown_column schema (ss_table_alias sub) w)"

definition bad_subquery_column :: exn where
  "bad_subquery_column = Runtime_error (''a subquery used with IN / NOT IN must select exactly one plain column ''
     @ ''(SELECT *, SELECT <literal>, and aggregate subqueries are not supported here)'')"

definition plain_column :: "select_stmt \<Rightarrow> exn + column_ref" where
  "plain_column sub = (case ss_columns sub of
     [c] \<Rightarrow> if sc_is_star c \<or> sc_is_literal c \<or> sc_aggregate c \<noteq> AGG_NONE then Inl bad_subquery_column else Inr (sc_column c)
   | _ \<Rightarrow> Inl bad_subquery_column)"

text \<open>
  \<open>evaluate_condition\<close> is \<open>evaluate_where\<close> with the \<open>evaluate_compare\<close> it calls for a leaf. The
  evaluation of a WHERE clause, the runs of its subqueries and their precomputation call each
  other, always on a smaller part of the statement. A correlated subquery runs for every row of
  the outer query, which it sees as its outer context; any other runs once, beforehand.
\<close>

definition node_missing :: exn where
  "node_missing = Out_of_range ''unordered_map::at''"

text \<open>\<open>run_subquery_values\<close>, given the run of the scan.\<close>

definition subquery_values :: "select_stmt \<Rightarrow> ('a objects_scheme, scan_result list) eff \<Rightarrow> ('a objects_scheme, db_value list) eff" where
  "subquery_values sub run = bind (lift (plain_column sub)) (\<lambda>c. bind (get_table (ss_table_name sub)) (\<lambda>sub_schema.
     bind (lift (resolve_one c sub_schema (ss_table_alias sub))) (\<lambda>i. bind run (\<lambda>rows. lift (column_values i rows)))))"

function (sequential) evaluate_condition :: "node \<Rightarrow> where_expr \<Rightarrow> db_row \<Rightarrow> scope \<Rightarrow> subquery_cache \<Rightarrow> outer_context option
    \<Rightarrow> ('a objects_scheme, bool) eff"
  and run_subquery_scan :: "select_stmt \<Rightarrow> outer_context option \<Rightarrow> ('a objects_scheme, scan_result list) eff"
  and precompute_subqueries :: "node \<Rightarrow> where_expr \<Rightarrow> subquery_cache \<Rightarrow> ('a objects_scheme, subquery_cache) eff"
where
  "evaluate_condition pos (Compare col op operand operand_column subquery) row sc cache outer =
     (if op \<notin> {C_IN_SUBQUERY, C_NOT_IN_SUBQUERY} then lift (compare_leaf col op operand operand_column row sc outer)
      else bind (lift (resolve_value col row sc outer)) (\<lambda>val.
        if is_null val then ret False
        else bind (if pos \<in> set (correlated_in cache)
            then (case subquery of
              None \<Rightarrow> throw (Undefined_behaviour ''null subquery'')
            | Some sub \<Rightarrow> subquery_values sub (run_subquery_scan sub (Some \<lparr>oc_row = row, oc_scope = sc\<rparr>)))
            else (case map_of (in_values cache) pos of None \<Rightarrow> throw node_missing | Some vs \<Rightarrow> ret vs))
          (\<lambda>candidates. ret (in_candidates (op = C_NOT_IN_SUBQUERY) val candidates))))"
| "evaluate_condition pos (Exists sub) row sc cache outer =
     (if pos \<in> set (correlated_exists cache)
      then bind (run_subquery_scan sub (Some \<lparr>oc_row = row, oc_scope = sc\<rparr>)) (\<lambda>rows. ret (rows \<noteq> []))
      else case map_of (exists_results cache) pos of None \<Rightarrow> throw node_missing | Some b \<Rightarrow> ret b)"
| "evaluate_condition pos (Logical op l r) row sc cache outer =
     bind (evaluate_condition (pos @ [0]) l row sc cache outer) (\<lambda>b. case op of
       L_NOT \<Rightarrow> ret (\<not> b)
     | L_AND \<Rightarrow> if \<not> b then ret False
         else (case r of None \<Rightarrow> ret True | Some r \<Rightarrow> evaluate_condition (pos @ [1]) r row sc cache outer)
     | L_OR \<Rightarrow> if b then ret True
         else (case r of None \<Rightarrow> ret True | Some r \<Rightarrow> evaluate_condition (pos @ [1]) r row sc cache outer))"
| "run_subquery_scan (Select_stmt cols name alias joins wh grouping hav ord limit) outer =
     (if joins \<noteq> [] then throw (Runtime_error ''subqueries with JOIN are not yet supported'')
      else bind (get_table name) (\<lambda>sub_schema. bind (new_table sub_schema []) (\<lambda>tbl.
        bind (case wh of None \<Rightarrow> ret (\<lambda>_. ret True)
            | Some w \<Rightarrow> bind (precompute_subqueries [] w empty_cache) (\<lambda>cache.
                ret (\<lambda>row. evaluate_condition [] w row (single sub_schema alias) cache outer))) (\<lambda>pred.
        bind (scan_with_index tbl sub_schema wh pred alias outer) (\<lambda>rows.
        ret (limit_rows limit rows))))))"
| "precompute_subqueries pos (Logical op l r) cache =
     bind (precompute_subqueries (pos @ [0]) l cache) (\<lambda>cache.
       case r of None \<Rightarrow> ret cache | Some r \<Rightarrow> precompute_subqueries (pos @ [1]) r cache)"
| "precompute_subqueries pos (Exists sub) cache = bind (get_table (ss_table_name sub)) (\<lambda>sub_schema.
     if is_correlated sub_schema sub
     then ret (cache\<lparr>correlated_exists := pos # correlated_exists cache\<rparr>)
     else bind (run_subquery_scan sub None) (\<lambda>rows.
       ret (cache\<lparr>exists_results := (pos, rows \<noteq> []) # exists_results cache\<rparr>)))"
| "precompute_subqueries pos (Compare col op operand operand_column subquery) cache =
     (if op \<notin> {C_IN_SUBQUERY, C_NOT_IN_SUBQUERY} then ret cache
      else case subquery of
        None \<Rightarrow> throw (Undefined_behaviour ''null subquery'')
      | Some sub \<Rightarrow> bind (get_table (ss_table_name sub)) (\<lambda>sub_schema.
          if is_correlated sub_schema sub
          then ret (cache\<lparr>correlated_in := pos # correlated_in cache\<rparr>)
          else bind (subquery_values sub (run_subquery_scan sub None)) (\<lambda>vs.
            ret (cache\<lparr>in_values := (pos, vs) # in_values cache\<rparr>))))"
  by pat_completeness auto
termination
  by (relation "measure (\<lambda>x. case x of
       Inl (_, w, _) \<Rightarrow> size w | Inr (Inl (sub, _)) \<Rightarrow> size sub | Inr (Inr (_, w, _)) \<Rightarrow> size w)") auto

end
