(* ===== verification/Select.thy ===== *)
theory Select
  imports Scan
begin

text \<open>
  SELECT of \<open>src/executor/executor.cpp\<close>: joins, filtering, grouping, ordering, limits and
  projection. What is computed from the rows alone is a pure function that may throw.
\<close>

section \<open>Results and predicates\<close>

record query_result =
  qr_success :: bool
  qr_error_message :: string
  qr_columns :: "string list"
  qr_rows :: "string list list"
  qr_rows_affected :: u32

definition failure :: "string \<Rightarrow> query_result" where
  "failure message = \<lparr>qr_success = False, qr_error_message = message, qr_columns = [], qr_rows = [], qr_rows_affected = 0\<rparr>"

definition affected :: "u32 \<Rightarrow> query_result" where
  "affected n = \<lparr>qr_success = True, qr_error_message = [], qr_columns = [], qr_rows = [], qr_rows_affected = n\<rparr>"

definition table_result :: "string list \<Rightarrow> string list list \<Rightarrow> query_result" where
  "table_result columns rows = \<lparr>qr_success = True, qr_error_message = [], qr_columns = columns, qr_rows = rows, qr_rows_affected = 0\<rparr>"

definition build_predicate :: "where_expr option \<Rightarrow> scope \<Rightarrow> outer_context option \<Rightarrow> ('a objects_scheme, ('a objects_scheme) predicate) eff" where
  "build_predicate wh sc outer = (case wh of
     None \<Rightarrow> ret (\<lambda>_. ret True)
   | Some w \<Rightarrow> bind (precompute_subqueries [] w empty_cache) (\<lambda>cache.
       ret (\<lambda>row. evaluate_condition [] w row sc cache outer)))"

definition all_rows :: "'s predicate" where
  "all_rows = (\<lambda>_. ret True)"

section \<open>Joins\<close>

definition columns_match :: "nat \<Rightarrow> nat \<Rightarrow> scan_result \<Rightarrow> scan_result \<Rightarrow> exn + bool" where
  "columns_match l r lr rr = sbind (row_get (sr_row lr) l) (\<lambda>a. sbind (row_get (sr_row rr) r) (\<lambda>b. Inr (value_eq a b)))"

fun sfilter :: "('b \<Rightarrow> exn + bool) \<Rightarrow> 'b list \<Rightarrow> exn + 'b list" where
  "sfilter f [] = Inr []"
| "sfilter f (x # xs) = sbind (f x) (\<lambda>b. sbind (sfilter f xs) (\<lambda>ys. Inr (if b then x # ys else ys)))"

definition combine :: "scan_result \<Rightarrow> scan_result \<Rightarrow> scan_result" where
  "combine lr rr = \<lparr>sr_primary_key = sr_primary_key lr, sr_row = \<lparr>row_values = row_values (sr_row lr) @ row_values (sr_row rr)\<rparr>\<rparr>"

text \<open>\<open>resize\<close> pads with NULLs, or cuts.\<close>

definition resize :: "nat \<Rightarrow> db_value list \<Rightarrow> db_value list" where
  "resize n xs = take n xs @ replicate (n - length xs) Null"

definition left_unmatched :: "nat \<Rightarrow> scan_result \<Rightarrow> scan_result" where
  "left_unmatched width lr = lr\<lparr>sr_row := \<lparr>row_values = resize width (row_values (sr_row lr))\<rparr>\<rparr>"

definition right_unmatched :: "nat \<Rightarrow> scan_result \<Rightarrow> scan_result" where
  "right_unmatched width rr = \<lparr>sr_primary_key = [], sr_row = \<lparr>row_values = replicate width Null @ row_values (sr_row rr)\<rparr>\<rparr>"

definition join_rows :: "join_type \<Rightarrow> nat \<Rightarrow> nat \<Rightarrow> nat \<Rightarrow> nat \<Rightarrow> scan_result list \<Rightarrow> scan_result list \<Rightarrow> exn + scan_result list" where
  "join_rows type l r lw rw lefts rights =
     (if type = J_RIGHT then
        sbind (smap (\<lambda>rr. sbind (sfilter (\<lambda>lr. columns_match l r lr rr) lefts) (\<lambda>ms.
          Inr (if ms = [] then [right_unmatched lw rr] else map (\<lambda>lr. combine lr rr) ms))) rights) (\<lambda>out. Inr (concat out))
      else
        sbind (smap (\<lambda>lr. sbind (sfilter (\<lambda>rr. columns_match l r lr rr) rights) (\<lambda>ms.
          Inr (if ms = [] then if type = J_LEFT then [left_unmatched (lw + rw) lr] else []
               else map (combine lr) ms))) lefts) (\<lambda>out. Inr (concat out)))"

definition nested_loop_join :: "scan_result list \<Rightarrow> table_schema \<Rightarrow> table \<Rightarrow> table_schema \<Rightarrow> join_clause \<Rightarrow> string \<Rightarrow> string
    \<Rightarrow> ('a objects_scheme, scan_result list) eff" where
  "nested_loop_join left_results left_schema right_table right_schema join left_alias right_alias =
     bind (lift (resolve_one (jc_left_col join) left_schema left_alias)) (\<lambda>l.
     bind (lift (resolve_one (jc_right_col join) right_schema right_alias)) (\<lambda>r.
     bind (table_scan right_table all_rows) (\<lambda>right_results.
     lift (join_rows (jc_type join) l r (left_width left_schema) (left_width right_schema) left_results right_results))))"

fun filter_rows :: "'s predicate \<Rightarrow> scan_result list \<Rightarrow> ('s, scan_result list) eff" where
  "filter_rows pred [] = ret []"
| "filter_rows pred (r # rs) = bind (pred (sr_row r)) (\<lambda>m. bind (filter_rows pred rs) (\<lambda>out. ret (if m then r # out else out)))"

text \<open>The rows of a query with a join, and the scope its columns are resolved in.\<close>

definition joined_rows :: "select_stmt \<Rightarrow> table_schema \<Rightarrow> table \<Rightarrow> join_clause \<Rightarrow> ('a objects_scheme, scan_result list \<times> scope) eff" where
  "joined_rows stmt schema tbl join = bind (get_table (jc_table_name join)) (\<lambda>right_schema.
     bind (new_table right_schema []) (\<lambda>right_tbl.
     bind (table_scan tbl all_rows) (\<lambda>left_results.
     bind (nested_loop_join left_results schema right_tbl right_schema join (ss_table_alias stmt) (jc_alias join)) (\<lambda>joined.
     let sc = \<lparr>sco_schema = schema, sco_right = Some right_schema, sco_alias = ss_table_alias stmt, sco_right_alias = jc_alias join\<rparr> in
     bind (build_predicate (ss_where stmt) sc None) (\<lambda>pred.
     bind (filter_rows pred joined) (\<lambda>rows. ret (rows, sc)))))))"

text \<open>The rows of an aggregate query.\<close>

definition queried_rows :: "select_stmt \<Rightarrow> table_schema \<Rightarrow> table \<Rightarrow> ('a objects_scheme, scan_result list \<times> scope) eff" where
  "queried_rows stmt schema tbl = (case ss_joins stmt of
     [] \<Rightarrow> let sc = single schema (ss_table_alias stmt) in
       bind (build_predicate (ss_where stmt) sc None) (\<lambda>pred.
       bind (scan_with_index tbl schema (ss_where stmt) pred (ss_table_alias stmt) None) (\<lambda>rows. ret (rows, sc)))
   | join # _ \<Rightarrow> joined_rows stmt schema tbl join)"

section \<open>Plain queries\<close>

definition order_rows :: "nat \<Rightarrow> bool \<Rightarrow> scan_result list \<Rightarrow> exn + scan_result list" where
  "order_rows i ascending rows = sbind (smap (\<lambda>r. sbind (row_get (sr_row r) i) (\<lambda>v. Inr (v, r))) rows) (\<lambda>keyed.
     sbind (sort_by_column ascending keyed) (\<lambda>sorted. Inr (map snd sorted)))"

definition aggregate_order :: string where
  "aggregate_order = ''SELECT: ORDER BY on an aggregate function requires GROUP BY''"

text \<open>ORDER BY (its first clause), LIMIT, headers and projection.\<close>

definition plain_result :: "select_stmt \<Rightarrow> scope \<Rightarrow> scan_result list \<Rightarrow> exn + query_result" where
  "plain_result stmt sc rows =
     (let finish = (\<lambda>rows. sbind (smap (\<lambda>r. project_row (ss_columns stmt) (sr_row r) sc) (limit_rows (ss_limit stmt) rows)) (\<lambda>out.
        Inr (table_result (build_column_headers (ss_columns stmt) sc) out))) in
      case ss_order_by stmt of
        [] \<Rightarrow> finish rows
      | ob # _ \<Rightarrow> if sc_aggregate (ob_operand ob) \<noteq> AGG_NONE then Inr (failure aggregate_order)
          else sbind (resolve_column (sc_column (ob_operand ob)) sc) (\<lambda>i.
            sbind (order_rows i (ob_ascending ob) rows) finish))"

definition select_plain :: "select_stmt \<Rightarrow> table_schema \<Rightarrow> table \<Rightarrow> ('a objects_scheme, query_result) eff" where
  "select_plain stmt schema tbl = (case ss_joins stmt of
     [] \<Rightarrow> let sc = single schema (ss_table_alias stmt) in
       bind (build_predicate (ss_where stmt) sc None) (\<lambda>pred.
       bind (scan_covering schema (ss_where stmt) pred (ss_columns stmt) (ss_order_by stmt) (ss_table_alias stmt)) (\<lambda>covering.
       bind (case covering of Some rows \<Rightarrow> ret rows
           | None \<Rightarrow> scan_with_index tbl schema (ss_where stmt) pred (ss_table_alias stmt) None) (\<lambda>rows.
       lift (plain_result stmt sc rows))))
   | join # _ \<Rightarrow> bind (joined_rows stmt schema tbl join) (\<lambda>(rows, sc). lift (plain_result stmt sc rows)))"

section \<open>Aggregates\<close>

definition execute_select_aggregate :: "select_stmt \<Rightarrow> table_schema \<Rightarrow> table \<Rightarrow> ('a objects_scheme, query_result) eff" where
  "execute_select_aggregate stmt schema tbl = bind (queried_rows stmt schema tbl) (\<lambda>(rows, sc).
     bind (lift (smap (\<lambda>c. compute_aggregate_column c rows sc) (ss_columns stmt))) (\<lambda>cells.
     ret (table_result (map fst cells) [map snd cells])))"

definition in_group_by :: "column_ref list \<Rightarrow> string \<Rightarrow> bool" where
  "in_group_by group_by name = list_ex (\<lambda>g. cr_column_name g = name) group_by"

definition not_grouped :: "string \<Rightarrow> string \<Rightarrow> string" where
  "not_grouped what name = ''SELECT: '' @ what @ '' '' @ quoted name
     @ '' must appear in GROUP BY or be used inside an aggregate function''"

text \<open>What GROUP BY refuses, with the message of the first check that fails.\<close>

definition group_by_error :: "select_stmt \<Rightarrow> string option" where
  "group_by_error stmt =
     (let plain = (\<lambda>c. sc_aggregate c = AGG_NONE \<and> \<not> in_group_by (ss_group_by stmt) (cr_column_name (sc_column c)));
          bad = (\<lambda>c. sc_is_star c \<or> \<not> sc_is_literal c \<and> plain c) in
      if ss_having stmt \<noteq> None \<and> ss_group_by stmt = [] then Some ''SELECT: HAVING requires GROUP BY''
      else if length (ss_order_by stmt) > 1 then Some ''SELECT: only a single ORDER BY column is supported''
      else if ss_order_by stmt \<noteq> [] \<and> plain (ob_operand (hd (ss_order_by stmt)))
        then Some (not_grouped ''ORDER BY column'' (cr_column_name (sc_column (ob_operand (hd (ss_order_by stmt))))))
      else map_option (\<lambda>c. if sc_is_star c then ''SELECT: * is not yet supported with GROUP BY''
          else not_grouped ''column'' (cr_column_name (sc_column c))) (find bad (ss_columns stmt)))"

definition group_header :: "select_column \<Rightarrow> string" where
  "group_header c = (if sc_is_literal c then value_to_string (sc_literal c)
     else if sc_aggregate c \<noteq> AGG_NONE then aggregate_header_label (sc_aggregate c) (cr_column_name (sc_column c))
     else cr_column_name (sc_column c))"

definition group_cell :: "scope \<Rightarrow> scan_result list \<Rightarrow> select_column \<Rightarrow> exn + string" where
  "group_cell sc group_rows c =
     (if sc_is_literal c then Inr (value_to_string (sc_literal c))
      else if sc_aggregate c \<noteq> AGG_NONE then sbind (compute_aggregate_column c group_rows sc) (\<lambda>(header, value). Inr value)
      else sbind (resolve_column (sc_column c) sc) (\<lambda>i. shown (sr_row (hd group_rows)) i))"

text \<open>The output of one group with its sort key; a group that HAVING rejects has none.\<close>

definition group_output :: "select_stmt \<Rightarrow> scope \<Rightarrow> scan_result list \<Rightarrow> exn + (db_value \<times> string list) list" where
  "group_output stmt sc group_rows =
     sbind (case ss_having stmt of None \<Rightarrow> Inr True | Some h \<Rightarrow> evaluate_having group_rows sc h) (\<lambda>keep.
     if \<not> keep then Inr []
     else sbind (smap (group_cell sc group_rows) (ss_columns stmt)) (\<lambda>cells.
       sbind (case ss_order_by stmt of [] \<Rightarrow> Inr Null | ob # _ \<Rightarrow> compute_aggregate_value (ob_operand ob) group_rows sc) (\<lambda>key.
       Inr [(key, cells)])))"

definition grouped_result :: "select_stmt \<Rightarrow> scope \<Rightarrow> scan_result list \<Rightarrow> exn + query_result" where
  "grouped_result stmt sc rows =
     sbind (smap (\<lambda>g. resolve_column g sc) (ss_group_by stmt)) (\<lambda>cols.
     sbind (bucket_rows cols [] rows) (\<lambda>groups.
     sbind (smap (\<lambda>(key, group_rows). group_output stmt sc group_rows) groups) (\<lambda>outs.
     sbind (case ss_order_by stmt of [] \<Rightarrow> Inr (concat outs) | ob # _ \<Rightarrow> sort_by_column (ob_ascending ob) (concat outs)) (\<lambda>sorted.
     Inr (table_result (map group_header (ss_columns stmt)) (limit_rows (ss_limit stmt) (map snd sorted)))))))"

definition execute_select_group_by :: "select_stmt \<Rightarrow> table_schema \<Rightarrow> table \<Rightarrow> ('a objects_scheme, query_result) eff" where
  "execute_select_group_by stmt schema tbl = (case group_by_error stmt of
     Some message \<Rightarrow> ret (failure message)
   | None \<Rightarrow> bind (queried_rows stmt schema tbl) (\<lambda>(rows, sc). lift (grouped_result stmt sc rows)))"

definition execute_select :: "select_stmt \<Rightarrow> ('a objects_scheme, query_result) eff" where
  "execute_select stmt = bind (get_table (ss_table_name stmt)) (\<lambda>schema.
     bind (new_table schema []) (\<lambda>left_tbl.
     if ss_having stmt \<noteq> None \<and> ss_group_by stmt = [] then ret (failure ''SELECT: HAVING requires GROUP BY'')
     else if ss_group_by stmt \<noteq> [] then execute_select_group_by stmt schema left_tbl
     else if list_ex (\<lambda>c. sc_aggregate c \<noteq> AGG_NONE) (ss_columns stmt) then
       (if \<not> list_all (\<lambda>c. sc_aggregate c \<noteq> AGG_NONE) (ss_columns stmt)
        then ret (failure (''SELECT: cannot mix aggregate functions with plain ''
          @ ''columns without GROUP BY (not yet supported)''))
        else execute_select_aggregate stmt schema left_tbl)
     else select_plain stmt schema left_tbl))"

end
