(* ===== verification/Ordering.thy ===== *)
theory Ordering
  imports Select "HOL-Library.Multiset"
begin

text \<open>
  What LIKE, ORDER BY and the joins of \<open>src/executor/executor.cpp\<close> compute: LIKE against the
  language of its pattern, the sort against the order the clause asks for, and a join against
  the pairs of matching rows.
\<close>

section \<open>Sorting by a comparator\<close>

lemma mset_insert_by: "mset (insert_by lt x ys) = add_mset x (mset ys)"
  by (induction ys) auto

lemma sort_by_simps: "sort_by lt [] = []" "sort_by lt (x # xs) = insert_by lt x (sort_by lt xs)"
  by (simp_all add: sort_by_def)

lemma mset_sort_by: "mset (sort_by lt xs) = mset xs"
  by (induction xs) (simp_all add: sort_by_simps mset_insert_by)

lemma set_sort_by: "set (sort_by lt xs) = set xs"
  by (metis mset_sort_by set_mset_mset)

lemma insert_by_cong: "(\<And>y. y \<in> set ys \<Longrightarrow> lt y x = lt' y x) \<Longrightarrow> insert_by lt x ys = insert_by lt' x ys"
  by (induction ys) auto

text \<open>The sort compares an element with later ones only.\<close>

lemma sort_by_cong:
  "sorted_wrt (\<lambda>x y. lt y x = lt' y x) xs \<Longrightarrow> sort_by lt xs = sort_by lt' xs"
proof (induction xs)
  case (Cons x xs)
  then have "sort_by lt xs = sort_by lt' xs" by simp
  then show ?case
    using Cons.prems insert_by_cong [of "sort_by lt' xs" lt x lt'] by (simp add: sort_by_simps set_sort_by)
qed (simp add: sort_by_simps)

context key_order
begin

lemma sorted_insert_by:
  assumes "sorted_wrt (\<lambda>a b. \<not> lt (f b) (f a)) ys" "\<forall>y \<in> set ys. ok (f y)" "ok (f x)"
  shows "sorted_wrt (\<lambda>a b. \<not> lt (f b) (f a)) (insert_by (\<lambda>a b. lt (f a) (f b)) x ys)"
  using assms
proof (induction ys)
  case (Cons y ys)
  have s: "set (insert_by (\<lambda>a b. lt (f a) (f b)) x ys) = insert x (set ys)"
    by (metis mset_insert_by set_mset_add_mset_insert set_mset_mset)
  show ?case
  proof (cases "lt (f y) (f x)")
    case True
    then have "\<not> lt (f x) (f y)" using Cons.prems lt_iff [of "f x" "f y"] by auto
    with True Cons show ?thesis by (auto simp: s)
  next
    case False
    have "\<not> lt (f z) (f x)" if z: "z \<in> set ys" for z
    proof
      have o: "ok (f x)" "ok (f y)" "ok (f z)" using Cons.prems z by auto
      have "\<not> lt (f z) (f y)" using Cons.prems(1) z by simp
      moreover assume "lt (f z) (f x)"
      ultimately have "lt (f y) (f x)" using not_lt_trans o by blast
      with False show False by simp
    qed
    with False Cons.prems show ?thesis by simp
  qed
qed simp

lemma sorted_sort_by:
  "\<forall>x \<in> set xs. ok (f x) \<Longrightarrow> sorted_wrt (\<lambda>a b. \<not> lt (f b) (f a)) (sort_by (\<lambda>a b. lt (f a) (f b)) xs)"
  by (induction xs) (simp_all add: sort_by_simps sorted_insert_by set_sort_by)

lemma filter_insert_by:
  assumes "\<forall>y \<in> set ys. ok (f y)" "ok (f x)" "ok v"
  shows "filter (\<lambda>a. eq (f a) v) (insert_by (\<lambda>a b. lt (f a) (f b)) x ys)
    = (if eq (f x) v then x # filter (\<lambda>a. eq (f a) v) ys else filter (\<lambda>a. eq (f a) v) ys)"
  using assms
proof (induction ys)
  case (Cons y ys)
  have "\<not> eq (f y) v" if "lt (f y) (f x)" "eq (f x) v"
    using that Cons.prems lt_iff [of "f y" "f x"] eq_trans [of "f y" v "f x"] eq_sym [of "f x" v] by auto
  then show ?case using Cons by auto
qed simp

lemma filter_sort_by:
  "\<forall>x \<in> set xs. ok (f x) \<Longrightarrow> ok v
    \<Longrightarrow> filter (\<lambda>a. eq (f a) v) (sort_by (\<lambda>a b. lt (f a) (f b)) xs) = filter (\<lambda>a. eq (f a) v) xs"
  by (induction xs) (simp_all add: sort_by_simps filter_insert_by set_sort_by)

lemma lt_asym: "ok a \<Longrightarrow> ok b \<Longrightarrow> \<not> (lt a b \<and> lt b a)"
  using lt_iff [of a b] by blast

lemma incomparable: "ok a \<Longrightarrow> ok b \<Longrightarrow> eq a b \<longleftrightarrow> \<not> lt a b \<and> \<not> lt b a"
  using lt_iff [of a b] lt_iff [of b a] eq_sym [of a b] by blast

lemma incomparable_trans:
  "ok a \<Longrightarrow> ok b \<Longrightarrow> ok c \<Longrightarrow> \<not> lt a b \<and> \<not> lt b a \<and> \<not> lt b c \<and> \<not> lt c b \<Longrightarrow> \<not> lt a c \<and> \<not> lt c a"
  using incomparable [of a b] incomparable [of b c] incomparable [of a c] eq_trans [of a b c] by blast

lemma strict_weak_ok: "\<forall>x \<in> set xs. ok (f x) \<Longrightarrow> strict_weak (\<lambda>a b. lt (f a) (f b)) xs"
  unfolding strict_weak_def list_all_iff
proof (intro ballI conjI impI)
  fix x y assume o: "\<forall>x \<in> set xs. ok (f x)" "x \<in> set xs" "y \<in> set xs"
  then show "\<not> (lt (f x) (f y) \<and> lt (f y) (f x))" by (intro lt_asym) auto
  fix z assume z: "z \<in> set xs"
  show "lt (f x) (f y) \<and> lt (f y) (f z) \<Longrightarrow> lt (f x) (f z)"
    using o z lt_trans [of "f x" "f y" "f z"] by blast
  assume "\<not> lt (f x) (f y) \<and> \<not> lt (f y) (f x) \<and> \<not> lt (f y) (f z) \<and> \<not> lt (f z) (f y)"
  then have "\<not> lt (f x) (f z) \<and> \<not> lt (f z) (f x)" using o z by (intro incomparable_trans) auto
  then show "\<not> lt (f x) (f z)" "\<not> lt (f z) (f x)" by auto
qed

end

section \<open>ORDER BY\<close>

text \<open>The order a clause asks for: by value, downwards for DESC, NULLs last.\<close>

fun precedes :: "bool \<Rightarrow> db_value \<Rightarrow> db_value \<Rightarrow> bool" where
  "precedes ascending a b = (\<not> is_null a \<and> (is_null b \<or> (if ascending then value_lt a b else value_lt b a)))"

text \<open>The values a column of one type holds.\<close>

definition of_type :: "nat \<Rightarrow> db_value \<Rightarrow> bool" where
  "of_type k v \<longleftrightarrow> v = Null \<or> value_index v = k \<and> clean_value v"

interpretation so: key_order "of_type k" "precedes ascending" value_eq for k ascending
proof unfold_locales
  fix a b c assume o: "of_type k a" "of_type k b" "of_type k c"
  have cl: "clean_value a" "clean_value b" "clean_value c" using o by (auto simp: of_type_def clean_value_def)
  show "precedes ascending a b \<Longrightarrow> precedes ascending b c \<Longrightarrow> precedes ascending a c"
    using vo.lt_trans [of a b c] vo.lt_trans [of c b a] cl by (cases ascending) (simp; blast)+
  show "value_eq a b \<Longrightarrow> precedes ascending a c = precedes ascending b c \<and> precedes ascending c a = precedes ascending c b"
    using vo.eq_cong [OF cl] by (cases a; cases b) (auto simp: is_null_def)
next
  fix a b assume o: "of_type k a" "of_type k b"
  have cl: "clean_value a" "clean_value b" using o by (auto simp: of_type_def clean_value_def)
  show "precedes ascending a b \<longleftrightarrow> \<not> value_eq a b \<and> \<not> precedes ascending b a"
    using vo.lt_iff [OF cl] vo.lt_iff [OF cl(2,1)] vo.eq_sym [OF cl] vo.eq_sym [OF cl(2,1)]
    by (cases a; cases b) (auto simp: is_null_def)
qed

lemma strict_weak_cong:
  "(\<And>a b. a \<in> set xs \<Longrightarrow> b \<in> set xs \<Longrightarrow> lt a b = lt' a b) \<Longrightarrow> strict_weak lt xs = strict_weak lt' xs"
  by (simp add: strict_weak_def list_all_iff cong: ball_cong)

lemma order_before_precedes:
  assumes "of_type k a" "of_type k b" "ascending \<or> is_null a \<or> \<not> value_eq a b"
  shows "order_before ascending a b = precedes ascending a b"
proof -
  have "value_less_than a b = value_lt a b" if "\<not> is_null a" "\<not> is_null b"
    using assms that by (cases a; cases b) (auto simp: of_type_def is_null_def)
  moreover have "\<not> value_lt a b \<longleftrightarrow> value_lt b a" if "\<not> is_null a" "\<not> is_null b" "\<not> value_eq a b"
    using assms that vo.lt_iff [of a b] vo.lt_iff [of b a] vo.eq_sym [of b a]
    by (auto simp: of_type_def is_null_def)
  ultimately show ?thesis using assms(3) by (auto simp: order_before_def)
qed

text \<open>The elements a descending sort cannot tell apart.\<close>

definition no_ties :: "db_value list \<Rightarrow> bool" where
  "no_ties vs = sorted_wrt (\<lambda>a b. is_null a \<or> \<not> value_eq a b) vs"

lemma no_ties_nth:
  assumes "no_ties vs" "i < length vs" "j < length vs" "i \<noteq> j"
    "\<forall>v \<in> set vs. of_type k v"
  shows "is_null (vs ! i) \<or> \<not> value_eq (vs ! i) (vs ! j)"
proof (cases "i < j")
  case False
  then have "is_null (vs ! j) \<or> \<not> value_eq (vs ! j) (vs ! i)"
    using assms sorted_wrt_nth_less [of "\<lambda>a b. is_null a \<or> \<not> value_eq a b" vs j i] by (simp add: no_ties_def)
  moreover have "value_eq (vs ! i) (vs ! j) = value_eq (vs ! j) (vs ! i)"
    using assms(2,3,5) so.eq_sym [of k "vs ! i" "vs ! j"] so.eq_sym [of k "vs ! j" "vs ! i"] by auto
  moreover have "is_null (vs ! i)" if "is_null (vs ! j)" "value_eq (vs ! j) (vs ! i)"
    using that by (cases "vs ! i"; cases "vs ! j") (auto simp: is_null_def)
  ultimately show ?thesis by auto
qed (use assms sorted_wrt_nth_less [of "\<lambda>a b. is_null a \<or> \<not> value_eq a b" vs i j] in \<open>simp add: no_ties_def\<close>)

lemma in_enumerate: "p \<in> set (enumerate 0 xs) \<Longrightarrow> fst p < length xs \<and> p = (fst p, xs ! fst p)"
  by (simp add: in_set_enumerate_eq prod_eq_iff)

lemma apart_precedes:
  assumes t: "\<forall>x \<in> set xs. of_type k (fst x)" and n: "ascending \<or> no_ties (map fst xs)"
    and p: "p \<in> set (enumerate 0 xs)" and q: "q \<in> set (enumerate 0 xs)"
  shows "apart (\<lambda>a b. order_before ascending (fst a) (fst b)) p q = precedes ascending (fst (snd p)) (fst (snd q))"
proof -
  obtain i j where e: "p = (i, xs ! i)" "q = (j, xs ! j)" "i < length xs" "j < length xs"
    using in_enumerate [OF p] in_enumerate [OF q] by metis
  have o: "of_type k (fst (xs ! i))" "of_type k (fst (xs ! j))" using t e by auto
  show ?thesis
  proof (cases "i = j")
    case True
    then show ?thesis using e so.lt_irrefl [OF o(1), of ascending] by (simp add: apart_def)
  next
    case False
    have "ascending \<or> is_null (fst (xs ! i)) \<or> \<not> value_eq (fst (xs ! i)) (fst (xs ! j))"
      using n no_ties_nth [of "map fst xs" i j k] e False t by auto
    then show ?thesis using order_before_precedes [OF o] e False by (simp add: apart_def)
  qed
qed

lemma sort_by_column_ok:
  assumes t: "\<forall>x \<in> set xs. of_type k (fst x)" and n: "ascending \<or> no_ties (map fst xs)"
  shows "sort_by_column ascending xs = Inr (sort_by (\<lambda>a b. precedes ascending (fst a) (fst b)) xs)"
proof -
  have "strict_weak (apart (\<lambda>a b. order_before ascending (fst a) (fst b))) (enumerate 0 xs)
      = strict_weak (\<lambda>p q. precedes ascending (fst (snd p)) (fst (snd q))) (enumerate 0 xs)"
    by (rule strict_weak_cong) (rule apart_precedes [OF t n])
  also have "\<dots>"
  proof (rule so.strict_weak_ok [of "enumerate 0 xs" k "\<lambda>p. fst (snd p)"], rule ballI)
    fix p assume "p \<in> set (enumerate 0 xs)"
    then have "snd p \<in> set xs" using in_enumerate [of p xs] nth_mem [of "fst p" xs] by (metis snd_conv)
    then show "of_type k (fst (snd p))" using t by blast
  qed
  finally have "sort_by_column ascending xs = Inr (sort_by (\<lambda>a b. order_before ascending (fst a) (fst b)) xs)"
    by (simp add: sort_by_column_def stable_sort_def)
  moreover
  have "sorted_wrt (\<lambda>x y. order_before ascending (fst y) (fst x) = precedes ascending (fst y) (fst x)) xs"
    unfolding sorted_wrt_iff_nth_less
  proof (intro allI impI)
    fix i j assume ij: "i < j" "j < length xs"
    then have "ascending \<or> is_null (fst (xs ! j)) \<or> \<not> value_eq (fst (xs ! j)) (fst (xs ! i))"
      using n no_ties_nth [of "map fst xs" j i k] t by auto
    then show "order_before ascending (fst (xs ! j)) (fst (xs ! i)) = precedes ascending (fst (xs ! j)) (fst (xs ! i))"
      using ij t by (intro order_before_precedes) auto
  qed
  then have "sort_by (\<lambda>a b. order_before ascending (fst a) (fst b)) xs = sort_by (\<lambda>a b. precedes ascending (fst a) (fst b)) xs"
    by (rule sort_by_cong)
  ultimately show ?thesis by simp
qed

lemma sort_by_column_ties:
  assumes t: "\<forall>x \<in> set xs. of_type k (fst x)" and n: "\<not> no_ties (map fst xs)"
  shows "sort_by_column False xs = Inl (Undefined_behaviour ''stable_sort: the comparator is no strict weak ordering'')"
proof -
  from n obtain i j where ij: "i < j" "j < length xs" "\<not> is_null (fst (xs ! i))" "value_eq (fst (xs ! i)) (fst (xs ! j))"
    by (auto simp: no_ties_def sorted_wrt_iff_nth_less)
  then have o: "of_type k (fst (xs ! i))" "of_type k (fst (xs ! j))" using t by auto
  have "\<not> is_null (fst (xs ! j))" using ij by (cases "fst (xs ! i)"; cases "fst (xs ! j)") (auto simp: is_null_def)
  moreover have "\<not> value_less_than (fst (xs ! i)) (fst (xs ! j))" "\<not> value_less_than (fst (xs ! j)) (fst (xs ! i))"
    using ij(4) by (cases "fst (xs ! i)"; cases "fst (xs ! j)"; auto simp: float_eq_def float_lt_def)+
  ultimately have "apart (\<lambda>a b. order_before False (fst a) (fst b)) (i, xs ! i) (j, xs ! j)"
    "apart (\<lambda>a b. order_before False (fst a) (fst b)) (j, xs ! j) (i, xs ! i)"
    using ij by (auto simp: apart_def order_before_def)
  moreover have "(i, xs ! i) \<in> set (enumerate 0 xs)" "(j, xs ! j) \<in> set (enumerate 0 xs)"
    using ij by (auto simp: in_set_enumerate_eq)
  ultimately have "\<not> strict_weak (apart (\<lambda>a b. order_before False (fst a) (fst b))) (enumerate 0 xs)"
    unfolding strict_weak_def list_all_iff by blast
  then show ?thesis by (simp add: sort_by_column_def stable_sort_def)
qed

text \<open>
  Property C29. ORDER BY on a column of one type without NaNs: an ascending sort, and a descending
  one of values that are pairwise different, returns a permutation of the rows in the order asked
  for, NULLs last, and keeps the rows with equal values in their old order. A descending sort
  of two equal values hands \<open>std::stable_sort\<close> a comparator that is no strict weak ordering.
\<close>

theorem order_by_correct:
  assumes "\<forall>x \<in> set xs. of_type k (fst x)"
  shows "if ascending \<or> no_ties (map fst xs) then
      \<exists>ys. sort_by_column ascending xs = Inr ys \<and> mset ys = mset xs
        \<and> sorted_wrt (\<lambda>a b. \<not> precedes ascending (fst b) (fst a)) ys
        \<and> (\<forall>v. of_type k v \<longrightarrow> filter (\<lambda>a. value_eq (fst a) v) ys = filter (\<lambda>a. value_eq (fst a) v) xs)
    else sort_by_column ascending xs = Inl (Undefined_behaviour ''stable_sort: the comparator is no strict weak ordering'')"
proof (cases "ascending \<or> no_ties (map fst xs)")
  case True
  then show ?thesis
    using sort_by_column_ok [OF assms True] so.sorted_sort_by [of xs k fst] so.filter_sort_by [of xs k fst] assms
    by (simp add: mset_sort_by)
next
  case False
  then show ?thesis using sort_by_column_ties [OF assms] by simp
qed

definition sample_keys :: "(db_value \<times> nat) list" where
  "sample_keys = [(IntV 5, 0), (Null, 1), (IntV (- 3), 2), (IntV 5, 3)]"

theorem order_by_correct_witness:
  "sort_by_column True sample_keys = Inr [(IntV (- 3), 2), (IntV 5, 0), (IntV 5, 3), (Null, 1)]
    \<and> sort_by_column False sample_keys = Inl (Undefined_behaviour ''stable_sort: the comparator is no strict weak ordering'')
    \<and> (\<exists>ys. sort_by_column False (take 3 sample_keys) = Inr ys \<and> mset ys = mset (take 3 sample_keys))"
proof (intro conjI)
  show "sort_by_column True sample_keys = Inr [(IntV (- 3), 2), (IntV 5, 0), (IntV 5, 3), (Null, 1)]"
    by code_simp
  show "sort_by_column False sample_keys = Inl (Undefined_behaviour ''stable_sort: the comparator is no strict weak ordering'')"
    using order_by_correct [of sample_keys 1 False] by (simp add: sample_keys_def of_type_def clean_value_def no_ties_def is_null_def)
  show "\<exists>ys. sort_by_column False (take 3 sample_keys) = Inr ys \<and> mset ys = mset (take 3 sample_keys)"
    using order_by_correct [of "take 3 sample_keys" 1 False]
    by (auto simp: sample_keys_def of_type_def clean_value_def no_ties_def is_null_def)
qed

section \<open>LIKE\<close>

text \<open>The texts a character of a pattern stands for.\<close>

definition stands_for :: "char \<Rightarrow> string \<Rightarrow> bool" where
  "stands_for p part \<longleftrightarrow> p = CHR ''%'' \<or> length part = 1 \<and> (p = CHR ''_'' \<or> part = [p])"

lemma tails_iff: "rest \<in> set (tails t) \<longleftrightarrow> (\<exists>part. t = part @ rest)"
  by (induction t) (auto simp: Cons_eq_append_conv)

lemma split_parts:
  "(\<exists>parts. concat parts = t \<and> list_all2 stands_for (p # ps) parts)
    \<longleftrightarrow> (\<exists>part rest. t = part @ rest \<and> stands_for p part \<and> (\<exists>parts. concat parts = rest \<and> list_all2 stands_for ps parts))"
  (is "?l \<longleftrightarrow> ?r")
proof
  assume ?l
  then obtain part parts where "concat (part # parts) = t" "list_all2 stands_for (p # ps) (part # parts)"
    by (auto simp: list_all2_Cons1)
  then show ?r by auto
next
  assume ?r
  then obtain part parts where "t = part @ concat parts" "stands_for p part" "list_all2 stands_for ps parts" by auto
  then show ?l by (intro exI [of _ "part # parts"]) simp
qed

lemma one_character:
  assumes "p \<noteq> CHR ''%''"
  shows "(\<exists>part rest. c # cs = part @ rest \<and> stands_for p part \<and> Q rest) \<longleftrightarrow> (p = CHR ''_'' \<or> p = c) \<and> Q cs"
    (is "?l \<longleftrightarrow> ?r")
proof
  assume ?l
  then obtain part rest where "c # cs = part @ rest" "length part = 1" "p = CHR ''_'' \<or> part = [p]" "Q rest"
    using assms by (auto simp: stands_for_def)
  then show ?r by (cases part) auto
next
  assume ?r
  then show ?l by (intro exI [of _ "[c]"] exI [of _ cs]) (auto simp: stands_for_def)
qed

text \<open>
  Property C30. LIKE: a text matches a pattern exactly when it is the concatenation of one part
  per character of the pattern, any text for a percent sign, any one character for an
  underscore, and the character itself otherwise.
\<close>

theorem like_match_correct:
  "like_match t pattern \<longleftrightarrow> (\<exists>parts. concat parts = t \<and> list_all2 stands_for pattern parts)"
proof (induction t pattern rule: like_match.induct)
  case (2 t p ps)
  show ?case
  proof (cases "p = CHR ''%''")
    case True
    then have "like_match t (p # ps) \<longleftrightarrow> (\<exists>rest \<in> set (tails t). like_match rest ps)"
      by (simp add: list_ex_iff)
    also have "\<dots> \<longleftrightarrow> (\<exists>part rest. t = part @ rest \<and> like_match rest ps)"
      by (simp only: Bex_def tails_iff) blast
    also have "\<dots> \<longleftrightarrow> (\<exists>part rest. t = part @ rest \<and> (\<exists>parts. concat parts = rest \<and> list_all2 stands_for ps parts))"
      using 2(1) [OF True] by (metis tails_iff)
    also have "\<dots> \<longleftrightarrow> (\<exists>parts. concat parts = t \<and> list_all2 stands_for (p # ps) parts)"
      using True unfolding split_parts by (simp add: stands_for_def [of "CHR ''%''"])
    finally show ?thesis .
  next
    case False
    show ?thesis
    proof (cases t)
      case Nil
      then show ?thesis using False unfolding split_parts by (auto simp: stands_for_def [of p])
    next
      case (Cons c cs)
      then show ?thesis using False 2(2) [OF False Cons] unfolding split_parts
        by (simp add: one_character [OF False])
    qed
  qed
qed auto

section \<open>Joins\<close>

text \<open>The rows of the other side that match a row, and how the code tests it.\<close>

definition matches :: "nat \<Rightarrow> nat \<Rightarrow> scan_result \<Rightarrow> scan_result \<Rightarrow> bool" where
  "matches l r lr rr = value_eq (row_values (sr_row lr) ! l) (row_values (sr_row rr) ! r)"

definition wide :: "nat \<Rightarrow> scan_result list \<Rightarrow> bool" where
  "wide n rows \<longleftrightarrow> (\<forall>x \<in> set rows. length (row_values (sr_row x)) = n)"

lemma columns_match_wide:
  "l < length (row_values (sr_row lr)) \<Longrightarrow> r < length (row_values (sr_row rr)) \<Longrightarrow> columns_match l r lr rr = Inr (matches l r lr rr)"
  by (simp add: columns_match_def row_get_def row_size_def matches_def)

lemma sfilter_pure: "(\<And>x. x \<in> set xs \<Longrightarrow> f x = Inr (P x)) \<Longrightarrow> sfilter f xs = Inr (filter P xs)"
  by (induction xs) auto

lemma smap_pure: "(\<And>x. x \<in> set xs \<Longrightarrow> f x = Inr (g x)) \<Longrightarrow> smap f xs = Inr (map g xs)"
  by (induction xs) auto

lemma concat_map_filter: "concat (map (\<lambda>x. if P x then [f x] else []) xs) = map f (filter P xs)"
  by (induction xs) auto

text \<open>
  The rows a join of the kind emits, for any test of two rows. The code has no FULL join. Its test is \<open>matches\<close>, the
  equality of the variants, which is not that of SQL: NULL equals NULL, and an INT never equals a FLOAT.
\<close>

definition join_spec :: "join_type \<Rightarrow> (scan_result \<Rightarrow> scan_result \<Rightarrow> bool) \<Rightarrow> nat \<Rightarrow> nat \<Rightarrow> scan_result list \<Rightarrow> scan_result list \<Rightarrow> scan_result list" where
  "join_spec type m lw rw lefts rights = (case type of
     J_INNER \<Rightarrow> [combine lr rr. lr \<leftarrow> lefts, rr \<leftarrow> rights, m lr rr]
   | J_LEFT \<Rightarrow> concat (map (\<lambda>lr. if \<forall>rr \<in> set rights. \<not> m lr rr
        then [combine lr \<lparr>sr_primary_key = [], sr_row = \<lparr>row_values = replicate rw Null\<rparr>\<rparr>]
        else map (combine lr) (filter (m lr) rights)) lefts)
   | J_RIGHT \<Rightarrow> concat (map (\<lambda>rr. if \<forall>lr \<in> set lefts. \<not> m lr rr
        then [combine \<lparr>sr_primary_key = [], sr_row = \<lparr>row_values = replicate lw Null\<rparr>\<rparr> rr]
        else map (\<lambda>lr. combine lr rr) (filter (\<lambda>lr. m lr rr) lefts)) rights))"

lemma combine_unmatched:
  assumes "length (row_values (sr_row x)) = n"
  shows "left_unmatched (n + k) x = combine x \<lparr>sr_primary_key = [], sr_row = \<lparr>row_values = replicate k Null\<rparr>\<rparr>"
    "right_unmatched m x = combine \<lparr>sr_primary_key = [], sr_row = \<lparr>row_values = replicate m Null\<rparr>\<rparr> x"
  using assms by (simp_all add: left_unmatched_def right_unmatched_def combine_def resize_def)

text \<open>
  Property C31. A join over rows as wide as their schemas never throws. An inner join emits the
  pairs whose join columns compare equal, in the order of the left rows and then of the right
  ones; a left (right) join also emits each left (right) row without such a partner once, with
  NULLs on the other side. The comparison is the equality of the variants: two NULLs are equal,
  and an INT never equals a FLOAT.
\<close>

theorem join_rows_correct:
  assumes "wide lw lefts" "wide rw rights" "l < lw" "r < rw"
  shows "join_rows type l r lw rw lefts rights = Inr (join_spec type (matches l r) lw rw lefts rights)"
proof -
  have cm: "columns_match l r lr rr = Inr (matches l r lr rr)" if "lr \<in> set lefts" "rr \<in> set rights" for lr rr
    using assms that by (intro columns_match_wide) (auto simp: wide_def)
  have lefts_of: "sfilter (\<lambda>lr. columns_match l r lr rr) lefts = Inr (filter (\<lambda>lr. matches l r lr rr) lefts)"
    if "rr \<in> set rights" for rr using cm that by (intro sfilter_pure) auto
  have rights_of: "sfilter (\<lambda>rr. columns_match l r lr rr) rights = Inr (filter (matches l r lr) rights)"
    if "lr \<in> set lefts" for lr using cm that by (intro sfilter_pure) auto
  have un: "left_unmatched (lw + rw) x = combine x \<lparr>sr_primary_key = [], sr_row = \<lparr>row_values = replicate rw Null\<rparr>\<rparr>"
    if "x \<in> set lefts" for x
    using assms(1) that by (intro combine_unmatched) (simp add: wide_def)
  show ?thesis
  proof (cases "type = J_RIGHT")
    case True
    have "smap (\<lambda>rr. sbind (sfilter (\<lambda>lr. columns_match l r lr rr) lefts) (\<lambda>ms.
          Inr (if ms = [] then [right_unmatched lw rr] else map (\<lambda>lr. combine lr rr) ms))) rights
        = Inr (map (\<lambda>rr. if \<forall>lr \<in> set lefts. \<not> matches l r lr rr
            then [combine \<lparr>sr_primary_key = [], sr_row = \<lparr>row_values = replicate lw Null\<rparr>\<rparr> rr]
            else map (\<lambda>lr. combine lr rr) (filter (\<lambda>lr. matches l r lr rr) lefts)) rights)"
      by (rule smap_pure) (simp add: lefts_of filter_empty_conv combine_unmatched(2))
    then show ?thesis using True by (simp add: join_rows_def join_spec_def)
  next
    case False
    have "smap (\<lambda>lr. sbind (sfilter (\<lambda>rr. columns_match l r lr rr) rights) (\<lambda>ms.
          Inr (if ms = [] then if type = J_LEFT then [left_unmatched (lw + rw) lr] else [] else map (combine lr) ms))) lefts
        = Inr (map (\<lambda>lr. if \<forall>rr \<in> set rights. \<not> matches l r lr rr
            then if type = J_LEFT then [combine lr \<lparr>sr_primary_key = [], sr_row = \<lparr>row_values = replicate rw Null\<rparr>\<rparr>] else []
            else map (combine lr) (filter (matches l r lr) rights)) lefts)"
      by (rule smap_pure) (simp add: rights_of filter_empty_conv un)
    moreover have "concat (map (\<lambda>lr. if \<forall>rr \<in> set rights. \<not> matches l r lr rr then []
            else map (combine lr) (filter (matches l r lr) rights)) lefts)
        = [combine lr rr. lr \<leftarrow> lefts, rr \<leftarrow> rights, matches l r lr rr]"
      by (rule arg_cong [of _ _ concat], rule map_cong) (auto simp: filter_empty_conv concat_map_filter)
    ultimately show ?thesis using False by (cases type) (simp_all add: join_rows_def join_spec_def cong: if_cong)
  qed
qed

definition sample_left :: "scan_result list" where
  "sample_left = [\<lparr>sr_primary_key = [IntV 1], sr_row = \<lparr>row_values = [IntV 1, Null]\<rparr>\<rparr>,
     \<lparr>sr_primary_key = [IntV 2], sr_row = \<lparr>row_values = [IntV 2, IntV 7]\<rparr>\<rparr>]"

definition sample_right :: "scan_result list" where
  "sample_right = [\<lparr>sr_primary_key = [IntV 5], sr_row = \<lparr>row_values = [Null]\<rparr>\<rparr>,
     \<lparr>sr_primary_key = [IntV 6], sr_row = \<lparr>row_values = [FloatV 0x40E00000]\<rparr>\<rparr>]"

theorem join_rows_correct_witness:
  "join_rows J_LEFT 1 0 2 1 sample_left sample_right = Inr
     [\<lparr>sr_primary_key = [IntV 1], sr_row = \<lparr>row_values = [IntV 1, Null, Null]\<rparr>\<rparr>,
      \<lparr>sr_primary_key = [IntV 2], sr_row = \<lparr>row_values = [IntV 2, IntV 7, Null]\<rparr>\<rparr>]"
  using join_rows_correct [of 2 sample_left 1 sample_right 1 0 J_LEFT]
  by (simp add: sample_left_def sample_right_def wide_def join_spec_def matches_def combine_def)

end
