(* ===== verification/Conditions.thy ===== *)
theory Conditions
  imports Select
begin

text \<open>
  What the executor compiles out of a condition: the list of a CHECK constraint decides what the
  expression does, and the key range an index is searched with keeps every row that WHERE
  accepts.
\<close>

section \<open>CHECK constraints\<close>

text \<open>The three-valued truth of a condition, \<open>None\<close> for unknown.\<close>

fun and3 :: "bool option \<Rightarrow> bool option \<Rightarrow> bool option" where
  "and3 (Some False) _ = Some False"
| "and3 _ (Some False) = Some False"
| "and3 (Some True) (Some True) = Some True"
| "and3 _ _ = None"

fun truth :: "table_schema \<Rightarrow> db_row \<Rightarrow> where_expr \<Rightarrow> bool option" where
  "truth schema row (Compare col op v _ _) = (case column_index schema (cr_column_name col) of
     None \<Rightarrow> None
   | Some i \<Rightarrow> let x = row_values row ! i in
       if is_null x \<or> is_null v then None else Some (compare_values x op v))"
| "truth schema row (Logical op l r) = (case r of None \<Rightarrow> truth schema row l | Some r \<Rightarrow> and3 (truth schema row l) (truth schema row r))"
| "truth schema row (Exists _) = None"

fun null_operands :: "where_expr \<Rightarrow> bool" where
  "null_operands (Compare col op v _ _) = is_null v"
| "null_operands (Logical op l r) = (null_operands l \<or> (case r of None \<Rightarrow> False | Some r \<Rightarrow> null_operands r))"
| "null_operands (Exists _) = False"

text \<open>A stored constraint, for rows as wide as the schema.\<close>

definition passes :: "db_row \<Rightarrow> check_constraint \<Rightarrow> bool" where
  "passes row c = (let x = row_values row ! unat (ck_column_index c) in
     is_null x \<or> (case check_op_to_compare_op (ck_op c) of Inl _ \<Rightarrow> False | Inr op \<Rightarrow> compare_operands op x (ck_operand c)))"

definition compiled :: "table_schema \<Rightarrow> check_constraint \<Rightarrow> bool" where
  "compiled schema c \<longleftrightarrow> unat (ck_column_index c) < length (ts_columns schema)
     \<and> column_index schema (col_name (ts_columns schema ! unat (ck_column_index c))) = Some (unat (ck_column_index c))
     \<and> (\<exists>op. check_op_to_compare_op (ck_op c) = Inr op \<and> op \<notin> {C_IS_NULL, C_IS_NOT_NULL})"

lemma column_index_Some:
  assumes "column_index schema name = Some i"
  shows "i < length (ts_columns schema)" "col_name (ts_columns schema ! i) = name"
  using first_column_Some [of 0 name "ts_columns schema" i] assms by (simp_all add: column_index_def)

lemma violated_step:
  assumes "compiled schema c" "length (row_values row) = length (ts_columns schema)"
  shows "violated_from i schema row (c # cs) = (if passes row c then violated_from (Suc i) schema row cs else Inr (Some i))"
proof -
  define j where "j = unat (ck_column_index c)"
  obtain op where op: "check_op_to_compare_op (ck_op c) = Inr op" "op \<notin> {C_IS_NULL, C_IS_NOT_NULL}"
    and j: "j < length (ts_columns schema)" "column_index schema (col_name (ts_columns schema ! j)) = Some j"
    using assms(1) by (auto simp: compiled_def j_def)
  have "compare_leaf \<lparr>cr_table_name = [], cr_column_name = col_name (ts_columns schema ! j)\<rparr> op (ck_operand c) None row (single schema []) None
      = Inr (compare_operands op (row_values row ! j) (ck_operand c))"
    using op j assms(2) by (simp add: compare_leaf_def resolve_value_def try_resolve_def try_resolve_one_def single_def row_get_def)
  then show ?thesis
    using op j assms(2) by (simp add: column_at_def row_get_def passes_def Let_def flip: j_def)
qed

lemma violated_list:
  assumes "list_all (compiled schema) cs" "length (row_values row) = length (ts_columns schema)"
  shows "\<exists>r. violated_from i schema row cs = Inr r \<and> (r = None \<longleftrightarrow> list_all (passes row) cs)"
  using assms(1) by (induction cs arbitrary: i) (simp_all add: violated_step [OF _ assms(2)] del: violated_from.simps(2))

lemma op_roundtrip: "compare_op_to_check_op op = Inr c \<Longrightarrow> check_op_to_compare_op c = Inr op"
  by (cases op) (auto simp: compare_op_to_check_op_def check_op_to_compare_op_def)

lemma flatten_compiled:
  assumes "flatten_check_expr schema w = Inr cs" "length (ts_columns schema) < 2 ^ 32"
  shows "list_all (compiled schema) cs"
  using assms
proof (induction schema w arbitrary: cs rule: flatten_check_expr.induct)
  case (1 schema op l r)
  then show ?case by (auto simp: sbind_Inr_conv split: if_splits option.splits)
next
  case (3 schema col op operand operand_column sub)
  then obtain i op' where c: "column_index schema (cr_column_name col) = Some i" "compare_op_to_check_op op = Inr op'"
      "cs = [\<lparr>ck_column_index = word_of_nat i, ck_op = op', ck_operand = operand\<rparr>]"
    by (auto simp: sbind_Inr_conv split: if_splits option.splits)
  have i: "i < length (ts_columns schema)" "col_name (ts_columns schema ! i) = cr_column_name col"
    using column_index_Some [OF c(1)] by auto
  have u: "unat (word_of_nat i :: u32) = i" using i(1) 3(2) by simp
  have "op \<notin> {C_IS_NULL, C_IS_NOT_NULL}" using c(2) by (auto simp: compare_op_to_check_op_def)
  then show ?case using c i u op_roundtrip [OF c(2)] by (simp add: compiled_def)
qed simp

lemma and3_false: "and3 a b = Some False \<longleftrightarrow> a = Some False \<or> b = Some False"
  by (cases "(a, b)" rule: and3.cases) auto

lemma flatten_truth:
  assumes "flatten_check_expr schema w = Inr cs" "length (ts_columns schema) < 2 ^ 32" "\<not> null_operands w"
  shows "list_all (passes row) cs \<longleftrightarrow> truth schema row w \<noteq> Some False"
  using assms
proof (induction schema w arbitrary: cs rule: flatten_check_expr.induct)
  case (1 schema op l r)
  show ?case
  proof (cases r)
    case None
    then show ?thesis using 1 by (auto simp: sbind_Inr_conv split: if_splits)
  next
    case (Some r')
    then obtain cl cr where c: "flatten_check_expr schema l = Inr cl" "flatten_check_expr schema r' = Inr cr" "cs = cl @ cr"
      using 1(3) by (auto simp: sbind_Inr_conv split: if_splits)
    have "op = L_AND" using 1(3) by (simp split: if_splits)
    then show ?thesis using 1(1) [OF _ c(1)] 1(2) [OF _ c(1) Some c(2)] 1(4,5) Some c(3) by (auto simp: and3_false)
  qed
next
  case (3 schema col op operand operand_column sub)
  then obtain i op' where c: "column_index schema (cr_column_name col) = Some i" "compare_op_to_check_op op = Inr op'"
      "cs = [\<lparr>ck_column_index = word_of_nat i, ck_op = op', ck_operand = operand\<rparr>]"
    by (auto simp: sbind_Inr_conv split: if_splits option.splits)
  have i: "i < length (ts_columns schema)" using column_index_Some [OF c(1)] by auto
  have u: "unat (word_of_nat i :: u32) = i" using i(1) 3(2) by simp
  have "op \<noteq> C_LIKE" using c(2) by (auto simp: compare_op_to_check_op_def)
  then show ?case using c u 3(3) op_roundtrip [OF c(2)] by (auto simp: passes_def compare_operands_def Let_def)
qed simp

text \<open>
  Property C32. CHECK: the compiled list, checked against a row as wide as the schema, never throws. For an
  expression without NULL literals it finds a violation exactly when the
  expression is false for the row; a row for which it is unknown passes. For a comparison with a
  NULL literal this does not hold: it is unknown for every row, and yet every row whose column is
  not NULL is reported as a violation.
\<close>

theorem check_compiled_correct:
  assumes "flatten_check_expr schema w = Inr (ts_checks schema)" "length (ts_columns schema) < 2 ^ 32"
    "length (row_values row) = length (ts_columns schema)"
  shows "\<exists>r. find_violated_check schema row = Inr r
    \<and> (\<not> null_operands w \<longrightarrow> (r = None \<longleftrightarrow> truth schema row w \<noteq> Some False))
    \<and> (\<forall>col op i. w = Compare col op Null None None \<longrightarrow> column_index schema (cr_column_name col) = Some i
        \<longrightarrow> truth schema row w = None \<and> (r = None \<longleftrightarrow> row_values row ! i = Null))"
proof -
  obtain r where r: "find_violated_check schema row = Inr r" "r = None \<longleftrightarrow> list_all (passes row) (ts_checks schema)"
    using violated_list [OF flatten_compiled [OF assms(1,2)] assms(3), of 0] by (auto simp: find_violated_check_def)
  have null: "truth schema row w = None \<and> (r = None \<longleftrightarrow> row_values row ! i = Null)"
    if w: "w = Compare col op Null None None" "column_index schema (cr_column_name col) = Some i" for col op i
  proof -
    obtain op' where c: "compare_op_to_check_op op = Inr op'"
        "ts_checks schema = [\<lparr>ck_column_index = word_of_nat i, ck_op = op', ck_operand = Null\<rparr>]"
      using assms(1) w by (auto simp: sbind_Inr_conv split: if_splits)
    have "unat (word_of_nat i :: u32) = i" using column_index_Some(1) [OF w(2)] assms(2) by simp
    then show ?thesis using w r(2) c op_roundtrip [OF c(1)] by (auto simp: passes_def compare_operands_def is_null_def Let_def)
  qed
  show ?thesis
  proof (intro exI [of _ r] conjI allI impI)
    show "find_violated_check schema row = Inr r" by (rule r)
    show "r = None \<longleftrightarrow> truth schema row w \<noteq> Some False" if "\<not> null_operands w"
      using r(2) flatten_truth [OF assms(1,2) that] by simp
    show "truth schema row w = None" "r = None \<longleftrightarrow> row_values row ! i = Null"
      if "w = Compare col op Null None None" "column_index schema (cr_column_name col) = Some i" for col op i
      using null [OF that] by (rule conjunct1, rule conjunct2)
  qed
qed

definition checked_table :: "check_constraint list \<Rightarrow> table_schema" where
  "checked_table cs = \<lparr>ts_name = ''t'', ts_columns = [int_column ''a'' True, int_column ''b'' True], ts_root_page = 0,
     ts_primary_key_indices = [0], ts_checks = cs, ts_foreign_keys = [], ts_create_sql = []\<rparr>"

definition named :: "string \<Rightarrow> column_ref" where
  "named name = \<lparr>cr_table_name = [], cr_column_name = name\<rparr>"

definition sample_check :: where_expr where
  "sample_check = Logical L_AND (Compare (named ''a'') C_GT (IntV 3) None None) (Some (Compare (named ''b'') C_LTE (IntV 9) None None))"

definition sample_checks :: "check_constraint list" where
  "sample_checks = [\<lparr>ck_column_index = 0, ck_op = CK_GT, ck_operand = IntV 3\<rparr>, \<lparr>ck_column_index = 1, ck_op = CK_LTE, ck_operand = IntV 9\<rparr>]"

theorem check_compiled_correct_witness:
  "find_violated_check (checked_table sample_checks) \<lparr>row_values = [IntV 4, Null]\<rparr> = Inr None
    \<and> (\<exists>i. find_violated_check (checked_table sample_checks) \<lparr>row_values = [IntV 4, IntV 10]\<rparr> = Inr (Some i))"
proof -
  have f: "flatten_check_expr (checked_table sample_checks) sample_check = Inr (ts_checks (checked_table sample_checks))"
    "length (ts_columns (checked_table sample_checks)) = 2" "\<not> null_operands sample_check"
    by code_simp+
  have "truth (checked_table sample_checks) \<lparr>row_values = [IntV 4, Null]\<rparr> sample_check = None"
    "truth (checked_table sample_checks) \<lparr>row_values = [IntV 4, IntV 10]\<rparr> sample_check = Some False"
    by code_simp+
  then show ?thesis
    using check_compiled_correct [OF f(1), of "\<lparr>row_values = [IntV 4, Null]\<rparr>"]
      check_compiled_correct [OF f(1), of "\<lparr>row_values = [IntV 4, IntV 10]\<rparr>"] f(2,3) by auto
qed

section \<open>Narrowing by an index\<close>

text \<open>What the constraints ask of the values of a row.\<close>

definition meets :: "db_value \<Rightarrow> column_constraint \<Rightarrow> bool" where
  "meets x cc \<longleftrightarrow> (\<forall>v. cc_eq cc = Some v \<longrightarrow> compare_operands C_EQ x v)
     \<and> (\<forall>v. cc_lo cc = Some v \<longrightarrow> compare_operands (if cc_lo_inclusive cc then C_GTE else C_GT) x v)
     \<and> (\<forall>v. cc_hi cc = Some v \<longrightarrow> compare_operands (if cc_hi_inclusive cc then C_LTE else C_LT) x v)"

definition holds :: "table_schema \<Rightarrow> db_row \<Rightarrow> constraints \<Rightarrow> bool" where
  "holds schema row cs \<longleftrightarrow> (\<forall>name cc i. map_of cs name = Some cc \<longrightarrow> column_index schema name = Some i
     \<longrightarrow> i < length (row_values row) \<and> meets (row_values row ! i) cc)"

lemma meets_no_constraint: "meets x no_constraint"
  by (simp add: meets_def no_constraint_def)

lemma meets_tighten: "meets x cc \<Longrightarrow> compare_operands op x v \<Longrightarrow> meets x (tighten op v cc)"
  by (cases op) (simp_all add: meets_def tighten_def)

lemma compare_leaf_True:
  assumes "compare_leaf col op operand operand_column row sc outer = Inr True" "op \<notin> {C_IS_NULL, C_IS_NOT_NULL}"
  obtains x rhs where "resolve_value col row sc outer = Inr x" "compare_operands op x rhs"
    "(case operand_column of None \<Rightarrow> Inr operand | Some c \<Rightarrow> resolve_value c row sc outer) = Inr rhs"
  using assms by (auto simp: compare_leaf_def sbind_Inr_conv)

lemma holds_leaf:
  assumes h: "holds schema row cs"
    and l: "leaf_constraint col op operand operand_column False schema alias outer cs = Inr cs'"
    and t: "compare_leaf col op operand operand_column row (single schema alias) outer = Inr True"
  shows "holds schema row cs'"
proof (cases "cs' = cs")
  case False
  have op: "op \<in> {C_EQ, C_LT, C_GT, C_LTE, C_GTE}" using l False by (auto simp: leaf_constraint_def split: if_splits)
  have q: "cr_table_name col = [] \<or> table_name_matches (cr_table_name col) schema alias"
    using l False by (auto simp: leaf_constraint_def split: if_splits)
  obtain v where seed: "seed_value operand operand_column schema alias outer = Inr (Some v)"
    and cs': "cs' = AList.update (cr_column_name col) (tighten op v (constraint_of cs (cr_column_name col))) cs"
    using l False by (auto simp: leaf_constraint_def sbind_Inr_conv split: if_splits option.splits)
  obtain x rhs where x: "resolve_value col row (single schema alias) outer = Inr x" "compare_operands op x rhs"
    and rhs: "(case operand_column of None \<Rightarrow> Inr operand | Some c \<Rightarrow> resolve_value c row (single schema alias) outer) = Inr rhs"
    by (rule compare_leaf_True [OF t]) (use op in auto)
  have "rhs = v"
  proof (cases operand_column)
    case None
    then show ?thesis using rhs seed by (simp add: seed_value_def)
  next
    case (Some c)
    then show ?thesis using rhs seed
      by (auto simp: seed_value_def resolve_value_def try_resolve_def single_def sbind_Inr_conv split: if_splits option.splits)
  qed
  then have m: "compare_operands op x v" using x by simp
  have "i < length (row_values row) \<and> row_values row ! i = x" if "column_index schema (cr_column_name col) = Some i" for i
    using x(1) q that
    by (auto simp: resolve_value_def try_resolve_def try_resolve_one_def single_def row_get_def split: if_splits)
  then show ?thesis
    using h m meets_tighten meets_no_constraint
    by (auto simp: holds_def cs' update_conv' constraint_of_def split: option.splits if_splits)
qed (simp add: h)

lemma holds_collect:
  fixes s :: "'a objects_scheme"
  assumes "collect_and_constraints schema nick outer w cs = Inr cs'" "holds schema row cs"
    "result (evaluate_condition pos w row (single schema nick) cache outer s) = Inr True"
  shows "holds schema row cs'"
  using assms
proof (induction schema nick outer w cs arbitrary: cs' pos s rule: collect_and_constraints.induct)
  case (1 schema nick outer op l r out)
  show ?case
  proof (cases "op = L_AND")
    case True
    then obtain mid where mid: "collect_and_constraints schema nick outer l out = Inr mid"
      "(case r of None \<Rightarrow> Inr mid | Some r \<Rightarrow> collect_and_constraints schema nick outer r mid) = Inr cs'"
      using 1(3) by (auto simp: sbind_Inr_conv)
    obtain b t where l: "evaluate_condition (pos @ [0]) l row (single schema nick) cache outer s = (Inr b, t)"
      using 1(5) True by (auto simp: bind_def result_def split: prod.splits sum.splits)
    have b: b using 1(5) True l by (auto simp: bind_def result_def ret_def split: if_splits)
    have "result (evaluate_condition (pos @ [0]) l row (single schema nick) cache outer s) = Inr True"
      using l b by (simp add: result_def)
    then have h: "holds schema row mid" by (rule 1(1) [OF True mid(1) 1(4)])
    show ?thesis
    proof (cases r)
      case (Some r')
      then have "result (evaluate_condition (pos @ [1]) r' row (single schema nick) cache outer t) = Inr True"
        using 1(5) True l b by (simp add: bind_def result_def)
      then show ?thesis using 1(2) [OF True mid(1) Some _ h] mid(2) Some by simp
    qed (use h mid in simp)
  next
    case False
    then show ?thesis using 1 by simp
  qed
next
  case (3 schema nick outer col op operand operand_column subquery out)
  show ?case
  proof (cases "op \<in> {C_IN_SUBQUERY, C_NOT_IN_SUBQUERY} \<or> subquery \<noteq> None")
    case True
    then have "cs' = out" using 3(1) by (auto simp: leaf_constraint_def split: if_splits)
    then show ?thesis using 3(2) by simp
  next
    case False
    then have "compare_leaf col op operand operand_column row (single schema nick) outer = Inr True"
      using 3(3) by (auto simp: result_def lift_def ret_def throw_def split: sum.splits)
    then show ?thesis using holds_leaf [OF 3(2)] 3(1) False by simp
  qed
qed auto

text \<open>A row of the types of its schema, and literals that the conversion to a column's type keeps.\<close>

definition typed :: "table_schema \<Rightarrow> db_row \<Rightarrow> bool" where
  "typed schema row \<longleftrightarrow> length (row_values row) = length (ts_columns schema)
     \<and> (\<forall>i < length (ts_columns schema). row_values row ! i = Null \<or> value_matches_type (row_values row ! i) (col_type (ts_columns schema ! i)))"

definition exact_for :: "column_type \<Rightarrow> db_value \<Rightarrow> bool" where
  "exact_for ct v \<longleftrightarrow> \<not> (ct = CT_INT \<and> (\<exists>f. v = FloatV f))"

definition exact :: "table_schema \<Rightarrow> constraints \<Rightarrow> bool" where
  "exact schema cs \<longleftrightarrow> (\<forall>name cc i v. map_of cs name = Some cc \<longrightarrow> column_index schema name = Some i
     \<longrightarrow> Some v \<in> {cc_eq cc, cc_lo cc, cc_hi cc} \<longrightarrow> exact_for (col_type (ts_columns schema ! i)) v)"

text \<open>The tuple of a row in an index.\<close>

definition index_tuple :: "table_schema \<Rightarrow> db_row \<Rightarrow> string list \<Rightarrow> key" where
  "index_tuple schema row names = map (\<lambda>n. row_values row ! the (column_index schema n)) names"

lemma length_index_tuple: "length (index_tuple schema row names) = length names"
  by (simp add: index_tuple_def)

lemma coerced_comparison:
  assumes "value_matches_type x ct \<or> x = Null" "exact_for ct v" "coerce_equality_value v ct = Inr (Some w)" "compare_operands op x v"
    "op \<in> {C_EQ, C_LT, C_GT, C_LTE, C_GTE}"
  shows "decide op (value_lt x w) (value_eq x w) (value_lt w x)"
proof -
  have n: "x \<noteq> Null" "v \<noteq> Null" "compare_values x op v" using assms(4,5) by (auto simp: compare_operands_def is_null_def split: if_splits)
  show ?thesis
    using assms(1,2,3,5) n
    by (cases x; cases v; cases ct)
      (auto simp: coerce_equality_value_def exact_for_def decide_floats_def split: option.splits if_splits)
qed

lemma value_eq_sym: "value_eq a b = value_eq b a"
  by (cases a; cases b) (auto simp: float_eq_def)

lemma narrowing_bounds:
  assumes m: "meets x cc" and t: "value_matches_type x ct \<or> x = Null" and r: "coerce_range cc ct = Inr rb"
    and e: "\<And>v. Some v \<in> {cc_lo cc, cc_hi cc} \<Longrightarrow> exact_for ct v"
  shows "lower_ok (rb_lo rb) (rb_lo_inclusive rb) x \<and> upper_ok (rb_hi rb) (rb_hi_inclusive rb) x"
proof -
  obtain lo hi where b: "coerce_bound (cc_lo cc) ct = Inr lo" "coerce_bound (cc_hi cc) ct = Inr hi"
      "rb = \<lparr>rb_lo = lo, rb_lo_inclusive = (lo \<noteq> None \<and> cc_lo_inclusive cc), rb_hi = hi, rb_hi_inclusive = (hi \<noteq> None \<and> cc_hi_inclusive cc)\<rparr>"
    using r by (auto simp: coerce_range_def sbind_Inr_conv)
  have "lower_ok lo (lo \<noteq> None \<and> cc_lo_inclusive cc) x"
  proof (cases lo)
    case (Some w)
    then obtain v where v: "cc_lo cc = Some v" "coerce_equality_value v ct = Inr (Some w)"
      using b(1) by (auto simp: coerce_bound_def split: option.splits)
    have "compare_operands (if cc_lo_inclusive cc then C_GTE else C_GT) x v" using m v(1) by (simp add: meets_def)
    then have "decide (if cc_lo_inclusive cc then C_GTE else C_GT) (value_lt x w) (value_eq x w) (value_lt w x)"
      using t v e by (intro coerced_comparison) auto
    then show ?thesis using Some by (auto simp: lower_ok_def value_eq_sym split: if_splits)
  qed (simp add: lower_ok_def)
  moreover have "upper_ok hi (hi \<noteq> None \<and> cc_hi_inclusive cc) x"
  proof (cases hi)
    case (Some w)
    then obtain v where v: "cc_hi cc = Some v" "coerce_equality_value v ct = Inr (Some w)"
      using b(2) by (auto simp: coerce_bound_def split: option.splits)
    have "compare_operands (if cc_hi_inclusive cc then C_LTE else C_LT) x v" using m v(1) by (simp add: meets_def)
    then have "decide (if cc_hi_inclusive cc then C_LTE else C_LT) (value_lt x w) (value_eq x w) (value_lt w x)"
      using t v e by (intro coerced_comparison) auto
    then show ?thesis using Some by (auto simp: upper_ok_def value_eq_sym split: if_splits)
  qed (simp add: upper_ok_def)
  ultimately show ?thesis using b(3) by simp
qed

lemma narrowing:
  assumes "match_columns schema cs names = Inr (pre, rb)" "holds schema row cs" "typed schema row" "exact schema cs"
  shows "key_has_prefix (index_tuple schema row names) pre \<and> length pre \<le> length names
    \<and> (is_range rb \<longrightarrow> length pre < length names
      \<and> lower_ok (rb_lo rb) (rb_lo_inclusive rb) (index_tuple schema row names ! length pre)
      \<and> upper_ok (rb_hi rb) (rb_hi_inclusive rb) (index_tuple schema row names ! length pre))"
  using assms
proof (induction schema cs names arbitrary: pre rule: match_columns.induct)
  case (1 schema cs)
  then show ?case by (auto simp: index_tuple_def is_range_def no_bounds_def)
next
  case (2 schema cs name names)
  show ?case
  proof (cases "pre = [] \<and> rb = no_bounds")
    case True
    then show ?thesis by (simp add: is_range_def no_bounds_def)
  next
    case False
    then obtain cc i where cc: "map_of cs name = Some cc" "column_index schema name = Some i"
      using 2(2) by (auto split: option.splits)
    let ?ct = "col_type (ts_columns schema ! i)"
    let ?x = "row_values row ! i"
    have m: "meets ?x cc" using 2(3) cc by (auto simp: holds_def)
    have t: "value_matches_type ?x ?ct \<or> ?x = Null"
      using 2(4) column_index_Some [OF cc(2)] by (auto simp: typed_def)
    have e: "exact_for ?ct v" if "Some v \<in> {cc_eq cc, cc_lo cc, cc_hi cc}" for v using 2(5) cc that by (auto simp: exact_def)
    have tuple: "index_tuple schema row (name # names) = ?x # index_tuple schema row names" using cc by (simp add: index_tuple_def)
    show ?thesis
    proof (cases "cc_eq cc")
      case None
      then have "coerce_range cc ?ct = Inr rb" "pre = []" using 2(2) cc by (auto simp: sbind_Inr_conv)
      then show ?thesis using narrowing_bounds [OF m t _ e] tuple by auto
    next
      case (Some v)
      then obtain w pre' where w: "coerce_equality_value v ?ct = Inr (Some w)" "match_columns schema cs names = Inr (pre', rb)" "pre = w # pre'"
        using 2(2) cc False by (auto simp: sbind_Inr_conv split: option.splits)
      have "decide C_EQ (value_lt ?x w) (value_eq ?x w) (value_lt w ?x)"
        using m Some t e w(1) by (intro coerced_comparison) (auto simp: meets_def)
      then show ?thesis using 2(1) [OF cc refl Some w(1) refl w(2) 2(3,4,5)] w tuple by simp
    qed
  qed
qed

lemma best_match_member:
  assumes "best_match schema cs best ixs = Inr (Some m)"
    "\<And>b. best = Some b \<Longrightarrow> match_columns schema cs (ix_column_names (im_index b)) = Inr (im_prefix b, im_bounds b)"
  shows "match_columns schema cs (ix_column_names (im_index m)) = Inr (im_prefix m, im_bounds m)"
  using assms
proof (induction ixs arbitrary: best)
  case (Cons ix ixs)
  then obtain pre rb where p: "match_columns schema cs (ix_column_names ix) = Inr (pre, rb)" by (auto simp: sbind_Inr_conv)
  let ?best = "if effective_len pre rb > (case best of None \<Rightarrow> 0 | Some m \<Rightarrow> effective_len (im_prefix m) (im_bounds m))
       then Some \<lparr>im_index = ix, im_prefix = pre, im_bounds = rb\<rparr> else best"
  have "best_match schema cs ?best ixs = Inr (Some m)" using Cons.prems(1) p by (simp add: Let_def)
  then show ?case by (rule Cons.IH) (use Cons.prems(2) p in \<open>auto split: if_splits\<close>)
qed simp

text \<open>
  Property C33. An index search keeps the rows WHERE accepts, for conditions that compare no FLOAT literal with an INT
  column (for those the two searches differ): if a typed row satisfies such a condition, then the tuple of the row in the
  index chosen for the condition starts with the search prefix and, for a range search, its next
  component is within the bounds. What an index skips, WHERE would have refused.
\<close>

theorem index_narrowing_sound:
  fixes s :: "'a objects_scheme"
  assumes "collect_and_constraints schema nick outer w [] = Inr cs" "best_match schema cs None ixs = Inr (Some m)"
    "result (evaluate_condition pos w row (single schema nick) cache outer s) = Inr True"
    "typed schema row" "exact schema cs"
  shows "let tuple = index_tuple schema row (ix_column_names (im_index m)); n = length (im_prefix m) in
    key_has_prefix tuple (im_prefix m) \<and> n \<le> length tuple
    \<and> (is_range (im_bounds m) \<longrightarrow> n < length tuple
      \<and> lower_ok (rb_lo (im_bounds m)) (rb_lo_inclusive (im_bounds m)) (tuple ! n)
      \<and> upper_ok (rb_hi (im_bounds m)) (rb_hi_inclusive (im_bounds m)) (tuple ! n))"
proof -
  have h: "holds schema row cs" by (rule holds_collect [OF assms(1) _ assms(3)]) (simp add: holds_def)
  have "match_columns schema cs (ix_column_names (im_index m)) = Inr (im_prefix m, im_bounds m)"
    by (rule best_match_member [OF assms(2)]) simp
  from narrowing [OF this h assms(4,5)] show ?thesis by (simp add: Let_def length_index_tuple)
qed

definition pair_index :: index_schema where
  "pair_index = \<lparr>ix_name = ''i'', ix_table_name = ''t'', ix_column_names = [''a'', ''b''], ix_root_page = 1, ix_is_unique = False\<rparr>"

definition pair_table :: table_schema where
  "pair_table = \<lparr>ts_name = ''t'', ts_columns = [int_column ''id'' False, int_column ''a'' True, int_column ''b'' True], ts_root_page = 0,
     ts_primary_key_indices = [0], ts_checks = [], ts_foreign_keys = [], ts_create_sql = []\<rparr>"

definition five_and_more :: where_expr where
  "five_and_more = Logical L_AND (Compare (named ''a'') C_EQ (IntV 5) None None) (Some (Compare (named ''b'') C_GT (IntV 1) None None))"

lemma accept_five_and_more:
  "result (evaluate_condition [] five_and_more \<lparr>row_values = [IntV 1, IntV 5, IntV 9]\<rparr> (single pair_table []) empty_cache None s) = Inr True"
proof -
  have "compare_leaf (named ''a'') C_EQ (IntV 5) None \<lparr>row_values = [IntV 1, IntV 5, IntV 9]\<rparr> (single pair_table []) None = Inr True"
    "compare_leaf (named ''b'') C_GT (IntV 1) None \<lparr>row_values = [IntV 1, IntV 5, IntV 9]\<rparr> (single pair_table []) None = Inr True"
    by code_simp+
  then show ?thesis by (simp add: five_and_more_def bind_def lift_def ret_def result_def)
qed

theorem index_narrowing_sound_witness:
  "\<exists>cs m. collect_and_constraints pair_table [] None five_and_more [] = Inr cs \<and> best_match pair_table cs None [pair_index] = Inr (Some m)
     \<and> im_prefix m = [IntV 5] \<and> rb_lo (im_bounds m) = Some (IntV 1)
     \<and> (let tuple = index_tuple pair_table \<lparr>row_values = [IntV 1, IntV 5, IntV 9]\<rparr> (ix_column_names (im_index m)) in
        key_has_prefix tuple (im_prefix m) \<and> lower_ok (rb_lo (im_bounds m)) (rb_lo_inclusive (im_bounds m)) (tuple ! length (im_prefix m)))"
proof -
  let ?cs = "projr (collect_and_constraints pair_table [] None five_and_more [])"
  let ?m = "the (projr (best_match pair_table ?cs None [pair_index]))"
  have c: "collect_and_constraints pair_table [] None five_and_more [] = Inr ?cs" by code_simp
  have b: "best_match pair_table ?cs None [pair_index] = Inr (Some ?m)" by code_simp
  have "?cs = [(''a'', no_constraint\<lparr>cc_eq := Some (IntV 5)\<rparr>), (''b'', no_constraint\<lparr>cc_lo := Some (IntV 1), cc_lo_inclusive := False\<rparr>)]" by code_simp
  then have e: "exact pair_table ?cs" by (auto simp: exact_def exact_for_def no_constraint_def split: if_splits)
  have t: "typed pair_table \<lparr>row_values = [IntV 1, IntV 5, IntV 9]\<rparr>"
    by (auto simp: typed_def pair_table_def int_column_def less_Suc_eq)
  have m: "im_prefix ?m = [IntV 5]" "rb_lo (im_bounds ?m) = Some (IntV 1)" "is_range (im_bounds ?m)" by code_simp+
  show ?thesis
    by (intro exI [of _ ?cs] exI [of _ ?m])
      (use c b m index_narrowing_sound [OF c b accept_five_and_more t e] in \<open>simp add: Let_def\<close>)
qed

text \<open>
  An index over several columns loses rows: it stores no entry for a tuple with a
  NULL in it, and yet it is chosen for a condition on its first column alone. Here a row with
  \<open>a = 5\<close> and \<open>b\<close> NULL satisfies \<open>a = 5\<close>, the search goes through the index on \<open>(a, b)\<close>, and
  inserting the row's entry changed nothing, so that the search cannot find it. A full scan finds
  the row.
\<close>

lemma composite_index_drops_rows:
  fixes s :: "'a objects_scheme" and t :: "'b btrees_scheme"
  shows "let w = Compare (named ''a'') C_EQ (IntV 5) None None; row = \<lparr>row_values = [IntV 1, IntV 5, Null]\<rparr> in
    result (evaluate_condition [] w row (single pair_table []) empty_cache None s) = Inr True
    \<and> typed pair_table row
    \<and> (\<exists>cs m. collect_and_constraints pair_table [] None w [] = Inr cs \<and> exact pair_table cs
        \<and> best_match pair_table cs None [pair_index] = Inr (Some m)
        \<and> im_index m = pair_index \<and> im_prefix m = [IntV 5] \<and> \<not> is_range (im_bounds m))
    \<and> insert_entry ix transaction_id (index_tuple pair_table row (ix_column_names pair_index)) [IntV 1] t = (Inr (), t)"
proof -
  let ?w = "Compare (named ''a'') C_EQ (IntV 5) None None" and ?row = "\<lparr>row_values = [IntV 1, IntV 5, Null]\<rparr>"
  let ?cs = "[(''a'', no_constraint\<lparr>cc_eq := Some (IntV 5)\<rparr>)]"
  let ?m = "\<lparr>im_index = pair_index, im_prefix = [IntV 5], im_bounds = no_bounds\<rparr>"
  have "compare_leaf (named ''a'') C_EQ (IntV 5) None ?row (single pair_table []) None = Inr True" by code_simp
  then have 1: "result (evaluate_condition [] ?w ?row (single pair_table []) empty_cache None s) = Inr True"
    by (simp add: lift_def ret_def result_def)
  have 2: "typed pair_table ?row" by (auto simp: typed_def pair_table_def int_column_def less_Suc_eq)
  have 3: "collect_and_constraints pair_table [] None ?w [] = Inr ?cs" "exact pair_table ?cs"
    "best_match pair_table ?cs None [pair_index] = Inr (Some ?m)" "\<not> is_range (im_bounds ?m)"
    by (code_simp, simp add: exact_def exact_for_def no_constraint_def, code_simp, code_simp)
  have "list_ex is_null (index_tuple pair_table ?row (ix_column_names pair_index))" by code_simp
  then have 4: "insert_entry ix transaction_id (index_tuple pair_table ?row (ix_column_names pair_index)) [IntV 1] t = (Inr (), t)"
    by (simp add: insert_entry_def is_indexable_def ret_def)
  show ?thesis unfolding Let_def using 1 2 3 4 by (intro conjI exI [of _ ?cs] exI [of _ ?m]) auto
qed

end
