(* ===== verification/Foreign.thy ===== *)
theory Foreign
  imports Select
begin

text \<open>
  FOREIGN KEY enforcement of \<open>src/executor/executor.cpp\<close>: the check of a row about to be
  written, the search for rows that reference a row, and the deletion of a row with the rows
  that cascade from it.
\<close>

section \<open>The child side\<close>

text \<open>The values at the columns of a constraint; none when one of them is NULL, behind which no column is read.\<close>

fun reference_values :: "db_row \<Rightarrow> u32 list \<Rightarrow> exn + key option" where
  "reference_values row [] = Inr (Some [])"
| "reference_values row (i # is) = sbind (row_get row (unat i)) (\<lambda>v.
     if is_null v then Inr None
     else sbind (reference_values row is) (\<lambda>vs. Inr (map_option (Cons v) vs)))"

definition parent_exists :: "foreign_key \<Rightarrow> key \<Rightarrow> ('a objects_scheme, bool) eff" where
  "parent_exists fk child_values =
     (if fk_ref_index_name fk = [] then
        bind (get_table (fk_ref_table fk)) (\<lambda>ref_schema. bind (new_table ref_schema []) (\<lambda>ref_tbl.
        bind (select_by_key ref_tbl child_values) (\<lambda>row. ret (row \<noteq> None))))
      else
        bind (get_index (fk_ref_index_name fk)) (\<lambda>ref_ischema. bind (get_table (fk_ref_table fk)) (\<lambda>ref_schema.
        bind (new_index ref_ischema (length (ts_primary_key_indices ref_schema))) (\<lambda>ref_idx.
        bind (index_find ref_idx child_values) (\<lambda>pks. ret (pks \<noteq> []))))))"

definition fk_violation :: "table_schema \<Rightarrow> foreign_key \<Rightarrow> key \<Rightarrow> exn + string" where
  "fk_violation schema fk child_values = sbind (smap (\<lambda>i. column_at schema (unat i)) (fk_column_indices fk)) (\<lambda>cols.
     Inr (''FOREIGN KEY violation: no row in '' @ quoted (fk_ref_table fk) @ '' matches ('' @ joined (map col_name cols)
       @ '') = ('' @ joined (map value_to_string child_values) @ '')''))"

text \<open>The description of the first violated constraint; \<open>None\<close> is the empty string of the code.\<close>

fun check_each_foreign_key :: "table_schema \<Rightarrow> db_row \<Rightarrow> foreign_key list \<Rightarrow> ('a objects_scheme, string option) eff" where
  "check_each_foreign_key schema row [] = ret None"
| "check_each_foreign_key schema row (fk # fks) = bind (lift (reference_values row (fk_column_indices fk))) (\<lambda>vs. case vs of
     None \<Rightarrow> check_each_foreign_key schema row fks
   | Some child_values \<Rightarrow> bind (parent_exists fk child_values) (\<lambda>found.
       if found then check_each_foreign_key schema row fks
       else bind (lift (fk_violation schema fk child_values)) (\<lambda>message. ret (Some message))))"

definition check_foreign_keys_on_write :: "table_schema \<Rightarrow> db_row \<Rightarrow> ('a objects_scheme, string option) eff" where
  "check_foreign_keys_on_write schema row = check_each_foreign_key schema row (ts_foreign_keys schema)"

section \<open>The parent side\<close>

record referencing_children =
  rc_child_table :: string
  rc_constraint :: foreign_key
  rc_child_primary_keys :: "key list"

definition children_of :: "db_row \<Rightarrow> string \<Rightarrow> foreign_key \<Rightarrow> ('a objects_scheme, key list) eff" where
  "children_of ref_row child_table fk = bind (lift (reference_values ref_row (fk_ref_column_indices fk))) (\<lambda>vs. case vs of
     None \<Rightarrow> ret []
   | Some parent_values \<Rightarrow>
       bind (get_index (fk_child_index_name fk)) (\<lambda>child_ischema. bind (get_table child_table) (\<lambda>child_schema.
       bind (new_index child_ischema (length (ts_primary_key_indices child_schema))) (\<lambda>child_idx.
       index_find child_idx parent_values))))"

fun collect_children :: "db_row \<Rightarrow> (string \<times> foreign_key) list \<Rightarrow> ('a objects_scheme, referencing_children list) eff" where
  "collect_children ref_row [] = ret []"
| "collect_children ref_row ((child_table, fk) # rest) = bind (children_of ref_row child_table fk) (\<lambda>pks.
     bind (collect_children ref_row rest) (\<lambda>out.
     ret (if pks = [] then out
       else \<lparr>rc_child_table = child_table, rc_constraint = fk, rc_child_primary_keys = pks\<rparr> # out)))"

definition find_referencing_children :: "table_schema \<Rightarrow> db_row \<Rightarrow> ('a objects_scheme, referencing_children list) eff" where
  "find_referencing_children ref_schema ref_row =
     bind (get_foreign_keys_referencing (ts_name ref_schema)) (collect_children ref_row)"

section \<open>Deletion\<close>

definition still_referenced :: "string \<Rightarrow> string \<Rightarrow> exn" where
  "still_referenced table_name child_table = Runtime_error (''FOREIGN KEY violation: row in '' @ quoted table_name
     @ '' is still referenced by table '' @ quoted child_table)"

text \<open>
  The deletion of the row itself, behind its children. The code holds a reference to the
  schema in the catalog, so what it reads is the schema at that time.
\<close>

definition delete_alone :: "string \<Rightarrow> key \<Rightarrow> ('a objects_scheme, unit) eff" where
  "delete_alone table_name key = bind (get_table table_name) (\<lambda>schema. bind (open_indexes schema) (\<lambda>ixs.
     bind (new_table schema ixs) (\<lambda>tbl. andthen (delete_row tbl key)
     (bind (table_root_page tbl) (\<lambda>root.
      andthen (whenever (root \<noteq> ts_root_page schema) (update_table_root table_name root))
        (persist_index_roots tbl))))))"

text \<open>
  A cascade follows foreign keys from a table to the tables that reference it. The fuel counts
  the tables on such a chain; a chain that comes back to a table could go on for ever.
\<close>

fun delete_row_cascading :: "nat \<Rightarrow> string \<Rightarrow> key \<Rightarrow> ('a objects_scheme, bool) eff" where
  "delete_row_cascading 0 table_name key = throw Diverges"
| "delete_row_cascading (Suc n) table_name key = bind (get_table table_name) (\<lambda>schema.
     bind (new_table schema []) (\<lambda>read_tbl. bind (select_by_key read_tbl key) (\<lambda>found. case found of
       None \<Rightarrow> ret False
     | Some row \<Rightarrow> bind (find_referencing_children schema row) (\<lambda>children.
         andthen (for_each (\<lambda>child.
             if fk_on_delete (rc_constraint child) = RESTRICT then throw (still_referenced table_name (rc_child_table child))
             else for_each (\<lambda>pk. andthen (delete_row_cascading n (rc_child_table child) pk) (ret ())) (rc_child_primary_keys child))
           children)
         (andthen (delete_alone table_name key) (ret True))))))"

end
