(* ===== verification/Data_Definition.thy ===== *)
theory Data_Definition
  imports Foreign
begin

text \<open>
  CREATE TABLE, CREATE INDEX, DROP, SHOW and DESCRIBE of \<open>src/executor/executor.cpp\<close>. The early
  returns of the validation of a statement are messages of type \<open>string\<close> on the left of a sum;
  what the code throws stays an exception.
\<close>

section \<open>Columns\<close>

definition column_def_to_column :: "column_def \<Rightarrow> exn + column" where
  "column_def_to_column def = (let name = cd_name def;
       col = \<lparr>col_name = name, col_type = CT_INT, max_length = 0, is_nullable = cd_is_nullable def,
              is_primary_key = cd_is_primary_key def, auto_increment = cd_auto_increment def,
              has_default = cd_has_default def, default_value = cd_default_value def\<rparr> in
     sbind (if cd_type_name def = ''INT'' then Inr col
       else if cd_type_name def = ''FLOAT'' then Inr (col\<lparr>col_type := CT_FLOAT\<rparr>)
       else if cd_type_name def = ''BOOLEAN'' then Inr (col\<lparr>col_type := CT_BOOLEAN\<rparr>)
       else if cd_type_name def = ''VARCHAR'' then
         (if cd_varchar_len def = 0 then Inl (Runtime_error ''VARCHAR length must be greater than 0'')
          else Inr (col\<lparr>col_type := CT_VARCHAR, max_length := cd_varchar_len def\<rparr>))
       else Inl (Runtime_error (''Unknown column type: '' @ quoted (cd_type_name def)))) (\<lambda>col.
     if auto_increment col \<and> col_type col \<noteq> CT_INT then
       Inl (Runtime_error (''AUTO_INCREMENT is only valid on INT columns (column '' @ quoted name @ '')''))
     else if auto_increment col \<and> has_default col then
       Inl (Runtime_error (''AUTO_INCREMENT and DEFAULT cannot both be specified on column '' @ quoted name))
     else if \<not> has_default col then Inr col
     else if is_null (default_value col) then
       (if \<not> is_nullable col then Inl (Runtime_error (''DEFAULT NULL is not valid on NOT NULL column '' @ quoted name))
        else Inr col)
     else if \<not> value_matches_type (default_value col) (col_type col) then
       Inl (Runtime_error (''DEFAULT value type does not match column '' @ quoted name @ '' ('' @ column_type_name (col_type col) @ '')''))
     else if col_type col = CT_VARCHAR then
       sbind (get_string (default_value col)) (\<lambda>text. if length text > unat (max_length col)
         then Inl (Runtime_error (''DEFAULT value exceeds max_length for column '' @ quoted name)) else Inr col)
     else Inr col))"

section \<open>Keys and UNIQUE\<close>

definition in_create :: "string \<Rightarrow> string \<Rightarrow> string" where
  "in_create table_name message = ''CREATE TABLE '' @ quoted table_name @ '': '' @ message"

text \<open>The early return with a message: the first one ends the validation.\<close>

fun unless_error :: "string + 'b \<Rightarrow> ('b \<Rightarrow> string + 'c) \<Rightarrow> string + 'c" where
  "unless_error (Inl message) f = Inl message"
| "unless_error (Inr x) f = f x"

definition inline_keys :: "column_def list \<Rightarrow> u32 list" where
  "inline_keys defs = map word_of_nat (filter (\<lambda>i. cd_is_primary_key (defs ! i)) [0..<length defs])"

fun add_key_columns :: "string \<Rightarrow> string list \<Rightarrow> table_schema \<Rightarrow> string + table_schema" where
  "add_key_columns table_name [] schema = Inr schema"
| "add_key_columns table_name (c # cs) schema = (case column_index schema c of
     None \<Rightarrow> Inl (in_create table_name (''PRIMARY KEY column '' @ quoted c @ '' does not exist''))
   | Some i \<Rightarrow> add_key_columns table_name cs
       (schema\<lparr>ts_primary_key_indices := ts_primary_key_indices schema @ [word_of_nat i],
               ts_columns := (ts_columns schema)[i := (ts_columns schema ! i)\<lparr>is_primary_key := True, is_nullable := False\<rparr>]\<rparr>))"

definition set_primary_key :: "create_table_stmt \<Rightarrow> table_schema \<Rightarrow> string + table_schema" where
  "set_primary_key stmt schema = (let pk_count = length (ts_primary_key_indices schema); name = ct_table_name stmt in
     if pk_count > 1 then Inl (in_create name (''only one inline PRIMARY KEY column is allowed ''
       @ ''(use a table-level PRIMARY KEY (col1, col2, ...) clause for a composite key)''))
     else if ct_table_primary_key stmt \<noteq> [] then
       (if pk_count > 0 then Inl (in_create name (''cannot combine an inline PRIMARY KEY column with a ''
          @ ''table-level PRIMARY KEY (...) clause''))
        else add_key_columns name (ct_table_primary_key stmt) schema)
     else if pk_count = 0 then Inl (in_create name ''no PRIMARY KEY column defined'')
     else Inr schema)"

fun check_unique_columns :: "string \<Rightarrow> table_schema \<Rightarrow> string list \<Rightarrow> string + unit" where
  "check_unique_columns table_name schema [] = Inr ()"
| "check_unique_columns table_name schema (c # cs) = (if column_index schema c = None
     then Inl (in_create table_name (''UNIQUE column '' @ quoted c @ '' does not exist''))
     else check_unique_columns table_name schema cs)"

fun check_unique_groups :: "string \<Rightarrow> table_schema \<Rightarrow> string list list \<Rightarrow> string + unit" where
  "check_unique_groups table_name schema [] = Inr ()"
| "check_unique_groups table_name schema (g # gs) =
     (if g = [] then Inl (in_create table_name ''UNIQUE (...) clause names no columns'')
      else unless_error (check_unique_columns table_name schema g) (\<lambda>_. check_unique_groups table_name schema gs))"

definition same_columns :: "string list \<Rightarrow> string list \<Rightarrow> bool" where
  "same_columns a b = (sort a = sort b)"

text \<open>The groups to build: none over the primary key's columns, none twice.\<close>

definition unique_groups_to_build :: "string list \<Rightarrow> string list list \<Rightarrow> string list list" where
  "unique_groups_to_build pk_names groups = foldl (\<lambda>built g.
     if same_columns g pk_names \<or> list_ex (same_columns g) built then built else built @ [g]) [] groups"

definition unique_groups :: "create_table_stmt \<Rightarrow> string list list" where
  "unique_groups stmt = map (\<lambda>d. [cd_name d]) (filter cd_is_unique (ct_columns stmt)) @ ct_table_unique stmt"

definition key_names :: "table_schema \<Rightarrow> exn + string list" where
  "key_names schema = smap (\<lambda>i. sbind (column_at schema (unat i)) (\<lambda>c. Inr (col_name c))) (ts_primary_key_indices schema)"

section \<open>FOREIGN KEY\<close>

definition foreign_key_defs :: "create_table_stmt \<Rightarrow> foreign_key_def list" where
  "foreign_key_defs stmt = ct_foreign_keys stmt @ map (\<lambda>d. \<lparr>fd_columns = [cd_name d], fd_ref_table = cd_fk_ref_table d,
      fd_ref_columns = [cd_fk_ref_column d], fd_on_delete = FK_RESTRICT\<rparr>)
    (filter (\<lambda>d. cd_fk_ref_table d \<noteq> []) (ct_columns stmt))"

fun reference_columns :: "string \<Rightarrow> table_schema \<Rightarrow> string \<Rightarrow> table_schema \<Rightarrow> string list \<Rightarrow> string list \<Rightarrow> string + (u32 \<times> u32) list" where
  "reference_columns name schema ref_table ref_schema (c # cs) (r # rs) = (case column_index schema c of
     None \<Rightarrow> Inl (in_create name (''FOREIGN KEY column '' @ quoted c @ '' does not exist''))
   | Some i \<Rightarrow> (case column_index ref_schema r of
       None \<Rightarrow> Inl (in_create name (''REFERENCES column '' @ quoted r @ '' does not exist on '' @ quoted ref_table))
     | Some j \<Rightarrow> if col_type (ts_columns schema ! i) \<noteq> col_type (ts_columns ref_schema ! j)
         then Inl (in_create name (''FOREIGN KEY column '' @ quoted c @ '' type does not match referenced column '' @ quoted r))
         else unless_error (reference_columns name schema ref_table ref_schema cs rs) (\<lambda>ijs.
           Inr ((word_of_nat i, word_of_nat j) # ijs))))"
| "reference_columns name schema ref_table ref_schema _ _ = Inr []"

fun on_delete_of :: "foreign_key_on_delete \<Rightarrow> fk_on_delete" where
  "on_delete_of FK_RESTRICT = RESTRICT"
| "on_delete_of FK_CASCADE = CASCADE"

definition backing_name :: "string \<Rightarrow> string \<Rightarrow> string list \<Rightarrow> string" where
  "backing_name kind table_name cols = kind @ table_name @ concat (map (\<lambda>c. ''_'' @ c) cols)"

text \<open>The lookup target of a reference: the primary key (the empty name) or a UNIQUE index.\<close>

definition reference_target :: "string list \<Rightarrow> string list \<Rightarrow> index_schema list \<Rightarrow> string option" where
  "reference_target ref_columns ref_pk_names ixs =
     (if ref_columns = ref_pk_names then Some []
      else map_option ix_name (find (\<lambda>ix. ix_is_unique ix \<and> ix_column_names ix = ref_columns) ixs))"

definition resolve_foreign_key :: "string \<Rightarrow> table_schema \<Rightarrow> foreign_key_def \<Rightarrow> ('a objects_scheme, string + foreign_key) eff" where
  "resolve_foreign_key name schema fk =
     (if fd_ref_table fk = name
      then ret (Inl (in_create name ''self-referencing FOREIGN KEY constraints are not yet supported''))
      else bind (table_exists (fd_ref_table fk)) (\<lambda>known.
      if \<not> known then ret (Inl (in_create name (''FOREIGN KEY references unknown table '' @ quoted (fd_ref_table fk))))
      else if fd_columns fk = [] \<or> length (fd_columns fk) \<noteq> length (fd_ref_columns fk)
      then ret (Inl (in_create name ''FOREIGN KEY column count does not match REFERENCES column count''))
      else bind (get_table (fd_ref_table fk)) (\<lambda>ref_schema.
      case reference_columns name schema (fd_ref_table fk) ref_schema (fd_columns fk) (fd_ref_columns fk) of
        Inl message \<Rightarrow> ret (Inl message)
      | Inr ijs \<Rightarrow> bind (lift (key_names ref_schema)) (\<lambda>ref_pk_names.
          bind (get_indexes_for_table (fd_ref_table fk)) (\<lambda>ixs.
          ret (case reference_target (fd_ref_columns fk) ref_pk_names ixs of
            None \<Rightarrow> Inl (in_create name (''REFERENCES columns on '' @ quoted (fd_ref_table fk)
              @ '' must be its primary key or an existing UNIQUE constraint, '' @ ''in the same declared order''))
          | Some target \<Rightarrow> Inr \<lparr>fk_column_indices = map fst ijs, fk_ref_table = fd_ref_table fk,
              fk_ref_column_indices = map snd ijs, fk_on_delete = on_delete_of (fd_on_delete fk),
              fk_child_index_name = backing_name ''__fk_'' name (fd_columns fk), fk_ref_index_name = target\<rparr>))))))"

fun resolve_foreign_keys :: "string \<Rightarrow> table_schema \<Rightarrow> foreign_key_def list \<Rightarrow> ('a objects_scheme, string + table_schema) eff" where
  "resolve_foreign_keys name schema [] = ret (Inr schema)"
| "resolve_foreign_keys name schema (fk # fks) = bind (resolve_foreign_key name schema fk) (\<lambda>r. case r of
     Inl message \<Rightarrow> ret (Inl message)
   | Inr c \<Rightarrow> resolve_foreign_keys name (schema\<lparr>ts_foreign_keys := ts_foreign_keys schema @ [c]\<rparr>) fks)"

section \<open>CREATE TABLE\<close>

text \<open>The message of an exception that a handler for \<open>std::exception\<close> reads.\<close>

fun what :: "exn \<Rightarrow> string option" where
  "what (Runtime_error m) = Some m"
| "what (Out_of_range m) = Some m"
| "what (Invalid_argument m) = Some m"
| "what (Undefined_behaviour _) = None"
| "what Diverges = None"

text \<open>The CHECK expressions, column-level ones first.\<close>

definition compile_checks :: "create_table_stmt \<Rightarrow> table_schema \<Rightarrow> exn + check_constraint list" where
  "compile_checks stmt schema = sbind (smap (flatten_check_expr schema)
      (concat (map (\<lambda>d. case cd_check d of None \<Rightarrow> [] | Some c \<Rightarrow> [c]) (ct_columns stmt)) @ ct_table_checks stmt))
    (\<lambda>css. Inr (concat css))"

definition checked_schema :: "create_table_stmt \<Rightarrow> table_schema \<Rightarrow> exn + (string + table_schema)" where
  "checked_schema stmt schema = (case compile_checks stmt schema of
     Inr cs \<Rightarrow> Inr (Inr (schema\<lparr>ts_checks := cs\<rparr>))
   | Inl e \<Rightarrow> (case what e of None \<Rightarrow> Inl e | Some m \<Rightarrow> Inr (Inl (in_create (ct_table_name stmt) m))))"

text \<open>The schema without its foreign keys and checks, and the UNIQUE groups that need an index.\<close>

definition table_plan :: "create_table_stmt \<Rightarrow> column list \<Rightarrow> string + table_schema" where
  "table_plan stmt cols = unless_error (set_primary_key stmt
       \<lparr>ts_name = ct_table_name stmt, ts_columns = cols, ts_root_page = INVALID_PAGE,
        ts_primary_key_indices = inline_keys (ct_columns stmt), ts_checks = [], ts_foreign_keys = [],
        ts_create_sql = ct_source_text stmt\<rparr>) (\<lambda>schema.
     unless_error (check_unique_groups (ct_table_name stmt) schema (ct_table_unique stmt)) (\<lambda>_. Inr schema))"

text \<open>An empty index behind a constraint.\<close>

definition add_backing_index :: "nat \<Rightarrow> index_schema \<Rightarrow> ('a objects_scheme, unit) eff" where
  "add_backing_index pk_arity ischema = andthen (create_index ischema) (bind (get_index (ix_name ischema)) (\<lambda>made.
     bind (new_index made pk_arity) (\<lambda>ix. bind (index_root_page ix) (update_index_root (ix_name ischema)))))"

definition unique_index :: "string \<Rightarrow> string list \<Rightarrow> index_schema" where
  "unique_index table_name g = \<lparr>ix_name = backing_name ''__unique_'' table_name g, ix_table_name = table_name,
     ix_column_names = g, ix_root_page = INVALID_PAGE, ix_is_unique = True\<rparr>"

definition child_index :: "table_schema \<Rightarrow> foreign_key \<Rightarrow> exn + index_schema" where
  "child_index schema fk = sbind (smap (\<lambda>i. column_at schema (unat i)) (fk_column_indices fk)) (\<lambda>cols.
     Inr \<lparr>ix_name = fk_child_index_name fk, ix_table_name = ts_name schema,
       ix_column_names = map col_name cols, ix_root_page = INVALID_PAGE, ix_is_unique = False\<rparr>)"

text \<open>The table with its indexes, empty, in the catalog.\<close>

definition build_table :: "table_schema \<Rightarrow> string list list \<Rightarrow> ('a objects_scheme, unit) eff" where
  "build_table schema groups = (let name = ts_name schema; pk_arity = length (ts_primary_key_indices schema) in
     andthen (create_table schema) (bind (get_table name) (\<lambda>made. bind (new_table made []) (\<lambda>tbl.
     bind (table_root_page tbl) (\<lambda>root. andthen (update_table_root name root)
     (andthen (for_each (\<lambda>g. add_backing_index pk_arity (unique_index name g)) groups)
      (for_each (\<lambda>fk. bind (lift (child_index schema fk)) (add_backing_index pk_arity)) (ts_foreign_keys schema))))))))"

definition execute_create_table :: "create_table_stmt \<Rightarrow> ('a objects_scheme, query_result) eff" where
  "execute_create_table stmt = (let name = ct_table_name stmt in
     bind (table_exists name) (\<lambda>taken.
     if taken then ret (failure (''Table '' @ quoted name @ '' already exists''))
     else bind (lift (smap column_def_to_column (ct_columns stmt))) (\<lambda>cols.
     case table_plan stmt cols of
       Inl message \<Rightarrow> ret (failure message)
     | Inr planned \<Rightarrow> bind (lift (key_names planned)) (\<lambda>pk_names.
         bind (resolve_foreign_keys name planned (foreign_key_defs stmt)) (\<lambda>r. case r of
           Inl message \<Rightarrow> ret (failure message)
         | Inr linked \<Rightarrow> bind (lift (checked_schema stmt linked)) (\<lambda>r. case r of
             Inl message \<Rightarrow> ret (failure message)
           | Inr schema \<Rightarrow> andthen (build_table schema (unique_groups_to_build pk_names (unique_groups stmt)))
               (ret (affected 0))))))))"

section \<open>DROP\<close>

definition execute_drop_table :: "string \<Rightarrow> ('a objects_scheme, query_result) eff" where
  "execute_drop_table name = bind (table_exists name) (\<lambda>known.
     if \<not> known then ret (failure (''Table '' @ quoted name @ '' does not exist''))
     else bind (get_foreign_keys_referencing name) (\<lambda>referencing. case referencing of
       (t, _) # _ \<Rightarrow> ret (failure (''DROP TABLE '' @ quoted name
         @ '': still referenced by a FOREIGN KEY on table '' @ quoted t))
     | [] \<Rightarrow> andthen (drop_table name) (ret (affected 0))))"

definition execute_drop_index :: "string \<Rightarrow> ('a objects_scheme, query_result) eff" where
  "execute_drop_index name = bind (gets indexes) (\<lambda>ixs.
     if map_of ixs name = None then ret (failure (''Index '' @ quoted name @ '' does not exist''))
     else andthen (drop_index name) (ret (affected 0)))"

section \<open>CREATE INDEX\<close>

fun index_column_indices :: "string \<Rightarrow> string \<Rightarrow> table_schema \<Rightarrow> string list \<Rightarrow> string + nat list" where
  "index_column_indices index_name table_name schema [] = Inr []"
| "index_column_indices index_name table_name schema (c # cs) = (case column_index schema c of
     None \<Rightarrow> Inl (''CREATE INDEX '' @ quoted index_name @ '': column '' @ quoted c @ '' does not exist on table ''
       @ quoted table_name)
   | Some i \<Rightarrow> unless_error (index_column_indices index_name table_name schema cs) (\<lambda>is. Inr (i # is)))"

text \<open>The indexed values of a row; none when one is NULL.\<close>

fun backfill_value :: "db_value list \<Rightarrow> nat list \<Rightarrow> exn + key option" where
  "backfill_value values [] = Inr (Some [])"
| "backfill_value values (i # is) = sbind (item_at values i) (\<lambda>v.
     if is_null v then Inr None
     else sbind (backfill_value values is) (\<lambda>vs. Inr (map_option (Cons v) vs)))"

fun backfill_entries :: "nat list \<Rightarrow> nat list \<Rightarrow> scan_result list \<Rightarrow> exn + (key \<times> key) list" where
  "backfill_entries cols pk_cols [] = Inr []"
| "backfill_entries cols pk_cols (r # rs) = sbind (backfill_value (row_values (sr_row r)) cols) (\<lambda>v. case v of
     None \<Rightarrow> backfill_entries cols pk_cols rs
   | Some indexed_value \<Rightarrow> sbind (smap (item_at (row_values (sr_row r))) pk_cols) (\<lambda>primary_key.
       sbind (backfill_entries cols pk_cols rs) (\<lambda>es. Inr ((indexed_value, primary_key) # es))))"

text \<open>\<open>std::set\<close> holds keys that neither precedes; a second one is refused.\<close>

fun has_duplicate :: "key list \<Rightarrow> key list \<Rightarrow> bool" where
  "has_duplicate seen [] = False"
| "has_duplicate seen (k # ks) =
     (list_ex (\<lambda>x. \<not> key_lt x k \<and> \<not> key_lt k x) seen \<or> has_duplicate (k # seen) ks)"

definition backfill :: "index \<Rightarrow> (key \<times> key) list \<Rightarrow> ('a objects_scheme, unit) eff" where
  "backfill ix entries = whenever (entries \<noteq> []) (bind wal_begin (\<lambda>transaction_id.
     andthen (for_each (\<lambda>(v, pk). insert_entry ix transaction_id v pk) entries) (wal_commit transaction_id)))"

definition execute_create_index :: "create_index_stmt \<Rightarrow> ('a objects_scheme, query_result) eff" where
  "execute_create_index stmt = (let name = ci_index_name stmt; table_name = ci_table_name stmt in
     bind (table_exists table_name) (\<lambda>known.
     if \<not> known then ret (failure (''CREATE INDEX: table '' @ quoted table_name @ '' does not exist''))
     else bind (get_table table_name) (\<lambda>schema.
     if ci_column_names stmt = [] then ret (failure (''CREATE INDEX '' @ quoted name @ '': no columns specified''))
     else case index_column_indices name table_name schema (ci_column_names stmt) of
       Inl message \<Rightarrow> ret (failure message)
     | Inr cols \<Rightarrow> bind (new_table schema []) (\<lambda>tbl. bind (table_scan tbl all_rows) (\<lambda>rows.
       bind (lift (backfill_entries cols (map unat (ts_primary_key_indices schema)) rows)) (\<lambda>entries.
       if ci_is_unique stmt \<and> has_duplicate [] (map fst entries)
       then ret (failure (''CREATE INDEX '' @ quoted name @ '': cannot create UNIQUE index '' @ em_dash @ '' table ''
         @ quoted table_name @ '' already has duplicate values for the indexed column(s)''))
       else andthen (create_index \<lparr>ix_name = name, ix_table_name = table_name, ix_column_names = ci_column_names stmt,
           ix_root_page = INVALID_PAGE, ix_is_unique = ci_is_unique stmt\<rparr>)
         (bind (get_index name) (\<lambda>made. bind (new_index made (length (ts_primary_key_indices schema))) (\<lambda>ix.
          andthen (backfill ix entries) (bind (index_root_page ix) (\<lambda>root.
          andthen (update_index_root name root) (ret (affected 0)))))))))))))"

section \<open>SHOW and DESCRIBE\<close>

fun execute_show :: "show_target \<Rightarrow> ('a objects_scheme, query_result) eff" where
  "execute_show S_DATABASES = ret (failure ''SHOW DATABASES must be handled by the Database class'')"
| "execute_show S_TABLES = bind list_tables (\<lambda>names. ret (table_result [''Tables''] (map (\<lambda>n. [n]) names)))"

definition type_text :: "column \<Rightarrow> string" where
  "type_text col = column_type_name (col_type col) @ (if col_type col = CT_VARCHAR \<and> max_length col > 0
     then ''('' @ to_string (unat (max_length col)) @ '')'' else [])"

definition key_text :: "table_schema \<Rightarrow> index_schema list \<Rightarrow> nat \<Rightarrow> column \<Rightarrow> string" where
  "key_text schema ixs i col =
     (if word_of_nat i \<in> set (ts_primary_key_indices schema) then ''PRI''
      else if list_ex (\<lambda>ix. ix_is_unique ix \<and> ix_column_names ix = [col_name col]) ixs then ''UNI''
      else if list_ex (\<lambda>ix. ix_column_names ix \<noteq> [] \<and> hd (ix_column_names ix) = col_name col) ixs then ''MUL''
      else [])"

definition describe_column :: "table_schema \<Rightarrow> index_schema list \<Rightarrow> nat \<times> column \<Rightarrow> string list" where
  "describe_column schema ixs = (\<lambda>(i, col). [col_name col, type_text col, if is_nullable col then ''YES'' else ''NO'',
     key_text schema ixs i col, if has_default col then value_to_string (default_value col) else ''NULL'',
     if auto_increment col then ''AUTO_INCREMENT'' else []])"

definition line_break :: string where "line_break = [CHR 0x0A]"

definition rebuilt_sql :: "table_schema \<Rightarrow> exn + string" where
  "rebuilt_sql schema = sbind (key_names schema) (\<lambda>keys.
     Inr (''CREATE TABLE '' @ ts_name schema @ '' ('' @ line_break
       @ concat (map (\<lambda>col. ''    '' @ col_name col @ '' '' @ type_text col
           @ (if \<not> is_nullable col then '' NOT NULL'' else []) @ '','' @ line_break) (ts_columns schema))
       @ ''    PRIMARY KEY ('' @ joined keys @ '')'' @ line_break @ '')''))"

definition starts_with :: "string \<Rightarrow> string \<Rightarrow> bool" where
  "starts_with start name = (take (length start) name = start)"

definition index_sql :: "table_schema \<Rightarrow> index_schema \<Rightarrow> string" where
  "index_sql schema ix = (if starts_with ''__unique_'' (ix_name ix) \<or> starts_with ''__fk_'' (ix_name ix) then []
     else '';'' @ line_break @ (if ix_is_unique ix then ''CREATE UNIQUE INDEX '' else ''CREATE INDEX '')
       @ ix_name ix @ '' ON '' @ ts_name schema @ '' ('' @ joined (ix_column_names ix) @ '')'')"

definition build_create_table_sql :: "table_schema \<Rightarrow> ('a objects_scheme, string) eff" where
  "build_create_table_sql schema =
     bind (lift (if ts_create_sql schema = [] then rebuilt_sql schema else Inr (ts_create_sql schema))) (\<lambda>sql.
     bind (get_indexes_for_table (ts_name schema)) (\<lambda>ixs. ret (sql @ concat (map (index_sql schema) ixs))))"

definition execute_describe :: "string \<Rightarrow> ('a objects_scheme, query_result) eff" where
  "execute_describe name = bind (table_exists name) (\<lambda>known.
     if \<not> known then ret (failure (''Table '' @ quoted name @ '' does not exist''))
     else bind (get_table name) (\<lambda>schema. bind (get_indexes_for_table (ts_name schema)) (\<lambda>ixs.
     bind (build_create_table_sql schema) (\<lambda>sql.
     ret (table_result [''Field'', ''Type'', ''Null'', ''Key'', ''Default'', ''Extra'']
       (map (describe_column schema ixs) (enumerate 0 (ts_columns schema))
        @ [[''Create Table'', sql, [], [], [], []]]))))))"

end
