(* ===== verification/Execute.thy ===== *)
theory Execute
  imports Data_Definition
begin

text \<open>
  INSERT, UPDATE, DELETE and the entry point \<open>execute\<close> of \<open>src/executor/executor.cpp\<close>, which
  turns an exception into a failed result and keeps the mutations made before it.
\<close>

section \<open>INSERT\<close>

text \<open>
  The values a statement provides, one slot per column: an empty slot is a column the code
  marks as not provided, which falls back to its default.
\<close>

definition given_value :: "bool list \<Rightarrow> nat \<Rightarrow> db_value \<Rightarrow> db_value option" where
  "given_value flags i v = (if i < length flags \<and> flags ! i then None else Some v)"

fun named_slots :: "table_schema \<Rightarrow> bool list \<Rightarrow> nat \<Rightarrow> string list \<Rightarrow> db_value list \<Rightarrow> db_value option list
    \<Rightarrow> string + db_value option list" where
  "named_slots schema flags i (c # cs) (v # vs) slots = (case column_index schema c of
     None \<Rightarrow> Inl (''INSERT: unknown column '' @ quoted c)
   | Some j \<Rightarrow> named_slots schema flags (Suc i) cs vs
       (case given_value flags i v of None \<Rightarrow> slots | Some w \<Rightarrow> slots[j := Some w]))"
| "named_slots schema flags i _ _ slots = Inr slots"

definition insert_slots :: "table_schema \<Rightarrow> insert_stmt \<Rightarrow> string + db_value option list" where
  "insert_slots schema stmt = (let n = length (ts_columns schema); vs = is_values stmt; flags = is_value_is_default stmt in
     if is_columns stmt = [] then
       (if length vs \<noteq> n then Inl (''INSERT: value count ('' @ to_string (length vs)
          @ '') does not match column count ('' @ to_string n @ '')'')
        else Inr (map (\<lambda>(i, v). given_value flags i v) (enumerate 0 vs)))
     else if length (is_columns stmt) \<noteq> length vs then Inl ''INSERT: column list and value list have different lengths''
     else named_slots schema flags 0 (is_columns stmt) vs (replicate n None))"

definition slot_value :: "column \<Rightarrow> db_value option \<Rightarrow> db_value" where
  "slot_value col slot = (case slot of Some v \<Rightarrow> v | None \<Rightarrow> if has_default col then default_value col else Null)"

definition insert_row :: "table_schema \<Rightarrow> db_value option list \<Rightarrow> db_row" where
  "insert_row schema slots = \<lparr>row_values = map2 slot_value (ts_columns schema) slots\<rparr>"

definition check_violation :: "string \<Rightarrow> table_schema \<Rightarrow> nat \<Rightarrow> exn + string" where
  "check_violation verb schema i = (let c = ts_checks schema ! i in
     sbind (column_at schema (unat (ck_column_index c))) (\<lambda>col.
       Inr (verb @ '': CHECK constraint violated on column '' @ quoted (col_name col) @ '' ('' @ col_name col @ '' ''
         @ check_op_symbol (ck_op c) @ '' '' @ value_to_string (ck_operand c) @ '')'')))"

text \<open>A root that a split moved, and the roots of the indexes, go back to the catalog.\<close>

definition persist_roots :: "string \<Rightarrow> table_schema \<Rightarrow> table \<Rightarrow> ('a objects_scheme, unit) eff" where
  "persist_roots table_name schema tbl = bind (table_root_page tbl) (\<lambda>root.
     andthen (whenever (root \<noteq> ts_root_page schema) (update_table_root table_name root)) (persist_index_roots tbl))"

definition execute_insert :: "insert_stmt \<Rightarrow> ('a objects_scheme, query_result) eff" where
  "execute_insert stmt = bind (get_table (is_table_name stmt)) (\<lambda>schema. case insert_slots schema stmt of
     Inl message \<Rightarrow> ret (failure message)
   | Inr slots \<Rightarrow> let row = insert_row schema slots in
       bind (lift (find_violated_check schema row)) (\<lambda>violated. case violated of
         Some i \<Rightarrow> bind (lift (check_violation ''INSERT'' schema i)) (\<lambda>message. ret (failure message))
       | None \<Rightarrow> bind (check_foreign_keys_on_write schema row) (\<lambda>fk_error. case fk_error of
           Some message \<Rightarrow> ret (failure (''INSERT: '' @ message))
         | None \<Rightarrow> bind (open_indexes schema) (\<lambda>ixs. bind (new_table schema ixs) (\<lambda>tbl.
             bind (table_insert tbl row) (\<lambda>(_, tbl).
             andthen (persist_roots (is_table_name stmt) schema tbl) (ret (affected 1))))))))"

section \<open>UPDATE\<close>

fun new_values_of :: "table_schema \<Rightarrow> set_clause list \<Rightarrow> exn + (string + (nat \<times> db_value) list)" where
  "new_values_of schema [] = Inr (Inr [])"
| "new_values_of schema (a # as) = (case column_index schema (set_column_name a) of
     None \<Rightarrow> Inr (Inl (''UPDATE: unknown column '' @ quoted (set_column_name a)))
   | Some i \<Rightarrow> sbind (column_at schema i) (\<lambda>col. sbind (new_values_of schema as) (\<lambda>r.
       Inr (unless_error r (\<lambda>rest. Inr ((i, if set_is_default a
         then slot_value col None else set_value a) # rest))))))"

text \<open>The row behind the assignments; \<open>values[idx]\<close> is unchecked.\<close>

fun candidate :: "(nat \<times> db_value) list \<Rightarrow> db_row \<Rightarrow> exn + db_row" where
  "candidate [] row = Inr row"
| "candidate ((i, v) # rest) row = sbind (item_at (row_values row) i) (\<lambda>_.
     candidate rest (row\<lparr>row_values := (row_values row)[i := v]\<rparr>))"

fun check_candidates :: "table_schema \<Rightarrow> (nat \<times> db_value) list \<Rightarrow> scan_result list \<Rightarrow> exn + string option" where
  "check_candidates schema new_values [] = Inr None"
| "check_candidates schema new_values (r # rs) = sbind (candidate new_values (sr_row r)) (\<lambda>row.
     sbind (find_violated_check schema row) (\<lambda>violated. case violated of
       Some i \<Rightarrow> sbind (check_violation ''UPDATE'' schema i) (\<lambda>message. Inr (Some message))
     | None \<Rightarrow> check_candidates schema new_values rs))"

text \<open>Whether an assignment changes a column that an inbound key references.\<close>

fun touches_referenced_column :: "(string \<times> foreign_key) list \<Rightarrow> db_row \<Rightarrow> (nat \<times> db_value) list \<Rightarrow> exn + bool" where
  "touches_referenced_column inbound row [] = Inr False"
| "touches_referenced_column inbound row ((i, v) # rest) = sbind (row_get row i) (\<lambda>old.
     sbind (touches_referenced_column inbound row rest) (\<lambda>b.
       Inr (b \<or> \<not> value_eq old v \<and> list_ex (\<lambda>(_, fk). word_of_nat i \<in> set (fk_ref_column_indices fk)) inbound)))"

definition check_parents :: "table_schema \<Rightarrow> (nat \<times> db_value) list \<Rightarrow> (string \<times> foreign_key) list \<Rightarrow> scan_result
    \<Rightarrow> ('a objects_scheme, string option) eff" where
  "check_parents schema new_values inbound r = (if inbound = [] then ret None
     else bind (lift (touches_referenced_column inbound (sr_row r) new_values)) (\<lambda>touched.
       if \<not> touched then ret None
       else bind (find_referencing_children schema (sr_row r)) (\<lambda>children. ret (case children of
         [] \<Rightarrow> None
       | child # _ \<Rightarrow> Some (''UPDATE: cannot change a value referenced by a FOREIGN '' @ ''KEY constraint on table ''
           @ quoted (rc_child_table child))))))"

definition check_row_keys :: "table_schema \<Rightarrow> (nat \<times> db_value) list \<Rightarrow> (string \<times> foreign_key) list \<Rightarrow> scan_result
    \<Rightarrow> ('a objects_scheme, string option) eff" where
  "check_row_keys schema new_values inbound r = bind (lift (candidate new_values (sr_row r))) (\<lambda>row.
     bind (if ts_foreign_keys schema \<noteq> [] then check_foreign_keys_on_write schema row else ret None) (\<lambda>fk_error. case fk_error of
       Some message \<Rightarrow> ret (Some (''UPDATE: '' @ message))
     | None \<Rightarrow> check_parents schema new_values inbound r))"

fun check_keys :: "table_schema \<Rightarrow> (nat \<times> db_value) list \<Rightarrow> (string \<times> foreign_key) list \<Rightarrow> scan_result list
    \<Rightarrow> ('a objects_scheme, string option) eff" where
  "check_keys schema new_values inbound [] = ret None"
| "check_keys schema new_values inbound (r # rs) = bind (check_row_keys schema new_values inbound r) (\<lambda>e. case e of
     Some message \<Rightarrow> ret (Some message) | None \<Rightarrow> check_keys schema new_values inbound rs)"

text \<open>The statement-level checks, before any write.\<close>

definition update_error :: "table_schema \<Rightarrow> (nat \<times> db_value) list \<Rightarrow> scan_result list \<Rightarrow> ('a objects_scheme, string option) eff" where
  "update_error schema new_values matched =
     bind (lift (if ts_checks schema \<noteq> [] then check_candidates schema new_values matched else Inr None)) (\<lambda>e. case e of
       Some message \<Rightarrow> ret (Some message)
     | None \<Rightarrow> bind (get_foreign_keys_referencing (ts_name schema)) (\<lambda>inbound.
         if ts_foreign_keys schema \<noteq> [] \<or> inbound \<noteq> [] then check_keys schema new_values inbound matched else ret None))"

definition execute_update :: "update_stmt \<Rightarrow> ('a objects_scheme, query_result) eff" where
  "execute_update stmt = bind (get_table (us_table_name stmt)) (\<lambda>schema.
     bind (lift (new_values_of schema (us_assignments stmt))) (\<lambda>r. case r of
       Inl message \<Rightarrow> ret (failure message)
     | Inr new_values \<Rightarrow> bind (open_indexes schema) (\<lambda>ixs. bind (new_table schema ixs) (\<lambda>tbl.
         bind (build_predicate (us_where stmt) (single schema []) None) (\<lambda>pred.
         bind (scan_with_index tbl schema (us_where stmt) pred [] None) (\<lambda>matched.
         bind (update_error schema new_values matched) (\<lambda>e. case e of
           Some message \<Rightarrow> ret (failure message)
         | None \<Rightarrow> bind (update_matched tbl matched new_values) (\<lambda>(count, tbl).
             andthen (persist_roots (us_table_name stmt) schema tbl) (ret (affected count))))))))))"

section \<open>DELETE\<close>

fun delete_each :: "nat \<Rightarrow> string \<Rightarrow> key list \<Rightarrow> u32 \<Rightarrow> ('a objects_scheme, u32) eff" where
  "delete_each fuel table_name [] count = ret count"
| "delete_each fuel table_name (pk # pks) count = bind (delete_row_cascading fuel table_name pk) (\<lambda>deleted.
     delete_each fuel table_name pks (if deleted then count + 1 else count))"

text \<open>A chain of foreign keys without a cycle is no longer than the number of tables.\<close>

definition execute_delete :: "delete_stmt \<Rightarrow> ('a objects_scheme, query_result) eff" where
  "execute_delete stmt = bind (get_table (ds_table_name stmt)) (\<lambda>schema. bind (new_table schema []) (\<lambda>read_tbl.
     bind (build_predicate (ds_where stmt) (single schema []) None) (\<lambda>pred.
     bind (scan_with_index read_tbl schema (ds_where stmt) pred [] None) (\<lambda>matched.
     bind (gets (\<lambda>s. Suc (length (tables s)))) (\<lambda>fuel.
     bind (delete_each fuel (ds_table_name stmt) (map sr_primary_key matched) 0) (\<lambda>count. ret (affected count)))))))"

section \<open>The entry point\<close>

definition by_database :: "string \<Rightarrow> query_result" where
  "by_database verb = failure (verb @ '' must be handled by the Database class'')"

fun dispatch :: "statement \<Rightarrow> ('a objects_scheme, query_result) eff" where
  "dispatch (Select stmt) = execute_select stmt"
| "dispatch (Insert stmt) = execute_insert stmt"
| "dispatch (Update stmt) = execute_update stmt"
| "dispatch (Delete stmt) = execute_delete stmt"
| "dispatch (Create_table stmt) = execute_create_table stmt"
| "dispatch (Drop_table name) = execute_drop_table name"
| "dispatch (Create_index stmt) = execute_create_index stmt"
| "dispatch (Drop_index name) = execute_drop_index name"
| "dispatch (Create_database _) = ret (by_database ''CREATE DATABASE'')"
| "dispatch (Drop_database _) = ret (by_database ''DROP DATABASE'')"
| "dispatch (Use _) = ret (by_database ''USE'')"
| "dispatch (Show target) = execute_show target"
| "dispatch (Describe name) = execute_describe name"

definition caught :: "('s, query_result) eff \<Rightarrow> ('s, query_result) eff" where
  "caught m s = (case m s of
     (Inl e, t) \<Rightarrow> (case what e of Some message \<Rightarrow> (Inr (failure message), t) | None \<Rightarrow> (Inl e, t))
   | r \<Rightarrow> r)"

definition execute :: "statement \<Rightarrow> ('a objects_scheme, query_result) eff" where
  "execute stmt = caught (dispatch stmt)"

end
