(* ===== verification/Database.thy ===== *)
theory Database
  imports Execute Parser
begin

text \<open>
  \<open>Database\<close> of \<open>src/database.cpp\<close>: the data directory, the statements about whole databases,
  and the life of the storage stack. The files of a database are the bytes of its \<open>.db\<close> and its
  \<open>.wal\<close>; what an open stack has written is in them at once, as in the cache of the operating
  system. The outcomes of the calls of the system come from one script.
\<close>

section \<open>State\<close>

record stored =
  sd_db :: "byte list"
  sd_wal :: "byte list"

text \<open>
  The members of the storage stack. They are made in order, so what tells a stack that was left
  half open is whether it has a log and whether it has an executor.
\<close>

record open_stack =
  os_dir :: string
  os_name :: string
  os_has_wal :: bool
  os_has_executor :: bool
  os_objects :: objects

record engine =
  en_io :: "io_outcome list"
  en_home :: "string option"
  en_config :: "string option"
  en_disks :: "(string \<times> (string \<times> stored) list) list"
  en_data_dir :: string
  en_current_db_name :: string
  en_stack :: "open_stack option"

section \<open>The file system\<close>

definition fs_call :: "exn \<Rightarrow> (engine, unit) eff" where
  "fs_call e s = (case en_io s of
     IO_short _ # r \<Rightarrow> (Inl e, s\<lparr>en_io := r\<rparr>)
   | _ \<Rightarrow> (Inr (), s\<lparr>en_io := tl (en_io s)\<rparr>))"

text \<open>A call that reports through an \<open>error_code\<close>.\<close>

definition fs_try :: "(engine, bool) eff" where
  "fs_try s = (case en_io s of
     IO_short _ # r \<Rightarrow> (Inr False, s\<lparr>en_io := r\<rparr>)
   | _ \<Rightarrow> (Inr True, s\<lparr>en_io := tl (en_io s)\<rparr>))"

definition filesystem_error :: exn where
  "filesystem_error = Runtime_error ''filesystem error''"

text \<open>The databases in a directory.\<close>

definition entries_of :: "string \<Rightarrow> engine \<Rightarrow> (string \<times> stored) list" where
  "entries_of dir s = (case map_of (en_disks s) dir of None \<Rightarrow> [] | Some es \<Rightarrow> es)"

definition set_entries :: "string \<Rightarrow> (string \<times> stored) list \<Rightarrow> engine \<Rightarrow> engine" where
  "set_entries dir es s = s\<lparr>en_disks := AList.update dir es (en_disks s)\<rparr>"

definition create_directories :: "string \<Rightarrow> (engine, unit) eff" where
  "create_directories dir = andthen (fs_call filesystem_error) (modify (\<lambda>s. set_entries dir (entries_of dir s) s))"

text \<open>\<open>std::filesystem::exists\<close> without an \<open>error_code\<close>: a status that cannot be read is an exception.\<close>

definition database_exists :: "string \<Rightarrow> (engine, bool) eff" where
  "database_exists name = andthen (fs_call filesystem_error) (gets (\<lambda>s. map_of (entries_of (en_data_dir s) s) name \<noteq> None))"

definition remove_database :: "string \<Rightarrow> engine \<Rightarrow> engine" where
  "remove_database name s = set_entries (en_data_dir s) (AList.delete name (entries_of (en_data_dir s) s)) s"

definition replace_files :: "string \<Rightarrow> stored \<Rightarrow> (string \<times> stored) list \<Rightarrow> (string \<times> stored) list" where
  "replace_files name f es = map (\<lambda>(n, g). (n, if n = name then f else g)) es"

section \<open>The data directory\<close>

definition no_home :: "string \<Rightarrow> exn" where
  "no_home target = Runtime_error (''Database: $HOME is not set, cannot resolve '' @ target)"

definition default_data_dir :: "(engine, string) eff" where
  "default_data_dir = bind (gets en_home) (\<lambda>home. case home of
     None \<Rightarrow> throw (no_home ''default data_dir'') | Some h \<Rightarrow> ret (h @ ''/Documents/GS-DBEngine''))"

definition config_file_path :: "(engine, string) eff" where
  "config_file_path = bind (gets en_home) (\<lambda>home. case home of
     None \<Rightarrow> throw (no_home ''config file path'') | Some h \<Rightarrow> ret (h @ ''/Documents/GSDB-config.txt''))"

text \<open>The status of the file, then the stream that is opened and asked for a line.\<close>

definition resolve_data_dir :: "(engine, string) eff" where
  "resolve_data_dir = bind config_file_path (\<lambda>_. bind fs_try (\<lambda>known. bind (gets en_config) (\<lambda>config.
     case (if known then config else None) of
       None \<Rightarrow> default_data_dir
     | Some content \<Rightarrow> bind fs_try (\<lambda>got. let line = takeWhile (\<lambda>c. c \<noteq> CHR 0x0A) content in
         if got \<and> line \<noteq> [] then ret line else default_data_dir))))"

text \<open>The stream that is not asked whether it failed.\<close>

definition put_config :: "string \<Rightarrow> (engine, unit) eff" where
  "put_config content s = (Inr (), s\<lparr>en_io := tl (en_io s),
     en_config := Some (case en_io s of IO_short n # _ \<Rightarrow> take n content | _ \<Rightarrow> content)\<rparr>)"

definition persist_data_dir :: "string \<Rightarrow> (engine, unit) eff" where
  "persist_data_dir dir = bind config_file_path (\<lambda>cfg. andthen (fs_call filesystem_error)
     (andthen (fs_call (Runtime_error (''Database: failed to write '' @ cfg)))
      (put_config (dir @ line_break))))"

definition database_open :: "string \<Rightarrow> (engine, unit) eff" where
  "database_open data_dir = andthen (modify (\<lambda>s. s\<lparr>en_data_dir := data_dir\<rparr>)) (create_directories data_dir)"

section \<open>The storage stack\<close>

text \<open>A method of the members of the stack; its files follow what it writes.\<close>

definition on_stack :: "(objects, 'b) eff \<Rightarrow> (engine, 'b) eff" where
  "on_stack m s = (case en_stack s of
     None \<Rightarrow> (Inl (Undefined_behaviour ''null pointer''), s)
   | Some st \<Rightarrow> let (r, t) = m ((os_objects st)\<lparr>io := en_io s\<rparr>) in
       (r, set_entries (os_dir st) (replace_files (os_name st) \<lparr>sd_db = db_file t, sd_wal = wal_file t\<rparr> (entries_of (os_dir st) s))
         (s\<lparr>en_io := io t, en_stack := Some (st\<lparr>os_objects := t\<rparr>)\<rparr>)))"

definition set_stack :: "open_stack option \<Rightarrow> (engine, unit) eff" where
  "set_stack st = modify (\<lambda>s. s\<lparr>en_stack := st\<rparr>)"

definition amend_stack :: "(open_stack \<Rightarrow> open_stack) \<Rightarrow> (engine, unit) eff" where
  "amend_stack f = modify (\<lambda>s. s\<lparr>en_stack := map_option f (en_stack s)\<rparr>)"

definition objects_of :: "wal \<Rightarrow> objects" where
  "objects_of w = catalogs.extend (btrees.extend (hdr.extend (header_open w) \<lparr>roots = \<lambda>_. INVALID_PAGE\<rparr>)
     \<lparr>tables = [], indexes = []\<rparr>) \<lparr>next_tree = 0\<rparr>"

text \<open>The members before the log is opened; nothing reads the log's fields then.\<close>

definition disk_objects :: "disk \<Rightarrow> byte list \<Rightarrow> objects" where
  "disk_objects d contents = objects_of (pool.extend (pool_open d) \<lparr>wal_file = contents, wal_stable = contents,
     next_transaction_id = 1, checkpoint_threshold_bytes = DEFAULT_CHECKPOINT_THRESHOLD_BYTES, active_pages = []\<rparr>)"

definition open_disk :: "string \<Rightarrow> (engine, open_stack) eff" where
  "open_disk name s = (let dir = en_data_dir s;
       f = (case map_of (entries_of dir s) name of None \<Rightarrow> \<lparr>sd_db = [], sd_wal = []\<rparr> | Some f \<Rightarrow> f) in
     case disk_open (en_io s) (sd_db f) of
       Inl e \<Rightarrow> (Inl e, s\<lparr>en_io := drop (case en_io s of IO_short _ # _ \<Rightarrow> 1 | _ \<Rightarrow> 2) (en_io s)\<rparr>)
     | Inr d \<Rightarrow> (Inr \<lparr>os_dir = dir, os_name = name, os_has_wal = False, os_has_executor = False,
         os_objects = disk_objects d (sd_wal f)\<rparr>, s\<lparr>en_io := io d\<rparr>))"

definition open_wal :: "(engine, unit) eff" where
  "open_wal = andthen (fs_call (Runtime_error ''WALManager: could not open or create WAL file''))
     (amend_stack (\<lambda>st. st\<lparr>os_has_wal := True\<rparr>))"

definition dangling_disk :: exn where
  "dangling_disk = Undefined_behaviour ''~BufferPool on a destroyed DiskManager''"

text \<open>
  The new members replace the old ones one by one. A stack that was left half open still has a
  buffer pool, which is destroyed after the file it flushes to.
\<close>

definition open_database :: "string \<Rightarrow> (engine, unit) eff" where
  "open_database name = bind (open_disk name) (\<lambda>st. bind (gets en_stack) (\<lambda>old.
     if old \<noteq> None then throw dangling_disk
     else andthen (set_stack (Some st)) (andthen open_wal
       (andthen (on_stack wal_recover) (andthen (on_stack header_load)
       (andthen (on_stack (catalog_load False))
       (andthen (amend_stack (\<lambda>st. st\<lparr>os_has_executor := True\<rparr>))
        (modify (\<lambda>s. s\<lparr>en_current_db_name := name\<rparr>)))))))))"

text \<open>What a destructor throws ends the program.\<close>

definition in_destructor :: "('s, unit) eff \<Rightarrow> ('s, unit) eff" where
  "in_destructor m s = (case m s of (Inl e, t) \<Rightarrow> (Inl (Undefined_behaviour ''exception out of a destructor''), t) | r \<Rightarrow> r)"

definition destroy_stack :: "(engine, unit) eff" where
  "destroy_stack = bind (gets en_stack) (\<lambda>st. case st of
     None \<Rightarrow> ret ()
   | Some st \<Rightarrow> andthen (whenever (os_has_wal st) (on_stack wal_close)) (andthen (on_stack (in_destructor pool_close))
       (andthen (on_stack disk_close) (set_stack None))))"

definition close_database :: "(engine, unit) eff" where
  "close_database = bind (gets en_current_db_name) (\<lambda>name.
     if name = [] then ret ()
     else andthen (on_stack flush_all) (andthen destroy_stack
       (modify (\<lambda>s. s\<lparr>en_current_db_name := []\<rparr>))))"

definition database_close :: "(engine, unit) eff" where
  "database_close = in_destructor close_database"

definition set_data_dir :: "string \<Rightarrow> (engine, unit) eff" where
  "set_data_dir new_dir = andthen close_database (andthen (create_directories new_dir)
     (andthen (modify (\<lambda>s. s\<lparr>en_data_dir := new_dir\<rparr>)) (persist_data_dir new_dir)))"

definition reset_data_dir :: "(engine, unit) eff" where
  "reset_data_dir = andthen close_database (bind default_data_dir (\<lambda>dir.
     andthen (modify (\<lambda>s. s\<lparr>en_data_dir := dir\<rparr>)) (andthen (create_directories dir)
     (bind (fs_try) (\<lambda>b. whenever b (modify (\<lambda>s. s\<lparr>en_config := None\<rparr>)))))))"

section \<open>Checkpoints\<close>

definition has_wal :: "engine \<Rightarrow> bool" where
  "has_wal s = (case en_stack s of None \<Rightarrow> False | Some st \<Rightarrow> os_has_wal st)"

definition checkpoint_if_needed :: "(engine, unit) eff" where
  "checkpoint_if_needed = bind (gets has_wal) (\<lambda>b. if \<not> b then ret ()
     else bind (on_stack should_checkpoint) (\<lambda>due. whenever due (on_stack wal_checkpoint)))"

definition checkpoint_now :: "(engine, unit) eff" where
  "checkpoint_now = bind (gets has_wal) (\<lambda>b. whenever b (on_stack wal_checkpoint))"

section \<open>The statements about databases\<close>

text \<open>A handler for \<open>std::exception\<close> around a method; what it cannot read passes it.\<close>

definition catching :: "(string \<Rightarrow> ('s, 'b) eff) \<Rightarrow> ('s, 'b) eff \<Rightarrow> ('s, 'b) eff" where
  "catching handler m s = (case m s of
     (Inl e, t) \<Rightarrow> (case what e of Some message \<Rightarrow> handler message t | None \<Rightarrow> (Inl e, t))
   | r \<Rightarrow> r)"

definition make_database_dir :: "string \<Rightarrow> (engine, unit) eff" where
  "make_database_dir name = andthen (fs_call filesystem_error) (modify (\<lambda>s.
     set_entries (en_data_dir s) ((name, \<lparr>sd_db = [], sd_wal = []\<rparr>) # entries_of (en_data_dir s) s) s))"

definition remove_all :: "string \<Rightarrow> (engine, bool) eff" where
  "remove_all name = bind fs_try (\<lambda>b. andthen (whenever b (modify (remove_database name))) (ret b))"

text \<open>
  The stack of CREATE DATABASE is local: it stands in the place of the open one while it lives,
  and leaving the block destroys what was made of it.
\<close>

definition unwinding :: "('s, unit) eff \<Rightarrow> ('s, 'b) eff \<Rightarrow> ('s, 'b) eff" where
  "unwinding destroy m s = (case m s of (r, t) \<Rightarrow> (case destroy t of (Inl e, u) \<Rightarrow> (Inl e, u) | (Inr _, u) \<Rightarrow> (r, u)))"

definition bootstrap :: "string \<Rightarrow> (engine, unit) eff" where
  "bootstrap name = bind (open_disk name) (\<lambda>st. andthen (set_stack (Some st)) (andthen open_wal
     (andthen (on_stack header_init) (andthen (on_stack (catalog_load True)) (on_stack flush_all)))))"

definition local_stack :: "(engine, unit) eff \<Rightarrow> (engine, unit) eff" where
  "local_stack m = bind (gets en_stack) (\<lambda>saved. andthen (set_stack None)
     (unwinding (andthen destroy_stack (set_stack saved)) m))"

definition handle_create_database :: "string \<Rightarrow> (engine, query_result) eff" where
  "handle_create_database name = bind (database_exists name) (\<lambda>known.
     if known then ret (failure (''Database '' @ quoted name @ '' already exists''))
     else catching (\<lambda>message. bind (remove_all name) (\<lambda>_. ret (failure (''CREATE DATABASE failed: '' @ message))))
       (andthen (make_database_dir name) (andthen (local_stack (bootstrap name)) (ret (affected 0)))))"

definition handle_drop_database :: "string \<Rightarrow> (engine, query_result) eff" where
  "handle_drop_database name = bind (database_exists name) (\<lambda>known.
     if \<not> known then ret (failure (''Database '' @ quoted name @ '' does not exist''))
     else bind (gets en_current_db_name) (\<lambda>current. andthen (whenever (current = name) close_database)
       (bind (remove_all name) (\<lambda>removed. ret (if removed then affected 0
          else failure ''DROP DATABASE failed: filesystem error'')))))"

definition handle_use :: "string \<Rightarrow> (engine, query_result) eff" where
  "handle_use name = bind (gets en_current_db_name) (\<lambda>current.
     if name = current then ret (affected 0)
     else bind (database_exists name) (\<lambda>known.
       if \<not> known then ret (failure (''Database '' @ quoted name @ '' does not exist''))
       else andthen close_database
         (catching (\<lambda>message. andthen close_database (ret (failure (''USE failed: '' @ message))))
           (andthen (open_database name) (ret (affected 0))))))"

definition handle_show_databases :: "(engine, query_result) eff" where
  "handle_show_databases = andthen (fs_call filesystem_error) (bind (gets (\<lambda>s. entries_of (en_data_dir s) s)) (\<lambda>es.
     ret (table_result [''Databases''] (map (\<lambda>n. [n]) (sort (map fst es))))))"

section \<open>Statements and SQL text\<close>

definition has_executor :: "engine \<Rightarrow> bool" where
  "has_executor s = (case en_stack s of None \<Rightarrow> False | Some st \<Rightarrow> os_has_executor st)"

definition forward :: "statement \<Rightarrow> (engine, query_result) eff" where
  "forward stmt = bind (gets has_executor) (\<lambda>b.
     if \<not> b then ret (failure ''No database selected'')
     else catching (\<lambda>message. ret (failure message)) (on_stack (execute stmt)))"

fun execute_statement :: "statement \<Rightarrow> (engine, query_result) eff" where
  "execute_statement (Create_database name) = handle_create_database name"
| "execute_statement (Drop_database name) = handle_drop_database name"
| "execute_statement (Use name) = handle_use name"
| "execute_statement (Show S_DATABASES) = handle_show_databases"
| "execute_statement stmt = forward stmt"

definition is_blank :: "char \<Rightarrow> bool" where
  "is_blank c \<longleftrightarrow> c \<in> {CHR '' '', CHR 0x09, CHR 0x0D, CHR 0x0A}"

definition trimmed_end :: "string \<Rightarrow> string" where
  "trimmed_end s = rev (dropWhile is_blank (rev s))"

text \<open>The source text without surrounding blanks and without one trailing semicolon.\<close>

definition source_text :: "string \<Rightarrow> string" where
  "source_text sql = (let t = trimmed_end (dropWhile is_blank sql) in
     if t \<noteq> [] \<and> last t = CHR '';'' then trimmed_end (butlast t) else t)"

fun with_source :: "string \<Rightarrow> statement \<Rightarrow> statement" where
  "with_source sql (Create_table stmt) = Create_table (stmt\<lparr>ct_source_text := source_text sql\<rparr>)"
| "with_source sql stmt = stmt"

definition execute_sql :: "string \<Rightarrow> (engine, query_result) eff" where
  "execute_sql sql = catching (\<lambda>message. ret (failure message))
     (bind (lift (tokenize sql)) (\<lambda>tokens. bind (lift (parse tokens)) (\<lambda>stmt. execute_statement (with_source sql stmt))))"

end
