(* ===== verification/Lifecycle.thy ===== *)
theory Lifecycle
  imports Database
begin

text \<open>
  What the statements about databases do to the open one, and what escapes the entry points:
  every \<open>std::exception\<close> becomes a failed result, CREATE DATABASE leaves the open database
  alone, and a USE that fails half way leaves members behind which the next USE destroys in the
  wrong order.
\<close>

section \<open>What the handlers let through\<close>

lemma what_None: "what e = None \<longleftrightarrow> (\<exists>m. e = Undefined_behaviour m) \<or> e = Diverges"
  by (cases e) simp_all

lemma wp_catching:
  "wp (catching h m) Q E s \<longleftrightarrow> wp m Q (\<lambda>e t. case what e of Some message \<Rightarrow> wp (h message) Q E t | None \<Rightarrow> E e t) s"
  by (auto simp: wp_def catching_def split: prod.splits sum.splits option.splits)

lemma catching_reports: "wp (catching (\<lambda>message. ret (failure message)) m) (\<lambda>_ _. True) (\<lambda>e _. what e = None) s"
  by (auto simp: wp_def catching_def ret_def split: prod.splits sum.splits option.splits)

text \<open>
  Property C34. The entry point reports: whatever the text, \<open>execute_sql\<close> returns a result or runs
  into behaviour the language does not define (or a loop without end); no exception passes it. A
  text the tokenizer or the parser refuses gives a failed result with the message, and nothing of
  the engine changes.
\<close>

theorem execute_sql_reports:
  "(case execute_sql sql s of (Inl e, t) \<Rightarrow> (\<exists>m. e = Undefined_behaviour m) \<or> e = Diverges | (Inr r, t) \<Rightarrow> True)
   \<and> (case sbind (tokenize sql) parse of
       Inl e \<Rightarrow> execute_sql sql s = (case what e of Some message \<Rightarrow> (Inr (failure message), s) | None \<Rightarrow> (Inl e, s))
     | Inr stmt \<Rightarrow> execute_sql sql s = catching (\<lambda>message. ret (failure message)) (execute_statement (with_source sql stmt)) s)"
proof
  have "wp (execute_sql sql) (\<lambda>_ _. True) (\<lambda>e _. what e = None) s"
    unfolding execute_sql_def by (rule catching_reports)
  then show "case execute_sql sql s of (Inl e, t) \<Rightarrow> (\<exists>m. e = Undefined_behaviour m) \<or> e = Diverges | (Inr r, t) \<Rightarrow> True"
    by (auto simp: wp_def what_None split: prod.splits sum.splits)
  show "case sbind (tokenize sql) parse of
       Inl e \<Rightarrow> execute_sql sql s = (case what e of Some message \<Rightarrow> (Inr (failure message), s) | None \<Rightarrow> (Inl e, s))
     | Inr stmt \<Rightarrow> execute_sql sql s = catching (\<lambda>message. ret (failure message)) (execute_statement (with_source sql stmt)) s"
    by (cases "tokenize sql"; simp add: execute_sql_def catching_def bind_def lift_def throw_def ret_def split: sum.splits option.splits)
qed

section \<open>A USE that fails\<close>

text \<open>The file of a database can be opened and the log cannot.\<close>

definition disk_opens_log_does_not :: "string \<Rightarrow> engine \<Rightarrow> bool" where
  "disk_opens_log_does_not name s \<longleftrightarrow>
     (\<exists>f n r. map_of (entries_of (en_data_dir s) s) name = Some f \<and> length (sd_db f) mod PAGE_SIZE = 0
       \<and> en_io s = IO_ok # IO_ok # IO_ok # IO_short n # r)"

text \<open>
  Property C35. A USE that fails after the file of the database is open reports the failure and
  leaves no database selected, and keeps the members it has made: \<open>close_database\<close> returns at once
  when no database is selected. The next USE of a database whose file opens then destroys the old
  file before the buffer pool that still writes to it.
\<close>

theorem failed_use_leaves_members:
  assumes "en_current_db_name s = []" "en_stack s = None" "name \<noteq> []" "disk_opens_log_does_not name s"
  shows "case handle_use name s of (r, t) \<Rightarrow>
     r = Inr (failure ''USE failed: WALManager: could not open or create WAL file'')
     \<and> en_current_db_name t = [] \<and> en_stack t \<noteq> None
     \<and> fst (handle_use name (t\<lparr>en_io := IO_ok # IO_ok # IO_ok # rest\<rparr>)) = Inl dangling_disk"
proof -
  obtain f n r where f: "map_of (entries_of (en_data_dir s) s) name = Some f" "length (sd_db f) mod PAGE_SIZE = 0"
      "en_io s = IO_ok # IO_ok # IO_ok # IO_short n # r"
    using assms(4) by (auto simp: disk_opens_log_does_not_def)
  let ?s = "s\<lparr>en_io := IO_ok # IO_ok # IO_short n # r\<rparr>"
  obtain st where d: "open_disk name ?s = (Inr st, s\<lparr>en_io := IO_short n # r\<rparr>)"
    using f by (auto simp: open_disk_def disk_open_def Let_def entries_of_def)
  let ?t = "s\<lparr>en_io := r, en_stack := Some st\<rparr>"
  have "open_database name ?s = (Inl (Runtime_error ''WALManager: could not open or create WAL file''), ?t)"
    using assms(2) d
    by (simp add: open_database_def bind_def andthen_def gets_def set_stack_def modify_def open_wal_def fs_call_def)
  then have u: "handle_use name s = (Inr (failure ''USE failed: WALManager: could not open or create WAL file''), ?t)"
    using assms(1,3) f
    by (simp add: handle_use_def bind_def andthen_def gets_def database_exists_def fs_call_def close_database_def catching_def ret_def entries_of_def)
  have "fst (handle_use name (?t\<lparr>en_io := IO_ok # IO_ok # IO_ok # rest\<rparr>)) = Inl dangling_disk"
    using assms(1,3) f
    by (simp add: handle_use_def bind_def andthen_def gets_def database_exists_def close_database_def catching_def ret_def throw_def
        open_database_def open_disk_def disk_open_def dangling_disk_def Let_def fs_call_def entries_of_def)
  then show ?thesis using u assms(1) by simp
qed

definition stored_engine :: engine where
  "stored_engine = \<lparr>en_io = [IO_ok, IO_ok, IO_ok, IO_short 0], en_home = None, en_config = None,
     en_disks = [(''data'', [(''d'', \<lparr>sd_db = [], sd_wal = []\<rparr>)])], en_data_dir = ''data'', en_current_db_name = [], en_stack = None\<rparr>"

theorem failed_use_leaves_members_witness:
  "\<exists>t. handle_use ''d'' stored_engine = (Inr (failure ''USE failed: WALManager: could not open or create WAL file''), t)
     \<and> en_stack t \<noteq> None \<and> fst (handle_use ''d'' (t\<lparr>en_io := [IO_ok, IO_ok, IO_ok]\<rparr>)) = Inl dangling_disk"
  using failed_use_leaves_members [of stored_engine "''d''" "[]"]
  by (auto simp: stored_engine_def disk_opens_log_does_not_def entries_of_def split: prod.splits)

section \<open>CREATE DATABASE\<close>

text \<open>What the statement may not touch: the selection, the directory and every other database.\<close>

definition untouched :: "string \<Rightarrow> engine \<Rightarrow> engine \<Rightarrow> bool" where
  "untouched name s t \<longleftrightarrow> en_current_db_name t = en_current_db_name s \<and> en_data_dir t = en_data_dir s \<and> en_config t = en_config s
     \<and> (\<forall>dir n. (dir, n) \<noteq> (en_data_dir s, name) \<longrightarrow> map_of (entries_of dir t) n = map_of (entries_of dir s) n)"

text \<open>The database that is made: its entry is there, and an open stack is its own.\<close>

definition names_stack :: "string \<Rightarrow> engine \<Rightarrow> bool" where
  "names_stack name t \<longleftrightarrow> map_of (entries_of (en_data_dir t) t) name \<noteq> None \<and> (\<forall>st. en_stack t = Some st \<longrightarrow> os_dir st = en_data_dir t \<and> os_name st = name)"

lemma untouched_refl: "untouched name s s"
  by (simp add: untouched_def)

lemma entries_set_entries: "entries_of dir (set_entries dir' es t) = (if dir = dir' then es else entries_of dir t)"
  by (simp add: entries_of_def set_entries_def update_conv')

lemma entries_cong: "en_disks t = en_disks s \<Longrightarrow> entries_of dir t = entries_of dir s"
  by (simp add: entries_of_def)

lemma untouched_cong:
  "en_current_db_name t' = en_current_db_name t \<Longrightarrow> en_data_dir t' = en_data_dir t \<Longrightarrow> en_config t' = en_config t
    \<Longrightarrow> en_disks t' = en_disks t \<Longrightarrow> untouched name s t' = untouched name s t"
  by (simp add: untouched_def entries_of_def)

lemma untouched_set_entries:
  assumes "untouched name s t" "\<And>n. (dir, n) \<noteq> (en_data_dir s, name) \<Longrightarrow> map_of es n = map_of (entries_of dir t) n"
  shows "untouched name s (set_entries dir es t)"
proof -
  have "map_of (entries_of d (set_entries dir es t)) n = map_of (entries_of d s) n" if "(d, n) \<noteq> (en_data_dir s, name)" for d n
    using assms that by (simp add: untouched_def entries_set_entries)
  moreover have "en_current_db_name (set_entries dir es t) = en_current_db_name t" "en_data_dir (set_entries dir es t) = en_data_dir t"
    "en_config (set_entries dir es t) = en_config t" by (simp_all add: set_entries_def)
  ultimately show ?thesis using assms(1) unfolding untouched_def by simp
qed

lemma map_of_replace_files: "map_of (replace_files name f es) n = (if n = name then map_option (\<lambda>_. f) (map_of es n) else map_of es n)"
  by (induction es) (auto simp: replace_files_def)

definition inside :: "string \<Rightarrow> engine \<Rightarrow> engine \<Rightarrow> bool" where
  "inside name s t \<longleftrightarrow> untouched name s t \<and> names_stack name t"

lemma wp_on_stack:
  assumes "inside name s t" "\<And>r e u. m r = (Inl e, u) \<Longrightarrow> E e"
    "E (Undefined_behaviour ''null pointer'')"
  shows "wp (on_stack m) (\<lambda>_. inside name s) (\<lambda>e t. E e \<and> inside name s t) t"
proof (cases "en_stack t")
  case (Some st)
  obtain r u where m: "m ((os_objects st)\<lparr>io := en_io t\<rparr>) = (r, u)" by fastforce
  have d: "os_dir st = en_data_dir t" "os_name st = name" "en_data_dir t = en_data_dir s"
    using assms(1) Some by (auto simp: inside_def names_stack_def untouched_def)
  let ?t = "t\<lparr>en_io := io u, en_stack := Some (st\<lparr>os_objects := u\<rparr>)\<rparr>"
  let ?es = "replace_files (os_name st) \<lparr>sd_db = db_file u, sd_wal = wal_file u\<rparr> (entries_of (os_dir st) t)"
  have "untouched name s (set_entries (os_dir st) ?es ?t)"
    using assms(1) d by (intro untouched_set_entries)
      (auto simp: inside_def untouched_def entries_of_def map_of_replace_files)
  moreover have "map_of (entries_of (os_dir st) (set_entries (os_dir st) ?es ?t)) name \<noteq> None"
    using assms(1) d by (auto simp: entries_set_entries map_of_replace_files inside_def names_stack_def)
  then have "names_stack name (set_entries (os_dir st) ?es ?t)" using d
    by (simp add: names_stack_def) (simp add: set_entries_def)
  ultimately have "inside name s (set_entries (os_dir st) ?es ?t)" by (simp add: inside_def)
  then show ?thesis using Some m assms(2) by (auto simp: on_stack_def wp_def Let_def split: sum.splits)
qed (use assms in \<open>simp add: on_stack_def wp_def\<close>)

lemma inside_modify:
  "inside name s t \<Longrightarrow> en_disks t' = en_disks t \<Longrightarrow> en_current_db_name t' = en_current_db_name t \<Longrightarrow> en_data_dir t' = en_data_dir t
    \<Longrightarrow> en_config t' = en_config t \<Longrightarrow> names_stack name t' \<Longrightarrow> inside name s t'"
  using untouched_cong [of t' t name s] by (simp add: inside_def)

lemma inside_io: "inside name s t \<Longrightarrow> inside name s (t\<lparr>en_io := x\<rparr>)"
  by (rule inside_modify) (auto simp: inside_def names_stack_def entries_of_def)

lemma inside_no_stack: "inside name s t \<Longrightarrow> inside name s (t\<lparr>en_stack := None\<rparr>)"
  by (rule inside_modify) (auto simp: inside_def names_stack_def entries_of_def)

lemma wp_fs_call: "inside name s t \<Longrightarrow> wp (fs_call e) (\<lambda>_. inside name s) (\<lambda>_. inside name s) t"
  by (auto simp: fs_call_def wp_def inside_io split: list.splits io_outcome.splits)

lemmas on_stack_inside = wp_on_stack [where E = "\<lambda>_. True", simplified]

lemma wp_bootstrap:
  assumes "inside name s t"
  shows "wp (bootstrap name) (\<lambda>_. inside name s) (\<lambda>_. inside name s) t"
proof -
  have n: "names_stack name u \<Longrightarrow> names_stack name (u\<lparr>en_stack := map_option (\<lambda>st. st\<lparr>os_has_wal := True\<rparr>) (en_stack u)\<rparr>)" for u
    by (auto simp: names_stack_def entries_of_def)
  have a: "inside name s (v\<lparr>en_stack := map_option (\<lambda>st. st\<lparr>os_has_wal := True\<rparr>) (en_stack v)\<rparr>)" if "inside name s v" for v
    by (rule inside_modify [OF that]) (use n [of v] that in \<open>simp_all add: inside_def\<close>)
  have w: "wp open_wal (\<lambda>_. inside name s) (\<lambda>_. inside name s) u" if "inside name s u" for u
    unfolding open_wal_def wp_andthen
    by (rule wp_mono [OF wp_fs_call [OF that]]) (simp_all add: amend_stack_def wp_modify a)
  have rest: "wp (andthen open_wal (andthen (on_stack header_init) (andthen (on_stack (catalog_load True)) (on_stack flush_all))))
      (\<lambda>_. inside name s) (\<lambda>_. inside name s) u" if "inside name s u" for u
    unfolding wp_andthen_fun
    by (rule wp_mono [OF w [OF that]], rule wp_mono [OF on_stack_inside], assumption,
        rule wp_mono [OF on_stack_inside], assumption, rule on_stack_inside)
  show ?thesis
  proof (cases "open_disk name t")
    case (Pair r u)
    have io: "\<exists>x. u = t\<lparr>en_io := x\<rparr>" using Pair by (auto simp: open_disk_def Let_def split: sum.splits)
    then have i: "inside name s u" using assms inside_io by auto
    show ?thesis
    proof (cases r)
      case (Inr st)
      have "os_dir st = en_data_dir t" "os_name st = name" using Pair Inr by (auto simp: open_disk_def Let_def split: sum.splits)
      then have "inside name s (u\<lparr>en_stack := Some st\<rparr>)" using io i by (intro inside_modify [OF i]) (auto simp: inside_def names_stack_def entries_of_def)
      from rest [OF this] show ?thesis using Pair Inr
        by (simp add: bootstrap_def wp_def bind_def andthen_def set_stack_def modify_def)
    qed (use Pair i in \<open>simp add: bootstrap_def wp_def bind_def\<close>)
  qed
qed

lemma wal_close_returns: "wal_close s = (Inl e, t) \<Longrightarrow> False"
  and disk_close_returns: "disk_close s' = (Inl e', t') \<Longrightarrow> False"
  by (auto simp: wal_close_def disk_close_def bind_def next_io_def modify_def ret_def split: io_outcome.splits)

lemma in_destructor_throws: "in_destructor m s = (Inl e, t) \<Longrightarrow> what e = None"
  by (auto simp: in_destructor_def split: prod.splits sum.splits)

lemma wp_on_stack_quiet:
  assumes "inside name s t" "\<And>r e u. m r = (Inl e, u) \<Longrightarrow> what e = None"
  shows "wp (on_stack m) (\<lambda>_. inside name s) (\<lambda>e _. what e = None) t"
  by (rule wp_mono [OF wp_on_stack [OF assms(1), of m "\<lambda>e. what e = None"]]) (use assms(2) in auto)

lemma wp_destroy_stack:
  assumes "inside name s t"
  shows "wp destroy_stack (\<lambda>_. inside name s) (\<lambda>e _. what e = None) t"
proof (cases "en_stack t")
  case None
  then show ?thesis using assms by (simp add: destroy_stack_def wp_bind wp_gets wp_ret)
next
  case (Some st)
  have c: "wp (andthen (on_stack disk_close) (set_stack None)) (\<lambda>_. inside name s) (\<lambda>e _. what e = None) u" if "inside name s u" for u
    unfolding wp_andthen set_stack_def wp_modify
    by (rule wp_mono [OF wp_on_stack_quiet [OF that]]) (auto dest: disk_close_returns inside_no_stack)
  have p: "wp (andthen (on_stack (in_destructor pool_close)) (andthen (on_stack disk_close) (set_stack None)))
      (\<lambda>_. inside name s) (\<lambda>e _. what e = None) u" if "inside name s u" for u
    unfolding wp_andthen [of "on_stack (in_destructor pool_close)"]
    by (rule wp_mono [OF wp_on_stack_quiet [OF that in_destructor_throws]], assumption, erule c)
  have w: "wp (whenever (os_has_wal st) (on_stack wal_close)) (\<lambda>_. inside name s) (\<lambda>e _. what e = None) t"
    using assms wp_on_stack_quiet [OF assms] wal_close_returns by (auto simp: wp_whenever)
  have "wp (andthen (whenever (os_has_wal st) (on_stack wal_close))
      (andthen (on_stack (in_destructor pool_close)) (andthen (on_stack disk_close) (set_stack None))))
      (\<lambda>_. inside name s) (\<lambda>e _. what e = None) t"
    unfolding wp_andthen [of "whenever (os_has_wal st) (on_stack wal_close)"] by (rule wp_mono [OF w], erule p)
  then show ?thesis using Some by (simp add: destroy_stack_def wp_bind wp_gets)
qed

text \<open>The state behind the local stack.\<close>

definition restored :: "string \<Rightarrow> engine \<Rightarrow> open_stack option \<Rightarrow> engine \<Rightarrow> bool" where
  "restored name s saved t \<longleftrightarrow> untouched name s t \<and> map_of (entries_of (en_data_dir s) t) name \<noteq> None \<and> en_stack t = saved"

lemma restored_set_stack:
  assumes "inside name s t"
  shows "restored name s saved (t\<lparr>en_stack := saved\<rparr>)"
proof -
  have "untouched name s (t\<lparr>en_stack := saved\<rparr>)" "en_data_dir t = en_data_dir s" "names_stack name t"
    using assms untouched_cong [of "t\<lparr>en_stack := saved\<rparr>" t name s] by (auto simp: inside_def untouched_def)
  then show ?thesis using entries_cong [of "t\<lparr>en_stack := saved\<rparr>" t] by (simp add: restored_def names_stack_def)
qed

lemma wp_local_stack:
  assumes "restored name s saved t"
  shows "wp (local_stack (bootstrap name)) (\<lambda>_. restored name s saved) (\<lambda>e u. what e = None \<or> restored name s saved u) t"
proof -
  let ?t = "t\<lparr>en_stack := None\<rparr>"
  have i: "inside name s ?t"
    using assms untouched_cong [of ?t t name s] by (simp add: inside_def names_stack_def restored_def untouched_def entries_of_def)
  have d: "wp (andthen destroy_stack (set_stack saved)) (\<lambda>_. restored name s saved) (\<lambda>e _. what e = None) u" if "inside name s u" for u
    unfolding wp_andthen set_stack_def wp_modify
    by (rule wp_mono [OF wp_destroy_stack [OF that]]) (auto dest: restored_set_stack)
  obtain r u where b: "bootstrap name ?t = (r, u)" by fastforce
  then have "inside name s u" using wp_bootstrap [OF i] by (auto simp: wp_def split: sum.splits)
  moreover obtain r' v where v: "andthen destroy_stack (set_stack saved) u = (r', v)" by fastforce
  ultimately have "case r' of Inl e \<Rightarrow> what e = None | Inr _ \<Rightarrow> restored name s saved v"
    using d [of u] by (simp add: wp_def split: sum.splits)
  moreover have "local_stack (bootstrap name) t = (case r' of Inl e \<Rightarrow> (Inl e, v) | Inr _ \<Rightarrow> (r, v))"
    using b v assms by (simp add: local_stack_def bind_def gets_def andthen_def set_stack_def modify_def unwinding_def restored_def split: sum.splits)
  ultimately show ?thesis by (auto simp: wp_def split: sum.splits)
qed

lemma make_database_dir_inside:
  assumes "map_of (entries_of (en_data_dir s) s) name = None"
  shows "wp (make_database_dir name) (\<lambda>_. restored name s (en_stack s)) (\<lambda>e t. e = filesystem_error \<and> untouched name s t \<and> en_stack t = en_stack s) s"
proof -
  have n: "restored name s (en_stack s) (set_entries (en_data_dir t) ((name, f) # entries_of (en_data_dir t) t) t)"
    if "untouched name s t" "en_stack t = en_stack s" for t f
    using that by (auto simp: restored_def entries_set_entries untouched_def intro!: untouched_set_entries) (simp_all add: set_entries_def)
  have u: "untouched name s (s\<lparr>en_io := x\<rparr>)" for x using untouched_cong [of "s\<lparr>en_io := x\<rparr>" s name s] untouched_refl by simp
  have "wp (fs_call filesystem_error) (\<lambda>_ t. untouched name s t \<and> en_stack t = en_stack s)
      (\<lambda>e t. e = filesystem_error \<and> untouched name s t \<and> en_stack t = en_stack s) s"
    by (auto simp: fs_call_def wp_def u split: list.splits io_outcome.splits)
  then show ?thesis unfolding make_database_dir_def wp_andthen wp_modify by (rule wp_mono) (auto intro: n)
qed

lemma wp_remove_all:
  assumes "untouched name s t" "en_stack t = saved"
  shows "wp (remove_all name) (\<lambda>_ u. untouched name s u \<and> en_stack u = saved) E t"
proof -
  have io: "untouched name s (t\<lparr>en_io := x\<rparr>)" for x using assms(1) untouched_cong [of "t\<lparr>en_io := x\<rparr>" t name s] by simp
  have r: "untouched name s (remove_database name u) \<and> en_stack (remove_database name u) = en_stack u" if "untouched name s u" for u
    using that unfolding remove_database_def
    by (intro conjI untouched_set_entries) (auto simp: untouched_def delete_conv' set_entries_def)
  have "wp fs_try (\<lambda>_ u. untouched name s u \<and> en_stack u = saved) E t"
    using io assms(2) by (auto simp: fs_try_def wp_def split: list.splits io_outcome.splits)
  then show ?thesis unfolding remove_all_def wp_bind
    by (rule wp_mono) (auto simp: wp_andthen wp_whenever wp_modify wp_ret r)
qed

lemma create_database_free:
  assumes "map_of (entries_of (en_data_dir s) s) name = None"
  shows "wp (catching (\<lambda>message. bind (remove_all name) (\<lambda>_. ret (failure (''CREATE DATABASE failed: '' @ message))))
      (andthen (make_database_dir name) (andthen (local_stack (bootstrap name)) (ret (affected 0)))))
    (\<lambda>r t. untouched name s t \<and> en_stack t = en_stack s
      \<and> (qr_success r \<longleftrightarrow> r = affected 0 \<and> map_of (entries_of (en_data_dir s) t) name \<noteq> None)) (\<lambda>e _. what e = None) s"
    (is "wp _ ?Q _ s")
proof -
  let ?E = "\<lambda>e t. what e = None \<or> untouched name s t \<and> en_stack t = en_stack s"
  have a: "qr_success (affected 0)" "\<not> qr_success (failure m)" for m by (simp_all add: affected_def failure_def)
  have "wp (andthen (make_database_dir name) (andthen (local_stack (bootstrap name)) (ret (affected 0)))) ?Q ?E s"
    unfolding wp_andthen [of "make_database_dir name"]
  proof (rule wp_mono [OF make_database_dir_inside [OF assms]])
    fix t assume "restored name s (en_stack s) t"
    from wp_local_stack [OF this]
    show "wp (andthen (local_stack (bootstrap name)) (ret (affected 0))) ?Q ?E t"
      unfolding wp_andthen wp_ret by (rule wp_mono) (auto simp: restored_def a)
  qed simp
  moreover have "wp (bind (remove_all name) (\<lambda>_. ret (failure m))) ?Q (\<lambda>e _. what e = None) t"
    if "untouched name s t \<and> en_stack t = en_stack s" for t m
    unfolding wp_bind wp_ret by (rule wp_mono [OF wp_remove_all]) (use that a in \<open>auto simp: failure_def affected_def\<close>)
  ultimately show ?thesis
    unfolding wp_catching by (auto elim!: wp_mono split: option.splits)
qed

text \<open>The call of the system fails.\<close>

definition call_fails :: "engine \<Rightarrow> bool" where
  "call_fails s \<longleftrightarrow> (case en_io s of IO_short _ # _ \<Rightarrow> True | _ \<Rightarrow> False)"

lemma database_exists_cases:
  "database_exists name s = (if call_fails s then Inl filesystem_error
     else Inr (map_of (entries_of (en_data_dir s) s) name \<noteq> None), s\<lparr>en_io := tl (en_io s)\<rparr>)"
  by (auto simp: database_exists_def andthen_def bind_def fs_call_def gets_def call_fails_def entries_of_def split: list.splits io_outcome.splits)

text \<open>
  Property C36. CREATE DATABASE works beside the open database: when it returns, with success or
  with a failure, the stack of the open database, the selection and the data directory are what they
  were, and so are the files of every other database. A success means that
  the name was free and now has files, and a name in use is refused without a change. The one exception that
  leaves it is that of the existence check, which stands outside its handler; nothing has changed then, and
  what comes after the check lets no exception through.
\<close>

theorem create_database_keeps_session:
  "if call_fails s then handle_create_database name s = (Inl filesystem_error, s\<lparr>en_io := tl (en_io s)\<rparr>)
   else case handle_create_database name s of
     (Inl e, t) \<Rightarrow> what e = None
   | (Inr r, t) \<Rightarrow> untouched name s t \<and> en_stack t = en_stack s
       \<and> (if map_of (entries_of (en_data_dir s) s) name = None
          then qr_success r \<longleftrightarrow> r = affected 0 \<and> map_of (entries_of (en_data_dir s) t) name \<noteq> None
          else r = failure (''Database '' @ quoted name @ '' already exists'') \<and> t = s\<lparr>en_io := tl (en_io s)\<rparr>)"
proof -
  let ?s = "s\<lparr>en_io := tl (en_io s)\<rparr>"
  have s: "entries_of dir ?s = entries_of dir s" for dir by (simp add: entries_of_def)
  have u: "untouched name ?s t = untouched name s t" for t by (simp add: untouched_def s)
  show ?thesis
  proof (cases "map_of (entries_of (en_data_dir s) s) name")
    case None
    then have "map_of (entries_of (en_data_dir ?s) ?s) name = None" by (simp add: s)
    from create_database_free [OF this] show ?thesis using None
      by (auto simp: u s handle_create_database_def wp_def bind_def database_exists_cases split: prod.splits sum.splits)
  next
    case (Some f)
    moreover have "untouched name s ?s" using u untouched_refl [of name ?s] by simp
    ultimately show ?thesis by (simp add: handle_create_database_def bind_def database_exists_cases ret_def)
  qed
qed

end
