(* ===== verification/Shell.thy ===== *)
theory Shell
  imports Lifecycle
begin

text \<open>
  The shell of \<open>cli/main.cpp\<close>: the loop over the lines of standard input, the statements it cuts out
  of them, the commands that begin with a backslash, and the table it prints for a result. The
  terminal is the text written so far, each character with the stream it went to.
\<close>

section \<open>State\<close>

datatype stream = Cout | Cerr

text \<open>
  \<open>sh_clock\<close> holds what the clock will say each call of the engine took, in nanoseconds.
\<close>

record shell =
  sh_db :: engine
  sh_in :: string
  sh_clock :: "nat list"
  sh_terminal :: "(stream \<times> char) list"

definition say :: "string \<Rightarrow> (shell, unit) eff" where
  "say t = modify (\<lambda>s. s\<lparr>sh_terminal := sh_terminal s @ map (Pair Cout) t\<rparr>)"

definition complain :: "string \<Rightarrow> (shell, unit) eff" where
  "complain t = modify (\<lambda>s. s\<lparr>sh_terminal := sh_terminal s @ map (Pair Cerr) t\<rparr>)"

text \<open>A call of the database.\<close>

definition on_db :: "(engine, 'b) eff \<Rightarrow> (shell, 'b) eff" where
  "on_db m s = (let (r, d) = m (sh_db s) in (r, s\<lparr>sh_db := d\<rparr>))"

text \<open>\<open>std::getline\<close>: the text up to a line break or the end; nothing at the end of the input.\<close>

definition getline :: "(shell, string option) eff" where
  "getline s = (if sh_in s = [] then (Inr None, s)
     else (Inr (Some (takeWhile (\<lambda>c. c \<noteq> NEWLINE) (sh_in s))),
           s\<lparr>sh_in := tl (dropWhile (\<lambda>c. c \<noteq> NEWLINE) (sh_in s))\<rparr>))"

section \<open>The table of a result\<close>

text \<open>A count of nanoseconds as a \<open>duration<double>\<close> in seconds.\<close>

definition seconds :: "nat \<Rightarrow> double" where
  "seconds ns = (case round_double (int ns) 0 of Finite m e \<Rightarrow> double_div (Finite m e) 1000000000 | d \<Rightarrow> d)"

definition stopwatch :: "(shell, double) eff" where
  "stopwatch s = (Inr (seconds (case sh_clock s of [] \<Rightarrow> 0 | n # _ \<Rightarrow> n)), s\<lparr>sh_clock := tl (sh_clock s)\<rparr>)"

text \<open>\<open>%.3f\<close> of a time, which is not negative.\<close>

definition three_decimals :: "double \<Rightarrow> string" where
  "three_decimals d = (case d of
     Finite m e \<Rightarrow> (let n = round_half_even (nat m * 10 ^ 3 * 2 ^ nat e) (2 ^ nat (- e)); ds = to_string (n mod 10 ^ 3)
       in to_string (n div 10 ^ 3) @ ''.'' @ replicate (3 - length ds) CHR ''0'' @ ds)
   | Infinite _ \<Rightarrow> ''inf'' | NaN \<Rightarrow> ''nan'')"

definition format_elapsed :: "double \<Rightarrow> string" where
  "format_elapsed elapsed = take 31 (''('' @ three_decimals elapsed @ '' sec)'')"

definition column_widths :: "string list \<Rightarrow> string list list \<Rightarrow> nat list" where
  "column_widths columns rows = foldl
     (\<lambda>widths row. map (\<lambda>c. if c < length row then max (widths ! c) (length (row ! c)) else widths ! c) [0..<length columns])
     (map length columns) rows"

text \<open>\<open>std::string(n, c)\<close> with a difference of sizes as the count, which wraps around below zero.\<close>

definition filled :: "u64 \<Rightarrow> char \<Rightarrow> exn + string" where
  "filled n c = (if unat n < 2 ^ 63 then Inr (replicate (unat n) c) else Inl (Runtime_error ''basic_string::_M_create''))"

definition print_separator :: "nat list \<Rightarrow> (shell, unit) eff" where
  "print_separator widths = andthen (say ''+'')
     (andthen (for_each (\<lambda>w. bind (lift (filled (word_of_nat w + 2) CHR ''-'')) (\<lambda>d. say (d @ ''+''))) widths)
     (say [NEWLINE]))"

definition print_row :: "nat list \<Rightarrow> string list \<Rightarrow> (shell, unit) eff" where
  "print_row widths cells = andthen (say ''|'')
     (andthen (for_each (\<lambda>c. let cell = if c < length cells then cells ! c else [] in
         andthen (say ('' '' @ cell)) (bind (lift (filled (word_of_nat (widths ! c) - word_of_nat (length cell)) CHR '' ''))
           (\<lambda>d. say (d @ '' |'')))) [0..<length widths])
     (say [NEWLINE]))"

definition print_table :: "query_result \<Rightarrow> double \<Rightarrow> (shell, unit) eff" where
  "print_table r elapsed =
     (if qr_columns r = [] \<and> qr_rows r = [] then
        if 0 < qr_rows_affected r
        then say (''OK ('' @ to_string (unat (qr_rows_affected r)) @ '' row(s) affected) '' @ format_elapsed elapsed @ [NEWLINE])
        else say (''OK '' @ format_elapsed elapsed @ [NEWLINE])
      else let widths = column_widths (qr_columns r) (qr_rows r) in
        andthen (print_separator widths) (andthen (print_row widths (qr_columns r)) (andthen (print_separator widths)
          (andthen (for_each (print_row widths) (qr_rows r)) (andthen (print_separator widths)
            (say (to_string (length (qr_rows r)) @ '' row(s) in set '' @ format_elapsed elapsed @ [NEWLINE])))))))"

section \<open>Lines\<close>

lemma dropWhile_shorter: "xs \<noteq> [] \<Longrightarrow> length (dropWhile P xs) - Suc 0 < length xs"
  using length_dropWhile_le [of P xs] by (cases xs) auto

lemma tl_dropWhile_shorter: "xs \<noteq> [] \<Longrightarrow> length (tl (dropWhile P xs)) < length xs"
  by (simp add: dropWhile_shorter)

function terminated :: "bool \<Rightarrow> string \<Rightarrow> bool" where
  "terminated in_string [] = False"
| "terminated in_string (c # cs) =
     (if \<not> in_string \<and> c = CHR ''-'' \<and> cs \<noteq> [] \<and> hd cs = CHR ''-''
        then terminated False (tl (dropWhile (\<lambda>c. c \<noteq> NEWLINE) cs))
      else if c = QUOTE \<and> \<not> in_string then terminated True cs
      else if c = QUOTE \<and> in_string then
        if cs \<noteq> [] \<and> hd cs = QUOTE then terminated True (tl cs) else terminated False cs
      else if c = CHR '';'' \<and> \<not> in_string then True
      else terminated in_string cs)"
  by pat_completeness auto
termination
proof (relation "measure (length \<circ> snd)", goal_cases)
  case (2 in_string c cs)
  have "length (dropWhile (\<lambda>c. c \<noteq> NEWLINE) cs) \<le> length cs" by (rule length_dropWhile_le)
  then show ?case by (simp add: le_imp_less_Suc) 
qed auto

definition has_terminator :: "string \<Rightarrow> bool" where
  "has_terminator input = terminated False input"

definition BACKSLASH :: char where "BACKSLASH = CHR 0x5C"

definition blanks :: string where
  "blanks = [CHR '' '', CHR 0x09, CHR 0x0D, CHR 0x0A]"

definition to_lower :: "char \<Rightarrow> char" where
  "to_lower c = (if is_upper c then char_of (of_char c + 32 :: nat) else c)"

definition find_first_not_of :: "string \<Rightarrow> string \<Rightarrow> nat option" where
  "find_first_not_of cs s = (let n = length (takeWhile (\<lambda>c. c \<in> set cs) s) in if n < length s then Some n else None)"

definition find_last_not_of :: "string \<Rightarrow> string \<Rightarrow> nat option" where
  "find_last_not_of cs s = (let n = length (takeWhile (\<lambda>c. c \<in> set cs) (rev s)) in
     if n < length s then Some (length s - 1 - n) else None)"

text \<open>A position as the code has it, with \<open>npos\<close> for none.\<close>

definition position_word :: "nat option \<Rightarrow> u64" where
  "position_word p = (case p of None \<Rightarrow> - 1 | Some n \<Rightarrow> word_of_nat n)"

definition is_quit :: "string \<Rightarrow> bool" where
  "is_quit line = (case find_first_not_of blanks line of
     None \<Rightarrow> False
   | Some s \<Rightarrow> let e = position_word (find_last_not_of (blanks @ '';'') line);
         trimmed = take (unat (e - word_of_nat s + 1)) (drop s line);
         lower = map to_lower trimmed
       in lower = ''exit'' \<or> lower = ''quit'' \<or> lower = BACKSLASH # ''q'')"

section \<open>Commands\<close>

text \<open>The text of a line from its first character that is not blank, and up to its last.\<close>

definition try_handle_path_command :: "string \<Rightarrow> (shell, bool) eff" where
  "try_handle_path_command line = (case find_first_not_of blanks line of
     None \<Rightarrow> ret False
   | Some s \<Rightarrow> let trimmed = drop s line in
       if take 5 trimmed \<noteq> BACKSLASH # ''path'' then ret False
       else let rest = drop 5 trimmed in (case find_first_not_of blanks rest of
         None \<Rightarrow> bind (gets (en_data_dir \<circ> sh_db)) (\<lambda>dir.
           andthen (say (''Current data directory: '' @ dir @ [NEWLINE])) (ret True))
       | Some rs \<Rightarrow> let rest = drop rs rest;
             rest = take (unat (position_word (find_last_not_of blanks rest) + 1)) rest;
             lower = map to_lower rest in
           bind (gets (en_current_db_name \<circ> sh_db)) (\<lambda>previous_db.
           andthen (catching (\<lambda>message. complain (''ERROR: '' @ message @ [NEWLINE]))
             (andthen
               (if lower = ''default''
                then andthen (on_db reset_data_dir) (bind (gets (en_data_dir \<circ> sh_db)) (\<lambda>dir.
                  say (''Data directory reset to default: '' @ dir @ [NEWLINE])))
                else andthen (on_db (set_data_dir rest)) (bind (gets (en_data_dir \<circ> sh_db)) (\<lambda>dir.
                  say (''Data directory changed to: '' @ dir @ [NEWLINE]))))
               (whenever (previous_db \<noteq> []) (say (''(previously active database '' @ [QUOTE] @ previous_db @ [QUOTE]
                  @ '' was closed '' @ em_dash @ '' run USE again if you need it)'' @ [NEWLINE])))))
             (ret True))))"

definition try_handle_checkpoint_command :: "string \<Rightarrow> (shell, bool) eff" where
  "try_handle_checkpoint_command line = (case find_first_not_of blanks line of
     None \<Rightarrow> ret False
   | Some s \<Rightarrow> let trimmed = drop s line;
         trimmed = take (unat (position_word (find_last_not_of blanks trimmed) + 1)) trimmed;
         lower = map to_lower trimmed in
       if lower \<noteq> BACKSLASH # ''checkpoint'' then ret False
       else bind (gets (en_current_db_name \<circ> sh_db)) (\<lambda>name.
         if name = [] then andthen (say (''No database selected '' @ em_dash @ '' nothing to checkpoint.'' @ [NEWLINE])) (ret True)
         else andthen (catching (\<lambda>message. complain (''ERROR: '' @ message @ [NEWLINE]))
             (andthen (on_db checkpoint_now) (say (''Checkpoint complete.'' @ [NEWLINE]))))
           (ret True)))"

section \<open>The loop\<close>

text \<open>A text is run and its result shown.\<close>

definition answer :: "string \<Rightarrow> (shell, unit) eff" where
  "answer buffer = bind (on_db (execute_sql buffer)) (\<lambda>r. bind stopwatch (\<lambda>elapsed.
     if \<not> qr_success r then complain (''ERROR: '' @ qr_error_message r @ '' '' @ format_elapsed elapsed @ [NEWLINE])
     else print_table r elapsed))"

section \<open>What does not read the input\<close>

text \<open>Only \<open>getline\<close> looks at the input; everything else runs the same whatever is left of it.\<close>

definition blind :: "(shell, 'b) eff \<Rightarrow> bool" where
  "blind m \<longleftrightarrow> (\<forall>s x. m (s\<lparr>sh_in := x\<rparr>) = (case m s of (r, t) \<Rightarrow> (r, t\<lparr>sh_in := x\<rparr>)))"

named_theorems blind_rules \<open>methods of the shell that do not read the input\<close>

lemma blind_ret [blind_rules]: "blind (ret x)"
  and blind_throw [blind_rules]: "blind (throw e)"
  and blind_say [blind_rules]: "blind (say t)"
  and blind_complain [blind_rules]: "blind (complain t)"
  and blind_stopwatch [blind_rules]: "blind stopwatch"
  by (simp_all add: blind_def ret_def throw_def say_def complain_def modify_def stopwatch_def)

lemma blind_on_db [blind_rules]: "blind (on_db m)"
  by (simp add: blind_def on_db_def split: prod.splits)

lemma blind_gets [blind_rules]: "blind (gets (f \<circ> sh_db))"
  by (simp add: blind_def gets_def)

lemma blind_bind [blind_rules]:
  assumes "blind m" "\<And>x. blind (f x)"
  shows "blind (bind m f)"
  using assms by (auto simp: blind_def bind_def split: prod.splits sum.splits)

lemma blind_andthen [blind_rules]: "blind m \<Longrightarrow> blind k \<Longrightarrow> blind (andthen m k)"
  unfolding andthen_def by (intro blind_bind)

lemma blind_if [blind_rules]: "blind m \<Longrightarrow> blind k \<Longrightarrow> blind (if b then m else k)"
  by simp

lemma blind_whenever [blind_rules]: "blind m \<Longrightarrow> blind (whenever b m)"
  by (simp add: whenever_def blind_ret)

lemma blind_lift [blind_rules]: "blind (lift r)"
  by (cases r) (simp_all add: lift_def blind_ret blind_throw)

lemma blind_for_each [blind_rules]: "(\<And>x. blind (f x)) \<Longrightarrow> blind (for_each f xs)"
  by (induction xs) (auto intro: blind_rules)

lemma blind_catching [blind_rules]:
  assumes "\<And>message. blind (h message)" "blind m"
  shows "blind (catching h m)"
proof -
  have h: "h message (t\<lparr>sh_in := x\<rparr>) = (case h message t of (r, u) \<Rightarrow> (r, u\<lparr>sh_in := x\<rparr>))" for message t x
    using assms(1) by (simp add: blind_def)
  have m: "m (s\<lparr>sh_in := x\<rparr>) = (case m s of (r, u) \<Rightarrow> (r, u\<lparr>sh_in := x\<rparr>))" for s x
    using assms(2) by (simp add: blind_def)
  show ?thesis unfolding blind_def catching_def
    by (auto simp: m h split: prod.splits sum.splits option.splits)
qed

lemma blind_keeps:
  assumes "blind m" "m s = (r, t)"
  shows "sh_in t = sh_in s"
proof -
  have "s\<lparr>sh_in := sh_in s\<rparr> = s" by simp
  then have "m s = (r, t\<lparr>sh_in := sh_in s\<rparr>)" using assms unfolding blind_def by (metis case_prod_conv)
  then have "t = t\<lparr>sh_in := sh_in s\<rparr>" using assms(2) by simp
  then show ?thesis by (metis shell.select_convs(2) shell.surjective shell.update_convs(2))
qed

lemma blind_print_row [blind_rules]: "blind (print_row widths cells)"
  unfolding print_row_def Let_def by (intro blind_rules)

lemma blind_print_separator [blind_rules]: "blind (print_separator widths)"
  unfolding print_separator_def by (intro blind_rules)

lemma blind_print_table [blind_rules]: "blind (print_table r elapsed)"
  unfolding print_table_def Let_def by (intro blind_rules)

lemma blind_answer [blind_rules]: "blind (answer buffer)"
  unfolding answer_def by (intro blind_rules)

lemma blind_path [blind_rules]: "blind (try_handle_path_command line)"
  unfolding try_handle_path_command_def Let_def by (auto intro!: blind_rules split: option.split)

lemma blind_checkpoint [blind_rules]: "blind (try_handle_checkpoint_command line)"
  unfolding try_handle_checkpoint_command_def Let_def by (auto intro!: blind_rules split: option.split)

section \<open>The program\<close>

text \<open>
  The rest of a turn, once a line has been read or the input has ended; \<open>None\<close> leaves the loop, and
  otherwise the result is the buffer.
\<close>

definition handle_line :: "bool \<Rightarrow> string \<Rightarrow> string option \<Rightarrow> (shell, string option) eff" where
  "handle_line interactive buffer line = (case line of
       None \<Rightarrow> andthen (whenever (buffer \<noteq> []) (answer buffer))
         (andthen (whenever interactive (say ([NEWLINE] @ ''Bye.'' @ [NEWLINE]))) (ret None))
     | Some line \<Rightarrow>
         if buffer = [] \<and> is_quit line then andthen (whenever interactive (say (''Bye.'' @ [NEWLINE]))) (ret None)
         else bind (if buffer = [] then try_handle_path_command line else ret False) (\<lambda>handled.
           if handled then andthen (whenever interactive (say [NEWLINE])) (ret (Some []))
           else bind (if buffer = [] then try_handle_checkpoint_command line else ret False) (\<lambda>handled.
             if handled then andthen (whenever interactive (say [NEWLINE])) (ret (Some []))
             else let buffer = (if buffer \<noteq> [] then buffer @ [NEWLINE] else buffer) @ line in
               if \<not> has_terminator buffer then ret (Some buffer)
               else andthen (answer buffer) (andthen (whenever interactive (say [NEWLINE]))
                 (andthen (on_db checkpoint_if_needed) (ret (Some [])))))))"

definition turn :: "bool \<Rightarrow> string \<Rightarrow> (shell, string option) eff" where
  "turn interactive buffer =
     andthen (whenever interactive (say (if buffer = [] then ''gsdb> '' else ''   -> '')))
     (bind getline (handle_line interactive buffer))"

lemma blind_handle_line: "blind (handle_line interactive buffer line)"
  unfolding handle_line_def Let_def by (auto intro!: blind_rules split: option.split)

lemma handle_no_line: "handle_line interactive buffer None s = (Inr (Some b), t) \<Longrightarrow> False"
  by (auto simp: handle_line_def andthen_def bind_def ret_def split: prod.splits sum.splits)

lemma turn_eats:
  assumes "turn interactive buffer s = (Inr (Some buffer'), t)"
  shows "length (sh_in t) < length (sh_in s)"
proof -
  obtain u where p: "whenever interactive (say (if buffer = [] then ''gsdb> '' else ''   -> '')) s = (Inr (), u)" "sh_in u = sh_in s"
    by (cases interactive) (simp_all add: whenever_def say_def modify_def ret_def)
  obtain line v where v: "getline u = (Inr line, v)" by (cases "sh_in u = []") (simp_all add: getline_def)
  have h: "handle_line interactive buffer line v = (Inr (Some buffer'), t)"
    using assms p v by (simp add: turn_def andthen_def bind_def)
  then have "line \<noteq> None" using handle_no_line by metis
  then have "sh_in u \<noteq> []" "sh_in v = tl (dropWhile (\<lambda>c. c \<noteq> NEWLINE) (sh_in u))" using v by (auto simp: getline_def split: if_splits)
  then show ?thesis using blind_keeps [OF blind_handle_line h] p(2) by (simp add: dropWhile_shorter)
qed

function repl :: "bool \<Rightarrow> string \<Rightarrow> (shell, unit) eff" where
  "repl interactive buffer s = (case turn interactive buffer s of
     (Inl e, t) \<Rightarrow> (Inl e, t)
   | (Inr None, t) \<Rightarrow> (Inr (), t)
   | (Inr (Some buffer), t) \<Rightarrow> repl interactive buffer t)"
  by pat_completeness auto
termination
  by (relation "measure (length \<circ> sh_in \<circ> snd \<circ> snd)") (auto dest: turn_eats [OF sym])

declare repl.simps [simp del]

text \<open>An exception that reaches \<open>main\<close> ends the program; otherwise the database is closed at its end.\<close>

definition shell_main :: "bool \<Rightarrow> (shell, unit) eff" where
  "shell_main interactive = andthen (on_db (bind resolve_data_dir database_open))
     (andthen (whenever interactive (bind (gets (en_data_dir \<circ> sh_db)) (\<lambda>dir.
        say (''GS-DBEngine v2'' @ [NEWLINE] @ ''Type SQL statements terminated with '' @ [QUOTE] @ '';'' @ [QUOTE, CHR ''.'', NEWLINE]
          @ ''Type '' @ [QUOTE] @ ''exit'' @ [QUOTE] @ '' or '' @ [QUOTE] @ ''quit'' @ [QUOTE] @ '' to leave.'' @ [NEWLINE]
          @ ''Type '' @ [QUOTE, BACKSLASH] @ ''path'' @ [QUOTE] @ '' to see/change the data directory.'' @ [NEWLINE]
          @ ''Type '' @ [QUOTE, BACKSLASH] @ ''checkpoint'' @ [QUOTE] @ '' to force a WAL checkpoint now.'' @ [NEWLINE]
          @ ''Data directory: '' @ dir @ [NEWLINE, NEWLINE]))))
     (andthen (repl interactive []) (on_db database_close)))"

section \<open>The session as a list of commands\<close>

text \<open>
  The specification of the loop: the lines of the input are cut into commands by a function on lists,
  and the commands are performed one after the other.
\<close>

function lines :: "string \<Rightarrow> string list" where
  "lines input = (if input = [] then []
     else takeWhile (\<lambda>c. c \<noteq> NEWLINE) input # lines (tl (dropWhile (\<lambda>c. c \<noteq> NEWLINE) input)))"
  by pat_completeness auto
termination
  by (relation "measure length") (simp_all add: dropWhile_shorter)

declare lines.simps [simp del]

datatype command = Statement string | Trailing string | Path_command string | Checkpoint_command string

fun command_text :: "command \<Rightarrow> string" where
  "command_text (Statement t) = t"
| "command_text (Trailing t) = t"
| "command_text (Path_command t) = t"
| "command_text (Checkpoint_command t) = t"

definition is_path_command :: "string \<Rightarrow> bool" where
  "is_path_command line \<longleftrightarrow> (case find_first_not_of blanks line of
     None \<Rightarrow> False | Some s \<Rightarrow> take 5 (drop s line) = BACKSLASH # ''path'')"

definition is_checkpoint_command :: "string \<Rightarrow> bool" where
  "is_checkpoint_command line \<longleftrightarrow> (case find_first_not_of blanks line of
     None \<Rightarrow> False
   | Some s \<Rightarrow> map to_lower (take (unat (position_word (find_last_not_of blanks (drop s line)) + 1)) (drop s line))
       = BACKSLASH # ''checkpoint'')"

definition extended :: "string \<Rightarrow> string \<Rightarrow> string" where
  "extended buffer line = (if buffer \<noteq> [] then buffer @ [NEWLINE] else buffer) @ line"

fun script :: "string \<Rightarrow> string list \<Rightarrow> command list" where
  "script buffer [] = (if buffer = [] then [] else [Trailing buffer])"
| "script buffer (l # ls) =
     (if buffer = [] \<and> is_quit l then []
      else if buffer = [] \<and> is_path_command l then Path_command l # script [] ls
      else if buffer = [] \<and> is_checkpoint_command l then Checkpoint_command l # script [] ls
      else if has_terminator (extended buffer l) then Statement (extended buffer l) # script [] ls
      else script (extended buffer l) ls)"

fun perform :: "command \<Rightarrow> (shell, unit) eff" where
  "perform (Statement t) = andthen (answer t) (on_db checkpoint_if_needed)"
| "perform (Trailing t) = answer t"
| "perform (Path_command l) = bind (try_handle_path_command l) (\<lambda>_. ret ())"
| "perform (Checkpoint_command l) = bind (try_handle_checkpoint_command l) (\<lambda>_. ret ())"

lemma path_command_handled: "try_handle_path_command l s = (Inr b, t) \<Longrightarrow> b = is_path_command l"
  by (auto simp: try_handle_path_command_def is_path_command_def Let_def bind_def andthen_def ret_def gets_def
      split: option.splits if_splits prod.splits sum.splits)

lemma no_path_command: "\<not> is_path_command l \<Longrightarrow> try_handle_path_command l = ret False"
  by (rule ext) (auto simp: try_handle_path_command_def is_path_command_def Let_def split: option.splits)

lemma checkpoint_command_handled: "try_handle_checkpoint_command l s = (Inr b, t) \<Longrightarrow> b = is_checkpoint_command l"
  by (auto simp: try_handle_checkpoint_command_def is_checkpoint_command_def Let_def bind_def andthen_def ret_def gets_def
      split: option.splits if_splits prod.splits sum.splits)

lemma no_checkpoint_command: "\<not> is_checkpoint_command l \<Longrightarrow> try_handle_checkpoint_command l = ret False"
  by (rule ext) (auto simp: try_handle_checkpoint_command_def is_checkpoint_command_def Let_def split: option.splits)

text \<open>What a line does without a terminal, up to the next turn.\<close>

definition next_buffer :: "string \<Rightarrow> (shell, unit) eff \<Rightarrow> (shell, string option) eff" where
  "next_buffer buffer m = andthen m (ret (Some buffer))"

lemma handle_line_cases:
  "handle_line False buffer (Some l) =
     (if buffer = [] \<and> is_quit l then ret None
      else if buffer = [] \<and> is_path_command l then next_buffer [] (perform (Path_command l))
      else if buffer = [] \<and> is_checkpoint_command l then next_buffer [] (perform (Checkpoint_command l))
      else if has_terminator (extended buffer l) then next_buffer [] (perform (Statement (extended buffer l)))
      else ret (Some (extended buffer l)))"
proof -
  have p: "bind (try_handle_path_command l) (\<lambda>handled. if handled then k else k') = bind (try_handle_path_command l) (\<lambda>_. k)"
    if "is_path_command l" for k k' :: "(shell, string option) eff"
    using that path_command_handled [of l] by (fastforce simp: bind_def fun_eq_iff split: prod.splits sum.splits)
  have c: "bind (try_handle_checkpoint_command l) (\<lambda>handled. if handled then k else k') = bind (try_handle_checkpoint_command l) (\<lambda>_. k)"
    if "is_checkpoint_command l" for k k' :: "(shell, string option) eff"
    using that checkpoint_command_handled [of l] by (fastforce simp: bind_def fun_eq_iff split: prod.splits sum.splits)
  have a: "andthen (ret ()) k = k" "bind (ret False) (\<lambda>h. if h then k' else k) = k" "andthen (andthen m n) k = andthen m (andthen n k)"
    "andthen (bind m' (\<lambda>_. ret ())) k = bind m' (\<lambda>_. k)"
    for k k' :: "(shell, string option) eff" and m n :: "(shell, unit) eff" and m' :: "(shell, bool) eff"
    by (auto simp: andthen_def bind_def ret_def fun_eq_iff split: prod.splits sum.splits)
  show ?thesis
    by (auto simp: handle_line_def next_buffer_def Let_def whenever_def a p c no_path_command no_checkpoint_command extended_def)
qed

lemma repl_lines:
  "(case repl False buffer s of (r, t) \<Rightarrow> (r, t\<lparr>sh_in := []\<rparr>)) = for_each perform (script buffer (lines (sh_in s))) (s\<lparr>sh_in := []\<rparr>)"
proof (induction "length (sh_in s)" arbitrary: buffer s rule: less_induct)
  case less
  have t: "turn False buffer s = bind getline (handle_line False buffer) s"
    by (simp add: turn_def whenever_def andthen_def bind_def ret_def)
  show ?case
  proof (cases "sh_in s = []")
    case True
    have "blind (answer buffer)" by (rule blind_answer)
    then have "answer buffer (s\<lparr>sh_in := []\<rparr>) = (case answer buffer s of (r, t) \<Rightarrow> (r, t\<lparr>sh_in := []\<rparr>))" by (simp add: blind_def)
    then show ?thesis using True t
      by (auto simp: repl.simps [of _ _ s] lines.simps [of "[]"] getline_def handle_line_def whenever_def bind_def andthen_def ret_def
          split: prod.splits sum.splits)
  next
    case False
    define l where "l = takeWhile (\<lambda>c. c \<noteq> NEWLINE) (sh_in s)"
    define rest where "rest = tl (dropWhile (\<lambda>c. c \<noteq> NEWLINE) (sh_in s))"
    have len: "length rest < length (sh_in s)" using False unfolding rest_def by (rule tl_dropWhile_shorter)
    have ls: "lines (sh_in s) = l # lines rest" using False by (simp add: lines.simps [of "sh_in s"] l_def rest_def)
    have t': "turn False buffer s = handle_line False buffer (Some l) (s\<lparr>sh_in := rest\<rparr>)"
      using False by (simp add: t bind_def getline_def l_def rest_def)
    have step: "(case repl False buffer s of (r, t) \<Rightarrow> (r, t\<lparr>sh_in := []\<rparr>)) = for_each perform (c # script [] (lines rest)) (s\<lparr>sh_in := []\<rparr>)"
      if "handle_line False buffer (Some l) = next_buffer [] (perform c)" for c
    proof -
      have b: "blind (perform c)" by (cases c) (auto intro!: blind_rules)
      obtain r u where u: "perform c (s\<lparr>sh_in := rest\<rparr>) = (r, u)" by fastforce
      then have e: "sh_in u = rest" "perform c (s\<lparr>sh_in := []\<rparr>) = (r, u\<lparr>sh_in := []\<rparr>)"
        using blind_keeps [OF b u] b [unfolded blind_def, rule_format, of "[]" "s\<lparr>sh_in := rest\<rparr>"] by simp_all
      show ?thesis
        using t' that u e less.hyps [where s = u] len
        by (auto simp: repl.simps [of _ _ s] next_buffer_def andthen_def bind_def ret_def split: sum.splits)
    qed
    have go: "(case repl False buffer s of (r, t) \<Rightarrow> (r, t\<lparr>sh_in := []\<rparr>)) = for_each perform (script b (lines rest)) (s\<lparr>sh_in := []\<rparr>)"
      if "handle_line False buffer (Some l) = ret (Some b)" for b
      using t' that less.hyps [where s = "s\<lparr>sh_in := rest\<rparr>"] len by (simp add: repl.simps [of _ _ s] ret_def)
    have stop: "(case repl False buffer s of (r, t) \<Rightarrow> (r, t\<lparr>sh_in := []\<rparr>)) = for_each perform [] (s\<lparr>sh_in := []\<rparr>)"
      if "handle_line False buffer (Some l) = ret None"
      using t' that by (simp add: repl.simps [of _ _ s] ret_def)
    note h = handle_line_cases [of buffer l]
    consider (quit) "buffer = []" "is_quit l" | (path) "buffer = []" "\<not> is_quit l" "is_path_command l"
      | (checkpoint) "buffer = []" "\<not> is_quit l" "\<not> is_path_command l" "is_checkpoint_command l"
      | (sql) "\<not> (buffer = [] \<and> (is_quit l \<or> is_path_command l \<or> is_checkpoint_command l))" by blast
    then show ?thesis
    proof cases
      case quit
      then show ?thesis using h stop unfolding ls by simp
    next
      case path
      then show ?thesis using h step [of "Path_command l"] unfolding ls by simp
    next
      case checkpoint
      then show ?thesis using h step [of "Checkpoint_command l"] unfolding ls by simp
    next
      case sql
      show ?thesis
      proof (cases "has_terminator (extended buffer l)")
        case True
        then show ?thesis using sql h step [of "Statement (extended buffer l)"] unfolding ls by (auto simp del: for_each.simps)
      next
        case False
        then show ?thesis using sql h go unfolding ls by (auto simp del: for_each.simps)
      qed
    qed
  qed
qed

text \<open>
  Property C38. Without a terminal the loop performs the commands its input consists of, in order, and stops at
  the first exception: cutting the input into statements does not depend on what the statements do.
  After every complete statement, and only then, the log is checked for a checkpoint.
\<close>

theorem repl_refines_script:
  "(case repl False [] s of (r, t) \<Rightarrow> (r, t\<lparr>sh_in := []\<rparr>)) = for_each perform (script [] (lines (sh_in s))) (s\<lparr>sh_in := []\<rparr>)"
  by (rule repl_lines)

section \<open>Terminators and tokens\<close>

lemma terminated_word: "is_ident c \<or> is_digit c \<or> c = CHR ''.'' \<Longrightarrow> terminated False (c # cs) = terminated False cs"
  by (auto simp: is_ident_def is_alpha_def is_upper_def is_lower_def is_digit_def QUOTE_def)

lemma terminated_space: "is_space c \<Longrightarrow> terminated False (c # cs) = terminated False cs"
  by (auto simp: is_space_def QUOTE_def)

lemma skip_comment_dropWhile: "fst (skip_comment cs p) = dropWhile (\<lambda>c. c \<noteq> NEWLINE) cs"
  by (induction cs p rule: skip_comment.induct) auto

lemma terminated_after_newline: "terminated False (tl (dropWhile (\<lambda>c. c \<noteq> NEWLINE) cs)) = terminated False (dropWhile (\<lambda>c. c \<noteq> NEWLINE) cs)"
proof (cases "dropWhile (\<lambda>c. c \<noteq> NEWLINE) cs")
  case (Cons c ds)
  then have "\<not> c \<noteq> NEWLINE" using hd_dropWhile [of "\<lambda>c. c \<noteq> NEWLINE" cs] by simp
  then show ?thesis using Cons by (simp add: NEWLINE_def QUOTE_def)
next
  case Nil
  show ?thesis unfolding Nil by simp
qed

lemma terminated_skip: "terminated False (fst (skip_whitespace_and_comments cs p)) = terminated False cs"
proof (induction cs p rule: skip_whitespace_and_comments.induct)
  case (1 cs p)
  show ?case
  proof (cases cs)
    case (Cons c cs')
    obtain d q where d: "skip_comment cs p = (d, q)" by (cases "skip_comment cs p")
    consider (space) "is_space c" | (comment) "\<not> is_space c" "c = CHR ''-'' \<and> cs' \<noteq> [] \<and> hd cs' = CHR ''-''"
      | (stop) "\<not> is_space c" "\<not> (c = CHR ''-'' \<and> cs' \<noteq> [] \<and> hd cs' = CHR ''-'')" by blast
    then show ?thesis
    proof cases
      case space
      then show ?thesis using "1.IH"(1) [OF Cons space] terminated_space [of c cs'] Cons
        by (simp add: skip_whitespace_and_comments.simps [of "c # cs'"])
    next
      case comment
      have "terminated False cs = terminated False (dropWhile (\<lambda>c. c \<noteq> NEWLINE) cs)"
        using comment Cons by (simp add: terminated_after_newline)
      then show ?thesis using "1.IH"(2) [OF Cons comment refl d [symmetric]] skip_comment_dropWhile [of cs p] comment d Cons
        by (subst skip_whitespace_and_comments.simps) simp
    next
      case stop
      then show ?thesis using Cons by (subst skip_whitespace_and_comments.simps) auto
    qed
  qed (simp add: skip_whitespace_and_comments.simps)
qed

lemma terminated_string: "string_chars e cs p = Inr (v, cs', p') \<Longrightarrow> terminated True cs = terminated False cs'"
  by (induction e cs p arbitrary: v rule: string_chars.induct) (fastforce simp: sbind_Inr_conv split: if_splits)+

lemma terminated_number: "terminated False (fst (snd (snd (number_chars f cs p)))) = terminated False cs"
  by (induction f cs p rule: number_chars.induct) (auto simp: Let_def terminated_word simp del: terminated.simps split: prod.splits)

lemma terminated_ident: "terminated False (fst (snd (ident_chars cs p))) = terminated False cs"
  by (induction cs p rule: ident_chars.induct) (auto simp: Let_def terminated_word simp del: terminated.simps split: prod.splits)

text \<open>A token keeps the answer for the rest of the text, unless it is a semicolon.\<close>

lemma skip_stops:
  "fst (skip_whitespace_and_comments cs p) = c # d # ds \<Longrightarrow> \<not> (c = CHR ''-'' \<and> d = CHR ''-'')"
proof (induction cs p rule: skip_whitespace_and_comments.induct)
  case (1 cs p)
  show ?case
  proof (cases cs)
    case (Cons a cs')
    obtain e q where e: "skip_comment cs p = (e, q)" by (cases "skip_comment cs p")
    consider (space) "is_space a" | (comment) "\<not> is_space a" "a = CHR ''-'' \<and> cs' \<noteq> [] \<and> hd cs' = CHR ''-''"
      | (stop) "\<not> is_space a" "\<not> (a = CHR ''-'' \<and> cs' \<noteq> [] \<and> hd cs' = CHR ''-'')" by blast
    then show ?thesis
    proof cases
      case space
      then show ?thesis using "1.IH"(1) [OF Cons space] "1.prems" Cons
        by (simp add: skip_whitespace_and_comments.simps [of "a # cs'"])
    next
      case comment
      have "skip_whitespace_and_comments cs p = skip_whitespace_and_comments e q"
        using comment e Cons by (subst skip_whitespace_and_comments.simps) simp
      then show ?thesis using "1.IH"(2) [OF Cons comment refl e [symmetric]] "1.prems" by simp
    next
      case stop
      then have "skip_whitespace_and_comments cs p = (cs, p)" using Cons by (subst skip_whitespace_and_comments.simps) auto
      then show ?thesis using "1.prems" stop Cons by auto
    qed
  qed (use "1.prems" in \<open>simp add: skip_whitespace_and_comments.simps\<close>)
qed

lemma keyword_not_semicolon: "keyword_or_identifier w \<noteq> T_SEMICOLON"
proof -
  have "\<forall>t \<in> snd ` set keyword_table. t \<noteq> T_SEMICOLON" by (simp add: keyword_table_def)
  then show ?thesis by (auto simp: keyword_or_identifier_def split: option.split dest!: map_of_SomeD)
qed

lemma terminated_operator:
  assumes "read_operator c cs p = Inr (t, cs', p')" "c \<noteq> QUOTE" "\<not> (c = CHR ''-'' \<and> cs \<noteq> [] \<and> hd cs = CHR ''-'')"
  shows "terminated False (c # cs) \<longleftrightarrow> tk_type t = T_SEMICOLON \<or> terminated False cs'"
proof -
  have two: "terminated False cs = terminated False (tl cs)" if "cs \<noteq> []" "hd cs = CHR ''=''"
    using that by (cases cs) (simp_all add: QUOTE_def)
  show ?thesis using assms two
    by (auto simp: read_operator_def operators_def mk_token_def Let_def split: if_splits)
qed

lemma terminated_token:
  assumes "next_token cs p = Inr (t, cs', p')"
  shows "terminated False cs \<longleftrightarrow> tk_type t = T_SEMICOLON \<or> terminated False cs'"
proof -
  obtain d q where d: "skip_whitespace_and_comments cs p = (d, q)" by (cases "skip_whitespace_and_comments cs p")
  have s: "terminated False cs = terminated False d" using terminated_skip [of cs p] d by simp
  show ?thesis
  proof (cases d)
    case Nil
    then show ?thesis using assms d s by (auto simp: next_token_def mk_token_def)
  next
    case (Cons c ds)
    have stop: "\<not> (c = CHR ''-'' \<and> ds \<noteq> [] \<and> hd ds = CHR ''-'')" using skip_stops [of cs p c] d Cons by (cases ds) auto
    consider (string) "c = QUOTE" | (number) "c \<noteq> QUOTE" "is_digit c" | (word) "c \<noteq> QUOTE" "\<not> is_digit c" "is_alpha c \<or> c = CHR ''_''"
      | (op) "c \<noteq> QUOTE" "\<not> is_digit c" "\<not> (is_alpha c \<or> c = CHR ''_'')" by blast
    then show ?thesis
    proof cases
      case string
      then have "terminated False cs = terminated True ds" using s Cons by (simp add: QUOTE_def)
      then show ?thesis using assms d Cons string
        by (auto simp: next_token_def read_string_literal_def sbind_Inr_conv mk_token_def dest!: terminated_string)
    next
      case number
      then show ?thesis using assms d s Cons terminated_number [of False "c # ds" q]
        by (auto simp: next_token_def read_number_def Let_def mk_token_def simp del: terminated.simps number_chars.simps split: prod.splits if_splits)
    next
      case word
      then show ?thesis using assms d s Cons terminated_ident [of "c # ds" q] keyword_not_semicolon
        by (auto simp: next_token_def read_identifier_or_keyword_def Let_def mk_token_def simp del: terminated.simps ident_chars.simps split: prod.splits)
    next
      case op
      then show ?thesis using assms d s Cons terminated_operator [OF _ op(1) stop, of "advance c q" t cs' p']
        by (simp add: next_token_def Let_def del: terminated.simps)
    qed
  qed
qed

lemma end_token:
  assumes "next_token cs p = Inr (t, cs', p')" "tk_type t = T_END_OF_FILE"
  shows "cs' = []"
proof -
  obtain d q where d: "skip_whitespace_and_comments cs p = (d, q)" by (cases "skip_whitespace_and_comments cs p")
  have k: "keyword_or_identifier w \<noteq> T_END_OF_FILE" for w using keyword_types [of w] by simp
  show ?thesis
  proof (cases d)
    case (Cons c ds)
    then show ?thesis using assms d k
      by (auto simp: next_token_def read_string_literal_def read_number_def read_identifier_or_keyword_def read_operator_def
          operators_def mk_token_def sbind_Inr_conv Let_def simp del: number_chars.simps ident_chars.simps
          split: if_splits prod.splits)
  qed (use assms d in \<open>simp add: next_token_def mk_token_def\<close>)
qed

lemma terminated_tokens: "tokenize_from cs p = Inr ts \<Longrightarrow> terminated False cs \<longleftrightarrow> list_ex (\<lambda>t. tk_type t = T_SEMICOLON) ts"
proof (induction cs p arbitrary: ts rule: tokenize_from.induct)
  case (1 cs p)
  obtain t cs' p' where t: "next_token cs p = Inr (t, cs', p')"
    using "1.prems" by (auto simp: tokenize_from.simps [of cs] sbind_Inr_conv)
  show ?case
  proof (cases "tk_type t = T_END_OF_FILE")
    case True
    then have "cs' = []" by (rule end_token [OF t])
    then show ?thesis using True "1.prems" t terminated_token [OF t] by (auto simp: tokenize_from.simps [of cs])
  next
    case False
    then obtain ts' where ts': "tokenize_from cs' p' = Inr ts'" "ts = t # ts'"
      using "1.prems" t by (auto simp: tokenize_from.simps [of cs] sbind_Inr_conv)
    then show ?thesis using "1.IH" [OF t refl refl False ts'(1)] terminated_token [OF t] by simp
  qed
qed

text \<open>
  Property C37. The shell and the lexer agree on where SQL is: on a text the lexer accepts, \<open>has_terminator\<close>
  holds exactly when one of its tokens is a semicolon, so that semicolons in string literals (with
  doubled quotes) and in comments end no statement, and quotes in comments hide none.
\<close>

theorem has_terminator_tokens:
  "case tokenize input of Inl e \<Rightarrow> True
   | Inr ts \<Rightarrow> has_terminator input \<longleftrightarrow> list_ex (\<lambda>t. tk_type t = T_SEMICOLON) ts"
  by (simp add: tokenize_def has_terminator_def terminated_tokens split: sum.split)

section \<open>What the script of a session holds\<close>

text \<open>How the text of a command fits its kind.\<close>

fun well_cut :: "command \<Rightarrow> bool" where
  "well_cut (Statement t) = has_terminator t"
| "well_cut (Trailing t) = (t \<noteq> [] \<and> \<not> has_terminator t)"
| "well_cut (Path_command t) = is_path_command t"
| "well_cut (Checkpoint_command t) = is_checkpoint_command t"

fun is_trailing :: "command \<Rightarrow> bool" where
  "is_trailing (Trailing t) = True"
| "is_trailing c = False"

definition unbroken :: "string \<Rightarrow> string" where
  "unbroken t = filter (\<lambda>c. c \<noteq> NEWLINE) t"

lemma unbroken_extended: "NEWLINE \<notin> set l \<Longrightarrow> unbroken (extended b l) = unbroken b @ l"
  by (auto simp: unbroken_def extended_def filter_id_conv)

lemma unbroken_line: "NEWLINE \<notin> set l \<Longrightarrow> unbroken l = l"
  by (auto simp: unbroken_def filter_id_conv)

lemma script_cut:
  assumes "list_all (\<lambda>l. NEWLINE \<notin> set l) ls" "\<not> has_terminator buffer"
  shows "list_all well_cut (script buffer ls) \<and> list_all (\<lambda>c. \<not> is_trailing c) (butlast (script buffer ls))
    \<and> (\<exists>k. k \<le> length ls \<and> (k = length ls \<or> is_quit (ls ! k))
       \<and> concat (map (\<lambda>c. unbroken (command_text c)) (script buffer ls)) = unbroken buffer @ concat (take k ls))"
  using assms
proof (induction buffer ls rule: script.induct)
  case (1 buffer)
  then show ?case by (simp add: unbroken_def)
next
  case (2 buffer l ls)
  have l: "NEWLINE \<notin> set l" "list_all (\<lambda>l. NEWLINE \<notin> set l) ls" using "2.prems" by simp_all
  have empty: "\<not> has_terminator []" by (simp add: has_terminator_def)
  have step: ?case if "script buffer (l # ls) = c # script [] ls" "well_cut c" "\<not> is_trailing c" "unbroken (command_text c) = unbroken buffer @ l"
    "list_all well_cut (script [] ls) \<and> list_all (\<lambda>c. \<not> is_trailing c) (butlast (script [] ls))
    \<and> (\<exists>k. k \<le> length ls \<and> (k = length ls \<or> is_quit (ls ! k))
       \<and> concat (map (\<lambda>c. unbroken (command_text c)) (script [] ls)) = unbroken [] @ concat (take k ls))" for c
  proof -
    note cut = that(5)
    obtain k where "k \<le> length ls" "k = length ls \<or> is_quit (ls ! k)"
      "concat (map (\<lambda>c. unbroken (command_text c)) (script [] ls)) = unbroken [] @ concat (take k ls)" using cut by blast
    then have "Suc k \<le> length (l # ls) \<and> (Suc k = length (l # ls) \<or> is_quit ((l # ls) ! Suc k))
       \<and> concat (map (\<lambda>c. unbroken (command_text c)) (script buffer (l # ls))) = unbroken buffer @ concat (take (Suc k) (l # ls))"
      unfolding that(1) using that(4) by (simp add: unbroken_def)
    then have "\<exists>k. k \<le> length (l # ls) \<and> (k = length (l # ls) \<or> is_quit ((l # ls) ! k))
       \<and> concat (map (\<lambda>c. unbroken (command_text c)) (script buffer (l # ls))) = unbroken buffer @ concat (take k (l # ls))"
      by (rule exI)
    moreover have "list_all well_cut (script buffer (l # ls))" "list_all (\<lambda>c. \<not> is_trailing c) (butlast (script buffer (l # ls)))"
      unfolding that(1) using that(2,3,5) by simp_all
    ultimately show ?thesis by blast
  qed
  consider (quit) "buffer = []" "is_quit l" | (path) "buffer = []" "\<not> is_quit l" "is_path_command l"
    | (checkpoint) "buffer = []" "\<not> is_quit l" "\<not> is_path_command l" "is_checkpoint_command l"
    | (sql) "\<not> (buffer = [] \<and> is_quit l)" "\<not> (buffer = [] \<and> is_path_command l)" "\<not> (buffer = [] \<and> is_checkpoint_command l)" by blast
  then show ?case
  proof cases
    case quit
    then show ?thesis by (intro conjI exI [of _ 0]) (simp_all add: unbroken_def)
  next
    case path
    then show ?thesis using "2.IH"(1) l empty
      by (intro step [of "Path_command l"]) (simp_all add: unbroken_line [OF l(1)], simp add: unbroken_def)
  next
    case checkpoint
    then show ?thesis using "2.IH"(2) l empty
      by (intro step [of "Checkpoint_command l"]) (simp_all add: unbroken_line [OF l(1)], simp add: unbroken_def)
  next
    case sql
    show ?thesis
    proof (cases "has_terminator (extended buffer l)")
      case True
      with sql show ?thesis using "2.IH"(3) l empty
        by (intro step [of "Statement (extended buffer l)"]) (auto simp: unbroken_extended [OF l(1)])
    next
      case False
      have e: "script buffer (l # ls) = script (extended buffer l) ls" using sql False by auto
      from "2.IH"(4) [OF sql False l(2) False] obtain k where
        "list_all well_cut (script (extended buffer l) ls)" "list_all (\<lambda>c. \<not> is_trailing c) (butlast (script (extended buffer l) ls))"
        "k \<le> length ls" "k = length ls \<or> is_quit (ls ! k)"
        "concat (map (\<lambda>c. unbroken (command_text c)) (script (extended buffer l) ls)) = unbroken (extended buffer l) @ concat (take k ls)" by blast
      then show ?thesis unfolding e by (intro conjI exI [of _ "Suc k"]) (auto simp: unbroken_extended [OF l(1)])
    qed
  qed
qed

lemma lines_unbroken: "list_all (\<lambda>l. NEWLINE \<notin> set l) (lines input)"
proof (induction input rule: lines.induct)
  case (1 input)
  then show ?case by (subst lines.simps) (auto dest: set_takeWhileD)
qed

text \<open>
  Nothing of the input is lost and nothing runs early: the texts of the commands are, line breaks
  aside, the lines of the input up to its end or to a line that quits; every statement that is run
  holds a terminator; and only the last command can be a text without one, which is what is left
  at the end of the input.
\<close>

lemma script_complete:
  "list_all well_cut (script [] (lines input)) \<and> list_all (\<lambda>c. \<not> is_trailing c) (butlast (script [] (lines input)))
    \<and> (\<exists>k. k \<le> length (lines input) \<and> (k = length (lines input) \<or> is_quit (lines input ! k))
       \<and> concat (map (\<lambda>c. unbroken (command_text c)) (script [] (lines input))) = concat (take k (lines input)))"
  using script_cut [OF lines_unbroken, of "[]" input] by (simp add: has_terminator_def unbroken_def)

lemma blank_not_terminated: "set l \<subseteq> set blanks \<Longrightarrow> \<not> terminated b l"
  by (induction b l rule: terminated.induct) (auto simp: blanks_def QUOTE_def)

lemma blank_no_position: "set l \<subseteq> set blanks \<Longrightarrow> find_first_not_of blanks l = None"
  by (simp add: find_first_not_of_def Let_def takeWhile_eq_all_conv [THEN iffD2] subset_iff)

text \<open>
  A line of blanks takes the shell out of the state in which it knows its own commands: the line
  \<open>exit\<close> (or a backslash command) behind it is no command any more but text of a statement.
\<close>

lemma blank_line_hides_quit:
  assumes "line \<noteq> []" "set line \<subseteq> set blanks" "is_quit q"
  shows "script [] (q # ls) = [] \<and> script [] (line # q # ls) =
    (if has_terminator (line @ [NEWLINE] @ q) then Statement (line @ [NEWLINE] @ q) # script [] ls
     else script (line @ [NEWLINE] @ q) ls)"
proof -
  have "find_first_not_of blanks line = None" "\<not> has_terminator line"
    using assms blank_no_position blank_not_terminated by (auto simp: has_terminator_def)
  then show ?thesis using assms by (simp add: is_quit_def is_path_command_def is_checkpoint_command_def extended_def)
qed

lemma blank_line_hides_quit_example:
  "script [] ['' '', ''exit'', ''SELECT 1;''] = [Statement ('' '' @ [NEWLINE] @ ''exit'' @ [NEWLINE] @ ''SELECT 1;'')]"
proof -
  have q: "is_quit ''exit''"
    by (simp add: is_quit_def find_first_not_of_def find_last_not_of_def blanks_def position_word_def to_lower_def is_upper_def)
  show ?thesis
    using blank_line_hides_quit [of "'' ''" "''exit''" "[''SELECT 1;'']"] q
    by (simp add: blanks_def has_terminator_def extended_def QUOTE_def NEWLINE_def)
qed

section \<open>The table\<close>

definition printable :: "string \<Rightarrow> bool" where
  "printable t \<longleftrightarrow> length t < 2 ^ 62"

definition cell_of :: "string list \<Rightarrow> nat \<Rightarrow> string" where
  "cell_of cells c = (if c < length cells then cells ! c else [])"

definition cell_text :: "nat \<Rightarrow> string \<Rightarrow> string" where
  "cell_text w cell = '' '' @ cell @ replicate (w - length cell) CHR '' '' @ '' |''"

definition row_line :: "nat list \<Rightarrow> string list \<Rightarrow> string" where
  "row_line widths cells = ''|'' @ concat (map (\<lambda>c. cell_text (widths ! c) (cell_of cells c)) [0..<length widths]) @ [NEWLINE]"

definition rule_line :: "nat list \<Rightarrow> string" where
  "rule_line widths = ''+'' @ concat (map (\<lambda>w. replicate (w + 2) CHR ''-'' @ ''+'') widths) @ [NEWLINE]"

lemma say_say: "andthen (say a) (say b) = say (a @ b)"
  by (simp add: say_def andthen_def bind_def modify_def fun_eq_iff)

lemma say_andthen: "andthen (say a) (andthen (say b) k) = andthen (say (a @ b)) k"
  by (simp add: say_def andthen_def bind_def modify_def fun_eq_iff)

lemma say_nothing: "say [] = ret ()"
  by (simp add: say_def modify_def ret_def fun_eq_iff)

lemma bind_lift_Inr: "bind (lift (Inr x)) f = f x"
  by (simp add: bind_def lift_def ret_def fun_eq_iff)

lemma for_each_say: "(\<And>x. x \<in> set xs \<Longrightarrow> f x = say (g x)) \<Longrightarrow> for_each f xs = say (concat (map g xs))"
  by (induction xs) (simp_all add: say_nothing say_say)

lemma filled_small: "unat n < 2 ^ 63 \<Longrightarrow> filled n c = Inr (replicate (unat n) c)"
  by (simp add: filled_def)

lemma unat_small: "n < 2 ^ 63 \<Longrightarrow> unat (word_of_nat n :: u64) = n"
  by (simp add: unat_of_nat take_bit_nat_eq_self)

lemma print_separator_says:
  assumes "list_all (\<lambda>w. w < 2 ^ 62) widths"
  shows "print_separator widths = say (rule_line widths)"
proof -
  have "bind (lift (filled (word_of_nat w + 2) CHR ''-'')) (\<lambda>d. say (d @ ''+'')) = say (replicate (w + 2) CHR ''-'' @ ''+'')"
    if "w \<in> set widths" for w
  proof -
    have "w < 2 ^ 62" using that assms by (simp add: list_all_iff)
    moreover from this have "unat (word_of_nat w + 2 :: u64) = w + 2" using unat_small [of "w + 2"] by (simp add: add.commute)
    ultimately show ?thesis by (simp add: filled_small bind_lift_Inr del: replicate_Suc)
  qed
  then show ?thesis unfolding print_separator_def rule_line_def
    by (subst for_each_say [where g = "\<lambda>w. replicate (w + 2) CHR ''-'' @ ''+''"]) (simp_all add: say_say)
qed

text \<open>The difference of the sizes does not wrap around when the cell fits its column.\<close>

lemma print_row_says:
  assumes "list_all (\<lambda>w. w < 2 ^ 62) widths" "\<And>c. c < length widths \<Longrightarrow> length (cell_of cells c) \<le> widths ! c"
  shows "print_row widths cells = say (row_line widths cells)"
proof -
  have "andthen (say ('' '' @ cell_of cells c)) (bind (lift (filled (word_of_nat (widths ! c) - word_of_nat (length (cell_of cells c))) CHR '' ''))
      (\<lambda>d. say (d @ '' |''))) = say (cell_text (widths ! c) (cell_of cells c))" if "c < length widths" for c
  proof -
    have w: "widths ! c < 2 ^ 62" "length (cell_of cells c) \<le> widths ! c" using assms that by (auto simp: list_all_length)
    then have "word_of_nat (widths ! c) - word_of_nat (length (cell_of cells c)) = (word_of_nat (widths ! c - length (cell_of cells c)) :: u64)"
      by (simp add: of_nat_diff)
    moreover have "unat (word_of_nat (widths ! c - length (cell_of cells c)) :: u64) = widths ! c - length (cell_of cells c)"
      using w by (intro unat_small) simp
    ultimately show ?thesis using w by (simp add: filled_small bind_lift_Inr say_say cell_text_def)
  qed
  then show ?thesis unfolding print_row_def row_line_def Let_def cell_of_def [symmetric]
    by (subst for_each_say [where g = "\<lambda>c. cell_text (widths ! c) (cell_of cells c)"]) (simp_all add: say_say)
qed

lemma foldl_max: "foldl max x xs = Max (set (x # xs))" for x :: nat
proof (induction xs arbitrary: x)
  case (Cons y ys)
  have "Max (insert x (insert y (set ys))) = Max (insert (max x y) (set ys))" by (cases "ys = []") (simp_all add: max.assoc)
  then show ?case using Cons.IH [of "max x y"] by simp
qed simp

text \<open>The width of a column is the length of its longest cell, the name of the column included.\<close>

definition column_cells :: "string list \<Rightarrow> string list list \<Rightarrow> nat \<Rightarrow> string list" where
  "column_cells columns rows c = columns ! c # map (\<lambda>row. row ! c) (filter (\<lambda>row. c < length row) rows)"

lemma column_widths_nth:
  "length (column_widths columns rows) = length columns
   \<and> (c < length columns \<longrightarrow> column_widths columns rows ! c = Max (length ` set (column_cells columns rows c)))"
proof -
  have "length (foldl (\<lambda>widths row. map (\<lambda>c. if c < length row then max (widths ! c) (length (row ! c)) else widths ! c) [0..<n]) ws rows) = n
    \<and> (c < n \<longrightarrow> foldl (\<lambda>widths row. map (\<lambda>c. if c < length row then max (widths ! c) (length (row ! c)) else widths ! c) [0..<n]) ws rows ! c
       = foldl max (ws ! c) (map (\<lambda>row. length (row ! c)) (filter (\<lambda>row. c < length row) rows)))" if "length ws = n" for n ws
    using that by (induction rows arbitrary: ws) simp_all
  from this [of "map length columns" "length columns"] show ?thesis
    by (auto simp: column_widths_def foldl_max column_cells_def image_image simp del: foldl_Cons)
qed

lemma cell_of_fits:
  assumes "c < length columns" "row \<in> set (columns # rows)"
  shows "length (cell_of row c) \<le> column_widths columns rows ! c"
proof (cases "c < length row")
  case True
  then have "cell_of row c \<in> set (column_cells columns rows c)" using assms by (auto simp: cell_of_def column_cells_def)
  then show ?thesis using assms(1) column_widths_nth [of columns rows c] by simp
qed (simp add: cell_of_def)

lemma widths_small:
  assumes "list_all (list_all printable) (columns # rows)"
  shows "list_all (\<lambda>w. w < 2 ^ 62) (column_widths columns rows)"
proof -
  have "column_widths columns rows ! c < 2 ^ 62" if "c < length columns" for c
  proof -
    have "length t < 2 ^ 62" if "t \<in> set (column_cells columns rows c)" for t
      using that assms \<open>c < length columns\<close> by (auto simp: column_cells_def list_all_iff printable_def)
    then show ?thesis using column_widths_nth [of columns rows c] \<open>c < length columns\<close> by (simp add: column_cells_def)
  qed
  then show ?thesis using column_widths_nth [of columns rows] by (simp add: list_all_length)
qed

text \<open>Where the cell of a column begins in a line.\<close>

definition column_start :: "nat list \<Rightarrow> nat \<Rightarrow> nat" where
  "column_start widths c = 2 + (\<Sum>w\<leftarrow>take c widths. w + 3)"

lemma length_cell_text: "length cell \<le> w \<Longrightarrow> length (cell_text w cell) = w + 3"
  by (simp add: cell_text_def)

lemma length_row_line:
  assumes "\<And>c. c < length widths \<Longrightarrow> length (cell_of cells c) \<le> widths ! c"
  shows "length (row_line widths cells) = column_start widths (length widths)"
proof -
  have "map (length \<circ> (\<lambda>c. cell_text (widths ! c) (cell_of cells c))) [0..<length widths] = map (\<lambda>w. w + 3) (map ((!) widths) [0..<length widths])"
    using assms by (simp add: length_cell_text)
  then show ?thesis by (simp add: row_line_def column_start_def length_concat map_nth)
qed

lemma length_rule_line: "length (rule_line widths) = column_start widths (length widths)"
  by (simp add: rule_line_def column_start_def length_concat comp_def numeral_3_eq_3)

lemma row_line_cell:
  assumes "\<And>c. c < length widths \<Longrightarrow> length (cell_of cells c) \<le> widths ! c" "c < length widths"
  shows "chunk (column_start widths c) (widths ! c) (row_line widths cells) = cell_of cells c @ replicate (widths ! c - length (cell_of cells c)) CHR '' ''"
proof -
  let ?f = "\<lambda>c. cell_text (widths ! c) (cell_of cells c)"
  have "map (length \<circ> ?f) [0..<c] = map (\<lambda>w. w + 3) (map ((!) widths) [0..<c])" using assms by (simp add: length_cell_text)
  moreover have "map ((!) widths) [0..<c] = take c widths" using assms(2) by (intro nth_equalityI) simp_all
  ultimately have "length (concat (map ?f [0..<c])) = (\<Sum>w\<leftarrow>take c widths. w + 3)" by (simp add: length_concat)
  moreover have "[0..<length widths] = [0..<c] @ c # [Suc c..<length widths]"
    using assms(2) upt_add_eq_append [of 0 c "length widths - c"] by (simp add: upt_conv_Cons)
  ultimately show ?thesis using assms(1) [OF assms(2)]
    by (simp add: row_line_def column_start_def chunk_def cell_text_def)
qed

text \<open>
  Property C40. A result with columns is printed as a table: no column is narrower than a cell in it, so no
  padding wraps around and nothing is thrown; what is printed is a rule, the names, a rule, one
  line for each row in order, a rule and the number of rows; every line of the table has the same
  length; and in every line the cell of a column stands at the same place, followed by blanks up
  to the width of the column, which is the length of its longest cell.
\<close>

theorem print_table_grid:
  assumes "columns \<noteq> []" "list_all (list_all printable) (columns # rows)"
  shows "\<exists>widths lines. length widths = length columns
    \<and> print_table (table_result columns rows) elapsed = say (concat (rule_line widths # hd lines # rule_line widths # tl lines @ [rule_line widths])
        @ to_string (length rows) @ '' row(s) in set '' @ format_elapsed elapsed @ [NEWLINE])
    \<and> length lines = 1 + length rows
    \<and> list_all (\<lambda>l. length l = length (rule_line widths)) lines
    \<and> list_all (\<lambda>(row, line). list_all (\<lambda>c. chunk (column_start widths c) (widths ! c) line
          = cell_of row c @ replicate (widths ! c - length (cell_of row c)) CHR '' '') [0..<length widths]) (zip (columns # rows) lines)
    \<and> list_all (\<lambda>c. widths ! c = Max (length ` set (column_cells columns rows c))) [0..<length widths]"
proof -
  define widths where "widths = column_widths columns rows"
  define lines where "lines = map (row_line widths) (columns # rows)"
  have len: "length widths = length columns" and max: "\<And>c. c < length columns \<Longrightarrow> widths ! c = Max (length ` set (column_cells columns rows c))"
    using column_widths_nth [of columns rows] by (simp_all add: widths_def)
  have small: "list_all (\<lambda>w. w < 2 ^ 62) widths" unfolding widths_def by (rule widths_small [OF assms(2)])
  have fits: "length (cell_of row c) \<le> widths ! c" if "row \<in> set (columns # rows)" "c < length widths" for row c
    using that cell_of_fits len unfolding widths_def by simp
  have say_row: "print_row widths row = say (row_line widths row)" if "row \<in> set (columns # rows)" for row
    using that by (intro print_row_says [OF small]) (rule fits)
  have "for_each (print_row widths) rows = say (concat (map (row_line widths) rows))" by (rule for_each_say) (simp add: say_row)
  then have "print_table (table_result columns rows) elapsed = say (concat (rule_line widths # hd lines # rule_line widths # tl lines @ [rule_line widths])
        @ to_string (length rows) @ '' row(s) in set '' @ format_elapsed elapsed @ [NEWLINE])"
    using assms(1) say_row [of columns]
    by (simp add: print_table_def table_result_def Let_def widths_def [symmetric] print_separator_says [OF small] say_say lines_def)
  moreover have "list_all (\<lambda>l. length l = length (rule_line widths)) lines"
    unfolding lines_def list_all_iff using length_row_line fits by (auto simp: length_rule_line)
  moreover have "list_all (\<lambda>(row, line). list_all (\<lambda>c. chunk (column_start widths c) (widths ! c) line
          = cell_of row c @ replicate (widths ! c - length (cell_of row c)) CHR '' '') [0..<length widths]) (zip (columns # rows) lines)"
    unfolding lines_def list_all_iff zip_map2 using row_line_cell fits by (auto simp: set_zip)
  ultimately show ?thesis using len max by (intro exI [of _ widths] exI [of _ lines]) (simp add: lines_def list_all_iff)
qed

theorem print_table_grid_witness:
  "\<exists>widths lines. length widths = length [''id'', ''name'']
    \<and> print_table (table_result [''id'', ''name''] [[''1'', ''Alice''], [''12'']]) (Finite 3 0)
      = say (concat (rule_line widths # hd lines # rule_line widths # tl lines @ [rule_line widths])
        @ to_string (length [[''1'', ''Alice''], [''12'']]) @ '' row(s) in set '' @ format_elapsed (Finite 3 0) @ [NEWLINE])"
proof -
  have "list_all (list_all printable) ([''id'', ''name''] # [[''1'', ''Alice''], [''12'']])" by (simp add: printable_def)
  from print_table_grid [OF _ this, of "Finite 3 0"] show ?thesis by blast
qed

end
