(* ===== verification/Spec2Isabelle.thy ===== *)
theory Spec2Isabelle
  imports Table_Update Parser_Total Parser_Print Parser_Shape Ordering Conditions Database Lifecycle Shell
begin

text \<open>
  A verification development for GS-DBEngine, a relational database engine in C++ with a page file,
  a buffer pool, a redo log, B+ trees, a catalog, an SQL parser and an executor. The theories
  follow the layers of \<open>src/src\<close>; a definition keeps the name of the function it translates.

  The parts and how they interact. \<open>Database\<close> takes a text, has it tokenized and parsed, handles
  the statements about whole databases itself and gives the others to the \<open>Executor\<close> of the open
  one. The executor looks tables and indexes up in the catalog, makes \<open>Table\<close> and \<open>Index\<close> objects for the
  statement and stores moved tree roots back in the catalog. Tables and indexes are keys and bytes in
  B+ trees; a tree edits its pages in the buffer pool and logs each page under a transaction, whose
  commit makes the log durable and only then applies the pages. The catalog, the header and the
  free-page list are pages of the same pool and go through the same log.

  State. Every C++ method is a function from the state to a result or an exception and the state
  it leaves (type \<open>eff\<close> of \<open>Prelude\<close>); an exception keeps the mutations made before it. The state of a
  layer is a record that extends the one below it: \<open>disk\<close>, \<open>pool\<close>, \<open>wal\<close>, \<open>hdr\<close>, \<open>btrees\<close>, \<open>catalogs\<close> and
  \<open>objects\<close>, so that a method of a lower layer runs unchanged in a state of a higher one. A \<open>Page*\<close> is the
  index of its frame. A tree object is a handle, its \<open>root_page_\<close> a map from handles to pages. \<open>engine\<close> is
  the state of a \<open>Database\<close>, with the open stack as one of its fields. Machine integers are words;
  \<open>size_t\<close> values that cannot wrap are natural numbers. The outcome of every system call is read from
  a script, so a theorem about all states is about all I/O failures. Where C++ has no defined
  meaning the model throws \<open>Undefined_behaviour\<close>, which no handler catches.

  The theories, from the bottom to the top:
  \<^item> \<open>Prelude\<close>: the effect type and its weakest preconditions, little-endian codecs, lists.
  \<^item> \<open>Values\<close>, \<open>Floats\<close> (\<open>row/row.h\<close>): values, rows, the order of \<open>std::variant\<close> and \<open>std::vector\<close>; IEEE
    arithmetic on exact dyadic numbers, rounded once per operation.
  \<^item> \<open>Disk\<close>, \<open>Page_Store\<close>, \<open>Pool\<close> (\<open>storage/\<close>): the page file; the contract of a page cache as a locale, and
    the LRU cache that provides it. The lemmas relate a trace of client calls to an abstract store.
  \<^item> \<open>Wal\<close>, \<open>Header\<close>, \<open>Free_List\<close> (\<open>wal/\<close>, \<open>header/\<close>, \<open>btree/free_list_manager\<close>): the log, its scan and its
    replay, atomic commit and crash recovery; the header page; the list of free pages as a stack.
  \<^item> \<open>Key_Codec\<close>, \<open>Node\<close>, \<open>BTree\<close>, \<open>BTree_Read\<close>, \<open>BTree_Query\<close> (\<open>btree/\<close>): key and node encodings, the tree with
    splits and merges, what makes its pages well formed, and what search and the four scans return.
  \<^item> \<open>Tree_Zipper\<close>, \<open>Tree_Store\<close>, \<open>Tree_Split\<close>, \<open>Tree_Insert\<close>, \<open>Tree_Crash\<close>, \<open>Tree_Forest\<close>: insertion is correct. A subtree in its
    context and the halves of a node; what the writers see of the pool, the log and the free list, as
    rules on a memory of pages; the separator on its way up; the new entry in its leaf, the tree as a map;
    the insertion after commit, crash and recovery; and all trees of a database in one memory.
  \<^item> \<open>Schema\<close>, \<open>Serializer\<close>, \<open>Catalog\<close> (\<open>catalog/\<close>, \<open>row/serializer\<close>): schemas, rows as bytes, the catalog page; the
    interface of an encoding is the locale \<open>codec\<close>.
  \<^item> \<open>Tokenizer\<close>, \<open>Ast\<close>, \<open>Literals\<close>, \<open>Parser\<close>, \<open>Parser_Total\<close>, \<open>Parser_Shape\<close>, \<open>Parser_Print\<close> (\<open>parser/\<close>): the SQL front end;
    it ends on every text, what it builds is well shaped, and it undoes a printer of statements of all kinds.
  \<^item> \<open>Index\<close>, \<open>Table\<close> (\<open>index/\<close>, \<open>table/\<close>): secondary indexes and rows, uniqueness, automatic keys, the
    batch update with all its checks before its first write.
  \<^item> \<open>Tree_Remove\<close>: removal from a tree where the leaf stays half full, so that no node is borrowed from or merged.
  \<^item> \<open>Table_Insert\<close>, \<open>Table_Delete\<close>, \<open>Table_Update\<close>: a consistent table over its trees. Insertion, deletion and
    update of a row, each one transaction, keep it consistent; an inserted row is the one a selection finds. After a crash
    recovery brings it back, unless the page file lost pages it had grown by: then recovery throws and keeps the log.
  \<^item> \<open>Eval\<close>, \<open>Scan\<close>, \<open>Select\<close>, \<open>Foreign\<close>, \<open>Data_Definition\<close>, \<open>Execute\<close> (\<open>executor/\<close>): comparison, column resolution, index
    selection and covering scans; WHERE with subqueries; SELECT; foreign keys; CREATE and DROP; INSERT,
    UPDATE, DELETE and the entry point.
  \<^item> \<open>Database\<close> (\<open>database.cpp\<close>): the data directory, the life of the storage stack, SQL text.
  \<^item> \<open>Shell\<close> (\<open>cli/main.cpp\<close>): standard input cut into statements and commands, and what the terminal shows.
  \<^item> \<open>Ordering\<close>, \<open>Conditions\<close>, \<open>Lifecycle\<close>: what ORDER BY, LIKE and joins compute; what CHECK lists and index
    ranges are worth; what the statements about databases leave behind.

  Interfaces. \<open>page_store\<close> is what the layers above the pool rely on and \<open>Pool\<close> provides; \<open>page_stack\<close> is a
  list of pages that gives back what it took; \<open>codec\<close> an encoding that reads what it wrote; \<open>leaf_scan\<close> the
  body of a scan over leaves; \<open>key_order\<close> the laws of a comparison, used for values, keys and the order of
  rows; \<open>expression_grammar\<close> what WHERE and HAVING share. Each is interpreted on the model.

  Fuel. Loops the code does not bound run on fuel and raise \<open>Diverges\<close> when it is used up. A descent or a
  walk along the leaves has the number of pages plus one, which a walk that visits no page twice cannot
  use up; splits up the tree have twice the number of pages plus four, as each call moves up or makes a
  page. The parser has the number of tokens plus one; \<open>Parser_Total\<close> proves it enough. A cascade of deletes
  has the number of tables plus one, as a table can only reference older ones.

  What the theorems leave out. Rebalancing after an underflow is modelled as it is written, and it can destroy a node or
  hide an entry (\<open>int_merge_destroys_node\<close> in \<open>Node\<close>); removal, and with it deletion and update, is proved where it does not
  happen. Insertion needs short keys and room in the leaf or its halves, which the code does not check. The printer of
  \<open>Parser_Print\<close> has no float literals. Comparisons with NULL literals in CHECK, and of FLOAT literals with INT columns in an index search,
  are not those of WHERE; the theorems of \<open>Conditions\<close> exclude them and say so.

  Not modelled. Line editing is the terminal's: the shell sees the text of its input. Exception messages that name a file stop
  before the name, and those of \<open>std::filesystem\<close> are one text. \<open>std::stof\<close> takes decimal digits with one
  point, all the tokenizer produces. The iteration order of \<open>std::unordered_map\<close> is the insertion order.
  \<open>std::sort\<close> on equal elements keeps the order of the list. The system cannot run out of memory.
\<close>

end
